(* ===== verification/Acl_Prelude.thy ===== *)
theory Acl_Prelude
  imports Main "HOL-Library.Word"
begin

text \<open>
  What every component of the development shares: the names of the C types the sources
  use, the way a C function that can fault is written in HOL, byte buffers of a fixed
  capacity, and the list and word lemmas the component proofs rest on.

  A C function whose execution can be undefined or can abort returns a value of type
  \<open>'a cres\<close>: \<open>Inl f\<close> is the fault \<open>f\<close>, \<open>Inr v\<close> is a normal return of \<open>v\<close>.
\<close>

unbundle bit_operations_syntax

section \<open>C types\<close>

type_synonym byte = "8 word"
type_synonym cint = "32 word"
type_synonym addr = nat
type_synonym ptr = "addr option"

text \<open>
  The faults: a NULL pointer is dereferenced, a read or a write leaves its buffer, a
  signed \<open>int\<close> overflows, \<open>acl_msg_fatal\<close> or \<open>acl_assert\<close> ends the process, or a loop
  has used up the steps it was given.
\<close>

datatype cfault = NullDeref | OobRead | OobWrite | IntOverflow | Fatal | OutOfFuel

type_synonym 'a cres = "cfault + 'a"

definition INT_MAX :: int where
  "INT_MAX = 2147483647"

section \<open>Sequencing of operations that can fault\<close>

named_theorems cres_simps \<open>evaluation of sequences of operations that can fault\<close>

definition cbind :: "'a cres \<Rightarrow> ('a \<Rightarrow> 'b cres) \<Rightarrow> 'b cres" where
  "cbind m f = (case m of Inl e \<Rightarrow> Inl e | Inr x \<Rightarrow> f x)"

lemma cbind_simps [simp, cres_simps]:
  "cbind (Inl e) f = Inl e"
  "cbind (Inr x) f = f x"
  by (simp_all add: cbind_def)

lemma cbind_Inr_iff: "cbind m f = Inr y \<longleftrightarrow> (\<exists>x. m = Inr x \<and> f x = Inr y)"
  by (cases m) auto

lemma cbind_assoc: "cbind (cbind m f) g = cbind m (\<lambda>x. cbind (f x) g)"
  by (cases m) auto

lemma cbind_cong [fundef_cong]:
  "m = m' \<Longrightarrow> (\<And>x. m' = Inr x \<Longrightarrow> f x = g x) \<Longrightarrow> cbind m f = cbind m' g"
  by (cases m') auto

lemma cbind_map: "(\<And>x. f x = Inr (g x)) \<Longrightarrow> cbind m f = map_sum id g m"
  by (cases m) auto

definition deref :: "ptr \<Rightarrow> addr cres" where
  "deref p = (case p of None \<Rightarrow> Inl NullDeref | Some a \<Rightarrow> Inr a)"

lemma deref_simps [simp, cres_simps]:
  "deref None = Inl NullDeref"
  "deref (Some a) = Inr a"
  by (simp_all add: deref_def)

section \<open>Byte buffers\<close>

text \<open>
  A buffer of \<open>cap\<close> bytes that is filled from its start is a pair of \<open>cap\<close> and the bytes
  written so far; a write past its end is a fault. A read of a table or string at an index
  outside it is a fault too. A C string is the list of its bytes before the terminating NUL.
\<close>

type_synonym obuf = "nat \<times> byte list"

definition put :: "obuf \<Rightarrow> byte \<Rightarrow> obuf cres" where
  "put b c = (if length (snd b) < fst b then Inr (fst b, snd b @ [c]) else Inl OobWrite)"

fun put_all :: "obuf \<Rightarrow> byte list \<Rightarrow> obuf cres" where
  "put_all b [] = Inr b"
| "put_all b (c # cs) = cbind (put b c) (\<lambda>b'. put_all b' cs)"

definition tab_get :: "byte list \<Rightarrow> nat \<Rightarrow> byte cres" where
  "tab_get tab i = (if i < length tab then Inr (tab ! i) else Inl OobRead)"

definition bytes_of :: "string \<Rightarrow> byte list" where
  "bytes_of s = map of_char s"

lemma put_ok [simp]: "length bs < cap \<Longrightarrow> put (cap, bs) c = Inr (cap, bs @ [c])"
  by (simp add: put_def)

lemma put_full [simp]: "cap \<le> length bs \<Longrightarrow> put (cap, bs) c = Inl OobWrite"
  by (simp add: put_def)

lemma put_all_ok: "length bs + length cs \<le> cap \<Longrightarrow> put_all (cap, bs) cs = Inr (cap, bs @ cs)"
  by (induction cs arbitrary: bs) auto

lemma tab_get_ok [simp]: "i < length tab \<Longrightarrow> tab_get tab i = Inr (tab ! i)"
  by (simp add: tab_get_def)

lemma byte_eqI:
  assumes "bit a 0 = bit b 0" "bit a 1 = bit b 1" "bit a 2 = bit b 2" "bit a 3 = bit b 3"
    "bit a 4 = bit b 4" "bit a 5 = bit b 5" "bit a 6 = bit b 6" "bit a 7 = bit b 7"
  shows "a = (b :: byte)"
proof (rule bit_word_eqI)
  fix n assume "n < LENGTH(8)"
  then have "n \<in> {0, 1, 2, 3, 4, 5, 6, 7}" by auto
  with assms show "bit a n = bit b n" by auto
qed

section \<open>Lists\<close>

lemma hd_append_singleton: "hd (xs @ [y]) = (if xs = [] then y else hd xs)"
  by (cases xs) auto

lemma last_Cons_if: "last (x # xs) = (if xs = [] then x else last xs)"
  by simp

lemma notin_butlast_distinct: "distinct (x # xs) \<Longrightarrow> last (x # xs) \<notin> set (butlast (x # xs))"
  by (metis append_butlast_last_id distinct_append list.distinct(1) list.set_intros(1)
      disjoint_iff)

lemma notin_tl_distinct: "distinct xs \<Longrightarrow> xs \<noteq> [] \<Longrightarrow> hd xs \<notin> set (tl xs)"
  by (cases xs) auto

end
