(* ===== verification/Acl_Interfaces.thy ===== *)
theory Acl_Interfaces
  imports Acl_Prelude
begin

text \<open>
  The interfaces between the components, as locales: what a client may assume of the
  operations it calls, and what follows for every provider. Each locale is interpreted
  on the model's own definitions in the theory of the component that provides them.
\<close>

section \<open>Queues of intrusive nodes\<close>

text \<open>
  Fibers, their locks and the caches keep nodes in queues of a shared store. The client
  sees the store through \<open>holds h R\<close>: for every queue head \<open>r\<close>, \<open>R r\<close> is the list of
  the nodes queued there; a node that is not queued is a head with an empty list.
  \<open>enter_all\<close> and \<open>take_all\<close> are the loops of a client that queues a list of nodes and of
  one that takes \<open>n\<close> nodes.
\<close>

fun enter_all :: "('h \<Rightarrow> ptr \<Rightarrow> ptr \<Rightarrow> 'h cres) \<Rightarrow> 'h \<Rightarrow> addr \<Rightarrow> addr list \<Rightarrow> 'h cres" where
  "enter_all op h r [] = Inr h"
| "enter_all op h r (e # es) = cbind (op h (Some r) (Some e)) (\<lambda>h'. enter_all op h' r es)"

fun take_all :: "('h \<Rightarrow> ptr \<Rightarrow> (ptr \<times> 'h) cres) \<Rightarrow> 'h \<Rightarrow> addr \<Rightarrow> nat \<Rightarrow> (ptr list \<times> 'h) cres" where
  "take_all op h r 0 = Inr ([], h)"
| "take_all op h r (Suc n) =
     cbind (op h (Some r)) (\<lambda>(p, h'). cbind (take_all op h' r n) (\<lambda>(ps, h''). Inr (p # ps, h'')))"

locale node_queues =
  fixes holds :: "'h \<Rightarrow> (addr \<rightharpoonup> addr list) \<Rightarrow> bool"
    and enter_tail :: "'h \<Rightarrow> ptr \<Rightarrow> ptr \<Rightarrow> 'h cres"
    and enter_head :: "'h \<Rightarrow> ptr \<Rightarrow> ptr \<Rightarrow> 'h cres"
    and leave :: "'h \<Rightarrow> ptr \<Rightarrow> 'h cres"
    and take_head :: "'h \<Rightarrow> ptr \<Rightarrow> (ptr \<times> 'h) cres"
    and qsize :: "'h \<Rightarrow> ptr \<Rightarrow> int"
  assumes enter_tail: "holds h R \<Longrightarrow> R r = Some xs \<Longrightarrow> R e = Some [] \<Longrightarrow> r \<noteq> e \<Longrightarrow>
      \<exists>h'. enter_tail h (Some r) (Some e) = Inr h' \<and> holds h' (R(e := None, r \<mapsto> xs @ [e]))"
    and enter_head: "holds h R \<Longrightarrow> R r = Some xs \<Longrightarrow> R e = Some [] \<Longrightarrow> r \<noteq> e \<Longrightarrow>
      \<exists>h'. enter_head h (Some r) (Some e) = Inr h' \<and> holds h' (R(e := None, r \<mapsto> e # xs))"
    and leave: "holds h R \<Longrightarrow> R r = Some (xs @ e # ys) \<Longrightarrow>
      \<exists>h'. leave h (Some e) = Inr h' \<and> holds h' (R(r \<mapsto> xs @ ys, e \<mapsto> []))"
    and leave_idle: "holds h R \<Longrightarrow> R e = Some xs \<Longrightarrow> leave h (Some e) = Inr h"
    and take_head_empty: "holds h R \<Longrightarrow> R r = Some [] \<Longrightarrow> take_head h (Some r) = Inr (None, h)"
    and take_head: "holds h R \<Longrightarrow> R r = Some (x # xs) \<Longrightarrow>
      \<exists>h'. take_head h (Some r) = Inr (Some x, h') \<and> holds h' (R(r \<mapsto> xs, x \<mapsto> []))"
    and qsize: "holds h R \<Longrightarrow> R r = Some xs \<Longrightarrow> qsize h (Some r) = int (length xs)"
begin

lemma enter_all_holds:
  "holds h R \<Longrightarrow> R r = Some xs \<Longrightarrow> distinct es \<Longrightarrow> r \<notin> set es \<Longrightarrow> (\<And>e. e \<in> set es \<Longrightarrow> R e = Some []) \<Longrightarrow>
   \<exists>h'. enter_all enter_tail h r es = Inr h' \<and>
     holds h' ((\<lambda>a. if a \<in> set es then None else R a)(r \<mapsto> xs @ es))"
proof (induction es arbitrary: h R xs)
  case Nil
  then have "R(r \<mapsto> xs) = R" by (metis fun_upd_triv)
  with Nil show ?case by (auto simp: fun_upd_def cong: if_cong)
next
  case (Cons e es)
  then obtain h1 where h1: "enter_tail h (Some r) (Some e) = Inr h1"
    "holds h1 (R(e := None, r \<mapsto> xs @ [e]))"
    using enter_tail [of h R r xs e] by auto
  have "\<exists>h'. enter_all enter_tail h1 r es = Inr h' \<and> holds h'
      ((\<lambda>a. if a \<in> set es then None else (R(e := None, r \<mapsto> xs @ [e])) a)(r \<mapsto> (xs @ [e]) @ es))"
    by (rule Cons.IH [OF h1(2)]) (use Cons.prems in auto)
  moreover have "(\<lambda>a. if a \<in> set es then None else (R(e := None, r \<mapsto> xs @ [e])) a)(r \<mapsto> (xs @ [e]) @ es)
      = (\<lambda>a. if a \<in> set (e # es) then None else R a)(r \<mapsto> xs @ e # es)"
    by (rule ext) auto
  ultimately show ?case using h1(1) by (auto simp: fun_upd_def)
qed

lemma take_all_holds:
  "holds h R \<Longrightarrow> R r = Some xs \<Longrightarrow> r \<notin> set xs \<Longrightarrow>
   \<exists>h'. take_all take_head h r (length xs) = Inr (map Some xs, h') \<and>
     holds h' ((\<lambda>a. if a \<in> set xs then Some [] else R a)(r \<mapsto> []))"
proof (induction xs arbitrary: h R)
  case Nil
  then have "R(r \<mapsto> []) = R" by (metis fun_upd_triv)
  with Nil show ?case by (auto simp: fun_upd_def cong: if_cong)
next
  case (Cons x xs)
  then obtain h1 where h1: "take_head h (Some r) = Inr (Some x, h1)" "holds h1 (R(r \<mapsto> xs, x \<mapsto> []))"
    using take_head by blast
  have "\<exists>h'. take_all take_head h1 r (length xs) = Inr (map Some xs, h') \<and>
     holds h' ((\<lambda>a. if a \<in> set xs then Some [] else (R(r \<mapsto> xs, x \<mapsto> [])) a)(r \<mapsto> []))"
    by (rule Cons.IH [OF h1(2)]) (use Cons.prems in auto)
  moreover have "(\<lambda>a. if a \<in> set xs then Some [] else (R(r \<mapsto> xs, x \<mapsto> [])) a)(r \<mapsto> [])
      = (\<lambda>a. if a \<in> set (x # xs) then Some [] else R a)(r \<mapsto> [])"
    using Cons.prems by (intro ext) auto
  ultimately show ?case using h1(1) by (auto simp: fun_upd_def)
qed

text \<open>First in, first out: the nodes come out in the order they were queued.\<close>

lemma fifo_order:
  assumes "holds h R" "R r = Some []" "distinct es" "r \<notin> set es" "\<And>e. e \<in> set es \<Longrightarrow> R e = Some []"
  shows "\<exists>h' h''. enter_all enter_tail h r es = Inr h' \<and> qsize h' (Some r) = int (length es) \<and>
           take_all take_head h' r (length es) = Inr (map Some es, h'') \<and> holds h'' R"
proof -
  let ?R' = "(\<lambda>a. if a \<in> set es then None else R a)(r \<mapsto> es)"
  obtain h' where h': "enter_all enter_tail h r es = Inr h'" "holds h' ?R'"
    using enter_all_holds [of h R r "[]" es] assms by auto
  obtain h'' where h'': "take_all take_head h' r (length es) = Inr (map Some es, h'')"
    "holds h'' ((\<lambda>a. if a \<in> set es then Some [] else ?R' a)(r \<mapsto> []))"
    using take_all_holds [OF h'(2), of r es] assms(4) by auto
  have "(\<lambda>a. if a \<in> set es then Some [] else ?R' a)(r \<mapsto> []) = R"
    using assms(2,4,5) by (intro ext) auto
  moreover have "qsize h' (Some r) = int (length es)"
    by (rule qsize [OF h'(2)]) simp
  ultimately show ?thesis using h'(1) h'' by auto
qed

text \<open>A node that leaves from the middle, as a killed fiber does, keeps the order of the others.\<close>

lemma leave_keeps_order:
  assumes "holds h R" "R r = Some (xs @ e # ys)" "r \<notin> set (xs @ e # ys)"
  shows "\<exists>h' h''. leave h (Some e) = Inr h' \<and>
           take_all take_head h' r (length (xs @ ys)) = Inr (map Some (xs @ ys), h'')"
proof -
  obtain h' where h': "leave h (Some e) = Inr h'" "holds h' (R(r \<mapsto> xs @ ys, e \<mapsto> []))"
    using leave [OF assms(1,2)] by blast
  with take_all_holds [OF h'(2), of r "xs @ ys"] assms(3) show ?thesis by auto
qed

end

section \<open>Codecs\<close>

text \<open>
  An encoder and a decoder of byte strings, for the inputs that satisfy \<open>fits\<close>. The decoder
  returns \<open>None\<close> for text that it refuses. \<open>repeat_enc\<close> and \<open>repeat_dec\<close> are what a client does
  that applies a codec several times over.
\<close>

fun repeat_enc :: "('a \<Rightarrow> 'a cres) \<Rightarrow> nat \<Rightarrow> 'a \<Rightarrow> 'a cres" where
  "repeat_enc enc 0 a = Inr a"
| "repeat_enc enc (Suc n) a = cbind (repeat_enc enc n a) enc"

fun repeat_dec :: "('a \<Rightarrow> 'a option cres) \<Rightarrow> nat \<Rightarrow> 'a \<Rightarrow> 'a option cres" where
  "repeat_dec dec 0 a = Inr (Some a)"
| "repeat_dec dec (Suc n) a =
     cbind (dec a) (\<lambda>r. case r of None \<Rightarrow> Inr None | Some b \<Rightarrow> repeat_dec dec n b)"

locale codec =
  fixes fits :: "byte list \<Rightarrow> bool"
    and enc :: "byte list \<Rightarrow> byte list cres"
    and dec :: "byte list \<Rightarrow> byte list option cres"
  assumes enc_total: "fits a \<Longrightarrow> \<exists>t. enc a = Inr t"
    and dec_enc: "fits a \<Longrightarrow> enc a = Inr t \<Longrightarrow> dec t = Inr (Some a)"
begin

lemma enc_inj: "fits a \<Longrightarrow> fits b \<Longrightarrow> enc a = enc b \<Longrightarrow> a = b"
  using enc_total dec_enc by (metis Inr_inject option.inject)

lemma roundtrip: "fits a \<Longrightarrow> cbind (enc a) dec = Inr (Some a)"
  using enc_total [of a] dec_enc by auto

end

text \<open>A codec whose output it can encode again.\<close>

locale nested_codec = codec +
  assumes fits_enc: "fits a \<Longrightarrow> enc a = Inr t \<Longrightarrow> fits t"
begin

lemma repeat_enc_fits: "fits a \<Longrightarrow> repeat_enc enc n a = Inr t \<Longrightarrow> fits t"
  by (induction n arbitrary: t) (auto simp: cbind_Inr_iff dest: fits_enc)

lemma nested_roundtrip: "fits a \<Longrightarrow> cbind (repeat_enc enc n a) (repeat_dec dec n) = Inr (Some a)"
proof (induction n)
  case (Suc n)
  from Suc.IH [OF Suc.prems] obtain t where t: "repeat_enc enc n a = Inr t" "repeat_dec dec n t = Inr (Some a)"
    by (auto simp: cbind_Inr_iff)
  have "fits t" by (rule repeat_enc_fits [OF Suc.prems t(1)])
  then obtain u where "enc t = Inr u" "dec u = Inr (Some t)" using enc_total dec_enc by blast
  with t show ?case by simp
qed simp

end

section \<open>Tables\<close>

text \<open>
  A table of values under keys: what a lookup returns after an insert. \<open>insert_all\<close> is the
  loop of a client that fills a table from a list of entries.
\<close>

fun insert_all :: "('t \<Rightarrow> 'k \<Rightarrow> 'v \<Rightarrow> 't cres) \<Rightarrow> 't \<Rightarrow> ('k \<times> 'v) list \<Rightarrow> 't cres" where
  "insert_all ins t [] = Inr t"
| "insert_all ins t ((k, v) # es) = cbind (ins t k v) (\<lambda>t'. insert_all ins t' es)"

locale key_table =
  fixes tinv :: "'t \<Rightarrow> bool"
    and key_ok :: "'k \<Rightarrow> bool"
    and ins :: "'t \<Rightarrow> 'k \<Rightarrow> 'v \<Rightarrow> 't cres"
    and look :: "'t \<Rightarrow> 'k \<Rightarrow> 'v option cres"
  assumes ins: "tinv t \<Longrightarrow> key_ok k \<Longrightarrow> \<exists>t'. ins t k v = Inr t' \<and> tinv t' \<and>
      (\<forall>k'. key_ok k' \<longrightarrow> look t' k' = (if k' = k then Inr (Some v) else look t k'))"
begin

lemma insert_all_looks:
  assumes "tinv t" "list_all (\<lambda>(k, v). key_ok k) es"
  shows "\<exists>t'. insert_all ins t es = Inr t' \<and> tinv t' \<and>
    (\<forall>k. key_ok k \<longrightarrow> look t' k = (case map_of (rev es) k of Some v \<Rightarrow> Inr (Some v) | None \<Rightarrow> look t k))"
  using assms
proof (induction es arbitrary: t)
  case (Cons e es)
  obtain k v where e: "e = (k, v)" by fastforce
  with Cons.prems have k: "key_ok k" by simp
  obtain t1 where t1: "ins t k v = Inr t1" "tinv t1"
    "\<And>k'. key_ok k' \<Longrightarrow> look t1 k' = (if k' = k then Inr (Some v) else look t k')"
    using ins [OF Cons.prems(1) k] by blast
  obtain t2 where "insert_all ins t1 es = Inr t2" "tinv t2"
    "\<And>k'. key_ok k' \<Longrightarrow> look t2 k' = (case map_of (rev es) k' of Some v \<Rightarrow> Inr (Some v) | None \<Rightarrow> look t1 k')"
    using Cons.IH [OF t1(2)] Cons.prems(2) by auto
  with t1 e show ?case
    by (intro exI [of _ t2]) (auto simp: map_add_def split: option.splits)
qed simp

end

section \<open>Sequences of objects\<close>

text \<open>
  The array, the stack and the fifo all offer the four operations of \<open>acl_iterator.h\<close>'s
  containers at both ends. \<open>seq_op\<close> is a call of one of them, \<open>seq_run\<close> a sequence of calls on a
  container and \<open>list_run\<close> the same calls on a list; a pop of an empty container gives NULL, and so
  does, as a filler, a push. \<open>storable x\<close> says that the container takes \<open>x\<close>, and \<open>front_ok xs\<close>
  that it takes an object at the front when it holds \<open>xs\<close>.
\<close>

datatype seq_op = PushBack ptr | PushFront ptr | PopBack | PopFront

fun list_op :: "(ptr \<Rightarrow> bool) \<Rightarrow> (ptr list \<Rightarrow> bool) \<Rightarrow> seq_op \<Rightarrow> ptr list \<Rightarrow> ptr \<times> ptr list" where
  "list_op st fr (PushBack x) xs = (None, if st x then xs @ [x] else xs)"
| "list_op st fr (PushFront x) xs = (None, if st x \<and> fr xs then x # xs else xs)"
| "list_op st fr PopBack xs = (if xs = [] then (None, []) else (last xs, butlast xs))"
| "list_op st fr PopFront xs = (case xs of [] \<Rightarrow> (None, []) | x # ys \<Rightarrow> (x, ys))"

fun list_run :: "(ptr \<Rightarrow> bool) \<Rightarrow> (ptr list \<Rightarrow> bool) \<Rightarrow> seq_op list \<Rightarrow> ptr list \<Rightarrow> ptr list \<times> ptr list" where
  "list_run st fr [] xs = ([], xs)"
| "list_run st fr (c # cs) xs =
     (let (r, ys) = list_op st fr c xs; (rs, zs) = list_run st fr cs ys in (r # rs, zs))"

fun seq_step :: "('s \<Rightarrow> ptr \<Rightarrow> 's cres) \<Rightarrow> ('s \<Rightarrow> ptr \<Rightarrow> 's cres) \<Rightarrow> ('s \<Rightarrow> (ptr \<times> 's) cres) \<Rightarrow>
    ('s \<Rightarrow> (ptr \<times> 's) cres) \<Rightarrow> seq_op \<Rightarrow> 's \<Rightarrow> (ptr \<times> 's) cres" where
  "seq_step pb pf ob of' (PushBack x) s = cbind (pb s x) (\<lambda>s'. Inr (None, s'))"
| "seq_step pb pf ob of' (PushFront x) s = cbind (pf s x) (\<lambda>s'. Inr (None, s'))"
| "seq_step pb pf ob of' PopBack s = ob s"
| "seq_step pb pf ob of' PopFront s = of' s"

fun seq_run :: "('s \<Rightarrow> ptr \<Rightarrow> 's cres) \<Rightarrow> ('s \<Rightarrow> ptr \<Rightarrow> 's cres) \<Rightarrow> ('s \<Rightarrow> (ptr \<times> 's) cres) \<Rightarrow>
    ('s \<Rightarrow> (ptr \<times> 's) cres) \<Rightarrow> seq_op list \<Rightarrow> 's \<Rightarrow> (ptr list \<times> 's) cres" where
  "seq_run pb pf ob of' [] s = Inr ([], s)"
| "seq_run pb pf ob of' (c # cs) s =
     cbind (seq_step pb pf ob of' c s) (\<lambda>(r, s1).
     cbind (seq_run pb pf ob of' cs s1) (\<lambda>(rs, s2). Inr (r # rs, s2)))"

lemma list_run_length: "length (fst (list_run st fr cs xs)) = length cs"
  by (induction cs arbitrary: xs) (auto simp: Let_def split: prod.splits, metis fst_conv)

lemma list_run_append:
  "list_run st fr (cs @ ds) xs =
     (let (rs, ys) = list_run st fr cs xs; (rs', zs) = list_run st fr ds ys in (rs @ rs', zs))"
  by (induction cs arbitrary: xs) (auto simp: Let_def split: prod.splits)

lemma list_run_pushes:
  "list_all st es \<Longrightarrow> list_run st fr (map PushBack es) xs = (replicate (length es) None, xs @ es)"
  by (induction es arbitrary: xs) auto

lemma list_run_pop_fronts: "list_run st fr (replicate (length xs) PopFront) xs = (xs, [])"
  by (induction xs) auto

lemma list_run_pop_backs: "list_run st fr (replicate (length xs) PopBack) xs = (rev xs, [])"
  by (induction xs rule: rev_induct) (auto simp: Let_def)

locale obj_seq =
  fixes holds :: "'s \<Rightarrow> ptr list \<Rightarrow> bool"
    and storable :: "ptr \<Rightarrow> bool"
    and front_ok :: "ptr list \<Rightarrow> bool"
    and push_back push_front :: "'s \<Rightarrow> ptr \<Rightarrow> 's cres"
    and pop_back pop_front :: "'s \<Rightarrow> (ptr \<times> 's) cres"
  assumes push_back: "holds s xs \<Longrightarrow> \<exists>s'. push_back s x = Inr s' \<and> holds s' (if storable x then xs @ [x] else xs)"
    and push_front: "holds s xs \<Longrightarrow>
      \<exists>s'. push_front s x = Inr s' \<and> holds s' (if storable x \<and> front_ok xs then x # xs else xs)"
    and pop_back_empty: "holds s [] \<Longrightarrow> pop_back s = Inr (None, s)"
    and pop_back: "holds s (xs @ [x]) \<Longrightarrow> \<exists>s'. pop_back s = Inr (x, s') \<and> holds s' xs"
    and pop_front_empty: "holds s [] \<Longrightarrow> pop_front s = Inr (None, s)"
    and pop_front: "holds s (x # xs) \<Longrightarrow> \<exists>s'. pop_front s = Inr (x, s') \<and> holds s' xs"
begin

lemma step_refines:
  assumes "holds s xs" "list_op storable front_ok c xs = (r, ys)"
  shows "\<exists>s'. seq_step push_back push_front pop_back pop_front c s = Inr (r, s') \<and> holds s' ys"
proof (cases c)
  case (PushBack x)
  with assms push_back [OF assms(1), of x] show ?thesis by auto
next
  case (PushFront x)
  with assms push_front [OF assms(1), of x] show ?thesis by auto
next
  case PopBack
  with assms pop_back_empty pop_back [of s "butlast xs" "last xs"] show ?thesis
    by (cases "xs = []") auto
next
  case PopFront
  with assms pop_front_empty pop_front show ?thesis by (cases xs) auto
qed

lemma run_refines:
  "holds s xs \<Longrightarrow> list_run storable front_ok cs xs = (rs, ys) \<Longrightarrow>
   \<exists>s'. seq_run push_back push_front pop_back pop_front cs s = Inr (rs, s') \<and> holds s' ys"
proof (induction cs arbitrary: s xs rs)
  case (Cons c cs)
  obtain r zs where c: "list_op storable front_ok c xs = (r, zs)" by fastforce
  obtain rs' where cs: "list_run storable front_ok cs zs = (rs', ys)" "rs = r # rs'"
    using Cons.prems(2) c by (auto split: prod.splits)
  obtain s1 where s1: "seq_step push_back push_front pop_back pop_front c s = Inr (r, s1)" "holds s1 zs"
    using step_refines [OF Cons.prems(1) c] by blast
  then show ?case using Cons.IH [OF s1(2) cs(1)] cs(2) by auto
qed simp

text \<open>Used as a queue it is first in, first out; used as a stack, last in, first out.\<close>

lemma run_fifo:
  assumes "holds s xs" "list_all storable es"
  shows "\<exists>s'. seq_run push_back push_front pop_back pop_front
            (map PushBack es @ replicate (length (xs @ es)) PopFront) s =
          Inr (replicate (length es) None @ xs @ es, s') \<and> holds s' []"
  by (rule run_refines [OF assms(1)])
    (simp add: list_run_append list_run_pushes [OF assms(2)] list_run_pop_fronts del: length_append)

lemma run_lifo:
  assumes "holds s xs" "list_all storable es"
  shows "\<exists>s'. seq_run push_back push_front pop_back pop_front
            (map PushBack es @ replicate (length (xs @ es)) PopBack) s =
          Inr (replicate (length es) None @ rev (xs @ es), s') \<and> holds s' []"
  by (rule run_refines [OF assms(1)])
    (simp add: list_run_append list_run_pushes [OF assms(2)] list_run_pop_backs del: length_append)

end

text \<open>A container that always takes an object at the front.\<close>

locale obj_deque = obj_seq +
  assumes front_always: "front_ok xs"
begin

lemma front_back_mirror:
  assumes "holds s []" "storable x"
  shows "\<exists>s1 s2 s3. push_front s x = Inr s1 \<and> push_back s x = Inr s2 \<and> holds s1 [x] \<and> holds s2 [x] \<and>
    pop_back s1 = Inr (x, s3) \<and> holds s3 []"
proof -
  obtain s1 where s1: "push_front s x = Inr s1" "holds s1 [x]"
    using push_front [OF assms(1), of x] assms(2) front_always by auto
  obtain s2 where "push_back s x = Inr s2" "holds s2 [x]"
    using push_back [OF assms(1), of x] assms(2) by auto
  with s1 pop_back [of s1 "[]" x] show ?thesis by auto
qed

end

section \<open>Sets of ranges\<close>

text \<open>
  A set of numbers that ranges are added to and numbers are looked up in. \<open>add_all\<close> is the loop of a
  client that adds a list of ranges, given by their two ends in either order.
\<close>

fun add_all :: "('s \<Rightarrow> 'n \<Rightarrow> 'n \<Rightarrow> 's cres) \<Rightarrow> 's \<Rightarrow> ('n \<times> 'n) list \<Rightarrow> 's cres" where
  "add_all add s [] = Inr s"
| "add_all add s ((b, e) # bes) = cbind (add s b e) (\<lambda>s'. add_all add s' bes)"

locale range_set =
  fixes reps :: "'s \<Rightarrow> 'n :: linorder set \<Rightarrow> bool"
    and add :: "'s \<Rightarrow> 'n \<Rightarrow> 'n \<Rightarrow> 's cres"
    and look :: "'s \<Rightarrow> 'n \<Rightarrow> ptr cres"
  assumes add: "reps s S \<Longrightarrow> \<exists>s'. add s b e = Inr s' \<and> reps s' (S \<union> {min b e..max b e})"
    and look: "reps s S \<Longrightarrow> \<exists>p. look s n = Inr p \<and> (p \<noteq> None \<longleftrightarrow> n \<in> S)"
begin

lemma add_all_covers:
  "reps s S \<Longrightarrow> \<exists>s'. add_all add s bes = Inr s' \<and> reps s' (S \<union> (\<Union>(b, e)\<in>set bes. {min b e..max b e}))"
proof (induction bes arbitrary: s S)
  case (Cons be bes)
  obtain b e where be: "be = (b, e)" by fastforce
  obtain s1 where s1: "add s b e = Inr s1" "reps s1 (S \<union> {min b e..max b e})"
    using add [OF Cons.prems] by blast
  from Cons.IH [OF s1(2)] s1(1) be show ?case by (simp add: Un_assoc)
qed simp

end

section \<open>Dictionaries\<close>

text \<open>
  A dictionary keeps the value that was entered first under a key: entering another one returns the
  old entry and says so. \<open>norm\<close> is what the table makes of a key before it looks for it. \<open>dict_run\<close>
  is a sequence of calls on a table, \<open>map_run\<close> the same calls on a map. Finding a key that is not there
  gives NULL; deleting gives the return value and what the destructor of values is called on.
\<close>

datatype 'k dict_op = DEnter 'k ptr | DFind 'k | DDelete 'k

datatype dict_res = Entered bool ptr | Found ptr | Deleted int "ptr list"

fun map_op :: "('k \<Rightarrow> 'k) \<Rightarrow> 'k dict_op \<Rightarrow> ('k \<rightharpoonup> ptr) \<Rightarrow> dict_res \<times> ('k \<rightharpoonup> ptr)" where
  "map_op norm (DEnter k v) m =
     (case m (norm k) of None \<Rightarrow> (Entered False v, m(norm k \<mapsto> v)) | Some w \<Rightarrow> (Entered True w, m))"
| "map_op norm (DFind k) m = (Found (case m (norm k) of None \<Rightarrow> None | Some v \<Rightarrow> v), m)"
| "map_op norm (DDelete k) m =
     (case m (norm k) of
        None \<Rightarrow> (Deleted (-1) [], m)
      | Some v \<Rightarrow> (Deleted 0 (if v = None then [] else [v]), m(norm k := None)))"

fun map_run :: "('k \<Rightarrow> 'k) \<Rightarrow> 'k dict_op list \<Rightarrow> ('k \<rightharpoonup> ptr) \<Rightarrow> dict_res list \<times> ('k \<rightharpoonup> ptr)" where
  "map_run norm [] m = ([], m)"
| "map_run norm (c # cs) m = (let (r, m1) = map_op norm c m; (rs, m2) = map_run norm cs m1 in (r # rs, m2))"

fun dict_step :: "('t \<Rightarrow> 'k \<Rightarrow> ptr \<Rightarrow> (bool \<times> ptr \<times> 't) cres) \<Rightarrow> ('t \<Rightarrow> 'k \<Rightarrow> (ptr \<times> 't) cres) \<Rightarrow>
    ('t \<Rightarrow> 'k \<Rightarrow> (int \<times> ptr list \<times> 't) cres) \<Rightarrow> 'k dict_op \<Rightarrow> 't \<Rightarrow> (dict_res \<times> 't) cres" where
  "dict_step en fi de (DEnter k v) t = cbind (en t k v) (\<lambda>(d, w, t'). Inr (Entered d w, t'))"
| "dict_step en fi de (DFind k) t = cbind (fi t k) (\<lambda>(v, t'). Inr (Found v, t'))"
| "dict_step en fi de (DDelete k) t = cbind (de t k) (\<lambda>(r, fs, t'). Inr (Deleted r fs, t'))"

fun dict_run :: "('t \<Rightarrow> 'k \<Rightarrow> ptr \<Rightarrow> (bool \<times> ptr \<times> 't) cres) \<Rightarrow> ('t \<Rightarrow> 'k \<Rightarrow> (ptr \<times> 't) cres) \<Rightarrow>
    ('t \<Rightarrow> 'k \<Rightarrow> (int \<times> ptr list \<times> 't) cres) \<Rightarrow> 'k dict_op list \<Rightarrow> 't \<Rightarrow> (dict_res list \<times> 't) cres" where
  "dict_run en fi de [] t = Inr ([], t)"
| "dict_run en fi de (c # cs) t =
     cbind (dict_step en fi de c t) (\<lambda>(r, t1). cbind (dict_run en fi de cs t1) (\<lambda>(rs, t2). Inr (r # rs, t2)))"

locale dict_table =
  fixes holds :: "'t \<Rightarrow> ('k \<rightharpoonup> ptr) \<Rightarrow> bool"
    and norm :: "'k \<Rightarrow> 'k"
    and en :: "'t \<Rightarrow> 'k \<Rightarrow> ptr \<Rightarrow> (bool \<times> ptr \<times> 't) cres"
    and fi :: "'t \<Rightarrow> 'k \<Rightarrow> (ptr \<times> 't) cres"
    and de :: "'t \<Rightarrow> 'k \<Rightarrow> (int \<times> ptr list \<times> 't) cres"
  assumes enter_new: "holds t m \<Longrightarrow> m (norm k) = None \<Longrightarrow>
      \<exists>t'. en t k v = Inr (False, v, t') \<and> holds t' (m(norm k \<mapsto> v))"
    and enter_old: "holds t m \<Longrightarrow> m (norm k) = Some w \<Longrightarrow> \<exists>t'. en t k v = Inr (True, w, t') \<and> holds t' m"
    and find_key: "holds t m \<Longrightarrow> \<exists>t'. fi t k = Inr (case m (norm k) of None \<Rightarrow> None | Some v \<Rightarrow> v, t') \<and> holds t' m"
    and delete_old: "holds t m \<Longrightarrow> m (norm k) = Some v \<Longrightarrow>
      \<exists>t'. de t k = Inr (0, if v = None then [] else [v], t') \<and> holds t' (m(norm k := None))"
    and delete_none: "holds t m \<Longrightarrow> m (norm k) = None \<Longrightarrow> \<exists>t'. de t k = Inr (-1, [], t') \<and> holds t' m"
begin

lemma dict_step_refines:
  assumes "holds t m" "map_op norm c m = (r, m')"
  shows "\<exists>t'. dict_step en fi de c t = Inr (r, t') \<and> holds t' m'"
proof (cases c)
  case (DEnter k v)
  show ?thesis
  proof (cases "m (norm k)")
    case None
    then show ?thesis using enter_new [OF assms(1) None, of v] assms(2) DEnter by auto
  next
    case (Some w)
    then show ?thesis using enter_old [OF assms(1) Some, of v] assms(2) DEnter by auto
  qed
next
  case (DFind k)
  then show ?thesis using find_key [OF assms(1), of k] assms(2) by auto
next
  case (DDelete k)
  show ?thesis
  proof (cases "m (norm k)")
    case None
    then show ?thesis using delete_none [OF assms(1) None] assms(2) DDelete by auto
  next
    case (Some w)
    then show ?thesis using delete_old [OF assms(1) Some] assms(2) DDelete by auto
  qed
qed

lemma dict_run_refines:
  assumes "holds t m" "map_run norm cs m = (rs, m')"
  shows "\<exists>t'. dict_run en fi de cs t = Inr (rs, t') \<and> holds t' m'"
  using assms
proof (induction cs arbitrary: t m rs)
  case (Cons c cs)
  obtain r m1 where m1: "map_op norm c m = (r, m1)" by fastforce
  obtain qs where qs: "map_run norm cs m1 = (qs, m')" "rs = r # qs"
    using Cons.prems(2) m1 by (auto split: prod.splits)
  obtain t1 where t1: "dict_step en fi de c t = Inr (r, t1)" "holds t1 m1"
    using dict_step_refines [OF Cons.prems(1) m1] by blast
  obtain t2 where "dict_run en fi de cs t1 = Inr (qs, t2)" "holds t2 m'"
    using Cons.IH [OF t1(2) qs(1)] by blast
  with t1(1) qs(2) show ?case by auto
qed simp

end

end
