(* ===== verification/Acl_Ring.thy ===== *)
theory Acl_Ring
  imports Acl_Interfaces
begin

text \<open>
  The intrusive doubly linked ring of \<open>lib_acl/src/stdlib/common/acl_ring.c\<close>, which the
  fibers, their locks, the cache and the event engine are built from.

  A ring node is embedded in the structure it links, so the nodes live in a store: the
  record \<open>ring_heap\<close> gives each field of \<open>struct ACL_RING\<close> as a function of the node's
  address, and NULL is \<open>None\<close>. Every operation is the sequence of assignments of the C
  function; dereferencing NULL is the fault \<open>NullDeref\<close>. The predicate \<open>is_ring h r xs\<close>
  says that in \<open>h\<close> the head \<open>r\<close> links exactly the nodes \<open>xs\<close>, in that order. A node that is in no
  ring is a ring of its own with no entries, as \<open>acl_ring_detach\<close> leaves it.
\<close>

section \<open>The nodes and the operations\<close>

record ring_heap =
  rg_succ :: "addr \<Rightarrow> ptr"
  rg_pred :: "addr \<Rightarrow> ptr"
  rg_parent :: "addr \<Rightarrow> ptr"
  rg_len :: "addr \<Rightarrow> int"

definition set_succ :: "addr \<Rightarrow> ptr \<Rightarrow> ring_heap \<Rightarrow> ring_heap" where
  "set_succ a v h = h\<lparr>rg_succ := (rg_succ h)(a := v)\<rparr>"

definition set_pred :: "addr \<Rightarrow> ptr \<Rightarrow> ring_heap \<Rightarrow> ring_heap" where
  "set_pred a v h = h\<lparr>rg_pred := (rg_pred h)(a := v)\<rparr>"

definition set_parent :: "addr \<Rightarrow> ptr \<Rightarrow> ring_heap \<Rightarrow> ring_heap" where
  "set_parent a v h = h\<lparr>rg_parent := (rg_parent h)(a := v)\<rparr>"

definition set_len :: "addr \<Rightarrow> int \<Rightarrow> ring_heap \<Rightarrow> ring_heap" where
  "set_len a v h = h\<lparr>rg_len := (rg_len h)(a := v)\<rparr>"

definition acl_ring_init :: "ring_heap \<Rightarrow> ptr \<Rightarrow> ring_heap" where
  "acl_ring_init h ring =
     (case ring of
        None \<Rightarrow> h
      | Some r \<Rightarrow>
          set_len r 0 (set_parent r (Some r) (set_pred r (Some r) (set_succ r (Some r) h))))"

definition acl_ring_size :: "ring_heap \<Rightarrow> ptr \<Rightarrow> int" where
  "acl_ring_size h ring = (case ring of None \<Rightarrow> -1 | Some r \<Rightarrow> rg_len h r)"

definition acl_ring_append :: "ring_heap \<Rightarrow> ptr \<Rightarrow> ptr \<Rightarrow> ring_heap cres" where
  "acl_ring_append h ring entry =
     (case (ring, entry) of
        (Some r, Some e) \<Rightarrow>
          (let h1 = set_succ e (rg_succ h r) h;
               h2 = set_pred e (Some r) h1;
               h3 = set_parent e (rg_parent h2 r) h2
           in cbind (deref (rg_succ h3 r)) (\<lambda>s.
              let h4 = set_pred s (Some e) h3;
                  h5 = set_succ r (Some e) h4
              in cbind (deref (rg_parent h5 r)) (\<lambda>p.
                 Inr (set_len p (rg_len h5 p + 1) h5))))
      | _ \<Rightarrow> Inr h)"

definition acl_ring_prepend :: "ring_heap \<Rightarrow> ptr \<Rightarrow> ptr \<Rightarrow> ring_heap cres" where
  "acl_ring_prepend h ring entry =
     (case (ring, entry) of
        (Some r, Some e) \<Rightarrow>
          (let h1 = set_pred e (rg_pred h r) h;
               h2 = set_succ e (Some r) h1;
               h3 = set_parent e (rg_parent h2 r) h2
           in cbind (deref (rg_pred h3 r)) (\<lambda>s.
              let h4 = set_succ s (Some e) h3;
                  h5 = set_pred r (Some e) h4
              in cbind (deref (rg_parent h5 r)) (\<lambda>p.
                 Inr (set_len p (rg_len h5 p + 1) h5))))
      | _ \<Rightarrow> Inr h)"

definition acl_ring_detach :: "ring_heap \<Rightarrow> ptr \<Rightarrow> ring_heap cres" where
  "acl_ring_detach h entry =
     (case entry of
        None \<Rightarrow> Inr h
      | Some e \<Rightarrow>
          if rg_parent h e = Some e then Inr h
          else (case (rg_succ h e, rg_pred h e) of
             (Some s, Some p) \<Rightarrow>
               (let h1 = set_succ p (Some s) h;
                    h2 = set_pred s (Some p) h1
                in cbind (deref (rg_parent h2 e)) (\<lambda>q.
                   let h3 = set_len q (rg_len h2 q - 1) h2;
                       h4 = set_succ e (Some e) (set_pred e (Some e) h3);
                       h5 = set_parent e (Some e) h4
                   in Inr (set_len e 0 h5)))
           | _ \<Rightarrow> Inr h))"

definition acl_ring_pop_head :: "ring_heap \<Rightarrow> ptr \<Rightarrow> (ptr \<times> ring_heap) cres" where
  "acl_ring_pop_head h ring =
     (case ring of
        None \<Rightarrow> Inr (None, h)
      | Some r \<Rightarrow>
          (let s = rg_succ h r
           in if s = Some r then Inr (None, h)
              else cbind (acl_ring_detach h s) (\<lambda>h'. Inr (s, h'))))"

definition acl_ring_pop_tail :: "ring_heap \<Rightarrow> ptr \<Rightarrow> (ptr \<times> ring_heap) cres" where
  "acl_ring_pop_tail h ring =
     (case ring of
        None \<Rightarrow> Inr (None, h)
      | Some r \<Rightarrow>
          (let p = rg_pred h r
           in if p = Some r then Inr (None, h)
              else cbind (acl_ring_detach h p) (\<lambda>h'. Inr (p, h'))))"

lemmas set_field_defs = set_succ_def set_pred_def set_parent_def set_len_def

section \<open>Rings in the store\<close>

definition link :: "ring_heap \<Rightarrow> addr \<Rightarrow> addr \<Rightarrow> bool" where
  "link h p q \<longleftrightarrow> rg_succ h p = Some q \<and> rg_pred h q = Some p"

fun chain :: "ring_heap \<Rightarrow> addr list \<Rightarrow> bool" where
  "chain h (x # y # zs) \<longleftrightarrow> link h x y \<and> chain h (y # zs)"
| "chain h _ \<longleftrightarrow> True"

definition is_ring :: "ring_heap \<Rightarrow> addr \<Rightarrow> addr list \<Rightarrow> bool" where
  "is_ring h r xs \<longleftrightarrow>
     distinct (r # xs) \<and> chain h (r # xs @ [r]) \<and>
     list_all (\<lambda>x. rg_parent h x = Some r) (r # xs) \<and> rg_len h r = int (length xs)"

text \<open>\<open>same_on A h h'\<close>: the stores hold the same nodes at the addresses of \<open>A\<close>.\<close>

definition same_on :: "addr set \<Rightarrow> ring_heap \<Rightarrow> ring_heap \<Rightarrow> bool" where
  "same_on A h h' \<longleftrightarrow>
     (\<forall>a\<in>A. rg_succ h' a = rg_succ h a \<and> rg_pred h' a = rg_pred h a \<and>
            rg_parent h' a = rg_parent h a \<and> rg_len h' a = rg_len h a)"

lemma chain_append: "chain h (xs @ y # zs) \<longleftrightarrow> chain h (xs @ [y]) \<and> chain h (y # zs)"
proof (induction xs)
  case Nil
  then show ?case by simp
next
  case (Cons x xs)
  then show ?case by (cases xs) auto
qed

lemma chain_cong:
  "(\<And>x. x \<in> set (butlast ys) \<Longrightarrow> rg_succ h' x = rg_succ h x) \<Longrightarrow>
   (\<And>x. x \<in> set (tl ys) \<Longrightarrow> rg_pred h' x = rg_pred h x) \<Longrightarrow> chain h' ys = chain h ys"
proof (induction ys rule: induct_list012)
  case (3 x y zs)
  then have "chain h' (y # zs) = chain h (y # zs)"
    by (cases zs) auto
  with 3 show ?case by (simp add: link_def)
qed auto

lemma is_ring_cong: "same_on (set (r # xs)) h h' \<Longrightarrow> is_ring h' r xs = is_ring h r xs"
proof -
  assume same: "same_on (set (r # xs)) h h'"
  have "chain h' (r # xs @ [r]) = chain h (r # xs @ [r])"
    by (rule chain_cong) (use same in \<open>auto simp: same_on_def dest: in_set_butlastD split: if_splits\<close>)
  with same show ?thesis
    by (auto simp: is_ring_def same_on_def list_all_iff)
qed

section \<open>What the operations do to a ring\<close>

lemma is_ringD:
  assumes "is_ring h r xs"
  shows "distinct (r # xs)" "chain h (r # xs @ [r])" "rg_parent h r = Some r"
    "rg_len h r = int (length xs)" "\<And>x. x \<in> set xs \<Longrightarrow> rg_parent h x = Some r"
  using assms by (auto simp: is_ring_def list_all_iff)

lemma chain_first: "chain h (r # xs @ [q]) \<Longrightarrow> link h r (hd (xs @ [q]))"
  by (cases xs) auto

lemma chain_snoc: "chain h (r # xs @ [q]) \<longleftrightarrow> chain h (r # xs) \<and> link h (last (r # xs)) q"
  by (induction xs arbitrary: r) auto

lemma chain_join:
  "chain h (r # xs) \<Longrightarrow> link h (last (r # xs)) (hd ys) \<Longrightarrow> chain h ys \<Longrightarrow> ys \<noteq> [] \<Longrightarrow>
   chain h (r # xs @ ys)"
  by (induction xs arbitrary: r) (auto simp: neq_Nil_conv)

lemma ring_succ: "is_ring h r xs \<Longrightarrow> rg_succ h r = Some (hd (xs @ [r]))"
  using chain_first [of h r xs r] by (simp add: is_ring_def link_def)

lemma ring_pred: "is_ring h r xs \<Longrightarrow> rg_pred h r = Some (last (r # xs))"
  by (simp add: is_ring_def chain_snoc link_def)

lemma ring_succ_self: "is_ring h r xs \<Longrightarrow> rg_succ h r = Some r \<longleftrightarrow> xs = []"
  using ring_succ [of h r xs] by (cases xs) (auto simp: is_ring_def)

lemma ring_pred_self: "is_ring h r xs \<Longrightarrow> rg_pred h r = Some r \<longleftrightarrow> xs = []"
  using ring_pred [of h r xs] by (auto simp: is_ring_def dest: last_in_set split: if_splits)

lemma acl_ring_init_is_ring: "is_ring (acl_ring_init h (Some r)) r []"
  by (simp add: acl_ring_init_def is_ring_def link_def set_field_defs)

lemma acl_ring_init_frame: "r \<notin> A \<Longrightarrow> same_on A h (acl_ring_init h (Some r))"
  by (auto simp: acl_ring_init_def same_on_def set_field_defs)

text \<open>
  The store after each operation, as one update per field. \<open>n\<close> and \<open>p\<close> are the node's
  neighbours.
\<close>

lemma acl_ring_append_eq:
  assumes "is_ring h r xs" "e \<notin> set (r # xs)"
  shows "acl_ring_append h (Some r) (Some e) = Inr (h
    \<lparr>rg_succ := (rg_succ h)(e := Some (hd (xs @ [r])), r := Some e),
     rg_pred := (rg_pred h)(e := Some r, hd (xs @ [r]) := Some e),
     rg_parent := (rg_parent h)(e := Some r),
     rg_len := (rg_len h)(r := int (length xs) + 1)\<rparr>)"
  using is_ringD [OF assms(1)] ring_succ [OF assms(1)] assms(2)
  by (simp add: acl_ring_append_def set_field_defs)

lemma acl_ring_prepend_eq:
  assumes "is_ring h r xs" "e \<notin> set (r # xs)"
  shows "acl_ring_prepend h (Some r) (Some e) = Inr (h
    \<lparr>rg_succ := (rg_succ h)(e := Some r, last (r # xs) := Some e),
     rg_pred := (rg_pred h)(e := Some (last (r # xs)), r := Some e),
     rg_parent := (rg_parent h)(e := Some r),
     rg_len := (rg_len h)(r := int (length xs) + 1)\<rparr>)"
  using is_ringD [OF assms(1)] ring_pred [OF assms(1)] assms(2)
  by (simp add: acl_ring_prepend_def set_field_defs)

lemma acl_ring_append_is_ring:
  assumes ring: "is_ring h r xs" and e: "e \<notin> set (r # xs)"
  shows "\<exists>h'. acl_ring_append h (Some r) (Some e) = Inr h' \<and> is_ring h' r (e # xs) \<and>
           same_on (- set (e # r # xs)) h h'"
proof -
  let ?n = "hd (xs @ [r])"
  let ?h' = "h\<lparr>rg_succ := (rg_succ h)(e := Some ?n, r := Some e),
     rg_pred := (rg_pred h)(e := Some r, ?n := Some e),
     rg_parent := (rg_parent h)(e := Some r), rg_len := (rg_len h)(r := int (length xs) + 1)\<rparr>"
  note d = is_ringD [OF ring]
  have n: "?n \<in> set (r # xs)" by (cases xs) auto
  have "chain ?h' (xs @ [r]) = chain h (xs @ [r])"
    by (rule chain_cong; use d e n in \<open>cases xs; auto\<close>)
  moreover have "chain h (xs @ [r])"
    using d(2) by (cases xs) auto
  ultimately have "chain ?h' (r # e # xs @ [r])"
    using e n by (cases xs) (auto simp: link_def)
  with d e have "is_ring ?h' r (e # xs)"
    by (auto simp: is_ring_def list_all_iff)
  moreover have "same_on (- set (e # r # xs)) h ?h'"
    using n by (auto simp: same_on_def)
  ultimately show ?thesis using acl_ring_append_eq [OF ring e] by blast
qed

lemma acl_ring_prepend_is_ring:
  assumes ring: "is_ring h r xs" and e: "e \<notin> set (r # xs)"
  shows "\<exists>h'. acl_ring_prepend h (Some r) (Some e) = Inr h' \<and> is_ring h' r (xs @ [e]) \<and>
           same_on (- set (e # r # xs)) h h'"
proof -
  let ?p = "last (r # xs)"
  let ?h' = "h\<lparr>rg_succ := (rg_succ h)(e := Some r, ?p := Some e),
     rg_pred := (rg_pred h)(e := Some ?p, r := Some e),
     rg_parent := (rg_parent h)(e := Some r), rg_len := (rg_len h)(r := int (length xs) + 1)\<rparr>"
  note d = is_ringD [OF ring]
  have p: "?p \<in> set (r # xs)" by (rule last_in_set) simp
  have nb: "?p \<notin> set (butlast (r # xs))" by (rule notin_butlast_distinct [OF d(1)])
  have "chain ?h' (r # xs) = chain h (r # xs)"
    by (rule chain_cong; use d e p nb in \<open>auto dest: in_set_butlastD split: if_splits\<close>)
  moreover have "chain h (r # xs)"
    using d(2) by (simp add: chain_snoc)
  ultimately have "chain ?h' (r # xs @ [e, r])"
    using e p by (intro chain_join) (auto simp: link_def)
  with d e have "is_ring ?h' r (xs @ [e])"
    by (auto simp: is_ring_def list_all_iff)
  moreover have "same_on (- set (e # r # xs)) h ?h'"
    using p by (auto simp: same_on_def)
  ultimately show ?thesis using acl_ring_prepend_eq [OF ring e] by blast
qed

lemma ring_neighbours:
  assumes "is_ring h r (xs @ e # ys)"
  shows "rg_succ h e = Some (hd (ys @ [r]))" "rg_pred h e = Some (last (r # xs))"
proof -
  have c: "chain h ((r # xs) @ e # ys @ [r])"
    using is_ringD(2) [OF assms] by simp
  then have "chain h (r # xs @ [e])" "chain h (e # ys @ [r])"
    using chain_append [of h "r # xs" e "ys @ [r]"] by auto
  then show "rg_succ h e = Some (hd (ys @ [r]))" "rg_pred h e = Some (last (r # xs))"
    using chain_first [of h e ys r] by (auto simp: chain_snoc link_def)
qed

lemma acl_ring_detach_eq:
  assumes "is_ring h r (xs @ e # ys)"
  shows "acl_ring_detach h (Some e) = Inr (h
    \<lparr>rg_succ := (rg_succ h)(last (r # xs) := Some (hd (ys @ [r])), e := Some e),
     rg_pred := (rg_pred h)(hd (ys @ [r]) := Some (last (r # xs)), e := Some e),
     rg_parent := (rg_parent h)(e := Some e),
     rg_len := (rg_len h)(r := int (length (xs @ ys)), e := 0)\<rparr>)"
  using is_ringD [OF assms] ring_neighbours [OF assms]
  by (auto simp: acl_ring_detach_def set_field_defs)

lemma acl_ring_detach_is_ring:
  assumes ring: "is_ring h r (xs @ e # ys)"
  shows "\<exists>h'. acl_ring_detach h (Some e) = Inr h' \<and> is_ring h' r (xs @ ys) \<and> is_ring h' e [] \<and>
           same_on (- set (r # xs @ e # ys)) h h'"
proof -
  let ?p = "last (r # xs)" and ?n = "hd (ys @ [r])"
  let ?h' = "h\<lparr>rg_succ := (rg_succ h)(?p := Some ?n, e := Some e),
     rg_pred := (rg_pred h)(?n := Some ?p, e := Some e),
     rg_parent := (rg_parent h)(e := Some e),
     rg_len := (rg_len h)(r := int (length (xs @ ys)), e := 0)\<rparr>"
  note d = is_ringD [OF ring]
  have c: "chain h (r # xs @ [e])" "chain h (e # ys @ [r])"
    using d(2) chain_append [of h "r # xs" e "ys @ [r]"] by auto
  have p: "?p \<in> set (r # xs)" by (rule last_in_set) simp
  have n: "?n \<in> set (r # ys)" by (cases ys) auto
  have nb: "?p \<notin> set (butlast (r # xs))"
    by (rule notin_butlast_distinct) (use d(1) in simp)
  have py: "?p \<notin> set ys" using p d(1) by (cases xs rule: rev_cases) auto
  have "chain ?h' (r # xs) = chain h (r # xs)"
    by (rule chain_cong; use d(1) p n nb in \<open>auto dest: in_set_butlastD split: if_splits\<close>)
  moreover have "chain ?h' (ys @ [r]) = chain h (ys @ [r])"
    by (rule chain_cong; use d(1) py n in \<open>cases ys; auto dest: in_set_butlastD split: if_splits\<close>)
  moreover have "link ?h' ?p ?n"
    using p n d(1) by (auto simp: link_def)
  moreover have "chain h (ys @ [r])" using c(2) by (cases ys) auto
  ultimately have "chain ?h' (r # xs @ ys @ [r])"
    using c(1) by (intro chain_join) (auto simp: chain_snoc)
  with d have "is_ring ?h' r (xs @ ys)"
    by (auto simp: is_ring_def list_all_iff)
  moreover have "is_ring ?h' e []"
    using p n d(1) by (auto simp: is_ring_def link_def)
  moreover have "same_on (- set (r # xs @ e # ys)) h ?h'"
    using p n by (auto simp: same_on_def)
  ultimately show ?thesis using acl_ring_detach_eq [OF ring] by blast
qed

text \<open>
  Detaching a node that heads a ring, a detached node included, does nothing: its
  \<open>parent\<close> is the node itself.
\<close>

lemma acl_ring_detach_head: "is_ring h e xs \<Longrightarrow> acl_ring_detach h (Some e) = Inr h"
  by (simp add: acl_ring_detach_def is_ringD)

lemma acl_ring_pop_head_is_ring:
  "is_ring h r [] \<Longrightarrow> acl_ring_pop_head h (Some r) = Inr (None, h)"
  "is_ring h r (x # xs) \<Longrightarrow>
     \<exists>h'. acl_ring_pop_head h (Some r) = Inr (Some x, h') \<and> is_ring h' r xs \<and> is_ring h' x [] \<and>
       same_on (- set (r # x # xs)) h h'"
proof -
  show "is_ring h r [] \<Longrightarrow> acl_ring_pop_head h (Some r) = Inr (None, h)"
    by (simp add: acl_ring_pop_head_def ring_succ_self)
  assume ring: "is_ring h r (x # xs)"
  then have "rg_succ h r = Some x" "rg_succ h r \<noteq> Some r"
    using ring_succ [OF ring] ring_succ_self [OF ring] by auto
  then show "\<exists>h'. acl_ring_pop_head h (Some r) = Inr (Some x, h') \<and> is_ring h' r xs \<and>
      is_ring h' x [] \<and> same_on (- set (r # x # xs)) h h'"
    using acl_ring_detach_is_ring [of h r "[]" x xs] ring
    by (auto simp: acl_ring_pop_head_def)
qed

lemma acl_ring_pop_tail_is_ring:
  "is_ring h r [] \<Longrightarrow> acl_ring_pop_tail h (Some r) = Inr (None, h)"
  "is_ring h r (xs @ [x]) \<Longrightarrow>
     \<exists>h'. acl_ring_pop_tail h (Some r) = Inr (Some x, h') \<and> is_ring h' r xs \<and> is_ring h' x [] \<and>
       same_on (- set (r # xs @ [x])) h h'"
proof -
  show "is_ring h r [] \<Longrightarrow> acl_ring_pop_tail h (Some r) = Inr (None, h)"
    by (simp add: acl_ring_pop_tail_def ring_pred_self)
  assume ring: "is_ring h r (xs @ [x])"
  then have "rg_pred h r = Some x" "rg_pred h r \<noteq> Some r"
    using ring_pred [OF ring] ring_pred_self [OF ring] by auto
  then show "\<exists>h'. acl_ring_pop_tail h (Some r) = Inr (Some x, h') \<and> is_ring h' r xs \<and>
      is_ring h' x [] \<and> same_on (- set (r # xs @ [x])) h h'"
    using acl_ring_detach_is_ring [of h r xs x "[]"] ring
    by (auto simp: acl_ring_pop_tail_def)
qed

lemma acl_ring_size_is_ring: "is_ring h r xs \<Longrightarrow> acl_ring_size h (Some r) = int (length xs)"
  by (simp add: acl_ring_size_def is_ringD)

section \<open>Several rings in one store\<close>

text \<open>
  \<open>rings h R\<close>: the store \<open>h\<close> holds, for every head \<open>r\<close> with \<open>R r = Some xs\<close>, the ring
  \<open>xs\<close>, and no node is in two of them. A node that is in no ring is a head with no entries.
\<close>

definition rings :: "ring_heap \<Rightarrow> (addr \<rightharpoonup> addr list) \<Rightarrow> bool" where
  "rings h R \<longleftrightarrow>
     (\<forall>r xs. R r = Some xs \<longrightarrow> is_ring h r xs) \<and>
     (\<forall>r s xs ys. R r = Some xs \<longrightarrow> R s = Some ys \<longrightarrow> r \<noteq> s \<longrightarrow> set (r # xs) \<inter> set (s # ys) = {})"

lemma ringsD: "rings h R \<Longrightarrow> R r = Some xs \<Longrightarrow> is_ring h r xs"
  by (simp add: rings_def)

lemma rings_disjoint:
  "rings h R \<Longrightarrow> R r = Some xs \<Longrightarrow> R s = Some ys \<Longrightarrow> r \<noteq> s \<Longrightarrow> set (r # xs) \<inter> set (s # ys) = {}"
  by (simp add: rings_def)

text \<open>
  The frame rule for the operations: the rings headed in \<open>D\<close> may change, and all that
  was written, and all that they hold afterwards, are nodes that belonged to rings
  headed in \<open>D\<close>. The nodes of a set of heads are their footprint.
\<close>

definition footprint :: "(addr \<rightharpoonup> addr list) \<Rightarrow> addr set \<Rightarrow> addr set" where
  "footprint R D = {a. \<exists>d\<in>D. \<exists>xs. R d = Some xs \<and> a \<in> set (d # xs)}"

lemma footprint_disjoint:
  "rings h R \<Longrightarrow> R s = Some ys \<Longrightarrow> s \<notin> D \<Longrightarrow> set (s # ys) \<inter> footprint R D = {}"
proof -
  assume R: "rings h R" and s: "R s = Some ys" "s \<notin> D"
  have "x \<notin> footprint R D" if "x \<in> set (s # ys)" for x
    using rings_disjoint [OF R s(1)] that s(2) by (auto simp: footprint_def)
  then show ?thesis by blast
qed

lemma rings_frame:
  assumes R: "rings h R"
    and outside: "\<And>s. s \<notin> D \<Longrightarrow> R' s = R s"
    and frame: "same_on (- footprint R D) h h'"
    and inside: "\<And>d ys. d \<in> D \<Longrightarrow> R' d = Some ys \<Longrightarrow> is_ring h' d ys"
    and sub: "footprint R' D \<subseteq> footprint R D"
    and dis: "\<And>d d' ys ys'. d \<in> D \<Longrightarrow> d' \<in> D \<Longrightarrow> d \<noteq> d' \<Longrightarrow> R' d = Some ys \<Longrightarrow> R' d' = Some ys' \<Longrightarrow>
                set (d # ys) \<inter> set (d' # ys') = {}"
  shows "rings h' R'"
proof -
  have ring: "is_ring h' s ys" if s: "R' s = Some ys" for s ys
  proof (cases "s \<in> D")
    case False
    with s outside have Rs: "R s = Some ys" by simp
    then have "set (s # ys) \<inter> footprint R D = {}" by (rule footprint_disjoint [OF R _ False])
    with frame have "same_on (set (s # ys)) h h'" by (auto simp: same_on_def)
    with ringsD [OF R Rs] show ?thesis using is_ring_cong by blast
  qed (rule inside, use s in auto)
  have mixed: "set (d # ys) \<inter> set (t # us) = {}"
    if "d \<in> D" "R' d = Some ys" "t \<notin> D" "R' t = Some us" for d t ys us
  proof -
    have "set (d # ys) \<subseteq> footprint R D" using that(1,2) sub by (fastforce simp: footprint_def)
    moreover have "set (t # us) \<inter> footprint R D = {}"
      using that(3,4) outside footprint_disjoint [OF R] by simp
    ultimately show ?thesis by blast
  qed
  have "set (s # ys) \<inter> set (t # us) = {}"
    if "R' s = Some ys" "R' t = Some us" "s \<noteq> t" for s t ys us
  proof (cases "s \<in> D"; cases "t \<in> D")
    assume "s \<notin> D" "t \<notin> D"
    then show ?thesis using that outside rings_disjoint [OF R] by simp
  qed (use that dis mixed in blast)+
  with ring show ?thesis unfolding rings_def by blast
qed

lemma same_on_mono: "same_on A h h' \<Longrightarrow> B \<subseteq> A \<Longrightarrow> same_on B h h'"
  by (auto simp: same_on_def)

lemma rings_init:
  assumes R: "rings h R" and r: "\<And>s ys. R s = Some ys \<Longrightarrow> r \<notin> set (s # ys)"
  shows "rings (acl_ring_init h (Some r)) (R(r \<mapsto> []))"
proof -
  have "is_ring (acl_ring_init h (Some r)) s ys" if s: "R s = Some ys" for s ys
    using is_ring_cong [OF acl_ring_init_frame [OF r [OF s]]] ringsD [OF R s] by blast
  then show ?thesis
    using R r acl_ring_init_is_ring [of h r] unfolding rings_def
    by (auto split: if_splits)
qed

lemma rings_enter:
  assumes R: "rings h R" "R r = Some xs" "R e = Some []" "r \<noteq> e"
    and op: "is_ring h' r ys" "set ys = insert e (set xs)"
    and frame: "same_on (- set (e # r # xs)) h h'"
  shows "rings h' (R(e := None, r \<mapsto> ys))"
proof (rule rings_frame [OF R(1), where D = "{r, e}"])
  have "footprint R {r, e} = set (e # r # xs)" using R by (auto simp: footprint_def)
  with frame show "same_on (- footprint R {r, e}) h h'" by simp
qed (use R op in \<open>auto simp: footprint_def\<close>)

lemma rings_append:
  assumes R: "rings h R" "R r = Some xs" "R e = Some []" "r \<noteq> e"
  shows "\<exists>h'. acl_ring_append h (Some r) (Some e) = Inr h' \<and> rings h' (R(e := None, r \<mapsto> e # xs))"
proof -
  have "e \<notin> set (r # xs)" using rings_disjoint [OF R(1,2,3)] R(4) by auto
  from acl_ring_append_is_ring [OF ringsD [OF R(1,2)] this] show ?thesis
    using rings_enter [OF R] by fastforce
qed

lemma rings_prepend:
  assumes R: "rings h R" "R r = Some xs" "R e = Some []" "r \<noteq> e"
  shows "\<exists>h'. acl_ring_prepend h (Some r) (Some e) = Inr h' \<and> rings h' (R(e := None, r \<mapsto> xs @ [e]))"
proof -
  have "e \<notin> set (r # xs)" using rings_disjoint [OF R(1,2,3)] R(4) by auto
  from acl_ring_prepend_is_ring [OF ringsD [OF R(1,2)] this] show ?thesis
    using rings_enter [OF R] by fastforce
qed

text \<open>The rings of a finite list of heads.\<close>

lemma rings_of:
  assumes "list_all (\<lambda>(r, xs). is_ring h r xs) al" "distinct (concat (map (\<lambda>(r, xs). r # xs) al))"
  shows "rings h (map_of al)"
proof -
  have uniq: "r = s"
    if "(r, xs) \<in> set al" "(s, ys) \<in> set al" "a \<in> set (r # xs)" "a \<in> set (s # ys)" for r s xs ys a
    using assms(2) that
  proof (induction al)
    case (Cons p al)
    have mem: "b \<in> set (concat (map (\<lambda>(r, xs). r # xs) al))"
      if "(u, us) \<in> set al" "b \<in> set (u # us)" for u us b
      using that by force
    define c where "c = concat (map (\<lambda>(r, xs). r # xs) al)"
    have dis: "b \<notin> set c" if "b \<in> set (case p of (r, xs) \<Rightarrow> r # xs)" for b
    proof -
      have "distinct ((case p of (r, xs) \<Rightarrow> r # xs) @ c)" using Cons.prems(1) by (simp add: c_def)
      with that show ?thesis by (meson disjoint_iff distinct_append)
    qed
    consider "p = (r, xs)" "p = (s, ys)" | "p = (r, xs)" "(s, ys) \<in> set al"
      | "(r, xs) \<in> set al" "p = (s, ys)" | "(r, xs) \<in> set al" "(s, ys) \<in> set al"
      using Cons.prems(2,3) by auto
    then show ?case
    proof cases
      case 2
      with Cons.prems(4,5) mem [of s ys a] dis [of a] show ?thesis by (simp add: c_def)
    next
      case 3
      with Cons.prems(4,5) mem [of r xs a] dis [of a] show ?thesis by (simp add: c_def)
    qed (use Cons in auto)
  qed simp
  show ?thesis
    unfolding rings_def
  proof (intro conjI allI impI)
    fix r xs assume "map_of al r = Some xs"
    with assms(1) show "is_ring h r xs" by (auto simp: list_all_iff dest!: map_of_SomeD)
  next
    fix r s xs ys assume "map_of al r = Some xs" "map_of al s = Some ys" "r \<noteq> s"
    with uniq show "set (r # xs) \<inter> set (s # ys) = {}" by (meson disjoint_iff map_of_SomeD)
  qed
qed

text \<open>Nodes that are in no ring: writing to one changes no ring, and any of them can enter one.\<close>

lemma rings_unused:
  assumes R: "rings h R" and e: "\<And>s ys. R s = Some ys \<Longrightarrow> e \<notin> set (s # ys)"
    and same: "same_on (- {e}) h h'"
  shows "rings h' R"
proof -
  have "is_ring h' s ys" if "R s = Some ys" for s ys
    using is_ring_cong [OF same_on_mono [OF same]] ringsD [OF R that] e [OF that] by blast
  with R show ?thesis by (simp add: rings_def)
qed

lemma rings_prepend_unused:
  assumes R: "rings h R" "R r = Some xs" and e: "\<And>s ys. R s = Some ys \<Longrightarrow> e \<notin> set (s # ys)"
  shows "\<exists>h'. acl_ring_prepend h (Some r) (Some e) = Inr h' \<and> rings h' (R(r \<mapsto> xs @ [e]))"
proof -
  obtain h' where h': "acl_ring_prepend h (Some r) (Some e) = Inr h'" "is_ring h' r (xs @ [e])"
    "same_on (- set (e # r # xs)) h h'"
    using acl_ring_prepend_is_ring [OF ringsD [OF R] e [OF R(2)]] by blast
  have "is_ring h' s ys" if s: "R s = Some ys" "s \<noteq> r" for s ys
  proof -
    have "set (s # ys) \<subseteq> - set (e # r # xs)"
      using rings_disjoint [OF R(1) s(1) R(2) s(2)] e [OF s(1)] by auto
    then show ?thesis using is_ring_cong [OF same_on_mono [OF h'(3)]] ringsD [OF R(1) s(1)] by blast
  qed
  moreover have "set (s # ys) \<inter> set (r # xs @ [e]) = {}" if s: "R s = Some ys" "s \<noteq> r" for s ys
    using rings_disjoint [OF R(1) s(1) R(2) s(2)] e [OF s(1)] by auto
  ultimately have "rings h' (R(r \<mapsto> xs @ [e]))"
    using R(1) h'(2) unfolding rings_def by (auto split: if_splits; blast)
  with h'(1) show ?thesis by blast
qed

lemma rings_member_no_head:
  assumes R: "rings h R" "R r = Some xs" and e: "e \<in> set xs"
  shows "R e = None" "e \<noteq> r"
proof -
  show er: "e \<noteq> r" using ringsD [OF R] e by (auto simp: is_ring_def)
  show "R e = None"
  proof (rule ccontr)
    assume "R e \<noteq> None"
    then obtain ys where "R e = Some ys" by blast
    from rings_disjoint [OF R this] er e show False by auto
  qed
qed

lemma rings_leave:
  assumes R: "rings h R" "R r = Some (xs @ e # ys)"
    and op: "is_ring h' r (xs @ ys)" "is_ring h' e []"
    and frame: "same_on (- set (r # xs @ e # ys)) h h'"
  shows "rings h' (R(r \<mapsto> xs @ ys, e \<mapsto> []))"
proof (rule rings_frame [OF R(1), where D = "{r, e}"])
  have e: "R e = None" "e \<noteq> r" using rings_member_no_head [OF R] by auto
  have d: "distinct (r # xs @ e # ys)" using ringsD [OF R] by (simp add: is_ring_def)
  have f: "footprint R {r, e} = set (r # xs @ e # ys)" using R e by (auto simp: footprint_def)
  with frame show "same_on (- footprint R {r, e}) h h'" by simp
  show "footprint (R(r \<mapsto> xs @ ys, e \<mapsto> [])) {r, e} \<subseteq> footprint R {r, e}"
    using e unfolding f by (auto simp: footprint_def)
  show "set (d # us) \<inter> set (d' # us') = {}"
    if "d \<in> {r, e}" "d' \<in> {r, e}" "d \<noteq> d'" "(R(r \<mapsto> xs @ ys, e \<mapsto> [])) d = Some us"
      "(R(r \<mapsto> xs @ ys, e \<mapsto> [])) d' = Some us'" for d d' us us'
    using that d e by (auto split: if_splits)
qed (use op in \<open>auto split: if_splits\<close>)

lemma rings_detach:
  assumes R: "rings h R" "R r = Some (xs @ e # ys)"
  shows "\<exists>h'. acl_ring_detach h (Some e) = Inr h' \<and> rings h' (R(r \<mapsto> xs @ ys, e \<mapsto> []))"
  using acl_ring_detach_is_ring [OF ringsD [OF R]] rings_leave [OF R] by blast

lemma rings_detach_head: "rings h R \<Longrightarrow> R e = Some xs \<Longrightarrow> acl_ring_detach h (Some e) = Inr h"
  by (rule acl_ring_detach_head [OF ringsD])

lemma rings_pop_head:
  assumes R: "rings h R"
  shows "R r = Some [] \<Longrightarrow> acl_ring_pop_head h (Some r) = Inr (None, h)"
    and "R r = Some (x # xs) \<Longrightarrow>
      \<exists>h'. acl_ring_pop_head h (Some r) = Inr (Some x, h') \<and> rings h' (R(r \<mapsto> xs, x \<mapsto> []))"
proof -
  show "R r = Some [] \<Longrightarrow> acl_ring_pop_head h (Some r) = Inr (None, h)"
    by (rule acl_ring_pop_head_is_ring(1) [OF ringsD [OF R]])
  assume r: "R r = Some (x # xs)"
  from acl_ring_pop_head_is_ring(2) [OF ringsD [OF R r]]
  show "\<exists>h'. acl_ring_pop_head h (Some r) = Inr (Some x, h') \<and> rings h' (R(r \<mapsto> xs, x \<mapsto> []))"
    using rings_leave [OF R, of r "[]" x xs] r by fastforce
qed

lemma rings_size: "rings h R \<Longrightarrow> R r = Some xs \<Longrightarrow> acl_ring_size h (Some r) = int (length xs)"
  by (rule acl_ring_size_is_ring [OF ringsD])

interpretation ring: node_queues rings acl_ring_prepend acl_ring_append acl_ring_detach
  acl_ring_pop_head acl_ring_size
proof unfold_locales
  show "rings h R \<Longrightarrow> R r = Some (x # xs) \<Longrightarrow>
      \<exists>h'. acl_ring_pop_head h (Some r) = Inr (Some x, h') \<and> rings h' (R(r \<mapsto> xs, x \<mapsto> []))"
    for h R r x xs by (rule rings_pop_head(2))
qed (blast intro: rings_prepend rings_append rings_detach rings_detach_head rings_pop_head(1)
       rings_size)+

end
