(* ===== verification/Acl_Fiber.thy ===== *)
theory Acl_Fiber
  imports Acl_Ring
begin

text \<open>
  The cooperative scheduler of \<open>lib_fiber/c/src/fiber.c\<close>: the thread's \<open>FIBER_TLS\<close> with its
  ready and dead rings, and the operations that queue, switch, signal, create and end
  fibers.

  A fiber is named by the address of its ring node \<open>me\<close> (\<open>ACL_RING_TO_APPL\<close> is the
  bijection between the two), and the fields of \<open>struct ACL_FIBER\<close> are functions of it.
  The machine contexts behind \<open>fiber_swap\<close> (\<open>setjmp\<close>, \<open>swapcontext\<close>) are not modelled:
  an operation that ends in a switch returns the context that runs next, \<open>Original\<close> for the
  thread's own stack in \<open>acl_fiber_schedule\<close>. The code of a fiber after its switch is the
  operation's resume half.
\<close>

section \<open>State\<close>

datatype fiber_status = FIBER_STATUS_READY | FIBER_STATUS_RUNNING | FIBER_STATUS_EXITING

datatype exec_ctx = Original | Ctx addr

record fiber_tls =
  fb_heap :: ring_heap
  fb_ready :: addr
  fb_dead :: addr
  fb_fibers :: "addr list" \<comment> \<open>\<open>fibers[0 .. slot - 1]\<close>; \<open>slot\<close> is its length\<close>
  fb_size :: nat
  fb_exitcode :: int
  fb_running :: ptr
  fb_idgen :: "32 word"
  fb_count :: int
  fb_switched :: int
  fb_nlocal :: nat
  fb_status :: "addr \<Rightarrow> fiber_status"
  fb_id :: "addr \<Rightarrow> 32 word"
  fb_slot :: "addr \<Rightarrow> nat"
  fb_errnum :: "addr \<Rightarrow> int"
  fb_sys :: "addr \<Rightarrow> bool"
  fb_signum :: "addr \<Rightarrow> int"
  fb_killed :: "addr \<Rightarrow> bool" \<comment> \<open>\<open>flag & FIBER_F_KILLED\<close>\<close>
  fb_stack :: "addr \<Rightarrow> nat" \<comment> \<open>\<open>size\<close>, the bytes of \<open>buff\<close>\<close>
  fb_locals :: "addr \<Rightarrow> addr option list" \<comment> \<open>\<open>locals[i]->ctx\<close>; its length is \<open>nlocal\<close>\<close>
  fb_freed :: "addr list" \<comment> \<open>the fibers given to \<open>fiber_free\<close>, newest first\<close>

definition MAX_CACHE :: int where "MAX_CACHE = 1000"
definition ECANCELED :: int where "ECANCELED = 125"
definition SIGKILL :: int where "SIGKILL = 9"
definition SIGTERM :: int where "SIGTERM = 15"
definition SIGQUIT :: int where "SIGQUIT = 3"

section \<open>Operations\<close>

definition fiber_free :: "'a fiber_tls_scheme \<Rightarrow> addr \<Rightarrow> 'a fiber_tls_scheme" where
  "fiber_free t f = t\<lparr>fb_freed := f # fb_freed t\<rparr>"

text \<open>
  \<open>fiber_check\<close> allocates the thread's \<open>FIBER_TLS\<close>, zeroed, on the first call in a thread;
  \<open>r\<close> and \<open>d\<close> are the addresses of its two rings in the new block.
\<close>

definition fiber_check :: "'a fiber_tls_scheme \<Rightarrow> bool \<Rightarrow> addr \<Rightarrow> addr \<Rightarrow> 'a fiber_tls_scheme" where
  "fiber_check t allocated r d =
     (if allocated then t
      else t\<lparr>fb_ready := r, fb_dead := d, fb_fibers := [], fb_size := 0, fb_exitcode := 0,
             fb_running := None, fb_idgen := 0, fb_count := 0, fb_switched := 0, fb_nlocal := 0,
             fb_heap := acl_ring_init (acl_ring_init (fb_heap t) (Some r)) (Some d)\<rparr>)"

text \<open>\<open>fiber_kick\<close>: the loop runs at most \<open>max\<close> times and stops when the dead ring is empty.\<close>

fun fiber_kick_loop :: "nat \<Rightarrow> 'a fiber_tls_scheme \<Rightarrow> ('a fiber_tls_scheme) cres" where
  "fiber_kick_loop 0 t = Inr t"
| "fiber_kick_loop (Suc n) t =
     cbind (acl_ring_pop_head (fb_heap t) (Some (fb_dead t))) (\<lambda>(head, h).
       case head of
         None \<Rightarrow> Inr (t\<lparr>fb_heap := h\<rparr>)
       | Some f \<Rightarrow> fiber_kick_loop n (fiber_free (t\<lparr>fb_heap := h\<rparr>) f))"

definition fiber_kick :: "'a fiber_tls_scheme \<Rightarrow> int \<Rightarrow> ('a fiber_tls_scheme) cres" where
  "fiber_kick t n = fiber_kick_loop (nat n) t"

text \<open>
  \<open>fiber_swap\<close>: a fiber that is exiting is first taken out of the table of fibers, the
  last entry moving to its slot, and queued in the dead ring. Control then goes to \<open>to\<close>.
\<close>

definition fiber_swap ::
  "'a fiber_tls_scheme \<Rightarrow> exec_ctx \<Rightarrow> exec_ctx \<Rightarrow> (exec_ctx \<times> 'a fiber_tls_scheme) cres" where
  "fiber_swap t from to =
     (case from of
        Original \<Rightarrow> Inr (to, t)
      | Ctx f \<Rightarrow>
          if fb_status t f = FIBER_STATUS_EXITING then
            (let slot = fb_slot t f; n = acl_ring_size (fb_heap t) (Some (fb_dead t))
             in cbind (if n > MAX_CACHE then fiber_kick t (n - MAX_CACHE) else Inr t) (\<lambda>t1.
                let t2 = (if fb_sys t1 f then t1 else t1\<lparr>fb_count := fb_count t1 - 1\<rparr>)
                in if slot \<ge> length (fb_fibers t2) then Inl OobWrite
                   else
                     (let moved = last (fb_fibers t2);
                          t3 = t2\<lparr>fb_fibers := butlast ((fb_fibers t2)[slot := moved]),
                                  fb_slot := (fb_slot t2)(moved := slot)\<rparr>
                      in cbind (acl_ring_prepend (fb_heap t3) (Some (fb_dead t3)) (Some f)) (\<lambda>h.
                         Inr (to, t3\<lparr>fb_heap := h\<rparr>)))))
          else Inr (to, t))"

definition acl_fiber_switch :: "'a fiber_tls_scheme \<Rightarrow> (exec_ctx \<times> 'a fiber_tls_scheme) cres" where
  "acl_fiber_switch t =
     cbind (deref (fb_running t)) (\<lambda>current.
     cbind (acl_ring_pop_head (fb_heap t) (Some (fb_ready t))) (\<lambda>(head, h).
       let t1 = t\<lparr>fb_heap := h\<rparr>
       in case head of
            None \<Rightarrow> fiber_swap t1 (Ctx current) Original
          | Some f \<Rightarrow>
              fiber_swap (t1\<lparr>fb_running := Some f, fb_switched := fb_switched t1 + 1\<rparr>)
                (Ctx current) (Ctx f)))"

definition acl_fiber_ready :: "'a fiber_tls_scheme \<Rightarrow> addr \<Rightarrow> ('a fiber_tls_scheme) cres" where
  "acl_fiber_ready t f =
     (if fb_status t f \<noteq> FIBER_STATUS_EXITING then
        let t1 = t\<lparr>fb_status := (fb_status t)(f := FIBER_STATUS_READY)\<rparr>
        in cbind (acl_ring_prepend (fb_heap t1) (Some (fb_ready t1)) (Some f)) (\<lambda>h.
           Inr (t1\<lparr>fb_heap := h\<rparr>))
      else Inr t)"

text \<open>
  \<open>acl_fiber_yield\<close> in two halves: \<open>None\<close> when it returns 0 at once, otherwise the context
  that runs next; the resumed half returns the number of switches in between.
\<close>

definition acl_fiber_yield ::
  "'a fiber_tls_scheme \<Rightarrow> (exec_ctx option \<times> 'a fiber_tls_scheme) cres" where
  "acl_fiber_yield t =
     (if acl_ring_size (fb_heap t) (Some (fb_ready t)) = 0 then Inr (None, t)
      else cbind (deref (fb_running t)) (\<lambda>current.
           cbind (acl_fiber_ready t current) (\<lambda>t1.
           cbind (acl_fiber_switch t1) (\<lambda>(c, t2). Inr (Some c, t2)))))"

definition acl_fiber_yield_resume :: "'a fiber_tls_scheme \<Rightarrow> int \<Rightarrow> int" where
  "acl_fiber_yield_resume t n = fb_switched t - n - 1"

definition fiber_exit :: "'a fiber_tls_scheme \<Rightarrow> int \<Rightarrow> (exec_ctx \<times> 'a fiber_tls_scheme) cres" where
  "fiber_exit t exit_code =
     (let t1 = t\<lparr>fb_exitcode := exit_code\<rparr>
      in cbind (deref (fb_running t1)) (\<lambda>f.
         acl_fiber_switch (t1\<lparr>fb_status := (fb_status t1)(f := FIBER_STATUS_EXITING)\<rparr>)))"

text \<open>\<open>fiber_start\<close> after the fiber's function has returned: its slots are freed and it exits.\<close>

definition fiber_start_end :: "'a fiber_tls_scheme \<Rightarrow> addr \<Rightarrow> (exec_ctx \<times> 'a fiber_tls_scheme) cres" where
  "fiber_start_end t f = fiber_exit (t\<lparr>fb_locals := (fb_locals t)(f := [])\<rparr>) 0"

definition acl_fiber_killed :: "'a fiber_tls_scheme \<Rightarrow> ptr \<Rightarrow> bool" where
  "acl_fiber_killed t fiber =
     (let fiber' = (if fiber = None then fb_running t else fiber)
      in case fiber' of None \<Rightarrow> False | Some f \<Rightarrow> fb_killed t f)"

definition acl_fiber_signal ::
  "'a fiber_tls_scheme \<Rightarrow> ptr \<Rightarrow> int \<Rightarrow> (exec_ctx option \<times> 'a fiber_tls_scheme) cres" where
  "acl_fiber_signal t fiber signum =
     (case (fiber, fb_running t) of
        (Some f, Some cur) \<Rightarrow>
          (let t1 = (if signum \<in> {SIGKILL, SIGTERM, SIGQUIT}
                     then t\<lparr>fb_errnum := (fb_errnum t)(f := ECANCELED),
                            fb_killed := (fb_killed t)(f := True)\<rparr>
                     else t);
               t2 = t1\<lparr>fb_signum := (fb_signum t1)(f := signum)\<rparr>
           in if f = cur then Inr (None, t2)
              else
                cbind (acl_ring_detach (fb_heap t2) (Some cur)) (\<lambda>h1.
                cbind (acl_ring_detach h1 (Some f)) (\<lambda>h2.
                let t3 = t2\<lparr>fb_status := (fb_status t2)(cur := FIBER_STATUS_READY)\<rparr>
                in cbind (acl_ring_append h2 (Some (fb_ready t3)) (Some cur)) (\<lambda>h3.
                let t4 = t3\<lparr>fb_status := (fb_status t3)(f := FIBER_STATUS_READY)\<rparr>
                in cbind (acl_ring_append h3 (Some (fb_ready t4)) (Some f)) (\<lambda>h4.
                cbind (acl_fiber_switch (t4\<lparr>fb_heap := h4\<rparr>)) (\<lambda>(c, t5). Inr (Some c, t5)))))))
      | _ \<Rightarrow> Inr (None, t))"

definition acl_fiber_kill ::
  "'a fiber_tls_scheme \<Rightarrow> ptr \<Rightarrow> (exec_ctx option \<times> 'a fiber_tls_scheme) cres" where
  "acl_fiber_kill t fiber = acl_fiber_signal t fiber SIGKILL"

definition acl_fiber_signum :: "'a fiber_tls_scheme \<Rightarrow> ptr \<Rightarrow> int" where
  "acl_fiber_signum t fiber =
     (let fiber' = (if fiber \<noteq> None then fb_running t else fiber)
      in case fiber' of None \<Rightarrow> 0 | Some f \<Rightarrow> fb_signum t f)"

definition acl_fiber_errno :: "'a fiber_tls_scheme \<Rightarrow> ptr \<Rightarrow> int" where
  "acl_fiber_errno t fiber =
     (let fiber' = (if fiber = None then fb_running t else fiber)
      in case fiber' of None \<Rightarrow> 0 | Some f \<Rightarrow> fb_errnum t f)"

definition acl_fiber_set_errno :: "'a fiber_tls_scheme \<Rightarrow> ptr \<Rightarrow> int \<Rightarrow> 'a fiber_tls_scheme" where
  "acl_fiber_set_errno t fiber errnum =
     (let fiber' = (if fiber = None then fb_running t else fiber)
      in case fiber' of None \<Rightarrow> t | Some f \<Rightarrow> t\<lparr>fb_errnum := (fb_errnum t)(f := errnum)\<rparr>)"

definition acl_fiber_id :: "'a fiber_tls_scheme \<Rightarrow> ptr \<Rightarrow> 32 word" where
  "acl_fiber_id t fiber = (case fiber of None \<Rightarrow> 0 | Some f \<Rightarrow> fb_id t f)"

definition acl_fiber_ndead :: "'a fiber_tls_scheme \<Rightarrow> int" where
  "acl_fiber_ndead t = acl_ring_size (fb_heap t) (Some (fb_dead t))"

definition fiber_system :: "'a fiber_tls_scheme \<Rightarrow> ('a fiber_tls_scheme) cres" where
  "fiber_system t =
     cbind (deref (fb_running t)) (\<lambda>f.
       if \<not> fb_sys t f
       then Inr (t\<lparr>fb_sys := (fb_sys t)(f := True), fb_count := fb_count t - 1\<rparr>)
       else Inr t)"

text \<open>
  \<open>fiber_alloc\<close> takes a fiber from the dead ring, or a zeroed one from the allocator (at
  the address \<open>fresh\<close>, which the allocator chooses). The identifier counter is an
  \<open>unsigned int\<close> that skips 0 when it wraps.
\<close>

definition fiber_calloc :: "'a fiber_tls_scheme \<Rightarrow> addr \<Rightarrow> 'a fiber_tls_scheme" where
  "fiber_calloc t f = t
     \<lparr>fb_heap := set_len f 0 (set_parent f None (set_pred f None (set_succ f None (fb_heap t)))),
      fb_status := (fb_status t)(f := FIBER_STATUS_READY), fb_id := (fb_id t)(f := 0),
      fb_slot := (fb_slot t)(f := 0), fb_errnum := (fb_errnum t)(f := 0),
      fb_sys := (fb_sys t)(f := False), fb_signum := (fb_signum t)(f := 0),
      fb_killed := (fb_killed t)(f := False), fb_locals := (fb_locals t)(f := [])\<rparr>"

definition fiber_alloc ::
  "'a fiber_tls_scheme \<Rightarrow> addr \<Rightarrow> nat \<Rightarrow> (addr \<times> 'a fiber_tls_scheme) cres" where
  "fiber_alloc t fresh sz =
     cbind (acl_ring_pop_head (fb_heap t) (Some (fb_dead t))) (\<lambda>(head, h).
       let t1 = t\<lparr>fb_heap := h\<rparr>;
           (f, t2, sz') =
             (case head of
                None \<Rightarrow> (fresh, fiber_calloc t1 fresh, sz)
              | Some d \<Rightarrow> (d, t1, if fb_stack t1 d < sz then sz else fb_stack t1 d));
           id1 = fb_idgen t2 + 1;
           id2 = (if id1 = 0 then id1 + 1 else id1)
       in Inr (f, t2
            \<lparr>fb_idgen := id2, fb_id := (fb_id t2)(f := id2), fb_errnum := (fb_errnum t2)(f := 0),
             fb_signum := (fb_signum t2)(f := 0), fb_stack := (fb_stack t2)(f := sz'),
             fb_killed := (fb_killed t2)(f := False),
             fb_status := (fb_status t2)(f := FIBER_STATUS_READY)\<rparr>))"

definition acl_fiber_create ::
  "'a fiber_tls_scheme \<Rightarrow> addr \<Rightarrow> nat \<Rightarrow> (addr \<times> 'a fiber_tls_scheme) cres" where
  "acl_fiber_create t fresh sz =
     cbind (fiber_alloc t fresh sz) (\<lambda>(f, t1).
       let t2 = t1\<lparr>fb_count := fb_count t1 + 1\<rparr>;
           slot = length (fb_fibers t2);
           t3 = (if slot \<ge> fb_size t2 then t2\<lparr>fb_size := fb_size t2 + 128\<rparr> else t2);
           t4 = t3\<lparr>fb_slot := (fb_slot t3)(f := slot), fb_fibers := fb_fibers t3 @ [f]\<rparr>
       in cbind (acl_fiber_ready t4 f) (\<lambda>t5. Inr (f, t5)))"

text \<open>
  \<open>acl_fiber_schedule\<close>: one turn of its loop up to the switch into a fiber (\<open>None\<close> when the
  ready ring is empty and the loop ends), and the assignment after the switch comes back.
\<close>

definition acl_fiber_schedule_turn ::
  "'a fiber_tls_scheme \<Rightarrow> (exec_ctx option \<times> 'a fiber_tls_scheme) cres" where
  "acl_fiber_schedule_turn t =
     cbind (acl_ring_pop_head (fb_heap t) (Some (fb_ready t))) (\<lambda>(head, h).
       let t1 = t\<lparr>fb_heap := h\<rparr>
       in case head of
            None \<Rightarrow> Inr (None, t1)
          | Some f \<Rightarrow>
              cbind (fiber_swap
                (t1\<lparr>fb_status := (fb_status t1)(f := FIBER_STATUS_READY),
                    fb_running := Some f, fb_switched := fb_switched t1 + 1\<rparr>)
                Original (Ctx f)) (\<lambda>(c, t2). Inr (Some c, t2)))"

definition acl_fiber_schedule_back :: "'a fiber_tls_scheme \<Rightarrow> 'a fiber_tls_scheme" where
  "acl_fiber_schedule_back t = t\<lparr>fb_running := None\<rparr>"

text \<open>The per-fiber slots of \<open>acl_fiber_set_specific\<close> and \<open>acl_fiber_get_specific\<close>.\<close>

definition acl_fiber_set_specific ::
  "'a fiber_tls_scheme \<Rightarrow> int option \<Rightarrow> addr \<Rightarrow> int \<times> int option \<times> 'a fiber_tls_scheme" where
  "acl_fiber_set_specific t key ctx =
     (case (key, fb_running t) of
        (Some k, Some cur) \<Rightarrow>
          if k > 0 \<and> k > int (fb_nlocal t) then (-1, Some k, t)
          else
            (let (k', t1) = (if k \<le> 0 then (int (fb_nlocal t) + 1, t\<lparr>fb_nlocal := fb_nlocal t + 1\<rparr>)
                             else (k, t));
                 ls = fb_locals t1 cur;
                 ls' = (if length ls < fb_nlocal t1
                        then ls @ replicate (fb_nlocal t1 - length ls) None else ls)
             in (k', Some k', t1\<lparr>fb_locals := (fb_locals t1)(cur := ls'[nat k' - 1 := Some ctx])\<rparr>))
      | _ \<Rightarrow> (-1, key, t))"

definition acl_fiber_get_specific :: "'a fiber_tls_scheme \<Rightarrow> int \<Rightarrow> addr option" where
  "acl_fiber_get_specific t key =
     (if key \<le> 0 then None
      else case fb_running t of
        None \<Rightarrow> None
      | Some cur \<Rightarrow>
          if key > int (length (fb_locals t cur)) then None
          else fb_locals t cur ! (nat key - 1))"

section \<open>The scheduler's queues\<close>

text \<open>
  \<open>fiber_queues t R\<close>: the rings of the thread are as \<open>R\<close> says, the ready and dead rings
  among them, and no fiber waits to run that has exited.
\<close>

definition fiber_queues :: "'a fiber_tls_scheme \<Rightarrow> (addr \<rightharpoonup> addr list) \<Rightarrow> bool" where
  "fiber_queues t R \<longleftrightarrow>
     rings (fb_heap t) R \<and> fb_ready t \<noteq> fb_dead t \<and> R (fb_dead t) \<noteq> None \<and>
     (\<exists>Q. R (fb_ready t) = Some Q \<and> (\<forall>f\<in>set Q. fb_status t f \<noteq> FIBER_STATUS_EXITING))"

lemma fiber_queuesD:
  "fiber_queues t R \<Longrightarrow> rings (fb_heap t) R"
  "fiber_queues t R \<Longrightarrow> fb_ready t \<noteq> fb_dead t"
  by (simp_all add: fiber_queues_def)

lemma fiber_queues_ready:
  "fiber_queues t R \<Longrightarrow> R (fb_ready t) = Some Q \<Longrightarrow> f \<in> set Q \<Longrightarrow> fb_status t f \<noteq> FIBER_STATUS_EXITING"
  by (auto simp: fiber_queues_def)

text \<open>What a switch does to the queues when the running fiber is not exiting.\<close>

lemma acl_fiber_ready_queues:
  assumes q: "fiber_queues t R" and Q: "R (fb_ready t) = Some Q"
    and f: "R f = Some []" "f \<noteq> fb_ready t" "f \<noteq> fb_dead t" "fb_status t f \<noteq> FIBER_STATUS_EXITING"
  shows "\<exists>h. acl_fiber_ready t f =
             Inr (t\<lparr>fb_status := (fb_status t)(f := FIBER_STATUS_READY), fb_heap := h\<rparr>) \<and>
           fiber_queues (t\<lparr>fb_status := (fb_status t)(f := FIBER_STATUS_READY), fb_heap := h\<rparr>)
             (R(f := None, fb_ready t \<mapsto> Q @ [f]))"
proof -
  obtain h where "acl_ring_prepend (fb_heap t) (Some (fb_ready t)) (Some f) = Inr h"
    "rings h (R(f := None, fb_ready t \<mapsto> Q @ [f]))"
    using ring.enter_tail [OF fiber_queuesD(1) [OF q] Q f(1)] f(2) by auto
  with q Q f show ?thesis
    by (auto simp: acl_fiber_ready_def fiber_queues_def)
qed

lemma acl_fiber_switch_empty:
  assumes "fiber_queues t R" "R (fb_ready t) = Some []" "fb_running t = Some f"
    "fb_status t f \<noteq> FIBER_STATUS_EXITING"
  shows "acl_fiber_switch t = Inr (Original, t)"
  using assms ring.take_head_empty [of "fb_heap t" R "fb_ready t"]
  by (simp add: acl_fiber_switch_def fiber_swap_def fiber_queues_def)

lemma acl_fiber_switch_next:
  assumes q: "fiber_queues t R" and Q: "R (fb_ready t) = Some (g # Q)"
    and f: "fb_running t = Some f" "fb_status t f \<noteq> FIBER_STATUS_EXITING"
  shows "\<exists>h. acl_fiber_switch t =
             Inr (Ctx g, t\<lparr>fb_heap := h, fb_running := Some g, fb_switched := fb_switched t + 1\<rparr>) \<and>
           fiber_queues (t\<lparr>fb_heap := h, fb_running := Some g, fb_switched := fb_switched t + 1\<rparr>)
             (R(fb_ready t \<mapsto> Q, g \<mapsto> []))"
proof -
  obtain h where h: "acl_ring_pop_head (fb_heap t) (Some (fb_ready t)) = Inr (Some g, h)"
    "rings h (R(fb_ready t \<mapsto> Q, g \<mapsto> []))"
    using ring.take_head [OF fiber_queuesD(1) [OF q] Q] by blast
  have "g \<noteq> fb_ready t"
    using rings_member_no_head(2) [OF fiber_queuesD(1) [OF q] Q] by simp
  with q Q f h show ?thesis
    by (auto simp: acl_fiber_switch_def fiber_swap_def fiber_queues_def Let_def)
qed

text \<open>A new thread has two empty queues.\<close>

lemma fiber_check_queues:
  assumes "r \<noteq> d"
  shows "fiber_queues (fiber_check t False r d) [r \<mapsto> [], d \<mapsto> []]"
proof -
  have "rings (acl_ring_init (fb_heap t) (Some r)) [r \<mapsto> []]"
    using rings_init [of "fb_heap t" Map.empty r] by (simp add: rings_def)
  then have "rings (acl_ring_init (acl_ring_init (fb_heap t) (Some r)) (Some d)) [r \<mapsto> [], d \<mapsto> []]"
    by (rule rings_init) (use assms in \<open>auto split: if_splits\<close>)
  with assms show ?thesis by (auto simp: fiber_queues_def fiber_check_def)
qed

lemma rings_drop: "rings h R \<Longrightarrow> rings h (R(x := None))"
  unfolding rings_def by (auto split: if_splits; blast)

text \<open>
  A new fiber is the oldest dead one or, when there is none, the allocator's \<open>fresh\<close> block,
  which is in no ring and may have been a fiber that was freed.
\<close>

lemma fiber_alloc_queues:
  assumes q: "fiber_queues t R" and D: "R (fb_dead t) = Some D"
    and fresh: "R fresh \<in> {None, Some []}" "\<forall>s ys. R s = Some ys \<longrightarrow> fresh \<notin> set ys"
      "fresh \<noteq> fb_ready t" "fresh \<noteq> fb_dead t"
  defines "g \<equiv> (case D of [] \<Rightarrow> fresh | d # _ \<Rightarrow> d)"
  shows "\<exists>t'. fiber_alloc t fresh sz = Inr (g, t') \<and> rings (fb_heap t') (R(g := None, fb_dead t \<mapsto> tl D)) \<and>
    (\<forall>s ys. (R(g := None, fb_dead t \<mapsto> tl D)) s = Some ys \<longrightarrow> g \<notin> set (s # ys)) \<and>
    fb_ready t' = fb_ready t \<and> fb_dead t' = fb_dead t \<and> fb_running t' = fb_running t \<and>
    fb_status t' = (fb_status t)(g := FIBER_STATUS_READY) \<and> fb_fibers t' = fb_fibers t \<and>
    (\<forall>x. x \<noteq> g \<longrightarrow> fb_slot t' x = fb_slot t x) \<and> fiber_tls.more t' = fiber_tls.more t"
proof (cases D)
  case Nil
  have g: "g = fresh" by (simp add: g_def Nil)
  let ?h = "set_len fresh 0 (set_parent fresh None (set_pred fresh None (set_succ fresh None (fb_heap t))))"
  have e: "R(g := None, fb_dead t \<mapsto> tl D) = R(fresh := None)"
    using D Nil fresh(4) by (intro ext) (simp add: g)
  have un: "fresh \<notin> set (s # ys)" if "(R(fresh := None)) s = Some ys" for s ys
    using that fresh(2) by (auto split: if_splits)
  have "rings ?h (R(fresh := None))"
    by (rule rings_unused [OF rings_drop [OF fiber_queuesD(1) [OF q]] un])
      (auto simp: same_on_def set_field_defs)
  moreover have "acl_ring_pop_head (fb_heap t) (Some (fb_dead t)) = Inr (None, fb_heap t)"
    by (rule ring.take_head_empty [OF fiber_queuesD(1) [OF q] D [unfolded Nil]])
  ultimately show ?thesis
    unfolding e unfolding g using un by (auto simp: fiber_alloc_def fiber_calloc_def Let_def)
next
  case (Cons d D')
  have g: "g = d" by (simp add: g_def Cons)
  have Rd: "R (fb_dead t) = Some (d # D')" using D Cons by simp
  obtain h where h: "acl_ring_pop_head (fb_heap t) (Some (fb_dead t)) = Inr (Some d, h)"
    "rings h (R(fb_dead t \<mapsto> D', d \<mapsto> []))"
    using ring.take_head [OF fiber_queuesD(1) [OF q] Rd] by blast
  have d: "d \<noteq> fb_dead t" using rings_member_no_head(2) [OF fiber_queuesD(1) [OF q] Rd] by simp
  have e: "R(g := None, fb_dead t \<mapsto> tl D) = (R(fb_dead t \<mapsto> D', d \<mapsto> []))(d := None)"
    using d by (intro ext) (simp add: g Cons)
  have un: "d \<notin> set (s # ys)" if "((R(fb_dead t \<mapsto> D', d \<mapsto> []))(d := None)) s = Some ys" for s ys
    using rings_disjoint [OF h(2), of d "[]" s ys] that by (auto split: if_splits)
  show ?thesis
    unfolding e unfolding g using h un rings_drop [OF h(2), of d]
    by (auto simp: fiber_alloc_def Let_def)
qed

lemma acl_fiber_create_queues:
  assumes q: "fiber_queues t R" and D: "R (fb_dead t) = Some D" and Q: "R (fb_ready t) = Some Q"
    and fresh: "R fresh \<in> {None, Some []}" "\<forall>s ys. R s = Some ys \<longrightarrow> fresh \<notin> set ys"
      "fresh \<noteq> fb_ready t" "fresh \<noteq> fb_dead t"
  defines "g \<equiv> (case D of [] \<Rightarrow> fresh | d # _ \<Rightarrow> d)"
  shows "\<exists>t'. acl_fiber_create t fresh sz = Inr (g, t') \<and>
    fiber_queues t' (R(g := None, fb_dead t \<mapsto> tl D, fb_ready t \<mapsto> Q @ [g])) \<and>
    fb_ready t' = fb_ready t \<and> fb_dead t' = fb_dead t \<and> fb_running t' = fb_running t \<and>
    fb_status t' = (fb_status t)(g := FIBER_STATUS_READY) \<and> fb_fibers t' = fb_fibers t @ [g] \<and>
    fb_slot t' g = length (fb_fibers t) \<and> (\<forall>x. x \<noteq> g \<longrightarrow> fb_slot t' x = fb_slot t x) \<and>
    fiber_tls.more t' = fiber_tls.more t"
proof -
  let ?R = "R(g := None, fb_dead t \<mapsto> tl D)"
  obtain t1 where t1: "fiber_alloc t fresh sz = Inr (g, t1)" "rings (fb_heap t1) ?R"
    and un: "\<And>s ys. ?R s = Some ys \<Longrightarrow> g \<notin> set (s # ys)"
    and same: "fb_ready t1 = fb_ready t" "fb_dead t1 = fb_dead t" "fb_running t1 = fb_running t"
      "fb_status t1 = (fb_status t)(g := FIBER_STATUS_READY)" "fb_fibers t1 = fb_fibers t"
      "\<And>x. x \<noteq> g \<Longrightarrow> fb_slot t1 x = fb_slot t x" "fiber_tls.more t1 = fiber_tls.more t"
    using fiber_alloc_queues [OF q D fresh, where sz = sz] unfolding g_def by blast
  have g: "g \<noteq> fb_ready t"
    using fresh(3) rings_member_no_head(1) [OF fiber_queuesD(1) [OF q] D, of g] Q
    by (cases D) (auto simp: g_def)
  have rd: "?R (fb_ready t) = Some Q" using g Q fiber_queuesD(2) [OF q] by simp
  obtain h where h: "acl_ring_prepend (fb_heap t1) (Some (fb_ready t)) (Some g) = Inr h"
    "rings h (?R(fb_ready t \<mapsto> Q @ [g]))"
    using rings_prepend_unused [OF t1(2) rd un] by blast
  show ?thesis
    using t1(1) h same q Q unfolding acl_fiber_create_def
    by (auto simp: acl_fiber_ready_def fiber_queues_def Let_def)
qed

text \<open>\<open>fiber_kick\<close> frees the oldest dead fibers.\<close>

lemma fiber_kick_loop_queues:
  assumes "fiber_queues t R" "R (fb_dead t) = Some D" "k \<le> length D"
  shows "\<exists>h. fiber_kick_loop k t = Inr (t\<lparr>fb_heap := h, fb_freed := rev (take k D) @ fb_freed t\<rparr>) \<and>
    rings h ((\<lambda>a. if a \<in> set (take k D) then Some [] else R a)(fb_dead t \<mapsto> drop k D))"
  using assms
proof (induction k arbitrary: t R D)
  case 0
  then have "R(fb_dead t \<mapsto> D) = R" by (metis fun_upd_triv)
  with 0 show ?case
    by (auto simp: fiber_queues_def fun_upd_def cong: if_cong intro!: exI [of _ "fb_heap t"])
next
  case (Suc k)
  then obtain d D' where D: "D = d # D'" by (cases D) auto
  have Rd: "R (fb_dead t) = Some (d # D')" using Suc.prems(2) D by simp
  obtain h where h: "acl_ring_pop_head (fb_heap t) (Some (fb_dead t)) = Inr (Some d, h)"
    "rings h (R(fb_dead t \<mapsto> D', d \<mapsto> []))"
    using ring.take_head [OF fiber_queuesD(1) [OF Suc.prems(1)] Rd] by blast
  have d: "d \<noteq> fb_dead t" "R d = None"
    using rings_member_no_head [OF fiber_queuesD(1) [OF Suc.prems(1)] Rd] by auto
  then have dr: "d \<noteq> fb_ready t" using Suc.prems(1) by (auto simp: fiber_queues_def)
  let ?t = "fiber_free (t\<lparr>fb_heap := h\<rparr>) d" and ?R = "R(fb_dead t \<mapsto> D', d \<mapsto> [])"
  have fq: "fiber_queues ?t ?R"
    using h(2) d dr Suc.prems(1) by (auto simp: fiber_queues_def fiber_free_def)
  have e: "?R (fb_dead ?t) = Some D'" "k \<le> length D'" "fb_dead ?t = fb_dead t"
    using d Suc.prems(3) D by (auto simp: fiber_free_def)
  from Suc.IH [OF fq e(1,2)] obtain h' where h':
    "fiber_kick_loop k ?t = Inr (?t\<lparr>fb_heap := h', fb_freed := rev (take k D') @ fb_freed ?t\<rparr>)"
    "rings h' ((\<lambda>a. if a \<in> set (take k D') then Some [] else ?R a)(fb_dead t \<mapsto> drop k D'))"
    unfolding e(3) by blast
  have "(\<lambda>a. if a \<in> set (take k D') then Some [] else ?R a)(fb_dead t \<mapsto> drop k D')
      = (\<lambda>a. if a \<in> set (take (Suc k) D) then Some [] else R a)(fb_dead t \<mapsto> drop (Suc k) D)"
    using D by (intro ext) auto
  with h'(2) have "rings h' ((\<lambda>a. if a \<in> set (take (Suc k) D) then Some [] else R a)(fb_dead t \<mapsto> drop (Suc k) D))"
    by (simp only:)
  moreover have "fiber_kick_loop (Suc k) t = Inr (t\<lparr>fb_heap := h', fb_freed := rev (take (Suc k) D) @ fb_freed t\<rparr>)"
    using h(1) h'(1) D by (simp add: fiber_free_def)
  ultimately show ?case by blast
qed

text \<open>The table of fibers: every entry knows its slot.\<close>

definition fiber_table :: "'a fiber_tls_scheme \<Rightarrow> bool" where
  "fiber_table t \<longleftrightarrow>
     distinct (fb_fibers t) \<and> (\<forall>i < length (fb_fibers t). fb_slot t (fb_fibers t ! i) = i)"

lemma fiber_table_remove:
  fixes xs :: "addr list" and slot :: "addr \<Rightarrow> nat"
  assumes d: "distinct xs" and ix: "\<forall>i < length xs. slot (xs ! i) = i" and k: "k < length xs"
  defines "ys \<equiv> butlast (xs[k := last xs])"
  shows "distinct ys" "set ys = set xs - {xs ! k}"
    "\<forall>i < length ys. (slot(last xs := k)) (ys ! i) = i"
proof -
  have ne: "xs \<noteq> []" using k by auto
  define zs where "zs = butlast xs"
  have xs: "xs = zs @ [last xs]" using ne by (simp add: zs_def)
  define l where "l = last xs"
  have xl: "xs = zs @ [l]" using xs by (simp add: l_def)
  have dz: "distinct zs" "l \<notin> set zs" using d xl by auto
  have sz: "slot (zs ! i) = i" if "i < length zs" for i
    using ix that xl by (metis length_append_singleton less_SucI nth_append)
  have "distinct ys \<and> set ys = set xs - {xs ! k} \<and> (\<forall>i < length ys. (slot(l := k)) (ys ! i) = i)"
  proof (cases "k = length zs")
    case True
    then have ys: "ys = zs" by (simp add: ys_def xl)
    moreover have "zs ! i \<noteq> l" if "i < length zs" for i using dz that by (metis nth_mem)
    ultimately show ?thesis using dz sz xl True by auto
  next
    case False
    with k xl have kz: "k < length zs" by auto
    then have ys: "ys = zs[k := l]" by (simp add: ys_def xl list_update_append)
    have "set (zs[k := l]) = insert l (set zs - {zs ! k})"
      using set_update_distinct [OF dz(1) kz] .
    moreover have "zs ! k \<noteq> l" using dz kz by (metis nth_mem)
    moreover have "(slot(l := k)) (zs[k := l] ! i) = i" if "i < length zs" for i
      using that sz dz kz by (cases "i = k") (auto simp: nth_list_update)
    ultimately show ?thesis
      using ys dz kz xl distinct_list_update [OF dz(1), of l k] by (auto simp: nth_append)
  qed
  then show "distinct ys" "set ys = set xs - {xs ! k}"
    "\<forall>i < length ys. (slot(last xs := k)) (ys ! i) = i" by (auto simp: l_def)
qed

text \<open>
  A switch away from a fiber that is exiting: the table loses it, the dead ring gets it, and
  of the fibers that were dead already only the newest \<open>MAX_CACHE\<close> are kept.
\<close>

lemma fiber_swap_exiting:
  assumes q: "fiber_queues t R" and D: "R (fb_dead t) = Some D"
    and f: "R f = Some []" "f \<noteq> fb_ready t" "f \<noteq> fb_dead t" "fb_status t f = FIBER_STATUS_EXITING"
    and tab: "fiber_table t" "fb_slot t f < length (fb_fibers t)" "fb_fibers t ! fb_slot t f = f"
  shows "\<exists>t' R'. fiber_swap t (Ctx f) c = Inr (c, t') \<and> fiber_queues t' R' \<and>
    R' (fb_dead t) = Some (drop (length D - 1000) D @ [f]) \<and> R' (fb_ready t) = R (fb_ready t) \<and>
    fiber_table t' \<and> set (fb_fibers t') = set (fb_fibers t) - {f} \<and>
    fb_count t' = (if fb_sys t f then fb_count t else fb_count t - 1) \<and>
    fb_freed t' = rev (take (length D - 1000) D) @ fb_freed t \<and>
    fb_running t' = fb_running t \<and> fb_exitcode t' = fb_exitcode t \<and>
    fb_ready t' = fb_ready t \<and> fb_dead t' = fb_dead t \<and> fb_status t' = fb_status t \<and>
    fiber_tls.more t' = fiber_tls.more t \<and>
    (\<forall>x. x \<notin> insert f (insert (fb_dead t) (set D)) \<longrightarrow> R' x = R x) \<and> (\<forall>x\<in>set D. R' x \<in> {None, Some []})"
proof -
  let ?k = "length D - 1000"
  let ?R1 = "(\<lambda>a. if a \<in> set (take ?k D) then Some [] else R a)(fb_dead t \<mapsto> drop ?k D)"
  let ?t1 = "\<lambda>h. t\<lparr>fb_heap := h, fb_freed := rev (take ?k D) @ fb_freed t\<rparr>"
  let ?s = "fb_slot t f" and ?l = "last (fb_fibers t)"
  let ?t3 = "\<lambda>h. (?t1 h)\<lparr>fb_count := if fb_sys t f then fb_count t else fb_count t - 1,
      fb_fibers := butlast ((fb_fibers t)[?s := ?l]), fb_slot := (fb_slot t)(?l := ?s)\<rparr>"
  have n: "acl_ring_size (fb_heap t) (Some (fb_dead t)) = int (length D)"
    by (rule ring.qsize [OF fiber_queuesD(1) [OF q] D])
  obtain h where h: "fiber_kick_loop ?k t = Inr (?t1 h)" "rings h ?R1"
    using fiber_kick_loop_queues [OF q D, of ?k] by auto
  have kick: "(if int (length D) > MAX_CACHE then fiber_kick t (int (length D) - MAX_CACHE) else Inr t)
      = Inr (?t1 (if int (length D) > MAX_CACHE then h else fb_heap t))"
    using h(1) by (auto simp: fiber_kick_def MAX_CACHE_def nat_diff_distrib')
  let ?h = "if int (length D) > MAX_CACHE then h else fb_heap t"
  have R1: "rings ?h ?R1"
  proof (cases "int (length D) > MAX_CACHE")
    case False
    then have "?R1 = R" using D by (intro ext) (simp add: MAX_CACHE_def)
    with False fiber_queuesD(1) [OF q] show ?thesis by simp
  qed (use h(2) in simp)
  have R1f: "?R1 f = Some []" "?R1 (fb_dead t) = Some (drop ?k D)" using f by auto
  obtain h2 where h2: "acl_ring_prepend ?h (Some (fb_dead t)) (Some f) = Inr h2"
    "rings h2 (?R1(f := None, fb_dead t \<mapsto> drop ?k D @ [f]))"
    using ring.enter_tail [OF R1 R1f(2,1) f(3) [symmetric]] by blast
  have eq: "fiber_swap t (Ctx f) c = Inr (c, (?t3 ?h)\<lparr>fb_heap := h2\<rparr>)"
    using f(4) n kick tab(2) h2(1) by (simp add: fiber_swap_def Let_def)
  have "fb_ready t \<notin> set D" "fb_ready t \<noteq> fb_dead t"
    using rings_member_no_head(1) [OF fiber_queuesD(1) [OF q] D, of "fb_ready t"] q
    by (auto simp: fiber_queues_def)
  then have rd: "(?R1(f := None, fb_dead t \<mapsto> drop ?k D @ [f])) (fb_ready t) = R (fb_ready t)"
    using f(2) by (auto dest: in_set_takeD)
  then have q': "fiber_queues ((?t3 ?h)\<lparr>fb_heap := h2\<rparr>) (?R1(f := None, fb_dead t \<mapsto> drop ?k D @ [f]))"
    using h2(2) q by (simp add: fiber_queues_def)
  note rm = fiber_table_remove [of "fb_fibers t" "fb_slot t", OF _ _ tab(2)]
  have tb: "fiber_table ((?t3 ?h)\<lparr>fb_heap := h2\<rparr>)"
    "set (butlast ((fb_fibers t)[?s := ?l])) = set (fb_fibers t) - {f}"
    using rm tab(1,3) by (simp_all add: fiber_table_def)
  have oth: "(?R1(f := None, fb_dead t \<mapsto> drop ?k D @ [f])) x = R x"
    if "x \<notin> insert f (insert (fb_dead t) (set D))" for x
    using that in_set_takeD [of x ?k D] by auto
  have "R x = None \<and> x \<noteq> fb_dead t" if "x \<in> set D" for x
    using rings_member_no_head [OF fiber_queuesD(1) [OF q] D that] by simp
  then have dd: "(?R1(f := None, fb_dead t \<mapsto> drop ?k D @ [f])) x \<in> {None, Some []}" if "x \<in> set D" for x
    using that by auto
  show ?thesis
    by (rule exI [of _ "(?t3 ?h)\<lparr>fb_heap := h2\<rparr>"],
        rule exI [of _ "?R1(f := None, fb_dead t \<mapsto> drop ?k D @ [f])"])
      (use eq q' rd tb oth dd in simp)
qed

text \<open>
  A signal to another fiber \<open>f\<close>, wherever it is queued: it leaves the ring \<open>w\<close> it is in and
  runs, and the sender \<open>c\<close> is the first of the ready ring.
\<close>

lemma acl_fiber_signal_queues:
  fixes sig :: int
  assumes q: "fiber_queues t R" and run: "fb_running t = Some c" and Q: "R (fb_ready t) = Some Q"
    and c: "R c = Some []" "c \<noteq> fb_ready t" "c \<noteq> fb_dead t" "fb_status t c \<noteq> FIBER_STATUS_EXITING"
    and f: "R w = Some (xs @ f # ys)" "f \<noteq> c"
  defines "Q1 \<equiv> (if w = fb_ready t then xs @ ys else Q)"
    and "K \<equiv> sig \<in> {SIGKILL, SIGTERM, SIGQUIT}"
  shows "\<exists>h t'. acl_fiber_signal t (Some f) sig = Inr (Some (Ctx f), t') \<and>
    t' = t\<lparr>fb_errnum := if K then (fb_errnum t)(f := ECANCELED) else fb_errnum t,
       fb_killed := if K then (fb_killed t)(f := True) else fb_killed t,
       fb_signum := (fb_signum t)(f := sig),
       fb_status := (fb_status t)(c := FIBER_STATUS_READY, f := FIBER_STATUS_READY),
       fb_heap := h, fb_running := Some f, fb_switched := fb_switched t + 1\<rparr> \<and>
    fiber_queues t' (R(w \<mapsto> xs @ ys, c := None, fb_ready t \<mapsto> c # Q1, f \<mapsto> []))"
proof -
  note rings0 = fiber_queuesD(1) [OF q]
  have live: "\<forall>g\<in>set Q. fb_status t g \<noteq> FIBER_STATUS_EXITING" using q Q by (auto simp: fiber_queues_def)
  have Rf: "R f = None" using rings_member_no_head(1) [OF rings0 f(1)] by auto
  then have fn: "f \<noteq> fb_ready t" "f \<noteq> fb_dead t" "f \<noteq> w" using q f(1) by (auto simp: fiber_queues_def)
  have wc: "w \<noteq> c" using f(1) c(1) by auto
  let ?R1 = "R(w \<mapsto> xs @ ys, f \<mapsto> [])"
  let ?R2 = "?R1(c := None, fb_ready t \<mapsto> c # Q1)"
  let ?R3 = "?R2(f := None, fb_ready t \<mapsto> f # c # Q1)"
  have h1: "acl_ring_detach (fb_heap t) (Some c) = Inr (fb_heap t)"
    by (rule ring.leave_idle [OF rings0 c(1)])
  obtain h2 where h2: "acl_ring_detach (fb_heap t) (Some f) = Inr h2" "rings h2 ?R1"
    using ring.leave [OF rings0 f(1)] by blast
  have r1: "?R1 (fb_ready t) = Some Q1" "?R1 c = Some []"
    using Q fn c wc f(2) by (auto simp: Q1_def)
  obtain h3 where h3: "acl_ring_append h2 (Some (fb_ready t)) (Some c) = Inr h3" "rings h3 ?R2"
    using ring.enter_head [OF h2(2) r1 c(2) [symmetric]] by blast
  have r2: "?R2 (fb_ready t) = Some (c # Q1)" "?R2 f = Some []" using fn f(2) by auto
  obtain h4 where h4: "acl_ring_append h3 (Some (fb_ready t)) (Some f) = Inr h4" "rings h4 ?R3"
    using ring.enter_head [OF h3(2) r2 fn(1) [symmetric]] by blast
  let ?t = "t\<lparr>fb_errnum := if K then (fb_errnum t)(f := ECANCELED) else fb_errnum t,
      fb_killed := if K then (fb_killed t)(f := True) else fb_killed t,
      fb_signum := (fb_signum t)(f := sig),
      fb_status := (fb_status t)(c := FIBER_STATUS_READY, f := FIBER_STATUS_READY), fb_heap := h4\<rparr>"
  have "\<forall>g\<in>set Q1. fb_status t g \<noteq> FIBER_STATUS_EXITING"
    using live Q f(1) by (auto simp: Q1_def)
  then have q3: "fiber_queues ?t ?R3"
    using h4(2) q fn c(3) by (auto simp: fiber_queues_def)
  have sw: "?R3 (fb_ready ?t) = Some (f # c # Q1)" "fb_running ?t = Some c"
    "fb_status ?t c \<noteq> FIBER_STATUS_EXITING" using run by simp_all
  obtain h5 where h5: "acl_fiber_switch ?t =
      Inr (Ctx f, ?t\<lparr>fb_heap := h5, fb_running := Some f, fb_switched := fb_switched ?t + 1\<rparr>)"
    "fiber_queues (?t\<lparr>fb_heap := h5, fb_running := Some f, fb_switched := fb_switched ?t + 1\<rparr>)
       (?R3(fb_ready ?t \<mapsto> c # Q1, f \<mapsto> []))"
    using acl_fiber_switch_next [OF q3 sw] by blast
  have e: "?R3(fb_ready ?t \<mapsto> c # Q1, f \<mapsto> []) = R(w \<mapsto> xs @ ys, c := None, fb_ready t \<mapsto> c # Q1, f \<mapsto> [])"
    by (intro ext) (use fn wc f(2) in auto)
  have "acl_fiber_signal t (Some f) sig =
      Inr (Some (Ctx f), ?t\<lparr>fb_heap := h5, fb_running := Some f, fb_switched := fb_switched ?t + 1\<rparr>)"
    using run f(2) h1 h2(1) h3(1) h4(1) h5(1)
    by (cases K) (simp_all add: acl_fiber_signal_def Let_def K_def)
  with h5(2) e show ?thesis by auto
qed

end
