(* ===== verification/Acl_FiberSync.thy ===== *)
theory Acl_FiberSync
  imports Acl_Fiber
begin

text \<open>
  The fiber mutex, reader-writer lock and semaphore of \<open>lib_fiber/c/src/fiber_lock.c\<close> and
  \<open>fiber_sem.c\<close>, over the scheduler of \<open>Acl_Fiber\<close>.

  A lock is named by the address of its \<open>waiting\<close> ring. An operation that may block is
  split at its call of \<open>acl_fiber_switch\<close>: the first half either returns or switches away,
  the resume half is what the fiber runs when it is switched to again. The counts \<open>readers\<close> and
  \<open>num\<close>, \<open>int\<close>s in the code, are integers without bounds: they are those of the code for fewer
  than \<open>2\<^bsup>31\<^esup>\<close> readers and permits of one lock or semaphore.
\<close>

section \<open>State and operations\<close>

record fiber_sync = fiber_tls +
  mx_owner :: "addr \<Rightarrow> ptr"
  rw_readers :: "addr \<Rightarrow> int" \<comment> \<open>of the lock whose \<open>rwaiting\<close> ring has this address\<close>
  rw_writer :: "addr \<Rightarrow> ptr"
  sem_num :: "addr \<Rightarrow> int"
  sem_tid :: "addr \<Rightarrow> nat"
  self_tid :: nat \<comment> \<open>\<open>acl_pthread_self()\<close> of the thread\<close>

datatype outcome = Returned int | Switched exec_ctx

subsection \<open>Mutex\<close>

definition acl_fiber_mutex_create :: "'a fiber_sync_scheme \<Rightarrow> addr \<Rightarrow> 'a fiber_sync_scheme" where
  "acl_fiber_mutex_create t lk =
     t\<lparr>mx_owner := (mx_owner t)(lk := None), fb_heap := acl_ring_init (fb_heap t) (Some lk)\<rparr>"

definition mutex_lock :: "'a fiber_sync_scheme \<Rightarrow> addr \<Rightarrow> bool \<Rightarrow> (outcome \<times> 'a fiber_sync_scheme) cres" where
  "mutex_lock t lk block =
     (if mx_owner t lk = None
      then Inr (Returned 1, t\<lparr>mx_owner := (mx_owner t)(lk := fb_running t)\<rparr>)
      else if \<not> block then Inr (Returned 0, t)
      else
        cbind (deref (fb_running t)) (\<lambda>cur.
        cbind (acl_ring_prepend (fb_heap t) (Some lk) (Some cur)) (\<lambda>h.
        cbind (acl_fiber_switch (t\<lparr>fb_heap := h\<rparr>)) (\<lambda>(c, t1). Inr (Switched c, t1)))))"

text \<open>The resume half returns 1 in every case; the flag says that it warned of an unexpected owner.\<close>

definition mutex_lock_resume ::
  "'a fiber_sync_scheme \<Rightarrow> addr \<Rightarrow> addr \<Rightarrow> (int \<times> bool \<times> 'a fiber_sync_scheme) cres" where
  "mutex_lock_resume t lk cur =
     cbind (acl_ring_detach (fb_heap t) (Some cur)) (\<lambda>h.
       let t1 = t\<lparr>fb_heap := h\<rparr>
       in if mx_owner t1 lk = Some cur then Inr (1, False, t1)
          else Inr (1, \<not> acl_fiber_killed t1 (Some cur), t1))"

definition acl_fiber_mutex_lock ::
  "'a fiber_sync_scheme \<Rightarrow> addr \<Rightarrow> (outcome \<times> 'a fiber_sync_scheme) cres" where
  "acl_fiber_mutex_lock t lk = mutex_lock t lk True"

definition acl_fiber_mutex_trylock ::
  "'a fiber_sync_scheme \<Rightarrow> addr \<Rightarrow> (outcome \<times> 'a fiber_sync_scheme) cres" where
  "acl_fiber_mutex_trylock t lk = mutex_lock t lk False"

definition first_fiber :: "'a fiber_tls_scheme \<Rightarrow> addr \<Rightarrow> ptr" where
  "first_fiber t head =
     (if rg_succ (fb_heap t) head \<noteq> Some head then rg_succ (fb_heap t) head else None)"

definition acl_fiber_mutex_unlock ::
  "'a fiber_sync_scheme \<Rightarrow> addr \<Rightarrow> ('a fiber_sync_scheme) cres" where
  "acl_fiber_mutex_unlock t lk =
     (if mx_owner t lk = None then Inl Fatal
      else
        (let rdy = first_fiber t lk;
             t1 = t\<lparr>mx_owner := (mx_owner t)(lk := rdy)\<rparr>
         in case rdy of
              None \<Rightarrow> Inr t1
            | Some f \<Rightarrow>
                cbind (acl_ring_detach (fb_heap t1) (Some f)) (\<lambda>h.
                  acl_fiber_ready (t1\<lparr>fb_heap := h\<rparr>) f)))"

subsection \<open>Reader-writer lock\<close>

text \<open>
  The lock is given by the addresses of its two rings, \<open>rw\<close> for \<open>rwaiting\<close> and \<open>ww\<close> for
  \<open>wwaiting\<close>; its \<open>readers\<close> and \<open>writer\<close> are kept at \<open>rw\<close>. The loop of
  \<open>acl_fiber_rwlock_wunlock\<close> has no bound in the source: it gets \<open>fuel\<close> turns.
\<close>

definition acl_fiber_rwlock_create :: "'a fiber_sync_scheme \<Rightarrow> addr \<Rightarrow> addr \<Rightarrow> 'a fiber_sync_scheme" where
  "acl_fiber_rwlock_create t rw ww =
     t\<lparr>rw_readers := (rw_readers t)(rw := 0), rw_writer := (rw_writer t)(rw := None),
       fb_heap := acl_ring_init (acl_ring_init (fb_heap t) (Some rw)) (Some ww)\<rparr>"

definition rwlock_rlock ::
  "'a fiber_sync_scheme \<Rightarrow> addr \<Rightarrow> addr \<Rightarrow> bool \<Rightarrow> (outcome \<times> 'a fiber_sync_scheme) cres" where
  "rwlock_rlock t rw ww block =
     (if rw_writer t rw = None \<and> first_fiber t ww = None
      then Inr (Returned 1, t\<lparr>rw_readers := (rw_readers t)(rw := rw_readers t rw + 1)\<rparr>)
      else if \<not> block then Inr (Returned 0, t)
      else
        cbind (deref (fb_running t)) (\<lambda>cur.
        cbind (acl_ring_prepend (fb_heap t) (Some rw) (Some cur)) (\<lambda>h.
        cbind (acl_fiber_switch (t\<lparr>fb_heap := h\<rparr>)) (\<lambda>(c, t1). Inr (Switched c, t1)))))"

definition rwlock_wlock ::
  "'a fiber_sync_scheme \<Rightarrow> addr \<Rightarrow> addr \<Rightarrow> bool \<Rightarrow> (outcome \<times> 'a fiber_sync_scheme) cres" where
  "rwlock_wlock t rw ww block =
     (if rw_writer t rw = None \<and> rw_readers t rw = 0
      then Inr (Returned 1, t\<lparr>rw_writer := (rw_writer t)(rw := fb_running t)\<rparr>)
      else if \<not> block then Inr (Returned 0, t)
      else
        cbind (deref (fb_running t)) (\<lambda>cur.
        cbind (acl_ring_prepend (fb_heap t) (Some ww) (Some cur)) (\<lambda>h.
        cbind (acl_fiber_switch (t\<lparr>fb_heap := h\<rparr>)) (\<lambda>(c, t1). Inr (Switched c, t1)))))"

definition rwlock_resume :: "'a fiber_sync_scheme \<Rightarrow> addr \<Rightarrow> (int \<times> 'a fiber_sync_scheme) cres" where
  "rwlock_resume t cur =
     cbind (acl_ring_detach (fb_heap t) (Some cur)) (\<lambda>h. Inr (1, t\<lparr>fb_heap := h\<rparr>))"

definition acl_fiber_rwlock_runlock ::
  "'a fiber_sync_scheme \<Rightarrow> addr \<Rightarrow> addr \<Rightarrow> ('a fiber_sync_scheme) cres" where
  "acl_fiber_rwlock_runlock t rw ww =
     (let t1 = t\<lparr>rw_readers := (rw_readers t)(rw := rw_readers t rw - 1)\<rparr>
      in if rw_readers t1 rw = 0 then
           (case first_fiber t1 ww of
              None \<Rightarrow> Inr t1
            | Some f \<Rightarrow>
                cbind (acl_ring_detach (fb_heap t1) (Some ww)) (\<lambda>h.
                  acl_fiber_ready
                    (t1\<lparr>fb_heap := h, rw_writer := (rw_writer t1)(rw := Some f)\<rparr>) f))
         else Inr t1)"

fun rwlock_wake_readers :: "nat \<Rightarrow> 'a fiber_sync_scheme \<Rightarrow> addr \<Rightarrow> ('a fiber_sync_scheme) cres" where
  "rwlock_wake_readers 0 t rw = Inl OutOfFuel"
| "rwlock_wake_readers (Suc fuel) t rw =
     (case first_fiber t rw of
        None \<Rightarrow> Inr t
      | Some f \<Rightarrow>
          cbind (acl_ring_detach (fb_heap t) (Some rw)) (\<lambda>h.
          cbind (acl_fiber_ready
                   (t\<lparr>fb_heap := h, rw_readers := (rw_readers t)(rw := rw_readers t rw + 1)\<rparr>) f)
            (\<lambda>t1. rwlock_wake_readers fuel t1 rw)))"

definition acl_fiber_rwlock_wunlock ::
  "nat \<Rightarrow> 'a fiber_sync_scheme \<Rightarrow> addr \<Rightarrow> addr \<Rightarrow> ('a fiber_sync_scheme) cres" where
  "acl_fiber_rwlock_wunlock fuel t rw ww =
     (if rw_writer t rw = None then Inl Fatal
      else
        (let t1 = t\<lparr>rw_writer := (rw_writer t)(rw := None)\<rparr>
         in if rw_readers t1 rw \<noteq> 0 then Inl Fatal
            else cbind (rwlock_wake_readers fuel t1 rw) (\<lambda>t2.
              if rw_readers t2 rw = 0 then
                (case first_fiber t2 ww of
                   None \<Rightarrow> Inr t2
                 | Some f \<Rightarrow>
                     cbind (acl_ring_detach (fb_heap t2) (Some ww)) (\<lambda>h.
                       acl_fiber_ready
                         (t2\<lparr>fb_heap := h, rw_writer := (rw_writer t2)(rw := Some f)\<rparr>) f))
              else Inr t2)))"

subsection \<open>Semaphore\<close>

definition acl_fiber_sem_create :: "'a fiber_sync_scheme \<Rightarrow> addr \<Rightarrow> int \<Rightarrow> 'a fiber_sync_scheme" where
  "acl_fiber_sem_create t s num =
     t\<lparr>sem_num := (sem_num t)(s := num), fb_heap := acl_ring_init (fb_heap t) (Some s),
       sem_tid := (sem_tid t)(s := self_tid t)\<rparr>"

definition acl_fiber_sem_set_tid ::
  "'a fiber_sync_scheme \<Rightarrow> addr \<Rightarrow> nat \<Rightarrow> ('a fiber_sync_scheme) cres" where
  "acl_fiber_sem_set_tid t s tid =
     (if sem_tid t s \<noteq> tid \<and> acl_ring_size (fb_heap t) (Some s) > 0 then Inl Fatal
      else Inr (t\<lparr>sem_tid := (sem_tid t)(s := tid)\<rparr>))"

definition acl_fiber_sem_wait ::
  "'a fiber_sync_scheme \<Rightarrow> addr \<Rightarrow> (outcome \<times> 'a fiber_sync_scheme) cres" where
  "acl_fiber_sem_wait t s =
     (if sem_tid t s \<noteq> self_tid t then Inr (Returned (-1), t)
      else if sem_num t s > 0
      then Inr (Returned (sem_num t s - 1), t\<lparr>sem_num := (sem_num t)(s := sem_num t s - 1)\<rparr>)
      else case fb_running t of
             None \<Rightarrow> Inr (Returned (-1), t)
           | Some cur \<Rightarrow>
               cbind (acl_ring_prepend (fb_heap t) (Some s) (Some cur)) (\<lambda>h.
               cbind (acl_fiber_switch (t\<lparr>fb_heap := h\<rparr>)) (\<lambda>(c, t1). Inr (Switched c, t1))))"

definition acl_fiber_sem_wait_resume ::
  "'a fiber_sync_scheme \<Rightarrow> addr \<Rightarrow> addr \<Rightarrow> (int \<times> 'a fiber_sync_scheme) cres" where
  "acl_fiber_sem_wait_resume t s cur =
     cbind (acl_ring_detach (fb_heap t) (Some cur)) (\<lambda>h.
       let t1 = t\<lparr>fb_heap := h\<rparr> in Inr (sem_num t1 s, t1))"

definition acl_fiber_sem_trywait :: "'a fiber_sync_scheme \<Rightarrow> addr \<Rightarrow> int \<times> 'a fiber_sync_scheme" where
  "acl_fiber_sem_trywait t s =
     (if sem_tid t s \<noteq> self_tid t then (-1, t)
      else if sem_num t s > 0
      then (sem_num t s - 1, t\<lparr>sem_num := (sem_num t)(s := sem_num t s - 1)\<rparr>)
      else (-1, t))"

definition acl_fiber_sem_post ::
  "'a fiber_sync_scheme \<Rightarrow> addr \<Rightarrow> (int \<times> 'a fiber_sync_scheme) cres" where
  "acl_fiber_sem_post t s =
     (if sem_tid t s \<noteq> self_tid t then Inr (-1, t)
      else case first_fiber t s of
             None \<Rightarrow>
               (let t1 = t\<lparr>sem_num := (sem_num t)(s := sem_num t s + 1)\<rparr>
                in Inr (sem_num t1 s, t1))
           | Some f \<Rightarrow>
               cbind (acl_ring_detach (fb_heap t) (Some f)) (\<lambda>h.
               cbind (acl_fiber_ready (t\<lparr>fb_heap := h\<rparr>) f) (\<lambda>t1. Inr (sem_num t1 s, t1))))"

section \<open>Fibers that use mutexes and semaphores\<close>

text \<open>
  The whole system: the thread's state, which context runs (\<open>sy_at\<close>), and for every fiber
  where it stopped (\<open>sy_pc\<close>). A fiber stopped in the switch of \<open>__lock\<close> is \<open>InLock\<close>, or
  \<open>OutLock\<close> once a signal has taken it out of the mutex's queue; \<open>InSem\<close> and \<open>OutSem\<close> are the
  same for the switch of \<open>acl_fiber_sem_wait\<close>. The other fields record the history:
  \<open>sy_hold f\<close>, the mutexes \<open>f\<close> has locked and not unlocked; for every semaphore the permits it
  was created with, the posts, and the waits that returned with a permit.
\<close>

datatype fiber_pc = User | InLock addr | OutLock addr | InSem addr | OutSem addr | InYield int | InSignal

record sync_sys = fiber_sync +
  sy_at :: exec_ctx
  sy_pc :: "addr \<Rightarrow> fiber_pc"
  sy_hold :: "addr \<Rightarrow> addr set"
  sy_init :: "addr \<Rightarrow> int"
  sy_posted :: "addr \<Rightarrow> int"
  sy_taken :: "addr \<Rightarrow> int"

text \<open>
  A signal finds its target in the ready ring, and then only moves it to the front, or in the
  queue of a mutex or semaphore, and then ends its wait.
\<close>

fun wait_ended :: "fiber_pc \<Rightarrow> fiber_pc" where
  "wait_ended (InLock m) = OutLock m"
| "wait_ended (InSem q) = OutSem q"
| "wait_ended p = p"

definition signalled :: "'a fiber_tls_scheme \<Rightarrow> addr \<Rightarrow> fiber_pc \<Rightarrow> fiber_pc" where
  "signalled t g p = (if rg_parent (fb_heap t) g = Some (fb_ready t) then p else wait_ended p)"

text \<open>A block the allocator may return: no object of the thread that is still in use.\<close>

definition fresh_block :: "addr set \<Rightarrow> 'a fiber_tls_scheme \<Rightarrow> addr \<Rightarrow> bool" where
  "fresh_block W t a \<longleftrightarrow>
     a \<notin> W \<union> {fb_ready t, fb_dead t} \<union> set (fb_fibers t) \<and>
     (\<forall>D. is_ring (fb_heap t) (fb_dead t) D \<longrightarrow> a \<notin> set D)"

text \<open>
  One step: the running fiber calls an operation on one of the mutexes \<open>M\<close> or semaphores
  \<open>S\<close>, yields, signals a fiber of the thread, creates a fiber or ends, or goes on after the
  switch it stopped in; or the scheduler's loop takes a turn. A fiber unlocks only what it
  holds, and signals only fibers that have not ended.
\<close>

inductive sync_step :: "addr set \<Rightarrow> addr set \<Rightarrow> sync_sys \<Rightarrow> sync_sys \<Rightarrow> bool" for M S where
  lock_now: "sy_at s = Ctx f \<Longrightarrow> sy_pc s f = User \<Longrightarrow> m \<in> M \<Longrightarrow>
    acl_fiber_mutex_lock s m = Inr (Returned r, s') \<Longrightarrow>
    sync_step M S s (s'\<lparr>sy_hold := (sy_hold s')(f := insert m (sy_hold s' f))\<rparr>)"
| lock_block: "sy_at s = Ctx f \<Longrightarrow> sy_pc s f = User \<Longrightarrow> m \<in> M \<Longrightarrow>
    acl_fiber_mutex_lock s m = Inr (Switched c, s') \<Longrightarrow>
    sync_step M S s (s'\<lparr>sy_at := c, sy_pc := (sy_pc s')(f := InLock m)\<rparr>)"
| lock_resume: "sy_at s = Ctx f \<Longrightarrow> sy_pc s f = InLock m \<Longrightarrow>
    mutex_lock_resume s m f = Inr (r, w, s') \<Longrightarrow>
    sync_step M S s (s'\<lparr>sy_pc := (sy_pc s')(f := User),
                        sy_hold := (sy_hold s')(f := insert m (sy_hold s' f))\<rparr>)"
| lock_resume_out: "sy_at s = Ctx f \<Longrightarrow> sy_pc s f = OutLock m \<Longrightarrow>
    mutex_lock_resume s m f = Inr (r, w, s') \<Longrightarrow>
    sync_step M S s (s'\<lparr>sy_pc := (sy_pc s')(f := User)\<rparr>)"
| trylock: "sy_at s = Ctx f \<Longrightarrow> sy_pc s f = User \<Longrightarrow> m \<in> M \<Longrightarrow>
    acl_fiber_mutex_trylock s m = Inr (Returned r, s') \<Longrightarrow>
    sync_step M S s (if r = 1 then s'\<lparr>sy_hold := (sy_hold s')(f := insert m (sy_hold s' f))\<rparr> else s')"
| unlock: "sy_at s = Ctx f \<Longrightarrow> sy_pc s f = User \<Longrightarrow> m \<in> sy_hold s f \<Longrightarrow>
    acl_fiber_mutex_unlock s m = Inr s' \<Longrightarrow>
    sync_step M S s (s'\<lparr>sy_hold := (sy_hold s')(f := sy_hold s' f - {m})\<rparr>)"
| sem_wait_now: "sy_at s = Ctx f \<Longrightarrow> sy_pc s f = User \<Longrightarrow> q \<in> S \<Longrightarrow>
    acl_fiber_sem_wait s q = Inr (Returned r, s') \<Longrightarrow>
    sync_step M S s (if r < 0 then s' else s'\<lparr>sy_taken := (sy_taken s')(q := sy_taken s' q + 1)\<rparr>)"
| sem_wait_block: "sy_at s = Ctx f \<Longrightarrow> sy_pc s f = User \<Longrightarrow> q \<in> S \<Longrightarrow>
    acl_fiber_sem_wait s q = Inr (Switched c, s') \<Longrightarrow>
    sync_step M S s (s'\<lparr>sy_at := c, sy_pc := (sy_pc s')(f := InSem q)\<rparr>)"
| sem_resume: "sy_at s = Ctx f \<Longrightarrow> sy_pc s f = InSem q \<Longrightarrow>
    acl_fiber_sem_wait_resume s q f = Inr (r, s') \<Longrightarrow>
    sync_step M S s (s'\<lparr>sy_pc := (sy_pc s')(f := User), sy_taken := (sy_taken s')(q := sy_taken s' q + 1)\<rparr>)"
| sem_resume_out: "sy_at s = Ctx f \<Longrightarrow> sy_pc s f = OutSem q \<Longrightarrow>
    acl_fiber_sem_wait_resume s q f = Inr (r, s') \<Longrightarrow>
    sync_step M S s (s'\<lparr>sy_pc := (sy_pc s')(f := User)\<rparr>)"
| sem_trywait: "sy_at s = Ctx f \<Longrightarrow> sy_pc s f = User \<Longrightarrow> q \<in> S \<Longrightarrow>
    acl_fiber_sem_trywait s q = (r, s') \<Longrightarrow>
    sync_step M S s (if r < 0 then s' else s'\<lparr>sy_taken := (sy_taken s')(q := sy_taken s' q + 1)\<rparr>)"
| sem_post: "sy_at s = Ctx f \<Longrightarrow> sy_pc s f = User \<Longrightarrow> q \<in> S \<Longrightarrow>
    acl_fiber_sem_post s q = Inr (r, s') \<Longrightarrow>
    sync_step M S s (if r < 0 then s' else s'\<lparr>sy_posted := (sy_posted s')(q := sy_posted s' q + 1)\<rparr>)"
| yield_now: "sy_at s = Ctx f \<Longrightarrow> sy_pc s f = User \<Longrightarrow> acl_fiber_yield s = Inr (None, s') \<Longrightarrow>
    sync_step M S s s'"
| yield: "sy_at s = Ctx f \<Longrightarrow> sy_pc s f = User \<Longrightarrow> acl_fiber_yield s = Inr (Some c, s') \<Longrightarrow>
    sync_step M S s (s'\<lparr>sy_at := c, sy_pc := (sy_pc s')(f := InYield (fb_switched s))\<rparr>)"
| yield_resume: "sy_at s = Ctx f \<Longrightarrow> sy_pc s f = InYield n \<Longrightarrow>
    sync_step M S s (s\<lparr>sy_pc := (sy_pc s)(f := User)\<rparr>)"
| signal_now: "sy_at s = Ctx f \<Longrightarrow> sy_pc s f = User \<Longrightarrow> g \<in> set (fb_fibers s) \<Longrightarrow>
    acl_fiber_signal s (Some g) sig = Inr (None, s') \<Longrightarrow> sync_step M S s s'"
| signal: "sy_at s = Ctx f \<Longrightarrow> sy_pc s f = User \<Longrightarrow> g \<in> set (fb_fibers s) \<Longrightarrow>
    acl_fiber_signal s (Some g) sig = Inr (Some c, s') \<Longrightarrow>
    sync_step M S s (s'\<lparr>sy_at := c, sy_pc := (sy_pc s')(g := signalled s g (sy_pc s' g), f := InSignal)\<rparr>)"
| signal_resume: "sy_at s = Ctx f \<Longrightarrow> sy_pc s f = InSignal \<Longrightarrow>
    sync_step M S s (s\<lparr>sy_pc := (sy_pc s)(f := User)\<rparr>)"
| create: "sy_at s = Ctx f \<Longrightarrow> sy_pc s f = User \<Longrightarrow> fresh_block (M \<union> S) s a \<Longrightarrow>
    acl_fiber_create s a sz = Inr (g, s') \<Longrightarrow>
    sync_step M S s (s'\<lparr>sy_pc := (sy_pc s')(g := User)\<rparr>)"
| fiber_ends: "sy_at s = Ctx f \<Longrightarrow> sy_pc s f = User \<Longrightarrow> fiber_start_end s f = Inr (c, s') \<Longrightarrow>
    sync_step M S s (s'\<lparr>sy_at := c\<rparr>)"
| schedule_turn: "sy_at s = Original \<Longrightarrow> fb_running s = None \<Longrightarrow>
    acl_fiber_schedule_turn s = Inr (Some c, s') \<Longrightarrow> sync_step M S s (s'\<lparr>sy_at := c\<rparr>)"
| schedule_back: "sy_at s = Original \<Longrightarrow> sync_step M S s (acl_fiber_schedule_back s)"

subsection \<open>The invariant\<close>

text \<open>
  What the mutexes, the semaphores and the table of fibers keep true, as predicates on the
  fields they depend on. A fiber in a mutex's queue is stopped in its \<open>lock\<close>, and a fiber
  stopped there is queued or already owns it; a fiber owns what it holds; a free mutex has no
  queue. A semaphore with permits has no queue, and no permit is lost or made up: one that
  was posted to a waiter is with a fiber of \<open>L\<close>, the running fiber and those of the ready ring,
  until that fiber's wait returns. Every fiber of the table is in \<open>L\<close> or in a queue, and every
  other fiber is in none.
\<close>

definition mutex_ok ::
  "addr set \<Rightarrow> (addr \<rightharpoonup> addr list) \<Rightarrow> (addr \<Rightarrow> ptr) \<Rightarrow> (addr \<Rightarrow> fiber_pc) \<Rightarrow> (addr \<Rightarrow> addr set) \<Rightarrow>
   (addr \<Rightarrow> fiber_status) \<Rightarrow> bool" where
  "mutex_ok M R owner pc hold status \<longleftrightarrow>
     (\<forall>m\<in>M. \<forall>f\<in>set (the (R m)). pc f = InLock m \<and> status f \<noteq> FIBER_STATUS_EXITING) \<and>
     (\<forall>m\<in>M. owner m = None \<longrightarrow> R m = Some []) \<and>
     (\<forall>f m. pc f = InLock m \<longrightarrow> m \<in> M \<and> (f \<in> set (the (R m)) \<or> owner m = Some f)) \<and>
     (\<forall>f m. m \<in> hold f \<longrightarrow> m \<in> M \<and> owner m = Some f)"

definition in_flight :: "addr \<Rightarrow> (addr \<Rightarrow> fiber_pc) \<Rightarrow> addr list \<Rightarrow> int" where
  "in_flight q pc L = int (length (filter (\<lambda>f. pc f = InSem q) L))"

definition sem_ok ::
  "addr set \<Rightarrow> (addr \<rightharpoonup> addr list) \<Rightarrow> addr list \<Rightarrow> (addr \<Rightarrow> int) \<Rightarrow> (addr \<Rightarrow> fiber_pc) \<Rightarrow>
   (addr \<Rightarrow> fiber_status) \<Rightarrow> (addr \<Rightarrow> int) \<Rightarrow> (addr \<Rightarrow> int) \<Rightarrow> (addr \<Rightarrow> int) \<Rightarrow> bool" where
  "sem_ok S R L num pc status init posted taken \<longleftrightarrow>
     (\<forall>q\<in>S. (\<forall>f\<in>set (the (R q)). pc f = InSem q \<and> status f \<noteq> FIBER_STATUS_EXITING) \<and>
        0 \<le> num q \<and> (0 < num q \<longrightarrow> R q = Some []) \<and>
        init q + posted q = num q + taken q + in_flight q pc L)"

definition table_ok ::
  "addr set \<Rightarrow> addr set \<Rightarrow> (addr \<rightharpoonup> addr list) \<Rightarrow> addr list \<Rightarrow> addr list \<Rightarrow> (addr \<Rightarrow> fiber_pc) \<Rightarrow> bool" where
  "table_ok W H R L fibers pc \<longleftrightarrow>
     (\<forall>x\<in>- H. R x \<in> {None, Some []}) \<and> set L \<subseteq> set fibers \<and>
     (\<forall>g. pc g \<noteq> User \<longrightarrow> g \<in> set fibers) \<and>
     (\<forall>g\<in>set fibers. g \<in> set L \<or> (\<exists>q\<in>W. g \<in> set (the (R q))))"

definition sync_core :: "addr set \<Rightarrow> addr set \<Rightarrow> (addr \<rightharpoonup> addr list) \<Rightarrow> addr list \<Rightarrow> sync_sys \<Rightarrow> bool" where
  "sync_core M S R L s \<longleftrightarrow>
     fiber_queues s R \<and> fiber_table s \<and>
     (\<forall>q\<in>M \<union> S. R q \<noteq> None \<and> q \<noteq> fb_ready s \<and> q \<noteq> fb_dead s) \<and>
     table_ok (M \<union> S) (M \<union> S \<union> {fb_ready s, fb_dead s}) R L (fb_fibers s) (sy_pc s) \<and>
     mutex_ok M R (mx_owner s) (sy_pc s) (sy_hold s) (fb_status s) \<and>
     sem_ok S R L (sem_num s) (sy_pc s) (fb_status s) (sy_init s) (sy_posted s) (sy_taken s)"

definition sync_at :: "addr set \<Rightarrow> addr set \<Rightarrow> (addr \<rightharpoonup> addr list) \<Rightarrow> sync_sys \<Rightarrow> bool" where
  "sync_at M S R s \<longleftrightarrow>
     (\<forall>f. sy_at s = Ctx f \<longrightarrow>
        fb_running s = Some f \<and> R f = Some [] \<and> f \<notin> insert (fb_ready s) (insert (fb_dead s) (M \<union> S)) \<and>
        fb_status s f \<noteq> FIBER_STATUS_EXITING)"

definition at_list :: "exec_ctx \<Rightarrow> addr list" where
  "at_list c = (case c of Original \<Rightarrow> [] | Ctx f \<Rightarrow> [f])"

lemma at_list_simps [simp]: "at_list Original = []" "at_list (Ctx f) = [f]"
  by (simp_all add: at_list_def)

abbreviation live :: "(addr \<rightharpoonup> addr list) \<Rightarrow> sync_sys \<Rightarrow> addr list" where
  "live R s \<equiv> at_list (sy_at s) @ the (R (fb_ready s))"

definition sync_inv :: "addr set \<Rightarrow> addr set \<Rightarrow> sync_sys \<Rightarrow> bool" where
  "sync_inv M S s \<longleftrightarrow> M \<inter> S = {} \<and> (\<exists>R. sync_core M S R (live R s) s \<and> sync_at M S R s)"

lemma first_fiber_ring:
  assumes "rings (fb_heap t) R" "R q = Some xs"
  shows "first_fiber t q = (case xs of [] \<Rightarrow> None | x # _ \<Rightarrow> Some x)"
proof -
  have r: "is_ring (fb_heap t) q xs" by (rule ringsD [OF assms])
  show ?thesis
  proof (cases xs)
    case Nil
    with ring_succ [OF r] show ?thesis by (simp add: first_fiber_def)
  next
    case (Cons x ys)
    have "rg_succ (fb_heap t) q = Some x" using ring_succ [OF r] Cons by simp
    moreover have "x \<noteq> q" using is_ringD(1) [OF r] Cons by simp
    ultimately show ?thesis using Cons by (simp add: first_fiber_def)
  qed
qed

lemma mutex_okI:
  assumes "\<And>m f. m \<in> M \<Longrightarrow> f \<in> set (the (R m)) \<Longrightarrow> pc f = InLock m \<and> status f \<noteq> FIBER_STATUS_EXITING"
    and "\<And>m. m \<in> M \<Longrightarrow> owner m = None \<Longrightarrow> R m = Some []"
    and "\<And>f m. pc f = InLock m \<Longrightarrow> m \<in> M"
    and "\<And>f m. pc f = InLock m \<Longrightarrow> f \<notin> set (the (R m)) \<Longrightarrow> owner m = Some f"
    and "\<And>f m. m \<in> hold f \<Longrightarrow> m \<in> M \<and> owner m = Some f"
  shows "mutex_ok M R owner pc hold status"
  unfolding mutex_ok_def using assms by blast

lemma mutex_okD:
  assumes "mutex_ok M R owner pc hold status"
  shows "m \<in> M \<Longrightarrow> f \<in> set (the (R m)) \<Longrightarrow> pc f = InLock m \<and> status f \<noteq> FIBER_STATUS_EXITING"
    and "m \<in> M \<Longrightarrow> owner m = None \<Longrightarrow> R m = Some []"
    and "pc f = InLock m \<Longrightarrow> m \<in> M"
    and "pc f = InLock m \<Longrightarrow> f \<notin> set (the (R m)) \<Longrightarrow> owner m = Some f"
    and "m \<in> hold f \<Longrightarrow> m \<in> M \<and> owner m = Some f"
  using assms unfolding mutex_ok_def by blast+

lemma sem_okD:
  assumes "sem_ok S R L num pc status init posted taken" "q \<in> S"
  shows "f \<in> set (the (R q)) \<Longrightarrow> pc f = InSem q \<and> status f \<noteq> FIBER_STATUS_EXITING"
    and "0 \<le> num q" and "0 < num q \<Longrightarrow> R q = Some []"
    and "init q + posted q = num q + taken q + in_flight q pc L"
  using assms unfolding sem_ok_def by blast+

lemma table_okD:
  assumes "table_ok W H R L fibers pc"
  shows "x \<notin> H \<Longrightarrow> R x \<in> {None, Some []}" and "g \<in> set L \<Longrightarrow> g \<in> set fibers"
    and "pc g \<noteq> User \<Longrightarrow> g \<in> set fibers"
    and "g \<in> set fibers \<Longrightarrow> g \<in> set L \<or> (\<exists>q\<in>W. g \<in> set (the (R q)))"
  using assms unfolding table_ok_def by blast+

lemma in_flight_simps [simp]:
  "in_flight q pc [] = 0"
  "in_flight q pc (f # L) = (if pc f = InSem q then 1 else 0) + in_flight q pc L"
  "in_flight q pc (L @ L') = in_flight q pc L + in_flight q pc L'"
  by (simp_all add: in_flight_def)

lemma in_flight_other [simp]: "f \<notin> set L \<Longrightarrow> in_flight q (pc(f := p)) L = in_flight q pc L"
  by (induction L) auto

text \<open>What each of the three needs to stay true when queues, program counters and statuses change.\<close>

lemma mutex_ok_frame:
  assumes ok: "mutex_ok M R owner pc hold status"
    and empty: "\<And>m. m \<in> M \<Longrightarrow> R m = Some [] \<Longrightarrow> R' m = Some []"
    and queue: "\<And>m f. m \<in> M \<Longrightarrow> f \<in> set (the (R' m)) \<Longrightarrow>
      f \<in> set (the (R m)) \<and> pc' f = pc f \<and> status' f \<noteq> FIBER_STATUS_EXITING"
    and pc: "\<And>m f. pc' f = InLock m \<Longrightarrow> pc f = InLock m \<and> (f \<in> set (the (R m)) \<longrightarrow> f \<in> set (the (R' m)))"
  shows "mutex_ok M R' owner pc' hold status'"
proof (rule mutex_okI)
  fix m f assume "m \<in> M" "f \<in> set (the (R' m))"
  with queue [OF this] mutex_okD(1) [OF ok, of m f]
  show "pc' f = InLock m \<and> status' f \<noteq> FIBER_STATUS_EXITING" by simp
next
  fix f m assume "pc' f = InLock m" "f \<notin> set (the (R' m))"
  with pc [OF this(1)] mutex_okD(4) [OF ok, of f m] show "owner m = Some f" by blast
qed (use empty pc mutex_okD(2,3,5) [OF ok] in blast)+

lemma sem_ok_frame:
  assumes ok: "sem_ok S R L num pc status init posted taken"
    and empty: "\<And>q. q \<in> S \<Longrightarrow> R q = Some [] \<Longrightarrow> R' q = Some []"
    and queue: "\<And>q f. q \<in> S \<Longrightarrow> f \<in> set (the (R' q)) \<Longrightarrow>
      f \<in> set (the (R q)) \<and> pc' f = pc f \<and> status' f \<noteq> FIBER_STATUS_EXITING"
    and flight: "\<And>q. q \<in> S \<Longrightarrow> in_flight q pc' L' = in_flight q pc L"
  shows "sem_ok S R' L' num pc' status' init posted taken"
  unfolding sem_ok_def
proof (intro ballI conjI)
  fix q f assume "q \<in> S" "f \<in> set (the (R' q))"
  with queue [OF this] sem_okD(1) [OF ok, of q f]
  show "pc' f = InSem q" "status' f \<noteq> FIBER_STATUS_EXITING" by simp_all
qed (use empty flight sem_okD(2-4) [OF ok] in auto)

lemma table_ok_frame:
  assumes ok: "table_ok W H R L F pc"
    and heads: "\<And>x. x \<notin> H \<Longrightarrow> R' x \<in> {R x, None, Some []}"
    and live: "set L' \<subseteq> set F" and pc: "\<And>g. pc' g \<noteq> pc g \<Longrightarrow> g \<in> set F"
    and stay: "\<And>g. g \<in> set L \<Longrightarrow> g \<in> set L' \<or> (\<exists>q\<in>W. g \<in> set (the (R' q)))"
    and queue: "\<And>g q. q \<in> W \<Longrightarrow> g \<in> set (the (R q)) \<Longrightarrow> g \<in> set L' \<or> (\<exists>q\<in>W. g \<in> set (the (R' q)))"
  shows "table_ok W H R' L' F pc'"
  unfolding table_ok_def
proof (intro conjI ballI allI impI)
  fix x assume "x \<in> - H"
  with heads [of x] table_okD(1) [OF ok, of x] show "R' x \<in> {None, Some []}" by auto
next
  fix g assume "pc' g \<noteq> User"
  then show "g \<in> set F" using pc [of g] table_okD(3) [OF ok, of g] by metis
next
  fix g assume "g \<in> set F"
  from table_okD(4) [OF ok this] stay queue
  show "g \<in> set L' \<or> (\<exists>q\<in>W. g \<in> set (the (R' q)))" by blast
qed (rule live)

text \<open>The same for queues that do not change: a fiber becomes ready.\<close>

lemma mutex_ok_cong:
  assumes "\<And>m. m \<in> M \<Longrightarrow> R' m = R m" and ok: "mutex_ok M R owner pc hold status"
  shows "mutex_ok M R' owner pc hold status"
  by (rule mutex_okI) (use mutex_okD [OF ok] assms(1) in metis)+

lemma sem_ok_cong:
  "(\<And>q. q \<in> S \<Longrightarrow> R' q = R q) \<Longrightarrow> sem_ok S R L num pc status init posted taken \<Longrightarrow>
   sem_ok S R' L num pc status init posted taken"
  unfolding sem_ok_def by metis

lemma table_ok_same:
  assumes ok: "table_ok W H R L F pc" and W: "\<And>q. q \<in> W \<Longrightarrow> R' q = R q"
    and H: "\<And>x. x \<notin> H \<Longrightarrow> R' x \<in> {R x, None, Some []}"
    and L: "set L' = set L" and pc: "\<And>g. pc' g \<noteq> pc g \<Longrightarrow> g \<in> set L"
  shows "table_ok W H R' L' F pc'"
proof (rule table_ok_frame [OF ok H])
  show "g \<in> set L' \<or> (\<exists>q\<in>W. g \<in> set (the (R' q)))" if "q \<in> W" "g \<in> set (the (R q))" for g q
    using that W [OF that(1)] by (intro disjI2 bexI [of _ q]) auto
qed (use L pc table_okD(2) [OF ok] in auto)

lemma table_ok_cong:
  "(\<And>q. q \<in> W \<Longrightarrow> R' q = R q) \<Longrightarrow> (\<And>x. x \<notin> H \<Longrightarrow> R' x \<in> {R x, None, Some []}) \<Longrightarrow>
   table_ok W H R L F pc \<Longrightarrow> table_ok W H R' L F pc"
  by (rule table_ok_same) auto

lemma mutex_ok_status:
  assumes ok: "mutex_ok M R owner pc hold status" and "st \<noteq> FIBER_STATUS_EXITING"
  shows "mutex_ok M R owner pc hold (status(f := st))"
  by (rule mutex_okI) (use mutex_okD [OF ok] assms(2) in \<open>metis fun_upd_apply\<close>)+

lemma sem_ok_status:
  "sem_ok S R L num pc status init posted taken \<Longrightarrow> st \<noteq> FIBER_STATUS_EXITING \<Longrightarrow>
   sem_ok S R L num pc (status(f := st)) init posted taken"
  unfolding sem_ok_def by (metis fun_upd_apply)

text \<open>A fiber that is in no queue changes its program counter.\<close>

lemma mutex_ok_pc:
  assumes ok: "mutex_ok M R owner pc hold status"
    and "\<And>m. m \<in> M \<Longrightarrow> f \<notin> set (the (R m))" "\<And>m. p \<noteq> InLock m"
  shows "mutex_ok M R owner (pc(f := p)) hold status"
  by (rule mutex_ok_frame [OF ok]) (use assms mutex_okD(1) [OF ok] in \<open>auto split: if_splits\<close>)

lemma sem_ok_pc:
  assumes ok: "sem_ok S R L num pc status init posted taken"
    and "\<And>q. q \<in> S \<Longrightarrow> f \<notin> set (the (R q))" "\<And>q. q \<in> S \<Longrightarrow> in_flight q (pc(f := p)) L' = in_flight q pc L"
  shows "sem_ok S R L' num (pc(f := p)) status init posted taken"
  by (rule sem_ok_frame [OF ok]) (use assms sem_okD(1) [OF ok] in auto)

lemma sync_coreD:
  assumes "sync_core M S R L s"
  shows "fiber_queues s R" "rings (fb_heap s) R"
    "\<And>q. q \<in> M \<union> S \<Longrightarrow> R q \<noteq> None \<and> q \<noteq> fb_ready s \<and> q \<noteq> fb_dead s"
    "mutex_ok M R (mx_owner s) (sy_pc s) (sy_hold s) (fb_status s)"
    "sem_ok S R L (sem_num s) (sy_pc s) (fb_status s) (sy_init s) (sy_posted s) (sy_taken s)"
    "table_ok (M \<union> S) (M \<union> S \<union> {fb_ready s, fb_dead s}) R L (fb_fibers s) (sy_pc s)"
    "fiber_table s"
  using assms by (auto simp: sync_core_def fiber_queues_def)

lemma sync_coreI:
  assumes "fiber_queues s R" "fiber_table s"
    "\<And>q. q \<in> M \<union> S \<Longrightarrow> R q \<noteq> None" "\<And>q. q \<in> M \<union> S \<Longrightarrow> q \<noteq> fb_ready s \<and> q \<noteq> fb_dead s"
    "table_ok (M \<union> S) (M \<union> S \<union> {fb_ready s, fb_dead s}) R L (fb_fibers s) (sy_pc s)"
    "mutex_ok M R (mx_owner s) (sy_pc s) (sy_hold s) (fb_status s)"
    "sem_ok S R L (sem_num s) (sy_pc s) (fb_status s) (sy_init s) (sy_posted s) (sy_taken s)"
  shows "sync_core M S R L s"
  unfolding sync_core_def using assms by blast


text \<open>A switch away from a fiber that has been queued keeps the invariant.\<close>

lemma switch_away:
  assumes core: "sync_core M S R (the (R (fb_ready s))) (s\<lparr>sy_pc := p\<rparr>)"
    and f: "fb_running s = Some f" "fb_status s f \<noteq> FIBER_STATUS_EXITING"
    and sw: "acl_fiber_switch s = Inr (c, s')"
  defines "s2 \<equiv> s'\<lparr>sy_at := c, sy_pc := p\<rparr>"
  shows "\<exists>R'. sync_core M S R' (live R' s2) s2 \<and> sync_at M S R' s2"
proof -
  note d = sync_coreD [OF core]
  have q: "fiber_queues s R" using d(1) by (simp add: fiber_queues_def)
  then obtain Q where Q: "R (fb_ready s) = Some Q" by (auto simp: fiber_queues_def)
  show ?thesis
  proof (cases Q)
    case Nil
    with acl_fiber_switch_empty [OF q] Q f sw have s': "c = Original" "s' = s" by auto
    show ?thesis
      using core Q Nil unfolding s2_def s'
      by (intro exI [of _ R]) (simp add: sync_core_def sync_at_def fiber_queues_def fiber_table_def)
  next
    case (Cons g Q')
    let ?R = "R(fb_ready s \<mapsto> Q', g \<mapsto> [])"
    obtain h where s': "c = Ctx g"
      "s' = s\<lparr>fb_heap := h, fb_running := Some g, fb_switched := fb_switched s + 1\<rparr>"
      and q': "fiber_queues s' ?R"
      using acl_fiber_switch_next [OF q, of g Q'] Q Cons f sw by auto
    have g: "R g = None" "g \<noteq> fb_ready s" "fb_status s g \<noteq> FIBER_STATUS_EXITING"
      using rings_member_no_head [OF fiber_queuesD(1) [OF q] Q, of g] fiber_queues_ready [OF q Q]
        Cons by auto
    have o: "R x \<noteq> None \<and> x \<noteq> fb_ready s \<and> x \<noteq> fb_dead s" if "x \<in> M \<union> S" for x
      using d(3) that by simp
    then have eq: "?R x = R x" if "x \<in> M \<union> S" for x
      using that g by (metis fun_upd_apply)
    from o g have gMS: "g \<notin> M \<union> S" by metis
    have dead: "g \<noteq> fb_dead s" using q g by (auto simp: fiber_queues_def)
    have L: "the (R (fb_ready s)) = g # Q'" using Q Cons by simp
    have "sync_core M S ?R (g # Q') s2"
    proof (rule sync_coreI)
      show "table_ok (M \<union> S) (M \<union> S \<union> {fb_ready s2, fb_dead s2}) ?R (g # Q') (fb_fibers s2) (sy_pc s2)"
        using table_ok_cong [OF _ _ d(6), of ?R] eq L by (simp add: s2_def s')
      show "mutex_ok M ?R (mx_owner s2) (sy_pc s2) (sy_hold s2) (fb_status s2)"
        using mutex_ok_cong [OF _ d(4), of ?R] eq by (simp add: s2_def s')
      show "sem_ok S ?R (g # Q') (sem_num s2) (sy_pc s2) (fb_status s2) (sy_init s2) (sy_posted s2) (sy_taken s2)"
        using sem_ok_cong [OF _ d(5), of ?R] eq L by (simp add: s2_def s')
      show "fiber_queues s2 ?R" using q' by (simp add: s2_def fiber_queues_def)
      show "fiber_table s2" using d(7) by (simp add: s2_def s' fiber_table_def)
    qed (use o eq in \<open>auto simp: s2_def s'\<close>)
    moreover have "sync_at M S ?R s2" using g dead gMS by (auto simp: sync_at_def s2_def s')
    moreover have "live ?R s2 = g # Q'" using g by (simp add: s2_def s')
    ultimately show ?thesis by metis
  qed
qed

subsection \<open>How the operations act on what the mutexes and semaphores keep\<close>

lemma mutex_ok_acquire:
  assumes ok: "mutex_ok M R owner pc hold status" and m: "m \<in> M" "owner m = None"
  shows "mutex_ok M R (owner(m := Some f)) pc (hold(f := insert m (hold f))) status"
proof -
  have Rm: "R m = Some []" by (rule mutex_okD(2) [OF ok m])
  have free: "pc g \<noteq> InLock m" "m \<notin> hold g" for g
    using mutex_okD(4) [OF ok, of g m] mutex_okD(5) [OF ok, of m g] Rm m(2) by auto
  show ?thesis
    by (rule mutex_okI)
      (use free m in \<open>auto split: if_splits dest: mutex_okD(1,2,3,5) [OF ok] intro: mutex_okD(4) [OF ok]\<close>)
qed

lemma mutex_ok_wait:
  assumes ok: "mutex_ok M R owner pc hold status" and m: "m \<in> M" "owner m \<noteq> None" "R m = Some xs"
    and f: "pc f = User" "status f \<noteq> FIBER_STATUS_EXITING" "f \<notin> M"
  shows "mutex_ok M (R(f := None, m \<mapsto> xs @ [f])) owner (pc(f := InLock m)) hold status"
proof (rule mutex_okI)
  fix m' g
  assume m': "m' \<in> M" and g: "g \<in> set (the ((R(f := None, m \<mapsto> xs @ [f])) m'))"
  then have "g = f \<and> m' = m \<or> g \<in> set (the (R m'))"
    using m f by (auto split: if_splits)
  then show "(pc(f := InLock m)) g = InLock m' \<and> status g \<noteq> FIBER_STATUS_EXITING"
    using mutex_okD(1) [OF ok m'] f by auto
next
  fix m' assume "m' \<in> M" "owner m' = None"
  then show "(R(f := None, m \<mapsto> xs @ [f])) m' = Some []"
    using mutex_okD(2) [OF ok] m f by auto
next
  fix g m' assume "(pc(f := InLock m)) g = InLock m'"
  then show "m' \<in> M" using m mutex_okD(3) [OF ok] by (auto split: if_splits)
next
  fix g m' assume a: "(pc(f := InLock m)) g = InLock m'"
    "g \<notin> set (the ((R(f := None, m \<mapsto> xs @ [f])) m'))"
  then have "g \<noteq> f" by auto
  with a have p: "pc g = InLock m'" by simp
  moreover have "g \<notin> set (the (R m'))"
    using a mutex_okD(3) [OF ok p] f m by (auto split: if_splits)
  ultimately show "owner m' = Some g" by (rule mutex_okD(4) [OF ok])
qed (use mutex_okD(5) [OF ok] in blast)

lemma mutex_ok_resume:
  assumes ok: "mutex_ok M R owner pc hold status" and p: "pc f = InLock m" and f: "R f = Some []"
    and rings: "rings h R" and dom: "\<And>m. m \<in> M \<Longrightarrow> R m \<noteq> None"
  shows "owner m = Some f"
    and "mutex_ok M R owner (pc(f := User)) (hold(f := insert m (hold f))) status"
proof -
  have fn: "f \<notin> set (the (R m'))" if "m' \<in> M" for m'
    using rings_member_no_head(1) [OF rings, of m' _ f] f dom [OF that] by auto
  have m: "m \<in> M" by (rule mutex_okD(3) [OF ok p])
  show own: "owner m = Some f" by (rule mutex_okD(4) [OF ok p fn [OF m]])
  show "mutex_ok M R owner (pc(f := User)) (hold(f := insert m (hold f))) status"
    by (rule mutex_okI) (use fn m own in \<open>auto split: if_splits dest: mutex_okD(1,2,3,5) [OF ok] intro: mutex_okD(4) [OF ok]\<close>)
qed

lemma mutex_ok_release:
  assumes ok: "mutex_ok M R owner pc hold status" and m: "m \<in> hold f" "R m = Some []"
    and f: "pc f = User"
  shows "mutex_ok M R (owner(m := None)) pc (hold(f := hold f - {m})) status"
proof -
  have own: "owner m = Some f" "m \<in> M" using mutex_okD(5) [OF ok m(1)] by auto
  have one: "m \<in> hold g \<Longrightarrow> g = f" for g using mutex_okD(5) [OF ok, of m g] own by simp
  have none: "pc g \<noteq> InLock m" for g
    using mutex_okD(4) [OF ok, of g m] own m(2) f by (cases "g = f") auto
  show ?thesis
    by (rule mutex_okI) (use m(2) none in \<open>auto split: if_splits dest: one mutex_okD(1,2,3,5) [OF ok] intro: mutex_okD(4) [OF ok]\<close>)
qed

lemma mutex_ok_handover:
  assumes ok: "mutex_ok M R owner pc hold status" and m: "m \<in> hold f" "R m = Some (g # xs)"
    and f: "pc f = User" and g: "g \<notin> M"
  shows "mutex_ok M (R(m \<mapsto> xs, g \<mapsto> [])) (owner(m := Some g)) pc (hold(f := hold f - {m})) status"
proof (rule mutex_okI)
  have own: "owner m = Some f" "m \<in> M" using mutex_okD(5) [OF ok m(1)] by auto
  have one: "m \<in> hold h \<Longrightarrow> h = f" for h using mutex_okD(5) [OF ok, of m h] own by simp
  have pg: "pc g = InLock m" using mutex_okD(1) [OF ok own(2), of g] m(2) by simp
  show "pc h = InLock m' \<and> status h \<noteq> FIBER_STATUS_EXITING"
    if "m' \<in> M" "h \<in> set (the ((R(m \<mapsto> xs, g \<mapsto> [])) m'))" for m' h
    using that mutex_okD(1) [OF ok that(1), of h] m(2) g by (auto split: if_splits)
  show "(R(m \<mapsto> xs, g \<mapsto> [])) m' = Some []" if "m' \<in> M" "(owner(m := Some g)) m' = None" for m'
    using that mutex_okD(2) [OF ok, of m'] g by (auto split: if_splits)
  show "m' \<in> M" if "pc h = InLock m'" for h m' by (rule mutex_okD(3) [OF ok that])
  show "(owner(m := Some g)) m' = Some h"
    if p: "pc h = InLock m'" and n: "h \<notin> set (the ((R(m \<mapsto> xs, g \<mapsto> [])) m'))" for h m'
  proof (cases "m' = m")
    case True
    with p f own have "h \<in> set (the (R m))" using mutex_okD(4) [OF ok, of h m] by force
    with True n m(2) g own(2) show ?thesis by (auto split: if_splits)
  next
    case False
    with p n g show ?thesis using mutex_okD(3,4) [OF ok p] by (auto split: if_splits)
  qed
  show "m' \<in> M \<and> (owner(m := Some g)) m' = Some h"
    if "m' \<in> (hold(f := hold f - {m})) h" for h m'
    using that one mutex_okD(5) [OF ok, of m' h] by (auto split: if_splits)
qed

lemma sem_ok_take:
  "sem_ok S R L num pc status init posted taken \<Longrightarrow> 0 < num q \<Longrightarrow>
   sem_ok S R L (num(q := num q - 1)) pc status init posted (taken(q := taken q + 1))"
  unfolding sem_ok_def by auto

lemma sem_ok_give:
  "sem_ok S R L num pc status init posted taken \<Longrightarrow> R q = Some [] \<Longrightarrow>
   sem_ok S R L (num(q := num q + 1)) pc status init (posted(q := posted q + 1)) taken"
  unfolding sem_ok_def by auto

lemma sem_ok_wait:
  "sem_ok S R (f # Q) num pc status init posted taken \<Longrightarrow> q \<in> S \<Longrightarrow> \<not> 0 < num q \<Longrightarrow> R q = Some xs \<Longrightarrow>
   pc f = User \<Longrightarrow> status f \<noteq> FIBER_STATUS_EXITING \<Longrightarrow> f \<notin> S \<Longrightarrow> f \<notin> set Q \<Longrightarrow>
   sem_ok S (R(f := None, q \<mapsto> xs @ [f])) Q num (pc(f := InSem q)) status init posted taken"
  unfolding sem_ok_def by (auto split: if_splits)

lemma sem_ok_handover:
  "sem_ok S R L num pc status init posted taken \<Longrightarrow> R q = Some (g # xs) \<Longrightarrow> g \<notin> S \<Longrightarrow> q \<in> S \<Longrightarrow>
   sem_ok S (R(q \<mapsto> xs, g \<mapsto> [])) (L @ [g]) num pc status init (posted(q := posted q + 1)) taken"
  unfolding sem_ok_def by (auto split: if_splits)

lemma sem_ok_resume:
  "sem_ok S R (f # Q) num pc status init posted taken \<Longrightarrow> pc f = InSem q \<Longrightarrow> f \<notin> set Q \<Longrightarrow>
   (\<And>q. q \<in> S \<Longrightarrow> f \<notin> set (the (R q))) \<Longrightarrow>
   sem_ok S R (f # Q) num (pc(f := User)) status init posted (taken(q := taken q + 1))"
  unfolding sem_ok_def by auto


subsection \<open>Every step keeps the invariant\<close>

lemma fiber_queues_enter:
  assumes q: "fiber_queues s R" and r: "R r = Some xs" "r \<noteq> fb_ready s" "r \<noteq> fb_dead s"
    and f: "R f = Some []" "f \<noteq> r" "f \<noteq> fb_ready s" "f \<noteq> fb_dead s"
    and h: "acl_ring_prepend (fb_heap s) (Some r) (Some f) = Inr h"
  shows "fiber_queues (s\<lparr>fb_heap := h\<rparr>) (R(f := None, r \<mapsto> xs @ [f]))"
  using ring.enter_tail [OF fiber_queuesD(1) [OF q] r(1) f(1)] q r f h
  by (auto simp: fiber_queues_def)

lemma fiber_queues_leave:
  assumes q: "fiber_queues s R" and r: "R r = Some (g # xs)" "r \<noteq> fb_ready s" "r \<noteq> fb_dead s"
  shows "\<exists>h. acl_ring_detach (fb_heap s) (Some g) = Inr h \<and>
           fiber_queues (s\<lparr>fb_heap := h\<rparr>) (R(r \<mapsto> xs, g \<mapsto> []))"
proof -
  obtain h where h: "acl_ring_detach (fb_heap s) (Some g) = Inr h" "rings h (R(r \<mapsto> xs, g \<mapsto> []))"
    using ring.leave [OF fiber_queuesD(1) [OF q], of r "[]" g xs] r(1) by auto
  have "R g = None" using rings_member_no_head(1) [OF fiber_queuesD(1) [OF q] r(1), of g] by simp
  then have "g \<noteq> fb_ready s" "g \<noteq> fb_dead s" using q by (auto simp: fiber_queues_def)
  with h q r show ?thesis by (auto simp: fiber_queues_def)
qed

text \<open>A switch changes no program counter and nothing of the locks.\<close>

lemma fiber_kick_loop_fields:
  "fiber_kick_loop n t = Inr t' \<Longrightarrow> fiber_sync.more t' = fiber_sync.more (t :: 'a fiber_sync_scheme)"
proof (induction n arbitrary: t)
  case (Suc n)
  then show ?case
    by (auto simp: cbind_Inr_iff fiber_free_def split: option.splits)
qed auto

lemma fiber_swap_fields:
  "fiber_swap t from to = Inr (c, t') \<Longrightarrow> fiber_sync.more t' = fiber_sync.more (t :: 'a fiber_sync_scheme)"
  by (auto simp: fiber_swap_def cbind_Inr_iff Let_def fiber_kick_def
      split: exec_ctx.splits if_splits dest: fiber_kick_loop_fields)

lemma acl_fiber_switch_fields:
  "acl_fiber_switch t = Inr (c, t') \<Longrightarrow> fiber_sync.more t' = fiber_sync.more (t :: 'a fiber_sync_scheme)"
  by (auto simp: acl_fiber_switch_def cbind_Inr_iff Let_def split: option.splits dest!: fiber_swap_fields)

lemma sync_sys_more_pc:
  "fiber_sync.more s' = fiber_sync.more (s :: sync_sys) \<Longrightarrow> sy_pc s' = sy_pc s"
  by (cases s; cases s') simp

lemma acl_fiber_switch_pc: "acl_fiber_switch (s :: sync_sys) = Inr (c, s') \<Longrightarrow> sy_pc s' = sy_pc s"
  by (rule sync_sys_more_pc [OF acl_fiber_switch_fields])

text \<open>
  The running fiber is not queued; what a call finds that queues it on the mutex or
  semaphore \<open>q\<close> and switches away: what the objects keep is given for the new queue and the
  new program counter.
\<close>

lemma sync_atD:
  assumes "sync_at M S R s" "sy_at s = Ctx f"
  shows "fb_running s = Some f" "R f = Some []" "f \<noteq> fb_ready s" "f \<noteq> fb_dead s" "f \<notin> M" "f \<notin> S"
    "fb_status s f \<noteq> FIBER_STATUS_EXITING"
  using assms by (auto simp: sync_at_def)

lemma running_not_queued:
  assumes "sync_core M S R L s" "sync_at M S R s" "sy_at s = Ctx f" "q \<in> insert (fb_ready s) (M \<union> S)"
  shows "f \<notin> set (the (R q))"
proof -
  have "R q \<noteq> None" using sync_coreD(1,3) [OF assms(1)] assms(4) by (auto simp: fiber_queues_def)
  then show ?thesis
    using rings_member_no_head(1) [OF sync_coreD(2) [OF assms(1)], of q _ f]
      sync_atD(2) [OF assms(2,3)] by auto
qed

lemma block_on_keeps:
  assumes core: "sync_core M S R (live R s) s" and at: "sync_at M S R s" "sy_at s = Ctx f"
    and q: "q \<in> M \<union> S" "R q = Some xs"
    and h: "acl_ring_prepend (fb_heap s) (Some q) (Some f) = Inr h"
    and sw: "acl_fiber_switch (s\<lparr>fb_heap := h\<rparr>) = Inr (c, s')"
    and mx: "mutex_ok M (R(f := None, q \<mapsto> xs @ [f])) (mx_owner s) ((sy_pc s)(f := p)) (sy_hold s) (fb_status s)"
    and sm: "sem_ok S (R(f := None, q \<mapsto> xs @ [f])) (the (R (fb_ready s))) (sem_num s) ((sy_pc s)(f := p))
               (fb_status s) (sy_init s) (sy_posted s) (sy_taken s)"
  defines "s2 \<equiv> s'\<lparr>sy_at := c, sy_pc := (sy_pc s)(f := p)\<rparr>"
  shows "\<exists>R'. sync_core M S R' (live R' s2) s2 \<and> sync_at M S R' s2"
proof -
  note d = sync_coreD [OF core] and f = sync_atD [OF at]
  let ?R = "R(f := None, q \<mapsto> xs @ [f])" and ?s = "s\<lparr>fb_heap := h, sy_pc := (sy_pc s)(f := p)\<rparr>"
  have fq: "q \<noteq> f" "q \<noteq> fb_ready s" "q \<noteq> fb_dead s" using q(1) f(5,6) d(3) [OF q(1)] by auto
  have L: "the (?R (fb_ready s)) = the (R (fb_ready s))" using fq f(3) by simp
  have tb: "table_ok (M \<union> S) (M \<union> S \<union> {fb_ready s, fb_dead s}) ?R (the (R (fb_ready s))) (fb_fibers s)
    ((sy_pc s)(f := p))"
  proof (rule table_ok_frame [OF d(6)])
    show "g \<in> set (the (R (fb_ready s))) \<or> (\<exists>q\<in>M \<union> S. g \<in> set (the (?R q)))" if "g \<in> set (live R s)" for g
      using that q(1) at(2) fq(1) by auto
    show "g \<in> set (the (R (fb_ready s))) \<or> (\<exists>q\<in>M \<union> S. g \<in> set (the (?R q)))"
      if "x \<in> M \<union> S" "g \<in> set (the (R x))" for g x
      using that q f(5,6) by (intro disjI2 bexI [of _ x]) auto
  qed (use table_okD(2) [OF d(6)] at(2) q(1) in \<open>auto split: if_splits\<close>)
  have "sync_core M S ?R (the (R (fb_ready s))) ?s"
  proof (rule sync_coreI)
    have "fiber_queues (s\<lparr>fb_heap := h\<rparr>) ?R"
      by (rule fiber_queues_enter [OF d(1) q(2) _ _ f(2)]) (use fq f h in auto)
    then show "fiber_queues ?s ?R" by (simp add: fiber_queues_def)
  qed (use d(3,7) f(5,6) mx sm tb in \<open>auto simp: fiber_table_def\<close>)
  from switch_away [of M S ?R "s\<lparr>fb_heap := h\<rparr>" "(sy_pc s)(f := p)" f c s'] this L sw f(1,7)
  show ?thesis by (simp add: s2_def)
qed

text \<open>
  Handing the object \<open>q\<close> to the first fiber \<open>g\<close> of its queue: \<open>g\<close> leaves the queue and becomes
  ready.
\<close>

lemma wake_first:
  assumes core: "sync_core M S R L s" and q: "q \<in> M \<union> S" "R q = Some (g # xs)"
    and st: "fb_status s g \<noteq> FIBER_STATUS_EXITING"
  shows "\<exists>h h'. acl_ring_detach (fb_heap s) (Some g) = Inr h \<and>
      acl_fiber_ready (s\<lparr>fb_heap := h\<rparr>) g =
        Inr (s\<lparr>fb_status := (fb_status s)(g := FIBER_STATUS_READY), fb_heap := h'\<rparr>) \<and>
      (\<exists>Q. R (fb_ready s) = Some Q \<and>
        fiber_queues (s\<lparr>fb_status := (fb_status s)(g := FIBER_STATUS_READY), fb_heap := h'\<rparr>)
          (R(q \<mapsto> xs, g := None, fb_ready s \<mapsto> Q @ [g])))"
proof -
  note d = sync_coreD [OF core]
  obtain h where h: "acl_ring_detach (fb_heap s) (Some g) = Inr h"
    "fiber_queues (s\<lparr>fb_heap := h\<rparr>) (R(q \<mapsto> xs, g \<mapsto> []))"
    using fiber_queues_leave [OF d(1) q(2)] d(3) [OF q(1)] by blast
  obtain Q where Q: "R (fb_ready s) = Some Q" using d(1) by (auto simp: fiber_queues_def)
  have g: "R g = None" using rings_member_no_head(1) [OF d(2) q(2), of g] by simp
  then have gr: "g \<noteq> fb_ready s" "g \<noteq> fb_dead s" using d(1) by (auto simp: fiber_queues_def)
  have qg: "q \<noteq> g" using g q by auto
  have "\<exists>h'. acl_fiber_ready (s\<lparr>fb_heap := h\<rparr>) g =
        Inr (s\<lparr>fb_heap := h, fb_status := (fb_status s)(g := FIBER_STATUS_READY), fb_heap := h'\<rparr>) \<and>
      fiber_queues (s\<lparr>fb_heap := h, fb_status := (fb_status s)(g := FIBER_STATUS_READY), fb_heap := h'\<rparr>)
        (R(q \<mapsto> xs, g \<mapsto> [], g := None, fb_ready s \<mapsto> Q @ [g]))"
    using acl_fiber_ready_queues [OF h(2), of Q g] Q gr st d(3) [OF q(1)] by auto
  with h(1) Q show ?thesis by auto
qed

lemma sync_invI:
  "M \<inter> S = {} \<Longrightarrow> sync_core M S R L s \<Longrightarrow> L = live R s \<Longrightarrow> sync_at M S R s \<Longrightarrow> sync_inv M S s"
  by (auto simp: sync_inv_def)

lemma sync_inv_cases:
  assumes "sync_inv M S s"
  obtains R where "M \<inter> S = {}" "sync_core M S R (live R s) s" "sync_at M S R s"
  using assms by (auto simp: sync_inv_def)


lemma lock_now_keeps:
  assumes inv: "sync_inv M S s" and at: "sy_at s = Ctx f" and m: "m \<in> M"
    and op: "mutex_lock s m b = Inr (Returned r, s')" and r: "r = 1"
  shows "sync_inv M S (s'\<lparr>sy_hold := (sy_hold s')(f := insert m (sy_hold s' f))\<rparr>)" (is "sync_inv M S ?s")
proof -
  obtain R where R: "M \<inter> S = {}" "sync_core M S R (live R s) s" "sync_at M S R s" by (rule sync_inv_cases [OF inv])
  note d = sync_coreD [OF R(2)] and f = sync_atD [OF R(3) at]
  have own: "mx_owner s m = None" "s' = s\<lparr>mx_owner := (mx_owner s)(m := Some f)\<rparr>"
    using op r f by (auto simp: mutex_lock_def cbind_Inr_iff split: if_splits)
  show ?thesis
  proof (rule sync_invI [OF R(1)])
    show "sync_core M S R (live R s) ?s"
      using R(2) mutex_ok_acquire [OF d(4) m own(1), of f] unfolding sync_core_def own(2)
      by (simp add: fiber_queues_def fiber_table_def)
    show "sync_at M S R ?s" using R(3) by (simp add: sync_at_def own(2))
  qed (simp add: own(2))
qed

lemma lock_block_keeps:
  assumes inv: "sync_inv M S s" and at: "sy_at s = Ctx f" "sy_pc s f = User" and m: "m \<in> M"
    and op: "mutex_lock s m b = Inr (Switched c, s')"
  shows "sync_inv M S (s'\<lparr>sy_at := c, sy_pc := (sy_pc s')(f := InLock m)\<rparr>)"
proof -
  obtain R where R: "M \<inter> S = {}" "sync_core M S R (live R s) s" "sync_at M S R s" by (rule sync_inv_cases [OF inv])
  note d = sync_coreD [OF R(2)] and f = sync_atD [OF R(3) at(1)]
  note nq = running_not_queued [OF R(2,3) at(1)]
  obtain xs where xs: "R m = Some xs" using d(3) [of m] m by auto
  obtain h where h: "mx_owner s m \<noteq> None" "acl_ring_prepend (fb_heap s) (Some m) (Some f) = Inr h"
    "acl_fiber_switch (s\<lparr>fb_heap := h\<rparr>) = Inr (c, s')"
    using op f by (auto simp: mutex_lock_def cbind_Inr_iff split: if_splits)
  have mx: "mutex_ok M (R(f := None, m \<mapsto> xs @ [f])) (mx_owner s) ((sy_pc s)(f := InLock m))
      (sy_hold s) (fb_status s)"
    by (rule mutex_ok_wait [OF d(4) m h(1) xs at(2) f(7,5)])
  have sm: "sem_ok S (R(f := None, m \<mapsto> xs @ [f])) (the (R (fb_ready s))) (sem_num s)
      ((sy_pc s)(f := InLock m)) (fb_status s) (sy_init s) (sy_posted s) (sy_taken s)"
    by (rule sem_ok_cong [OF _ sem_ok_pc [OF d(5)]]) (use nq at f(6) R(1) m in auto)
  have "sy_pc s' = sy_pc s"
    using h(3) acl_fiber_switch_pc by fastforce
  with block_on_keeps [OF R(2,3) at(1) _ xs h(2,3) mx sm] m R(1) show ?thesis
    by (auto simp: sync_inv_def)
qed

lemma detach_running:
  assumes "sync_core M S R L s" "sync_at M S R s" "sy_at s = Ctx f"
  shows "acl_ring_detach (fb_heap s) (Some f) = Inr (fb_heap s)"
  by (rule ring.leave_idle [OF sync_coreD(2) [OF assms(1)] sync_atD(2) [OF assms(2,3)]])

text \<open>A resumed fiber goes on in its own code; what the objects keep is given.\<close>

lemma resume_keeps:
  assumes R: "M \<inter> S = {}" "sync_core M S R (live R s) s" "sync_at M S R s" and at: "sy_at s = Ctx f"
    and mx: "mutex_ok M R (mx_owner s) ((sy_pc s)(f := User)) hold (fb_status s)"
    and sm: "sem_ok S R (live R s) (sem_num s) ((sy_pc s)(f := User)) (fb_status s) (sy_init s) (sy_posted s) taken"
  shows "sync_inv M S (s\<lparr>sy_pc := (sy_pc s)(f := User), sy_hold := hold, sy_taken := taken\<rparr>)" (is "sync_inv M S ?s")
proof (rule sync_invI [OF R(1)])
  note d = sync_coreD [OF R(2)]
  have "table_ok (M \<union> S) (M \<union> S \<union> {fb_ready s, fb_dead s}) R (live R s) (fb_fibers s) ((sy_pc s)(f := User))"
    by (rule table_ok_same [OF d(6)]) (use at in \<open>auto split: if_splits\<close>)
  then show "sync_core M S R (live R s) ?s"
    using R(2) mx sm unfolding sync_core_def by (simp add: fiber_queues_def fiber_table_def)
  show "sync_at M S R ?s" using R(3) by (simp add: sync_at_def)
qed simp

lemma lock_resume_keeps:
  assumes inv: "sync_inv M S s" and at: "sy_at s = Ctx f" "sy_pc s f = InLock m"
    and op: "mutex_lock_resume s m f = Inr (r, w, s')"
  shows "\<not> w" "mx_owner s m = Some f"
    "sync_inv M S (s'\<lparr>sy_pc := (sy_pc s')(f := User), sy_hold := (sy_hold s')(f := insert m (sy_hold s' f))\<rparr>)"
proof -
  obtain R where R: "M \<inter> S = {}" "sync_core M S R (live R s) s" "sync_at M S R s" by (rule sync_inv_cases [OF inv])
  note d = sync_coreD [OF R(2)] and f = sync_atD [OF R(3) at(1)]
  note nq = running_not_queued [OF R(2,3) at(1)]
  note mx = mutex_ok_resume [OF d(4) at(2) f(2) d(2)]
  show own: "mx_owner s m = Some f" using mx(1) d(3) by blast
  have s': "\<not> w" "s' = s"
    using op own by (auto simp: mutex_lock_resume_def detach_running [OF R(2,3) at(1)] Let_def)
  from s'(1) show "\<not> w" .
  have "sem_ok S R (live R s) (sem_num s) ((sy_pc s)(f := User)) (fb_status s) (sy_init s) (sy_posted s) (sy_taken s)"
    by (rule sem_ok_pc [OF d(5)]) (use nq at in auto)
  from resume_keeps [OF R at(1) _ this] mx(2) d(3)
  show "sync_inv M S (s'\<lparr>sy_pc := (sy_pc s')(f := User), sy_hold := (sy_hold s')(f := insert m (sy_hold s' f))\<rparr>)"
    by (simp add: s'(2))
qed

text \<open>A resumed fiber that was given neither a mutex nor a permit.\<close>

lemma resume_user_keeps:
  assumes inv: "sync_inv M S s" and at: "sy_at s = Ctx f"
    and p: "\<And>m. sy_pc s f \<noteq> InLock m" "\<And>q. sy_pc s f \<noteq> InSem q"
  shows "sync_inv M S (s\<lparr>sy_pc := (sy_pc s)(f := User)\<rparr>)"
proof -
  obtain R where R: "M \<inter> S = {}" "sync_core M S R (live R s) s" "sync_at M S R s" by (rule sync_inv_cases [OF inv])
  note d = sync_coreD [OF R(2)] and nq = running_not_queued [OF R(2,3) at]
  have "mutex_ok M R (mx_owner s) ((sy_pc s)(f := User)) (sy_hold s) (fb_status s)"
    by (rule mutex_ok_pc [OF d(4)]) (use nq in auto)
  moreover have "sem_ok S R (live R s) (sem_num s) ((sy_pc s)(f := User)) (fb_status s) (sy_init s) (sy_posted s) (sy_taken s)"
    by (rule sem_ok_pc [OF d(5)]) (use nq at p in auto)
  ultimately show ?thesis using resume_keeps [OF R at, of "sy_hold s" "sy_taken s"] by simp
qed

lemma lock_resume_out_same:
  assumes inv: "sync_inv M S s" and at: "sy_at s = Ctx f" and op: "mutex_lock_resume s m f = Inr (r, w, s')"
  shows "s' = s" "r = 1"
proof -
  obtain R where "sync_core M S R (live R s) s" "sync_at M S R s" by (rule sync_inv_cases [OF inv])
  then show "s' = s" "r = 1" using op at
    by (auto simp: mutex_lock_resume_def detach_running Let_def split: if_splits)
qed

lemma sem_resume_same:
  assumes inv: "sync_inv M S s" and at: "sy_at s = Ctx f" and op: "acl_fiber_sem_wait_resume s q f = Inr (r, s')"
  shows "s' = s"
proof -
  obtain R where "sync_core M S R (live R s) s" "sync_at M S R s" by (rule sync_inv_cases [OF inv])
  then show "s' = s" using op at by (auto simp: acl_fiber_sem_wait_resume_def detach_running Let_def)
qed

lemma sem_resume_keeps:
  assumes inv: "sync_inv M S s" and at: "sy_at s = Ctx f" "sy_pc s f = InSem q"
    and op: "acl_fiber_sem_wait_resume s q f = Inr (r, s')"
  shows "sync_inv M S (s'\<lparr>sy_pc := (sy_pc s')(f := User), sy_taken := (sy_taken s')(q := sy_taken s' q + 1)\<rparr>)"
proof -
  obtain R where R: "M \<inter> S = {}" "sync_core M S R (live R s) s" "sync_at M S R s" by (rule sync_inv_cases [OF inv])
  note d = sync_coreD [OF R(2)] and nq = running_not_queued [OF R(2,3) at(1)]
  have "mutex_ok M R (mx_owner s) ((sy_pc s)(f := User)) (sy_hold s) (fb_status s)"
    by (rule mutex_ok_pc [OF d(4)]) (use nq in auto)
  moreover have "sem_ok S R (live R s) (sem_num s) ((sy_pc s)(f := User)) (fb_status s) (sy_init s) (sy_posted s)
      ((sy_taken s)(q := sy_taken s q + 1))"
    using sem_ok_resume [where f = f and pc = "sy_pc s" and q = q] d(5) at nq by simp
  ultimately show ?thesis
    using resume_keeps [OF R at(1), of "sy_hold s"] sem_resume_same [OF inv at(1) op] by simp
qed


lemma acl_fiber_ready_owner:
  assumes "acl_fiber_ready (s\<lparr>fb_heap := h\<rparr>) g = Inr (s\<lparr>fb_status := st, fb_heap := h'\<rparr>)"
  shows "acl_fiber_ready (s\<lparr>mx_owner := w, fb_heap := h\<rparr>) g =
      Inr (s\<lparr>mx_owner := w, fb_status := st, fb_heap := h'\<rparr> :: 'a fiber_sync_scheme)"
  using assms by (cases s) (auto simp: acl_fiber_ready_def Let_def cbind_Inr_iff split: if_splits)

text \<open>
  The fiber \<open>g\<close> leaves the queue \<open>q\<close> for the end of the ready ring; what the objects keep is
  given for the queue without it.
\<close>

lemma wake_keeps:
  assumes R: "M \<inter> S = {}" "sync_core M S R (live R s) s" "sync_at M S R s"
    and q: "q \<in> M \<union> S" "R q = Some (g # ys)" and pg: "sy_pc s g \<noteq> User" and Q: "R (fb_ready s) = Some Q"
  defines "st \<equiv> (fb_status s)(g := FIBER_STATUS_READY)" and "R' \<equiv> R(q \<mapsto> ys, g := None, fb_ready s \<mapsto> Q @ [g])"
  assumes h: "fiber_queues (s\<lparr>fb_status := st, fb_heap := h\<rparr>) R'"
    and mx: "mutex_ok M (R(q \<mapsto> ys, g \<mapsto> [])) owner (sy_pc s) hold (fb_status s)"
    and sm: "sem_ok S (R(q \<mapsto> ys, g \<mapsto> [])) (live R s @ [g]) (sem_num s) (sy_pc s) (fb_status s) (sy_init s) posted (sy_taken s)"
  shows "sync_inv M S (s\<lparr>mx_owner := owner, fb_status := st, fb_heap := h, sy_hold := hold, sy_posted := posted\<rparr>)"
    (is "sync_inv M S ?s")
proof (rule sync_invI [OF R(1)])
  note d = sync_coreD [OF R(2)]
  have Rg: "R g = None" using rings_member_no_head(1) [OF d(2) q(2), of g] by simp
  have gMS: "g \<notin> M \<union> S" using Rg d(3) by metis
  have qr: "q \<noteq> fb_ready s" "q \<noteq> g" using d(3) [OF q(1)] q(1) gMS by auto
  have eq: "R' x = (R(q \<mapsto> ys, g \<mapsto> [])) x" if "x \<in> M \<union> S" for x
    using that gMS d(3) [OF that] by (auto simp: R'_def)
  have tb: "table_ok (M \<union> S) (M \<union> S \<union> {fb_ready s, fb_dead s}) R' (live R s @ [g]) (fb_fibers s) (sy_pc s)"
  proof (rule table_ok_frame [OF d(6)])
    show "x \<in> set (live R s @ [g]) \<or> (\<exists>z\<in>M \<union> S. x \<in> set (the (R' z)))"
      if "z \<in> M \<union> S" "x \<in> set (the (R z))" for x z
    proof (cases "x = g")
      case False
      then have "x \<in> set (the (R' z))" using that q(2) eq [OF that(1)] gMS by auto
      with that(1) show ?thesis by blast
    qed simp
  qed (use table_okD(2,3) [OF d(6)] pg q(1) in \<open>auto simp: R'_def split: if_splits\<close>)
  show "sync_core M S R' (live R s @ [g]) ?s"
  proof (rule sync_coreI)
    show "mutex_ok M R' (mx_owner ?s) (sy_pc ?s) (sy_hold ?s) (fb_status ?s)"
      using mutex_ok_status [OF mutex_ok_cong [OF _ mx, of R'], of FIBER_STATUS_READY g] eq by (simp add: st_def)
    show "sem_ok S R' (live R s @ [g]) (sem_num ?s) (sy_pc ?s) (fb_status ?s) (sy_init ?s) (sy_posted ?s) (sy_taken ?s)"
      using sem_ok_status [OF sem_ok_cong [OF _ sm, of R'], of FIBER_STATUS_READY g] eq by (simp add: st_def)
    show "fiber_queues ?s R'" using h by (simp add: fiber_queues_def)
    show "R' x \<noteq> None" if "x \<in> M \<union> S" for x using eq [OF that] d(3) [OF that] by auto
  qed (use d(3,7) tb in \<open>auto simp: fiber_table_def\<close>)
  show "live R s @ [g] = live R' ?s" using Q by (simp add: R'_def)
  show "sync_at M S R' ?s"
    using R(3) Rg q(1) by (auto simp: sync_at_def st_def R'_def)
qed

lemma unlock_keeps:
  assumes inv: "sync_inv M S s" and at: "sy_at s = Ctx f" "sy_pc s f = User" and m: "m \<in> sy_hold s f"
    and op: "acl_fiber_mutex_unlock s m = Inr s'"
  shows "sync_inv M S (s'\<lparr>sy_hold := (sy_hold s')(f := sy_hold s' f - {m})\<rparr>)" (is "sync_inv M S ?s")
proof -
  obtain R where R: "M \<inter> S = {}" "sync_core M S R (live R s) s" "sync_at M S R s" by (rule sync_inv_cases [OF inv])
  note d = sync_coreD [OF R(2)] and f = sync_atD [OF R(3) at(1)]
  have mM: "m \<in> M" "mx_owner s m = Some f" using mutex_okD(5) [OF d(4) m] by auto
  obtain xs where xs: "R m = Some xs" using d(3) [of m] mM by auto
  show ?thesis
  proof (cases xs)
    case Nil
    then have s': "s' = s\<lparr>mx_owner := (mx_owner s)(m := None)\<rparr>"
      using op mM first_fiber_ring [OF d(2) xs] by (simp add: acl_fiber_mutex_unlock_def)
    show ?thesis
    proof (rule sync_invI [OF R(1)])
      show "sync_core M S R (live R s) ?s"
        using R(2) mutex_ok_release [OF d(4) m xs [unfolded Nil] at(2)] unfolding sync_core_def s'
        by (simp add: fiber_queues_def fiber_table_def)
      show "sync_at M S R ?s" using R(3) by (simp add: sync_at_def s')
    qed (simp add: s')
  next
    case (Cons g ys)
    have g: "sy_pc s g = InLock m" "fb_status s g \<noteq> FIBER_STATUS_EXITING" "g \<notin> M \<union> S"
      using rings_member_no_head(1) [OF d(2) xs, of g] d(3) [of g] mutex_okD(1) [OF d(4) mM(1), of g] xs Cons by auto
    obtain h h' Q where w: "acl_ring_detach (fb_heap s) (Some g) = Inr h" "R (fb_ready s) = Some Q"
      "acl_fiber_ready (s\<lparr>fb_heap := h\<rparr>) g =
        Inr (s\<lparr>fb_status := (fb_status s)(g := FIBER_STATUS_READY), fb_heap := h'\<rparr>)"
      "fiber_queues (s\<lparr>fb_status := (fb_status s)(g := FIBER_STATUS_READY), fb_heap := h'\<rparr>)
          (R(m \<mapsto> ys, g := None, fb_ready s \<mapsto> Q @ [g]))"
      using wake_first [OF R(2), of m g ys] mM(1) xs Cons g(2) by blast
    have s': "s' = s\<lparr>mx_owner := (mx_owner s)(m := Some g),
        fb_status := (fb_status s)(g := FIBER_STATUS_READY), fb_heap := h'\<rparr>"
      using op mM first_fiber_ring [OF d(2) xs] Cons w(1)
        acl_fiber_ready_owner [OF w(3), of "(mx_owner s)(m := Some g)"]
      by (simp add: acl_fiber_mutex_unlock_def)
    have mx: "mutex_ok M (R(m \<mapsto> ys, g \<mapsto> [])) ((mx_owner s)(m := Some g)) (sy_pc s)
        ((sy_hold s)(f := sy_hold s f - {m})) (fb_status s)"
      by (rule mutex_ok_handover [OF d(4) m xs [unfolded Cons] at(2)]) (use g in blast)
    have eq: "(R(m \<mapsto> ys, g \<mapsto> [])) x = R x" if "x \<in> S" for x using that g(3) mM(1) R(1) by auto
    have "sem_ok S (R(m \<mapsto> ys, g \<mapsto> [])) (live R s @ [g]) (sem_num s) (sy_pc s) (fb_status s) (sy_init s)
        (sy_posted s) (sy_taken s)"
      by (rule sem_ok_frame [OF d(5)]) (use eq g(1) sem_okD(1) [OF d(5)] in auto)
    from wake_keeps [OF R _ xs [unfolded Cons] _ w(2,4) mx this] mM(1) g(1) show ?thesis by (simp add: s')
  qed
qed

lemma trylock_keeps:
  assumes inv: "sync_inv M S s" and at: "sy_at s = Ctx f" and m: "m \<in> M"
    and op: "mutex_lock s m False = Inr (Returned r, s')"
  shows "sync_inv M S (if r = 1 then s'\<lparr>sy_hold := (sy_hold s')(f := insert m (sy_hold s' f))\<rparr> else s')"
proof (cases "r = 1")
  case True
  with lock_now_keeps [OF inv at m op] show ?thesis by simp
next
  case False
  with op have "s' = s" by (cases "mx_owner s m = None") (simp_all add: mutex_lock_def)
  with False inv show ?thesis by simp
qed


lemma acl_fiber_sem_wait_returned:
  assumes op: "acl_fiber_sem_wait s q = Inr (Returned r, s')"
  shows "r < 0 \<and> s' = s \<or>
    0 < sem_num s q \<and> r = sem_num s q - 1 \<and> s' = s\<lparr>sem_num := (sem_num s)(q := sem_num s q - 1)\<rparr>"
proof -
  consider "sem_tid s q \<noteq> self_tid s \<or> \<not> 0 < sem_num s q"
    | "sem_tid s q = self_tid s" "0 < sem_num s q" by blast
  then show ?thesis
  proof cases
    case 1
    with op have "r = -1 \<and> s' = s"
      by (cases "fb_running s") (auto simp: acl_fiber_sem_wait_def cbind_Inr_iff split: if_splits)
    then show ?thesis by simp
  next
    case 2
    with op have "r = sem_num s q - 1 \<and> s' = s\<lparr>sem_num := (sem_num s)(q := sem_num s q - 1)\<rparr>"
      by (auto simp: acl_fiber_sem_wait_def)
    with 2 show ?thesis by blast
  qed
qed

lemma acl_fiber_sem_trywait_returned:
  assumes "acl_fiber_sem_trywait s q = (r, s')"
  shows "r < 0 \<and> s' = s \<or>
    0 < sem_num s q \<and> r = sem_num s q - 1 \<and> s' = s\<lparr>sem_num := (sem_num s)(q := sem_num s q - 1)\<rparr>"
  using assms by (auto simp: acl_fiber_sem_trywait_def split: if_splits)

lemma sem_take_keeps:
  assumes inv: "sync_inv M S s"
    and op: "r < 0 \<and> s' = s \<or>
      0 < sem_num s q \<and> r = sem_num s q - 1 \<and> s' = s\<lparr>sem_num := (sem_num s)(q := sem_num s q - 1)\<rparr>"
  shows "sync_inv M S (if r < 0 then s' else s'\<lparr>sy_taken := (sy_taken s')(q := sy_taken s' q + 1)\<rparr>)"
proof -
  obtain R where R: "M \<inter> S = {}" "sync_core M S R (live R s) s" "sync_at M S R s" by (rule sync_inv_cases [OF inv])
  consider "r < 0" "s' = s"
    | "0 < sem_num s q" "r = sem_num s q - 1" "s' = s\<lparr>sem_num := (sem_num s)(q := sem_num s q - 1)\<rparr>"
    using op by blast
  then show ?thesis
  proof cases
    case 2
    have "sync_inv M S (s'\<lparr>sy_taken := (sy_taken s')(q := sy_taken s' q + 1)\<rparr>)" (is "sync_inv M S ?s")
    proof (rule sync_invI [OF R(1)])
      show "sync_core M S R (live R s) ?s"
        using R(2) sem_ok_take [OF sync_coreD(5) [OF R(2)] 2(1)] unfolding sync_core_def 2(3)
        by (simp add: fiber_queues_def fiber_table_def)
      show "sync_at M S R ?s" using R(3) by (simp add: sync_at_def 2(3))
    qed (simp add: 2(3))
    with 2(1,2) show ?thesis by simp
  qed (use inv in simp)
qed

lemma sem_wait_block_keeps:
  assumes inv: "sync_inv M S s" and at: "sy_at s = Ctx f" "sy_pc s f = User" and q: "q \<in> S"
    and op: "acl_fiber_sem_wait s q = Inr (Switched c, s')"
  shows "sync_inv M S (s'\<lparr>sy_at := c, sy_pc := (sy_pc s')(f := InSem q)\<rparr>)"
proof -
  obtain R where R: "M \<inter> S = {}" "sync_core M S R (live R s) s" "sync_at M S R s" by (rule sync_inv_cases [OF inv])
  note d = sync_coreD [OF R(2)] and f = sync_atD [OF R(3) at(1)]
  note nq = running_not_queued [OF R(2,3) at(1)]
  obtain xs where xs: "R q = Some xs" using d(3) [of q] q by auto
  obtain h where h: "\<not> 0 < sem_num s q" "acl_ring_prepend (fb_heap s) (Some q) (Some f) = Inr h"
    "acl_fiber_switch (s\<lparr>fb_heap := h\<rparr>) = Inr (c, s')"
    using op f by (auto simp: acl_fiber_sem_wait_def cbind_Inr_iff split: if_splits)
  have sm: "sem_ok S (R(f := None, q \<mapsto> xs @ [f])) (the (R (fb_ready s))) (sem_num s)
      ((sy_pc s)(f := InSem q)) (fb_status s) (sy_init s) (sy_posted s) (sy_taken s)"
    by (rule sem_ok_wait) (use d(5) at q h(1) xs f nq in auto)
  have mx: "mutex_ok M (R(f := None, q \<mapsto> xs @ [f])) (mx_owner s) ((sy_pc s)(f := InSem q))
      (sy_hold s) (fb_status s)"
    by (rule mutex_ok_cong [OF _ mutex_ok_pc [OF d(4)]]) (use nq f(5) R(1) q in auto)
  have "sy_pc s' = sy_pc s"
    using h(3) acl_fiber_switch_pc by fastforce
  with block_on_keeps [OF R(2,3) at(1) _ xs h(2,3) mx sm] q R(1) show ?thesis
    by (auto simp: sync_inv_def)
qed

lemma sem_post_keeps:
  assumes inv: "sync_inv M S s" and at: "sy_at s = Ctx f" and q: "q \<in> S"
    and op: "acl_fiber_sem_post s q = Inr (r, s')"
  shows "sync_inv M S (if r < 0 then s' else s'\<lparr>sy_posted := (sy_posted s')(q := sy_posted s' q + 1)\<rparr>)"
proof (cases "sem_tid s q = self_tid s")
  case False
  with op inv show ?thesis by (simp add: acl_fiber_sem_post_def)
next
  case tid: True
  obtain R where R: "M \<inter> S = {}" "sync_core M S R (live R s) s" "sync_at M S R s" by (rule sync_inv_cases [OF inv])
  note d = sync_coreD [OF R(2)] and f = sync_atD [OF R(3) at]
  obtain xs where xs: "R q = Some xs" using d(3) [of q] q by auto
  note ff = first_fiber_ring [OF d(2) xs]
  have num: "0 \<le> sem_num s q" by (rule sem_okD(2) [OF d(5) q])
  show ?thesis
  proof (cases xs)
    case Nil
    then have s': "s' = s\<lparr>sem_num := (sem_num s)(q := sem_num s q + 1)\<rparr>" "r = sem_num s q + 1"
      using op tid ff by (auto simp: acl_fiber_sem_post_def Let_def)
    have "sync_inv M S (s'\<lparr>sy_posted := (sy_posted s')(q := sy_posted s' q + 1)\<rparr>)" (is "sync_inv M S ?s")
    proof (rule sync_invI [OF R(1)])
      show "sync_core M S R (live R s) ?s"
        using R(2) sem_ok_give [OF d(5) xs [unfolded Nil]] unfolding sync_core_def s'(1)
        by (simp add: fiber_queues_def fiber_table_def)
      show "sync_at M S R ?s" using R(3) by (simp add: sync_at_def s'(1))
    qed (simp add: s'(1))
    with s'(2) num show ?thesis by simp
  next
    case (Cons g ys)
    have g: "sy_pc s g = InSem q" "fb_status s g \<noteq> FIBER_STATUS_EXITING" "g \<notin> M \<union> S"
      using rings_member_no_head(1) [OF d(2) xs, of g] d(3) [of g] sem_okD(1) [OF d(5) q, of g] xs Cons by auto
    obtain h h' Q where w: "acl_ring_detach (fb_heap s) (Some g) = Inr h" "R (fb_ready s) = Some Q"
      "acl_fiber_ready (s\<lparr>fb_heap := h\<rparr>) g =
        Inr (s\<lparr>fb_status := (fb_status s)(g := FIBER_STATUS_READY), fb_heap := h'\<rparr>)"
      "fiber_queues (s\<lparr>fb_status := (fb_status s)(g := FIBER_STATUS_READY), fb_heap := h'\<rparr>)
          (R(q \<mapsto> ys, g := None, fb_ready s \<mapsto> Q @ [g]))"
      using wake_first [OF R(2), of q g ys] q xs Cons g(2) by blast
    have s': "s' = s\<lparr>fb_status := (fb_status s)(g := FIBER_STATUS_READY), fb_heap := h'\<rparr>" "r = sem_num s q"
      using op tid ff Cons w(1,3) by (auto simp: acl_fiber_sem_post_def)
    have sm: "sem_ok S (R(q \<mapsto> ys, g \<mapsto> [])) (live R s @ [g]) (sem_num s) (sy_pc s) (fb_status s) (sy_init s)
        ((sy_posted s)(q := sy_posted s q + 1)) (sy_taken s)"
      by (rule sem_ok_handover [OF d(5) xs [unfolded Cons] _ q]) (use g(3) in auto)
    have mx: "mutex_ok M (R(q \<mapsto> ys, g \<mapsto> [])) (mx_owner s) (sy_pc s) (sy_hold s) (fb_status s)"
      by (rule mutex_ok_cong [OF _ d(4)]) (use g(3) q R(1) in auto)
    from wake_keeps [OF R _ xs [unfolded Cons] _ w(2,4) mx sm] q g(1) num show ?thesis by (simp add: s')
  qed
qed

lemma yield_keeps:
  assumes inv: "sync_inv M S s" and at: "sy_at s = Ctx f" "sy_pc s f = User"
    and op: "acl_fiber_yield s = Inr (Some c, s')"
  shows "sync_inv M S (s'\<lparr>sy_at := c, sy_pc := (sy_pc s')(f := InYield n)\<rparr>)"
proof -
  obtain R where R: "M \<inter> S = {}" "sync_core M S R (live R s) s" "sync_at M S R s" by (rule sync_inv_cases [OF inv])
  note d = sync_coreD [OF R(2)] and f = sync_atD [OF R(3) at(1)]
  note nq = running_not_queued [OF R(2,3) at(1)]
  let ?p = "(sy_pc s)(f := InYield n)" and ?st = "(fb_status s)(f := FIBER_STATUS_READY)"
  obtain Q where Q: "R (fb_ready s) = Some Q" using d(1) by (auto simp: fiber_queues_def)
  let ?R = "R(f := None, fb_ready s \<mapsto> Q @ [f])"
  obtain h where h: "acl_fiber_ready s f = Inr (s\<lparr>fb_status := ?st, fb_heap := h\<rparr>)"
    "fiber_queues (s\<lparr>fb_status := ?st, fb_heap := h\<rparr>) ?R"
    using acl_fiber_ready_queues [OF d(1) Q f(2,3,4,7)] by blast
  have sw: "acl_fiber_switch (s\<lparr>fb_status := ?st, fb_heap := h\<rparr>) = Inr (c, s')"
    using op f(1) h(1) by (auto simp: acl_fiber_yield_def cbind_Inr_iff split: if_splits)
  have eq: "?R x = R x" if "x \<in> M \<union> S" for x using that f(5,6) d(3) [OF that] by auto
  have mx: "mutex_ok M ?R (mx_owner s) ?p (sy_hold s) ?st"
    by (rule mutex_ok_cong [OF _ mutex_ok_status [OF mutex_ok_pc [OF d(4)]]]) (use eq nq in simp_all)
  have sm: "sem_ok S ?R (Q @ [f]) (sem_num s) ?p ?st (sy_init s) (sy_posted s) (sy_taken s)"
    by (rule sem_ok_cong [OF _ sem_ok_status [OF sem_ok_pc [OF d(5)]]])
      (use eq nq at Q nq [of "fb_ready s"] in simp_all)
  have tb: "table_ok (M \<union> S) (M \<union> S \<union> {fb_ready s, fb_dead s}) ?R (Q @ [f]) (fb_fibers s) ?p"
    by (rule table_ok_same [OF d(6)]) (use eq at(1) Q in \<open>auto split: if_splits\<close>)
  have "sync_core M S ?R (Q @ [f]) (s\<lparr>fb_status := ?st, fb_heap := h, sy_pc := ?p\<rparr>)"
    by (rule sync_coreI)
      (use mx sm tb h(2) d(3,7) f(4) eq in \<open>auto simp: fiber_queues_def fiber_table_def\<close>)
  from switch_away [OF _ _ _ sw, of M S ?R ?p f] this f acl_fiber_switch_pc [OF sw] R(1) show ?thesis
    by (auto simp: sync_inv_def)
qed


lemma schedule_turn_keeps:
  assumes inv: "sync_inv M S s" and at: "sy_at s = Original" and op: "acl_fiber_schedule_turn s = Inr (Some c, s')"
  shows "sync_inv M S (s'\<lparr>sy_at := c\<rparr>)" (is "sync_inv M S ?s")
proof -
  obtain R where R: "M \<inter> S = {}" "sync_core M S R (live R s) s" "sync_at M S R s" by (rule sync_inv_cases [OF inv])
  note d = sync_coreD [OF R(2)]
  obtain Q where Q: "R (fb_ready s) = Some Q" using d(1) by (auto simp: fiber_queues_def)
  with op ring.take_head_empty [OF d(2), of "fb_ready s"] have "Q \<noteq> []"
    by (auto simp: acl_fiber_schedule_turn_def Let_def)
  then obtain g Q' where Q': "Q = g # Q'" by (cases Q) auto
  let ?R = "R(fb_ready s \<mapsto> Q', g \<mapsto> [])" and ?st = "(fb_status s)(g := FIBER_STATUS_READY)"
  obtain h where h: "acl_ring_pop_head (fb_heap s) (Some (fb_ready s)) = Inr (Some g, h)" "rings h ?R"
    using ring.take_head [OF d(2), of "fb_ready s" g Q'] Q Q' by auto
  have s': "c = Ctx g" "s' = s\<lparr>fb_heap := h, fb_status := ?st, fb_running := Some g,
      fb_switched := fb_switched s + 1\<rparr>"
    using op h(1) by (auto simp: acl_fiber_schedule_turn_def fiber_swap_def Let_def)
  have g: "R g = None" "g \<noteq> fb_ready s" "g \<notin> M \<union> S" "g \<noteq> fb_dead s"
    using rings_member_no_head [OF d(2) Q, of g] Q' d(3) [of g] d(1) by (auto simp: fiber_queues_def)
  have eq: "?R x = R x" if "x \<in> M \<union> S" for x using that g(3) d(3) [OF that] by auto
  have L: "live R s = g # Q'" using at Q Q' by simp
  show ?thesis
  proof (rule sync_invI [OF R(1)])
    show "sync_core M S ?R (live R s) ?s"
    proof (rule sync_coreI)
      show "mutex_ok M ?R (mx_owner ?s) (sy_pc ?s) (sy_hold ?s) (fb_status ?s)"
        using mutex_ok_cong [OF _ mutex_ok_status [OF d(4)], of ?R] eq by (simp add: s')
      show "sem_ok S ?R (live R s) (sem_num ?s) (sy_pc ?s) (fb_status ?s) (sy_init ?s) (sy_posted ?s) (sy_taken ?s)"
        using sem_ok_cong [OF _ sem_ok_status [OF d(5)], of ?R] eq by (simp add: s')
      show "table_ok (M \<union> S) (M \<union> S \<union> {fb_ready ?s, fb_dead ?s}) ?R (live R s) (fb_fibers ?s) (sy_pc ?s)"
        using table_ok_cong [OF _ _ d(6), of ?R] eq by (simp add: s')
      show "fiber_queues ?s ?R" using h(2) d(1) g Q Q' by (auto simp: s' fiber_queues_def)
      show "fiber_table ?s" using d(7) by (simp add: s' fiber_table_def)
    qed (use d(3) eq in \<open>auto simp: s'\<close>)
    show "sync_at M S ?R ?s" using g by (auto simp: sync_at_def s')
    show "live R s = live ?R ?s" using L g by (simp add: s')
  qed
qed

lemma yield_now_same: "acl_fiber_yield s = Inr (None, s') \<Longrightarrow> s' = s"
  by (auto simp: acl_fiber_yield_def cbind_Inr_iff split: if_splits)

lemma schedule_back_keeps:
  "sync_inv M S s \<Longrightarrow> sy_at s = Original \<Longrightarrow> sync_inv M S (acl_fiber_schedule_back s)"
  by (auto simp: sync_inv_def sync_core_def sync_at_def acl_fiber_schedule_back_def fiber_queues_def fiber_table_def)

lemma mutex_lock_returns_1: "mutex_lock s m True = Inr (Returned r, s') \<Longrightarrow> r = 1"
  by (auto simp: mutex_lock_def cbind_Inr_iff split: if_splits)

subsubsection \<open>Signals\<close>

lemma signal_now_keeps:
  assumes inv: "sync_inv M S s" and op: "acl_fiber_signal s (Some g) sig = Inr (None, s')"
  shows "sync_inv M S s'"
proof -
  have "\<exists>e k n. s' = s\<lparr>fb_errnum := e, fb_killed := k, fb_signum := n\<rparr>"
  proof (cases "fb_running s")
    case None
    with op have "s' = s\<lparr>fb_errnum := fb_errnum s, fb_killed := fb_killed s, fb_signum := fb_signum s\<rparr>"
      by (simp add: acl_fiber_signal_def)
    then show ?thesis by blast
  next
    case (Some c)
    with op have "s' = s\<lparr>fb_errnum := if sig \<in> {SIGKILL, SIGTERM, SIGQUIT} then (fb_errnum s)(g := ECANCELED) else fb_errnum s,
        fb_killed := if sig \<in> {SIGKILL, SIGTERM, SIGQUIT} then (fb_killed s)(g := True) else fb_killed s,
        fb_signum := (fb_signum s)(g := sig)\<rparr>"
      by (cases "sig \<in> {SIGKILL, SIGTERM, SIGQUIT}"; cases "g = c")
        (auto simp: acl_fiber_signal_def Let_def cbind_Inr_iff)
    then show ?thesis by blast
  qed
  then obtain e k n where "s' = s\<lparr>fb_errnum := e, fb_killed := k, fb_signum := n\<rparr>" by blast
  with inv show ?thesis
    by (simp add: sync_inv_def sync_core_def sync_at_def fiber_queues_def fiber_table_def)
qed

lemma rings_parent: "rings h R \<Longrightarrow> R w = Some xs \<Longrightarrow> g \<in> set xs \<Longrightarrow> rg_parent h g = Some w"
  using ringsD [of h R w xs] by (auto simp: is_ring_def list_all_iff)

lemma signalled_ready:
  "rings (fb_heap s) R \<Longrightarrow> R (fb_ready s) = Some Q \<Longrightarrow> g \<in> set Q \<Longrightarrow> signalled s g p = p"
  using rings_parent by (fastforce simp: signalled_def)

lemma signalled_queued:
  "rings (fb_heap s) R \<Longrightarrow> R w = Some Q \<Longrightarrow> w \<noteq> fb_ready s \<Longrightarrow> g \<in> set Q \<Longrightarrow> signalled s g p = wait_ended p"
  using rings_parent by (fastforce simp: signalled_def)


text \<open>
  What the objects keep when a signal of the running fiber \<open>f\<close> takes \<open>g\<close> out of the queue \<open>w\<close>
  it waits in.
\<close>

lemma mutex_ok_signal:
  assumes ok: "mutex_ok M R owner pc hold status" and w: "R w = Some (xs @ g # ys)" "g \<notin> set (xs @ ys)"
    and R': "\<And>m. m \<in> M \<Longrightarrow> m \<noteq> w \<Longrightarrow> R' m = R m" "R' w = Some (xs @ ys)"
    and f: "\<And>m. m \<in> M \<Longrightarrow> f \<notin> set (the (R m))"
    and p: "\<And>m. p \<noteq> InLock m" and g: "\<And>m. m \<in> M \<Longrightarrow> m \<noteq> w \<Longrightarrow> g \<notin> set (the (R m))"
    and st: "\<And>x. x \<noteq> f \<Longrightarrow> x \<noteq> g \<Longrightarrow> status' x = status x"
  shows "mutex_ok M R' owner (pc(g := p, f := InSignal)) hold status'"
proof (rule mutex_ok_frame [OF ok])
  fix m assume m: "m \<in> M" "R m = Some []"
  then show "R' m = Some []" using w R'(1) [of m] by (cases "m = w") auto
next
  fix m x assume m: "m \<in> M" and x: "x \<in> set (the (R' m))"
  have "x \<in> set (the (R m)) \<and> x \<noteq> g"
    using x w R'(1) [of m] R'(2) g [of m] m by (cases "m = w") auto
  moreover from this have "x \<noteq> f" using f [OF m] by auto
  ultimately show "x \<in> set (the (R m)) \<and> (pc(g := p, f := InSignal)) x = pc x \<and> status' x \<noteq> FIBER_STATUS_EXITING"
    using mutex_okD(1) [OF ok m] st by simp
next
  fix m x assume x: "(pc(g := p, f := InSignal)) x = InLock m"
  then have "x \<noteq> g" "x \<noteq> f" using p by (auto split: if_splits)
  moreover from this x have pc: "pc x = InLock m" by simp
  moreover have "m \<in> M" by (rule mutex_okD(3) [OF ok pc])
  ultimately show "pc x = InLock m \<and> (x \<in> set (the (R m)) \<longrightarrow> x \<in> set (the (R' m)))"
    using w R'(1) [of m] R'(2) by (cases "m = w") auto
qed

lemma sem_ok_signal:
  assumes ok: "sem_ok S R (f # Q) num pc status init posted taken" and w: "R w = Some (xs @ g # ys)" "g \<notin> set (xs @ ys)"
    and R': "\<And>q. q \<in> S \<Longrightarrow> q \<noteq> w \<Longrightarrow> R' q = R q" "R' w = Some (xs @ ys)"
    and f: "\<And>q. q \<in> S \<Longrightarrow> f \<notin> set (the (R q))" "pc f = User" "f \<notin> set Q" "f \<noteq> g"
    and p: "\<And>q. p \<noteq> InSem q" and g: "\<And>q. q \<in> S \<Longrightarrow> q \<noteq> w \<Longrightarrow> g \<notin> set (the (R q))" "g \<notin> set Q"
    and st: "\<And>x. x \<noteq> f \<Longrightarrow> x \<noteq> g \<Longrightarrow> status' x = status x"
  shows "sem_ok S R' (g # f # Q) num (pc(g := p, f := InSignal)) status' init posted taken"
proof (rule sem_ok_frame [OF ok])
  fix q assume q: "q \<in> S" "R q = Some []"
  then show "R' q = Some []" using w R'(1) [of q] by (cases "q = w") auto
next
  fix q x assume q: "q \<in> S" and x: "x \<in> set (the (R' q))"
  have "x \<in> set (the (R q)) \<and> x \<noteq> g"
    using x w R'(1) [of q] R'(2) g(1) [of q] q by (cases "q = w") auto
  moreover from this have "x \<noteq> f" using f(1) [OF q] by auto
  ultimately show "x \<in> set (the (R q)) \<and> (pc(g := p, f := InSignal)) x = pc x \<and> status' x \<noteq> FIBER_STATUS_EXITING"
    using sem_okD(1) [OF ok q] st by simp
next
  fix q show "in_flight q (pc(g := p, f := InSignal)) (g # f # Q) = in_flight q pc (f # Q)"
    using f(2-4) p g(2) by simp
qed

lemma signal_target_queued:
  assumes core: "sync_core M S R (live R s) s" and at: "sy_at s = Ctx f"
    and g: "g \<in> set (fb_fibers s)" "g \<noteq> f"
  shows "\<exists>w xs ys. w \<in> insert (fb_ready s) (M \<union> S) \<and> R w = Some (xs @ g # ys)"
proof -
  note d = sync_coreD [OF core]
  have "\<exists>w\<in>insert (fb_ready s) (M \<union> S). g \<in> set (the (R w))"
    using table_okD(4) [OF d(6) g(1)] at g(2) by auto
  then obtain w where w: "w \<in> insert (fb_ready s) (M \<union> S)" "g \<in> set (the (R w))" by blast
  have "R w \<noteq> None" using w(1) d(3) d(1) by (auto simp: fiber_queues_def)
  with w show ?thesis by (metis option.exhaust_sel split_list)
qed

lemma signal_keeps:
  assumes inv: "sync_inv M S s" and at: "sy_at s = Ctx f" "sy_pc s f = User" and g: "g \<in> set (fb_fibers s)"
    and op: "acl_fiber_signal s (Some g) sig = Inr (Some c, s')"
  shows "sync_inv M S (s'\<lparr>sy_at := c, sy_pc := (sy_pc s')(g := signalled s g (sy_pc s' g), f := InSignal)\<rparr>)"
    (is "sync_inv M S ?s")
proof -
  obtain R where R: "M \<inter> S = {}" "sync_core M S R (live R s) s" "sync_at M S R s" by (rule sync_inv_cases [OF inv])
  note d = sync_coreD [OF R(2)] and f = sync_atD [OF R(3) at(1)]
  note nq = running_not_queued [OF R(2,3) at(1)]
  have gf: "g \<noteq> f" using op f(1) by (auto simp: acl_fiber_signal_def Let_def split: if_splits)
  obtain Q where Q: "R (fb_ready s) = Some Q" using d(1) by (auto simp: fiber_queues_def)
  obtain w xs ys where w: "w \<in> insert (fb_ready s) (M \<union> S)" and Rw: "R w = Some (xs @ g # ys)"
    using signal_target_queued [OF R(2) at(1) g gf] by blast
  note dw = ringsD [OF d(2) Rw]
  have gxy: "g \<notin> set (xs @ ys)" using is_ringD(1) [OF dw] by auto
  define Q1 where "Q1 = (if w = fb_ready s then xs @ ys else Q)"
  define R' where "R' = R(w \<mapsto> xs @ ys, f := None, fb_ready s \<mapsto> f # Q1, g \<mapsto> [])"
  define st where "st = (fb_status s)(f := FIBER_STATUS_READY, g := FIBER_STATUS_READY)"
  define p where "p = signalled s g (sy_pc s g)"
  obtain e k n h where s': "c = Ctx g" "s' = s\<lparr>fb_errnum := e, fb_killed := k, fb_signum := n, fb_status := st,
       fb_heap := h, fb_running := Some g, fb_switched := fb_switched s + 1\<rparr>" and q': "fiber_queues s' R'"
    using acl_fiber_signal_queues [OF d(1) f(1) Q f(2,3,4,7) Rw gf, of sig] op
    unfolding R'_def Q1_def st_def by auto
  have gR: "R g = None" using rings_member_no_head(1) [OF d(2) Rw, of g] by simp
  have gn: "g \<notin> M \<union> S" "g \<noteq> fb_ready s" "g \<noteq> fb_dead s" using gR d(3) [of g] Q d(1) by (auto simp: fiber_queues_def)
  have eq: "R' x = (if x = w then Some (xs @ ys) else R x)" if "x \<in> M \<union> S" for x
    using that gn f(5,6) d(3) [OF that] by (auto simp: R'_def)
  have other: "g \<notin> set (the (R x))" if "x \<in> insert (fb_ready s) (M \<union> S)" "x \<noteq> w" for x
    using rings_disjoint [OF d(2) Rw, of x] that Q d(3) [of x] by fastforce
  have L: "live R s = f # Q" using at(1) Q by simp
  have keep: "mutex_ok M R' (mx_owner s) ((sy_pc s)(g := p, f := InSignal)) (sy_hold s) st \<and>
      sem_ok S R' (g # f # Q1) (sem_num s) ((sy_pc s)(g := p, f := InSignal)) st (sy_init s) (sy_posted s) (sy_taken s)"
  proof (cases "w = fb_ready s")
    case True
    then have QQ: "Q = xs @ g # ys" "Q1 = xs @ ys" using Rw Q by (auto simp: Q1_def)
    have "p = sy_pc s g" using signalled_ready [OF d(2) Q] QQ by (simp add: p_def)
    then have pc: "(sy_pc s)(g := p, f := InSignal) = (sy_pc s)(f := InSignal)" by simp
    have eqR: "R' x = R x" if "x \<in> M \<union> S" for x using eq [OF that] d(3) [OF that] True by auto
    show ?thesis
      unfolding pc st_def
      using mutex_ok_cong [OF eqR mutex_ok_status [OF mutex_ok_status [OF mutex_ok_pc [OF d(4), of f InSignal]]]]
        sem_ok_cong [OF eqR sem_ok_status [OF sem_ok_status [OF sem_ok_pc [OF d(5), of f InSignal "g # f # Q1"]]]]
        nq at L QQ nq [of "fb_ready s"] Q
      by simp
  next
    case False
    then have w': "w \<in> M \<union> S" "Q1 = Q" using w by (auto simp: Q1_def)
    have p: "p = wait_ended (sy_pc s g)" using signalled_queued [OF d(2) Rw False] by (simp add: p_def)
    have np: "p \<noteq> InLock m" "p \<noteq> InSem q" for m q by (cases "sy_pc s g"; simp add: p)+
    have Rw': "R' w = Some (xs @ ys)" using eq w'(1) by simp
    show ?thesis
      unfolding w'(2)
    proof
      show "mutex_ok M R' (mx_owner s) ((sy_pc s)(g := p, f := InSignal)) (sy_hold s) st"
        by (rule mutex_ok_signal [OF d(4) Rw gxy]) (use Rw' eq nq np other in \<open>auto simp: st_def\<close>)
      show "sem_ok S R' (g # f # Q) (sem_num s) ((sy_pc s)(g := p, f := InSignal)) st (sy_init s) (sy_posted s) (sy_taken s)"
        by (rule sem_ok_signal [OF d(5) [unfolded L] Rw gxy])
          (use Rw' eq nq np other other [of "fb_ready s"] nq [of "fb_ready s"] at(2) Q gf False in \<open>auto simp: st_def\<close>)
    qed
  qed
  have tb: "table_ok (M \<union> S) (M \<union> S \<union> {fb_ready s, fb_dead s}) R' (g # f # Q1) (fb_fibers s)
      ((sy_pc s)(g := p, f := InSignal))"
  proof (rule table_ok_frame [OF d(6)])
    have F: "x \<in> set (fb_fibers s)" if "x \<in> set (f # Q)" for x using table_okD(2) [OF d(6), of x] that L by simp
    then show "set (g # f # Q1) \<subseteq> set (fb_fibers s)" using g Rw Q by (auto simp: Q1_def split: if_splits)
    show "x \<in> set (g # f # Q1) \<or> (\<exists>q\<in>M \<union> S. x \<in> set (the (R' q)))" if "x \<in> set (live R s)" for x
      using that L Rw Q by (auto simp: Q1_def split: if_splits)
    show "x \<in> set (g # f # Q1) \<or> (\<exists>q\<in>M \<union> S. x \<in> set (the (R' q)))"
      if "q \<in> M \<union> S" "x \<in> set (the (R q))" for x q
      using that eq [OF that(1)] Rw by (cases "x = g") (auto intro!: bexI [of _ q])
    show "R' x \<in> {R x, None, Some []}" if "x \<notin> M \<union> S \<union> {fb_ready s, fb_dead s}" for x
      using that w by (auto simp: R'_def)
    show "x \<in> set (fb_fibers s)" if "((sy_pc s)(g := p, f := InSignal)) x \<noteq> sy_pc s x" for x
      using that F [of f] g by (auto split: if_splits)
  qed
  show ?thesis
  proof (rule sync_invI [OF R(1)])
    show "sync_core M S R' (g # f # Q1) ?s"
      by (rule sync_coreI)
        (use keep tb q' d(3,7) eq in \<open>auto simp: s' p_def fiber_queues_def fiber_table_def\<close>)
    show "g # f # Q1 = live R' ?s" using gn by (simp add: s' R'_def)
    show "sync_at M S R' ?s" using gn by (auto simp: sync_at_def s' R'_def st_def)
  qed
qed

subsubsection \<open>Fibers that are created and that end\<close>

lemma sync_sys_more:
  assumes "fiber_tls.more s' = fiber_tls.more (s :: sync_sys)"
  shows "mx_owner s' = mx_owner s" "sem_num s' = sem_num s" "sy_at s' = sy_at s" "sy_pc s' = sy_pc s"
    "sy_hold s' = sy_hold s" "sy_init s' = sy_init s" "sy_posted s' = sy_posted s" "sy_taken s' = sy_taken s"
  using assms by (cases s; cases s'; simp)+

text \<open>Neither a dead fiber nor a fresh block is in the table of fibers.\<close>

lemma dead_not_in_table:
  assumes core: "sync_core M S R (live R s) s" and at: "sync_at M S R s"
    and D: "R (fb_dead s) = Some D" and g: "g \<in> set D"
  shows "g \<notin> set (fb_fibers s)"
proof
  assume F: "g \<in> set (fb_fibers s)"
  note d = sync_coreD [OF core]
  have Rg: "R g = None" using rings_member_no_head(1) [OF d(2) D g] .
  have no: "g \<notin> set (the (R x))" if "x \<in> insert (fb_ready s) (M \<union> S)" for x
  proof -
    have x: "R x \<noteq> None" "x \<noteq> fb_dead s" using that d(1) d(3) [of x] by (auto simp: fiber_queues_def)
    then obtain xs where "R x = Some xs" by blast
    with rings_disjoint [OF d(2) D this x(2) [symmetric]] g show ?thesis by auto
  qed
  have "g \<in> set (at_list (sy_at s)) \<or> (\<exists>x\<in>insert (fb_ready s) (M \<union> S). g \<in> set (the (R x)))"
    using table_okD(4) [OF d(6) F] by auto
  with no have "g \<in> set (at_list (sy_at s))" by blast
  then have "sy_at s = Ctx g" by (cases "sy_at s") auto
  with sync_atD(2) [OF at] Rg show False by simp
qed

lemma fresh_block_unused:
  assumes core: "sync_core M S R (live R s) s" and fr: "fresh_block (M \<union> S) s a"
  shows "R a \<in> {None, Some []}" "\<forall>x ys. R x = Some ys \<longrightarrow> a \<notin> set ys"
proof -
  note d = sync_coreD [OF core]
  have a: "a \<notin> M \<union> S \<union> {fb_ready s, fb_dead s}" "a \<notin> set (fb_fibers s)"
    "\<And>D. is_ring (fb_heap s) (fb_dead s) D \<Longrightarrow> a \<notin> set D"
    using fr by (auto simp: fresh_block_def)
  show "R a \<in> {None, Some []}" by (rule table_okD(1) [OF d(6) a(1)])
  show "\<forall>x ys. R x = Some ys \<longrightarrow> a \<notin> set ys"
  proof (intro allI impI notI)
    fix x ys assume x: "R x = Some ys" "a \<in> set ys"
    then have "x \<in> M \<union> S \<union> {fb_ready s, fb_dead s}" using table_okD(1) [OF d(6), of x] by force
    moreover have "x \<noteq> fb_dead s" using a(3) [of ys] x ringsD [OF d(2)] by auto
    moreover have "x \<noteq> fb_ready s" using table_okD(2) [OF d(6), of a] a(2) x by auto
    moreover have "sy_pc s a \<noteq> User" if "x \<in> M \<union> S"
      using that x mutex_okD(1) [OF d(4), of x a] sem_okD(1) [OF d(5), of x a] by auto
    ultimately show False using a(2) table_okD(3) [OF d(6), of a] by blast
  qed
qed

lemma create_keeps:
  assumes inv: "sync_inv M S s" and at: "sy_at s = Ctx f" and fr: "fresh_block (M \<union> S) s a"
    and op: "acl_fiber_create s a sz = Inr (g, s')"
  shows "sync_inv M S (s'\<lparr>sy_pc := (sy_pc s')(g := User)\<rparr>)" (is "sync_inv M S ?s")
proof -
  obtain R where R: "M \<inter> S = {}" "sync_core M S R (live R s) s" "sync_at M S R s" by (rule sync_inv_cases [OF inv])
  note d = sync_coreD [OF R(2)] and f = sync_atD [OF R(3) at]
  obtain Q D where Q: "R (fb_ready s) = Some Q" "R (fb_dead s) = Some D" using d(1) by (auto simp: fiber_queues_def)
  have a: "a \<notin> M \<union> S" "a \<noteq> fb_ready s" "a \<noteq> fb_dead s" "a \<notin> set (fb_fibers s)"
    using fr by (auto simp: fresh_block_def)
  define R' where "R' = R(g := None, fb_dead s \<mapsto> tl D, fb_ready s \<mapsto> Q @ [g])"
  have c: "fiber_queues s' R'" "g = (case D of [] \<Rightarrow> a | x # _ \<Rightarrow> x)"
    and same: "fb_ready s' = fb_ready s" "fb_dead s' = fb_dead s" "fb_running s' = fb_running s"
      "fb_status s' = (fb_status s)(g := FIBER_STATUS_READY)" "fb_fibers s' = fb_fibers s @ [g]"
      "fb_slot s' g = length (fb_fibers s)" "\<And>x. x \<noteq> g \<Longrightarrow> fb_slot s' x = fb_slot s x"
      "fiber_tls.more s' = fiber_tls.more s"
    using acl_fiber_create_queues [OF d(1) Q(2,1) fresh_block_unused [OF R(2) fr] a(2,3), where sz = sz] op
    unfolding R'_def by auto
  note same = same sync_sys_more [OF same(8)]
  have g: "g \<notin> set (fb_fibers s)" "g \<notin> M \<union> S" "g \<noteq> fb_ready s" "g \<noteq> fb_dead s"
  proof -
    have "g = a \<or> g \<in> set D \<and> R g = None"
      using c(2) rings_member_no_head(1) [OF d(2) Q(2), of g] by (cases D) auto
    then show "g \<notin> set (fb_fibers s)" "g \<notin> M \<union> S" "g \<noteq> fb_ready s" "g \<noteq> fb_dead s"
      using a dead_not_in_table [OF R(2,3) Q(2), of g] d(3) [of g] Q by auto
  qed
  have pc: "sy_pc s g = User" using table_okD(3) [OF d(6), of g] g(1) by blast
  then have pcs: "sy_pc ?s = sy_pc s" using same by auto
  have eq: "R' x = R x" if "x \<in> M \<union> S" for x using that g(2) d(3) [OF that] by (auto simp: R'_def)
  have fF: "f \<in> set (fb_fibers s)" using table_okD(2) [OF d(6), of f] at by simp
  have "table_ok (M \<union> S) (M \<union> S \<union> {fb_ready s, fb_dead s}) R' (live R s) (fb_fibers s) (sy_pc s)"
    by (rule table_ok_same [OF d(6)]) (use eq in \<open>auto simp: R'_def\<close>)
  then have tb: "table_ok (M \<union> S) (M \<union> S \<union> {fb_ready s, fb_dead s}) R' (live R s @ [g]) (fb_fibers s @ [g]) (sy_pc s)"
    by (auto simp: table_ok_def)
  have "fb_slot s' (fb_fibers s ! i) = i" if "i < length (fb_fibers s)" for i
  proof -
    have "fb_fibers s ! i \<noteq> g" using nth_mem [OF that] g(1) by metis
    then show ?thesis using d(7) same(7) that by (simp add: fiber_table_def)
  qed
  then have tab: "fiber_table ?s"
    using d(7) g(1) same(5,6) by (auto simp: fiber_table_def nth_append less_Suc_eq)
  show ?thesis
  proof (rule sync_invI [OF R(1)])
    show "sync_core M S R' (live R s @ [g]) ?s"
    proof (rule sync_coreI)
      show "mutex_ok M R' (mx_owner ?s) (sy_pc ?s) (sy_hold ?s) (fb_status ?s)"
        unfolding pcs using mutex_ok_cong [OF _ mutex_ok_status [OF d(4)], of R'] eq by (simp add: same)
      have "sem_ok S R (live R s @ [g]) (sem_num s) (sy_pc s) (fb_status s) (sy_init s) (sy_posted s) (sy_taken s)"
        by (rule sem_ok_frame [OF d(5)]) (use pc sem_okD(1) [OF d(5)] in auto)
      from sem_ok_cong [OF _ sem_ok_status [OF this], of R']
      show "sem_ok S R' (live R s @ [g]) (sem_num ?s) (sy_pc ?s) (fb_status ?s) (sy_init ?s) (sy_posted ?s) (sy_taken ?s)"
        unfolding pcs using eq by (simp add: same)
      show "table_ok (M \<union> S) (M \<union> S \<union> {fb_ready ?s, fb_dead ?s}) R' (live R s @ [g]) (fb_fibers ?s) (sy_pc ?s)"
        unfolding pcs using tb by (simp add: same)
      show "fiber_queues ?s R'" using c(1) by (simp add: fiber_queues_def)
    qed (use tab d(3) eq in \<open>auto simp: same\<close>)
    show "live R s @ [g] = live R' ?s" using Q(1) at by (simp add: same R'_def)
    show "sync_at M S R' ?s" using f g fF at by (auto simp: sync_at_def same R'_def)
  qed
qed

text \<open>A fiber that ends: the next ready fiber, or the scheduler, goes on without it.\<close>

lemma fiber_start_end_gives:
  assumes core: "sync_core M S R (live R s) s" and at: "sync_at M S R s" "sy_at s = Ctx f"
    and Q: "R (fb_ready s) = Some Q" and D: "R (fb_dead s) = Some D"
    and op: "fiber_start_end s f = Inr (c, s')"
  shows "\<exists>R'. fiber_queues s' R' \<and> at_list c @ the (R' (fb_ready s)) = Q \<and> R' (fb_dead s) \<noteq> None \<and>
    (\<forall>x\<in>M \<union> S. R' x = R x) \<and> (\<forall>x. x \<notin> M \<union> S \<union> {fb_ready s, fb_dead s} \<longrightarrow> R' x \<in> {R x, None, Some []}) \<and>
    fiber_table s' \<and> set (fb_fibers s') = set (fb_fibers s) - {f} \<and> fb_ready s' = fb_ready s \<and> fb_dead s' = fb_dead s \<and>
    fb_status s' = (fb_status s)(f := FIBER_STATUS_EXITING) \<and> fiber_tls.more s' = fiber_tls.more s \<and>
    (\<forall>g. c = Ctx g \<longrightarrow> fb_running s' = Some g \<and> R' g = Some [] \<and> g \<noteq> fb_ready s \<and> g \<noteq> fb_dead s \<and> g \<notin> M \<union> S \<and> g \<noteq> f)"
proof -
  note d = sync_coreD [OF core] and f = sync_atD [OF at]
  let ?t = "s\<lparr>fb_locals := (fb_locals s)(f := []), fb_exitcode := 0,
      fb_status := (fb_status s)(f := FIBER_STATUS_EXITING)\<rparr>"
  have "f \<in> set (fb_fibers s)" using table_okD(2) [OF d(6), of f] at(2) by simp
  then have sl: "fb_slot s f < length (fb_fibers s)" "fb_fibers s ! fb_slot s f = f"
    using d(7) by (auto simp: fiber_table_def in_set_conv_nth)
  have fQ: "f \<notin> set Q" using running_not_queued [OF core at, of "fb_ready s"] Q by simp
  have op': "acl_fiber_switch ?t = Inr (c, s')"
    using op f(1) by (simp add: fiber_start_end_def fiber_exit_def Let_def)
  have dq: "x \<notin> set D" if "x \<in> insert f (M \<union> S)" for x
    using rings_member_no_head(1) [OF d(2) D, of x] that f(2) d(3) [of x] by auto
  show ?thesis
  proof (cases Q)
    case Nil
    have swap: "fiber_swap ?t (Ctx f) Original = Inr (c, s')"
      using op' f(1) ring.take_head_empty [OF d(2), of "fb_ready s"] Q Nil
      by (simp add: acl_fiber_switch_def)
    have q: "fiber_queues ?t R" using d(1) Q Nil by (auto simp: fiber_queues_def)
    obtain R' where R': "c = Original" "fiber_queues s' R'" "R' (fb_dead s) \<noteq> None" "R' (fb_ready s) = Some []"
        "fiber_table s'" "set (fb_fibers s') = set (fb_fibers s) - {f}" "fb_ready s' = fb_ready s"
        "fb_dead s' = fb_dead s" "fb_status s' = (fb_status s)(f := FIBER_STATUS_EXITING)"
        "fiber_tls.more s' = fiber_tls.more s"
        "\<forall>x. x \<notin> insert f (insert (fb_dead s) (set D)) \<longrightarrow> R' x = R x" "\<forall>x\<in>set D. R' x \<in> {None, Some []}"
        "R' (fb_dead s) = Some (drop (length D - 1000) D @ [f])"
      using fiber_swap_exiting [OF q, of D f Original] D f sl d(7) swap Q Nil
      by (auto simp: fiber_table_def)
    have "R' f = None" using rings_member_no_head(1) [OF fiber_queuesD(1) [OF R'(2)] R'(13), of f] by simp
    then have k: "R' x \<in> {R x, None, Some []}" if "x \<noteq> fb_dead s" for x
      using R'(11,12) that by (cases "x \<in> set D"; cases "x = f") simp_all
    have "R' x = R x" if "x \<in> M \<union> S" for x
      using R'(11) dq [of x] that d(3) [OF that] f(5,6) by auto
    with R'(1-10) k Nil show ?thesis by (intro exI [of _ R']) simp
  next
    case (Cons g Q')
    obtain h where h: "acl_ring_pop_head (fb_heap s) (Some (fb_ready s)) = Inr (Some g, h)"
      "rings h (R(fb_ready s \<mapsto> Q', g \<mapsto> []))"
      using ring.take_head [OF d(2), of "fb_ready s" g Q'] Q Cons by auto
    let ?R = "R(fb_ready s \<mapsto> Q', g \<mapsto> [])"
    let ?u = "?t\<lparr>fb_heap := h, fb_running := Some g, fb_switched := fb_switched s + 1\<rparr>"
    have g: "R g = None" "g \<noteq> fb_ready s" "g \<noteq> fb_dead s" "g \<notin> M \<union> S" "g \<noteq> f"
      using rings_member_no_head [OF d(2) Q, of g] Cons D d(3) [of g] f(2) by auto
    have gD: "g \<notin> set D" "fb_ready s \<notin> set D"
      using rings_disjoint [OF d(2) Q D] Cons fiber_queuesD(2) [OF d(1)] by auto
    have swap: "fiber_swap ?u (Ctx f) (Ctx g) = Inr (c, s')"
      using op' f(1) h(1) by (simp add: acl_fiber_switch_def Let_def)
    have q: "fiber_queues ?u ?R" using d(1) Q Cons fQ g h(2) by (auto simp: fiber_queues_def)
    have pre: "?R (fb_dead ?u) = Some D" "?R f = Some []" "f \<noteq> fb_ready ?u" "f \<noteq> fb_dead ?u"
      "fb_status ?u f = FIBER_STATUS_EXITING" "fiber_table ?u" "fb_slot ?u f < length (fb_fibers ?u)"
      "fb_fibers ?u ! fb_slot ?u f = f"
      using D f sl d(7) g fiber_queuesD(2) [OF d(1)] by (auto simp: fiber_table_def)
    obtain R' where R': "c = Ctx g" "fiber_queues s' R'" "R' (fb_dead s) \<noteq> None" "R' (fb_ready s) = Some Q'"
        "fiber_table s'" "set (fb_fibers s') = set (fb_fibers s) - {f}" "fb_ready s' = fb_ready s"
        "fb_dead s' = fb_dead s" "fb_status s' = (fb_status s)(f := FIBER_STATUS_EXITING)"
        "fiber_tls.more s' = fiber_tls.more s" "fb_running s' = Some g"
        "\<forall>x. x \<notin> insert f (insert (fb_dead s) (set D)) \<longrightarrow> R' x = ?R x" "\<forall>x\<in>set D. R' x \<in> {None, Some []}"
        "R' (fb_dead s) = Some (drop (length D - 1000) D @ [f])"
      using fiber_swap_exiting [OF q pre, of "Ctx g"] swap g by auto
    have "R' f = None" using rings_member_no_head(1) [OF fiber_queuesD(1) [OF R'(2)] R'(14), of f] by simp
    then have k: "R' x \<in> {R x, None, Some []}" if "x \<noteq> fb_dead s" "x \<noteq> fb_ready s" for x
      using R'(12,13) that by (cases "x \<in> set D"; cases "x = f"; cases "x = g") simp_all
    have "R' x = R x" if "x \<in> M \<union> S" for x
      using R'(12) dq [of x] that d(3) [OF that] f(5,6) g(4) by auto
    moreover have "R' g = Some []" using R'(12) g gD by simp
    ultimately show ?thesis using R'(1-11) k Cons g(2-5) by (intro exI [of _ R']) simp
  qed
qed

lemma fiber_ends_keeps:
  assumes inv: "sync_inv M S s" and at: "sy_at s = Ctx f" "sy_pc s f = User"
    and op: "fiber_start_end s f = Inr (c, s')"
  shows "sync_inv M S (s'\<lparr>sy_at := c\<rparr>)" (is "sync_inv M S ?s")
proof -
  obtain R where R: "M \<inter> S = {}" "sync_core M S R (live R s) s" "sync_at M S R s" by (rule sync_inv_cases [OF inv])
  note d = sync_coreD [OF R(2)] and f = sync_atD [OF R(3) at(1)]
  note nq = running_not_queued [OF R(2,3) at(1)]
  obtain Q D where Q: "R (fb_ready s) = Some Q" "R (fb_dead s) = Some D" using d(1) by (auto simp: fiber_queues_def)
  obtain R' where R': "fiber_queues s' R'" "at_list c @ the (R' (fb_ready s)) = Q" "\<And>x. x \<in> M \<union> S \<Longrightarrow> R' x = R x"
      "\<And>x. x \<notin> M \<union> S \<union> {fb_ready s, fb_dead s} \<Longrightarrow> R' x \<in> {R x, None, Some []}"
    and same: "fiber_table s'" "set (fb_fibers s') = set (fb_fibers s) - {f}" "fb_ready s' = fb_ready s"
      "fb_dead s' = fb_dead s" "fb_status s' = (fb_status s)(f := FIBER_STATUS_EXITING)"
      "fiber_tls.more s' = fiber_tls.more s"
    and next_run: "\<And>g. c = Ctx g \<Longrightarrow> fb_running s' = Some g \<and> R' g = Some [] \<and> g \<noteq> fb_ready s \<and> g \<noteq> fb_dead s \<and>
        g \<notin> M \<union> S \<and> g \<noteq> f"
    using fiber_start_end_gives [OF R(2,3) at(1) Q op] by (elim exE conjE) ((rule that, assumption); simp)
  note same = same sync_sys_more [OF same(6)]
  have L: "live R s = f # Q" using at(1) Q by simp
  have fQ: "f \<notin> set Q" using nq [of "fb_ready s"] Q by simp
  have mq: "fb_status s' g \<noteq> FIBER_STATUS_EXITING" if "m \<in> M" "g \<in> set (the (R m))" for m g
    using mutex_okD(1) [OF d(4) that] nq [of m] that by (auto simp: same(5))
  have sq: "fb_status s' g \<noteq> FIBER_STATUS_EXITING" if "q \<in> S" "g \<in> set (the (R q))" for q g
    using sem_okD(1) [OF d(5) that] nq [of q] that by (auto simp: same(5))
  have "mutex_ok M R' (mx_owner s) (sy_pc s) (sy_hold s) (fb_status s')"
    by (rule mutex_ok_cong [OF _ mutex_ok_frame [OF d(4), of R]]) (use R'(3) mq in blast)+
  moreover have "sem_ok S R (live R s) (sem_num s) (sy_pc s) (fb_status s') (sy_init s) (sy_posted s) (sy_taken s)"
    by (rule sem_ok_frame [OF d(5)]) (use sq in blast)+
  then have "sem_ok S R' Q (sem_num s) (sy_pc s) (fb_status s') (sy_init s) (sy_posted s) (sy_taken s)"
    unfolding L sem_ok_def using R'(3) at(2) by simp
  moreover have "table_ok (M \<union> S) (M \<union> S \<union> {fb_ready s, fb_dead s}) R' Q (fb_fibers s') (sy_pc s)"
    unfolding table_ok_def same(2)
  proof (intro conjI ballI allI impI)
    show "R' x \<in> {None, Some []}" if "x \<in> - (M \<union> S \<union> {fb_ready s, fb_dead s})" for x
      using R'(4) [of x] table_okD(1) [OF d(6), of x] that by auto
    show "set Q \<subseteq> set (fb_fibers s) - {f}" using table_okD(2) [OF d(6)] L fQ by auto
    show "g \<in> set (fb_fibers s) - {f}" if "sy_pc s g \<noteq> User" for g
      using table_okD(3) [OF d(6) that] that at(2) by auto
    show "g \<in> set Q \<or> (\<exists>q\<in>M \<union> S. g \<in> set (the (R' q)))" if "g \<in> set (fb_fibers s) - {f}" for g
      using table_okD(4) [OF d(6), of g] that L R'(3) by (metis DiffD1 DiffD2 insertE list.simps(15) singletonI)
  qed
  ultimately have "sync_core M S R' Q ?s"
    by (intro sync_coreI) (use R'(1,3) d(3) same in \<open>auto simp: fiber_queues_def fiber_table_def\<close>)
  moreover have "sync_at M S R' ?s"
  proof -
    have "fb_status s g \<noteq> FIBER_STATUS_EXITING" if "c = Ctx g" for g
      using fiber_queues_ready [OF d(1) Q(1), of g] R'(2) that by auto
    then show ?thesis using next_run by (auto simp: sync_at_def same)
  qed
  moreover have "Q = live R' ?s" using R'(2) by (simp add: same)
  ultimately show ?thesis using sync_invI [OF R(1)] by blast
qed


subsubsection \<open>All steps\<close>

lemma sync_step_inv: "sync_step M S s s' \<Longrightarrow> sync_inv M S s \<Longrightarrow> sync_inv M S s'"
proof (induction rule: sync_step.induct)
  case (lock_now s f m r s')
  then show ?case
    unfolding acl_fiber_mutex_lock_def using lock_now_keeps mutex_lock_returns_1 by blast
next
  case (lock_block s f m c s')
  then show ?case unfolding acl_fiber_mutex_lock_def using lock_block_keeps by blast
next
  case (lock_resume s f m r w s')
  then show ?case using lock_resume_keeps(3) by blast
next
  case (lock_resume_out s f m r w s')
  then have "s' = s" using lock_resume_out_same(1) by blast
  with lock_resume_out show ?case by (simp add: resume_user_keeps)
next
  case (trylock s f m r s')
  then show ?case unfolding acl_fiber_mutex_trylock_def using trylock_keeps by blast
next
  case (unlock s f m s')
  then show ?case using unlock_keeps by blast
next
  case (sem_wait_now s f q r s')
  show ?case by (rule sem_take_keeps [OF sem_wait_now(5) acl_fiber_sem_wait_returned [OF sem_wait_now(4)]])
next
  case (sem_wait_block s f q c s')
  then show ?case using sem_wait_block_keeps by blast
next
  case (sem_resume s f q r s')
  then show ?case using sem_resume_keeps by blast
next
  case (sem_resume_out s f q r s')
  then have "s' = s" using sem_resume_same by blast
  with sem_resume_out show ?case by (simp add: resume_user_keeps)
next
  case (sem_trywait s f q r s')
  show ?case by (rule sem_take_keeps [OF sem_trywait(5) acl_fiber_sem_trywait_returned [OF sem_trywait(4)]])
next
  case (sem_post s f q r s')
  show ?case by (rule sem_post_keeps [OF sem_post(5,1,3,4)])
next
  case (yield_now s f s')
  then show ?case using yield_now_same by blast
next
  case (yield s f c s')
  then show ?case using yield_keeps by blast
next
  case (yield_resume s f n)
  then show ?case by (simp add: resume_user_keeps)
next
  case (signal_now s f g sig s')
  then show ?case using signal_now_keeps by blast
next
  case (signal s f g sig c s')
  show ?case by (rule signal_keeps [OF signal(5,1,2,3,4)])
next
  case (signal_resume s f)
  then show ?case by (simp add: resume_user_keeps)
next
  case (create s f a sz g s')
  then show ?case using create_keeps by blast
next
  case (fiber_ends s f c s')
  then show ?case using fiber_ends_keeps by blast
next
  case (schedule_turn s c s')
  then show ?case using schedule_turn_keeps by blast
next
  case (schedule_back s)
  then show ?case by (rule schedule_back_keeps [rotated])
qed

subsection \<open>Reachable states\<close>

text \<open>
  The thread before its scheduler starts: its fibers are in the ready ring and have not run,
  the mutexes are free, and no semaphore was created with fewer than no permits.
\<close>

definition sync_start :: "addr set \<Rightarrow> addr set \<Rightarrow> sync_sys \<Rightarrow> bool" where
  "sync_start M S s \<longleftrightarrow>
     M \<inter> S = {} \<and> sy_at s = Original \<and> fiber_table s \<and>
     (\<exists>R. fiber_queues s R \<and> (\<forall>q\<in>M \<union> S. R q = Some [] \<and> q \<noteq> fb_ready s \<and> q \<noteq> fb_dead s) \<and>
        set (the (R (fb_ready s))) = set (fb_fibers s) \<and>
        (\<forall>x. x \<notin> M \<union> S \<union> {fb_ready s, fb_dead s} \<longrightarrow> R x \<in> {None, Some []})) \<and>
     (\<forall>f. sy_pc s f = User \<and> sy_hold s f = {}) \<and> (\<forall>m\<in>M. mx_owner s m = None) \<and>
     (\<forall>q\<in>S. 0 \<le> sem_num s q \<and> sy_init s q = sem_num s q \<and> sy_posted s q = 0 \<and> sy_taken s q = 0)"

definition sync_reach :: "addr set \<Rightarrow> addr set \<Rightarrow> sync_sys \<Rightarrow> bool" where
  "sync_reach M S s \<longleftrightarrow> (\<exists>s0. sync_start M S s0 \<and> (sync_step M S)\<^sup>*\<^sup>* s0 s)"

lemma in_flight_user: "(\<And>f. pc f = User) \<Longrightarrow> in_flight q pc L = 0"
  by (induction L) simp_all

lemma sync_start_inv: "sync_start M S s \<Longrightarrow> sync_inv M S s"
proof -
  assume st: "sync_start M S s"
  then have "\<exists>R. fiber_queues s R \<and> (\<forall>q\<in>M \<union> S. R q = Some [] \<and> q \<noteq> fb_ready s \<and> q \<noteq> fb_dead s) \<and>
        set (the (R (fb_ready s))) = set (fb_fibers s) \<and>
        (\<forall>x. x \<notin> M \<union> S \<union> {fb_ready s, fb_dead s} \<longrightarrow> R x \<in> {None, Some []})"
    unfolding sync_start_def by (elim conjE)
  then obtain R where R: "fiber_queues s R" "\<And>q. q \<in> M \<union> S \<Longrightarrow> R q = Some [] \<and> q \<noteq> fb_ready s \<and> q \<noteq> fb_dead s"
      "set (the (R (fb_ready s))) = set (fb_fibers s)"
      "\<And>x. x \<notin> M \<union> S \<union> {fb_ready s, fb_dead s} \<Longrightarrow> R x \<in> {None, Some []}"
    by metis
  have pc: "sy_pc s f = User" "sy_hold s f = {}" for f using st by (simp_all add: sync_start_def)
  have at: "sy_at s = Original" and tab: "fiber_table s" and dis: "M \<inter> S = {}"
    using st by (simp_all add: sync_start_def)
  have "mutex_ok M R (mx_owner s) (sy_pc s) (sy_hold s) (fb_status s)"
    by (rule mutex_okI) (use R(2) pc in auto)
  moreover have "sem_ok S R (live R s) (sem_num s) (sy_pc s) (fb_status s) (sy_init s) (sy_posted s) (sy_taken s)"
    using st R(2) in_flight_user [of "sy_pc s"] pc(1) by (simp add: sync_start_def sem_ok_def)
  moreover have "table_ok (M \<union> S) (M \<union> S \<union> {fb_ready s, fb_dead s}) R (live R s) (fb_fibers s) (sy_pc s)"
    unfolding table_ok_def using R(3,4) pc at by auto
  ultimately have "sync_core M S R (live R s) s" using R(1,2) tab by (intro sync_coreI) auto
  moreover have "sync_at M S R s" using at by (simp add: sync_at_def)
  ultimately show ?thesis using dis by (blast intro: sync_invI)
qed

lemma sync_reach_inv: "sync_reach M S s \<Longrightarrow> sync_inv M S s"
proof -
  assume "sync_reach M S s"
  then obtain s0 where "sync_start M S s0" and run: "(sync_step M S)\<^sup>*\<^sup>* s0 s"
    by (auto simp: sync_reach_def)
  then have "sync_inv M S s0" by (blast intro: sync_start_inv)
  with run show ?thesis by (induction rule: rtranclp_induct) (auto intro: sync_step_inv)
qed

lemma sync_reach_cases:
  assumes "sync_reach M S s"
  obtains R where "M \<inter> S = {}" "sync_core M S R (live R s) s" "sync_at M S R s"
  using sync_inv_cases [OF sync_reach_inv [OF assms]] .

subsection \<open>The operations do not fault\<close>

lemma acl_fiber_switch_total:
  assumes "fiber_queues t R" "fb_running t = Some f" "fb_status t f \<noteq> FIBER_STATUS_EXITING"
  shows "\<exists>c t'. acl_fiber_switch t = Inr (c, t')"
proof -
  obtain Q where "R (fb_ready t) = Some Q" using assms(1) by (auto simp: fiber_queues_def)
  then show ?thesis
    using acl_fiber_switch_empty [OF assms(1) _ assms(2,3)] acl_fiber_switch_next [OF assms(1) _ assms(2,3)]
    by (cases Q) fastforce+
qed

lemma block_on_total:
  assumes core: "sync_core M S R L s" and at: "sync_at M S R s" "sy_at s = Ctx f" and q: "q \<in> M \<union> S"
  shows "\<exists>h c s'. acl_ring_prepend (fb_heap s) (Some q) (Some f) = Inr h \<and>
           acl_fiber_switch (s\<lparr>fb_heap := h\<rparr>) = Inr (c, s')"
proof -
  note d = sync_coreD [OF core] and f = sync_atD [OF at]
  obtain xs where xs: "R q = Some xs" using d(3) [OF q] by auto
  have qf: "q \<noteq> f" using f(5,6) q by auto
  obtain h where h: "acl_ring_prepend (fb_heap s) (Some q) (Some f) = Inr h"
    using ring.enter_tail [OF d(2) xs f(2) qf] by blast
  have "fiber_queues (s\<lparr>fb_heap := h\<rparr>) (R(f := None, q \<mapsto> xs @ [f]))"
    by (rule fiber_queues_enter [OF d(1) xs _ _ f(2)]) (use d(3) [OF q] f qf h in auto)
  from acl_fiber_switch_total [OF this, of f] f(1,7) h show ?thesis by auto
qed

lemma mutex_lock_total:
  assumes "sync_core M S R L s" "sync_at M S R s" "sy_at s = Ctx f" "m \<in> M"
  shows "\<exists>x. mutex_lock s m b = Inr x"
  using block_on_total [OF assms(1-3), of m] assms(4) sync_atD(1) [OF assms(2,3)]
  by (cases "mx_owner s m = None"; cases b) (auto simp: mutex_lock_def)

lemma acl_fiber_sem_wait_total:
  assumes "sync_core M S R L s" "sync_at M S R s" "sy_at s = Ctx f" "q \<in> S"
  shows "\<exists>x. acl_fiber_sem_wait s q = Inr x"
  using block_on_total [OF assms(1-3), of q] assms(4) sync_atD(1) [OF assms(2,3)]
  by (auto simp: acl_fiber_sem_wait_def)

lemma acl_fiber_yield_total:
  assumes core: "sync_core M S R L s" and at: "sync_at M S R s" "sy_at s = Ctx f"
  shows "\<exists>x. acl_fiber_yield s = Inr x"
proof -
  note d = sync_coreD [OF core] and f = sync_atD [OF at]
  obtain Q where Q: "R (fb_ready s) = Some Q" using d(1) by (auto simp: fiber_queues_def)
  let ?t = "\<lambda>h. s\<lparr>fb_status := (fb_status s)(f := FIBER_STATUS_READY), fb_heap := h\<rparr>"
  obtain h where h: "acl_fiber_ready s f = Inr (?t h)" "fiber_queues (?t h) (R(f := None, fb_ready s \<mapsto> Q @ [f]))"
    using acl_fiber_ready_queues [OF d(1) Q f(2,3,4,7)] by blast
  from acl_fiber_switch_total [OF h(2), of f] f(1) h(1) show ?thesis
    by (auto simp: acl_fiber_yield_def)
qed

lemma acl_fiber_mutex_unlock_gives:
  assumes core: "sync_core M S R L s" and m: "m \<in> sy_hold s f"
  shows "\<exists>s'. acl_fiber_mutex_unlock s m = Inr s' \<and> mx_owner s' m = first_fiber s m \<and>
    (\<forall>g. first_fiber s m = Some g \<longrightarrow>
       sy_pc s g = InLock m \<and> rg_pred (fb_heap s') (fb_ready s') = Some g)"
proof -
  note d = sync_coreD [OF core]
  have mM: "m \<in> M" "mx_owner s m = Some f" using mutex_okD(5) [OF d(4) m] by auto
  obtain xs where xs: "R m = Some xs" using d(3) [of m] mM by auto
  note ff = first_fiber_ring [OF d(2) xs]
  show ?thesis
  proof (cases xs)
    case Nil
    with ff mM show ?thesis by (simp add: acl_fiber_mutex_unlock_def)
  next
    case (Cons g ys)
    have g: "sy_pc s g = InLock m" "fb_status s g \<noteq> FIBER_STATUS_EXITING"
      using mutex_okD(1) [OF d(4) mM(1), of g] xs Cons by auto
    obtain h h' Q where w: "acl_ring_detach (fb_heap s) (Some g) = Inr h"
      "acl_fiber_ready (s\<lparr>fb_heap := h\<rparr>) g =
        Inr (s\<lparr>fb_status := (fb_status s)(g := FIBER_STATUS_READY), fb_heap := h'\<rparr>)"
      "fiber_queues (s\<lparr>fb_status := (fb_status s)(g := FIBER_STATUS_READY), fb_heap := h'\<rparr>)
          (R(m \<mapsto> ys, g := None, fb_ready s \<mapsto> Q @ [g]))"
      using wake_first [OF core, of m g ys] mM(1) xs Cons g(2) by blast
    have "rings h' (R(m \<mapsto> ys, g := None, fb_ready s \<mapsto> Q @ [g]))"
      using fiber_queuesD(1) [OF w(3)] by simp
    then have "is_ring h' (fb_ready s) (Q @ [g])" by (rule ringsD) simp
    then have "rg_pred h' (fb_ready s) = Some g" using ring_pred by fastforce
    with ff mM Cons g(1) w(1) acl_fiber_ready_owner [OF w(2), of "(mx_owner s)(m := Some g)"]
    show ?thesis by (simp add: acl_fiber_mutex_unlock_def)
  qed
qed

lemma acl_fiber_mutex_unlock_total:
  assumes "sync_core M S R L s" "m \<in> sy_hold s f"
  shows "\<exists>x. acl_fiber_mutex_unlock s m = Inr x"
  using acl_fiber_mutex_unlock_gives [OF assms] by blast

lemma acl_fiber_sem_post_total:
  assumes core: "sync_core M S R L s" and q: "q \<in> S"
  shows "\<exists>x. acl_fiber_sem_post s q = Inr x"
proof -
  note d = sync_coreD [OF core]
  obtain xs where xs: "R q = Some xs" using d(3) [of q] q by auto
  note ff = first_fiber_ring [OF d(2) xs]
  show ?thesis
  proof (cases xs)
    case Nil
    with ff show ?thesis by (simp add: acl_fiber_sem_post_def Let_def)
  next
    case (Cons g ys)
    have "fb_status s g \<noteq> FIBER_STATUS_EXITING"
      using sem_okD(1) [OF d(5) q, of g] xs Cons by simp
    then obtain h t where "acl_ring_detach (fb_heap s) (Some g) = Inr h"
      "acl_fiber_ready (s\<lparr>fb_heap := h\<rparr>) g = Inr t"
      using wake_first [OF core, of q g ys] q xs Cons by blast
    with ff Cons show ?thesis by (simp add: acl_fiber_sem_post_def)
  qed
qed

lemma acl_fiber_signal_total:
  assumes core: "sync_core M S R (live R s) s" and at: "sync_at M S R s" "sy_at s = Ctx f"
    and g: "g \<in> set (fb_fibers s)"
  shows "\<exists>x. acl_fiber_signal s (Some g) sig = Inr x"
proof (cases "g = f")
  case True
  with sync_atD(1) [OF at] show ?thesis by (auto simp: acl_fiber_signal_def Let_def)
next
  case False
  note d = sync_coreD [OF core] and f = sync_atD [OF at]
  obtain Q where Q: "R (fb_ready s) = Some Q" using d(1) by (auto simp: fiber_queues_def)
  obtain w xs ys where "R w = Some (xs @ g # ys)" using signal_target_queued [OF core at(2) g False] by blast
  from acl_fiber_signal_queues [OF d(1) f(1) Q f(2,3,4,7) this False] show ?thesis by blast
qed

end
