(* ===== verification/Acl_FiberProps.thy ===== *)
theory Acl_FiberProps
  imports Acl_FiberSync
begin

text \<open>
  The properties of the fiber library: what holds in every state that fibers reach which lock
  and unlock mutexes, use semaphores, yield, signal and create each other and end, and where
  the locks fail. \<open>sync_exec\<close> runs one step of \<open>sync_step\<close> as a function (all but the creation
  of a fiber, whose address the allocator chooses), so that a concrete run can be evaluated.
\<close>

section \<open>An executable form of the step relation\<close>

datatype sync_cmd = DoLock addr | DoTrylock addr | DoUnlock addr | DoWait addr | DoTrywait addr | DoPost addr
  | DoYield | DoSignal addr int | DoEnd | DoResume | DoTurn

definition sync_exec :: "addr set \<Rightarrow> addr set \<Rightarrow> sync_cmd \<Rightarrow> sync_sys \<Rightarrow> sync_sys option" where
  "sync_exec M S c s =
     (case sy_at s of
        Original \<Rightarrow>
          (if c = DoTurn then
             (let s0 = acl_fiber_schedule_back s
              in case acl_fiber_schedule_turn s0 of
                   Inr (Some k, s') \<Rightarrow> Some (s'\<lparr>sy_at := k\<rparr>)
                 | _ \<Rightarrow> None)
           else None)
      | Ctx f \<Rightarrow>
          (case sy_pc s f of
             User \<Rightarrow>
               (case c of
                  DoLock m \<Rightarrow>
                    (if m \<notin> M then None
                     else case acl_fiber_mutex_lock s m of
                       Inr (Returned r, s') \<Rightarrow> Some (s'\<lparr>sy_hold := (sy_hold s')(f := insert m (sy_hold s' f))\<rparr>)
                     | Inr (Switched k, s') \<Rightarrow> Some (s'\<lparr>sy_at := k, sy_pc := (sy_pc s')(f := InLock m)\<rparr>)
                     | Inl _ \<Rightarrow> None)
                | DoTrylock m \<Rightarrow>
                    (if m \<notin> M then None
                     else case acl_fiber_mutex_trylock s m of
                       Inr (Returned r, s') \<Rightarrow>
                         Some (if r = 1 then s'\<lparr>sy_hold := (sy_hold s')(f := insert m (sy_hold s' f))\<rparr> else s')
                     | _ \<Rightarrow> None)
                | DoUnlock m \<Rightarrow>
                    (if m \<notin> sy_hold s f then None
                     else case acl_fiber_mutex_unlock s m of
                       Inr s' \<Rightarrow> Some (s'\<lparr>sy_hold := (sy_hold s')(f := sy_hold s' f - {m})\<rparr>)
                     | Inl _ \<Rightarrow> None)
                | DoWait q \<Rightarrow>
                    (if q \<notin> S then None
                     else case acl_fiber_sem_wait s q of
                       Inr (Returned r, s') \<Rightarrow>
                         Some (if r < 0 then s' else s'\<lparr>sy_taken := (sy_taken s')(q := sy_taken s' q + 1)\<rparr>)
                     | Inr (Switched k, s') \<Rightarrow> Some (s'\<lparr>sy_at := k, sy_pc := (sy_pc s')(f := InSem q)\<rparr>)
                     | Inl _ \<Rightarrow> None)
                | DoTrywait q \<Rightarrow>
                    (if q \<notin> S then None
                     else let (r, s') = acl_fiber_sem_trywait s q
                       in Some (if r < 0 then s' else s'\<lparr>sy_taken := (sy_taken s')(q := sy_taken s' q + 1)\<rparr>))
                | DoPost q \<Rightarrow>
                    (if q \<notin> S then None
                     else case acl_fiber_sem_post s q of
                       Inr (r, s') \<Rightarrow>
                         Some (if r < 0 then s' else s'\<lparr>sy_posted := (sy_posted s')(q := sy_posted s' q + 1)\<rparr>)
                     | Inl _ \<Rightarrow> None)
                | DoYield \<Rightarrow>
                    (case acl_fiber_yield s of
                       Inr (None, s') \<Rightarrow> Some s'
                     | Inr (Some k, s') \<Rightarrow> Some (s'\<lparr>sy_at := k, sy_pc := (sy_pc s')(f := InYield (fb_switched s))\<rparr>)
                     | Inl _ \<Rightarrow> None)
                | DoSignal g sig \<Rightarrow>
                    (if g \<notin> set (fb_fibers s) then None
                     else case acl_fiber_signal s (Some g) sig of
                       Inr (None, s') \<Rightarrow> Some s'
                     | Inr (Some k, s') \<Rightarrow>
                         Some (s'\<lparr>sy_at := k,
                           sy_pc := (sy_pc s')(g := signalled s g (sy_pc s' g), f := InSignal)\<rparr>)
                     | Inl _ \<Rightarrow> None)
                | DoEnd \<Rightarrow>
                    (case fiber_start_end s f of
                       Inr (k, s') \<Rightarrow> Some (s'\<lparr>sy_at := k\<rparr>)
                     | Inl _ \<Rightarrow> None)
                | _ \<Rightarrow> None)
           | InLock m \<Rightarrow>
               (case mutex_lock_resume s m f of
                  Inr (r, w, s') \<Rightarrow>
                    Some (s'\<lparr>sy_pc := (sy_pc s')(f := User), sy_hold := (sy_hold s')(f := insert m (sy_hold s' f))\<rparr>)
                | Inl _ \<Rightarrow> None)
           | OutLock m \<Rightarrow>
               (case mutex_lock_resume s m f of
                  Inr (r, w, s') \<Rightarrow> Some (s'\<lparr>sy_pc := (sy_pc s')(f := User)\<rparr>)
                | Inl _ \<Rightarrow> None)
           | InSem q \<Rightarrow>
               (case acl_fiber_sem_wait_resume s q f of
                  Inr (r, s') \<Rightarrow>
                    Some (s'\<lparr>sy_pc := (sy_pc s')(f := User), sy_taken := (sy_taken s')(q := sy_taken s' q + 1)\<rparr>)
                | Inl _ \<Rightarrow> None)
           | OutSem q \<Rightarrow>
               (case acl_fiber_sem_wait_resume s q f of
                  Inr (r, s') \<Rightarrow> Some (s'\<lparr>sy_pc := (sy_pc s')(f := User)\<rparr>)
                | Inl _ \<Rightarrow> None)
           | InYield n \<Rightarrow> Some (s\<lparr>sy_pc := (sy_pc s)(f := User)\<rparr>)
           | InSignal \<Rightarrow> Some (s\<lparr>sy_pc := (sy_pc s)(f := User)\<rparr>)))"

lemma sync_exec_user:
  assumes "sy_at s = Ctx f" "sy_pc s f = User" "sync_exec M S c s = Some s'"
  shows "sync_step M S s s'"
proof (cases c)
  case (DoLock m)
  with assms show ?thesis
    by (auto simp: sync_exec_def split: if_splits sum.splits outcome.splits intro: sync_step.intros)
next
  case (DoTrylock m)
  have m: "m \<in> M" using assms DoTrylock by (cases "m \<in> M") (simp_all add: sync_exec_def)
  obtain r t where t: "acl_fiber_mutex_trylock s m = Inr (Returned r, t)"
    using assms DoTrylock m
    by (cases "acl_fiber_mutex_trylock s m") (simp_all add: sync_exec_def split: prod.splits outcome.splits)
  have s': "s' = (if r = 1 then t\<lparr>sy_hold := (sy_hold t)(f := insert m (sy_hold t f))\<rparr> else t)"
    using assms DoTrylock m t by (simp add: sync_exec_def)
  show ?thesis unfolding s' by (rule sync_step.trylock [OF assms(1,2) m t])
next
  case (DoUnlock m)
  with assms show ?thesis
    by (auto simp: sync_exec_def split: if_splits sum.splits intro: sync_step.intros)
next
  case (DoWait q)
  have q: "q \<in> S" using assms DoWait by (cases "q \<in> S") (simp_all add: sync_exec_def)
  consider (ret) r t where "acl_fiber_sem_wait s q = Inr (Returned r, t)"
    | (sw) k t where "acl_fiber_sem_wait s q = Inr (Switched k, t)"
    using assms DoWait q
    by (cases "acl_fiber_sem_wait s q") (simp_all add: sync_exec_def split: prod.splits outcome.splits)
  then show ?thesis
  proof cases
    case ret
    have s': "s' = (if r < 0 then t else t\<lparr>sy_taken := (sy_taken t)(q := sy_taken t q + 1)\<rparr>)"
      using assms DoWait q ret by (simp add: sync_exec_def)
    show ?thesis unfolding s' by (rule sync_step.sem_wait_now [OF assms(1,2) q ret])
  next
    case sw
    have s': "s' = t\<lparr>sy_at := k, sy_pc := (sy_pc t)(f := InSem q)\<rparr>"
      using assms DoWait q sw by (simp add: sync_exec_def)
    show ?thesis unfolding s' by (rule sync_step.sem_wait_block [OF assms(1,2) q sw])
  qed
next
  case (DoTrywait q)
  have q: "q \<in> S" using assms DoTrywait by (cases "q \<in> S") (simp_all add: sync_exec_def)
  obtain r t where t: "acl_fiber_sem_trywait s q = (r, t)" by (cases "acl_fiber_sem_trywait s q")
  have s': "s' = (if r < 0 then t else t\<lparr>sy_taken := (sy_taken t)(q := sy_taken t q + 1)\<rparr>)"
    using assms DoTrywait q t by (simp add: sync_exec_def)
  show ?thesis unfolding s' by (rule sync_step.sem_trywait [OF assms(1,2) q t])
next
  case (DoPost q)
  have q: "q \<in> S" using assms DoPost by (cases "q \<in> S") (simp_all add: sync_exec_def)
  obtain r t where t: "acl_fiber_sem_post s q = Inr (r, t)"
    using assms DoPost q by (cases "acl_fiber_sem_post s q") (auto simp: sync_exec_def)
  have s': "s' = (if r < 0 then t else t\<lparr>sy_posted := (sy_posted t)(q := sy_posted t q + 1)\<rparr>)"
    using assms DoPost q t by (simp add: sync_exec_def)
  show ?thesis unfolding s' by (rule sync_step.sem_post [OF assms(1,2) q t])
next
  case DoYield
  with assms show ?thesis
    by (auto simp: sync_exec_def split: sum.splits option.splits intro: sync_step.intros)
next
  case (DoSignal g sig)
  have g: "g \<in> set (fb_fibers s)"
    using assms DoSignal by (cases "g \<in> set (fb_fibers s)") (simp_all add: sync_exec_def)
  obtain k t where t: "acl_fiber_signal s (Some g) sig = Inr (k, t)"
    using assms DoSignal g by (cases "acl_fiber_signal s (Some g) sig") (auto simp: sync_exec_def)
  show ?thesis
  proof (cases k)
    case None
    then have "s' = t" using assms DoSignal g t by (simp add: sync_exec_def)
    with sync_step.signal_now [OF assms(1,2) g t [unfolded None]] show ?thesis by simp
  next
    case (Some c)
    have s': "s' = t\<lparr>sy_at := c, sy_pc := (sy_pc t)(g := signalled s g (sy_pc t g), f := InSignal)\<rparr>"
      using assms DoSignal g t Some by (simp add: sync_exec_def)
    show ?thesis unfolding s' by (rule sync_step.signal [OF assms(1,2) g t [unfolded Some]])
  qed
next
  case DoEnd
  with assms show ?thesis
    by (auto simp: sync_exec_def split: sum.splits intro: sync_step.intros)
qed (use assms in \<open>auto simp: sync_exec_def\<close>)

lemma sync_exec_step: "sync_exec M S c s = Some s' \<Longrightarrow> (sync_step M S)\<^sup>*\<^sup>* s s'"
proof (cases "sy_at s")
  case Original
  assume ex: "sync_exec M S c s = Some s'"
  have bk: "sync_step M S s (acl_fiber_schedule_back s)" by (rule sync_step.schedule_back [OF Original])
  obtain k t where t: "acl_fiber_schedule_turn (acl_fiber_schedule_back s) = Inr (Some k, t)"
    "s' = t\<lparr>sy_at := k\<rparr>"
    using ex Original by (auto simp: sync_exec_def Let_def split: if_splits sum.splits option.splits)
  have "sync_step M S (acl_fiber_schedule_back s) s'"
    unfolding t(2) by (rule sync_step.schedule_turn [OF _ _ t(1)])
      (simp_all add: acl_fiber_schedule_back_def Original)
  with bk show ?thesis by (meson converse_rtranclp_into_rtranclp r_into_rtranclp)
next
  case (Ctx f)
  assume ex: "sync_exec M S c s = Some s'"
  have "sync_step M S s s'"
  proof (cases "sy_pc s f")
    case User
    from sync_exec_user [OF Ctx User ex] show ?thesis .
  next
    case (InLock m)
    with Ctx ex show ?thesis
      by (auto simp: sync_exec_def split: sum.splits intro: sync_step.intros)
  next
    case (InSem q)
    with Ctx ex show ?thesis
      by (auto simp: sync_exec_def split: sum.splits intro: sync_step.intros)
  next
    case (OutLock m)
    with Ctx ex show ?thesis
      by (auto simp: sync_exec_def split: sum.splits intro: sync_step.intros)
  next
    case (OutSem q)
    with Ctx ex show ?thesis
      by (auto simp: sync_exec_def split: sum.splits intro: sync_step.intros)
  next
    case (InYield n)
    with Ctx ex show ?thesis by (auto simp: sync_exec_def intro: sync_step.intros)
  next
    case InSignal
    with Ctx ex show ?thesis by (auto simp: sync_exec_def intro: sync_step.intros)
  qed
  then show ?thesis by blast
qed

fun sync_run :: "addr set \<Rightarrow> addr set \<Rightarrow> sync_cmd list \<Rightarrow> sync_sys \<Rightarrow> sync_sys option" where
  "sync_run M S [] s = Some s"
| "sync_run M S (c # cs) s = (case sync_exec M S c s of None \<Rightarrow> None | Some s' \<Rightarrow> sync_run M S cs s')"

lemma sync_run_steps: "sync_run M S cs s = Some s' \<Longrightarrow> (sync_step M S)\<^sup>*\<^sup>* s s'"
  by (induction cs arbitrary: s) (auto split: option.splits dest!: sync_exec_step intro: rtranclp_trans)

lemma sync_run_reach: "sync_start M S s \<Longrightarrow> sync_run M S cs s = Some s' \<Longrightarrow> sync_reach M S s'"
  using sync_run_steps by (auto simp: sync_reach_def)

section \<open>A thread to run\<close>

text \<open>
  A thread with the ready ring at 1 and the dead ring at 2, the new fibers 10 and 11, the
  free mutex 3 and the semaphore 4 with one permit.
\<close>

definition sync_demo :: sync_sys where
  "sync_demo =
     \<lparr>fb_heap =
        \<lparr>rg_succ = (\<lambda>_. None)(1 := Some 10, 10 := Some 11, 11 := Some 1, 2 := Some 2, 3 := Some 3, 4 := Some 4),
         rg_pred = (\<lambda>_. None)(1 := Some 11, 10 := Some 1, 11 := Some 10, 2 := Some 2, 3 := Some 3, 4 := Some 4),
         rg_parent = (\<lambda>_. None)(1 := Some 1, 10 := Some 1, 11 := Some 1, 2 := Some 2, 3 := Some 3, 4 := Some 4),
         rg_len = (\<lambda>_. 0)(1 := 2)\<rparr>,
      fb_ready = 1, fb_dead = 2, fb_fibers = [10, 11], fb_size = 128, fb_exitcode = 0, fb_running = None,
      fb_idgen = 2, fb_count = 2, fb_switched = 0, fb_nlocal = 0, fb_status = (\<lambda>_. FIBER_STATUS_READY),
      fb_id = (\<lambda>_. 0)(10 := 1, 11 := 2), fb_slot = (\<lambda>_. 0)(11 := 1), fb_errnum = (\<lambda>_. 0),
      fb_sys = (\<lambda>_. False), fb_signum = (\<lambda>_. 0), fb_killed = (\<lambda>_. False),
      fb_stack = (\<lambda>_. 0)(10 := 100, 11 := 100), fb_locals = (\<lambda>_. []), fb_freed = [],
      mx_owner = (\<lambda>_. None), rw_readers = (\<lambda>_. 0), rw_writer = (\<lambda>_. None),
      sem_num = (\<lambda>_. 0)(4 := 1), sem_tid = (\<lambda>_. 0)(4 := 7), self_tid = 7, sy_at = Original,
      sy_pc = (\<lambda>_. User), sy_hold = (\<lambda>_. {}), sy_init = (\<lambda>_. 0)(4 := 1), sy_posted = (\<lambda>_. 0),
      sy_taken = (\<lambda>_. 0)\<rparr>"

lemmas sync_run_defs = sync_demo_def sync_exec_def acl_fiber_ready_def acl_ring_prepend_def
  acl_ring_detach_def fiber_swap_def acl_fiber_switch_def acl_fiber_yield_def
  acl_fiber_schedule_turn_def acl_fiber_schedule_back_def acl_fiber_mutex_lock_def mutex_lock_def
  mutex_lock_resume_def acl_fiber_mutex_unlock_def first_fiber_def acl_ring_pop_head_def
  set_field_defs acl_ring_size_def acl_fiber_sem_wait_def acl_fiber_sem_post_def
  acl_fiber_sem_wait_resume_def acl_fiber_signal_def acl_ring_append_def signalled_def
  SIGKILL_def SIGTERM_def SIGQUIT_def Let_def

lemma sync_demo_rings: "rings (fb_heap sync_demo) (map_of [(1, [10, 11]), (2, []), (3, []), (4, [])])"
  by (rule rings_of) (simp_all add: sync_demo_def is_ring_def link_def)

lemma sync_demo_start: "sync_start {3} {4} sync_demo"
  unfolding sync_start_def
proof (intro conjI exI)
  show "fiber_queues sync_demo (map_of [(1, [10, 11]), (2, []), (3, []), (4, [])])"
    using sync_demo_rings by (simp add: fiber_queues_def) (simp add: sync_demo_def)
qed (simp_all add: sync_demo_def fiber_table_def less_Suc_eq)

lemma sync_demo_run:
  assumes "case sync_run {3} {4} cs sync_demo of Some s \<Rightarrow> P s | None \<Rightarrow> False"
  obtains s where "sync_reach {3} {4} s" "P s"
  using assms sync_run_reach [OF sync_demo_start] by (auto split: option.splits)

lemma sync_demo_locked:
  "case sync_run {3} {4} [DoTurn, DoLock 3] sync_demo of
     Some s \<Rightarrow> 3 \<in> sy_hold s 10 \<and> sy_at s = Ctx 10 \<and> sy_pc s 10 = User | None \<Rightarrow> False"
  by (simp add: sync_run_defs)

lemma sync_demo_contended:
  "case sync_run {3} {4} [DoTurn, DoLock 3, DoYield, DoLock 3, DoResume] sync_demo of
     Some s \<Rightarrow> sy_at s = Ctx 10 \<and> sy_pc s 10 = User \<and> 3 \<in> sy_hold s 10 \<and> first_fiber s 3 = Some 11 \<and>
       sy_pc s 11 = InLock 3
   | None \<Rightarrow> False"
  by (simp add: sync_run_defs)

lemma sync_demo_handed_over:
  "case sync_run {3} {4} [DoTurn, DoLock 3, DoYield, DoLock 3, DoResume, DoUnlock 3, DoYield] sync_demo of
     Some s \<Rightarrow> sy_at s = Ctx 11 \<and> sy_pc s 11 = InLock 3 | None \<Rightarrow> False"
  by (simp add: sync_run_defs)

section \<open>Mutexes and semaphores\<close>

text \<open>
  C1: no two fibers hold the same mutex, and the mutex names its holder as owner, in every
  state of a thread whose fibers lock, trylock and unlock the mutexes \<open>M\<close>, wait, trywait and
  post on the semaphores \<open>S\<close>, yield, signal or kill fibers that have not ended, create fibers
  and end, in any order. A fiber holds a mutex from the return of the lock, or of a trylock
  with 1, to its unlock, with one exception: a lock whose wait was ended by a signal or kill
  returns 1 like the others but without the mutex, and is not counted
  (\<open>mutex_killed_waiter_returns\<close>). It is assumed that a fiber unlocks only what it holds and
  calls no other operation that blocks.
\<close>

theorem mutex_mutual_exclusion:
  assumes "sync_reach M S s" "f \<noteq> g"
  shows "sy_hold s f \<inter> sy_hold s g = {} \<and> (\<forall>m\<in>sy_hold s f. mx_owner s m = Some f)"
proof -
  obtain R where "sync_core M S R (live R s) s" using sync_reach_cases [OF assms(1)] by blast
  from mutex_okD(5) [OF sync_coreD(4) [OF this]] assms(2) show ?thesis
    by (metis disjoint_iff option.inject)
qed

theorem mutex_mutual_exclusion_witness:
  "\<exists>s. sync_reach {3} {4} s \<and> 3 \<in> sy_hold s 10 \<and> sy_hold s 10 \<inter> sy_hold s 11 = {} \<and> mx_owner s 3 = Some 10"
proof -
  obtain s where s: "sync_reach {3} {4} s" "3 \<in> sy_hold s 10"
    using sync_demo_run [OF sync_demo_locked] by blast
  then show ?thesis using mutex_mutual_exclusion [OF s(1), of 10 11] by auto
qed

text \<open>
  C2: a fiber that waited in \<open>acl_fiber_mutex_lock\<close> and was not taken out of the mutex's queue by
  a signal or kill owns the mutex when it runs again: the call returns 1 and does not reach its
  "oops" warning. A fiber that was taken out of the queue by a signal or kill also gets 1,
  whoever owns the mutex, and the warning only when it was not killed. The states are those of
  fibers that lock, trylock and unlock mutexes, use semaphores, yield, signal, create each
  other and end, as for mutual exclusion.
\<close>

theorem mutex_lock_resume_owns:
  assumes "sync_reach M S s" "sy_at s = Ctx f"
  shows "(sy_pc s f = InLock m \<longrightarrow> mutex_lock_resume s m f = Inr (1, False, s) \<and> mx_owner s m = Some f) \<and>
    (sy_pc s f = OutLock m \<longrightarrow>
       mutex_lock_resume s m f = Inr (1, mx_owner s m \<noteq> Some f \<and> \<not> fb_killed s f, s))"
proof -
  obtain R where R: "sync_core M S R (live R s) s" "sync_at M S R s" using sync_reach_cases [OF assms(1)] by blast
  have d: "mutex_lock_resume s m f = Inr (1, mx_owner s m \<noteq> Some f \<and> \<not> fb_killed s f, s)"
    by (simp add: mutex_lock_resume_def Let_def detach_running [OF R assms(2)] acl_fiber_killed_def)
  moreover have "mx_owner s m = Some f" if "sy_pc s f = InLock m"
    by (rule lock_resume_keeps(2) [OF sync_reach_inv [OF assms(1)] assms(2) that d])
  ultimately show ?thesis by simp
qed

theorem mutex_lock_resume_owns_witness:
  "\<exists>s. sync_reach {3} {4} s \<and> sy_pc s 11 = InLock 3 \<and> mutex_lock_resume s 3 11 = Inr (1, False, s) \<and>
     mx_owner s 3 = Some 11"
proof -
  obtain s where s: "sync_reach {3} {4} s" "sy_at s = Ctx 11" "sy_pc s 11 = InLock 3"
    using sync_demo_run [OF sync_demo_handed_over] by blast
  then show ?thesis using mutex_lock_resume_owns [OF s(1,2), of 3] by blast
qed

text \<open>
  A run in which the lock of a killed fiber returns 1 while another fiber owns and holds the
  mutex: 11 waits for the mutex that 10 holds, and 10 kills it.
\<close>

theorem mutex_killed_waiter_returns:
  "\<exists>s. sync_reach {3} {4} s \<and> sy_at s = Ctx 11 \<and> sy_pc s 11 = OutLock 3 \<and>
     mutex_lock_resume s 3 11 = Inr (1, False, s) \<and> mx_owner s 3 = Some 10 \<and> 3 \<in> sy_hold s 10"
proof -
  have "case sync_run {3} {4} [DoTurn, DoLock 3, DoYield, DoLock 3, DoResume, DoSignal 11 9] sync_demo of
     Some s \<Rightarrow> sy_at s = Ctx 11 \<and> sy_pc s 11 = OutLock 3 \<and> mx_owner s 3 = Some 10 \<and> 3 \<in> sy_hold s 10 \<and>
       fb_killed s 11
   | None \<Rightarrow> False"
    by (simp add: sync_run_defs)
  then obtain s where s: "sync_reach {3} {4} s" "sy_at s = Ctx 11" "sy_pc s 11 = OutLock 3"
    "mx_owner s 3 = Some 10" "3 \<in> sy_hold s 10" "fb_killed s 11"
    by (rule sync_demo_run) blast
  obtain R where R: "sync_core {3} {4} R (live R s) s" "sync_at {3} {4} R s" using sync_reach_cases [OF s(1)] by blast
  show ?thesis
    using s by (intro exI [of _ s])
      (simp add: mutex_lock_resume_def Let_def detach_running [OF R s(2)] acl_fiber_killed_def)
qed

text \<open>
  C3: semaphores neither lose nor make up permits. In every reachable state the permits a
  semaphore was created with (none fewer than zero) and those posted to it are the ones it still
  has, the ones that waits and trywaits have returned with, and one for each fiber that is stopped in
  a wait, has been handed a permit and is running or in the ready ring. Every fiber stopped in a
  wait is such a fiber or in the semaphore's queue, unless a signal or kill has ended its
  wait, which takes no permit. The count never goes below zero, and while it is
  positive no fiber is queued. The states are those of fibers that lock, trylock and unlock
  mutexes, wait, trywait and post, yield, signal or kill, create each other and end.
\<close>

theorem sem_permits_conserved:
  assumes "sync_reach M S s" "q \<in> S"
  shows "\<exists>Q W. is_ring (fb_heap s) (fb_ready s) Q \<and> is_ring (fb_heap s) q W \<and>
    sy_init s q + sy_posted s q =
      sem_num s q + sy_taken s q + int (length (filter (\<lambda>f. sy_pc s f = InSem q) (at_list (sy_at s) @ Q))) \<and>
    (\<forall>f. sy_pc s f = InSem q \<longrightarrow> f \<in> set W \<union> set (at_list (sy_at s) @ Q)) \<and>
    0 \<le> sem_num s q \<and> (0 < sem_num s q \<longrightarrow> W = [])"
proof -
  obtain R where R: "M \<inter> S = {}" "sync_core M S R (live R s) s" using sync_reach_cases [OF assms(1)] by blast
  note d = sync_coreD [OF R(2)]
  obtain Q W where Q: "R (fb_ready s) = Some Q" "R q = Some W"
    using d(1) d(3) [of q] assms(2) by (auto simp: fiber_queues_def)
  have "f \<in> set W \<union> set (at_list (sy_at s) @ Q)" if f: "sy_pc s f = InSem q" for f
  proof -
    have "f \<in> set (live R s) \<or> (\<exists>x\<in>M \<union> S. f \<in> set (the (R x)))"
      using table_okD(4) [OF d(6) table_okD(3) [OF d(6)]] f by simp
    moreover have "x = q" if "x \<in> M \<union> S" "f \<in> set (the (R x))" for x
      using mutex_okD(1) [OF d(4), of x f] sem_okD(1) [OF d(5), of x f] that f by auto
    ultimately have "f \<in> set (live R s) \<or> f \<in> set (the (R q))" by blast
    then show ?thesis using Q by auto
  qed
  with sem_okD(2-4) [OF d(5) assms(2)] ringsD [OF d(2) Q(1)] ringsD [OF d(2) Q(2)] Q show ?thesis
    by (intro exI [of _ Q] exI [of _ W]) (simp add: in_flight_def)
qed

theorem sem_permits_conserved_witness:
  "\<exists>s Q. sync_reach {3} {4} s \<and> sem_num s 4 = 0 \<and> sy_posted s 4 = 1 \<and> is_ring (fb_heap s) (fb_ready s) Q \<and>
     sy_init s 4 + 1 = sy_taken s 4 + int (length (filter (\<lambda>f. sy_pc s f = InSem 4) (at_list (sy_at s) @ Q)))"
proof -
  have "case sync_run {3} {4} [DoTurn, DoWait 4, DoYield, DoWait 4, DoResume, DoPost 4] sync_demo of
      Some s \<Rightarrow> sem_num s 4 = 0 \<and> sy_posted s 4 = 1 | None \<Rightarrow> False"
    by (simp add: sync_run_defs)
  then obtain s where s: "sync_reach {3} {4} s" "sem_num s 4 = 0" "sy_posted s 4 = 1"
    by (rule sync_demo_run) blast
  show ?thesis using sem_permits_conserved [OF s(1), of 4] s by auto
qed

text \<open>
  the operations do not fault: in every reachable state, for the running fiber, a lock
  or trylock of a mutex, an unlock of a mutex it holds, a wait or post on a semaphore, a
  yield and a signal to a fiber of the thread return or switch; none dereferences NULL or ends
  the process.
\<close>

theorem sync_operations_do_not_fault:
  assumes "sync_reach M S s" "sy_at s = Ctx f" "sy_pc s f = User" "m \<in> M" "q \<in> S" "g \<in> set (fb_fibers s)"
  shows "(\<exists>x. acl_fiber_mutex_lock s m = Inr x) \<and> (\<exists>x. acl_fiber_mutex_trylock s m = Inr x) \<and>
    (m \<in> sy_hold s f \<longrightarrow> (\<exists>x. acl_fiber_mutex_unlock s m = Inr x)) \<and>
    (\<exists>x. acl_fiber_sem_wait s q = Inr x) \<and> (\<exists>x. acl_fiber_sem_post s q = Inr x) \<and>
    (\<exists>x. acl_fiber_yield s = Inr x) \<and> (\<exists>x. acl_fiber_signal s (Some g) sig = Inr x)"
proof -
  obtain R where R: "M \<inter> S = {}" "sync_core M S R (live R s) s" "sync_at M S R s"
    using sync_reach_cases [OF assms(1)] by blast
  note r = R(2,3) assms(2)
  show ?thesis
    unfolding acl_fiber_mutex_lock_def acl_fiber_mutex_trylock_def
    using mutex_lock_total [OF r assms(4)] acl_fiber_sem_wait_total [OF r assms(5)]
      acl_fiber_yield_total [OF r] acl_fiber_mutex_unlock_total [OF R(2), of m f]
      acl_fiber_sem_post_total [OF R(2) assms(5)] acl_fiber_signal_total [OF r assms(6)] by blast
qed

theorem sync_operations_do_not_fault_witness:
  "\<exists>s. sync_reach {3} {4} s \<and> 3 \<in> sy_hold s 10 \<and> (\<exists>x. acl_fiber_mutex_unlock s 3 = Inr x) \<and>
     (\<exists>x. acl_fiber_sem_post s 4 = Inr x) \<and> (\<exists>x. acl_fiber_signal s (Some 11) 9 = Inr x)"
proof -
  have "case sync_run {3} {4} [DoTurn, DoLock 3] sync_demo of
     Some s \<Rightarrow> 3 \<in> sy_hold s 10 \<and> sy_at s = Ctx 10 \<and> sy_pc s 10 = User \<and> 11 \<in> set (fb_fibers s) | None \<Rightarrow> False"
    by (simp add: sync_run_defs)
  then obtain s where s: "sync_reach {3} {4} s" "3 \<in> sy_hold s 10" "sy_at s = Ctx 10" "sy_pc s 10 = User"
      "11 \<in> set (fb_fibers s)"
    by (rule sync_demo_run) blast
  then show ?thesis using sync_operations_do_not_fault [OF s(1,3,4) _ _ s(5), of 3 4 9] by blast
qed

text \<open>
  an unlock hands the mutex to the fiber that has waited longest: it becomes the
  owner and the last fiber of the ready queue. With no waiter the mutex becomes free.
\<close>

theorem mutex_unlock_hands_over:
  assumes "sync_reach M S s" "m \<in> sy_hold s f"
  shows "\<exists>s'. acl_fiber_mutex_unlock s m = Inr s' \<and> mx_owner s' m = first_fiber s m \<and>
    (\<forall>g. first_fiber s m = Some g \<longrightarrow>
       sy_pc s g = InLock m \<and> rg_pred (fb_heap s') (fb_ready s') = Some g)"
proof -
  obtain R where "sync_core M S R (live R s) s" using sync_reach_cases [OF assms(1)] by blast
  then show ?thesis by (rule acl_fiber_mutex_unlock_gives [OF _ assms(2)])
qed

theorem mutex_unlock_hands_over_witness:
  "\<exists>s s'. sync_reach {3} {4} s \<and> first_fiber s 3 = Some 11 \<and> acl_fiber_mutex_unlock s 3 = Inr s' \<and>
     mx_owner s' 3 = Some 11 \<and> rg_pred (fb_heap s') (fb_ready s') = Some 11"
proof -
  obtain s where s: "sync_reach {3} {4} s" "3 \<in> sy_hold s 10" "first_fiber s 3 = Some 11"
    using sync_demo_run [OF sync_demo_contended] by blast
  then show ?thesis using mutex_unlock_hands_over [OF s(1,2)] by metis
qed

section \<open>Scheduling\<close>

text \<open>A thread in which the fiber 10 runs and 11 and 12 are ready; its table has the three.\<close>

definition fiber_demo :: fiber_tls where
  "fiber_demo =
     \<lparr>fb_heap =
        \<lparr>rg_succ = (\<lambda>_. None)(1 := Some 11, 11 := Some 12, 12 := Some 1, 2 := Some 2, 10 := Some 10),
         rg_pred = (\<lambda>_. None)(1 := Some 12, 12 := Some 11, 11 := Some 1, 2 := Some 2, 10 := Some 10),
         rg_parent = (\<lambda>_. None)(1 := Some 1, 11 := Some 1, 12 := Some 1, 2 := Some 2, 10 := Some 10),
         rg_len = (\<lambda>_. 0)(1 := 2)\<rparr>,
      fb_ready = 1, fb_dead = 2, fb_fibers = [10, 11, 12], fb_size = 128, fb_exitcode = 0,
      fb_running = Some 10, fb_idgen = 3, fb_count = 3, fb_switched = 1, fb_nlocal = 0,
      fb_status = (\<lambda>_. FIBER_STATUS_READY), fb_id = (\<lambda>_. 0)(10 := 1, 11 := 2, 12 := 3),
      fb_slot = (\<lambda>_. 0)(11 := 1, 12 := 2), fb_errnum = (\<lambda>_. 0), fb_sys = (\<lambda>_. False),
      fb_signum = (\<lambda>_. 0), fb_killed = (\<lambda>_. False), fb_stack = (\<lambda>_. 100), fb_locals = (\<lambda>_. []),
      fb_freed = []\<rparr>"

abbreviation "fiber_demo_R \<equiv> map_of [(1, [11, 12]), (2, []), (10, [])]"

lemma fiber_demo_queues: "fiber_queues fiber_demo fiber_demo_R"
proof -
  have "rings (fb_heap fiber_demo) fiber_demo_R"
    by (rule rings_of) (simp_all add: fiber_demo_def is_ring_def link_def)
  then show ?thesis by (simp add: fiber_queues_def) (simp add: fiber_demo_def)
qed

lemma fiber_demo_table: "fiber_table fiber_demo"
  by (simp add: fiber_table_def fiber_demo_def nth_Cons' less_Suc_eq)

text \<open>
  C4: \<open>acl_fiber_yield\<close> is round robin: the running fiber goes to the end of the ready queue
  and the first ready fiber runs; when none is ready it returns at once.
\<close>

theorem acl_fiber_yield_round_robin:
  assumes q: "fiber_queues t R" and Q: "R (fb_ready t) = Some Q"
    and f: "fb_running t = Some f" "R f = Some []" "f \<noteq> fb_ready t" "f \<noteq> fb_dead t"
      "fb_status t f \<noteq> FIBER_STATUS_EXITING"
  shows "case Q of
      [] \<Rightarrow> acl_fiber_yield t = Inr (None, t)
    | g # Q' \<Rightarrow> \<exists>t'. acl_fiber_yield t = Inr (Some (Ctx g), t') \<and> fb_running t' = Some g \<and>
        fiber_queues t' (R(f := None, fb_ready t \<mapsto> Q' @ [f], g \<mapsto> []))"
proof -
  have n: "acl_ring_size (fb_heap t) (Some (fb_ready t)) = int (length Q)"
    by (rule ring.qsize [OF fiber_queuesD(1) [OF q] Q])
  show ?thesis
  proof (cases Q)
    case Nil
    with n show ?thesis by (simp add: acl_fiber_yield_def)
  next
    case (Cons g Q')
    let ?t = "\<lambda>h. t\<lparr>fb_status := (fb_status t)(f := FIBER_STATUS_READY), fb_heap := h\<rparr>"
    let ?R = "R(f := None, fb_ready t \<mapsto> Q @ [f])"
    obtain h where h: "acl_fiber_ready t f = Inr (?t h)" "fiber_queues (?t h) ?R"
      using acl_fiber_ready_queues [OF q Q f(2-5)] by blast
    have sw: "?R (fb_ready (?t h)) = Some (g # Q' @ [f])" "fb_running (?t h) = Some f"
      "fb_status (?t h) f \<noteq> FIBER_STATUS_EXITING" "fb_ready (?t h) = fb_ready t"
      using Cons f(1) by simp_all
    from acl_fiber_switch_next [OF h(2) sw(1-3), unfolded sw(4)] obtain h' where
      h': "acl_fiber_switch (?t h) =
        Inr (Ctx g, (?t h)\<lparr>fb_heap := h', fb_running := Some g, fb_switched := fb_switched (?t h) + 1\<rparr>)"
      "fiber_queues ((?t h)\<lparr>fb_heap := h', fb_running := Some g, fb_switched := fb_switched (?t h) + 1\<rparr>)
        (?R(fb_ready t \<mapsto> Q' @ [f], g \<mapsto> []))"
      by blast
    have "acl_fiber_yield t = Inr (Some (Ctx g),
        (?t h)\<lparr>fb_heap := h', fb_running := Some g, fb_switched := fb_switched (?t h) + 1\<rparr>)"
      using n Cons f(1) h(1) h'(1) by (simp add: acl_fiber_yield_def)
    with h'(2) Cons show ?thesis by auto
  qed
qed

theorem acl_fiber_yield_round_robin_witness:
  "\<exists>t'. acl_fiber_yield fiber_demo = Inr (Some (Ctx 11), t') \<and> fb_running t' = Some 11 \<and>
     fiber_queues t' (fiber_demo_R(10 := None, 1 \<mapsto> [12, 10], 11 \<mapsto> []))"
  using acl_fiber_yield_round_robin [OF fiber_demo_queues, of "[11, 12]" 10]
  by (simp add: fiber_demo_def)

text \<open>
  a killed fiber runs at once, wherever it was queued: \<open>acl_fiber_kill\<close> takes it out of
  the queue of the lock, semaphore or ready ring \<open>q\<close> it waits in, marks it, and switches to
  it; the killer is the next fiber that becomes ready.
\<close>

theorem acl_fiber_kill_runs_at_once:
  assumes q: "fiber_queues t R" and run: "fb_running t = Some c"
    and c: "R c = Some []" "c \<noteq> fb_ready t" "c \<noteq> fb_dead t" "fb_status t c \<noteq> FIBER_STATUS_EXITING"
    and f: "R w = Some (xs @ f # ys)" "f \<noteq> c"
  shows "\<exists>t'. acl_fiber_kill t (Some f) = Inr (Some (Ctx f), t') \<and> fb_running t' = Some f \<and>
    acl_fiber_killed t' (Some f) \<and> acl_fiber_errno t' (Some f) = ECANCELED \<and>
    rg_succ (fb_heap t') (fb_ready t') = Some c"
proof -
  obtain Q where Q: "R (fb_ready t) = Some Q" using q by (auto simp: fiber_queues_def)
  have Rf: "R f = None" using rings_member_no_head(1) [OF fiber_queuesD(1) [OF q] f(1)] by auto
  obtain h t' Q1 where t': "acl_fiber_signal t (Some f) SIGKILL = Inr (Some (Ctx f), t')"
    "t' = t\<lparr>fb_errnum := (fb_errnum t)(f := ECANCELED), fb_killed := (fb_killed t)(f := True),
       fb_signum := (fb_signum t)(f := SIGKILL),
       fb_status := (fb_status t)(c := FIBER_STATUS_READY, f := FIBER_STATUS_READY),
       fb_heap := h, fb_running := Some f, fb_switched := fb_switched t + 1\<rparr>"
    "fiber_queues t' (R(w \<mapsto> xs @ ys, c := None, fb_ready t \<mapsto> c # Q1, f \<mapsto> []))"
    using acl_fiber_signal_queues [OF q run Q c f, of SIGKILL] by auto
  have "f \<noteq> fb_ready t" using Rf Q by auto
  then have "is_ring (fb_heap t') (fb_ready t) (c # Q1)" by (intro ringsD [OF fiber_queuesD(1) [OF t'(3)]]) simp
  then have "rg_succ (fb_heap t') (fb_ready t) = Some c" using ring_succ by fastforce
  with t'(1,2) show ?thesis
    by (simp add: acl_fiber_kill_def acl_fiber_killed_def acl_fiber_errno_def)
qed

theorem acl_fiber_kill_runs_at_once_witness:
  "\<exists>t'. acl_fiber_kill fiber_demo (Some 12) = Inr (Some (Ctx 12), t') \<and> fb_running t' = Some 12 \<and>
     acl_fiber_killed t' (Some 12) \<and> rg_succ (fb_heap t') (fb_ready t') = Some 10"
  using acl_fiber_kill_runs_at_once [OF fiber_demo_queues, of 10 1 "[11]" 12 "[]"]
  by (auto simp: fiber_demo_def)

text \<open>
  a fiber that ends leaves the table of fibers compact, with every remaining fiber at
  its slot, is kept in the dead ring for reuse, and the next ready fiber runs. The dead ring
  never holds more than \<open>MAX_CACHE + 1\<close> fibers after an exit: the oldest ones are freed.
\<close>

theorem fiber_exit_retires:
  assumes q: "fiber_queues t R" and Q: "R (fb_ready t) = Some (g # Q)" and D: "R (fb_dead t) = Some D"
    and f: "fb_running t = Some f" "R f = Some []" "f \<noteq> fb_ready t" "f \<noteq> fb_dead t"
    and tab: "fiber_table t" "fb_slot t f < length (fb_fibers t)" "fb_fibers t ! fb_slot t f = f"
  shows "\<exists>t' R'. fiber_exit t code = Inr (Ctx g, t') \<and> fiber_queues t' R' \<and> fb_running t' = Some g \<and>
    R' (fb_dead t') = Some (drop (length D - 1000) D @ [f]) \<and> acl_fiber_ndead t' \<le> MAX_CACHE + 1 \<and>
    fiber_table t' \<and> set (fb_fibers t') = set (fb_fibers t) - {f} \<and> fb_exitcode t' = code"
proof -
  let ?t1 = "t\<lparr>fb_exitcode := code, fb_status := (fb_status t)(f := FIBER_STATUS_EXITING)\<rparr>"
  obtain h where h: "acl_ring_pop_head (fb_heap t) (Some (fb_ready t)) = Inr (Some g, h)"
    "rings h (R(fb_ready t \<mapsto> Q, g \<mapsto> []))"
    using ring.take_head [OF fiber_queuesD(1) [OF q] Q] by blast
  have Rg: "R g = None" using rings_member_no_head(1) [OF fiber_queuesD(1) [OF q] Q] by simp
  have gn: "g \<noteq> fb_ready t" "g \<noteq> fb_dead t" "g \<noteq> f" using Rg q f(2) by (auto simp: fiber_queues_def)
  let ?t2 = "?t1\<lparr>fb_heap := h, fb_running := Some g, fb_switched := fb_switched t + 1\<rparr>"
  let ?R = "R(fb_ready t \<mapsto> Q, g \<mapsto> [])"
  have "f \<notin> set Q"
    using rings_member_no_head(1) [OF fiber_queuesD(1) [OF q] Q, of f] f(2) by auto
  then have "fiber_queues ?t2 ?R"
    using h(2) q Q gn by (auto simp: fiber_queues_def)
  moreover have "?R (fb_dead ?t2) = Some D" "?R f = Some []" using D f q gn by (auto simp: fiber_queues_def)
  moreover have "fiber_table ?t2" using tab(1) by (simp add: fiber_table_def)
  ultimately have "\<exists>t' R'. fiber_swap ?t2 (Ctx f) (Ctx g) = Inr (Ctx g, t') \<and> fiber_queues t' R' \<and>
    R' (fb_dead t) = Some (drop (length D - 1000) D @ [f]) \<and> fiber_table t' \<and>
    set (fb_fibers t') = set (fb_fibers t) - {f} \<and> fb_running t' = Some g \<and>
    fb_exitcode t' = code \<and> fb_dead t' = fb_dead t"
    using fiber_swap_exiting [of ?t2 ?R D f "Ctx g"] f tab by auto
  then obtain t' R' where t': "fiber_swap ?t2 (Ctx f) (Ctx g) = Inr (Ctx g, t')" "fiber_queues t' R'"
    "R' (fb_dead t) = Some (drop (length D - 1000) D @ [f])" "fiber_table t'"
    "set (fb_fibers t') = set (fb_fibers t) - {f}" "fb_running t' = Some g"
    "fb_exitcode t' = code" "fb_dead t' = fb_dead t"
    by blast
  have "acl_fiber_ndead t' = int (length (drop (length D - 1000) D @ [f]))"
    unfolding acl_fiber_ndead_def by (rule ring.qsize [OF fiber_queuesD(1) [OF t'(2)]]) (simp only: t'(3,8))
  moreover have "fiber_exit t code = Inr (Ctx g, t')"
    using f(1) h(1) t'(1) by (simp add: fiber_exit_def acl_fiber_switch_def Let_def)
  ultimately show ?thesis using t' by (intro exI [of _ t'] exI [of _ R']) (simp add: MAX_CACHE_def)
qed

theorem fiber_exit_retires_witness:
  "\<exists>t'. fiber_exit fiber_demo 5 = Inr (Ctx 11, t') \<and> fiber_table t' \<and> set (fb_fibers t') = {11, 12} \<and>
     fb_exitcode t' = 5 \<and> acl_fiber_ndead t' \<le> MAX_CACHE + 1"
proof -
  have "set (fb_fibers fiber_demo) - {10} = {11, 12}" by (auto simp: fiber_demo_def)
  then show ?thesis
    using fiber_exit_retires [OF fiber_demo_queues, of 11 "[12]" "[]" 10 5] fiber_demo_table
    by (auto simp: fiber_demo_def)
qed

section \<open>The reader-writer lock\<close>

text \<open>
  Calls on a reader-writer lock on which no fiber waits: the fiber \<open>g\<close> takes it for reading or
  for writing, with the blocking call (\<open>block\<close>) or the one that tries, or releases it.
  \<open>rwlock_calls\<close> runs the operations of the code; in between, any fiber may become the running
  one. What they should do is said by \<open>rw_spec\<close> with the fibers that hold the lock for reading,
  as often as they hold it, and the one that holds it for writing.
\<close>

datatype rw_call = RLock bool | WLock bool | RUnlock | WUnlock

fun rwlock_call ::
  "nat \<Rightarrow> addr \<Rightarrow> addr \<Rightarrow> addr \<Rightarrow> rw_call \<Rightarrow> 'a fiber_sync_scheme \<Rightarrow> (outcome \<times> 'a fiber_sync_scheme) cres" where
  "rwlock_call fuel rw ww g (RLock block) t = rwlock_rlock (t\<lparr>fb_running := Some g\<rparr>) rw ww block"
| "rwlock_call fuel rw ww g (WLock block) t = rwlock_wlock (t\<lparr>fb_running := Some g\<rparr>) rw ww block"
| "rwlock_call fuel rw ww g RUnlock t =
     cbind (acl_fiber_rwlock_runlock (t\<lparr>fb_running := Some g\<rparr>) rw ww) (\<lambda>t1. Inr (Returned 0, t1))"
| "rwlock_call fuel rw ww g WUnlock t =
     cbind (acl_fiber_rwlock_wunlock fuel (t\<lparr>fb_running := Some g\<rparr>) rw ww) (\<lambda>t1. Inr (Returned 0, t1))"

fun rwlock_calls ::
  "nat \<Rightarrow> addr \<Rightarrow> addr \<Rightarrow> (addr \<times> rw_call) list \<Rightarrow> 'a fiber_sync_scheme \<Rightarrow> (outcome list \<times> 'a fiber_sync_scheme) cres"
where
  "rwlock_calls fuel rw ww [] t = Inr ([], t)"
| "rwlock_calls fuel rw ww ((g, c) # cs) t =
     cbind (rwlock_call fuel rw ww g c t) (\<lambda>(r, t1).
     cbind (rwlock_calls fuel rw ww cs t1) (\<lambda>(rs, t2). Inr (r # rs, t2)))"

type_synonym rw_abs = "addr list \<times> addr option"

fun rw_spec :: "addr \<Rightarrow> rw_call \<Rightarrow> rw_abs \<Rightarrow> outcome \<times> rw_abs" where
  "rw_spec g (RLock block) (readers, writer) =
     (if writer = None then (Returned 1, (g # readers, None)) else (Returned 0, (readers, writer)))"
| "rw_spec g (WLock block) (readers, writer) =
     (if writer = None \<and> readers = [] then (Returned 1, ([], Some g)) else (Returned 0, (readers, writer)))"
| "rw_spec g RUnlock (readers, writer) = (Returned 0, (remove1 g readers, writer))"
| "rw_spec g WUnlock (readers, writer) = (Returned 0, (readers, None))"

text \<open>
  The calls a fiber may make: it releases only what it holds, and makes the blocking call only
  when the lock is free for it.
\<close>

fun rw_may :: "addr \<Rightarrow> rw_call \<Rightarrow> rw_abs \<Rightarrow> bool" where
  "rw_may g (RLock block) (readers, writer) \<longleftrightarrow> (block \<longrightarrow> writer = None)"
| "rw_may g (WLock block) (readers, writer) \<longleftrightarrow> (block \<longrightarrow> writer = None \<and> readers = [])"
| "rw_may g RUnlock (readers, writer) \<longleftrightarrow> g \<in> set readers"
| "rw_may g WUnlock (readers, writer) \<longleftrightarrow> writer = Some g"

fun rw_spec_calls :: "(addr \<times> rw_call) list \<Rightarrow> rw_abs \<Rightarrow> (outcome list \<times> rw_abs) option" where
  "rw_spec_calls [] a = Some ([], a)"
| "rw_spec_calls ((g, c) # cs) a =
     (if rw_may g c a then
        (case rw_spec_calls cs (snd (rw_spec g c a)) of
           None \<Rightarrow> None
         | Some (rs, a') \<Rightarrow> Some (fst (rw_spec g c a) # rs, a'))
      else None)"

text \<open>\<open>rw_rel\<close>: the state of the lock holds those readers and that writer, and no fiber waits.\<close>

definition rw_rel :: "'a fiber_sync_scheme \<Rightarrow> addr \<Rightarrow> addr \<Rightarrow> rw_abs \<Rightarrow> bool" where
  "rw_rel t rw ww a \<longleftrightarrow>
     first_fiber t rw = None \<and> first_fiber t ww = None \<and> rw_readers t rw = int (length (fst a)) \<and>
     rw_writer t rw = snd a \<and> (fst a = [] \<or> snd a = None)"

lemma first_fiber_upd [simp]:
  "first_fiber (t\<lparr>fb_running := c\<rparr>) q = first_fiber t q"
  "first_fiber (t\<lparr>rw_readers := n\<rparr>) q = first_fiber t q"
  "first_fiber (t\<lparr>rw_writer := w\<rparr>) q = first_fiber t q"
  by (simp_all add: first_fiber_def)

lemma rwlock_call_refines:
  assumes rel: "rw_rel t rw ww a" and may: "rw_may g c a"
  shows "\<exists>t'. rwlock_call (Suc n) rw ww g c t = Inr (fst (rw_spec g c a), t') \<and>
    rw_rel t' rw ww (snd (rw_spec g c a)) \<and> fb_heap t' = fb_heap t"
proof (cases a)
  case (Pair readers writer)
  then have r: "first_fiber t rw = None" "first_fiber t ww = None" "rw_readers t rw = int (length readers)"
    "rw_writer t rw = writer" "readers = [] \<or> writer = None"
    using rel by (auto simp: rw_rel_def)
  show ?thesis
  proof (cases c)
    case (RLock block)
    with r may Pair show ?thesis by (cases "writer = None") (auto simp: rwlock_rlock_def rw_rel_def)
  next
    case (WLock block)
    with r may Pair show ?thesis
      by (cases "writer = None \<and> readers = []") (auto simp: rwlock_wlock_def rw_rel_def)
  next
    case RUnlock
    then have "g \<in> set readers" using may Pair by simp
    then have w: "writer = None" and n: "int (length (remove1 g readers)) = int (length readers) - 1"
      using r(5) length_pos_if_in_set [of g readers] by (auto simp: length_remove1 of_nat_diff Suc_le_eq)
    with RUnlock r Pair show ?thesis
      by (auto simp: acl_fiber_rwlock_runlock_def rw_rel_def Let_def)
  next
    case WUnlock
    with r may Pair show ?thesis
      by (auto simp: acl_fiber_rwlock_wunlock_def rw_rel_def Let_def)
  qed
qed

text \<open>
  C5: as long as no fiber has to wait for it, the reader-writer lock does what it should: for
  every sequence of calls by any fibers, in which each releases only what it holds and makes the
  blocking call only when the lock is free for it, every call returns, the unlock of a
  writer after one turn of its loop, and with the result it should have; the lock's count of
  readers and its writer are those of the fibers that hold it, and there is never a writer beside
  a reader. (When fibers wait, the lock fails: see the next property.)
\<close>

theorem rwlock_without_waiters_refines:
  assumes "rw_rel t rw ww a" "rw_spec_calls cs a = Some (rs, a')"
  shows "\<exists>t'. rwlock_calls (Suc n) rw ww cs t = Inr (rs, t') \<and>
    first_fiber t' rw = None \<and> first_fiber t' ww = None \<and> rw_readers t' rw = int (length (fst a')) \<and>
    rw_writer t' rw = snd a' \<and> (fst a' = [] \<or> snd a' = None) \<and> fb_heap t' = fb_heap t"
  using assms
proof (induction cs arbitrary: t a rs)
  case Nil
  then show ?case by (simp add: rw_rel_def)
next
  case (Cons x cs)
  obtain g c where x: "x = (g, c)" by (cases x)
  from Cons.prems(2) x obtain rs' where may: "rw_may g c a"
    and rest: "rw_spec_calls cs (snd (rw_spec g c a)) = Some (rs', a')" "rs = fst (rw_spec g c a) # rs'"
    by (auto split: if_splits option.splits)
  obtain t1 where t1: "rwlock_call (Suc n) rw ww g c t = Inr (fst (rw_spec g c a), t1)"
    "rw_rel t1 rw ww (snd (rw_spec g c a))" "fb_heap t1 = fb_heap t"
    using rwlock_call_refines [OF Cons.prems(1) may] by blast
  from Cons.IH [OF t1(2) rest(1)] t1(1,3) rest(2) show ?case by (auto simp: x)
qed

theorem rwlock_without_waiters_refines_witness:
  "\<exists>t'. rwlock_calls 1 3 4 [(10, RLock True), (11, RLock True), (12, WLock False), (10, RUnlock), (11, RUnlock),
       (12, WLock True), (10, RLock False), (12, WUnlock)] sync_demo =
     Inr ([Returned 1, Returned 1, Returned 0, Returned 0, Returned 0, Returned 1, Returned 0, Returned 0], t') \<and>
     rw_readers t' 3 = 0 \<and> rw_writer t' 3 = None"
proof -
  have "rw_rel sync_demo 3 4 ([], None)" by (simp add: rw_rel_def first_fiber_def sync_demo_def)
  from rwlock_without_waiters_refines [OF this, of "[(10, RLock True), (11, RLock True), (12, WLock False),
      (10, RUnlock), (11, RUnlock), (12, WLock True), (10, RLock False), (12, WUnlock)]" _ _ 0]
  show ?thesis by auto
qed

definition rwlock_stuck :: "'a fiber_sync_scheme \<Rightarrow> addr \<Rightarrow> addr \<Rightarrow> bool" where
  "rwlock_stuck t rw f \<longleftrightarrow>
     rg_succ (fb_heap t) rw = Some f \<and> f \<noteq> rw \<and> rg_parent (fb_heap t) rw = Some rw \<and>
     rg_pred (fb_heap t) (fb_ready t) \<notin> {None, Some rw} \<and> rg_parent (fb_heap t) (fb_ready t) \<noteq> None \<and>
     fb_ready t \<noteq> rw \<and> f \<noteq> fb_ready t \<and> fb_status t f \<noteq> FIBER_STATUS_EXITING"

lemma rwlock_stuck_ready:
  assumes "rwlock_stuck t rw f"
  shows "\<exists>t'. acl_fiber_ready t f = Inr t' \<and> rwlock_stuck t' rw f"
  using assms by (auto simp: rwlock_stuck_def acl_fiber_ready_def acl_ring_prepend_def set_field_defs Let_def)

lemma rwlock_wake_readers_stuck:
  "rwlock_stuck t rw f \<Longrightarrow> rwlock_wake_readers fuel t rw = Inl OutOfFuel"
proof (induction fuel arbitrary: t)
  case (Suc fuel)
  let ?t = "t\<lparr>rw_readers := (rw_readers t)(rw := rw_readers t rw + 1)\<rparr>"
  have d: "acl_ring_detach (fb_heap t) (Some rw) = Inr (fb_heap t)" "first_fiber t rw = Some f"
    using Suc.prems by (auto simp: rwlock_stuck_def acl_ring_detach_def first_fiber_def)
  have "rwlock_stuck ?t rw f" using Suc.prems by (simp add: rwlock_stuck_def)
  from rwlock_stuck_ready [OF this] Suc.IH d show ?case by auto
qed simp

lemma rwlock_stuckI:
  assumes R: "rings (fb_heap t) R" "R rw = Some (f # fs)" "R (fb_ready t) = Some Q"
    and ne: "rw \<noteq> fb_ready t" and st: "fb_status t f \<noteq> FIBER_STATUS_EXITING"
  shows "rwlock_stuck t rw f"
proof -
  note rw = ringsD [OF R(1,2)] and rd = ringsD [OF R(1,3)]
  have dis: "set (rw # f # fs) \<inter> set (fb_ready t # Q) = {}" by (rule rings_disjoint [OF R(1-3) ne])
  have "last (fb_ready t # Q) \<in> set (fb_ready t # Q)" by (rule last_in_set) simp
  with dis have "last (fb_ready t # Q) \<noteq> rw" by auto
  moreover have "f \<noteq> rw" using is_ringD(1) [OF rw] by simp
  ultimately show ?thesis
    using rw rd dis ring_succ [OF rw] ring_pred [OF rd] ne st
    by (auto simp: rwlock_stuck_def is_ring_def list_all_iff)
qed

text \<open>
  C6: \<open>acl_fiber_rwlock_wunlock\<close> never returns when a reader waits. Its loop detaches the
  head of the waiting ring, which does nothing, instead of the reader that it wakes, so it
  wakes the first reader again and again: no number of turns is enough.
\<close>

theorem rwlock_wunlock_never_returns:
  assumes "rings (fb_heap t) R" "R rw = Some (f # fs)" "R (fb_ready t) = Some Q" "rw \<noteq> fb_ready t"
    "fb_status t f \<noteq> FIBER_STATUS_EXITING" "rw_writer t rw = Some w" "rw_readers t rw = 0"
  shows "acl_fiber_rwlock_wunlock fuel t rw ww = Inl OutOfFuel"
proof -
  have "rwlock_stuck (t\<lparr>rw_writer := (rw_writer t)(rw := None)\<rparr>) rw f"
    by (rule rwlock_stuckI [where R = R and fs = fs and Q = Q]) (use assms in simp_all)
  from rwlock_wake_readers_stuck [OF this] assms(6,7) show ?thesis
    by (simp add: acl_fiber_rwlock_wunlock_def)
qed

theorem rwlock_wunlock_never_returns_witness:
  "\<forall>fuel. acl_fiber_rwlock_wunlock fuel
     (sync_demo\<lparr>fb_ready := 2, rw_writer := (\<lambda>_. None)(1 := Some 12)\<rparr>) 1 3 = Inl OutOfFuel"
proof
  fix fuel
  let ?t = "sync_demo\<lparr>fb_ready := 2, rw_writer := (\<lambda>_. None)(1 := Some 12)\<rparr>"
  have r: "rings (fb_heap ?t) (map_of [(1, [10, 11]), (2, []), (3, []), (4, [])])"
    using sync_demo_rings by simp
  show "acl_fiber_rwlock_wunlock fuel ?t 1 3 = Inl OutOfFuel"
    by (rule rwlock_wunlock_never_returns [OF r]) (simp_all, simp_all add: sync_demo_def)
qed

end
