(* ===== verification/Acl_Channel.thy ===== *)
theory Acl_Channel
  imports Acl_FiberSync
begin

text \<open>
  The channels of \<open>lib_fiber/c/src/channel.c\<close>: fibers send and receive elements of \<open>elemsize\<close> bytes
  through a buffer of \<open>bufsize\<close> elements, or hand them over directly when there is no buffer.
  A fiber that has to wait puts its \<open>FIBER_ALT\<close>, which lies on its stack, into the channel's array of
  senders or receivers and switches away; who finds it there does the transfer for it.

  \<open>ch_alt\<close> is the store of the \<open>FIBER_ALT\<close>s; an array \<open>a[]\<close> of them is the address of its first cell, and
  every such array is the \<open>a[2]\<close> of \<open>channel_op\<close>, at the address \<open>fr\<close> of its stack frame, so reading a third
  cell is a fault. \<open>ch_cell\<close> is the memory that the pointers \<open>v\<close> point to: the bytes of one
  variable per address. Functions are split at their switch as in \<open>Acl_FiberSync\<close>. The numbers
  \<open>rand()\<close> returns are arguments. Dividing by zero ends the process (\<open>Fatal\<close>), as a failed assertion does.
\<close>

section \<open>Channels\<close>

datatype altop = CHANEND | CHANSND | CHANRCV | CHANNOP | CHANNOBLK

record alt =
  al_c :: addr
  al_v :: ptr
  al_op :: altop
  al_fiber :: ptr
  al_xalt :: addr

record alt_array =
  aa_a :: "addr list" \<comment> \<open>\<open>a[0 .. n - 1]\<close>; \<open>n\<close> is its length\<close>
  aa_m :: nat

record channel =
  cc_bufsize :: nat
  cc_elemsize :: nat
  cc_buf :: "byte list list"
  cc_nbuf :: nat
  cc_off :: nat
  cc_asend :: alt_array
  cc_arecv :: alt_array

record fiber_chan = fiber_tls +
  ch_chan :: "addr \<Rightarrow> channel"
  ch_alt :: "addr \<Rightarrow> alt"
  ch_cell :: "addr \<Rightarrow> byte list"

definition set_chan :: "'a fiber_chan_scheme \<Rightarrow> addr \<Rightarrow> channel \<Rightarrow> 'a fiber_chan_scheme" where
  "set_chan t c v = t\<lparr>ch_chan := (ch_chan t)(c := v)\<rparr>"

definition set_alt :: "'a fiber_chan_scheme \<Rightarrow> addr \<Rightarrow> alt \<Rightarrow> 'a fiber_chan_scheme" where
  "set_alt t a v = t\<lparr>ch_alt := (ch_alt t)(a := v)\<rparr>"

definition acl_channel_create :: "'a fiber_chan_scheme \<Rightarrow> addr \<Rightarrow> nat \<Rightarrow> nat \<Rightarrow> 'a fiber_chan_scheme" where
  "acl_channel_create t c elemsize bufsize =
     set_chan t c
       \<lparr>cc_bufsize = bufsize, cc_elemsize = elemsize, cc_buf = replicate bufsize (replicate elemsize 0), cc_nbuf = 0,
        cc_off = 0, cc_asend = \<lparr>aa_a = [], aa_m = 0\<rparr>, cc_arecv = \<lparr>aa_a = [], aa_m = 0\<rparr>\<rparr>"

section \<open>The arrays of waiting fibers\<close>

definition array_add :: "alt_array \<Rightarrow> addr \<Rightarrow> alt_array" where
  "array_add a al =
     (let a1 = (if length (aa_a a) = aa_m a then a\<lparr>aa_m := aa_m a + 16\<rparr> else a)
      in a1\<lparr>aa_a := aa_a a1 @ [al]\<rparr>)"

definition array_del :: "alt_array \<Rightarrow> nat \<Rightarrow> alt_array" where
  "array_del a i = a\<lparr>aa_a := butlast ((aa_a a)[i := last (aa_a a)])\<rparr>"

text \<open>\<open>CHANSND + CHANRCV - op\<close>; for \<open>CHANNOBLK\<close> the difference is no operation, and no array belongs to it.\<close>

definition otherop :: "altop \<Rightarrow> altop" where
  "otherop op =
     (case op of CHANEND \<Rightarrow> CHANNOP | CHANSND \<Rightarrow> CHANRCV | CHANRCV \<Rightarrow> CHANSND | CHANNOP \<Rightarrow> CHANEND
      | CHANNOBLK \<Rightarrow> CHANNOBLK)"

definition channel_array :: "channel \<Rightarrow> altop \<Rightarrow> alt_array option" where
  "channel_array c op = (case op of CHANSND \<Rightarrow> Some (cc_asend c) | CHANRCV \<Rightarrow> Some (cc_arecv c) | _ \<Rightarrow> None)"

definition set_array :: "channel \<Rightarrow> altop \<Rightarrow> alt_array \<Rightarrow> channel" where
  "set_array c op ar = (case op of CHANSND \<Rightarrow> c\<lparr>cc_asend := ar\<rparr> | CHANRCV \<Rightarrow> c\<lparr>cc_arecv := ar\<rparr> | _ \<Rightarrow> c)"

definition alt_can_exec :: "'a fiber_chan_scheme \<Rightarrow> addr \<Rightarrow> bool" where
  "alt_can_exec t a =
     (let op = al_op (ch_alt t a); c = ch_chan t (al_c (ch_alt t a))
      in if op = CHANNOP then False
         else if cc_bufsize c = 0 then
           (case channel_array c (otherop op) of None \<Rightarrow> False | Some ar \<Rightarrow> aa_a ar \<noteq> [])
         else
           (case op of
              CHANSND \<Rightarrow> cc_nbuf c < cc_bufsize c
            | CHANRCV \<Rightarrow> cc_nbuf c > 0
            | _ \<Rightarrow> False))"

definition alt_queue :: "'a fiber_chan_scheme \<Rightarrow> addr \<Rightarrow> ('a fiber_chan_scheme) cres" where
  "alt_queue t a =
     (let op = al_op (ch_alt t a); c = al_c (ch_alt t a)
      in case channel_array (ch_chan t c) op of
           None \<Rightarrow> Inl NullDeref
         | Some ar \<Rightarrow> Inr (set_chan t c (set_array (ch_chan t c) op (array_add ar a))))"

fun find_alt :: "addr list \<Rightarrow> addr \<Rightarrow> nat option" where
  "find_alt [] a = None"
| "find_alt (x # xs) a = (if x = a then Some 0 else map_option Suc (find_alt xs a))"

definition alt_dequeue :: "'a fiber_chan_scheme \<Rightarrow> addr \<Rightarrow> ('a fiber_chan_scheme) cres" where
  "alt_dequeue t a =
     (let op = al_op (ch_alt t a); c = al_c (ch_alt t a)
      in case channel_array (ch_chan t c) op of
           None \<Rightarrow> Inl Fatal
         | Some ar \<Rightarrow>
             (case find_alt (aa_a ar) a of
                None \<Rightarrow> Inl Fatal
              | Some i \<Rightarrow> Inr (set_chan t c (set_array (ch_chan t c) op (array_del ar i)))))"

text \<open>The first argument of a loop over an array is the number of cells that are left of it.\<close>

fun alt_all_dequeue :: "nat \<Rightarrow> 'a fiber_chan_scheme \<Rightarrow> addr \<Rightarrow> ('a fiber_chan_scheme) cres" where
  "alt_all_dequeue 0 t a = Inl OobRead"
| "alt_all_dequeue (Suc k) t a =
     (if al_op (ch_alt t a) = CHANEND \<or> al_op (ch_alt t a) = CHANNOBLK then Inr t
      else cbind (if al_op (ch_alt t a) \<noteq> CHANNOP then alt_dequeue t a else Inr t) (\<lambda>t1.
           alt_all_dequeue k t1 (Suc a)))"

section \<open>Moving an element\<close>

text \<open>\<open>amove n dst src\<close> for a destination that is not NULL: its new contents. A NULL source clears it.\<close>

definition amove :: "nat \<Rightarrow> byte list \<Rightarrow> byte list option \<Rightarrow> byte list cres" where
  "amove n dst src =
     (if length dst < n then Inl OobWrite
      else case src of
             None \<Rightarrow> Inr (replicate n 0 @ drop n dst)
           | Some bs \<Rightarrow> if length bs < n then Inl OobRead else Inr (take n bs @ drop n dst))"

definition move_to_cell :: "'a fiber_chan_scheme \<Rightarrow> nat \<Rightarrow> ptr \<Rightarrow> byte list option \<Rightarrow> ('a fiber_chan_scheme) cres" where
  "move_to_cell t n v src =
     (case v of
        None \<Rightarrow> Inr t
      | Some x \<Rightarrow> cbind (amove n (ch_cell t x) src) (\<lambda>bs. Inr (t\<lparr>ch_cell := (ch_cell t)(x := bs)\<rparr>)))"

definition source_of :: "'a fiber_chan_scheme \<Rightarrow> addr \<Rightarrow> byte list option" where
  "source_of t s = map_option (ch_cell t) (al_v (ch_alt t s))"

text \<open>The counters are \<open>unsigned int\<close>s.\<close>

definition buf_get :: "'a fiber_chan_scheme \<Rightarrow> addr \<Rightarrow> addr \<Rightarrow> ('a fiber_chan_scheme) cres" where
  "buf_get t c r =
     (let ch = ch_chan t c; v = al_v (ch_alt t r)
      in if v \<noteq> None \<and> cc_off ch \<ge> length (cc_buf ch) then Inl OobRead
         else cbind (move_to_cell t (cc_elemsize ch) v (Some (cc_buf ch ! cc_off ch))) (\<lambda>t1.
              let off1 = (cc_off ch + 1) mod 2 ^ 32
              in Inr (set_chan t1 c
                   (ch\<lparr>cc_nbuf := (cc_nbuf ch + 2 ^ 32 - 1) mod 2 ^ 32,
                       cc_off := (if off1 = cc_bufsize ch then 0 else off1)\<rparr>))))"

definition buf_put :: "'a fiber_chan_scheme \<Rightarrow> addr \<Rightarrow> addr \<Rightarrow> ('a fiber_chan_scheme) cres" where
  "buf_put t c s =
     (let ch = ch_chan t c
      in if cc_bufsize ch = 0 then Inl Fatal
         else
           (let i = ((cc_off ch + cc_nbuf ch) mod 2 ^ 32) mod cc_bufsize ch
            in if i \<ge> length (cc_buf ch) then Inl OobWrite
               else cbind (amove (cc_elemsize ch) (cc_buf ch ! i) (source_of t s)) (\<lambda>bs.
                    Inr (set_chan t c (ch\<lparr>cc_buf := (cc_buf ch)[i := bs], cc_nbuf := (cc_nbuf ch + 1) mod 2 ^ 32\<rparr>)))))"

definition alt_copy :: "'a fiber_chan_scheme \<Rightarrow> ptr \<Rightarrow> ptr \<Rightarrow> ('a fiber_chan_scheme) cres" where
  "alt_copy t s0 r0 =
     (if s0 = None \<and> r0 = None then Inr t
      else case s0 of
        None \<Rightarrow> Inl Fatal
      | Some a \<Rightarrow>
          (let c = al_c (ch_alt t a);
               (s, r) = (if al_op (ch_alt t a) = CHANRCV then (r0, s0) else (s0, r0))
           in if (case s of None \<Rightarrow> False | Some x \<Rightarrow> al_op (ch_alt t x) \<noteq> CHANSND) \<or>
                 (case r of None \<Rightarrow> False | Some y \<Rightarrow> al_op (ch_alt t y) \<noteq> CHANRCV)
              then Inl Fatal
              else case (s, r) of
                (Some x, Some y) \<Rightarrow>
                  if cc_nbuf (ch_chan t c) = 0
                  then move_to_cell t (cc_elemsize (ch_chan t c)) (al_v (ch_alt t y)) (source_of t x)
                  else cbind (buf_get t c y) (\<lambda>t1. buf_put t1 c x)
              | (Some x, None) \<Rightarrow> buf_put t c x
              | (None, Some y) \<Rightarrow> buf_get t c y
              | (None, None) \<Rightarrow> Inr t))"

definition alt_exec :: "'a fiber_chan_scheme \<Rightarrow> addr \<Rightarrow> nat \<Rightarrow> ('a fiber_chan_scheme) cres" where
  "alt_exec t a rnd =
     (let c = al_c (ch_alt t a)
      in case channel_array (ch_chan t c) (otherop (al_op (ch_alt t a))) of
           None \<Rightarrow> alt_copy t (Some a) None
         | Some ar \<Rightarrow>
             if aa_a ar \<noteq> [] then
               (let other = aa_a ar ! (rnd mod length (aa_a ar))
                in cbind (alt_copy t (Some a) (Some other)) (\<lambda>t1.
                   cbind (alt_all_dequeue 2 t1 (al_xalt (ch_alt t1 other))) (\<lambda>t2.
                   let x = al_xalt (ch_alt t2 other);
                       t3 = set_alt t2 x ((ch_alt t2 x)\<lparr>al_xalt := other\<rparr>)
                   in cbind (deref (al_fiber (ch_alt t3 other))) (acl_fiber_ready t3))))
             else alt_copy t (Some a) None)"

section \<open>Sending and receiving\<close>

fun alt_len :: "nat \<Rightarrow> 'a fiber_chan_scheme \<Rightarrow> addr \<Rightarrow> nat cres" where
  "alt_len 0 t a = Inl OobRead"
| "alt_len (Suc k) t a =
     (if al_op (ch_alt t a) = CHANEND \<or> al_op (ch_alt t a) = CHANNOBLK then Inr 0
      else cbind (alt_len k t (Suc a)) (\<lambda>n. Inr (Suc n)))"

fun alt_init :: "nat \<Rightarrow> 'a fiber_chan_scheme \<Rightarrow> ptr \<Rightarrow> addr \<Rightarrow> addr \<Rightarrow> 'a fiber_chan_scheme" where
  "alt_init 0 t cur a i = t"
| "alt_init (Suc n) t cur a i = alt_init n (set_alt t i ((ch_alt t i)\<lparr>al_fiber := cur, al_xalt := a\<rparr>)) cur a (Suc i)"

fun alt_queue_all :: "nat \<Rightarrow> 'a fiber_chan_scheme \<Rightarrow> addr \<Rightarrow> ('a fiber_chan_scheme) cres" where
  "alt_queue_all 0 t i = Inr t"
| "alt_queue_all (Suc n) t i =
     cbind (if al_op (ch_alt t i) \<noteq> CHANNOP then alt_queue t i else Inr t) (\<lambda>t1. alt_queue_all n t1 (Suc i))"

definition channel_alt :: "'a fiber_chan_scheme \<Rightarrow> addr \<Rightarrow> nat \<Rightarrow> nat \<Rightarrow> (outcome \<times> 'a fiber_chan_scheme) cres" where
  "channel_alt t a rnd1 rnd2 =
     cbind (alt_len 2 t a) (\<lambda>n.
       let canblock = (al_op (ch_alt t (a + n)) = CHANEND);
           t1 = alt_init n t (fb_running t) a a;
           can = filter (\<lambda>i. alt_can_exec t1 (a + i)) [0..<n]
       in if can \<noteq> [] then
            (let i = can ! (rnd1 mod length can)
             in cbind (alt_exec t1 (a + i) rnd2) (\<lambda>t2. Inr (Returned (int i), t2)))
          else if \<not> canblock then Inr (Returned (-1), t1)
          else
            cbind (alt_queue_all n t1 a) (\<lambda>t2.
            cbind (acl_fiber_switch t2) (\<lambda>(ctx, t3). Inr (Switched ctx, t3))))"

definition channel_alt_resume :: "'a fiber_chan_scheme \<Rightarrow> addr \<Rightarrow> addr \<Rightarrow> int" where
  "channel_alt_resume t a cur =
     (if acl_fiber_killed t (Some cur) then -1 else int (al_xalt (ch_alt t a)) - int a)"

definition channel_op ::
  "'a fiber_chan_scheme \<Rightarrow> addr \<Rightarrow> addr \<Rightarrow> altop \<Rightarrow> ptr \<Rightarrow> bool \<Rightarrow> nat \<Rightarrow> nat \<Rightarrow> (outcome \<times> 'a fiber_chan_scheme) cres" where
  "channel_op t fr c op p canblock rnd1 rnd2 =
     (let t1 = set_alt t fr ((ch_alt t fr)\<lparr>al_c := c, al_op := op, al_v := p\<rparr>);
          t2 = set_alt t1 (Suc fr) ((ch_alt t1 (Suc fr))\<lparr>al_op := if canblock then CHANEND else CHANNOBLK\<rparr>)
      in cbind (channel_alt t2 fr rnd1 rnd2) (\<lambda>(out, t3).
         Inr (case out of Returned i \<Rightarrow> Returned (if i < 0 then -1 else 1) | Switched ctx \<Rightarrow> Switched ctx, t3)))"

definition channel_op_resume :: "'a fiber_chan_scheme \<Rightarrow> addr \<Rightarrow> addr \<Rightarrow> int" where
  "channel_op_resume t fr cur = (if channel_alt_resume t fr cur < 0 then -1 else 1)"

definition acl_channel_send ::
  "'a fiber_chan_scheme \<Rightarrow> addr \<Rightarrow> addr \<Rightarrow> ptr \<Rightarrow> nat \<Rightarrow> nat \<Rightarrow> (outcome \<times> 'a fiber_chan_scheme) cres" where
  "acl_channel_send t fr c v = channel_op t fr c CHANSND v True"

definition acl_channel_send_nb ::
  "'a fiber_chan_scheme \<Rightarrow> addr \<Rightarrow> addr \<Rightarrow> ptr \<Rightarrow> nat \<Rightarrow> nat \<Rightarrow> (outcome \<times> 'a fiber_chan_scheme) cres" where
  "acl_channel_send_nb t fr c v = channel_op t fr c CHANSND v False"

definition acl_channel_recv ::
  "'a fiber_chan_scheme \<Rightarrow> addr \<Rightarrow> addr \<Rightarrow> ptr \<Rightarrow> nat \<Rightarrow> nat \<Rightarrow> (outcome \<times> 'a fiber_chan_scheme) cres" where
  "acl_channel_recv t fr c v = channel_op t fr c CHANRCV v True"

definition acl_channel_recv_nb ::
  "'a fiber_chan_scheme \<Rightarrow> addr \<Rightarrow> addr \<Rightarrow> ptr \<Rightarrow> nat \<Rightarrow> nat \<Rightarrow> (outcome \<times> 'a fiber_chan_scheme) cres" where
  "acl_channel_recv_nb t fr c v = channel_op t fr c CHANRCV v False"

text \<open>
  Pointers and \<open>unsigned long\<close>s of 64 bits, least significant byte first, go through a local variable at
  the address \<open>loc\<close>; \<open>recvul_result\<close> is what a receiving function returns once the operation has.
  The variable of \<open>acl_channel_recvul_nb\<close> is not initialised.
\<close>

definition ulong_bytes :: "64 word \<Rightarrow> byte list" where
  "ulong_bytes w = map (\<lambda>i. ucast (drop_bit (8 * i) w)) [0..<8]"

fun ulong_of :: "byte list \<Rightarrow> 64 word" where
  "ulong_of [] = 0"
| "ulong_of (b # bs) = ucast b OR push_bit 8 (ulong_of bs)"

definition set_local :: "'a fiber_chan_scheme \<Rightarrow> addr \<Rightarrow> 64 word \<Rightarrow> 'a fiber_chan_scheme" where
  "set_local t loc w = t\<lparr>ch_cell := (ch_cell t)(loc := ulong_bytes w)\<rparr>"

definition acl_channel_sendp ::
  "'a fiber_chan_scheme \<Rightarrow> addr \<Rightarrow> addr \<Rightarrow> addr \<Rightarrow> 64 word \<Rightarrow> nat \<Rightarrow> nat \<Rightarrow> (outcome \<times> 'a fiber_chan_scheme) cres" where
  "acl_channel_sendp t fr loc c v = channel_op (set_local t loc v) fr c CHANSND (Some loc) True"

definition acl_channel_sendp_nb ::
  "'a fiber_chan_scheme \<Rightarrow> addr \<Rightarrow> addr \<Rightarrow> addr \<Rightarrow> 64 word \<Rightarrow> nat \<Rightarrow> nat \<Rightarrow> (outcome \<times> 'a fiber_chan_scheme) cres" where
  "acl_channel_sendp_nb t fr loc c v = channel_op (set_local t loc v) fr c CHANSND (Some loc) False"

definition acl_channel_recvp ::
  "'a fiber_chan_scheme \<Rightarrow> addr \<Rightarrow> addr \<Rightarrow> addr \<Rightarrow> nat \<Rightarrow> nat \<Rightarrow> (outcome \<times> 'a fiber_chan_scheme) cres" where
  "acl_channel_recvp t fr loc c = channel_op (set_local t loc 0) fr c CHANRCV (Some loc) True"

definition acl_channel_recvp_nb ::
  "'a fiber_chan_scheme \<Rightarrow> addr \<Rightarrow> addr \<Rightarrow> addr \<Rightarrow> nat \<Rightarrow> nat \<Rightarrow> (outcome \<times> 'a fiber_chan_scheme) cres" where
  "acl_channel_recvp_nb t fr loc c = channel_op (set_local t loc 0) fr c CHANRCV (Some loc) False"

definition recvp_result :: "'a fiber_chan_scheme \<Rightarrow> addr \<Rightarrow> int \<Rightarrow> 64 word" where
  "recvp_result t loc r = (if r < 0 then 0 else ulong_of (take 8 (ch_cell t loc)))"

definition acl_channel_sendul ::
  "'a fiber_chan_scheme \<Rightarrow> addr \<Rightarrow> addr \<Rightarrow> addr \<Rightarrow> 64 word \<Rightarrow> nat \<Rightarrow> nat \<Rightarrow> (outcome \<times> 'a fiber_chan_scheme) cres" where
  "acl_channel_sendul t fr loc c v = channel_op (set_local t loc v) fr c CHANSND (Some loc) True"

definition acl_channel_sendul_nb ::
  "'a fiber_chan_scheme \<Rightarrow> addr \<Rightarrow> addr \<Rightarrow> addr \<Rightarrow> 64 word \<Rightarrow> nat \<Rightarrow> nat \<Rightarrow> (outcome \<times> 'a fiber_chan_scheme) cres" where
  "acl_channel_sendul_nb t fr loc c v = channel_op (set_local t loc v) fr c CHANSND (Some loc) False"

definition acl_channel_recvul ::
  "'a fiber_chan_scheme \<Rightarrow> addr \<Rightarrow> addr \<Rightarrow> addr \<Rightarrow> nat \<Rightarrow> nat \<Rightarrow> (outcome \<times> 'a fiber_chan_scheme) cres" where
  "acl_channel_recvul t fr loc c = channel_op (set_local t loc (-1)) fr c CHANRCV (Some loc) True"

definition acl_channel_recvul_nb ::
  "'a fiber_chan_scheme \<Rightarrow> 64 word \<Rightarrow> addr \<Rightarrow> addr \<Rightarrow> addr \<Rightarrow> nat \<Rightarrow> nat \<Rightarrow> (outcome \<times> 'a fiber_chan_scheme) cres" where
  "acl_channel_recvul_nb t junk fr loc c = channel_op (set_local t loc junk) fr c CHANRCV (Some loc) False"

definition recvul_result :: "'a fiber_chan_scheme \<Rightarrow> addr \<Rightarrow> int \<Rightarrow> 64 word" where
  "recvul_result t loc r = (if r < 0 then -1 else ulong_of (take 8 (ch_cell t loc)))"

section \<open>The buffer as a queue\<close>

definition chan_ok :: "channel \<Rightarrow> bool" where
  "chan_ok ch \<longleftrightarrow>
     cc_bufsize ch < 2 ^ 31 \<and> length (cc_buf ch) = cc_bufsize ch \<and> cc_nbuf ch \<le> cc_bufsize ch \<and>
     (0 < cc_bufsize ch \<longrightarrow> cc_off ch < cc_bufsize ch) \<and> (\<forall>b\<in>set (cc_buf ch). length b = cc_elemsize ch)"

definition chan_queue :: "channel \<Rightarrow> byte list list" where
  "chan_queue ch = map (\<lambda>i. cc_buf ch ! ((cc_off ch + i) mod cc_bufsize ch)) [0..<cc_nbuf ch]"

text \<open>The element that a pointer stands for.\<close>

definition elem :: "'a fiber_chan_scheme \<Rightarrow> nat \<Rightarrow> ptr \<Rightarrow> byte list" where
  "elem t n v = (case v of None \<Rightarrow> replicate n 0 | Some x \<Rightarrow> take n (ch_cell t x))"

definition elem_ok :: "'a fiber_chan_scheme \<Rightarrow> nat \<Rightarrow> ptr \<Rightarrow> bool" where
  "elem_ok t n v \<longleftrightarrow> (case v of None \<Rightarrow> True | Some x \<Rightarrow> n \<le> length (ch_cell t x))"

lemma elem_length: "elem_ok t n v \<Longrightarrow> length (elem t n v) = n"
  by (auto simp: elem_def elem_ok_def split: option.splits)

lemma amove_elem:
  assumes "elem_ok t n (al_v (ch_alt t s))" "n \<le> length dst"
  shows "amove n dst (source_of t s) = Inr (elem t n (al_v (ch_alt t s)) @ drop n dst)"
  using assms by (auto simp: amove_def source_of_def elem_def elem_ok_def split: option.splits)

lemma queue_length [simp]: "length (chan_queue ch) = cc_nbuf ch"
  by (simp add: chan_queue_def)

lemma queue_index_inj:
  fixes off n :: nat
  assumes "i < n" "j < n" "i \<noteq> j"
  shows "(off + i) mod n \<noteq> (off + j) mod n"
proof -
  have "(off + i) mod n \<noteq> (off + j) mod n" if "i < j" "j < n" for i j
    using that nat_dvd_not_less [of "j - i" n] by (auto simp: mod_eq_dvd_iff_nat [of "off + i" "off + j"] dest: sym)
  then show ?thesis using assms by (metis linorder_neqE_nat)
qed

lemma buf_put_queue:
  assumes "chan_ok (ch_chan t c)" "cc_nbuf (ch_chan t c) < cc_bufsize (ch_chan t c)"
    "elem_ok t (cc_elemsize (ch_chan t c)) (al_v (ch_alt t s))"
  shows "\<exists>b n. buf_put t c s = Inr (set_chan t c ((ch_chan t c)\<lparr>cc_buf := b, cc_nbuf := n\<rparr>)) \<and>
    chan_ok ((ch_chan t c)\<lparr>cc_buf := b, cc_nbuf := n\<rparr>) \<and>
    chan_queue ((ch_chan t c)\<lparr>cc_buf := b, cc_nbuf := n\<rparr>) =
      chan_queue (ch_chan t c) @ [elem t (cc_elemsize (ch_chan t c)) (al_v (ch_alt t s))]"
proof -
  define ch where "ch = ch_chan t c"
  define e where "e = elem t (cc_elemsize ch) (al_v (ch_alt t s))"
  define i where "i = (cc_off ch + cc_nbuf ch) mod cc_bufsize ch"
  note ok = assms [folded ch_def]
  have le: "length e = cc_elemsize ch" using ok(3) by (simp add: e_def elem_length)
  have i: "i < cc_bufsize ch" "((cc_off ch + cc_nbuf ch) mod 2 ^ 32) mod cc_bufsize ch = i" "i < length (cc_buf ch)"
    "(cc_nbuf ch + 1) mod 2 ^ 32 = cc_nbuf ch + 1"
    using ok(1,2) by (auto simp: chan_ok_def i_def)
  have "length (cc_buf ch ! i) = cc_elemsize ch" using ok(1) i(3) by (auto simp: chan_ok_def)
  then have mv: "amove (cc_elemsize ch) (cc_buf ch ! i) (source_of t s) = Inr e"
    using amove_elem [OF ok(3), of "cc_buf ch ! i"] by (simp add: e_def)
  have put: "buf_put t c s = Inr (set_chan t c (ch\<lparr>cc_buf := (cc_buf ch)[i := e], cc_nbuf := cc_nbuf ch + 1\<rparr>))"
    unfolding buf_put_def ch_def [symmetric] Let_def i(2,4) using ok(2) i(3) mv by simp
  have "chan_ok (ch\<lparr>cc_buf := (cc_buf ch)[i := e], cc_nbuf := cc_nbuf ch + 1\<rparr>)"
    using ok(1,2) le by (auto simp: chan_ok_def dest!: set_update_subset_insert [THEN subsetD])
  moreover have "chan_queue (ch\<lparr>cc_buf := (cc_buf ch)[i := e], cc_nbuf := cc_nbuf ch + 1\<rparr>) = chan_queue ch @ [e]"
  proof -
    have "(cc_off ch + j) mod cc_bufsize ch \<noteq> i" if "j < cc_nbuf ch" for j
      unfolding i_def using that ok(2) by (intro queue_index_inj) auto
    then have "(cc_buf ch)[i := e] ! ((cc_off ch + j) mod cc_bufsize ch) = cc_buf ch ! ((cc_off ch + j) mod cc_bufsize ch)"
      if "j < cc_nbuf ch" for j using that by (metis nth_list_update_neq)
    then show ?thesis using i(1,3) unfolding chan_queue_def by (simp add: i_def)
  qed
  ultimately show ?thesis using put unfolding ch_def e_def by blast
qed

lemma buf_get_queue:
  assumes "chan_ok (ch_chan t c)" "0 < cc_nbuf (ch_chan t c)" "al_v (ch_alt t r) = Some x"
    "elem_ok t (cc_elemsize (ch_chan t c)) (Some x)"
  shows "\<exists>off n. buf_get t c r =
      Inr (set_chan (t\<lparr>ch_cell := (ch_cell t)(x := hd (chan_queue (ch_chan t c)) @ drop (cc_elemsize (ch_chan t c)) (ch_cell t x))\<rparr>) c
        ((ch_chan t c)\<lparr>cc_nbuf := n, cc_off := off\<rparr>)) \<and>
    chan_ok ((ch_chan t c)\<lparr>cc_nbuf := n, cc_off := off\<rparr>) \<and> n = cc_nbuf (ch_chan t c) - 1 \<and>
    chan_queue (ch_chan t c) = hd (chan_queue (ch_chan t c)) # chan_queue ((ch_chan t c)\<lparr>cc_nbuf := n, cc_off := off\<rparr>) \<and>
    length (hd (chan_queue (ch_chan t c))) = cc_elemsize (ch_chan t c)"
proof -
  define ch where "ch = ch_chan t c"
  note ok = assms [folded ch_def]
  define off where "off = (if cc_off ch + 1 = cc_bufsize ch then 0 else cc_off ch + 1)"
  have o: "cc_off ch < length (cc_buf ch)" "(cc_off ch + 1) mod 2 ^ 32 = cc_off ch + 1"
    "(cc_nbuf ch + 2 ^ 32 - 1) mod 2 ^ 32 = cc_nbuf ch - 1" "cc_off ch < cc_bufsize ch"
  proof -
    have b: "cc_nbuf ch < 2 ^ 32" "cc_off ch < cc_bufsize ch" "cc_bufsize ch < 2 ^ 31" using ok(1,2) by (auto simp: chan_ok_def)
    then show "cc_off ch < length (cc_buf ch)" "(cc_off ch + 1) mod 2 ^ 32 = cc_off ch + 1" "cc_off ch < cc_bufsize ch"
      using ok(1) by (simp_all add: chan_ok_def)
    have "cc_nbuf ch + 2 ^ 32 - 1 = (cc_nbuf ch - 1) + 2 ^ 32" using ok(2) by simp
    then show "(cc_nbuf ch + 2 ^ 32 - 1) mod 2 ^ 32 = cc_nbuf ch - 1" using b(1) by (simp only: mod_add_self2 mod_less)
  qed
  have q: "chan_queue ch = cc_buf ch ! cc_off ch # chan_queue (ch\<lparr>cc_nbuf := cc_nbuf ch - 1, cc_off := off\<rparr>)"
  proof -
    have "[0..<cc_nbuf ch] = 0 # map Suc [0..<cc_nbuf ch - 1]"
      using ok(2) by (metis Suc_diff_1 map_Suc_upt upt_conv_Cons)
    moreover have "(cc_off ch + Suc i) mod cc_bufsize ch = (off + i) mod cc_bufsize ch" for i
      by (simp add: off_def) (metis add_Suc mod_add_self1)
    ultimately show ?thesis using o(4) by (simp add: chan_queue_def comp_def)
  qed
  have len: "length (cc_buf ch ! cc_off ch) = cc_elemsize ch" using ok(1) o(1) by (auto simp: chan_ok_def)
  have "buf_get t c r = Inr (set_chan (t\<lparr>ch_cell := (ch_cell t)(x := cc_buf ch ! cc_off ch @ drop (cc_elemsize ch) (ch_cell t x))\<rparr>) c
      (ch\<lparr>cc_nbuf := cc_nbuf ch - 1, cc_off := off\<rparr>))"
    unfolding buf_get_def ch_def [symmetric] Let_def o(2,3) off_def
    using ok(3,4) o(1) len by (simp add: move_to_cell_def amove_def elem_ok_def)
  moreover have "chan_ok (ch\<lparr>cc_nbuf := cc_nbuf ch - 1, cc_off := off\<rparr>)"
    using ok(1,2) o(4) by (auto simp: chan_ok_def off_def)
  ultimately show ?thesis unfolding ch_def [symmetric] using q len
    by (intro exI [of _ off] exI [of _ "cc_nbuf ch - 1"]) (simp add: q)
qed

section \<open>Taking a fiber out of an array\<close>

lemma find_alt_nth: "distinct xs \<Longrightarrow> i < length xs \<Longrightarrow> find_alt xs (xs ! i) = Some i"
proof (induction xs arbitrary: i)
  case (Cons x xs)
  then show ?case by (cases i) auto
qed simp

lemma swap_remove:
  assumes "distinct xs" "i < length xs"
  shows "set (butlast (xs[i := last xs])) = set xs - {xs ! i}" "distinct (butlast (xs[i := last xs]))"
proof -
  obtain ys y where xs: "xs = ys @ [y]" using assms(2) by (cases xs rule: rev_cases) auto
  have "set (butlast (xs[i := last xs])) = set xs - {xs ! i} \<and> distinct (butlast (xs[i := last xs]))"
  proof (cases "i < length ys")
    case True
    have "set (ys[i := y]) = insert y (set ys - {ys ! i})"
      using assms(1) True by (simp add: xs set_update_distinct)
    moreover have "distinct (ys[i := y])" using assms(1) True by (simp add: xs distinct_list_update)
    moreover have "y \<noteq> ys ! i" using assms(1) True by (auto simp: xs)
    ultimately show ?thesis using True by (auto simp: xs list_update_append nth_append butlast_append)
  next
    case False
    then have "i = length ys" using assms(2) xs by simp
    then show ?thesis using assms(1) by (auto simp: xs)
  qed
  then show "set (butlast (xs[i := last xs])) = set xs - {xs ! i}" "distinct (butlast (xs[i := last xs]))" by blast+
qed

text \<open>\<open>waits t c op x f\<close>: the cell \<open>x\<close> is the \<open>a[0]\<close> of fiber \<open>f\<close>, which waits in \<open>channel_op\<close> on channel \<open>c\<close>.\<close>

definition waits :: "'a fiber_chan_scheme \<Rightarrow> addr \<Rightarrow> altop \<Rightarrow> addr \<Rightarrow> addr \<Rightarrow> bool" where
  "waits t c op x f \<longleftrightarrow>
     al_c (ch_alt t x) = c \<and> al_op (ch_alt t x) = op \<and> al_fiber (ch_alt t x) = Some f \<and> al_xalt (ch_alt t x) = x \<and>
     al_op (ch_alt t (Suc x)) = CHANEND"

definition waiting :: "channel \<Rightarrow> altop \<Rightarrow> addr list" where
  "waiting ch op = (case channel_array ch op of None \<Rightarrow> [] | Some ar \<Rightarrow> aa_a ar)"

lemma dequeue_waiting:
  assumes "waits t c op x f" "op = CHANSND \<or> op = CHANRCV" "distinct (waiting (ch_chan t c) op)" "i < length (waiting (ch_chan t c) op)"
    "waiting (ch_chan t c) op ! i = x"
  shows "\<exists>ar. alt_all_dequeue 2 t x = Inr (set_chan t c (set_array (ch_chan t c) op ar)) \<and>
    set (aa_a ar) = set (waiting (ch_chan t c) op) - {x} \<and> distinct (aa_a ar)"
proof -
  obtain ar where ar: "channel_array (ch_chan t c) op = Some ar" "waiting (ch_chan t c) op = aa_a ar"
    using assms(2) by (auto simp: channel_array_def waiting_def)
  have "find_alt (aa_a ar) x = Some i" using find_alt_nth [of "aa_a ar" i] assms(3,4,5) ar(2) by auto
  moreover have w: "al_c (ch_alt t x) = c" "al_op (ch_alt t x) = op" "al_op (ch_alt t (Suc x)) = CHANEND"
    using assms(1) by (simp_all add: waits_def)
  ultimately have "alt_dequeue t x = Inr (set_chan t c (set_array (ch_chan t c) op (array_del ar i)))"
    unfolding alt_dequeue_def Let_def using ar(1) by simp
  moreover have "op \<noteq> CHANEND" "op \<noteq> CHANNOBLK" "op \<noteq> CHANNOP" using assms(2) by auto
  ultimately have "alt_all_dequeue 2 t x = Inr (set_chan t c (set_array (ch_chan t c) op (array_del ar i)))"
    unfolding numeral_2_eq_2 using w by (simp add: set_chan_def)
  moreover have "set (aa_a (array_del ar i)) = set (waiting (ch_chan t c) op) - {x} \<and> distinct (aa_a (array_del ar i))"
    using swap_remove [of "aa_a ar" i] assms(3,4,5) ar(2) by (auto simp: array_del_def)
  ultimately show ?thesis by blast
qed

section \<open>What one transfer does\<close>

text \<open>
  \<open>chan_idle\<close>: nobody waits for what is possible: senders wait only at a full buffer, receivers only at an empty one,
  and not both. \<open>partner\<close> is the waiting fiber's cell that a transfer picks, if any. \<open>took\<close> are the elements
  a transfer takes from senders, read before it; \<open>gave\<close> those it gives to receivers, read after it.
\<close>

definition chan_idle :: "channel \<Rightarrow> bool" where
  "chan_idle ch \<longleftrightarrow>
     (waiting ch CHANSND \<noteq> [] \<longrightarrow> cc_nbuf ch = cc_bufsize ch) \<and> (waiting ch CHANRCV \<noteq> [] \<longrightarrow> cc_nbuf ch = 0) \<and>
     (waiting ch CHANSND = [] \<or> waiting ch CHANRCV = [])"

definition partner :: "'a fiber_chan_scheme \<Rightarrow> addr \<Rightarrow> altop \<Rightarrow> nat \<Rightarrow> ptr" where
  "partner t c op rnd =
     (let ws = waiting (ch_chan t c) (otherop op) in if ws = [] then None else Some (ws ! (rnd mod length ws)))"

definition took :: "'a fiber_chan_scheme \<Rightarrow> addr \<Rightarrow> altop \<Rightarrow> ptr \<Rightarrow> nat \<Rightarrow> byte list list" where
  "took t c op v rnd =
     (let n = cc_elemsize (ch_chan t c)
      in if op = CHANSND then [elem t n v]
         else case partner t c op rnd of None \<Rightarrow> [] | Some x \<Rightarrow> [elem t n (al_v (ch_alt t x))])"

definition gave :: "'a fiber_chan_scheme \<Rightarrow> 'b fiber_chan_scheme \<Rightarrow> addr \<Rightarrow> altop \<Rightarrow> ptr \<Rightarrow> nat \<Rightarrow> byte list list" where
  "gave t t' c op v rnd =
     (let n = cc_elemsize (ch_chan t c)
      in if op = CHANRCV then [elem t' n v]
         else case partner t c op rnd of None \<Rightarrow> [] | Some x \<Rightarrow> [elem t' n (al_v (ch_alt t x))])"

text \<open>A request of a running fiber: its cell \<open>a\<close> is filled in; if it waits for nobody or for the cell \<open>x\<close> of fiber \<open>f\<close>,
  the elements are there, and the two do not share a variable.\<close>

definition request :: "'a fiber_chan_scheme \<Rightarrow> addr \<Rightarrow> addr \<Rightarrow> altop \<Rightarrow> ptr \<Rightarrow> bool" where
  "request t a c op v \<longleftrightarrow>
     al_c (ch_alt t a) = c \<and> al_op (ch_alt t a) = op \<and> al_v (ch_alt t a) = v \<and> (op = CHANSND \<or> op = CHANRCV) \<and>
     elem_ok t (cc_elemsize (ch_chan t c)) v \<and> (op = CHANRCV \<longrightarrow> v \<noteq> None) \<and>
     chan_ok (ch_chan t c) \<and> chan_idle (ch_chan t c)"

definition other_ok :: "'a fiber_chan_scheme \<Rightarrow> addr \<Rightarrow> altop \<Rightarrow> ptr \<Rightarrow> addr \<Rightarrow> addr \<Rightarrow> bool" where
  "other_ok t c op v x f \<longleftrightarrow>
     waits t c (otherop op) x f \<and> elem_ok t (cc_elemsize (ch_chan t c)) (al_v (ch_alt t x)) \<and>
     (otherop op = CHANRCV \<longrightarrow> al_v (ch_alt t x) \<noteq> None) \<and> (v = None \<or> v \<noteq> al_v (ch_alt t x))"

lemma otherop_simps [simp]: "otherop CHANSND = CHANRCV" "otherop CHANRCV = CHANSND"
  by (simp_all add: otherop_def)

lemma waiting_simps [simp]: "waiting ch CHANSND = aa_a (cc_asend ch)" "waiting ch CHANRCV = aa_a (cc_arecv ch)"
  by (simp_all add: waiting_def channel_array_def)

definition copied :: "'a fiber_chan_scheme \<Rightarrow> addr \<Rightarrow> altop \<Rightarrow> ptr \<Rightarrow> nat \<Rightarrow> (addr \<Rightarrow> byte list) \<Rightarrow> channel \<Rightarrow> bool" where
  "copied t c op v rnd cl ch \<longleftrightarrow>
     chan_ok ch \<and> cc_bufsize ch = cc_bufsize (ch_chan t c) \<and> cc_elemsize ch = cc_elemsize (ch_chan t c) \<and>
     cc_asend ch = cc_asend (ch_chan t c) \<and> cc_arecv ch = cc_arecv (ch_chan t c) \<and>
     (partner t c op rnd \<noteq> None \<longrightarrow> cc_nbuf ch = cc_nbuf (ch_chan t c)) \<and>
     chan_queue (ch_chan t c) @ took t c op v rnd = gave t (t\<lparr>ch_cell := cl\<rparr>) c op v rnd @ chan_queue ch \<and>
     (\<forall>x. length (cl x) = length (ch_cell t x))"

lemma copy_put:
  assumes r: "request t a c CHANSND v" and "partner t c CHANSND rnd = None" "cc_nbuf (ch_chan t c) < cc_bufsize (ch_chan t c)"
  shows "\<exists>ch. alt_copy t (Some a) None = Inr (t\<lparr>ch_cell := ch_cell t, ch_chan := (ch_chan t)(c := ch)\<rparr>) \<and>
    copied t c CHANSND v rnd (ch_cell t) ch"
proof -
  have a: "al_c (ch_alt t a) = c" "al_op (ch_alt t a) = CHANSND" "al_v (ch_alt t a) = v" "chan_ok (ch_chan t c)"
    "elem_ok t (cc_elemsize (ch_chan t c)) (al_v (ch_alt t a))"
    using r by (simp_all add: request_def)
  obtain b n where p: "buf_put t c a = Inr (set_chan t c ((ch_chan t c)\<lparr>cc_buf := b, cc_nbuf := n\<rparr>))"
    "chan_ok ((ch_chan t c)\<lparr>cc_buf := b, cc_nbuf := n\<rparr>)"
    "chan_queue ((ch_chan t c)\<lparr>cc_buf := b, cc_nbuf := n\<rparr>) =
      chan_queue (ch_chan t c) @ [elem t (cc_elemsize (ch_chan t c)) v]"
    using buf_put_queue [OF a(4) assms(3) a(5)] a(3) by blast
  have "alt_copy t (Some a) None = Inr (t\<lparr>ch_cell := ch_cell t, ch_chan := (ch_chan t)(c := (ch_chan t c)\<lparr>cc_buf := b, cc_nbuf := n\<rparr>)\<rparr>)"
    using p(1) a(1,2) by (simp add: alt_copy_def set_chan_def)
  moreover have "copied t c CHANSND v rnd (ch_cell t) ((ch_chan t c)\<lparr>cc_buf := b, cc_nbuf := n\<rparr>)"
    using p(2,3) assms(2) by (simp add: copied_def took_def gave_def)
  ultimately show ?thesis by blast
qed

lemma copy_get:
  assumes r: "request t a c CHANRCV v" and "partner t c CHANRCV rnd = None" "0 < cc_nbuf (ch_chan t c)"
  shows "\<exists>cl ch. alt_copy t (Some a) None = Inr (t\<lparr>ch_cell := cl, ch_chan := (ch_chan t)(c := ch)\<rparr>) \<and>
    copied t c CHANRCV v rnd cl ch"
proof -
  let ?q = "hd (chan_queue (ch_chan t c))" and ?n = "cc_elemsize (ch_chan t c)"
  have a: "al_c (ch_alt t a) = c" "al_op (ch_alt t a) = CHANRCV" "al_v (ch_alt t a) = v" "chan_ok (ch_chan t c)"
    using r by (simp_all add: request_def)
  obtain x where x: "v = Some x" "elem_ok t ?n (Some x)" using r by (auto simp: request_def)
  obtain off n where p: "buf_get t c a =
      Inr (set_chan (t\<lparr>ch_cell := (ch_cell t)(x := ?q @ drop ?n (ch_cell t x))\<rparr>) c ((ch_chan t c)\<lparr>cc_nbuf := n, cc_off := off\<rparr>))"
    "chan_ok ((ch_chan t c)\<lparr>cc_nbuf := n, cc_off := off\<rparr>)"
    "chan_queue (ch_chan t c) = ?q # chan_queue ((ch_chan t c)\<lparr>cc_nbuf := n, cc_off := off\<rparr>)" "length ?q = ?n"
    using buf_get_queue [OF a(4) assms(3), of a x] a(3) x by auto
  have "alt_copy t (Some a) None =
      Inr (t\<lparr>ch_cell := (ch_cell t)(x := ?q @ drop ?n (ch_cell t x)), ch_chan := (ch_chan t)(c := (ch_chan t c)\<lparr>cc_nbuf := n, cc_off := off\<rparr>)\<rparr>)"
    using p(1) a(1,2) by (simp add: alt_copy_def set_chan_def)
  moreover have "copied t c CHANRCV v rnd ((ch_cell t)(x := ?q @ drop ?n (ch_cell t x))) ((ch_chan t c)\<lparr>cc_nbuf := n, cc_off := off\<rparr>)"
    using p(2,3,4) assms(2) x by (simp add: copied_def took_def gave_def elem_def elem_ok_def)
  ultimately show ?thesis by blast
qed

lemma move_to_cell_elem:
  assumes "elem_ok t n (al_v (ch_alt t s))" "elem_ok t n (Some y)"
  shows "move_to_cell t n (Some y) (source_of t s) =
    Inr (t\<lparr>ch_cell := (ch_cell t)(y := elem t n (al_v (ch_alt t s)) @ drop n (ch_cell t y))\<rparr>)"
  using amove_elem [OF assms(1), of "ch_cell t y"] assms(2) by (simp add: move_to_cell_def elem_ok_def)

lemma copy_direct:
  assumes r: "request t a c op v" and o: "other_ok t c op v x f" and pa: "partner t c op rnd = Some x"
    and n0: "cc_nbuf (ch_chan t c) = 0"
  shows "\<exists>cl. alt_copy t (Some a) (Some x) = Inr (t\<lparr>ch_cell := cl, ch_chan := (ch_chan t)(c := ch_chan t c)\<rparr>) \<and>
    copied t c op v rnd cl (ch_chan t c)"
proof -
  let ?n = "cc_elemsize (ch_chan t c)"
  have a: "al_c (ch_alt t a) = c" "al_op (ch_alt t a) = op" "al_v (ch_alt t a) = v" "chan_ok (ch_chan t c)" "elem_ok t ?n v"
    using r by (simp_all add: request_def)
  have x: "al_c (ch_alt t x) = c" "al_op (ch_alt t x) = otherop op" "elem_ok t ?n (al_v (ch_alt t x))"
    using o by (simp_all add: other_ok_def waits_def)
  have q: "chan_queue (ch_chan t c) = []" using n0 by (simp add: chan_queue_def)
  from r consider (snd) "op = CHANSND" | (rcv) "op = CHANRCV" by (auto simp: request_def)
  then show ?thesis
  proof cases
    case snd
    then obtain y where y: "al_v (ch_alt t x) = Some y" using o by (auto simp: other_ok_def)
    let ?cl = "(ch_cell t)(y := elem t ?n v @ drop ?n (ch_cell t y))"
    have "alt_copy t (Some a) (Some x) = Inr (t\<lparr>ch_cell := ?cl\<rparr>)"
      using move_to_cell_elem [of t ?n a y] a x y snd n0 by (simp add: alt_copy_def)
    moreover have "copied t c op v rnd ?cl (ch_chan t c)"
      using pa snd y q a(4) elem_length [OF a(5)] x(3)
      by (auto simp: copied_def took_def gave_def elem_def elem_ok_def split: option.splits)
    ultimately show ?thesis by auto
  next
    case rcv
    then obtain y where y: "v = Some y" using r by (auto simp: request_def)
    let ?cl = "(ch_cell t)(y := elem t ?n (al_v (ch_alt t x)) @ drop ?n (ch_cell t y))"
    have "alt_copy t (Some a) (Some x) = Inr (t\<lparr>ch_cell := ?cl\<rparr>)"
      using move_to_cell_elem [of t ?n x y] a x y rcv n0 by (simp add: alt_copy_def)
    moreover have "copied t c op v rnd ?cl (ch_chan t c)"
      using pa rcv y q a(4,5) elem_length [OF x(3)]
      by (auto simp: copied_def took_def gave_def elem_def elem_ok_def split: option.splits)
    ultimately show ?thesis by auto
  qed
qed

lemma elem_frame: "v \<noteq> Some y \<Longrightarrow> elem (t\<lparr>ch_cell := (ch_cell t)(y := b)\<rparr>) n v = elem t n v"
  "v \<noteq> Some y \<Longrightarrow> elem_ok (t\<lparr>ch_cell := (ch_cell t)(y := b)\<rparr>) n v = elem_ok t n v"
  by (auto simp: elem_def elem_ok_def split: option.splits)

lemma copy_full:
  assumes r: "request t a c CHANRCV v" and o: "other_ok t c CHANRCV v x f" and pa: "partner t c CHANRCV rnd = Some x"
    and n0: "0 < cc_nbuf (ch_chan t c)"
  shows "\<exists>cl ch. alt_copy t (Some a) (Some x) = Inr (t\<lparr>ch_cell := cl, ch_chan := (ch_chan t)(c := ch)\<rparr>) \<and>
    copied t c CHANRCV v rnd cl ch"
proof -
  let ?q = "hd (chan_queue (ch_chan t c))" and ?n = "cc_elemsize (ch_chan t c)"
  have a: "al_c (ch_alt t a) = c" "al_op (ch_alt t a) = CHANRCV" "al_v (ch_alt t a) = v" "chan_ok (ch_chan t c)"
    using r by (simp_all add: request_def)
  have x: "al_op (ch_alt t x) = CHANSND" "elem_ok t ?n (al_v (ch_alt t x))"
    using o by (simp_all add: other_ok_def waits_def)
  obtain y where y: "v = Some y" "elem_ok t ?n (Some y)" "al_v (ch_alt t x) \<noteq> Some y"
    using r o by (auto simp: request_def other_ok_def)
  define cl where "cl = (ch_cell t)(y := ?q @ drop ?n (ch_cell t y))"
  obtain off n where p: "buf_get t c a =
      Inr (set_chan (t\<lparr>ch_cell := cl\<rparr>) c ((ch_chan t c)\<lparr>cc_nbuf := n, cc_off := off\<rparr>))"
    "chan_ok ((ch_chan t c)\<lparr>cc_nbuf := n, cc_off := off\<rparr>)" "n = cc_nbuf (ch_chan t c) - 1"
    "chan_queue (ch_chan t c) = ?q # chan_queue ((ch_chan t c)\<lparr>cc_nbuf := n, cc_off := off\<rparr>)" "length ?q = ?n"
    using buf_get_queue [OF a(4) n0, of a y] a(3) y(1,2) by (auto simp: cl_def)
  define ch1 where "ch1 = (ch_chan t c)\<lparr>cc_nbuf := n, cc_off := off\<rparr>"
  define t1 where "t1 = set_chan (t\<lparr>ch_cell := cl\<rparr>) c ch1"
  have t1: "ch_chan t1 c = ch1" "ch_alt t1 = ch_alt t" "ch_cell t1 = cl" "cc_elemsize ch1 = ?n" "cc_bufsize ch1 = cc_bufsize (ch_chan t c)"
    by (simp_all add: t1_def ch1_def set_chan_def)
  have e: "elem t1 ?n (al_v (ch_alt t x)) = elem t ?n (al_v (ch_alt t x))" "elem_ok t1 ?n (al_v (ch_alt t x))"
    using y(3) x(2) by (auto simp: elem_def elem_ok_def t1(3) cl_def split: option.splits)
  have lt: "cc_nbuf ch1 < cc_bufsize ch1" using a(4) n0 p(3) by (auto simp: ch1_def chan_ok_def)
  obtain b n2 where g: "buf_put t1 c x = Inr (set_chan t1 c (ch1\<lparr>cc_buf := b, cc_nbuf := n2\<rparr>))"
    "chan_ok (ch1\<lparr>cc_buf := b, cc_nbuf := n2\<rparr>)"
    "chan_queue (ch1\<lparr>cc_buf := b, cc_nbuf := n2\<rparr>) = chan_queue ch1 @ [elem t ?n (al_v (ch_alt t x))]"
    using buf_put_queue [of t1 c x] p(2) lt e unfolding t1 by (auto simp: ch1_def)
  define ch2 where "ch2 = ch1\<lparr>cc_buf := b, cc_nbuf := n2\<rparr>"
  have "set_chan t1 c ch2 = t\<lparr>ch_cell := cl, ch_chan := (ch_chan t)(c := ch2)\<rparr>" by (simp add: t1_def set_chan_def)
  moreover have "alt_copy t (Some a) (Some x) = Inr (set_chan t1 c ch2)"
    using p(1) g(1) a(1,2) x(1) n0 by (simp add: alt_copy_def t1_def ch1_def ch2_def)
  moreover have "cc_nbuf ch2 = cc_nbuf (ch_chan t c)"
    using arg_cong [OF g(3), of length] p(3) n0 by (simp add: ch2_def ch1_def)
  then have "copied t c CHANRCV v rnd cl ch2"
    using g(2,3) p(4,5) pa y(1,2) unfolding copied_def
    by (simp add: took_def gave_def elem_def elem_ok_def ch2_def ch1_def cl_def Let_def)
  ultimately show ?thesis by auto
qed

text \<open>The whole transfer: the elements, the array it takes its partner from, and the partner's fiber made ready.\<close>

definition executed :: "'a fiber_chan_scheme \<Rightarrow> addr \<Rightarrow> altop \<Rightarrow> ptr \<Rightarrow> nat \<Rightarrow> (addr \<Rightarrow> byte list) \<Rightarrow> channel \<Rightarrow> bool" where
  "executed t c op v rnd cl ch \<longleftrightarrow>
     chan_ok ch \<and> chan_idle ch \<and> cc_bufsize ch = cc_bufsize (ch_chan t c) \<and> cc_elemsize ch = cc_elemsize (ch_chan t c) \<and>
     waiting ch op = waiting (ch_chan t c) op \<and>
     set (waiting ch (otherop op)) = set (waiting (ch_chan t c) (otherop op)) - set_option (partner t c op rnd) \<and>
     distinct (waiting ch (otherop op)) \<and>
     chan_queue (ch_chan t c) @ took t c op v rnd = gave t (t\<lparr>ch_cell := cl\<rparr>) c op v rnd @ chan_queue ch \<and>
     (\<forall>x. length (cl x) = length (ch_cell t x))"

lemma exec_alone:
  assumes r: "request t a c op v" and pa: "partner t c op rnd = None" and can: "alt_can_exec t a"
    and d: "distinct (waiting (ch_chan t c) (otherop op))"
  shows "\<exists>cl ch. alt_exec t a rnd = Inr (t\<lparr>ch_cell := cl, ch_chan := (ch_chan t)(c := ch)\<rparr>) \<and> executed t c op v rnd cl ch"
proof -
  have a: "al_c (ch_alt t a) = c" "al_op (ch_alt t a) = op" "op = CHANSND \<or> op = CHANRCV" "chan_idle (ch_chan t c)"
    using r by (auto simp: request_def)
  have w: "waiting (ch_chan t c) (otherop op) = []" using pa by (auto simp: partner_def Let_def split: if_splits)
  have ex: "alt_exec t a rnd = alt_copy t (Some a) None"
    using a(1,2,3) w by (auto simp: alt_exec_def channel_array_def)
  have "\<exists>cl ch. alt_copy t (Some a) None = Inr (t\<lparr>ch_cell := cl, ch_chan := (ch_chan t)(c := ch)\<rparr>) \<and> copied t c op v rnd cl ch \<and>
      waiting (ch_chan t c) op = []"
    using a(3)
  proof
    assume op: "op = CHANSND"
    then have "cc_nbuf (ch_chan t c) < cc_bufsize (ch_chan t c)"
      using can a(1,2) w by (auto simp: alt_can_exec_def channel_array_def Let_def split: if_splits)
    moreover from this have "waiting (ch_chan t c) op = []" using a(4) op by (auto simp: chan_idle_def)
    ultimately show ?thesis using copy_put [of t a c v rnd] r pa unfolding op by blast
  next
    assume op: "op = CHANRCV"
    then have "0 < cc_nbuf (ch_chan t c)"
      using can a(1,2) w by (auto simp: alt_can_exec_def channel_array_def Let_def split: if_splits)
    moreover from this have "waiting (ch_chan t c) op = []" using a(4) op by (auto simp: chan_idle_def)
    ultimately show ?thesis using copy_get [of t a c v rnd] r pa unfolding op by blast
  qed
  then obtain cl ch where h: "alt_copy t (Some a) None = Inr (t\<lparr>ch_cell := cl, ch_chan := (ch_chan t)(c := ch)\<rparr>)"
    "copied t c op v rnd cl ch" "waiting (ch_chan t c) op = []" by blast
  have "executed t c op v rnd cl ch"
    using h(2,3) w pa a(3) unfolding executed_def copied_def by (auto simp: chan_idle_def)
  with h(1) ex show ?thesis by auto
qed

lemma exec_with:
  assumes r: "request t a c op v" and pa: "partner t c op rnd = Some x" and o: "other_ok t c op v x f"
    and d: "distinct (waiting (ch_chan t c) (otherop op))"
  shows "\<exists>cl ch. alt_exec t a rnd = acl_fiber_ready (t\<lparr>ch_cell := cl, ch_chan := (ch_chan t)(c := ch)\<rparr>) f \<and>
    executed t c op v rnd cl ch"
proof -
  have a: "al_c (ch_alt t a) = c" "al_op (ch_alt t a) = op" "op = CHANSND \<or> op = CHANRCV" "chan_idle (ch_chan t c)"
    using r by (auto simp: request_def)
  define ws where "ws = waiting (ch_chan t c) (otherop op)"
  have w: "ws \<noteq> []" "x = ws ! (rnd mod length ws)"
    using pa by (auto simp: partner_def Let_def ws_def split: if_splits)
  have wt: "waits t c (otherop op) x f" using o by (simp add: other_ok_def)
  have oo: "otherop op = CHANSND \<or> otherop op = CHANRCV" using a(3) by auto
  have "\<exists>cl ch. alt_copy t (Some a) (Some x) = Inr (t\<lparr>ch_cell := cl, ch_chan := (ch_chan t)(c := ch)\<rparr>) \<and> copied t c op v rnd cl ch"
  proof (cases "cc_nbuf (ch_chan t c) = 0")
    case True
    then show ?thesis using copy_direct [OF r o pa] by blast
  next
    case False
    then have op: "op = CHANRCV" using a(3,4) w(1) by (auto simp: chan_idle_def ws_def)
    show ?thesis using copy_full [of t a c v x f rnd] r o pa False unfolding op by blast
  qed
  then obtain cl ch1 where h: "alt_copy t (Some a) (Some x) = Inr (t\<lparr>ch_cell := cl, ch_chan := (ch_chan t)(c := ch1)\<rparr>)"
    "copied t c op v rnd cl ch1" by blast
  define t1 where "t1 = t\<lparr>ch_cell := cl, ch_chan := (ch_chan t)(c := ch1)\<rparr>"
  have t1: "ch_chan t1 c = ch1" "ch_alt t1 = ch_alt t" by (simp_all add: t1_def)
  have same: "waiting ch1 (otherop op) = ws" "waiting ch1 op = waiting (ch_chan t c) op" "cc_nbuf ch1 = cc_nbuf (ch_chan t c)"
    using h(2) pa by (auto simp: copied_def waiting_def channel_array_def ws_def split: altop.splits)
  obtain ar where ar: "alt_all_dequeue 2 t1 x = Inr (set_chan t1 c (set_array ch1 (otherop op) ar))"
    "set (aa_a ar) = set ws - {x}" "distinct (aa_a ar)"
    using dequeue_waiting [of t1 c "otherop op" x f "rnd mod length ws"] wt oo d w same(1) t1
    by (auto simp: waits_def ws_def)
  define ch where "ch = set_array ch1 (otherop op) ar"
  have "alt_exec t a rnd = acl_fiber_ready (t\<lparr>ch_cell := cl, ch_chan := (ch_chan t)(c := ch)\<rparr>) f"
  proof -
    obtain ar0 where ar0: "channel_array (ch_chan t c) (otherop op) = Some ar0" "aa_a ar0 = ws"
      using oo by (auto simp: channel_array_def ws_def)
    have st: "set_chan t1 c ch = t\<lparr>ch_cell := cl, ch_chan := (ch_chan t)(c := ch)\<rparr>" by (simp add: t1_def set_chan_def)
    have al: "al_xalt (ch_alt t x) = x" "al_fiber (ch_alt t x) = Some f" using wt by (simp_all add: waits_def)
    have "(ch_alt t x)\<lparr>al_xalt := x\<rparr> = ch_alt t x" using al(1) by simp
    then have id: "set_alt (t\<lparr>ch_cell := cl, ch_chan := (ch_chan t)(c := ch)\<rparr>) x ((ch_alt t x)\<lparr>al_xalt := x\<rparr>) =
        t\<lparr>ch_cell := cl, ch_chan := (ch_chan t)(c := ch)\<rparr>"
      by (simp add: set_alt_def)
    show ?thesis
      unfolding alt_exec_def Let_def a(1,2) ar0(1) using w(1) ar0(2) h(1) ar(1) al st t1(2) id
      by (simp add: w(2) [symmetric] t1_def [symmetric] ch_def [symmetric])
  qed
  moreover have "executed t c op v rnd cl ch"
  proof -
    have c: "chan_ok ch" "cc_bufsize ch = cc_bufsize (ch_chan t c)" "cc_elemsize ch = cc_elemsize (ch_chan t c)" "chan_queue ch = chan_queue ch1"
      "cc_nbuf ch = cc_nbuf (ch_chan t c)"
      using h(2) oo same(3) by (auto simp: copied_def ch_def set_array_def chan_ok_def chan_queue_def)
    have ww: "waiting ch (otherop op) = aa_a ar" "waiting ch op = waiting (ch_chan t c) op"
      using a(3) same(2) by (auto simp: ch_def set_array_def)
    have "chan_idle ch"
      using a(3)
    proof
      assume "op = CHANSND"
      then show ?thesis using a(4) ww w(1) c(2,5) unfolding ws_def by (simp add: chan_idle_def)
    next
      assume "op = CHANRCV"
      then show ?thesis using a(4) ww w(1) c(2,5) unfolding ws_def by (simp add: chan_idle_def)
    qed
    with c ww ar(2,3) h(2) pa show ?thesis by (simp add: executed_def copied_def ws_def)
  qed
  ultimately show ?thesis by blast
qed

end
