(* ===== verification/Acl_ChannelProps.thy ===== *)
theory Acl_ChannelProps
  imports Acl_Channel
begin

text \<open>
  Fibers that communicate through the channels of \<open>Acl_Channel\<close>: a step relation for any number of fibers and
  channels, the invariant of its reachable states, and the properties that follow.
\<close>

section \<open>A call of the running fiber\<close>

text \<open>The frame of a call after \<open>channel_op\<close> and \<open>channel_alt\<close> have filled it in.\<close>

definition fill :: "'a fiber_chan_scheme \<Rightarrow> addr \<Rightarrow> addr \<Rightarrow> addr \<Rightarrow> altop \<Rightarrow> ptr \<Rightarrow> bool \<Rightarrow> 'a fiber_chan_scheme" where
  "fill t fr f c op p blk = t\<lparr>ch_alt := (ch_alt t)
     (Suc fr := (ch_alt t (Suc fr))\<lparr>al_op := if blk then CHANEND else CHANNOBLK\<rparr>,
      fr := (ch_alt t fr)\<lparr>al_c := c, al_op := op, al_v := p, al_fiber := Some f, al_xalt := fr\<rparr>)\<rparr>"

lemma fill_simps [simp]:
  "al_c (ch_alt (fill t fr f c op p blk) fr) = c" "al_op (ch_alt (fill t fr f c op p blk) fr) = op"
  "al_v (ch_alt (fill t fr f c op p blk) fr) = p" "al_fiber (ch_alt (fill t fr f c op p blk) fr) = Some f"
  "al_xalt (ch_alt (fill t fr f c op p blk) fr) = fr"
  "al_op (ch_alt (fill t fr f c op p blk) (Suc fr)) = (if blk then CHANEND else CHANNOBLK)"
  "ch_chan (fill t fr f c op p blk) = ch_chan t" "ch_cell (fill t fr f c op p blk) = ch_cell t"
  "fb_running (fill t fr f c op p blk) = fb_running t" "fb_ready (fill t fr f c op p blk) = fb_ready t"
  "fb_dead (fill t fr f c op p blk) = fb_dead t" "fb_status (fill t fr f c op p blk) = fb_status t"
  "fb_heap (fill t fr f c op p blk) = fb_heap t"
  by (simp_all add: fill_def)

lemma fill_other: "x \<noteq> fr \<Longrightarrow> x \<noteq> Suc fr \<Longrightarrow> ch_alt (fill t fr f c op p blk) x = ch_alt t x"
  by (simp add: fill_def)

lemma channel_op_fill:
  fixes t :: "'a fiber_chan_scheme" and fr f c :: addr and op :: altop and p :: ptr and blk :: bool
  assumes "op = CHANSND \<or> op = CHANRCV" "fb_running t = Some f"
  defines "T \<equiv> fill t fr f c op p blk"
  shows "channel_op t fr c op p blk r1 r2 =
    (if alt_can_exec T fr then cbind (alt_exec T fr r2) (\<lambda>t'. Inr (Returned 1, t'))
     else if \<not> blk then Inr (Returned (-1), T)
     else cbind (alt_queue T fr) (\<lambda>t'. cbind (acl_fiber_switch t') (\<lambda>(ctx, t''). Inr (Switched ctx, t''))))"
proof -
  define T0 where "T0 = set_alt (set_alt t fr ((ch_alt t fr)\<lparr>al_c := c, al_op := op, al_v := p\<rparr>)) (Suc fr)
    ((ch_alt (set_alt t fr ((ch_alt t fr)\<lparr>al_c := c, al_op := op, al_v := p\<rparr>)) (Suc fr))\<lparr>al_op := if blk then CHANEND else CHANNOBLK\<rparr>)"
  have T0: "al_op (ch_alt T0 fr) = op" "al_op (ch_alt T0 (Suc fr)) = (if blk then CHANEND else CHANNOBLK)" "fb_running T0 = Some f"
    using assms(2) by (simp_all add: T0_def set_alt_def)
  have len: "alt_len 2 T0 fr = Inr 1" using assms(1) T0 unfolding numeral_2_eq_2 by (cases blk) auto
  have init: "alt_init 1 T0 (fb_running T0) fr fr = T"
    unfolding T0(3) by (simp add: T_def fill_def T0_def set_alt_def fun_upd_twist)
  have one: "[0..<1::nat] = [0]" by simp
  have op: "op \<noteq> CHANNOP" using assms(1) by auto
  have q: "alt_queue_all 1 T fr = alt_queue T fr" using op by (cases "alt_queue T fr") (simp_all add: T_def)
  show ?thesis
  proof (cases "alt_can_exec T fr")
    case True
    then show ?thesis
      unfolding channel_op_def Let_def T0_def [symmetric] channel_alt_def len cbind_simps init one by (cases "alt_exec T fr r2") auto
  next
    case False
    have nb: "(al_op (ch_alt T0 (fr + 1)) = CHANEND) = blk" using T0(2) by simp
    show ?thesis
      unfolding channel_op_def Let_def T0_def [symmetric] channel_alt_def len cbind_simps init one nb q
      using False by (auto simp: cbind_def split: sum.splits prod.splits)
  qed
qed

section \<open>Fibers and channels\<close>

text \<open>
  The whole system: the thread's state, which context runs, where every fiber stopped, and the history of each channel,
  the elements taken from senders and those given to receivers, in order. \<open>fr f\<close> is the address of the
  stack frame in which fiber \<open>f\<close> calls \<open>channel_op\<close>; the variable at \<open>x\<close> belongs to fiber \<open>own x\<close>.
\<close>

datatype chan_pc = ChUser | ChWait | ChYield

record chan_sys = fiber_chan +
  cs_at :: exec_ctx
  cs_pc :: "addr \<Rightarrow> chan_pc"
  cs_sent :: "addr \<Rightarrow> byte list list"
  cs_got :: "addr \<Rightarrow> byte list list"

definition frames :: "(addr \<Rightarrow> addr) \<Rightarrow> bool" where
  "frames fr \<longleftrightarrow> (\<forall>f g. f \<noteq> g \<longrightarrow> fr f \<noteq> fr g \<and> fr f \<noteq> Suc (fr g))"

text \<open>
  A call that a fiber may make: it receives into a variable of its own and sends from one of its own, or NULL, and the
  variable is as large as the elements of the channel. A receive with NULL, which drops the element, is not among them.
\<close>

definition call_ok :: "(addr \<Rightarrow> addr) \<Rightarrow> 'a fiber_chan_scheme \<Rightarrow> addr \<Rightarrow> addr \<Rightarrow> altop \<Rightarrow> ptr \<Rightarrow> bool" where
  "call_ok own s f c op p \<longleftrightarrow>
     (op = CHANSND \<or> op = CHANRCV \<and> p \<noteq> None) \<and> elem_ok s (cc_elemsize (ch_chan s c)) p \<and>
     (case p of None \<Rightarrow> True | Some x \<Rightarrow> own x = f)"

definition log_transfer :: "chan_sys \<Rightarrow> chan_sys \<Rightarrow> addr \<Rightarrow> altop \<Rightarrow> ptr \<Rightarrow> nat \<Rightarrow> chan_sys" where
  "log_transfer s s' c op p rnd = s'
     \<lparr>cs_sent := (cs_sent s')(c := cs_sent s' c @ took s c op p rnd),
      cs_got := (cs_got s')(c := cs_got s' c @ gave s s' c op p rnd)\<rparr>"

text \<open>
  One step: the running fiber sends or receives, changes a variable of its own, yields, or signals a fiber of the ready ring, which
  then runs; or it goes on after the switch it stopped in; or the scheduler's loop takes a turn. A signal to a fiber that waits in a
  channel is not a step: it leaves the frame of a call that returns in the channel (\<open>channel_killed_waiter_stays\<close>).
\<close>

inductive chan_step :: "addr set \<Rightarrow> (addr \<Rightarrow> addr) \<Rightarrow> (addr \<Rightarrow> addr) \<Rightarrow> chan_sys \<Rightarrow> chan_sys \<Rightarrow> bool" for C fr own where
  op_now: "cs_at s = Ctx f \<Longrightarrow> cs_pc s f = ChUser \<Longrightarrow> c \<in> C \<Longrightarrow> call_ok own s f c op p \<Longrightarrow>
    channel_op s (fr f) c op p blk r1 r2 = Inr (Returned r, s') \<Longrightarrow>
    chan_step C fr own s (if r < 0 then s' else log_transfer s s' c op p r2)"
| op_wait: "cs_at s = Ctx f \<Longrightarrow> cs_pc s f = ChUser \<Longrightarrow> c \<in> C \<Longrightarrow> call_ok own s f c op p \<Longrightarrow>
    channel_op s (fr f) c op p blk r1 r2 = Inr (Switched ctx, s') \<Longrightarrow>
    chan_step C fr own s (s'\<lparr>cs_at := ctx, cs_pc := (cs_pc s')(f := ChWait)\<rparr>)"
| op_resume: "cs_at s = Ctx f \<Longrightarrow> cs_pc s f = ChWait \<Longrightarrow>
    chan_step C fr own s (s\<lparr>cs_pc := (cs_pc s)(f := ChUser)\<rparr>)"
| store: "cs_at s = Ctx f \<Longrightarrow> cs_pc s f = ChUser \<Longrightarrow> own x = f \<Longrightarrow> length bs = length (ch_cell s x) \<Longrightarrow>
    chan_step C fr own s (s\<lparr>ch_cell := (ch_cell s)(x := bs)\<rparr>)"
| chan_yield: "cs_at s = Ctx f \<Longrightarrow> cs_pc s f = ChUser \<Longrightarrow> acl_fiber_yield s = Inr (Some ctx, s') \<Longrightarrow>
    chan_step C fr own s (s'\<lparr>cs_at := ctx, cs_pc := (cs_pc s')(f := ChYield)\<rparr>)"
| chan_yield_resume: "cs_at s = Ctx f \<Longrightarrow> cs_pc s f = ChYield \<Longrightarrow>
    chan_step C fr own s (s\<lparr>cs_pc := (cs_pc s)(f := ChUser)\<rparr>)"
| chan_signal: "cs_at s = Ctx f \<Longrightarrow> cs_pc s f = ChUser \<Longrightarrow> (\<And>Q. is_ring (fb_heap s) (fb_ready s) Q \<Longrightarrow> g \<in> set Q) \<Longrightarrow>
    acl_fiber_signal s (Some g) sig = Inr (Some ctx, s') \<Longrightarrow>
    chan_step C fr own s (s'\<lparr>cs_at := ctx, cs_pc := (cs_pc s')(f := ChYield)\<rparr>)"
| chan_turn: "cs_at s = Original \<Longrightarrow> fb_running s = None \<Longrightarrow>
    acl_fiber_schedule_turn s = Inr (Some ctx, s') \<Longrightarrow> chan_step C fr own s (s'\<lparr>cs_at := ctx\<rparr>)"
| chan_back: "cs_at s = Original \<Longrightarrow> chan_step C fr own s (acl_fiber_schedule_back s)"

subsection \<open>The invariant\<close>

text \<open>
  A fiber that waits is \<open>parked\<close>: in no queue of the scheduler, alive, and not the one that runs. The cells in an array of
  waiters are the frames of parked fibers that called the matching operation with variables of their own.
\<close>

definition parked :: "(addr \<rightharpoonup> addr list) \<Rightarrow> exec_ctx \<Rightarrow> 'a fiber_tls_scheme \<Rightarrow> addr \<Rightarrow> bool" where
  "parked R ctx s f \<longleftrightarrow>
     R f = Some [] \<and> f \<noteq> fb_ready s \<and> f \<noteq> fb_dead s \<and> fb_status s f \<noteq> FIBER_STATUS_EXITING \<and> ctx \<noteq> Ctx f"

definition waiter :: "(addr \<Rightarrow> addr) \<Rightarrow> (addr \<Rightarrow> addr) \<Rightarrow> (addr \<rightharpoonup> addr list) \<Rightarrow> exec_ctx \<Rightarrow> 'a fiber_chan_scheme \<Rightarrow>
    addr \<Rightarrow> altop \<Rightarrow> addr \<Rightarrow> addr \<Rightarrow> bool" where
  "waiter fr own R ctx s c op x f \<longleftrightarrow>
     x = fr f \<and> waits s c op x f \<and> parked R ctx s f \<and> elem_ok s (cc_elemsize (ch_chan s c)) (al_v (ch_alt s x)) \<and>
     (op = CHANRCV \<longrightarrow> al_v (ch_alt s x) \<noteq> None) \<and> (case al_v (ch_alt s x) of None \<Rightarrow> True | Some y \<Rightarrow> own y = f)"

definition waiters_ok :: "(addr \<Rightarrow> addr) \<Rightarrow> (addr \<Rightarrow> addr) \<Rightarrow> (addr \<rightharpoonup> addr list) \<Rightarrow> exec_ctx \<Rightarrow> 'a fiber_chan_scheme \<Rightarrow>
    addr \<Rightarrow> altop \<Rightarrow> bool" where
  "waiters_ok fr own R ctx s c op \<longleftrightarrow>
     distinct (waiting (ch_chan s c) op) \<and> (\<forall>x\<in>set (waiting (ch_chan s c) op). \<exists>f. waiter fr own R ctx s c op x f)"

definition chan_state :: "(addr \<Rightarrow> addr) \<Rightarrow> (addr \<Rightarrow> addr) \<Rightarrow> (addr \<rightharpoonup> addr list) \<Rightarrow> exec_ctx \<Rightarrow> 'a fiber_chan_scheme \<Rightarrow>
    (addr \<Rightarrow> byte list list) \<Rightarrow> (addr \<Rightarrow> byte list list) \<Rightarrow> addr \<Rightarrow> bool" where
  "chan_state fr own R ctx s sent got c \<longleftrightarrow>
     chan_ok (ch_chan s c) \<and> chan_idle (ch_chan s c) \<and> sent c = got c @ chan_queue (ch_chan s c) \<and>
     waiters_ok fr own R ctx s c CHANSND \<and> waiters_ok fr own R ctx s c CHANRCV"

definition running_at :: "(addr \<rightharpoonup> addr list) \<Rightarrow> exec_ctx \<Rightarrow> 'a fiber_tls_scheme \<Rightarrow> bool" where
  "running_at R ctx s \<longleftrightarrow>
     (\<forall>f. ctx = Ctx f \<longrightarrow> fb_running s = Some f \<and> R f = Some [] \<and> f \<noteq> fb_ready s \<and> f \<noteq> fb_dead s \<and>
        fb_status s f \<noteq> FIBER_STATUS_EXITING)"

definition chan_inv :: "addr set \<Rightarrow> (addr \<Rightarrow> addr) \<Rightarrow> (addr \<Rightarrow> addr) \<Rightarrow> chan_sys \<Rightarrow> bool" where
  "chan_inv C fr own s \<longleftrightarrow>
     frames fr \<and> (\<exists>R. fiber_queues s R \<and> running_at R (cs_at s) s \<and>
       (\<forall>c\<in>C. chan_state fr own R (cs_at s) s (cs_sent s) (cs_got s) c))"

text \<open>A change that leaves the channels, the frames of waiters and the sizes of variables alone.\<close>

lemma waiter_cong:
  assumes "waiter fr own R ctx s c op x f"
    "ch_alt s' x = ch_alt s x" "ch_alt s' (Suc x) = ch_alt s (Suc x)" "cc_elemsize (ch_chan s' c) = cc_elemsize (ch_chan s c)"
    "\<And>y. length (ch_cell s' y) = length (ch_cell s y)" "parked R ctx s f \<Longrightarrow> parked R' ctx' s' f"
  shows "waiter fr own R' ctx' s' c op x f"
  using assms unfolding waiter_def waits_def elem_ok_def by (auto split: option.splits)

lemma chan_state_cong:
  assumes st: "chan_state fr own R ctx s sent got c" and "ch_chan s' c = ch_chan s c" "sent' c = sent c" "got' c = got c"
    and w: "\<And>f. parked R ctx s f \<Longrightarrow> ch_alt s' (fr f) = ch_alt s (fr f) \<and> ch_alt s' (Suc (fr f)) = ch_alt s (Suc (fr f)) \<and> parked R' ctx' s' f"
    and len: "\<And>y. length (ch_cell s' y) = length (ch_cell s y)"
  shows "chan_state fr own R' ctx' s' sent' got' c"
proof -
  have "waiter fr own R' ctx' s' c op x f" if "waiter fr own R ctx s c op x f" for op x f
  proof (rule waiter_cong [OF that])
    have "x = fr f" "parked R ctx s f" using that by (simp_all add: waiter_def)
    then show "ch_alt s' x = ch_alt s x" "ch_alt s' (Suc x) = ch_alt s (Suc x)" "parked R' ctx' s' f" using w by simp_all
    show "cc_elemsize (ch_chan s' c) = cc_elemsize (ch_chan s c)" using assms(2) by simp
  qed (rule len)
  then show ?thesis using st assms(2-4) unfolding chan_state_def waiters_ok_def by metis
qed

lemma parked_weaken: "parked R ctx s f \<Longrightarrow> parked R Original s f"
  by (simp add: parked_def)

lemma switch_parks:
  assumes q: "fiber_queues s R" and f: "fb_running s = Some f" "fb_status s f \<noteq> FIBER_STATUS_EXITING"
    and sw: "acl_fiber_switch s = Inr (ctx, s')"
  shows "\<exists>R' h r n. s' = s\<lparr>fb_heap := h, fb_running := r, fb_switched := n\<rparr> \<and> fiber_queues s' R' \<and> running_at R' ctx s' \<and>
    (\<forall>g. parked R Original s g \<longrightarrow> parked R' ctx s' g)"
proof -
  obtain Q where Q: "R (fb_ready s) = Some Q" using q by (auto simp: fiber_queues_def)
  show ?thesis
  proof (cases Q)
    case Nil
    then have "ctx = Original" "s' = s" using acl_fiber_switch_empty [OF q _ f] Q sw by auto
    then show ?thesis using q
      by (intro exI [of _ R] exI [of _ "fb_heap s"] exI [of _ "fb_running s"] exI [of _ "fb_switched s"]) (simp add: running_at_def)
  next
    case (Cons g Q')
    let ?R = "R(fb_ready s \<mapsto> Q', g \<mapsto> [])"
    obtain h where s': "ctx = Ctx g" "s' = s\<lparr>fb_heap := h, fb_running := Some g, fb_switched := fb_switched s + 1\<rparr>"
      and q': "fiber_queues s' ?R"
      using acl_fiber_switch_next [OF q, of g Q'] Q Cons f sw by auto
    have g: "R g = None" "g \<noteq> fb_ready s" "fb_status s g \<noteq> FIBER_STATUS_EXITING"
      using rings_member_no_head [OF fiber_queuesD(1) [OF q] Q, of g] fiber_queues_ready [OF q Q] Cons by auto
    have gd: "g \<noteq> fb_dead s" using q g(1) by (auto simp: fiber_queues_def)
    have "running_at ?R ctx s'" using g gd by (simp add: running_at_def s')
    moreover have "parked ?R ctx s' x" if "parked R Original s x" for x
      using that g(1) by (auto simp: parked_def s')
    ultimately show ?thesis using q' s'(2) by blast
  qed
qed

lemma ready_parks:
  assumes q: "fiber_queues s R" and g: "parked R ctx s g"
  shows "\<exists>R' h. acl_fiber_ready s g = Inr (s\<lparr>fb_status := (fb_status s)(g := FIBER_STATUS_READY), fb_heap := h\<rparr>) \<and>
    fiber_queues (s\<lparr>fb_status := (fb_status s)(g := FIBER_STATUS_READY), fb_heap := h\<rparr>) R' \<and>
    (\<forall>x. x \<noteq> g \<longrightarrow> x \<noteq> fb_ready s \<longrightarrow> R' x = R x)"
proof -
  obtain Q where Q: "R (fb_ready s) = Some Q" using q by (auto simp: fiber_queues_def)
  obtain h where "acl_fiber_ready s g = Inr (s\<lparr>fb_status := (fb_status s)(g := FIBER_STATUS_READY), fb_heap := h\<rparr>)"
    "fiber_queues (s\<lparr>fb_status := (fb_status s)(g := FIBER_STATUS_READY), fb_heap := h\<rparr>) (R(g := None, fb_ready s \<mapsto> Q @ [g]))"
    using acl_fiber_ready_queues [OF q Q] g by (auto simp: parked_def)
  then show ?thesis by (intro exI [of _ "R(g := None, fb_ready s \<mapsto> Q @ [g])"] exI [of _ h]) auto
qed

text \<open>The call of the running fiber does not touch the frames of those that wait.\<close>

lemma frames_other:
  assumes "frames fr" "g \<noteq> f"
  shows "ch_alt (fill s (fr f) f c op p blk) (fr g) = ch_alt s (fr g)"
    "ch_alt (fill s (fr f) f c op p blk) (Suc (fr g)) = ch_alt s (Suc (fr g))"
proof -
  have "fr g \<noteq> fr f" "fr g \<noteq> Suc (fr f)" "fr f \<noteq> Suc (fr g)" using assms by (auto simp: frames_def)
  then show "ch_alt (fill s (fr f) f c op p blk) (fr g) = ch_alt s (fr g)"
    "ch_alt (fill s (fr f) f c op p blk) (Suc (fr g)) = ch_alt s (Suc (fr g))"
    by (simp_all add: fill_other)
qed

lemma partner_waiter:
  assumes "chan_state fr own R ctx s sent got c" "partner s c op rnd = Some x" "op = CHANSND \<or> op = CHANRCV"
  shows "\<exists>g. waiter fr own R ctx s c (otherop op) x g"
proof -
  have "waiters_ok fr own R ctx s c (otherop op)" using assms(1,3) by (auto simp: chan_state_def)
  moreover have "x \<in> set (waiting (ch_chan s c) (otherop op))"
    using assms(2) by (auto simp: partner_def Let_def split: if_splits)
  ultimately show ?thesis by (simp add: waiters_ok_def)
qed

lemma partner_fill [simp]: "partner (fill s fr f c op p blk) c' op' rnd = partner s c' op' rnd"
  by (simp add: partner_def)

lemma elem_fill [simp]: "elem (fill s fr f c op p blk) n v = elem s n v" "elem_ok (fill s fr f c op p blk) n v = elem_ok s n v"
  by (simp_all add: elem_def elem_ok_def split: option.splits)

text \<open>
  After a transfer on \<open>c\<close> by fiber \<open>f\<close> that made fiber \<open>g\<close> ready: every channel is in order again. The state \<open>s'\<close> has the new
  channel \<open>ch\<close>, the frame of \<open>f\<close> and the variables may have changed, and all fibers but \<open>g\<close> are parked as before.
\<close>

lemma transfer_state:
  assumes fr: "frames fr" and st: "\<And>c. c \<in> C \<Longrightarrow> chan_state fr own R (Ctx f) s sent got c" and c: "c \<in> C"
    and op: "op = CHANSND \<or> op = CHANRCV" and ex: "executed s c op p rnd cl ch"
    and p: "\<And>x. partner s c op rnd = Some x \<Longrightarrow> waiter fr own R (Ctx f) s c (otherop op) x g"
    and s': "ch_chan s' = (ch_chan s)(c := ch)" "ch_cell s' = cl"
      "\<And>h. h \<noteq> f \<Longrightarrow> ch_alt s' (fr h) = ch_alt s (fr h) \<and> ch_alt s' (Suc (fr h)) = ch_alt s (Suc (fr h))"
      "\<And>h. parked R (Ctx f) s h \<Longrightarrow> (partner s c op rnd \<noteq> None \<longrightarrow> h \<noteq> g) \<Longrightarrow> parked R' (Ctx f) s' h"
    and c': "c' \<in> C"
  shows "chan_state fr own R' (Ctx f) s' (sent(c := sent c @ took s c op p rnd))
    (got(c := got c @ gave s s' c op p rnd)) c'"
proof -
  have len: "length (cl y) = length (ch_cell s y)" for y using ex by (simp add: executed_def)
  have inj: "h = g" if "fr h = fr g" for h using fr that by (auto simp: frames_def)
  have keep: "waiter fr own R' (Ctx f) s' d o' x h"
    if w: "waiter fr own R (Ctx f) s d o' x h" and ng: "partner s c op rnd \<noteq> None \<longrightarrow> h \<noteq> g" for d o' x h
  proof (rule waiter_cong [OF w])
    have h: "x = fr h" "parked R (Ctx f) s h" using w by (simp_all add: waiter_def)
    then have "h \<noteq> f" by (simp add: parked_def)
    with h s'(3) show "ch_alt s' x = ch_alt s x" "ch_alt s' (Suc x) = ch_alt s (Suc x)" by simp_all
    show "cc_elemsize (ch_chan s' d) = cc_elemsize (ch_chan s d)" using ex by (simp add: s'(1) executed_def)
    show "length (ch_cell s' y) = length (ch_cell s y)" for y by (simp add: s'(2) len)
    show "parked R' (Ctx f) s' h" by (rule s'(4) [OF h(2) ng])
  qed
  have other: "partner s c op rnd \<noteq> None \<longrightarrow> h \<noteq> g"
    if w: "waiter fr own R (Ctx f) s d o' x h" and ne: "d \<noteq> c \<or> o' \<noteq> otherop op \<or> Some x \<noteq> partner s c op rnd" for d o' x h
  proof (intro impI notI)
    assume "partner s c op rnd \<noteq> None" "h = g"
    then obtain y where y: "partner s c op rnd = Some y" by auto
    from p [OF y] w \<open>h = g\<close> have "y = x" "d = c" "o' = otherop op" by (auto simp: waiter_def waits_def)
    with ne y show False by simp
  qed
  show ?thesis
  proof (cases "c' = c")
    case False
    have "waiter fr own R' (Ctx f) s' c' o' x h" if "waiter fr own R (Ctx f) s c' o' x h" for o' x h
      using keep [OF that] other [OF that] False by blast
    then show ?thesis using st [OF c'] False s'(1) unfolding chan_state_def waiters_ok_def by (simp) metis
  next
    case True
    note e = ex [unfolded executed_def]
    note i = st [OF c, unfolded chan_state_def]
    have "gave s s' c op p rnd = gave s (s\<lparr>ch_cell := cl\<rparr>) c op p rnd"
      using s'(2) by (simp add: gave_def elem_def Let_def split: option.splits)
    then have q: "sent c @ took s c op p rnd = (got c @ gave s s' c op p rnd) @ chan_queue ch"
      using e i by simp
    have W: "waiters_ok fr own R (Ctx f) s c op" "waiters_ok fr own R (Ctx f) s c (otherop op)" using i op by auto
    have "waiters_ok fr own R' (Ctx f) s' c op"
      unfolding waiters_ok_def
    proof (intro conjI ballI)
      show "distinct (waiting (ch_chan s' c) op)" using W(1) e s'(1) by (simp add: waiters_ok_def)
      fix x assume "x \<in> set (waiting (ch_chan s' c) op)"
      then have "x \<in> set (waiting (ch_chan s c) op)" using e s'(1) by simp
      then obtain h where w: "waiter fr own R (Ctx f) s c op x h" using W(1) by (auto simp: waiters_ok_def)
      show "\<exists>h. waiter fr own R' (Ctx f) s' c op x h" using keep [OF w] other [OF w] op by auto
    qed
    moreover have "waiters_ok fr own R' (Ctx f) s' c (otherop op)"
      unfolding waiters_ok_def
    proof (intro conjI ballI)
      show "distinct (waiting (ch_chan s' c) (otherop op))" using e s'(1) by simp
      fix x assume "x \<in> set (waiting (ch_chan s' c) (otherop op))"
      then have x: "x \<in> set (waiting (ch_chan s c) (otherop op))" "Some x \<noteq> partner s c op rnd" using e s'(1) by auto
      then obtain h where w: "waiter fr own R (Ctx f) s c (otherop op) x h" using W(2) by (auto simp: waiters_ok_def)
      show "\<exists>h. waiter fr own R' (Ctx f) s' c (otherop op) x h" using keep [OF w] other [OF w] x(2) by auto
    qed
    ultimately have "waiters_ok fr own R' (Ctx f) s' c CHANSND" "waiters_ok fr own R' (Ctx f) s' c CHANRCV" using op by auto
    with q e True s'(1) show ?thesis by (simp add: chan_state_def)
  qed
qed

lemma fill_state:
  assumes "frames fr" "chan_state fr own R (Ctx f) s sent got c'"
  shows "chan_state fr own R (Ctx f) (fill s (fr f) f c op p blk) sent got c'"
proof (rule chan_state_cong [OF assms(2)])
  fix h assume "parked R (Ctx f) s h"
  moreover from this have hf: "h \<noteq> f" by (simp add: parked_def)
  ultimately show "ch_alt (fill s (fr f) f c op p blk) (fr h) = ch_alt s (fr h) \<and>
      ch_alt (fill s (fr f) f c op p blk) (Suc (fr h)) = ch_alt s (Suc (fr h)) \<and> parked R (Ctx f) (fill s (fr f) f c op p blk) h"
    using frames_other [OF assms(1) hf, of s c op p blk] by (simp add: parked_def)
qed simp_all

lemma log_fill:
  assumes "\<And>x. partner s c op rnd = Some x \<Longrightarrow> ch_alt (fill s (fr f) f c op p blk) x = ch_alt s x"
  shows "took (fill s (fr f) f c op p blk) c op p rnd = took s c op p rnd"
    "gave (fill s (fr f) f c op p blk) s' c op p rnd = gave s s' c op p rnd"
  using assms by (auto simp: took_def gave_def Let_def split: option.splits)

lemma call_request:
  assumes "call_ok own s f c op p" "chan_state fr own R ctx s sent got c"
  shows "request (fill s (fr f) f c op p blk) (fr f) c op p" "distinct (waiting (ch_chan s c) (otherop op))" "op = CHANSND \<or> op = CHANRCV"
  using assms by (auto simp: call_ok_def chan_state_def request_def waiters_ok_def)

lemma exec_keeps:
  assumes fr: "frames fr" and q: "fiber_queues s R" and at: "running_at R (Ctx f) s"
    and st: "\<And>c. c \<in> C \<Longrightarrow> chan_state fr own R (Ctx f) s sent got c" and c: "c \<in> C" and call: "call_ok own s f c op p"
    and can: "alt_can_exec (fill s (fr f) f c op p blk) (fr f)"
  shows "\<exists>st h cl chs R' s'. s' = (fill s (fr f) f c op p blk)\<lparr>fb_status := st, fb_heap := h, ch_cell := cl, ch_chan := chs\<rparr> \<and>
    alt_exec (fill s (fr f) f c op p blk) (fr f) rnd = Inr s' \<and> fiber_queues s' R' \<and> running_at R' (Ctx f) s' \<and>
    (\<forall>c'\<in>C. chan_state fr own R' (Ctx f) s' (sent(c := sent c @ took s c op p rnd)) (got(c := got c @ gave s s' c op p rnd)) c')"
proof -
  define T where "T = fill s (fr f) f c op p blk"
  note rq = call_request(1) [OF call st [OF c], of blk, folded T_def] call_request(2,3) [OF call st [OF c]]
  have stT: "chan_state fr own R (Ctx f) T sent got c'" if "c' \<in> C" for c'
    unfolding T_def by (rule fill_state [OF fr st [OF that]])
  have alt: "ch_alt T (fr h) = ch_alt s (fr h)" "ch_alt T (Suc (fr h)) = ch_alt s (Suc (fr h))" if "h \<noteq> f" for h
    using frames_other [OF fr that, of s c op p blk] by (simp_all add: T_def)
  have chT: "ch_chan T = ch_chan s" by (simp add: T_def)
  show ?thesis
  proof (cases "partner T c op rnd")
    case None
    obtain cl ch where e: "alt_exec T (fr f) rnd = Inr (T\<lparr>ch_cell := cl, ch_chan := (ch_chan T)(c := ch)\<rparr>)" "executed T c op p rnd cl ch"
      using exec_alone [OF rq(1) None can [folded T_def]] rq(2) chT by auto
    define s' where "s' = T\<lparr>ch_cell := cl, ch_chan := (ch_chan T)(c := ch)\<rparr>"
    have eq: "s' = T\<lparr>fb_status := fb_status T, fb_heap := fb_heap T, ch_cell := cl, ch_chan := (ch_chan T)(c := ch)\<rparr>"
      by (simp add: s'_def)
    have "fiber_queues s' R" "running_at R (Ctx f) s'" using q at by (simp_all add: s'_def T_def fiber_queues_def running_at_def)
    moreover have "chan_state fr own R (Ctx f) s' (sent(c := sent c @ took s c op p rnd)) (got(c := got c @ gave s s' c op p rnd)) c'"
      if "c' \<in> C" for c'
    proof -
      have "took T c op p rnd = took s c op p rnd" "gave T s' c op p rnd = gave s s' c op p rnd"
        unfolding T_def by (rule log_fill; use None in \<open>simp add: T_def\<close>)+
      moreover have "chan_state fr own R (Ctx f) s' (sent(c := sent c @ took T c op p rnd)) (got(c := got c @ gave T s' c op p rnd)) c'"
        by (rule transfer_state [OF fr stT c rq(3) e(2), where g = f])
          (use None that in \<open>auto simp: s'_def parked_def\<close>)
      ultimately show ?thesis by simp
    qed
    ultimately show ?thesis unfolding T_def [symmetric] using e(1) [folded s'_def] eq
      by (intro exI [of _ "fb_status T"] exI [of _ "fb_heap T"] exI [of _ cl] exI [of _ "(ch_chan T)(c := ch)"] exI [of _ R] exI [of _ s']
          conjI ballI)
  next
    case (Some x)
    obtain g where w: "waiter fr own R (Ctx f) T c (otherop op) x g"
      using partner_waiter [OF stT [OF c] Some rq(3)] by blast
    have g: "g \<noteq> f" "x = fr g" "parked R (Ctx f) T g" using w by (auto simp: waiter_def parked_def)
    have o: "other_ok T c op p x g"
      using w call g(1) by (auto simp: other_ok_def waiter_def call_ok_def T_def split: option.splits)
    obtain cl ch where e: "alt_exec T (fr f) rnd = acl_fiber_ready (T\<lparr>ch_cell := cl, ch_chan := (ch_chan T)(c := ch)\<rparr>) g"
      "executed T c op p rnd cl ch"
      using exec_with [OF rq(1) Some o] rq(2) chT by auto
    define t1 where "t1 = T\<lparr>ch_cell := cl, ch_chan := (ch_chan T)(c := ch)\<rparr>"
    have "fiber_queues t1 R" "parked R (Ctx f) t1 g" using q g(3) by (simp_all add: t1_def T_def fiber_queues_def parked_def)
    then obtain R' h where r: "acl_fiber_ready t1 g = Inr (t1\<lparr>fb_status := (fb_status t1)(g := FIBER_STATUS_READY), fb_heap := h\<rparr>)"
      "fiber_queues (t1\<lparr>fb_status := (fb_status t1)(g := FIBER_STATUS_READY), fb_heap := h\<rparr>) R'"
      "\<And>x. x \<noteq> g \<Longrightarrow> x \<noteq> fb_ready t1 \<Longrightarrow> R' x = R x"
      using ready_parks by blast
    define s' where "s' = t1\<lparr>fb_status := (fb_status t1)(g := FIBER_STATUS_READY), fb_heap := h\<rparr>"
    have eq: "s' = T\<lparr>fb_status := (fb_status t1)(g := FIBER_STATUS_READY), fb_heap := h, ch_cell := cl, ch_chan := (ch_chan T)(c := ch)\<rparr>"
      by (simp add: s'_def t1_def)
    have at': "running_at R' (Ctx f) s'"
      using at g(1) r(3) by (auto simp: running_at_def s'_def t1_def T_def)
    have "chan_state fr own R' (Ctx f) s' (sent(c := sent c @ took s c op p rnd)) (got(c := got c @ gave s s' c op p rnd)) c'"
      if "c' \<in> C" for c'
    proof -
      have "ch_alt T x = ch_alt s x" using alt(1) [OF g(1)] g(2) by simp
      then have "ch_alt (fill s (fr f) f c op p blk) y = ch_alt s y" if "partner s c op rnd = Some y" for y
        using Some that by (simp add: T_def)
      note log = log_fill [of s c op rnd fr f p blk, OF this, folded T_def]
      have "took T c op p rnd = took s c op p rnd" "gave T s' c op p rnd = gave s s' c op p rnd" by (rule log, assumption)+
      moreover have "chan_state fr own R' (Ctx f) s' (sent(c := sent c @ took T c op p rnd)) (got(c := got c @ gave T s' c op p rnd)) c'"
      proof (rule transfer_state [OF fr stT c rq(3) e(2), where g = g])
        show "waiter fr own R (Ctx f) T c (otherop op) y g" if "partner T c op rnd = Some y" for y using w Some that by simp
        show "parked R' (Ctx f) s' h" if "parked R (Ctx f) T h" "partner T c op rnd \<noteq> None \<longrightarrow> h \<noteq> g" for h
          using that Some r(3) by (auto simp: parked_def s'_def t1_def)
      qed (use that in \<open>auto simp: s'_def t1_def\<close>)
      ultimately show ?thesis by simp
    qed
    with e(1) [folded t1_def, unfolded r(1), folded s'_def] r(2) [folded s'_def] eq at' show ?thesis
      unfolding T_def [symmetric]
      by (intro exI [of _ "(fb_status t1)(g := FIBER_STATUS_READY)"] exI [of _ h] exI [of _ cl] exI [of _ "(ch_chan T)(c := ch)"]
          exI [of _ R'] exI [of _ s'] conjI ballI)
  qed
qed

text \<open>A call that cannot be done at once: what the fiber waits for is not there.\<close>

lemma wait_state:
  assumes "chan_ok ch" "chan_idle ch" "op = CHANSND \<or> op = CHANRCV" "\<not> alt_can_exec T a" "al_op (ch_alt T a) = op"
    "ch_chan T (al_c (ch_alt T a)) = ch"
  shows "waiting ch (otherop op) = []" "op = CHANSND \<Longrightarrow> cc_nbuf ch = cc_bufsize ch" "op = CHANRCV \<Longrightarrow> cc_nbuf ch = 0"
proof -
  have n: "cc_nbuf ch \<le> cc_bufsize ch" using assms(1) by (simp add: chan_ok_def)
  have "waiting ch (otherop op) = [] \<and> (op = CHANSND \<longrightarrow> cc_nbuf ch = cc_bufsize ch) \<and> (op = CHANRCV \<longrightarrow> cc_nbuf ch = 0)"
  proof (cases "cc_bufsize ch = 0")
    case True
    with assms(3-6) n show ?thesis by (auto simp: alt_can_exec_def Let_def channel_array_def)
  next
    case False
    with assms(3-6) n have "op = CHANSND \<longrightarrow> cc_nbuf ch = cc_bufsize ch" "op = CHANRCV \<longrightarrow> cc_nbuf ch = 0"
      by (auto simp: alt_can_exec_def Let_def)
    with False assms(2,3) show ?thesis by (auto simp: chan_idle_def)
  qed
  then show "waiting ch (otherop op) = []" "op = CHANSND \<Longrightarrow> cc_nbuf ch = cc_bufsize ch" "op = CHANRCV \<Longrightarrow> cc_nbuf ch = 0"
    by blast+
qed

lemma queue_waiting:
  assumes "op = CHANSND \<or> op = CHANRCV" "al_op (ch_alt T a) = op" "al_c (ch_alt T a) = c"
  shows "\<exists>ch. alt_queue T a = Inr (set_chan T c ch) \<and> waiting ch op = waiting (ch_chan T c) op @ [a] \<and>
    waiting ch (otherop op) = waiting (ch_chan T c) (otherop op) \<and> chan_ok ch = chan_ok (ch_chan T c) \<and>
    chan_queue ch = chan_queue (ch_chan T c) \<and> cc_bufsize ch = cc_bufsize (ch_chan T c) \<and> cc_nbuf ch = cc_nbuf (ch_chan T c) \<and>
    cc_elemsize ch = cc_elemsize (ch_chan T c)"
  using assms
  by (auto simp: alt_queue_def Let_def channel_array_def set_array_def array_add_def chan_ok_def chan_queue_def)

lemma wait_keeps:
  assumes fr: "frames fr" and q: "fiber_queues s R" and at: "running_at R (Ctx f) s"
    and st: "\<And>c. c \<in> C \<Longrightarrow> chan_state fr own R (Ctx f) s sent got c" and c: "c \<in> C" and call: "call_ok own s f c op p"
    and can: "\<not> alt_can_exec (fill s (fr f) f c op p True) (fr f)"
  shows "\<exists>chs h r n ctx R' s'. s' = (fill s (fr f) f c op p True)\<lparr>ch_chan := chs, fb_heap := h, fb_running := r, fb_switched := n\<rparr> \<and>
    cbind (alt_queue (fill s (fr f) f c op p True) (fr f)) acl_fiber_switch = Inr (ctx, s') \<and> fiber_queues s' R' \<and>
    running_at R' ctx s' \<and> (\<forall>c'\<in>C. chan_state fr own R' ctx s' sent got c')"
proof -
  define T where "T = fill s (fr f) f c op p True"
  have op: "op = CHANSND \<or> op = CHANRCV" using call by (auto simp: call_ok_def)
  have stT: "chan_state fr own R (Ctx f) T sent got c'" if "c' \<in> C" for c'
    unfolding T_def by (rule fill_state [OF fr st [OF that]])
  note i = stT [OF c, unfolded chan_state_def]
  have a: "al_op (ch_alt T (fr f)) = op" "al_c (ch_alt T (fr f)) = c" by (simp_all add: T_def)
  obtain ch where ch: "alt_queue T (fr f) = Inr (set_chan T c ch)" "waiting ch op = waiting (ch_chan T c) op @ [fr f]"
    "waiting ch (otherop op) = waiting (ch_chan T c) (otherop op)" "chan_ok ch = chan_ok (ch_chan T c)"
    "chan_queue ch = chan_queue (ch_chan T c)" "cc_bufsize ch = cc_bufsize (ch_chan T c)" "cc_nbuf ch = cc_nbuf (ch_chan T c)"
    "cc_elemsize ch = cc_elemsize (ch_chan T c)"
    using queue_waiting [OF op a] by blast
  have w: "waiting (ch_chan T c) (otherop op) = []" "op = CHANSND \<Longrightarrow> cc_nbuf (ch_chan T c) = cc_bufsize (ch_chan T c)"
    "op = CHANRCV \<Longrightarrow> cc_nbuf (ch_chan T c) = 0"
    using wait_state [of "ch_chan T c" op T "fr f"] i op can a by (auto simp: T_def)
  define t1 where "t1 = set_chan T c ch"
  have f: "fb_running s = Some f" "fb_status s f \<noteq> FIBER_STATUS_EXITING" "parked R Original t1 f"
    using at by (auto simp: running_at_def parked_def t1_def set_chan_def T_def)
  have q1: "fiber_queues t1 R" using q by (simp add: t1_def set_chan_def T_def fiber_queues_def)
  obtain ctx s' where sw: "acl_fiber_switch t1 = Inr (ctx, s')"
    using acl_fiber_switch_total [OF q1, of f] f by (auto simp: t1_def set_chan_def T_def)
  obtain R' h r n where s': "s' = t1\<lparr>fb_heap := h, fb_running := r, fb_switched := n\<rparr>" "fiber_queues s' R'" "running_at R' ctx s'"
    "\<And>g. parked R Original t1 g \<Longrightarrow> parked R' ctx s' g"
    using switch_parks [OF q1 _ _ sw, of f] f by (auto simp: t1_def set_chan_def T_def)
  have fld: "ch_chan s' = (ch_chan T)(c := ch)" "ch_alt s' = ch_alt T" "ch_cell s' = ch_cell T"
    by (simp_all add: s'(1) t1_def set_chan_def)
  have pk: "parked R' ctx s' g" if "parked R (Ctx f) T g" for g
    using s'(4) that by (auto simp: parked_def t1_def set_chan_def)
  have keep: "waiter fr own R' ctx s' d o' x g" if "waiter fr own R (Ctx f) T d o' x g" for d o' x g
    by (rule waiter_cong [OF that]) (use that pk ch(8) in \<open>auto simp: fld waiter_def\<close>)
  have new: "waiter fr own R' ctx s' c op (fr f) f"
    using s'(4) [OF f(3)] call ch(8) unfolding waiter_def waits_def fld
    by (auto simp: T_def call_ok_def elem_ok_def fld split: option.splits)
  have "chan_state fr own R' ctx s' sent got c'" if "c' \<in> C" for c'
  proof (cases "c' = c")
    case False
    then have "ch_chan s' c' = ch_chan T c'" by (simp add: fld)
    then show ?thesis using stT [OF that] keep unfolding chan_state_def waiters_ok_def by metis
  next
    case True
    have W: "waiters_ok fr own R (Ctx f) T c op" using i op by auto
    have nf: "fr f \<notin> set (waiting (ch_chan T c) op)"
    proof
      assume "fr f \<in> set (waiting (ch_chan T c) op)"
      then obtain g where "waiter fr own R (Ctx f) T c op (fr f) g" using W unfolding waiters_ok_def by blast
      then show False using fr by (auto simp: waiter_def parked_def frames_def)
    qed
    have "waiters_ok fr own R' ctx s' c op"
      unfolding waiters_ok_def fld using W ch(2) nf keep new unfolding waiters_ok_def by fastforce
    moreover have "waiters_ok fr own R' ctx s' c (otherop op)" using ch(3) w(1) by (simp add: waiters_ok_def fld)
    moreover have "chan_idle ch"
      using op ch(2,3,6,7) w by (auto simp: chan_idle_def)
    ultimately show ?thesis using op True ch(4,5) i by (auto simp: chan_state_def fld)
  qed
  moreover have "s' = T\<lparr>ch_chan := (ch_chan T)(c := ch), fb_heap := h, fb_running := r, fb_switched := n\<rparr>"
    by (simp add: s'(1) t1_def set_chan_def)
  moreover have "cbind (alt_queue T (fr f)) acl_fiber_switch = Inr (ctx, s')" using ch(1) sw by (simp add: t1_def)
  ultimately show ?thesis unfolding T_def [symmetric] using s'(2,3)
    by (intro exI [of _ "(ch_chan T)(c := ch)"] exI [of _ h] exI [of _ r] exI [of _ n] exI [of _ ctx] exI [of _ R'] exI [of _ s']
        conjI ballI)
qed

subsection \<open>Every step keeps the invariant\<close>

lemma chan_invI:
  "frames fr \<Longrightarrow> fiber_queues s R \<Longrightarrow> running_at R (cs_at s) s \<Longrightarrow>
     (\<And>c. c \<in> C \<Longrightarrow> chan_state fr own R (cs_at s) s (cs_sent s) (cs_got s) c) \<Longrightarrow> chan_inv C fr own s"
  by (auto simp: chan_inv_def)

lemma chan_inv_cases:
  assumes "chan_inv C fr own s"
  obtains R where "frames fr" "fiber_queues s R" "running_at R (cs_at s) s"
    "\<And>c. c \<in> C \<Longrightarrow> chan_state fr own R (cs_at s) s (cs_sent s) (cs_got s) c"
  using assms unfolding chan_inv_def by blast

lemma op_cases:
  assumes inv: "chan_inv C fr own s" and at: "cs_at s = Ctx f" and c: "c \<in> C" and call: "call_ok own s f c op p"
  obtains (returned) r s' where "channel_op s (fr f) c op p blk r1 r2 = Inr (Returned r, s')" "r = 1 \<or> r = -1"
      "chan_inv C fr own (if r < 0 then s' else log_transfer s s' c op p r2)"
  | (switched) ctx s' where "channel_op s (fr f) c op p blk r1 r2 = Inr (Switched ctx, s')" "blk"
      "\<And>pc. chan_inv C fr own (s'\<lparr>cs_at := ctx, cs_pc := pc\<rparr>)"
proof -
  obtain R where R: "frames fr" "fiber_queues s R" "running_at R (Ctx f) s"
    "\<And>c. c \<in> C \<Longrightarrow> chan_state fr own R (Ctx f) s (cs_sent s) (cs_got s) c"
    using inv at by (metis chan_inv_cases)
  have run: "fb_running s = Some f" using R(3) by (simp add: running_at_def)
  have op: "op = CHANSND \<or> op = CHANRCV" using call by (auto simp: call_ok_def)
  let ?T = "fill s (fr f) f c op p blk"
  note eq = channel_op_fill [OF op run, of "fr f" c p blk r1 r2]
  show ?thesis
  proof (cases "alt_can_exec ?T (fr f)")
    case True
    obtain st h cl chs R' s' where s': "s' = ?T\<lparr>fb_status := st, fb_heap := h, ch_cell := cl, ch_chan := chs\<rparr>"
      "alt_exec ?T (fr f) r2 = Inr s'" "fiber_queues s' R'" "running_at R' (Ctx f) s'"
      "\<And>c'. c' \<in> C \<Longrightarrow> chan_state fr own R' (Ctx f) s' ((cs_sent s)(c := cs_sent s c @ took s c op p r2))
        ((cs_got s)(c := cs_got s c @ gave s s' c op p r2)) c'"
      using exec_keeps [OF R c call True, of r2] by blast
    have fld: "cs_at s' = Ctx f" "cs_sent s' = cs_sent s" "cs_got s' = cs_got s" using at by (simp_all add: s'(1) fill_def)
    have "chan_inv C fr own (log_transfer s s' c op p r2)"
    proof (rule chan_invI [OF R(1), of _ R'])
      show "fiber_queues (log_transfer s s' c op p r2) R'" using s'(3) by (simp add: log_transfer_def fiber_queues_def)
      show "running_at R' (cs_at (log_transfer s s' c op p r2)) (log_transfer s s' c op p r2)"
        using s'(4) fld(1) by (simp add: log_transfer_def running_at_def)
      show "chan_state fr own R' (cs_at (log_transfer s s' c op p r2)) (log_transfer s s' c op p r2)
          (cs_sent (log_transfer s s' c op p r2)) (cs_got (log_transfer s s' c op p r2)) c'" if "c' \<in> C" for c'
        by (rule chan_state_cong [OF s'(5) [OF that]]) (simp_all add: log_transfer_def fld parked_def)
    qed
    then show ?thesis using returned [of 1 s'] eq True s'(2) by simp
  next
    case False
    show ?thesis
    proof (cases blk)
      case True
      have nc: "\<not> alt_can_exec (fill s (fr f) f c op p True) (fr f)" using False True by simp
      obtain chs h r n ctx R' s' where s': "s' = (fill s (fr f) f c op p True)\<lparr>ch_chan := chs, fb_heap := h, fb_running := r, fb_switched := n\<rparr>"
        "cbind (alt_queue (fill s (fr f) f c op p True) (fr f)) acl_fiber_switch = Inr (ctx, s')" "fiber_queues s' R'" "running_at R' ctx s'"
        "\<And>c'. c' \<in> C \<Longrightarrow> chan_state fr own R' ctx s' (cs_sent s) (cs_got s) c'"
        using wait_keeps [OF R c call nc] by blast
      have fld: "cs_sent s' = cs_sent s" "cs_got s' = cs_got s" by (simp_all add: s'(1) fill_def)
      have "channel_op s (fr f) c op p blk r1 r2 = Inr (Switched ctx, s')"
        using eq nc True s'(2) by (auto simp: cbind_def split: sum.splits)
      moreover have "chan_inv C fr own (s'\<lparr>cs_at := ctx, cs_pc := pc\<rparr>)" for pc
      proof (rule chan_invI [OF R(1), of _ R'])
        show "chan_state fr own R' (cs_at (s'\<lparr>cs_at := ctx, cs_pc := pc\<rparr>)) (s'\<lparr>cs_at := ctx, cs_pc := pc\<rparr>)
            (cs_sent (s'\<lparr>cs_at := ctx, cs_pc := pc\<rparr>)) (cs_got (s'\<lparr>cs_at := ctx, cs_pc := pc\<rparr>)) c'" if "c' \<in> C" for c'
          by (rule chan_state_cong [OF s'(5) [OF that]]) (simp_all add: fld parked_def)
      qed (use s'(3,4) in \<open>simp_all add: fiber_queues_def running_at_def\<close>)
      ultimately show ?thesis using switched [of ctx s'] True by simp
    next
      case nb: False
      have "chan_inv C fr own ?T"
      proof (rule chan_invI [OF R(1), of _ R])
        show "chan_state fr own R (cs_at ?T) ?T (cs_sent ?T) (cs_got ?T) c'" if "c' \<in> C" for c'
          using fill_state [OF R(1) R(4) [OF that], of c op p blk] at by (simp add: fill_def)
      qed (use R(2,3) at in \<open>simp_all add: fiber_queues_def running_at_def fill_def\<close>)
      then show ?thesis using returned [of "-1" ?T] eq False nb by simp
    qed
  qed
qed

text \<open>Steps that leave the channels alone: the scheduler's.\<close>

lemma schedule_keeps:
  assumes "frames fr" "\<And>c. c \<in> C \<Longrightarrow> chan_state fr own R (cs_at s) s (cs_sent s) (cs_got s) c"
    "fiber_queues s' R'" "running_at R' ctx s'" "\<And>g. parked R (cs_at s) s g \<Longrightarrow> parked R' ctx s' g"
    "ch_chan s' = ch_chan s" "ch_alt s' = ch_alt s" "ch_cell s' = ch_cell s" "cs_sent s' = cs_sent s" "cs_got s' = cs_got s"
  shows "chan_inv C fr own (s'\<lparr>cs_at := ctx, cs_pc := pc\<rparr>)"
proof (rule chan_invI [OF assms(1), of _ R'])
  show "chan_state fr own R' (cs_at (s'\<lparr>cs_at := ctx, cs_pc := pc\<rparr>)) (s'\<lparr>cs_at := ctx, cs_pc := pc\<rparr>)
      (cs_sent (s'\<lparr>cs_at := ctx, cs_pc := pc\<rparr>)) (cs_got (s'\<lparr>cs_at := ctx, cs_pc := pc\<rparr>)) c" if "c \<in> C" for c
    by (rule chan_state_cong [OF assms(2) [OF that]]) (use assms(5-10) in \<open>auto simp: parked_def\<close>)
qed (use assms(3,4) in \<open>simp_all add: fiber_queues_def running_at_def\<close>)

lemma chan_pc_keeps:
  assumes "chan_inv C fr own s"
  shows "chan_inv C fr own (s\<lparr>cs_pc := pc\<rparr>)"
proof -
  obtain R where R: "frames fr" "fiber_queues s R" "running_at R (cs_at s) s"
    "\<And>c. c \<in> C \<Longrightarrow> chan_state fr own R (cs_at s) s (cs_sent s) (cs_got s) c"
    using assms chan_inv_cases by metis
  have "chan_inv C fr own (s\<lparr>cs_at := cs_at s, cs_pc := pc\<rparr>)" by (rule schedule_keeps [OF R(1,4,2,3)]) simp_all
  then show ?thesis by simp
qed

lemma chan_yield_keeps:
  assumes inv: "chan_inv C fr own s" and at: "cs_at s = Ctx f" and op: "acl_fiber_yield s = Inr (Some ctx, s')"
  shows "chan_inv C fr own (s'\<lparr>cs_at := ctx, cs_pc := pc\<rparr>)"
proof -
  obtain R where R: "frames fr" "fiber_queues s R" "running_at R (cs_at s) s"
    "\<And>c. c \<in> C \<Longrightarrow> chan_state fr own R (cs_at s) s (cs_sent s) (cs_got s) c"
    using inv chan_inv_cases by metis
  have f: "fb_running s = Some f" "parked R Original s f" using R(3) at by (auto simp: running_at_def parked_def)
  obtain R1 h where r: "acl_fiber_ready s f = Inr (s\<lparr>fb_status := (fb_status s)(f := FIBER_STATUS_READY), fb_heap := h\<rparr>)"
    "fiber_queues (s\<lparr>fb_status := (fb_status s)(f := FIBER_STATUS_READY), fb_heap := h\<rparr>) R1"
    "\<And>x. x \<noteq> f \<Longrightarrow> x \<noteq> fb_ready s \<Longrightarrow> R1 x = R x"
    using ready_parks [OF R(2) f(2)] by blast
  define t1 where "t1 = s\<lparr>fb_status := (fb_status s)(f := FIBER_STATUS_READY), fb_heap := h\<rparr>"
  have sw: "acl_fiber_switch t1 = Inr (ctx, s')"
    using op f(1) r(1) by (auto simp: acl_fiber_yield_def t1_def cbind_Inr_iff split: if_splits)
  have "fb_running t1 = Some f" "fb_status t1 f \<noteq> FIBER_STATUS_EXITING" using f(1) by (simp_all add: t1_def)
  from switch_parks [OF r(2) [folded t1_def] this sw]
  obtain R' h' r' n where s': "s' = t1\<lparr>fb_heap := h', fb_running := r', fb_switched := n\<rparr>" "fiber_queues s' R'" "running_at R' ctx s'"
    "\<And>g. parked R1 Original t1 g \<Longrightarrow> parked R' ctx s' g" by blast
  have "parked R' ctx s' g" if "parked R (cs_at s) s g" for g
    by (rule s'(4)) (use that r(3) at in \<open>auto simp: parked_def t1_def\<close>)
  then show ?thesis using s'(2,3) by (intro schedule_keeps [OF R(1,4)]) (simp_all add: s'(1) t1_def)
qed

lemma chan_signal_keeps:
  assumes inv: "chan_inv C fr own s" and at: "cs_at s = Ctx f" and op: "acl_fiber_signal s (Some g) sig = Inr (Some ctx, s')"
    and g: "\<And>Q. is_ring (fb_heap s) (fb_ready s) Q \<Longrightarrow> g \<in> set Q"
  shows "chan_inv C fr own (s'\<lparr>cs_at := ctx, cs_pc := pc\<rparr>)"
proof -
  obtain R where R: "frames fr" "fiber_queues s R" "running_at R (cs_at s) s"
    "\<And>c. c \<in> C \<Longrightarrow> chan_state fr own R (cs_at s) s (cs_sent s) (cs_got s) c"
    using inv chan_inv_cases by metis
  have f: "fb_running s = Some f" "R f = Some []" "f \<noteq> fb_ready s" "f \<noteq> fb_dead s" "fb_status s f \<noteq> FIBER_STATUS_EXITING"
    using R(3) at by (auto simp: running_at_def)
  obtain Q where Q: "R (fb_ready s) = Some Q" using R(2) by (auto simp: fiber_queues_def)
  have "g \<in> set Q" by (rule g [OF ringsD [OF fiber_queuesD(1) [OF R(2)] Q]])
  then obtain xs ys where gQ: "Q = xs @ g # ys" using split_list by metis
  have Rg: "R g = None" using rings_member_no_head(1) [OF fiber_queuesD(1) [OF R(2)] Q \<open>g \<in> set Q\<close>] .
  have gn: "g \<noteq> f" "g \<noteq> fb_ready s" "g \<noteq> fb_dead s" using Rg f(2) Q R(2) by (auto simp: fiber_queues_def)
  let ?R = "R(fb_ready s \<mapsto> xs @ ys, f := None, fb_ready s \<mapsto> f # xs @ ys, g \<mapsto> [])"
  obtain e k n h where s': "ctx = Ctx g" "s' = s\<lparr>fb_errnum := e, fb_killed := k, fb_signum := n,
       fb_status := (fb_status s)(f := FIBER_STATUS_READY, g := FIBER_STATUS_READY),
       fb_heap := h, fb_running := Some g, fb_switched := fb_switched s + 1\<rparr>" "fiber_queues s' ?R"
    using acl_fiber_signal_queues [OF R(2) f(1) Q f(2-5) _ gn(1), of "fb_ready s" xs ys sig] op Q gQ by auto
  have run: "running_at ?R ctx s'" using gn by (simp add: running_at_def s'(1,2))
  have "parked ?R ctx s' x" if "parked R (cs_at s) s x" for x
    using that Rg at by (auto simp: parked_def s'(1,2))
  then show ?thesis using s'(3) run by (intro schedule_keeps [OF R(1,4)]) (simp_all add: s'(2))
qed

lemma turn_parks:
  assumes q: "fiber_queues s R" and op: "acl_fiber_schedule_turn s = Inr (Some ctx, s')"
  shows "\<exists>R' h st r n. s' = s\<lparr>fb_heap := h, fb_status := st, fb_running := r, fb_switched := n\<rparr> \<and> fiber_queues s' R' \<and>
    running_at R' ctx s' \<and> (\<forall>g. parked R Original s g \<longrightarrow> parked R' ctx s' g)"
proof -
  note d = fiber_queuesD(1) [OF q]
  obtain Q where Q: "R (fb_ready s) = Some Q" using q by (auto simp: fiber_queues_def)
  with op ring.take_head_empty [OF d, of "fb_ready s"] have "Q \<noteq> []" by (auto simp: acl_fiber_schedule_turn_def Let_def)
  then obtain g Q' where Q': "Q = g # Q'" by (cases Q) auto
  let ?R = "R(fb_ready s \<mapsto> Q', g \<mapsto> [])" and ?st = "(fb_status s)(g := FIBER_STATUS_READY)"
  obtain h where h: "acl_ring_pop_head (fb_heap s) (Some (fb_ready s)) = Inr (Some g, h)" "rings h ?R"
    using ring.take_head [OF d, of "fb_ready s" g Q'] Q Q' by auto
  have s': "ctx = Ctx g" "s' = s\<lparr>fb_heap := h, fb_status := ?st, fb_running := Some g, fb_switched := fb_switched s + 1\<rparr>"
    using op h(1) by (auto simp: acl_fiber_schedule_turn_def fiber_swap_def Let_def)
  have g: "R g = None" "g \<noteq> fb_ready s" using rings_member_no_head [OF d Q, of g] Q' by auto
  have gd: "g \<noteq> fb_dead s" using g q by (auto simp: fiber_queues_def)
  have "fiber_queues s' ?R" using h(2) q g gd Q Q' unfolding s' by (auto simp: fiber_queues_def)
  moreover have "running_at ?R ctx s'" using g gd by (simp add: running_at_def s')
  moreover have "parked ?R ctx s' x" if "parked R Original s x" for x using that g by (auto simp: parked_def s')
  ultimately show ?thesis using s'(2)
    by (intro exI [of _ ?R] exI [of _ h] exI [of _ ?st] exI [of _ "Some g"] exI [of _ "fb_switched s + 1"]) simp
qed

lemma chan_step_inv: "chan_step C fr own s s' \<Longrightarrow> chan_inv C fr own s \<Longrightarrow> chan_inv C fr own s'"
proof (induction rule: chan_step.induct)
  case (op_now s f c op p blk r1 r2 r s')
  show ?case by (rule op_cases [OF op_now(6,1,3,4), of blk r1 r2]) (use op_now(5) in auto)
next
  case (op_wait s f c op p blk r1 r2 ctx s')
  show ?case by (rule op_cases [OF op_wait(6,1,3,4), of blk r1 r2]) (use op_wait(5) in auto)
next
  case (store s f x bs)
  obtain R where R: "frames fr" "fiber_queues s R" "running_at R (cs_at s) s"
    "\<And>c. c \<in> C \<Longrightarrow> chan_state fr own R (cs_at s) s (cs_sent s) (cs_got s) c"
    using store.prems chan_inv_cases by metis
  let ?s = "s\<lparr>ch_cell := (ch_cell s)(x := bs)\<rparr>"
  show ?case
  proof (rule chan_invI [OF R(1), of _ R])
    show "chan_state fr own R (cs_at ?s) ?s (cs_sent ?s) (cs_got ?s) c" if "c \<in> C" for c
      by (rule chan_state_cong [OF R(4) [OF that]]) (use store(4) in \<open>simp_all add: parked_def\<close>)
  qed (use R(2,3) in \<open>simp_all add: fiber_queues_def running_at_def\<close>)
next
  case (chan_yield s f ctx s')
  then show ?case by (blast intro: chan_yield_keeps)
next
  case (chan_signal s f g ctx sig s')
  then show ?case by (blast intro: chan_signal_keeps)
next
  case (chan_turn s ctx s')
  obtain R where R: "frames fr" "fiber_queues s R" "\<And>c. c \<in> C \<Longrightarrow> chan_state fr own R (cs_at s) s (cs_sent s) (cs_got s) c"
    using chan_turn.prems chan_inv_cases by metis
  obtain R' h st r n where s': "s' = s\<lparr>fb_heap := h, fb_status := st, fb_running := r, fb_switched := n\<rparr>" "fiber_queues s' R'"
    "running_at R' ctx s'" "\<And>g. parked R Original s g \<Longrightarrow> parked R' ctx s' g"
    using turn_parks [OF R(2) chan_turn(3)] by blast
  have "chan_inv C fr own (s'\<lparr>cs_at := ctx, cs_pc := cs_pc s'\<rparr>)"
    by (rule schedule_keeps [OF R(1,3) s'(2,3)]) (use s'(4) chan_turn(1) in \<open>simp_all add: s'(1)\<close>)
  then show ?case by simp
next
  case (chan_back s)
  obtain R where R: "frames fr" "fiber_queues s R" "\<And>c. c \<in> C \<Longrightarrow> chan_state fr own R (cs_at s) s (cs_sent s) (cs_got s) c"
    using chan_back.prems chan_inv_cases by metis
  let ?s = "acl_fiber_schedule_back s"
  have "chan_inv C fr own (?s\<lparr>cs_at := Original, cs_pc := cs_pc ?s\<rparr>)"
    by (rule schedule_keeps [OF R(1,3), where R' = R])
      (use R(2) chan_back(1) in \<open>simp_all add: acl_fiber_schedule_back_def fiber_queues_def running_at_def parked_def\<close>)
  moreover have "?s\<lparr>cs_at := Original, cs_pc := cs_pc ?s\<rparr> = ?s" using chan_back(1) by (simp add: acl_fiber_schedule_back_def)
  ultimately show ?case by simp
next
  case (op_resume s f)
  then show ?case by (blast intro: chan_pc_keeps)
next
  case (chan_yield_resume s f)
  then show ?case by (blast intro: chan_pc_keeps)
qed

subsection \<open>Reachable states\<close>

text \<open>At the start the channels have just been created, and the scheduler's loop runs.\<close>

definition chan_start :: "addr set \<Rightarrow> (addr \<Rightarrow> addr) \<Rightarrow> chan_sys \<Rightarrow> bool" where
  "chan_start C fr s \<longleftrightarrow>
     frames fr \<and> cs_at s = Original \<and> (\<exists>R. fiber_queues s R) \<and>
     (\<forall>c\<in>C. (\<exists>elemsize bufsize. bufsize < 2 ^ 31 \<and> ch_chan s c = ch_chan (acl_channel_create s c elemsize bufsize) c) \<and>
       cs_sent s c = [] \<and> cs_got s c = [])"

definition chan_reach :: "addr set \<Rightarrow> (addr \<Rightarrow> addr) \<Rightarrow> (addr \<Rightarrow> addr) \<Rightarrow> chan_sys \<Rightarrow> bool" where
  "chan_reach C fr own s \<longleftrightarrow> (\<exists>s0. chan_start C fr s0 \<and> (chan_step C fr own)\<^sup>*\<^sup>* s0 s)"

lemma create_state:
  assumes "ch_chan s c = ch_chan (acl_channel_create s c e b) c" "b < 2 ^ 31" "sent c = []" "got c = []"
  shows "chan_state fr own R ctx s sent got c"
proof -
  have "chan_ok (ch_chan s c)" "chan_idle (ch_chan s c)" "chan_queue (ch_chan s c) = []"
    "waiting (ch_chan s c) CHANSND = []" "waiting (ch_chan s c) CHANRCV = []"
    unfolding assms(1) using assms(2)
    by (simp_all add: acl_channel_create_def set_chan_def chan_ok_def chan_idle_def chan_queue_def)
  then show ?thesis using assms(3,4) by (simp add: chan_state_def waiters_ok_def)
qed

lemma chan_reach_inv:
  assumes "chan_reach C fr own s"
  shows "chan_inv C fr own s"
proof -
  obtain s0 where s0: "chan_start C fr s0" "(chan_step C fr own)\<^sup>*\<^sup>* s0 s" using assms by (auto simp: chan_reach_def)
  have "chan_inv C fr own s0"
    using s0(1) create_state unfolding chan_start_def chan_inv_def running_at_def by (metis exec_ctx.distinct(1))
  with s0(2) show ?thesis by (induction rule: rtranclp_induct) (auto intro: chan_step_inv)
qed

section \<open>Runs\<close>

text \<open>A run of the system as a function, so that it can be evaluated.\<close>

datatype chan_cmd = COp addr altop ptr bool nat nat | CResume | CTurn

definition chan_exec :: "addr list \<Rightarrow> (addr \<Rightarrow> addr) \<Rightarrow> (addr \<Rightarrow> addr) \<Rightarrow> chan_cmd \<Rightarrow> chan_sys \<Rightarrow> chan_sys option" where
  "chan_exec C fr own cmd s =
     (case cs_at s of
        Original \<Rightarrow>
          (if cmd = CTurn then
             (case acl_fiber_schedule_turn (acl_fiber_schedule_back s) of
                Inr (Some ctx, s') \<Rightarrow> Some (s'\<lparr>cs_at := ctx\<rparr>)
              | _ \<Rightarrow> None)
           else None)
      | Ctx f \<Rightarrow>
          (case cmd of
             COp c op p blk r1 r2 \<Rightarrow>
               if cs_pc s f = ChUser \<and> List.member C c \<and> call_ok own s f c op p then
                 (case channel_op s (fr f) c op p blk r1 r2 of
                    Inr (Returned r, s') \<Rightarrow> Some (if r < 0 then s' else log_transfer s s' c op p r2)
                  | Inr (Switched ctx, s') \<Rightarrow> Some (s'\<lparr>cs_at := ctx, cs_pc := (cs_pc s')(f := ChWait)\<rparr>)
                  | Inl _ \<Rightarrow> None)
               else None
           | CResume \<Rightarrow> if cs_pc s f = ChWait then Some (s\<lparr>cs_pc := (cs_pc s)(f := ChUser)\<rparr>) else None
           | CTurn \<Rightarrow> None))"

fun chan_run :: "addr list \<Rightarrow> (addr \<Rightarrow> addr) \<Rightarrow> (addr \<Rightarrow> addr) \<Rightarrow> chan_cmd list \<Rightarrow> chan_sys \<Rightarrow> chan_sys option" where
  "chan_run C fr own [] s = Some s"
| "chan_run C fr own (cmd # cmds) s =
     (case chan_exec C fr own cmd s of None \<Rightarrow> None | Some s' \<Rightarrow> chan_run C fr own cmds s')"

lemma chan_exec_steps: "chan_exec C fr own cmd s = Some s' \<Longrightarrow> (chan_step (set C) fr own)\<^sup>*\<^sup>* s s'"
proof -
  assume ex: "chan_exec C fr own cmd s = Some s'"
  show ?thesis
  proof (cases "cs_at s")
    case Original
    let ?b = "acl_fiber_schedule_back s"
    have b: "cs_at ?b = Original" "fb_running ?b = None" using Original by (simp_all add: acl_fiber_schedule_back_def)
    obtain ctx t where t: "acl_fiber_schedule_turn ?b = Inr (Some ctx, t)" "s' = t\<lparr>cs_at := ctx\<rparr>"
      using ex Original by (auto simp: chan_exec_def split: if_splits sum.splits prod.splits option.splits)
    have "chan_step (set C) fr own s ?b" by (rule chan_back [OF Original])
    moreover have "chan_step (set C) fr own ?b s'" unfolding t(2) by (rule chan_turn [OF b t(1)])
    ultimately show ?thesis by auto
  next
    case (Ctx f)
    show ?thesis
    proof (cases cmd)
      case (COp c op p blk r1 r2)
      then have g: "cs_pc s f = ChUser" "c \<in> set C" "call_ok own s f c op p"
        using ex Ctx by (auto simp: chan_exec_def split: if_splits)
      obtain o' t where o: "channel_op s (fr f) c op p blk r1 r2 = Inr (o', t)"
        using ex Ctx COp by (auto simp: chan_exec_def split: if_splits sum.splits)
      show ?thesis
      proof (cases o')
        case (Returned r)
        then have "s' = (if r < 0 then t else log_transfer s t c op p r2)"
          using ex Ctx COp o by (auto simp: chan_exec_def split: if_splits)
        then show ?thesis using op_now [where fr = fr, OF Ctx g o [unfolded Returned]] by auto
      next
        case (Switched ctx)
        then have "s' = t\<lparr>cs_at := ctx, cs_pc := (cs_pc t)(f := ChWait)\<rparr>"
          using ex Ctx COp o by (auto simp: chan_exec_def split: if_splits)
        then show ?thesis using op_wait [where fr = fr, OF Ctx g o [unfolded Switched]] by auto
      qed
    next
      case CResume
      then show ?thesis using ex Ctx op_resume [OF Ctx] by (auto simp: chan_exec_def split: if_splits)
    next
      case CTurn
      then show ?thesis using ex Ctx by (simp add: chan_exec_def)
    qed
  qed
qed

lemma chan_run_steps: "chan_run C fr own cmds s = Some s' \<Longrightarrow> (chan_step (set C) fr own)\<^sup>*\<^sup>* s s'"
proof (induction cmds arbitrary: s)
  case (Cons cmd cmds)
  then obtain s1 where "chan_exec C fr own cmd s = Some s1" "chan_run C fr own cmds s1 = Some s'" by (auto split: option.splits)
  with Cons.IH chan_exec_steps show ?case by (meson rtranclp_trans)
qed simp

text \<open>Two fibers, 10 and 11, and a channel at 5 with room for one byte; the variables 20 and 21 belong to them.\<close>

definition demo_fr :: "addr \<Rightarrow> addr" where "demo_fr f = 100 + 2 * f"

definition demo_own :: "addr \<Rightarrow> addr" where "demo_own x = x - 10"

definition chan_demo :: "nat \<Rightarrow> chan_sys" where
  "chan_demo bufsize =
     acl_channel_create
     \<lparr>fb_heap =
        \<lparr>rg_succ = (\<lambda>_. None)(1 := Some 10, 10 := Some 11, 11 := Some 1, 2 := Some 2),
         rg_pred = (\<lambda>_. None)(1 := Some 11, 10 := Some 1, 11 := Some 10, 2 := Some 2),
         rg_parent = (\<lambda>_. None)(1 := Some 1, 10 := Some 1, 11 := Some 1, 2 := Some 2),
         rg_len = (\<lambda>_. 0)(1 := 2)\<rparr>,
      fb_ready = 1, fb_dead = 2, fb_fibers = [10, 11], fb_size = 128, fb_exitcode = 0, fb_running = None,
      fb_idgen = 2, fb_count = 2, fb_switched = 0, fb_nlocal = 0, fb_status = (\<lambda>_. FIBER_STATUS_READY),
      fb_id = (\<lambda>_. 0)(10 := 1, 11 := 2), fb_slot = (\<lambda>_. 0)(11 := 1), fb_errnum = (\<lambda>_. 0),
      fb_sys = (\<lambda>_. False), fb_signum = (\<lambda>_. 0), fb_killed = (\<lambda>_. False),
      fb_stack = (\<lambda>_. 0)(10 := 100, 11 := 100), fb_locals = (\<lambda>_. []), fb_freed = [],
      ch_chan = (\<lambda>_. \<lparr>cc_bufsize = 0, cc_elemsize = 0, cc_buf = [], cc_nbuf = 0, cc_off = 0,
        cc_asend = \<lparr>aa_a = [], aa_m = 0\<rparr>, cc_arecv = \<lparr>aa_a = [], aa_m = 0\<rparr>\<rparr>),
      ch_alt = (\<lambda>_. \<lparr>al_c = 0, al_v = None, al_op = CHANEND, al_fiber = None, al_xalt = 0\<rparr>),
      ch_cell = (\<lambda>_. [])(20 := [7], 21 := [9]),
      cs_at = Original, cs_pc = (\<lambda>_. ChUser), cs_sent = (\<lambda>_. []), cs_got = (\<lambda>_. [])\<rparr> 5 1 bufsize"

lemma demo_frames: "frames demo_fr"
  unfolding frames_def demo_fr_def by presburger

lemma chan_demo_start:
  assumes "b < 2 ^ 31"
  shows "chan_start {5} demo_fr (chan_demo b)"
proof -
  have "rings (fb_heap (chan_demo b)) (map_of [(1, [10, 11]), (2, [])])"
    by (rule rings_of) (simp_all add: chan_demo_def acl_channel_create_def set_chan_def is_ring_def link_def)
  then have "fiber_queues (chan_demo b) (map_of [(1, [10, 11]), (2, [])])"
    by (simp add: fiber_queues_def) (simp add: chan_demo_def acl_channel_create_def set_chan_def)
  moreover have "ch_chan (chan_demo b) 5 = ch_chan (acl_channel_create (chan_demo b) 5 1 b) 5"
    by (simp add: chan_demo_def acl_channel_create_def set_chan_def)
  ultimately show ?thesis
    using assms demo_frames by (auto simp: chan_start_def) (simp_all add: chan_demo_def acl_channel_create_def set_chan_def)
qed

lemma chan_demo_run:
  assumes "case chan_run [5] demo_fr demo_own cmds (chan_demo b) of Some s \<Rightarrow> P s | None \<Rightarrow> False" "b < 2 ^ 31"
  obtains s where "chan_reach {5} demo_fr demo_own s" "P s"
  using assms chan_run_steps [of "[5]" demo_fr demo_own cmds "chan_demo b"] chan_demo_start [OF assms(2)]
  by (auto simp: chan_reach_def split: option.splits)

lemmas chan_run_defs = chan_demo_def demo_fr_def demo_own_def chan_exec_def acl_channel_create_def set_chan_def
  acl_fiber_schedule_turn_def acl_fiber_schedule_back_def acl_ring_pop_head_def acl_ring_detach_def acl_ring_prepend_def
  set_field_defs acl_ring_size_def fiber_swap_def acl_fiber_switch_def acl_fiber_ready_def Let_def call_ok_def elem_ok_def
  elem_def channel_op_def channel_alt_def set_alt_def alt_can_exec_def channel_array_def otherop_def alt_exec_def alt_copy_def
  buf_get_def buf_put_def move_to_cell_def amove_def source_of_def alt_queue_def set_array_def array_add_def array_del_def
  alt_dequeue_def numeral_2_eq_2 log_transfer_def took_def gave_def partner_def waiting_def

text \<open>Fiber 10 sends twice, waiting the second time; fiber 11 receives the first element.\<close>

lemma chan_demo_sent:
  "case chan_run [5] demo_fr demo_own [CTurn, COp 5 CHANSND (Some 20) True 0 0, COp 5 CHANSND (Some 20) True 0 0,
      COp 5 CHANRCV (Some 21) True 0 0] (chan_demo 1) of
     Some s \<Rightarrow> cs_got s 5 = [[7]] \<and> cs_sent s 5 = [[7], [7]] \<and> ch_cell s 21 = [7] | None \<Rightarrow> False"
  by (simp add: chan_run_defs)

lemma chan_demo_waiting:
  "case chan_run [5] demo_fr demo_own [CTurn, COp 5 CHANRCV (Some 20) True 0 0] (chan_demo 0) of
     Some s \<Rightarrow> cs_at s = Ctx 11 \<and> waiting (ch_chan s 5) CHANRCV = [120] \<and>
       call_ok demo_own s 11 5 CHANSND (Some 21) \<and> (\<exists>out s'. acl_fiber_kill s (Some 10) = Inr (out, s')) | None \<Rightarrow> False"
  by (simp add: chan_run_defs acl_fiber_kill_def acl_fiber_signal_def SIGKILL_def SIGTERM_def SIGQUIT_def acl_ring_append_def)

section \<open>Values of 64 bits\<close>

lemma bit_ulong_of:
  "n < 64 \<Longrightarrow> bit (ulong_of bs) n \<longleftrightarrow> n div 8 < length bs \<and> bit (bs ! (n div 8)) (n mod 8)"
proof (induction bs arbitrary: n)
  case (Cons b bs)
  show ?case
  proof (cases "n < 8")
    case True
    then show ?thesis using Cons.prems by (simp add: bit_simps)
  next
    case False
    then have "n div 8 = Suc ((n - 8) div 8)" "(n - 8) mod 8 = n mod 8" "\<not> bit b n"
      using bit_imp_le_length [of b n] by (auto simp: le_div_geq le_mod_geq not_less)
    then show ?thesis using False Cons.prems Cons.IH [of "n - 8"] by (simp add: bit_simps not_less)
  qed
qed simp

lemma ulong_roundtrip: "ulong_of (ulong_bytes w) = w"
proof (rule bit_word_eqI)
  fix n assume "n < LENGTH(64)"
  then have n: "n < 64" "n div 8 < 8" by simp_all
  then have "bit (ulong_of (ulong_bytes w)) n = bit w (8 * (n div 8) + n mod 8)"
    by (simp add: bit_ulong_of ulong_bytes_def bit_simps)
  then show "bit (ulong_of (ulong_bytes w)) n = bit w n" by simp
qed

text \<open>What \<open>recvp\<close> and \<open>recvul\<close> read back is what \<open>sendp\<close> and \<open>sendul\<close> put in, unless the call failed.\<close>

lemma recv_results:
  assumes "take 8 (ch_cell t loc) = ulong_bytes w" "0 \<le> r"
  shows "recvul_result t loc r = w" "recvp_result t loc r = w"
  using assms by (simp_all add: recvul_result_def recvp_result_def ulong_roundtrip)

section \<open>What killing a fiber leaves\<close>

lemma fiber_tls_more_kick: "fiber_kick_loop n t = Inr t' \<Longrightarrow> fiber_tls.more t' = fiber_tls.more t \<and> fb_killed t' = fb_killed t"
proof (induction n arbitrary: t)
  case (Suc n)
  then show ?case by (auto simp: cbind_Inr_iff fiber_free_def split: option.splits)
qed simp

lemma fiber_tls_more_swap:
  "fiber_swap t from to = Inr (c, t') \<Longrightarrow> fiber_tls.more t' = fiber_tls.more t \<and> fb_killed t' = fb_killed t"
  by (auto simp: fiber_swap_def cbind_Inr_iff Let_def fiber_kick_def split: exec_ctx.splits if_splits dest: fiber_tls_more_kick)

lemma fiber_tls_more_switch:
  "acl_fiber_switch t = Inr (c, t') \<Longrightarrow> fiber_tls.more t' = fiber_tls.more t \<and> fb_killed t' = fb_killed t"
  by (auto simp: acl_fiber_switch_def cbind_Inr_iff Let_def split: option.splits dest!: fiber_tls_more_swap)

lemma kill_fields:
  assumes "acl_fiber_kill t (Some f) = Inr (out, t')" "fb_running t = Some g"
  shows "fiber_tls.more t' = fiber_tls.more t \<and> fb_killed t' f"
  using assms
  by (auto simp: acl_fiber_kill_def acl_fiber_signal_def cbind_Inr_iff Let_def split: if_splits dest!: fiber_tls_more_switch)

lemma call_switches_away:
  assumes q: "fiber_queues s R" and at: "running_at R (Ctx f) s" and op: "op = CHANSND \<or> op = CHANRCV"
    and w: "alt_queue (fill s fr f c op p blk) fr = Inr t" "acl_fiber_switch t = Inr (ctx, s')"
  shows "ctx \<noteq> Ctx f"
proof -
  obtain ch where t: "t = set_chan (fill s fr f c op p blk) c ch"
    using queue_waiting [OF op, of "fill s fr f c op p blk" fr c] w(1) by auto
  have f: "fiber_queues t R" "fb_running t = Some f" "fb_status t f \<noteq> FIBER_STATUS_EXITING" "parked R Original t f"
    using q at by (auto simp: t set_chan_def fiber_queues_def running_at_def parked_def)
  show ?thesis using switch_parks [OF f(1-3) w(2)] f(4) by (auto simp: parked_def)
qed

section \<open>Properties\<close>

text \<open>C18: what a channel has given to receivers, followed by what its buffer still holds, is exactly what it has taken
  from senders, in the same order: in every state that any number of fibers reach by sending and receiving, blocking or not,
  nothing is lost, repeated or reordered, and the buffer never holds more than its size. The fibers may also yield, change their
  variables and signal fibers that do not wait in a channel; they send and receive with variables of their own that are large
  enough, or send NULL.\<close>

theorem channel_delivers_in_order:
  assumes "chan_reach C fr own s" "c \<in> C"
  shows "cs_sent s c = cs_got s c @ chan_queue (ch_chan s c) \<and> length (chan_queue (ch_chan s c)) \<le> cc_bufsize (ch_chan s c)"
proof -
  obtain R where "chan_state fr own R (cs_at s) s (cs_sent s) (cs_got s) c"
    using chan_reach_inv [OF assms(1)] assms(2) by (metis chan_inv_cases)
  then show ?thesis by (simp add: chan_state_def chan_ok_def)
qed

theorem channel_delivers_in_order_witness:
  "\<exists>s. chan_reach {5} demo_fr demo_own s \<and> cs_got s 5 = [[7]] \<and> cs_sent s 5 = [[7]] @ chan_queue (ch_chan s 5) \<and>
     length (chan_queue (ch_chan s 5)) \<le> cc_bufsize (ch_chan s 5)"
proof -
  obtain s where s: "chan_reach {5} demo_fr demo_own s" "cs_got s 5 = [[7]]"
    by (rule chan_demo_run [OF chan_demo_sent]) auto
  show ?thesis using channel_delivers_in_order [OF s(1), of 5] s by auto
qed

text \<open>C19: as long as no fiber is signalled or killed while it waits in a channel, a fiber waits only when it has to. In every state
  that fibers reach by sending and receiving with variables of their own that are large enough (or sending NULL), yielding, changing
  their variables and signalling fibers that do not wait in a channel, senders wait in a channel only while its buffer is
  full and receivers only while it is empty, senders and receivers never wait at once, no fiber waits twice in one array, and
  whoever waits does so with the frame of its own call and is neither running nor in a queue of the scheduler. (After a kill of a
  waiting fiber this is false: \<open>channel_killed_waiter_stays\<close>.)\<close>

theorem channel_waiters_blocked:
  assumes "chan_reach C fr own s" "c \<in> C"
  shows "(waiting (ch_chan s c) CHANSND \<noteq> [] \<longrightarrow> cc_nbuf (ch_chan s c) = cc_bufsize (ch_chan s c)) \<and>
    (waiting (ch_chan s c) CHANRCV \<noteq> [] \<longrightarrow> cc_nbuf (ch_chan s c) = 0) \<and>
    (waiting (ch_chan s c) CHANSND = [] \<or> waiting (ch_chan s c) CHANRCV = []) \<and>
    distinct (waiting (ch_chan s c) CHANSND @ waiting (ch_chan s c) CHANRCV) \<and>
    (\<forall>x\<in>set (waiting (ch_chan s c) CHANSND @ waiting (ch_chan s c) CHANRCV).
       \<exists>f. x = fr f \<and> al_c (ch_alt s x) = c \<and> al_fiber (ch_alt s x) = Some f \<and> cs_at s \<noteq> Ctx f \<and>
         is_ring (fb_heap s) f [])"
proof -
  obtain R where R: "fiber_queues s R" "chan_state fr own R (cs_at s) s (cs_sent s) (cs_got s) c"
    using chan_reach_inv [OF assms(1)] assms(2) by (metis chan_inv_cases)
  have idle: "chan_idle (ch_chan s c)" "chan_ok (ch_chan s c)" using R(2) by (simp_all add: chan_state_def)
  have w: "\<exists>f. x = fr f \<and> al_c (ch_alt s x) = c \<and> al_fiber (ch_alt s x) = Some f \<and> cs_at s \<noteq> Ctx f \<and>
      is_ring (fb_heap s) f []" if x: "x \<in> set (waiting (ch_chan s c) op)" and op: "op = CHANSND \<or> op = CHANRCV" for x op
  proof -
    have "waiters_ok fr own R (cs_at s) s c op" using R(2) op by (auto simp: chan_state_def)
    then obtain f where f: "waiter fr own R (cs_at s) s c op x f" using x unfolding waiters_ok_def by blast
    then have "R f = Some []" by (simp add: waiter_def parked_def)
    then have "is_ring (fb_heap s) f []" using ringsD [OF fiber_queuesD(1) [OF R(1)]] by simp
    with f show ?thesis by (auto simp: waiter_def waits_def parked_def)
  qed
  have "distinct (waiting (ch_chan s c) CHANSND)" "distinct (waiting (ch_chan s c) CHANRCV)"
    using R(2) by (simp_all add: chan_state_def waiters_ok_def)
  then show ?thesis using idle w [of _ CHANSND] w [of _ CHANRCV] by (auto simp: chan_idle_def)
qed

theorem channel_waiters_blocked_witness:
  "\<exists>s. chan_reach {5} demo_fr demo_own s \<and> waiting (ch_chan s 5) CHANRCV = [120] \<and> waiting (ch_chan s 5) CHANSND = [] \<and>
     cc_nbuf (ch_chan s 5) = 0"
proof -
  obtain s where s: "chan_reach {5} demo_fr demo_own s" "waiting (ch_chan s 5) CHANRCV = [120]"
    by (rule chan_demo_run [OF chan_demo_waiting]) auto
  show ?thesis using channel_waiters_blocked [OF s(1), of 5] s by auto
qed

text \<open>C20: no operation faults, as long as no fiber is signalled or killed while it waits in a channel. In a state that fibers reach by
  sending and receiving with variables of their own that are large enough (or sending NULL), yielding, changing their variables and
  signalling fibers that do not wait, whatever the random choices, the running fiber's call on a channel returns when it is made with
  such a variable (it receives not into NULL): 1 when the element was transferred, -1 when it would have to wait and may not, or it switches away,
  which only the blocking calls do; and then another fiber or the scheduler runs.\<close>

theorem channel_operations_do_not_fault:
  assumes "chan_reach C fr own s" "cs_at s = Ctx f" "c \<in> C" "call_ok own s f c op p"
  shows "\<exists>out s'. channel_op s (fr f) c op p blk r1 r2 = Inr (out, s') \<and>
    (out = Returned 1 \<or> out = Returned (-1) \<and> \<not> blk \<or> blk \<and> (\<exists>ctx. out = Switched ctx \<and> ctx \<noteq> Ctx f))"
proof -
  note inv = chan_reach_inv [OF assms(1)]
  have op: "op = CHANSND \<or> op = CHANRCV" using assms(4) by (auto simp: call_ok_def)
  obtain R where R: "fiber_queues s R" "running_at R (Ctx f) s" using inv assms(2) by (metis chan_inv_cases)
  have run: "fb_running s = Some f" using R(2) by (simp add: running_at_def)
  show ?thesis
  proof (rule op_cases [OF inv assms(2-4), of blk r1 r2])
    fix r s' assume r: "channel_op s (fr f) c op p blk r1 r2 = Inr (Returned r, s')" "r = 1 \<or> r = -1"
    have "\<not> blk" if "r = -1"
      using r(1) that unfolding channel_op_fill [OF op run] by (auto simp: cbind_Inr_iff split: if_splits)
    with r show ?thesis by auto
  next
    fix ctx s' assume w: "channel_op s (fr f) c op p blk r1 r2 = Inr (Switched ctx, s')" blk
    have "ctx \<noteq> Ctx f"
      using w(1) call_switches_away [OF R op, of "fr f" c p blk _ ctx s'] unfolding channel_op_fill [OF op run]
      by (auto simp: cbind_Inr_iff split: if_splits)
    with w show ?thesis by auto
  qed
qed

theorem channel_operations_do_not_fault_witness:
  "\<exists>s out s'. chan_reach {5} demo_fr demo_own s \<and> cs_at s = Ctx 11 \<and>
     acl_channel_send s (demo_fr 11) 5 (Some 21) 0 0 = Inr (out, s')"
proof -
  obtain s where s: "chan_reach {5} demo_fr demo_own s" "cs_at s = Ctx 11" "call_ok demo_own s 11 5 CHANSND (Some 21)"
    by (rule chan_demo_run [OF chan_demo_waiting]) auto
  show ?thesis
    using channel_operations_do_not_fault [OF s(1,2) _ s(3), of True 0 0] s(1,2) unfolding acl_channel_send_def by auto
qed

text \<open>a fiber that is killed while it waits leaves its frame behind. The call returns -1 when the killed fiber
  resumes, but the address of its \<open>FIBER_ALT\<close>, a variable of the call that has returned, is still in the channel's array.\<close>

theorem channel_killed_waiter_stays:
  assumes "chan_reach C fr own s" "cs_at s = Ctx g" "fr f \<in> set (waiting (ch_chan s c) op)"
    "acl_fiber_kill s (Some f) = Inr (out, s')"
  shows "channel_op_resume s' (fr f) f = -1 \<and> fr f \<in> set (waiting (ch_chan s' c) op)"
proof -
  obtain R where "running_at R (Ctx g) s" using chan_reach_inv [OF assms(1)] assms(2) by (metis chan_inv_cases)
  then have k: "fiber_tls.more s' = fiber_tls.more s" "fb_killed s' f"
    using kill_fields [OF assms(4)] by (auto simp: running_at_def)
  have "ch_chan s' = ch_chan s" using k(1) by (cases s; cases s') simp
  with k(2) assms(3) show ?thesis by (simp add: channel_op_resume_def channel_alt_resume_def acl_fiber_killed_def)
qed

theorem channel_killed_waiter_stays_witness:
  "\<exists>s out s'. chan_reach {5} demo_fr demo_own s \<and> acl_fiber_kill s (Some 10) = Inr (out, s') \<and>
     channel_op_resume s' 120 10 = -1 \<and> 120 \<in> set (waiting (ch_chan s' 5) CHANRCV)"
proof -
  obtain s out s' where s: "chan_reach {5} demo_fr demo_own s" "cs_at s = Ctx 11" "waiting (ch_chan s 5) CHANRCV = [120]"
    "acl_fiber_kill s (Some 10) = Inr (out, s')"
    by (rule chan_demo_run [OF chan_demo_waiting]) auto
  show ?thesis
    using channel_killed_waiter_stays [OF s(1,2) _ s(4), of 5 CHANRCV] s(1,3,4) by (auto simp: demo_fr_def)
qed

end
