(* ===== verification/Acl_Base64.thy ===== *)
theory Acl_Base64
  imports Acl_Interfaces
begin

text \<open>
  Base64 of \<open>lib_acl/src/code/acl_base64.c\<close> and \<open>acl_vstring_base64.c\<close>, and hexadecimal of
  \<open>lib_acl/src/stdlib/string/acl_hex_code.c\<close>. Characters are bytes, the C variables that
  hold them while they are shifted are 32-bit words. \<open>acl_base64_decode\<close> writes to a buffer
  whose size it computes from the length of its input, so its writes are checked; a
  \<open>ACL_VSTRING\<close> grows as it is written to and is the list of its bytes.
\<close>

section \<open>Tables\<close>

definition to_b64_tab :: "byte list" where
  "to_b64_tab = bytes_of ''ABCDEFGHIJKLMNOPQRSTUVWXYZabcdefghijklmnopqrstuvwxyz0123456789+/''"

text \<open>The initialiser of the decoding table has 255 entries, so there is none for the byte 255.\<close>

definition un_b64_tab :: "byte list" where
  "un_b64_tab = replicate 43 255 @
     [62, 255, 255, 255, 63, 52, 53, 54, 55, 56, 57, 58, 59, 60, 61, 255, 255, 255, 255, 255, 255,
      255, 0, 1, 2, 3, 4, 5, 6, 7, 8, 9, 10, 11, 12, 13, 14,
      15, 16, 17, 18, 19, 20, 21, 22, 23, 24, 25, 255, 255, 255, 255, 255,
      255, 26, 27, 28, 29, 30, 31, 32, 33, 34, 35, 36, 37, 38, 39, 40,
      41, 42, 43, 44, 45, 46, 47, 48, 49, 50, 51, 255, 255, 255, 255, 255] @ replicate 127 255"

definition pad_char :: byte where "pad_char = 61"

definition b2i :: "byte \<Rightarrow> cint" where "b2i c = ucast c"

section \<open>Operations\<close>

text \<open>
  \<open>acl_base64_encode\<close>: the loop over the input with the output pointer \<open>p\<close>; the buffer is
  allocated with \<open>4 * ((len + 2) / 3) + 1\<close> bytes.
\<close>

definition enc_char :: "cint \<Rightarrow> byte cres" where
  "enc_char v = tab_get to_b64_tab (unat v)"

definition put_enc :: "obuf \<Rightarrow> cint \<Rightarrow> obuf cres" where
  "put_enc p v = cbind (enc_char v) (put p)"

fun base64_encode_loop :: "byte list \<Rightarrow> obuf \<Rightarrow> obuf cres" where
  "base64_encode_loop [] p = Inr p"
| "base64_encode_loop (a # clear) p =
     (let x = b2i a in
      cbind (put_enc p (drop_bit 2 x AND 63)) (\<lambda>p.
        case clear of
          [] \<Rightarrow>
            cbind (put_enc p (push_bit 4 x AND 63)) (\<lambda>p.
            cbind (put p pad_char) (\<lambda>p. put p pad_char))
        | b # clear \<Rightarrow>
            (let y = b2i b in
             cbind (put_enc p ((push_bit 4 x OR (drop_bit 4 y AND 15)) AND 63)) (\<lambda>p.
               case clear of
                 [] \<Rightarrow> cbind (put_enc p (push_bit 2 y AND 63)) (\<lambda>p. put p pad_char)
               | c # clear \<Rightarrow>
                   (let x = b2i c in
                    cbind (put_enc p ((push_bit 2 y OR (drop_bit 6 x AND 3)) AND 63)) (\<lambda>p.
                    cbind (put_enc p (x AND 63)) (\<lambda>p.
                      base64_encode_loop clear p)))))))"

definition acl_base64_encode :: "byte list \<Rightarrow> byte list cres" where
  "acl_base64_encode inp =
     (let sz = 4 * ((int (length inp) + 2) div 3) + 1
      in if int (length inp) + 2 > INT_MAX \<or> sz > INT_MAX then Inl IntOverflow
         else cbind (base64_encode_loop inp (nat sz, [])) (\<lambda>p.
              cbind (put p 0) (\<lambda>p. Inr (butlast (snd p)))))"

text \<open>
  \<open>acl_base64_decode\<close>: the input is read up to its NUL. \<open>ERETURN (-1)\<close> is \<open>Inr None\<close>. The
  first and third bytes of a quantum are compared with 127 before they index the table, the
  second is not.
\<close>

definition dec_char :: "byte \<Rightarrow> byte cres" where
  "dec_char c = tab_get un_b64_tab (unat c)"

fun base64_decode_loop :: "byte list \<Rightarrow> obuf \<Rightarrow> obuf option cres" where
  "base64_decode_loop code p =
     (case code of
        [] \<Rightarrow> Inl OobRead
      | x0 # code \<Rightarrow>
          if x0 = 0 then Inr (Some p)
          else if x0 > 127 then Inr None
          else cbind (dec_char x0) (\<lambda>x. if x = 255 then Inr None else
            (case code of
               [] \<Rightarrow> Inl OobRead
             | y0 # code \<Rightarrow>
                 if y0 = 0 then Inr None
                 else cbind (dec_char y0) (\<lambda>y. if y = 255 then Inr None else
                   cbind (put p (ucast (push_bit 2 (b2i x) OR drop_bit 4 (b2i y)))) (\<lambda>p.
                     case code of
                       [] \<Rightarrow> Inl OobRead
                     | x1 # code \<Rightarrow>
                         if x1 = pad_char then
                           (case code of
                              [] \<Rightarrow> Inl OobRead
                            | z # code \<Rightarrow>
                                if z \<noteq> pad_char then Inr None
                                else (case code of
                                        [] \<Rightarrow> Inl OobRead
                                      | w # _ \<Rightarrow> if w \<noteq> 0 then Inr None else base64_decode_loop code p))
                         else if x1 > 127 then Inr None
                         else cbind (dec_char x1) (\<lambda>x. if x = 255 then Inr None else
                           cbind (put p (ucast (push_bit 4 (b2i y) OR drop_bit 2 (b2i x)))) (\<lambda>p.
                             case code of
                               [] \<Rightarrow> Inl OobRead
                             | y1 # code \<Rightarrow>
                                 if y1 = pad_char then
                                   (case code of
                                      [] \<Rightarrow> Inl OobRead
                                    | w # _ \<Rightarrow> if w \<noteq> 0 then Inr None else base64_decode_loop code p)
                                 else if y1 > 127 then Inr None
                                 else cbind (dec_char y1) (\<lambda>y. if y = 255 then Inr None else
                                   cbind (put p (ucast (push_bit 6 (b2i x) OR b2i y))) (\<lambda>p.
                                     base64_decode_loop code p)))))))))"

declare base64_decode_loop.simps [simp del]

definition acl_base64_decode :: "byte list \<Rightarrow> byte list option cres" where
  "acl_base64_decode str =
     cbind (base64_decode_loop (str @ [0]) (3 * (length str div 4) + 1, [])) (\<lambda>r.
       case r of
         None \<Rightarrow> Inr None
       | Some p \<Rightarrow> cbind (put p 0) (\<lambda>p. Inr (Some (butlast (snd p)))))"

text \<open>The same code over a growing string: \<open>acl_vstring_base64_encode\<close> and \<open>_decode\<close>.\<close>

fun vstring_base64_encode_loop :: "byte list \<Rightarrow> byte list \<Rightarrow> byte list cres" where
  "vstring_base64_encode_loop [] result = Inr result"
| "vstring_base64_encode_loop [a] result =
     cbind (enc_char (drop_bit 2 (b2i a))) (\<lambda>c0.
     cbind (enc_char (push_bit 4 (b2i a AND 3))) (\<lambda>c1.
       Inr (result @ [c0, c1, pad_char, pad_char])))"
| "vstring_base64_encode_loop [a, b] result =
     cbind (enc_char (drop_bit 2 (b2i a))) (\<lambda>c0.
     cbind (enc_char (push_bit 4 (b2i a AND 3) OR drop_bit 4 (b2i b))) (\<lambda>c1.
     cbind (enc_char (push_bit 2 (b2i b AND 15))) (\<lambda>c2.
       Inr (result @ [c0, c1, c2, pad_char]))))"
| "vstring_base64_encode_loop (a # b # c # cp) result =
     cbind (enc_char (drop_bit 2 (b2i a))) (\<lambda>c0.
     cbind (enc_char (push_bit 4 (b2i a AND 3) OR drop_bit 4 (b2i b))) (\<lambda>c1.
     cbind (enc_char (push_bit 2 (b2i b AND 15) OR drop_bit 6 (b2i c))) (\<lambda>c2.
     cbind (enc_char (b2i c AND 63)) (\<lambda>c3.
       vstring_base64_encode_loop cp (result @ [c0, c1, c2, c3])))))"

definition acl_vstring_base64_encode :: "byte list \<Rightarrow> byte list cres" where
  "acl_vstring_base64_encode inp = vstring_base64_encode_loop inp []"

text \<open>The decoder reads four bytes a turn while \<open>count < len\<close>, and stops at the first \<open>=\<close>.\<close>

fun vstring_base64_decode_loop :: "byte list \<Rightarrow> byte list \<Rightarrow> byte list option cres" where
  "vstring_base64_decode_loop [] result = Inr (Some result)"
| "vstring_base64_decode_loop (c0 # cp) result =
     cbind (dec_char c0) (\<lambda>ch0. if ch0 = 255 then Inr None else
       (case cp of
          [] \<Rightarrow> Inl OobRead
        | c1 # cp \<Rightarrow>
            cbind (dec_char c1) (\<lambda>ch1. if ch1 = 255 then Inr None else
              (let result = result @ [ucast (push_bit 2 (b2i ch0) OR drop_bit 4 (b2i ch1))]
               in case cp of
                    [] \<Rightarrow> Inl OobRead
                  | c2 # cp \<Rightarrow>
                      if c2 = pad_char then Inr (Some result)
                      else cbind (dec_char c2) (\<lambda>ch2. if ch2 = 255 then Inr None else
                        (let result = result @ [ucast (push_bit 4 (b2i ch1) OR drop_bit 2 (b2i ch2))]
                         in case cp of
                              [] \<Rightarrow> Inl OobRead
                            | c3 # cp \<Rightarrow>
                                if c3 = pad_char then Inr (Some result)
                                else cbind (dec_char c3) (\<lambda>ch3. if ch3 = 255 then Inr None else
                                  vstring_base64_decode_loop cp
                                    (result @ [ucast (push_bit 6 (b2i ch2) OR b2i ch3)]))))))))"

definition acl_vstring_base64_decode :: "byte list \<Rightarrow> byte list option cres" where
  "acl_vstring_base64_decode inp =
     (if length inp mod 4 \<noteq> 0 then Inr None else vstring_base64_decode_loop inp [])"

text \<open>Hexadecimal.\<close>

definition acl_hex_chars :: "byte list" where
  "acl_hex_chars = bytes_of ''0123456789ABCDEF''"

fun acl_hex_encode :: "byte list \<Rightarrow> byte list cres" where
  "acl_hex_encode [] = Inr []"
| "acl_hex_encode (ch # cp) =
     cbind (tab_get acl_hex_chars (unat (drop_bit 4 (b2i ch) AND 15))) (\<lambda>h.
     cbind (tab_get acl_hex_chars (unat (b2i ch AND 15))) (\<lambda>l.
     cbind (acl_hex_encode cp) (\<lambda>r. Inr (h # l # r))))"

definition hex_value :: "byte \<Rightarrow> cint option" where
  "hex_value c =
     (let hex = b2i c
      in if 48 \<le> hex \<and> hex \<le> 57 then Some (hex - 48)
         else if 65 \<le> hex \<and> hex \<le> 70 then Some (hex - 65 + 10)
         else if 97 \<le> hex \<and> hex \<le> 102 then Some (hex - 97 + 10)
         else None)"

fun acl_hex_decode :: "byte list \<Rightarrow> byte list option cres" where
  "acl_hex_decode [] = Inr (Some [])"
| "acl_hex_decode [_] = Inr None"
| "acl_hex_decode (c0 # c1 # cp) =
     (case hex_value c0 of
        None \<Rightarrow> Inr None
      | Some v0 \<Rightarrow>
          (case hex_value c1 of
             None \<Rightarrow> Inr None
           | Some v1 \<Rightarrow>
               cbind (acl_hex_decode cp) (\<lambda>r.
                 Inr (map_option (\<lambda>bs. ucast (push_bit 4 v0 OR v1) # bs) r))))"

section \<open>One quantum\<close>

definition sext :: "cint \<Rightarrow> byte" where
  "sext v = to_b64_tab ! unat (v AND 63)"

lemma b64_tables:
  "list_all (\<lambda>i. un_b64_tab ! unat (to_b64_tab ! i) = of_nat i) [0..<64]"
  "list_all (\<lambda>c. c \<noteq> 0 \<and> c \<noteq> 61 \<and> c \<le> 127) to_b64_tab"
  by code_simp (simp add: to_b64_tab_def bytes_of_def)

lemma un_b64_len: "length un_b64_tab = 255" by (simp add: un_b64_tab_def)

lemma to_b64_len: "length to_b64_tab = 64" by (simp add: to_b64_tab_def bytes_of_def)

lemma and63_less: "unat ((v :: cint) AND 63) < 64"
proof -
  have "v AND 63 = take_bit 6 v" by (simp add: take_bit_eq_mask mask_eq_decr_exp)
  then show ?thesis using take_bit_nat_less_exp [of 6 "unat v"] by (simp add: unsigned_take_bit_eq)
qed

lemma sext_props:
  "sext v \<noteq> 0" "sext v \<noteq> pad_char" "\<not> sext v > 127"
  "un_b64_tab ! unat (sext v) = ucast (v AND 63)"
proof -
  have t: "un_b64_tab ! unat (sext v) = of_nat (unat (v AND 63)) \<and> sext v \<noteq> 0 \<and> sext v \<noteq> 61 \<and> sext v \<le> 127"
    using b64_tables and63_less [of v] unfolding list_all_iff sext_def by (simp add: to_b64_len)
  then show "sext v \<noteq> 0" "sext v \<noteq> pad_char" "\<not> sext v > 127" by (auto simp: pad_char_def)
  have "of_nat (unat (v AND 63)) = (ucast (v AND 63) :: byte)" by (simp add: unsigned_of_nat)
  with t show "un_b64_tab ! unat (sext v) = ucast (v AND 63)" by simp
qed

lemma dec_sext [simp]: "dec_char (sext v) = Inr (ucast (v AND 63))"
proof -
  have "\<not> sext v > 127" by (rule sext_props)
  then have "unat (sext v) < 255" by (simp add: word_le_nat_alt not_less)
  then show ?thesis using sext_props(4) by (simp add: dec_char_def un_b64_len)
qed

lemma sextet_valid [simp]: "(ucast ((v :: cint) AND 63) :: byte) \<noteq> 255"
proof
  assume "(ucast (v AND 63) :: byte) = 255"
  then have "bit (ucast (v AND 63) :: byte) 7 = bit (255 :: byte) 7" by simp
  then show False by (simp add: bit_simps)
qed

lemma enc_char_and [simp]: "enc_char (v AND 63) = Inr (sext v)"
  using and63_less [of v] by (simp add: enc_char_def sext_def to_b64_len)

lemma put_enc_ok [simp]: "length bs < cap \<Longrightarrow> put_enc (cap, bs) (v AND 63) = Inr (cap, bs @ [sext v])"
  by (simp add: put_enc_def)

text \<open>The bits of a quantum come back; the masks are written as \<open>mask\<close> for the bit calculus.\<close>

lemma masks: "(63 :: cint) = mask 6" "(15 :: cint) = mask 4" "(3 :: cint) = mask 2"
  by (simp_all add: mask_eq_decr_exp)

lemma quantum_bits:
  "ucast (push_bit 2 (b2i (ucast (drop_bit 2 (b2i a) AND 63))) OR
     drop_bit 4 (b2i (ucast ((push_bit 4 (b2i a) OR (drop_bit 4 (b2i b) AND 15)) AND 63)))) = a"
  "ucast (push_bit 2 (b2i (ucast (drop_bit 2 (b2i a) AND 63))) OR
     drop_bit 4 (b2i (ucast (push_bit 4 (b2i a) AND 63)))) = a"
  "ucast (push_bit 4 (b2i (ucast ((push_bit 4 (b2i a) OR (drop_bit 4 (b2i b) AND 15)) AND 63))) OR
     drop_bit 2 (b2i (ucast ((push_bit 2 (b2i b) OR (drop_bit 6 (b2i c) AND 3)) AND 63)))) = b"
  "ucast (push_bit 4 (b2i (ucast ((push_bit 4 (b2i a) OR (drop_bit 4 (b2i b) AND 15)) AND 63))) OR
     drop_bit 2 (b2i (ucast (push_bit 2 (b2i b) AND 63)))) = b"
  "ucast (push_bit 6 (b2i (ucast ((push_bit 2 (b2i b) OR (drop_bit 6 (b2i c) AND 3)) AND 63))) OR
     b2i (ucast (b2i c AND 63))) = c"
  unfolding masks b2i_def
  by (rule byte_eqI; simp add: bit_simps)+

lemma vstring_sextets:
  "drop_bit 2 (b2i a) = drop_bit 2 (b2i a) AND 63"
  "push_bit 4 (b2i a AND 3) = push_bit 4 (b2i a) AND 63"
  "push_bit 4 (b2i a AND 3) OR drop_bit 4 (b2i b) = (push_bit 4 (b2i a) OR (drop_bit 4 (b2i b) AND 15)) AND 63"
  "push_bit 2 (b2i b AND 15) = push_bit 2 (b2i b) AND 63"
  "push_bit 2 (b2i b AND 15) OR drop_bit 6 (b2i c) = (push_bit 2 (b2i b) OR (drop_bit 6 (b2i c) AND 3)) AND 63"
  unfolding masks b2i_def
  by (rule bit_word_eqI; auto simp: bit_simps dest: bit_imp_le_length)+

section \<open>Base64: what is encoded comes back\<close>

text \<open>The encoding as a function of the bytes.\<close>

fun b64 :: "byte list \<Rightarrow> byte list" where
  "b64 [] = []"
| "b64 [a] = [sext (drop_bit 2 (b2i a)), sext (push_bit 4 (b2i a)), pad_char, pad_char]"
| "b64 [a, b] = [sext (drop_bit 2 (b2i a)), sext (push_bit 4 (b2i a) OR (drop_bit 4 (b2i b) AND 15)),
     sext (push_bit 2 (b2i b)), pad_char]"
| "b64 (a # b # c # r) =
     sext (drop_bit 2 (b2i a)) # sext (push_bit 4 (b2i a) OR (drop_bit 4 (b2i b) AND 15)) #
     sext (push_bit 2 (b2i b) OR (drop_bit 6 (b2i c) AND 3)) # sext (b2i c) # b64 r"

lemma length_b64: "length (b64 bs) = 4 * ((length bs + 2) div 3)"
  by (induction bs rule: b64.induct) (simp_all, presburger)

lemma base64_encode_loop_b64:
  "length out + length (b64 inp) \<le> cap \<Longrightarrow>
   base64_encode_loop inp (cap, out) = Inr (cap, out @ b64 inp)"
  by (induction inp arbitrary: out rule: b64.induct) (simp_all add: Let_def)

lemma acl_base64_encode_b64:
  assumes "int (length inp) \<le> 1610612730"
  shows "acl_base64_encode inp = Inr (b64 inp)"
proof -
  let ?n = "4 * ((int (length inp) + 2) div 3) + 1"
  have n: "?n \<le> INT_MAX" using assms by (simp add: INT_MAX_def)
  have cap: "nat ?n = length (b64 inp) + 1"
    by (simp add: length_b64 nat_add_distrib nat_mult_distrib nat_div_distrib)
  have "base64_encode_loop inp (nat ?n, []) = Inr (nat ?n, b64 inp)"
    using base64_encode_loop_b64 [of "[]" inp "nat ?n"] cap by simp
  then show ?thesis using n assms cap by (simp add: acl_base64_encode_def INT_MAX_def)
qed

text \<open>One turn of the decoder on each kind of quantum.\<close>

lemma base64_decode_loop_end: "base64_decode_loop [0] p = Inr (Some p)"
  by (subst base64_decode_loop.simps) simp

lemma pad_char_small [simp]: "pad_char \<noteq> 0" by (simp add: pad_char_def)

lemma base64_decode_loop_b64:
  "length out + length inp \<le> cap \<Longrightarrow>
   base64_decode_loop (b64 inp @ [0]) (cap, out) = Inr (Some (cap, out @ inp))"
proof (induction inp arbitrary: out rule: b64.induct)
  case 1
  then show ?case by (simp add: base64_decode_loop_end)
next
  case (2 a)
  then show ?case
    by (subst base64_decode_loop.simps)
      (simp add: sext_props quantum_bits base64_decode_loop_end)
next
  case (3 a b)
  then show ?case
    by (subst base64_decode_loop.simps)
      (simp add: sext_props quantum_bits base64_decode_loop_end)
next
  case (4 a b c r)
  then show ?case
    by (subst base64_decode_loop.simps) (simp add: sext_props quantum_bits)
qed

lemma acl_base64_decode_b64: "acl_base64_decode (b64 inp) = Inr (Some inp)"
proof -
  have "3 * (length (b64 inp) div 4) + 1 > length inp" by (simp add: length_b64)
  then show ?thesis
    using base64_decode_loop_b64 [of "[]" inp "3 * (length (b64 inp) div 4) + 1"]
    by (simp add: acl_base64_decode_def)
qed

interpretation b64: codec "\<lambda>bs. int (length bs) \<le> 1610612730" acl_base64_encode acl_base64_decode
  by unfold_locales (auto simp: acl_base64_encode_b64 acl_base64_decode_b64)

section \<open>The growing string gives the same code\<close>

lemma enc_sextets:
  "enc_char (drop_bit 2 (b2i a)) = Inr (sext (drop_bit 2 (b2i a)))"
  "enc_char (push_bit 4 (b2i a AND 3)) = Inr (sext (push_bit 4 (b2i a)))"
  "enc_char (push_bit 4 (b2i a AND 3) OR drop_bit 4 (b2i b)) =
     Inr (sext (push_bit 4 (b2i a) OR (drop_bit 4 (b2i b) AND 15)))"
  "enc_char (push_bit 2 (b2i b AND 15)) = Inr (sext (push_bit 2 (b2i b)))"
  "enc_char (push_bit 2 (b2i b AND 15) OR drop_bit 6 (b2i c)) =
     Inr (sext (push_bit 2 (b2i b) OR (drop_bit 6 (b2i c) AND 3)))"
  by (metis vstring_sextets enc_char_and)+

lemma vstring_base64_encode_loop_b64:
  "vstring_base64_encode_loop inp result = Inr (result @ b64 inp)"
  by (induction inp arbitrary: result rule: b64.induct) (simp_all add: enc_sextets del: push_bit_and)

lemma vstring_base64_decode_loop_b64:
  "vstring_base64_decode_loop (b64 inp) result = Inr (Some (result @ inp))"
  by (induction inp arbitrary: result rule: b64.induct)
    (simp_all add: sext_props quantum_bits Let_def)

lemma acl_vstring_base64_codec:
  "acl_vstring_base64_encode inp = Inr (b64 inp)"
  "acl_vstring_base64_decode (b64 inp) = Inr (Some inp)"
  by (simp_all add: acl_vstring_base64_encode_def acl_vstring_base64_decode_def length_b64
      vstring_base64_encode_loop_b64 vstring_base64_decode_loop_b64)

interpretation vb64: nested_codec "\<lambda>_. True" acl_vstring_base64_encode acl_vstring_base64_decode
  by unfold_locales (auto simp: acl_vstring_base64_codec)

section \<open>Hexadecimal\<close>

lemma hex_table:
  "list_all (\<lambda>i. hex_value (acl_hex_chars ! i) = Some (of_nat i)) [0..<16]"
  by code_simp

lemma and15_less: "unat ((v :: cint) AND 15) < 16"
proof -
  have "v AND 15 = take_bit 4 v" by (simp add: take_bit_eq_mask mask_eq_decr_exp)
  then show ?thesis using take_bit_nat_less_exp [of 4 "unat v"] by (simp add: unsigned_take_bit_eq)
qed

lemma hex_char: "\<exists>c. tab_get acl_hex_chars (unat ((v :: cint) AND 15)) = Inr c \<and> hex_value c = Some (v AND 15)"
proof -
  have "hex_value (acl_hex_chars ! unat (v AND 15)) = Some (v AND 15)"
    using hex_table and15_less [of v] by (simp add: list_all_iff)
  moreover have "length acl_hex_chars = 16" by (simp add: acl_hex_chars_def bytes_of_def)
  ultimately show ?thesis using and15_less [of v] by simp
qed

lemma hex_bits: "ucast (push_bit 4 (drop_bit 4 (b2i a) AND 15) OR (b2i a AND 15)) = a"
  unfolding masks b2i_def by (rule byte_eqI; simp add: bit_simps)

lemma acl_hex_roundtrip: "\<exists>t. acl_hex_encode a = Inr t \<and> acl_hex_decode t = Inr (Some a) \<and> length t = 2 * length a"
proof (induction a)
  case (Cons c a)
  obtain h where h: "tab_get acl_hex_chars (unat (drop_bit 4 (b2i c) AND 15)) = Inr h"
      "hex_value h = Some (drop_bit 4 (b2i c) AND 15)" using hex_char by blast
  obtain l where l: "tab_get acl_hex_chars (unat (b2i c AND 15)) = Inr l"
      "hex_value l = Some (b2i c AND 15)" using hex_char by blast
  from Cons h l show ?case by (auto simp: hex_bits simp del: push_bit_and)
qed simp

interpretation hex: nested_codec "\<lambda>_. True" acl_hex_encode acl_hex_decode
  by unfold_locales (use acl_hex_roundtrip in \<open>metis Inr_inject\<close>)+

section \<open>Faults of the decoder\<close>

lemma dec_char_ok: "c \<noteq> 255 \<Longrightarrow> \<exists>v. dec_char c = Inr v"
proof -
  assume "c \<noteq> 255"
  have "unat c \<noteq> 255"
  proof
    assume "unat c = 255"
    then have "unat c = unat (255 :: byte)" by simp
    then have "c = 255" by (rule unsigned_word_eqI)
    with \<open>c \<noteq> 255\<close> show False by contradiction
  qed
  moreover have "unat c < 256" using unsigned_less [of c, where ?'a = nat] by simp
  ultimately show ?thesis by (simp add: dec_char_def un_b64_len)
qed

lemma base64_decode_loop_safe:
  "length s = 4 * k \<Longrightarrow> 0 \<notin> set s \<Longrightarrow> 255 \<notin> set s \<Longrightarrow> length out + 3 * k \<le> cap \<Longrightarrow>
   \<exists>r. base64_decode_loop (s @ [0]) (cap, out) = Inr r \<and>
     (\<forall>p. r = Some p \<longrightarrow> fst p = cap \<and> length (snd p) \<le> length out + 3 * k)"
proof (induction k arbitrary: s out)
  case 0
  then show ?case by (simp add: base64_decode_loop_end)
next
  case (Suc k)
  then obtain a b c d t where s: "s = a # b # c # d # t" "length t = 4 * k"
    by (auto simp: length_Suc_conv numeral_eq_Suc)
  obtain va vb vc vd where v: "dec_char a = Inr va" "dec_char b = Inr vb" "dec_char c = Inr vc" "dec_char d = Inr vd"
    using dec_char_ok Suc.prems(3) s by (metis list.set_intros)
  have t: "0 \<notin> set t" "255 \<notin> set t" using Suc.prems s by auto
  have IH: "\<exists>r. base64_decode_loop (t @ [0]) (cap, out @ [x, y, z]) = Inr r \<and>
      (\<forall>p. r = Some p \<longrightarrow> fst p = cap \<and> length (snd p) \<le> length out + 3 * Suc k)" for x y z
    using Suc.IH [OF s(2) t, of "out @ [x, y, z]"] Suc.prems(4) by (simp add: numeral_3_eq_3)
  show ?case
    using Suc.prems s v IH
    by (subst base64_decode_loop.simps, cases t) (auto simp: base64_decode_loop_end)
qed

lemma acl_base64_decode_total:
  assumes "length s mod 4 = 0" "0 \<notin> set s" "255 \<notin> set s"
  shows "\<exists>r. acl_base64_decode s = Inr r \<and> (\<forall>bs. r = Some bs \<longrightarrow> length bs \<le> 3 * (length s div 4))"
proof -
  let ?k = "length s div 4"
  have "length s = 4 * ?k" using assms(1) by presburger
  from base64_decode_loop_safe [OF this assms(2,3), of "[]" "3 * ?k + 1"] obtain r where
    "base64_decode_loop (s @ [0]) (3 * ?k + 1, []) = Inr r"
    "\<forall>p. r = Some p \<longrightarrow> fst p = 3 * ?k + 1 \<and> length (snd p) \<le> 3 * ?k" by auto
  then show ?thesis by (cases r) (auto simp: acl_base64_decode_def)
qed

lemma dec_valid: "c \<in> set to_b64_tab \<Longrightarrow> \<exists>v. dec_char c = Inr v \<and> v \<noteq> 255 \<and> c \<noteq> 0 \<and> c \<noteq> pad_char \<and> \<not> c > 127"
proof -
  assume "c \<in> set to_b64_tab"
  then obtain i where "i < 64" "c = to_b64_tab ! i" by (auto simp: in_set_conv_nth to_b64_len)
  moreover have "unat ((of_nat i :: cint) AND 63) = i"
  proof -
    have "(of_nat i :: cint) AND 63 = take_bit 6 (of_nat i)" by (simp add: take_bit_eq_mask mask_eq_decr_exp)
    with \<open>i < 64\<close> show ?thesis by (simp add: unsigned_take_bit_eq unsigned_of_nat take_bit_nat_eq_self)
  qed
  ultimately have "c = sext (of_nat i)" by (simp add: sext_def)
  then show ?thesis using sext_props by simp
qed

section \<open>Properties\<close>

text \<open>
  C7: \<open>acl_base64_decode\<close> gives back what \<open>acl_base64_encode\<close> encoded, neither leaves its
  buffer, for every input whose encoding has a size an \<open>int\<close> can hold.
\<close>

theorem base64_roundtrip:
  assumes "int (length a) \<le> 1610612730"
  shows "cbind (acl_base64_encode a) acl_base64_decode = Inr (Some a)"
  by (rule b64.roundtrip [OF assms])

theorem base64_roundtrip_witness:
  "cbind (acl_base64_encode [65, 0, 255, 7]) acl_base64_decode = Inr (Some [65, 0, 255, 7])"
  by (rule base64_roundtrip) simp

text \<open>
  on every string whose length is a multiple of four and that has no byte 255,
  \<open>acl_base64_decode\<close> stays inside its input, its table and its buffer, and what it decodes
  has at most three bytes for four of the input.
\<close>

theorem base64_decode_in_bounds:
  assumes "length s mod 4 = 0" "0 \<notin> set s" "255 \<notin> set s"
  shows "\<exists>r. acl_base64_decode s = Inr r \<and> (\<forall>bs. r = Some bs \<longrightarrow> length bs \<le> 3 * (length s div 4))"
  by (rule acl_base64_decode_total [OF assms])

theorem base64_decode_in_bounds_witness:
  "\<exists>r. acl_base64_decode [81, 61, 65, 61] = Inr r \<and> (\<forall>bs. r = Some bs \<longrightarrow> length bs \<le> 3)"
  using base64_decode_in_bounds [of "[81, 61, 65, 61]"] by simp

text \<open>
  a string of three characters of the base64 alphabet makes \<open>acl_base64_decode\<close> write past
  the end of the buffer it has allocated: the size rounds the length down to whole quanta.
\<close>

theorem base64_decode_overflows:
  assumes "x \<in> set to_b64_tab" "y \<in> set to_b64_tab" "z \<in> set to_b64_tab"
  shows "acl_base64_decode [x, y, z] = Inl OobWrite"
proof -
  obtain u v w where "dec_char x = Inr u" "dec_char y = Inr v" "dec_char z = Inr w"
    "u \<noteq> 255" "v \<noteq> 255" "w \<noteq> 255"
    using dec_valid assms by metis
  moreover have "x \<noteq> 0" "\<not> x > 127" "y \<noteq> 0" "z \<noteq> pad_char" "\<not> z > 127"
    using dec_valid assms by blast+
  ultimately show ?thesis
    by (simp add: acl_base64_decode_def) (subst base64_decode_loop.simps, simp)
qed

theorem base64_decode_overflows_witness: "acl_base64_decode [81, 85, 73] = Inl OobWrite"
  by (rule base64_decode_overflows) (simp_all add: to_b64_tab_def bytes_of_def)

text \<open>
  the two base64 encoders of the library produce the same text, and the decoder of
  \<open>acl_vstring_base64.c\<close> accepts it and gives the bytes back.
\<close>

theorem vstring_base64_agrees:
  assumes "int (length a) \<le> 1610612730"
  shows "acl_vstring_base64_encode a = acl_base64_encode a \<and>
    cbind (acl_base64_encode a) acl_vstring_base64_decode = Inr (Some a)"
  by (simp add: acl_base64_encode_b64 [OF assms] acl_vstring_base64_codec)

theorem vstring_base64_agrees_witness:
  "acl_vstring_base64_encode [1, 2] = acl_base64_encode [1, 2] \<and>
   cbind (acl_base64_encode [1, 2]) acl_vstring_base64_decode = Inr (Some [1, 2])"
  by (rule vstring_base64_agrees) simp

text \<open>
  hexadecimal encoding can be applied any number of times over and undone as often;
  this is what the test program at the end of \<open>acl_hex_code.c\<close> tries on one string.
\<close>

theorem hex_nested_roundtrip:
  "cbind (repeat_enc acl_hex_encode n a) (repeat_dec acl_hex_decode n) = Inr (Some a)"
  by (rule hex.nested_roundtrip) simp

end
