(* ===== verification/Acl_Urlcode.thy ===== *)
theory Acl_Urlcode
  imports Acl_Interfaces
begin

text \<open>
  Percent-encoding of \<open>lib_acl/src/code/acl_urlcode.c\<close>. The buffer of \<open>acl_url_encode\<close> grows
  with every escaped character, that of \<open>acl_url_decode\<close> has the size of the input; all
  writes are checked against the size. \<open>isalnum\<close> is that of the C locale.
\<close>

definition isalnum :: "byte \<Rightarrow> bool" where
  "isalnum c \<longleftrightarrow> 48 \<le> c \<and> c \<le> 57 \<or> 65 \<le> c \<and> c \<le> 90 \<or> 97 \<le> c \<and> c \<le> 122"

definition enc_tab :: "byte list" where
  "enc_tab = bytes_of ''0123456789ABCDEF''"

definition url_plain :: "byte \<Rightarrow> bool" where
  "url_plain c \<longleftrightarrow> isalnum c \<or> c \<in> set (bytes_of ''_-.'')"

text \<open>
  The loop of \<open>acl_url_encode\<close>, with \<open>tmp_len\<close> and the buffer \<open>tmp\<close> filled up to \<open>j\<close>: each
  character is stored first, and a reserved one is then overwritten by its escape after
  the buffer has been reallocated.
\<close>

fun url_encode_loop :: "byte list \<Rightarrow> int \<Rightarrow> obuf \<Rightarrow> obuf cres" where
  "url_encode_loop [] tmp_len tmp = Inr tmp"
| "url_encode_loop (c # str) tmp_len tmp =
     cbind (put tmp c) (\<lambda>tmp1.
       if url_plain c then url_encode_loop str tmp_len tmp1
       else if tmp_len + 3 > INT_MAX then Inl IntOverflow
       else
         cbind (put (nat (tmp_len + 3), snd tmp) 37) (\<lambda>tmp2.
         cbind (tab_get enc_tab (unat (drop_bit 4 c))) (\<lambda>h.
         cbind (put tmp2 h) (\<lambda>tmp3.
         cbind (tab_get enc_tab (unat (c AND 15))) (\<lambda>l.
         cbind (put tmp3 l) (\<lambda>tmp4.
           url_encode_loop str (tmp_len + 3) tmp4))))))"

definition acl_url_encode :: "byte list \<Rightarrow> byte list cres" where
  "acl_url_encode str =
     (let len = int (length str)
      in if len + 1 > INT_MAX then Inl IntOverflow
         else cbind (url_encode_loop str len (nat (len + 1), [])) (\<lambda>tmp.
              cbind (put tmp 0) (\<lambda>_. Inr (snd tmp))))"

definition dec_tab :: "byte list" where
  "dec_tab = replicate 49 0 @ [1, 2, 3, 4, 5, 6, 7, 8, 9] @ replicate 7 0 @
     [10, 11, 12, 13, 14, 15] @ replicate 26 0 @ [10, 11, 12, 13, 14, 15] @ replicate 153 0"

text \<open>
  The loop of \<open>acl_url_decode\<close>. The two \<open>break\<close>s of the boundary check leave \<open>pos\<close> behind the
  \<open>%\<close>: the character stored after it is overwritten by the NUL.
\<close>

fun url_decode_loop :: "byte list \<Rightarrow> obuf \<Rightarrow> obuf cres" where
  "url_decode_loop [] tmp = Inr tmp"
| "url_decode_loop (c # str) tmp =
     (if c \<noteq> 37 then cbind (put tmp c) (url_decode_loop str)
      else case str of
        [] \<Rightarrow> put tmp 37
      | [d] \<Rightarrow> cbind (put tmp 37) (\<lambda>tmp1. cbind (put tmp1 d) (\<lambda>_. Inr tmp1))
      | d # e # rest \<Rightarrow>
          if isalnum d \<and> isalnum e then
            cbind (tab_get dec_tab (unat d)) (\<lambda>h.
            cbind (tab_get dec_tab (unat e)) (\<lambda>l.
            cbind (put tmp (ucast (push_bit 4 (ucast h :: cint) + ucast l))) (url_decode_loop rest)))
          else cbind (put tmp c) (url_decode_loop str))"

definition acl_url_decode :: "byte list \<Rightarrow> byte list cres" where
  "acl_url_decode str =
     cbind (url_decode_loop str (length str + 1, [])) (\<lambda>tmp. cbind (put tmp 0) (\<lambda>_. Inr (snd tmp)))"

section \<open>Encoding\<close>

definition url_escape :: "byte \<Rightarrow> byte list" where
  "url_escape c =
     (if url_plain c then [c] else [37, enc_tab ! unat (drop_bit 4 c), enc_tab ! unat (c AND 15)])"

definition url_escaped :: "byte list \<Rightarrow> byte list" where
  "url_escaped str = concat (map url_escape str)"

definition reserved :: "byte list \<Rightarrow> nat" where
  "reserved str = length (filter (\<lambda>c. \<not> url_plain c) str)"

lemma reserved_le: "reserved str \<le> length str"
  by (simp add: reserved_def)

lemma length_url_escaped: "length (url_escaped str) = length str + 2 * reserved str"
  by (induction str) (auto simp: url_escaped_def url_escape_def reserved_def)

lemma enc_tab_len: "length enc_tab = 16" by (simp add: enc_tab_def bytes_of_def)

lemma hex_halves: "unat (drop_bit 4 (c :: byte)) < 16" "unat ((c :: byte) AND 15) < 16"
proof -
  have "c AND 15 = take_bit 4 c" by (simp add: take_bit_eq_mask mask_eq_decr_exp)
  then show "unat (c AND 15) < 16"
    using take_bit_nat_less_exp [of 4 "unat c"] by (simp add: unsigned_take_bit_eq)
  have "unat c < 256" using unsigned_less [of c, where ?'a = nat] by simp
  then show "unat (drop_bit 4 c) < 16" by (simp add: unsigned_drop_bit_eq drop_bit_nat_def take_bit_nat_eq_self)
qed

text \<open>
  The buffer is large enough: with \<open>k\<close> characters escaped so far it has \<open>len + 3 k\<close> bytes
  (\<open>len + 1\<close> before the first), and \<open>i + 2 k\<close> are written after \<open>i\<close> characters.
\<close>

lemma url_encode_loop_escaped:
  assumes "len = int i + int (length str)" "len + 3 * int (k + reserved str) \<le> INT_MAX"
    "length out = i + 2 * k" "cap = (if k = 0 then i + length str + 1 else i + length str + 3 * k)"
  shows "\<exists>cap'. url_encode_loop str (len + 3 * int k) (cap, out) = Inr (cap', out @ url_escaped str) \<and>
    length (out @ url_escaped str) < cap'"
  using assms
proof (induction str arbitrary: i k out cap)
  case Nil
  then show ?case by (auto simp: url_escaped_def)
next
  case (Cons c str)
  have fits: "length out < cap" using Cons.prems(3,4) by auto
  show ?case
  proof (cases "url_plain c")
    case True
    have "\<exists>cap'. url_encode_loop str (len + 3 * int k) (cap, out @ [c]) =
        Inr (cap', (out @ [c]) @ url_escaped str) \<and> length ((out @ [c]) @ url_escaped str) < cap'"
      by (rule Cons.IH [of "Suc i"]) (use Cons.prems True in \<open>auto simp: reserved_def\<close>)
    with True fits show ?thesis by (simp add: url_escaped_def url_escape_def)
  next
    case False
    let ?e = "[37, enc_tab ! unat (drop_bit 4 c), enc_tab ! unat (c AND 15)]"
    let ?cap = "i + length (c # str) + 3 * Suc k"
    have r: "reserved (c # str) = Suc (reserved str)" using False by (simp add: reserved_def)
    have eq: "len + 3 * int (Suc k) = len + 3 * int k + 3" by simp
    have "\<exists>cap'. url_encode_loop str (len + 3 * int k + 3) (?cap, out @ ?e) =
        Inr (cap', (out @ ?e) @ url_escaped str) \<and> length ((out @ ?e) @ url_escaped str) < cap'"
      unfolding eq [symmetric]
      by (rule Cons.IH [of "Suc i"]) (use Cons.prems r in \<open>auto simp: algebra_simps\<close>)
    moreover have "nat (len + 3 * int k + 3) = ?cap" using Cons.prems(1) by simp
    moreover have "\<not> len + 3 * int k + 3 > INT_MAX" using Cons.prems(2) r by simp
    moreover have "length out + 2 < ?cap" using Cons.prems(3) by simp
    ultimately show ?thesis
      using False fits hex_halves [of c] by (simp add: url_escaped_def url_escape_def enc_tab_len)
  qed
qed

lemma acl_url_encode_escaped:
  assumes "int (length str) \<le> 536870911"
  shows "acl_url_encode str = Inr (url_escaped str)"
proof -
  have "\<exists>cap'. url_encode_loop str (int (length str) + 3 * int 0) (length str + 1, []) =
      Inr (cap', [] @ url_escaped str) \<and> length ([] @ url_escaped str) < cap'"
    by (rule url_encode_loop_escaped [where i = 0 and k = 0])
      (use assms reserved_le [of str] in \<open>auto simp: INT_MAX_def\<close>)
  moreover have "nat (int (length str) + 1) = length str + 1" by simp
  ultimately show ?thesis using assms by (auto simp: acl_url_encode_def INT_MAX_def)
qed

section \<open>Decoding\<close>

lemma url_dec_table:
  "list_all (\<lambda>i. isalnum (enc_tab ! i) \<and> dec_tab ! unat (enc_tab ! i) = of_nat i) [0..<16]"
  by code_simp

lemma dec_tab_len: "length dec_tab = 256" by (simp add: dec_tab_def)

lemma byte_less: "unat (c :: byte) < 256"
  using unsigned_less [of c, where ?'a = nat] by simp

lemma dec_tab_get [simp]: "tab_get dec_tab (unat (c :: byte)) = Inr (dec_tab ! unat c)"
  by (simp add: dec_tab_len byte_less)

lemma enc_tab_props:
  assumes "unat (v :: byte) < 16"
  shows "isalnum (enc_tab ! unat v)" "dec_tab ! unat (enc_tab ! unat v) = v"
  using url_dec_table assms by (auto simp: list_all_iff)

lemma url_halves_bits:
  "ucast (push_bit 4 (ucast (drop_bit 4 c) :: cint) + ucast (c AND 15)) = (c :: byte)"
proof -
  have m: "(15 :: byte) = mask 4" by (simp add: mask_eq_decr_exp)
  have d: "push_bit 4 (ucast (drop_bit 4 c) :: cint) AND ucast (c AND 15) = 0"
    unfolding m by (rule bit_word_eqI) (auto simp: bit_simps)
  show ?thesis
    unfolding disjunctive_add_eq_or [OF d] unfolding m
    by (rule byte_eqI; simp add: bit_simps)
qed

lemma isalnum_not_percent: "isalnum c \<Longrightarrow> c \<noteq> 37"
  by (auto simp: isalnum_def)

lemma url_plain_not_percent: "url_plain c \<Longrightarrow> c \<noteq> 37"
  by (auto simp: url_plain_def bytes_of_def dest: isalnum_not_percent)

lemma url_decode_loop_escaped:
  "length out + length str \<le> cap \<Longrightarrow> url_decode_loop (url_escaped str) (cap, out) = Inr (cap, out @ str)"
proof (induction str arbitrary: out)
  case (Cons c str)
  then show ?case
    using hex_halves [of c] enc_tab_props [of "drop_bit 4 c"] enc_tab_props [of "c AND 15"]
      url_halves_bits [of c]
    by (auto simp: url_escaped_def url_escape_def dest: url_plain_not_percent)
qed (simp add: url_escaped_def)

lemma acl_url_decode_escaped: "acl_url_decode (url_escaped str) = Inr str"
  using url_decode_loop_escaped [of "[]" str "length (url_escaped str) + 1"]
  by (simp add: acl_url_decode_def length_url_escaped)

text \<open>The decoder never leaves its buffers, whatever the text.\<close>

lemma url_decode_loop_total:
  "length out + length str \<le> cap \<Longrightarrow>
   \<exists>bs. url_decode_loop str (cap, out) = Inr (cap, bs) \<and> length bs \<le> length out + length str"
proof (induction str arbitrary: out rule: measure_induct_rule [of length])
  case (less str)
  have step: "\<exists>bs. url_decode_loop r (cap, out @ [x]) = Inr (cap, bs) \<and> length bs \<le> length out + length str"
    if "length r < length str" for r x
    using less.IH [OF that, of "out @ [x]"] less.prems that by fastforce
  show ?case
  proof (cases str)
    case (Cons c r)
    consider "c \<noteq> 37" | "c = 37" "r = []" | d where "c = 37" "r = [d]"
      | d e t where "c = 37" "r = d # e # t" by (cases r rule: list.exhaust; cases "tl r") auto
    then show ?thesis
    proof cases
      case 1
      with Cons step [of r c] less.prems show ?thesis by auto
    next
      case 2
      with Cons less.prems show ?thesis by auto
    next
      case 3
      with Cons less.prems show ?thesis by auto
    next
      case 4
      with Cons step [of t] step [of r 37] less.prems show ?thesis by auto
    qed
  qed simp
qed

lemma acl_url_decode_total: "\<exists>bs. acl_url_decode str = Inr bs \<and> length bs \<le> length str"
  using url_decode_loop_total [of "[]" str "length str + 1"] by (auto simp: acl_url_decode_def)

interpretation url: codec "\<lambda>str. int (length str) \<le> 536870911" acl_url_encode
  "\<lambda>str. map_sum id Some (acl_url_decode str)"
  by unfold_locales (auto simp: acl_url_encode_escaped acl_url_decode_escaped)

lemma url_decode_loop_plain:
  "37 \<notin> set xs \<Longrightarrow> length out + length xs \<le> cap \<Longrightarrow>
   url_decode_loop (xs @ ys) (cap, out) = url_decode_loop ys (cap, out @ xs)"
  by (induction xs arbitrary: out) auto

lemma map_sum_Inr_Some: "map_sum id Some m = Inr (Some x) \<longleftrightarrow> m = Inr x"
  by (cases m) auto

section \<open>Properties\<close>

text \<open>
  C8: \<open>acl_url_decode\<close> gives back every string that \<open>acl_url_encode\<close> encoded, and the
  encoder's growing buffer always has room, up to the length at which its size would
  overflow an \<open>int\<close>.
\<close>

theorem url_roundtrip:
  assumes "int (length str) \<le> 536870911"
  shows "cbind (acl_url_encode str) acl_url_decode = Inr str"
  using url.roundtrip [OF assms] by (auto simp: cbind_Inr_iff map_sum_Inr_Some)

theorem url_roundtrip_witness:
  "cbind (acl_url_encode [97, 32, 37, 255]) acl_url_decode = Inr [97, 32, 37, 255]"
  by (rule url_roundtrip) simp

text \<open>on every text \<open>acl_url_decode\<close> stays within its buffer and returns at most as many bytes.\<close>

theorem url_decode_in_bounds: "\<exists>bs. acl_url_decode str = Inr bs \<and> length bs \<le> length str"
  by (rule acl_url_decode_total)

text \<open>
  \<open>acl_url_decode\<close> loses the last character of a text that ends in \<open>%\<close> and one more
  character, which its comment means to keep.
\<close>

theorem url_decode_drops_last:
  assumes "37 \<notin> set xs"
  shows "acl_url_decode (xs @ [37, c]) = Inr (xs @ [37])"
  using url_decode_loop_plain [OF assms, of "[]" "Suc (Suc (Suc (length xs)))" "[37, c]"]
  by (simp add: acl_url_decode_def)

theorem url_decode_drops_last_witness: "acl_url_decode [49, 48, 48, 37, 52] = Inr [49, 48, 48, 37]"
  using url_decode_drops_last [of "[49, 48, 48]" 52] by simp

end
