(* ===== verification/Acl_TokenTree.thy ===== *)
theory Acl_TokenTree
  imports Acl_Interfaces
begin

text \<open>
  The token tree of \<open>lib_acl/src/stdlib/common/acl_token_tree.c\<close>: a trie of words that a
  text is scanned for. A node is an \<open>ACL_TOKEN\<close>; its array \<open>tokens\<close> has
  \<open>ACL_TOKEN_WIDTH = 255\<close> entries, so a byte 255 indexes past it. The \<open>parent\<close> pointer
  is only followed by \<open>acl_token_name\<close>; there a node is given by the path that leads to it.
\<close>

section \<open>Nodes and operations\<close>

datatype 'c token = Token (tk_ch: byte) (tk_flag: cint) (tk_ctx: "'c option")
  (tk_tokens: "byte \<Rightarrow> 'c token option")

definition ACL_TOKEN_F_STOP :: cint where "ACL_TOKEN_F_STOP = 1"
definition ACL_TOKEN_F_PASS :: cint where "ACL_TOKEN_F_PASS = 2"
definition ACL_TOKEN_F_DENY :: cint where "ACL_TOKEN_F_DENY = 4"

definition tk_get :: "'c token \<Rightarrow> byte \<Rightarrow> 'c token option cres" where
  "tk_get t c = (if c = 255 then Inl OobRead else Inr (tk_tokens t c))"

definition tk_set :: "'c token \<Rightarrow> byte \<Rightarrow> 'c token \<Rightarrow> 'c token" where
  "tk_set t c k = Token (tk_ch t) (tk_flag t) (tk_ctx t) ((tk_tokens t)(c := Some k))"

definition tk_stop :: "'c token \<Rightarrow> bool" where
  "tk_stop t \<longleftrightarrow> tk_flag t AND ACL_TOKEN_F_STOP \<noteq> 0"

definition acl_token_delim_tab_new :: "byte list \<Rightarrow> bool list cres" where
  "acl_token_delim_tab_new delim =
     (if 255 \<in> set delim then Inl OobWrite
      else Inr (map (\<lambda>i. of_nat i \<in> set delim) [0..<255]))"

definition acl_token_new :: "'c token" where
  "acl_token_new = Token 45 0 None (\<lambda>_. None)"

text \<open>\<open>acl_token_tree_add\<close> from a node on: the loop over the word, then the flag and context.\<close>

fun token_add :: "'c token \<Rightarrow> byte list \<Rightarrow> cint \<Rightarrow> 'c option \<Rightarrow> 'c token cres" where
  "token_add t [] flag ctx = Inr (Token (tk_ch t) flag ctx (tk_tokens t))"
| "token_add t (c # word) flag ctx =
     cbind (tk_get t c) (\<lambda>token.
       case token of
         None \<Rightarrow>
           cbind (token_add (Token c 0 None (\<lambda>_. None)) word flag ctx) (\<lambda>k. Inr (tk_set t c k))
       | Some tk \<Rightarrow>
           if tk_ch tk \<noteq> c then Inl Fatal
           else cbind (token_add tk word flag ctx) (\<lambda>k. Inr (tk_set t c k)))"

text \<open>The flag of the result says whether a token was added (a non-NULL return).\<close>

definition acl_token_tree_add ::
  "'c token \<Rightarrow> byte list \<Rightarrow> cint \<Rightarrow> 'c option \<Rightarrow> (bool \<times> 'c token) cres" where
  "acl_token_tree_add tree word flag ctx =
     (if flag AND ACL_TOKEN_F_PASS \<noteq> 0 \<and> flag AND ACL_TOKEN_F_DENY \<noteq> 0 then Inr (False, tree)
      else if word = [] then Inr (False, tree)
      else cbind (token_add tree word flag ctx) (\<lambda>t. Inr (True, t)))"

fun token_walk :: "'c token \<Rightarrow> byte list \<Rightarrow> 'c token option cres" where
  "token_walk t [] = Inr (Some t)"
| "token_walk t (c # word) =
     cbind (tk_get t c) (\<lambda>token. case token of None \<Rightarrow> Inr None | Some k \<Rightarrow> token_walk k word)"

definition acl_token_tree_word_match :: "'c token \<Rightarrow> byte list \<Rightarrow> 'c token option cres" where
  "acl_token_tree_word_match tree word =
     (if word = [] then Inr None
      else cbind (token_walk tree word) (\<lambda>r.
        case r of None \<Rightarrow> Inr None | Some t \<Rightarrow> Inr (if tk_stop t then Some t else None)))"

text \<open>
  \<open>acl_token_tree_match\<close>: the three loops of the source differ only in how they recognise a
  delimiter. \<open>iter\<close> is \<open>token_iter\<close>, \<open>tlast\<close> is \<open>token_last\<close>; a byte above 128 counts as the
  first half of a two-byte character. The result has the token and the rest of the text.
\<close>

fun token_match_loop ::
  "(byte \<Rightarrow> bool cres) \<Rightarrow> 'c token \<Rightarrow> 'c token \<Rightarrow> 'c token option \<Rightarrow> byte list \<Rightarrow>
   ('c token option \<times> byte list) cres" where
  "token_match_loop isdelim tree iter tlast [] = Inr (tlast, [])"
| "token_match_loop isdelim tree iter tlast (c # p) =
     cbind (isdelim c) (\<lambda>d. if d then Inr (tlast, c # p) else
     cbind (tk_get iter c) (\<lambda>t1.
       if Option.is_none t1 \<and> \<not> Option.is_none tlast then Inr (tlast, c # p)
       else cbind (if Option.is_none t1 then tk_get tree c else Inr t1) (\<lambda>t2.
         case t2 of
           None \<Rightarrow>
             (case p of
                [] \<Rightarrow> Inr (tlast, [])
              | d # q \<Rightarrow> if c > 128 then token_match_loop isdelim tree tree tlast q
                        else token_match_loop isdelim tree tree tlast (d # q))
         | Some tk \<Rightarrow>
             if \<not> c > 128 then
               token_match_loop isdelim tree tk (if tk_stop tk then Some tk else tlast) p
             else
               (case p of
                  [] \<Rightarrow> Inr (tlast, [])
                | d # q \<Rightarrow>
                    cbind (tk_get tk d) (\<lambda>t3.
                      case t3 of
                        None \<Rightarrow>
                          if \<not> Option.is_none tlast then Inr (tlast, d # q)
                          else token_match_loop isdelim tree tree tlast q
                      | Some k \<Rightarrow>
                          token_match_loop isdelim tree k (if tk_stop k then Some k else tlast) q)))))"

definition acl_token_tree_match ::
  "'c token \<Rightarrow> byte list \<Rightarrow> byte list option \<Rightarrow> bool list option \<Rightarrow>
   ('c token option \<times> byte list) cres" where
  "acl_token_tree_match tree ptr delim delim_tab =
     (let isdelim =
        (case delim of
           Some ds \<Rightarrow> (\<lambda>c. Inr (c \<in> set ds))
         | None \<Rightarrow>
             (case delim_tab of
                Some tab \<Rightarrow> (\<lambda>c. if unat c < length tab then Inr (tab ! unat c) else Inl OobRead)
              | None \<Rightarrow> (\<lambda>_. Inr False)))
      in token_match_loop isdelim tree tree None ptr)"

section \<open>The tree as a table of words\<close>

text \<open>\<open>token_wf\<close>: every child is stored under its own character, and none under 255.\<close>

inductive token_wf :: "'c token \<Rightarrow> bool" where
  "(\<And>c k. tk_tokens t c = Some k \<Longrightarrow> tk_ch k = c \<and> token_wf k) \<Longrightarrow> token_wf t"

inductive_simps token_wf_iff: "token_wf t"

lemma token_wf_leaf [simp]: "token_wf (Token c f x (\<lambda>_. None))"
  by (simp add: token_wf_iff [of "Token c f x (\<lambda>_. None)"])

lemma token_wf_set: "token_wf t \<Longrightarrow> token_wf k \<Longrightarrow> tk_ch k = c \<Longrightarrow> token_wf (tk_set t c k)"
  by (subst token_wf_iff) (auto simp: tk_set_def token_wf_iff [of t])

text \<open>What is stored at a word: the flag and the context of its node.\<close>

fun token_at :: "'c token \<Rightarrow> byte list \<Rightarrow> (cint \<times> 'c option) option" where
  "token_at t [] = Some (tk_flag t, tk_ctx t)"
| "token_at t (c # word) = (case tk_tokens t c of None \<Rightarrow> None | Some k \<Rightarrow> token_at k word)"

lemma token_walk_at:
  "255 \<notin> set word \<Longrightarrow> \<exists>r. token_walk t word = Inr r \<and> map_option (\<lambda>n. (tk_flag n, tk_ctx n)) r = token_at t word"
  by (induction t word rule: token_at.induct) (auto simp: tk_get_def split: option.splits)

lemma token_add_at:
  fixes t :: "'c token"
  assumes "255 \<notin> set word" "token_wf t"
  shows "\<exists>t'. token_add t word flag ctx = Inr t' \<and> token_wf t' \<and> tk_ch t' = tk_ch t \<and>
    (\<forall>w. token_at t' w =
       (if w = word then Some (flag, ctx)
        else if token_at t w = None \<and> (\<exists>v. word = w @ v) then Some (0, None) else token_at t w))"
  using assms
proof (induction word arbitrary: t)
  case Nil
  have "token_wf (Token (tk_ch t) flag ctx (tk_tokens t))"
    using Nil.prems by (subst token_wf_iff) (simp add: token_wf_iff [of t])
  moreover have "token_at (Token (tk_ch t) flag ctx (tk_tokens t)) w =
      (if w = [] then Some (flag, ctx) else token_at t w)" for w
    by (cases w) auto
  ultimately show ?case by auto
next
  case (Cons c word)
  then have c: "c \<noteq> 255" and w: "255 \<notin> set word" by auto
  show ?case
  proof (cases "tk_tokens t c")
    case None
    let ?n = "Token c 0 None (\<lambda>_. None) :: 'c token"
    have "token_wf ?n" by simp
    note IH = Cons.IH [OF w this, unfolded token.sel(1)]
    obtain k where k: "token_add ?n word flag ctx = Inr k" "token_wf k" "tk_ch k = c"
      "\<And>w. token_at k w = (if w = word then Some (flag, ctx)
        else if token_at ?n w = None \<and> (\<exists>v. word = w @ v) then Some (0, None) else token_at ?n w)"
      using IH by blast
    have n: "token_at ?n w = (if w = [] then Some (0, None) else None)" for w by (cases w) auto
    have "token_at (tk_set t c k) w =
       (if w = c # word then Some (flag, ctx)
        else if token_at t w = None \<and> (\<exists>v. c # word = w @ v) then Some (0, None) else token_at t w)" for w
      using None by (cases w) (auto simp: tk_set_def k(4) n)
    with k None c token_wf_set [OF Cons.prems(2) k(2,3)] show ?thesis
      by (auto simp: tk_get_def tk_set_def)
  next
    case (Some tk)
    have tk: "tk_ch tk = c" "token_wf tk" using Cons.prems(2) Some by (auto simp: token_wf_iff [of t])
    obtain k where k: "token_add tk word flag ctx = Inr k" "token_wf k" "tk_ch k = c"
      "\<And>w. token_at k w = (if w = word then Some (flag, ctx)
        else if token_at tk w = None \<and> (\<exists>v. word = w @ v) then Some (0, None) else token_at tk w)"
      using Cons.IH [OF w tk(2), unfolded tk(1)] by blast
    have "token_at (tk_set t c k) w =
       (if w = c # word then Some (flag, ctx)
        else if token_at t w = None \<and> (\<exists>v. c # word = w @ v) then Some (0, None) else token_at t w)" for w
      using Some by (cases w) (auto simp: tk_set_def k(4))
    with k Some c tk token_wf_set [OF Cons.prems(2) k(2,3)] show ?thesis
      by (auto simp: tk_get_def tk_set_def)
  qed
qed

lemma token_new_at: "token_at acl_token_new w = (if w = [] then Some (0, None) else None)"
  by (cases w) (auto simp: acl_token_new_def)

text \<open>
  As a table: \<open>token_put\<close> adds a word as \<open>xml_decode_init\<close> does, \<open>token_look\<close> is the context
  that \<open>acl_token_tree_word_match\<close> finds for it.
\<close>

definition token_put :: "'c token \<Rightarrow> byte list \<Rightarrow> 'c \<Rightarrow> 'c token cres" where
  "token_put t word ctx =
     cbind (acl_token_tree_add t word ACL_TOKEN_F_STOP (Some ctx)) (\<lambda>(_, t'). Inr t')"

definition token_look :: "'c token \<Rightarrow> byte list \<Rightarrow> 'c option cres" where
  "token_look t word =
     cbind (acl_token_tree_word_match t word) (\<lambda>r.
       Inr (case r of None \<Rightarrow> None | Some n \<Rightarrow> tk_ctx n))"

lemma token_look_at:
  assumes "word \<noteq> []" "255 \<notin> set word"
  shows "token_look t word = Inr (case token_at t word of
      None \<Rightarrow> None | Some (f, x) \<Rightarrow> if f AND ACL_TOKEN_F_STOP \<noteq> 0 then x else None)"
proof -
  obtain r where r: "token_walk t word = Inr r" "map_option (\<lambda>n. (tk_flag n, tk_ctx n)) r = token_at t word"
    using token_walk_at [OF assms(2)] by blast
  then show ?thesis
    using assms(1)
    by (cases r) (auto simp: token_look_def acl_token_tree_word_match_def tk_stop_def simp flip: r(2))
qed

interpretation tokens: key_table token_wf "\<lambda>w. w \<noteq> [] \<and> 255 \<notin> set w" token_put token_look
proof
  fix t :: "'c token" and k :: "byte list" and v
  assume t: "token_wf t" and k: "k \<noteq> [] \<and> 255 \<notin> set k"
  have flags: "\<not> (ACL_TOKEN_F_STOP AND ACL_TOKEN_F_PASS \<noteq> 0)" "ACL_TOKEN_F_STOP AND ACL_TOKEN_F_STOP \<noteq> 0"
    by (simp_all add: ACL_TOKEN_F_STOP_def ACL_TOKEN_F_PASS_def)
  obtain t' where t': "token_add t k ACL_TOKEN_F_STOP (Some v) = Inr t'" "token_wf t'"
    "\<And>w. token_at t' w = (if w = k then Some (ACL_TOKEN_F_STOP, Some v)
       else if token_at t w = None \<and> (\<exists>u. k = w @ u) then Some (0, None) else token_at t w)"
    using token_add_at [of k t ACL_TOKEN_F_STOP "Some v"] k t by blast
  have "token_look t' w = (if w = k then Inr (Some v) else token_look t w)"
    if "w \<noteq> []" "255 \<notin> set w" for w
    using that flags(2) by (simp add: token_look_at t'(3) split: option.splits)
  with t' k flags(1) show "\<exists>t'. token_put t k v = Inr t' \<and> token_wf t' \<and>
      (\<forall>k'. k' \<noteq> [] \<and> 255 \<notin> set k' \<longrightarrow> token_look t' k' = (if k' = k then Inr (Some v) else token_look t k'))"
    by (auto simp: token_put_def acl_token_tree_add_def)
qed

text \<open>The nodes of a tree that was filled from a list are the prefixes of its words.\<close>

lemma insert_all_nodes:
  assumes "token_wf t" "list_all (\<lambda>(w, v). w \<noteq> [] \<and> 255 \<notin> set w) es"
    "insert_all token_put t es = Inr t'"
  shows "token_at t' w = None \<longleftrightarrow> token_at t w = None \<and> (\<forall>(k, v)\<in>set es. \<forall>u. k \<noteq> w @ u)"
  using assms
proof (induction es arbitrary: t)
  case (Cons e es)
  obtain k v where e: "e = (k, v)" by fastforce
  with Cons.prems have k: "k \<noteq> []" "255 \<notin> set k" by auto
  obtain t1 where t1: "token_add t k ACL_TOKEN_F_STOP (Some v) = Inr t1" "token_wf t1"
    "\<And>w. token_at t1 w = (if w = k then Some (ACL_TOKEN_F_STOP, Some v)
       else if token_at t w = None \<and> (\<exists>u. k = w @ u) then Some (0, None) else token_at t w)"
    using token_add_at [OF k(2) Cons.prems(1), of ACL_TOKEN_F_STOP "Some v"] by blast
  have "token_put t k v = Inr t1"
    using t1(1) k by (simp add: token_put_def acl_token_tree_add_def ACL_TOKEN_F_STOP_def ACL_TOKEN_F_PASS_def)
  with Cons.prems e have "insert_all token_put t1 es = Inr t'" by simp
  from Cons.IH [OF t1(2) _ this] Cons.prems(2) e show ?case by (auto simp: t1(3))
qed simp

text \<open>The node of a word.\<close>

lemma token_walk_node:
  assumes "token_at t w = Some (f, x)" "255 \<notin> set w"
  shows "\<exists>n. token_walk t w = Inr (Some n) \<and> tk_flag n = f \<and> tk_ctx n = x \<and>
    (\<forall>c. tk_tokens n c = None \<longleftrightarrow> token_at t (w @ [c]) = None)"
  using assms
  by (induction t w rule: token_at.induct) (auto simp: tk_get_def split: option.splits)

section \<open>Scanning\<close>

text \<open>
  Scanning text in which no word starts, and scanning along the characters of a word. Both
  are for characters of one byte and without delimiters.
\<close>

lemma token_match_skip:
  assumes "list_all (\<lambda>c. c \<le> 128 \<and> tk_tokens tree c = None) p"
  shows "token_match_loop (\<lambda>_. Inr False) tree tree None (p @ q) =
    token_match_loop (\<lambda>_. Inr False) tree tree None q"
  using assms
proof (induction p)
  case (Cons c p)
  then have c: "c \<noteq> 255" "\<not> c > 128" by auto
  show ?case
  proof (cases "p @ q")
    case Nil
    with Cons c show ?thesis by (simp add: tk_get_def)
  next
    case (Cons d r)
    with Cons.prems Cons.IH c show ?thesis by (simp add: tk_get_def)
  qed
qed simp

fun last_stop :: "'c token \<Rightarrow> byte list \<Rightarrow> 'c token option \<Rightarrow> 'c token option" where
  "last_stop t [] r = r"
| "last_stop t (c # w) r =
     (case tk_tokens t c of None \<Rightarrow> r | Some k \<Rightarrow> last_stop k w (if tk_stop k then Some k else r))"

lemma token_match_walk:
  assumes "token_walk iter w = Inr (Some n)" "list_all (\<lambda>c. c \<le> 128) w"
  shows "token_match_loop (\<lambda>_. Inr False) tree iter tlast (w @ q) =
    token_match_loop (\<lambda>_. Inr False) tree n (last_stop iter w tlast) q"
  using assms
proof (induction w arbitrary: iter tlast)
  case (Cons c w)
  then obtain k where k: "c \<noteq> 255" "tk_tokens iter c = Some k" "token_walk k w = Inr (Some n)"
    by (auto simp: tk_get_def split: option.splits if_splits)
  moreover from Cons.prems(2) have "\<not> c > 128" by auto
  ultimately show ?case using Cons by (simp add: tk_get_def)
qed simp

text \<open>Behind a word that no longer word continues, the scan stops there.\<close>

lemma token_match_stop:
  assumes "q = [] \<or> (hd q \<noteq> 255 \<and> tk_tokens n (hd q) = None)"
  shows "token_match_loop (\<lambda>_. Inr False) tree n (Some r) q = Inr (Some r, q)"
  using assms by (cases q) (auto simp: tk_get_def)

lemma last_stop_node:
  "token_walk t w = Inr (Some n) \<Longrightarrow> w \<noteq> [] \<Longrightarrow> tk_stop n \<Longrightarrow> last_stop t w r = Some n"
proof (induction w arbitrary: t r)
  case (Cons c w)
  then obtain k where k: "tk_tokens t c = Some k" "token_walk k w = Inr (Some n)"
    by (auto simp: tk_get_def split: option.splits if_splits)
  with Cons show ?case by (cases w) auto
qed simp

text \<open>A scan finds the first word behind text in which none starts.\<close>

lemma token_match_word:
  assumes p: "list_all (\<lambda>c. c \<le> 128 \<and> tk_tokens tree c = None) p"
    and w: "token_at tree w = Some (f, x)" "w \<noteq> []" "list_all (\<lambda>c. c \<le> 128) w" "f AND ACL_TOKEN_F_STOP \<noteq> 0"
    and q: "q = [] \<or> hd q \<noteq> 255 \<and> token_at tree (w @ [hd q]) = None"
  shows "\<exists>n. acl_token_tree_match tree (p @ w @ q) None None = Inr (Some n, q) \<and> tk_ctx n = x"
proof -
  have "255 \<notin> set w" using w(3) by (auto simp: list_all_iff)
  then obtain n where n: "token_walk tree w = Inr (Some n)" "tk_flag n = f" "tk_ctx n = x"
    "\<And>c. tk_tokens n c = None \<longleftrightarrow> token_at tree (w @ [c]) = None"
    using token_walk_node [OF w(1)] by blast
  have "last_stop tree w None = Some n"
    by (rule last_stop_node [OF n(1) w(2)]) (use n(2) w(4) in \<open>simp add: tk_stop_def\<close>)
  then have "token_match_loop (\<lambda>_. Inr False) tree tree None (p @ w @ q) =
      token_match_loop (\<lambda>_. Inr False) tree n (Some n) q"
    using token_match_skip [OF p, of "w @ q"] token_match_walk [OF n(1) w(3), of tree None q] by simp
  also have "\<dots> = Inr (Some n, q)" by (rule token_match_stop) (use q n(4) in auto)
  finally show ?thesis using n(3) by (auto simp: acl_token_tree_match_def)
qed

lemma token_match_none:
  assumes "list_all (\<lambda>c. c \<le> 128 \<and> tk_tokens tree c = None) p"
  shows "acl_token_tree_match tree p None None = Inr (None, [])"
  using token_match_skip [OF assms, of "[]"] by (simp add: acl_token_tree_match_def)

declare token_match_loop.simps(2) [simp del]

end
