(* ===== verification/Acl_Xmlcode.thy ===== *)
theory Acl_Xmlcode
  imports Acl_TokenTree
begin

text \<open>
  XML text of \<open>lib_acl/src/code/acl_xmlcode.c\<close> and the UTF-8 encoder \<open>uni2utf8.c\<close>: the
  encoder into a growing string and the one into a buffer, and the decoder, which scans for
  the named entities with the token tree and, in the text after the last of them, replaces
  numeric entities. \<open>sscanf\<close> is modelled for the two formats the code uses: \<open>%u\<close> and \<open>%x\<close>
  skip white space, take an optional sign and convert as \<open>strtoul\<close> does (64 bits,
  saturating), and \<open>%1[;]\<close> takes one semicolon.
\<close>

section \<open>Operations\<close>

subsection \<open>Encoding\<close>

definition charmap :: "byte \<Rightarrow> byte list option" where
  "charmap c =
     (if c = 34 then Some (bytes_of ''&quot;'')
      else if c = 38 then Some (bytes_of ''&amp;'')
      else if c = 39 then Some (bytes_of ''&apos;'')
      else if c = 60 then Some (bytes_of ''&lt;'')
      else if c = 62 then Some (bytes_of ''&gt;'')
      else None)"

fun acl_xml_encode :: "byte list \<Rightarrow> byte list \<Rightarrow> int \<Rightarrow> int \<times> byte list" where
  "acl_xml_encode [] out n = (n, out)"
| "acl_xml_encode (c # ptr) out n =
     (case charmap c of
        Some e \<Rightarrow> acl_xml_encode ptr (out @ e) (n + 1)
      | None \<Rightarrow> acl_xml_encode ptr (out @ [c]) n)"

text \<open>
  \<open>acl_xml_encode2\<close> writes to a buffer of \<open>olen\<close> bytes: the loop, with \<open>ilen\<close> the length of
  the input that is left. The result has the rest of the input and the bytes written.
\<close>

fun xml_encode2_loop :: "byte list \<Rightarrow> obuf \<Rightarrow> nat \<Rightarrow> (byte list \<times> obuf \<times> nat) cres" where
  "xml_encode2_loop [] out olen = Inr ([], out, olen)"
| "xml_encode2_loop (c # inp) out olen =
     (if \<not> olen > 1 then Inr (c # inp, out, olen)
      else case charmap c of
        Some e \<Rightarrow>
          if olen < length e then Inr (c # inp, out, olen)
          else cbind (put_all out e) (\<lambda>out1. xml_encode2_loop inp out1 (olen - length e))
      | None \<Rightarrow> cbind (put out c) (\<lambda>out1. xml_encode2_loop inp out1 (olen - 1)))"

definition acl_xml_encode2 :: "byte list \<Rightarrow> nat \<Rightarrow> (nat \<times> byte list \<times> byte list) cres" where
  "acl_xml_encode2 inp olen =
     (if olen = 0 then Inr (0, inp, [])
      else cbind (xml_encode2_loop inp (olen, []) olen) (\<lambda>(rest, out, left).
           cbind (put out 0) (\<lambda>_. Inr (olen - left, rest, snd out))))"

subsection \<open>UTF-8\<close>

definition utf8_class :: "cint \<Rightarrow> cint \<times> nat" where
  "utf8_class c =
     (if c < 0x80 then (0, 1)
      else if c < 0x800 then (0xc0, 2)
      else if c < 0x10000 then (0xe0, 3)
      else if c < 0x200000 then (0xf0, 4)
      else if c < 0x4000000 then (0xf8, 5)
      else (0xfc, 6))"

fun utf8_fill :: "nat \<Rightarrow> cint \<Rightarrow> byte list \<Rightarrow> cint \<times> byte list" where
  "utf8_fill 0 c bs = (c, bs)"
| "utf8_fill (Suc i) c bs = utf8_fill i (drop_bit 6 c) (ucast ((c AND 0x3f) OR 0x80) # bs)"

definition uni2utf8 :: "cint \<Rightarrow> nat \<Rightarrow> nat \<times> byte list" where
  "uni2utf8 c bsize =
     (let (first, len) = utf8_class c
      in if bsize > 0 then
           (let n = (if len > bsize then bsize else len);
                (c1, bs) = utf8_fill (n - 1) c []
            in (n, ucast (c1 OR first) # bs))
         else (len, []))"

subsection \<open>Decoding\<close>

definition isspace :: "byte \<Rightarrow> bool" where
  "isspace c \<longleftrightarrow> 9 \<le> c \<and> c \<le> 13 \<or> c = 32"

definition digit :: "byte \<Rightarrow> nat option" where
  "digit c = (if 48 \<le> c \<and> c \<le> 57 then Some (unat (c - 48)) else None)"

definition xdigit :: "byte \<Rightarrow> nat option" where
  "xdigit c =
     (if 48 \<le> c \<and> c \<le> 57 then Some (unat (c - 48))
      else if 65 \<le> c \<and> c \<le> 70 then Some (unat (c - 55))
      else if 97 \<le> c \<and> c \<le> 102 then Some (unat (c - 87))
      else None)"

definition isxdigit :: "byte \<Rightarrow> bool" where
  "isxdigit c \<longleftrightarrow> xdigit c \<noteq> None"

definition scan_value :: "nat \<Rightarrow> bool \<Rightarrow> nat list \<Rightarrow> cint" where
  "scan_value base neg ds =
     (let v = foldl (\<lambda>a d. a * base + d) 0 ds
      in if v \<ge> 2 ^ 64 then of_nat (2 ^ 64 - 1) else if neg then - of_nat v else of_nat v)"

definition scan_number :: "nat \<Rightarrow> (byte \<Rightarrow> nat option) \<Rightarrow> byte list \<Rightarrow> (cint \<times> byte list) option" where
  "scan_number base dig s =
     (let s1 = dropWhile isspace s;
          neg = (s1 \<noteq> [] \<and> hd s1 = 45);
          s2 = (if s1 \<noteq> [] \<and> hd s1 \<in> {43, 45} then tl s1 else s1);
          s3 = (if base = 16 \<and> take 1 s2 = [48] \<and> (take 1 (tl s2) = [120] \<or> take 1 (tl s2) = [88])
                then drop 2 s2 else s2);
          ds = takeWhile (\<lambda>c. dig c \<noteq> None) s3
      in if ds = [] then None
         else Some (scan_value base neg (map (the \<circ> dig) ds), dropWhile (\<lambda>c. dig c \<noteq> None) s3))"

definition scan_entity :: "nat \<Rightarrow> (byte \<Rightarrow> nat option) \<Rightarrow> byte list \<Rightarrow> cint option" where
  "scan_entity base dig s =
     (case scan_number base dig s of
        Some (n, c # _) \<Rightarrow> if c = 59 then Some n else None
      | _ \<Rightarrow> None)"

text \<open>The two calls of \<open>sscanf\<close> on a text that starts with \<open>&#\<close>, and the test \<open>n != 0\<close>.\<close>

definition numeric_entity :: "byte list \<Rightarrow> cint option" where
  "numeric_entity inp =
     (case inp of
        a # h # s \<Rightarrow>
          if a = 38 \<and> h = 35 then
            (let n = (case scan_entity 10 digit s of
                        Some v \<Rightarrow> Some v
                      | None \<Rightarrow> if take 1 s = [120] then scan_entity 16 xdigit (tl s) else None)
             in case n of Some v \<Rightarrow> if v \<noteq> 0 then Some v else None | None \<Rightarrow> None)
          else None
      | _ \<Rightarrow> None)"

definition numeric_skip :: "byte list \<Rightarrow> nat" where
  "numeric_skip inp =
     (let n0 = (if take 1 (drop 2 inp) = [120] then 3 else 2);
          n1 = n0 + length (takeWhile isxdigit (drop n0 inp))
      in if take 1 (drop n1 inp) = [59] then n1 + 1 else n1)"

fun markup_unescape :: "byte list \<Rightarrow> byte list \<Rightarrow> byte list" where
  "markup_unescape [] out = out"
| "markup_unescape (c # inp) out =
     (case numeric_entity (c # inp) of
        Some n \<Rightarrow>
          markup_unescape (drop (numeric_skip (c # inp) - 1) inp)
            (out @ takeWhile (\<lambda>b. b \<noteq> 0) (snd (uni2utf8 n 7)))
      | None \<Rightarrow> markup_unescape inp (out @ [c]))"

text \<open>The table of named entities: what they stand for, and their length in the text.\<close>

definition xml_tab :: "(byte list \<times> byte list) list" where
  "xml_tab =
     [(bytes_of ''<'', bytes_of ''&lt;''), (bytes_of ''>'', bytes_of ''&gt;''),
      (bytes_of ''&'', bytes_of ''&amp;''), ([39], bytes_of ''&apos;''), ([34], bytes_of ''&quot;''),
      ([0xc2, 0xa9], bytes_of ''&copy;''), ([0xc2, 0xae], bytes_of ''&reg;''),
      (bytes_of '' '', bytes_of ''&nbsp;'')]"

definition xml_decode_init :: "(byte list \<times> nat) token cres" where
  "xml_decode_init = insert_all token_put acl_token_new (map (\<lambda>(str, txt). (txt, (str, length txt))) xml_tab)"

lemma token_match_shorter:
  "token_match_loop isd tree iter tlast p = Inr (r, q) \<Longrightarrow>
   length q < length p \<or> r = tlast \<and> length q \<le> length p"
proof (induction p arbitrary: iter tlast r q rule: length_induct)
  case (1 p)
  note IH = 1(1) [rule_format] and prem = 1(2)
  show ?case
  proof (cases p)
    case (Cons c ps)
    have sub: "length q < length p"
      if "token_match_loop isd tree i t s = Inr (r, q)" "length s < length p" for i t s
      using IH [OF that(2,1)] that(2) by auto
    note len = Cons
      and step = trans [OF token_match_loop.simps(2) [of isd tree iter tlast c ps, symmetric] prem [unfolded Cons]]
    obtain d where d: "isd c = Inr d" using step by (cases "isd c") auto
    show ?thesis
    proof (cases d)
      case False
      obtain t1 where t1: "tk_get iter c = Inr t1" using step d False by (cases "tk_get iter c") auto
      show ?thesis
      proof (cases "Option.is_none t1 \<and> \<not> Option.is_none tlast")
        case go: False
        obtain t2 where t2: "(if Option.is_none t1 then tk_get tree c else Inr t1) = Inr t2"
          using step d False t1 go by (cases "if Option.is_none t1 then tk_get tree c else Inr t1") auto
        show ?thesis
        proof (cases t2)
          case None
          with step d False t1 t2 go len sub [of tree tlast "tl ps"] sub [of tree tlast ps] show ?thesis
            by (cases ps) (auto split: if_splits)
        next
          case (Some tk)
          show ?thesis
          proof (cases "c > 128 \<and> ps \<noteq> []")
            case True
            then obtain a qs where ps: "ps = a # qs" by (cases ps) auto
            obtain t3 where "tk_get tk a = Inr t3"
              using step d False t1 t2 go Some True ps by (cases "tk_get tk a") auto
            with step d False t1 t2 go Some True ps len sub [of _ _ qs] show ?thesis
              by (cases t3) (auto split: if_splits)
          next
            case small: False
            with step d False t1 t2 go Some len sub [of tk _ ps] show ?thesis
              by (cases ps; cases "c > 128") auto
          qed
        qed
      qed (use step d False t1 len in auto)
    qed (use step d len in auto)
  qed (use prem in auto)
qed

text \<open>\<open>acl_xml_decode\<close>, with \<open>out\<close> the string it appends to and \<open>n\<close> the entities replaced so far.\<close>

function xml_decode_loop ::
  "(byte list \<times> nat) token \<Rightarrow> byte list \<Rightarrow> byte list \<Rightarrow> int \<Rightarrow> (int \<times> byte list) cres" where
  "xml_decode_loop tree [] out n = Inr (n, out)"
| "xml_decode_loop tree (c # cs) out n =
     cbind (acl_token_tree_match tree (c # cs) None None) (\<lambda>(token, ptr).
       case token of
         None \<Rightarrow> Inr (n, markup_unescape (c # cs) out)
       | Some tk \<Rightarrow>
           (case tk_ctx tk of
              None \<Rightarrow> Inl Fatal
            | Some (str, slen) \<Rightarrow>
                xml_decode_loop tree ptr
                  (out @ take (length (c # cs) - length ptr - slen) (c # cs) @ str) (n + 1)))"
  by pat_completeness auto
termination
proof (relation "measure (\<lambda>(_, p, _, _). length p)", goal_cases)
  case (2 tree c cs out n x token ptr tk z str slen)
  then show ?case
    using token_match_shorter [of "\<lambda>_. Inr False" tree tree None "c # cs" "Some tk" ptr]
    by (auto simp: acl_token_tree_match_def)
qed simp

definition acl_xml_decode :: "byte list \<Rightarrow> byte list \<Rightarrow> (int \<times> byte list) cres" where
  "acl_xml_decode inp out = cbind xml_decode_init (\<lambda>tree. xml_decode_loop tree inp out 0)"

section \<open>The tree of named entities\<close>

definition xml_entries :: "(byte list \<times> (byte list \<times> nat)) list" where
  "xml_entries = map (\<lambda>(str, txt). (txt, (str, length txt))) xml_tab"

lemma xml_entries_eq:
  "xml_entries =
     [([38, 108, 116, 59], ([60], 4)), ([38, 103, 116, 59], ([62], 4)), ([38, 97, 109, 112, 59], ([38], 5)),
      ([38, 97, 112, 111, 115, 59], ([39], 6)), ([38, 113, 117, 111, 116, 59], ([34], 6)),
      ([38, 99, 111, 112, 121, 59], ([0xc2, 0xa9], 6)), ([38, 114, 101, 103, 59], ([0xc2, 0xae], 5)),
      ([38, 110, 98, 115, 112, 59], ([32], 6))]"
  by (simp add: xml_entries_def xml_tab_def bytes_of_def)

lemma xml_entries_ok: "list_all (\<lambda>(w, v). w \<noteq> [] \<and> 255 \<notin> set w) xml_entries"
  by (simp add: xml_entries_eq)

lemma token_new_wf: "token_wf acl_token_new"
  by (simp add: acl_token_new_def)

lemma xml_tree:
  obtains t where "xml_decode_init = Inr t" "token_wf t"
    "\<And>w v. (w, v) \<in> set xml_entries \<Longrightarrow> token_look t w = Inr (Some v)"
    "\<And>w. token_at t w = None \<longleftrightarrow> w \<noteq> [] \<and> (\<forall>(k, v)\<in>set xml_entries. \<forall>u. k \<noteq> w @ u)"
proof -
  have init: "xml_decode_init = insert_all token_put acl_token_new xml_entries"
    by (simp add: xml_decode_init_def xml_entries_def)
  obtain t where t: "insert_all token_put acl_token_new xml_entries = Inr t" "token_wf t"
    "\<And>k. k \<noteq> [] \<and> 255 \<notin> set k \<Longrightarrow> token_look t k =
       (case map_of (rev xml_entries) k of Some v \<Rightarrow> Inr (Some v) | None \<Rightarrow> token_look acl_token_new k)"
    using tokens.insert_all_looks [OF token_new_wf xml_entries_ok] by blast
  have "token_look t w = Inr (Some v)" if "(w, v) \<in> set xml_entries" for w v
  proof -
    have "distinct (map fst (rev xml_entries))" by (simp add: xml_entries_eq)
    then have "map_of (rev xml_entries) w = Some v" using that by (intro map_of_is_SomeI) simp_all
    moreover have "w \<noteq> [] \<and> 255 \<notin> set w" using that xml_entries_ok by (auto simp: list_all_iff)
    ultimately show ?thesis using t(3) by simp
  qed
  moreover have "token_at t w = None \<longleftrightarrow> w \<noteq> [] \<and> (\<forall>(k, v)\<in>set xml_entries. \<forall>u. k \<noteq> w @ u)" for w
    using insert_all_nodes [OF token_new_wf xml_entries_ok t(1), of w] by (simp add: token_new_at)
  ultimately show ?thesis using that [of t] t init by simp
qed

section \<open>Encoding and decoding\<close>

definition xml_esc :: "byte list \<Rightarrow> byte list" where
  "xml_esc s = concat (map (\<lambda>c. case charmap c of Some e \<Rightarrow> e | None \<Rightarrow> [c]) s)"

definition specials :: "byte list \<Rightarrow> int" where
  "specials s = int (length (filter (\<lambda>c. charmap c \<noteq> None) s))"

lemma acl_xml_encode_esc: "acl_xml_encode s out n = (n + specials s, out @ xml_esc s)"
  by (induction s arbitrary: out n) (auto simp: xml_esc_def specials_def split: option.splits)

lemma charmap_entry:
  assumes "charmap c = Some e"
  shows "(e, ([c], length e)) \<in> set xml_entries"
proof -
  have "c = 34 \<and> e = [38, 113, 117, 111, 116, 59] \<or> c = 38 \<and> e = [38, 97, 109, 112, 59] \<or>
      c = 39 \<and> e = [38, 97, 112, 111, 115, 59] \<or> c = 60 \<and> e = [38, 108, 116, 59] \<or>
      c = 62 \<and> e = [38, 103, 116, 59]"
    using assms unfolding charmap_def bytes_of_def by (simp split: if_split_asm)
  then show ?thesis by (elim disjE conjE) (simp_all add: xml_entries_eq)
qed

lemma charmap_ascii: "charmap c = Some e \<Longrightarrow> e \<noteq> [] \<and> list_all (\<lambda>c. c \<le> 128) e"
proof -
  assume "charmap c = Some e"
  moreover have "list_all (\<lambda>(w, v). w \<noteq> [] \<and> list_all (\<lambda>c. c \<le> 128) w) xml_entries"
    by (simp add: xml_entries_eq)
  ultimately show ?thesis using charmap_entry by (fastforce simp: list_all_iff)
qed

lemma numeric_entity_plain: "c \<noteq> 38 \<Longrightarrow> numeric_entity (c # s) = None"
  by (simp add: numeric_entity_def split: list.split)

lemma markup_unescape_plain: "38 \<notin> set s \<Longrightarrow> markup_unescape s out = out @ s"
proof (induction s arbitrary: out)
  case (Cons c s)
  then have "numeric_entity (c # s) = None" by (intro numeric_entity_plain) auto
  with Cons show ?case by simp
qed simp

lemma xml_esc_ascii: "list_all (\<lambda>c. c \<le> 128) s \<Longrightarrow> list_all (\<lambda>c. c \<le> 128) (xml_esc s)"
  by (induction s) (auto simp: xml_esc_def dest: charmap_ascii split: option.splits)

lemma xml_esc_plain: "list_all (\<lambda>c. charmap c = None) p \<Longrightarrow> xml_esc p = p"
  by (induction p) (auto simp: xml_esc_def)

lemma xml_esc_append: "xml_esc (p @ q) = xml_esc p @ xml_esc q"
  by (simp add: xml_esc_def)

lemma specials_append: "specials (p @ q) = specials p + specials q"
  by (simp add: specials_def)

lemma charmap_amp: "charmap 38 \<noteq> None" by (simp add: charmap_def)

lemma xml_entry_closed: "(w, v) \<in> set xml_entries \<Longrightarrow> (k, v') \<in> set xml_entries \<Longrightarrow> k \<noteq> (w @ [c]) @ u"
proof -
  assume w: "(w, v) \<in> set xml_entries" and k: "(k, v') \<in> set xml_entries"
  have "list_all (\<lambda>(w, v). w \<noteq> [] \<and> last w = 59 \<and> 59 \<notin> set (butlast w)) xml_entries"
    by (simp add: xml_entries_eq)
  with w k have "w \<noteq> []" "last w = 59" "59 \<notin> set (butlast k)" by (auto simp: list_all_iff)
  moreover have "59 \<in> set (butlast ((w @ [c]) @ u))" if "w \<noteq> []" "last w = 59"
    using that by (metis append.assoc append_Cons append_Nil butlast_append in_set_conv_decomp
        last_in_set list.distinct(1) snoc_eq_iff_butlast)
  ultimately show ?thesis by blast
qed

lemma xml_decode_loop_esc:
  assumes t: "xml_decode_init = Inr t"
    "\<And>w v. (w, v) \<in> set xml_entries \<Longrightarrow> token_look t w = Inr (Some v)"
    "\<And>w. token_at t w = None \<longleftrightarrow> w \<noteq> [] \<and> (\<forall>(k, v)\<in>set xml_entries. \<forall>u. k \<noteq> w @ u)"
    and s: "list_all (\<lambda>c. c \<le> 128) s"
  shows "xml_decode_loop t (xml_esc s) out n = Inr (n + specials s, out @ s)"
  using s
proof (induction s arbitrary: out n rule: measure_induct_rule [of length])
  case (less s)
  define p where "p = takeWhile (\<lambda>c. charmap c = None) s"
  define r where "r = dropWhile (\<lambda>c. charmap c = None) s"
  have s: "s = p @ r" by (simp add: p_def r_def)
  have plain: "list_all (\<lambda>c. charmap c = None) p" by (auto simp: p_def list_all_iff dest: set_takeWhileD)
  then have p38: "38 \<notin> set p" using charmap_amp by (auto simp: list_all_iff)
  have kid: "tk_tokens t c = None" if "c \<noteq> 38" for c
  proof -
    have "token_at t [c] = None" using that t(3) [of "[c]"] by (auto simp: xml_entries_eq)
    then show ?thesis by (simp split: option.splits)
  qed
  have skip: "list_all (\<lambda>c. c \<le> 128 \<and> tk_tokens t c = None) p"
    unfolding list_all_iff
  proof (intro ballI conjI)
    fix c assume c: "c \<in> set p"
    with less.prems s show "c \<le> 128" by (simp add: list_all_iff)
    from c p38 have "c \<noteq> 38" by metis
    then show "tk_tokens t c = None" by (rule kid)
  qed
  show ?case
  proof (cases r)
    case Nil
    then have "xml_esc s = p" "s = p" "specials s = 0"
      using xml_esc_plain [OF plain] s plain by (auto simp: specials_def list_all_iff)
    then show ?thesis
      using token_match_none [OF skip] markup_unescape_plain [OF p38] by (cases p) auto
  next
    case (Cons x r')
    then have "charmap x \<noteq> None" using hd_dropWhile [of "\<lambda>c. charmap c = None" s] by (auto simp: r_def)
    then obtain e where e: "charmap x = Some e" by blast
    let ?q = "xml_esc r'"
    have esc: "xml_esc s = p @ e @ ?q"
      using s Cons e xml_esc_plain [OF plain] by (simp add: xml_esc_append) (simp add: xml_esc_def)
    note ent = charmap_entry [OF e] and asc = charmap_ascii [OF e]
    have r': "list_all (\<lambda>c. c \<le> 128) r'" using less.prems s Cons by simp
    have e0: "e \<noteq> []" "255 \<notin> set e" using asc by (auto simp: list_all_iff)
    obtain f where f: "token_at t e = Some (f, Some ([x], length e))" "f AND ACL_TOKEN_F_STOP \<noteq> 0"
      using t(2) [OF ent] token_look_at [OF e0, of t] by (auto split: option.splits if_splits)
    have "token_at t (e @ [c]) = None" for c
      using t(3) [of "e @ [c]"] xml_entry_closed [OF ent, of _ _ c] by blast
    then have "?q = [] \<or> hd ?q \<noteq> 255 \<and> token_at t (e @ [hd ?q]) = None"
      using xml_esc_ascii [OF r'] by (cases ?q) auto
    from token_match_word [OF skip f(1) e0(1) _ f(2) this] asc obtain tk where
      tk: "acl_token_tree_match t (p @ e @ ?q) None None = Inr (Some tk, ?q)" "tk_ctx tk = Some ([x], length e)"
      by blast
    obtain c cs where c: "p @ e @ ?q = c # cs" using e0(1) by (cases "p @ e @ ?q") auto
    have "xml_decode_loop t (xml_esc s) out n = xml_decode_loop t ?q
        (out @ take (length (c # cs) - length ?q - length e) (c # cs) @ [x]) (n + 1)"
      unfolding esc c using tk [unfolded c] by simp
    also have "take (length (c # cs) - length ?q - length e) (c # cs) = p" by (simp flip: c)
    also have "xml_decode_loop t ?q (out @ p @ [x]) (n + 1) = Inr (n + 1 + specials r', (out @ p @ [x]) @ r')"
      by (rule less.IH [OF _ r']) (simp add: s Cons)
    finally show ?thesis using s Cons e plain by (auto simp: specials_def list_all_iff)
  qed
qed

lemma acl_xml_decode_esc:
  assumes "list_all (\<lambda>c. c \<le> 128) s"
  shows "acl_xml_decode (xml_esc s) out = Inr (specials s, out @ s)"
proof (rule xml_tree)
  fix t
  assume t: "xml_decode_init = Inr t" "token_wf t"
    "\<And>w v. (w, v) \<in> set xml_entries \<Longrightarrow> token_look t w = Inr (Some v)"
    "\<And>w. token_at t w = None \<longleftrightarrow> w \<noteq> [] \<and> (\<forall>(k, v)\<in>set xml_entries. \<forall>u. k \<noteq> w @ u)"
  have "xml_decode_loop t (xml_esc s) out 0 = Inr (0 + specials s, out @ s)"
    by (rule xml_decode_loop_esc [OF t(1,3,4) assms])
  then show ?thesis unfolding acl_xml_decode_def t(1) by simp
qed

section \<open>The encoder into a buffer\<close>

lemma xml_encode2_loop_fits:
  assumes "length (xml_esc s) < olen" "length out + olen = cap"
  shows "xml_encode2_loop s (cap, out) olen = Inr ([], (cap, out @ xml_esc s), olen - length (xml_esc s))"
  using assms
proof (induction s arbitrary: out olen)
  case Nil
  then show ?case by (simp add: xml_esc_def)
next
  case (Cons c s)
  show ?case
  proof (cases "charmap c")
    case None
    then have e: "xml_esc (c # s) = c # xml_esc s" by (simp add: xml_esc_def)
    have "xml_encode2_loop s (cap, out @ [c]) (olen - 1) =
        Inr ([], (cap, (out @ [c]) @ xml_esc s), olen - 1 - length (xml_esc s))"
      by (rule Cons.IH) (use Cons.prems e in auto)
    with None e Cons.prems show ?thesis by simp
  next
    case (Some w)
    then have e: "xml_esc (c # s) = w @ xml_esc s" by (simp add: xml_esc_def)
    have "xml_encode2_loop s (cap, out @ w) (olen - length w) =
        Inr ([], (cap, (out @ w) @ xml_esc s), olen - length w - length (xml_esc s))"
      by (rule Cons.IH) (use Cons.prems e in auto)
    moreover have "put_all (cap, out) w = Inr (cap, out @ w)"
      by (rule put_all_ok) (use Cons.prems e in auto)
    moreover have "w \<noteq> []" using charmap_ascii [OF Some] by simp
    ultimately show ?thesis using Some e Cons.prems by (cases w) auto
  qed
qed

text \<open>
  A special character whose entity fills the buffer to its last byte leaves no room for the
  terminator, which is written all the same.
\<close>

lemma acl_xml_encode2_overflows:
  assumes "charmap c = Some e"
  shows "acl_xml_encode2 [c] (length e) = Inl OobWrite"
proof -
  have "length e > 1" using assms by (auto simp: charmap_def bytes_of_def split: if_splits)
  moreover have "put_all (length e, []) e = Inr (length e, e)" using put_all_ok [of "[]" e "length e"] by simp
  ultimately show ?thesis using assms by (auto simp: acl_xml_encode2_def)
qed

text \<open>
  The decoder skips the byte behind a byte above 128, also when it starts an entity: of a
  character of three bytes, such as those of Chinese text in UTF-8, the third is taken for
  the first half of a character.
\<close>

lemma acl_xml_decode_misses_entity:
  assumes "b > 128" "b \<noteq> 255"
  shows "acl_xml_decode (b # xml_esc [60]) [] = Inr (0, b # xml_esc [60])"
proof (rule xml_tree)
  fix t
  assume t: "xml_decode_init = Inr t" "token_wf t"
    "\<And>w v. (w, v) \<in> set xml_entries \<Longrightarrow> token_look t w = Inr (Some v)"
    "\<And>w. token_at t w = None \<longleftrightarrow> w \<noteq> [] \<and> (\<forall>(k, v)\<in>set xml_entries. \<forall>u. k \<noteq> w @ u)"
  have kid: "tk_tokens t c = None" if "c \<noteq> 38" for c
    using that t(4) [of "[c]"] by (auto simp: xml_entries_eq split: option.splits)
  have "token_match_loop (\<lambda>_. Inr False) t t None (b # [38, 108, 116, 59]) =
      token_match_loop (\<lambda>_. Inr False) t t None [108, 116, 59]"
  proof -
    have "b \<noteq> 38" using assms(1) by auto
    then show ?thesis using assms kid [of b] by (subst token_match_loop.simps) (auto simp: tk_get_def)
  qed
  also have "\<dots> = Inr (None, [])"
    using token_match_skip [of t "[108, 116, 59]" "[]"] kid by simp
  finally have "acl_token_tree_match t (b # [38, 108, 116, 59]) None None = Inr (None, [])"
    by (simp add: acl_token_tree_match_def)
  moreover have "markup_unescape (b # [38, 108, 116, 59]) [] = b # [38, 108, 116, 59]"
    using assms by (auto simp: numeric_entity_def)
  moreover have "xml_esc [60] = [38, 108, 116, 59]" by (simp add: xml_esc_def charmap_def bytes_of_def)
  ultimately show ?thesis unfolding acl_xml_decode_def t(1) by simp
qed

section \<open>UTF-8\<close>

text \<open>
  A strict decoder of UTF-8 sequences of up to 31 bits, as the encoding is defined: the marker
  bits of the first byte say how many bytes follow and how many bits of the code it carries, each byte
  that follows has the marker \<open>10\<close>, nothing follows the sequence, and a code that fits in fewer
  bytes is refused.
\<close>

definition utf8_form :: "byte \<Rightarrow> (nat \<times> nat) option" where
  "utf8_form b =
     (if b AND 0x80 = 0 then Some (0, 7)
      else if b AND 0xe0 = 0xc0 then Some (1, 5)
      else if b AND 0xf0 = 0xe0 then Some (2, 4)
      else if b AND 0xf8 = 0xf0 then Some (3, 3)
      else if b AND 0xfc = 0xf8 then Some (4, 2)
      else if b AND 0xfe = 0xfc then Some (5, 1)
      else None)"

definition utf8_least :: "nat \<Rightarrow> cint" where
  "utf8_least n = [0, 0x80, 0x800, 0x10000, 0x200000, 0x4000000] ! n"

fun utf8_tail :: "cint \<Rightarrow> byte list \<Rightarrow> cint" where
  "utf8_tail v [] = v"
| "utf8_tail v (b # bs) = utf8_tail (push_bit 6 v OR (ucast b AND 63)) bs"

fun utf8_decode :: "byte list \<Rightarrow> cint option" where
  "utf8_decode [] = None"
| "utf8_decode (b # bs) =
     (case utf8_form b of
        None \<Rightarrow> None
      | Some (n, k) \<Rightarrow>
          let v = utf8_tail (ucast b AND mask k) bs
          in if length bs = n \<and> list_all (\<lambda>x. x AND 0xc0 = 0x80) bs \<and> utf8_least n \<le> v
             then Some v else None)"

lemma bits_below:
  assumes "(c :: cint) < 2 ^ k"
  shows "bit c n \<Longrightarrow> n < k"
proof -
  assume "bit c n"
  moreover have "c AND mask k = c" by (rule less_mask_eq [OF assms])
  ultimately show "n < k" by (metis bit_and_iff bit_mask_iff)
qed

fun utf8_cont :: "nat \<Rightarrow> cint \<Rightarrow> byte list" where
  "utf8_cont 0 c = []"
| "utf8_cont (Suc i) c = utf8_cont i (drop_bit 6 c) @ [ucast ((c AND 63) OR 0x80)]"

lemma utf8_fill_cont: "utf8_fill n c bs = (drop_bit (6 * n) c, utf8_cont n c @ bs)"
  by (induction n arbitrary: c bs) (simp_all add: drop_bit_drop_bit add.commute)

lemma length_utf8_cont: "length (utf8_cont n c) = n"
  by (induction n arbitrary: c) simp_all

lemma utf8_tail_snoc: "utf8_tail v (xs @ [b]) = push_bit 6 (utf8_tail v xs) OR (ucast b AND 63)"
  by (induction xs arbitrary: v) simp_all

lemma utf8_low_bits: "push_bit 6 (drop_bit 6 c) OR (ucast (ucast ((c AND 63) OR 0x80) :: byte) AND 63) = (c :: cint)"
proof -
  have m: "(63 :: cint) = mask 6" by (simp add: mask_eq_decr_exp)
  have top: "\<not> bit (0x80 :: cint) n" if "n < 6" for n
  proof -
    have "n \<in> {0, 1, 2, 3, 4, 5}" using that by auto
    then show ?thesis by auto
  qed
  show ?thesis unfolding m
  proof (rule bit_word_eqI)
    fix n assume "n < LENGTH(32)"
    then show "bit (push_bit 6 (drop_bit 6 c) OR
        (ucast (ucast ((c AND mask 6) OR 0x80) :: byte) AND mask 6)) n = bit c n"
      using top [of n] by (cases "n < 6") (auto simp: bit_simps)
  qed
qed

lemma utf8_tail_cont: "utf8_tail (drop_bit (6 * n) c) (utf8_cont n c) = c"
proof (induction n arbitrary: c)
  case (Suc n)
  have "utf8_tail (drop_bit (6 * Suc n) c) (utf8_cont n (drop_bit 6 c)) = drop_bit 6 c"
    using Suc.IH [of "drop_bit 6 c"] by (simp add: drop_bit_drop_bit algebra_simps)
  then show ?case by (simp add: utf8_tail_snoc utf8_low_bits)
qed simp

lemma utf8_lead_bits:
  assumes "d < 2 ^ k" "first AND mask k = 0" "k \<le> 8"
  shows "ucast (ucast (d OR first) :: byte) AND mask k = (d :: cint)"
proof (rule bit_word_eqI)
  fix n assume "n < LENGTH(32)"
  have "\<not> bit (first AND mask k) n" using assms(2) by simp
  then have "\<not> bit first n" if "n < k"
    using that \<open>n < LENGTH(32)\<close> by (auto simp: bit_simps)
  with bits_below [OF assms(1), of n] assms(3) \<open>n < LENGTH(32)\<close>
  show "bit ((ucast (ucast (d OR first) :: byte) :: cint) AND mask k) n = bit d n" by (auto simp: bit_simps)
qed

lemma drop_bit_below: "(c :: cint) < 2 ^ (k + j) \<Longrightarrow> k + j < 32 \<Longrightarrow> drop_bit j c < 2 ^ k"
proof -
  assume a: "c < 2 ^ (k + j)" "k + j < 32"
  have "int (unat c) < int (2 ^ (k + j))" using a word_2p_lem [of "k + j" c] by (simp add: word_size)
  then have "unat c < 2 ^ k * 2 ^ j" unfolding of_nat_less_iff by (simp add: power_add)
  then have "unat c div 2 ^ j < 2 ^ k" by (rule less_mult_imp_div_less)
  then have "int (unat c div 2 ^ j) < int (2 ^ k)" unfolding of_nat_less_iff .
  moreover have "take_bit 32 (uint c) = uint c"
    by (rule take_bit_int_eq_self) (use unsigned_less [of c, where ?'a = int] in simp_all)
  then have "uint (drop_bit j c) = int (unat c div 2 ^ j)"
    by (simp add: unsigned_drop_bit_eq drop_bit_int_def zdiv_int)
  ultimately show ?thesis using a word_2p_lem [of k "drop_bit j c"] by (simp add: word_size)
qed

text \<open>The marker bits, above the \<open>k\<close> bits of the code.\<close>

lemma utf8_marker:
  assumes d: "\<And>n. bit d n \<Longrightarrow> n < k" and first: "first AND mask k = 0"
  shows "(ucast (d OR first :: cint) :: byte) AND NOT (mask k) = ucast first"
proof (rule bit_word_eqI)
  fix n assume n: "n < LENGTH(8)"
  have "\<not> bit (first AND mask k) n" using first by simp
  then have "\<not> bit first n" if "n < k" using that n by (auto simp: bit_simps)
  with d [of n] n show "bit ((ucast (d OR first) :: byte) AND NOT (mask k)) n = bit (ucast first :: byte) n"
    by (auto simp: bit_simps)
qed

lemma utf8_masks:
  "NOT (mask 7) = (0x80 :: byte)" "NOT (mask 6) = (0xc0 :: byte)" "NOT (mask 5) = (0xe0 :: byte)"
  "NOT (mask 4) = (0xf0 :: byte)" "NOT (mask 3) = (0xf8 :: byte)" "NOT (mask 2) = (0xfc :: byte)"
  "NOT (mask 1) = (0xfe :: byte)"
  by (simp_all add: mask_eq_decr_exp)

lemma utf8_cont_marked: "list_all (\<lambda>x. x AND 0xc0 = 0x80) (utf8_cont n c)"
proof (induction n arbitrary: c)
  case (Suc n)
  have m: "(63 :: cint) = mask 6" by (simp add: mask_eq_decr_exp)
  have "bit (c AND 63) i \<Longrightarrow> i < 6" for i unfolding m by (auto simp: bit_simps)
  moreover have "(0x80 :: cint) AND mask 6 = 0" by (simp add: mask_eq_decr_exp)
  ultimately have "(ucast ((c AND 63) OR 0x80) :: byte) AND NOT (mask 6) = ucast (0x80 :: cint)"
    by (rule utf8_marker)
  then show ?case using Suc.IH unfolding utf8_masks by simp
qed simp

lemma utf8_form_of:
  fixes b :: byte
  shows "b AND 0x80 = 0 \<Longrightarrow> utf8_form b = Some (0, 7)"
    "b AND 0xe0 = 0xc0 \<Longrightarrow> utf8_form b = Some (1, 5)"
    "b AND 0xf0 = 0xe0 \<Longrightarrow> utf8_form b = Some (2, 4)"
    "b AND 0xf8 = 0xf0 \<Longrightarrow> utf8_form b = Some (3, 3)"
    "b AND 0xfc = 0xf8 \<Longrightarrow> utf8_form b = Some (4, 2)"
    "b AND 0xfe = 0xfc \<Longrightarrow> utf8_form b = Some (5, 1)"
proof -
  have sub: "b AND m = (b AND k) AND m" if "k AND m = m" for k m :: byte using that by (simp add: and.assoc)
  show "b AND 0x80 = 0 \<Longrightarrow> utf8_form b = Some (0, 7)" by (simp add: utf8_form_def)
  show "utf8_form b = Some (1, 5)" if "b AND 0xe0 = 0xc0"
    using that sub [of "0xe0" "0x80"] by (simp add: utf8_form_def)
  show "utf8_form b = Some (2, 4)" if "b AND 0xf0 = 0xe0"
    using that sub [of "0xf0" "0x80"] sub [of "0xf0" "0xe0"] by (simp add: utf8_form_def)
  show "utf8_form b = Some (3, 3)" if "b AND 0xf8 = 0xf0"
    using that sub [of "0xf8" "0x80"] sub [of "0xf8" "0xe0"] sub [of "0xf8" "0xf0"] by (simp add: utf8_form_def)
  show "utf8_form b = Some (4, 2)" if "b AND 0xfc = 0xf8"
    using that sub [of "0xfc" "0x80"] sub [of "0xfc" "0xe0"] sub [of "0xfc" "0xf0"] sub [of "0xfc" "0xf8"]
    by (simp add: utf8_form_def)
  show "utf8_form b = Some (5, 1)" if "b AND 0xfe = 0xfc"
    using that sub [of "0xfe" "0x80"] sub [of "0xfe" "0xe0"] sub [of "0xfe" "0xf0"] sub [of "0xfe" "0xf8"]
      sub [of "0xfe" "0xfc"] by (simp add: utf8_form_def)
qed

lemma utf8_form_marker:
  "b AND NOT (mask 7) = ucast (0 :: cint) \<Longrightarrow> utf8_form b = Some (0, 7)"
  "b AND NOT (mask 5) = ucast (0xc0 :: cint) \<Longrightarrow> utf8_form b = Some (1, 5)"
  "b AND NOT (mask 4) = ucast (0xe0 :: cint) \<Longrightarrow> utf8_form b = Some (2, 4)"
  "b AND NOT (mask 3) = ucast (0xf0 :: cint) \<Longrightarrow> utf8_form b = Some (3, 3)"
  "b AND NOT (mask 2) = ucast (0xf8 :: cint) \<Longrightarrow> utf8_form b = Some (4, 2)"
  "b AND NOT (mask 1) = ucast (0xfc :: cint) \<Longrightarrow> utf8_form b = Some (5, 1)"
  unfolding utf8_masks by (simp_all add: utf8_form_of)

lemma utf8_sequence:
  assumes c: "c < 2 ^ (k + 6 * n)" "utf8_least n \<le> c" and first: "first AND mask k = 0" "k \<le> 8" "k + 6 * n < 32"
    and form: "\<And>b. b AND NOT (mask k) = ucast first \<Longrightarrow> utf8_form b = Some (n, k)"
  shows "utf8_decode (ucast (drop_bit (6 * n) c OR first) # utf8_cont n c) = Some c"
proof -
  let ?d = "drop_bit (6 * n) c"
  have d: "?d < 2 ^ k" by (rule drop_bit_below [OF c(1) first(3)])
  have "utf8_form (ucast (?d OR first)) = Some (n, k)"
    by (rule form [OF utf8_marker [OF bits_below [OF d] first(1)]])
  moreover have "utf8_tail (ucast (ucast (?d OR first) :: byte) AND mask k) (utf8_cont n c) = c"
    by (simp add: utf8_lead_bits [OF d first(1,2)] utf8_tail_cont)
  ultimately show ?thesis using utf8_cont_marked c(2) by (simp add: length_utf8_cont Let_def)
qed

lemma uni2utf8_sequence:
  assumes "utf8_class c = (first, Suc n)" "n < 7"
  shows "uni2utf8 c 7 = (Suc n, ucast (drop_bit (6 * n) c OR first) # utf8_cont n c)"
  using assms by (simp add: uni2utf8_def utf8_fill_cont)

lemma uni2utf8_decoded:
  assumes "c < 0x80000000"
  shows "utf8_decode (snd (uni2utf8 c 7)) = Some c" "fst (uni2utf8 c 7) = length (snd (uni2utf8 c 7))"
proof -
  have "utf8_decode (snd (uni2utf8 c 7)) = Some c \<and> fst (uni2utf8 c 7) = length (snd (uni2utf8 c 7))"
  proof -
    consider "c < 0x80" | "\<not> c < 0x80" "c < 0x800" | "\<not> c < 0x80" "\<not> c < 0x800" "c < 0x10000"
      | "\<not> c < 0x80" "\<not> c < 0x800" "\<not> c < 0x10000" "c < 0x200000"
      | "\<not> c < 0x80" "\<not> c < 0x800" "\<not> c < 0x10000" "\<not> c < 0x200000" "c < 0x4000000"
      | "\<not> c < 0x80" "\<not> c < 0x800" "\<not> c < 0x10000" "\<not> c < 0x200000" "\<not> c < 0x4000000"
      by blast
    then show ?thesis
    proof cases
      case 1
      have "utf8_class c = (0, Suc 0)" using 1 by (simp add: utf8_class_def)
      moreover have "utf8_decode (ucast (drop_bit (6 * 0) c OR 0) # utf8_cont 0 c) = Some c"
        by (rule utf8_sequence [OF _ _ _ _ _ utf8_form_marker(1)])
          (use 1 assms in \<open>simp_all add: utf8_least_def mask_eq_decr_exp linorder_not_less\<close>)
      ultimately show ?thesis using uni2utf8_sequence [of c _ 0] by (simp add: length_utf8_cont)
    next
      case 2
      have "utf8_class c = (0xc0, Suc 1)" using 2 by (simp add: utf8_class_def)
      moreover have "utf8_decode (ucast (drop_bit (6 * 1) c OR 0xc0) # utf8_cont 1 c) = Some c"
        by (rule utf8_sequence [OF _ _ _ _ _ utf8_form_marker(2)])
          (use 2 assms in \<open>simp_all add: utf8_least_def mask_eq_decr_exp linorder_not_less\<close>)
      ultimately show ?thesis using uni2utf8_sequence [of c _ 1] by (simp add: length_utf8_cont)
    next
      case 3
      have "utf8_class c = (0xe0, Suc 2)" using 3 by (simp add: utf8_class_def)
      moreover have "utf8_decode (ucast (drop_bit (6 * 2) c OR 0xe0) # utf8_cont 2 c) = Some c"
        by (rule utf8_sequence [OF _ _ _ _ _ utf8_form_marker(3)])
          (use 3 assms in \<open>simp_all add: utf8_least_def mask_eq_decr_exp linorder_not_less\<close>)
      ultimately show ?thesis using uni2utf8_sequence [of c _ 2] by (simp add: length_utf8_cont)
    next
      case 4
      have "utf8_class c = (0xf0, Suc 3)" using 4 by (simp add: utf8_class_def)
      moreover have "utf8_decode (ucast (drop_bit (6 * 3) c OR 0xf0) # utf8_cont 3 c) = Some c"
        by (rule utf8_sequence [OF _ _ _ _ _ utf8_form_marker(4)])
          (use 4 assms in \<open>simp_all add: utf8_least_def mask_eq_decr_exp linorder_not_less\<close>)
      ultimately show ?thesis using uni2utf8_sequence [of c _ 3] by (simp add: length_utf8_cont)
    next
      case 5
      have "utf8_class c = (0xf8, Suc 4)" using 5 by (simp add: utf8_class_def)
      moreover have "utf8_decode (ucast (drop_bit (6 * 4) c OR 0xf8) # utf8_cont 4 c) = Some c"
        by (rule utf8_sequence [OF _ _ _ _ _ utf8_form_marker(5)])
          (use 5 assms in \<open>simp_all add: utf8_least_def mask_eq_decr_exp linorder_not_less\<close>)
      ultimately show ?thesis using uni2utf8_sequence [of c _ 4] by (simp add: length_utf8_cont)
    next
      case 6
      have "utf8_class c = (0xfc, Suc 5)" using 6 by (simp add: utf8_class_def)
      moreover have "utf8_decode (ucast (drop_bit (6 * 5) c OR 0xfc) # utf8_cont 5 c) = Some c"
        by (rule utf8_sequence [OF _ _ _ _ _ utf8_form_marker(6)])
          (use 6 assms in \<open>simp_all add: utf8_least_def mask_eq_decr_exp linorder_not_less\<close>)
      ultimately show ?thesis using uni2utf8_sequence [of c _ 5] by (simp add: length_utf8_cont)
    qed
  qed
  then show "utf8_decode (snd (uni2utf8 c 7)) = Some c" "fst (uni2utf8 c 7) = length (snd (uni2utf8 c 7))"
    by simp_all
qed

section \<open>Properties\<close>

text \<open>
  C9: on text of characters up to 128, \<open>acl_xml_decode\<close> gives back what \<open>acl_xml_encode\<close>
  encoded and replaces as many entities as were made.
\<close>

theorem xml_roundtrip:
  assumes "list_all (\<lambda>c. c \<le> 128) s"
  shows "acl_xml_decode (snd (acl_xml_encode s [] 0)) [] = Inr (fst (acl_xml_encode s [] 0), s)"
  using acl_xml_decode_esc [OF assms, of "[]"] by (simp add: acl_xml_encode_esc)

theorem xml_roundtrip_witness:
  "acl_xml_decode (snd (acl_xml_encode [97, 60, 38, 35, 34] [] 0)) [] =
   Inr (fst (acl_xml_encode [97, 60, 38, 35, 34] [] 0), [97, 60, 38, 35, 34])"
  by (rule xml_roundtrip) simp

text \<open>
  with room for the encoded text and a terminator, \<open>acl_xml_encode2\<close> consumes its input,
  stays in the buffer and writes what \<open>acl_xml_encode\<close> produces.
\<close>

theorem xml_encode2_agrees:
  assumes "length (snd (acl_xml_encode s [] 0)) < olen"
  shows "acl_xml_encode2 s olen =
    Inr (length (snd (acl_xml_encode s [] 0)), [], snd (acl_xml_encode s [] 0))"
proof -
  have "length (xml_esc s) < olen" using assms by (simp add: acl_xml_encode_esc)
  with xml_encode2_loop_fits [of s olen "[]"] show ?thesis
    by (simp add: acl_xml_encode2_def acl_xml_encode_esc)
qed

theorem xml_encode2_agrees_witness:
  "acl_xml_encode2 [60, 97] 6 =
   Inr (length (snd (acl_xml_encode [60, 97] [] 0)), [], snd (acl_xml_encode [60, 97] [] 0))"
  by (rule xml_encode2_agrees) (simp add: charmap_def bytes_of_def)

text \<open>
  C10: \<open>uni2utf8\<close> encodes every code of up to 31 bits as its UTF-8 sequence: a strict decoder
  (marker bits of every byte, length from the first byte, shortest form) accepts what it wrote and gives
  the code back, and the returned length is that of the sequence.
\<close>

theorem uni2utf8_roundtrip:
  assumes "c < 0x80000000"
  shows "utf8_decode (snd (uni2utf8 c 7)) = Some c \<and> fst (uni2utf8 c 7) = length (snd (uni2utf8 c 7))"
  using uni2utf8_decoded [OF assms] by simp

theorem uni2utf8_roundtrip_witness:
  "utf8_decode (snd (uni2utf8 0x4e2d 7)) = Some 0x4e2d \<and>
   fst (uni2utf8 0x4e2d 7) = length (snd (uni2utf8 0x4e2d 7))"
  by (rule uni2utf8_roundtrip) simp

end
