(* ===== verification/Acl_Chain.thy ===== *)
theory Acl_Chain
  imports Acl_Prelude
begin

text \<open>
  Doubly linked lists in a store of nodes: the nodes \<open>ACL_FIFO_INFO\<close> of \<open>acl_fifo.c\<close> and
  \<open>ACL_HTABLE_INFO\<close> of \<open>acl_htable.c\<close> have the fields \<open>prev\<close> and \<open>next\<close> beside their data.
\<close>

record 'd cnode =
  cn_data :: 'd
  cn_prev :: ptr
  cn_next :: ptr

text \<open>Access through a pointer to a node of the store, and its release.\<close>

definition cread :: "(addr \<rightharpoonup> 'd cnode) \<Rightarrow> ptr \<Rightarrow> 'd cnode cres" where
  "cread h p = cbind (deref p) (\<lambda>n. case h n of None \<Rightarrow> Inl OobRead | Some v \<Rightarrow> Inr v)"

definition cwrite :: "(addr \<rightharpoonup> 'd cnode) \<Rightarrow> ptr \<Rightarrow> ('d cnode \<Rightarrow> 'd cnode) \<Rightarrow> (addr \<rightharpoonup> 'd cnode) cres" where
  "cwrite h p u = cbind (deref p) (\<lambda>n. case h n of None \<Rightarrow> Inl OobWrite | Some v \<Rightarrow> Inr (h(n \<mapsto> u v)))"

definition cfree :: "(addr \<rightharpoonup> 'd cnode) \<Rightarrow> ptr \<Rightarrow> (addr \<rightharpoonup> 'd cnode) cres" where
  "cfree h p = cbind (deref p) (\<lambda>n. if h n = None then Inl OobWrite else Inr (h(n := None)))"

lemma cread_Some [simp]: "h n = Some v \<Longrightarrow> cread h (Some n) = Inr v"
  by (simp add: cread_def)

lemma cwrite_Some [simp]: "h n = Some v \<Longrightarrow> cwrite h (Some n) u = Inr (h(n \<mapsto> u v))"
  by (simp add: cwrite_def)

lemma cfree_Some [simp]: "h n = Some v \<Longrightarrow> cfree h (Some n) = Inr (h(n := None))"
  by (simp add: cfree_def)

section \<open>Linked segments\<close>

text \<open>
  \<open>cseg h p ns q\<close>: the nodes \<open>ns\<close>, pairs of address and data, are linked in both directions;
  the node before the first is \<open>p\<close> and the one after the last is \<open>q\<close>.
\<close>

definition first_of :: "(addr \<times> 'd) list \<Rightarrow> ptr \<Rightarrow> ptr" where
  "first_of ns q = (case ns of [] \<Rightarrow> q | n # _ \<Rightarrow> Some (fst n))"

definition last_of :: "(addr \<times> 'd) list \<Rightarrow> ptr \<Rightarrow> ptr" where
  "last_of ns p = (if ns = [] then p else Some (fst (last ns)))"

fun cseg :: "(addr \<rightharpoonup> 'd cnode) \<Rightarrow> ptr \<Rightarrow> (addr \<times> 'd) list \<Rightarrow> ptr \<Rightarrow> bool" where
  "cseg h p [] q = True"
| "cseg h p (n # ns) q =
     (h (fst n) = Some \<lparr>cn_data = snd n, cn_prev = p, cn_next = first_of ns q\<rparr> \<and> cseg h (Some (fst n)) ns q)"

lemma first_of_simps [simp]:
  "first_of [] q = q" "first_of (n # ns) q = Some (fst n)" "first_of (ns @ ms) q = first_of ns (first_of ms q)"
  by (auto simp: first_of_def split: list.splits)

lemma last_of_simps [simp]:
  "last_of [] p = p" "last_of (ns @ [n]) p = Some (fst n)" "last_of (n # ns) p = last_of ns (Some (fst n))"
  "last_of (ns @ ms) p = last_of ms (last_of ns p)"
  by (auto simp: last_of_def)

lemma cseg_append: "cseg h p (ns @ ms) q \<longleftrightarrow> cseg h p ns (first_of ms q) \<and> cseg h (last_of ns p) ms q"
  by (induction ns arbitrary: p) auto

lemma cseg_frame: "n \<notin> fst ` set ns \<Longrightarrow> cseg (h(n := v)) p ns q = cseg h p ns q"
  by (induction ns arbitrary: p) auto

lemma cseg_node: "cseg h p (ns @ n # ms) q \<Longrightarrow>
    h (fst n) = Some \<lparr>cn_data = snd n, cn_prev = last_of ns p, cn_next = first_of ms q\<rparr>"
  by (simp add: cseg_append)

lemma cseg_dom: "cseg h p ns q \<Longrightarrow> a \<in> fst ` set ns \<Longrightarrow> a \<in> dom h"
  by (induction ns arbitrary: p) auto

section \<open>Relinking the ends of a segment\<close>

text \<open>
  \<open>set_prev s ns p q\<close> and \<open>set_next s p ns q\<close>: the store after the \<open>prev\<close> of the first node, or the
  \<open>next\<close> of the last, of a segment is set.
\<close>

definition set_prev :: "(addr \<rightharpoonup> 'd cnode) \<Rightarrow> (addr \<times> 'd) list \<Rightarrow> ptr \<Rightarrow> ptr \<Rightarrow> (addr \<rightharpoonup> 'd cnode)" where
  "set_prev s ns p q =
     (case ns of [] \<Rightarrow> s | n # ms \<Rightarrow> s(fst n \<mapsto> \<lparr>cn_data = snd n, cn_prev = p, cn_next = first_of ms q\<rparr>))"

definition set_next :: "(addr \<rightharpoonup> 'd cnode) \<Rightarrow> ptr \<Rightarrow> (addr \<times> 'd) list \<Rightarrow> ptr \<Rightarrow> (addr \<rightharpoonup> 'd cnode)" where
  "set_next s p ns q =
     (if ns = [] then s
      else s(fst (last ns) \<mapsto> \<lparr>cn_data = snd (last ns), cn_prev = last_of (butlast ns) p, cn_next = q\<rparr>))"

lemma cwrite_prev:
  "cseg s p ns q \<Longrightarrow> ns \<noteq> [] \<Longrightarrow> cwrite s (first_of ns r) (\<lambda>w. w\<lparr>cn_prev := p'\<rparr>) = Inr (set_prev s ns p' q)"
  by (cases ns) (auto simp: set_prev_def)

lemma cwrite_next:
  "cseg s p ns q \<Longrightarrow> ns \<noteq> [] \<Longrightarrow> cwrite s (last_of ns r) (\<lambda>w. w\<lparr>cn_next := q'\<rparr>) = Inr (set_next s p ns q')"
  by (cases ns rule: rev_cases) (auto simp: set_next_def cseg_append)

lemma set_prev_other: "a \<notin> fst ` set ns \<Longrightarrow> set_prev s ns p q a = s a"
  by (cases ns) (auto simp: set_prev_def)

lemma set_next_other: "a \<notin> fst ` set ns \<Longrightarrow> set_next s p ns q a = s a"
  by (cases ns rule: rev_cases) (auto simp: set_next_def)

lemma cseg_other: "(\<And>a. a \<in> fst ` set ns \<Longrightarrow> s a = s' a) \<Longrightarrow> cseg s p ns q = cseg s' p ns q"
  by (induction ns arbitrary: p) auto

lemma cseg_set_prev: "cseg s p ns q \<Longrightarrow> distinct (map fst ns) \<Longrightarrow> cseg (set_prev s ns p' q) p' ns q"
  by (cases ns) (auto simp: set_prev_def cseg_frame)

lemma cseg_set_next: "cseg s p ns q \<Longrightarrow> distinct (map fst ns) \<Longrightarrow> cseg (set_next s p ns q') p ns q'"
  by (cases ns rule: rev_cases) (auto simp: set_next_def cseg_append cseg_frame)

lemma cseg_set_prev_other: "fst ` set ms \<inter> fst ` set ns = {} \<Longrightarrow> cseg (set_prev s ns p' q') p ms q = cseg s p ms q"
  by (rule cseg_other) (auto intro!: set_prev_other)

lemma cseg_set_next_other: "fst ` set ms \<inter> fst ` set ns = {} \<Longrightarrow> cseg (set_next s p' ns q') p ms q = cseg s p ms q"
  by (rule cseg_other) (auto intro!: set_next_other)

lemma set_prev_dom: "cseg s p ns q \<Longrightarrow> dom (set_prev s ns p' q') = dom s"
  by (cases ns) (auto simp: set_prev_def)

lemma set_next_dom: "cseg s p ns q \<Longrightarrow> dom (set_next s p' ns q') = dom s"
  by (cases ns rule: rev_cases) (auto simp: set_next_def cseg_append)

lemma first_of_eq_None [simp]: "first_of ns None = None \<longleftrightarrow> ns = []"
  by (cases ns) auto

lemma last_of_eq_None [simp]: "last_of ns None = None \<longleftrightarrow> ns = []"
  by (simp add: last_of_def)

lemma ends_Some [simp]:
  "(\<exists>a. first_of ns None = Some a) \<longleftrightarrow> ns \<noteq> []" "(\<exists>a. last_of ns None = Some a) \<longleftrightarrow> ns \<noteq> []"
  by (cases ns; simp) (simp add: last_of_def)

end
