(* ===== verification/Acl_Fifo.thy ===== *)
theory Acl_Fifo
  imports Acl_Interfaces Acl_Chain
begin

text \<open>
  The queue of \<open>lib_acl/src/stdlib/common/acl_fifo.c\<close>: a doubly linked list of
  \<open>ACL_FIFO_INFO\<close> nodes. The nodes live in a store \<open>ff_nodes\<close> of the queue; reading or writing a
  node through NULL is a fault, and so is using a node that has been freed. \<open>ff_brk\<close> is the
  address of the next node the allocator gives out; nodes that callers allocate themselves are
  put into the store before \<open>acl_fifo_push_info_back\<close> links them.
\<close>

section \<open>Queues\<close>

record fifo =
  ff_head :: ptr
  ff_tail :: ptr
  ff_cnt :: int
  ff_nodes :: "addr \<rightharpoonup> ptr cnode"
  ff_brk :: addr

definition fread :: "fifo \<Rightarrow> ptr \<Rightarrow> ptr cnode cres" where
  "fread f p = cread (ff_nodes f) p"

definition fwrite :: "fifo \<Rightarrow> ptr \<Rightarrow> (ptr cnode \<Rightarrow> ptr cnode) \<Rightarrow> fifo cres" where
  "fwrite f p u = cbind (cwrite (ff_nodes f) p u) (\<lambda>h. Inr (f\<lparr>ff_nodes := h\<rparr>))"

definition ffree :: "fifo \<Rightarrow> ptr \<Rightarrow> fifo cres" where
  "ffree f p = cbind (cfree (ff_nodes f) p) (\<lambda>h. Inr (f\<lparr>ff_nodes := h\<rparr>))"

text \<open>
  A new node holds the data; its links are what \<open>acl_mymalloc\<close> left in the block, pointers that
  are wrong in every list (to the node itself) until they are written.
\<close>

definition fifo_alloc :: "fifo \<Rightarrow> ptr \<Rightarrow> addr \<times> fifo" where
  "fifo_alloc f d =
     (ff_brk f, f\<lparr>ff_nodes := (ff_nodes f)(ff_brk f \<mapsto> \<lparr>cn_data = d, cn_prev = Some (ff_brk f), cn_next = Some (ff_brk f)\<rparr>),
                  ff_brk := Suc (ff_brk f)\<rparr>)"

section \<open>Operations\<close>

definition acl_fifo_init :: "fifo \<Rightarrow> fifo" where
  "acl_fifo_init f = f\<lparr>ff_head := None, ff_tail := None, ff_cnt := 0\<rparr>"

definition acl_fifo_new1 :: fifo where
  "acl_fifo_new1 = \<lparr>ff_head = None, ff_tail = None, ff_cnt = 0, ff_nodes = Map.empty, ff_brk = 0\<rparr>"

definition acl_fifo_new :: fifo where
  "acl_fifo_new = acl_fifo_new1"

definition acl_fifo_push_info_back :: "fifo \<Rightarrow> ptr \<Rightarrow> fifo cres" where
  "acl_fifo_push_info_back f info =
     cbind (if ff_tail f = None then
              cbind (fwrite f info (\<lambda>v. v\<lparr>cn_prev := None, cn_next := None\<rparr>)) (\<lambda>f1.
                Inr (f1\<lparr>ff_head := info, ff_tail := info\<rparr>))
            else
              cbind (fwrite f (ff_tail f) (\<lambda>v. v\<lparr>cn_next := info\<rparr>)) (\<lambda>f1.
              cbind (fwrite f1 info (\<lambda>v. v\<lparr>cn_prev := ff_tail f1, cn_next := None\<rparr>)) (\<lambda>f2.
                Inr (f2\<lparr>ff_tail := info\<rparr>))))
       (\<lambda>f3. Inr (f3\<lparr>ff_cnt := ff_cnt f3 + 1\<rparr>))"

definition acl_fifo_push_back :: "fifo \<Rightarrow> ptr \<Rightarrow> (ptr \<times> fifo) cres" where
  "acl_fifo_push_back f d =
     (let (n, f0) = fifo_alloc f d; info = Some n
      in cbind (if ff_tail f0 = None then
                  cbind (fwrite f0 info (\<lambda>v. v\<lparr>cn_prev := None, cn_next := None\<rparr>)) (\<lambda>f1.
                    Inr (f1\<lparr>ff_head := info, ff_tail := info\<rparr>))
                else
                  cbind (fwrite f0 (ff_tail f0) (\<lambda>v. v\<lparr>cn_next := info\<rparr>)) (\<lambda>f1.
                  cbind (fwrite f1 info (\<lambda>v. v\<lparr>cn_prev := ff_tail f1, cn_next := None\<rparr>)) (\<lambda>f2.
                    Inr (f2\<lparr>ff_tail := info\<rparr>))))
           (\<lambda>f3. Inr (info, f3\<lparr>ff_cnt := ff_cnt f3 + 1\<rparr>)))"

definition acl_fifo_push_front :: "fifo \<Rightarrow> ptr \<Rightarrow> (ptr \<times> fifo) cres" where
  "acl_fifo_push_front f d =
     (let (n, f0) = fifo_alloc f d; info = Some n
      in cbind (if ff_head f0 = None then
                  cbind (fwrite f0 info (\<lambda>v. v\<lparr>cn_prev := None, cn_next := None\<rparr>)) (\<lambda>f1.
                    Inr (f1\<lparr>ff_head := info, ff_tail := info\<rparr>))
                else
                  cbind (fwrite f0 info (\<lambda>v. v\<lparr>cn_next := ff_head f0\<rparr>)) (\<lambda>f1.
                  cbind (fwrite f1 (ff_head f1) (\<lambda>v. v\<lparr>cn_prev := info\<rparr>)) (\<lambda>f2.
                  cbind (fwrite f2 info (\<lambda>v. v\<lparr>cn_prev := None\<rparr>)) (\<lambda>f3.
                    Inr (f3\<lparr>ff_head := info\<rparr>)))))
           (\<lambda>f4. Inr (info, f4\<lparr>ff_cnt := ff_cnt f4 + 1\<rparr>)))"

definition acl_fifo_pop_info :: "fifo \<Rightarrow> (ptr \<times> fifo) cres" where
  "acl_fifo_pop_info f =
     (if ff_head f = None then Inr (None, f)
      else cbind (fread f (ff_head f)) (\<lambda>v.
           cbind (if cn_next v \<noteq> None then
                    cbind (fwrite f (cn_next v) (\<lambda>w. w\<lparr>cn_prev := None\<rparr>)) (\<lambda>f1.
                    cbind (fread f1 (ff_head f1)) (\<lambda>v1. Inr (f1\<lparr>ff_head := cn_next v1\<rparr>)))
                  else Inr (f\<lparr>ff_head := None, ff_tail := None\<rparr>)) (\<lambda>f2.
             Inr (ff_head f, f2\<lparr>ff_cnt := ff_cnt f2 - 1\<rparr>))))"

definition acl_fifo_pop_front :: "fifo \<Rightarrow> (ptr \<times> fifo) cres" where
  "acl_fifo_pop_front f =
     (if ff_head f = None then Inr (None, f)
      else cbind (fread f (ff_head f)) (\<lambda>v.
           cbind (if cn_next v \<noteq> None then
                    cbind (fwrite f (cn_next v) (\<lambda>w. w\<lparr>cn_prev := None\<rparr>)) (\<lambda>f1.
                    cbind (fread f1 (ff_head f1)) (\<lambda>v1. Inr (f1\<lparr>ff_head := cn_next v1\<rparr>)))
                  else Inr (f\<lparr>ff_head := None, ff_tail := None\<rparr>)) (\<lambda>f2.
           cbind (fread f2 (ff_head f)) (\<lambda>v2.
           cbind (ffree f2 (ff_head f)) (\<lambda>f3.
             Inr (cn_data v2, f3\<lparr>ff_cnt := ff_cnt f3 - 1\<rparr>))))))"

definition acl_fifo_pop_back :: "fifo \<Rightarrow> (ptr \<times> fifo) cres" where
  "acl_fifo_pop_back f =
     (if ff_tail f = None then Inr (None, f)
      else cbind (fread f (ff_tail f)) (\<lambda>v.
           cbind (if cn_prev v \<noteq> None then
                    cbind (fwrite f (cn_prev v) (\<lambda>w. w\<lparr>cn_next := None\<rparr>)) (\<lambda>f1.
                    cbind (fread f1 (ff_tail f1)) (\<lambda>v1. Inr (f1\<lparr>ff_tail := cn_prev v1\<rparr>)))
                  else Inr (f\<lparr>ff_head := None, ff_tail := None\<rparr>)) (\<lambda>f2.
           cbind (fread f2 (ff_tail f)) (\<lambda>v2.
           cbind (ffree f2 (ff_tail f)) (\<lambda>f3.
             Inr (cn_data v2, f3\<lparr>ff_cnt := ff_cnt f3 - 1\<rparr>))))))"

text \<open>
  The statements that take a node out of the list, which \<open>acl_fifo_delete_info\<close> and
  \<open>acl_fifo_delete\<close> both have; \<open>v\<close> is the node as it was read.
\<close>

definition fifo_unlink :: "fifo \<Rightarrow> ptr \<Rightarrow> ptr cnode \<Rightarrow> fifo cres" where
  "fifo_unlink f info v =
     cbind (if cn_prev v \<noteq> None then fwrite f (cn_prev v) (\<lambda>w. w\<lparr>cn_next := cn_next v\<rparr>)
            else Inr (f\<lparr>ff_head := cn_next v\<rparr>)) (\<lambda>f1.
     cbind (fread f1 info) (\<lambda>v1.
     cbind (if cn_next v1 \<noteq> None then fwrite f1 (cn_next v1) (\<lambda>w. w\<lparr>cn_prev := cn_prev v1\<rparr>)
            else Inr (f1\<lparr>ff_tail := cn_prev v1\<rparr>)) (\<lambda>f2.
     cbind (ffree f2 info) (\<lambda>f3.
       Inr (f3\<lparr>ff_cnt := ff_cnt f3 - 1\<rparr>)))))"

definition acl_fifo_delete_info :: "fifo \<Rightarrow> ptr \<Rightarrow> fifo cres" where
  "acl_fifo_delete_info f info = cbind (fread f info) (fifo_unlink f info)"

text \<open>
  \<open>acl_fifo_delete\<close> walks the list; the fuel bounds the walk, and running out of it is a fault,
  so a result without that fault says that the loop ends.
\<close>

fun fifo_delete_loop :: "nat \<Rightarrow> fifo \<Rightarrow> ptr \<Rightarrow> ptr \<Rightarrow> (int \<times> fifo) cres" where
  "fifo_delete_loop 0 f iter d = (if iter = None then Inr (0, f) else Inl OutOfFuel)"
| "fifo_delete_loop (Suc n) f iter d =
     (if iter = None then Inr (0, f)
      else cbind (fread f iter) (\<lambda>v.
           if cn_data v = d then cbind (fifo_unlink f iter v) (\<lambda>f1. Inr (1, f1))
           else fifo_delete_loop n f (cn_next v) d))"

definition acl_fifo_delete :: "nat \<Rightarrow> fifo \<Rightarrow> ptr \<Rightarrow> (int \<times> fifo) cres" where
  "acl_fifo_delete fuel f d = fifo_delete_loop fuel f (ff_head f) d"

definition acl_fifo_head :: "fifo \<Rightarrow> ptr cres" where
  "acl_fifo_head f = (if ff_head f \<noteq> None then cbind (fread f (ff_head f)) (\<lambda>v. Inr (cn_data v)) else Inr None)"

definition acl_fifo_tail :: "fifo \<Rightarrow> ptr cres" where
  "acl_fifo_tail f = (if ff_tail f \<noteq> None then cbind (fread f (ff_tail f)) (\<lambda>v. Inr (cn_data v)) else Inr None)"

definition acl_fifo_head_info :: "fifo \<Rightarrow> ptr" where
  "acl_fifo_head_info f = (if ff_head f \<noteq> None then ff_head f else None)"

definition acl_fifo_tail_info :: "fifo \<Rightarrow> ptr" where
  "acl_fifo_tail_info f = (if ff_tail f \<noteq> None then ff_tail f else None)"

definition acl_fifo_size :: "fifo \<Rightarrow> int" where
  "acl_fifo_size f = ff_cnt f"

text \<open>\<open>acl_fifo_free\<close> pops until it gets NULL; the result is what \<open>free_fn\<close> is called on.\<close>

fun acl_fifo_free :: "nat \<Rightarrow> fifo \<Rightarrow> (ptr list \<times> fifo) cres" where
  "acl_fifo_free 0 f = Inl OutOfFuel"
| "acl_fifo_free (Suc n) f =
     cbind (acl_fifo_pop_front f) (\<lambda>(d, f1).
       if d = None then Inr ([], f1)
       else cbind (acl_fifo_free n f1) (\<lambda>(ds, f2). Inr (d # ds, f2)))"

fun acl_fifo_free2 :: "nat \<Rightarrow> fifo \<Rightarrow> (ptr list \<times> fifo) cres" where
  "acl_fifo_free2 0 f = Inl OutOfFuel"
| "acl_fifo_free2 (Suc n) f =
     cbind (acl_fifo_pop_info f) (\<lambda>(p, f1).
       if p = None then Inr ([], f1)
       else cbind (acl_fifo_free2 n f1) (\<lambda>(ps, f2). Inr (p # ps, f2)))"

definition fifo_push_back :: "fifo \<Rightarrow> ptr \<Rightarrow> fifo cres" where
  "fifo_push_back f d = cbind (acl_fifo_push_back f d) (\<lambda>(_, f1). Inr f1)"

definition fifo_push_front :: "fifo \<Rightarrow> ptr \<Rightarrow> fifo cres" where
  "fifo_push_front f d = cbind (acl_fifo_push_front f d) (\<lambda>(_, f1). Inr f1)"

definition fifo_pop_back :: "fifo \<Rightarrow> (ptr \<times> fifo) cres" where
  "fifo_pop_back f = acl_fifo_pop_back f"

definition fifo_pop_front :: "fifo \<Rightarrow> (ptr \<times> fifo) cres" where
  "fifo_pop_front f = acl_fifo_pop_front f"

text \<open>The iterator: the fields \<open>i\<close>, \<open>ptr\<close> (a node) and \<open>data\<close> of \<open>ACL_ITER\<close>.\<close>

record fiter =
  it_i :: int
  it_ptr :: ptr
  it_data :: ptr

definition fifo_iter_head :: "fifo \<Rightarrow> fiter cres" where
  "fifo_iter_head f =
     cbind (if ff_head f \<noteq> None then cbind (fread f (ff_head f)) (\<lambda>v. Inr (cn_data v)) else Inr None) (\<lambda>d.
       Inr \<lparr>it_i = 0, it_ptr = ff_head f, it_data = d\<rparr>)"

definition fifo_iter_next :: "fiter \<Rightarrow> fifo \<Rightarrow> fiter cres" where
  "fifo_iter_next it f =
     cbind (if it_ptr it \<noteq> None then cbind (fread f (it_ptr it)) (\<lambda>v. Inr (cn_next v)) else Inr None) (\<lambda>p.
       if p \<noteq> None then
         cbind (fread f p) (\<lambda>v. Inr (it\<lparr>it_ptr := p, it_data := cn_data v, it_i := it_i it + 1\<rparr>))
       else Inr (it\<lparr>it_ptr := p, it_data := None\<rparr>))"

definition fifo_iter_tail :: "fifo \<Rightarrow> fiter cres" where
  "fifo_iter_tail f =
     cbind (if ff_tail f \<noteq> None then cbind (fread f (ff_tail f)) (\<lambda>v. Inr (cn_data v)) else Inr None) (\<lambda>d.
       Inr \<lparr>it_i = ff_cnt f - 1, it_ptr = ff_tail f, it_data = d\<rparr>)"

definition fifo_iter_prev :: "fiter \<Rightarrow> fifo \<Rightarrow> fiter cres" where
  "fifo_iter_prev it f =
     cbind (if it_ptr it \<noteq> None then cbind (fread f (it_ptr it)) (\<lambda>v. Inr (cn_prev v)) else Inr None) (\<lambda>p.
       if p \<noteq> None then
         cbind (fread f p) (\<lambda>v. Inr (it\<lparr>it_ptr := p, it_data := cn_data v, it_i := it_i it - 1\<rparr>))
       else Inr (it\<lparr>it_ptr := p, it_data := None\<rparr>))"

definition fifo_iter_info :: "fiter \<Rightarrow> ptr" where
  "fifo_iter_info it = (if it_ptr it \<noteq> None then it_ptr it else None)"

text \<open>The loop \<open>acl_foreach\<close>: the pairs of index and data it sees.\<close>

fun fifo_foreach :: "nat \<Rightarrow> fiter \<Rightarrow> fifo \<Rightarrow> (int \<times> ptr) list cres" where
  "fifo_foreach 0 it f = (if it_ptr it = None then Inr [] else Inl OutOfFuel)"
| "fifo_foreach (Suc n) it f =
     (if it_ptr it = None then Inr []
      else cbind (fifo_iter_next it f) (\<lambda>it1.
           cbind (fifo_foreach n it1 f) (\<lambda>ds. Inr ((it_i it, it_data it) # ds))))"

section \<open>Well-formed queues\<close>

definition fifo_linked :: "fifo \<Rightarrow> (addr \<times> ptr) list \<Rightarrow> bool" where
  "fifo_linked f ns \<longleftrightarrow>
     cseg (ff_nodes f) None ns None \<and> ff_head f = first_of ns None \<and> ff_tail f = last_of ns None \<and>
     ff_cnt f = int (length ns) \<and> distinct (map fst ns) \<and> (\<forall>n\<in>dom (ff_nodes f). n < ff_brk f)"

definition fifo_holds :: "fifo \<Rightarrow> ptr list \<Rightarrow> bool" where
  "fifo_holds f xs \<longleftrightarrow> (\<exists>ns. fifo_linked f ns \<and> map snd ns = xs)"

lemma fread_Some [simp]: "ff_nodes f n = Some v \<Longrightarrow> fread f (Some n) = Inr v"
  by (simp add: fread_def)

lemma fwrite_Some [simp]: "ff_nodes f n = Some v \<Longrightarrow>
    fwrite f (Some n) u = Inr (f\<lparr>ff_nodes := (ff_nodes f)(n \<mapsto> u v)\<rparr>)"
  by (simp add: fwrite_def)

lemma ffree_Some [simp]: "ff_nodes f n = Some v \<Longrightarrow> ffree f (Some n) = Inr (f\<lparr>ff_nodes := (ff_nodes f)(n := None)\<rparr>)"
  by (simp add: ffree_def)

lemma fifo_linkedD:
  assumes "fifo_linked f ns"
  shows "cseg (ff_nodes f) None ns None" "ff_head f = first_of ns None" "ff_tail f = last_of ns None"
    "ff_cnt f = int (length ns)" "distinct (map fst ns)" "\<And>n. n \<in> dom (ff_nodes f) \<Longrightarrow> n < ff_brk f"
  using assms by (auto simp: fifo_linked_def)

section \<open>The operations on linked queues\<close>

text \<open>Linking a node that is in the store but not in the queue.\<close>

lemma push_info_back_linked:
  assumes "fifo_linked f ns" "ff_nodes f n = Some v" "n \<notin> fst ` set ns"
  shows "\<exists>f'. acl_fifo_push_info_back f (Some n) = Inr f' \<and> fifo_linked f' (ns @ [(n, cn_data v)]) \<and>
    ff_brk f' = ff_brk f"
proof (cases ns rule: rev_cases)
  case Nil
  with assms fifo_linkedD [OF assms(1)] show ?thesis
    by (auto simp: acl_fifo_push_info_back_def fifo_linked_def)
next
  case (snoc ms m)
  note f = fifo_linkedD [OF assms(1)]
  have m: "ff_nodes f (fst m) = Some \<lparr>cn_data = snd m, cn_prev = last_of ms None, cn_next = None\<rparr>"
    using f(1) snoc by (simp add: cseg_append)
  have ne: "n \<noteq> fst m" "n \<notin> fst ` set ms" "fst m \<notin> fst ` set ms" using assms(3) snoc f(5) by auto
  have seg: "cseg (ff_nodes f) None ms (Some (fst m))" using f(1) snoc by (simp add: cseg_append)
  have b: "n < ff_brk f" "fst m < ff_brk f" using f(6) m assms(2) by auto
  show ?thesis
    using snoc f m ne seg b assms(2)
    by (auto simp: acl_fifo_push_info_back_def fifo_linked_def cseg_append cseg_frame)
qed

lemma acl_fifo_push_back_alloc:
  "acl_fifo_push_back f d =
     cbind (acl_fifo_push_info_back (snd (fifo_alloc f d)) (Some (ff_brk f))) (\<lambda>f'. Inr (Some (ff_brk f), f'))"
  by (simp add: acl_fifo_push_back_def acl_fifo_push_info_back_def fifo_alloc_def cbind_assoc Let_def)

lemma fifo_brk_fresh: "fifo_linked f ns \<Longrightarrow> ff_brk f \<notin> fst ` set ns"
  using cseg_dom [of "ff_nodes f" None ns None] fifo_linkedD(1,6) by blast

lemma fifo_alloc_linked: "fifo_linked f ns \<Longrightarrow> fifo_linked (snd (fifo_alloc f d)) ns"
  using fifo_brk_fresh [of f ns] by (auto simp: fifo_linked_def fifo_alloc_def cseg_frame less_SucI)

lemma push_back_linked:
  assumes "fifo_linked f ns"
  shows "\<exists>f'. acl_fifo_push_back f d = Inr (Some (ff_brk f), f') \<and> fifo_linked f' (ns @ [(ff_brk f, d)])"
proof -
  have "ff_nodes (snd (fifo_alloc f d)) (ff_brk f) =
      Some \<lparr>cn_data = d, cn_prev = Some (ff_brk f), cn_next = Some (ff_brk f)\<rparr>"
    by (simp add: fifo_alloc_def)
  from push_info_back_linked [OF fifo_alloc_linked [OF assms] this fifo_brk_fresh [OF assms]] show ?thesis
    by (auto simp: acl_fifo_push_back_alloc)
qed

lemma push_front_linked:
  assumes "fifo_linked f ns"
  shows "\<exists>f'. acl_fifo_push_front f d = Inr (Some (ff_brk f), f') \<and> fifo_linked f' ((ff_brk f, d) # ns)"
proof (cases ns)
  case Nil
  with fifo_linkedD [OF assms] show ?thesis
    by (auto simp: acl_fifo_push_front_def fifo_alloc_def Let_def fifo_linked_def less_SucI)
next
  case (Cons m ms)
  note f = fifo_linkedD [OF assms]
  have new: "ff_brk f \<notin> fst ` set ns" by (rule fifo_brk_fresh [OF assms])
  have m: "ff_nodes f (fst m) = Some \<lparr>cn_data = snd m, cn_prev = None, cn_next = first_of ms None\<rparr>"
    "cseg (ff_nodes f) (Some (fst m)) ms None" using f(1) Cons by auto
  have ne: "ff_brk f \<noteq> fst m" "ff_brk f \<notin> fst ` set ms" "fst m \<notin> fst ` set ms" using new Cons f(5) by auto
  have b: "fst m < ff_brk f" using f(6) m(1) by auto
  show ?thesis
    using Cons f m ne b
    by (auto simp: acl_fifo_push_front_def fifo_alloc_def Let_def fifo_linked_def cseg_frame less_SucI)
qed

lemma pop_info_linked:
  assumes "fifo_linked f (n # ns)"
  shows "\<exists>f' v. acl_fifo_pop_info f = Inr (Some (fst n), f') \<and> fifo_linked f' ns \<and>
    ff_nodes f' (fst n) = Some v \<and> cn_data v = snd n"
proof (cases ns)
  case Nil
  with fifo_linkedD [OF assms] show ?thesis
    by (auto simp: acl_fifo_pop_info_def fifo_linked_def)
next
  case (Cons m ms)
  note f = fifo_linkedD [OF assms]
  from f(5) Cons have ne: "fst n \<noteq> fst m" "fst n \<notin> fst ` set ms" "fst m \<notin> fst ` set ms" by auto
  with Cons f show ?thesis
    by (auto simp: acl_fifo_pop_info_def fifo_linked_def cseg_frame)
qed

lemma free_linked:
  assumes "fifo_linked f ns" "a \<notin> fst ` set ns"
  shows "fifo_linked (f\<lparr>ff_nodes := (ff_nodes f)(a := None)\<rparr>) ns"
  using fifo_linkedD [OF assms(1)] assms(2) by (auto simp: fifo_linked_def cseg_frame)

lemma pop_front_linked:
  assumes "fifo_linked f (n # ns)"
  shows "\<exists>f'. acl_fifo_pop_front f = Inr (snd n, f') \<and> fifo_linked f' ns"
proof (cases ns)
  case Nil
  with fifo_linkedD [OF assms] show ?thesis
    by (auto simp: acl_fifo_pop_front_def fifo_linked_def)
next
  case (Cons m ms)
  note f = fifo_linkedD [OF assms]
  from f(5) Cons have ne: "fst n \<noteq> fst m" "fst n \<notin> fst ` set ms" "fst m \<notin> fst ` set ms" by auto
  with Cons f show ?thesis
    by (auto simp: acl_fifo_pop_front_def fifo_linked_def cseg_frame)
qed

lemma pop_back_linked:
  assumes "fifo_linked f (ns @ [n])"
  shows "\<exists>f'. acl_fifo_pop_back f = Inr (snd n, f') \<and> fifo_linked f' ns"
proof (cases ns rule: rev_cases)
  case Nil
  with fifo_linkedD [OF assms] show ?thesis
    by (auto simp: acl_fifo_pop_back_def fifo_linked_def)
next
  case (snoc ms m)
  note f = fifo_linkedD [OF assms]
  from f(5) snoc have ne: "fst n \<noteq> fst m" "fst n \<notin> fst ` set ms" "fst m \<notin> fst ` set ms" by auto
  with snoc f show ?thesis
    by (auto simp: acl_fifo_pop_back_def fifo_linked_def cseg_append cseg_frame)
qed

lemma pop_empty_linked:
  "fifo_linked f [] \<Longrightarrow> acl_fifo_pop_back f = Inr (None, f) \<and> acl_fifo_pop_front f = Inr (None, f)"
  by (auto simp: acl_fifo_pop_back_def acl_fifo_pop_front_def dest: fifo_linkedD)

interpretation fifo_seq: obj_deque fifo_holds "\<lambda>x. True" "\<lambda>xs. True"
  fifo_push_back fifo_push_front fifo_pop_back fifo_pop_front
proof
  fix f xs x
  assume "fifo_holds f xs"
  then obtain ns where ns: "fifo_linked f ns" "map snd ns = xs" by (auto simp: fifo_holds_def)
  show "\<exists>f'. fifo_push_back f x = Inr f' \<and> fifo_holds f' (if True then xs @ [x] else xs)"
    using push_back_linked [OF ns(1), of x] ns(2)
    by (auto simp: fifo_push_back_def fifo_holds_def intro!: exI [of _ "ns @ [(ff_brk f, x)]"])
  show "\<exists>f'. fifo_push_front f x = Inr f' \<and> fifo_holds f' (if True \<and> True then x # xs else xs)"
    using push_front_linked [OF ns(1), of x] ns(2)
    by (auto simp: fifo_push_front_def fifo_holds_def intro!: exI [of _ "(ff_brk f, x) # ns"])
next
  fix f xs x
  assume "fifo_holds f (xs @ [x])"
  then obtain ns n where "fifo_linked f (ns @ [n])" "map snd ns = xs" "snd n = x"
    by (auto simp: fifo_holds_def map_eq_append_conv)
  then show "\<exists>f'. fifo_pop_back f = Inr (x, f') \<and> fifo_holds f' xs"
    using pop_back_linked [of f ns n] by (auto simp: fifo_pop_back_def fifo_holds_def)
next
  fix f xs x
  assume "fifo_holds f (x # xs)"
  then obtain ns n where "fifo_linked f (n # ns)" "map snd ns = xs" "snd n = x"
    unfolding fifo_holds_def by (metis map_eq_Cons_conv)
  then show "\<exists>f'. fifo_pop_front f = Inr (x, f') \<and> fifo_holds f' xs"
    using pop_front_linked [of f n ns] by (auto simp: fifo_pop_front_def fifo_holds_def)
qed (auto simp: fifo_holds_def fifo_pop_back_def fifo_pop_front_def dest: pop_empty_linked)

text \<open>Taking a node out of the middle.\<close>

lemma unlink_linked:
  assumes "fifo_linked f (ns @ n # ms)"
  shows "\<exists>f'. fifo_unlink f (Some (fst n)) \<lparr>cn_data = snd n, cn_prev = last_of ns None, cn_next = first_of ms None\<rparr> =
      Inr f' \<and> fifo_linked f' (ns @ ms)"
proof -
  note f = fifo_linkedD [OF assms]
  show ?thesis
  proof (cases ns rule: rev_cases)
    case Nil
    show ?thesis
    proof (cases ms)
      case Nil
      with \<open>ns = []\<close> f show ?thesis by (auto simp: fifo_unlink_def fifo_linked_def)
    next
      case (Cons m ms')
      from f(5) Cons \<open>ns = []\<close> have "fst n \<noteq> fst m" "fst n \<notin> fst ` set ms'" "fst m \<notin> fst ` set ms'" by auto
      with f Cons \<open>ns = []\<close> show ?thesis by (auto simp: fifo_unlink_def fifo_linked_def cseg_frame)
    qed
  next
    case (snoc ns' k)
    show ?thesis
    proof (cases ms)
      case Nil
      from f(5) Nil snoc have "fst n \<noteq> fst k" "fst n \<notin> fst ` set ns'" "fst k \<notin> fst ` set ns'" by auto
      with f Nil snoc show ?thesis by (auto simp: fifo_unlink_def fifo_linked_def cseg_append cseg_frame)
    next
      case (Cons m ms')
      from f(5) Cons snoc have "fst n \<noteq> fst m" "fst n \<notin> fst ` set ms'" "fst m \<notin> fst ` set ms'"
        "fst n \<noteq> fst k" "fst n \<notin> fst ` set ns'" "fst k \<notin> fst ` set ns'"
        "fst k \<notin> fst ` set ms'" "fst m \<notin> fst ` set ns'" "fst k \<noteq> fst m" by auto
      with f Cons snoc show ?thesis by (auto simp: fifo_unlink_def fifo_linked_def cseg_append cseg_frame)
    qed
  qed
qed

lemma delete_info_linked:
  assumes "fifo_linked f (ns @ n # ms)"
  shows "\<exists>f'. acl_fifo_delete_info f (Some (fst n)) = Inr f' \<and> fifo_linked f' (ns @ ms)"
proof -
  have "ff_nodes f (fst n) = Some \<lparr>cn_data = snd n, cn_prev = last_of ns None, cn_next = first_of ms None\<rparr>"
    by (rule cseg_node [OF fifo_linkedD(1) [OF assms]])
  with unlink_linked [OF assms] show ?thesis by (auto simp: acl_fifo_delete_info_def)
qed

lemma delete_loop_linked:
  assumes "fifo_linked f (ns @ ms)" "length ms \<le> fuel"
  shows "\<exists>f'. fifo_delete_loop fuel f (first_of ms None) d = Inr (if d \<in> snd ` set ms then 1 else 0, f') \<and>
    fifo_holds f' (map snd ns @ remove1 d (map snd ms))"
  using assms
proof (induction ms arbitrary: ns fuel)
  case Nil
  then show ?case by (cases fuel) (auto simp: fifo_holds_def)
next
  case (Cons n ms)
  then obtain k where k: "fuel = Suc k" "length ms \<le> k" by (cases fuel) auto
  have v: "ff_nodes f (fst n) = Some \<lparr>cn_data = snd n, cn_prev = last_of ns None, cn_next = first_of ms None\<rparr>"
    by (rule cseg_node [OF fifo_linkedD(1) [OF Cons.prems(1)]])
  show ?case
  proof (cases "snd n = d")
    case True
    with unlink_linked [OF Cons.prems(1)] v k show ?thesis
      by (auto simp: fifo_holds_def intro!: exI [of _ "ns @ ms"])
  next
    case False
    with Cons.IH [of "ns @ [n]" k] Cons.prems(1) v k show ?thesis by auto
  qed
qed

lemma acl_fifo_delete_holds:
  assumes "fifo_holds f xs" "length xs \<le> fuel"
  shows "\<exists>f'. acl_fifo_delete fuel f d = Inr (if d \<in> set xs then 1 else 0, f') \<and> fifo_holds f' (remove1 d xs)"
proof -
  obtain ns where ns: "fifo_linked f ns" "map snd ns = xs" using assms(1) by (auto simp: fifo_holds_def)
  with delete_loop_linked [of f "[]" ns fuel d] assms(2) fifo_linkedD(2) [OF ns(1)] show ?thesis
    by (auto simp: acl_fifo_delete_def)
qed

lemma acl_fifo_free_holds:
  "fifo_holds f xs \<Longrightarrow> length xs < fuel \<Longrightarrow>
   \<exists>f'. acl_fifo_free fuel f = Inr (takeWhile (\<lambda>d. d \<noteq> None) xs, f') \<and>
     fifo_holds f' (drop 1 (dropWhile (\<lambda>d. d \<noteq> None) xs))"
proof (induction xs arbitrary: f fuel)
  case Nil
  then obtain k where "fuel = Suc k" by (cases fuel) auto
  with fifo_seq.pop_front_empty [OF Nil(1)] Nil(1) show ?case by (auto simp: fifo_pop_front_def)
next
  case (Cons x xs)
  then obtain k where k: "fuel = Suc k" "length xs < k" by (cases fuel) auto
  obtain f1 where "acl_fifo_pop_front f = Inr (x, f1)" "fifo_holds f1 xs"
    using fifo_seq.pop_front [OF Cons.prems(1)] by (auto simp: fifo_pop_front_def)
  with Cons.IH [of f1 k] k show ?case by (auto simp del: dropWhile_eq_drop)
qed

lemma fifo_size_holds: "fifo_holds f xs \<Longrightarrow> acl_fifo_size f = int (length xs)"
  by (auto simp: fifo_holds_def acl_fifo_size_def dest: fifo_linkedD)

lemma fifo_ends_hold:
  "fifo_holds f (x # xs) \<Longrightarrow> acl_fifo_head f = Inr x \<and> acl_fifo_tail f = Inr (last (x # xs))"
proof -
  assume "fifo_holds f (x # xs)"
  then obtain n ns where ns: "fifo_linked f (n # ns)" "snd n = x" "map snd ns = xs"
    by (auto simp: fifo_holds_def)
  then obtain m ms where m: "n # ns = ms @ [m]" by (cases "n # ns" rule: rev_cases) auto
  have "last (x # xs) = snd m"
  proof -
    have "x # xs = map snd (n # ns)" using ns by simp
    then show ?thesis unfolding m by simp
  qed
  moreover have "ff_nodes f (fst m) = Some \<lparr>cn_data = snd m, cn_prev = last_of ms None, cn_next = None\<rparr>"
    "ff_tail f = Some (fst m)"
    using fifo_linkedD(1,3) [OF ns(1)] unfolding m by (simp_all add: cseg_append)
  moreover have "ff_head f = Some (fst n)"
    "ff_nodes f (fst n) = Some \<lparr>cn_data = snd n, cn_prev = None, cn_next = first_of ns None\<rparr>"
    using fifo_linkedD(1,2) [OF ns(1)] by simp_all
  ultimately show ?thesis using ns(2) by (simp add: acl_fifo_head_def acl_fifo_tail_def)
qed

section \<open>Iteration\<close>

lemma fifo_foreach_linked:
  assumes "fifo_linked f (ns @ ms)" "length ms \<le> fuel"
  shows "fifo_foreach fuel
      \<lparr>it_i = i, it_ptr = first_of ms None, it_data = (case ms of [] \<Rightarrow> None | m # _ \<Rightarrow> snd m)\<rparr> f =
    Inr (zip (map (\<lambda>k. i + int k) [0..<length ms]) (map snd ms))"
  using assms
proof (induction ms arbitrary: ns fuel i)
  case Nil
  then show ?case by (cases fuel) auto
next
  case (Cons n ms)
  then obtain k where k: "fuel = Suc k" "length ms \<le> k" by (cases fuel) auto
  have v: "ff_nodes f (fst n) = Some \<lparr>cn_data = snd n, cn_prev = last_of ns None, cn_next = first_of ms None\<rparr>"
    by (rule cseg_node [OF fifo_linkedD(1) [OF Cons.prems(1)]])
  have z: "map (\<lambda>k. i + int k) [0..<length (n # ms)] = i # map (\<lambda>k. i + 1 + int k) [0..<length ms]"
    by (simp add: upt_conv_Cons map_Suc_upt [symmetric] del: upt_Suc)
  show ?case
  proof (cases ms)
    case Nil
    then show ?thesis using v k by (cases k) (simp_all add: fifo_iter_next_def)
  next
    case (Cons m ms')
    then have w: "ff_nodes f (fst m) =
        Some \<lparr>cn_data = snd m, cn_prev = Some (fst n), cn_next = first_of ms' None\<rparr>"
      using cseg_node [of "ff_nodes f" None "ns @ [n]" m ms' None] fifo_linkedD(1) [OF Cons.prems(1)] by simp
    show ?thesis
      using Cons.IH [of "ns @ [n]" k "i + 1"] Cons.prems(1) v w k Cons
      unfolding z by (simp add: fifo_iter_next_def)
  qed
qed

section \<open>Properties\<close>

lemma fifo_new_holds: "fifo_holds acl_fifo_new []"
  by (simp add: fifo_holds_def fifo_linked_def acl_fifo_new_def acl_fifo_new1_def)

text \<open>C12: Any sequence of pushes and pops at both ends of a new queue returns what the same calls return on
  a list, without a fault: no freed node is used and no NULL pointer is followed.\<close>

theorem fifo_refines_list:
  "\<exists>f'. seq_run fifo_push_back fifo_push_front fifo_pop_back fifo_pop_front cs acl_fifo_new =
       Inr (fst (list_run (\<lambda>x. True) (\<lambda>xs. True) cs []), f') \<and>
     fifo_holds f' (snd (list_run (\<lambda>x. True) (\<lambda>xs. True) cs [])) \<and>
     acl_fifo_size f' = int (length (snd (list_run (\<lambda>x. True) (\<lambda>xs. True) cs [])))"
proof -
  obtain rs ys where r: "list_run (\<lambda>x. True) (\<lambda>xs. True) cs [] = (rs, ys)" by fastforce
  from fifo_seq.run_refines [OF fifo_new_holds r] r fifo_size_holds show ?thesis by auto
qed

text \<open>C13: \<open>acl_fifo_delete\<close> ends after at most as many steps as the queue has nodes. It removes the first node with
  the data it is given, wherever that is, and returns whether there was one; the other nodes stay
  linked in both directions and in order.\<close>

theorem acl_fifo_delete_removes_first:
  assumes "fifo_holds f xs" "length xs \<le> fuel"
  shows "\<exists>f'. acl_fifo_delete fuel f d = Inr (if d \<in> set xs then 1 else 0, f') \<and>
    fifo_holds f' (remove1 d xs) \<and> acl_fifo_size f' = int (length (remove1 d xs))"
  using acl_fifo_delete_holds [OF assms, of d] fifo_size_holds by blast

definition fifo_demo :: fifo where
  "fifo_demo = \<lparr>ff_head = Some 0, ff_tail = Some 1, ff_cnt = 2,
     ff_nodes = [0 \<mapsto> \<lparr>cn_data = Some 7, cn_prev = None, cn_next = Some 1\<rparr>,
                 1 \<mapsto> \<lparr>cn_data = Some 8, cn_prev = Some 0, cn_next = None\<rparr>], ff_brk = 2\<rparr>"

lemma fifo_demo_holds: "fifo_holds fifo_demo [Some 7, Some 8]"
  unfolding fifo_holds_def
  by (rule exI [of _ "[(0, Some 7), (1, Some 8)]"]) (simp add: fifo_demo_def fifo_linked_def)

theorem acl_fifo_delete_removes_first_witness:
  "\<exists>f'. acl_fifo_delete 2 fifo_demo (Some 7) = Inr (1, f') \<and> fifo_holds f' [Some 8] \<and> acl_fifo_size f' = 1"
  using acl_fifo_delete_removes_first [OF fifo_demo_holds, of 2 "Some 7"] by simp

end
