(* ===== verification/Acl_Array.thy ===== *)
theory Acl_Array
  imports Acl_Interfaces
begin

text \<open>
  The growing array of \<open>lib_acl/src/stdlib/common/acl_array.c\<close> and the stack of
  \<open>acl_stack.c\<close>, which has the same fields. \<open>items\<close> is a block of \<open>capacity\<close> pointers; every
  read and write of it is checked against the block. A pointer is a \<open>ptr\<close>, NULL is \<open>None\<close>.
  What the callback \<open>free_fn\<close> is called with is the list of freed pointers in the result.
  Counts are integers: an array of \<open>2 ^ 30\<close> items, where they would leave \<open>int\<close>, is
  not considered.
\<close>

section \<open>The block of items\<close>

record vec =
  vc_items :: "ptr list option"
  vc_count :: int
  vc_capacity :: int

definition vget :: "vec \<Rightarrow> int \<Rightarrow> ptr cres" where
  "vget a i =
     (case vc_items a of
        None \<Rightarrow> Inl NullDeref
      | Some xs \<Rightarrow> if 0 \<le> i \<and> i < int (length xs) then Inr (xs ! nat i) else Inl OobRead)"

definition vset :: "vec \<Rightarrow> int \<Rightarrow> ptr \<Rightarrow> vec cres" where
  "vset a i x =
     (case vc_items a of
        None \<Rightarrow> Inl NullDeref
      | Some xs \<Rightarrow>
          if 0 \<le> i \<and> i < int (length xs) then Inr (a\<lparr>vc_items := Some (xs[nat i := x])\<rparr>)
          else Inl OobWrite)"

text \<open>
  The loops that move items: \<open>move_left\<close> copies \<open>n\<close> items upwards from index \<open>s\<close> to \<open>d\<close>,
  \<open>move_right\<close> downwards, as \<open>items[idx] = items[idx - 1]\<close> from \<open>idx = d\<close> does.
\<close>

fun move_left :: "nat \<Rightarrow> int \<Rightarrow> int \<Rightarrow> vec \<Rightarrow> vec cres" where
  "move_left 0 d s a = Inr a"
| "move_left (Suc n) d s a = cbind (vget a s) (\<lambda>x. cbind (vset a d x) (move_left n (d + 1) (s + 1)))"

fun move_right :: "nat \<Rightarrow> int \<Rightarrow> vec \<Rightarrow> vec cres" where
  "move_right 0 d a = Inr a"
| "move_right (Suc n) d a = cbind (vget a (d - 1)) (\<lambda>x. cbind (vset a d x) (move_right n (d - 1)))"

text \<open>Calling \<open>free_fn\<close> on the items from \<open>i\<close> on and setting them to NULL.\<close>

fun free_items :: "nat \<Rightarrow> int \<Rightarrow> bool \<Rightarrow> vec \<Rightarrow> (ptr list \<times> vec) cres" where
  "free_items 0 i free_fn a = Inr ([], a)"
| "free_items (Suc n) i free_fn a =
     cbind (if free_fn then vget a i else Inr None) (\<lambda>x. cbind (vset a i None) (\<lambda>a1.
     cbind (free_items n (i + 1) free_fn a1) (\<lambda>(fs, a2).
       Inr (if x \<noteq> None then x # fs else fs, a2))))"

section \<open>Array operations\<close>

definition acl_array_grow :: "vec \<Rightarrow> int \<Rightarrow> vec" where
  "acl_array_grow a min_capacity =
     (if vc_capacity a \<ge> min_capacity then a
      else
        (let delta = (min_capacity + 15) div 16 * 16
         in if delta \<le> 0 then a
            else
              (let cap = vc_capacity a + delta;
                   old = (case vc_items a of None \<Rightarrow> [] | Some xs \<Rightarrow> xs)
               in a\<lparr>vc_capacity := cap,
                    vc_items := Some (take (nat (vc_count a)) old @ replicate (nat (cap - vc_count a)) None)\<rparr>)))"

definition acl_array_pre_append :: "vec \<Rightarrow> int \<Rightarrow> vec cres" where
  "acl_array_pre_append a app_count =
     (if app_count \<le> 0 then Inl Fatal
      else Inr (if vc_count a + app_count > vc_capacity a
                then acl_array_grow a (vc_count a + app_count) else a))"

definition acl_array_create :: "int \<Rightarrow> vec cres" where
  "acl_array_create init_size =
     acl_array_pre_append \<lparr>vc_items = None, vc_count = 0, vc_capacity = 0\<rparr>
       (if init_size \<le> 0 then 100 else init_size)"

definition acl_array_append :: "vec \<Rightarrow> ptr \<Rightarrow> (int \<times> vec) cres" where
  "acl_array_append a obj =
     (let a1 = (if vc_count a \<ge> vc_capacity a then acl_array_grow a (vc_count a + 16) else a)
      in cbind (vset a1 (vc_count a1) obj) (\<lambda>a2.
         Inr (vc_count a2, a2\<lparr>vc_count := vc_count a2 + 1\<rparr>)))"

definition acl_array_pred_insert :: "vec \<Rightarrow> int \<Rightarrow> ptr \<Rightarrow> (int \<times> vec) cres" where
  "acl_array_pred_insert a position obj =
     (if position < 0 \<or> position \<ge> vc_count a then Inr (-1, a)
      else
        (let a1 = (if vc_count a \<ge> vc_capacity a then acl_array_grow a (vc_count a + 1) else a)
         in cbind (move_right (nat (vc_count a1 - position)) (vc_count a1) a1) (\<lambda>a2.
            cbind (vset a2 position obj) (\<lambda>a3.
              Inr (position, a3\<lparr>vc_count := vc_count a3 + 1\<rparr>)))))"

definition acl_array_succ_insert :: "vec \<Rightarrow> int \<Rightarrow> ptr \<Rightarrow> (int \<times> vec) cres" where
  "acl_array_succ_insert a position obj =
     (if position < 0 \<or> position \<ge> vc_count a then Inr (-1, a)
      else
        (let a1 = (if vc_count a \<ge> vc_capacity a then acl_array_grow a (vc_count a + 1) else a);
             position_succ = position + 1
         in cbind (move_right (nat (vc_count a1 - position_succ)) (vc_count a1) a1) (\<lambda>a2.
            cbind (vset a2 position_succ obj) (\<lambda>a3.
              Inr (position_succ, a3\<lparr>vc_count := vc_count a3 + 1\<rparr>)))))"

definition acl_array_prepend :: "vec \<Rightarrow> ptr \<Rightarrow> (int \<times> vec) cres" where
  "acl_array_prepend a obj = acl_array_pred_insert a 0 obj"

definition array_push_back :: "vec \<Rightarrow> ptr \<Rightarrow> vec cres" where
  "array_push_back a obj = cbind (acl_array_append a obj) (\<lambda>(_, a1). Inr a1)"

definition array_push_front :: "vec \<Rightarrow> ptr \<Rightarrow> vec cres" where
  "array_push_front a obj = cbind (acl_array_prepend a obj) (\<lambda>(_, a1). Inr a1)"

definition array_pop_back :: "vec \<Rightarrow> (ptr \<times> vec) cres" where
  "array_pop_back a =
     (if vc_count a \<le> 0 then Inr (None, a)
      else (let a1 = a\<lparr>vc_count := vc_count a - 1\<rparr>
            in cbind (vget a1 (vc_count a1)) (\<lambda>obj. Inr (obj, a1))))"

definition array_pop_front :: "vec \<Rightarrow> (ptr \<times> vec) cres" where
  "array_pop_front a =
     (if vc_count a \<le> 0 then Inr (None, a)
      else cbind (vget a 0) (\<lambda>obj.
           let a1 = a\<lparr>vc_count := vc_count a - 1\<rparr>
           in cbind (move_left (nat (vc_count a1)) 0 1 a1) (\<lambda>a2. Inr (obj, a2))))"

definition acl_array_clean :: "vec \<Rightarrow> bool \<Rightarrow> (ptr list \<times> vec) cres" where
  "acl_array_clean a free_fn =
     cbind (free_items (nat (vc_count a)) 0 free_fn a) (\<lambda>(fs, a1). Inr (fs, a1\<lparr>vc_count := 0\<rparr>))"

definition acl_array_free :: "vec \<Rightarrow> bool \<Rightarrow> ptr list cres" where
  "acl_array_free a free_fn = cbind (acl_array_clean a free_fn) (\<lambda>(fs, _). Inr fs)"

definition acl_array_delete_idx :: "vec \<Rightarrow> int \<Rightarrow> bool \<Rightarrow> (int \<times> ptr list \<times> vec) cres" where
  "acl_array_delete_idx a position free_fn =
     (if position < 0 \<or> position \<ge> vc_count a then Inr (-1, [], a)
      else cbind (free_items 1 position free_fn a) (\<lambda>(fs, a1).
           cbind (move_left (nat (vc_count a1 - 1 - position)) position (position + 1) a1) (\<lambda>a2.
             Inr (0, fs, a2\<lparr>vc_count := vc_count a2 - 1\<rparr>))))"

definition acl_array_delete :: "vec \<Rightarrow> int \<Rightarrow> bool \<Rightarrow> (int \<times> ptr list \<times> vec) cres" where
  "acl_array_delete a idx free_fn =
     (if idx < 0 \<or> idx \<ge> vc_count a then Inr (-1, [], a)
      else cbind (if free_fn then vget a idx else Inr None) (\<lambda>x.
           let fs = (if x \<noteq> None then [x] else []);
               a1 = a\<lparr>vc_count := vc_count a - 1\<rparr>
           in if vc_count a1 > 0 then
                cbind (vget a1 (vc_count a1)) (\<lambda>y. cbind (vset a1 idx y) (\<lambda>a2. Inr (0, fs, a2)))
              else Inr (0, fs, a1)))"

fun find_obj :: "nat \<Rightarrow> int \<Rightarrow> ptr \<Rightarrow> vec \<Rightarrow> int cres" where
  "find_obj 0 i obj a = Inr (-1)"
| "find_obj (Suc n) i obj a = cbind (vget a i) (\<lambda>x. if x = obj then Inr i else find_obj n (i + 1) obj a)"

definition acl_array_delete_obj :: "vec \<Rightarrow> ptr \<Rightarrow> bool \<Rightarrow> (int \<times> ptr list \<times> vec) cres" where
  "acl_array_delete_obj a obj free_fn =
     cbind (find_obj (nat (vc_count a)) 0 obj a) (\<lambda>position.
       let fs = (if free_fn \<and> obj \<noteq> None then [obj] else [])
       in if position = -1 then Inr (-1, fs, a)
          else cbind (vset a position None) (\<lambda>a1.
               cbind (acl_array_delete_idx a1 position False) (\<lambda>(r, _, a2).
                 Inr (if r < 0 then -1 else r, fs, a2))))"

definition acl_array_delete_range :: "vec \<Rightarrow> int \<Rightarrow> int \<Rightarrow> bool \<Rightarrow> (int \<times> ptr list \<times> vec) cres" where
  "acl_array_delete_range a ibegin iend0 free_fn =
     (if ibegin < 0 \<or> iend0 < 0 \<or> vc_count a \<le> 0 then Inr (-1, [], a)
      else if ibegin > iend0 then Inr (-1, [], a)
      else
        (let imax = vc_count a - 1;
             iend = (if iend0 > imax then imax else iend0)
         in cbind (if free_fn then free_items (nat (iend - ibegin + 1)) ibegin free_fn a
                   else Inr ([], a)) (\<lambda>(fs, a1).
            let a2 = a1\<lparr>vc_count := vc_count a1 - (iend - ibegin + 1)\<rparr>
            in cbind (move_left (nat (imax - iend)) ibegin (iend + 1) a2) (\<lambda>a3. Inr (0, fs, a3)))))"

definition acl_array_mv_idx :: "vec \<Rightarrow> int \<Rightarrow> int \<Rightarrow> bool \<Rightarrow> (int \<times> ptr list \<times> vec) cres" where
  "acl_array_mv_idx a ito ifrom free_fn =
     (if ito < 0 \<or> ifrom < 0 \<or> vc_count a < 0 then Inr (-1, [], a)
      else if vc_count a = 0 \<or> ito \<ge> ifrom \<or> ifrom \<ge> vc_count a then Inr (0, [], a)
      else
        cbind (if free_fn then free_items (nat (ifrom - ito)) ito free_fn a else Inr ([], a)) (\<lambda>(fs, a1).
        cbind (move_left (nat (vc_count a1 - ifrom)) ito ifrom a1) (\<lambda>a2.
          let a3 = a2\<lparr>vc_count := vc_count a2 - (ifrom - ito)\<rparr>
          in Inr (if vc_count a3 < 0 then -1 else 0, fs, a3))))"

definition acl_array_index :: "vec \<Rightarrow> int \<Rightarrow> ptr cres" where
  "acl_array_index a idx = (if idx < 0 \<or> idx > vc_count a - 1 then Inr None else vget a idx)"

definition acl_array_size :: "vec \<Rightarrow> int" where
  "acl_array_size a = vc_count a"

text \<open>The iterator: the fields \<open>i\<close> and \<open>ptr\<close> of \<open>ACL_ITER\<close>.\<close>

definition array_iter_head :: "vec \<Rightarrow> (int \<times> ptr) cres" where
  "array_iter_head a =
     (if vc_items a = None \<or> vc_count a \<le> 0 then Inr (0, None)
      else cbind (vget a 0) (\<lambda>x. Inr (0, x)))"

definition array_iter_next :: "vec \<Rightarrow> int \<Rightarrow> (int \<times> ptr) cres" where
  "array_iter_next a i =
     (if i + 1 \<ge> vc_count a then Inr (i + 1, None) else cbind (vget a (i + 1)) (\<lambda>x. Inr (i + 1, x)))"

definition array_iter_tail :: "vec \<Rightarrow> (int \<times> ptr) cres" where
  "array_iter_tail a =
     (if vc_items a = None \<or> vc_count a - 1 < 0 then Inr (vc_count a - 1, None)
      else cbind (vget a (vc_count a - 1)) (\<lambda>x. Inr (vc_count a - 1, x)))"

definition array_iter_prev :: "vec \<Rightarrow> int \<Rightarrow> (int \<times> ptr) cres" where
  "array_iter_prev a i =
     (if i - 1 < 0 then Inr (i - 1, None) else cbind (vget a (i - 1)) (\<lambda>x. Inr (i - 1, x)))"

text \<open>
  The loop \<open>acl_foreach\<close> of \<open>acl_iterator.h\<close> over an array: the objects it visits. It ends because
  \<open>iter_next\<close> gives NULL at the end of the array.
\<close>

function foreach_rest :: "vec \<Rightarrow> int \<Rightarrow> ptr \<Rightarrow> ptr list cres" where
  "foreach_rest a i p =
     (if p = None then Inr []
      else cbind (array_iter_next a i) (\<lambda>(i', p').
           cbind (foreach_rest a i' p') (\<lambda>ps. Inr (p # ps))))"
  by pat_completeness auto
termination
  by (relation "measure (\<lambda>(a, i, p). if p = None then 0 else Suc (nat (vc_count a - i)))")
    (auto simp: array_iter_next_def cbind_Inr_iff split: if_splits)

declare foreach_rest.simps [simp del]

definition array_foreach :: "vec \<Rightarrow> ptr list cres" where
  "array_foreach a = cbind (array_iter_head a) (\<lambda>(i, p). foreach_rest a i p)"

function foreach_rest_reverse :: "vec \<Rightarrow> int \<Rightarrow> ptr \<Rightarrow> ptr list cres" where
  "foreach_rest_reverse a i p =
     (if p = None then Inr []
      else cbind (array_iter_prev a i) (\<lambda>(i', p').
           cbind (foreach_rest_reverse a i' p') (\<lambda>ps. Inr (p # ps))))"
  by pat_completeness auto
termination
  by (relation "measure (\<lambda>(a, i, p). if p = None then 0 else Suc (nat i))")
    (auto simp: array_iter_prev_def cbind_Inr_iff split: if_splits)

declare foreach_rest_reverse.simps [simp del]

definition array_foreach_reverse :: "vec \<Rightarrow> ptr list cres" where
  "array_foreach_reverse a = cbind (array_iter_tail a) (\<lambda>(i, p). foreach_rest_reverse a i p)"

section \<open>Stack operations\<close>

text \<open>
  An object that is NULL is not stored. The test of a call for a NULL stack pointer is not part
  of the model: its argument is a stack.
\<close>

definition stack_grow :: "vec \<Rightarrow> int \<Rightarrow> vec" where
  "stack_grow s min_capacity =
     (if vc_capacity s \<ge> min_capacity then s
      else
        (let delta = (min_capacity + 15) div 16 * 16
         in if delta \<le> 0 then s
            else
              (let cap = vc_capacity s + delta;
                   old = (case vc_items s of None \<Rightarrow> [] | Some xs \<Rightarrow> xs)
               in s\<lparr>vc_capacity := cap,
                    vc_items := Some (take (nat (vc_count s)) old @ replicate (nat (cap - vc_count s)) None)\<rparr>)))"

definition acl_stack_space :: "vec \<Rightarrow> int \<Rightarrow> vec" where
  "acl_stack_space s n = (if vc_count s + n > vc_capacity s then stack_grow s (vc_count s + n) else s)"

definition acl_stack_create :: "int \<Rightarrow> vec" where
  "acl_stack_create init_size =
     acl_stack_space \<lparr>vc_items = None, vc_count = 0, vc_capacity = 0\<rparr> (if init_size > 0 then init_size else 1)"

definition acl_stack_append :: "vec \<Rightarrow> ptr \<Rightarrow> vec cres" where
  "acl_stack_append s obj =
     (if obj = None then Inr s
      else
        (let s1 = (if vc_count s \<ge> vc_capacity s then stack_grow s (vc_count s + 16) else s)
         in cbind (vset s1 (vc_count s1) obj) (\<lambda>s2. Inr (s2\<lparr>vc_count := vc_count s2 + 1\<rparr>))))"

definition acl_stack_prepend :: "vec \<Rightarrow> ptr \<Rightarrow> vec cres" where
  "acl_stack_prepend s obj =
     (if obj = None then Inr s
      else
        (let s1 = (if vc_count s \<ge> vc_capacity s then stack_grow s (vc_count s + 1) else s)
         in cbind (move_right (nat (vc_count s1)) (vc_count s1) s1) (\<lambda>s2.
            cbind (vset s2 0 obj) (\<lambda>s3. Inr (s3\<lparr>vc_count := vc_count s3 + 1\<rparr>)))))"

definition acl_stack_pop :: "vec \<Rightarrow> (ptr \<times> vec) cres" where
  "acl_stack_pop s =
     (if vc_count s < 1 then Inr (None, s)
      else (let s1 = s\<lparr>vc_count := vc_count s - 1\<rparr>
            in cbind (vget s1 (vc_count s1)) (\<lambda>obj. Inr (obj, s1))))"

definition stack_push_back :: "vec \<Rightarrow> ptr \<Rightarrow> vec cres" where
  "stack_push_back s obj = acl_stack_append s obj"

definition stack_push_front :: "vec \<Rightarrow> ptr \<Rightarrow> vec cres" where
  "stack_push_front s obj = acl_stack_prepend s obj"

definition stack_pop_back :: "vec \<Rightarrow> (ptr \<times> vec) cres" where
  "stack_pop_back s = acl_stack_pop s"

definition acl_stack_top :: "vec \<Rightarrow> ptr cres" where
  "acl_stack_top s = (if vc_count s < 1 then Inr None else vget s (vc_count s - 1))"

definition stack_pop_front :: "vec \<Rightarrow> (ptr \<times> vec) cres" where
  "stack_pop_front s =
     (if vc_count s < 1 then Inr (None, s)
      else cbind (vget s 0) (\<lambda>obj.
           let s1 = s\<lparr>vc_count := vc_count s - 1\<rparr>
           in cbind (move_left (nat (vc_count s1)) 0 1 s1) (\<lambda>s2. Inr (obj, s2))))"

definition acl_stack_clean :: "vec \<Rightarrow> bool \<Rightarrow> (ptr list \<times> vec) cres" where
  "acl_stack_clean s free_fn =
     cbind (free_items (nat (vc_count s)) 0 free_fn s) (\<lambda>(fs, s1).
       Inr (fs, s1\<lparr>vc_items := None, vc_count := 0\<rparr>))"

definition acl_stack_destroy :: "vec \<Rightarrow> bool \<Rightarrow> ptr list cres" where
  "acl_stack_destroy s free_fn = cbind (acl_stack_clean s free_fn) (\<lambda>(fs, _). Inr fs)"

definition acl_stack_delete :: "vec \<Rightarrow> int \<Rightarrow> bool \<Rightarrow> (ptr list \<times> vec) cres" where
  "acl_stack_delete s position free_fn =
     (if position < 0 \<or> position \<ge> vc_count s then Inr ([], s)
      else cbind (free_items 1 position free_fn s) (\<lambda>(fs, s1).
           cbind (move_left (nat (vc_count s1 - 1 - position)) position (position + 1) s1) (\<lambda>s2.
             Inr (fs, s2\<lparr>vc_count := vc_count s2 - 1\<rparr>))))"

definition acl_stack_delete_obj :: "vec \<Rightarrow> ptr \<Rightarrow> bool \<Rightarrow> (ptr list \<times> vec) cres" where
  "acl_stack_delete_obj s obj free_fn =
     (if obj = None then Inr ([], s)
      else cbind (find_obj (nat (vc_count s)) 0 obj s) (\<lambda>position.
        if position = -1 then Inr ([], s)
        else cbind (vset s position None) (\<lambda>s1.
             cbind (acl_stack_delete s1 position False) (\<lambda>(_, s2).
               Inr (if free_fn then [obj] else [], s2)))))"

definition acl_stack_index :: "vec \<Rightarrow> int \<Rightarrow> ptr cres" where
  "acl_stack_index s idx = (if idx < 0 \<or> idx > vc_count s - 1 then Inr None else vget s idx)"

definition acl_stack_size :: "vec \<Rightarrow> int" where
  "acl_stack_size s = vc_count s"

definition stack_iter_head :: "vec \<Rightarrow> (int \<times> ptr) cres" where
  "stack_iter_head s =
     (if vc_items s = None \<or> vc_count s \<le> 0 then Inr (0, None)
      else cbind (vget s 0) (\<lambda>x. Inr (0, x)))"

definition stack_iter_next :: "vec \<Rightarrow> int \<Rightarrow> (int \<times> ptr) cres" where
  "stack_iter_next s i =
     (if i + 1 \<ge> vc_count s then Inr (i + 1, None) else cbind (vget s (i + 1)) (\<lambda>x. Inr (i + 1, x)))"

definition stack_iter_tail :: "vec \<Rightarrow> (int \<times> ptr) cres" where
  "stack_iter_tail s =
     (if vc_items s = None \<or> vc_count s - 1 < 0 then Inr (vc_count s - 1, None)
      else cbind (vget s (vc_count s - 1)) (\<lambda>x. Inr (vc_count s - 1, x)))"

definition stack_iter_prev :: "vec \<Rightarrow> int \<Rightarrow> (int \<times> ptr) cres" where
  "stack_iter_prev s i =
     (if i - 1 < 0 then Inr (i - 1, None) else cbind (vget s (i - 1)) (\<lambda>x. Inr (i - 1, x)))"

section \<open>What the loops do to the block\<close>

lemma vget_ok [simp]: "vc_items a = Some zs \<Longrightarrow> i < length zs \<Longrightarrow> vget a (int i) = Inr (zs ! i)"
  by (simp add: vget_def)

lemma vset_ok [simp]:
  "vc_items a = Some zs \<Longrightarrow> i < length zs \<Longrightarrow> vset a (int i) x = Inr (a\<lparr>vc_items := Some (zs[i := x])\<rparr>)"
  by (simp add: vset_def)

lemma move_left_items:
  "vc_items a = Some zs \<Longrightarrow> d \<le> s \<Longrightarrow> s + n \<le> length zs \<Longrightarrow>
   move_left n (int d) (int s) a =
     Inr (a\<lparr>vc_items := Some (take d zs @ take n (drop s zs) @ drop (d + n) zs)\<rparr>)"
proof (induction n arbitrary: a d s zs)
  case 0
  then show ?case by (cases a) simp
next
  case (Suc n)
  let ?zs = "zs[d := zs ! s]"
  have "move_left n (int (Suc d)) (int (Suc s)) (a\<lparr>vc_items := Some ?zs\<rparr>) =
      Inr (a\<lparr>vc_items := Some ?zs\<rparr>\<lparr>vc_items := Some (take (Suc d) ?zs @ take n (drop (Suc s) ?zs) @ drop (Suc d + n) ?zs)\<rparr>)"
    by (rule Suc.IH) (use Suc.prems in auto)
  moreover have "take (Suc d) ?zs @ take n (drop (Suc s) ?zs) @ drop (Suc d + n) ?zs =
      take d zs @ take (Suc n) (drop s zs) @ drop (d + Suc n) zs"
    using Suc.prems by (simp add: take_Suc_conv_app_nth Cons_nth_drop_Suc [symmetric])
  ultimately show ?case using Suc.prems by (simp add: add.commute)
qed

lemma move_right_items:
  "vc_items a = Some zs \<Longrightarrow> n \<le> d \<Longrightarrow> d < length zs \<Longrightarrow>
   move_right n (int d) a =
     Inr (a\<lparr>vc_items := Some (take (Suc (d - n)) zs @ take n (drop (d - n) zs) @ drop (Suc d) zs)\<rparr>)"
proof (induction n arbitrary: a d zs)
  case 0
  then show ?case by (cases a) simp
next
  case (Suc n)
  then obtain e where d: "d = Suc e" by (cases d) auto
  let ?zs = "zs[d := zs ! e]"
  have "move_right n (int e) (a\<lparr>vc_items := Some ?zs\<rparr>) =
      Inr (a\<lparr>vc_items := Some ?zs\<rparr>\<lparr>vc_items := Some (take (Suc (e - n)) ?zs @ take n (drop (e - n) ?zs) @ drop (Suc e) ?zs)\<rparr>)"
    by (rule Suc.IH) (use Suc.prems d in auto)
  moreover have "take (Suc (e - n)) ?zs @ take n (drop (e - n) ?zs) @ drop (Suc e) ?zs =
      take (Suc (d - Suc n)) zs @ take (Suc n) (drop (d - Suc n) zs) @ drop (Suc d) zs"
  proof -
    have "take n (drop (e - n) ?zs) = take n (drop (e - n) zs)"
      using Suc.prems d by (intro nth_equalityI) auto
    moreover have "take (Suc n) (drop (e - n) zs) = take n (drop (e - n) zs) @ [zs ! e]"
      using Suc.prems d by (subst take_Suc_conv_app_nth) auto
    moreover have "drop (Suc e) ?zs = zs ! e # drop (Suc d) zs"
      using Suc.prems d by (simp add: Cons_nth_drop_Suc [symmetric])
    ultimately show ?thesis using Suc.prems d by simp
  qed
  moreover have "int d - 1 = int e" "e < length zs" using Suc.prems d by simp_all
  ultimately show ?case using Suc.prems by simp
qed

lemma free_items_items:
  "vc_items a = Some zs \<Longrightarrow> i + n \<le> length zs \<Longrightarrow>
   free_items n (int i) free_fn a =
     Inr (if free_fn then filter (\<lambda>x. x \<noteq> None) (take n (drop i zs)) else [],
          a\<lparr>vc_items := Some (take i zs @ replicate n None @ drop (i + n) zs)\<rparr>)"
proof (induction n arbitrary: a i zs)
  case 0
  then show ?case by (cases a) simp
next
  case (Suc n)
  let ?zs = "zs[i := None]"
  have "free_items n (int (Suc i)) free_fn (a\<lparr>vc_items := Some ?zs\<rparr>) =
      Inr (if free_fn then filter (\<lambda>x. x \<noteq> None) (take n (drop (Suc i) ?zs)) else [],
        a\<lparr>vc_items := Some ?zs\<rparr>\<lparr>vc_items := Some (take (Suc i) ?zs @ replicate n None @ drop (Suc i + n) ?zs)\<rparr>)"
    by (rule Suc.IH) (use Suc.prems in auto)
  moreover have "take (Suc i) ?zs @ replicate n None @ drop (Suc i + n) ?zs =
      take i zs @ replicate (Suc n) None @ drop (i + Suc n) zs"
    using Suc.prems by (simp add: take_Suc_conv_app_nth)
  moreover have "take (Suc n) (drop i zs) = zs ! i # take n (drop (Suc i) zs)"
    using Suc.prems by (simp add: Cons_nth_drop_Suc [symmetric])
  ultimately show ?case using Suc.prems by (simp add: add.commute)
qed

section \<open>The array as a list\<close>

text \<open>\<open>vec_holds a xs\<close>: the block is consistent and its first \<open>count\<close> items are \<open>xs\<close>.\<close>

definition vec_holds :: "vec \<Rightarrow> ptr list \<Rightarrow> bool" where
  "vec_holds a xs \<longleftrightarrow>
     (\<exists>ys. vc_items a = Some (xs @ ys) \<and> vc_count a = int (length xs) \<and>
           vc_capacity a = int (length xs + length ys))"

lemma vec_holdsD: "vec_holds a xs \<Longrightarrow> vc_count a = int (length xs)"
  by (auto simp: vec_holds_def)

lemma vec_holds_inj: "vec_holds a xs \<Longrightarrow> vec_holds a ys \<Longrightarrow> xs = ys"
  by (auto simp: vec_holds_def)

lemma round_up: "m > 0 \<Longrightarrow> (m + 15) div 16 * 16 \<ge> (m :: int)"
  by presburger

lemma acl_array_grow_room:
  assumes "vec_holds a xs" "k > 0"
  shows "\<exists>y ys. vc_items (if vc_count a \<ge> vc_capacity a then acl_array_grow a (vc_count a + k) else a) =
      Some (xs @ y # ys) \<and>
    vc_capacity (if vc_count a \<ge> vc_capacity a then acl_array_grow a (vc_count a + k) else a) =
      int (length (xs @ y # ys)) \<and>
    vc_count (if vc_count a \<ge> vc_capacity a then acl_array_grow a (vc_count a + k) else a) = int (length xs)"
proof -
  obtain ys where ys: "vc_items a = Some (xs @ ys)" "vc_count a = int (length xs)"
    "vc_capacity a = int (length xs + length ys)"
    using assms(1) by (auto simp: vec_holds_def)
  show ?thesis
  proof (cases "vc_count a \<ge> vc_capacity a")
    case False
    with ys obtain y zs where "ys = y # zs" by (cases ys) auto
    with ys False show ?thesis by simp
  next
    case True
    with ys have "ys = []" by simp
    let ?d = "(vc_count a + k + 15) div 16 * 16"
    have d: "?d \<ge> vc_count a + k" by (rule round_up) (use assms(2) ys in simp)
    then obtain n where n: "nat ?d = Suc n" using assms(2) ys(2) by (cases "nat ?d") auto
    then have "replicate (nat ?d) (None :: ptr) = None # replicate n None" by simp
    with True ys \<open>ys = []\<close> d n assms(2) show ?thesis
      by (auto simp: acl_array_grow_def Let_def)
  qed
qed

lemma vec_room:
  assumes "vec_holds a xs" "k > 0"
  obtains b y ys where "(if vc_count a \<ge> vc_capacity a then acl_array_grow a (vc_count a + k) else a) = b"
    "vc_items b = Some (xs @ y # ys)" "vc_count b = int (length xs)"
    "vc_capacity b = int (length xs + Suc (length ys))"
  using acl_array_grow_room [OF assms] by auto

lemma stack_grow_eq: "stack_grow = acl_array_grow"
  by (intro ext) (simp add: stack_grow_def acl_array_grow_def)

lemma vec_holdsE:
  assumes "vec_holds a xs"
  obtains ys where "vc_items a = Some (xs @ ys)" "vc_count a = int (length xs)"
    "vc_capacity a = int (length xs + length ys)"
  using assms by (auto simp: vec_holds_def)

lemma vec_holdsI:
  "vc_items a = Some (xs @ ys) \<Longrightarrow> vc_count a = int (length xs) \<Longrightarrow>
   vc_capacity a = int (length xs + length ys) \<Longrightarrow> vec_holds a xs"
  by (auto simp: vec_holds_def)

lemma acl_array_create_holds: "\<exists>a. acl_array_create n = Inr a \<and> vec_holds a []"
proof -
  define m where "m = (if n \<le> 0 then 100 else n)"
  have "m > 0" by (simp add: m_def)
  moreover from this have "(m + 15) div 16 * 16 \<ge> m" by (rule round_up)
  ultimately show ?thesis
    unfolding acl_array_create_def m_def [symmetric]
    by (auto simp: acl_array_pre_append_def acl_array_grow_def Let_def vec_holds_def)
qed

lemma acl_stack_create_holds: "vec_holds (acl_stack_create n) []"
proof -
  define m where "m = (if n > 0 then n else 1)"
  have "m > 0" by (simp add: m_def)
  moreover from this have "(m + 15) div 16 * 16 \<ge> m" by (rule round_up)
  ultimately show ?thesis
    unfolding acl_stack_create_def m_def [symmetric]
    by (auto simp: acl_stack_space_def stack_grow_def Let_def vec_holds_def)
qed

section \<open>Every operation is the list operation\<close>

lemma push_at_end:
  assumes "vec_holds a xs" "k > 0"
    "b = (if vc_count a \<ge> vc_capacity a then acl_array_grow a (vc_count a + k) else a)"
  shows "\<exists>c. vset b (vc_count b) x = Inr c \<and> vc_count c = int (length xs) \<and>
    vec_holds (c\<lparr>vc_count := vc_count c + 1\<rparr>) (xs @ [x])"
proof -
  obtain y ys where b: "vc_items b = Some (xs @ y # ys)" "vc_count b = int (length xs)"
    "vc_capacity b = int (length xs + Suc (length ys))"
    using vec_room [OF assms(1,2)] assms(3) by metis
  then show ?thesis by (auto simp: vset_ok [OF b(1)] intro!: vec_holdsI)
qed

lemma acl_array_append_holds:
  assumes "vec_holds a xs"
  shows "\<exists>a'. acl_array_append a x = Inr (int (length xs), a') \<and> vec_holds a' (xs @ [x])"
  using push_at_end [OF assms, of 16 _ x] by (auto simp: acl_array_append_def Let_def)

lemma acl_stack_append_holds:
  assumes "vec_holds s xs"
  shows "\<exists>s'. acl_stack_append s x = Inr s' \<and> vec_holds s' (if x = None then xs else xs @ [x])"
  using push_at_end [OF assms, of 16 _ x] assms by (auto simp: acl_stack_append_def Let_def stack_grow_eq)

lemma push_inside:
  assumes "vec_holds a xs" "k > 0" "p \<le> length xs"
    "b = (if vc_count a \<ge> vc_capacity a then acl_array_grow a (vc_count a + k) else a)"
  shows "\<exists>c d. move_right (nat (vc_count b - int p)) (vc_count b) b = Inr c \<and> vset c (int p) x = Inr d \<and>
    vec_holds (d\<lparr>vc_count := vc_count d + 1\<rparr>) (take p xs @ x # drop p xs)"
proof -
  obtain y ys where b: "vc_items b = Some (xs @ y # ys)" "vc_count b = int (length xs)"
    "vc_capacity b = int (length xs + Suc (length ys))"
    using vec_room [OF assms(1,2)] assms(4) by metis
  have n: "length xs - (length xs - p) = p" using assms(3) by simp
  let ?zs = "take (Suc p) (xs @ y # ys) @ drop p xs @ ys"
  have "move_right (length xs - p) (int (length xs)) b = Inr (b\<lparr>vc_items := Some ?zs\<rparr>)"
    using move_right_items [OF b(1), of "length xs - p" "length xs"] n assms(3) by simp
  moreover have "?zs[p := x] = (take p xs @ x # drop p xs) @ ys"
    using assms(3) by (cases "p = length xs") (auto simp: take_Suc_conv_app_nth list_update_append)
  moreover have "vset (b\<lparr>vc_items := Some ?zs\<rparr>) (int p) x = Inr (b\<lparr>vc_items := Some (?zs[p := x])\<rparr>)"
    using assms(3) by (subst vset_ok [of _ ?zs]) auto
  moreover have "nat (int (length xs) - int p) = length xs - p" by simp
  ultimately show ?thesis
    using b assms(3) by (intro exI conjI) (auto intro!: vec_holdsI [of _ _ ys])
qed

lemma acl_array_pred_insert_holds:
  assumes "vec_holds a xs" "p < length xs"
  shows "\<exists>a'. acl_array_pred_insert a (int p) x = Inr (int p, a') \<and> vec_holds a' (take p xs @ x # drop p xs)"
  using push_inside [OF assms(1), of 1 p _ x] assms
  by (auto simp: acl_array_pred_insert_def Let_def vec_holdsD)

lemma acl_array_succ_insert_holds:
  assumes "vec_holds a xs" "p < length xs"
  shows "\<exists>a'. acl_array_succ_insert a (int p) x = Inr (int p + 1, a') \<and>
    vec_holds a' (take (Suc p) xs @ x # drop (Suc p) xs)"
proof -
  have "int p + 1 = int (Suc p)" by simp
  with push_inside [OF assms(1), of 1 "Suc p" _ x] assms show ?thesis
    unfolding acl_array_succ_insert_def Let_def by (auto simp: vec_holdsD add.commute)
qed

lemma acl_array_insert_refused:
  assumes "vec_holds a xs" "p < 0 \<or> p \<ge> int (length xs)"
  shows "acl_array_pred_insert a p x = Inr (-1, a)" "acl_array_succ_insert a p x = Inr (-1, a)"
  using assms by (auto simp: acl_array_pred_insert_def acl_array_succ_insert_def vec_holdsD)

lemma acl_stack_prepend_holds:
  assumes "vec_holds s xs"
  shows "\<exists>s'. acl_stack_prepend s x = Inr s' \<and> vec_holds s' (if x = None then xs else x # xs)"
  using push_inside [OF assms, of 1 0 _ x] assms
  by (auto simp: acl_stack_prepend_def Let_def stack_grow_eq)

lemma vec_nth:
  assumes "vec_holds a xs" "i < length xs"
  shows "vget a (int i) = Inr (xs ! i)"
  using assms by (auto elim!: vec_holdsE simp: nth_append)

lemma vec_shrink: "vec_holds a (xs @ ys) \<Longrightarrow> vec_holds (a\<lparr>vc_count := int (length xs)\<rparr>) xs"
  by (auto simp: vec_holds_def)

lemma pop_last:
  assumes "vec_holds a (xs @ [x])" "b = a\<lparr>vc_count := vc_count a - 1\<rparr>"
  shows "vget b (vc_count b) = Inr x \<and> vec_holds b xs"
proof -
  have "b = a\<lparr>vc_count := int (length xs)\<rparr>" using assms by (simp add: vec_holdsD)
  with vec_shrink [OF assms(1)] have "vec_holds b xs" by simp
  moreover have "vget b (int (length xs)) = vget a (int (length xs))"
    using assms(2) by (simp add: vget_def)
  ultimately show ?thesis using vec_nth [OF assms(1), of "length xs"] by (simp add: vec_holdsD)
qed

lemma close_gap:
  assumes "vec_holds a (xs @ ms @ ys)" "k = int (length xs)" "n = int (length (xs @ ms))"
  shows "\<exists>b. move_left (length ys) k n a = Inr b \<and> vc_count b = vc_count a \<and>
    vec_holds (b\<lparr>vc_count := int (length (xs @ ys))\<rparr>) (xs @ ys)"
proof -
  obtain zs where a: "vc_items a = Some ((xs @ ms @ ys) @ zs)"
    "vc_capacity a = int (length (xs @ ms @ ys) + length zs)"
    using assms(1) by (auto elim: vec_holdsE)
  have "move_left (length ys) k n a =
      Inr (a\<lparr>vc_items := Some (xs @ ys @ drop (length ys) (ms @ ys @ zs))\<rparr>)"
    using move_left_items [OF a(1), of "length xs" "length (xs @ ms)" "length ys"] assms(2,3) by simp
  with a(2) show ?thesis
    by (auto intro!: vec_holdsI [of _ _ "drop (length ys) (ms @ ys @ zs)"])
qed

lemma array_pop_back_holds:
  assumes "vec_holds a (xs @ [x])"
  shows "\<exists>a'. array_pop_back a = Inr (x, a') \<and> vec_holds a' xs"
  using pop_last [OF assms refl] vec_holdsD [OF assms]
  by (auto simp: array_pop_back_def Let_def)

lemma acl_stack_pop_holds:
  assumes "vec_holds s (xs @ [x])"
  shows "\<exists>s'. acl_stack_pop s = Inr (x, s') \<and> vec_holds s' xs"
  using pop_last [OF assms refl] vec_holdsD [OF assms]
  by (auto simp: acl_stack_pop_def Let_def)

lemma acl_stack_top_holds: "vec_holds s (xs @ [x]) \<Longrightarrow> acl_stack_top s = Inr x"
  using vec_nth [of s "xs @ [x]" "length xs"] by (auto simp: acl_stack_top_def dest: vec_holdsD)

lemma pop_first:
  assumes "vec_holds a (x # xs)"
  shows "\<exists>b. move_left (nat (vc_count a - 1)) 0 1 (a\<lparr>vc_count := vc_count a - 1\<rparr>) = Inr b \<and> vec_holds b xs"
proof -
  obtain zs where a: "vc_items a = Some ((x # xs) @ zs)" "vc_count a = int (length (x # xs))"
    "vc_capacity a = int (length (x # xs) + length zs)"
    using assms by (auto elim: vec_holdsE)
  let ?a = "a\<lparr>vc_count := vc_count a - 1\<rparr>"
  have "move_left (length xs) (int 0) (int 1) ?a =
      Inr (?a\<lparr>vc_items := Some (xs @ drop (length xs) (x # xs @ zs))\<rparr>)"
    using move_left_items [of ?a "(x # xs) @ zs" 0 1 "length xs"] a by simp
  with a show ?thesis by (auto intro!: vec_holdsI [of _ _ "drop (length xs) (x # xs @ zs)"])
qed

lemma array_pop_front_holds:
  assumes "vec_holds a (x # xs)"
  shows "\<exists>a'. array_pop_front a = Inr (x, a') \<and> vec_holds a' xs"
  using pop_first [OF assms] vec_holdsD [OF assms] vec_nth [OF assms, of 0]
  by (auto simp: array_pop_front_def Let_def)

lemma stack_pop_front_holds:
  assumes "vec_holds s (x # xs)"
  shows "\<exists>s'. stack_pop_front s = Inr (x, s') \<and> vec_holds s' xs"
  using pop_first [OF assms] vec_holdsD [OF assms] vec_nth [OF assms, of 0]
  by (auto simp: stack_pop_front_def Let_def)

lemma vec_pop_empty:
  assumes "vec_holds a []"
  shows "array_pop_back a = Inr (None, a)" "array_pop_front a = Inr (None, a)"
    "acl_stack_pop a = Inr (None, a)" "stack_pop_front a = Inr (None, a)"
  using vec_holdsD [OF assms]
  by (simp_all add: array_pop_back_def array_pop_front_def acl_stack_pop_def stack_pop_front_def)

interpretation array_seq: obj_seq vec_holds "\<lambda>x. True" "\<lambda>xs. xs \<noteq> []"
  array_push_back array_push_front array_pop_back array_pop_front
proof
  fix a xs x
  assume a: "vec_holds a xs"
  show "\<exists>a'. array_push_back a x = Inr a' \<and> vec_holds a' (if True then xs @ [x] else xs)"
    using acl_array_append_holds [OF a, of x] by (auto simp: array_push_back_def)
  show "\<exists>a'. array_push_front a x = Inr a' \<and> vec_holds a' (if True \<and> xs \<noteq> [] then x # xs else xs)"
  proof (cases xs)
    case Nil
    then show ?thesis using acl_array_insert_refused(1) [OF a, of 0 x] a
      by (simp add: array_push_front_def acl_array_prepend_def)
  next
    case (Cons y ys)
    then show ?thesis using acl_array_pred_insert_holds [OF a, of 0 x]
      by (auto simp: array_push_front_def acl_array_prepend_def)
  qed
qed (use vec_pop_empty array_pop_back_holds array_pop_front_holds in auto)

interpretation stack_seq: obj_deque vec_holds "\<lambda>x. x \<noteq> None" "\<lambda>xs. True"
  stack_push_back stack_push_front stack_pop_back stack_pop_front
proof
  fix s xs x
  assume s: "vec_holds s xs"
  show "\<exists>s'. stack_push_back s x = Inr s' \<and> vec_holds s' (if x \<noteq> None then xs @ [x] else xs)"
    using acl_stack_append_holds [OF s, of x] by (cases x) (auto simp: stack_push_back_def)
  show "\<exists>s'. stack_push_front s x = Inr s' \<and> vec_holds s' (if x \<noteq> None \<and> True then x # xs else xs)"
    using acl_stack_prepend_holds [OF s, of x] by (cases x) (auto simp: stack_push_front_def)
qed (use vec_pop_empty acl_stack_pop_holds stack_pop_front_holds in \<open>auto simp: stack_pop_back_def\<close>)

section \<open>Removing items\<close>

lemma free_holds:
  assumes "vec_holds a (xs @ ms @ ys)" "i = int (length xs)"
  shows "\<exists>b. free_items (length ms) i free_fn a =
      Inr (if free_fn then filter (\<lambda>x. x \<noteq> None) ms else [], b) \<and>
    vc_count b = vc_count a \<and> vec_holds b (xs @ replicate (length ms) None @ ys)"
proof -
  obtain zs where a: "vc_items a = Some ((xs @ ms @ ys) @ zs)" "vc_count a = int (length (xs @ ms @ ys))"
    "vc_capacity a = int (length (xs @ ms @ ys) + length zs)"
    using assms(1) by (auto elim: vec_holdsE)
  from free_items_items [OF a(1), of "length xs" "length ms" free_fn] a assms(2) show ?thesis
    by (auto intro!: vec_holdsI [of _ _ zs])
qed

lemma remove_at:
  assumes "vec_holds a (xs @ x # ys)" "p = int (length xs)"
  shows "\<exists>b c. free_items 1 p free_fn a = Inr (if free_fn \<and> x \<noteq> None then [x] else [], b) \<and>
    move_left (nat (vc_count b - 1 - p)) p (p + 1) b = Inr c \<and>
    vec_holds (c\<lparr>vc_count := vc_count c - 1\<rparr>) (xs @ ys)"
proof -
  obtain b where b: "free_items 1 p free_fn a = Inr (if free_fn \<and> x \<noteq> None then [x] else [], b)"
    "vc_count b = vc_count a" "vec_holds b (xs @ [None] @ ys)"
  proof -
    have "filter (\<lambda>x. x \<noteq> None) [x] = (if x \<noteq> None then [x] else [])" by simp
    moreover have "length [x] = 1" by simp
    ultimately show ?thesis
      using free_holds [of a xs "[x]" ys p free_fn] assms that
      by (cases free_fn; cases "x \<noteq> None") (auto simp del: free_items.simps filter.simps)
  qed
  have n: "nat (vc_count b - 1 - p) = length ys"
    using b(2) vec_holdsD [OF assms(1)] assms(2) by simp
  obtain c where c: "move_left (length ys) p (p + 1) b = Inr c" "vc_count c = vc_count b"
    "vec_holds (c\<lparr>vc_count := int (length (xs @ ys))\<rparr>) (xs @ ys)"
    using close_gap [OF b(3), of p "p + 1"] assms(2) by auto
  have "vc_count c - 1 = int (length (xs @ ys))"
    using c(2) b(2) vec_holdsD [OF assms(1)] by simp
  with b(1) c n show ?thesis by auto
qed

lemma acl_array_delete_idx_holds:
  assumes "vec_holds a (xs @ x # ys)"
  shows "\<exists>a'. acl_array_delete_idx a (int (length xs)) free_fn =
      Inr (0, if free_fn \<and> x \<noteq> None then [x] else [], a') \<and> vec_holds a' (xs @ ys)"
  using remove_at [OF assms refl, of free_fn] vec_holdsD [OF assms]
  by (auto simp: acl_array_delete_idx_def)

lemma acl_stack_delete_holds:
  assumes "vec_holds s (xs @ x # ys)"
  shows "\<exists>s'. acl_stack_delete s (int (length xs)) free_fn =
      Inr (if free_fn \<and> x \<noteq> None then [x] else [], s') \<and> vec_holds s' (xs @ ys)"
  using remove_at [OF assms refl, of free_fn] vec_holdsD [OF assms]
  by (auto simp: acl_stack_delete_def)

lemma vec_replace: "vec_holds a xs \<Longrightarrow> p < length xs \<Longrightarrow>
  \<exists>b. vset a (int p) y = Inr b \<and> vc_count b = vc_count a \<and> vec_holds b (xs[p := y])"
  by (elim vec_holdsE) (auto simp: vset_ok list_update_append intro!: vec_holdsI)

lemma find_obj_hit:
  assumes "vec_holds a (xs @ zs)" "n = length zs" "i = int (length xs)"
  shows "find_obj n i obj a =
    Inr (if obj \<in> set zs then i + int (length (takeWhile (\<lambda>y. y \<noteq> obj) zs)) else -1)"
  using assms
proof (induction zs arbitrary: xs n i)
  case (Cons z zs)
  have "vget a i = Inr z" using vec_nth [OF Cons.prems(1), of "length xs"] Cons.prems(3) by simp
  moreover have "find_obj (length zs) (i + 1) obj a =
      Inr (if obj \<in> set zs then i + 1 + int (length (takeWhile (\<lambda>y. y \<noteq> obj) zs)) else -1)"
    by (rule Cons.IH [of "xs @ [z]"]) (use Cons.prems in auto)
  ultimately show ?case using Cons.prems(2) by auto
qed simp

lemma find_obj_all:
  assumes "vec_holds a xs"
  shows "find_obj (nat (vc_count a)) 0 obj a =
    Inr (if obj \<in> set xs then int (length (takeWhile (\<lambda>y. y \<noteq> obj) xs)) else -1)"
  using find_obj_hit [of a "[]" xs "length xs" 0 obj] assms by (simp add: vec_holdsD)

lemma acl_array_delete_obj_holds:
  assumes "vec_holds a xs" "obj \<in> set xs"
  shows "\<exists>a'. acl_array_delete_obj a obj free_fn = Inr (0, if free_fn \<and> obj \<noteq> None then [obj] else [], a') \<and>
    vec_holds a' (remove1 obj xs)"
proof -
  obtain us vs where xs: "xs = us @ obj # vs" "obj \<notin> set us"
    using split_list_first [OF assms(2)] by blast
  have t: "takeWhile (\<lambda>y. y \<noteq> obj) xs = us" using xs by (induction us arbitrary: xs) auto
  obtain b where b: "vset a (int (length us)) None = Inr b" "vec_holds b (us @ None # vs)"
    using vec_replace [OF assms(1), of "length us" None] xs(1) by auto
  obtain c where "acl_array_delete_idx b (int (length us)) False = Inr (0, [], c)" "vec_holds c (us @ vs)"
    using acl_array_delete_idx_holds [OF b(2), of False] by auto
  then show ?thesis
    using find_obj_all [OF assms(1), of obj] assms(2) t b xs
    by (simp add: acl_array_delete_obj_def Let_def remove1_append)
qed

lemma acl_array_delete_obj_absent:
  assumes "vec_holds a xs" "obj \<notin> set xs"
  shows "acl_array_delete_obj a obj free_fn = Inr (-1, if free_fn \<and> obj \<noteq> None then [obj] else [], a)"
  using find_obj_all [OF assms(1), of obj] assms(2) by (simp add: acl_array_delete_obj_def Let_def)

lemma acl_stack_delete_obj_holds:
  assumes "vec_holds s xs"
  shows "\<exists>s'. acl_stack_delete_obj s obj free_fn =
      Inr (if free_fn \<and> obj \<noteq> None \<and> obj \<in> set xs then [obj] else [], s') \<and>
    vec_holds s' (if obj = None then xs else remove1 obj xs)"
proof (cases "obj \<noteq> None \<and> obj \<in> set xs")
  case True
  then obtain us vs where xs: "xs = us @ obj # vs" "obj \<notin> set us"
    using split_list_first [of obj xs] by blast
  have t: "takeWhile (\<lambda>y. y \<noteq> obj) xs = us" using xs by (induction us arbitrary: xs) auto
  obtain b where b: "vset s (int (length us)) None = Inr b" "vec_holds b (us @ None # vs)"
    using vec_replace [OF assms, of "length us" None] xs(1) by auto
  obtain c where "acl_stack_delete b (int (length us)) False = Inr ([], c)" "vec_holds c (us @ vs)"
    using acl_stack_delete_holds [OF b(2), of False] by auto
  then show ?thesis
    using find_obj_all [OF assms, of obj] True t b xs
    by (auto simp: acl_stack_delete_obj_def Let_def remove1_append)
next
  case False
  then show ?thesis
    using find_obj_all [OF assms, of obj] assms
    by (auto simp: acl_stack_delete_obj_def Let_def remove1_idem)
qed

lemma acl_array_delete_holds:
  assumes "vec_holds a xs" "p < length xs"
  shows "\<exists>a'. acl_array_delete a (int p) free_fn =
      Inr (0, if free_fn \<and> xs ! p \<noteq> None then [xs ! p] else [], a') \<and>
    vec_holds a' (butlast (xs[p := last xs]))"
proof -
  let ?b = "a\<lparr>vc_count := vc_count a - 1\<rparr>"
  have x: "vget a (int p) = Inr (xs ! p)" by (rule vec_nth [OF assms])
  have xs: "xs = butlast xs @ [last xs]" using assms(2) by (cases xs rule: rev_cases) auto
  then have b: "vget ?b (vc_count ?b) = Inr (last xs)" "vec_holds ?b (butlast xs)"
    using pop_last [of a "butlast xs" "last xs" ?b] assms(1) by auto
  have n: "vc_count a = int (length xs)" by (rule vec_holdsD [OF assms(1)])
  show ?thesis
  proof (cases "length xs = 1")
    case True
    with b(2) n x assms(2) show ?thesis
      by (auto simp: acl_array_delete_def Let_def butlast_list_update)
  next
    case False
    obtain c where c: "vset a (int p) (last xs) = Inr c" "vc_count c = vc_count a" "vec_holds c (xs[p := last xs])"
      using vec_replace [OF assms] by blast
    have "vset ?b (int p) (last xs) = Inr (c\<lparr>vc_count := vc_count a - 1\<rparr>)"
      using c(1) by (auto simp: vset_def split: option.splits if_splits)
    moreover have "vec_holds (c\<lparr>vc_count := vc_count a - 1\<rparr>) (butlast (xs[p := last xs]))"
      using vec_shrink [of c "butlast (xs[p := last xs])" "[last (xs[p := last xs])]"] c n assms(2)
      by (cases xs rule: rev_cases) auto
    ultimately show ?thesis using False n x b(1) assms(2)
      by (auto simp: acl_array_delete_def Let_def)
  qed
qed

lemma drop_middle:
  assumes "vec_holds a (xs @ ms @ ys)" "ms \<noteq> []"
  shows "\<exists>b c. (if free_fn then free_items (length ms) (int (length xs)) free_fn a else Inr ([], a)) =
      Inr (if free_fn then filter (\<lambda>x. x \<noteq> None) ms else [], b) \<and> vc_count b = vc_count a \<and>
    move_left (length ys) (int (length xs)) (int (length (xs @ ms))) b = Inr c \<and> vc_count c = vc_count a \<and>
    vec_holds (c\<lparr>vc_count := int (length (xs @ ys))\<rparr>) (xs @ ys)"
proof -
  obtain b ns where b: "(if free_fn then free_items (length ms) (int (length xs)) free_fn a else Inr ([], a)) =
      Inr (if free_fn then filter (\<lambda>x. x \<noteq> None) ms else [], b)"
    "vc_count b = vc_count a" "vec_holds b (xs @ ns @ ys)" "length ns = length ms"
    using free_holds [OF assms(1) refl, of free_fn] assms(1) by (cases free_fn) (force, auto)
  with close_gap [OF b(3) refl refl] show ?thesis by auto
qed

lemma move_left_count:
  "move_left n d s (a\<lparr>vc_count := k\<rparr>) = cbind (move_left n d s a) (\<lambda>b. Inr (b\<lparr>vc_count := k\<rparr>))"
proof (induction n arbitrary: d s a)
  case (Suc n)
  have "vget (a\<lparr>vc_count := k\<rparr>) s = vget a s" by (simp add: vget_def)
  moreover have "vset (a\<lparr>vc_count := k\<rparr>) d x = cbind (vset a d x) (\<lambda>b. Inr (b\<lparr>vc_count := k\<rparr>))" for x
    by (simp add: vset_def split: option.splits)
  ultimately show ?case
    using Suc by (cases "vget a s"; simp) (cases "vset a d (projr (vget a s))"; simp)
qed simp

lemma acl_array_delete_range_holds:
  assumes "vec_holds a (xs @ ms @ ys)" "ms \<noteq> []" "j = int (length (xs @ ms)) - 1 \<or> ys = [] \<and> j \<ge> int (length (xs @ ms))"
  shows "\<exists>a'. acl_array_delete_range a (int (length xs)) j free_fn =
      Inr (0, if free_fn then filter (\<lambda>x. x \<noteq> None) ms else [], a') \<and> vec_holds a' (xs @ ys)"
proof -
  have n: "vc_count a = int (length (xs @ ms @ ys))" by (rule vec_holdsD [OF assms(1)])
  let ?e = "int (length (xs @ ms)) - 1"
  have e: "(if j > vc_count a - 1 then vc_count a - 1 else j) = ?e" using assms(3) n by auto
  have g: "int (length xs) \<le> j" "0 \<le> j" "0 < vc_count a" using assms(2,3) n by (cases ms; auto)+
  have k: "nat (?e - int (length xs) + 1) = length ms" "nat (vc_count a - 1 - ?e) = length ys"
    "?e + 1 = int (length (xs @ ms))" "vc_count a - (?e - int (length xs) + 1) = int (length (xs @ ys))"
    using n by auto
  obtain b c where "(if free_fn then free_items (length ms) (int (length xs)) free_fn a else Inr ([], a)) =
      Inr (if free_fn then filter (\<lambda>x. x \<noteq> None) ms else [], b)" "vc_count b = vc_count a"
    "move_left (length ys) (int (length xs)) (int (length (xs @ ms))) b = Inr c"
    "vec_holds (c\<lparr>vc_count := int (length (xs @ ys))\<rparr>) (xs @ ys)"
    using drop_middle [OF assms(1,2), of free_fn] by blast
  then show ?thesis
    unfolding acl_array_delete_range_def Let_def e k
    using g k(4) by (simp add: move_left_count)
qed

lemma acl_array_mv_idx_holds:
  assumes "vec_holds a (xs @ ms @ ys)" "ms \<noteq> []" "ys \<noteq> []"
  shows "\<exists>a'. acl_array_mv_idx a (int (length xs)) (int (length (xs @ ms))) free_fn =
      Inr (0, if free_fn then filter (\<lambda>x. x \<noteq> None) ms else [], a') \<and> vec_holds a' (xs @ ys)"
proof -
  have n: "vc_count a = int (length (xs @ ms @ ys))" by (rule vec_holdsD [OF assms(1)])
  obtain b c where bc: "(if free_fn then free_items (length ms) (int (length xs)) free_fn a else Inr ([], a)) =
      Inr (if free_fn then filter (\<lambda>x. x \<noteq> None) ms else [], b)" "vc_count b = vc_count a"
    "move_left (length ys) (int (length xs)) (int (length (xs @ ms))) b = Inr c" "vc_count c = vc_count a"
    "vec_holds (c\<lparr>vc_count := int (length (xs @ ys))\<rparr>) (xs @ ys)"
    using drop_middle [OF assms(1,2), of free_fn] by blast
  have k: "nat (int (length (xs @ ms)) - int (length xs)) = length ms"
    "nat (vc_count b - int (length (xs @ ms))) = length ys"
    "vc_count c - (int (length (xs @ ms)) - int (length xs)) = int (length (xs @ ys))"
    using n bc(2,4) by auto
  have g: "\<not> (int (length xs) < 0 \<or> int (length (xs @ ms)) < 0 \<or> vc_count a < 0)"
    "\<not> (vc_count a = 0 \<or> int (length xs) \<ge> int (length (xs @ ms)) \<or> int (length (xs @ ms)) \<ge> vc_count a)"
    using n assms(2,3) by (cases ms; cases ys; simp)+
  show ?thesis
    unfolding acl_array_mv_idx_def if_not_P [OF g(1)] if_not_P [OF g(2)] k(1)
    using bc k(2,3) by (simp add: Let_def del: length_append)
qed

lemma acl_array_clean_holds:
  assumes "vec_holds a xs"
  shows "\<exists>a'. acl_array_clean a free_fn = Inr (if free_fn then filter (\<lambda>x. x \<noteq> None) xs else [], a') \<and>
    vec_holds a' []"
proof -
  obtain b where b: "free_items (length xs) 0 free_fn a =
      Inr (if free_fn then filter (\<lambda>x. x \<noteq> None) xs else [], b)"
    "vec_holds b (replicate (length xs) None)"
    using free_holds [of a "[]" xs "[]" 0 free_fn] assms by auto
  with vec_shrink [of b "[]" "replicate (length xs) None"] vec_holdsD [OF assms] show ?thesis
    by (auto simp: acl_array_clean_def)
qed

text \<open>What the two defects do: see the properties below.\<close>

lemma acl_stack_clean_breaks:
  assumes "vec_holds s xs" "vc_capacity s > 0"
  shows "\<exists>fs s'. acl_stack_clean s free_fn = Inr (fs, s') \<and> acl_stack_append s' (Some x) = Inl NullDeref"
proof -
  obtain b where b: "free_items (length xs) 0 free_fn s =
      Inr (if free_fn then filter (\<lambda>x. x \<noteq> None) xs else [], b)"
    "vc_capacity b = vc_capacity s"
    using assms(1) free_items_items [of s _ 0 "length xs" free_fn] by (elim vec_holdsE) auto
  with assms show ?thesis
    by (auto simp: acl_stack_clean_def acl_stack_append_def Let_def vset_def vec_holdsD)
qed

lemma acl_array_delete_range_past_end:
  assumes "vec_holds a xs" "xs \<noteq> []" "int (length xs) \<le> i" "i \<le> j"
  shows "acl_array_delete_range a i j free_fn = Inr (0, [], a\<lparr>vc_count := i\<rparr>)"
proof -
  have n: "vc_count a = int (length xs)" by (rule vec_holdsD [OF assms(1)])
  have "nat (vc_count a - 1 - i + 1) = 0" "nat (vc_count a - 1 - (vc_count a - 1)) = 0"
    using n assms(3) by auto
  with n assms show ?thesis
    by (auto simp: acl_array_delete_range_def Let_def)
qed

section \<open>The iterators\<close>

lemma foreach_rest_items:
  assumes "vec_holds a (xs @ x # ys)" "i = int (length xs)"
  shows "foreach_rest a i x = Inr (takeWhile (\<lambda>p. p \<noteq> None) (x # ys))"
  using assms
proof (induction ys arbitrary: xs x i)
  case Nil
  then have "array_iter_next a i = Inr (i + 1, None)" by (auto simp: array_iter_next_def dest: vec_holdsD)
  then show ?case by (simp add: foreach_rest.simps)
next
  case (Cons y ys)
  have "foreach_rest a (i + 1) y = Inr (takeWhile (\<lambda>p. p \<noteq> None) (y # ys))"
    by (rule Cons.IH [of "xs @ [x]"]) (use Cons.prems in auto)
  moreover have "vget a (i + 1) = Inr y"
    using vec_nth [OF Cons.prems(1), of "Suc (length xs)"] Cons.prems(2) by (simp add: nth_append add.commute)
  then have "array_iter_next a i = Inr (i + 1, y)"
    using vec_holdsD [OF Cons.prems(1)] Cons.prems(2) by (simp add: array_iter_next_def)
  ultimately show ?case by (simp add: foreach_rest.simps [of a i x])
qed

lemma foreach_rest_reverse_items:
  assumes "vec_holds a (xs @ x # ys)" "i = int (length xs)"
  shows "foreach_rest_reverse a i x = Inr (takeWhile (\<lambda>p. p \<noteq> None) (x # rev xs))"
  using assms
proof (induction xs arbitrary: x ys i rule: rev_induct)
  case Nil
  then have "array_iter_prev a i = Inr (i - 1, None)" by (simp add: array_iter_prev_def)
  then show ?case by (simp add: foreach_rest_reverse.simps)
next
  case (snoc y xs)
  have "foreach_rest_reverse a (i - 1) y = Inr (takeWhile (\<lambda>p. p \<noteq> None) (y # rev xs))"
    by (rule snoc.IH [of y "x # ys"]) (use snoc.prems in auto)
  moreover have "vget a (i - 1) = Inr y"
    using vec_nth [OF snoc.prems(1), of "length xs"] snoc.prems(2) by (simp add: nth_append)
  then have "array_iter_prev a i = Inr (i - 1, y)"
    using snoc.prems(2) by (simp add: array_iter_prev_def)
  ultimately show ?case by (simp add: foreach_rest_reverse.simps [of a i x])
qed

section \<open>Properties\<close>

text \<open>No call of the sequence pushes at the front of a list that is empty then.\<close>

fun fronts_fit :: "seq_op list \<Rightarrow> ptr list \<Rightarrow> bool" where
  "fronts_fit [] xs = True"
| "fronts_fit (c # cs) xs =
     ((case c of PushFront x \<Rightarrow> xs \<noteq> [] | _ \<Rightarrow> True) \<and> fronts_fit cs (snd (list_op (\<lambda>x. True) (\<lambda>xs. True) c xs)))"

lemma fronts_fit_run:
  "fronts_fit cs xs \<Longrightarrow> list_run (\<lambda>x. True) (\<lambda>xs. xs \<noteq> []) cs xs = list_run (\<lambda>x. True) (\<lambda>xs. True) cs xs"
proof (induction cs arbitrary: xs)
  case (Cons c cs)
  obtain r ys where c: "list_op (\<lambda>x. True) (\<lambda>xs. True) c xs = (r, ys)" by fastforce
  have "list_op (\<lambda>x. True) (\<lambda>xs. xs \<noteq> []) c xs = list_op (\<lambda>x. True) (\<lambda>xs. True) c xs"
    using Cons.prems by (cases c) auto
  with Cons.IH [of ys] Cons.prems c show ?case by simp
qed simp

text \<open>C11: Any sequence of calls at the two ends of an array that has just been created ends without
  a fault, whatever the initial size was. It returns and leaves what the same calls return and leave on a
  list, provided that none of them pushes at the front while the array is empty; such a push is
  refused, and in general the calls do what they do on a list that drops it.\<close>

theorem array_refines_list:
  "\<exists>a a' rs ys. acl_array_create n = Inr a \<and>
     seq_run array_push_back array_push_front array_pop_back array_pop_front cs a = Inr (rs, a') \<and>
     vec_holds a' ys \<and>
     (fronts_fit cs [] \<longrightarrow> (rs, ys) = list_run (\<lambda>x. True) (\<lambda>xs. True) cs []) \<and>
     (rs, ys) = list_run (\<lambda>x. True) (\<lambda>xs. xs \<noteq> []) cs []"
proof -
  obtain a where "acl_array_create n = Inr a" "vec_holds a []"
    using acl_array_create_holds by blast
  with array_seq.run_refines [of a "[]" cs] fronts_fit_run [of cs "[]"] show ?thesis
    by (metis prod.collapse)
qed

theorem array_refines_list_witness:
  "\<exists>a a'. acl_array_create 0 = Inr a \<and>
     seq_run array_push_back array_push_front array_pop_back array_pop_front
       [PushBack (Some 5), PushFront (Some 6), PopBack, PopFront, PopFront] a =
       Inr ([None, None, Some 5, Some 6, None], a') \<and> vec_holds a' []"
proof -
  have "fronts_fit [PushBack (Some 5), PushFront (Some 6), PopBack, PopFront, PopFront] []" by simp
  moreover have "list_run (\<lambda>x. True) (\<lambda>xs. True) [PushBack (Some 5), PushFront (Some 6), PopBack, PopFront, PopFront] [] =
      ([None, None, Some 5, Some 6, None], [])" by simp
  ultimately show ?thesis
    using array_refines_list [of 0 "[PushBack (Some 5), PushFront (Some 6), PopBack, PopFront, PopFront]"] by auto
qed

text \<open>The loop \<open>acl_foreach\<close> over an array ends: forwards and backwards it visits the objects in
  order up to the first NULL, without a fault.\<close>

theorem array_foreach_visits:
  assumes "vec_holds a xs"
  shows "array_foreach a = Inr (takeWhile (\<lambda>p. p \<noteq> None) xs) \<and>
    array_foreach_reverse a = Inr (takeWhile (\<lambda>p. p \<noteq> None) (rev xs))"
proof (cases "xs = []")
  case True
  with assms show ?thesis
    by (auto simp: array_foreach_def array_foreach_reverse_def array_iter_head_def array_iter_tail_def
        foreach_rest.simps foreach_rest_reverse.simps dest: vec_holdsD)
next
  case False
  then obtain y ys where y: "xs = y # ys" by (cases xs) auto
  from False obtain z zs where z: "xs = zs @ [z]" by (cases xs rule: rev_cases) auto
  have n: "vc_count a = int (length xs)" "vc_items a \<noteq> None"
    using assms by (auto elim: vec_holdsE)
  have "array_iter_head a = Inr (0, y)"
    using vec_nth [OF assms, of 0] n y by (auto simp: array_iter_head_def)
  moreover have "array_iter_tail a = Inr (int (length zs), z)"
    using vec_nth [OF assms, of "length zs"] n z by (auto simp: array_iter_tail_def)
  moreover have "foreach_rest a 0 y = Inr (takeWhile (\<lambda>p. p \<noteq> None) (y # ys))"
    by (rule foreach_rest_items [of a "[]"]) (use assms y in simp_all)
  moreover have "foreach_rest_reverse a (int (length zs)) z = Inr (takeWhile (\<lambda>p. p \<noteq> None) (z # rev zs))"
    by (rule foreach_rest_reverse_items [of a zs z "[]"]) (use assms z in simp_all)
  moreover have "rev xs = z # rev zs" using z by simp
  ultimately show ?thesis
    unfolding array_foreach_def array_foreach_reverse_def using y by simp
qed

definition array_demo :: vec where
  "array_demo = \<lparr>vc_items = Some [Some 1, None, Some 3, None], vc_count = 3, vc_capacity = 4\<rparr>"

lemma array_demo_holds: "vec_holds array_demo [Some 1, None, Some 3]"
  by (simp add: array_demo_def vec_holds_def)

theorem array_foreach_visits_witness:
  "array_foreach array_demo = Inr [Some 1] \<and> array_foreach_reverse array_demo = Inr [Some 3]"
  using array_foreach_visits [OF array_demo_holds] by simp

text \<open>\<open>acl_array_delete_range\<close> and \<open>acl_array_mv_idx\<close> remove the same range of items, calling
  \<open>free_fn\<close> once on each item there that is not NULL and keeping the others in order.\<close>

theorem acl_array_range_removed:
  assumes "vec_holds a (xs @ ms @ ys)" "ms \<noteq> []" "ys \<noteq> []"
  shows "\<exists>a' a''.
    acl_array_delete_range a (int (length xs)) (int (length (xs @ ms)) - 1) free_fn =
      Inr (0, if free_fn then filter (\<lambda>x. x \<noteq> None) ms else [], a') \<and> vec_holds a' (xs @ ys) \<and>
    acl_array_mv_idx a (int (length xs)) (int (length (xs @ ms))) free_fn =
      Inr (0, if free_fn then filter (\<lambda>x. x \<noteq> None) ms else [], a'') \<and> vec_holds a'' (xs @ ys)"
  using acl_array_delete_range_holds [OF assms(1,2), of "int (length (xs @ ms)) - 1" free_fn]
    acl_array_mv_idx_holds [OF assms, of free_fn]
  by metis

theorem acl_array_range_removed_witness:
  "\<exists>a' a''. acl_array_delete_range array_demo 0 1 True = Inr (0, [Some 1], a') \<and> vec_holds a' [Some 3] \<and>
     acl_array_mv_idx array_demo 0 2 True = Inr (0, [Some 1], a'') \<and> vec_holds a'' [Some 3]"
  using acl_array_range_removed [of array_demo "[]" "[Some 1, None]" "[Some 3]" True] array_demo_holds
  by simp

text \<open>A range that begins past the end is not refused: \<open>acl_array_delete_range\<close> returns 0 and sets
  \<open>count\<close> to the begin of the range, so a call that removes nothing makes the array longer, past its
  block when the begin is.\<close>

theorem acl_array_delete_range_grows:
  assumes "vec_holds a xs" "xs \<noteq> []" "vc_capacity a < i" "i \<le> j"
  shows "\<exists>a'. acl_array_delete_range a i j free_fn = Inr (0, [], a') \<and> acl_array_size a' = i \<and>
    acl_array_index a' (i - 1) = Inl OobRead"
proof -
  obtain ys where ys: "vc_items a = Some (xs @ ys)" "vc_capacity a = int (length xs + length ys)"
    using assms(1) by (elim vec_holdsE)
  with assms acl_array_delete_range_past_end [of a xs i j free_fn] show ?thesis
    by (auto simp: acl_array_size_def acl_array_index_def vget_def)
qed

theorem acl_array_delete_range_grows_witness:
  "\<exists>a'. acl_array_delete_range array_demo 5 5 False = Inr (0, [], a') \<and> acl_array_size a' = 5 \<and>
    acl_array_index a' 4 = Inl OobRead"
  using acl_array_delete_range_grows [OF array_demo_holds, of 5 5 False] by (simp add: array_demo_def)

text \<open>A stack that has just been created behaves as a list at both ends: used as a stack it gives
  the objects back in reverse order, used as a queue in order, and a NULL object is not stored.\<close>

theorem stack_refines_list:
  "\<exists>s'. seq_run stack_push_back stack_push_front stack_pop_back stack_pop_front cs (acl_stack_create n) =
       Inr (fst (list_run (\<lambda>x. x \<noteq> None) (\<lambda>xs. True) cs []), s') \<and>
     vec_holds s' (snd (list_run (\<lambda>x. x \<noteq> None) (\<lambda>xs. True) cs []))"
  using stack_seq.run_refines [OF acl_stack_create_holds, of cs] by (metis prod.collapse)

text \<open>After \<open>acl_stack_clean\<close> the stack has no block but keeps its capacity, so the next
  \<open>acl_stack_append\<close> writes through a NULL pointer.\<close>

theorem acl_stack_clean_then_append_faults:
  "\<exists>s fs s'. acl_stack_append (acl_stack_create n) (Some x) = Inr s \<and>
     acl_stack_clean s free_fn = Inr (fs, s') \<and> acl_stack_append s' (Some y) = Inl NullDeref"
proof -
  obtain s where s: "acl_stack_append (acl_stack_create n) (Some x) = Inr s" "vec_holds s [Some x]"
    using acl_stack_append_holds [OF acl_stack_create_holds, of n "Some x"] by auto
  have "vc_capacity s > 0" using s(2) by (elim vec_holdsE) auto
  with s acl_stack_clean_breaks [OF s(2), of free_fn y] show ?thesis by blast
qed

end
