(* ===== verification/Acl_Dlink.thy ===== *)
theory Acl_Dlink
  imports Acl_Array
begin

text \<open>
  The set of integer ranges of \<open>lib_acl/src/stdlib/common/acl_dlink.c\<close>: an \<open>ACL_ARRAY\<close> of pointers to
  \<open>ACL_DITEM\<close> nodes, each the closed range from \<open>begin\<close> to \<open>end\<close> of 64-bit numbers, sorted and without
  overlaps. The array is the one of \<open>Acl_Array\<close>; the nodes live in the store \<open>dl_items\<close>, where
  \<open>dl_brk\<close> is the address of the next node the allocator gives out. The field \<open>pnode\<close> of a node
  belongs to the caller and is not part of the model. In \<open>dlink_add\<close> the test against the end of the right node, which the code
  has in two branches that exclude each other, is written once in front of them.
\<close>

section \<open>Nodes and lists of ranges\<close>

record ditem =
  di_begin :: "64 word"
  di_end :: "64 word"

record dlink =
  dl_array :: vec
  dl_items :: "addr \<rightharpoonup> ditem"
  dl_brk :: addr

definition dread :: "dlink \<Rightarrow> ptr \<Rightarrow> ditem cres" where
  "dread d p = cbind (deref p) (\<lambda>a. case dl_items d a of None \<Rightarrow> Inl OobRead | Some i \<Rightarrow> Inr i)"

definition dwrite :: "dlink \<Rightarrow> ptr \<Rightarrow> (ditem \<Rightarrow> ditem) \<Rightarrow> dlink cres" where
  "dwrite d p u = cbind (deref p) (\<lambda>a.
     case dl_items d a of
       None \<Rightarrow> Inl OobWrite
     | Some i \<Rightarrow> Inr (d\<lparr>dl_items := (dl_items d)(a \<mapsto> u i)\<rparr>))"

definition dalloc :: "dlink \<Rightarrow> 64 word \<Rightarrow> 64 word \<Rightarrow> addr \<times> dlink" where
  "dalloc d b e =
     (dl_brk d, d\<lparr>dl_items := (dl_items d)(dl_brk d \<mapsto> \<lparr>di_begin = b, di_end = e\<rparr>),
                  dl_brk := Suc (dl_brk d)\<rparr>)"

definition dlink_free_callback :: "dlink \<Rightarrow> ptr \<Rightarrow> dlink cres" where
  "dlink_free_callback d p =
     (case p of
        None \<Rightarrow> Inr d
      | Some a \<Rightarrow>
          if dl_items d a = None then Inl OobWrite else Inr (d\<lparr>dl_items := (dl_items d)(a := None)\<rparr>))"

text \<open>The calls of \<open>dlink_free_callback\<close> an array operation makes, in their order.\<close>

fun free_all :: "dlink \<Rightarrow> ptr list \<Rightarrow> dlink cres" where
  "free_all d [] = Inr d"
| "free_all d (p # ps) = cbind (dlink_free_callback d p) (\<lambda>d1. free_all d1 ps)"

section \<open>Where a number belongs\<close>

function scope_loop :: "dlink \<Rightarrow> 64 word \<Rightarrow> int \<Rightarrow> int \<Rightarrow> int cres" where
  "scope_loop d n lidx hidx =
     (if lidx \<le> hidx then
        (let midx = (lidx + hidx) div 2; ridx = midx + 1
         in if ridx > hidx then
              Inr (if hidx = 0 then 0
                   else if hidx = acl_array_size (dl_array d) - 1 then acl_array_size (dl_array d) - 1
                   else -1)
            else
              cbind (acl_array_index (dl_array d) midx) (\<lambda>pl.
              cbind (acl_array_index (dl_array d) ridx) (\<lambda>pr.
              cbind (dread d pl) (\<lambda>pitem_left.
              cbind (dread d pr) (\<lambda>pitem_right.
                if n \<ge> di_begin pitem_left \<and> n < di_begin pitem_right then Inr midx
                else if n \<ge> di_begin pitem_right then scope_loop d n ridx hidx
                else if n < di_begin pitem_left then scope_loop d n lidx midx
                else Inr (-1))))))
      else Inr 0)"
  by pat_completeness auto
termination
  by (relation "measure (\<lambda>(d, n, l, h). nat (h - l + 1))") auto

declare scope_loop.simps [simp del]

definition scope_pos :: "dlink \<Rightarrow> 64 word \<Rightarrow> int cres" where
  "scope_pos d n = scope_loop d n 0 (acl_array_size (dl_array d) - 1)"

definition begin_pos :: "dlink \<Rightarrow> 64 word \<Rightarrow> int cres" where
  "begin_pos d n = scope_pos d n"

definition end_pos :: "dlink \<Rightarrow> 64 word \<Rightarrow> int cres" where
  "end_pos d n = scope_pos d n"

section \<open>Adding a range\<close>

definition dlink_succ_insert :: "dlink \<Rightarrow> int \<Rightarrow> 64 word \<Rightarrow> 64 word \<Rightarrow> (ptr \<times> dlink) cres" where
  "dlink_succ_insert d idx_position b e =
     (let (a, d1) = dalloc d b e
      in cbind (acl_array_succ_insert (dl_array d1) idx_position (Some a)) (\<lambda>(ret, v).
         let d2 = d1\<lparr>dl_array := v\<rparr>
         in if ret < 0 then Inr (None, d2\<lparr>dl_items := (dl_items d2)(a := None)\<rparr>) else Inr (Some a, d2)))"

definition dlink_append :: "dlink \<Rightarrow> 64 word \<Rightarrow> 64 word \<Rightarrow> (ptr \<times> dlink) cres" where
  "dlink_append d b e =
     (let (a, d1) = dalloc d b e
      in cbind (acl_array_append (dl_array d1) (Some a)) (\<lambda>(ret, v).
         let d2 = d1\<lparr>dl_array := v\<rparr>
         in if ret < 0 then Inr (None, d2\<lparr>dl_items := (dl_items d2)(a := None)\<rparr>) else Inr (Some a, d2)))"

definition dlink_prepend :: "dlink \<Rightarrow> 64 word \<Rightarrow> 64 word \<Rightarrow> (ptr \<times> dlink) cres" where
  "dlink_prepend d b e =
     (let (a, d1) = dalloc d b e
      in cbind (acl_array_prepend (dl_array d1) (Some a)) (\<lambda>(ret, v).
         let d2 = d1\<lparr>dl_array := v\<rparr>
         in if ret < 0 then Inr (None, d2\<lparr>dl_items := (dl_items d2)(a := None)\<rparr>) else Inr (Some a, d2)))"

definition dlink_node_merge :: "dlink \<Rightarrow> int \<Rightarrow> int \<Rightarrow> (int \<times> dlink) cres" where
  "dlink_node_merge d idx_obj_begin idx_src_begin =
     (if idx_obj_begin \<ge> idx_src_begin then Inr (0, d)
      else cbind (acl_array_mv_idx (dl_array d) idx_obj_begin idx_src_begin True) (\<lambda>(ret, fs, v).
           cbind (free_all (d\<lparr>dl_array := v\<rparr>) fs) (\<lambda>d1. Inr (if ret < 0 then -1 else 0, d1))))"

definition dlink_add :: "dlink \<Rightarrow> 64 word \<Rightarrow> 64 word \<Rightarrow> (ptr \<times> dlink) cres" where
  "dlink_add d b e =
     (if b > e then Inr (None, d)
      else
        cbind (begin_pos d b) (\<lambda>idx_begin.
        if idx_begin < 0 \<or> idx_begin \<ge> acl_array_size (dl_array d) then Inr (None, d)
        else
        cbind (end_pos d e) (\<lambda>idx_end.
        if idx_end < 0 \<or> idx_end \<ge> acl_array_size (dl_array d) then Inr (None, d)
        else if idx_begin > idx_end then Inr (None, d)
        else if acl_array_size (dl_array d) = 0 then dlink_append d b e
        else
        cbind (acl_array_index (dl_array d) idx_begin) (\<lambda>pitem_left.
        cbind (acl_array_index (dl_array d) idx_end) (\<lambda>pitem_right.
        if idx_begin = idx_end then
          cbind (dread d pitem_left) (\<lambda>l.
          if e < di_begin l then dlink_prepend d b e
          else if b > di_end l then dlink_succ_insert d idx_begin b e
          else
            cbind (if b < di_begin l then dwrite d pitem_left (\<lambda>i. i\<lparr>di_begin := b\<rparr>) else Inr d) (\<lambda>d1.
            cbind (dread d1 pitem_left) (\<lambda>l1.
            cbind (if e > di_end l1 then dwrite d1 pitem_left (\<lambda>i. i\<lparr>di_end := e\<rparr>) else Inr d1) (\<lambda>d2.
              Inr (pitem_left, d2)))))
        else
          cbind (dread d pitem_left) (\<lambda>l.
          cbind (if b < di_begin l then dwrite d pitem_left (\<lambda>i. i\<lparr>di_begin := b\<rparr>) else Inr d) (\<lambda>d1.
          cbind (dread d1 pitem_left) (\<lambda>l1.
          cbind (dread d1 pitem_right) (\<lambda>r1.
          cbind (if e > di_end r1 then dwrite d1 pitem_right (\<lambda>i. i\<lparr>di_end := e\<rparr>) else Inr d1) (\<lambda>d2.
          if b \<le> di_end l1 then
            cbind (dwrite d2 pitem_right (\<lambda>i. i\<lparr>di_begin := di_begin l1\<rparr>)) (\<lambda>d3.
            cbind (dlink_node_merge d3 idx_begin idx_end) (\<lambda>(ret, d4).
              Inr (if ret < 0 then None else pitem_right, d4)))
          else
            cbind (dwrite d2 pitem_right (\<lambda>i. i\<lparr>di_begin := b\<rparr>)) (\<lambda>d3.
            cbind (dlink_node_merge d3 (idx_begin + 1) idx_end) (\<lambda>(ret, d4).
              Inr (if ret < 0 then None else pitem_right, d4)))))))))))))"

definition acl_dlink_create :: "int \<Rightarrow> dlink cres" where
  "acl_dlink_create nsize =
     cbind (acl_array_create (if nsize > 0 then nsize else 1)) (\<lambda>v.
       Inr \<lparr>dl_array = v, dl_items = Map.empty, dl_brk = 0\<rparr>)"

definition acl_dlink_insert :: "dlink \<Rightarrow> 64 word \<Rightarrow> 64 word \<Rightarrow> (ptr \<times> dlink) cres" where
  "acl_dlink_insert d b0 e0 =
     (let (b, e) = (if b0 > e0 then (e0, b0) else (b0, e0))
      in if acl_array_size (dl_array d) = 0 then dlink_append d b e else dlink_add d b e)"

definition acl_dlink_modify :: "dlink \<Rightarrow> 64 word \<Rightarrow> 64 word \<Rightarrow> (ptr \<times> dlink) cres" where
  "acl_dlink_modify d b0 e0 =
     (let (b, e) = (if b0 > e0 then (e0, b0) else (b0, e0)) in dlink_add d b e)"

section \<open>Lookups\<close>

text \<open>A lookup gives the node and its index, which the code stores through \<open>pidx\<close>.\<close>

function lookup2_loop :: "dlink \<Rightarrow> 64 word \<Rightarrow> int \<Rightarrow> int \<Rightarrow> (ptr \<times> int) option cres" where
  "lookup2_loop d n lidx hidx =
     (if lidx \<le> hidx then
        (let midx = (lidx + hidx) div 2
         in cbind (acl_array_index (dl_array d) midx) (\<lambda>p.
            cbind (dread d p) (\<lambda>pitem.
              if n \<ge> di_begin pitem \<and> n \<le> di_end pitem then Inr (Some (p, midx))
              else if n < di_begin pitem then lookup2_loop d n lidx (midx - 1)
              else if n > di_end pitem then lookup2_loop d n (midx + 1) hidx
              else Inr None)))
      else Inr None)"
  by pat_completeness auto
termination
  by (relation "measure (\<lambda>(d, n, l, h). nat (h - l + 1))") auto

declare lookup2_loop.simps [simp del]

definition acl_dlink_lookup2 :: "dlink \<Rightarrow> 64 word \<Rightarrow> (ptr \<times> int) option cres" where
  "acl_dlink_lookup2 d n = lookup2_loop d n 0 (acl_array_size (dl_array d) - 1)"

definition acl_dlink_lookup :: "dlink \<Rightarrow> 64 word \<Rightarrow> ptr cres" where
  "acl_dlink_lookup d n =
     cbind (acl_dlink_lookup2 d n) (\<lambda>r. Inr (case r of None \<Rightarrow> None | Some (p, _) \<Rightarrow> p))"

definition acl_dlink_lookup_range :: "dlink \<Rightarrow> 64 word \<Rightarrow> 64 word \<Rightarrow> (ptr \<times> int) option cres" where
  "acl_dlink_lookup_range d b e =
     (if e < b then Inr None
      else cbind (acl_dlink_lookup2 d b) (\<lambda>r.
           case r of
             None \<Rightarrow> Inr None
           | Some (p, i) \<Rightarrow> cbind (dread d p) (\<lambda>v. Inr (if di_end v \<ge> e then Some (p, i) else None))))"

fun lookup_item_loop :: "nat \<Rightarrow> int \<Rightarrow> dlink \<Rightarrow> ptr \<Rightarrow> (ptr \<times> int) option cres" where
  "lookup_item_loop 0 i d pitem = Inr None"
| "lookup_item_loop (Suc k) i d pitem =
     cbind (acl_array_index (dl_array d) i) (\<lambda>p.
       if p = pitem then Inr (Some (pitem, i)) else lookup_item_loop k (i + 1) d pitem)"

definition acl_dlink_lookup2_by_item :: "dlink \<Rightarrow> ptr \<Rightarrow> (ptr \<times> int) option cres" where
  "acl_dlink_lookup2_by_item d pitem =
     lookup_item_loop (nat (acl_array_size (dl_array d) - 1)) 0 d pitem"

definition acl_dlink_lookup_by_item :: "dlink \<Rightarrow> ptr \<Rightarrow> ptr cres" where
  "acl_dlink_lookup_by_item d pitem =
     cbind (acl_dlink_lookup2_by_item d pitem) (\<lambda>r. Inr (case r of None \<Rightarrow> None | Some (p, _) \<Rightarrow> p))"

fun larger_loop :: "nat \<Rightarrow> int \<Rightarrow> dlink \<Rightarrow> 64 word \<Rightarrow> (ptr \<times> int) option cres" where
  "larger_loop 0 i d off = Inr None"
| "larger_loop (Suc k) i d off =
     cbind (acl_array_index (dl_array d) i) (\<lambda>p.
     cbind (dread d p) (\<lambda>pitem.
       if di_end pitem \<ge> off then Inr (Some (p, i)) else larger_loop k (i + 1) d off))"

definition acl_dlink_lookup_larger :: "dlink \<Rightarrow> 64 word \<Rightarrow> (ptr \<times> int) option cres" where
  "acl_dlink_lookup_larger d off = larger_loop (nat (acl_array_size (dl_array d))) 0 d off"

fun lower_loop :: "nat \<Rightarrow> dlink \<Rightarrow> 64 word \<Rightarrow> (ptr \<times> int) option cres" where
  "lower_loop 0 d off = Inr None"
| "lower_loop (Suc i) d off =
     cbind (acl_array_index (dl_array d) (int i)) (\<lambda>p.
     cbind (dread d p) (\<lambda>pitem.
       if di_begin pitem \<le> off then Inr (Some (p, int i)) else lower_loop i d off))"

definition acl_dlink_lookup_lower :: "dlink \<Rightarrow> 64 word \<Rightarrow> (ptr \<times> int) option cres" where
  "acl_dlink_lookup_lower d off = lower_loop (nat (acl_array_size (dl_array d))) d off"

definition acl_dlink_index :: "dlink \<Rightarrow> int \<Rightarrow> ptr cres" where
  "acl_dlink_index d idx = acl_array_index (dl_array d) idx"

definition acl_dlink_size :: "dlink \<Rightarrow> int" where
  "acl_dlink_size d = acl_array_size (dl_array d)"

section \<open>Deleting\<close>

definition acl_dlink_delete :: "dlink \<Rightarrow> 64 word \<Rightarrow> (int \<times> dlink) cres" where
  "acl_dlink_delete d n =
     cbind (acl_dlink_lookup2 d n) (\<lambda>r.
       case r of
         None \<Rightarrow> Inr (-1, d)
       | Some (p, idx) \<Rightarrow>
           cbind (acl_array_delete_idx (dl_array d) idx True) (\<lambda>(_, fs, v).
           cbind (free_all (d\<lparr>dl_array := v\<rparr>) fs) (\<lambda>d1. Inr (0, d1))))"

definition acl_dlink_delete_by_item :: "dlink \<Rightarrow> ptr \<Rightarrow> (int \<times> dlink) cres" where
  "acl_dlink_delete_by_item d pitem =
     cbind (acl_array_delete_obj (dl_array d) pitem True) (\<lambda>(ret, fs, v).
     cbind (free_all (d\<lparr>dl_array := v\<rparr>) fs) (\<lambda>d1. Inr (if ret < 0 then -1 else 0, d1)))"

definition acl_dlink_free :: "dlink \<Rightarrow> dlink cres" where
  "acl_dlink_free d = cbind (acl_array_free (dl_array d) True) (\<lambda>fs. free_all d fs)"

text \<open>
  \<open>acl_dlink_delete_range\<close> has two loops. The first looks for the first node that ends at \<open>begin\<close> or later and
  either is done (\<open>Inl\<close>) or gives the index \<open>low\<close> of the first node to remove, which is 0 when there is
  no such node. The second, from \<open>low + 1\<close> on, gives the index \<open>high\<close> of the last node to remove.
\<close>

definition delete_at :: "dlink \<Rightarrow> int \<Rightarrow> dlink cres" where
  "delete_at d i =
     cbind (acl_array_delete_idx (dl_array d) i True) (\<lambda>(_, fs, v). free_all (d\<lparr>dl_array := v\<rparr>) fs)"

fun range_low :: "nat \<Rightarrow> int \<Rightarrow> int \<Rightarrow> dlink \<Rightarrow> 64 word \<Rightarrow> 64 word \<Rightarrow> (dlink + int \<times> dlink) cres" where
  "range_low 0 i sz d b e = Inr (Inr (0, d))"
| "range_low (Suc k) i sz d b e =
     cbind (acl_array_index (dl_array d) i) (\<lambda>p.
     cbind (dread d p) (\<lambda>pitem.
       if b > di_end pitem then range_low k (i + 1) sz d b e
       else if b \<le> di_begin pitem then
         (if e < di_end pitem then
            cbind (dwrite d p (\<lambda>v. v\<lparr>di_begin := e + 1\<rparr>)) (\<lambda>d1. Inr (Inl d1))
          else if e = di_end pitem then cbind (delete_at d i) (\<lambda>d1. Inr (Inl d1))
          else Inr (Inr (i, d)))
       else if e = di_end pitem then
         cbind (dwrite d p (\<lambda>v. v\<lparr>di_end := b - 1\<rparr>)) (\<lambda>d1. Inr (Inl d1))
       else if e < di_end pitem then
         cbind (dwrite d p (\<lambda>v. v\<lparr>di_end := b - 1\<rparr>)) (\<lambda>d1.
         cbind (dlink_add d1 (e + 1) (di_end pitem)) (\<lambda>(_, d2). Inr (Inl d2)))
       else
         cbind (dwrite d p (\<lambda>v. v\<lparr>di_end := b - 1\<rparr>)) (\<lambda>d1.
         if i + 1 \<ge> sz then Inr (Inl d1)
         else
           cbind (acl_array_index (dl_array d1) (i + 1)) (\<lambda>pl.
           cbind (dread d1 pl) (\<lambda>pitem_low.
             if di_begin pitem_low > e then Inr (Inl d1)
             else if e < di_end pitem_low then
               cbind (dwrite d1 pl (\<lambda>v. v\<lparr>di_begin := e + 1\<rparr>)) (\<lambda>d2. Inr (Inl d2))
             else if e = di_end pitem_low then cbind (delete_at d1 (i + 1)) (\<lambda>d2. Inr (Inl d2))
             else Inr (Inr (i + 1, d1)))))))"

declare range_low.simps(2) [simp del]

fun range_high :: "nat \<Rightarrow> int \<Rightarrow> int \<Rightarrow> dlink \<Rightarrow> 64 word \<Rightarrow> (int \<times> dlink) cres" where
  "range_high 0 i sz d e = Inr (sz - 1, d)"
| "range_high (Suc k) i sz d e =
     cbind (acl_array_index (dl_array d) i) (\<lambda>p.
     cbind (dread d p) (\<lambda>pitem.
       if e > di_end pitem then range_high k (i + 1) sz d e
       else if e < di_begin pitem then Inr (i - 1, d)
       else if e = di_begin pitem then
         (if di_begin pitem = di_end pitem then Inr (i, d)
          else cbind (dwrite d p (\<lambda>v. v\<lparr>di_begin := e + 1\<rparr>)) (\<lambda>d1. Inr (i - 1, d1)))
       else if e = di_end pitem then Inr (i, d)
       else cbind (dwrite d p (\<lambda>v. v\<lparr>di_begin := e + 1\<rparr>)) (\<lambda>d1. Inr (i - 1, d1))))"

definition range_rest :: "dlink \<Rightarrow> int \<Rightarrow> int \<Rightarrow> 64 word \<Rightarrow> (int \<times> dlink) cres" where
  "range_rest d low sz e =
     cbind (range_high (nat (sz - (low + 1))) (low + 1) sz d e) (\<lambda>(high, d1).
       if low > high then Inr (0, d1)
       else
         cbind (acl_array_delete_range (dl_array d1) low high True) (\<lambda>(ret, fs, v).
         cbind (free_all (d1\<lparr>dl_array := v\<rparr>) fs) (\<lambda>d2. Inr (ret, d2))))"

definition acl_dlink_delete_range :: "dlink \<Rightarrow> 64 word \<Rightarrow> 64 word \<Rightarrow> (int \<times> dlink) cres" where
  "acl_dlink_delete_range d b e =
     (let sz = acl_array_size (dl_array d)
      in cbind (range_low (nat sz) 0 sz d b e) (\<lambda>r.
         case r of Inl d1 \<Rightarrow> Inr (0, d1) | Inr (low, d1) \<Rightarrow> range_rest d1 low sz e))"

section \<open>Lists of ranges\<close>

text \<open>
  \<open>dl_rep d ns\<close>: the array of \<open>d\<close> holds the addresses of \<open>ns\<close>, in order, and each has its range in
  the store. \<open>ranges ns\<close> says that the ranges are not empty, sorted and without overlaps, and
  \<open>covered ns\<close> is the set of numbers they contain.
\<close>

definition dl_rep :: "dlink \<Rightarrow> (addr \<times> ditem) list \<Rightarrow> bool" where
  "dl_rep d ns \<longleftrightarrow>
     vec_holds (dl_array d) (map (\<lambda>n. Some (fst n)) ns) \<and> distinct (map fst ns) \<and>
     (\<forall>n\<in>set ns. dl_items d (fst n) = Some (snd n)) \<and> (\<forall>a\<in>dom (dl_items d). a < dl_brk d)"

definition ranges :: "(addr \<times> ditem) list \<Rightarrow> bool" where
  "ranges ns \<longleftrightarrow>
     sorted_wrt (\<lambda>m n. di_end (snd m) < di_begin (snd n)) ns \<and>
     (\<forall>n\<in>set ns. di_begin (snd n) \<le> di_end (snd n))"

definition range_of :: "ditem \<Rightarrow> 64 word set" where
  "range_of i = {di_begin i..di_end i}"

definition covered :: "(addr \<times> ditem) list \<Rightarrow> 64 word set" where
  "covered ns = (\<Union>n\<in>set ns. range_of (snd n))"

lemma dl_repD:
  assumes "dl_rep d ns"
  shows "vec_holds (dl_array d) (map (\<lambda>n. Some (fst n)) ns)" "distinct (map fst ns)"
    "\<And>n. n \<in> set ns \<Longrightarrow> dl_items d (fst n) = Some (snd n)" "\<And>a. a \<in> dom (dl_items d) \<Longrightarrow> a < dl_brk d"
  using assms by (auto simp: dl_rep_def)

lemma not_addr: "a \<notin> fst ` set ns \<longleftrightarrow> (\<forall>n\<in>set ns. fst n \<noteq> a)"
  by blast

lemma dl_size [simp]: "dl_rep d ns \<Longrightarrow> acl_array_size (dl_array d) = int (length ns)"
  by (auto simp: acl_array_size_def dest!: dl_repD(1) vec_holdsD)

lemma dl_index: "dl_rep d ns \<Longrightarrow> k < length ns \<Longrightarrow> acl_array_index (dl_array d) (int k) = Inr (Some (fst (ns ! k)))"
  using vec_nth [OF dl_repD(1), of d ns k] dl_size [of d ns]
  by (auto simp: acl_array_index_def acl_array_size_def)

lemma dread_in: "dl_rep d ns \<Longrightarrow> n \<in> set ns \<Longrightarrow> dread d (Some (fst n)) = Inr (snd n)"
  by (simp add: dread_def dl_repD)

lemma dread_nth: "dl_rep d ns \<Longrightarrow> k < length ns \<Longrightarrow> dread d (Some (fst (ns ! k))) = Inr (snd (ns ! k))"
  by (rule dread_in) auto

lemma dwrite_rep:
  assumes "dl_rep d (ns @ n # ms)"
  shows "\<exists>d'. dwrite d (Some (fst n)) u = Inr d' \<and> dl_rep d' (ns @ (fst n, u (snd n)) # ms)"
proof -
  note r = dl_repD [OF assms]
  have "dl_items d (fst n) = Some (snd n)" using r(3) by simp
  moreover have f: "fst n \<notin> fst ` set ns" "fst n \<notin> fst ` set ms" using r(2) by auto
  ultimately show ?thesis
    using assms f [unfolded not_addr] by (auto simp: dwrite_def dl_rep_def ball_Un)
qed

lemma dl_fresh: "dl_rep d ns \<Longrightarrow> dl_brk d \<notin> fst ` set ns"
  unfolding not_addr using dl_repD(3,4) [of d ns] by (metis domI less_irrefl)

lemma alloc_rep:
  assumes "dl_rep d (ns @ ms)" "vec_holds v (map (\<lambda>n. Some (fst n)) (ns @ (dl_brk d, x) # ms))"
    "x = \<lparr>di_begin = b, di_end = e\<rparr>"
  shows "dl_rep (snd (dalloc d b e)\<lparr>dl_array := v\<rparr>) (ns @ (dl_brk d, x) # ms)"
proof -
  have f: "dl_brk d \<notin> fst ` set ns" "dl_brk d \<notin> fst ` set ms" using dl_fresh [OF assms(1)] by auto
  from assms f f [unfolded not_addr] show ?thesis
    by (simp add: dl_rep_def dalloc_def ball_Un less_SucI)
qed

lemma free_all_rep:
  assumes "dl_rep d ns" "distinct (map fst ms)" "fst ` set ms \<inter> fst ` set ns = {}"
    "\<And>m. m \<in> set ms \<Longrightarrow> dl_items d (fst m) = Some (snd m)"
  shows "\<exists>d'. free_all d (map (\<lambda>m. Some (fst m)) ms) = Inr d' \<and> dl_rep d' ns"
  using assms
proof (induction ms arbitrary: d)
  case (Cons m ms)
  let ?d = "d\<lparr>dl_items := (dl_items d)(fst m := None)\<rparr>"
  have "fst m \<notin> fst ` set ns" using Cons.prems(3) by auto
  then have "\<forall>n\<in>set ns. fst n \<noteq> fst m" unfolding not_addr .
  with Cons.prems(1) have "dl_rep ?d ns" by (simp add: dl_rep_def)
  moreover have "dl_items ?d (fst k) = Some (snd k)" if "k \<in> set ms" for k
  proof -
    have "fst k \<noteq> fst m" using Cons.prems(2) that by (metis distinct.simps(2) image_eqI list.simps(9) set_map)
    with Cons.prems(4) [of k] that show ?thesis by simp
  qed
  ultimately have "\<exists>d'. free_all ?d (map (\<lambda>m. Some (fst m)) ms) = Inr d' \<and> dl_rep d' ns"
    using Cons.prems(2,3) by (intro Cons.IH) simp_all
  moreover have "dlink_free_callback d (Some (fst m)) = Inr ?d"
    using Cons.prems(4) [of m] by (simp add: dlink_free_callback_def)
  ultimately show ?case by simp
qed simp

lemma remove_rep:
  assumes "dl_rep d (ns @ ks @ ms)" "vec_holds v (map (\<lambda>n. Some (fst n)) (ns @ ms))"
  shows "\<exists>d'. free_all (d\<lparr>dl_array := v\<rparr>) (map (\<lambda>m. Some (fst m)) ks) = Inr d' \<and> dl_rep d' (ns @ ms)"
proof (rule free_all_rep)
  note r = dl_repD [OF assms(1)]
  show "dl_rep (d\<lparr>dl_array := v\<rparr>) (ns @ ms)" using assms(2) r by (auto simp: dl_rep_def)
  show "distinct (map fst ks)" "fst ` set ks \<inter> fst ` set (ns @ ms) = {}" using r(2) by auto
  show "dl_items (d\<lparr>dl_array := v\<rparr>) (fst m) = Some (snd m)" if "m \<in> set ks" for m using r(3) that by simp
qed

subsection \<open>The calls into the array\<close>

lemma dlink_append_rep:
  assumes "dl_rep d ns"
  shows "\<exists>d'. dlink_append d b e = Inr (Some (dl_brk d), d') \<and>
    dl_rep d' (ns @ [(dl_brk d, \<lparr>di_begin = b, di_end = e\<rparr>)])"
proof -
  obtain v where "acl_array_append (dl_array d) (Some (dl_brk d)) = Inr (int (length ns), v)"
    "vec_holds v (map (\<lambda>n. Some (fst n)) ns @ [Some (dl_brk d)])"
    using acl_array_append_holds [OF dl_repD(1) [OF assms], of "Some (dl_brk d)"] by auto
  with alloc_rep [of d ns "[]" v _ b e] assms show ?thesis
    by (simp add: dlink_append_def dalloc_def Let_def)
qed

lemma dlink_prepend_rep:
  assumes "dl_rep d ns" "ns \<noteq> []"
  shows "\<exists>d'. dlink_prepend d b e = Inr (Some (dl_brk d), d') \<and>
    dl_rep d' ((dl_brk d, \<lparr>di_begin = b, di_end = e\<rparr>) # ns)"
proof -
  obtain v where "acl_array_prepend (dl_array d) (Some (dl_brk d)) = Inr (0, v)"
    "vec_holds v (Some (dl_brk d) # map (\<lambda>n. Some (fst n)) ns)"
    using acl_array_pred_insert_holds [OF dl_repD(1) [OF assms(1)], of 0 "Some (dl_brk d)"] assms(2)
    by (auto simp: acl_array_prepend_def)
  with alloc_rep [of d "[]" ns v _ b e] assms show ?thesis
    by (simp add: dlink_prepend_def dalloc_def Let_def)
qed

lemma dlink_succ_insert_rep:
  assumes "dl_rep d (ns @ ms)" "ns \<noteq> []" "i = int (length ns) - 1"
  shows "\<exists>d'. dlink_succ_insert d i b e = Inr (Some (dl_brk d), d') \<and>
    dl_rep d' (ns @ (dl_brk d, \<lparr>di_begin = b, di_end = e\<rparr>) # ms)"
proof -
  have i: "i = int (length ns - 1)" "Suc (length ns - 1) = length ns"
    using assms(2,3) by (cases ns; simp)+
  obtain v where "acl_array_succ_insert (dl_array d) i (Some (dl_brk d)) = Inr (i + 1, v)"
    "vec_holds v (map (\<lambda>n. Some (fst n)) (ns @ (dl_brk d, \<lparr>di_begin = b, di_end = e\<rparr>) # ms))"
    using acl_array_succ_insert_holds [OF dl_repD(1) [OF assms(1)], of "length ns - 1" "Some (dl_brk d)"] i
    by auto
  with alloc_rep [OF assms(1), of v _ b e] i(1) show ?thesis
    by (simp add: dlink_succ_insert_def dalloc_def Let_def)
qed

lemma filter_Some: "filter (\<lambda>x. x \<noteq> None) (map (\<lambda>n. Some (f n)) ns) = map (\<lambda>n. Some (f n)) ns"
  by (induction ns) auto

lemma dlink_node_merge_rep:
  assumes "dl_rep d (ns @ ks @ ms)" "ms \<noteq> []" "i = int (length ns)" "j = int (length (ns @ ks))"
  shows "\<exists>d'. dlink_node_merge d i j = Inr (0, d') \<and> dl_rep d' (ns @ ms)"
proof (cases "ks = []")
  case True
  with assms show ?thesis by (simp add: dlink_node_merge_def)
next
  case False
  let ?p = "map (\<lambda>n. Some (fst n))"
  have v: "vec_holds (dl_array d) (?p ns @ ?p ks @ ?p ms)" using dl_repD(1) [OF assms(1)] by simp
  obtain w where w: "acl_array_mv_idx (dl_array d) i j True = Inr (0, ?p ks, w)" "vec_holds w (?p (ns @ ms))"
    using acl_array_mv_idx_holds [OF v, of True] False assms(2,3,4) filter_Some [of fst ks] by auto
  have "\<not> i \<ge> j" using False assms(3,4) by auto
  with w remove_rep [OF assms(1) w(2)] show ?thesis by (auto simp: dlink_node_merge_def)
qed

lemma delete_at_rep:
  assumes "dl_rep d (ns @ n # ms)" "i = int (length ns)"
  shows "\<exists>d'. delete_at d i = Inr d' \<and> dl_rep d' (ns @ ms)"
proof -
  let ?p = "map (\<lambda>n. Some (fst n))"
  have v: "vec_holds (dl_array d) (?p ns @ Some (fst n) # ?p ms)" using dl_repD(1) [OF assms(1)] by simp
  obtain w where w: "acl_array_delete_idx (dl_array d) i True = Inr (0, [Some (fst n)], w)"
    "vec_holds w (?p (ns @ ms))"
    using acl_array_delete_idx_holds [OF v, of True] assms(2) by auto
  with remove_rep [of d ns "[n]" ms w] assms(1) show ?thesis by (simp add: delete_at_def)
qed

lemma delete_range_rep:
  assumes "dl_rep d (ns @ ks @ ms)" "ks \<noteq> []" "i = int (length ns)" "j = int (length (ns @ ks)) - 1"
  shows "\<exists>v d'. acl_array_delete_range (dl_array d) i j True = Inr (0, map (\<lambda>n. Some (fst n)) ks, v) \<and>
    free_all (d\<lparr>dl_array := v\<rparr>) (map (\<lambda>n. Some (fst n)) ks) = Inr d' \<and> dl_rep d' (ns @ ms)"
proof -
  let ?p = "map (\<lambda>n. Some (fst n))"
  have v: "vec_holds (dl_array d) (?p ns @ ?p ks @ ?p ms)" using dl_repD(1) [OF assms(1)] by simp
  obtain w where w: "acl_array_delete_range (dl_array d) i j True = Inr (0, ?p ks, w)" "vec_holds w (?p (ns @ ms))"
    using acl_array_delete_range_holds [OF v, of j True] assms(2,3,4) filter_Some [of fst ks] by auto
  with remove_rep [OF assms(1) w(2)] show ?thesis by auto
qed

subsection \<open>The binary searches\<close>

lemma ranges_nth:
  assumes "ranges ns" "i < j" "j < length ns"
  shows "di_begin (snd (ns ! i)) \<le> di_end (snd (ns ! i))" "di_end (snd (ns ! i)) < di_begin (snd (ns ! j))"
  using assms by (auto simp: ranges_def sorted_wrt_iff_nth_less)

lemma ranges_begin_less:
  assumes "ranges ns" "i < j" "j < length ns"
  shows "di_begin (snd (ns ! i)) < di_begin (snd (ns ! j))"
  using ranges_nth [OF assms] by (rule le_less_trans)

lemma scope_loop_pos:
  assumes "dl_rep d ns" "ranges ns" "l \<le> h" "h < length ns" "l = 0 \<or> di_begin (snd (ns ! l)) \<le> n"
    "Suc h = length ns \<or> n < di_begin (snd (ns ! h))"
  shows "\<exists>k<length ns. scope_loop d n (int l) (int h) = Inr (int k) \<and>
    (k = 0 \<or> di_begin (snd (ns ! k)) \<le> n) \<and> (Suc k < length ns \<longrightarrow> n < di_begin (snd (ns ! Suc k)))"
  using assms
proof (induction "h - l" arbitrary: l h rule: less_induct)
  case less
  define m where "m = (l + h) div 2"
  have m: "(int l + int h) div 2 = int m" "int m + 1 = int (Suc m)" by (simp_all add: m_def zdiv_int)
  show ?case
  proof (cases "l = h")
    case True
    then have "m = h" by (simp add: m_def)
    with True less.prems m have s: "scope_loop d n (int l) (int h) =
        Inr (if h = 0 then 0 else if Suc h = length ns then int h else -1)"
      by (subst scope_loop.simps) auto
    have "h = 0 \<or> Suc h = length ns" using less.prems(5,6) True by auto
    moreover have "n < di_begin (snd (ns ! Suc h))" if "Suc h \<noteq> length ns"
      using less.prems(2,4,6) that ranges_begin_less [of ns h "Suc h"] by fastforce
    ultimately show ?thesis using s less.prems(4,5) True by (intro exI [of _ h]) auto
  next
    case False
    then have lh: "l \<le> m" "Suc m \<le> h" "m < length ns" "Suc m < length ns"
      using less.prems(3,4) by (simp_all add: m_def)
    let ?b = "\<lambda>k. di_begin (snd (ns ! k))"
    note acc = dl_index [OF less.prems(1)] dread_nth [OF less.prems(1)]
    have s: "scope_loop d n (int l) (int h) =
        (if n \<ge> ?b m \<and> n < ?b (Suc m) then Inr (int m)
         else if n \<ge> ?b (Suc m) then scope_loop d n (int (Suc m)) (int h)
         else scope_loop d n (int l) (int m))"
      using less.prems(3) lh acc [of m] acc [of "Suc m"]
      by (subst scope_loop.simps) (auto simp: Let_def m simp del: of_nat_Suc)
    consider "n \<ge> ?b m" "n < ?b (Suc m)" | "n \<ge> ?b (Suc m)" | "n < ?b m" "n < ?b (Suc m)"
      using ranges_begin_less [OF less.prems(2), of m "Suc m"] lh by fastforce
    then show ?thesis
    proof cases
      case 1
      with s lh show ?thesis by auto
    next
      case 2
      have "\<exists>k<length ns. scope_loop d n (int (Suc m)) (int h) = Inr (int k) \<and>
          (k = 0 \<or> ?b k \<le> n) \<and> (Suc k < length ns \<longrightarrow> n < ?b (Suc k))"
        by (rule less.hyps) (use less.prems lh 2 in auto)
      moreover have "scope_loop d n (int l) (int h) = scope_loop d n (int (Suc m)) (int h)"
        using s 2 leD [OF 2] by simp
      ultimately show ?thesis by simp
    next
      case 3
      have "\<exists>k<length ns. scope_loop d n (int l) (int m) = Inr (int k) \<and>
          (k = 0 \<or> ?b k \<le> n) \<and> (Suc k < length ns \<longrightarrow> n < ?b (Suc k))"
        by (rule less.hyps) (use less.prems lh 3 in auto)
      moreover have "\<not> ?b m \<le> n" "\<not> ?b (Suc m) \<le> n" using 3 by auto
      ultimately show ?thesis using s by simp
    qed
  qed
qed

lemma scope_pos_at:
  assumes "dl_rep d (as @ bs)" "ranges (as @ bs)" "as @ bs \<noteq> []"
    "\<And>m. m \<in> set as \<Longrightarrow> di_begin (snd m) \<le> n" "\<And>m. m \<in> set bs \<Longrightarrow> n < di_begin (snd m)"
  shows "scope_pos d n = Inr (int (length as - 1))"
proof -
  let ?ns = "as @ bs"
  have len: "0 < length ?ns" using assms(3) by simp
  then have sz: "acl_array_size (dl_array d) - 1 = int (length ?ns - 1)"
    unfolding dl_size [OF assms(1)] by linarith
  obtain k where k: "k < length ?ns" "scope_pos d n = Inr (int k)" "k = 0 \<or> di_begin (snd (?ns ! k)) \<le> n"
    "Suc k < length ?ns \<Longrightarrow> n < di_begin (snd (?ns ! Suc k))"
    using scope_loop_pos [OF assms(1,2), of 0 "length ?ns - 1" n] len
    unfolding scope_pos_def sz by auto
  have "k = length as - 1"
  proof (rule ccontr)
    assume ne: "k \<noteq> length as - 1"
    show False
    proof (cases "k < length as")
      case True
      then have "?ns ! Suc k \<in> set as" "Suc k < length ?ns" using ne by (auto simp: nth_append)
      with assms(4) k(4) show False by fastforce
    next
      case False
      then have "?ns ! k \<in> set bs" using k(1) by (auto simp: nth_append)
      with assms(5) [of "?ns ! k"] k(3) False ne show False by fastforce
    qed
  qed
  with k(2) show ?thesis by simp
qed

section \<open>Adding a range\<close>

text \<open>
  A list of ranges seen from a range to add: those before it, those that meet it and those after
  it. \<open>merged\<close> is what the code makes of the range and those that meet it.
\<close>

definition splits :: "64 word \<Rightarrow> 64 word \<Rightarrow> (addr \<times> ditem) list \<Rightarrow> (addr \<times> ditem) list \<Rightarrow> (addr \<times> ditem) list \<Rightarrow> bool" where
  "splits b e ls ms rs \<longleftrightarrow>
     (\<forall>n\<in>set ls. di_end (snd n) < b) \<and> (\<forall>n\<in>set ms. b \<le> di_end (snd n) \<and> di_begin (snd n) \<le> e) \<and>
     (\<forall>n\<in>set rs. e < di_begin (snd n))"

definition merged :: "64 word \<Rightarrow> 64 word \<Rightarrow> (addr \<times> ditem) list \<Rightarrow> ditem" where
  "merged b e ms =
     (if ms = [] then \<lparr>di_begin = b, di_end = e\<rparr>
      else \<lparr>di_begin = min b (di_begin (snd (hd ms))), di_end = max e (di_end (snd (last ms)))\<rparr>)"

lemma ranges_append:
  "ranges (ns @ ms) \<longleftrightarrow> ranges ns \<and> ranges ms \<and>
     (\<forall>n\<in>set ns. \<forall>m\<in>set ms. di_end (snd n) < di_begin (snd m))"
  by (auto simp: ranges_def sorted_wrt_append)

lemma ranges_Cons:
  "ranges (n # ns) \<longleftrightarrow> di_begin (snd n) \<le> di_end (snd n) \<and> ranges ns \<and>
     (\<forall>m\<in>set ns. di_end (snd n) < di_begin (snd m))"
  by (auto simp: ranges_def)

lemma ranges_Nil [simp]: "ranges []"
  by (simp add: ranges_def)

lemma splits_exist:
  assumes "ranges ns"
  obtains ls ms rs where "ns = ls @ ms @ rs" "splits b e ls ms rs"
proof -
  have "\<exists>ls ms rs. ns = ls @ ms @ rs \<and> splits b e ls ms rs"
    using assms
  proof (induction ns)
    case Nil
    then show ?case by (auto simp: splits_def)
  next
    case (Cons n ns)
    then obtain ls ms rs where s: "ns = ls @ ms @ rs" "splits b e ls ms rs" by (auto simp: ranges_Cons)
    consider "di_end (snd n) < b" | "b \<le> di_end (snd n)" "di_begin (snd n) \<le> e"
      | "b \<le> di_end (snd n)" "e < di_begin (snd n)" by fastforce
    then show ?case
    proof cases
      case 1
      with s show ?thesis by (intro exI [of _ "n # ls"] exI [of _ ms] exI [of _ rs]) (auto simp: splits_def)
    next
      case 2
      have "ls = []"
      proof (cases ls)
        case (Cons l ls')
        then have "di_end (snd n) < di_begin (snd l)" "di_begin (snd l) \<le> di_end (snd l)"
          using \<open>ranges (n # ns)\<close> s(1) by (auto simp: ranges_Cons)
        then show ?thesis using 2 s(2) Cons by (fastforce simp: splits_def)
      qed simp
      with s 2 show ?thesis
        by (intro exI [of _ "[]"] exI [of _ "n # ms"] exI [of _ rs]) (auto simp: splits_def)
    next
      case 3
      have "e < di_begin (snd m)" if "m \<in> set ns" for m
        using 3 \<open>ranges (n # ns)\<close> that by (auto simp: ranges_Cons dest!: bspec [of _ _ m])
      with 3 show ?thesis
        by (intro exI [of _ "[]"] exI [of _ "[]"] exI [of _ "n # ns"]) (auto simp: splits_def)
    qed
  qed
  then show ?thesis using that by blast
qed

text \<open>Where the two ends of the range belong.\<close>

lemma end_pos_split:
  assumes "dl_rep d (ls @ ms @ rs)" "ranges (ls @ ms @ rs)" "ls @ ms @ rs \<noteq> []" "splits b e ls ms rs" "b \<le> e"
  shows "scope_pos d e = Inr (int (length (ls @ ms) - 1))"
proof (rule scope_pos_at [of d "ls @ ms" rs])
  show "di_begin (snd m) \<le> e" if "m \<in> set (ls @ ms)" for m
  proof (cases "m \<in> set ls")
    case True
    then have "di_begin (snd m) \<le> di_end (snd m)" "di_end (snd m) < b"
      using assms(2,4) by (auto simp: ranges_def splits_def)
    then show ?thesis using assms(5) by simp
  qed (use that assms(4) in \<open>auto simp: splits_def\<close>)
qed (use assms in \<open>auto simp: splits_def\<close>)

lemma begin_pos_left:
  assumes "dl_rep d (ls @ m # ms @ rs)" "ranges (ls @ m # ms @ rs)" "splits b e ls (m # ms) rs" "b \<le> e"
    "di_begin (snd m) \<le> b"
  shows "scope_pos d b = Inr (int (length ls))"
proof -
  have "scope_pos d b = Inr (int (length (ls @ [m]) - 1))"
  proof (rule scope_pos_at [of d "ls @ [m]" "ms @ rs"])
    show "di_begin (snd k) \<le> b" if "k \<in> set (ls @ [m])" for k
    proof (cases "k \<in> set ls")
      case True
      then have "di_begin (snd k) \<le> di_end (snd k)" "di_end (snd k) < b"
        using assms(2,3) by (auto simp: ranges_def splits_def)
      then show ?thesis by simp
    qed (use that assms(5) in auto)
    show "b < di_begin (snd k)" if "k \<in> set (ms @ rs)" for k
    proof -
      have "b \<le> di_end (snd m)" "di_end (snd m) < di_begin (snd k)"
        using assms(2,3) that by (auto simp: ranges_append ranges_Cons splits_def)
      then show ?thesis by simp
    qed
  qed (use assms in auto)
  then show ?thesis by simp
qed

lemma begin_pos_before:
  assumes "dl_rep d (ls @ ms)" "ranges (ls @ ms)" "ls @ ms \<noteq> []"
    "\<And>n. n \<in> set ls \<Longrightarrow> di_end (snd n) < b" "\<And>n. n \<in> set ms \<Longrightarrow> b < di_begin (snd n)"
  shows "scope_pos d b = Inr (int (length ls - 1))"
proof (rule scope_pos_at [OF assms(1-3)])
  show "di_begin (snd m) \<le> b" if "m \<in> set ls" for m
  proof -
    have "di_begin (snd m) \<le> di_end (snd m)" using assms(2) that by (auto simp: ranges_def)
    with assms(4) [OF that] show ?thesis by simp
  qed
qed (use assms(5) in auto)

text \<open>The branches of \<open>dlink_add\<close> for a list that is not empty.\<close>

lemma dlink_add_pos:
  assumes "dl_rep d ns" "b \<le> e" "scope_pos d b = Inr (int i)" "scope_pos d e = Inr (int j)" "i \<le> j" "j < length ns"
  shows "dlink_add d b e =
    (let pl = Some (fst (ns ! i)); pr = Some (fst (ns ! j)); l = snd (ns ! i)
     in if i = j then
          (if e < di_begin l then dlink_prepend d b e
           else if b > di_end l then dlink_succ_insert d (int i) b e
           else
             cbind (if b < di_begin l then dwrite d pl (\<lambda>i. i\<lparr>di_begin := b\<rparr>) else Inr d) (\<lambda>d1.
             cbind (dread d1 pl) (\<lambda>l1.
             cbind (if e > di_end l1 then dwrite d1 pl (\<lambda>i. i\<lparr>di_end := e\<rparr>) else Inr d1) (\<lambda>d2.
               Inr (pl, d2)))))
        else
          cbind (if b < di_begin l then dwrite d pl (\<lambda>i. i\<lparr>di_begin := b\<rparr>) else Inr d) (\<lambda>d1.
          cbind (dread d1 pl) (\<lambda>l1.
          cbind (dread d1 pr) (\<lambda>r1.
          cbind (if e > di_end r1 then dwrite d1 pr (\<lambda>i. i\<lparr>di_end := e\<rparr>) else Inr d1) (\<lambda>d2.
          if b \<le> di_end l1 then
            cbind (dwrite d2 pr (\<lambda>i. i\<lparr>di_begin := di_begin l1\<rparr>)) (\<lambda>d3.
            cbind (dlink_node_merge d3 (int i) (int j)) (\<lambda>(ret, d4). Inr (if ret < 0 then None else pr, d4)))
          else
            cbind (dwrite d2 pr (\<lambda>i. i\<lparr>di_begin := b\<rparr>)) (\<lambda>d3.
            cbind (dlink_node_merge d3 (int i + 1) (int j)) (\<lambda>(ret, d4). Inr (if ret < 0 then None else pr, d4))))))))"
proof -
  have "acl_array_index (dl_array d) (int i) = Inr (Some (fst (ns ! i)))"
    "acl_array_index (dl_array d) (int j) = Inr (Some (fst (ns ! j)))"
    "dread d (Some (fst (ns ! i))) = Inr (snd (ns ! i))"
    using assms(5,6) dl_index [OF assms(1)] dread_nth [OF assms(1)] by auto
  moreover have "\<not> b > e" using assms(2) by simp
  moreover have "\<not> (int i < 0 \<or> int i \<ge> int (length ns))" "\<not> (int j < 0 \<or> int j \<ge> int (length ns))"
    "\<not> int j < int i" "int (length ns) \<noteq> 0" using assms(5,6) by auto
  ultimately show ?thesis
    unfolding dlink_add_def begin_pos_def end_pos_def assms(3,4) dl_size [OF assms(1)]
    by (simp only: cbind_simps Let_def if_False of_nat_eq_iff)
qed

text \<open>The range lies between two others, or before the first or after the last.\<close>

lemma dlink_add_new:
  assumes "dl_rep d (ls @ rs)" "ranges (ls @ rs)" "ls @ rs \<noteq> []" "splits b e ls [] rs" "b \<le> e"
  shows "\<exists>a d'. dlink_add d b e = Inr (Some a, d') \<and> dl_rep d' (ls @ (a, merged b e []) # rs)"
proof -
  have e: "scope_pos d e = Inr (int (length ls - 1))"
    using end_pos_split [of d ls "[]" rs b e] assms by simp
  have "b < di_begin (snd n)" if "n \<in> set rs" for n
    using assms(4,5) that by (auto simp: splits_def dest!: bspec [of _ _ n])
  then have b: "scope_pos d b = Inr (int (length ls - 1))"
    using begin_pos_before [OF assms(1-3)] assms(4) by (auto simp: splits_def)
  have k: "length ls - 1 < length (ls @ rs)" using assms(3) by (cases ls) auto
  show ?thesis
  proof (cases ls rule: rev_cases)
    case Nil
    then obtain r rs' where rs: "rs = r # rs'" using assms(3) by (cases rs) auto
    then have "e < di_begin (snd r)" using assms(4) by (simp add: splits_def)
    with Nil rs dlink_prepend_rep [OF assms(1), of b e] assms(3) show ?thesis
      unfolding dlink_add_pos [OF assms(1,5) b e order_refl k] merged_def by auto
  next
    case (snoc ls' l)
    have "di_begin (snd l) \<le> di_end (snd l)" "di_end (snd l) < b"
      using assms(2,4) snoc by (auto simp: ranges_def splits_def)
    then have "\<not> e < di_begin (snd l)" "b > di_end (snd l)" using assms(5) by auto
    moreover have "(ls @ rs) ! (length ls - 1) = l" using snoc by simp
    moreover have "int (length ls - 1) = int (length ls) - 1" using snoc by simp
    ultimately show ?thesis
      using dlink_succ_insert_rep [OF assms(1), of "int (length ls - 1)" b e] snoc
      unfolding dlink_add_pos [OF assms(1,5) b e order_refl k] merged_def by (auto simp: Let_def)
  qed
qed

text \<open>The range meets one other: that one grows.\<close>

lemma dlink_add_grow:
  assumes "dl_rep d (ls @ m # rs)" "b \<le> e" "scope_pos d b = Inr (int (length ls))" "scope_pos d e = Inr (int (length ls))"
    "b \<le> di_end (snd m)" "di_begin (snd m) \<le> e"
  shows "\<exists>d'. dlink_add d b e = Inr (Some (fst m), d') \<and> dl_rep d' (ls @ (fst m, merged b e [m]) # rs)"
proof -
  define m1 where "m1 = (fst m, if b < di_begin (snd m) then (snd m)\<lparr>di_begin := b\<rparr> else snd m)"
  obtain d1 where d1: "(if b < di_begin (snd m) then dwrite d (Some (fst m)) (\<lambda>i. i\<lparr>di_begin := b\<rparr>) else Inr d) = Inr d1"
    "dl_rep d1 (ls @ m1 # rs)"
    using dwrite_rep [OF assms(1), of "\<lambda>i. i\<lparr>di_begin := b\<rparr>"] assms(1)
    by (cases "b < di_begin (snd m)") (auto simp: m1_def)
  have r: "dread d1 (Some (fst m)) = Inr (snd m1)" using dread_in [OF d1(2), of m1] by (simp add: m1_def)
  obtain d2 where d2: "(if e > di_end (snd m1) then dwrite d1 (Some (fst m)) (\<lambda>i. i\<lparr>di_end := e\<rparr>) else Inr d1) = Inr d2"
    "dl_rep d2 (ls @ (fst m, if e > di_end (snd m1) then (snd m1)\<lparr>di_end := e\<rparr> else snd m1) # rs)"
    using dwrite_rep [OF d1(2), of "\<lambda>i. i\<lparr>di_end := e\<rparr>"] d1(2)
    by (cases "e > di_end (snd m1)") (auto simp: m1_def)
  have "(if e > di_end (snd m1) then (snd m1)\<lparr>di_end := e\<rparr> else snd m1) = merged b e [m]"
    by (cases "snd m") (auto simp: m1_def merged_def min_def max_def)
  moreover have "\<not> e < di_begin (snd m)" "\<not> b > di_end (snd m)" using assms(5,6) by auto
  ultimately show ?thesis
    using d1 r d2
    by (subst dlink_add_pos [OF assms(1,2,3,4)]) (auto simp: Let_def)
qed

text \<open>The range meets several others: they are merged into the last of them.\<close>

lemma write_max_end:
  assumes "dl_rep d (ns @ r # rs)"
  shows "\<exists>d'. (if e > di_end (snd r) then dwrite d (Some (fst r)) (\<lambda>i. i\<lparr>di_end := e\<rparr>) else Inr d) = Inr d' \<and>
    dl_rep d' (ns @ (fst r, (snd r)\<lparr>di_end := max e (di_end (snd r))\<rparr>) # rs)"
proof (cases "e > di_end (snd r)")
  case True
  then have "max e (di_end (snd r)) = e" by (simp add: max_absorb1)
  with True dwrite_rep [OF assms, of "\<lambda>i. i\<lparr>di_end := e\<rparr>"] show ?thesis by simp
next
  case False
  then have "(snd r)\<lparr>di_end := max e (di_end (snd r))\<rparr> = snd r" by (cases "snd r") (auto simp: max_def)
  with assms False show ?thesis by simp
qed

lemma dlink_add_merge:
  assumes "dl_rep d (ls @ m # ks @ r # rs)" "b \<le> e" "scope_pos d b = Inr (int (length ls))"
    "scope_pos d e = Inr (int (length (ls @ m # ks)))" "b \<le> di_end (snd m)"
  shows "\<exists>d'. dlink_add d b e = Inr (Some (fst r), d') \<and>
    dl_rep d' (ls @ (fst r, merged b e (m # ks @ [r])) # rs)"
proof -
  define m1 where "m1 = (fst m, if b < di_begin (snd m) then (snd m)\<lparr>di_begin := b\<rparr> else snd m)"
  have m1: "fst m1 = fst m" "di_begin (snd m1) = min b (di_begin (snd m))" "di_end (snd m1) = di_end (snd m)"
    by (auto simp: m1_def min_def)
  obtain d1 where d1: "(if b < di_begin (snd m) then dwrite d (Some (fst m)) (\<lambda>i. i\<lparr>di_begin := b\<rparr>) else Inr d) = Inr d1"
    "dl_rep d1 (ls @ m1 # ks @ r # rs)"
    using dwrite_rep [OF assms(1), of "\<lambda>i. i\<lparr>di_begin := b\<rparr>"] assms(1)
    by (cases "b < di_begin (snd m)") (auto simp: m1_def)
  have r: "dread d1 (Some (fst m)) = Inr (snd m1)" "dread d1 (Some (fst r)) = Inr (snd r)"
    using dread_in [OF d1(2), of m1] dread_in [OF d1(2), of r] m1 by auto
  let ?r2 = "(fst r, (snd r)\<lparr>di_end := max e (di_end (snd r))\<rparr>)"
  obtain d2 where d2: "(if e > di_end (snd r) then dwrite d1 (Some (fst r)) (\<lambda>i. i\<lparr>di_end := e\<rparr>) else Inr d1) = Inr d2"
    "dl_rep d2 ((ls @ m1 # ks) @ ?r2 # rs)"
    using write_max_end [of d1 "ls @ m1 # ks" r rs e] d1(2) by auto
  let ?r3 = "(fst r, merged b e (m # ks @ [r]))"
  have mg: "merged b e (m # ks @ [r]) = (snd ?r2)\<lparr>di_begin := di_begin (snd m1)\<rparr>"
    by (cases "snd r") (simp add: merged_def m1)
  obtain d3 where d3: "dwrite d2 (Some (fst r)) (\<lambda>i. i\<lparr>di_begin := di_begin (snd m1)\<rparr>) = Inr d3"
    "dl_rep d3 ((ls @ m1 # ks) @ ?r3 # rs)"
    using dwrite_rep [OF d2(2), of "\<lambda>i. i\<lparr>di_begin := di_begin (snd m1)\<rparr>"] mg by auto
  obtain d4 where d4: "dlink_node_merge d3 (int (length ls)) (int (length (ls @ m # ks))) = Inr (0, d4)"
    "dl_rep d4 (ls @ ?r3 # rs)"
    using dlink_node_merge_rep [of d3 ls "m1 # ks" "?r3 # rs"] d3(2) by auto
  have n: "(ls @ m # ks @ r # rs) ! length ls = m" "(ls @ m # ks @ r # rs) ! length (ls @ m # ks) = r"
    using nth_append_length [of "ls @ m # ks" r rs] by auto
  have k: "length ls \<le> length (ls @ m # ks)" "length (ls @ m # ks) < length (ls @ m # ks @ r # rs)"
    "length ls \<noteq> length (ls @ m # ks)" by simp_all
  have "dlink_add d b e = Inr (Some (fst r), d4)"
    using d1(1) r d2(1) d3(1) d4(1) assms(5) m1(3)
    unfolding dlink_add_pos [OF assms(1,2,3,4) k(1,2)] if_not_P [OF k(3)] Let_def n by simp
  with d4(2) show ?thesis by blast
qed

lemma dlink_add_merge_after:
  assumes "dl_rep d (ls @ l # ks @ r # rs)" "b \<le> e" "scope_pos d b = Inr (int (length ls))"
    "scope_pos d e = Inr (int (length (ls @ l # ks)))" "di_begin (snd l) \<le> b" "di_end (snd l) < b"
  shows "\<exists>d'. dlink_add d b e = Inr (Some (fst r), d') \<and>
    dl_rep d' (ls @ l # (fst r, \<lparr>di_begin = b, di_end = max e (di_end (snd r))\<rparr>) # rs)"
proof -
  have r: "dread d (Some (fst l)) = Inr (snd l)" "dread d (Some (fst r)) = Inr (snd r)"
    using dread_in [OF assms(1), of l] dread_in [OF assms(1), of r] by auto
  let ?r2 = "(fst r, (snd r)\<lparr>di_end := max e (di_end (snd r))\<rparr>)"
  obtain d2 where d2: "(if e > di_end (snd r) then dwrite d (Some (fst r)) (\<lambda>i. i\<lparr>di_end := e\<rparr>) else Inr d) = Inr d2"
    "dl_rep d2 ((ls @ l # ks) @ ?r2 # rs)"
    using write_max_end [of d "ls @ l # ks" r rs e] assms(1) by auto
  let ?r3 = "(fst r, \<lparr>di_begin = b, di_end = max e (di_end (snd r))\<rparr>)"
  obtain d3 where d3: "dwrite d2 (Some (fst r)) (\<lambda>i. i\<lparr>di_begin := b\<rparr>) = Inr d3"
    "dl_rep d3 ((ls @ l # ks) @ ?r3 # rs)"
    using dwrite_rep [OF d2(2), of "\<lambda>i. i\<lparr>di_begin := b\<rparr>"] by (cases "snd r") auto
  obtain d4 where d4: "dlink_node_merge d3 (int (length ls) + 1) (int (length (ls @ l # ks))) = Inr (0, d4)"
    "dl_rep d4 (ls @ l # ?r3 # rs)"
    using dlink_node_merge_rep [of d3 "ls @ [l]" ks "?r3 # rs" "int (length ls) + 1" "int (length (ls @ l # ks))"]
      d3(2) by auto
  have n: "(ls @ l # ks @ r # rs) ! length ls = l" "(ls @ l # ks @ r # rs) ! length (ls @ l # ks) = r"
    using nth_append_length [of "ls @ l # ks" r rs] by auto
  have k: "length ls \<le> length (ls @ l # ks)" "length (ls @ l # ks) < length (ls @ l # ks @ r # rs)"
    "length ls \<noteq> length (ls @ l # ks)" by simp_all
  have c: "\<not> b < di_begin (snd l)" "\<not> b \<le> di_end (snd l)" using assms(5,6) by auto
  have "dlink_add d b e = Inr (Some (fst r), d4)"
    using r d2(1) d3(1) d4(1) c
    unfolding dlink_add_pos [OF assms(1,2,3,4) k(1,2)] if_not_P [OF k(3)] Let_def n by simp
  with d4(2) show ?thesis by blast
qed

text \<open>Together: the ranges that meet the new one are replaced by what they merge to.\<close>

lemma dlink_add_rep:
  assumes "dl_rep d (ls @ ms @ rs)" "ranges (ls @ ms @ rs)" "ls @ ms @ rs \<noteq> []" "splits b e ls ms rs" "b \<le> e"
  shows "\<exists>a d'. dlink_add d b e = Inr (Some a, d') \<and> dl_rep d' (ls @ (a, merged b e ms) # rs)"
proof (cases ms)
  case Nil
  with dlink_add_new [of d ls rs b e] assms show ?thesis by simp
next
  case (Cons m ns)
  have e: "scope_pos d e = Inr (int (length (ls @ ms) - 1))" by (rule end_pos_split [OF assms])
  have m: "b \<le> di_end (snd m)" "di_begin (snd m) \<le> e" using assms(4) Cons by (auto simp: splits_def)
  have after: "b < di_begin (snd k)" if "k \<in> set (ns @ rs)" for k
  proof -
    have "di_end (snd m) < di_begin (snd k)"
      using assms(2) Cons that by (auto simp: ranges_append ranges_Cons)
    with m(1) show ?thesis by simp
  qed
  have grow: ?thesis if "scope_pos d b = Inr (int (length ls))"
  proof (cases ns rule: rev_cases)
    case Nil
    with dlink_add_grow [of d ls m rs b e] assms(1,5) Cons that e m show ?thesis by auto
  next
    case (snoc ks r)
    with dlink_add_merge [of d ls m ks r rs b e] assms(1,5) Cons that e m show ?thesis by auto
  qed
  show ?thesis
  proof (cases "di_begin (snd m) \<le> b")
    case True
    with begin_pos_left [of d ls m ns rs b e] assms Cons grow show ?thesis by simp
  next
    case False
    have b: "scope_pos d b = Inr (int (length ls - 1))"
    proof (rule begin_pos_before [of d ls "ms @ rs"])
      show "b < di_begin (snd n)" if "n \<in> set (ms @ rs)" for n
        using after [of n] that False Cons by auto
    qed (use assms in \<open>auto simp: splits_def\<close>)
    show ?thesis
    proof (cases ls rule: rev_cases)
      case Nil
      with b grow show ?thesis by simp
    next
      case (snoc ls' l)
      have l: "di_begin (snd l) \<le> di_end (snd l)" "di_end (snd l) < b"
        using assms(2,4) snoc by (auto simp: ranges_def splits_def)
      then have l': "di_begin (snd l) \<le> b" by simp
      obtain ks r where ks: "m # ns = ks @ [r]" by (cases "m # ns" rule: rev_cases) auto
      have "merged b e ms = \<lparr>di_begin = b, di_end = max e (di_end (snd r))\<rparr>"
      proof -
        have "last ms = r" using Cons ks by simp
        moreover have "min b (di_begin (snd m)) = b" using False by (simp add: min_absorb1)
        ultimately show ?thesis using Cons by (simp add: merged_def)
      qed
      moreover have "\<exists>d'. dlink_add d b e = Inr (Some (fst r), d') \<and>
          dl_rep d' (ls' @ l # (fst r, \<lparr>di_begin = b, di_end = max e (di_end (snd r))\<rparr>) # rs)"
        by (rule dlink_add_merge_after) (use assms(1,5) b e l l' snoc Cons ks in auto)
      ultimately show ?thesis using snoc by auto
    qed
  qed
qed

subsection \<open>The set that is covered\<close>

lemma covered_simps [simp]:
  "covered [] = {}" "covered (n # ns) = range_of (snd n) \<union> covered ns"
  "covered (ns @ ms) = covered ns \<union> covered ms"
  by (auto simp: covered_def)

lemma ranges_hd_last:
  assumes "ranges ms" "n \<in> set ms"
  shows "di_begin (snd (hd ms)) \<le> di_begin (snd n)" "di_end (snd n) \<le> di_end (snd (last ms))"
proof -
  obtain k where k: "k < length ms" "n = ms ! k" using assms(2) by (metis in_set_conv_nth)
  then have ne: "ms \<noteq> []" by auto
  show "di_begin (snd (hd ms)) \<le> di_begin (snd n)"
    using k ne ranges_begin_less [OF assms(1), of 0 k] by (cases "k = 0") (auto simp: hd_conv_nth)
  show "di_end (snd n) \<le> di_end (snd (last ms))"
  proof (cases "k = length ms - 1")
    case True
    with k ne show ?thesis by (simp add: last_conv_nth)
  next
    case False
    then have "di_end (snd n) < di_begin (snd (last ms))"
      using k ne ranges_nth(2) [OF assms(1), of k "length ms - 1"] by (simp add: last_conv_nth)
    moreover have "di_begin (snd (last ms)) \<le> di_end (snd (last ms))"
      using assms(1) ne by (simp add: ranges_def)
    ultimately show ?thesis by simp
  qed
qed

lemma merged_covers:
  assumes "ranges ms" "splits b e ls ms rs" "b \<le> e"
  shows "range_of (merged b e ms) = {b..e} \<union> covered ms"
proof (cases "ms = []")
  case True
  then show ?thesis by (simp add: merged_def range_of_def)
next
  case False
  let ?h = "snd (hd ms)" and ?l = "snd (last ms)"
  have h: "b \<le> di_end ?h" "di_begin ?l \<le> e" "range_of ?h \<subseteq> covered ms" "range_of ?l \<subseteq> covered ms"
    using assms(2) False by (auto simp: splits_def covered_def intro: hd_in_set last_in_set)
  have left: "x \<in> {b..e} \<union> covered ms" if x: "min b (di_begin ?h) \<le> x" "x \<le> max e (di_end ?l)" for x
  proof -
    consider "x < b" | "e < x" | "b \<le> x" "x \<le> e" by fastforce
    then show ?thesis
    proof cases
      case 1
      with x(1) h(1) have "x \<in> range_of ?h" by (auto simp: range_of_def min_def split: if_splits)
      with h(3) show ?thesis by blast
    next
      case 2
      with x(2) h(2) have "x \<in> range_of ?l" by (auto simp: range_of_def max_def split: if_splits)
      with h(4) show ?thesis by blast
    qed auto
  qed
  have right: "min b (di_begin ?h) \<le> x \<and> x \<le> max e (di_end ?l)" if "x \<in> covered ms" for x
  proof -
    from that obtain n where n: "n \<in> set ms" "di_begin (snd n) \<le> x" "x \<le> di_end (snd n)"
      by (auto simp: covered_def range_of_def)
    from ranges_hd_last [OF assms(1) n(1)] n(2,3) show ?thesis by (meson min.coboundedI2 max.coboundedI2 order_trans)
  qed
  have "range_of (merged b e ms) = {min b (di_begin ?h)..max e (di_end ?l)}"
    using False by (simp add: merged_def range_of_def)
  moreover have "{b..e} \<subseteq> {min b (di_begin ?h)..max e (di_end ?l)}"
    by (auto simp: min_le_iff_disj le_max_iff_disj)
  ultimately show ?thesis using left right by (metis (no_types, lifting) Un_least atLeastAtMost_iff subsetI subset_antisym)
qed

lemma merged_ranges:
  assumes "ranges (ls @ ms @ rs)" "splits b e ls ms rs" "b \<le> e"
  shows "ranges (ls @ (a, merged b e ms) # rs)"
proof (cases "ms = []")
  case True
  with assms show ?thesis by (auto simp: merged_def ranges_append ranges_Cons splits_def)
next
  case False
  have h: "hd ms \<in> set ms" "last ms \<in> set ms" using False by auto
  have "di_end (snd n) < min b (di_begin (snd (hd ms)))" if "n \<in> set ls" for n
    using assms(1,2) h(1) that by (auto simp: ranges_append splits_def)
  moreover have "max e (di_end (snd (last ms))) < di_begin (snd n)" if "n \<in> set rs" for n
    using assms(1,2) h(2) that by (auto simp: ranges_append splits_def)
  moreover have "min b x \<le> max e y" for x y using assms(3) by (simp add: min_le_iff_disj le_max_iff_disj)
  moreover have "di_end (snd n) < di_begin (snd m)" if "n \<in> set ls" "m \<in> set rs" for n m
    using assms(1) that by (auto simp: ranges_append)
  ultimately show ?thesis
    using assms(1) False by (auto simp: merged_def ranges_append ranges_Cons)
qed

text \<open>\<open>dlink_set d S\<close>: the list is well formed and covers \<open>S\<close>.\<close>

definition dlink_set :: "dlink \<Rightarrow> 64 word set \<Rightarrow> bool" where
  "dlink_set d S \<longleftrightarrow> (\<exists>ns. dl_rep d ns \<and> ranges ns \<and> covered ns = S)"

lemma dlink_add_set:
  assumes "dl_rep d ns" "ranges ns" "ns \<noteq> []" "b \<le> e"
  shows "\<exists>a d'. dlink_add d b e = Inr (Some a, d') \<and> dlink_set d' (covered ns \<union> {b..e})"
proof -
  obtain ls ms rs where s: "ns = ls @ ms @ rs" "splits b e ls ms rs" using splits_exist [OF assms(2)] .
  obtain a d' where "dlink_add d b e = Inr (Some a, d')" "dl_rep d' (ls @ (a, merged b e ms) # rs)"
    using dlink_add_rep [of d ls ms rs b e] assms s by auto
  moreover have "ranges (ls @ (a, merged b e ms) # rs)"
    by (rule merged_ranges) (use assms s in auto)
  moreover have "covered (ls @ (a, merged b e ms) # rs) = covered ns \<union> {b..e}"
    using merged_covers [of ms b e ls rs] assms(2,4) s by (auto simp: ranges_append)
  ultimately show ?thesis unfolding dlink_set_def by blast
qed

lemma acl_dlink_insert_set:
  assumes "dlink_set d S"
  shows "\<exists>a d'. acl_dlink_insert d b e = Inr (Some a, d') \<and> dlink_set d' (S \<union> {min b e..max b e})"
proof -
  obtain ns where ns: "dl_rep d ns" "ranges ns" "covered ns = S" using assms by (auto simp: dlink_set_def)
  have o: "(if b > e then (e, b) else (b, e)) = (min b e, max b e)" "min b e \<le> max b e"
    by (auto simp: min_def max_def)
  show ?thesis
  proof (cases "ns = []")
    case True
    obtain d' where "dlink_append d (min b e) (max b e) = Inr (Some (dl_brk d), d')"
      "dl_rep d' [(dl_brk d, \<lparr>di_begin = min b e, di_end = max b e\<rparr>)]"
      using dlink_append_rep [OF ns(1), of "min b e" "max b e"] True by auto
    moreover have "ranges [(dl_brk d, \<lparr>di_begin = min b e, di_end = max b e\<rparr>)]"
      using o(2) by (simp add: ranges_def)
    ultimately show ?thesis
      using ns True unfolding acl_dlink_insert_def o dlink_set_def by (fastforce simp: range_of_def)
  next
    case False
    with dlink_add_set [OF ns(1,2) False o(2)] ns show ?thesis
      unfolding acl_dlink_insert_def o by simp
  qed
qed

lemma acl_dlink_create_set: "\<exists>d. acl_dlink_create n = Inr d \<and> dlink_set d {}"
proof -
  obtain v where "acl_array_create (if n > 0 then n else 1) = Inr v" "vec_holds v []"
    using acl_array_create_holds by blast
  then show ?thesis
    by (auto simp: acl_dlink_create_def dlink_set_def dl_rep_def intro!: exI [of _ "[]"])
qed

section \<open>Looking up\<close>

lemma lookup2_loop_finds:
  assumes "dl_rep d ns" "ranges ns" "l \<ge> 0" "h < int (length ns)"
    "\<And>k. k < length ns \<Longrightarrow> int k < l \<Longrightarrow> n \<notin> range_of (snd (ns ! k))"
    "\<And>k. k < length ns \<Longrightarrow> h < int k \<Longrightarrow> n \<notin> range_of (snd (ns ! k))"
  shows "if \<exists>k<length ns. n \<in> range_of (snd (ns ! k))
    then \<exists>k<length ns. n \<in> range_of (snd (ns ! k)) \<and> lookup2_loop d n l h = Inr (Some (Some (fst (ns ! k)), int k))
    else lookup2_loop d n l h = Inr None"
  using assms(3-)
proof (induction "nat (h - l + 1)" arbitrary: l h rule: less_induct)
  case less
  show ?case
  proof (cases "l \<le> h")
    case False
    then have "\<not> (\<exists>k<length ns. n \<in> range_of (snd (ns ! k)))" using less.prems(3,4) by (meson linorder_not_le order_less_le_trans)
    with False show ?thesis by (simp add: lookup2_loop.simps)
  next
    case True
    define m where "m = nat ((l + h) div 2)"
    have m: "(l + h) div 2 = int m" "l \<le> int m" "int m \<le> h" "m < length ns"
      using True less.prems(1,2) by (auto simp: m_def)
    let ?i = "snd (ns ! m)"
    have s: "lookup2_loop d n l h =
        (if n \<in> range_of ?i then Inr (Some (Some (fst (ns ! m)), int m))
         else if n < di_begin ?i then lookup2_loop d n l (int m - 1) else lookup2_loop d n (int m + 1) h)"
      using True dl_index [OF assms(1) m(4)] dread_nth [OF assms(1) m(4)]
      by (subst lookup2_loop.simps) (auto simp: Let_def m(1) range_of_def not_le not_less)
    have below: "n \<notin> range_of (snd (ns ! k))" if "n < di_begin ?i" "k < length ns" "m \<le> k" for k
      using that ranges_begin_less [OF assms(2), of m k] m(4)
      by (cases "k = m") (auto simp: range_of_def)
    have above: "n \<notin> range_of (snd (ns ! k))" if "di_end ?i < n" "k \<le> m" for k
    proof (cases "k = m")
      case False
      have "di_begin ?i \<le> di_end ?i" using assms(2) m(4) by (simp add: ranges_def)
      moreover have "di_end (snd (ns ! k)) < di_begin ?i"
        using ranges_nth(2) [OF assms(2), of k m] False that(2) m(4) by simp
      ultimately show ?thesis using that(1) by (auto simp: range_of_def)
    qed (use that in \<open>auto simp: range_of_def\<close>)
    consider "n \<in> range_of ?i" | "n < di_begin ?i" "n \<notin> range_of ?i"
      | "di_end ?i < n" "n \<notin> range_of ?i" "\<not> n < di_begin ?i"
      unfolding range_of_def atLeastAtMost_iff not_le [symmetric] by blast
    then show ?thesis
    proof cases
      case 1
      with s m(4) show ?thesis by auto
    next
      case 2
      have "if \<exists>k<length ns. n \<in> range_of (snd (ns ! k))
          then \<exists>k<length ns. n \<in> range_of (snd (ns ! k)) \<and>
            lookup2_loop d n l (int m - 1) = Inr (Some (Some (fst (ns ! k)), int k))
          else lookup2_loop d n l (int m - 1) = Inr None"
        by (rule less.hyps) (use m less.prems below [OF 2(1)] in auto)
      with s 2 show ?thesis by simp
    next
      case 3
      have "if \<exists>k<length ns. n \<in> range_of (snd (ns ! k))
          then \<exists>k<length ns. n \<in> range_of (snd (ns ! k)) \<and>
            lookup2_loop d n (int m + 1) h = Inr (Some (Some (fst (ns ! k)), int k))
          else lookup2_loop d n (int m + 1) h = Inr None"
        by (rule less.hyps) (use m less.prems above [OF 3(1)] in auto)
      with s 3 show ?thesis by simp
    qed
  qed
qed

lemma lookup2_miss:
  assumes "dl_rep d ns" "ranges ns" "n \<notin> covered ns"
  shows "acl_dlink_lookup2 d n = Inr None"
proof -
  have "\<not> (\<exists>k<length ns. n \<in> range_of (snd (ns ! k)))" using assms(3) by (auto simp: covered_def)
  with lookup2_loop_finds [OF assms(1,2), of 0 "acl_array_size (dl_array d) - 1" n] assms(1) show ?thesis
    by (simp add: acl_dlink_lookup2_def)
qed

lemma lookup2_hit:
  assumes "dl_rep d ns" "ranges ns" "n \<in> covered ns"
  shows "\<exists>as a i bs. ns = as @ (a, i) # bs \<and> n \<in> range_of i \<and>
    acl_dlink_lookup2 d n = Inr (Some (Some a, int (length as)))"
proof -
  have "\<exists>k<length ns. n \<in> range_of (snd (ns ! k))"
    using assms(3) unfolding covered_def by (metis UN_E in_set_conv_nth)
  with lookup2_loop_finds [OF assms(1,2), of 0 "acl_array_size (dl_array d) - 1" n] assms(1)
  obtain k where k: "k < length ns" "n \<in> range_of (snd (ns ! k))"
    "acl_dlink_lookup2 d n = Inr (Some (Some (fst (ns ! k)), int k))"
    by (auto simp: acl_dlink_lookup2_def)
  then show ?thesis
    by (intro exI [of _ "take k ns"] exI [of _ "fst (ns ! k)"] exI [of _ "snd (ns ! k)"] exI [of _ "drop (Suc k) ns"])
      (simp add: id_take_nth_drop)
qed

lemma lookup_range_set:
  assumes "dl_rep d ns" "ranges ns" "b \<le> e"
  shows "\<exists>r. acl_dlink_lookup_range d b e = Inr r \<and> (r \<noteq> None \<longleftrightarrow> (\<exists>n\<in>set ns. {b..e} \<subseteq> range_of (snd n)))"
proof (cases "b \<in> covered ns")
  case False
  then have "\<not> (\<exists>n\<in>set ns. {b..e} \<subseteq> range_of (snd n))" using assms(3) by (force simp: covered_def)
  with lookup2_miss [OF assms(1,2) False] assms(3) show ?thesis
    by (auto simp: acl_dlink_lookup_range_def)
next
  case True
  then obtain as a i bs where ns: "ns = as @ (a, i) # bs" "b \<in> range_of i"
    "acl_dlink_lookup2 d b = Inr (Some (Some a, int (length as)))"
    using lookup2_hit [OF assms(1,2)] by blast
  have other: "n = (a, i)" if "n \<in> set ns" "b \<in> range_of (snd n)" for n
    using that ns(1,2) assms(2) by (fastforce simp: ranges_append ranges_Cons range_of_def)
  have "(\<exists>n\<in>set ns. {b..e} \<subseteq> range_of (snd n)) \<longleftrightarrow> e \<le> di_end i"
  proof
    assume "\<exists>n\<in>set ns. {b..e} \<subseteq> range_of (snd n)"
    then obtain n where n: "n \<in> set ns" "{b..e} \<subseteq> range_of (snd n)" by blast
    with assms(3) have "b \<in> range_of (snd n)" "e \<in> range_of (snd n)" by auto
    with other [OF n(1)] show "e \<le> di_end i" by (auto simp: range_of_def)
  qed (use ns in \<open>auto simp: range_of_def\<close>)
  moreover have "dread d (Some a) = Inr i" using dread_in [OF assms(1), of "(a, i)"] ns(1) by simp
  ultimately show ?thesis using ns(3) assms(3) by (auto simp: acl_dlink_lookup_range_def)
qed

section \<open>Deleting\<close>

lemma acl_dlink_delete_rep:
  assumes "dl_rep d ns" "ranges ns" "n \<in> covered ns"
  shows "\<exists>as a i bs d'. ns = as @ (a, i) # bs \<and> n \<in> range_of i \<and>
    acl_dlink_delete d n = Inr (0, d') \<and> dl_rep d' (as @ bs)"
proof -
  obtain as a i bs where ns: "ns = as @ (a, i) # bs" "n \<in> range_of i"
    "acl_dlink_lookup2 d n = Inr (Some (Some a, int (length as)))"
    using lookup2_hit [OF assms] by blast
  obtain d' where "delete_at d (int (length as)) = Inr d'" "dl_rep d' (as @ bs)"
    using delete_at_rep [of d as "(a, i)" bs] assms(1) ns(1) by auto
  moreover from this(1) have "acl_dlink_delete d n = Inr (0, d')"
    using ns(3) by (auto simp: acl_dlink_delete_def delete_at_def cbind_Inr_iff)
  ultimately show ?thesis using ns by blast
qed

lemma range_high_skip:
  assumes "dl_rep d (as @ ks @ ws)" "\<And>k. k \<in> set ks \<Longrightarrow> di_end (snd k) < e" "i = int (length as)"
  shows "range_high (length ks + n) i sz d e = range_high n (i + int (length ks)) sz d e"
  using assms
proof (induction ks arbitrary: as i)
  case (Cons k ks)
  have "acl_array_index (dl_array d) i = Inr (Some (fst k))" "dread d (Some (fst k)) = Inr (snd k)"
    using dl_index [OF Cons.prems(1), of "length as"] dread_in [OF Cons.prems(1), of k] Cons.prems(3) by auto
  with Cons.IH [of "as @ [k]" "i + 1"] Cons.prems show ?case by (simp add: add.assoc)
qed simp

lemma range_high_end:
  assumes "dl_rep d (as @ rs)" "ranges rs" "\<And>r. r \<in> set rs \<Longrightarrow> e < di_begin (snd r)" "i = int (length as)"
  shows "range_high (length rs) i (int (length (as @ rs))) d e = Inr (i - 1, d)"
proof (cases rs)
  case Nil
  with assms(4) show ?thesis by simp
next
  case (Cons r rs')
  have "acl_array_index (dl_array d) i = Inr (Some (fst r))" "dread d (Some (fst r)) = Inr (snd r)"
    using dl_index [OF assms(1), of "length as"] dread_in [OF assms(1), of r] assms(4) Cons by auto
  moreover have r: "e < di_begin (snd r)" using assms(3) [of r] Cons by simp
  moreover have "di_begin (snd r) \<le> di_end (snd r)" using assms(2) Cons by (simp add: ranges_Cons)
  with r have "\<not> e > di_end (snd r)" by auto
  ultimately show ?thesis using Cons by simp
qed

lemma range_high_at:
  assumes "dl_rep d (as @ r # rs)" "di_begin (snd r) \<le> e" "e \<le> di_end (snd r)" "i = int (length as)"
  shows "\<exists>d'. range_high (Suc n) i sz d e = Inr (if e < di_end (snd r) then i - 1 else i, d') \<and>
    dl_rep d' (as @ (if e < di_end (snd r) then (fst r, (snd r)\<lparr>di_begin := e + 1\<rparr>) else r) # rs)"
proof -
  have "acl_array_index (dl_array d) i = Inr (Some (fst r))" "dread d (Some (fst r)) = Inr (snd r)"
    using dl_index [OF assms(1), of "length as"] dread_in [OF assms(1), of r] assms(4) by auto
  moreover obtain d' where "dwrite d (Some (fst r)) (\<lambda>v. v\<lparr>di_begin := e + 1\<rparr>) = Inr d'"
    "dl_rep d' (as @ (fst r, (snd r)\<lparr>di_begin := e + 1\<rparr>) # rs)"
    using dwrite_rep [OF assms(1)] by blast
  moreover have "\<not> e > di_end (snd r)" "\<not> e < di_begin (snd r)" using assms(2,3) by auto
  moreover have "e = di_begin (snd r) \<Longrightarrow> (di_begin (snd r) = di_end (snd r)) = (\<not> e < di_end (snd r))"
    "(e = di_end (snd r)) = (\<not> e < di_end (snd r))"
    using assms(3) by auto
  ultimately show ?thesis using assms(1) by auto
qed

text \<open>The second half of \<open>acl_dlink_delete_range\<close>, when the nodes to remove end before the range does, and when
  the range ends inside a node.\<close>

lemma range_rest_whole:
  assumes "dl_rep d (as @ q # ks @ rs)" "ranges rs" "\<And>k. k \<in> set ks \<Longrightarrow> di_end (snd k) < e"
    "\<And>r. r \<in> set rs \<Longrightarrow> e < di_begin (snd r)" "low = int (length as)" "sz = int (length (as @ q # ks @ rs))"
  shows "\<exists>d'. range_rest d low sz e = Inr (0, d') \<and> dl_rep d' (as @ rs)"
proof -
  have n: "nat (sz - (low + 1)) = length ks + length rs" using assms(5,6) by simp
  have "range_high (length ks + length rs) (low + 1) sz d e = range_high (length rs) (low + 1 + int (length ks)) sz d e"
    by (rule range_high_skip [of d "as @ [q]" ks rs]) (use assms in auto)
  also have "\<dots> = Inr (low + int (length ks), d)"
    using range_high_end [of d "as @ q # ks" rs e "low + 1 + int (length ks)"] assms by simp
  finally have h: "range_high (nat (sz - (low + 1))) (low + 1) sz d e = Inr (low + int (length ks), d)"
    unfolding n .
  obtain v d' where "acl_array_delete_range (dl_array d) low (low + int (length ks)) True =
      Inr (0, map (\<lambda>n. Some (fst n)) (q # ks), v)"
    "free_all (d\<lparr>dl_array := v\<rparr>) (map (\<lambda>n. Some (fst n)) (q # ks)) = Inr d'" "dl_rep d' (as @ rs)"
    using delete_range_rep [of d as "q # ks" rs low "low + int (length ks)"] assms(1,5) by auto
  then show ?thesis by (simp add: range_rest_def h)
qed

lemma range_rest_part:
  assumes "dl_rep d (as @ q # ks @ r # rs)" "\<And>k. k \<in> set ks \<Longrightarrow> di_end (snd k) < e"
    "di_begin (snd r) \<le> e" "e \<le> di_end (snd r)" "low = int (length as)" "sz = int (length (as @ q # ks @ r # rs))"
  shows "\<exists>d'. range_rest d low sz e = Inr (0, d') \<and>
    dl_rep d' (as @ (if e < di_end (snd r) then [(fst r, (snd r)\<lparr>di_begin := e + 1\<rparr>)] else []) @ rs)"
proof -
  let ?r = "if e < di_end (snd r) then (fst r, (snd r)\<lparr>di_begin := e + 1\<rparr>) else r"
  let ?h = "if e < di_end (snd r) then low + int (length ks) else low + 1 + int (length ks)"
  have n: "nat (sz - (low + 1)) = length ks + Suc (length rs)" using assms(5,6) by simp
  have "range_high (length ks + Suc (length rs)) (low + 1) sz d e =
      range_high (Suc (length rs)) (low + 1 + int (length ks)) sz d e"
    by (rule range_high_skip [of d "as @ [q]" ks "r # rs"]) (use assms in auto)
  moreover obtain d1 where d1: "range_high (Suc (length rs)) (low + 1 + int (length ks)) sz d e = Inr (?h, d1)"
    "dl_rep d1 (as @ q # ks @ ?r # rs)"
    using range_high_at [of d "as @ q # ks" r rs e "low + 1 + int (length ks)" "length rs" sz] assms by auto
  ultimately have h: "range_high (nat (sz - (low + 1))) (low + 1) sz d e = Inr (?h, d1)" unfolding n by simp
  define qs where "qs = (if e < di_end (snd r) then q # ks else q # ks @ [r])"
  define ws where "ws = (if e < di_end (snd r) then [(fst r, (snd r)\<lparr>di_begin := e + 1\<rparr>)] else []) @ rs"
  have "\<exists>v d'. acl_array_delete_range (dl_array d1) low ?h True = Inr (0, map (\<lambda>n. Some (fst n)) qs, v) \<and>
      free_all (d1\<lparr>dl_array := v\<rparr>) (map (\<lambda>n. Some (fst n)) qs) = Inr d' \<and> dl_rep d' (as @ ws)"
    by (rule delete_range_rep) (use d1(2) assms(5) in \<open>auto simp: qs_def ws_def\<close>)
  then show ?thesis by (auto simp: range_rest_def h ws_def)
qed

text \<open>
  What is left of the nodes that meet the range: the part of the first before it and the part of
  the last after it. When both are in one node the second part is a new node at \<open>a\<close>.
\<close>

definition cut_left :: "64 word \<Rightarrow> addr \<times> ditem \<Rightarrow> (addr \<times> ditem) list" where
  "cut_left b m = (if di_begin (snd m) < b then [(fst m, (snd m)\<lparr>di_end := b - 1\<rparr>)] else [])"

definition cut_right :: "64 word \<Rightarrow> addr \<Rightarrow> ditem \<Rightarrow> (addr \<times> ditem) list" where
  "cut_right e a i = (if e < di_end i then [(a, i\<lparr>di_begin := e + 1\<rparr>)] else [])"

lemma range_low_skip:
  assumes "dl_rep d (as @ ks @ ws)" "\<And>k. k \<in> set ks \<Longrightarrow> di_end (snd k) < b" "i = int (length as)"
  shows "range_low (length ks + n) i sz d b e = range_low n (i + int (length ks)) sz d b e"
  using assms
proof (induction ks arbitrary: as i)
  case (Cons k ks)
  have "acl_array_index (dl_array d) i = Inr (Some (fst k))" "dread d (Some (fst k)) = Inr (snd k)"
    using dl_index [OF Cons.prems(1), of "length as"] dread_in [OF Cons.prems(1), of k] Cons.prems(3) by auto
  with Cons.IH [of "as @ [k]" "i + 1"] Cons.prems show ?case by (simp add: range_low.simps add.assoc)
qed simp

lemma delete_range_first:
  assumes "dl_rep d (ls @ m # ws)" "\<And>n. n \<in> set ls \<Longrightarrow> di_end (snd n) < b" "b \<le> di_end (snd m)"
  shows "acl_dlink_delete_range d b e =
    cbind (range_low (Suc (length ws)) (int (length ls)) (int (length (ls @ m # ws))) d b e) (\<lambda>r.
      case r of Inl d1 \<Rightarrow> Inr (0, d1) | Inr (low, d1) \<Rightarrow> range_rest d1 low (int (length (ls @ m # ws))) e)"
proof -
  have "nat (int (length (ls @ m # ws))) = length ls + Suc (length ws)" by simp
  moreover have "range_low (length ls + Suc (length ws)) 0 (int (length (ls @ m # ws))) d b e =
      range_low (Suc (length ws)) (0 + int (length ls)) (int (length (ls @ m # ws))) d b e"
    by (rule range_low_skip [of d "[]" ls "m # ws"]) (use assms in auto)
  ultimately show ?thesis
    unfolding acl_dlink_delete_range_def Let_def dl_size [OF assms(1)] by (simp only: add_0)
qed

text \<open>The first loop at the node it stops at.\<close>

lemma range_low_before:
  assumes "dl_rep d (ls @ m # ws)" "b \<le> di_begin (snd m)" "b \<le> di_end (snd m)"
  shows "\<exists>d1. range_low (Suc n) (int (length ls)) sz d b e =
      Inr (if e \<le> di_end (snd m) then Inl d1 else Inr (int (length ls), d)) \<and>
    (e \<le> di_end (snd m) \<longrightarrow> dl_rep d1 (ls @ cut_right e (fst m) (snd m) @ ws))"
proof -
  have acc: "acl_array_index (dl_array d) (int (length ls)) = Inr (Some (fst m))" "dread d (Some (fst m)) = Inr (snd m)"
    using dl_index [OF assms(1), of "length ls"] dread_in [OF assms(1), of m] by auto
  have g: "\<not> b > di_end (snd m)" using assms(3) by auto
  consider "e < di_end (snd m)" | "e = di_end (snd m)" | "\<not> e \<le> di_end (snd m)" by fastforce
  then show ?thesis
  proof cases
    case 1
    with dwrite_rep [OF assms(1), of "\<lambda>v. v\<lparr>di_begin := e + 1\<rparr>"] acc assms g show ?thesis
      by (auto simp: range_low.simps cut_right_def)
  next
    case 2
    with delete_at_rep [OF assms(1) refl] acc assms g show ?thesis by (auto simp: range_low.simps cut_right_def)
  next
    case 3
    then have "\<not> e < di_end (snd m)" "e \<noteq> di_end (snd m)" by auto
    with 3 acc assms g show ?thesis by (simp add: range_low.simps)
  qed
qed

lemma range_low_inside:
  assumes "dl_rep d (ls @ m # ws)" "ranges (ls @ m # ws)" "di_begin (snd m) < b" "b \<le> di_end (snd m)"
    "e \<le> di_end (snd m)" "b \<le> e"
  shows "\<exists>d1 a. range_low (Suc n) (int (length ls)) sz d b e = Inr (Inl d1) \<and>
    dl_rep d1 (ls @ cut_left b m @ cut_right e a (snd m) @ ws)"
proof -
  have acc: "acl_array_index (dl_array d) (int (length ls)) = Inr (Some (fst m))" "dread d (Some (fst m)) = Inr (snd m)"
    using dl_index [OF assms(1), of "length ls"] dread_in [OF assms(1), of m] by auto
  have g: "\<not> b > di_end (snd m)" "\<not> b \<le> di_begin (snd m)" using assms(3,4) by auto
  let ?m = "(fst m, (snd m)\<lparr>di_end := b - 1\<rparr>)"
  obtain d1 where d1: "dwrite d (Some (fst m)) (\<lambda>v. v\<lparr>di_end := b - 1\<rparr>) = Inr d1" "dl_rep d1 (ls @ ?m # ws)"
    using dwrite_rep [OF assms(1)] by blast
  show ?thesis
  proof (cases "e = di_end (snd m)")
    case True
    with acc g d1 assms(3) show ?thesis by (auto simp: range_low.simps cut_left_def cut_right_def)
  next
    case False
    then have e: "e < di_end (snd m)" using assms(5) by simp
    have w: "b - 1 < b" "di_begin (snd m) \<le> b - 1" "e + 1 \<le> di_end (snd m)" "e < e + 1"
      using assms(3) e by uint_arith+
    have "b - 1 < e + 1" using w(1,4) assms(6) by (meson le_less_trans less_trans)
    have r: "ranges (ls @ ?m # ws)"
    proof -
      have "b - 1 < di_end (snd m)" using w(1) assms(4) by (rule less_le_trans)
      then have "\<forall>k\<in>set ws. b - 1 < di_begin (snd k)"
        using assms(2) by (auto simp: ranges_append ranges_Cons dest!: bspec intro: less_trans)
      then show ?thesis using assms(2) w(2) by (auto simp: ranges_append ranges_Cons)
    qed
    have sp: "splits (e + 1) (di_end (snd m)) (ls @ [?m]) [] ws"
    proof -
      have "di_end (snd k) < e + 1" if "k \<in> set ls" for k
      proof -
        have "di_end (snd k) < di_begin (snd m)" using assms(2) that by (auto simp: ranges_append)
        also have "\<dots> \<le> b - 1" by (rule w(2))
        also have "\<dots> < e + 1" by fact
        finally show ?thesis .
      qed
      then show ?thesis using \<open>b - 1 < e + 1\<close> assms(2) by (auto simp: splits_def ranges_append ranges_Cons)
    qed
    have "\<exists>a d'. dlink_add d1 (e + 1) (di_end (snd m)) = Inr (Some a, d') \<and>
        dl_rep d' ((ls @ [?m]) @ (a, merged (e + 1) (di_end (snd m)) []) # ws)"
      by (rule dlink_add_new) (use d1(2) r sp w in auto)
    moreover have "merged (e + 1) (di_end (snd m)) [] = (snd m)\<lparr>di_begin := e + 1\<rparr>"
      by (cases "snd m") (simp add: merged_def)
    ultimately show ?thesis
      using acc g d1(1) e assms(3) False by (auto simp: range_low.simps cut_left_def cut_right_def)
  qed
qed

lemma range_low_across:
  assumes "dl_rep d (ls @ m # ws)" "di_begin (snd m) < b" "b \<le> di_end (snd m)" "di_end (snd m) < e"
    "sz = int (length (ls @ m # ws))"
  shows "\<exists>d1. dl_rep d1 ((ls @ cut_left b m) @ ws) \<and>
    (ws = [] \<or> e < di_begin (snd (hd ws)) \<longrightarrow> range_low (Suc n) (int (length ls)) sz d b e = Inr (Inl d1)) \<and>
    (\<forall>q ws'. ws = q # ws' \<and> di_begin (snd q) \<le> e \<and> e \<le> di_end (snd q) \<longrightarrow>
      (\<exists>d2. range_low (Suc n) (int (length ls)) sz d b e = Inr (Inl d2) \<and>
        dl_rep d2 ((ls @ cut_left b m) @ cut_right e (fst q) (snd q) @ ws'))) \<and>
    (\<forall>q ws'. ws = q # ws' \<and> di_begin (snd q) \<le> e \<and> di_end (snd q) < e \<longrightarrow>
      range_low (Suc n) (int (length ls)) sz d b e = Inr (Inr (int (length ls) + 1, d1)))"
proof -
  have acc: "acl_array_index (dl_array d) (int (length ls)) = Inr (Some (fst m))" "dread d (Some (fst m)) = Inr (snd m)"
    using dl_index [OF assms(1), of "length ls"] dread_in [OF assms(1), of m] by auto
  have g: "\<not> b > di_end (snd m)" "\<not> b \<le> di_begin (snd m)" "e \<noteq> di_end (snd m)" "\<not> e < di_end (snd m)"
    using assms(2-4) by auto
  have cl: "cut_left b m = [(fst m, (snd m)\<lparr>di_end := b - 1\<rparr>)]" using assms(2) by (simp add: cut_left_def)
  obtain d1 where d1: "dwrite d (Some (fst m)) (\<lambda>v. v\<lparr>di_end := b - 1\<rparr>) = Inr d1" "dl_rep d1 ((ls @ cut_left b m) @ ws)"
    using dwrite_rep [OF assms(1), of "\<lambda>v. v\<lparr>di_end := b - 1\<rparr>"] cl by auto
  show ?thesis
  proof (cases ws)
    case Nil
    with acc g d1 assms(5) show ?thesis by (auto simp: range_low.simps)
  next
    case (Cons q ws')
    have lenb: "int (length ls) + 1 = int (length (ls @ cut_left b m))" using cl by simp
    have q: "acl_array_index (dl_array d1) (int (length ls) + 1) = Inr (Some (fst q))" "dread d1 (Some (fst q)) = Inr (snd q)"
      using dl_index [OF d1(2), of "length (ls @ cut_left b m)"] dread_in [OF d1(2), of q] Cons lenb by auto
    have r: "range_low (Suc n) (int (length ls)) sz d b e =
        (if di_begin (snd q) > e then Inr (Inl d1)
         else if e < di_end (snd q) then
           cbind (dwrite d1 (Some (fst q)) (\<lambda>v. v\<lparr>di_begin := e + 1\<rparr>)) (\<lambda>d2. Inr (Inl d2))
         else if e = di_end (snd q) then
           cbind (delete_at d1 (int (length ls) + 1)) (\<lambda>d2. Inr (Inl d2))
         else Inr (Inr (int (length ls) + 1, d1)))"
      using acc g d1(1) q Cons assms(5) by (simp add: range_low.simps)
    have rep: "dl_rep d1 ((ls @ cut_left b m) @ q # ws')" using d1(2) Cons by simp
    have "\<exists>d2. range_low (Suc n) (int (length ls)) sz d b e = Inr (Inl d2) \<and>
        dl_rep d2 ((ls @ cut_left b m) @ cut_right e (fst q) (snd q) @ ws')"
      if "di_begin (snd q) \<le> e" "e \<le> di_end (snd q)"
    proof (cases "e < di_end (snd q)")
      case True
      with dwrite_rep [OF rep, of "\<lambda>v. v\<lparr>di_begin := e + 1\<rparr>"] r that leD [OF that(1)] show ?thesis
        by (auto simp: cut_right_def)
    next
      case False
      with delete_at_rep [OF rep lenb] r that leD [OF that(1)] show ?thesis by (auto simp: cut_right_def)
    qed
    moreover have "range_low (Suc n) (int (length ls)) sz d b e = Inr (Inr (int (length ls) + 1, d1))"
      if "di_begin (snd q) \<le> e" "di_end (snd q) < e"
      using r leD [OF that(1)] that(2) by auto
    ultimately show ?thesis using d1(2) r Cons by (intro exI [of _ d1]) auto
  qed
qed

lemma range_rest_all:
  assumes "dl_rep d (as @ m # ns @ rs)" "ranges (m # ns @ rs)" "di_end (snd m) < e"
    "\<And>k. k \<in> set ns \<Longrightarrow> di_begin (snd k) \<le> e" "\<And>r. r \<in> set rs \<Longrightarrow> e < di_begin (snd r)"
    "low = int (length as)" "sz = int (length (as @ m # ns @ rs))"
  shows "\<exists>d'. range_rest d low sz e = Inr (0, d') \<and>
    dl_rep d' (as @ cut_right e (fst (last (m # ns))) (snd (last (m # ns))) @ rs)"
proof (cases ns rule: rev_cases)
  case Nil
  have "\<exists>d'. range_rest d low sz e = Inr (0, d') \<and> dl_rep d' (as @ rs)"
    by (rule range_rest_whole [of d as m "[]" rs]) (use assms Nil in \<open>auto simp: ranges_Cons\<close>)
  with Nil assms(3) show ?thesis by (auto simp: cut_right_def)
next
  case (snoc ks r)
  have ks: "di_end (snd k) < e" if "k \<in> set ks" for k
  proof -
    have "di_end (snd k) < di_begin (snd r)" using assms(2) snoc that by (auto simp: ranges_append ranges_Cons)
    with assms(4) [of r] snoc show ?thesis by auto
  qed
  show ?thesis
  proof (cases "e \<le> di_end (snd r)")
    case True
    have "\<exists>d'. range_rest d low sz e = Inr (0, d') \<and>
      dl_rep d' (as @ (if e < di_end (snd r) then [(fst r, (snd r)\<lparr>di_begin := e + 1\<rparr>)] else []) @ rs)"
      by (rule range_rest_part [of d as m ks r rs]) (use assms snoc ks True in auto)
    with snoc show ?thesis by (simp add: cut_right_def)
  next
    case False
    then have "di_end (snd r) < e" by simp
    then have "di_end (snd k) < e" if "k \<in> set ns" for k using that ks [of k] snoc by auto
    then have "\<exists>d'. range_rest d low sz e = Inr (0, d') \<and> dl_rep d' (as @ rs)"
      by (intro range_rest_whole [of d as m ns rs]) (use assms in \<open>auto simp: ranges_append ranges_Cons\<close>)
    with snoc False show ?thesis by (auto simp: cut_right_def)
  qed
qed

lemma delete_range_rep_cut:
  assumes "dl_rep d (ls @ ms @ rs)" "ranges (ls @ ms @ rs)" "ms \<noteq> []" "splits b e ls ms rs" "b \<le> e"
  shows "\<exists>d' a. acl_dlink_delete_range d b e = Inr (0, d') \<and>
    dl_rep d' (ls @ cut_left b (hd ms) @ cut_right e a (snd (last ms)) @ rs)"
proof -
  obtain m ns where ms: "ms = m # ns" using assms(3) by (cases ms) auto
  let ?sz = "int (length (ls @ m # ns @ rs))"
  have m: "b \<le> di_end (snd m)" "di_begin (snd m) \<le> e" using assms(4) ms by (auto simp: splits_def)
  have rep: "dl_rep d (ls @ m # ns @ rs)" using assms(1) ms by simp
  have rng: "ranges (m # ns @ rs)" "ranges (ls @ m # ns @ rs)" using assms(2) ms by (auto simp: ranges_append)
  have ns: "di_begin (snd k) \<le> e" if "k \<in> set ns" for k using assms(4) ms that by (auto simp: splits_def)
  have rs: "e < di_begin (snd r)" if "r \<in> set rs" for r using assms(4) that by (auto simp: splits_def)
  have first: "acl_dlink_delete_range d b e =
      cbind (range_low (Suc (length (ns @ rs))) (int (length ls)) ?sz d b e) (\<lambda>r.
        case r of Inl d1 \<Rightarrow> Inr (0, d1) | Inr (low, d1) \<Rightarrow> range_rest d1 low ?sz e)"
    by (rule delete_range_first [OF rep]) (use assms(4) m(1) in \<open>auto simp: splits_def\<close>)
  show ?thesis
  proof (cases "e \<le> di_end (snd m)")
    case True
    have "ns = []"
    proof (cases ns)
      case (Cons k ks)
      then have "di_end (snd m) < di_begin (snd k)" using rng(1) by (simp add: ranges_Cons)
      with True ns [of k] Cons show ?thesis by auto
    qed simp
    show ?thesis
    proof (cases "b \<le> di_begin (snd m)")
      case 1: True
      obtain d1 where "range_low (Suc (length (ns @ rs))) (int (length ls)) ?sz d b e = Inr (Inl d1)"
        "dl_rep d1 (ls @ cut_right e (fst m) (snd m) @ ns @ rs)"
        using range_low_before [OF rep 1 m(1), of "length (ns @ rs)" ?sz e] True by auto
      moreover have "cut_left b m = []" using 1 by (auto simp: cut_left_def)
      ultimately show ?thesis unfolding first using ms \<open>ns = []\<close> by auto
    next
      case False
      then have "di_begin (snd m) < b" by simp
      with range_low_inside [OF rep rng(2) this m(1) True assms(5), of "length (ns @ rs)" ?sz] show ?thesis
        unfolding first using ms \<open>ns = []\<close> by auto
    qed
  next
    case False
    then have e: "di_end (snd m) < e" by simp
    show ?thesis
    proof (cases "b \<le> di_begin (snd m)")
      case True
      have "range_low (Suc (length (ns @ rs))) (int (length ls)) ?sz d b e = Inr (Inr (int (length ls), d))"
        using range_low_before [OF rep True m(1), of "length (ns @ rs)" ?sz e] False by auto
      moreover have "cut_left b m = []" using True by (auto simp: cut_left_def)
      ultimately show ?thesis
        unfolding first using range_rest_all [OF rep rng(1) e ns rs refl refl] ms by auto
    next
      case 2: False
      then have b: "di_begin (snd m) < b" by simp
      note across = range_low_across [OF rep b m(1) e refl, of "length (ns @ rs)"]
      show ?thesis
      proof (cases ns)
        case Nil
        have "rs = [] \<or> e < di_begin (snd (hd rs))" using rs by (cases rs) auto
        moreover have "cut_right e a (snd m) = []" for a using e by (auto simp: cut_right_def)
        ultimately show ?thesis unfolding first using across Nil ms by auto
      next
        case (Cons q ks)
        have q: "di_begin (snd q) \<le> e" using ns Cons by simp
        show ?thesis
        proof (cases "e \<le> di_end (snd q)")
          case True
          have "ks = []"
          proof (cases ks)
            case Cons': (Cons k ks')
            then have "di_end (snd q) < di_begin (snd k)" using rng(1) Cons by (simp add: ranges_Cons)
            with True ns [of k] Cons Cons' show ?thesis by auto
          qed simp
          with across Cons q True ms show ?thesis unfolding first by (cases q) auto
        next
          case 3: False
          then have qe: "di_end (snd q) < e" by simp
          obtain d1 where d1: "dl_rep d1 ((ls @ cut_left b m) @ ns @ rs)"
            "range_low (Suc (length (ns @ rs))) (int (length ls)) ?sz d b e = Inr (Inr (int (length ls) + 1, d1))"
            using across Cons q qe by auto
          have "length (cut_left b m) = 1" using b by (simp add: cut_left_def)
          then have "\<exists>d'. range_rest d1 (int (length ls) + 1) ?sz e = Inr (0, d') \<and>
              dl_rep d' ((ls @ cut_left b m) @ cut_right e (fst (last (q # ks))) (snd (last (q # ks))) @ rs)"
            by (intro range_rest_all) (use d1(1) Cons rng(1) qe ns rs in \<open>auto simp: ranges_Cons\<close>)
          with d1(2) Cons ms show ?thesis unfolding first by auto
        qed
      qed
    qed
  qed
qed

lemma word_le_pred: "(c :: 64 word) < b \<Longrightarrow> x \<le> b - 1 \<longleftrightarrow> x < b"
  by uint_arith

lemma word_succ_le: "(e :: 64 word) < c \<Longrightarrow> e + 1 \<le> x \<longleftrightarrow> e < x"
  by uint_arith

lemma cut_left_covers: "covered (cut_left b m) = {x \<in> range_of (snd m). x < b}" if "b \<le> di_end (snd m)"
  using that by (auto simp: cut_left_def range_of_def word_le_pred)

lemma cut_right_covers: "covered (cut_right e a i) = {x \<in> range_of i. e < x}" if "di_begin i \<le> e"
  using that by (auto simp: cut_right_def range_of_def word_succ_le)

lemma cut_covers:
  assumes "ranges ms" "ms \<noteq> []" "splits b e ls ms rs" "b \<le> e"
  shows "covered (cut_left b (hd ms)) \<union> covered (cut_right e a (snd (last ms))) = covered ms - {b..e}"
proof -
  have hl: "b \<le> di_end (snd (hd ms))" "di_begin (snd (last ms)) \<le> e"
    using assms(2,3) by (auto simp: splits_def)
  have "x \<in> range_of (snd (hd ms))" if x: "x \<in> covered ms" "x < b" for x
  proof -
    obtain n where n: "n \<in> set ms" "x \<in> range_of (snd n)" using x(1) by (auto simp: covered_def)
    have "n = hd ms"
    proof (rule ccontr)
      assume "n \<noteq> hd ms"
      then have "n \<in> set (tl ms)" using n(1) assms(2) by (cases ms) auto
      then have "di_end (snd (hd ms)) < di_begin (snd n)" using assms(1,2) by (cases ms) (auto simp: ranges_Cons)
      with hl(1) n(2) x(2) show False by (auto simp: range_of_def)
    qed
    with n show ?thesis by simp
  qed
  moreover have "x \<in> range_of (snd (last ms))" if x: "x \<in> covered ms" "e < x" for x
  proof -
    obtain n where n: "n \<in> set ms" "x \<in> range_of (snd n)" using x(1) by (auto simp: covered_def)
    have "n = last ms"
    proof (rule ccontr)
      assume "n \<noteq> last ms"
      then have "n \<in> set (butlast ms)" using n(1) assms(2) by (metis append_butlast_last_id in_set_conv_decomp
            rotate1.simps(2) set_ConsD set_rotate1)
      then have "di_end (snd n) < di_begin (snd (last ms))"
        using assms(1,2) by (cases ms rule: rev_cases) (auto simp: ranges_append ranges_Cons)
      with hl(2) n(2) x(2) show False by (auto simp: range_of_def)
    qed
    with n show ?thesis by simp
  qed
  moreover have "range_of (snd (hd ms)) \<subseteq> covered ms" "range_of (snd (last ms)) \<subseteq> covered ms"
    using assms(2) hd_in_set last_in_set unfolding covered_def by blast+
  ultimately show ?thesis
    unfolding cut_left_covers [OF hl(1)] cut_right_covers [OF hl(2)] using assms(4) by fastforce
qed

lemma cut_ranges:
  assumes "ranges (ls @ ms @ rs)" "ms \<noteq> []" "splits b e ls ms rs" "b \<le> e"
  shows "ranges (ls @ cut_left b (hd ms) @ cut_right e a (snd (last ms)) @ rs)"
proof -
  have hl: "b \<le> di_end (snd (hd ms))" "di_begin (snd (last ms)) \<le> e" "hd ms \<in> set ms" "last ms \<in> set ms"
    using assms(2,3) by (auto simp: splits_def)
  have cl: "n \<in> set (cut_left b (hd ms)) \<Longrightarrow> di_begin (snd n) \<le> di_end (snd n) \<and> di_end (snd n) < b \<and>
      di_begin (snd n) = di_begin (snd (hd ms))" for n
  proof -
    assume "n \<in> set (cut_left b (hd ms))"
    then have "di_begin (snd (hd ms)) < b" "snd n = (snd (hd ms))\<lparr>di_end := b - 1\<rparr>"
      by (auto simp: cut_left_def split: if_splits)
    moreover from this(1) have "di_begin (snd (hd ms)) \<le> b - 1" "b - 1 < b" by uint_arith+
    ultimately show ?thesis by simp
  qed
  have cr: "n \<in> set (cut_right e a (snd (last ms))) \<Longrightarrow> di_begin (snd n) \<le> di_end (snd n) \<and> e < di_begin (snd n) \<and>
      di_end (snd n) = di_end (snd (last ms))" for n
  proof -
    assume "n \<in> set (cut_right e a (snd (last ms)))"
    then have "e < di_end (snd (last ms))" "snd n = (snd (last ms))\<lparr>di_begin := e + 1\<rparr>"
      by (auto simp: cut_right_def split: if_splits)
    moreover from this(1) have "e + 1 \<le> di_end (snd (last ms))" "e < e + 1" by uint_arith+
    ultimately show ?thesis by simp
  qed
  have "sorted_wrt (\<lambda>m n. di_end (snd m) < di_begin (snd n)) (cut_left b (hd ms))"
    "sorted_wrt (\<lambda>m n. di_end (snd m) < di_begin (snd n)) (cut_right e a (snd (last ms)))"
    by (simp_all add: cut_left_def cut_right_def)
  with cl cr have own: "ranges (cut_left b (hd ms))" "ranges (cut_right e a (snd (last ms)))"
    unfolding ranges_def by blast+
  have out: "\<And>n. n \<in> set ls \<Longrightarrow> di_end (snd n) < di_begin (snd (hd ms)) \<and> di_end (snd n) < b"
    "\<And>n. n \<in> set rs \<Longrightarrow> di_end (snd (last ms)) < di_begin (snd n) \<and> e < di_begin (snd n)"
    using assms(1,3) hl(3,4) by (auto simp: ranges_append splits_def)
  have lr: "ranges ls" "ranges rs" "\<And>n m. n \<in> set ls \<Longrightarrow> m \<in> set rs \<Longrightarrow> di_end (snd n) < di_begin (snd m)"
    using assms(1) by (auto simp: ranges_append)
  have x: "u < v" if "u < b" "e < v" for u v using that assms(4) by (meson le_less_trans less_le_trans less_trans)
  show ?thesis
    unfolding ranges_append set_append
    using own lr cl cr out x by (simp add: ball_Un)
qed

lemma delete_range_past_end:
  assumes "dl_rep d ns" "ns \<noteq> []" "\<And>n. n \<in> set ns \<Longrightarrow> di_end (snd n) < b" "b \<le> e"
  shows "\<exists>d'. acl_dlink_delete_range d b e = Inr (0, d') \<and> dl_rep d' []"
proof -
  obtain q ks where ns: "ns = q # ks" using assms(2) by (cases ns) auto
  have "range_low (length ns + 0) 0 (int (length ns)) d b e = range_low 0 (0 + int (length ns)) (int (length ns)) d b e"
    by (rule range_low_skip [of d "[]" ns "[]"]) (use assms in auto)
  then have "acl_dlink_delete_range d b e = range_rest d 0 (int (length ns)) e"
    unfolding acl_dlink_delete_range_def Let_def dl_size [OF assms(1)] by simp
  moreover have "di_end (snd k) < e" if "k \<in> set ks" for k
    using assms(3) [of k] assms(4) that ns by (auto intro: less_le_trans)
  then have "\<exists>d'. range_rest d 0 (int (length ns)) e = Inr (0, d') \<and> dl_rep d' ([] @ [])"
    by (intro range_rest_whole [of d "[]" q ks "[]"]) (use assms(1) ns in auto)
  ultimately show ?thesis by simp
qed

lemma delete_range_in_hole:
  assumes "dl_rep d (ls @ m # ws)" "\<And>n. n \<in> set ls \<Longrightarrow> di_end (snd n) < b" "b \<le> e" "e < di_begin (snd m)"
    "di_begin (snd m) \<le> di_end (snd m)"
  shows "\<exists>d'. acl_dlink_delete_range d b e = Inr (0, d') \<and>
    dl_rep d' (ls @ (fst m, (snd m)\<lparr>di_begin := e + 1\<rparr>) # ws)"
proof -
  have m: "b \<le> di_begin (snd m)" "b \<le> di_end (snd m)" "e < di_end (snd m)" using assms(3-5) by auto
  have "acl_dlink_delete_range d b e =
      cbind (range_low (Suc (length ws)) (int (length ls)) (int (length (ls @ m # ws))) d b e) (\<lambda>r.
        case r of Inl d1 \<Rightarrow> Inr (0, d1) | Inr (low, d1) \<Rightarrow> range_rest d1 low (int (length (ls @ m # ws))) e)"
    by (rule delete_range_first [OF assms(1,2) m(2)])
  with range_low_before [OF assms(1) m(1,2), of "length ws" "int (length (ls @ m # ws))" e] m(3)
  show ?thesis by (auto simp: cut_right_def less_imp_le)
qed

text \<open>The other lookups, and the one that does not see the last node.\<close>

lemma larger_loop_first:
  assumes "dl_rep d (as @ ns)" "i = int (length as)"
  shows "larger_loop (length ns) i d off =
    Inr (case dropWhile (\<lambda>n. di_end (snd n) < off) ns of
           [] \<Rightarrow> None
         | n # _ \<Rightarrow> Some (Some (fst n), i + int (length (takeWhile (\<lambda>n. di_end (snd n) < off) ns))))"
  using assms
proof (induction ns arbitrary: as i)
  case (Cons n ns)
  have "acl_array_index (dl_array d) i = Inr (Some (fst n))" "dread d (Some (fst n)) = Inr (snd n)"
    using dl_index [OF Cons.prems(1), of "length as"] dread_in [OF Cons.prems(1), of n] Cons.prems(2) by auto
  moreover have "larger_loop (length ns) (i + 1) d off =
    Inr (case dropWhile (\<lambda>n. di_end (snd n) < off) ns of
           [] \<Rightarrow> None
         | n # _ \<Rightarrow> Some (Some (fst n), i + 1 + int (length (takeWhile (\<lambda>n. di_end (snd n) < off) ns))))"
    by (rule Cons.IH [of "as @ [n]"]) (use Cons.prems in auto)
  ultimately show ?case
    by (cases "off \<le> di_end (snd n)") (auto simp del: dropWhile_eq_Nil_conv split: list.splits)
qed simp

lemma lookup_larger_first:
  "dl_rep d ns \<Longrightarrow> acl_dlink_lookup_larger d off =
     Inr (case dropWhile (\<lambda>n. di_end (snd n) < off) ns of
           [] \<Rightarrow> None
         | n # _ \<Rightarrow> Some (Some (fst n), int (length (takeWhile (\<lambda>n. di_end (snd n) < off) ns))))"
  using larger_loop_first [of d "[]" ns 0 off] by (simp add: acl_dlink_lookup_larger_def cong: list.case_cong)

lemma lower_loop_last:
  assumes "dl_rep d (ns @ ws)"
  shows "lower_loop (length ns) d off =
    Inr (case dropWhile (\<lambda>n. off < di_begin (snd n)) (rev ns) of
           [] \<Rightarrow> None
         | n # us \<Rightarrow> Some (Some (fst n), int (length us)))"
  using assms
proof (induction ns arbitrary: ws rule: rev_induct)
  case (snoc n ns)
  have "acl_array_index (dl_array d) (int (length ns)) = Inr (Some (fst n))" "dread d (Some (fst n)) = Inr (snd n)"
    using dl_index [OF snoc.prems, of "length ns"] dread_in [OF snoc.prems, of n] by auto
  with snoc.IH [of "n # ws"] snoc.prems show ?case by (auto simp: not_le)
qed simp

lemma lookup_lower_last:
  "dl_rep d ns \<Longrightarrow> acl_dlink_lookup_lower d off =
     Inr (case dropWhile (\<lambda>n. off < di_begin (snd n)) (rev ns) of
           [] \<Rightarrow> None
         | n # us \<Rightarrow> Some (Some (fst n), int (length us)))"
  using lower_loop_last [of d ns "[]" off] by (simp add: acl_dlink_lookup_lower_def)

lemma lookup_by_item_misses_last:
  assumes "dl_rep d (ns @ [n])"
  shows "acl_dlink_lookup_by_item d (Some (fst n)) = Inr None"
proof -
  have d: "distinct (map fst (ns @ [n]))" by (rule dl_repD(2) [OF assms])
  have "lookup_item_loop (length ks) (int (length as)) d (Some (fst n)) = Inr None" if "ns = as @ ks" for as ks
    using that
  proof (induction ks arbitrary: as)
    case (Cons k ks)
    have "acl_array_index (dl_array d) (int (length as)) = Inr (Some (fst k))"
      using dl_index [OF assms, of "length as"] Cons.prems by (simp add: nth_append)
    moreover have "fst k \<noteq> fst n" using d Cons.prems by auto
    ultimately show ?case using Cons.IH [of "as @ [k]"] Cons.prems by (simp add: add.commute)
  qed simp
  from this [of "[]" ns] show ?thesis
    using dl_size [OF assms] by (simp add: acl_dlink_lookup_by_item_def acl_dlink_lookup2_by_item_def)
qed

lemma modify_of_empty: "dl_rep d [] \<Longrightarrow> acl_dlink_modify d b e = Inr (None, d)"
  by (auto simp: acl_dlink_modify_def dlink_add_def begin_pos_def scope_pos_def scope_loop.simps Let_def)

section \<open>Properties\<close>

interpretation dlink_ranges: range_set dlink_set
  "\<lambda>d b e. cbind (acl_dlink_insert d b e) (\<lambda>(_, d'). Inr d')" acl_dlink_lookup
proof
  fix d S b e
  assume "dlink_set d S"
  then show "\<exists>d'. cbind (acl_dlink_insert d b e) (\<lambda>(_, d'). Inr d') = Inr d' \<and> dlink_set d' (S \<union> {min b e..max b e})"
    using acl_dlink_insert_set [of d S b e] by auto
next
  fix d S n
  assume "dlink_set d S"
  then obtain ns where ns: "dl_rep d ns" "ranges ns" "covered ns = S" by (auto simp: dlink_set_def)
  show "\<exists>p. acl_dlink_lookup d n = Inr p \<and> (p \<noteq> None \<longleftrightarrow> n \<in> S)"
  proof (cases "n \<in> S")
    case True
    with lookup2_hit [OF ns(1,2), of n] ns(3) show ?thesis by (auto simp: acl_dlink_lookup_def)
  next
    case False
    with lookup2_miss [OF ns(1,2), of n] ns(3) show ?thesis by (auto simp: acl_dlink_lookup_def)
  qed
qed

text \<open>C14: However many ranges are inserted into a new list, in any order and with either end first, the
  list stays sorted and free of overlaps and \<open>acl_dlink_lookup\<close> finds a number exactly if one of the ranges contains it.\<close>

theorem dlink_inserts_then_lookup:
  "\<exists>d d'. acl_dlink_create k = Inr d \<and>
     add_all (\<lambda>d b e. cbind (acl_dlink_insert d b e) (\<lambda>(_, d'). Inr d')) d bes = Inr d' \<and>
     dlink_set d' (\<Union>(b, e)\<in>set bes. {min b e..max b e}) \<and>
     (\<exists>p. acl_dlink_lookup d' n = Inr p \<and> (p \<noteq> None \<longleftrightarrow> (\<exists>(b, e)\<in>set bes. min b e \<le> n \<and> n \<le> max b e)))"
proof -
  obtain d where d: "acl_dlink_create k = Inr d" "dlink_set d {}" using acl_dlink_create_set by blast
  from dlink_ranges.add_all_covers [OF d(2), of bes] d(1) dlink_ranges.look show ?thesis by fastforce
qed

text \<open>C15: Inserting a range into a list that is not empty replaces the nodes that meet it by one node which
  covers them and the range; the nodes before and after it stay as they are, and no other node is
  created or lost.\<close>

theorem dlink_add_merges:
  assumes "dl_rep d (ls @ ms @ rs)" "ranges (ls @ ms @ rs)" "ls @ ms @ rs \<noteq> []" "splits b e ls ms rs" "b \<le> e"
  shows "\<exists>a d'. acl_dlink_insert d b e = Inr (Some a, d') \<and> dl_rep d' (ls @ (a, merged b e ms) # rs) \<and>
    ranges (ls @ (a, merged b e ms) # rs) \<and> range_of (merged b e ms) = {b..e} \<union> covered ms"
proof -
  have "acl_dlink_insert d b e = dlink_add d b e"
  proof -
    have "acl_array_size (dl_array d) \<noteq> 0"
      unfolding dl_size [OF assms(1)] using assms(3) by (metis length_0_conv of_nat_eq_0_iff)
    with assms(5) show ?thesis by (simp add: acl_dlink_insert_def leD)
  qed
  with dlink_add_rep [OF assms] merged_ranges [OF assms(2,4,5)] merged_covers [OF _ assms(4,5)] assms(2)
  show ?thesis by (fastforce simp: ranges_append)
qed

definition dlink_demo :: dlink where
  "dlink_demo = \<lparr>dl_array = \<lparr>vc_items = Some [Some 0, Some 1], vc_count = 2, vc_capacity = 2\<rparr>,
     dl_items = [0 \<mapsto> \<lparr>di_begin = 10, di_end = 20\<rparr>, 1 \<mapsto> \<lparr>di_begin = 30, di_end = 40\<rparr>], dl_brk = 2\<rparr>"

definition demo_nodes :: "(addr \<times> ditem) list" where
  "demo_nodes = [(0, \<lparr>di_begin = 10, di_end = 20\<rparr>), (1, \<lparr>di_begin = 30, di_end = 40\<rparr>)]"

lemma dlink_demo_rep: "dl_rep dlink_demo demo_nodes" "ranges demo_nodes"
  by (auto simp: dl_rep_def dlink_demo_def demo_nodes_def vec_holds_def ranges_def)

lemma dlink_demo_set: "dlink_set dlink_demo ({10..20} \<union> {30..40})"
  using dlink_demo_rep unfolding dlink_set_def
  by (intro exI [of _ demo_nodes]) (auto simp: demo_nodes_def range_of_def)

theorem dlink_add_merges_witness:
  "\<exists>a d'. acl_dlink_insert dlink_demo 15 35 = Inr (Some a, d') \<and> dl_rep d' [(a, \<lparr>di_begin = 10, di_end = 40\<rparr>)]"
  using dlink_add_merges [of dlink_demo "[]" demo_nodes "[]" 15 35] dlink_demo_rep
  by (auto simp: demo_nodes_def splits_def merged_def)

text \<open>Deleting a range that meets the list removes exactly its numbers: nodes inside the range are freed
  and nodes that stick out of it are cut, or split in two.\<close>

theorem dlink_delete_range_removes:
  assumes "dlink_set d S" "b \<le> e" "S \<inter> {b..e} \<noteq> {}"
  shows "\<exists>d'. acl_dlink_delete_range d b e = Inr (0, d') \<and> dlink_set d' (S - {b..e})"
proof -
  obtain ns where ns: "dl_rep d ns" "ranges ns" "covered ns = S" using assms(1) by (auto simp: dlink_set_def)
  obtain ls ms rs where s: "ns = ls @ ms @ rs" "splits b e ls ms rs" using splits_exist [OF ns(2)] .
  have out: "covered ls \<inter> {b..e} = {}" "covered rs \<inter> {b..e} = {}"
    using s(2) by (fastforce simp: splits_def covered_def range_of_def)+
  have "ms \<noteq> []" using assms(3) ns(3) s(1) out by auto
  obtain d' a where d': "acl_dlink_delete_range d b e = Inr (0, d')"
    "dl_rep d' (ls @ cut_left b (hd ms) @ cut_right e a (snd (last ms)) @ rs)"
    using delete_range_rep_cut [of d ls ms rs b e] ns s \<open>ms \<noteq> []\<close> assms(2) by auto
  have "ranges (ls @ cut_left b (hd ms) @ cut_right e a (snd (last ms)) @ rs)"
    by (rule cut_ranges) (use ns s \<open>ms \<noteq> []\<close> assms(2) in auto)
  moreover have "covered (cut_left b (hd ms)) \<union> covered (cut_right e a (snd (last ms))) = covered ms - {b..e}"
    by (rule cut_covers) (use ns s \<open>ms \<noteq> []\<close> assms(2) in \<open>auto simp: ranges_append\<close>)
  then have "covered (ls @ cut_left b (hd ms) @ cut_right e a (snd (last ms)) @ rs) = S - {b..e}"
    using out ns(3) s(1) by auto
  ultimately show ?thesis using d' unfolding dlink_set_def by blast
qed

theorem dlink_delete_range_removes_witness:
  "\<exists>d'. acl_dlink_delete_range dlink_demo 15 35 = Inr (0, d') \<and>
    dlink_set d' (({10..20} \<union> {30..40}) - {15..35})"
proof (rule dlink_delete_range_removes [OF dlink_demo_set])
  have "(15 :: 64 word) \<in> ({10..20} \<union> {30..40}) \<inter> {15..35}" by simp
  then show "({10..20} \<union> {30..40}) \<inter> {15..35 :: 64 word} \<noteq> {}" by blast
qed simp

text \<open>A range that lies behind the last node is not left alone: the first loop finds no node, \<open>low\<close>
  stays 0 and the call removes every node of the list, returning 0.\<close>

theorem dlink_delete_range_past_end_clears:
  assumes "dlink_set d S" "S \<noteq> {}" "\<forall>x\<in>S. x < b" "b \<le> e"
  shows "\<exists>d'. acl_dlink_delete_range d b e = Inr (0, d') \<and> dlink_set d' {} \<and> acl_dlink_size d' = 0"
proof -
  obtain ns where ns: "dl_rep d ns" "ranges ns" "covered ns = S" using assms(1) by (auto simp: dlink_set_def)
  have "ns \<noteq> []" using ns(3) assms(2) by auto
  have "di_end (snd n) < b" if "n \<in> set ns" for n
  proof -
    have "di_end (snd n) \<in> range_of (snd n)" using ns(2) that by (simp add: ranges_def range_of_def)
    with that ns(3) assms(3) show ?thesis by (auto simp: covered_def)
  qed
  from delete_range_past_end [OF ns(1) \<open>ns \<noteq> []\<close> this assms(4)] show ?thesis
    by (auto simp: dlink_set_def acl_dlink_size_def intro!: exI [of _ "[]"])
qed

theorem dlink_delete_range_past_end_clears_witness:
  "\<exists>d'. acl_dlink_delete_range dlink_demo 50 60 = Inr (0, d') \<and> dlink_set d' {} \<and> acl_dlink_size d' = 0"
proof (rule dlink_delete_range_past_end_clears [OF dlink_demo_set])
  have "(10 :: 64 word) \<in> {10..20} \<union> {30..40}" by simp
  then show "{10..20} \<union> {30..40 :: 64 word} \<noteq> {}" by blast
  show "\<forall>x\<in>{10..20} \<union> {30..40}. x < (50 :: 64 word)" by (auto intro: le_less_trans)
qed simp

text \<open>Deleting a range in a gap between nodes makes the next node begin right behind the range, so numbers
  that were not in the list are in it afterwards.\<close>

theorem dlink_delete_range_in_hole_adds:
  assumes "dl_rep d (ls @ m # ws)" "ranges (ls @ m # ws)" "\<forall>n\<in>set ls. di_end (snd n) < b" "b \<le> e"
    "e < di_begin (snd m)"
  shows "\<exists>d'. acl_dlink_delete_range d b e = Inr (0, d') \<and>
    dlink_set d' (covered (ls @ m # ws) \<union> {e + 1..di_end (snd m)})"
proof -
  let ?m = "(fst m, (snd m)\<lparr>di_begin := e + 1\<rparr>)"
  have m: "di_begin (snd m) \<le> di_end (snd m)" using assms(2) by (simp add: ranges_append ranges_Cons)
  obtain d' where d': "acl_dlink_delete_range d b e = Inr (0, d')" "dl_rep d' (ls @ ?m # ws)"
    using delete_range_in_hole [OF assms(1) _ assms(4,5) m] assms(3) by blast
  have w: "e + 1 \<le> di_begin (snd m)" "e < e + 1" using assms(5) by uint_arith+
  have "di_end (snd n) < e + 1" if "n \<in> set ls" for n
    using assms(3,4) w(2) that by (meson le_less_trans less_le_trans less_trans)
  with assms(2) w(1) m have "ranges (ls @ ?m # ws)" by (auto simp: ranges_append ranges_Cons)
  moreover have "covered (ls @ ?m # ws) = covered (ls @ m # ws) \<union> {e + 1..di_end (snd m)}"
    using w(1) by (auto simp: range_of_def)
  ultimately show ?thesis using d' unfolding dlink_set_def by blast
qed

theorem dlink_delete_range_in_hole_adds_witness:
  "\<exists>d'. acl_dlink_delete_range dlink_demo 1 5 = Inr (0, d') \<and> dlink_set d' (covered demo_nodes \<union> {6..20})"
  using dlink_delete_range_in_hole_adds [of dlink_demo "[]" "hd demo_nodes" "tl demo_nodes" 1 5] dlink_demo_rep
  by (simp add: demo_nodes_def)

end
