(* ===== verification/Acl_TimedCache.thy ===== *)
theory Acl_TimedCache
  imports Acl_Prelude "HOL-Library.Multiset"
begin

text \<open>
  What a cache of \<open>acl_cache.h\<close> promises, without its hash table and its links: a list of entries,
  the oldest first, of at most \<open>mx\<close> entries with different keys. An entry has a count of users and a
  time at which it expires, 0 for never; entries in use are neither replaced nor removed.
  The operations give what they return, the values handed to \<open>free_fn\<close>, and the new list.
\<close>

record cache_info =
  ci_key :: "byte list"
  ci_value :: ptr
  ci_nrefer :: int
  ci_when :: int

section \<open>The operations on a list of entries\<close>

definition lookup :: "byte list \<Rightarrow> cache_info list \<Rightarrow> cache_info option" where
  "lookup k es = find (\<lambda>i. ci_key i = k) es"

definition drop_key :: "byte list \<Rightarrow> cache_info list \<Rightarrow> cache_info list" where
  "drop_key k es = filter (\<lambda>i. ci_key i \<noteq> k) es"

definition change_key :: "byte list \<Rightarrow> (cache_info \<Rightarrow> cache_info) \<Rightarrow> cache_info list \<Rightarrow> cache_info list" where
  "change_key k f es = map (\<lambda>i. if ci_key i = k then f i else i) es"

text \<open>The scan for expired entries ends at the first that lives on.\<close>

fun expire :: "int \<Rightarrow> cache_info list \<Rightarrow> cache_info list" where
  "expire now [] = []"
| "expire now (i # es) =
     (if ci_when i > now then i # es
      else if ci_nrefer i > 0 \<or> ci_when i = 0 then i # expire now es
      else expire now es)"

fun expired :: "int \<Rightarrow> cache_info list \<Rightarrow> ptr list" where
  "expired now [] = []"
| "expired now (i # es) =
     (if ci_when i > now then []
      else if ci_nrefer i > 0 \<or> ci_when i = 0 then expired now es
      else ci_value i # expired now es)"

text \<open>Making room: the first entry that is not in use and may expire goes.\<close>

fun evict :: "cache_info list \<Rightarrow> cache_info list" where
  "evict [] = []"
| "evict (i # es) = (if ci_nrefer i > 0 \<or> ci_when i = 0 then i # evict es else es)"

fun evicted :: "cache_info list \<Rightarrow> ptr list" where
  "evicted [] = []"
| "evicted (i # es) = (if ci_nrefer i > 0 \<or> ci_when i = 0 then evicted es else [ci_value i])"

datatype cache_ret = Stored bool | Got ptr | Code int | Unit

type_synonym cache_res = "cache_ret \<times> ptr list \<times> cache_info list"

definition spec_enter :: "nat \<Rightarrow> int \<Rightarrow> int \<Rightarrow> byte list \<Rightarrow> ptr \<Rightarrow> cache_info list \<Rightarrow> cache_res" where
  "spec_enter mx ttl now k v es =
     (case lookup k es of
        Some i \<Rightarrow>
          if ci_nrefer i > 0 then (Stored False, [], es)
          else (Stored True, [ci_value i], change_key k (\<lambda>i. i\<lparr>ci_value := v\<rparr>) es)
      | None \<Rightarrow>
          (let (fs1, es1) = (if length es \<ge> mx then (expired now es, expire now es) else ([], es));
               (fs2, es2) = (if length es1 \<ge> mx then (evicted es1, evict es1) else ([], es1))
           in if length es2 \<ge> mx then (Stored False, fs1 @ fs2, es2)
              else (Stored True, fs1 @ fs2, es2 @ [\<lparr>ci_key = k, ci_value = v, ci_nrefer = 0, ci_when = now + ttl\<rparr>])))"

definition spec_find :: "byte list \<Rightarrow> cache_info list \<Rightarrow> cache_res" where
  "spec_find k es = (Got (case lookup k es of None \<Rightarrow> None | Some i \<Rightarrow> ci_value i), [], es)"

definition spec_delete :: "byte list \<Rightarrow> cache_info list \<Rightarrow> cache_res" where
  "spec_delete k es =
     (case lookup k es of
        None \<Rightarrow> (Code (-1), [], es)
      | Some i \<Rightarrow> if ci_nrefer i > 0 then (Code (-1), [], es) else (Code 0, [ci_value i], drop_key k es))"

definition spec_timeout :: "int \<Rightarrow> cache_info list \<Rightarrow> cache_res" where
  "spec_timeout now es = (Code (int (length (expired now es))), expired now es, expire now es)"

definition spec_update :: "int \<Rightarrow> byte list \<Rightarrow> int \<Rightarrow> cache_info list \<Rightarrow> cache_res" where
  "spec_update now k timeout es =
     (Unit, [], case lookup k es of
        None \<Rightarrow> es
      | Some i \<Rightarrow> drop_key k es @ [i\<lparr>ci_when := if timeout > 0 then now + timeout else 0\<rparr>])"

definition spec_refer :: "int \<Rightarrow> byte list \<Rightarrow> cache_info list \<Rightarrow> cache_res" where
  "spec_refer d k es = (Unit, [], change_key k (\<lambda>i. i\<lparr>ci_nrefer := ci_nrefer i + d\<rparr>) es)"

definition spec_clean :: "bool \<Rightarrow> cache_info list \<Rightarrow> cache_res" where
  "spec_clean force es =
     (let out = filter (\<lambda>i. force \<or> ci_nrefer i \<le> 0) es
      in (Code (int (length out)), map ci_value out, filter (\<lambda>i. \<not> force \<and> ci_nrefer i > 0) es))"

section \<open>Sequences of calls\<close>

datatype cache_req = CEnter "byte list" ptr | CFind "byte list" | CDelete "byte list" | CTimeout | CUpdate "byte list" int
  | CRefer "byte list" | CUnrefer "byte list" | CClean bool

text \<open>A call and the time at which it is made.\<close>

type_synonym timed_call = "int \<times> cache_req"

fun spec_call :: "nat \<Rightarrow> int \<Rightarrow> timed_call \<Rightarrow> cache_info list \<Rightarrow> cache_res" where
  "spec_call mx ttl (now, CEnter k v) es = spec_enter mx ttl now k v es"
| "spec_call mx ttl (now, CFind k) es = spec_find k es"
| "spec_call mx ttl (now, CDelete k) es = spec_delete k es"
| "spec_call mx ttl (now, CTimeout) es = spec_timeout now es"
| "spec_call mx ttl (now, CUpdate k timeout) es = spec_update now k timeout es"
| "spec_call mx ttl (now, CRefer k) es = spec_refer 1 k es"
| "spec_call mx ttl (now, CUnrefer k) es = spec_refer (-1) k es"
| "spec_call mx ttl (now, CClean force) es = spec_clean force es"

fun spec_run :: "nat \<Rightarrow> int \<Rightarrow> timed_call list \<Rightarrow> cache_info list \<Rightarrow> cache_ret list \<times> ptr list \<times> cache_info list" where
  "spec_run mx ttl [] es = ([], [], es)"
| "spec_run mx ttl (c # cs) es =
     (let (r, fs, es1) = spec_call mx ttl c es; (rs, gs, es2) = spec_run mx ttl cs es1 in (r # rs, fs @ gs, es2))"

subsection \<open>What every call keeps\<close>

definition keys :: "cache_info list \<Rightarrow> byte list list" where
  "keys es = map ci_key es"

definition entries_ok :: "nat \<Rightarrow> cache_info list \<Rightarrow> bool" where
  "entries_ok mx es \<longleftrightarrow> distinct (keys es) \<and> length es \<le> mx"

lemma keys_simps [simp]:
  "keys [] = []" "keys (i # es) = ci_key i # keys es" "keys (es @ es') = keys es @ keys es'" "length (keys es) = length es"
  by (simp_all add: keys_def)

lemma lookup_None: "lookup k es = None \<longleftrightarrow> k \<notin> set (keys es)"
  by (auto simp: lookup_def keys_def find_None_iff)

lemma lookup_Some: "lookup k es = Some i \<Longrightarrow> i \<in> set es \<and> ci_key i = k"
  by (auto simp: lookup_def find_Some_iff in_set_conv_nth)

lemma lookup_split:
  assumes "lookup k es = Some i" "distinct (keys es)"
  shows "\<exists>as bs. es = as @ i # bs \<and> ci_key i = k \<and> k \<notin> set (keys as) \<and> k \<notin> set (keys bs)"
proof -
  have i: "i \<in> set es" "ci_key i = k" using lookup_Some [OF assms(1)] by auto
  then obtain as bs where es: "es = as @ i # bs" by (meson split_list)
  have "k \<notin> set (keys as)" "k \<notin> set (keys bs)" using assms(2) i(2) unfolding es by auto
  with es i(2) show ?thesis by blast
qed

lemma drop_key_none: "k \<notin> set (keys es) \<Longrightarrow> drop_key k es = es"
  by (induction es) (auto simp: drop_key_def)

lemma change_key_none: "k \<notin> set (keys es) \<Longrightarrow> change_key k f es = es"
  by (induction es) (auto simp: change_key_def)

lemma drop_key_split: "k \<notin> set (keys as) \<Longrightarrow> k \<notin> set (keys bs) \<Longrightarrow> ci_key i = k \<Longrightarrow> drop_key k (as @ i # bs) = as @ bs"
  using drop_key_none [of k as] drop_key_none [of k bs] by (simp add: drop_key_def)

lemma change_key_split:
  "k \<notin> set (keys as) \<Longrightarrow> k \<notin> set (keys bs) \<Longrightarrow> ci_key i = k \<Longrightarrow> change_key k f (as @ i # bs) = as @ f i # bs"
  using change_key_none [of k as f] change_key_none [of k bs f] by (simp add: change_key_def)

lemma expire_less: "length (expire now es) + length (expired now es) = length es"
  by (induction es) auto

lemma expire_set: "set (expire now es) \<subseteq> set es"
  by (induction es) auto

lemma expire_keys: "set (keys (expire now es)) \<subseteq> set (keys es)" "distinct (keys es) \<Longrightarrow> distinct (keys (expire now es))"
proof -
  show sub: "set (keys (expire now es)) \<subseteq> set (keys es)" for es by (induction es) auto
  show "distinct (keys es) \<Longrightarrow> distinct (keys (expire now es))" by (induction es) (use sub in \<open>auto dest: subsetD\<close>)
qed

lemma evict_keys: "set (keys (evict es)) \<subseteq> set (keys es)" "distinct (keys es) \<Longrightarrow> distinct (keys (evict es))"
proof -
  show sub: "set (keys (evict es)) \<subseteq> set (keys es)" for es by (induction es) auto
  show "distinct (keys es) \<Longrightarrow> distinct (keys (evict es))" by (induction es) (use sub in \<open>auto dest: subsetD\<close>)
qed

lemma evict_length: "length (evict es) \<le> length es"
  by (induction es) auto

lemma expire_length: "length (expire now es) \<le> length es"
  using expire_less [of now es] by simp

lemma evict_values: "mset (map ci_value es) = mset (map ci_value (evict es)) + mset (evicted es)"
  by (induction es) auto

lemma expire_values: "mset (map ci_value es) = mset (map ci_value (expire now es)) + mset (expired now es)"
  by (induction es) auto

lemma change_key_keys: "(\<And>i. ci_key (f i) = ci_key i) \<Longrightarrow> keys (change_key k f es) = keys es"
  by (simp add: change_key_def keys_def)

lemma change_key_length [simp]: "length (change_key k f es) = length es"
  by (simp add: change_key_def)

lemma change_key_values:
  "(\<And>i. ci_value (f i) = ci_value i) \<Longrightarrow> image_mset ci_value (mset (change_key k f es)) = image_mset ci_value (mset es)"
  by (induction es) (auto simp: change_key_def)

lemma distinct_keys_filter: "distinct (keys es) \<Longrightarrow> distinct (keys (filter P es))"
  by (simp add: keys_def distinct_map_filter)

text \<open>The part of \<open>spec_enter\<close> that makes room.\<close>

definition room :: "nat \<Rightarrow> int \<Rightarrow> cache_info list \<Rightarrow> ptr list \<times> cache_info list" where
  "room mx now es =
     (let (fs1, es1) = (if length es \<ge> mx then (expired now es, expire now es) else ([], es));
          (fs2, es2) = (if length es1 \<ge> mx then (evicted es1, evict es1) else ([], es1))
      in (fs1 @ fs2, es2))"

lemma room_keeps:
  assumes "room mx now es = (fs, es')" "entries_ok mx es"
  shows "entries_ok mx es'" "set (keys es') \<subseteq> set (keys es)" "mset (map ci_value es) = mset (map ci_value es') + mset fs"
proof -
  have ex: "entries_ok mx (expire now es)" "set (keys (expire now es)) \<subseteq> set (keys es)"
    using assms(2) expire_keys expire_length [of now es] by (auto simp: entries_ok_def)
  have ev: "entries_ok mx (evict xs) \<and> set (keys (evict xs)) \<subseteq> set (keys xs)" if "entries_ok mx xs" for xs
    using that evict_keys evict_length [of xs] by (auto simp: entries_ok_def)
  show "entries_ok mx es'" "set (keys es') \<subseteq> set (keys es)"
    using assms ex ev [of "expire now es"] ev [of es] by (auto simp: room_def Let_def split: if_splits)
  show "mset (map ci_value es) = mset (map ci_value es') + mset fs"
    using assms(1) expire_values [of es now] evict_values [of "expire now es"] evict_values [of es]
    by (auto simp: room_def Let_def ac_simps split: if_splits)
qed

lemma spec_enter_room:
  "spec_enter mx ttl now k v es =
     (case lookup k es of
        Some i \<Rightarrow>
          if ci_nrefer i > 0 then (Stored False, [], es)
          else (Stored True, [ci_value i], change_key k (\<lambda>i. i\<lparr>ci_value := v\<rparr>) es)
      | None \<Rightarrow>
          (case room mx now es of (fs, es2) \<Rightarrow>
            if length es2 \<ge> mx then (Stored False, fs, es2)
            else (Stored True, fs, es2 @ [\<lparr>ci_key = k, ci_value = v, ci_nrefer = 0, ci_when = now + ttl\<rparr>])))"
  by (simp add: spec_enter_def room_def Let_def split: option.splits prod.splits)

text \<open>The values that a call takes in; with them, every call accounts for all values.\<close>

fun taken :: "timed_call \<Rightarrow> cache_ret \<Rightarrow> ptr list" where
  "taken (now, CEnter k v) (Stored True) = [v]"
| "taken _ _ = []"

lemma enter_keeps:
  assumes "entries_ok mx es" "spec_enter mx ttl now k v es = (r, fs, es')"
  shows "entries_ok mx es' \<and> mset (map ci_value es) + mset (taken (now, CEnter k v) r) = mset (map ci_value es') + mset fs"
proof (cases "lookup k es")
  case None
  obtain gs es2 where g: "room mx now es = (gs, es2)" by fastforce
  note rk = room_keeps [OF g assms(1)]
  have "k \<notin> set (keys es2)" using None rk(2) by (auto simp: lookup_None)
  with rk assms(2) None g show ?thesis
    by (auto simp: spec_enter_room entries_ok_def split: if_splits)
next
  case (Some i)
  then obtain as bs where es: "es = as @ i # bs" "ci_key i = k" "k \<notin> set (keys as)" "k \<notin> set (keys bs)"
    using lookup_split assms(1) unfolding entries_ok_def by blast
  show ?thesis
    using assms Some change_key_split [OF es(3,4,2)] by (auto simp: spec_enter_room es entries_ok_def split: if_splits)
qed

lemma lookup_drop:
  assumes "lookup k es = Some i" "distinct (keys es)"
  shows "mset es = add_mset i (mset (drop_key k es))" "distinct (keys (drop_key k es))" "length es = Suc (length (drop_key k es))"
    "k \<notin> set (keys (drop_key k es))" "ci_key i = k"
proof -
  obtain as bs where es: "es = as @ i # bs" "ci_key i = k" "k \<notin> set (keys as)" "k \<notin> set (keys bs)"
    using lookup_split [OF assms] by blast
  have "drop_key k es = as @ bs" unfolding es(1) by (rule drop_key_split [OF es(3,4,2)])
  with es assms(2) show "mset es = add_mset i (mset (drop_key k es))" "distinct (keys (drop_key k es))"
    "length es = Suc (length (drop_key k es))" "k \<notin> set (keys (drop_key k es))" "ci_key i = k" by auto
qed

lemma spec_call_keeps:
  assumes "entries_ok mx es" "spec_call mx ttl c es = (r, fs, es')"
  shows "entries_ok mx es' \<and> mset (map ci_value es) + mset (taken c r) = mset (map ci_value es') + mset fs"
proof -
  obtain now op where c: "c = (now, op)" by fastforce
  have d: "distinct (keys es)" "length es \<le> mx" using assms(1) by (simp_all add: entries_ok_def)
  show ?thesis
  proof (cases op)
    case (CEnter k v)
    then show ?thesis using enter_keeps assms c by simp
  next
    case (CDelete k)
    then show ?thesis
      using assms c d lookup_drop [of k es] by (auto simp: spec_delete_def entries_ok_def split: option.splits if_splits)
  next
    case CTimeout
    then show ?thesis using assms c d expire_keys(2) [OF d(1)] expire_length [of now es] expire_values [of es now]
      by (auto simp: spec_timeout_def entries_ok_def)
  next
    case (CUpdate k timeout)
    then show ?thesis
      using assms c d lookup_drop [of k es] by (auto simp: spec_update_def entries_ok_def split: option.splits if_splits)
  next
    case (CClean force)
    have v: "mset (map ci_value es) = mset (map ci_value (filter (\<lambda>i. \<not> force \<and> ci_nrefer i > 0) es)) +
        mset (map ci_value (filter (\<lambda>i. force \<or> ci_nrefer i \<le> 0) es))"
      by (induction es) auto
    have r: "r = Code (int (length (filter (\<lambda>i. force \<or> ci_nrefer i \<le> 0) es)))"
      "fs = map ci_value (filter (\<lambda>i. force \<or> ci_nrefer i \<le> 0) es)" "es' = filter (\<lambda>i. \<not> force \<and> ci_nrefer i > 0) es"
      using assms(2) c CClean by (simp_all add: spec_clean_def Let_def)
    have "entries_ok mx es'"
      unfolding r(3) entries_ok_def by (intro conjI distinct_keys_filter [OF d(1)] le_trans [OF length_filter_le d(2)])
    then show ?thesis using v by (simp only: r(2,3) c CClean taken.simps mset.simps add_0_right)
  qed (use assms c d in \<open>auto simp: spec_find_def spec_refer_def entries_ok_def change_key_keys change_key_values\<close>)
qed

lemma spec_run_keeps:
  assumes "entries_ok mx es" "spec_run mx ttl cs es = (rs, fs, es')"
  shows "entries_ok mx es' \<and> length rs = length cs \<and>
    mset (map ci_value es) + mset (concat (map2 taken cs rs)) = mset (map ci_value es') + mset fs"
  using assms
proof (induction cs arbitrary: es rs fs)
  case (Cons c cs)
  obtain r gs es1 where c1: "spec_call mx ttl c es = (r, gs, es1)" by (cases "spec_call mx ttl c es")
  obtain qs hs where c2: "spec_run mx ttl cs es1 = (qs, hs, es')" "rs = r # qs" "fs = gs @ hs"
    using Cons.prems(2) c1 by (auto split: prod.splits)
  note k = spec_call_keeps [OF Cons.prems(1) c1]
  note i = Cons.IH [OF conjunct1 [OF k] c2(1)]
  have "mset (map ci_value es) + (mset (taken c r) + mset (concat (map2 taken cs qs))) =
      mset (map ci_value es1) + mset gs + mset (concat (map2 taken cs qs))"
    using k by (metis add.assoc)
  also have "\<dots> = mset (map ci_value es') + (mset gs + mset hs)" using i by (metis add.assoc add.commute)
  finally show ?case using i k c2(2,3) by simp
qed simp

subsection \<open>When the scan for expired entries is complete\<close>

text \<open>As long as no entry is updated and time does not run backwards, entries are in the order of their times.\<close>

fun whens :: "cache_info list \<Rightarrow> int set" where
  "whens [] = {}"
| "whens (i # es) = insert (ci_when i) (whens es)"

fun in_order :: "int \<Rightarrow> cache_info list \<Rightarrow> bool" where
  "in_order b [] = True"
| "in_order b (i # es) = (0 < ci_when i \<and> ci_when i \<le> b \<and> (\<forall>w\<in>whens es. ci_when i \<le> w) \<and> in_order b es)"

lemma whens_subset:
  "whens (expire now es) \<subseteq> whens es" "whens (evict es) \<subseteq> whens es" "whens (filter P es) \<subseteq> whens es"
  "(\<And>i. ci_when (f i) = ci_when i) \<Longrightarrow> whens (change_key k f es) \<subseteq> whens es" "whens (es @ [x]) = insert (ci_when x) (whens es)"
  by (induction es) (auto simp: change_key_def)

lemma in_order_keeps:
  assumes "in_order b es"
  shows "in_order b (expire now es)" "in_order b (evict es)" "in_order b (filter P es)"
    "(\<And>i. ci_when (f i) = ci_when i) \<Longrightarrow> in_order b (change_key k f es)"
proof -
  show "in_order b (expire now es)" using assms by (induction es) (use whens_subset(1) in \<open>auto dest: subsetD\<close>)
  show "in_order b (evict es)" using assms by (induction es) (use whens_subset(2) in \<open>auto dest: subsetD\<close>)
  show "in_order b (filter P es)" using assms by (induction es) (use whens_subset(3) in \<open>auto dest: subsetD\<close>)
  assume f: "\<And>i. ci_when (f i) = ci_when i"
  show "in_order b (change_key k f es)" using assms
  proof (induction es)
    case (Cons i es)
    have "change_key k f (i # es) = (if ci_key i = k then f i else i) # change_key k f es" by (simp add: change_key_def)
    with Cons show ?case using whens_subset(4) [of f k es, OF f] f by auto
  qed (simp add: change_key_def)
qed

lemma room_in_order: "in_order b es \<Longrightarrow> room mx now es = (fs, es') \<Longrightarrow> in_order b es'"
  by (auto simp: room_def Let_def in_order_keeps split: if_splits)

lemma in_order_mono: "in_order b es \<Longrightarrow> b \<le> b' \<Longrightarrow> in_order b' es"
  by (induction es) auto

lemma in_order_bound: "in_order b es \<Longrightarrow> w \<in> whens es \<Longrightarrow> w \<le> b"
  by (induction es) auto

lemma append_in_order: "in_order b es \<Longrightarrow> b \<le> ci_when i \<Longrightarrow> 0 < ci_when i \<Longrightarrow> in_order (ci_when i) (es @ [i])"
  by (induction es) (auto simp: whens_subset(5) dest: in_order_bound)

fun is_update :: "timed_call \<Rightarrow> bool" where
  "is_update (now, CUpdate k t) = True"
| "is_update _ = False"

lemma spec_call_in_order:
  assumes "in_order (t0 + ttl) es" "t0 \<le> fst c" "0 \<le> fst c" "0 < ttl" "\<not> is_update c" "spec_call mx ttl c es = (r, fs, es')"
  shows "in_order (fst c + ttl) es'"
proof -
  obtain now op where c: "c = (now, op)" by fastforce
  have o: "in_order (now + ttl) es" using in_order_mono [OF assms(1)] assms(2) c by simp
  show ?thesis
  proof (cases op)
    case (CEnter k v)
    obtain gs e2 where g: "room mx now es = (gs, e2)" by fastforce
    have "in_order (now + ttl) e2" by (rule room_in_order [OF o g])
    moreover from append_in_order [OF this, of "\<lparr>ci_key = k, ci_value = v, ci_nrefer = 0, ci_when = now + ttl\<rparr>"]
    have "in_order (now + ttl) (e2 @ [\<lparr>ci_key = k, ci_value = v, ci_nrefer = 0, ci_when = now + ttl\<rparr>])"
      using assms(3,4) c by simp
    ultimately show ?thesis
      using assms(6) c CEnter g o by (auto simp: spec_enter_room in_order_keeps split: option.splits if_splits)
  qed (use assms(5,6) c o in
      \<open>auto simp: in_order_keeps spec_find_def spec_delete_def spec_timeout_def spec_refer_def spec_clean_def drop_key_def Let_def
        split: option.splits if_splits\<close>)
qed

lemma spec_run_in_order:
  assumes "in_order (t0 + ttl) es" "sorted (t0 # map fst cs)" "0 \<le> t0" "0 < ttl" "\<forall>c\<in>set cs. \<not> is_update c"
    "spec_run mx ttl cs es = (rs, fs, es')"
  shows "\<exists>b. in_order b es'"
  using assms
proof (induction cs arbitrary: es t0 rs fs)
  case (Cons c cs)
  obtain r gs es1 where c1: "spec_call mx ttl c es = (r, gs, es1)" by (cases "spec_call mx ttl c es")
  obtain qs hs where c2: "spec_run mx ttl cs es1 = (qs, hs, es')" using Cons.prems(6) c1 by (auto split: prod.splits)
  have "in_order (fst c + ttl) es1" using spec_call_in_order [OF Cons.prems(1) _ _ _ _ c1] Cons.prems(2-5) by simp
  from Cons.IH [OF this _ _ _ _ c2] Cons.prems(2-5) show ?case by simp
qed auto

lemma expire_complete: "in_order b es \<Longrightarrow> i \<in> set (expire now es) \<Longrightarrow> ci_when i > now \<or> ci_nrefer i > 0"
proof (induction es)
  case (Cons x es)
  have "ci_when x \<le> ci_when i" if "i \<in> set es"
  proof -
    have "ci_when i \<in> whens es" using that by (induction es) auto
    then show ?thesis using Cons.prems(1) by simp
  qed
  with Cons show ?case by (auto split: if_splits)
qed simp

lemma spec_run_append:
  "spec_run mx ttl (cs @ ds) es =
     (let (rs, fs, es1) = spec_run mx ttl cs es; (qs, gs, es2) = spec_run mx ttl ds es1 in (rs @ qs, fs @ gs, es2))"
  by (induction cs arbitrary: es) (auto simp: Let_def split: prod.splits)

section \<open>The interface\<close>

text \<open>
  A cache of at most \<open>mx c\<close> entries that live for \<open>ttl c\<close> seconds: \<open>holds c es fs\<close> says that it stores the entries
  \<open>es\<close> and has handed the values \<open>fs\<close> to \<open>free_fn\<close>. Each law says that a call does not fault and does what the
  operation on the list of entries does.
\<close>

definition cache_does :: "('c \<Rightarrow> cache_info list \<Rightarrow> ptr list \<Rightarrow> bool) \<Rightarrow> ('c \<Rightarrow> nat) \<Rightarrow> ('c \<Rightarrow> int) \<Rightarrow> 'c \<Rightarrow> ptr list \<Rightarrow>
    cache_res \<Rightarrow> (cache_ret \<times> 'c) cres \<Rightarrow> bool" where
  "cache_does holds mx ttl c fs res x \<longleftrightarrow>
     (\<exists>c'. x = Inr (fst res, c') \<and> holds c' (snd (snd res)) (fs @ fst (snd res)) \<and> mx c' = mx c \<and> ttl c' = ttl c)"

fun cache_call :: "('c \<Rightarrow> int \<Rightarrow> byte list \<Rightarrow> ptr \<Rightarrow> (ptr \<times> 'c) cres) \<Rightarrow> ('c \<Rightarrow> byte list \<Rightarrow> (ptr \<times> 'c) cres) \<Rightarrow>
    ('c \<Rightarrow> byte list \<Rightarrow> (int \<times> 'c) cres) \<Rightarrow> ('c \<Rightarrow> int \<Rightarrow> (int \<times> 'c) cres) \<Rightarrow> ('c \<Rightarrow> int \<Rightarrow> byte list \<Rightarrow> int \<Rightarrow> 'c cres) \<Rightarrow>
    ('c \<Rightarrow> byte list \<Rightarrow> 'c cres) \<Rightarrow> ('c \<Rightarrow> byte list \<Rightarrow> 'c cres) \<Rightarrow> ('c \<Rightarrow> bool \<Rightarrow> (int \<times> 'c) cres) \<Rightarrow>
    timed_call \<Rightarrow> 'c \<Rightarrow> (cache_ret \<times> 'c) cres" where
  "cache_call en fi de ti up re un cl (now, CEnter k v) c = cbind (en c now k v) (\<lambda>(p, c'). Inr (Stored (p \<noteq> None), c'))"
| "cache_call en fi de ti up re un cl (now, CFind k) c = cbind (fi c k) (\<lambda>(p, c'). Inr (Got p, c'))"
| "cache_call en fi de ti up re un cl (now, CDelete k) c = cbind (de c k) (\<lambda>(n, c'). Inr (Code n, c'))"
| "cache_call en fi de ti up re un cl (now, CTimeout) c = cbind (ti c now) (\<lambda>(n, c'). Inr (Code n, c'))"
| "cache_call en fi de ti up re un cl (now, CUpdate k timeout) c = cbind (up c now k timeout) (\<lambda>c'. Inr (Unit, c'))"
| "cache_call en fi de ti up re un cl (now, CRefer k) c = cbind (re c k) (\<lambda>c'. Inr (Unit, c'))"
| "cache_call en fi de ti up re un cl (now, CUnrefer k) c = cbind (un c k) (\<lambda>c'. Inr (Unit, c'))"
| "cache_call en fi de ti up re un cl (now, CClean force) c = cbind (cl c force) (\<lambda>(n, c'). Inr (Code n, c'))"

fun calls_run :: "(timed_call \<Rightarrow> 'c \<Rightarrow> (cache_ret \<times> 'c) cres) \<Rightarrow> timed_call list \<Rightarrow> 'c \<Rightarrow> (cache_ret list \<times> 'c) cres" where
  "calls_run step [] c = Inr ([], c)"
| "calls_run step (x # xs) c =
     cbind (step x c) (\<lambda>(r, c1). cbind (calls_run step xs c1) (\<lambda>(rs, c2). Inr (r # rs, c2)))"

locale timed_cache =
  fixes holds :: "'c \<Rightarrow> cache_info list \<Rightarrow> ptr list \<Rightarrow> bool"
    and mx :: "'c \<Rightarrow> nat"
    and ttl :: "'c \<Rightarrow> int"
    and en :: "'c \<Rightarrow> int \<Rightarrow> byte list \<Rightarrow> ptr \<Rightarrow> (ptr \<times> 'c) cres"
    and fi :: "'c \<Rightarrow> byte list \<Rightarrow> (ptr \<times> 'c) cres"
    and de :: "'c \<Rightarrow> byte list \<Rightarrow> (int \<times> 'c) cres"
    and ti :: "'c \<Rightarrow> int \<Rightarrow> (int \<times> 'c) cres"
    and up :: "'c \<Rightarrow> int \<Rightarrow> byte list \<Rightarrow> int \<Rightarrow> 'c cres"
    and re :: "'c \<Rightarrow> byte list \<Rightarrow> 'c cres"
    and un :: "'c \<Rightarrow> byte list \<Rightarrow> 'c cres"
    and cl :: "'c \<Rightarrow> bool \<Rightarrow> (int \<times> 'c) cres"
  assumes enter: "holds c es fs \<Longrightarrow> cache_does holds mx ttl c fs (spec_enter (mx c) (ttl c) now k v es)
      (cbind (en c now k v) (\<lambda>(p, c'). Inr (Stored (p \<noteq> None), c')))"
    and find: "holds c es fs \<Longrightarrow> cache_does holds mx ttl c fs (spec_find k es) (cbind (fi c k) (\<lambda>(p, c'). Inr (Got p, c')))"
    and delete: "holds c es fs \<Longrightarrow> cache_does holds mx ttl c fs (spec_delete k es) (cbind (de c k) (\<lambda>(n, c'). Inr (Code n, c')))"
    and timeout: "holds c es fs \<Longrightarrow> cache_does holds mx ttl c fs (spec_timeout now es) (cbind (ti c now) (\<lambda>(n, c'). Inr (Code n, c')))"
    and update: "holds c es fs \<Longrightarrow> cache_does holds mx ttl c fs (spec_update now k t es) (cbind (up c now k t) (\<lambda>c'. Inr (Unit, c')))"
    and refer: "holds c es fs \<Longrightarrow> cache_does holds mx ttl c fs (spec_refer 1 k es) (cbind (re c k) (\<lambda>c'. Inr (Unit, c')))"
    and unrefer: "holds c es fs \<Longrightarrow> cache_does holds mx ttl c fs (spec_refer (-1) k es) (cbind (un c k) (\<lambda>c'. Inr (Unit, c')))"
    and clean: "holds c es fs \<Longrightarrow> cache_does holds mx ttl c fs (spec_clean force es) (cbind (cl c force) (\<lambda>(n, c'). Inr (Code n, c')))"
begin

lemma call_refines:
  assumes "holds c es fs"
  shows "cache_does holds mx ttl c fs (spec_call (mx c) (ttl c) x es) (cache_call en fi de ti up re un cl x c)"
proof -
  obtain now op where x: "x = (now, op)" by fastforce
  show ?thesis
    unfolding x using enter [OF assms] find [OF assms] delete [OF assms] timeout [OF assms] update [OF assms] refer [OF assms]
      unrefer [OF assms] clean [OF assms]
    by (cases op) simp_all
qed

lemma run_refines:
  assumes "holds c es fs" "spec_run (mx c) (ttl c) xs es = (rs, gs, es')"
  shows "\<exists>c'. calls_run (cache_call en fi de ti up re un cl) xs c = Inr (rs, c') \<and> holds c' es' (fs @ gs) \<and>
    mx c' = mx c \<and> ttl c' = ttl c"
  using assms
proof (induction xs arbitrary: c es fs rs gs)
  case (Cons x xs)
  obtain r f1 es1 where s1: "spec_call (mx c) (ttl c) x es = (r, f1, es1)" by (cases "spec_call (mx c) (ttl c) x es")
  obtain qs f2 where s2: "spec_run (mx c) (ttl c) xs es1 = (qs, f2, es')" "rs = r # qs" "gs = f1 @ f2"
    using Cons.prems(2) s1 by (auto split: prod.splits)
  obtain c1 where c1: "cache_call en fi de ti up re un cl x c = Inr (r, c1)" "holds c1 es1 (fs @ f1)" "mx c1 = mx c" "ttl c1 = ttl c"
    using call_refines [OF Cons.prems(1), of x] s1 by (auto simp: cache_does_def)
  have "spec_run (mx c1) (ttl c1) xs es1 = (qs, f2, es')" using s2(1) c1(3,4) by simp
  then obtain c2 where "calls_run (cache_call en fi de ti up re un cl) xs c1 = Inr (qs, c2)" "holds c2 es' ((fs @ f1) @ f2)"
      "mx c2 = mx c1" "ttl c2 = ttl c1"
    using Cons.IH [OF c1(2)] by blast
  with c1 s2 show ?case by auto
qed simp

text \<open>From an empty cache: never more entries than the bound, one per key, and each value that was taken in is
  either still there or has been handed to \<open>free_fn\<close> once.\<close>

lemma run_conserves:
  assumes "holds c [] []"
  shows "\<exists>rs c' es fs. calls_run (cache_call en fi de ti up re un cl) xs c = Inr (rs, c') \<and> holds c' es fs \<and>
    length es \<le> mx c \<and> distinct (keys es) \<and> length rs = length xs \<and>
    mset (concat (map2 taken xs rs)) = mset (map ci_value es) + mset fs"
proof -
  obtain rs gs es where s: "spec_run (mx c) (ttl c) xs [] = (rs, gs, es)" by (cases "spec_run (mx c) (ttl c) xs []")
  obtain c' where c': "calls_run (cache_call en fi de ti up re un cl) xs c = Inr (rs, c')" "holds c' es gs"
    using run_refines [OF assms s] by auto
  have "entries_ok (mx c) []" by (simp add: entries_ok_def)
  from spec_run_keeps [OF this s] c' show ?thesis by (auto simp: entries_ok_def)
qed

end

end
