(* ===== verification/Acl_Htable.thy ===== *)
theory Acl_Htable
  imports Acl_Interfaces Acl_Chain
begin

text \<open>
  The hash table of \<open>lib_acl/src/stdlib/common/acl_htable.c\<close>: an array \<open>data\<close> of chains of
  \<open>ACL_HTABLE_INFO\<close> nodes, doubly linked, that grows when it has as many entries as chains. The
  nodes live in the store \<open>ht_nodes\<close>; \<open>ht_brk\<close> is the address of the next node the allocator
  gives out. A key is the list of its bytes; a key whose memory has been released is \<open>None\<close>, and
  comparing with it is a fault. With \<open>ACL_HTABLE_FLAG_KEY_REUSE\<close> the node points to the caller's key,
  which is assumed to stay as it is. The flag word is three bits; keys have no NUL byte, and sizes and counts are natural numbers
  (a table stays below \<open>2 ^ 31\<close> chains). Loops along a chain get as
  many steps as the table has entries, and a longer walk is a fault. The lock of a table that
  is shared between threads is not part of the model.
\<close>

section \<open>Nodes and tables\<close>

record hent =
  he_key :: "byte list option"
  he_hash :: "32 word"
  he_value :: ptr

datatype hstatus = STAT_OK | STAT_INVAL | STAT_DUPLEX_KEY

record htable =
  ht_data :: "ptr list"
  ht_size :: nat
  ht_used :: nat
  ht_init_size :: int
  ht_key_reuse :: bool
  ht_mslook :: bool
  ht_key_lower :: bool
  ht_hash_fn :: "byte list \<Rightarrow> 32 word"
  ht_status :: hstatus
  ht_nodes :: "addr \<rightharpoonup> hent cnode"
  ht_brk :: addr

definition bucket :: "htable \<Rightarrow> nat \<Rightarrow> ptr cres" where
  "bucket t n = (if n < length (ht_data t) then Inr (ht_data t ! n) else Inl OobRead)"

definition set_bucket :: "htable \<Rightarrow> nat \<Rightarrow> ptr \<Rightarrow> htable cres" where
  "set_bucket t n p = (if n < length (ht_data t) then Inr (t\<lparr>ht_data := (ht_data t)[n := p]\<rparr>) else Inl OobWrite)"

definition h_alloc :: "htable \<Rightarrow> hent \<Rightarrow> addr \<times> htable" where
  "h_alloc t e =
     (ht_brk t, t\<lparr>ht_nodes := (ht_nodes t)(ht_brk t \<mapsto> \<lparr>cn_data = e, cn_prev = None, cn_next = None\<rparr>),
                  ht_brk := Suc (ht_brk t)\<rparr>)"

section \<open>Hashing and creating\<close>

text \<open>The default hash: \<open>h\<close> is an \<open>unsigned long\<close> of 64 bits.\<close>

fun def_hash_loop :: "64 word \<Rightarrow> byte list \<Rightarrow> 64 word" where
  "def_hash_loop h [] = h"
| "def_hash_loop h (c # cs) =
     (let h1 = push_bit 4 h + ucast c; g = h1 AND 0xf0000000
      in def_hash_loop (if g \<noteq> 0 then (h1 XOR drop_bit 24 g) XOR g else h1) cs)"

definition def_hash_fn :: "byte list \<Rightarrow> 32 word" where
  "def_hash_fn s = ucast (def_hash_loop 0 s)"

definition to_lower :: "byte \<Rightarrow> byte" where
  "to_lower c = (if 65 \<le> c \<and> c \<le> 90 then c + 32 else c)"

definition acl_lowercase :: "byte list \<Rightarrow> byte list" where
  "acl_lowercase s = map to_lower s"

definition key_of :: "htable \<Rightarrow> byte list \<Rightarrow> byte list" where
  "key_of t key_in = (if ht_key_lower t then acl_lowercase key_in else key_in)"

definition htable_size :: "htable \<Rightarrow> nat \<Rightarrow> htable" where
  "htable_size t n =
     (let sz = (if even n then n + 1 else n)
      in t\<lparr>ht_data := replicate sz None, ht_size := sz, ht_used := 0\<rparr>)"

definition acl_htable_create3 :: "int \<Rightarrow> bool \<Rightarrow> bool \<Rightarrow> bool \<Rightarrow> htable" where
  "acl_htable_create3 sz reuse mslook lower =
     htable_size
       \<lparr>ht_data = [], ht_size = 0, ht_used = 0, ht_init_size = sz, ht_key_reuse = reuse, ht_mslook = mslook,
        ht_key_lower = lower, ht_hash_fn = def_hash_fn, ht_status = STAT_OK, ht_nodes = Map.empty, ht_brk = 0\<rparr>
       (nat (if sz < 13 then 13 else sz))"

definition acl_htable_create :: "int \<Rightarrow> bool \<Rightarrow> bool \<Rightarrow> bool \<Rightarrow> htable" where
  "acl_htable_create sz reuse mslook lower = acl_htable_create3 sz reuse mslook lower"

text \<open>\<open>acl_htable_ctl\<close> with \<open>ACL_HTABLE_CTL_HASH_FN\<close>; a NULL function is the default one.\<close>

definition acl_htable_ctl_hash :: "htable \<Rightarrow> (byte list \<Rightarrow> 32 word) option \<Rightarrow> htable" where
  "acl_htable_ctl_hash t f = t\<lparr>ht_hash_fn := (case f of None \<Rightarrow> def_hash_fn | Some g \<Rightarrow> g)\<rparr>"

text \<open>The functions that accept a NULL table take an option.\<close>

definition acl_htable_errno :: "htable option \<Rightarrow> hstatus" where
  "acl_htable_errno table = (case table of None \<Rightarrow> STAT_INVAL | Some t \<Rightarrow> ht_status t)"

definition acl_htable_set_errno :: "htable option \<Rightarrow> hstatus \<Rightarrow> htable option" where
  "acl_htable_set_errno table e = (case table of None \<Rightarrow> None | Some t \<Rightarrow> Some (t\<lparr>ht_status := e\<rparr>))"

section \<open>Chains\<close>

definition htable_link :: "htable \<Rightarrow> ptr \<Rightarrow> nat \<Rightarrow> htable cres" where
  "htable_link t element n =
     cbind (bucket t n) (\<lambda>h.
     cbind (cwrite (ht_nodes t) element (\<lambda>v. v\<lparr>cn_prev := None, cn_next := h\<rparr>)) (\<lambda>s1.
     cbind (if h \<noteq> None then cwrite s1 h (\<lambda>v. v\<lparr>cn_prev := element\<rparr>) else Inr s1) (\<lambda>s2.
     cbind (set_bucket (t\<lparr>ht_nodes := s2\<rparr>) n element) (\<lambda>t1.
       Inr (t1\<lparr>ht_used := ht_used t1 + 1\<rparr>)))))"

fun grow_chain :: "nat \<Rightarrow> htable \<Rightarrow> ptr \<Rightarrow> htable cres" where
  "grow_chain 0 t p = (if p = None then Inr t else Inl OutOfFuel)"
| "grow_chain (Suc k) t p =
     (if p = None then Inr t
      else cbind (cread (ht_nodes t) p) (\<lambda>v.
           case he_key (cn_data v) of
             None \<Rightarrow> Inl OobRead
           | Some key \<Rightarrow>
               cbind (htable_link t p (unat (ht_hash_fn t key) mod ht_size t)) (\<lambda>t1.
                 grow_chain k t1 (cn_next v))))"

fun grow_chains :: "nat \<Rightarrow> htable \<Rightarrow> ptr list \<Rightarrow> htable cres" where
  "grow_chains k t [] = Inr t"
| "grow_chains k t (p # ps) = cbind (grow_chain k t p) (\<lambda>t1. grow_chains k t1 ps)"

definition htable_grow :: "htable \<Rightarrow> htable cres" where
  "htable_grow t = grow_chains (ht_used t) (htable_size t (2 * ht_size t)) (ht_data t)"

fun chain_find :: "nat \<Rightarrow> (addr \<rightharpoonup> hent cnode) \<Rightarrow> ptr \<Rightarrow> byte list \<Rightarrow> ptr cres" where
  "chain_find 0 s p key = (if p = None then Inr None else Inl OutOfFuel)"
| "chain_find (Suc k) s p key =
     (if p = None then Inr None
      else cbind (cread s p) (\<lambda>v.
           case he_key (cn_data v) of
             None \<Rightarrow> Inl OobRead
           | Some c_key \<Rightarrow> if key = c_key then Inr p else chain_find k s (cn_next v) key))"

section \<open>Operations\<close>

definition acl_htable_enter :: "htable \<Rightarrow> byte list \<Rightarrow> ptr \<Rightarrow> (ptr \<times> htable) cres" where
  "acl_htable_enter t key_in val =
     (let key = key_of t key_in; t0 = t\<lparr>ht_status := STAT_OK\<rparr>; hash = ht_hash_fn t0 key
      in cbind (if ht_used t0 \<ge> ht_size t0 then htable_grow t0 else Inr t0) (\<lambda>t1.
         let n = unat hash mod ht_size t1
         in cbind (bucket t1 n) (\<lambda>p.
            cbind (chain_find (ht_used t1) (ht_nodes t1) p key) (\<lambda>ht.
              if ht \<noteq> None then Inr (ht, t1\<lparr>ht_status := STAT_DUPLEX_KEY\<rparr>)
              else
                (let c_key = (if ht_key_reuse t1 \<and> ht_key_lower t1 then None else Some key);
                     (a, t2) = h_alloc t1 \<lparr>he_key = c_key, he_hash = hash, he_value = val\<rparr>
                 in cbind (htable_link t2 (Some a) n) (\<lambda>t3. Inr (Some a, t3)))))))"

text \<open>The variant for shared tables returns 0 and calls \<open>callback\<close> on the node: the second component.\<close>

definition acl_htable_enter_r :: "htable \<Rightarrow> byte list \<Rightarrow> ptr \<Rightarrow> (int \<times> ptr \<times> htable) cres" where
  "acl_htable_enter_r t key_in val =
     (let key = key_of t key_in; hash = ht_hash_fn t key; t0 = t\<lparr>ht_status := STAT_OK\<rparr>
      in cbind (if ht_used t0 \<ge> ht_size t0 then htable_grow t0 else Inr t0) (\<lambda>t1.
         let n = unat hash mod ht_size t1
         in cbind (bucket t1 n) (\<lambda>p.
            cbind (chain_find (ht_used t1) (ht_nodes t1) p key) (\<lambda>ht.
              if ht \<noteq> None then Inr (0, ht, t1\<lparr>ht_status := STAT_DUPLEX_KEY\<rparr>)
              else
                (let c_key = (if ht_key_reuse t1 \<and> ht_key_lower t1 then None else Some key);
                     (a, t2) = h_alloc t1 \<lparr>he_key = c_key, he_hash = hash, he_value = val\<rparr>
                 in cbind (htable_link t2 (Some a) n) (\<lambda>t3. Inr (0, Some a, t3)))))))"

text \<open>With \<open>ACL_HTABLE_FLAG_MSLOOK\<close> a node that is found moves to the front of its chain.\<close>

definition move_front :: "htable \<Rightarrow> nat \<Rightarrow> ptr \<Rightarrow> htable cres" where
  "move_front t n ht =
     cbind (bucket t n) (\<lambda>hd0.
     if ht = hd0 then Inr t
     else
       cbind (cread (ht_nodes t) ht) (\<lambda>v.
       cbind (if cn_next v \<noteq> None then
                cbind (cwrite (ht_nodes t) (cn_prev v) (\<lambda>w. w\<lparr>cn_next := cn_next v\<rparr>)) (\<lambda>s1.
                cbind (cread s1 ht) (\<lambda>v1.
                  cwrite s1 (cn_next v1) (\<lambda>w. w\<lparr>cn_prev := cn_prev v1\<rparr>)))
              else cwrite (ht_nodes t) (cn_prev v) (\<lambda>w. w\<lparr>cn_next := None\<rparr>)) (\<lambda>s2.
       cbind (cwrite s2 hd0 (\<lambda>w. w\<lparr>cn_prev := ht\<rparr>)) (\<lambda>s3.
       cbind (cwrite s3 ht (\<lambda>w. w\<lparr>cn_prev := None, cn_next := hd0\<rparr>)) (\<lambda>s4.
         set_bucket (t\<lparr>ht_nodes := s4\<rparr>) n ht)))))"

definition acl_htable_locate :: "htable \<Rightarrow> byte list \<Rightarrow> (ptr \<times> htable) cres" where
  "acl_htable_locate t key_in =
     (let key = key_of t key_in; n = unat (ht_hash_fn t key) mod ht_size t
      in cbind (bucket t n) (\<lambda>p.
         cbind (chain_find (ht_used t) (ht_nodes t) p key) (\<lambda>ht.
           if ht = None then Inr (None, t)
           else if \<not> ht_mslook t then Inr (ht, t)
           else cbind (move_front t n ht) (\<lambda>t1. Inr (ht, t1)))))"

definition acl_htable_find :: "htable \<Rightarrow> byte list \<Rightarrow> (ptr \<times> htable) cres" where
  "acl_htable_find t key =
     cbind (acl_htable_locate t key) (\<lambda>(ht, t1).
       if ht \<noteq> None then cbind (cread (ht_nodes t1) ht) (\<lambda>v. Inr (he_value (cn_data v), t1))
       else Inr (None, t1))"

text \<open>The variants for shared tables; the result has what \<open>callback\<close> is called on, if it is.\<close>

definition acl_htable_find_r :: "htable \<Rightarrow> byte list \<Rightarrow> (int \<times> ptr option \<times> htable) cres" where
  "acl_htable_find_r t key_in =
     (let key = key_of t key_in; n = unat (ht_hash_fn t key) mod ht_size t
      in cbind (bucket t n) (\<lambda>p.
         cbind (chain_find (ht_used t) (ht_nodes t) p key) (\<lambda>ht.
           if ht = None then Inr (-1, None, t)
           else
             cbind (cread (ht_nodes t) ht) (\<lambda>v.
             if \<not> ht_mslook t then Inr (0, Some (he_value (cn_data v)), t)
             else cbind (move_front t n ht) (\<lambda>t1. Inr (0, Some (he_value (cn_data v)), t1))))))"

definition acl_htable_locate_r :: "htable \<Rightarrow> byte list \<Rightarrow> (int \<times> ptr) cres" where
  "acl_htable_locate_r t key_in =
     (let key = key_of t key_in; n = unat (ht_hash_fn t key) mod ht_size t
      in cbind (bucket t n) (\<lambda>p.
         cbind (chain_find (ht_used t) (ht_nodes t) p key) (\<lambda>ht.
           Inr (if ht = None then (-1, None) else (0, ht)))))"

text \<open>Deleting gives what \<open>free_fn\<close>, if there is one, is called on.\<close>

definition acl_htable_delete_entry :: "htable \<Rightarrow> ptr \<Rightarrow> bool \<Rightarrow> (ptr list \<times> htable) cres" where
  "acl_htable_delete_entry t ht free_fn =
     cbind (cread (ht_nodes t) ht) (\<lambda>v.
     let n = unat (he_hash (cn_data v)) mod ht_size t
     in cbind (if cn_next v \<noteq> None then cwrite (ht_nodes t) (cn_next v) (\<lambda>w. w\<lparr>cn_prev := cn_prev v\<rparr>)
               else Inr (ht_nodes t)) (\<lambda>s1.
        cbind (cread s1 ht) (\<lambda>v1.
        cbind (if cn_prev v1 \<noteq> None then
                 cbind (cwrite s1 (cn_prev v1) (\<lambda>w. w\<lparr>cn_next := cn_next v1\<rparr>)) (\<lambda>s2. Inr (t\<lparr>ht_nodes := s2\<rparr>))
               else set_bucket (t\<lparr>ht_nodes := s1\<rparr>) n (cn_next v1)) (\<lambda>t1.
        cbind (cread (ht_nodes t1) ht) (\<lambda>v2.
        cbind (cfree (ht_nodes t1) ht) (\<lambda>s3.
          Inr (if free_fn \<and> he_value (cn_data v2) \<noteq> None then [he_value (cn_data v2)] else [],
               t1\<lparr>ht_nodes := s3, ht_used := ht_used t1 - 1\<rparr>)))))))"

definition acl_htable_delete :: "htable \<Rightarrow> byte list \<Rightarrow> bool \<Rightarrow> (int \<times> ptr list \<times> htable) cres" where
  "acl_htable_delete t key_in free_fn =
     (let key = key_of t key_in; n = unat (ht_hash_fn t key) mod ht_size t
      in cbind (bucket t n) (\<lambda>p.
         cbind (chain_find (ht_used t) (ht_nodes t) p key) (\<lambda>ht.
           if ht \<noteq> None then
             cbind (acl_htable_delete_entry t ht free_fn) (\<lambda>(fs, t1). Inr (0, fs, t1))
           else Inr (-1, [], t))))"

text \<open>Freeing all nodes, chain after chain: what \<open>free_fn\<close> is called on, and the store.\<close>

fun free_chain :: "nat \<Rightarrow> (addr \<rightharpoonup> hent cnode) \<Rightarrow> ptr \<Rightarrow> bool \<Rightarrow> (ptr list \<times> (addr \<rightharpoonup> hent cnode)) cres" where
  "free_chain 0 s p free_fn = (if p = None then Inr ([], s) else Inl OutOfFuel)"
| "free_chain (Suc k) s p free_fn =
     (if p = None then Inr ([], s)
      else cbind (cread s p) (\<lambda>v.
           cbind (cfree s p) (\<lambda>s1.
           cbind (free_chain k s1 (cn_next v) free_fn) (\<lambda>(fs, s2).
             Inr (if free_fn \<and> he_value (cn_data v) \<noteq> None then he_value (cn_data v) # fs else fs, s2)))))"

fun free_chains :: "nat \<Rightarrow> (addr \<rightharpoonup> hent cnode) \<Rightarrow> ptr list \<Rightarrow> bool \<Rightarrow> (ptr list \<times> (addr \<rightharpoonup> hent cnode)) cres" where
  "free_chains k s [] free_fn = Inr ([], s)"
| "free_chains k s (p # ps) free_fn =
     cbind (free_chain k s p free_fn) (\<lambda>(fs, s1).
     cbind (free_chains k s1 ps free_fn) (\<lambda>(gs, s2). Inr (fs @ gs, s2)))"

definition acl_htable_free :: "htable \<Rightarrow> bool \<Rightarrow> (ptr list \<times> (addr \<rightharpoonup> hent cnode)) cres" where
  "acl_htable_free t free_fn = free_chains (ht_used t) (ht_nodes t) (ht_data t) free_fn"

definition acl_htable_reset :: "htable \<Rightarrow> bool \<Rightarrow> (int \<times> ptr list \<times> htable) cres" where
  "acl_htable_reset t free_fn =
     cbind (free_chains (ht_used t) (ht_nodes t) (ht_data t) free_fn) (\<lambda>(fs, s).
       Inr (0, fs, htable_size (t\<lparr>ht_nodes := s\<rparr>) (nat (if ht_init_size t < 13 then 13 else ht_init_size t))))"

text \<open>The nodes \<open>acl_htable_walk\<close> calls \<open>action\<close> on, and \<open>acl_htable_list\<close> puts into its array of \<open>used + 1\<close>
  cells, the last of them for the NULL at the end.\<close>

fun walk_chain :: "nat \<Rightarrow> (addr \<rightharpoonup> hent cnode) \<Rightarrow> ptr \<Rightarrow> ptr list cres" where
  "walk_chain 0 s p = (if p = None then Inr [] else Inl OutOfFuel)"
| "walk_chain (Suc k) s p =
     (if p = None then Inr []
      else cbind (cread s p) (\<lambda>v. cbind (walk_chain k s (cn_next v)) (\<lambda>ps. Inr (p # ps))))"

fun walk_chains :: "nat \<Rightarrow> (addr \<rightharpoonup> hent cnode) \<Rightarrow> ptr list \<Rightarrow> ptr list cres" where
  "walk_chains k s [] = Inr []"
| "walk_chains k s (p # ps) =
     cbind (walk_chain k s p) (\<lambda>qs. cbind (walk_chains k s ps) (\<lambda>rs. Inr (qs @ rs)))"

definition acl_htable_walk :: "htable \<Rightarrow> ptr list cres" where
  "acl_htable_walk t = walk_chains (ht_used t) (ht_nodes t) (ht_data t)"

definition acl_htable_list :: "htable option \<Rightarrow> ptr list cres" where
  "acl_htable_list table =
     (case table of
        None \<Rightarrow> Inr [None]
      | Some t \<Rightarrow>
          cbind (walk_chains (ht_used t) (ht_nodes t) (ht_data t)) (\<lambda>ps.
            if length ps + 1 \<le> ht_used t + 1 then Inr (ps @ [None]) else Inl OobWrite))"

definition acl_htable_size :: "htable option \<Rightarrow> nat" where
  "acl_htable_size table = (case table of None \<Rightarrow> 0 | Some t \<Rightarrow> ht_size t)"

definition acl_htable_used :: "htable option \<Rightarrow> nat" where
  "acl_htable_used table = (case table of None \<Rightarrow> 0 | Some t \<Rightarrow> ht_used t)"

definition acl_htable_data :: "htable \<Rightarrow> ptr list" where
  "acl_htable_data t = ht_data t"

text \<open>The iterators: the index of a chain and a node of it.\<close>

fun scan_up :: "nat \<Rightarrow> nat \<Rightarrow> htable \<Rightarrow> (nat \<times> ptr) cres" where
  "scan_up 0 i t = Inr (i, None)"
| "scan_up (Suc k) i t = cbind (bucket t i) (\<lambda>p. if p \<noteq> None then Inr (i, p) else scan_up k (Suc i) t)"

definition acl_htable_iter_head :: "htable \<Rightarrow> (nat \<times> ptr) cres" where
  "acl_htable_iter_head t = scan_up (ht_size t) 0 t"

definition acl_htable_iter_next :: "htable \<Rightarrow> nat \<times> ptr \<Rightarrow> (nat \<times> ptr) cres" where
  "acl_htable_iter_next t it =
     cbind (if snd it \<noteq> None then cbind (cread (ht_nodes t) (snd it)) (\<lambda>v. Inr (cn_next v)) else Inr None) (\<lambda>p.
       if p \<noteq> None then Inr (fst it, p) else scan_up (ht_size t - Suc (fst it)) (Suc (fst it)) t)"

fun htable_foreach :: "nat \<Rightarrow> htable \<Rightarrow> nat \<times> ptr \<Rightarrow> ptr list cres" where
  "htable_foreach 0 t it = (if snd it = None then Inr [] else Inl OutOfFuel)"
| "htable_foreach (Suc k) t it =
     (if snd it = None then Inr []
      else cbind (acl_htable_iter_next t it) (\<lambda>it1.
           cbind (htable_foreach k t it1) (\<lambda>ps. Inr (snd it # ps))))"

section \<open>Well-formed tables\<close>

text \<open>
  \<open>hlinked t cs\<close>: chain \<open>i\<close> of the table consists of the nodes \<open>cs i\<close>; no node is in two chains, and
  \<open>used\<close> counts them. \<open>entries t cs\<close> is the set of all nodes; \<open>placed\<close> says that a node is in the
  chain its key hashes to.
\<close>

definition hlinked :: "htable \<Rightarrow> (nat \<Rightarrow> (addr \<times> hent) list) \<Rightarrow> bool" where
  "hlinked t cs \<longleftrightarrow>
     0 < ht_size t \<and> length (ht_data t) = ht_size t \<and>
     (\<forall>i<ht_size t. ht_data t ! i = first_of (cs i) None \<and> cseg (ht_nodes t) None (cs i) None \<and>
        distinct (map fst (cs i)) \<and> (\<forall>j<ht_size t. i \<noteq> j \<longrightarrow> fst ` set (cs i) \<inter> fst ` set (cs j) = {})) \<and>
     ht_used t = (\<Sum>i<ht_size t. length (cs i)) \<and> (\<forall>a\<in>dom (ht_nodes t). a < ht_brk t)"

definition entries :: "htable \<Rightarrow> (nat \<Rightarrow> (addr \<times> hent) list) \<Rightarrow> (addr \<times> hent) set" where
  "entries t cs = (\<Union>i<ht_size t. set (cs i))"

definition chain_of :: "htable \<Rightarrow> byte list \<Rightarrow> nat" where
  "chain_of t key = unat (ht_hash_fn t key) mod ht_size t"

definition placed :: "htable \<Rightarrow> nat \<Rightarrow> addr \<times> hent \<Rightarrow> bool" where
  "placed t i n \<longleftrightarrow>
     (\<exists>key. he_key (snd n) = Some key \<and> he_hash (snd n) = ht_hash_fn t key \<and> chain_of t key = i)"

definition hwf :: "htable \<Rightarrow> (nat \<Rightarrow> (addr \<times> hent) list) \<Rightarrow> bool" where
  "hwf t cs \<longleftrightarrow>
     hlinked t cs \<and> (\<forall>i<ht_size t. \<forall>n\<in>set (cs i). placed t i n) \<and>
     inj_on (\<lambda>n. he_key (snd n)) (entries t cs)"

lemma hlinkedD:
  assumes "hlinked t cs"
  shows "0 < ht_size t" "length (ht_data t) = ht_size t" "ht_used t = (\<Sum>i<ht_size t. length (cs i))"
    "\<And>a. a \<in> dom (ht_nodes t) \<Longrightarrow> a < ht_brk t"
    "\<And>i. i < ht_size t \<Longrightarrow> ht_data t ! i = first_of (cs i) None"
    "\<And>i. i < ht_size t \<Longrightarrow> cseg (ht_nodes t) None (cs i) None"
    "\<And>i. i < ht_size t \<Longrightarrow> distinct (map fst (cs i))"
    "\<And>i j. i < ht_size t \<Longrightarrow> j < ht_size t \<Longrightarrow> i \<noteq> j \<Longrightarrow> fst ` set (cs i) \<inter> fst ` set (cs j) = {}"
  using assms unfolding hlinked_def by blast+

lemma chain_of_less: "hlinked t cs \<Longrightarrow> chain_of t key < ht_size t"
  using hlinkedD(1) by (simp add: chain_of_def)

lemma chain_le_used:
  assumes "hlinked t cs" "i < ht_size t"
  shows "length (cs i) \<le> ht_used t"
proof -
  have "length (cs i) \<le> (\<Sum>i<ht_size t. length (cs i))"
    by (rule member_le_sum) (use assms(2) in auto)
  then show ?thesis using hlinkedD(3) [OF assms(1)] by simp
qed

lemma chain_find_seg:
  assumes "cseg s p ns None" "length ns \<le> k" "\<And>n. n \<in> set ns \<Longrightarrow> he_key (snd n) \<noteq> None"
  shows "chain_find k s (first_of ns None) key =
    Inr (case find (\<lambda>n. he_key (snd n) = Some key) ns of None \<Rightarrow> None | Some n \<Rightarrow> Some (fst n))"
  using assms
proof (induction ns arbitrary: p k)
  case Nil
  then show ?case by (cases k) auto
next
  case (Cons n ns)
  then obtain j where k: "k = Suc j" "length ns \<le> j" by (cases k) auto
  have "chain_find j s (first_of ns None) key =
      Inr (case find (\<lambda>n. he_key (snd n) = Some key) ns of None \<Rightarrow> None | Some n \<Rightarrow> Some (fst n))"
    by (rule Cons.IH [of "Some (fst n)"]) (use Cons.prems k in auto)
  with k Cons.prems show ?case by (auto split: option.splits)
qed

text \<open>Changing one chain.\<close>

lemma hlinked_update:
  assumes "hlinked t cs" "n < ht_size t" "cseg h None c None" "distinct (map fst c)"
    "\<And>a i. i < ht_size t \<Longrightarrow> i \<noteq> n \<Longrightarrow> a \<in> fst ` set (cs i) \<Longrightarrow> h a = ht_nodes t a"
    "\<And>i. i < ht_size t \<Longrightarrow> i \<noteq> n \<Longrightarrow> fst ` set c \<inter> fst ` set (cs i) = {}"
    "\<And>a. a \<in> dom h \<Longrightarrow> a < b" "u + length (cs n) = ht_used t + length c"
  shows "hlinked (t\<lparr>ht_nodes := h, ht_data := (ht_data t)[n := first_of c None], ht_used := u, ht_brk := b\<rparr>) (cs(n := c))"
proof -
  note t = hlinkedD [OF assms(1)]
  have seg: "cseg h None (cs i) None" if "i < ht_size t" "i \<noteq> n" for i
  proof -
    have "cseg h p ns q = cseg (ht_nodes t) p ns q" if "\<And>a. a \<in> fst ` set ns \<Longrightarrow> h a = ht_nodes t a" for p ns q
      using that by (induction ns arbitrary: p) auto
    then show ?thesis using assms(5) [OF that] t(6) [OF that(1)] by blast
  qed
  have "(\<Sum>i<ht_size t. length ((cs(n := c)) i)) + length (cs n) = (\<Sum>i<ht_size t. length (cs i)) + length c"
    using sum.remove [of "{..<ht_size t}" n "\<lambda>i. length (cs i)"]
      sum.remove [of "{..<ht_size t}" n "\<lambda>i. length ((cs(n := c)) i)"] assms(2) by simp
  with assms(8) t(3) have u: "u = (\<Sum>i<ht_size t. length ((cs(n := c)) i))" by linarith
  show ?thesis
    unfolding hlinked_def
    using t(1,2,5,7,8) seg u assms(2,3,4,6,7) by (auto simp: nth_list_update Int_commute)
qed

lemma entries_update:
  "n < ht_size t \<Longrightarrow> entries (t\<lparr>ht_nodes := h, ht_data := d, ht_used := u, ht_brk := b\<rparr>) (cs(n := c)) =
     set c \<union> (\<Union>i\<in>{..<ht_size t} - {n}. set (cs i))"
  by (auto simp: entries_def split: if_splits)

section \<open>The operations on chains\<close>

lemma htable_link_linked:
  assumes "hlinked t cs" "n < ht_size t" "ht_nodes t a = Some v" "\<And>i. i < ht_size t \<Longrightarrow> a \<notin> fst ` set (cs i)"
  shows "\<exists>h. htable_link t (Some a) n =
      Inr (t\<lparr>ht_nodes := h, ht_data := (ht_data t)[n := Some a], ht_used := ht_used t + 1\<rparr>) \<and>
    hlinked (t\<lparr>ht_nodes := h, ht_data := (ht_data t)[n := Some a], ht_used := ht_used t + 1\<rparr>)
      (cs(n := (a, cn_data v) # cs n)) \<and>
    (\<forall>x. x \<notin> insert a (fst ` set (cs n)) \<longrightarrow> h x = ht_nodes t x)"
proof -
  note t = hlinkedD [OF assms(1)]
  let ?a = "\<lparr>cn_data = cn_data v, cn_prev = None, cn_next = first_of (cs n) None\<rparr>"
  have a: "v\<lparr>cn_prev := x, cn_next := y\<rparr> = \<lparr>cn_data = cn_data v, cn_prev = x, cn_next = y\<rparr>" for x y
    by (cases v) simp
  have bk: "bucket t n = Inr (first_of (cs n) None)" using t(2) t(5) [OF assms(2)] assms(2) by (simp add: bucket_def)
  define h where "h = (case cs n of
      [] \<Rightarrow> (ht_nodes t)(a \<mapsto> ?a)
    | c # cr \<Rightarrow> (ht_nodes t)(a \<mapsto> ?a, fst c \<mapsto> \<lparr>cn_data = snd c, cn_prev = Some a, cn_next = first_of cr None\<rparr>))"
  have new: "a \<notin> fst ` set (cs n)" by (rule assms(4) [OF assms(2)])
  have link: "htable_link t (Some a) n =
      Inr (t\<lparr>ht_nodes := h, ht_data := (ht_data t)[n := Some a], ht_used := ht_used t + 1\<rparr>)"
  proof (cases "cs n")
    case Nil
    then show ?thesis using bk assms(2,3) t(2)
      by (simp add: htable_link_def h_def set_bucket_def a)
  next
    case (Cons c cr)
    then have "ht_nodes t (fst c) = Some \<lparr>cn_data = snd c, cn_prev = None, cn_next = first_of cr None\<rparr>" "fst c \<noteq> a"
      using t(6) [OF assms(2)] new by auto
    then show ?thesis using Cons bk assms(2,3) t(2)
      by (simp add: htable_link_def h_def set_bucket_def a)
  qed
  have seg: "cseg h None ((a, cn_data v) # cs n) None"
  proof (cases "cs n")
    case (Cons c cr)
    then have "fst c \<noteq> a" "a \<notin> fst ` set cr" "fst c \<notin> fst ` set cr" using new t(7) [OF assms(2)] by auto
    then show ?thesis using Cons t(6) [OF assms(2)] by (simp add: h_def cseg_frame)
  qed (simp add: h_def)
  have out: "h x = ht_nodes t x" if "x \<notin> insert a (fst ` set (cs n))" for x
    using that by (cases "cs n") (auto simp: h_def)
  have dom: "x < ht_brk t" if "x \<in> dom h" for x
    using that t(4) assms(3) t(6) [OF assms(2)] by (cases "cs n") (auto simp: h_def split: if_splits)
  have dis: "a \<notin> fst ` set (cs i)" "fst ` set (cs n) \<inter> fst ` set (cs i) = {}" if "i < ht_size t" "i \<noteq> n" for i
    using assms(4) [OF that(1)] t(8) [OF assms(2) that(1)] that(2) by auto
  have "hlinked (t\<lparr>ht_nodes := h, ht_data := (ht_data t)[n := first_of ((a, cn_data v) # cs n) None],
      ht_used := ht_used t + 1, ht_brk := ht_brk t\<rparr>) (cs(n := (a, cn_data v) # cs n))"
  proof (rule hlinked_update [OF assms(1,2) seg _ _ _ dom])
    show "distinct (map fst ((a, cn_data v) # cs n))" using new t(7) [OF assms(2)] by simp
    show "h x = ht_nodes t x" if "i < ht_size t" "i \<noteq> n" "x \<in> fst ` set (cs i)" for x i
      using dis [OF that(1,2)] that(3) by (intro out) auto
    show "fst ` set ((a, cn_data v) # cs n) \<inter> fst ` set (cs i) = {}" if "i < ht_size t" "i \<noteq> n" for i
      using dis [OF that] by simp
  qed simp_all
  then show ?thesis using link out by auto
qed

lemma chain_split:
  assumes "hlinked t cs" "n < ht_size t" "cs n = as @ x # bs"
  shows "cseg (ht_nodes t) None as (Some (fst x))" "cseg (ht_nodes t) (Some (fst x)) bs None"
    "ht_nodes t (fst x) = Some \<lparr>cn_data = snd x, cn_prev = last_of as None, cn_next = first_of bs None\<rparr>"
    "distinct (map fst as)" "distinct (map fst bs)" "fst ` set as \<inter> fst ` set bs = {}"
    "fst x \<notin> fst ` set as" "fst x \<notin> fst ` set bs"
  using hlinkedD(6,7) [OF assms(1,2)] assms(3) by (auto simp: cseg_append)

text \<open>The relinking of one chain is seen by that chain only.\<close>

lemma hlinked_rechain:
  assumes "hlinked t cs" "n < ht_size t" "cseg h None c None" "distinct (map fst c)" "fst ` set c \<subseteq> fst ` set (cs n)"
    "\<And>a. a \<notin> fst ` set (cs n) \<Longrightarrow> h a = ht_nodes t a" "dom h \<subseteq> dom (ht_nodes t)"
    "u + length (cs n) = ht_used t + length c"
  shows "hlinked (t\<lparr>ht_nodes := h, ht_data := (ht_data t)[n := first_of c None], ht_used := u\<rparr>) (cs(n := c))"
proof -
  note t = hlinkedD [OF assms(1)]
  have dis: "fst ` set (cs n) \<inter> fst ` set (cs i) = {}" if "i < ht_size t" "i \<noteq> n" for i
    using t(8) [OF assms(2) that(1)] that(2) by simp
  have "hlinked (t\<lparr>ht_nodes := h, ht_data := (ht_data t)[n := first_of c None], ht_used := u, ht_brk := ht_brk t\<rparr>) (cs(n := c))"
  proof (rule hlinked_update [OF assms(1-4) _ _ _ assms(8)])
    show "h a = ht_nodes t a" if "i < ht_size t" "i \<noteq> n" "a \<in> fst ` set (cs i)" for a i
      using dis [OF that(1,2)] that(3) by (intro assms(6)) auto
    show "fst ` set c \<inter> fst ` set (cs i) = {}" if "i < ht_size t" "i \<noteq> n" for i
      using dis [OF that] assms(5) by blast
    show "a < ht_brk t" if "a \<in> dom h" for a using that assms(7) t(4) by blast
  qed
  then show ?thesis by simp
qed

lemma delete_entry_linked:
  assumes "hlinked t cs" "n < ht_size t" "cs n = as @ x # bs" "unat (he_hash (snd x)) mod ht_size t = n"
  shows "\<exists>h d. acl_htable_delete_entry t (Some (fst x)) free_fn =
      Inr (if free_fn \<and> he_value (snd x) \<noteq> None then [he_value (snd x)] else [],
           t\<lparr>ht_nodes := h, ht_data := d, ht_used := ht_used t - 1\<rparr>) \<and>
    hlinked (t\<lparr>ht_nodes := h, ht_data := d, ht_used := ht_used t - 1\<rparr>) (cs(n := as @ bs))"
proof -
  note c = chain_split [OF assms(1-3)]
  define s1 where "s1 = set_prev (ht_nodes t) bs (last_of as None) None"
  define s2 where "s2 = set_next s1 None as (first_of bs None)"
  define d where "d = (ht_data t)[n := first_of (as @ bs) None]"
  have x1: "s1 (fst x) = ht_nodes t (fst x)" "s2 (fst x) = ht_nodes t (fst x)"
    using c(7,8) by (simp_all add: s1_def s2_def set_prev_other set_next_other)
  have as1: "cseg s1 None as (Some (fst x))"
    using c(1,6) by (simp add: s1_def cseg_set_prev_other)
  have w1: "(if first_of bs None \<noteq> None then cwrite (ht_nodes t) (first_of bs None) (\<lambda>w. w\<lparr>cn_prev := last_of as None\<rparr>)
      else Inr (ht_nodes t)) = Inr s1"
  proof (cases "bs = []")
    case True
    then show ?thesis by (simp add: s1_def set_prev_def)
  next
    case False
    then show ?thesis using cwrite_prev [OF c(2)] by (simp add: s1_def)
  qed
  have w2: "(if last_of as None \<noteq> None then
        cbind (cwrite s1 (last_of as None) (\<lambda>w. w\<lparr>cn_next := first_of bs None\<rparr>)) (\<lambda>s2. Inr (t\<lparr>ht_nodes := s2\<rparr>))
      else set_bucket (t\<lparr>ht_nodes := s1\<rparr>) n (first_of bs None)) = Inr (t\<lparr>ht_nodes := s2, ht_data := d\<rparr>)"
  proof (cases "as = []")
    case True
    then show ?thesis
      using hlinkedD(2) [OF assms(1)] assms(2) by (simp add: set_bucket_def d_def s2_def set_next_def)
  next
    case False
    then have "d = ht_data t"
      using hlinkedD(5) [OF assms(1,2)] assms(3) by (cases as) (simp_all add: d_def, metis list_update_id)
    then show ?thesis using False cwrite_next [OF as1 False] by (simp add: s2_def)
  qed
  have del: "acl_htable_delete_entry t (Some (fst x)) free_fn =
      Inr (if free_fn \<and> he_value (snd x) \<noteq> None then [he_value (snd x)] else [],
           t\<lparr>ht_nodes := s2(fst x := None), ht_data := d, ht_used := ht_used t - 1\<rparr>)"
  proof -
    let ?v = "\<lparr>cn_data = snd x, cn_prev = last_of as None, cn_next = first_of bs None\<rparr>"
    have r: "cread (ht_nodes t) (Some (fst x)) = Inr ?v" "cread s1 (Some (fst x)) = Inr ?v"
      "cread s2 (Some (fst x)) = Inr ?v" "cfree s2 (Some (fst x)) = Inr (s2(fst x := None))"
      using c(3) x1 by simp_all
    have n: "ht_nodes (t\<lparr>ht_nodes := s2, ht_data := d\<rparr>) = s2" by simp
    show ?thesis
      unfolding acl_htable_delete_entry_def r(1) cbind_simps Let_def cnode.select_convs w1 r(2) assms(4) w2 n r(3,4)
      by simp
  qed
  have "hlinked (t\<lparr>ht_nodes := s2(fst x := None), ht_data := d, ht_used := ht_used t - 1\<rparr>) (cs(n := as @ bs))"
    unfolding d_def
  proof (rule hlinked_rechain [OF assms(1,2)])
    have "cseg s2 None as (first_of bs None)" using cseg_set_next [OF as1 c(4)] by (simp add: s2_def)
    moreover have "cseg s2 (last_of as None) bs None"
      using cseg_set_prev [OF c(2,5), of "last_of as None"] c(6)
      by (simp add: s1_def s2_def cseg_set_next_other Int_commute)
    ultimately show "cseg (s2(fst x := None)) None (as @ bs) None"
      using c(7,8) by (simp add: cseg_append cseg_frame)
    show "distinct (map fst (as @ bs))" using c(4,5,6) by simp
    show "fst ` set (as @ bs) \<subseteq> fst ` set (cs n)" using assms(3) by auto
    show "(s2(fst x := None)) a = ht_nodes t a" if "a \<notin> fst ` set (cs n)" for a
      using that assms(3) by (simp add: s1_def s2_def set_prev_other set_next_other image_Un)
    have "dom s2 = dom (ht_nodes t)" using set_next_dom [OF as1] set_prev_dom [OF c(2)] by (simp add: s1_def s2_def)
    then show "dom (s2(fst x := None)) \<subseteq> dom (ht_nodes t)" by auto
    show "ht_used t - 1 + length (cs n) = ht_used t + length (as @ bs)"
      using chain_le_used [OF assms(1,2)] assms(3) by simp
  qed
  with del show ?thesis by blast
qed

lemma move_front_linked:
  assumes "hlinked t cs" "n < ht_size t" "cs n = as @ x # bs"
  shows "\<exists>h d. move_front t n (Some (fst x)) = Inr (t\<lparr>ht_nodes := h, ht_data := d\<rparr>) \<and>
    hlinked (t\<lparr>ht_nodes := h, ht_data := d\<rparr>) (cs(n := x # as @ bs))"
proof (cases as)
  case Nil
  then have "bucket t n = Inr (Some (fst x))"
    using hlinkedD(2,5) [OF assms(1)] assms(2,3) by (simp add: bucket_def)
  moreover have "cs(n := x # as @ bs) = cs" using Nil assms(3) by (simp add: fun_upd_idem)
  moreover have "t\<lparr>ht_nodes := ht_nodes t, ht_data := ht_data t\<rparr> = t" by simp
  ultimately show ?thesis using assms(1)
    by (intro exI [of _ "ht_nodes t"] exI [of _ "ht_data t"]) (simp add: move_front_def)
next
  case (Cons y ys)
  note c = chain_split [OF assms(1-3)]
  have ne: "as \<noteq> []" using Cons by simp
  have bk: "bucket t n = Inr (first_of as None)" "first_of as None \<noteq> Some (fst x)" "Some (fst x) \<noteq> first_of as None"
    using hlinkedD(2,5) [OF assms(1)] assms(2,3) Cons c(7) by (auto simp: bucket_def)
  define s1 where "s1 = set_next (ht_nodes t) None as (first_of bs None)"
  define s2 where "s2 = set_prev s1 bs (last_of as None) None"
  define s3 where "s3 = set_prev s2 as (Some (fst x)) (first_of bs None)"
  define s4 where "s4 = s3(fst x \<mapsto> \<lparr>cn_data = snd x, cn_prev = None, cn_next = first_of as None\<rparr>)"
  have bs1: "cseg s1 (Some (fst x)) bs None" using c(2,6) by (simp add: s1_def cseg_set_next_other Int_commute)
  have as2: "cseg s2 None as (first_of bs None)"
    using cseg_set_next [OF c(1,4)] c(6) by (simp add: s1_def s2_def cseg_set_prev_other)
  have x: "s1 (fst x) = ht_nodes t (fst x)" "s3 (fst x) = ht_nodes t (fst x)"
    using c(7,8) by (simp_all add: s1_def s2_def s3_def set_prev_other set_next_other)
  have w1: "cwrite (ht_nodes t) (last_of as None) (\<lambda>w. w\<lparr>cn_next := first_of bs None\<rparr>) = Inr s1"
    using cwrite_next [OF c(1) ne] by (simp add: s1_def)
  have w2: "bs \<noteq> [] \<Longrightarrow> cwrite s1 (first_of bs None) (\<lambda>w. w\<lparr>cn_prev := last_of as None\<rparr>) = Inr s2"
    using cwrite_prev [OF bs1] by (simp add: s2_def)
  have w2': "bs = [] \<Longrightarrow> s2 = s1" by (simp add: s2_def set_prev_def)
  have w3: "cwrite s2 (first_of as None) (\<lambda>w. w\<lparr>cn_prev := Some (fst x)\<rparr>) = Inr s3"
    using cwrite_prev [OF as2 ne] by (simp add: s3_def)
  have w4: "cwrite s3 (Some (fst x)) (\<lambda>w. w\<lparr>cn_prev := None, cn_next := first_of as None\<rparr>) = Inr s4"
    using x(2) c(3) by (simp add: s4_def)
  let ?d = "(ht_data t)[n := Some (fst x)]"
  have "move_front t n (Some (fst x)) = Inr (t\<lparr>ht_nodes := s4, ht_data := ?d\<rparr>)"
    using bk c(3) x(1) w1 w2 w2' w3 w4 hlinkedD(2) [OF assms(1)] assms(2)
    by (cases "bs = []") (auto simp: move_front_def set_bucket_def)
  moreover have "hlinked (t\<lparr>ht_nodes := s4, ht_data := (ht_data t)[n := first_of (x # as @ bs) None], ht_used := ht_used t\<rparr>)
      (cs(n := x # as @ bs))"
  proof (rule hlinked_rechain [OF assms(1,2)])
    have "cseg s3 (Some (fst x)) as (first_of bs None)"
      using cseg_set_prev [OF as2 c(4)] by (simp add: s3_def)
    moreover have "cseg s3 (last_of as None) bs None"
      using cseg_set_prev [OF bs1 c(5), of "last_of as None"] c(6)
      by (simp add: s2_def s3_def cseg_set_prev_other Int_commute)
    ultimately show "cseg s4 None (x # as @ bs) None"
      using c(7,8) ne by (cases as) (auto simp: s4_def cseg_append cseg_frame)
    show "distinct (map fst (x # as @ bs))" using c(4-8) by simp
    show "fst ` set (x # as @ bs) \<subseteq> fst ` set (cs n)" using assms(3) by auto
    show "s4 a = ht_nodes t a" if "a \<notin> fst ` set (cs n)" for a
      using that assms(3) by (simp add: s1_def s2_def s3_def s4_def set_prev_other set_next_other image_Un)
    have "dom s3 = dom (ht_nodes t)"
      using set_prev_dom [OF as2] set_prev_dom [OF bs1] set_next_dom [OF c(1)] by (simp add: s1_def s2_def s3_def)
    then show "dom s4 \<subseteq> dom (ht_nodes t)" using c(3) by (auto simp: s4_def)
    show "ht_used t + length (cs n) = ht_used t + length (x # as @ bs)" using assms(3) by simp
  qed
  ultimately show ?thesis by auto
qed

section \<open>Growing\<close>

text \<open>
  While the table grows, a node that has been moved is in its new chain, and what is left of an old
  chain is linked by \<open>next\<close> only: the \<open>prev\<close> of its first node is out of date.
\<close>

fun nseg :: "(addr \<rightharpoonup> hent cnode) \<Rightarrow> (addr \<times> hent) list \<Rightarrow> bool" where
  "nseg h [] = True"
| "nseg h (n # ns) =
     ((\<exists>p. h (fst n) = Some \<lparr>cn_data = snd n, cn_prev = p, cn_next = first_of ns None\<rparr>) \<and> nseg h ns)"

lemma cseg_nseg: "cseg h p ns None \<Longrightarrow> nseg h ns"
  by (induction ns arbitrary: p) auto

lemma nseg_other: "(\<And>a. a \<in> fst ` set ns \<Longrightarrow> h a = h' a) \<Longrightarrow> nseg h ns = nseg h' ns"
  by (induction ns) auto

definition keyed :: "htable \<Rightarrow> addr \<times> hent \<Rightarrow> bool" where
  "keyed t n \<longleftrightarrow> (\<exists>key. he_key (snd n) = Some key \<and> he_hash (snd n) = ht_hash_fn t key)"

definition all_placed :: "htable \<Rightarrow> (nat \<Rightarrow> (addr \<times> hent) list) \<Rightarrow> bool" where
  "all_placed t cs \<longleftrightarrow> hlinked t cs \<and> (\<forall>i<ht_size t. \<forall>n\<in>set (cs i). placed t i n)"

lemma entries_addr: "a \<in> fst ` entries t cs \<longleftrightarrow> (\<exists>i<ht_size t. a \<in> fst ` set (cs i))"
  by (auto simp: entries_def)

lemma link_placed:
  assumes "all_placed t cs" "ht_nodes t a = Some v" "a \<notin> fst ` entries t cs" "cn_data v = e"
    "he_key e = Some key" "he_hash e = ht_hash_fn t key"
  shows "\<exists>h d. htable_link t (Some a) (chain_of t key) = Inr (t\<lparr>ht_nodes := h, ht_data := d, ht_used := ht_used t + 1\<rparr>) \<and>
    all_placed (t\<lparr>ht_nodes := h, ht_data := d, ht_used := ht_used t + 1\<rparr>)
      (cs(chain_of t key := (a, e) # cs (chain_of t key))) \<and>
    entries (t\<lparr>ht_nodes := h, ht_data := d, ht_used := ht_used t + 1\<rparr>)
      (cs(chain_of t key := (a, e) # cs (chain_of t key))) = insert (a, e) (entries t cs) \<and>
    (\<forall>x. x \<notin> insert a (fst ` entries t cs) \<longrightarrow> h x = ht_nodes t x)"
proof -
  let ?n = "chain_of t key"
  have l: "hlinked t cs" using assms(1) by (simp add: all_placed_def)
  have n: "?n < ht_size t" by (rule chain_of_less [OF l])
  have new: "a \<notin> fst ` set (cs i)" if "i < ht_size t" for i using assms(3) that by (simp add: entries_addr)
  obtain h where h: "htable_link t (Some a) ?n =
      Inr (t\<lparr>ht_nodes := h, ht_data := (ht_data t)[?n := Some a], ht_used := ht_used t + 1\<rparr>)"
    "hlinked (t\<lparr>ht_nodes := h, ht_data := (ht_data t)[?n := Some a], ht_used := ht_used t + 1\<rparr>) (cs(?n := (a, e) # cs ?n))"
    "\<And>x. x \<notin> insert a (fst ` set (cs ?n)) \<Longrightarrow> h x = ht_nodes t x"
    using htable_link_linked [OF l n assms(2) new] assms(4) by blast
  let ?t = "t\<lparr>ht_nodes := h, ht_data := (ht_data t)[?n := Some a], ht_used := ht_used t + 1\<rparr>"
  have pl: "placed ?t i m = placed t i m" for i m by (simp add: placed_def chain_of_def)
  have "placed t ?n (a, e)" using assms(5,6) by (auto simp: placed_def)
  then have "all_placed ?t (cs(?n := (a, e) # cs ?n))"
    using h(2) assms(1) pl by (auto simp: all_placed_def)
  moreover have "entries ?t (cs(?n := (a, e) # cs ?n)) = insert (a, e) (entries t cs)"
    using n by (auto simp: entries_def split: if_splits)
  moreover have "h x = ht_nodes t x" if "x \<notin> insert a (fst ` entries t cs)" for x
    using that n by (intro h(3)) (auto simp: entries_def)
  ultimately show ?thesis using h(1) by blast
qed

lemma grow_chain_placed:
  assumes "all_placed t cs" "nseg (ht_nodes t) ns" "distinct (map fst ns)"
    "fst ` set ns \<inter> fst ` entries t cs = {}" "\<And>n. n \<in> set ns \<Longrightarrow> keyed t n" "length ns \<le> k"
  shows "\<exists>h d u cs'. grow_chain k t (first_of ns None) = Inr (t\<lparr>ht_nodes := h, ht_data := d, ht_used := u\<rparr>) \<and>
    all_placed (t\<lparr>ht_nodes := h, ht_data := d, ht_used := u\<rparr>) cs' \<and>
    entries (t\<lparr>ht_nodes := h, ht_data := d, ht_used := u\<rparr>) cs' = entries t cs \<union> set ns \<and>
    (\<forall>x. x \<notin> fst ` (entries t cs \<union> set ns) \<longrightarrow> h x = ht_nodes t x)"
  using assms
proof (induction ns arbitrary: t cs k)
  case Nil
  then have "grow_chain k t None = Inr (t\<lparr>ht_nodes := ht_nodes t, ht_data := ht_data t, ht_used := ht_used t\<rparr>)"
    by (cases k) auto
  with Nil show ?case
    by (intro exI [of _ "ht_nodes t"] exI [of _ "ht_data t"] exI [of _ "ht_used t"] exI [of _ cs]) auto
next
  case (Cons n ns)
  obtain j where k: "k = Suc j" "length ns \<le> j" using Cons.prems(6) by (cases k) auto
  obtain p where v: "ht_nodes t (fst n) = Some \<lparr>cn_data = snd n, cn_prev = p, cn_next = first_of ns None\<rparr>"
    and ns: "nseg (ht_nodes t) ns" using Cons.prems(2) by auto
  obtain key where key: "he_key (snd n) = Some key" "he_hash (snd n) = ht_hash_fn t key"
    using Cons.prems(5) [of n] by (auto simp: keyed_def)
  let ?n = "chain_of t key"
  have new: "fst n \<notin> fst ` entries t cs" using Cons.prems(4) by auto
  obtain h d where h: "htable_link t (Some (fst n)) ?n = Inr (t\<lparr>ht_nodes := h, ht_data := d, ht_used := ht_used t + 1\<rparr>)"
    "all_placed (t\<lparr>ht_nodes := h, ht_data := d, ht_used := ht_used t + 1\<rparr>) (cs(?n := (fst n, snd n) # cs ?n))"
    "entries (t\<lparr>ht_nodes := h, ht_data := d, ht_used := ht_used t + 1\<rparr>) (cs(?n := (fst n, snd n) # cs ?n)) =
      insert (fst n, snd n) (entries t cs)"
    "\<And>x. x \<notin> insert (fst n) (fst ` entries t cs) \<Longrightarrow> h x = ht_nodes t x"
    using link_placed [OF Cons.prems(1) v new _ key] by (metis cnode.select_convs(1))
  let ?t = "t\<lparr>ht_nodes := h, ht_data := d, ht_used := ht_used t + 1\<rparr>"
  let ?cs = "cs(?n := (fst n, snd n) # cs ?n)"
  have dis: "a \<notin> insert (fst n) (fst ` entries t cs)" if "a \<in> fst ` set ns" for a
  proof -
    have "fst n \<notin> fst ` set ns" using Cons.prems(3) by simp
    moreover have "fst ` set ns \<inter> fst ` entries t cs = {}" using Cons.prems(4) by simp
    ultimately show ?thesis using that by blast
  qed
  have "nseg h ns = nseg (ht_nodes t) ns" by (rule nseg_other) (use h(4) dis in blast)
  with ns have "nseg (ht_nodes ?t) ns" by simp
  moreover have "fst ` set ns \<inter> fst ` entries ?t ?cs = {}" using dis unfolding h(3) by auto
  moreover have "keyed ?t m" if "m \<in> set ns" for m using Cons.prems(5) [of m] that by (simp add: keyed_def)
  moreover have "distinct (map fst ns)" using Cons.prems(3) by simp
  ultimately obtain h' d' u' cs' where r: "grow_chain j ?t (first_of ns None) = Inr (?t\<lparr>ht_nodes := h', ht_data := d', ht_used := u'\<rparr>)"
    "all_placed (?t\<lparr>ht_nodes := h', ht_data := d', ht_used := u'\<rparr>) cs'"
    "entries (?t\<lparr>ht_nodes := h', ht_data := d', ht_used := u'\<rparr>) cs' = entries ?t ?cs \<union> set ns"
    "\<And>x. x \<notin> fst ` (entries ?t ?cs \<union> set ns) \<Longrightarrow> h' x = ht_nodes ?t x"
    using Cons.IH [OF h(2) _ _ _ _ k(2)] by blast
  have t': "?t\<lparr>ht_nodes := h', ht_data := d', ht_used := u'\<rparr> = t\<lparr>ht_nodes := h', ht_data := d', ht_used := u'\<rparr>" by simp
  have "grow_chain k t (first_of (n # ns) None) = Inr (t\<lparr>ht_nodes := h', ht_data := d', ht_used := u'\<rparr>)"
    using k(1) v key(1) h(1) r(1) t' by (simp add: chain_of_def)
  moreover have "entries ?t ?cs \<union> set ns = entries t cs \<union> set (n # ns)" unfolding h(3) by auto
  moreover have "h' x = ht_nodes t x" if "x \<notin> fst ` (entries t cs \<union> set (n # ns))" for x
    using r(4) [of x] h(4) [of x] that calculation(2) by auto
  ultimately show ?case using r(2,3) unfolding t' by metis
qed

lemma grow_chains_placed:
  assumes "all_placed t cs" "\<And>ns. ns \<in> set nss \<Longrightarrow> nseg (ht_nodes t) ns \<and> distinct (map fst ns) \<and> length ns \<le> k"
    "sorted_wrt (\<lambda>ns ms. fst ` set ns \<inter> fst ` set ms = {}) nss"
    "\<And>ns. ns \<in> set nss \<Longrightarrow> fst ` set ns \<inter> fst ` entries t cs = {}"
    "\<And>ns n. ns \<in> set nss \<Longrightarrow> n \<in> set ns \<Longrightarrow> keyed t n"
  shows "\<exists>h d u cs'. grow_chains k t (map (\<lambda>ns. first_of ns None) nss) = Inr (t\<lparr>ht_nodes := h, ht_data := d, ht_used := u\<rparr>) \<and>
    all_placed (t\<lparr>ht_nodes := h, ht_data := d, ht_used := u\<rparr>) cs' \<and>
    entries (t\<lparr>ht_nodes := h, ht_data := d, ht_used := u\<rparr>) cs' = entries t cs \<union> (\<Union>ns\<in>set nss. set ns)"
  using assms
proof (induction nss arbitrary: t cs)
  case Nil
  have "t = t\<lparr>ht_nodes := ht_nodes t, ht_data := ht_data t, ht_used := ht_used t\<rparr>" by simp
  with Nil show ?case
    by (intro exI [of _ "ht_nodes t"] exI [of _ "ht_data t"] exI [of _ "ht_used t"] exI [of _ cs]) auto
next
  case (Cons ns nss)
  obtain h d u cs1 where h: "grow_chain k t (first_of ns None) = Inr (t\<lparr>ht_nodes := h, ht_data := d, ht_used := u\<rparr>)"
    "all_placed (t\<lparr>ht_nodes := h, ht_data := d, ht_used := u\<rparr>) cs1"
    "entries (t\<lparr>ht_nodes := h, ht_data := d, ht_used := u\<rparr>) cs1 = entries t cs \<union> set ns"
    "\<And>x. x \<notin> fst ` (entries t cs \<union> set ns) \<Longrightarrow> h x = ht_nodes t x"
    using grow_chain_placed [OF Cons.prems(1), of ns k] Cons.prems(2,4,5) by (metis list.set_intros(1))
  let ?t = "t\<lparr>ht_nodes := h, ht_data := d, ht_used := u\<rparr>"
  have dis: "fst ` set ms \<inter> fst ` (entries t cs \<union> set ns) = {}" if "ms \<in> set nss" for ms
    using Cons.prems(3,4) that by (simp add: image_Un Int_Un_distrib Int_commute)
  have "nseg (ht_nodes ?t) ms \<and> distinct (map fst ms) \<and> length ms \<le> k" if "ms \<in> set nss" for ms
  proof -
    have "nseg h ms = nseg (ht_nodes t) ms"
      by (rule nseg_other) (use h(4) dis [OF that] in blast)
    with Cons.prems(2) [of ms] that show ?thesis by simp
  qed
  moreover have "fst ` set ms \<inter> fst ` entries ?t cs1 = {}" if "ms \<in> set nss" for ms
    using dis [OF that] h(3) by simp
  moreover have "keyed ?t n" if "ms \<in> set nss" "n \<in> set ms" for ms n
    using Cons.prems(5) [of ms n] that by (simp add: keyed_def)
  moreover have "sorted_wrt (\<lambda>ns ms. fst ` set ns \<inter> fst ` set ms = {}) nss" using Cons.prems(3) by simp
  ultimately obtain h' d' u' cs' where r:
    "grow_chains k ?t (map (\<lambda>ns. first_of ns None) nss) = Inr (?t\<lparr>ht_nodes := h', ht_data := d', ht_used := u'\<rparr>)"
    "all_placed (?t\<lparr>ht_nodes := h', ht_data := d', ht_used := u'\<rparr>) cs'"
    "entries (?t\<lparr>ht_nodes := h', ht_data := d', ht_used := u'\<rparr>) cs' = entries ?t cs1 \<union> (\<Union>ns\<in>set nss. set ns)"
    using Cons.IH [OF h(2)] by blast
  have t': "?t\<lparr>ht_nodes := h', ht_data := d', ht_used := u'\<rparr> = t\<lparr>ht_nodes := h', ht_data := d', ht_used := u'\<rparr>" by simp
  have "grow_chains k t (map (\<lambda>ns. first_of ns None) (ns # nss)) = Inr (t\<lparr>ht_nodes := h', ht_data := d', ht_used := u'\<rparr>)"
    using h(1) r(1) unfolding t' by simp
  moreover have "entries ?t cs1 \<union> (\<Union>ns\<in>set nss. set ns) = entries t cs \<union> (\<Union>ns\<in>set (ns # nss). set ns)"
    using h(3) by auto
  ultimately show ?case using r(2,3) unfolding t' by metis
qed

lemma fresh_linked:
  assumes "hlinked t cs" "0 < m"
  shows "all_placed (htable_size t m) (\<lambda>i. [])" "entries (htable_size t m) (\<lambda>i. []) = {}"
    "ht_size (htable_size t m) = (if even m then m + 1 else m)"
  using assms hlinkedD(4) [OF assms(1)]
  by (auto simp: all_placed_def hlinked_def htable_size_def Let_def entries_def)

lemma htable_grow_wf:
  assumes "hwf t cs"
  shows "\<exists>t' cs'. htable_grow t = Inr t' \<and> hwf t' cs' \<and> entries t' cs' = entries t cs \<and>
    ht_size t' = Suc (2 * ht_size t) \<and> ht_hash_fn t' = ht_hash_fn t \<and> ht_key_lower t' = ht_key_lower t \<and>
    ht_key_reuse t' = ht_key_reuse t \<and> ht_mslook t' = ht_mslook t \<and> ht_status t' = ht_status t"
proof -
  have l: "hlinked t cs" using assms by (simp add: hwf_def)
  note t = hlinkedD [OF l]
  let ?t = "htable_size t (2 * ht_size t)"
  have same: "ht_nodes ?t = ht_nodes t" "ht_hash_fn ?t = ht_hash_fn t" "ht_size ?t = Suc (2 * ht_size t)"
    "ht_key_lower ?t = ht_key_lower t" "ht_key_reuse ?t = ht_key_reuse t" "ht_mslook ?t = ht_mslook t"
    "ht_status ?t = ht_status t"
    by (simp_all add: htable_size_def Let_def)
  let ?nss = "map cs [0..<ht_size t]"
  have data: "ht_data t = map (\<lambda>ns. first_of ns None) ?nss"
    using t(2,5) by (intro nth_equalityI) auto
  have fresh: "all_placed ?t (\<lambda>i. [])" "entries ?t (\<lambda>i. []) = {}"
    using fresh_linked [OF l, of "2 * ht_size t"] t(1) by auto
  have "\<exists>h d u cs'. grow_chains (ht_used t) ?t (map (\<lambda>ns. first_of ns None) ?nss) = Inr (?t\<lparr>ht_nodes := h, ht_data := d, ht_used := u\<rparr>) \<and>
    all_placed (?t\<lparr>ht_nodes := h, ht_data := d, ht_used := u\<rparr>) cs' \<and>
    entries (?t\<lparr>ht_nodes := h, ht_data := d, ht_used := u\<rparr>) cs' = entries ?t (\<lambda>i. []) \<union> (\<Union>ns\<in>set ?nss. set ns)"
  proof (rule grow_chains_placed [OF fresh(1)])
    show "nseg (ht_nodes ?t) ns \<and> distinct (map fst ns) \<and> length ns \<le> ht_used t" if "ns \<in> set ?nss" for ns
      using that t(6) [THEN cseg_nseg] t(7) chain_le_used [OF l] same(1) by auto
    show "sorted_wrt (\<lambda>ns ms. fst ` set ns \<inter> fst ` set ms = {}) ?nss"
      using t(8) by (auto simp: sorted_wrt_iff_nth_less)
    show "fst ` set ns \<inter> fst ` entries ?t (\<lambda>i. []) = {}" if "ns \<in> set ?nss" for ns using fresh(2) by simp
    show "keyed ?t n" if "ns \<in> set ?nss" "n \<in> set ns" for ns n
    proof -
      from that(1) obtain i where "i < ht_size t" "ns = cs i" by auto
      with that(2) assms have "placed t i n" by (simp add: hwf_def)
      then show ?thesis using same(2) by (auto simp: keyed_def placed_def)
    qed
  qed
  then obtain h d u cs' where g: "htable_grow t = Inr (?t\<lparr>ht_nodes := h, ht_data := d, ht_used := u\<rparr>)"
    "all_placed (?t\<lparr>ht_nodes := h, ht_data := d, ht_used := u\<rparr>) cs'"
    "entries (?t\<lparr>ht_nodes := h, ht_data := d, ht_used := u\<rparr>) cs' = entries ?t (\<lambda>i. []) \<union> (\<Union>ns\<in>set ?nss. set ns)"
    by (auto simp: htable_grow_def data)
  let ?t' = "?t\<lparr>ht_nodes := h, ht_data := d, ht_used := u\<rparr>"
  have e: "entries ?t' cs' = entries t cs" using g(3) fresh(2) by (auto simp: entries_def)
  have "hwf ?t' cs'" using g(2) e assms by (simp add: hwf_def all_placed_def)
  with g(1) e same show ?thesis by (intro exI [of _ ?t'] exI [of _ cs']) simp
qed

section \<open>The operations as operations of a map\<close>

lemma entries_chain:
  assumes "hwf t cs" "n \<in> entries t cs" "he_key (snd n) = Some key"
  shows "n \<in> set (cs (chain_of t key))"
proof -
  obtain i where i: "i < ht_size t" "n \<in> set (cs i)" using assms(2) by (auto simp: entries_def)
  with assms(1) have "placed t i n" by (simp add: hwf_def)
  with assms(3) i(2) show ?thesis by (auto simp: placed_def)
qed

lemma lookup_wf:
  assumes "hwf t cs"
  obtains (miss) p where "bucket t (chain_of t key) = Inr p" "chain_find (ht_used t) (ht_nodes t) p key = Inr None"
      "\<And>n. n \<in> entries t cs \<Longrightarrow> he_key (snd n) \<noteq> Some key"
  | (hit) p as x bs where "bucket t (chain_of t key) = Inr p" "chain_find (ht_used t) (ht_nodes t) p key = Inr (Some (fst x))"
      "cs (chain_of t key) = as @ x # bs" "he_key (snd x) = Some key" "x \<in> entries t cs"
      "he_hash (snd x) = ht_hash_fn t key"
proof -
  let ?n = "chain_of t key"
  have l: "hlinked t cs" using assms by (simp add: hwf_def)
  have n: "?n < ht_size t" by (rule chain_of_less [OF l])
  have bk: "bucket t ?n = Inr (first_of (cs ?n) None)"
    using hlinkedD(2,5) [OF l] n by (simp add: bucket_def)
  have pl: "placed t ?n m" if "m \<in> set (cs ?n)" for m using assms n that by (simp add: hwf_def)
  have f: "chain_find (ht_used t) (ht_nodes t) (first_of (cs ?n) None) key =
      Inr (case find (\<lambda>n. he_key (snd n) = Some key) (cs ?n) of None \<Rightarrow> None | Some n \<Rightarrow> Some (fst n))"
    by (rule chain_find_seg [OF hlinkedD(6) [OF l n] chain_le_used [OF l n]]) (use pl in \<open>auto simp: placed_def\<close>)
  show ?thesis
  proof (cases "find (\<lambda>n. he_key (snd n) = Some key) (cs ?n)")
    case None
    then have none: "\<not> (\<exists>m. m \<in> set (cs ?n) \<and> he_key (snd m) = Some key)" by (simp only: find_None_iff simp_thms)
    have "he_key (snd m) \<noteq> Some key" if "m \<in> entries t cs" for m
      using entries_chain [OF assms that, of key] none by blast
    with None f bk show ?thesis by (intro miss) auto
  next
    case (Some x)
    then have x: "x \<in> set (cs ?n)" "he_key (snd x) = Some key" by (auto simp: find_Some_iff)
    then obtain as bs where "cs ?n = as @ x # bs" by (meson split_list)
    moreover have "x \<in> entries t cs" using x(1) n by (auto simp: entries_def)
    moreover have "he_hash (snd x) = ht_hash_fn t key" using pl [OF x(1)] x(2) by (auto simp: placed_def)
    ultimately show ?thesis using Some f bk x by (intro hit) auto
  qed
qed

lemma hwf_status [simp]: "hwf (t\<lparr>ht_status := s\<rparr>) cs = hwf t cs"
  by (simp add: hwf_def hlinked_def placed_def chain_of_def entries_def)

lemma entries_status [simp]: "entries (t\<lparr>ht_status := s\<rparr>) cs = entries t cs"
  by (simp add: entries_def)

lemma htable_enter_new:
  assumes "hwf t cs" "\<And>n. n \<in> entries t cs \<Longrightarrow> he_key (snd n) \<noteq> Some key"
  shows "\<exists>t' cs'. htable_link (snd (h_alloc t \<lparr>he_key = Some key, he_hash = ht_hash_fn t key, he_value = v\<rparr>))
      (Some (ht_brk t)) (chain_of t key) = Inr t' \<and> hwf t' cs' \<and>
    entries t' cs' = insert (ht_brk t, \<lparr>he_key = Some key, he_hash = ht_hash_fn t key, he_value = v\<rparr>) (entries t cs) \<and>
    ht_status t' = ht_status t \<and> ht_key_lower t' = ht_key_lower t \<and> ht_key_reuse t' = ht_key_reuse t \<and>
    ht_hash_fn t' = ht_hash_fn t"
proof -
  define e where "e = \<lparr>he_key = Some key, he_hash = ht_hash_fn t key, he_value = v\<rparr>"
  define t1 where "t1 = snd (h_alloc t e)"
  have t1: "ht_nodes t1 (ht_brk t) = Some \<lparr>cn_data = e, cn_prev = None, cn_next = None\<rparr>"
    "ht_size t1 = ht_size t" "ht_hash_fn t1 = ht_hash_fn t" "ht_status t1 = ht_status t"
    "ht_key_lower t1 = ht_key_lower t" "ht_key_reuse t1 = ht_key_reuse t"
    by (simp_all add: t1_def h_alloc_def)
  have l: "hlinked t cs" using assms(1) by (simp add: hwf_def)
  have fresh: "ht_brk t \<notin> fst ` set (cs i)" if "i < ht_size t" for i
    using cseg_dom [OF hlinkedD(6) [OF l that]] hlinkedD(4) [OF l] by blast
  have "hlinked t1 cs"
    unfolding hlinked_def t1_def h_alloc_def
    using hlinkedD [OF l] fresh by (auto simp: cseg_frame less_SucI)
  moreover have "placed t1 i n = placed t i n" for i n by (simp add: placed_def chain_of_def t1)
  ultimately have p: "all_placed t1 cs" using assms(1) by (simp add: all_placed_def hwf_def t1)
  have en: "entries t1 cs = entries t cs" "chain_of t1 key = chain_of t key"
    by (simp_all add: entries_def chain_of_def t1)
  have new: "ht_brk t \<notin> fst ` entries t1 cs" unfolding en(1) entries_addr using fresh by blast
  have ent: "cn_data \<lparr>cn_data = e, cn_prev = None, cn_next = None\<rparr> = e" "he_key e = Some key" "he_hash e = ht_hash_fn t1 key"
    by (simp_all add: e_def t1)
  let ?cs = "cs(chain_of t key := (ht_brk t, e) # cs (chain_of t key))"
  obtain h d where h: "htable_link t1 (Some (ht_brk t)) (chain_of t key) =
      Inr (t1\<lparr>ht_nodes := h, ht_data := d, ht_used := ht_used t1 + 1\<rparr>)"
    "all_placed (t1\<lparr>ht_nodes := h, ht_data := d, ht_used := ht_used t1 + 1\<rparr>) ?cs"
    "entries (t1\<lparr>ht_nodes := h, ht_data := d, ht_used := ht_used t1 + 1\<rparr>) ?cs = insert (ht_brk t, e) (entries t cs)"
    using link_placed [OF p t1(1) new ent] unfolding en by blast
  define t2 where "t2 = t1\<lparr>ht_nodes := h, ht_data := d, ht_used := ht_used t1 + 1\<rparr>"
  have "inj_on (\<lambda>n. he_key (snd n)) (insert (ht_brk t, e) (entries t cs))"
    unfolding inj_on_insert using assms(1) assms(2) ent(2) by (simp add: hwf_def) (metis (no_types, lifting) DiffD1 imageE)
  with h(2,3) have "hwf t2 ?cs" unfolding t2_def [symmetric] by (simp add: hwf_def all_placed_def)
  moreover have "ht_status t2 = ht_status t" "ht_key_lower t2 = ht_key_lower t" "ht_key_reuse t2 = ht_key_reuse t"
    "ht_hash_fn t2 = ht_hash_fn t"
    by (simp_all add: t2_def t1)
  ultimately have "htable_link t1 (Some (ht_brk t)) (chain_of t key) = Inr t2 \<and> hwf t2 ?cs \<and>
      entries t2 ?cs = insert (ht_brk t, e) (entries t cs) \<and> ht_status t2 = ht_status t \<and>
      ht_key_lower t2 = ht_key_lower t \<and> ht_key_reuse t2 = ht_key_reuse t \<and> ht_hash_fn t2 = ht_hash_fn t"
    using h(1,3) by (simp only: t2_def simp_thms)
  then show ?thesis unfolding t1_def e_def by (intro exI)
qed

lemma acl_htable_enter_wf:
  assumes "hwf t cs" "\<not> (ht_key_reuse t \<and> ht_key_lower t)"
  shows "\<exists>p t' cs' n. acl_htable_enter t key_in v = Inr (Some p, t') \<and> hwf t' cs' \<and> n \<in> entries t' cs' \<and> fst n = p \<and>
    he_key (snd n) = Some (key_of t key_in) \<and>
    (if \<exists>n\<in>entries t cs. he_key (snd n) = Some (key_of t key_in)
     then entries t' cs' = entries t cs \<and> ht_status t' = STAT_DUPLEX_KEY
     else entries t' cs' = insert n (entries t cs) \<and> he_value (snd n) = v \<and> n \<notin> entries t cs \<and> ht_status t' = STAT_OK) \<and>
    ht_key_lower t' = ht_key_lower t \<and> ht_key_reuse t' = ht_key_reuse t \<and> ht_hash_fn t' = ht_hash_fn t"
proof -
  let ?k = "key_of t key_in" and ?t0 = "t\<lparr>ht_status := STAT_OK\<rparr>"
  obtain t1 cs1 where t1: "(if ht_used ?t0 \<ge> ht_size ?t0 then htable_grow ?t0 else Inr ?t0) = Inr t1"
    "hwf t1 cs1" "entries t1 cs1 = entries t cs" "ht_hash_fn t1 = ht_hash_fn t" "ht_key_lower t1 = ht_key_lower t"
    "ht_key_reuse t1 = ht_key_reuse t" "ht_status t1 = STAT_OK"
    using htable_grow_wf [of ?t0 cs] assms(1) by (cases "ht_used ?t0 \<ge> ht_size ?t0") auto
  have n: "unat (ht_hash_fn t ?k) mod ht_size t1 = chain_of t1 ?k" using t1(4) by (simp add: chain_of_def)
  have kk: "key_of t key_in = key_of ?t0 key_in" by (simp add: key_of_def)
  from t1(2) show ?thesis
  proof (cases rule: lookup_wf [of t1 cs1 ?k])
    case (hit p as x bs)
    then have "acl_htable_enter t key_in v = Inr (Some (fst x), t1\<lparr>ht_status := STAT_DUPLEX_KEY\<rparr>)"
      using t1(1) n by (simp add: acl_htable_enter_def Let_def)
    with hit t1 show ?thesis
      by (intro exI [of _ "fst x"] exI [of _ "t1\<lparr>ht_status := STAT_DUPLEX_KEY\<rparr>"] exI [of _ cs1] exI [of _ x]) auto
  next
    case (miss p)
    let ?e = "\<lparr>he_key = Some ?k, he_hash = ht_hash_fn t1 ?k, he_value = v\<rparr>"
    obtain t2 cs2 where t2: "htable_link (snd (h_alloc t1 ?e)) (Some (ht_brk t1)) (chain_of t1 ?k) = Inr t2"
      "hwf t2 cs2" "entries t2 cs2 = insert (ht_brk t1, ?e) (entries t1 cs1)" "ht_status t2 = ht_status t1"
      "ht_key_lower t2 = ht_key_lower t1" "ht_key_reuse t2 = ht_key_reuse t1" "ht_hash_fn t2 = ht_hash_fn t1"
      using htable_enter_new [OF t1(2) miss(3), of v] by blast
    have "acl_htable_enter t key_in v = Inr (Some (ht_brk t1), t2)"
    proof -
      have keep: "(if ht_key_reuse t1 \<and> ht_key_lower t1 then None else Some ?k) = Some ?k"
        "ht_hash_fn ?t0 = ht_hash_fn t1" "fst (h_alloc t1 ?e) = ht_brk t1"
        using assms(2) t1(4,5,6) by (auto simp: h_alloc_def)
      show ?thesis
        unfolding acl_htable_enter_def Let_def t1(1) cbind_simps keep case_prod_beta
        unfolding chain_of_def [symmetric] miss(1) cbind_simps miss(2) t2(1) by simp
    qed
    moreover have "(ht_brk t1, ?e) \<notin> entries t cs" using miss(3) [of "(ht_brk t1, ?e)"] t1(3) by fastforce
    ultimately show ?thesis using t1 t2 miss(3)
      by (intro exI [of _ "ht_brk t1"] exI [of _ t2] exI [of _ cs2] exI [of _ "(ht_brk t1, ?e)"]) auto
  qed
qed

end
