(* ===== verification/Acl_HtableMap.thy ===== *)
theory Acl_HtableMap
  imports Acl_Htable "HOL-Library.Multiset"
begin

text \<open>
  The hash table of \<open>acl_htable.c\<close> as a dictionary: the operations of \<open>Acl_Htable\<close> on a table that
  holds a map refine the operations on the map, through growing, moving found nodes to the front
  and deleting.
\<close>

section \<open>Tables that hold a map\<close>

definition holds_in :: "(byte list \<rightharpoonup> ptr) \<Rightarrow> (addr \<times> hent) set \<Rightarrow> bool" where
  "holds_in m E \<longleftrightarrow> (\<forall>key v. m key = Some v \<longleftrightarrow> (\<exists>n\<in>E. he_key (snd n) = Some key \<and> he_value (snd n) = v))"

definition htable_holds :: "htable \<Rightarrow> (byte list \<rightharpoonup> ptr) \<Rightarrow> bool" where
  "htable_holds t m \<longleftrightarrow> (\<exists>cs. hwf t cs \<and> holds_in m (entries t cs))"

lemma holds_in_None:
  assumes "holds_in m E"
  shows "m key = None \<longleftrightarrow> (\<forall>n\<in>E. he_key (snd n) \<noteq> Some key)"
  using assms unfolding holds_in_def by (metis not_Some_eq)

lemma holds_in_Some: "holds_in m E \<Longrightarrow> n \<in> E \<Longrightarrow> he_key (snd n) = Some key \<Longrightarrow> m key = Some (he_value (snd n))"
  unfolding holds_in_def by blast

lemma holds_in_insert:
  assumes "holds_in m E" "m key = None" "he_key (snd n) = Some key"
  shows "holds_in (m(key \<mapsto> he_value (snd n))) (insert n E)"
  using assms holds_in_None [OF assms(1), of key] unfolding holds_in_def by (auto 0 3)

lemma holds_in_remove:
  assumes "holds_in m E" "inj_on (\<lambda>n. he_key (snd n)) E" "n \<in> E" "he_key (snd n) = Some key"
  shows "holds_in (m(key := None)) (E - {n})"
  unfolding holds_in_def
proof (intro allI)
  fix k v
  show "(m(key := None)) k = Some v \<longleftrightarrow> (\<exists>x\<in>E - {n}. he_key (snd x) = Some k \<and> he_value (snd x) = v)"
  proof (cases "k = key")
    case True
    have "x = n" if "x \<in> E" "he_key (snd x) = Some key" for x
      using inj_onD [OF assms(2) _ that(1) assms(3)] that(2) assms(4) by simp
    with True show ?thesis by auto
  next
    case False
    then show ?thesis using assms(1,4) unfolding holds_in_def by (metis Diff_iff fun_upd_other option.inject singletonD)
  qed
qed

section \<open>Finding and deleting\<close>

definition same_conf :: "htable \<Rightarrow> htable \<Rightarrow> bool" where
  "same_conf t t' \<longleftrightarrow> ht_key_lower t' = ht_key_lower t \<and> ht_key_reuse t' = ht_key_reuse t \<and> ht_hash_fn t' = ht_hash_fn t"

lemma entry_node:
  assumes "hlinked t cs" "n \<in> entries t cs"
  shows "\<exists>v. ht_nodes t (fst n) = Some v \<and> cn_data v = snd n"
proof -
  obtain i where i: "i < ht_size t" "n \<in> set (cs i)" using assms(2) by (auto simp: entries_def)
  then obtain as bs where "cs i = as @ n # bs" by (meson split_list)
  with hlinkedD(6) [OF assms(1) i(1)] show ?thesis by (auto simp: cseg_append)
qed

lemma entries_split:
  assumes "n < ht_size t" "ht_size t' = ht_size t"
  shows "entries t' (cs(n := c)) = set c \<union> (\<Union>i\<in>{..<ht_size t} - {n}. set (cs i))"
    "entries t cs = set (cs n) \<union> (\<Union>i\<in>{..<ht_size t} - {n}. set (cs i))"
proof -
  have "{..<ht_size t} = insert n ({..<ht_size t} - {n})" using assms(1) by auto
  then show "entries t cs = set (cs n) \<union> (\<Union>i\<in>{..<ht_size t} - {n}. set (cs i))" for cs
    unfolding entries_def by (metis UN_insert)
  from this [of "cs(n := c)"] show "entries t' (cs(n := c)) = set c \<union> (\<Union>i\<in>{..<ht_size t} - {n}. set (cs i))"
    using assms(2) by (simp add: entries_def)
qed

lemma hwf_rechain:
  assumes "hwf t cs" "hlinked t' (cs(n := c))" "n < ht_size t" "set c \<subseteq> set (cs n)" "ht_size t' = ht_size t"
    "ht_hash_fn t' = ht_hash_fn t"
  shows "hwf t' (cs(n := c))" "entries t' (cs(n := c)) \<subseteq> entries t cs"
proof -
  show sub: "entries t' (cs(n := c)) \<subseteq> entries t cs"
    unfolding entries_split [OF assms(3,5)] using assms(4) by blast
  have "placed t' i x" if "i < ht_size t'" "x \<in> set ((cs(n := c)) i)" for i x
  proof -
    have "x \<in> set (cs i)" using that(2) assms(4) by (auto split: if_splits)
    then have "placed t i x" using assms(1,5) that(1) by (simp add: hwf_def)
    then show ?thesis using assms(5,6) by (simp add: placed_def chain_of_def)
  qed
  moreover have "inj_on (\<lambda>n. he_key (snd n)) (entries t' (cs(n := c)))"
  proof (rule inj_on_subset [OF _ sub])
    show "inj_on (\<lambda>n. he_key (snd n)) (entries t cs)" using assms(1) by (simp add: hwf_def)
  qed
  ultimately show "hwf t' (cs(n := c))" using assms(2) by (simp add: hwf_def)
qed

lemma entries_drop:
  assumes "hwf t cs" "n < ht_size t" "cs n = as @ x # bs" "ht_size t' = ht_size t"
  shows "entries t' (cs(n := as @ bs)) = entries t cs - {x}"
proof -
  have l: "hlinked t cs" using assms(1) by (simp add: hwf_def)
  have "x \<notin> set (as @ bs)"
    using hlinkedD(7) [OF l assms(2)] assms(3) by auto
  moreover have "x \<notin> set (cs i)" if "i < ht_size t" "i \<noteq> n" for i
    using hlinkedD(8) [OF l that(1) assms(2) that(2)] assms(3) by auto
  ultimately show ?thesis
    unfolding entries_split [OF assms(2,4)] assms(3) by (auto simp del: split_paired_All split_paired_Ex)
qed

lemma acl_htable_locate_holds:
  assumes "htable_holds t m"
  shows "\<exists>p t'. acl_htable_locate t key_in = Inr (p, t') \<and> htable_holds t' m \<and> same_conf t t' \<and>
    (case m (key_of t key_in) of
       None \<Rightarrow> p = None
     | Some v \<Rightarrow> \<exists>a nd. p = Some a \<and> ht_nodes t' a = Some nd \<and> he_value (cn_data nd) = v \<and>
         he_key (cn_data nd) = Some (key_of t key_in))"
proof -
  let ?k = "key_of t key_in"
  obtain cs where cs: "hwf t cs" "holds_in m (entries t cs)" using assms by (auto simp: htable_holds_def)
  from cs(1) show ?thesis
  proof (cases rule: lookup_wf [of t cs ?k])
    case (miss p)
    then have "acl_htable_locate t key_in = Inr (None, t)"
      unfolding acl_htable_locate_def Let_def chain_of_def by simp
    moreover have "m ?k = None" unfolding holds_in_None [OF cs(2)] using miss(3) by blast
    ultimately show ?thesis using assms by (simp add: same_conf_def)
  next
    case (hit p as x bs)
    have l: "hlinked t cs" using cs(1) by (simp add: hwf_def)
    have m: "m ?k = Some (he_value (snd x))" by (rule holds_in_Some [OF cs(2) hit(5,4)])
    obtain h d where h: "move_front t (chain_of t ?k) (Some (fst x)) = Inr (t\<lparr>ht_nodes := h, ht_data := d\<rparr>)"
      "hlinked (t\<lparr>ht_nodes := h, ht_data := d\<rparr>) (cs(chain_of t ?k := x # as @ bs))"
      using move_front_linked [OF l chain_of_less [OF l] hit(3)] by blast
    define t' where "t' = (if ht_mslook t then t\<lparr>ht_nodes := h, ht_data := d\<rparr> else t)"
    define cs' where "cs' = (if ht_mslook t then cs(chain_of t ?k := x # as @ bs) else cs)"
    have "acl_htable_locate t key_in = Inr (Some (fst x), t')"
      unfolding acl_htable_locate_def Let_def t'_def
      using hit(1,2) h(1) by (simp add: chain_of_def)
    moreover have t': "hwf t' cs'" "entries t' cs' = entries t cs"
    proof -
      have "hwf (t\<lparr>ht_nodes := h, ht_data := d\<rparr>) (cs(chain_of t ?k := x # as @ bs))"
        by (rule hwf_rechain(1) [OF cs(1) h(2) chain_of_less [OF l]]) (simp_all add: hit(3))
      then show "hwf t' cs'" using cs(1) by (simp add: t'_def cs'_def)
      show "entries t' cs' = entries t cs"
      proof (cases "ht_mslook t")
        case True
        have "ht_size t' = ht_size t" by (simp add: t'_def)
        note split = entries_split [OF chain_of_less [OF l, of ?k] this]
        show ?thesis using True hit(3) split(1) [of cs "x # as @ bs"] split(2) [of cs] by (simp add: cs'_def)
      qed (simp add: t'_def cs'_def)
    qed
    moreover obtain nd where "ht_nodes t' (fst x) = Some nd" "cn_data nd = snd x"
      using entry_node [of t' cs' x] t' hit(5) by (auto simp: hwf_def)
    moreover have "same_conf t t'" by (simp add: same_conf_def t'_def)
    ultimately show ?thesis using cs(2) m hit(4) by (auto simp: htable_holds_def)
  qed
qed

lemma acl_htable_find_holds:
  assumes "htable_holds t m"
  shows "\<exists>t'. acl_htable_find t key_in = Inr (case m (key_of t key_in) of None \<Rightarrow> None | Some v \<Rightarrow> v, t') \<and>
    htable_holds t' m \<and> same_conf t t'"
  using acl_htable_locate_holds [OF assms, of key_in]
  by (auto simp: acl_htable_find_def split: option.splits)

lemma acl_htable_delete_holds:
  assumes "htable_holds t m"
  shows "\<exists>t'. acl_htable_delete t key_in free_fn =
      Inr (if m (key_of t key_in) = None then -1 else 0,
           case m (key_of t key_in) of Some (Some v) \<Rightarrow> (if free_fn then [Some v] else []) | _ \<Rightarrow> [], t') \<and>
    htable_holds t' (m(key_of t key_in := None)) \<and> same_conf t t'"
proof -
  let ?k = "key_of t key_in"
  obtain cs where cs: "hwf t cs" "holds_in m (entries t cs)" using assms by (auto simp: htable_holds_def)
  from cs(1) show ?thesis
  proof (cases rule: lookup_wf [of t cs ?k])
    case (miss p)
    then have "acl_htable_delete t key_in free_fn = Inr (-1, [], t)"
      unfolding acl_htable_delete_def Let_def chain_of_def by simp
    moreover have "m ?k = None" unfolding holds_in_None [OF cs(2)] using miss(3) by blast
    moreover from this have "m(?k := None) = m" by (simp add: fun_upd_idem)
    ultimately show ?thesis using assms by (simp add: same_conf_def)
  next
    case (hit p as x bs)
    have l: "hlinked t cs" using cs(1) by (simp add: hwf_def)
    have m: "m ?k = Some (he_value (snd x))" by (rule holds_in_Some [OF cs(2) hit(5,4)])
    have n: "unat (he_hash (snd x)) mod ht_size t = chain_of t ?k" using hit(6) by (simp add: chain_of_def)
    obtain h d where h: "acl_htable_delete_entry t (Some (fst x)) free_fn =
        Inr (if free_fn \<and> he_value (snd x) \<noteq> None then [he_value (snd x)] else [],
             t\<lparr>ht_nodes := h, ht_data := d, ht_used := ht_used t - 1\<rparr>)"
      "hlinked (t\<lparr>ht_nodes := h, ht_data := d, ht_used := ht_used t - 1\<rparr>) (cs(chain_of t ?k := as @ bs))"
      using delete_entry_linked [OF l chain_of_less [OF l] hit(3) n, of free_fn] by blast
    define t' where "t' = t\<lparr>ht_nodes := h, ht_data := d, ht_used := ht_used t - 1\<rparr>"
    let ?cs = "cs(chain_of t ?k := as @ bs)"
    have t': "ht_size t' = ht_size t" "ht_hash_fn t' = ht_hash_fn t" "same_conf t t'"
      by (simp_all add: t'_def same_conf_def)
    have "hwf t' ?cs"
      by (rule hwf_rechain(1) [OF cs(1) h(2) [folded t'_def] chain_of_less [OF l]]) (auto simp: hit(3) t')
    moreover have "holds_in (m(?k := None)) (entries t' ?cs)"
      unfolding entries_drop [OF cs(1) chain_of_less [OF l] hit(3) t'(1)]
      using holds_in_remove [OF cs(2) _ hit(5,4)] cs(1) by (simp add: hwf_def)
    ultimately have "htable_holds t' (m(?k := None))" by (auto simp: htable_holds_def)
    moreover have "acl_htable_delete t key_in free_fn =
        Inr (0, if free_fn \<and> he_value (snd x) \<noteq> None then [he_value (snd x)] else [], t')"
      unfolding acl_htable_delete_def Let_def using hit(1,2) h(1) by (simp add: chain_of_def t'_def)
    ultimately show ?thesis using m t'(3) by (auto split: option.splits)
  qed
qed

section \<open>Entering and creating\<close>

text \<open>\<open>htable_enter_op\<close> is a call of \<open>acl_htable_enter\<close> and what its caller sees of the node it gets: whether
  the key was there already, and the value of the node.\<close>

definition htable_enter_op :: "htable \<Rightarrow> byte list \<Rightarrow> ptr \<Rightarrow> (bool \<times> ptr \<times> htable) cres" where
  "htable_enter_op t key v =
     cbind (acl_htable_enter t key v) (\<lambda>(ht, t1).
     cbind (cread (ht_nodes t1) ht) (\<lambda>nd. Inr (acl_htable_errno (Some t1) = STAT_DUPLEX_KEY, he_value (cn_data nd), t1)))"

definition htable_delete_op :: "htable \<Rightarrow> byte list \<Rightarrow> (int \<times> ptr list \<times> htable) cres" where
  "htable_delete_op t key = acl_htable_delete t key True"

lemma htable_enter_op_holds:
  assumes "htable_holds t m" "\<not> (ht_key_reuse t \<and> ht_key_lower t)"
  shows "\<exists>t'. same_conf t t' \<and>
    (case m (key_of t key_in) of
       None \<Rightarrow> htable_enter_op t key_in v = Inr (False, v, t') \<and> htable_holds t' (m(key_of t key_in \<mapsto> v))
     | Some w \<Rightarrow> htable_enter_op t key_in v = Inr (True, w, t') \<and> htable_holds t' m)"
proof -
  let ?k = "key_of t key_in"
  obtain cs where cs: "hwf t cs" "holds_in m (entries t cs)" using assms by (auto simp: htable_holds_def)
  obtain p t' cs' n where e: "acl_htable_enter t key_in v = Inr (Some p, t')" "hwf t' cs'" "n \<in> entries t' cs'" "fst n = p"
    "he_key (snd n) = Some ?k"
    "if \<exists>n\<in>entries t cs. he_key (snd n) = Some ?k
     then entries t' cs' = entries t cs \<and> ht_status t' = STAT_DUPLEX_KEY
     else entries t' cs' = insert n (entries t cs) \<and> he_value (snd n) = v \<and> n \<notin> entries t cs \<and> ht_status t' = STAT_OK"
    "same_conf t t'"
    using acl_htable_enter_wf [OF cs(1) assms(2), of key_in v] unfolding same_conf_def by blast
  obtain nd where nd: "ht_nodes t' (fst n) = Some nd" "cn_data nd = snd n"
    using entry_node [OF _ e(3)] e(2) by (auto simp: hwf_def)
  have op: "htable_enter_op t key_in v = Inr (ht_status t' = STAT_DUPLEX_KEY, he_value (snd n), t')"
    unfolding htable_enter_op_def e(1) using nd e(4) by (simp add: acl_htable_errno_def)
  show ?thesis
  proof (cases "m ?k")
    case None
    then have "\<not> (\<exists>n\<in>entries t cs. he_key (snd n) = Some ?k)" using holds_in_None [OF cs(2)] by blast
    then have n: "entries t' cs' = insert n (entries t cs)" "he_value (snd n) = v" "ht_status t' = STAT_OK"
      using e(6) by simp_all
    have "holds_in (m(?k \<mapsto> v)) (entries t' cs')" using holds_in_insert [OF cs(2) None e(5)] n(1,2) by simp
    then have "htable_holds t' (m(?k \<mapsto> v))" using e(2) by (auto simp: htable_holds_def)
    then show ?thesis using None op n(2,3) e(7) by auto
  next
    case (Some w)
    then have "\<exists>n\<in>entries t cs. he_key (snd n) = Some ?k" using cs(2) unfolding holds_in_def by blast
    then have n: "entries t' cs' = entries t cs" "ht_status t' = STAT_DUPLEX_KEY" using e(6) by simp_all
    have "he_value (snd n) = w" using holds_in_Some [OF cs(2) _ e(5)] e(3) n(1) Some by simp
    moreover have "htable_holds t' m" using e(2) cs(2) n(1) by (auto simp: htable_holds_def)
    ultimately show ?thesis using Some op n(2) e(7) by auto
  qed
qed

lemma create_holds: "htable_holds (acl_htable_ctl_hash (acl_htable_create sz reuse mslook lower) f) Map.empty"
proof -
  define t where "t = acl_htable_ctl_hash (acl_htable_create sz reuse mslook lower) f"
  have "0 < ht_size t" "ht_data t = replicate (ht_size t) None" "ht_used t = 0" "ht_nodes t = Map.empty"
    by (auto simp: t_def acl_htable_ctl_hash_def acl_htable_create_def acl_htable_create3_def htable_size_def Let_def odd_pos)
  then have "hwf t (\<lambda>i. [])" "entries t (\<lambda>i. []) = {}" by (simp_all add: hwf_def hlinked_def entries_def)
  then show ?thesis unfolding t_def [symmetric] by (auto simp: htable_holds_def holds_in_def)
qed

text \<open>The number of entries is the number of keys.\<close>

lemma entries_card:
  assumes "hlinked t cs"
  shows "finite (entries t cs)" "card (entries t cs) = ht_used t"
proof -
  note h = hlinkedD [OF assms]
  show "finite (entries t cs)" by (simp add: entries_def)
  have "set (cs i) \<inter> set (cs j) = {}" if "i < ht_size t" "j < ht_size t" "i \<noteq> j" for i j using h(8) [OF that] by auto
  then have "card (entries t cs) = (\<Sum>i<ht_size t. card (set (cs i)))"
    unfolding entries_def by (intro card_UN_disjoint) auto
  also have "\<dots> = (\<Sum>i<ht_size t. length (cs i))"
    using h(7) by (intro sum.cong) (auto simp: distinct_map distinct_card)
  finally show "card (entries t cs) = ht_used t" using h(3) by simp
qed

lemma holds_used:
  assumes "htable_holds t m"
  shows "finite (dom m)" "acl_htable_used (Some t) = card (dom m)"
proof -
  obtain cs where cs: "hwf t cs" "holds_in m (entries t cs)" using assms by (auto simp: htable_holds_def)
  let ?f = "\<lambda>n. he_key (snd n)"
  have l: "hlinked t cs" and inj: "inj_on ?f (entries t cs)" using cs(1) by (simp_all add: hwf_def)
  have keys: "\<exists>k. he_key (snd n) = Some k" if "n \<in> entries t cs" for n
  proof -
    obtain i where "i < ht_size t" "n \<in> set (cs i)" using \<open>n \<in> entries t cs\<close> by (auto simp: entries_def)
    with cs(1) have "placed t i n" by (simp add: hwf_def)
    then show ?thesis by (auto simp: placed_def)
  qed
  have im: "?f ` entries t cs = Some ` dom m"
  proof (intro equalityI subsetI)
    fix x assume "x \<in> ?f ` entries t cs"
    then obtain n where n: "n \<in> entries t cs" "x = he_key (snd n)" by blast
    obtain k where k: "he_key (snd n) = Some k" using keys [OF n(1)] by blast
    have "k \<in> dom m" using holds_in_Some [OF cs(2) n(1) k] by (rule domI)
    then show "x \<in> Some ` dom m" using n(2) k by simp
  next
    fix x assume "x \<in> Some ` dom m"
    then obtain k v where k: "x = Some k" "m k = Some v" by blast
    then obtain n where "n \<in> entries t cs" "he_key (snd n) = Some k" using cs(2) unfolding holds_in_def by blast
    then show "x \<in> ?f ` entries t cs" using k(1) by (metis (no_types, lifting) image_eqI)
  qed
  have "finite (Some ` dom m)" using entries_card(1) [OF l] unfolding im [symmetric] by (rule finite_imageI)
  then show "finite (dom m)" by (rule finite_imageD) simp
  have "card (dom m) = card (Some ` dom m)" by (simp add: card_image)
  also have "\<dots> = card (entries t cs)" unfolding im [symmetric] using inj by (rule card_image)
  finally show "acl_htable_used (Some t) = card (dom m)" using entries_card(2) [OF l] by (simp add: acl_htable_used_def)
qed

section \<open>The table as a dictionary\<close>

definition dict_holds :: "bool \<Rightarrow> htable \<Rightarrow> (byte list \<rightharpoonup> ptr) \<Rightarrow> bool" where
  "dict_holds lower t m \<longleftrightarrow> htable_holds t m \<and> ht_key_lower t = lower \<and> \<not> (ht_key_reuse t \<and> lower)"

definition norm_key :: "bool \<Rightarrow> byte list \<Rightarrow> byte list" where
  "norm_key lower key = (if lower then acl_lowercase key else key)"

lemma dict_norm: "dict_holds lower t m \<Longrightarrow> key_of t key = norm_key lower key"
  by (simp add: dict_holds_def key_of_def norm_key_def)

lemma dict_same_conf: "dict_holds lower t m \<Longrightarrow> same_conf t t' \<Longrightarrow> htable_holds t' m' \<Longrightarrow> dict_holds lower t' m'"
  by (simp add: dict_holds_def same_conf_def)

interpretation htab: dict_table "dict_holds lower" "norm_key lower" htable_enter_op acl_htable_find htable_delete_op
  for lower
proof
  fix t m k v w
  assume d: "dict_holds lower t m"
  then have h: "htable_holds t m" "\<not> (ht_key_reuse t \<and> ht_key_lower t)" by (auto simp: dict_holds_def)
  note norm = dict_norm [OF d] and keep = dict_same_conf [OF d]
  show "\<exists>t'. htable_enter_op t k v = Inr (False, v, t') \<and> dict_holds lower t' (m(norm_key lower k \<mapsto> v))"
    if "m (norm_key lower k) = None"
    using htable_enter_op_holds [OF h, of k v] that keep by (auto simp: norm)
  show "\<exists>t'. htable_enter_op t k v = Inr (True, w, t') \<and> dict_holds lower t' m"
    if "m (norm_key lower k) = Some w"
    using htable_enter_op_holds [OF h, of k v] that keep by (auto simp: norm)
  show "\<exists>t'. acl_htable_find t k = Inr (case m (norm_key lower k) of None \<Rightarrow> None | Some v \<Rightarrow> v, t') \<and> dict_holds lower t' m"
    using acl_htable_find_holds [OF h(1), of k] keep by (auto simp: norm)
  show "\<exists>t'. htable_delete_op t k = Inr (0, if v = None then [] else [v], t') \<and> dict_holds lower t' (m(norm_key lower k := None))"
    if "m (norm_key lower k) = Some v"
    using acl_htable_delete_holds [OF h(1), of k True] that keep
    by (auto simp: norm htable_delete_op_def split: option.splits)
  show "\<exists>t'. htable_delete_op t k = Inr (-1, [], t') \<and> dict_holds lower t' m"
    if "m (norm_key lower k) = None"
    using acl_htable_delete_holds [OF h(1), of k True] that keep
    by (auto simp: norm htable_delete_op_def fun_upd_idem)
qed

section \<open>Walks over all entries\<close>

definition nodes_from :: "nat \<Rightarrow> htable \<Rightarrow> (nat \<Rightarrow> (addr \<times> hent) list) \<Rightarrow> (addr \<times> hent) list" where
  "nodes_from i t cs = concat (map cs [i..<ht_size t])"

lemma nodes_from_split: "i < ht_size t \<Longrightarrow> nodes_from i t cs = cs i @ nodes_from (Suc i) t cs"
  by (simp add: nodes_from_def upt_rec)

lemma nodes_from_end [simp]: "ht_size t \<le> i \<Longrightarrow> nodes_from i t cs = []"
  by (simp add: nodes_from_def)

lemma nodes_all:
  assumes "hlinked t cs"
  shows "set (nodes_from 0 t cs) = entries t cs" "length (nodes_from 0 t cs) = ht_used t"
    "distinct (map fst (nodes_from 0 t cs))"
proof -
  note h = hlinkedD [OF assms]
  show "set (nodes_from 0 t cs) = entries t cs" by (auto simp: nodes_from_def entries_def)
  show "length (nodes_from 0 t cs) = ht_used t"
    by (simp add: nodes_from_def h(3) length_concat interv_sum_list_conv_sum_set_nat comp_def atLeast0LessThan)
  have "distinct (map fst (nodes_from i t cs)) \<and> fst ` set (nodes_from i t cs) = (\<Union>j\<in>{i..<ht_size t}. fst ` set (cs j))"
    if "i \<le> ht_size t" for i
    using that
  proof (induction "ht_size t - i" arbitrary: i)
    case (Suc d)
    then have i: "i < ht_size t" by simp
    have IH: "distinct (map fst (nodes_from (Suc i) t cs))"
      "fst ` set (nodes_from (Suc i) t cs) = (\<Union>j\<in>{Suc i..<ht_size t}. fst ` set (cs j))"
      using Suc.hyps(1) [of "Suc i"] Suc.hyps(2) i by auto
    have "fst ` set (cs i) \<inter> (\<Union>j\<in>{Suc i..<ht_size t}. fst ` set (cs j)) = {}"
      using h(8) [OF i] by fastforce
    moreover have "{i..<ht_size t} = insert i {Suc i..<ht_size t}" using i by auto
    ultimately show ?case
      unfolding nodes_from_split [OF i] using IH h(7) [OF i] by (simp add: image_Un)
  qed simp
  then show "distinct (map fst (nodes_from 0 t cs))" by blast
qed

lemma data_first: "hlinked t cs \<Longrightarrow> ht_data t = map (\<lambda>ns. first_of ns None) (map cs [0..<ht_size t])"
  using hlinkedD(2,5) by (intro nth_equalityI) auto

lemma walk_chain_seg:
  "cseg s p ns None \<Longrightarrow> length ns \<le> k \<Longrightarrow> walk_chain k s (first_of ns None) = Inr (map (Some \<circ> fst) ns)"
proof (induction ns arbitrary: p k)
  case Nil
  then show ?case by (cases k) auto
next
  case (Cons n ns)
  then obtain j where "k = Suc j" "length ns \<le> j" by (cases k) auto
  with Cons show ?case by auto
qed

lemma walk_chains_seg:
  "(\<And>ns. ns \<in> set nss \<Longrightarrow> cseg s None ns None \<and> length ns \<le> k) \<Longrightarrow>
     walk_chains k s (map (\<lambda>ns. first_of ns None) nss) = Inr (map (Some \<circ> fst) (concat nss))"
proof (induction nss)
  case (Cons ns nss)
  have "cseg s None ns None" "length ns \<le> k" using Cons.prems [of ns] by simp_all
  then have "walk_chain k s (first_of ns None) = Inr (map (Some \<circ> fst) ns)" by (rule walk_chain_seg)
  moreover have "walk_chains k s (map (\<lambda>ns. first_of ns None) nss) = Inr (map (Some \<circ> fst) (concat nss))"
    by (rule Cons.IH) (use Cons.prems in simp)
  ultimately show ?case by simp
qed simp

lemma walk_nodes:
  assumes "hlinked t cs"
  shows "acl_htable_walk t = Inr (map (Some \<circ> fst) (nodes_from 0 t cs))"
  unfolding acl_htable_walk_def data_first [OF assms] nodes_from_def
  by (rule walk_chains_seg) (use hlinkedD(6) [OF assms] chain_le_used [OF assms] in auto)

lemma scan_up_cases:
  assumes "hlinked t cs" "i \<le> ht_size t"
  obtains (empty) it where "scan_up (ht_size t - i) i t = Inr it" "snd it = None" "nodes_from i t cs = []"
  | (at) j where "scan_up (ht_size t - i) i t = Inr (j, first_of (cs j) None)" "j < ht_size t" "cs j \<noteq> []"
      "nodes_from i t cs = nodes_from j t cs"
proof -
  have "(\<exists>it. scan_up (ht_size t - i) i t = Inr it \<and> snd it = None \<and> nodes_from i t cs = []) \<or>
    (\<exists>j<ht_size t. scan_up (ht_size t - i) i t = Inr (j, first_of (cs j) None) \<and> cs j \<noteq> [] \<and>
       nodes_from i t cs = nodes_from j t cs)"
    using assms(2)
  proof (induction "ht_size t - i" arbitrary: i)
    case (Suc d)
    then have i: "i < ht_size t" and d: "ht_size t - i = Suc (ht_size t - Suc i)" by simp_all
    have b: "bucket t i = Inr (first_of (cs i) None)" using hlinkedD(2,5) [OF assms(1)] i by (simp add: bucket_def)
    show ?case
    proof (cases "cs i = []")
      case True
      then have "scan_up (ht_size t - i) i t = scan_up (ht_size t - Suc i) (Suc i) t" unfolding d by (simp add: b)
      moreover have "nodes_from i t cs = nodes_from (Suc i) t cs" using nodes_from_split [OF i] True by simp
      ultimately show ?thesis using Suc.hyps(1) [of "Suc i"] Suc.hyps(2) i by simp
    next
      case False
      then have "scan_up (ht_size t - i) i t = Inr (i, first_of (cs i) None)" unfolding d by (simp add: b)
      with False i show ?thesis by blast
    qed
  qed simp
  then show ?thesis using that by blast
qed

lemma foreach_nodes:
  assumes "hlinked t cs" "i < ht_size t" "cs i = as @ n # ns" "length ns + length (nodes_from (Suc i) t cs) < k"
  shows "htable_foreach k t (i, Some (fst n)) = Inr (map (Some \<circ> fst) (n # ns @ nodes_from (Suc i) t cs))"
  using assms(2-4)
proof (induction k arbitrary: i as n ns)
  case (Suc k)
  have nd: "ht_nodes t (fst n) = Some \<lparr>cn_data = snd n, cn_prev = last_of as None, cn_next = first_of ns None\<rparr>"
    using hlinkedD(6) [OF assms(1) Suc.prems(1)] Suc.prems(2) by (simp add: cseg_node)
  show ?case
  proof (cases ns)
    case (Cons y ys)
    then have "acl_htable_iter_next t (i, Some (fst n)) = Inr (i, Some (fst y))"
      using nd by (simp add: acl_htable_iter_next_def)
    moreover have "htable_foreach k t (i, Some (fst y)) = Inr (map (Some \<circ> fst) (y # ys @ nodes_from (Suc i) t cs))"
      using Suc.prems Cons by (intro Suc.IH [of i "as @ [n]"]) auto
    ultimately show ?thesis using Cons by simp
  next
    case Nil
    have nxt: "acl_htable_iter_next t (i, Some (fst n)) = scan_up (ht_size t - Suc i) (Suc i) t"
      using nd Nil by (simp add: acl_htable_iter_next_def)
    have "Suc i \<le> ht_size t" using Suc.prems(1) by simp
    with assms(1) show ?thesis
    proof (cases rule: scan_up_cases [of t cs "Suc i"])
      case (empty it)
      then show ?thesis using nxt Nil by (cases k) simp_all
    next
      case (at j)
      then obtain m ms where m: "cs j = m # ms" by (cases "cs j") auto
      have rest: "nodes_from (Suc i) t cs = m # ms @ nodes_from (Suc j) t cs"
        using at(4) nodes_from_split [OF at(2), of cs] m by simp
      have "htable_foreach k t (j, Some (fst m)) = Inr (map (Some \<circ> fst) (m # ms @ nodes_from (Suc j) t cs))"
        using Suc.prems(3) Nil rest at(2) m by (intro Suc.IH [of j "[]"]) auto
      then show ?thesis using nxt at(1) m Nil rest by simp
    qed
  qed
qed simp

lemma foreach_all:
  assumes "hlinked t cs"
  shows "cbind (acl_htable_iter_head t) (htable_foreach (ht_used t) t) = Inr (map (Some \<circ> fst) (nodes_from 0 t cs))"
  using assms le0
proof (cases rule: scan_up_cases [of t cs 0])
  case (empty it)
  then show ?thesis by (cases "ht_used t") (simp_all add: acl_htable_iter_head_def)
next
  case (at j)
  then obtain m ms where m: "cs j = m # ms" by (cases "cs j") auto
  have rest: "nodes_from 0 t cs = m # ms @ nodes_from (Suc j) t cs"
    using at(4) nodes_from_split [OF at(2), of cs] m by simp
  have "htable_foreach (ht_used t) t (j, Some (fst m)) = Inr (map (Some \<circ> fst) (m # ms @ nodes_from (Suc j) t cs))"
    using foreach_nodes [OF assms at(2), of "[]" m ms] m rest nodes_all(2) [OF assms] by simp
  then show ?thesis using at(1) m rest by (simp add: acl_htable_iter_head_def)
qed

section \<open>Freeing and resetting\<close>

definition freed_values :: "bool \<Rightarrow> (addr \<times> hent) list \<Rightarrow> ptr list" where
  "freed_values free_fn ns = (if free_fn then filter (\<lambda>v. v \<noteq> None) (map (he_value \<circ> snd) ns) else [])"

definition without :: "(addr \<rightharpoonup> 'n) \<Rightarrow> (addr \<times> hent) list \<Rightarrow> (addr \<rightharpoonup> 'n)" where
  "without s ns = s |` (- fst ` set ns)"

lemma without_append: "without (without s ns) ms = without s (ns @ ms)"
  by (simp add: without_def image_Un Compl_Un)

lemma nseg_without: "fst ` set ns \<inter> fst ` set ms = {} \<Longrightarrow> nseg (without s ms) ns = nseg s ns"
  by (rule nseg_other) (auto simp: without_def restrict_map_def)

lemma free_chain_seg:
  "nseg s ns \<Longrightarrow> distinct (map fst ns) \<Longrightarrow> length ns \<le> k \<Longrightarrow>
     free_chain k s (first_of ns None) free_fn = Inr (freed_values free_fn ns, without s ns)"
proof (induction ns arbitrary: s k)
  case Nil
  then show ?case by (cases k) (simp_all add: freed_values_def without_def)
next
  case (Cons n ns)
  obtain j where k: "k = Suc j" "length ns \<le> j" using Cons.prems(3) by (cases k) auto
  obtain p where n: "s (fst n) = Some \<lparr>cn_data = snd n, cn_prev = p, cn_next = first_of ns None\<rparr>" using Cons.prems(1) by auto
  have one: "without s [n] = s(fst n := None)" by (auto simp: without_def restrict_map_def)
  have "nseg (s(fst n := None)) ns"
    using Cons.prems(1,2) unfolding one [symmetric] by (subst nseg_without) auto
  then have "free_chain j (s(fst n := None)) (first_of ns None) free_fn = Inr (freed_values free_fn ns, without (s(fst n := None)) ns)"
    by (rule Cons.IH) (use Cons.prems(2) k(2) in simp_all)
  then show ?case using n unfolding k(1) one [symmetric] without_append
    by (simp add: freed_values_def one)
qed

lemma free_chains_seg:
  assumes "\<And>ns. ns \<in> set nss \<Longrightarrow> nseg s ns \<and> length ns \<le> k" "distinct (map fst (concat nss))"
  shows "free_chains k s (map (\<lambda>ns. first_of ns None) nss) free_fn =
    Inr (freed_values free_fn (concat nss), without s (concat nss))"
  using assms
proof (induction nss arbitrary: s)
  case (Cons ns nss)
  have ns: "nseg s ns" "length ns \<le> k" "distinct (map fst ns)" using Cons.prems by simp_all
  have d: "distinct (map fst (concat nss))" using Cons.prems(2) by simp
  have "nseg (without s ns) ms \<and> length ms \<le> k" if "ms \<in> set nss" for ms
  proof -
    have "fst ` set ms \<inter> fst ` set ns = {}" using Cons.prems(2) that by auto
    then show ?thesis using Cons.prems(1) [of ms] that by (simp add: nseg_without)
  qed
  then have "free_chains k (without s ns) (map (\<lambda>ns. first_of ns None) nss) free_fn =
      Inr (freed_values free_fn (concat nss), without (without s ns) (concat nss))"
    by (rule Cons.IH [OF _ d])
  then show ?case using free_chain_seg [OF ns(1,3,2), of free_fn]
    by (simp add: without_append) (simp add: freed_values_def)
qed (simp add: freed_values_def without_def restrict_map_def)

lemma free_nodes:
  assumes "hlinked t cs"
  shows "free_chains (ht_used t) (ht_nodes t) (ht_data t) free_fn =
    Inr (freed_values free_fn (nodes_from 0 t cs), without (ht_nodes t) (nodes_from 0 t cs))"
  unfolding data_first [OF assms] nodes_from_def
proof (rule free_chains_seg)
  show "nseg (ht_nodes t) ns \<and> length ns \<le> ht_used t" if "ns \<in> set (map cs [0..<ht_size t])" for ns
    using that hlinkedD(6) [OF assms, THEN cseg_nseg] chain_le_used [OF assms] by auto
  show "distinct (map fst (concat (map cs [0..<ht_size t])))"
    using nodes_all(3) [OF assms] by (simp only: nodes_from_def)
qed

text \<open>A table with one entry, for the examples below.\<close>

lemma one_entry:
  "\<exists>t cs n. acl_htable_enter (acl_htable_create 0 False False False) [97] (Some 7) = Inr (Some (fst n), t) \<and>
     hwf t cs \<and> entries t cs = {n} \<and> he_value (snd n) = Some 7"
proof -
  let ?t = "acl_htable_create 0 False False False"
  have w: "hwf ?t (\<lambda>i. [])" "entries ?t (\<lambda>i. []) = {}"
    by (simp_all add: acl_htable_create_def acl_htable_create3_def htable_size_def Let_def hwf_def hlinked_def entries_def)
  have "\<not> (ht_key_reuse ?t \<and> ht_key_lower ?t)"
    by (simp add: acl_htable_create_def acl_htable_create3_def htable_size_def Let_def)
  from acl_htable_enter_wf [OF w(1) this, of "[97]" "Some 7"] show ?thesis unfolding w(2) by auto
qed

section \<open>Properties\<close>

text \<open>C16: Any sequence of enters, lookups and deletes on a hash table that has just been created, of any
  size, with any hash function and flags other than lower-casing keys that are not copied, gives
  what the same calls give on a map from (lower-cased) keys to values, with the first value entered
  under a key kept; no call faults, and the table counts the keys of the map.\<close>

theorem htable_refines_map:
  assumes "\<not> (reuse \<and> lower)"
  shows "\<exists>t'. dict_run htable_enter_op acl_htable_find htable_delete_op cs
        (acl_htable_ctl_hash (acl_htable_create sz reuse mslook lower) f) =
      Inr (fst (map_run (norm_key lower) cs Map.empty), t') \<and>
    htable_holds t' (snd (map_run (norm_key lower) cs Map.empty)) \<and>
    acl_htable_used (Some t') = card (dom (snd (map_run (norm_key lower) cs Map.empty)))"
proof -
  have "dict_holds lower (acl_htable_ctl_hash (acl_htable_create sz reuse mslook lower) f) Map.empty"
    using create_holds [of sz reuse mslook lower f] assms
    by (simp add: dict_holds_def acl_htable_ctl_hash_def acl_htable_create_def acl_htable_create3_def htable_size_def Let_def)
  from htab.dict_run_refines [OF this, of cs] obtain t' where
    "dict_run htable_enter_op acl_htable_find htable_delete_op cs
        (acl_htable_ctl_hash (acl_htable_create sz reuse mslook lower) f) =
      Inr (fst (map_run (norm_key lower) cs Map.empty), t')"
    "dict_holds lower t' (snd (map_run (norm_key lower) cs Map.empty))"
    by (metis prod.collapse)
  then show ?thesis using holds_used by (auto simp: dict_holds_def)
qed

text \<open>On a table of lower-cased keys, \<open>Ab\<close> and \<open>aB\<close> are one key, which keeps its first value.\<close>

theorem htable_refines_map_witness:
  "\<exists>t'. dict_run htable_enter_op acl_htable_find htable_delete_op
        [DEnter [0x41, 0x62] (Some 7), DEnter [0x61, 0x42] (Some 8), DFind [0x61, 0x62], DDelete [0x41, 0x42], DFind [0x61, 0x62]]
        (acl_htable_ctl_hash (acl_htable_create 0 False True True) None) =
      Inr ([Entered False (Some 7), Entered True (Some 7), Found (Some 7), Deleted 0 [Some 7], Found None], t')"
proof -
  have "fst (map_run (norm_key True) [DEnter [0x41, 0x62] (Some 7), DEnter [0x61, 0x42] (Some 8), DFind [0x61, 0x62],
      DDelete [0x41, 0x42], DFind [0x61, 0x62]] Map.empty) =
    [Entered False (Some 7), Entered True (Some 7), Found (Some 7), Deleted 0 [Some 7], Found None]"
    by (simp add: norm_key_def acl_lowercase_def to_lower_def)
  with htable_refines_map [of False True "[DEnter [0x41, 0x62] (Some 7), DEnter [0x61, 0x42] (Some 8), DFind [0x61, 0x62],
      DDelete [0x41, 0x42], DFind [0x61, 0x62]]" 0 True None]
  show ?thesis by auto
qed

text \<open>C17: Growing a well-formed table keeps it well-formed and keeps its nodes: every node stays at its
  address, linked into the chain of its hash in a table of \<open>2 * size + 1\<close> chains.\<close>

theorem htable_grow_keeps:
  assumes "hwf t cs"
  shows "\<exists>t' cs'. htable_grow t = Inr t' \<and> hwf t' cs' \<and> entries t' cs' = entries t cs \<and>
    ht_size t' = 2 * ht_size t + 1 \<and> ht_used t' = ht_used t"
proof -
  obtain t' cs' where g: "htable_grow t = Inr t'" "hwf t' cs'" "entries t' cs' = entries t cs" "ht_size t' = Suc (2 * ht_size t)"
    using htable_grow_wf [OF assms] by blast
  have "hlinked t' cs'" "hlinked t cs" using g(2) assms by (simp_all add: hwf_def)
  from entries_card(2) [OF this(1)] entries_card(2) [OF this(2)] have "ht_used t' = ht_used t" using g(3) by simp
  with g show ?thesis by auto
qed

theorem htable_grow_keeps_witness:
  "\<exists>t t' cs cs' n. acl_htable_enter (acl_htable_create 0 False False False) [97] (Some 7) = Inr (Some (fst n), t) \<and>
     entries t cs = {n} \<and> htable_grow t = Inr t' \<and> hwf t' cs' \<and> entries t' cs' = {n}"
proof -
  obtain t cs n where t: "acl_htable_enter (acl_htable_create 0 False False False) [97] (Some 7) = Inr (Some (fst n), t)"
    "hwf t cs" "entries t cs = {n}" using one_entry by blast
  obtain t' cs' where "htable_grow t = Inr t'" "hwf t' cs'" "entries t' cs' = {n}"
    using htable_grow_keeps [OF t(2)] unfolding t(3) by blast
  with t show ?thesis by blast
qed

text \<open>The iterator of a table and \<open>acl_htable_walk\<close> give the same nodes in the same order: every
  entry exactly once; \<open>acl_htable_list\<close> fits them and the NULL at the end into its array.\<close>

theorem htable_walks_agree:
  assumes "hwf t cs"
  shows "\<exists>ps. acl_htable_walk t = Inr ps \<and> cbind (acl_htable_iter_head t) (htable_foreach (ht_used t) t) = Inr ps \<and>
    acl_htable_list (Some t) = Inr (ps @ [None]) \<and> distinct ps \<and> set ps = Some ` fst ` entries t cs \<and> length ps = acl_htable_used (Some t)"
proof -
  have l: "hlinked t cs" using assms by (simp add: hwf_def)
  note n = nodes_all [OF l]
  let ?ps = "map (Some \<circ> fst) (nodes_from 0 t cs)"
  have w: "acl_htable_walk t = Inr ?ps" by (rule walk_nodes [OF l])
  have "acl_htable_list (Some t) = Inr (?ps @ [None])"
    using w n(2) by (simp add: acl_htable_list_def acl_htable_walk_def)
  moreover have "distinct ?ps" using n(3) by (simp add: distinct_map inj_on_def comp_def)
  moreover have "set ?ps = Some ` fst ` entries t cs" unfolding n(1) [symmetric] by (simp add: image_comp)
  ultimately show ?thesis using w foreach_all [OF l] n(2) by (auto simp: acl_htable_used_def)
qed

theorem htable_walks_agree_witness:
  "\<exists>t cs n. acl_htable_enter (acl_htable_create 0 False False False) [97] (Some 7) = Inr (Some (fst n), t) \<and>
     hwf t cs \<and> acl_htable_walk t = Inr [Some (fst n)] \<and> acl_htable_list (Some t) = Inr [Some (fst n), None]"
proof -
  obtain t cs n where t: "acl_htable_enter (acl_htable_create 0 False False False) [97] (Some 7) = Inr (Some (fst n), t)"
    "hwf t cs" "entries t cs = {n}" using one_entry by blast
  obtain ps where ps: "acl_htable_walk t = Inr ps" "acl_htable_list (Some t) = Inr (ps @ [None])" "distinct ps" "set ps = {Some (fst n)}"
    using htable_walks_agree [OF t(2)] unfolding t(3) by auto
  then have "length ps = 1" using distinct_card [OF ps(3)] by simp
  then obtain p where "ps = [p]" by (auto simp: length_Suc_conv)
  with ps(4) have "ps = [Some (fst n)]" by simp
  with ps t show ?thesis by auto
qed

text \<open>Resetting a table gives the destructor the value of every entry, once, frees every node and
  leaves an empty table of the initial size.\<close>

theorem acl_htable_reset_empties:
  assumes "hwf t cs"
  shows "\<exists>fs t'. acl_htable_reset t True = Inr (0, fs, t') \<and> htable_holds t' Map.empty \<and> acl_htable_used (Some t') = 0 \<and>
    mset fs = image_mset (\<lambda>n. he_value (snd n)) (filter_mset (\<lambda>n. he_value (snd n) \<noteq> None) (mset_set (entries t cs))) \<and>
    (\<forall>n\<in>entries t cs. ht_nodes t' (fst n) = None)"
proof -
  have l: "hlinked t cs" using assms by (simp add: hwf_def)
  note n = nodes_all [OF l]
  let ?ns = "nodes_from 0 t cs"
  define sz where "sz = nat (if ht_init_size t < 13 then 13 else ht_init_size t)"
  define t' where "t' = htable_size (t\<lparr>ht_nodes := without (ht_nodes t) ?ns\<rparr>) sz"
  have r: "acl_htable_reset t True = Inr (0, freed_values True ?ns, t')"
    by (simp add: acl_htable_reset_def free_nodes [OF l] t'_def sz_def)
  have st: "ht_nodes t' = without (ht_nodes t) ?ns" "ht_brk t' = ht_brk t" "0 < ht_size t'" "ht_used t' = 0"
    "ht_data t' = replicate (ht_size t') None"
    by (auto simp: t'_def htable_size_def Let_def sz_def)
  then have "hwf t' (\<lambda>i. [])" "entries t' (\<lambda>i. []) = {}"
    using hlinkedD(4) [OF l] by (auto simp: hwf_def hlinked_def entries_def without_def)
  then have h: "htable_holds t' Map.empty" by (auto simp: htable_holds_def holds_in_def)
  have "mset ?ns = mset_set (entries t cs)"
    using n(1,3) by (metis distinct_map mset_set_set)
  then have m: "mset (freed_values True ?ns) =
      image_mset (\<lambda>n. he_value (snd n)) (filter_mset (\<lambda>n. he_value (snd n) \<noteq> None) (mset_set (entries t cs)))"
    by (simp add: freed_values_def filter_map comp_def mset_filter)
  have "ht_nodes t' (fst x) = None" if "x \<in> entries t cs" for x
    using that n(1) st(1) by (auto simp: without_def restrict_map_def)
  then show ?thesis using r h m st(4) by (auto simp: acl_htable_used_def)
qed

theorem acl_htable_reset_empties_witness:
  "\<exists>t t' cs n. acl_htable_enter (acl_htable_create 0 False False False) [97] (Some 7) = Inr (Some (fst n), t) \<and> hwf t cs \<and>
     acl_htable_reset t True = Inr (0, [Some 7], t') \<and> ht_nodes t' (fst n) = None"
proof -
  obtain t cs n where t: "acl_htable_enter (acl_htable_create 0 False False False) [97] (Some 7) = Inr (Some (fst n), t)"
    "hwf t cs" "entries t cs = {n}" "he_value (snd n) = Some 7" using one_entry by blast
  obtain fs t' where "acl_htable_reset t True = Inr (0, fs, t')" "mset fs = {#Some 7#}" "ht_nodes t' (fst n) = None"
    using acl_htable_reset_empties [OF t(2)] t(4) unfolding t(3) by auto
  with t show ?thesis by (auto simp: mset_single_iff)
qed

text \<open>A table created with both \<open>ACL_HTABLE_FLAG_KEY_LOWER\<close> and \<open>ACL_HTABLE_FLAG_KEY_REUSE\<close> keeps a
  pointer to the lower-cased copy of the key that \<open>acl_htable_enter\<close> frees when it returns: looking
  up the key that was just entered reads freed memory.\<close>

theorem htable_lower_reuse_dangles:
  "\<exists>p t'. acl_htable_enter (acl_htable_create sz True mslook True) key v = Inr (Some p, t') \<and>
     acl_htable_find t' key = Inl OobRead"
proof -
  define t where "t = acl_htable_create sz True mslook True"
  define n where "n = unat (def_hash_fn (acl_lowercase key)) mod ht_size t"
  have t: "0 < ht_size t" "ht_data t = replicate (ht_size t) None" "ht_used t = 0" "ht_nodes t = Map.empty" "ht_brk t = 0"
    "ht_key_lower t" "ht_key_reuse t" "ht_hash_fn t = def_hash_fn"
    by (auto simp: t_def acl_htable_create_def acl_htable_create3_def htable_size_def Let_def odd_pos)
  have n: "n < ht_size t" using t(1) by (simp add: n_def)
  have "\<exists>t'. acl_htable_enter t key v = Inr (Some 0, t') \<and> ht_data t' = (ht_data t)[n := Some 0] \<and> ht_used t' = 1 \<and>
      ht_size t' = ht_size t \<and> ht_key_lower t' \<and> ht_hash_fn t' = def_hash_fn \<and>
      (\<exists>nd. ht_nodes t' 0 = Some nd \<and> he_key (cn_data nd) = None)"
    using t n unfolding acl_htable_enter_def key_of_def
    by (simp add: Let_def n_def [symmetric] bucket_def h_alloc_def htable_link_def set_bucket_def)
  then obtain t' where t': "acl_htable_enter t key v = Inr (Some 0, t')" "ht_data t' = (ht_data t)[n := Some 0]" "ht_used t' = 1"
    "ht_size t' = ht_size t" "ht_key_lower t'" "ht_hash_fn t' = def_hash_fn"
    "\<exists>nd. ht_nodes t' 0 = Some nd \<and> he_key (cn_data nd) = None" by blast
  have "acl_htable_locate t' key = Inl OobRead"
    using t' t(2) n by (auto simp: acl_htable_locate_def Let_def key_of_def n_def [symmetric] bucket_def)
  with t'(1) show ?thesis unfolding t_def [symmetric] by (auto simp: acl_htable_find_def)
qed

end
