(* ===== verification/Acl_Cache.thy ===== *)
theory Acl_Cache
  imports Acl_TimedCache Acl_HtableMap Acl_Ring
begin

text \<open>
  The cache of \<open>lib_acl/src/stdlib/common/acl_cache.c\<close>: a hash table (\<open>Acl_Htable\<close>) from keys to entries, and a ring
  (\<open>Acl_Ring\<close>) of the entries, the oldest first. The entries live in the store \<open>ca_infos\<close>; \<open>ca_brk\<close> is the address of the
  next one. The ring's head, a field of the cache, is at the address \<open>ring_head\<close>, and the \<open>entry\<close> of an \<open>ACL_CACHE_INFO\<close> at the
  address of the info; a link of a released entry cannot be read. The calls of \<open>free_fn\<close> are in \<open>ca_freed\<close>. The time is an argument
  of the functions that call \<open>time\<close>; the two calls of \<open>acl_cache_enter\<close>, in its expiry scan and at \<open>when_timeout\<close>, are given one value, so a
  clock that ticks between them is not covered. Times and counts are integers without bounds: \<open>nrefer\<close>, an \<open>int\<close>, is that of the code for fewer
  than \<open>2\<^bsup>31\<^esup>\<close> references to one entry. A NULL cache is treated as one with no
  size by every function and is not written out. The lock of the cache is not modelled. Loops get as many steps as
  the ring has entries.
\<close>

section \<open>The state and the operations\<close>

record cache =
  ca_table :: htable
  ca_ring :: ring_heap
  ca_max_size :: int
  ca_size :: int
  ca_timeout :: int
  ca_free_fn :: bool
  ca_infos :: "addr \<rightharpoonup> cache_info"
  ca_brk :: addr
  ca_freed :: "(addr \<times> ptr) list"

definition ring_head :: addr where
  "ring_head = 0"

definition info_read :: "cache \<Rightarrow> ptr \<Rightarrow> cache_info cres" where
  "info_read c p = cbind (deref p) (\<lambda>a. case ca_infos c a of None \<Rightarrow> Inl OobRead | Some i \<Rightarrow> Inr i)"

definition info_write :: "cache \<Rightarrow> ptr \<Rightarrow> (cache_info \<Rightarrow> cache_info) \<Rightarrow> cache cres" where
  "info_write c p f =
     cbind (deref p) (\<lambda>a. case ca_infos c a of None \<Rightarrow> Inl OobWrite | Some i \<Rightarrow> Inr (c\<lparr>ca_infos := (ca_infos c)(a \<mapsto> f i)\<rparr>))"

definition succ_of :: "cache \<Rightarrow> addr \<Rightarrow> addr cres" where
  "succ_of c a = (if a = ring_head \<or> ca_infos c a \<noteq> None then deref (rg_succ (ca_ring c) a) else Inl OobRead)"

definition pred_of :: "cache \<Rightarrow> addr \<Rightarrow> addr cres" where
  "pred_of c a = (if a = ring_head \<or> ca_infos c a \<noteq> None then deref (rg_pred (ca_ring c) a) else Inl OobRead)"

definition call_free :: "cache \<Rightarrow> addr \<Rightarrow> ptr \<Rightarrow> cache" where
  "call_free c a v = (if ca_free_fn c then c\<lparr>ca_freed := ca_freed c @ [(a, v)]\<rparr> else c)"

definition ring_fuel :: "cache \<Rightarrow> nat" where
  "ring_fuel c = nat (acl_ring_size (ca_ring c) (Some ring_head))"

definition acl_cache_create :: "ring_heap \<Rightarrow> int \<Rightarrow> int \<Rightarrow> bool \<Rightarrow> cache option" where
  "acl_cache_create h max_size timeout free_fn =
     (if max_size \<le> 0 \<or> timeout \<le> 0 then None
      else Some
        \<lparr>ca_table = acl_htable_create 100 False False False, ca_ring = acl_ring_init h (Some ring_head),
         ca_max_size = (if max_size < 1 then 1 else max_size), ca_size = 0,
         ca_timeout = (if timeout < 0 then 0 else timeout), ca_free_fn = free_fn,
         ca_infos = Map.empty, ca_brk = Suc ring_head, ca_freed = []\<rparr>)"

definition acl_cache_delete :: "cache \<Rightarrow> ptr \<Rightarrow> (int \<times> cache) cres" where
  "acl_cache_delete c info =
     (if ca_max_size c \<le> 0 then Inr (0, c)
      else
        cbind (info_read c info) (\<lambda>i.
        if ci_nrefer i > 0 then Inr (-1, c)
        else
          cbind (acl_htable_delete (ca_table c) (ci_key i) False) (\<lambda>(ret, _, t).
          if ret < 0 then Inr (-1, c\<lparr>ca_table := t\<rparr>)
          else
            cbind (acl_ring_detach (ca_ring c) info) (\<lambda>h.
            cbind (deref info) (\<lambda>a.
            let c1 = call_free (c\<lparr>ca_table := t, ca_ring := h\<rparr>) a (ci_value i)
            in Inr (0, c1\<lparr>ca_infos := (ca_infos c1)(a := None), ca_size := ca_size c1 - 1\<rparr>))))))"

text \<open>The loop of \<open>acl_cache_timeout\<close> from a node of the ring on.\<close>

fun timeout_loop :: "nat \<Rightarrow> cache \<Rightarrow> int \<Rightarrow> addr \<Rightarrow> int \<Rightarrow> (int \<times> cache) cres" where
  "timeout_loop 0 c now it n = (if it = ring_head then Inr (n, c) else Inl OutOfFuel)"
| "timeout_loop (Suc k) c now it n =
     (if it = ring_head then Inr (n, c)
      else
        cbind (info_read c (Some it)) (\<lambda>i.
        if ci_when i > now then Inr (n, c)
        else if ci_nrefer i > 0 \<or> ci_when i = 0 then cbind (succ_of c it) (\<lambda>nx. timeout_loop k c now nx n)
        else
          cbind (succ_of c it) (\<lambda>nx.
          cbind (acl_cache_delete c (Some it)) (\<lambda>(ret, c1).
            timeout_loop k c1 now nx (if ret = 0 then n + 1 else n)))))"

definition acl_cache_timeout :: "cache \<Rightarrow> int \<Rightarrow> (int \<times> cache) cres" where
  "acl_cache_timeout c now =
     (if ca_max_size c \<le> 0 then Inr (0, c)
      else cbind (succ_of c ring_head) (\<lambda>it. timeout_loop (ring_fuel c) c now it 0))"

text \<open>The loop of \<open>acl_cache_enter\<close> that removes one old entry.\<close>

fun evict_loop :: "nat \<Rightarrow> cache \<Rightarrow> addr \<Rightarrow> cache cres" where
  "evict_loop 0 c it = (if it = ring_head then Inr c else Inl OutOfFuel)"
| "evict_loop (Suc k) c it =
     (if it = ring_head then Inr c
      else
        cbind (info_read c (Some it)) (\<lambda>i.
        if ci_nrefer i > 0 \<or> ci_when i = 0 then cbind (succ_of c it) (\<lambda>nx. evict_loop k c nx)
        else cbind (acl_cache_delete c (Some it)) (\<lambda>(_, c1). Inr c1)))"

definition info_alloc :: "cache \<Rightarrow> byte list \<Rightarrow> addr \<times> cache" where
  "info_alloc c key =
     (ca_brk c, c\<lparr>ca_infos := (ca_infos c)(ca_brk c \<mapsto> \<lparr>ci_key = key, ci_value = None, ci_nrefer = 0, ci_when = 0\<rparr>),
                  ca_brk := Suc (ca_brk c)\<rparr>)"

text \<open>The end of \<open>acl_cache_enter\<close>: a new entry.\<close>

definition cache_add :: "cache \<Rightarrow> int \<Rightarrow> byte list \<Rightarrow> ptr \<Rightarrow> (ptr \<times> cache) cres" where
  "cache_add c now key value =
     (let (a, c3) = info_alloc c key
      in cbind (acl_htable_enter (ca_table c3) key (Some a)) (\<lambda>(ht, t).
         let c4 = c3\<lparr>ca_table := t\<rparr>
         in if ht = None then Inr (None, c4\<lparr>ca_infos := (ca_infos c4)(a := None)\<rparr>)
            else
              cbind (info_write (c4\<lparr>ca_size := ca_size c4 + 1\<rparr>) (Some a) (\<lambda>i. i\<lparr>ci_value := value,
                ci_when := (if ca_timeout c4 > 0 then now + ca_timeout c4 else 0)\<rparr>)) (\<lambda>c5.
              cbind (acl_ring_prepend (ca_ring c5) (Some ring_head) (Some a)) (\<lambda>h.
                Inr (Some a, c5\<lparr>ca_ring := h\<rparr>)))))"

definition acl_cache_enter :: "cache \<Rightarrow> int \<Rightarrow> byte list \<Rightarrow> ptr \<Rightarrow> (ptr \<times> cache) cres" where
  "acl_cache_enter c now key value =
     (if ca_max_size c \<le> 0 then Inr (None, c)
      else
        cbind (acl_htable_find (ca_table c) key) (\<lambda>(p, t).
        let c0 = c\<lparr>ca_table := t\<rparr>
        in case p of
             Some a \<Rightarrow>
               cbind (info_read c0 p) (\<lambda>i.
               if ci_nrefer i > 0 then Inr (None, c0)
               else
                 let c1 = call_free c0 a (ci_value i)
                 in cbind (info_write c1 p (\<lambda>i. i\<lparr>ci_value := value\<rparr>)) (\<lambda>c2. Inr (p, c2)))
           | None \<Rightarrow>
               cbind (if ca_size c0 \<ge> ca_max_size c0 then cbind (acl_cache_timeout c0 now) (\<lambda>(_, c1). Inr c1) else Inr c0) (\<lambda>c1.
               cbind (if ca_size c1 \<ge> ca_max_size c1
                      then cbind (succ_of c1 ring_head) (\<lambda>it. evict_loop (ring_fuel c1) c1 it) else Inr c1) (\<lambda>c2.
               if ca_size c2 \<ge> ca_max_size c2 then Inr (None, c2)
               else
                 cache_add c2 now key value))))"

definition acl_cache_locate :: "cache \<Rightarrow> byte list \<Rightarrow> (ptr \<times> cache) cres" where
  "acl_cache_locate c key =
     (if ca_max_size c \<le> 0 then Inr (None, c)
      else cbind (acl_htable_find (ca_table c) key) (\<lambda>(p, t). Inr (p, c\<lparr>ca_table := t\<rparr>)))"

definition acl_cache_find :: "cache \<Rightarrow> byte list \<Rightarrow> (ptr \<times> cache) cres" where
  "acl_cache_find c key =
     (if ca_max_size c \<le> 0 then Inr (None, c)
      else
        cbind (acl_htable_find (ca_table c) key) (\<lambda>(p, t).
        let c1 = c\<lparr>ca_table := t\<rparr>
        in if p \<noteq> None then cbind (info_read c1 p) (\<lambda>i. Inr (ci_value i, c1)) else Inr (None, c1)))"

definition acl_cache_delete2 :: "cache \<Rightarrow> byte list \<Rightarrow> (int \<times> cache) cres" where
  "acl_cache_delete2 c key =
     (if ca_max_size c \<le> 0 then Inr (0, c)
      else
        cbind (acl_htable_find (ca_table c) key) (\<lambda>(p, t).
        let c1 = c\<lparr>ca_table := t\<rparr>
        in if p = None then Inr (-1, c1)
           else cbind (info_read c1 p) (\<lambda>i. if ci_nrefer i > 0 then Inr (-1, c1) else acl_cache_delete c1 p)))"

definition acl_cache_update2 :: "cache \<Rightarrow> int \<Rightarrow> ptr \<Rightarrow> int \<Rightarrow> cache cres" where
  "acl_cache_update2 c now info timeout =
     (if ca_max_size c \<le> 0 then Inr c
      else
        cbind (info_read c info) (\<lambda>_.
        cbind (acl_ring_detach (ca_ring c) info) (\<lambda>h.
        cbind (info_write (c\<lparr>ca_ring := h\<rparr>) info (\<lambda>i. i\<lparr>ci_when := (if timeout > 0 then now + timeout else 0)\<rparr>)) (\<lambda>c1.
        cbind (acl_ring_prepend (ca_ring c1) (Some ring_head) info) (\<lambda>h1. Inr (c1\<lparr>ca_ring := h1\<rparr>))))))"

definition acl_cache_update :: "cache \<Rightarrow> int \<Rightarrow> byte list \<Rightarrow> int \<Rightarrow> cache cres" where
  "acl_cache_update c now key timeout =
     (if ca_max_size c \<le> 0 then Inr c
      else
        cbind (acl_htable_find (ca_table c) key) (\<lambda>(p, t).
        let c1 = c\<lparr>ca_table := t\<rparr> in if p \<noteq> None then acl_cache_update2 c1 now p timeout else Inr c1))"

definition acl_cache_refer :: "cache \<Rightarrow> ptr \<Rightarrow> cache cres" where
  "acl_cache_refer c info = info_write c info (\<lambda>i. i\<lparr>ci_nrefer := ci_nrefer i + 1\<rparr>)"

definition acl_cache_refer2 :: "cache \<Rightarrow> byte list \<Rightarrow> cache cres" where
  "acl_cache_refer2 c key =
     (if ca_max_size c \<le> 0 then Inr c
      else
        cbind (acl_htable_find (ca_table c) key) (\<lambda>(p, t).
        let c1 = c\<lparr>ca_table := t\<rparr> in if p = None then Inr c1 else info_write c1 p (\<lambda>i. i\<lparr>ci_nrefer := ci_nrefer i + 1\<rparr>)))"

definition acl_cache_unrefer2 :: "cache \<Rightarrow> byte list \<Rightarrow> cache cres" where
  "acl_cache_unrefer2 c key =
     (if ca_max_size c \<le> 0 then Inr c
      else
        cbind (acl_htable_find (ca_table c) key) (\<lambda>(p, t).
        let c1 = c\<lparr>ca_table := t\<rparr> in if p = None then Inr c1 else info_write c1 p (\<lambda>i. i\<lparr>ci_nrefer := ci_nrefer i - 1\<rparr>)))"

definition acl_cache_unrefer :: "cache \<Rightarrow> ptr \<Rightarrow> cache cres" where
  "acl_cache_unrefer c info = info_write c info (\<lambda>i. i\<lparr>ci_nrefer := ci_nrefer i - 1\<rparr>)"

text \<open>What \<open>walk_fn\<close> is called on.\<close>

fun cache_walk_loop :: "nat \<Rightarrow> cache \<Rightarrow> addr \<Rightarrow> addr list cres" where
  "cache_walk_loop 0 c it = (if it = ring_head then Inr [] else Inl OutOfFuel)"
| "cache_walk_loop (Suc k) c it =
     (if it = ring_head then Inr []
      else cbind (succ_of c it) (\<lambda>nx. cbind (cache_walk_loop k c nx) (\<lambda>as. Inr (it # as))))"

definition acl_cache_walk :: "cache \<Rightarrow> addr list cres" where
  "acl_cache_walk c =
     (if ca_max_size c \<le> 0 then Inr []
      else cbind (succ_of c ring_head) (\<lambda>it. cache_walk_loop (ring_fuel c) c it))"

fun clean_loop :: "nat \<Rightarrow> cache \<Rightarrow> bool \<Rightarrow> addr \<Rightarrow> int \<Rightarrow> (int \<times> cache) cres" where
  "clean_loop 0 c force it n = (if it = ring_head then Inr (n, c) else Inl OutOfFuel)"
| "clean_loop (Suc k) c force it n =
     (if it = ring_head then Inr (n, c)
      else
        cbind (info_read c (Some it)) (\<lambda>i.
        if ci_nrefer i > 0 \<and> \<not> force then cbind (succ_of c it) (\<lambda>nx. clean_loop k c force nx n)
        else
          cbind (if ci_nrefer i > 0 then info_write c (Some it) (\<lambda>i. i\<lparr>ci_nrefer := 0\<rparr>) else Inr c) (\<lambda>c1.
          cbind (succ_of c1 it) (\<lambda>nx.
          cbind (acl_cache_delete c1 (Some it)) (\<lambda>(ret, c2).
            clean_loop k c2 force nx (if ret = 0 then n + 1 else n))))))"

definition acl_cache_clean :: "cache \<Rightarrow> bool \<Rightarrow> (int \<times> cache) cres" where
  "acl_cache_clean c force =
     (if ca_max_size c \<le> 0 then Inr (0, c)
      else cbind (succ_of c ring_head) (\<lambda>it. clean_loop (ring_fuel c) c force it 0))"

definition acl_cache_size :: "cache \<Rightarrow> int" where
  "acl_cache_size c = (if ca_max_size c \<le> 0 then 0 else ca_size c)"

text \<open>\<open>acl_cache_free\<close> up to the release of the cache itself: the entries that are left, and the calls of \<open>free_fn\<close>.\<close>

fun cache_free_loop :: "nat \<Rightarrow> cache \<Rightarrow> cache cres" where
  "cache_free_loop 0 c = cbind (succ_of c ring_head) (\<lambda>it. if it = ring_head then Inr c else Inl OutOfFuel)"
| "cache_free_loop (Suc k) c =
     cbind (succ_of c ring_head) (\<lambda>it.
       if it = ring_head then Inr c
       else
         cbind (info_read c (Some it)) (\<lambda>i.
         cbind (if ci_nrefer i > 0 then info_write c (Some it) (\<lambda>i. i\<lparr>ci_nrefer := 0\<rparr>) else Inr c) (\<lambda>c1.
         cbind (acl_cache_delete c1 (Some it)) (\<lambda>(_, c2). cache_free_loop k c2))))"

definition acl_cache_free :: "cache \<Rightarrow> cache cres" where
  "acl_cache_free c =
     (if ca_max_size c \<le> 0 then Inr c
      else
        cbind (cache_free_loop (ring_fuel c) c) (\<lambda>c1.
        cbind (acl_htable_free (ca_table c1) False) (\<lambda>(_, s).
          Inr (c1\<lparr>ca_table := (ca_table c1)\<lparr>ht_nodes := s\<rparr>\<rparr>))))"

subsection \<open>The iterators\<close>

record cache_iter =
  ct_ptr :: ptr
  ct_data :: ptr
  ct_key :: "byte list option"
  ct_i :: int
  ct_size :: int

definition cache_iter_set :: "cache_iter \<Rightarrow> cache \<Rightarrow> addr \<Rightarrow> int \<Rightarrow> cache_iter cres" where
  "cache_iter_set it c a i =
     (if a \<noteq> ring_head
      then cbind (info_read c (Some a)) (\<lambda>v. Inr (it\<lparr>ct_ptr := Some a, ct_data := ci_value v, ct_key := Some (ci_key v), ct_i := i\<rparr>))
      else Inr (it\<lparr>ct_ptr := None, ct_data := None, ct_key := None\<rparr>))"

definition cache_iter_head :: "cache_iter \<Rightarrow> cache \<Rightarrow> cache_iter cres" where
  "cache_iter_head it c = cbind (succ_of c ring_head) (\<lambda>a. cache_iter_set (it\<lparr>ct_i := 0, ct_size := ca_size c\<rparr>) c a 0)"

definition cache_iter_next :: "cache_iter \<Rightarrow> cache \<Rightarrow> cache_iter cres" where
  "cache_iter_next it c = cbind (deref (ct_ptr it)) (\<lambda>p. cbind (succ_of c p) (\<lambda>a. cache_iter_set it c a (ct_i it + 1)))"

definition cache_iter_tail :: "cache_iter \<Rightarrow> cache \<Rightarrow> cache_iter cres" where
  "cache_iter_tail it c =
     cbind (pred_of c ring_head) (\<lambda>a. cache_iter_set (it\<lparr>ct_i := ca_size c - 1, ct_size := ca_size c\<rparr>) c a (ca_size c - 1))"

definition cache_iter_prev :: "cache_iter \<Rightarrow> cache \<Rightarrow> cache_iter cres" where
  "cache_iter_prev it c = cbind (deref (ct_ptr it)) (\<lambda>p. cbind (pred_of c p) (\<lambda>a. cache_iter_set it c a (ct_i it - 1)))"

definition cache_iter_info :: "cache_iter \<Rightarrow> ptr" where
  "cache_iter_info it = (if ct_ptr it = None \<or> ct_ptr it = Some ring_head then None else ct_ptr it)"

text \<open>The loops \<open>acl_foreach\<close> and \<open>acl_foreach_reverse\<close>: the index, key and data they see.\<close>

fun cache_foreach :: "nat \<Rightarrow> cache_iter \<Rightarrow> cache \<Rightarrow> (int \<times> byte list option \<times> ptr) list cres" where
  "cache_foreach 0 it c = (if ct_ptr it = None then Inr [] else Inl OutOfFuel)"
| "cache_foreach (Suc k) it c =
     (if ct_ptr it = None then Inr []
      else cbind (cache_iter_next it c) (\<lambda>it1.
           cbind (cache_foreach k it1 c) (\<lambda>ds. Inr ((ct_i it, ct_key it, ct_data it) # ds))))"

fun cache_foreach_reverse :: "nat \<Rightarrow> cache_iter \<Rightarrow> cache \<Rightarrow> (int \<times> byte list option \<times> ptr) list cres" where
  "cache_foreach_reverse 0 it c = (if ct_ptr it = None then Inr [] else Inl OutOfFuel)"
| "cache_foreach_reverse (Suc k) it c =
     (if ct_ptr it = None then Inr []
      else cbind (cache_iter_prev it c) (\<lambda>it1.
           cbind (cache_foreach_reverse k it1 c) (\<lambda>ds. Inr ((ct_i it, ct_key it, ct_data it) # ds))))"

section \<open>Well-formed caches\<close>

text \<open>
  \<open>cwf c xs\<close>: the ring links the entries \<open>xs\<close>, pairs of address and contents; they are all entries there are, the table maps
  each key to its entry, and \<open>size\<close> counts them.
\<close>

definition key_map :: "(addr \<times> cache_info) list \<Rightarrow> byte list \<rightharpoonup> ptr" where
  "key_map xs = map_of (map (\<lambda>x. (ci_key (snd x), Some (fst x))) xs)"

definition cwf :: "cache \<Rightarrow> (addr \<times> cache_info) list \<Rightarrow> bool" where
  "cwf c xs \<longleftrightarrow>
     is_ring (ca_ring c) ring_head (map fst xs) \<and> ca_infos c = map_of xs \<and> dict_holds False (ca_table c) (key_map xs) \<and>
     distinct (keys (map snd xs)) \<and> ca_size c = int (length xs) \<and> (\<forall>x\<in>set xs. fst x < ca_brk c) \<and> 0 < ca_max_size c \<and>
     0 < ca_timeout c \<and> ring_head < ca_brk c"

lemma cwfD:
  assumes "cwf c xs"
  shows "is_ring (ca_ring c) ring_head (map fst xs)" "ca_infos c = map_of xs" "dict_holds False (ca_table c) (key_map xs)"
    "distinct (keys (map snd xs))" "ca_size c = int (length xs)" "\<And>x. x \<in> set xs \<Longrightarrow> fst x < ca_brk c" "0 < ca_max_size c"
    "distinct (map fst xs)" "\<And>x. x \<in> set xs \<Longrightarrow> fst x \<noteq> ring_head" "0 < ca_timeout c" "ring_head < ca_brk c"
proof -
  show r: "is_ring (ca_ring c) ring_head (map fst xs)" using assms by (simp add: cwf_def)
  show "ca_infos c = map_of xs" "dict_holds False (ca_table c) (key_map xs)" "distinct (keys (map snd xs))"
    "ca_size c = int (length xs)" "\<And>x. x \<in> set xs \<Longrightarrow> fst x < ca_brk c" "0 < ca_max_size c" "0 < ca_timeout c" "ring_head < ca_brk c"
    using assms by (auto simp: cwf_def)
  have "distinct (map fst xs)" "ring_head \<notin> fst ` set xs" using is_ringD(1) [OF r] by simp_all
  then show "distinct (map fst xs)" "\<And>x. x \<in> set xs \<Longrightarrow> fst x \<noteq> ring_head" by (metis imageI)+
qed

lemma map_of_mid:
  assumes "distinct (map fst (as @ x # bs))"
  shows "map_of (as @ x # bs) (fst x) = Some (snd x)" "(map_of (as @ x # bs))(fst x \<mapsto> i) = map_of (as @ (fst x, i) # bs)"
    "(map_of (as @ x # bs))(fst x := None) = map_of (as @ bs)"
proof -
  have "fst x \<notin> fst ` set as" "fst x \<notin> fst ` set bs" using assms by auto
  then have n: "map_of as (fst x) = None" "map_of bs (fst x) = None" by (simp_all add: map_of_eq_None_iff)
  show "map_of (as @ x # bs) (fst x) = Some (snd x)" using n(1) by (simp add: map_add_def)
  show "(map_of (as @ x # bs))(fst x \<mapsto> i) = map_of (as @ (fst x, i) # bs)"
    using n(1) by (auto simp: map_add_def fun_eq_iff split: option.splits)
  show "(map_of (as @ x # bs))(fst x := None) = map_of (as @ bs)"
    using n by (auto simp: map_add_def fun_eq_iff split: option.splits)
qed

lemma cwf_info: "cwf c (as @ x # bs) \<Longrightarrow> ca_infos c (fst x) = Some (snd x)"
  using cwfD(2) [of c "as @ x # bs"] map_of_mid(1) [OF cwfD(8), of c as x bs] by simp

lemma cwf_read: "cwf c (as @ x # bs) \<Longrightarrow> info_read c (Some (fst x)) = Inr (snd x)"
  by (simp add: info_read_def cwf_info)

text \<open>The first node of a part of the ring, or the head behind the last one.\<close>

definition first_node :: "(addr \<times> cache_info) list \<Rightarrow> addr" where
  "first_node xs = hd (map fst xs @ [ring_head])"

lemma first_node_simps [simp]: "first_node [] = ring_head" "first_node (x # xs) = fst x"
  by (simp_all add: first_node_def)

lemma cwf_succ: "cwf c (as @ x # bs) \<Longrightarrow> succ_of c (fst x) = Inr (first_node bs)"
  using ring_neighbours(1) [of "ca_ring c" ring_head "map fst as" "fst x" "map fst bs"] cwfD(1) [of c "as @ x # bs"]
  by (simp add: succ_of_def cwf_info first_node_def)

lemma cwf_succ_head: "cwf c xs \<Longrightarrow> succ_of c ring_head = Inr (first_node xs)"
  using ring_succ [OF cwfD(1) [of c xs]] by (simp add: succ_of_def first_node_def)

lemma cwf_first: "cwf c (as @ x # bs) \<Longrightarrow> fst x \<noteq> ring_head"
  using cwfD(9) [of c "as @ x # bs" x] by simp

lemma cwf_fuel: "cwf c xs \<Longrightarrow> ring_fuel c = length xs"
  using acl_ring_size_is_ring [OF cwfD(1) [of c xs]] by (simp add: ring_fuel_def)

lemma key_map_find: "key_map xs k = (case find (\<lambda>x. ci_key (snd x) = k) xs of None \<Rightarrow> None | Some x \<Rightarrow> Some (Some (fst x)))"
  by (induction xs) (simp_all add: key_map_def)

lemma key_map_none: "key_map xs k = None \<longleftrightarrow> k \<notin> set (keys (map snd xs))"
  by (induction xs) (auto simp: key_map_def)

lemma key_map_split:
  assumes "k \<notin> set (keys (map snd as))" "ci_key (snd x) = k"
  shows "key_map (as @ x # bs) k = Some (Some (fst x))"
proof -
  have "key_map as k = None" using assms(1) by (simp add: key_map_none)
  then show ?thesis using assms(2) by (simp add: key_map_def map_add_def)
qed

lemma key_map_remove:
  assumes "distinct (keys (map snd (as @ x # bs)))"
  shows "(key_map (as @ x # bs))(ci_key (snd x) := None) = key_map (as @ bs)"
proof -
  let ?g = "\<lambda>x. (ci_key (snd x), Some (fst x))"
  have "map fst (map ?g as @ ?g x # map ?g bs) = keys (map snd (as @ x # bs))" by (simp add: keys_def)
  then have "distinct (map fst (map ?g as @ ?g x # map ?g bs))" using assms by (simp only:)
  from map_of_mid(3) [OF this] show ?thesis by (simp add: key_map_def)
qed

text \<open>Looking a key up, as every function does that is given one.\<close>

lemma lookup_snd: "lookup k (map snd xs) = map_option snd (find (\<lambda>x. ci_key (snd x) = k) xs)"
  by (induction xs) (auto simp: lookup_def)

lemma cwf_find:
  assumes "cwf c xs"
  obtains (none) t where "acl_htable_find (ca_table c) k = Inr (None, t)" "cwf (c\<lparr>ca_table := t\<rparr>) xs" "lookup k (map snd xs) = None"
  | (found) t as x bs where "acl_htable_find (ca_table c) k = Inr (Some (fst x), t)" "cwf (c\<lparr>ca_table := t\<rparr>) xs" "xs = as @ x # bs"
      "ci_key (snd x) = k" "k \<notin> set (keys (map snd as))" "k \<notin> set (keys (map snd bs))" "lookup k (map snd xs) = Some (snd x)"
proof -
  obtain t where t: "acl_htable_find (ca_table c) k = Inr (case key_map xs k of None \<Rightarrow> None | Some v \<Rightarrow> v, t)"
    "dict_holds False t (key_map xs)"
    using htab.find_key [OF cwfD(3) [OF assms], of k] by (auto simp: norm_key_def)
  have w: "cwf (c\<lparr>ca_table := t\<rparr>) xs" using assms t(2) by (simp add: cwf_def)
  show ?thesis
  proof (cases "find (\<lambda>x. ci_key (snd x) = k) xs")
    case None
    then show ?thesis using none t(1) w by (simp add: key_map_find lookup_snd)
  next
    case (Some x)
    then have x: "x \<in> set xs" "ci_key (snd x) = k" by (auto simp: find_Some_iff)
    then obtain as bs where xs: "xs = as @ x # bs" by (meson split_list)
    have "k \<notin> set (keys (map snd as))" "k \<notin> set (keys (map snd bs))" using cwfD(4) [OF assms] x(2) by (auto simp: xs)
    moreover have "lookup k (map snd xs) = Some (snd x)" using Some by (simp add: lookup_snd)
    moreover have "acl_htable_find (ca_table c) k = Inr (Some (fst x), t)" using Some t(1) by (simp add: key_map_find)
    ultimately show ?thesis using found [of x t as bs] w xs x(2) by blast
  qed
qed

lemma cwf_change:
  assumes "cwf c (as @ x # bs)" "ci_key i = ci_key (snd x)"
  shows "cwf (c\<lparr>ca_infos := (ca_infos c)(fst x \<mapsto> i)\<rparr>) (as @ (fst x, i) # bs)"
proof -
  note d = cwfD [OF assms(1)]
  have "key_map (as @ (fst x, i) # bs) = key_map (as @ x # bs)" using assms(2) by (simp add: key_map_def)
  then show ?thesis using assms(2) d map_of_mid(2) [OF d(8), of i] unfolding cwf_def by (simp add: ball_Un)
qed

lemma cwf_write:
  assumes "cwf c (as @ x # bs)" "\<And>i. ci_key (f i) = ci_key i"
  shows "info_write c (Some (fst x)) f = Inr (c\<lparr>ca_infos := (ca_infos c)(fst x \<mapsto> f (snd x))\<rparr>)"
    "cwf (c\<lparr>ca_infos := (ca_infos c)(fst x \<mapsto> f (snd x))\<rparr>) (as @ (fst x, f (snd x)) # bs)"
  using cwf_info [OF assms(1)] cwf_change [OF assms(1)] assms(2) by (simp_all add: info_write_def)

text \<open>The fields that no operation changes.\<close>

definition conf :: "cache \<Rightarrow> int \<times> int \<times> bool" where
  "conf c = (ca_max_size c, ca_timeout c, ca_free_fn c)"

lemma cache_delete_cwf:
  assumes w: "cwf c (as @ x # bs)" and n: "ci_nrefer (snd x) \<le> 0"
  shows "\<exists>c'. acl_cache_delete c (Some (fst x)) = Inr (0, c') \<and> cwf c' (as @ bs) \<and> conf c' = conf c \<and>
    ca_freed c' = ca_freed c @ (if ca_free_fn c then [(fst x, ci_value (snd x))] else [])"
proof -
  note d = cwfD [OF w]
  let ?k = "ci_key (snd x)"
  have m: "key_map (as @ x # bs) ?k = Some (Some (fst x))" using d(4) by (intro key_map_split) auto
  have h: "htable_holds (ca_table c) (key_map (as @ x # bs))" and ko: "key_of (ca_table c) ?k = ?k"
    using d(3) by (simp_all add: dict_holds_def key_of_def)
  obtain t where t: "acl_htable_delete (ca_table c) ?k False = Inr (0, [], t)" "dict_holds False t (key_map (as @ bs))"
    using acl_htable_delete_holds [OF h, of ?k False] dict_same_conf [OF d(3)] m
    by (auto simp: ko key_map_remove [OF d(4)])
  obtain h' where h': "acl_ring_detach (ca_ring c) (Some (fst x)) = Inr h'" "is_ring h' ring_head (map fst (as @ bs))"
    using acl_ring_detach_is_ring [of "ca_ring c" ring_head "map fst as" "fst x" "map fst bs"] d(1) by auto
  let ?c = "call_free (c\<lparr>ca_table := t, ca_ring := h'\<rparr>) (fst x) (ci_value (snd x))"
  define c' where "c' = ?c\<lparr>ca_infos := (ca_infos ?c)(fst x := None), ca_size := ca_size ?c - 1\<rparr>"
  have f: "ca_infos c' = (ca_infos c)(fst x := None)" "ca_size c' = ca_size c - 1" "ca_brk c' = ca_brk c" "conf c' = conf c"
    "ca_table c' = t" "ca_ring c' = h'" "ca_freed c' = ca_freed c @ (if ca_free_fn c then [(fst x, ci_value (snd x))] else [])"
    by (simp_all add: c'_def call_free_def conf_def)
  have "acl_cache_delete c (Some (fst x)) = Inr (0, c')"
    using d(7) n cwf_read [OF w] t(1) h'(1) by (simp add: acl_cache_delete_def c'_def Let_def)
  moreover have "cwf c' (as @ bs)"
  proof -
    have "ca_infos c' = map_of (as @ bs)" using map_of_mid(3) [OF d(8)] d(2) by (simp only: f(1))
    moreover have "distinct (keys (map snd (as @ bs)))" using d(4) by simp
    ultimately show ?thesis using d(5-7,10,11) f t(2) h'(2) unfolding cwf_def conf_def by simp
  qed
  ultimately show ?thesis using f by blast
qed

lemma conf_simps [simp]: "conf (c\<lparr>ca_table := t\<rparr>) = conf c" "conf (c\<lparr>ca_infos := is\<rparr>) = conf c" "conf (c\<lparr>ca_ring := h\<rparr>) = conf c"
  by (simp_all add: conf_def)

text \<open>\<open>freed_since c c' vs\<close>: between \<open>c\<close> and \<open>c'\<close> the values \<open>vs\<close> were handed to \<open>free_fn\<close>, and nothing else of them changed but the entries.\<close>

definition freed_since :: "cache \<Rightarrow> cache \<Rightarrow> ptr list \<Rightarrow> bool" where
  "freed_since c c' vs \<longleftrightarrow>
     conf c' = conf c \<and> map snd (ca_freed c') = map snd (ca_freed c) @ (if ca_free_fn c then vs else [])"

lemma freed_since_refl [simp]: "freed_since c c []"
  by (simp add: freed_since_def)

lemma freed_since_trans: "freed_since c c1 us \<Longrightarrow> freed_since c1 c2 vs \<Longrightarrow> freed_since c c2 (us @ vs)"
  by (auto simp: freed_since_def conf_def)

lemma cache_delete_since:
  assumes "cwf c (as @ x # bs)" "ci_nrefer (snd x) \<le> 0"
  obtains c' where "acl_cache_delete c (Some (fst x)) = Inr (0, c')" "cwf c' (as @ bs)" "freed_since c c' [ci_value (snd x)]"
  using cache_delete_cwf [OF assms] by (auto simp: freed_since_def)

section \<open>The loops\<close>

lemma timeout_loop_cwf:
  assumes "cwf c (as @ bs)" "length bs \<le> k"
  shows "\<exists>c' ys. timeout_loop k c now (first_node bs) n = Inr (n + int (length (expired now (map snd bs))), c') \<and>
    cwf c' (as @ ys) \<and> map snd ys = expire now (map snd bs) \<and> freed_since c c' (expired now (map snd bs))"
  using assms
proof (induction bs arbitrary: c as k n)
  case Nil
  then show ?case by (intro exI [of _ c] exI [of _ "[]"]) (cases k; simp)
next
  case (Cons x bs)
  then obtain j where j: "k = Suc j" "length bs \<le> j" by (cases k) auto
  note w = Cons.prems(1)
  have nh: "fst x \<noteq> ring_head" by (rule cwf_first [OF w])
  show ?case
  proof (cases "ci_when (snd x) > now")
    case True
    then show ?thesis using w nh j(1) cwf_read [OF w]
      by (intro exI [of _ c] exI [of _ "x # bs"]) simp
  next
    case le: False
    show ?thesis
    proof (cases "ci_nrefer (snd x) > 0 \<or> ci_when (snd x) = 0")
      case True
      obtain c' ys where c': "timeout_loop j c now (first_node bs) n = Inr (n + int (length (expired now (map snd bs))), c')"
        "cwf c' ((as @ [x]) @ ys)" "map snd ys = expire now (map snd bs)" "freed_since c c' (expired now (map snd bs))"
        using Cons.IH [of c "as @ [x]" j n] w j(2) by auto
      then show ?thesis using le True nh j(1) cwf_read [OF w] cwf_succ [OF w]
        by (intro exI [of _ c'] exI [of _ "x # ys"]) auto
    next
      case False
      then have "ci_nrefer (snd x) \<le> 0" by simp
      then obtain c1 where c1: "acl_cache_delete c (Some (fst x)) = Inr (0, c1)" "cwf c1 (as @ bs)" "freed_since c c1 [ci_value (snd x)]"
        using cache_delete_since [OF w] by blast
      obtain c' ys where c': "timeout_loop j c1 now (first_node bs) (n + 1) = Inr (n + 1 + int (length (expired now (map snd bs))), c')"
        "cwf c' (as @ ys)" "map snd ys = expire now (map snd bs)" "freed_since c1 c' (expired now (map snd bs))"
        using Cons.IH [OF c1(2) j(2)] by blast
      then show ?thesis using le False nh j(1) cwf_read [OF w] cwf_succ [OF w] c1(1) freed_since_trans [OF c1(3) c'(4)]
        by (intro exI [of _ c'] exI [of _ ys]) auto
    qed
  qed
qed

lemma acl_cache_timeout_cwf:
  assumes "cwf c xs"
  shows "\<exists>c' ys. acl_cache_timeout c now = Inr (int (length (expired now (map snd xs))), c') \<and>
    cwf c' ys \<and> map snd ys = expire now (map snd xs) \<and> freed_since c c' (expired now (map snd xs))"
  using timeout_loop_cwf [of c "[]" xs "length xs" now 0] assms cwfD(7) [OF assms] cwf_succ_head [OF assms] cwf_fuel [OF assms]
  by (auto simp: acl_cache_timeout_def)

lemma evict_loop_cwf:
  assumes "cwf c (as @ bs)" "length bs \<le> k"
  shows "\<exists>c' ys. evict_loop k c (first_node bs) = Inr c' \<and> cwf c' (as @ ys) \<and> map snd ys = evict (map snd bs) \<and>
    freed_since c c' (evicted (map snd bs))"
  using assms
proof (induction bs arbitrary: as k)
  case Nil
  then show ?case by (intro exI [of _ c] exI [of _ "[]"]) (cases k; simp)
next
  case (Cons x bs)
  then obtain j where j: "k = Suc j" "length bs \<le> j" by (cases k) auto
  note w = Cons.prems(1)
  have nh: "fst x \<noteq> ring_head" by (rule cwf_first [OF w])
  show ?case
  proof (cases "ci_nrefer (snd x) > 0 \<or> ci_when (snd x) = 0")
    case True
    obtain c' ys where c': "evict_loop j c (first_node bs) = Inr c'" "cwf c' ((as @ [x]) @ ys)" "map snd ys = evict (map snd bs)"
      "freed_since c c' (evicted (map snd bs))"
      using Cons.IH [of "as @ [x]" j] w j(2) by auto
    then show ?thesis using True nh j(1) cwf_read [OF w] cwf_succ [OF w]
      by (intro exI [of _ c'] exI [of _ "x # ys"]) auto
  next
    case False
    then have "ci_nrefer (snd x) \<le> 0" by simp
    then obtain c1 where c1: "acl_cache_delete c (Some (fst x)) = Inr (0, c1)" "cwf c1 (as @ bs)" "freed_since c c1 [ci_value (snd x)]"
      using cache_delete_since [OF w] by blast
    then show ?thesis using False nh j(1) cwf_read [OF w] by (intro exI [of _ c1] exI [of _ bs]) auto
  qed
qed

text \<open>With \<open>force\<close> an entry in use is first marked as unused.\<close>

lemma unuse_cwf:
  assumes "cwf c (as @ x # bs)"
  obtains c1 i where "(if ci_nrefer (snd x) > 0 then info_write c (Some (fst x)) (\<lambda>i. i\<lparr>ci_nrefer := 0\<rparr>) else Inr c) = Inr c1"
    "cwf c1 (as @ (fst x, i) # bs)" "ci_nrefer i \<le> 0" "ci_value i = ci_value (snd x)" "freed_since c c1 []"
proof (cases "ci_nrefer (snd x) > 0")
  case True
  let ?i = "(snd x)\<lparr>ci_nrefer := 0\<rparr>"
  show ?thesis
    using cwf_write [OF assms, of "\<lambda>i. i\<lparr>ci_nrefer := 0\<rparr>"] True that [of "c\<lparr>ca_infos := (ca_infos c)(fst x \<mapsto> ?i)\<rparr>" ?i]
    by (simp add: freed_since_def)
next
  case False
  then show ?thesis using that [of c "snd x"] assms by simp
qed

lemma clean_loop_cwf:
  assumes "cwf c (as @ bs)" "length bs \<le> k"
  shows "\<exists>c' ys. clean_loop k c force (first_node bs) n =
      Inr (n + int (length (filter (\<lambda>i. force \<or> ci_nrefer i \<le> 0) (map snd bs))), c') \<and>
    cwf c' (as @ ys) \<and> map snd ys = filter (\<lambda>i. \<not> force \<and> ci_nrefer i > 0) (map snd bs) \<and>
    freed_since c c' (map ci_value (filter (\<lambda>i. force \<or> ci_nrefer i \<le> 0) (map snd bs)))"
  using assms
proof (induction bs arbitrary: c as k n)
  case Nil
  then show ?case by (intro exI [of _ c] exI [of _ "[]"]) (cases k; simp)
next
  case (Cons x bs)
  then obtain j where j: "k = Suc j" "length bs \<le> j" by (cases k) auto
  note w = Cons.prems(1)
  have nh: "fst x \<noteq> ring_head" by (rule cwf_first [OF w])
  show ?case
  proof (cases "ci_nrefer (snd x) > 0 \<and> \<not> force")
    case True
    obtain c' ys where c': "clean_loop j c force (first_node bs) n =
        Inr (n + int (length (filter (\<lambda>i. force \<or> ci_nrefer i \<le> 0) (map snd bs))), c')"
      "cwf c' ((as @ [x]) @ ys)" "map snd ys = filter (\<lambda>i. \<not> force \<and> ci_nrefer i > 0) (map snd bs)"
      "freed_since c c' (map ci_value (filter (\<lambda>i. force \<or> ci_nrefer i \<le> 0) (map snd bs)))"
      using Cons.IH [of c "as @ [x]" j n] w j(2) by auto
    then show ?thesis using True nh j(1) cwf_read [OF w] cwf_succ [OF w]
      by (intro exI [of _ c'] exI [of _ "x # ys"]) auto
  next
    case False
    obtain c1 i where c1: "(if ci_nrefer (snd x) > 0 then info_write c (Some (fst x)) (\<lambda>i. i\<lparr>ci_nrefer := 0\<rparr>) else Inr c) = Inr c1"
      "cwf c1 (as @ (fst x, i) # bs)" "ci_nrefer i \<le> 0" "ci_value i = ci_value (snd x)" "freed_since c c1 []"
      using unuse_cwf [OF w] by blast
    obtain c2 where c2: "acl_cache_delete c1 (Some (fst x)) = Inr (0, c2)" "cwf c2 (as @ bs)" "freed_since c1 c2 [ci_value (snd x)]"
      using cache_delete_since [OF c1(2)] c1(3,4) by auto
    obtain c' ys where c': "clean_loop j c2 force (first_node bs) (n + 1) =
        Inr (n + 1 + int (length (filter (\<lambda>i. force \<or> ci_nrefer i \<le> 0) (map snd bs))), c')"
      "cwf c' (as @ ys)" "map snd ys = filter (\<lambda>i. \<not> force \<and> ci_nrefer i > 0) (map snd bs)"
      "freed_since c2 c' (map ci_value (filter (\<lambda>i. force \<or> ci_nrefer i \<le> 0) (map snd bs)))"
      using Cons.IH [OF c2(2) j(2)] by blast
    have "clean_loop k c force (fst x) n = clean_loop j c2 force (first_node bs) (n + 1)"
      using False nh cwf_read [OF w] c1(1) cwf_succ [OF c1(2)] c2(1) by (auto simp: j(1))
    moreover have "force \<or> ci_nrefer (snd x) \<le> 0" using False by auto
    ultimately show ?thesis
      using c' freed_since_trans [OF freed_since_trans [OF c1(5) c2(3)] c'(4)]
      by (intro exI [of _ c'] exI [of _ ys]) auto
  qed
qed

lemma acl_cache_clean_cwf:
  assumes "cwf c xs"
  shows "\<exists>c' ys. acl_cache_clean c force = Inr (int (length (filter (\<lambda>i. force \<or> ci_nrefer i \<le> 0) (map snd xs))), c') \<and>
    cwf c' ys \<and> map snd ys = filter (\<lambda>i. \<not> force \<and> ci_nrefer i > 0) (map snd xs) \<and>
    freed_since c c' (map ci_value (filter (\<lambda>i. force \<or> ci_nrefer i \<le> 0) (map snd xs)))"
  using clean_loop_cwf [of c "[]" xs "length xs" force 0] assms cwfD(7) [OF assms] cwf_succ_head [OF assms] cwf_fuel [OF assms]
  by (auto simp: acl_cache_clean_def)

lemma free_loop_cwf:
  assumes "cwf c xs" "length xs \<le> k"
  shows "\<exists>c'. cache_free_loop k c = Inr c' \<and> cwf c' [] \<and> freed_since c c' (map ci_value (map snd xs))"
  using assms
proof (induction xs arbitrary: c k)
  case Nil
  then show ?case using cwf_succ_head [OF Nil.prems(1)] by (intro exI [of _ c]) (cases k; simp)
next
  case (Cons x xs)
  then obtain j where j: "k = Suc j" "length xs \<le> j" by (cases k) auto
  have w: "cwf c ([] @ x # xs)" using Cons.prems(1) by simp
  obtain c1 i where c1: "(if ci_nrefer (snd x) > 0 then info_write c (Some (fst x)) (\<lambda>i. i\<lparr>ci_nrefer := 0\<rparr>) else Inr c) = Inr c1"
    "cwf c1 ([] @ (fst x, i) # xs)" "ci_nrefer i \<le> 0" "ci_value i = ci_value (snd x)" "freed_since c c1 []"
    using unuse_cwf [OF w] by blast
  obtain c2 where c2: "acl_cache_delete c1 (Some (fst x)) = Inr (0, c2)" "cwf c2 xs" "freed_since c1 c2 [ci_value (snd x)]"
    using cache_delete_since [OF c1(2)] c1(3,4) by auto
  obtain c' where c': "cache_free_loop j c2 = Inr c'" "cwf c' []" "freed_since c2 c' (map ci_value (map snd xs))"
    using Cons.IH [OF c2(2) j(2)] by blast
  have "cache_free_loop k c = Inr c'"
    using cwf_succ_head [OF Cons.prems(1)] cwf_first [OF w] cwf_read [OF w] c1(1) c2(1) c'(1) by (simp add: j(1))
  with c'(2) freed_since_trans [OF freed_since_trans [OF c1(5) c2(3)] c'(3)] show ?case by auto
qed

section \<open>Entering and changing an entry\<close>

lemma cache_add_cwf:
  assumes w: "cwf c xs" and k: "k \<notin> set (keys (map snd xs))"
  shows "\<exists>c' a. cache_add c now k v = Inr (Some a, c') \<and>
    cwf c' (xs @ [(a, \<lparr>ci_key = k, ci_value = v, ci_nrefer = 0, ci_when = now + ca_timeout c\<rparr>)]) \<and> freed_since c c' []"
proof -
  note d = cwfD [OF w]
  let ?a = "ca_brk c" and ?i = "\<lparr>ci_key = k, ci_value = v, ci_nrefer = 0, ci_when = now + ca_timeout c\<rparr>"
  have nx: "x \<in> set xs \<Longrightarrow> fst x \<noteq> ?a" for x using d(6) [of x] by simp
  then have na: "?a \<notin> fst ` set xs" by (metis imageE)
  have m: "key_map xs k = None" using k by (simp add: key_map_none)
  have nl: "norm_key False k = k" by (simp add: norm_key_def)
  obtain t where en: "htable_enter_op (ca_table c) k (Some ?a) = Inr (False, Some ?a, t)" "dict_holds False t ((key_map xs)(k \<mapsto> Some ?a))"
    using htab.enter_new [OF d(3), of k "Some ?a"] m by (auto simp: nl)
  obtain ht where ht: "acl_htable_enter (ca_table c) k (Some ?a) = Inr (Some ht, t)"
    using en(1) by (auto simp: htable_enter_op_def cbind_Inr_iff cread_def deref_def split: option.splits)
  obtain h where h: "acl_ring_prepend (ca_ring c) (Some ring_head) (Some ?a) = Inr h" "is_ring h ring_head (map fst xs @ [?a])"
    using acl_ring_prepend_is_ring [OF d(1), of ?a] na d(11) by auto
  define c' where "c' = c\<lparr>ca_infos := (ca_infos c)(?a \<mapsto> ?i), ca_brk := Suc ?a, ca_table := t, ca_size := ca_size c + 1, ca_ring := h\<rparr>"
  have km: "key_map (xs @ [(?a, ?i)]) = (key_map xs)(k \<mapsto> Some ?a)"
    using m by (auto simp: key_map_def map_add_def fun_eq_iff split: option.splits)
  have im: "map_of (xs @ [(?a, ?i)]) = (map_of xs)(?a \<mapsto> ?i)"
  proof -
    have "map_of xs ?a = None" using na by (simp add: map_of_eq_None_iff)
    then show ?thesis by (auto simp: map_add_def fun_eq_iff split: option.splits)
  qed
  have "cwf c' (xs @ [(?a, ?i)])"
    using d h(2) en(2) k km im unfolding cwf_def c'_def by (auto simp: less_Suc_eq)
  moreover have "freed_since c c' []" by (simp add: freed_since_def c'_def conf_def)
  ultimately show ?thesis
    using ht h(1) d(10) by (intro exI [of _ c'] exI [of _ ?a]) (simp add: cache_add_def info_alloc_def info_write_def c'_def Let_def)
qed

lemma cwf_size: "cwf c xs \<Longrightarrow> ca_size c \<ge> ca_max_size c \<longleftrightarrow> nat (ca_max_size c) \<le> length xs"
  using cwfD(5,7) [of c xs] by auto

lemma room_cwf:
  assumes w: "cwf c xs" and r: "room (nat (ca_max_size c)) now (map snd xs) = (fs, es)"
  shows "\<exists>c1 c2 ys. (if ca_size c \<ge> ca_max_size c then cbind (acl_cache_timeout c now) (\<lambda>(_, c1). Inr c1) else Inr c) = Inr c1 \<and>
    (if ca_size c1 \<ge> ca_max_size c1 then cbind (succ_of c1 ring_head) (\<lambda>it. evict_loop (ring_fuel c1) c1 it) else Inr c1) = Inr c2 \<and>
    cwf c2 ys \<and> map snd ys = es \<and> freed_since c c2 fs"
proof -
  define f1 where "f1 = (if length xs \<ge> nat (ca_max_size c) then expired now (map snd xs) else [])"
  define e1 where "e1 = (if length xs \<ge> nat (ca_max_size c) then expire now (map snd xs) else map snd xs)"
  obtain c1 zs where c1: "(if ca_size c \<ge> ca_max_size c then cbind (acl_cache_timeout c now) (\<lambda>(_, c1). Inr c1) else Inr c) = Inr c1"
    "cwf c1 zs" "map snd zs = e1" "freed_since c c1 f1"
    using acl_cache_timeout_cwf [OF w, of now] w cwf_size [OF w] unfolding f1_def e1_def by force
  have mx: "ca_max_size c1 = ca_max_size c" "length zs = length e1"
    using c1(3,4) by (auto simp: freed_since_def conf_def)
  define f2 where "f2 = (if length zs \<ge> nat (ca_max_size c) then evicted e1 else [])"
  have r2: "fs = f1 @ f2" "es = (if length zs \<ge> nat (ca_max_size c) then evict e1 else e1)"
    using r by (auto simp: room_def f1_def e1_def f2_def mx(2) Let_def split: if_splits)
  obtain c2 ys where "(if ca_size c1 \<ge> ca_max_size c1 then cbind (succ_of c1 ring_head) (\<lambda>it. evict_loop (ring_fuel c1) c1 it) else Inr c1) = Inr c2"
    "cwf c2 ys" "map snd ys = es" "freed_since c1 c2 f2"
    using evict_loop_cwf [of c1 "[]" zs "length zs"] c1(2,3) cwf_size [OF c1(2)] cwf_succ_head [OF c1(2)] cwf_fuel [OF c1(2)]
    unfolding f2_def r2(2) mx(1) by force
  with c1(1) freed_since_trans [OF c1(4), of c2 f2] r2(1) show ?thesis by blast
qed

section \<open>The cache as a list of entries\<close>

definition cache_holds :: "cache \<Rightarrow> cache_info list \<Rightarrow> ptr list \<Rightarrow> bool" where
  "cache_holds c es fs \<longleftrightarrow> (\<exists>xs. cwf c xs \<and> map snd xs = es) \<and> ca_free_fn c \<and> map snd (ca_freed c) = fs"

definition cache_max :: "cache \<Rightarrow> nat" where
  "cache_max c = nat (ca_max_size c)"

lemma does_cacheI:
  assumes "cache_holds c es fs" "x = Inr (fst res, c')" "cwf c' ys" "map snd ys = snd (snd res)" "freed_since c c' (fst (snd res))"
  shows "cache_does cache_holds cache_max ca_timeout c fs res x"
  unfolding cache_does_def
  by (intro exI [of _ c']) (use assms in \<open>auto simp: cache_holds_def freed_since_def conf_def cache_max_def\<close>)

lemma table_since [simp]: "freed_since c (c\<lparr>ca_table := t\<rparr>) []" "freed_since (c\<lparr>ca_table := t\<rparr>) c' fs = freed_since c c' fs"
  by (simp_all add: freed_since_def)

lemma infos_since [simp]: "freed_since c (c\<lparr>ca_infos := h\<rparr>) []"
  by (simp add: freed_since_def)

lemma enter_does:
  assumes h: "cache_holds c es fs"
  shows "cache_does cache_holds cache_max ca_timeout c fs (spec_enter (cache_max c) (ca_timeout c) now k v es)
    (cbind (acl_cache_enter c now k v) (\<lambda>(p, c'). Inr (Stored (p \<noteq> None), c')))"
proof -
  obtain xs where w: "cwf c xs" and es: "es = map snd xs" using h by (auto simp: cache_holds_def)
  note d = cwfD [OF w]
  from w show ?thesis
  proof (cases rule: cwf_find [where k = k])
    case (found t as x bs)
    let ?c = "c\<lparr>ca_table := t\<rparr>"
    have w': "cwf ?c (as @ x # bs)" using found(2,3) by simp
    have l: "lookup k es = Some (snd x)" using found(7) es by simp
    show ?thesis
    proof (cases "ci_nrefer (snd x) > 0")
      case True
      have e: "acl_cache_enter c now k v = Inr (None, ?c)"
        using d(7) found(1) cwf_read [OF w'] True by (simp add: acl_cache_enter_def Let_def)
      show ?thesis
        by (rule does_cacheI [OF h _ found(2)]) (use e l True es in \<open>simp_all add: spec_enter_def\<close>)
    next
      case False
      let ?c1 = "call_free ?c (fst x) (ci_value (snd x))"
      have w1: "cwf ?c1 (as @ x # bs)" using w' by (simp add: cwf_def call_free_def)
      note wr = cwf_write [OF w1, of "\<lambda>i. i\<lparr>ci_value := v\<rparr>"]
      let ?c2 = "?c1\<lparr>ca_infos := (ca_infos ?c1)(fst x \<mapsto> (snd x)\<lparr>ci_value := v\<rparr>)\<rparr>"
      have e: "acl_cache_enter c now k v = Inr (Some (fst x), ?c2)"
        using d(7) found(1) cwf_read [OF w'] False wr(1) by (simp add: acl_cache_enter_def Let_def)
      have ch: "change_key k (\<lambda>i. i\<lparr>ci_value := v\<rparr>) es = map snd (as @ (fst x, (snd x)\<lparr>ci_value := v\<rparr>) # bs)"
        using change_key_split [of k "map snd as" "map snd bs" "snd x"] found(3-6) es by simp
      have "freed_since c ?c2 [ci_value (snd x)]" by (simp add: freed_since_def call_free_def conf_def)
      then show ?thesis
        by (intro does_cacheI [OF h _ wr(2)]) (use e l False ch in \<open>simp_all add: spec_enter_def\<close>)
    qed
  next
    case (none t)
    let ?c = "c\<lparr>ca_table := t\<rparr>"
    obtain gs e2 where g: "room (cache_max c) now es = (gs, e2)" by fastforce
    have g': "room (nat (ca_max_size ?c)) now (map snd xs) = (gs, e2)" using g es by (simp add: cache_max_def)
    obtain c1 c2 ys where c2: "(if ca_size ?c \<ge> ca_max_size ?c then cbind (acl_cache_timeout ?c now) (\<lambda>(_, c1). Inr c1) else Inr ?c) = Inr c1"
      "(if ca_size c1 \<ge> ca_max_size c1 then cbind (succ_of c1 ring_head) (\<lambda>it. evict_loop (ring_fuel c1) c1 it) else Inr c1) = Inr c2"
      "cwf c2 ys" "map snd ys = e2" "freed_since ?c c2 gs"
      using room_cwf [OF none(2) g'] by blast
    have l: "lookup k es = None" using none(3) es by simp
    have mx: "ca_max_size c2 = ca_max_size c" "ca_timeout c2 = ca_timeout c" "length ys = length e2"
      using c2(4,5) by (auto simp: freed_since_def conf_def)
    have full: "ca_size c2 \<ge> ca_max_size c2 \<longleftrightarrow> cache_max c \<le> length e2" using cwf_size [OF c2(3)] mx by (simp add: cache_max_def)
    have step: "acl_cache_enter c now k v = (if cache_max c \<le> length e2 then Inr (None, c2) else cache_add c2 now k v)"
      using d(7) none(1) c2(1,2) full by (simp add: acl_cache_enter_def Let_def)
    have since: "freed_since c c2 gs" using c2(5) by simp
    show ?thesis
    proof (cases "cache_max c \<le> length e2")
      case True
      show ?thesis
        by (rule does_cacheI [OF h _ c2(3)]) (use step True l g c2(4) since in \<open>simp_all add: spec_enter_room\<close>)
    next
      case False
      have sub: "set (keys e2) \<subseteq> set (keys es)"
        using g expire_keys(1) evict_keys(1) by (fastforce simp: room_def Let_def split: if_splits)
      then have "k \<notin> set (keys (map snd ys))" using l c2(4) by (auto simp: lookup_None)
      then obtain c3 a where c3: "cache_add c2 now k v = Inr (Some a, c3)"
        "cwf c3 (ys @ [(a, \<lparr>ci_key = k, ci_value = v, ci_nrefer = 0, ci_when = now + ca_timeout c2\<rparr>)])" "freed_since c2 c3 []"
        using cache_add_cwf [OF c2(3)] by blast
      show ?thesis
        by (rule does_cacheI [OF h _ c3(2)])
          (use step False l g c2(4) c3(1) mx(2) freed_since_trans [OF since c3(3)] in \<open>simp_all add: spec_enter_room\<close>)
    qed
  qed
qed

lemma find_does:
  assumes h: "cache_holds c es fs"
  shows "cache_does cache_holds cache_max ca_timeout c fs (spec_find k es) (cbind (acl_cache_find c k) (\<lambda>(p, c'). Inr (Got p, c')))"
proof -
  obtain xs where w: "cwf c xs" and es: "es = map snd xs" using h by (auto simp: cache_holds_def)
  note d = cwfD [OF w]
  from w show ?thesis
  proof (cases rule: cwf_find [where k = k])
    case (found t as x bs)
    have "acl_cache_find c k = Inr (ci_value (snd x), c\<lparr>ca_table := t\<rparr>)"
      using d(7) found(1,3) cwf_read [of "c\<lparr>ca_table := t\<rparr>" as x bs] found(2) by (simp add: acl_cache_find_def Let_def)
    then show ?thesis by (intro does_cacheI [OF h _ found(2)]) (use found(7) es in \<open>simp_all add: spec_find_def\<close>)
  next
    case (none t)
    have "acl_cache_find c k = Inr (None, c\<lparr>ca_table := t\<rparr>)" using d(7) none(1) by (simp add: acl_cache_find_def Let_def)
    then show ?thesis by (intro does_cacheI [OF h _ none(2)]) (use none(3) es in \<open>simp_all add: spec_find_def\<close>)
  qed
qed

lemma delete_does:
  assumes h: "cache_holds c es fs"
  shows "cache_does cache_holds cache_max ca_timeout c fs (spec_delete k es) (cbind (acl_cache_delete2 c k) (\<lambda>(n, c'). Inr (Code n, c')))"
proof -
  obtain xs where w: "cwf c xs" and es: "es = map snd xs" using h by (auto simp: cache_holds_def)
  note d = cwfD [OF w]
  from w show ?thesis
  proof (cases rule: cwf_find [where k = k])
    case (found t as x bs)
    let ?c = "c\<lparr>ca_table := t\<rparr>"
    have w': "cwf ?c (as @ x # bs)" using found(2,3) by simp
    have l: "lookup k es = Some (snd x)" using found(7) es by simp
    have s: "acl_cache_delete2 c k = (if ci_nrefer (snd x) > 0 then Inr (-1, ?c) else acl_cache_delete ?c (Some (fst x)))"
      using d(7) found(1) cwf_read [OF w'] by (simp add: acl_cache_delete2_def Let_def)
    show ?thesis
    proof (cases "ci_nrefer (snd x) > 0")
      case True
      then show ?thesis by (intro does_cacheI [OF h _ found(2)]) (use s l es in \<open>simp_all add: spec_delete_def\<close>)
    next
      case False
      then have "ci_nrefer (snd x) \<le> 0" by simp
      then obtain c' where c': "acl_cache_delete ?c (Some (fst x)) = Inr (0, c')" "cwf c' (as @ bs)" "freed_since ?c c' [ci_value (snd x)]"
        using cache_delete_since [OF w'] by blast
      have "drop_key k es = map snd (as @ bs)" using drop_key_split [of k "map snd as" "map snd bs" "snd x"] found(3-6) es by simp
      then show ?thesis by (intro does_cacheI [OF h _ c'(2)]) (use s l False c' in \<open>simp_all add: spec_delete_def\<close>)
    qed
  next
    case (none t)
    have "acl_cache_delete2 c k = Inr (-1, c\<lparr>ca_table := t\<rparr>)" using d(7) none(1) by (simp add: acl_cache_delete2_def Let_def)
    then show ?thesis by (intro does_cacheI [OF h _ none(2)]) (use none(3) es in \<open>simp_all add: spec_delete_def\<close>)
  qed
qed

lemma update2_cwf:
  fixes now timeout :: int and x :: "addr \<times> cache_info"
  assumes w: "cwf c (as @ x # bs)"
  defines "i \<equiv> (snd x)\<lparr>ci_when := if timeout > 0 then now + timeout else 0\<rparr>"
  shows "\<exists>c'. acl_cache_update2 c now (Some (fst x)) timeout = Inr c' \<and> cwf c' (as @ bs @ [(fst x, i)]) \<and> freed_since c c' []"
proof -
  note d = cwfD [OF w]
  have i: "ci_key i = ci_key (snd x)" by (simp add: i_def)
  obtain h where h: "acl_ring_detach (ca_ring c) (Some (fst x)) = Inr h" "is_ring h ring_head (map fst (as @ bs))"
    using acl_ring_detach_is_ring [of "ca_ring c" ring_head "map fst as" "fst x" "map fst bs"] d(1) by auto
  have "fst x \<notin> set (ring_head # map fst (as @ bs))" using d(8) cwf_first [OF w] by auto
  then obtain h1 where h1: "acl_ring_prepend h (Some ring_head) (Some (fst x)) = Inr h1" "is_ring h1 ring_head (map fst (as @ bs) @ [fst x])"
    using acl_ring_prepend_is_ring [OF h(2), of "fst x"] by blast
  define c' where "c' = c\<lparr>ca_ring := h1, ca_infos := (ca_infos c)(fst x \<mapsto> i)\<rparr>"
  have "acl_cache_update2 c now (Some (fst x)) timeout = Inr c'"
    using d(7) cwf_read [OF w] h(1) h1(1) cwf_info [OF w] by (simp add: acl_cache_update2_def info_write_def c'_def i_def)
  moreover have "cwf c' (as @ bs @ [(fst x, i)])"
  proof -
    have "map_of (as @ bs @ [(fst x, i)]) = (map_of (as @ x # bs))(fst x \<mapsto> i)"
    proof -
      have "fst x \<notin> fst ` set as" "fst x \<notin> fst ` set bs" using d(8) by auto
      then have "map_of as (fst x) = None" "map_of bs (fst x) = None" by (simp_all add: map_of_eq_None_iff)
      then show ?thesis by (auto simp: map_add_def fun_eq_iff split: option.splits)
    qed
    moreover have "key_map (as @ bs @ [(fst x, i)]) = key_map (as @ x # bs)"
    proof -
      have "key_map as (ci_key i) = None" "key_map bs (ci_key i) = None" using d(4) i by (auto simp: key_map_none)
      then show ?thesis using i by (auto simp: key_map_def map_add_def fun_eq_iff split: option.splits)
    qed
    ultimately show ?thesis using d h1(2) i unfolding cwf_def by (auto simp: c'_def)
  qed
  moreover have "freed_since c c' []" by (simp add: freed_since_def c'_def conf_def)
  ultimately show ?thesis by blast
qed

lemma update_does:
  assumes h: "cache_holds c es fs"
  shows "cache_does cache_holds cache_max ca_timeout c fs (spec_update now k timeout es)
    (cbind (acl_cache_update c now k timeout) (\<lambda>c'. Inr (Unit, c')))"
proof -
  obtain xs where w: "cwf c xs" and es: "es = map snd xs" using h by (auto simp: cache_holds_def)
  note d = cwfD [OF w]
  from w show ?thesis
  proof (cases rule: cwf_find [where k = k])
    case (found t as x bs)
    let ?c = "c\<lparr>ca_table := t\<rparr>" and ?i = "(snd x)\<lparr>ci_when := if timeout > 0 then now + timeout else 0\<rparr>"
    have w': "cwf ?c (as @ x # bs)" using found(2,3) by simp
    obtain c' where c': "acl_cache_update2 ?c now (Some (fst x)) timeout = Inr c'" "cwf c' (as @ bs @ [(fst x, ?i)])" "freed_since ?c c' []"
      using update2_cwf [OF w', of now timeout] by blast
    have e: "acl_cache_update c now k timeout = Inr c'" using d(7) found(1) c'(1) by (simp add: acl_cache_update_def Let_def)
    have "drop_key k es = map snd (as @ bs)" using drop_key_split [of k "map snd as" "map snd bs" "snd x"] found(3-6) es by simp
    then show ?thesis
      by (intro does_cacheI [OF h _ c'(2)]) (use found(7) es e c'(3) in \<open>simp_all add: spec_update_def\<close>)
  next
    case (none t)
    have "acl_cache_update c now k timeout = Inr (c\<lparr>ca_table := t\<rparr>)" using d(7) none(1) by (simp add: acl_cache_update_def Let_def)
    then show ?thesis by (intro does_cacheI [OF h _ none(2)]) (use none(3) es in \<open>simp_all add: spec_update_def\<close>)
  qed
qed

lemma refer_does:
  assumes h: "cache_holds c es fs"
  shows "cache_does cache_holds cache_max ca_timeout c fs (spec_refer 1 k es) (cbind (acl_cache_refer2 c k) (\<lambda>c'. Inr (Unit, c')))"
    "cache_does cache_holds cache_max ca_timeout c fs (spec_refer (-1) k es) (cbind (acl_cache_unrefer2 c k) (\<lambda>c'. Inr (Unit, c')))"
proof -
  obtain xs where w: "cwf c xs" and es: "es = map snd xs" using h by (auto simp: cache_holds_def)
  note d = cwfD [OF w]
  have *: "cache_does cache_holds cache_max ca_timeout c fs (spec_refer n k es) (cbind op (\<lambda>c'. Inr (Unit, c')))"
    if op: "op = cbind (acl_htable_find (ca_table c) k) (\<lambda>(p, t).
        if p = None then Inr (c\<lparr>ca_table := t\<rparr>) else info_write (c\<lparr>ca_table := t\<rparr>) p (\<lambda>i. i\<lparr>ci_nrefer := ci_nrefer i + n\<rparr>))" for op n
    using w
  proof (cases rule: cwf_find [where k = k])
    case (found t as x bs)
    let ?f = "\<lambda>i. i\<lparr>ci_nrefer := ci_nrefer i + n\<rparr>"
    have "cwf (c\<lparr>ca_table := t\<rparr>) (as @ x # bs)" using found(2,3) by simp
    note wr = cwf_write [OF this, of ?f]
    have "change_key k ?f es = map snd (as @ (fst x, ?f (snd x)) # bs)"
      using change_key_split [of k "map snd as" "map snd bs" "snd x"] found(3-6) es by simp
    then show ?thesis by (intro does_cacheI [OF h _ wr(2)]) (use op wr(1) found(1) in \<open>simp_all add: spec_refer_def freed_since_def conf_def\<close>)
  next
    case (none t)
    then have "change_key k (\<lambda>i. i\<lparr>ci_nrefer := ci_nrefer i + n\<rparr>) es = es" using es by (simp add: lookup_None change_key_none)
    then show ?thesis by (intro does_cacheI [OF h _ none(2)]) (use op none(1) es in \<open>simp_all add: spec_refer_def\<close>)
  qed
  show "cache_does cache_holds cache_max ca_timeout c fs (spec_refer 1 k es) (cbind (acl_cache_refer2 c k) (\<lambda>c'. Inr (Unit, c')))"
    by (rule *) (use d(7) in \<open>simp add: acl_cache_refer2_def Let_def\<close>)
  have dec: "(\<lambda>i. i\<lparr>ci_nrefer := ci_nrefer i + - 1\<rparr>) = (\<lambda>i :: cache_info. i\<lparr>ci_nrefer := ci_nrefer i - 1\<rparr>)" by simp
  show "cache_does cache_holds cache_max ca_timeout c fs (spec_refer (-1) k es) (cbind (acl_cache_unrefer2 c k) (\<lambda>c'. Inr (Unit, c')))"
    by (rule * [of _ "-1", unfolded dec]) (use d(7) in \<open>simp add: acl_cache_unrefer2_def Let_def\<close>)
qed

interpretation acache: timed_cache cache_holds cache_max ca_timeout acl_cache_enter acl_cache_find acl_cache_delete2
  acl_cache_timeout acl_cache_update acl_cache_refer2 acl_cache_unrefer2 acl_cache_clean
proof
  fix c es fs now k v timeout force
  assume h: "cache_holds c es fs"
  then obtain xs where w: "cwf c xs" and es: "es = map snd xs" by (auto simp: cache_holds_def)
  show "cache_does cache_holds cache_max ca_timeout c fs (spec_timeout now es) (cbind (acl_cache_timeout c now) (\<lambda>(n, c'). Inr (Code n, c')))"
  proof -
    obtain c' ys where c': "acl_cache_timeout c now = Inr (int (length (expired now es)), c')" "cwf c' ys" "map snd ys = expire now es"
      "freed_since c c' (expired now es)"
      using acl_cache_timeout_cwf [OF w, of now] es by auto
    show ?thesis by (rule does_cacheI [OF h _ c'(2)]) (use c' in \<open>simp_all add: spec_timeout_def\<close>)
  qed
  show "cache_does cache_holds cache_max ca_timeout c fs (spec_clean force es) (cbind (acl_cache_clean c force) (\<lambda>(n, c'). Inr (Code n, c')))"
  proof -
    obtain c' ys where c': "acl_cache_clean c force = Inr (int (length (filter (\<lambda>i. force \<or> ci_nrefer i \<le> 0) es)), c')" "cwf c' ys"
      "map snd ys = filter (\<lambda>i. \<not> force \<and> ci_nrefer i > 0) es" "freed_since c c' (map ci_value (filter (\<lambda>i. force \<or> ci_nrefer i \<le> 0) es))"
      using acl_cache_clean_cwf [OF w, of force] unfolding es by blast
    show ?thesis by (rule does_cacheI [OF h _ c'(2)]) (use c' in \<open>simp_all add: spec_clean_def Let_def\<close>)
  qed
qed (rule enter_does find_does delete_does update_does refer_does; assumption)+

section \<open>Walks and release\<close>

lemma walk_loop_cwf:
  "cwf c (as @ bs) \<Longrightarrow> length bs \<le> k \<Longrightarrow> cache_walk_loop k c (first_node bs) = Inr (map fst bs)"
proof (induction bs arbitrary: as k)
  case Nil
  then show ?case by (cases k) simp_all
next
  case (Cons x bs)
  then obtain j where j: "k = Suc j" "length bs \<le> j" by (cases k) auto
  have "cwf c ((as @ [x]) @ bs)" using Cons.prems(1) by simp
  from Cons.IH [OF this j(2)] show ?case using j(1) cwf_succ [OF Cons.prems(1)] cwf_first [OF Cons.prems(1)] by simp
qed

lemma walk_cwf:
  assumes "cwf c xs"
  shows "acl_cache_walk c = Inr (map fst xs)" "map (ca_infos c) (map fst xs) = map (Some \<circ> snd) xs"
proof -
  show "acl_cache_walk c = Inr (map fst xs)"
    using walk_loop_cwf [of c "[]" xs "length xs"] assms cwfD(7) [OF assms] cwf_succ_head [OF assms] cwf_fuel [OF assms]
    by (simp add: acl_cache_walk_def)
  have "ca_infos c (fst x) = Some (snd x)" if "x \<in> set xs" for x
    using cwfD(2,8) [OF assms] that by simp
  then show "map (ca_infos c) (map fst xs) = map (Some \<circ> snd) xs" by simp
qed

lemma cache_create_holds:
  assumes "acl_cache_create h m ttl fn = Some c"
  shows "cwf c []" "ca_free_fn c = fn" "ca_freed c = []" "cache_max c = nat m" "ca_timeout c = ttl"
proof -
  have c: "0 < m" "0 < ttl" "c = \<lparr>ca_table = acl_htable_create 100 False False False, ca_ring = acl_ring_init h (Some ring_head),
         ca_max_size = m, ca_size = 0, ca_timeout = ttl, ca_free_fn = fn, ca_infos = Map.empty, ca_brk = Suc ring_head, ca_freed = []\<rparr>"
    using assms by (auto simp: acl_cache_create_def split: if_splits)
  have "acl_htable_ctl_hash (acl_htable_create 100 False False False) None = acl_htable_create 100 False False False"
    by (simp add: acl_htable_ctl_hash_def acl_htable_create_def acl_htable_create3_def htable_size_def Let_def)
  then have "dict_holds False (acl_htable_create 100 False False False) Map.empty"
    using create_holds [of 100 False False False None]
    by (simp add: dict_holds_def) (simp add: acl_htable_create_def acl_htable_create3_def htable_size_def Let_def)
  then show "cwf c []" using c by (simp add: cwf_def acl_ring_init_is_ring key_map_def)
  show "ca_free_fn c = fn" "ca_freed c = []" "cache_max c = nat m" "ca_timeout c = ttl"
    using c by (simp_all add: cache_max_def)
qed

lemma new_cache_holds: "acl_cache_create h m ttl True = Some c \<Longrightarrow> cache_holds c [] []"
  using cache_create_holds [of h m ttl True c] by (auto simp: cache_holds_def)

lemma holds_walk:
  assumes "cache_holds c es fs"
  shows "\<exists>as. acl_cache_walk c = Inr as \<and> map (ca_infos c) as = map Some es \<and> acl_cache_size c = int (length es) \<and> map snd (ca_freed c) = fs"
proof -
  obtain xs where w: "cwf c xs" "es = map snd xs" using assms by (auto simp: cache_holds_def)
  have "acl_cache_size c = int (length es)" using cwfD(5,7) [OF w(1)] w(2) by (simp add: acl_cache_size_def)
  moreover have "map (Some \<circ> snd) xs = map Some es" using w(2) by simp
  moreover have "map snd (ca_freed c) = fs" using assms by (simp add: cache_holds_def)
  ultimately show ?thesis using walk_cwf [OF w(1)] by (intro exI [of _ "map fst xs"]) simp
qed

text \<open>The index, key and value that the iterators show of each entry.\<close>

fun shown :: "int \<Rightarrow> (addr \<times> cache_info) list \<Rightarrow> (int \<times> byte list option \<times> ptr) list" where
  "shown n [] = []"
| "shown n (x # xs) = (n, Some (ci_key (snd x)), ci_value (snd x)) # shown (n + 1) xs"

lemma shown_append: "shown n (xs @ ys) = shown n xs @ shown (n + int (length xs)) ys"
  by (induction xs arbitrary: n) (auto simp: ac_simps)

text \<open>An iterator at an entry.\<close>

definition iter_at :: "cache_iter \<Rightarrow> addr \<times> cache_info \<Rightarrow> int \<Rightarrow> bool" where
  "iter_at it x n \<longleftrightarrow>
     ct_ptr it = Some (fst x) \<and> ct_i it = n \<and> ct_key it = Some (ci_key (snd x)) \<and> ct_data it = ci_value (snd x)"

lemma iter_set_cwf:
  "cwf c (as @ x # bs) \<Longrightarrow> \<exists>it'. cache_iter_set it c (fst x) n = Inr it' \<and> iter_at it' x n"
  "\<exists>it'. cache_iter_set it c ring_head n = Inr it' \<and> ct_ptr it' = None"
  using cwf_first [of c as x bs] cwf_read [of c as x bs] by (auto simp: cache_iter_set_def iter_at_def)

lemma foreach_end: "ct_ptr it = None \<Longrightarrow> cache_foreach k it c = Inr [] \<and> cache_foreach_reverse k it c = Inr []"
  by (cases k) simp_all

lemma foreach_cwf:
  assumes "cwf c (as @ x # bs)" "length bs < k" "iter_at it x n"
  shows "cache_foreach k it c = Inr (shown n (x # bs))"
  using assms
proof (induction bs arbitrary: as x it k n)
  case Nil
  then obtain j where k: "k = Suc j" by (cases k) auto
  obtain it' where "cache_iter_next it c = Inr it'" "ct_ptr it' = None"
    using Nil.prems(3) cwf_succ [OF Nil.prems(1)] iter_set_cwf(2) [of it c "n + 1"] by (auto simp: cache_iter_next_def iter_at_def)
  with foreach_end [of it' j c] Nil.prems(3) k show ?case by (simp add: iter_at_def)
next
  case (Cons y bs)
  then obtain j where k: "k = Suc j" "length bs < j" by (cases k) auto
  have w: "cwf c ((as @ [x]) @ y # bs)" using Cons.prems(1) by simp
  obtain it' where i: "cache_iter_next it c = Inr it'" "iter_at it' y (n + 1)"
    using Cons.prems(3) cwf_succ [OF Cons.prems(1)] iter_set_cwf(1) [OF w, of it "n + 1"] by (auto simp: cache_iter_next_def iter_at_def)
  from Cons.IH [OF w k(2) i(2)] i(1) k(1) Cons.prems(3) show ?case by (simp add: iter_at_def)
qed

lemma cwf_pred: "cwf c (as @ x # bs) \<Longrightarrow> pred_of c (fst x) = Inr (last (ring_head # map fst as))"
  using ring_neighbours(2) [of "ca_ring c" ring_head "map fst as" "fst x" "map fst bs"] cwfD(1) [of c "as @ x # bs"]
  by (simp add: pred_of_def cwf_info)

lemma foreach_reverse_cwf:
  assumes "cwf c (as @ x # bs)" "length as < k" "iter_at it x (int (length as))"
  shows "cache_foreach_reverse k it c = Inr (rev (shown 0 (as @ [x])))"
  using assms
proof (induction as arbitrary: x bs it k rule: rev_induct)
  case Nil
  then obtain j where k: "k = Suc j" by (cases k) auto
  obtain it' where "cache_iter_prev it c = Inr it'" "ct_ptr it' = None"
    using Nil.prems(3) cwf_pred [OF Nil.prems(1)] iter_set_cwf(2) [of it c "-1"] by (auto simp: cache_iter_prev_def iter_at_def)
  with foreach_end [of it' j c] Nil.prems(3) k show ?case by (simp add: iter_at_def)
next
  case (snoc y as)
  then obtain j where k: "k = Suc j" "length as < j" by (cases k) auto
  have w: "cwf c (as @ y # x # bs)" using snoc.prems(1) by simp
  obtain it' where i: "cache_iter_prev it c = Inr it'" "iter_at it' y (int (length as))"
    using snoc.prems(3) cwf_pred [OF snoc.prems(1)] iter_set_cwf(1) [OF w, of it "int (length as)"]
    by (auto simp: cache_iter_prev_def iter_at_def)
  from snoc.IH [OF w k(2) i(2)] i(1) k(1) snoc.prems(3) show ?case by (simp add: iter_at_def shown_append)
qed

lemma foreach_holds:
  assumes "cwf c xs"
  shows "cbind (cache_iter_head it c) (\<lambda>it1. cache_foreach (ring_fuel c) it1 c) = Inr (shown 0 xs)"
    "cbind (cache_iter_tail it c) (\<lambda>it1. cache_foreach_reverse (ring_fuel c) it1 c) = Inr (rev (shown 0 xs))"
proof -
  note f = cwf_fuel [OF assms]
  show "cbind (cache_iter_head it c) (\<lambda>it1. cache_foreach (ring_fuel c) it1 c) = Inr (shown 0 xs)"
  proof (cases xs)
    case Nil
    then show ?thesis using cwf_succ_head [OF assms] f by (simp add: cache_iter_head_def cache_iter_set_def)
  next
    case (Cons x bs)
    then have w: "cwf c ([] @ x # bs)" using assms by simp
    obtain it' where "cache_iter_head it c = Inr it'" "iter_at it' x 0"
      using cwf_succ_head [OF assms] Cons iter_set_cwf(1) [OF w] by (auto simp: cache_iter_head_def)
    with foreach_cwf [OF w, of "ring_fuel c" it' 0] f Cons show ?thesis by simp
  qed
  show "cbind (cache_iter_tail it c) (\<lambda>it1. cache_foreach_reverse (ring_fuel c) it1 c) = Inr (rev (shown 0 xs))"
  proof (cases xs rule: rev_cases)
    case Nil
    then show ?thesis using ring_pred [OF cwfD(1) [OF assms]] f by (simp add: cache_iter_tail_def cache_iter_set_def pred_of_def)
  next
    case (snoc as x)
    then have w: "cwf c (as @ x # [])" using assms by simp
    have "pred_of c ring_head = Inr (fst x)" using ring_pred [OF cwfD(1) [OF assms]] snoc by (simp add: pred_of_def)
    moreover have "ca_size c - 1 = int (length as)" using cwfD(5) [OF assms] snoc by simp
    ultimately obtain it' where "cache_iter_tail it c = Inr it'" "iter_at it' x (int (length as))"
      using iter_set_cwf(1) [OF w] by (auto simp: cache_iter_tail_def)
    with foreach_reverse_cwf [OF w, of "ring_fuel c" it'] f snoc show ?thesis by simp
  qed
qed

section \<open>Properties\<close>

abbreviation "cache_calls \<equiv> cache_call acl_cache_enter acl_cache_find acl_cache_delete2 acl_cache_timeout acl_cache_update
  acl_cache_refer2 acl_cache_unrefer2 acl_cache_clean"

text \<open>A run on a new cache, in terms of what a walk shows.\<close>

lemma cache_run_walk:
  assumes "acl_cache_create h m ttl True = Some c" "spec_run (nat m) ttl xs [] = (rs, fs, es)"
  shows "\<exists>c' as. calls_run cache_calls xs c = Inr (rs, c') \<and> acl_cache_walk c' = Inr as \<and> map (ca_infos c') as = map Some es \<and>
    acl_cache_size c' = int (length es) \<and> map snd (ca_freed c') = fs"
proof -
  note n = new_cache_holds [OF assms(1)] cache_create_holds(4,5) [OF assms(1)]
  obtain c' where c': "calls_run cache_calls xs c = Inr (rs, c')" "cache_holds c' es fs"
    using acache.run_refines [OF n(1), of xs rs fs es] assms(2) n(2,3) by auto
  with holds_walk [OF c'(2)] show ?thesis by blast
qed

text \<open>C21: the cache, a hash table and a ring over shared entries, is a list of entries. Whatever sequence of enters, finds, deletes,
  updates, changes of the use counts, expiry scans and cleanings is made on a new cache at whatever times, every call returns what the
  specification on lists returns, \<open>free_fn\<close> is called on the same values in the same order, and the ring holds the
  same entries in the same order; no call faults.\<close>

theorem cache_refines_entries:
  assumes "acl_cache_create h m ttl True = Some c" "spec_run (nat m) ttl xs [] = (rs, fs, es)"
  shows "\<exists>c' as. calls_run cache_calls xs c = Inr (rs, c') \<and> acl_cache_walk c' = Inr as \<and> map (ca_infos c') as = map Some es \<and>
    acl_cache_size c' = int (length es) \<and> map snd (ca_freed c') = fs"
  using assms by (rule cache_run_walk)

definition no_ring :: ring_heap where
  "no_ring = \<lparr>rg_succ = \<lambda>_. None, rg_pred = \<lambda>_. None, rg_parent = \<lambda>_. None, rg_len = \<lambda>_. 0\<rparr>"

lemma cache_exists: "0 < m \<Longrightarrow> 0 < ttl \<Longrightarrow> \<exists>c. acl_cache_create no_ring m ttl fn = Some c"
  by (simp add: acl_cache_create_def)

theorem cache_refines_entries_witness:
  "\<exists>c c'. acl_cache_create no_ring 1 10 True = Some c \<and>
     calls_run cache_calls [(0, CEnter [1] (Some 7)), (5, CEnter [2] (Some 8)), (6, CFind [1]), (7, CFind [2])] c =
       Inr ([Stored True, Stored True, Got None, Got (Some 8)], c') \<and> acl_cache_size c' = 1 \<and> map snd (ca_freed c') = [Some 7]"
proof -
  let ?xs = "[(0, CEnter [1] (Some 7)), (5, CEnter [2] (Some 8)), (6, CFind [1]), (7, CFind [2])] :: timed_call list"
  obtain c where c: "acl_cache_create no_ring 1 10 True = Some c" using cache_exists [of 1 10] by auto
  have s: "spec_run (nat 1) 10 ?xs [] = ([Stored True, Stored True, Got None, Got (Some 8)], [Some 7],
      [\<lparr>ci_key = [2], ci_value = Some 8, ci_nrefer = 0, ci_when = 15\<rparr>])"
    by (simp add: spec_enter_def spec_find_def lookup_def)
  from cache_refines_entries [OF c s] c show ?thesis by auto
qed

text \<open>C22: a cache never holds more than \<open>max_size\<close> entries nor two with the same key, and no value is lost or released twice: after any
  sequence of calls, the values that were stored are those still in the cache together with those handed to \<open>free_fn\<close>.\<close>

theorem cache_bounded_and_conserving:
  assumes "acl_cache_create h m ttl True = Some c"
  shows "\<exists>rs c' as es. calls_run cache_calls xs c = Inr (rs, c') \<and> length rs = length xs \<and> acl_cache_walk c' = Inr as \<and>
    map (ca_infos c') as = map Some es \<and> acl_cache_size c' = int (length es) \<and> acl_cache_size c' \<le> m \<and> distinct (map ci_key es) \<and>
    mset (concat (map2 taken xs rs)) = mset (map ci_value es) + mset (map snd (ca_freed c'))"
proof -
  note n = new_cache_holds [OF assms(1)] cache_create_holds(4) [OF assms(1)]
  obtain rs c' es fs where r: "calls_run cache_calls xs c = Inr (rs, c')" "cache_holds c' es fs" "length es \<le> cache_max c"
    "distinct (keys es)" "length rs = length xs" "mset (concat (map2 taken xs rs)) = mset (map ci_value es) + mset fs"
    using acache.run_conserves [OF n(1), of xs] by blast
  obtain as where a: "acl_cache_walk c' = Inr as" "map (ca_infos c') as = map Some es" "acl_cache_size c' = int (length es)"
    "map snd (ca_freed c') = fs"
    using holds_walk [OF r(2)] by blast
  have "0 < m" using assms by (simp add: acl_cache_create_def split: if_splits)
  then have "acl_cache_size c' \<le> m" using r(3) a(3) n(2) by linarith
  then show ?thesis using r(1,4-6) a by (intro exI [of _ rs] exI [of _ c'] exI [of _ as] exI [of _ es]) (simp add: keys_def)
qed

theorem cache_bounded_and_conserving_witness:
  "\<exists>c rs c'. acl_cache_create no_ring 2 10 True = Some c \<and> calls_run cache_calls [(0, CEnter [1] (Some 7)), (0, CEnter [1] (Some 8))] c = Inr (rs, c') \<and>
     acl_cache_size c' \<le> 2"
proof -
  obtain c where c: "acl_cache_create no_ring 2 10 True = Some c" using cache_exists [of 2 10] by auto
  from cache_bounded_and_conserving [OF c, of "[(0, CEnter [1] (Some 7)), (0, CEnter [1] (Some 8))]"] c show ?thesis by auto
qed

text \<open>C23: when time does not run backwards and no entry's time is changed by \<open>acl_cache_update\<close>, an expiry scan leaves no expired entry
  behind but those in use.\<close>

theorem cache_timeout_complete:
  assumes "acl_cache_create h m ttl True = Some c" "sorted (0 # map fst xs @ [now])" "\<forall>x\<in>set xs. \<not> is_update x"
  shows "\<exists>rs c' as. calls_run cache_calls (xs @ [(now, CTimeout)]) c = Inr (rs, c') \<and> acl_cache_walk c' = Inr as \<and>
    list_all (\<lambda>a. \<exists>i. ca_infos c' a = Some i \<and> (ci_when i > now \<or> ci_nrefer i > 0)) as"
proof -
  have pos: "0 < ttl" using assms(1) by (simp add: acl_cache_create_def split: if_splits)
  note n = new_cache_holds [OF assms(1)] cache_create_holds(4,5) [OF assms(1)]
  obtain rs fs es where s: "spec_run (nat m) ttl xs [] = (rs, fs, es)" by (cases "spec_run (nat m) ttl xs []")
  obtain b where b: "in_order b es"
    using spec_run_in_order [OF _ _ _ pos assms(3) s, of 0] assms(2) by (auto simp: sorted_append)
  define es' where "es' = expire now es"
  have "spec_run (nat m) ttl (xs @ [(now, CTimeout)]) [] =
      (rs @ [Code (int (length (expired now es)))], fs @ expired now es, es')"
    using s by (simp add: spec_run_append spec_timeout_def es'_def)
  then obtain qs gs where q: "spec_run (cache_max c) (ca_timeout c) (xs @ [(now, CTimeout)]) [] = (qs, gs, es')" using n(2,3) by auto
  obtain c' where c': "calls_run cache_calls (xs @ [(now, CTimeout)]) c = Inr (qs, c')" "cache_holds c' es' gs"
    using acache.run_refines [OF n(1) q] by auto
  obtain as where a: "acl_cache_walk c' = Inr as" "map (ca_infos c') as = map Some es'" using holds_walk [OF c'(2)] by blast
  have "\<exists>i. ca_infos c' a = Some i \<and> (ci_when i > now \<or> ci_nrefer i > 0)" if "a \<in> set as" for a
  proof -
    have "ca_infos c' a \<in> set (map Some es')" unfolding a(2) [symmetric] using that by simp
    then obtain i where "ca_infos c' a = Some i" "i \<in> set es'" by auto
    then show ?thesis using expire_complete [OF b] unfolding es'_def by blast
  qed
  then show ?thesis using c'(1) a(1) by (intro exI [of _ qs] exI [of _ c'] exI [of _ as]) (simp add: list_all_iff)
qed

theorem cache_timeout_complete_witness:
  "\<exists>c rs c' as. acl_cache_create no_ring 5 10 True = Some c \<and>
     calls_run cache_calls ([(0, CEnter [1] (Some 7)), (5, CEnter [2] (Some 8))] @ [(12, CTimeout)]) c = Inr (rs, c') \<and>
     acl_cache_walk c' = Inr as \<and> list_all (\<lambda>a. \<exists>i. ca_infos c' a = Some i \<and> (ci_when i > 12 \<or> ci_nrefer i > 0)) as"
proof -
  obtain c where c: "acl_cache_create no_ring 5 10 True = Some c" using cache_exists [of 5 10] by auto
  from cache_timeout_complete [OF c, of "[(0, CEnter [1] (Some 7)), (5, CEnter [2] (Some 8))]" 12] c show ?thesis by auto
qed

text \<open>after an update the scan can miss expired entries. An entry whose time was moved ahead is queued behind the others, and
  entries that come later are behind it; the scan stops there, so it removes nothing however many entries have expired.\<close>

theorem cache_timeout_misses_expired:
  assumes "acl_cache_create h m ttl True = Some c" "2 \<le> m" "k \<noteq> k'" "ttl < now" "now < long"
  shows "\<exists>c'. calls_run cache_calls [(0, CEnter k v), (0, CUpdate k long), (0, CEnter k' v'), (now, CTimeout), (now, CFind k')] c =
    Inr ([Stored True, Unit, Stored True, Code 0, Got v'], c') \<and> acl_cache_size c' = 2"
proof -
  have t: "0 < ttl" using assms(1) by (simp add: acl_cache_create_def split: if_splits)
  have m: "nat m = Suc (Suc (nat (m - 2)))" using assms(2) by linarith
  have "spec_run (nat m) ttl [(0, CEnter k v), (0, CUpdate k long), (0, CEnter k' v'), (now, CTimeout), (now, CFind k')] [] =
      ([Stored True, Unit, Stored True, Code 0, Got v'], [],
       [\<lparr>ci_key = k, ci_value = v, ci_nrefer = 0, ci_when = long\<rparr>, \<lparr>ci_key = k', ci_value = v', ci_nrefer = 0, ci_when = ttl\<rparr>])"
    using assms(3-5) t unfolding m
    by (simp add: spec_enter_def spec_find_def spec_update_def spec_timeout_def lookup_def drop_key_def)
  from cache_run_walk [OF assms(1) this] show ?thesis by auto
qed

theorem cache_timeout_misses_expired_witness:
  "\<exists>c c'. acl_cache_create no_ring 5 10 True = Some c \<and>
     calls_run cache_calls [(0, CEnter [1] (Some 7)), (0, CUpdate [1] 1000), (0, CEnter [2] (Some 8)), (500, CTimeout), (500, CFind [2])] c =
       Inr ([Stored True, Unit, Stored True, Code 0, Got (Some 8)], c')"
proof -
  obtain c where c: "acl_cache_create no_ring 5 10 True = Some c" using cache_exists [of 5 10] by auto
  from cache_timeout_misses_expired [OF c, of "[1]" "[2]" 500 1000 "Some 7" "Some 8"] c show ?thesis by auto
qed

text \<open>releasing a cache ends and leaves nothing: whatever was done to the cache before, \<open>acl_cache_free\<close> returns, no entry
  is left, and every value that was ever stored has been handed to \<open>free_fn\<close> exactly once, also those in use.\<close>

theorem acl_cache_free_releases:
  assumes "acl_cache_create h m ttl True = Some c" "calls_run cache_calls xs c = Inr (rs, c1)"
  shows "\<exists>c2. acl_cache_free c1 = Inr c2 \<and> ca_infos c2 = Map.empty \<and>
    mset (map snd (ca_freed c2)) = mset (concat (map2 taken xs rs))"
proof -
  note n = new_cache_holds [OF assms(1)]
  obtain es fs where r: "cache_holds c1 es fs" "mset (concat (map2 taken xs rs)) = mset (map ci_value es) + mset fs"
    using acache.run_conserves [OF n, of xs] assms(2) by auto
  obtain ys where w: "cwf c1 ys" "map snd ys = es" "ca_free_fn c1" "map snd (ca_freed c1) = fs" using r(1) by (auto simp: cache_holds_def)
  obtain c2 where c2: "cache_free_loop (ring_fuel c1) c1 = Inr c2" "cwf c2 []" "freed_since c1 c2 (map ci_value es)"
    using free_loop_cwf [OF w(1), of "ring_fuel c1"] cwf_fuel [OF w(1)] w(2) by auto
  have "htable_holds (ca_table c2) Map.empty" using cwfD(3) [OF c2(2)] by (simp add: dict_holds_def key_map_def)
  then obtain gs s where g: "acl_htable_free (ca_table c2) False = Inr (gs, s)"
    using free_nodes [of "ca_table c2" _ False] by (auto simp: htable_holds_def hwf_def acl_htable_free_def)
  show ?thesis
    using c2 g w(3,4) cwfD(7) [OF w(1)] cwfD(2) [OF c2(2)] r(2)
    by (intro exI [of _ "c2\<lparr>ca_table := (ca_table c2)\<lparr>ht_nodes := s\<rparr>\<rparr>"]) (simp add: acl_cache_free_def freed_since_def add.commute)
qed

theorem acl_cache_free_releases_witness:
  "\<exists>c rs c1 c2. acl_cache_create no_ring 5 10 True = Some c \<and>
     calls_run cache_calls [(0, CEnter [1] (Some 7)), (0, CRefer [1])] c = Inr (rs, c1) \<and> acl_cache_free c1 = Inr c2 \<and>
     mset (map snd (ca_freed c2)) = {#Some 7#}"
proof -
  let ?xs = "[(0, CEnter [1] (Some 7)), (0, CRefer [1])] :: timed_call list"
  obtain c where c: "acl_cache_create no_ring 5 10 True = Some c" using cache_exists [of 5 10] by auto
  note n = new_cache_holds [OF c] cache_create_holds(4,5) [OF c]
  obtain c1 where c1: "calls_run cache_calls ?xs c = Inr ([Stored True, Unit], c1)"
    using acache.run_refines [OF n(1), of ?xs] n(2,3) by (auto simp: spec_enter_def spec_refer_def lookup_def Let_def)
  from acl_cache_free_releases [OF c c1] c c1 show ?thesis by auto
qed

text \<open>Going through a cache with the iterator shows every entry once with its index, from the oldest on, and going backwards shows
  the same in the opposite order.\<close>

theorem cache_foreach_both_ways:
  assumes "acl_cache_create h m ttl True = Some c" "calls_run cache_calls xs c = Inr (rs, c1)"
  shows "\<exists>as ds. acl_cache_walk c1 = Inr as \<and>
    cbind (cache_iter_head it c1) (\<lambda>it1. cache_foreach (ring_fuel c1) it1 c1) = Inr ds \<and>
    cbind (cache_iter_tail it c1) (\<lambda>it1. cache_foreach_reverse (ring_fuel c1) it1 c1) = Inr (rev ds) \<and>
    map (\<lambda>(n, k, v). (k, v)) ds = map (\<lambda>a. (map_option ci_key (ca_infos c1 a), Option.bind (ca_infos c1 a) ci_value)) as \<and>
    map fst ds = map int [0..<length as]"
proof -
  obtain es fs where "cache_holds c1 es fs"
    using acache.run_conserves [OF new_cache_holds [OF assms(1)], of xs] assms(2) by auto
  then obtain ys where w: "cwf c1 ys" by (auto simp: cache_holds_def)
  have "map fst (shown n zs) = map (\<lambda>k. n + int k) [0..<length zs]" for n zs
    by (induction zs arbitrary: n) (simp_all add: upt_conv_Cons map_Suc_upt [symmetric] comp_def ac_simps del: upt_Suc)
  moreover have "map (\<lambda>(n, k, v). (k, v)) (shown n zs) = map (\<lambda>x. (Some (ci_key (snd x)), ci_value (snd x))) zs" for n zs
    by (induction zs arbitrary: n) auto
  moreover have "ca_infos c1 (fst x) = Some (snd x)" if "x \<in> set ys" for x using cwfD(2,8) [OF w] that by simp
  ultimately show ?thesis
    using walk_cwf(1) [OF w] foreach_holds [OF w, of it] by (intro exI [of _ "map fst ys"] exI [of _ "shown 0 ys"]) simp
qed

theorem cache_foreach_both_ways_witness:
  "\<exists>c rs c1 it ds. acl_cache_create no_ring 5 10 True = Some c \<and> calls_run cache_calls [(0, CEnter [1] (Some 7))] c = Inr (rs, c1) \<and>
     cbind (cache_iter_tail it c1) (\<lambda>it1. cache_foreach_reverse (ring_fuel c1) it1 c1) = Inr ds"
proof -
  let ?xs = "[(0, CEnter [1] (Some 7))] :: timed_call list"
  obtain c where c: "acl_cache_create no_ring 5 10 True = Some c" using cache_exists [of 5 10] by auto
  obtain rs c1 where c1: "calls_run cache_calls ?xs c = Inr (rs, c1)" using acache.run_conserves [OF new_cache_holds [OF c], of ?xs] by blast
  from cache_foreach_both_ways [OF c c1] c c1 show ?thesis by blast
qed

end
