(* ===== verification/Acl_Avl.thy ===== *)
theory Acl_Avl
  imports Acl_Prelude
begin

text \<open>
  The balanced trees of \<open>lib_acl/src/stdlib/common/avl.c\<close>: nodes that are embedded in the user's structures and know
  their parent, which child of it they are, and their balance. The nodes live in a store \<open>avl_heap\<close>; a child index
  0 or 1 is a \<open>bool\<close>. A node and the structure it is embedded in have the same address, \<open>val\<close> is what the user's
  \<open>compar\<close> looks at in a structure, and \<open>cmp\<close> is \<open>compar\<close>. The fields are those of \<open>avl_impl.h\<close> for 32-bit pointers; for 64 bits
  the header packs parent, index and balance into one word behind the same macros, which \<open>Acl_AvlPcb\<close> treats. An
  \<open>avl_index_t\<close> is a pair of a node and a child index. Loops down or up the tree get as many steps as it has nodes, plus one
  at its end, and a failed assertion is the fault \<open>Fatal\<close>.
\<close>

section \<open>Nodes and macros\<close>

record avl_node =
  av_child :: "bool \<Rightarrow> ptr"
  av_parent :: ptr
  av_index :: bool
  av_balance :: int

record avl_tree =
  at_root :: ptr
  at_num :: nat

type_synonym avl_heap = "addr \<rightharpoonup> avl_node"

definition avl_read :: "avl_heap \<Rightarrow> ptr \<Rightarrow> avl_node cres" where
  "avl_read h p = cbind (deref p) (\<lambda>a. case h a of None \<Rightarrow> Inl OobRead | Some v \<Rightarrow> Inr v)"

definition avl_write :: "avl_heap \<Rightarrow> ptr \<Rightarrow> (avl_node \<Rightarrow> avl_node) \<Rightarrow> avl_heap cres" where
  "avl_write h p u = cbind (deref p) (\<lambda>a. case h a of None \<Rightarrow> Inl OobWrite | Some v \<Rightarrow> Inr (h(a \<mapsto> u v)))"

definition AVL_SETPARENT :: "avl_heap \<Rightarrow> ptr \<Rightarrow> ptr \<Rightarrow> avl_heap cres" where
  "AVL_SETPARENT h n p = avl_write h n (\<lambda>v. v\<lparr>av_parent := p\<rparr>)"

definition AVL_SETCHILD :: "avl_heap \<Rightarrow> ptr \<Rightarrow> bool \<Rightarrow> avl_heap cres" where
  "AVL_SETCHILD h n c = avl_write h n (\<lambda>v. v\<lparr>av_index := c\<rparr>)"

definition AVL_SETBALANCE :: "avl_heap \<Rightarrow> ptr \<Rightarrow> int \<Rightarrow> avl_heap cres" where
  "AVL_SETBALANCE h n b = avl_write h n (\<lambda>v. v\<lparr>av_balance := b\<rparr>)"

text \<open>The assignment \<open>n->avl_child[d] = c\<close>.\<close>

definition set_child :: "avl_heap \<Rightarrow> ptr \<Rightarrow> bool \<Rightarrow> ptr \<Rightarrow> avl_heap cres" where
  "set_child h n d c = avl_write h n (\<lambda>v. v\<lparr>av_child := (av_child v)(d := c)\<rparr>)"

definition avl_child2balance :: "bool \<Rightarrow> int" where
  "avl_child2balance c = (if c then 1 else -1)"

definition avl_balance2child :: "int \<Rightarrow> bool cres" where
  "avl_balance2child b = (if b = -1 \<or> b = 0 then Inr False else if b = 1 then Inr True else Inl OobRead)"

section \<open>Walking and finding\<close>

fun walk_down :: "nat \<Rightarrow> avl_heap \<Rightarrow> ptr \<Rightarrow> bool \<Rightarrow> ptr cres" where
  "walk_down 0 h node d = Inl OutOfFuel"
| "walk_down (Suc k) h node d =
     cbind (avl_read h node) (\<lambda>v. if av_child v d \<noteq> None then walk_down k h (av_child v d) d else Inr node)"

fun walk_up :: "nat \<Rightarrow> avl_heap \<Rightarrow> ptr \<Rightarrow> bool \<Rightarrow> ptr cres" where
  "walk_up 0 h node right = Inl OutOfFuel"
| "walk_up (Suc k) h node right =
     cbind (avl_read h node) (\<lambda>v.
       if av_parent v = None then Inr None
       else if av_index v = right then Inr (av_parent v)
       else walk_up k h (av_parent v) right)"

definition avl_walk :: "avl_heap \<Rightarrow> avl_tree \<Rightarrow> ptr \<Rightarrow> bool \<Rightarrow> ptr cres" where
  "avl_walk h t oldnode left =
     (if oldnode = None then Inr None
      else
        cbind (avl_read h oldnode) (\<lambda>v.
          if av_child v left \<noteq> None then walk_down (at_num t) h (av_child v left) (\<not> left)
          else walk_up (at_num t) h oldnode (\<not> left)))"

fun end_loop :: "nat \<Rightarrow> avl_heap \<Rightarrow> bool \<Rightarrow> ptr \<Rightarrow> ptr \<Rightarrow> ptr cres" where
  "end_loop 0 h d node prev = (if node = None then Inr prev else Inl OutOfFuel)"
| "end_loop (Suc k) h d node prev =
     (if node = None then Inr prev
      else cbind (avl_read h node) (\<lambda>v. end_loop k h d (av_child v d) node))"

definition avl_first :: "avl_heap \<Rightarrow> avl_tree \<Rightarrow> ptr cres" where
  "avl_first h t = end_loop (at_num t) h False (at_root t) None"

definition avl_last :: "avl_heap \<Rightarrow> avl_tree \<Rightarrow> ptr cres" where
  "avl_last h t = end_loop (at_num t) h True (at_root t) None"

type_synonym avl_index = "ptr \<times> bool"

definition avl_nearest :: "avl_heap \<Rightarrow> avl_tree \<Rightarrow> avl_index \<Rightarrow> bool \<Rightarrow> ptr cres" where
  "avl_nearest h t ix direction =
     (if fst ix = None then (if at_root t = None then Inr None else Inl Fatal)
      else if snd ix \<noteq> direction then Inr (fst ix)
      else avl_walk h t (fst ix) direction)"

text \<open>The node that is found, or the place where it would be.\<close>

fun find_loop :: "nat \<Rightarrow> avl_heap \<Rightarrow> ('k \<Rightarrow> 'k \<Rightarrow> int) \<Rightarrow> (addr \<Rightarrow> 'k) \<Rightarrow> 'k \<Rightarrow> ptr \<Rightarrow> ptr \<Rightarrow> bool \<Rightarrow> (ptr \<times> avl_index) cres" where
  "find_loop 0 h cmp val x node prev child = (if node = None then Inr (None, prev, child) else Inl OutOfFuel)"
| "find_loop (Suc k) h cmp val x node prev child =
     (case node of
        None \<Rightarrow> Inr (None, prev, child)
      | Some a \<Rightarrow>
          (let diff = cmp x (val a)
           in if \<not> (-1 \<le> diff \<and> diff \<le> 1) then Inl Fatal
              else if diff = 0 then Inr (node, None, False)
              else
                cbind (avl_balance2child diff) (\<lambda>c.
                cbind (avl_read h node) (\<lambda>v. find_loop k h cmp val x (av_child v c) node c))))"

definition avl_find :: "avl_heap \<Rightarrow> avl_tree \<Rightarrow> ('k \<Rightarrow> 'k \<Rightarrow> int) \<Rightarrow> (addr \<Rightarrow> 'k) \<Rightarrow> 'k \<Rightarrow> (ptr \<times> avl_index) cres" where
  "avl_find h t cmp val x = find_loop (at_num t) h cmp val x (at_root t) None False"

section \<open>Rotation\<close>

text \<open>A child that moves: \<open>if (c != NULL) { AVL_SETPARENT(c, p); AVL_SETCHILD(c, i); }\<close>.\<close>

definition adopt :: "avl_heap \<Rightarrow> ptr \<Rightarrow> ptr \<Rightarrow> bool \<Rightarrow> avl_heap cres" where
  "adopt h c p i = (if c = None then Inr h else cbind (AVL_SETPARENT h c p) (\<lambda>h1. AVL_SETCHILD h1 c i))"

text \<open>The pointer into a subtree, in its parent or in the tree.\<close>

definition set_link :: "avl_heap \<Rightarrow> avl_tree \<Rightarrow> ptr \<Rightarrow> bool \<Rightarrow> ptr \<Rightarrow> (avl_heap \<times> avl_tree) cres" where
  "set_link h t parent which c =
     (if parent \<noteq> None then cbind (set_child h parent which c) (\<lambda>h1. Inr (h1, t)) else Inr (h, t\<lparr>at_root := c\<rparr>))"

definition avl_rotation :: "avl_heap \<Rightarrow> avl_tree \<Rightarrow> ptr \<Rightarrow> int \<Rightarrow> (bool \<times> avl_heap \<times> avl_tree) cres" where
  "avl_rotation h t node balance =
     (let left = (\<not> balance < 0); right = (\<not> left); left_heavy = balance div 2; right_heavy = - left_heavy
      in cbind (avl_read h node) (\<lambda>v.
         let parent = av_parent v; child = av_child v left; which_child = av_index v
         in cbind (avl_read h child) (\<lambda>w.
            if av_balance w \<noteq> right_heavy then
              (let child_bal = av_balance w + right_heavy; cright = av_child w right
               in cbind (set_child h node left cright) (\<lambda>h1.
                  cbind (adopt h1 cright node left) (\<lambda>h2.
                  cbind (set_child h2 child right node) (\<lambda>h3.
                  cbind (AVL_SETBALANCE h3 node (- child_bal)) (\<lambda>h4.
                  cbind (AVL_SETCHILD h4 node right) (\<lambda>h5.
                  cbind (AVL_SETPARENT h5 node child) (\<lambda>h6.
                  cbind (AVL_SETBALANCE h6 child child_bal) (\<lambda>h7.
                  cbind (AVL_SETCHILD h7 child which_child) (\<lambda>h8.
                  cbind (AVL_SETPARENT h8 child parent) (\<lambda>h9.
                  cbind (set_link h9 t parent which_child child) (\<lambda>(h10, t1). Inr (child_bal = 0, h10, t1))))))))))))
            else
              (let gchild = av_child w right
               in cbind (avl_read h gchild) (\<lambda>g.
                  let gleft = av_child g left; gright = av_child g right
                  in cbind (set_child h node left gright) (\<lambda>h1.
                     cbind (adopt h1 gright node left) (\<lambda>h2.
                     cbind (set_child h2 child right gleft) (\<lambda>h3.
                     cbind (adopt h3 gleft child right) (\<lambda>h4.
                     cbind (avl_read h4 gchild) (\<lambda>g4.
                     let bal = av_balance g4
                     in cbind (set_child h4 gchild left child) (\<lambda>h5.
                        cbind (AVL_SETBALANCE h5 child (if bal = right_heavy then left_heavy else 0)) (\<lambda>h6.
                        cbind (AVL_SETPARENT h6 child gchild) (\<lambda>h7.
                        cbind (AVL_SETCHILD h7 child left) (\<lambda>h8.
                        cbind (set_child h8 gchild right node) (\<lambda>h9.
                        cbind (AVL_SETBALANCE h9 node (if bal = left_heavy then right_heavy else 0)) (\<lambda>h10.
                        cbind (AVL_SETPARENT h10 node gchild) (\<lambda>h11.
                        cbind (AVL_SETCHILD h11 node right) (\<lambda>h12.
                        cbind (AVL_SETBALANCE h12 gchild 0) (\<lambda>h13.
                        cbind (AVL_SETPARENT h13 gchild parent) (\<lambda>h14.
                        cbind (AVL_SETCHILD h14 gchild which_child) (\<lambda>h15.
                        cbind (set_link h15 t parent which_child gchild) (\<lambda>(h16, t1). Inr (True, h16, t1)))))))))))))))))))))))"

section \<open>Inserting\<close>

fun insert_loop :: "nat \<Rightarrow> avl_heap \<Rightarrow> avl_tree \<Rightarrow> ptr \<Rightarrow> bool \<Rightarrow> (avl_heap \<times> avl_tree) cres" where
  "insert_loop 0 h t parent which_child = (if parent = None then Inr (h, t) else Inl OutOfFuel)"
| "insert_loop (Suc k) h t parent which_child =
     (if parent = None then Inr (h, t)
      else
        cbind (avl_read h parent) (\<lambda>v.
        let old_balance = av_balance v; new_balance = old_balance + avl_child2balance which_child
        in if new_balance = 0 then cbind (AVL_SETBALANCE h parent 0) (\<lambda>h1. Inr (h1, t))
           else if old_balance \<noteq> 0 then cbind (avl_rotation h t parent new_balance) (\<lambda>(_, h1, t1). Inr (h1, t1))
           else
             cbind (AVL_SETBALANCE h parent new_balance) (\<lambda>h1.
             cbind (avl_read h1 parent) (\<lambda>w. insert_loop k h1 t (av_parent w) (av_index w)))))"

definition avl_insert :: "avl_heap \<Rightarrow> avl_tree \<Rightarrow> ptr \<Rightarrow> avl_index \<Rightarrow> (avl_heap \<times> avl_tree) cres" where
  "avl_insert h t node ix =
     (let parent = fst ix; which_child = snd ix; t1 = t\<lparr>at_num := at_num t + 1\<rparr>
      in cbind (set_child h node False None) (\<lambda>h1.
         cbind (set_child h1 node True None) (\<lambda>h2.
         cbind (AVL_SETCHILD h2 node which_child) (\<lambda>h3.
         cbind (AVL_SETBALANCE h3 node 0) (\<lambda>h4.
         cbind (AVL_SETPARENT h4 node parent) (\<lambda>h5.
         cbind (if parent \<noteq> None then cbind (avl_read h5 parent) (\<lambda>v. Inr (av_child v which_child)) else Inr (at_root t1)) (\<lambda>old.
         if old \<noteq> None then Inl Fatal
         else
           cbind (set_link h5 t1 parent which_child node) (\<lambda>(h6, t2).
             insert_loop (at_num t2) h6 t2 parent which_child))))))))"

definition avl_insert_here :: "avl_heap \<Rightarrow> avl_tree \<Rightarrow> ptr \<Rightarrow> ptr \<Rightarrow> bool \<Rightarrow> (avl_heap \<times> avl_tree) cres" where
  "avl_insert_here h t new_data here direction =
     (if new_data = None \<or> here = None then Inl Fatal
      else
        cbind (avl_read h here) (\<lambda>v.
        cbind (if av_child v direction \<noteq> None
               then cbind (walk_down (at_num t) h (av_child v direction) (\<not> direction)) (\<lambda>n. Inr (n, \<not> direction))
               else Inr (here, direction)) (\<lambda>(node, child).
        cbind (avl_read h node) (\<lambda>w.
        if av_child w child \<noteq> None then Inl Fatal
        else avl_insert h t new_data (node, child)))))"

definition avl_add :: "avl_heap \<Rightarrow> avl_tree \<Rightarrow> ('k \<Rightarrow> 'k \<Rightarrow> int) \<Rightarrow> (addr \<Rightarrow> 'k) \<Rightarrow> addr \<Rightarrow> (avl_heap \<times> avl_tree) cres" where
  "avl_add h t cmp val new_node =
     cbind (avl_find h t cmp val (val new_node)) (\<lambda>(p, ix).
       if p \<noteq> None then Inl Fatal else avl_insert h t (Some new_node) ix)"

section \<open>Removing\<close>

text \<open>\<open>tmp\<close> is the address of the local variable of that name.\<close>

definition swap_out :: "avl_heap \<Rightarrow> avl_tree \<Rightarrow> addr \<Rightarrow> ptr \<Rightarrow> avl_node \<Rightarrow> (avl_heap \<times> avl_tree) cres" where
  "swap_out h t tmp del v =
     cbind (avl_balance2child (av_balance v)) (\<lambda>left.
     let right = (\<not> left)
     in cbind (walk_down (at_num t) h (av_child v left) right) (\<lambda>node.
        cbind (avl_read h node) (\<lambda>w.
        cbind (deref node) (\<lambda>n.
        let h1 = h(tmp \<mapsto> w, n \<mapsto> v)
        in cbind (if av_child v left = node then set_child h1 node left (Some tmp) else Inr h1) (\<lambda>h2.
           cbind (avl_read h2 node) (\<lambda>v2.
           cbind (set_link h2 t (av_parent v2) (av_index v2) node) (\<lambda>(h3, t1).
           cbind (avl_read h3 node) (\<lambda>v3.
           cbind (AVL_SETPARENT h3 (av_child v3 left) node) (\<lambda>h4.
           cbind (AVL_SETPARENT h4 (av_child v3 right) node) (\<lambda>h5.
           cbind (avl_read h5 (Some tmp)) (\<lambda>d.
           cbind (set_child h5 (av_parent d) (av_index d) (Some tmp)) (\<lambda>h6.
           cbind (avl_read h6 (Some tmp)) (\<lambda>d1.
           let which_child = (av_child d1 True \<noteq> None)
           in cbind (if av_child d1 which_child \<noteq> None then AVL_SETPARENT h6 (av_child d1 which_child) (Some tmp) else Inr h6) (\<lambda>h7.
                Inr (h7, t1)))))))))))))))"

fun remove_loop :: "nat \<Rightarrow> avl_heap \<Rightarrow> avl_tree \<Rightarrow> ptr \<Rightarrow> bool \<Rightarrow> (avl_heap \<times> avl_tree) cres" where
  "remove_loop 0 h t parent which_child = Inl OutOfFuel"
| "remove_loop (Suc k) h t parent which_child =
     cbind (avl_read h parent) (\<lambda>v.
     let old_balance = av_balance v; new_balance = old_balance - avl_child2balance which_child
     in if old_balance = 0 then cbind (AVL_SETBALANCE h parent new_balance) (\<lambda>h1. Inr (h1, t))
        else
          cbind (if new_balance = 0 then cbind (AVL_SETBALANCE h parent new_balance) (\<lambda>h1. Inr (True, h1, t))
                 else avl_rotation h t parent new_balance) (\<lambda>(go, h1, t1).
            if go \<and> av_parent v \<noteq> None then remove_loop k h1 t1 (av_parent v) (av_index v) else Inr (h1, t1)))"

text \<open>Taking out a node with at most one child.\<close>

definition take_out :: "avl_heap \<Rightarrow> avl_tree \<Rightarrow> ptr \<Rightarrow> (avl_heap \<times> avl_tree) cres" where
  "take_out h t del =
     (if at_num t = 0 then Inl Fatal
      else
        let t1 = t\<lparr>at_num := at_num t - 1\<rparr>
        in cbind (avl_read h del) (\<lambda>d.
           let parent = av_parent d; which_child = av_index d;
               node = (if av_child d False \<noteq> None then av_child d False else av_child d True)
           in cbind (adopt h node parent which_child) (\<lambda>h1.
              if parent = None then Inr (h1, t1\<lparr>at_root := node\<rparr>)
              else
                cbind (set_child h1 parent which_child node) (\<lambda>h2.
                  remove_loop (at_num t) h2 t1 parent which_child))))"

definition remove_node :: "avl_heap \<Rightarrow> avl_tree \<Rightarrow> addr \<Rightarrow> ptr \<Rightarrow> (avl_heap \<times> avl_tree) cres" where
  "remove_node h t tmp data =
     cbind (avl_read h data) (\<lambda>v.
       if av_child v False \<noteq> None \<and> av_child v True \<noteq> None
       then cbind (swap_out h t tmp data v) (\<lambda>(h1, t1). take_out h1 t1 (Some tmp))
       else take_out h t data)"

text \<open>The local variable ends with the call.\<close>

definition avl_remove :: "avl_heap \<Rightarrow> avl_tree \<Rightarrow> addr \<Rightarrow> ptr \<Rightarrow> (avl_heap \<times> avl_tree) cres" where
  "avl_remove h t tmp data = cbind (remove_node h t tmp data) (\<lambda>(h1, t1). Inr (h1(tmp := None), t1))"

text \<open>Moving a node whose key the user changed.\<close>

definition avl_reinsert :: "avl_heap \<Rightarrow> avl_tree \<Rightarrow> ('k \<Rightarrow> 'k \<Rightarrow> int) \<Rightarrow> (addr \<Rightarrow> 'k) \<Rightarrow> addr \<Rightarrow> addr \<Rightarrow> (avl_heap \<times> avl_tree) cres" where
  "avl_reinsert h t cmp val tmp obj =
     cbind (avl_remove h t tmp (Some obj)) (\<lambda>(h1, t1). avl_add h1 t1 cmp val obj)"

definition avl_update_lt ::
  "avl_heap \<Rightarrow> avl_tree \<Rightarrow> ('k \<Rightarrow> 'k \<Rightarrow> int) \<Rightarrow> (addr \<Rightarrow> 'k) \<Rightarrow> addr \<Rightarrow> addr \<Rightarrow> (bool \<times> avl_heap \<times> avl_tree) cres" where
  "avl_update_lt h t cmp val tmp obj =
     cbind (avl_walk h t (Some obj) True) (\<lambda>next.
     if \<not> (case next of None \<Rightarrow> True | Some n \<Rightarrow> cmp (val obj) (val n) \<le> 0) then Inl Fatal
     else
       cbind (avl_walk h t (Some obj) False) (\<lambda>prev.
       if (case prev of None \<Rightarrow> False | Some n \<Rightarrow> cmp (val obj) (val n) < 0)
       then cbind (avl_reinsert h t cmp val tmp obj) (\<lambda>(h1, t1). Inr (True, h1, t1))
       else Inr (False, h, t)))"

definition avl_update_gt ::
  "avl_heap \<Rightarrow> avl_tree \<Rightarrow> ('k \<Rightarrow> 'k \<Rightarrow> int) \<Rightarrow> (addr \<Rightarrow> 'k) \<Rightarrow> addr \<Rightarrow> addr \<Rightarrow> (bool \<times> avl_heap \<times> avl_tree) cres" where
  "avl_update_gt h t cmp val tmp obj =
     cbind (avl_walk h t (Some obj) False) (\<lambda>prev.
     if \<not> (case prev of None \<Rightarrow> True | Some n \<Rightarrow> cmp (val obj) (val n) \<ge> 0) then Inl Fatal
     else
       cbind (avl_walk h t (Some obj) True) (\<lambda>next.
       if (case next of None \<Rightarrow> False | Some n \<Rightarrow> cmp (val obj) (val n) > 0)
       then cbind (avl_reinsert h t cmp val tmp obj) (\<lambda>(h1, t1). Inr (True, h1, t1))
       else Inr (False, h, t)))"

definition avl_update ::
  "avl_heap \<Rightarrow> avl_tree \<Rightarrow> ('k \<Rightarrow> 'k \<Rightarrow> int) \<Rightarrow> (addr \<Rightarrow> 'k) \<Rightarrow> addr \<Rightarrow> addr \<Rightarrow> (bool \<times> avl_heap \<times> avl_tree) cres" where
  "avl_update h t cmp val tmp obj =
     cbind (avl_walk h t (Some obj) False) (\<lambda>prev.
     if (case prev of None \<Rightarrow> False | Some n \<Rightarrow> cmp (val obj) (val n) < 0)
     then cbind (avl_reinsert h t cmp val tmp obj) (\<lambda>(h1, t1). Inr (True, h1, t1))
     else
       cbind (avl_walk h t (Some obj) True) (\<lambda>next.
       if (case next of None \<Rightarrow> False | Some n \<Rightarrow> cmp (val obj) (val n) > 0)
       then cbind (avl_reinsert h t cmp val tmp obj) (\<lambda>(h1, t1). Inr (True, h1, t1))
       else Inr (False, h, t)))"

section \<open>Creating and destroying\<close>

definition avl_create :: avl_tree where
  "avl_create = \<lparr>at_root = None, at_num = 0\<rparr>"

definition avl_destroy :: "avl_tree \<Rightarrow> unit cres" where
  "avl_destroy t = (if at_num t = 0 \<and> at_root t = None then Inr () else Inl Fatal)"

definition avl_numnodes :: "avl_tree \<Rightarrow> nat" where
  "avl_numnodes t = at_num t"

definition avl_is_empty :: "avl_tree \<Rightarrow> bool" where
  "avl_is_empty t = (at_num t = 0)"

text \<open>
  Visiting all nodes in postorder while the user frees them. The cookie is the parent of the node that was returned last and the
  index of that node; a null pointer with index 0 is the null pointer of the first call, with index 1 it is \<open>CHILDBIT\<close>.
\<close>

definition destroy_done :: "avl_heap \<Rightarrow> avl_tree \<Rightarrow> ptr \<Rightarrow> ptr \<Rightarrow> (ptr \<times> avl_index \<times> avl_heap \<times> avl_tree) cres" where
  "destroy_done h t node parent =
     (if parent = None then (if node = at_root t then Inr (node, (None, True), h, t) else Inl Fatal)
      else cbind (avl_read h node) (\<lambda>v. Inr (node, (parent, av_index v), h, t)))"

definition check_right_side :: "avl_heap \<Rightarrow> avl_tree \<Rightarrow> ptr \<Rightarrow> ptr \<Rightarrow> (ptr \<times> avl_index \<times> avl_heap \<times> avl_tree) cres" where
  "check_right_side h t node parent =
     cbind (avl_read h node) (\<lambda>v.
       if av_child v True \<noteq> None then
         (if av_balance v \<noteq> 1 then Inl Fatal
          else
            cbind (avl_read h (av_child v True)) (\<lambda>w.
              if av_child w False \<noteq> None \<or> av_child w True \<noteq> None then Inl Fatal
              else destroy_done h t (av_child v True) node))
       else if av_balance v > 0 then Inl Fatal
       else destroy_done h t node parent)"

fun leftmost_loop :: "nat \<Rightarrow> avl_heap \<Rightarrow> ptr \<Rightarrow> ptr \<Rightarrow> (ptr \<times> ptr) cres" where
  "leftmost_loop 0 h node parent = Inl OutOfFuel"
| "leftmost_loop (Suc k) h node parent =
     cbind (avl_read h node) (\<lambda>v. if av_child v False \<noteq> None then leftmost_loop k h (av_child v False) node else Inr (node, parent))"

definition avl_destroy_nodes :: "avl_heap \<Rightarrow> avl_tree \<Rightarrow> avl_index \<Rightarrow> (ptr \<times> avl_index \<times> avl_heap \<times> avl_tree) cres" where
  "avl_destroy_nodes h t cookie =
     (if cookie = (None, False) then
        cbind (avl_first h t) (\<lambda>first.
          if first = None then Inr (None, (None, True), h, t)
          else cbind (avl_read h first) (\<lambda>v. check_right_side h t first (av_parent v)))
      else
        let parent = fst cookie; child = snd cookie
        in if parent = None then
             (if at_root t \<noteq> None then
                (if at_num t \<noteq> 1 then Inl Fatal else Inr (None, cookie, h, t\<lparr>at_root := None, at_num := 0\<rparr>))
              else Inr (None, cookie, h, t))
           else
             cbind (set_child h parent child None) (\<lambda>h1.
               if \<not> at_num t > 1 then Inl Fatal
               else
                 let t1 = t\<lparr>at_num := at_num t - 1\<rparr>
                 in cbind (avl_read h1 parent) (\<lambda>p.
                      if child \<or> av_child p True = None then destroy_done h1 t1 parent (av_parent p)
                      else
                        cbind (leftmost_loop (at_num t1) h1 (av_child p True) parent) (\<lambda>(node, parent1).
                          check_right_side h1 t1 node parent1))))"

text \<open>The loop of the comment before the function: every node that is returned is freed, then the next one is asked for.\<close>

fun destroy_all :: "nat \<Rightarrow> avl_heap \<Rightarrow> avl_tree \<Rightarrow> avl_index \<Rightarrow> (addr list \<times> avl_heap \<times> avl_tree) cres" where
  "destroy_all 0 h t cookie = Inl OutOfFuel"
| "destroy_all (Suc k) h t cookie =
     cbind (avl_destroy_nodes h t cookie) (\<lambda>(node, cookie1, h1, t1).
       case node of
         None \<Rightarrow> Inr ([], h1, t1)
       | Some a \<Rightarrow> cbind (destroy_all k (h1(a := None)) t1 cookie1) (\<lambda>(as, h2, t2). Inr (a # as, h2, t2)))"

end
