(* ===== verification/Acl_AvlTree.thy ===== *)
theory Acl_AvlTree
  imports Acl_Avl
begin

text \<open>
  The trees that the linked nodes of \<open>Acl_Avl\<close> form, without the store: rotations, what an insertion and a removal do on the way
  up from a place in the tree, and that order and balance are kept. A tree is given by the addresses
  of its nodes; the two subtrees of a node are a function of the child index, so that a definition covers both directions. A place in
  a tree is the list of the nodes above it, the nearest first, each with the direction that leads to the place and its
  other subtree.
\<close>

datatype atree = Tip | Node addr int "bool \<Rightarrow> atree"

primrec inorder :: "atree \<Rightarrow> addr list" where
  "inorder Tip = []"
| "inorder (Node a b f) = inorder (f False) @ a # inorder (f True)"

primrec height :: "atree \<Rightarrow> nat" where
  "height Tip = 0"
| "height (Node a b f) = Suc (max (height (f False)) (height (f True)))"

primrec avl :: "atree \<Rightarrow> bool" where
  "avl Tip = True"
| "avl (Node a b f) \<longleftrightarrow>
     b = int (height (f True)) - int (height (f False)) \<and> - 1 \<le> b \<and> b \<le> 1 \<and> avl (f False) \<and> avl (f True)"

abbreviation "dir \<equiv> avl_child2balance"

lemma dir_simps [simp]: "dir True = 1" "dir False = -1" "dir (\<not> d) = - dir d" "dir d \<noteq> 0" "- dir d \<noteq> dir d" "dir d \<noteq> - dir d"
  by (simp_all add: avl_child2balance_def)

lemma dir_cases: "b \<noteq> 0 \<Longrightarrow> - 1 \<le> b \<Longrightarrow> b \<le> 1 \<Longrightarrow> b = dir d \<or> b = - dir d"
  by (cases d) auto

lemma height_Node: "height (Node a b f) = Suc (max (height (f d)) (height (f (\<not> d))))"
  by (cases d) (simp_all add: max.commute)

lemma avl_Node:
  "avl (Node a b f) \<longleftrightarrow> b = dir d * (int (height (f d)) - int (height (f (\<not> d)))) \<and> - 1 \<le> b \<and> b \<le> 1 \<and> avl (f d) \<and> avl (f (\<not> d))"
  by (cases d) auto

lemma height_Tip: "height t = 0 \<longleftrightarrow> t = Tip"
  by (cases t) auto

section \<open>Rotation\<close>

text \<open>The subtree of node \<open>a\<close> in direction \<open>d\<close> is too high; the first component says that the result is lower than before.\<close>

definition rot :: "bool \<Rightarrow> addr \<Rightarrow> (bool \<Rightarrow> atree) \<Rightarrow> bool \<times> atree" where
  "rot d a f =
     (case f d of
        Tip \<Rightarrow> (False, Node a 0 f)
      | Node c cb g \<Rightarrow>
          if cb \<noteq> - dir d
          then (cb - dir d = 0, Node c (cb - dir d) (g(\<not> d := Node a (- (cb - dir d)) (f(d := g (\<not> d))))))
          else
            (case g (\<not> d) of
               Tip \<Rightarrow> (False, Node a 0 f)
             | Node e eb k \<Rightarrow>
                 (True, Node e 0 ((\<lambda>_. Node a (if eb = dir d then - dir d else 0) (f(d := k (\<not> d))))
                    (d := Node c (if eb = - dir d then dir d else 0) (g(\<not> d := k d)))))))"

lemma inorder_rot: "inorder (snd (rot d a f)) = inorder (f False) @ a # inorder (f True)"
  by (cases d) (auto simp: rot_def split: atree.splits)

lemma avl_rot:
  assumes "avl (f d)" "avl (f (\<not> d))" "height (f d) = height (f (\<not> d)) + 2"
  shows "avl (snd (rot d a f))" "height (snd (rot d a f)) = height (f (\<not> d)) + (if fst (rot d a f) then 2 else 3)"
proof -
  obtain c cb g where f: "f d = Node c cb g" using assms(3) by (cases "f d") auto
  have g: "cb = dir d * (int (height (g d)) - int (height (g (\<not> d))))" "-1 \<le> cb" "cb \<le> 1" "avl (g d)" "avl (g (\<not> d))"
    "Suc (max (height (g d)) (height (g (\<not> d)))) = height (f (\<not> d)) + 2"
    using assms(1,3) unfolding f avl_Node [of _ _ _ d] height_Node [of _ _ _ d] by auto
  have "avl (snd (rot d a f)) \<and> height (snd (rot d a f)) = height (f (\<not> d)) + (if fst (rot d a f) then 2 else 3)"
  proof (cases "cb = - dir d")
    case False
    then have r: "rot d a f = (cb - dir d = 0, Node c (cb - dir d) (g(\<not> d := Node a (- (cb - dir d)) (f(d := g (\<not> d))))))"
      using f by (simp add: rot_def)
    show ?thesis using False g assms(2) unfolding r fst_conv snd_conv avl_Node [of _ _ _ d] height_Node [of _ _ _ d]
      by (cases d) (auto simp: max_def split: if_splits)
  next
    case True
    then have "height (g (\<not> d)) = Suc (height (g d))" using g(1) by (cases d) auto
    then obtain e eb k where e: "g (\<not> d) = Node e eb k" by (cases "g (\<not> d)") auto
    have k: "eb = dir d * (int (height (k d)) - int (height (k (\<not> d))))" "-1 \<le> eb" "eb \<le> 1" "avl (k d)" "avl (k (\<not> d))"
      "Suc (max (height (k d)) (height (k (\<not> d)))) = Suc (height (g d))"
      using g(5) \<open>height (g (\<not> d)) = Suc (height (g d))\<close> unfolding e avl_Node [of _ _ _ d] height_Node [of _ _ _ d] by auto
    have r: "rot d a f = (True, Node e 0 ((\<lambda>_. Node a (if eb = dir d then - dir d else 0) (f(d := k (\<not> d))))
        (d := Node c (if eb = - dir d then dir d else 0) (g(\<not> d := k d)))))"
      using f True e by (simp add: rot_def)
    have hs: "height (f (\<not> d)) = height (g d)" using g(6) \<open>height (g (\<not> d)) = Suc (height (g d))\<close> by simp
    show ?thesis using k g(4) assms(2) hs unfolding r fst_conv snd_conv avl_Node [of _ _ _ d] height_Node [of _ _ _ d]
      by (cases d) (auto simp: max_def split: if_splits)
  qed
  then show "avl (snd (rot d a f))" "height (snd (rot d a f)) = height (f (\<not> d)) + (if fst (rot d a f) then 2 else 3)" by auto
qed

text \<open>After an insertion the subtree that is too high is not balanced itself, and the rotation makes it lower.\<close>

lemma rot_lower: "f d = Node c cb g \<Longrightarrow> cb \<noteq> 0 \<Longrightarrow> -1 \<le> cb \<Longrightarrow> cb \<le> 1 \<Longrightarrow> avl (f d) \<Longrightarrow> fst (rot d a f)"
  using dir_cases [of cb d] by (cases d) (auto simp: rot_def split: atree.splits)

section \<open>Places in a tree\<close>

type_synonym frame = "bool \<times> addr \<times> int \<times> atree"

fun plug :: "frame list \<Rightarrow> atree \<Rightarrow> atree" where
  "plug [] t = t"
| "plug ((d, a, b, s) # fs) t = plug fs (Node a b ((\<lambda>_. s)(d := t)))"

fun before :: "frame list \<Rightarrow> addr list" where
  "before [] = []"
| "before ((d, a, b, s) # fs) = before fs @ (if d then inorder s @ [a] else [])"

fun after :: "frame list \<Rightarrow> addr list" where
  "after [] = []"
| "after ((d, a, b, s) # fs) = (if d then [] else a # inorder s) @ after fs"

lemma inorder_plug: "inorder (plug fs t) = before fs @ inorder t @ after fs"
  by (induction fs t rule: plug.induct) auto

text \<open>The balance of the nodes above a place with a subtree of height \<open>n\<close>.\<close>

fun avl_above :: "frame list \<Rightarrow> nat \<Rightarrow> bool" where
  "avl_above [] n = True"
| "avl_above ((d, a, b, s) # fs) n \<longleftrightarrow>
     avl s \<and> b = dir d * (int n - int (height s)) \<and> - 1 \<le> b \<and> b \<le> 1 \<and> avl_above fs (Suc (max n (height s)))"

lemma avl_plug: "avl (plug fs t) \<longleftrightarrow> avl t \<and> avl_above fs (height t)"
proof (induction fs t rule: plug.induct)
  case (2 d a b s fs t)
  then show ?case unfolding plug.simps avl_above.simps avl_Node [of _ _ _ d] height_Node [of _ _ _ d] by auto
qed simp

text \<open>The way up after an insertion and after a removal.\<close>

fun grow :: "frame list \<Rightarrow> atree \<Rightarrow> atree" where
  "grow [] t = t"
| "grow ((d, a, b, s) # fs) t =
     (let f = (\<lambda>_. s)(d := t)
      in if b + dir d = 0 then plug fs (Node a 0 f)
         else if b \<noteq> 0 then plug fs (snd (rot d a f))
         else grow fs (Node a (b + dir d) f))"

fun shrink :: "frame list \<Rightarrow> atree \<Rightarrow> atree" where
  "shrink [] t = t"
| "shrink ((d, a, b, s) # fs) t =
     (let f = (\<lambda>_. s)(d := t)
      in if b = 0 then plug fs (Node a (b - dir d) f)
         else if b - dir d = 0 then shrink fs (Node a 0 f)
         else if fst (rot (\<not> d) a f) then shrink fs (snd (rot (\<not> d) a f))
         else plug fs (snd (rot (\<not> d) a f)))"

lemma inorder_grow: "inorder (grow fs t) = before fs @ inorder t @ after fs"
  by (induction fs t rule: grow.induct) (auto simp: Let_def inorder_plug inorder_rot)

lemma inorder_shrink: "inorder (shrink fs t) = before fs @ inorder t @ after fs"
  by (induction fs t rule: shrink.induct) (auto simp: Let_def inorder_plug inorder_rot)

lemma avl_grow:
  assumes "avl_above fs n" "avl t" "height t = Suc n" "n = 0 \<or> (case t of Tip \<Rightarrow> False | Node a b f \<Rightarrow> b \<noteq> 0)"
  shows "avl (grow fs t)"
  using assms
proof (induction fs t arbitrary: n rule: grow.induct)
  case (2 d a b s fs t)
  let ?f = "(\<lambda>_. s)(d := t)"
  have s: "avl s" "b = dir d * (int n - int (height s))" "-1 \<le> b" "b \<le> 1" "avl_above fs (Suc (max n (height s)))" using "2.prems"(1) by auto
  consider (even) "b = - dir d" | (zero) "b = 0" | (high) "b = dir d" using dir_cases [of b d] s(3,4) by auto
  then show ?case
  proof cases
    case even
    then have "height s = Suc n" using s(2) by (cases d) auto
    then show ?thesis using even s "2.prems"(2,3) by (cases d) (auto simp: avl_plug max_def Let_def split: if_splits)
  next
    case zero
    then have h: "height s = n" using s(2) by (cases d) auto
    have "avl (grow fs (Node a (b + dir d) ?f))"
      by (rule "2.IH" [of ?f "Suc n"]) (use zero h s "2.prems"(2,3) in \<open>cases d; auto simp: max_def split: if_splits\<close>)+
    then show ?thesis using zero by (simp add: Let_def)
  next
    case high
    then have h: "n = Suc (height s)" using s(2) by (cases d) auto
    then obtain c cb g where t: "t = Node c cb g" "cb \<noteq> 0" using "2.prems"(4) by (auto split: atree.splits)
    have r: "avl (snd (rot d a ?f))" "fst (rot d a ?f)" "height (snd (rot d a ?f)) = height s + 2"
      using avl_rot [of ?f d a] rot_lower [of ?f d c cb g a] "2.prems"(2,3) s(1) h t by auto
    then show ?thesis using high h s(5) by (simp add: Let_def avl_plug)
  qed
qed simp

lemma avl_shrink:
  assumes "avl_above fs (Suc n)" "avl t" "height t = n"
  shows "avl (shrink fs t)"
  using assms
proof (induction fs t arbitrary: n rule: shrink.induct)
  case (2 d a b s fs t)
  let ?f = "(\<lambda>_. s)(d := t)"
  have s: "avl s" "b = dir d * (int (Suc n) - int (height s))" "-1 \<le> b" "b \<le> 1" "avl_above fs (Suc (max (Suc n) (height s)))"
    using "2.prems"(1) by auto
  consider (low) "b = - dir d" | (zero) "b = 0" | (high) "b = dir d" using dir_cases [of b d] s(3,4) by auto
  then show ?case
  proof cases
    case zero
    then have "height s = Suc n" using s(2) by (cases d) auto
    then show ?thesis using zero s "2.prems"(2,3) by (cases d) (auto simp: avl_plug max_def Let_def split: if_splits)
  next
    case high
    then have h: "height s = n" using s(2) by (cases d) auto
    have "avl (shrink fs (Node a 0 ?f))"
      by (rule "2.IH"(1) [of ?f "Suc n"]) (use high h s "2.prems"(2,3) in \<open>cases d; auto simp: max_def split: if_splits\<close>)+
    then show ?thesis using high by (simp add: Let_def)
  next
    case low
    then have h: "height s = Suc (Suc n)" using s(2) by (cases d) auto
    have r: "avl (snd (rot (\<not> d) a ?f))" "height (snd (rot (\<not> d) a ?f)) = n + (if fst (rot (\<not> d) a ?f) then 2 else 3)"
      using avl_rot [of ?f "\<not> d" a] "2.prems"(2,3) s(1) h by auto
    have ne: "b \<noteq> 0" "b - dir d \<noteq> 0" using low by (cases d; simp)+
    show ?thesis
    proof (cases "fst (rot (\<not> d) a ?f)")
      case True
      have "avl (shrink fs (snd (rot (\<not> d) a ?f)))"
        by (rule "2.IH"(2) [of ?f "n + 2"]) (use True ne r h s(5) in simp_all)
      then show ?thesis using True ne by (simp add: Let_def)
    next
      case False
      then show ?thesis using ne r h s(5) by (simp add: Let_def avl_plug eval_nat_numeral)
    qed
  qed
qed simp

end
