(* ===== verification/Acl_AvlHeap.thy ===== *)
theory Acl_AvlHeap
  imports Acl_AvlTree
begin

text \<open>
  Trees in the store: \<open>is_tree\<close> says that the nodes of a tree are linked as \<open>Acl_Avl\<close> links them, \<open>is_ctx\<close> says it of
  the nodes above a place. Every operation of the code that writes below, at or above a place is related here to the
  trees of \<open>Acl_AvlTree\<close>.
\<close>

named_theorems avl_ops

primrec root :: "atree \<Rightarrow> ptr" where
  "root Tip = None"
| "root (Node a b f) = Some a"

primrec is_tree :: "avl_heap \<Rightarrow> atree \<Rightarrow> ptr \<Rightarrow> bool \<Rightarrow> bool" where
  "is_tree h Tip = (\<lambda>p i. True)"
| "is_tree h (Node a b f) = (\<lambda>p i.
     (case h a of
        None \<Rightarrow> False
      | Some v \<Rightarrow> av_child v False = root (f False) \<and> av_child v True = root (f True) \<and> av_parent v = p \<and> av_index v = i \<and> av_balance v = b)
     \<and> is_tree h (f False) (Some a) False \<and> is_tree h (f True) (Some a) True)"

lemma is_tree_Node:
  "is_tree h (Node a b f) p i \<longleftrightarrow>
     (\<exists>v. h a = Some v \<and> av_child v d = root (f d) \<and> av_child v (\<not> d) = root (f (\<not> d)) \<and> av_parent v = p \<and> av_index v = i \<and> av_balance v = b)
     \<and> is_tree h (f d) (Some a) d \<and> is_tree h (f (\<not> d)) (Some a) (\<not> d)"
  by (cases d) (auto split: option.splits)

lemma root_None [simp]: "root t = None \<longleftrightarrow> t = Tip" "None = root t \<longleftrightarrow> t = Tip"
  by (cases t; simp)+

lemma root_in: "root t = Some a \<Longrightarrow> a \<in> set (inorder t)"
  by (cases t) auto

lemma is_tree_cong: "(\<And>a. a \<in> set (inorder t) \<Longrightarrow> h' a = h a) \<Longrightarrow> is_tree h' t p i = is_tree h t p i"
proof (induction t arbitrary: p i)
  case (Node a b f)
  have "is_tree h' (f d) (Some a) d = is_tree h (f d) (Some a) d" for d
    by (rule Node.IH) (use Node.prems in \<open>cases d; auto\<close>)+
  moreover have "h' a = h a" using Node.prems by simp
  ultimately show ?case by simp
qed simp

lemma is_tree_upd [simp]: "a \<notin> set (inorder t) \<Longrightarrow> is_tree (h(a := x)) t p i = is_tree h t p i"
  by (rule is_tree_cong) auto

lemma is_tree_mapped: "is_tree h t p i \<Longrightarrow> a \<in> set (inorder t) \<Longrightarrow> \<exists>v. h a = Some v"
proof (induction t arbitrary: p i)
  case (Node c b f)
  have "\<exists>v. h a = Some v" if "a \<in> set (inorder (f d))" "is_tree h (f d) (Some c) d" for d by (rule Node.IH [OF rangeI that(2,1)])
  then show ?case using Node.prems by (auto split: option.splits)
qed simp

fun up_ptr :: "frame list \<Rightarrow> ptr" where
  "up_ptr [] = None"
| "up_ptr ((d, a, b, s) # fs) = Some a"

fun up_dir :: "frame list \<Rightarrow> bool" where
  "up_dir [] = False"
| "up_dir ((d, a, b, s) # fs) = d"

fun is_ctx :: "avl_heap \<Rightarrow> avl_tree \<Rightarrow> ptr \<Rightarrow> frame list \<Rightarrow> bool" where
  "is_ctx h t c [] \<longleftrightarrow> at_root t = c"
| "is_ctx h t c ((d, a, b, s) # fs) \<longleftrightarrow>
     (case h a of
        None \<Rightarrow> False
      | Some v \<Rightarrow> av_child v d = c \<and> av_child v (\<not> d) = root s \<and> av_parent v = up_ptr fs \<and> av_index v = up_dir fs \<and> av_balance v = b)
     \<and> is_tree h s (Some a) (\<not> d) \<and> is_ctx h t (Some a) fs"

abbreviation around :: "frame list \<Rightarrow> addr list" where
  "around fs \<equiv> before fs @ after fs"

lemma is_ctx_cong:
  "(\<And>a. a \<in> set (around fs) \<Longrightarrow> h' a = h a) \<Longrightarrow> at_root t' = at_root t \<Longrightarrow> is_ctx h' t' c fs = is_ctx h t c fs"
proof (induction h t c fs rule: is_ctx.induct)
  case (2 h t c d a b s fs)
  have "is_ctx h' t' (Some a) fs = is_ctx h t (Some a) fs" by (rule "2.IH") (use "2.prems" in auto)
  moreover have "is_tree h' s (Some a) (\<not> d) = is_tree h s (Some a) (\<not> d)" by (rule is_tree_cong) (use "2.prems"(1) in \<open>cases d; auto\<close>)
  moreover have "h' a = h a" using "2.prems"(1) by (cases d) auto
  ultimately show ?case by simp
qed simp

lemma is_ctx_upd [simp]: "a \<notin> set (around fs) \<Longrightarrow> is_ctx (h(a := x)) t c fs = is_ctx h t c fs"
  by (rule is_ctx_cong) auto

lemma is_ctx_num [simp]: "is_ctx h (t\<lparr>at_num := n\<rparr>) c fs = is_ctx h t c fs"
  by (rule is_ctx_cong) auto

lemma is_ctx_mapped: "is_ctx h t c fs \<Longrightarrow> a \<in> set (around fs) \<Longrightarrow> \<exists>v. h a = Some v"
proof (induction h t c fs rule: is_ctx.induct)
  case (2 h t c d a' b s fs)
  then show ?case using is_tree_mapped [of h s "Some a'" "\<not> d" a] by (auto split: option.splits if_splits)
qed simp

text \<open>A tree in the store is a place in it together with the subtree there.\<close>

definition tree_at :: "avl_heap \<Rightarrow> avl_tree \<Rightarrow> frame list \<Rightarrow> atree \<Rightarrow> bool" where
  "tree_at h t fs T \<longleftrightarrow> is_ctx h t (root T) fs \<and> is_tree h T (up_ptr fs) (up_dir fs) \<and> distinct (before fs @ inorder T @ after fs)"

lemma tree_at_plug: "tree_at h t [] (plug fs T) \<longleftrightarrow> tree_at h t fs T"
proof (induction fs T rule: plug.induct)
  case (2 d a b s fs T)
  have "tree_at h t fs (Node a b ((\<lambda>_. s)(d := T))) \<longleftrightarrow> tree_at h t ((d, a, b, s) # fs) T"
    by (cases d) (auto simp: tree_at_def split: option.splits)
  then show ?case using "2.IH" by simp
qed simp

lemma tree_at_cong:
  "(\<And>a. a \<in> set (around fs @ inorder T) \<Longrightarrow> h' a = h a) \<Longrightarrow> at_root t' = at_root t \<Longrightarrow> tree_at h' t' fs T = tree_at h t fs T"
  using is_ctx_cong [of fs h' h t' t "root T"] is_tree_cong [of T h' h "up_ptr fs" "up_dir fs"] by (auto simp: tree_at_def)

lemma tree_at_upd: "x \<notin> set (around fs @ inorder T) \<Longrightarrow> tree_at (h(x := y)) t fs T = tree_at h t fs T"
  by (rule tree_at_cong) auto

section \<open>Single writes\<close>

lemma avl_read_Some [simp]: "h a = Some v \<Longrightarrow> avl_read h (Some a) = Inr v"
  by (simp add: avl_read_def)

lemma avl_write_Some [simp]: "h a = Some v \<Longrightarrow> avl_write h (Some a) u = Inr (h(a \<mapsto> u v))"
  by (simp add: avl_write_def)

definition reparent :: "avl_heap \<Rightarrow> atree \<Rightarrow> ptr \<Rightarrow> bool \<Rightarrow> avl_heap" where
  "reparent h T p i = (case root T of None \<Rightarrow> h | Some a \<Rightarrow> h(a := map_option (\<lambda>v. v\<lparr>av_parent := p, av_index := i\<rparr>) (h a)))"

lemma adopt_reparent: "is_tree h T q j \<Longrightarrow> adopt h (root T) p i = Inr (reparent h T p i)"
  by (cases T) (auto simp: adopt_def reparent_def AVL_SETPARENT_def AVL_SETCHILD_def split: option.splits)

lemma reparent_other [simp]: "a \<notin> set (inorder T) \<Longrightarrow> reparent h T p i a = h a"
  by (cases T) (auto simp: reparent_def)

lemma is_tree_reparent: "is_tree h T q j \<Longrightarrow> distinct (inorder T) \<Longrightarrow> is_tree (reparent h T p i) T p i"
  by (cases T) (auto simp: reparent_def split: option.splits)

lemma is_tree_reparent_other [simp]: "set (inorder S) \<inter> set (inorder T) = {} \<Longrightarrow> is_tree (reparent h T p i) S q j = is_tree h S q j"
  by (rule is_tree_cong) (auto intro!: reparent_other)

lemma is_ctx_reparent_other [simp]: "set (around fs) \<inter> set (inorder T) = {} \<Longrightarrow> is_ctx (reparent h T p i) t c fs = is_ctx h t c fs"
  by (rule is_ctx_cong) (auto intro!: reparent_other)

definition relink :: "avl_heap \<Rightarrow> frame list \<Rightarrow> ptr \<Rightarrow> avl_heap" where
  "relink h fs c = (case up_ptr fs of None \<Rightarrow> h | Some a \<Rightarrow> h(a := map_option (\<lambda>v. v\<lparr>av_child := (av_child v)(up_dir fs := c)\<rparr>) (h a)))"

definition reroot :: "avl_tree \<Rightarrow> frame list \<Rightarrow> ptr \<Rightarrow> avl_tree" where
  "reroot t fs c = (if fs = [] then t\<lparr>at_root := c\<rparr> else t)"

lemma up_ptr_None [simp]: "up_ptr fs = None \<longleftrightarrow> fs = []"
  by (cases fs rule: up_ptr.cases) auto

lemma up_ptr_in: "up_ptr fs = Some a \<Longrightarrow> a \<in> set (around fs)"
  by (cases fs rule: up_ptr.cases) (auto split: if_splits)

lemma set_link_relink: "is_ctx h t q fs \<Longrightarrow> set_link h t (up_ptr fs) (up_dir fs) c = Inr (relink h fs c, reroot t fs c)"
  by (cases fs rule: up_ptr.cases) (auto simp: set_link_def relink_def reroot_def set_child_def split: option.splits)

lemma relink_other [simp]: "a \<notin> set (around fs) \<Longrightarrow> relink h fs c a = h a"
  using up_ptr_in [of fs] by (auto simp: relink_def split: option.splits)

lemma is_tree_relink [simp]: "set (around fs) \<inter> set (inorder T) = {} \<Longrightarrow> is_tree (relink h fs c) T p i = is_tree h T p i"
  by (rule is_tree_cong) (auto intro!: relink_other)

lemma is_ctx_relink: "is_ctx h t q fs \<Longrightarrow> distinct (around fs) \<Longrightarrow> is_ctx (relink h fs c) (reroot t fs c) c fs"
proof (cases fs rule: up_ptr.cases)
  case (2 d a b s fs')
  moreover assume "is_ctx h t q fs" "distinct (around fs)"
  ultimately show ?thesis by (cases d) (auto simp: relink_def reroot_def split: option.splits)
qed (simp add: reroot_def)

lemma reroot_num [simp]: "at_num (reroot t fs c) = at_num t"
  by (simp add: reroot_def)

end
