(* ===== verification/Acl_AvlRot.thy ===== *)
theory Acl_AvlRot
  imports Acl_AvlHeap "HOL-Library.Multiset"
begin

lemmas avl_set_defs = AVL_SETPARENT_def AVL_SETCHILD_def AVL_SETBALANCE_def set_child_def

lemma dir_two [simp]: "(2 * dir d < 0) = (\<not> d)" "2 * dir d div 2 = dir d"
  by (cases d; simp)+

lemma is_tree_NodeI:
  assumes "h a = Some v" "av_child v d = root (f d)" "av_child v (\<not> d) = root (f (\<not> d))" "av_parent v = p" "av_index v = i" "av_balance v = b"
    "is_tree h (f d) (Some a) d" "is_tree h (f (\<not> d)) (Some a) (\<not> d)"
  shows "is_tree h (Node a b f) p i"
  using assms unfolding is_tree_Node [of _ _ _ _ _ _ d] by auto

lemma in_dir: "x \<in> set (inorder (f d)) \<Longrightarrow> x \<in> set (inorder (f False)) \<union> set (inorder (f True))"
  by (cases d) auto

lemma rotate_once:
  assumes "tree_at h t fs (Node a b f)" and f: "f d = Node c cb g" and cb: "cb \<noteq> - dir d"
  shows "\<exists>h' t'. avl_rotation h t (Some a) (2 * dir d) = Inr (fst (rot d a f), h', t') \<and> tree_at h' t' fs (snd (rot d a f))
    \<and> at_num t' = at_num t \<and> (\<forall>x. x \<notin> set (around fs @ inorder (Node a b f)) \<longrightarrow> h' x = h x)"
proof -
  obtain v where v: "h a = Some v" "av_child v d = root (f d)" "av_child v (\<not> d) = root (f (\<not> d))" "av_parent v = up_ptr fs"
    "av_index v = up_dir fs" "is_tree h (f d) (Some a) d" "is_tree h (f (\<not> d)) (Some a) (\<not> d)" "is_ctx h t (Some a) fs"
    using assms(1) unfolding tree_at_def is_tree_Node [of _ _ _ _ _ _ d] by auto
  obtain w where w: "h c = Some w" "av_child w d = root (g d)" "av_child w (\<not> d) = root (g (\<not> d))" "av_balance w = cb"
    "is_tree h (g d) (Some c) d" "is_tree h (g (\<not> d)) (Some c) (\<not> d)"
    using v(6) unfolding f is_tree_Node [of _ _ _ _ _ _ d] by auto
  have dist: "a \<noteq> c" "a \<notin> set (inorder (g e))" "c \<notin> set (inorder (g e))" "distinct (inorder (g e))" "a \<notin> set (inorder (f (\<not> d)))"
    "c \<notin> set (inorder (f (\<not> d)))" "a \<notin> set (around fs)" "c \<notin> set (around fs)" "set (around fs) \<inter> set (inorder (g e)) = {}"
    "set (around fs) \<inter> set (inorder (f (\<not> d))) = {}" "distinct (around fs)" "set (inorder (g d)) \<inter> set (inorder (g (\<not> d))) = {}"
    "set (inorder (f (\<not> d))) \<inter> set (inorder (g e)) = {}" for e
    using assms(1) f by (cases d; cases e; auto simp: tree_at_def)+
  define h2 where "h2 = reparent (h(a \<mapsto> v\<lparr>av_child := (av_child v)(d := root (g (\<not> d)))\<rparr>)) (g (\<not> d)) (Some a) d"
  have h2: "h2 a = Some (v\<lparr>av_child := (av_child v)(d := root (g (\<not> d)))\<rparr>)" "h2 c = Some w" using dist w(1) by (auto simp: h2_def)
  define h9 where "h9 = h2(a \<mapsto> v\<lparr>av_child := (av_child v)(d := root (g (\<not> d))), av_balance := - (cb - dir d), av_index := (\<not> d), av_parent := Some c\<rparr>,
    c \<mapsto> w\<lparr>av_child := (av_child w)((\<not> d) := Some a), av_balance := cb - dir d, av_index := up_dir fs, av_parent := up_ptr fs\<rparr>)"
  have h9: "h9 a = Some (v\<lparr>av_child := (av_child v)(d := root (g (\<not> d))), av_balance := - (cb - dir d), av_index := (\<not> d), av_parent := Some c\<rparr>)"
    "h9 c = Some (w\<lparr>av_child := (av_child w)((\<not> d) := Some a), av_balance := cb - dir d, av_index := up_dir fs, av_parent := up_ptr fs\<rparr>)"
    using dist(1) by (simp_all add: h9_def)
  have ctx: "is_ctx h9 t (Some a) fs" using v(8) dist by (simp add: h9_def h2_def)
  have ad: "adopt (h(a \<mapsto> v\<lparr>av_child := (av_child v)(d := root (g (\<not> d)))\<rparr>)) (root (g (\<not> d))) (Some a) d = Inr h2"
    unfolding h2_def by (rule adopt_reparent [of _ _ "Some c" "\<not> d"]) (use w(6) dist in simp)
  have run: "avl_rotation h t (Some a) (2 * dir d) = Inr (cb - dir d = 0, relink h9 fs (Some c), reroot t fs (Some c))"
    using ad h2 v w f cb set_link_relink [OF ctx, of "Some c"] dist(1)
    by (simp add: avl_rotation_def Let_def avl_set_defs h9_def fun_upd_twist)
  let ?N = "Node a (- (cb - dir d)) (f(d := g (\<not> d)))" and ?T = "snd (rot d a f)"
  have rot: "rot d a f = (cb - dir d = 0, Node c (cb - dir d) (g(\<not> d := ?N)))" using f cb by (simp add: rot_def)
  have order: "inorder ?T = inorder (Node a b f)" by (simp add: inorder_rot)
  have gd: "is_tree h9 (g d) (Some c) d" "is_tree h9 (f (\<not> d)) (Some a) (\<not> d)"
    using w(5) v(7) dist by (simp_all add: h9_def h2_def)
  have gn: "is_tree h9 (g (\<not> d)) (Some a) d"
    using is_tree_reparent [of "h(a \<mapsto> v\<lparr>av_child := (av_child v)(d := root (g (\<not> d)))\<rparr>)" "g (\<not> d)" "Some c" "\<not> d" "Some a" d] w(6) dist
    by (simp add: h9_def h2_def)
  have "is_tree h9 ?N (Some c) (\<not> d)" 
    by (rule is_tree_NodeI [where h = h9 and a = a and d = d, OF h9(1)]) (use gd gn v(3) in simp_all)
  then have "is_tree h9 ?T (up_ptr fs) (up_dir fs)"
    unfolding rot snd_conv by (intro is_tree_NodeI [where h = h9 and a = c and d = d, OF h9(2)]) (use gd w(2) in simp_all)
  moreover have "distinct (before fs @ inorder ?T @ after fs)" using assms(1) unfolding order by (simp add: tree_at_def)
  moreover have "is_ctx (relink h9 fs (Some c)) (reroot t fs (Some c)) (root ?T) fs" using is_ctx_relink [OF ctx dist(11)] rot by simp
  ultimately have "tree_at (relink h9 fs (Some c)) (reroot t fs (Some c)) fs ?T"
    unfolding tree_at_def by (subst is_tree_relink) auto
  moreover have "relink h9 fs (Some c) x = h x" if "x \<notin> set (around fs @ inorder (Node a b f))" for x
    using that f by (cases d) (simp_all add: h9_def h2_def)
  ultimately show ?thesis using run rot by (intro exI [of _ "relink h9 fs (Some c)"] exI [of _ "reroot t fs (Some c)"]) simp
qed

lemma rotate_twice:
  assumes "tree_at h t fs (Node a b f)" and f: "f d = Node c (- dir d) g" and g: "g (\<not> d) = Node e eb k"
  shows "\<exists>h' t'. avl_rotation h t (Some a) (2 * dir d) = Inr (fst (rot d a f), h', t') \<and> tree_at h' t' fs (snd (rot d a f))
    \<and> at_num t' = at_num t \<and> (\<forall>x. x \<notin> set (around fs @ inorder (Node a b f)) \<longrightarrow> h' x = h x)"
proof -
  obtain v where v: "h a = Some v" "av_child v d = root (f d)" "av_child v (\<not> d) = root (f (\<not> d))" "av_parent v = up_ptr fs"
    "av_index v = up_dir fs" "is_tree h (f d) (Some a) d" "is_tree h (f (\<not> d)) (Some a) (\<not> d)" "is_ctx h t (Some a) fs"
    using assms(1) unfolding tree_at_def is_tree_Node [of _ _ _ _ _ _ d] by auto
  obtain w where w: "h c = Some w" "av_child w d = root (g d)" "av_child w (\<not> d) = root (g (\<not> d))" "av_balance w = - dir d"
    "is_tree h (g d) (Some c) d" "is_tree h (g (\<not> d)) (Some c) (\<not> d)"
    using v(6) unfolding f is_tree_Node [of _ _ _ _ _ _ d] by auto
  obtain u where u: "h e = Some u" "av_child u d = root (k d)" "av_child u (\<not> d) = root (k (\<not> d))" "av_balance u = eb"
    "is_tree h (k d) (Some e) d" "is_tree h (k (\<not> d)) (Some e) (\<not> d)"
    using w(6) unfolding g is_tree_Node [of _ _ _ _ _ _ d] by auto
  have "distinct (before fs @ inorder (Node a b f) @ after fs)" using assms(1) by (simp add: tree_at_def)
  then have parts: "distinct (around fs @ inorder (f (\<not> d)) @ inorder (g d) @ inorder (k d) @ inorder (k (\<not> d)) @ [a, c, e])"
    by (subst mset_eq_imp_distinct_iff [of _ "before fs @ inorder (Node a b f) @ after fs"]) (use f g in \<open>cases d; simp\<close>)
  have dist: "a \<noteq> c" "a \<noteq> e" "c \<noteq> e" "a \<notin> set (inorder (k i))" "c \<notin> set (inorder (k i))" "e \<notin> set (inorder (k i))"
    "a \<notin> set (inorder (g d))" "c \<notin> set (inorder (g d))" "e \<notin> set (inorder (g d))"
    "a \<notin> set (inorder (f (\<not> d)))" "c \<notin> set (inorder (f (\<not> d)))" "e \<notin> set (inorder (f (\<not> d)))"
    "a \<notin> set (around fs)" "c \<notin> set (around fs)" "e \<notin> set (around fs)"
    "set (around fs) \<inter> set (inorder (k i)) = {}" "distinct (inorder (k i))"
    "set (inorder (g d)) \<inter> set (inorder (k i)) = {}" "set (inorder (f (\<not> d))) \<inter> set (inorder (k i)) = {}"
    "set (inorder (k d)) \<inter> set (inorder (k (\<not> d))) = {}" "set (inorder (k (\<not> d))) \<inter> set (inorder (k d)) = {}" "distinct (around fs)" for i
    using parts by (cases "i = d"; simp add: disjoint_iff; blast?)+
  define v1 where "v1 = v\<lparr>av_child := (av_child v)(d := root (k (\<not> d)))\<rparr>"
  define w1 where "w1 = w\<lparr>av_child := (av_child w)((\<not> d) := root (k d))\<rparr>"
  define h2 where "h2 = reparent (h(a \<mapsto> v1)) (k (\<not> d)) (Some a) d"
  define h4 where "h4 = reparent (h2(c \<mapsto> w1)) (k d) (Some c) (\<not> d)"
  have h2: "h2 a = Some v1" "h2 c = Some w" "h2 e = Some u" using dist w(1) u(1) by (auto simp: h2_def)
  have h4: "h4 a = Some v1" "h4 c = Some w1" "h4 e = Some u" using dist h2 by (auto simp: h4_def)
  define bal where "bal = (if eb = - dir d then dir d else 0, if eb = dir d then - dir d else (0::int))"
  define h9 where "h9 = h4(c \<mapsto> w1\<lparr>av_balance := fst bal, av_parent := Some e, av_index := d\<rparr>,
    a \<mapsto> v1\<lparr>av_balance := snd bal, av_parent := Some e, av_index := (\<not> d)\<rparr>,
    e \<mapsto> u\<lparr>av_child := ((av_child u)(d := Some c))((\<not> d) := Some a), av_balance := 0, av_parent := up_ptr fs, av_index := up_dir fs\<rparr>)"
  have h9: "h9 a = Some (v1\<lparr>av_balance := snd bal, av_parent := Some e, av_index := (\<not> d)\<rparr>)"
    "h9 c = Some (w1\<lparr>av_balance := fst bal, av_parent := Some e, av_index := d\<rparr>)"
    "h9 e = Some (u\<lparr>av_child := ((av_child u)(d := Some c))((\<not> d) := Some a), av_balance := 0, av_parent := up_ptr fs, av_index := up_dir fs\<rparr>)"
    using dist by (simp_all add: h9_def)
  have ctx: "is_ctx h9 t (Some a) fs" using v(8) dist by (simp add: h9_def h4_def h2_def)
  have ad2: "adopt (h(a \<mapsto> v1)) (root (k (\<not> d))) (Some a) d = Inr h2"
    unfolding h2_def by (rule adopt_reparent [of _ _ "Some e" "\<not> d"]) (use u(6) dist in simp)
  have ad4: "adopt (h2(c \<mapsto> w1)) (root (k d)) (Some c) (\<not> d) = Inr h4"
    unfolding h4_def by (rule adopt_reparent [of _ _ "Some e" "d"]) (use u(5) dist in \<open>simp add: h2_def\<close>)
  have run: "avl_rotation h t (Some a) (2 * dir d) = Inr (True, relink h9 fs (Some e), reroot t fs (Some e))"
    using ad2 ad4 h2 h4 v w u f g set_link_relink [OF ctx, of "Some e"] dist(1-3)
    by (simp add: avl_rotation_def Let_def avl_set_defs h9_def fun_upd_twist v1_def [symmetric] w1_def [symmetric] bal_def)
  let ?A = "Node a (snd bal) (f(d := k (\<not> d)))" and ?C = "Node c (fst bal) (g(\<not> d := k d))" and ?T = "snd (rot d a f)"
  have rot: "rot d a f = (True, Node e 0 ((\<lambda>_. ?A)(d := ?C)))" using f g by (simp add: rot_def bal_def)
  have order: "inorder ?T = inorder (Node a b f)" by (simp add: inorder_rot)
  have gd: "is_tree h9 (g d) (Some c) d" "is_tree h9 (f (\<not> d)) (Some a) (\<not> d)"
    using w(5) v(7) dist by (simp_all add: h9_def h4_def h2_def)
  have "is_tree h2 (k (\<not> d)) (Some a) d"
    unfolding h2_def by (rule is_tree_reparent [of _ _ "Some e" "\<not> d"]) (use u(6) dist in simp_all)
  then have ka: "is_tree h9 (k (\<not> d)) (Some a) d" using dist by (simp add: h9_def h4_def)
  have "is_tree h4 (k d) (Some c) (\<not> d)"
    unfolding h4_def by (rule is_tree_reparent [of _ _ "Some e" "d"]) (use u(5) dist in \<open>simp_all add: h2_def\<close>)
  then have kc: "is_tree h9 (k d) (Some c) (\<not> d)" using dist by (simp add: h9_def)
  have A: "is_tree h9 ?A (Some e) (\<not> d)" by (rule is_tree_NodeI [where h = h9 and a = a and d = d, OF h9(1)]) (use gd ka v(3) in \<open>simp_all add: v1_def\<close>)
  have C: "is_tree h9 ?C (Some e) d" by (rule is_tree_NodeI [where h = h9 and a = c and d = d, OF h9(2)]) (use gd kc w(2) in \<open>simp_all add: w1_def\<close>)
  have "is_tree h9 ?T (up_ptr fs) (up_dir fs)"
    unfolding rot snd_conv by (intro is_tree_NodeI [where h = h9 and a = e and d = d, OF h9(3)]) (use A C in simp_all)
  moreover have "distinct (before fs @ inorder ?T @ after fs)" using assms(1) unfolding order by (simp add: tree_at_def)
  moreover have "is_ctx (relink h9 fs (Some e)) (reroot t fs (Some e)) (root ?T) fs" using is_ctx_relink [OF ctx dist(22)] rot by simp
  ultimately have "tree_at (relink h9 fs (Some e)) (reroot t fs (Some e)) fs ?T"
    unfolding tree_at_def by (subst is_tree_relink) auto
  moreover have "relink h9 fs (Some e) x = h x" if "x \<notin> set (around fs @ inorder (Node a b f))" for x
    using that f g by (cases d) (simp_all add: h9_def h4_def h2_def)
  ultimately show ?thesis using run rot by (intro exI [of _ "relink h9 fs (Some e)"] exI [of _ "reroot t fs (Some e)"]) simp
qed

lemma avl_rotation_refines:
  assumes "tree_at h t fs (Node a b f)" "avl (f d)" "height (f d) = height (f (\<not> d)) + 2"
  shows "\<exists>h' t'. avl_rotation h t (Some a) (2 * dir d) = Inr (fst (rot d a f), h', t') \<and> tree_at h' t' fs (snd (rot d a f))
    \<and> at_num t' = at_num t \<and> (\<forall>x. x \<notin> set (around fs @ inorder (Node a b f)) \<longrightarrow> h' x = h x)"
proof -
  obtain c cb g where f: "f d = Node c cb g" using assms(3) by (cases "f d") auto
  show ?thesis
  proof (cases "cb = - dir d")
    case True
    then have "g (\<not> d) \<noteq> Tip" using assms(2) unfolding f avl_Node [of _ _ _ d] by (cases d) auto
    then obtain e eb k where "g (\<not> d) = Node e eb k" by (cases "g (\<not> d)") auto
    then show ?thesis using rotate_twice [OF assms(1)] f True by simp
  next
    case False
    then show ?thesis by (rule rotate_once [OF assms(1) f])
  qed
qed

end
