(* ===== verification/Acl_AvlOps.thy ===== *)
theory Acl_AvlOps
  imports Acl_AvlRot
begin

text \<open>The loops that restore the balance after an insertion and after a removal, and the two operations.\<close>

lemma tree_at_read:
  assumes "tree_at h t fs (Node a b f)"
  obtains v where "h a = Some v" "av_child v False = root (f False)" "av_child v True = root (f True)" "av_parent v = up_ptr fs"
    "av_index v = up_dir fs" "av_balance v = b"
  using assms by (auto simp: tree_at_def split: option.splits)

lemma tree_at_balance:
  assumes "tree_at h t fs (Node a b f)" "h a = Some v"
  shows "tree_at (h(a \<mapsto> v\<lparr>av_balance := b'\<rparr>)) t fs (Node a b' f)"
  using assms by (auto simp: tree_at_def split: option.splits)

lemma tree_at_frame: "tree_at h t fs (Node a b ((\<lambda>_. s)(d := T))) \<longleftrightarrow> tree_at h t ((d, a, b, s) # fs) T"
  using tree_at_plug [of h t fs "Node a b ((\<lambda>_. s)(d := T))"] tree_at_plug [of h t "(d, a, b, s) # fs" T] by simp

lemma set_frame: "set (around fs @ inorder (Node a b ((\<lambda>_. s)(d := T)))) = set (around ((d, a, b, s) # fs) @ inorder T)"
  by (cases d) auto

lemma avl_frame:
  assumes "avl_above ((d, a, b, s) # fs) n" "avl T" "height T = Suc n"
  shows "b = - dir d \<Longrightarrow> height s = Suc n" "b = 0 \<Longrightarrow> height s = n" "b = dir d \<Longrightarrow> n = Suc (height s)"
    "b = - dir d \<or> b = 0 \<or> b = dir d"
  using assms dir_cases [of b d] by (cases d; auto)+

lemma insert_loop_refines:
  assumes "tree_at h t fs T" "avl_above fs n" "avl T" "height T = Suc n" "n = 0 \<or> (case T of Tip \<Rightarrow> False | Node a b f \<Rightarrow> b \<noteq> 0)"
    "length fs \<le> k"
  shows "\<exists>h' t'. insert_loop k h t (up_ptr fs) (up_dir fs) = Inr (h', t') \<and> tree_at h' t' [] (grow fs T) \<and> at_num t' = at_num t
    \<and> (\<forall>x. x \<notin> set (around fs @ inorder T) \<longrightarrow> h' x = h x)"
  using assms
proof (induction fs T arbitrary: k n h t rule: grow.induct)
  case (1 T)
  then show ?case by (cases k) auto
next
  case (2 d a b s fs T)
  let ?f = "(\<lambda>_. s)(d := T)"
  obtain k' where k: "k = Suc k'" "length fs \<le> k'" using "2.prems"(6) by (cases k) auto
  have at: "tree_at h t fs (Node a b ?f)" using "2.prems"(1) by (simp add: tree_at_frame)
  obtain v where v: "h a = Some v" "av_parent v = up_ptr fs" "av_index v = up_dir fs" "av_balance v = b" by (rule tree_at_read [OF at])
  note frame = avl_frame [OF "2.prems"(2-4)]
  have same: "a \<in> set (around ((d, a, b, s) # fs) @ inorder T)" by (cases d) auto
  have low: "avl s" "avl_above fs (Suc (max n (height s)))" using "2.prems"(2) by auto
  consider (even) "b = - dir d" | (zero) "b = 0" | (high) "b = dir d" using frame(4) by auto
  then show ?case
  proof cases
    case even
    have "tree_at (h(a \<mapsto> v\<lparr>av_balance := 0\<rparr>)) t [] (plug fs (Node a 0 ?f))" using tree_at_balance [OF at v(1)] by (simp add: tree_at_plug)
    then show ?thesis using even k v same by (auto simp: AVL_SETBALANCE_def Let_def)
  next
    case zero
    let ?h = "h(a \<mapsto> v\<lparr>av_balance := dir d\<rparr>)"
    have hs: "height s = n" using zero frame(2) by simp
    have T: "avl (Node a (b + dir d) ?f)" "height (Node a (b + dir d) ?f) = Suc (Suc n)"
      unfolding avl_Node [of _ _ _ d] height_Node [of _ _ _ d] using zero hs low(1) "2.prems"(3,4) by (cases d; simp)+
    have at': "tree_at ?h t fs (Node a (b + dir d) ?f)" using tree_at_balance [OF at v(1), of "dir d"] zero by simp
    have "\<exists>h' t'. insert_loop k' ?h t (up_ptr fs) (up_dir fs) = Inr (h', t') \<and> tree_at h' t' [] (grow fs (Node a (b + dir d) ?f)) \<and> at_num t' = at_num t
      \<and> (\<forall>x. x \<notin> set (around fs @ inorder (Node a (b + dir d) ?f)) \<longrightarrow> h' x = ?h x)"
      by (rule "2.IH" [OF refl _ _ at' _ T]) (use zero hs low(2) k(2) in simp_all)
    then show ?thesis unfolding set_frame using zero k v same by (force simp: AVL_SETBALANCE_def Let_def)
  next
    case high
    have "\<exists>h' t'. avl_rotation h t (Some a) (2 * dir d) = Inr (fst (rot d a ?f), h', t') \<and> tree_at h' t' fs (snd (rot d a ?f))
      \<and> at_num t' = at_num t \<and> (\<forall>x. x \<notin> set (around fs @ inorder (Node a b ?f)) \<longrightarrow> h' x = h x)"
      by (rule avl_rotation_refines [OF at]) (use high frame(3) "2.prems"(3,4) in simp_all)
    moreover have "b + dir d = 2 * dir d" using high by simp
    ultimately show ?thesis unfolding set_frame using high k v by (auto simp: Let_def tree_at_plug)
  qed
qed

lemma tree_at_replace:
  assumes "is_ctx h t c fs" "is_tree h T (up_ptr fs) (up_dir fs)" "distinct (before fs @ inorder T @ after fs)"
  shows "tree_at (relink h fs (root T)) (reroot t fs (root T)) fs T"
proof -
  have "is_ctx (relink h fs (root T)) (reroot t fs (root T)) (root T) fs" by (rule is_ctx_relink [OF assms(1)]) (use assms(3) in auto)
  moreover have "is_tree (relink h fs (root T)) T (up_ptr fs) (up_dir fs)" using assms(2,3) by (subst is_tree_relink) auto
  ultimately show ?thesis using assms(3) by (simp add: tree_at_def)
qed

lemma length_around: "length fs \<le> length (around fs)"
  by (induction fs rule: before.induct) auto

lemma avl_insert_refines:
  assumes "tree_at h t fs Tip" "avl_above fs 0" "at_num t = length (around fs)" "h a = Some v" "a \<notin> set (around fs)"
  shows "\<exists>h' t'. avl_insert h t (Some a) (up_ptr fs, up_dir fs) = Inr (h', t') \<and> tree_at h' t' [] (grow fs (Node a 0 (\<lambda>_. Tip)))
    \<and> at_num t' = Suc (at_num t) \<and> (\<forall>x. x \<notin> set (around fs) \<longrightarrow> x \<noteq> a \<longrightarrow> h' x = h x)"
proof -
  let ?N = "Node a 0 (\<lambda>_. Tip)" and ?t = "t\<lparr>at_num := Suc (at_num t)\<rparr>"
  define h5 where "h5 = h(a \<mapsto> v\<lparr>av_child := ((av_child v)(False := None))(True := None), av_index := up_dir fs, av_balance := 0, av_parent := up_ptr fs\<rparr>)"
  have ctx: "is_ctx h5 ?t None fs" using assms(1,5) by (simp add: tree_at_def h5_def)
  have old: "fs = [] \<and> at_root t = None \<or> fs \<noteq> [] \<and> (\<exists>x. avl_read h5 (up_ptr fs) = Inr x \<and> av_child x (up_dir fs) = None)"
    using ctx by (cases fs rule: up_ptr.cases) (auto split: option.splits)
  have "tree_at (relink h5 fs (root ?N)) (reroot ?t fs (root ?N)) fs ?N"
    by (rule tree_at_replace [OF ctx]) (use assms(1,5) in \<open>simp_all add: h5_def tree_at_def\<close>)
  from insert_loop_refines [OF this assms(2), of "Suc (at_num t)"] length_around [of fs] assms(3)
  obtain h' t' where ins: "insert_loop (Suc (at_num t)) (relink h5 fs (Some a)) (reroot ?t fs (Some a)) (up_ptr fs) (up_dir fs) = Inr (h', t')"
    "tree_at h' t' [] (grow fs ?N)" "at_num t' = Suc (at_num t)" "\<And>x. x \<notin> set (around fs @ inorder ?N) \<Longrightarrow> h' x = relink h5 fs (Some a) x"
    by auto
  have "avl_insert h t (Some a) (up_ptr fs, up_dir fs) = Inr (h', t')"
    using ins(1) old set_link_relink [OF ctx, of "Some a"] assms(4) unfolding avl_insert_def h5_def
    by (auto simp: Let_def avl_set_defs simp del: insert_loop.simps)
  then show ?thesis using ins by (intro exI [of _ h'] exI [of _ t']) (simp add: h5_def)
qed

section \<open>Removing\<close>

lemma avl_frame_low:
  assumes "avl_above ((d, a, b, s) # fs) (Suc n)" "avl T" "height T = n"
  shows "b = - dir d \<Longrightarrow> height s = Suc (Suc n)" "b = 0 \<Longrightarrow> height s = Suc n" "b = dir d \<Longrightarrow> height s = n"
    "b = - dir d \<or> b = 0 \<or> b = dir d"
  using assms dir_cases [of b d] by (cases d; auto)+

lemma remove_loop_refines:
  assumes "tree_at h t fs T" "avl_above fs (Suc n)" "avl T" "height T = n" "fs \<noteq> []" "length fs \<le> k"
  shows "\<exists>h' t'. remove_loop k h t (up_ptr fs) (up_dir fs) = Inr (h', t') \<and> tree_at h' t' [] (shrink fs T) \<and> at_num t' = at_num t
    \<and> (\<forall>x. x \<notin> set (around fs @ inorder T) \<longrightarrow> h' x = h x)"
  using assms
proof (induction fs T arbitrary: k n h t rule: shrink.induct)
  case (2 d a b s fs T)
  let ?f = "(\<lambda>_. s)(d := T)"
  obtain k' where k: "k = Suc k'" "length fs \<le> k'" using "2.prems"(6) by (cases k) auto
  have at: "tree_at h t fs (Node a b ?f)" using "2.prems"(1) by (simp add: tree_at_frame)
  obtain v where v: "h a = Some v" "av_parent v = up_ptr fs" "av_index v = up_dir fs" "av_balance v = b" by (rule tree_at_read [OF at])
  note frame = avl_frame_low [OF "2.prems"(2-4)]
  have same: "a \<in> set (around ((d, a, b, s) # fs) @ inorder T)" by (cases d) auto
  have sub: "avl s" and above: "avl_above fs (Suc (max (Suc n) (height s)))" using "2.prems"(2) by auto
  consider (low) "b = - dir d" | (zero) "b = 0" | (high) "b = dir d" using frame(4) by auto
  then show ?case
  proof cases
    case zero
    have "tree_at (h(a \<mapsto> v\<lparr>av_balance := - dir d\<rparr>)) t [] (plug fs (Node a (- dir d) ?f))" using tree_at_balance [OF at v(1)] by (simp add: tree_at_plug)
    then show ?thesis using zero k v same by (auto simp: AVL_SETBALANCE_def Let_def)
  next
    case high
    let ?h = "h(a \<mapsto> v\<lparr>av_balance := 0\<rparr>)"
    have hs: "height s = n" using high frame(3) by simp
    have T: "avl (Node a 0 ?f)" "height (Node a 0 ?f) = Suc n"
      unfolding avl_Node [of _ _ _ d] height_Node [of _ _ _ d] using hs sub "2.prems"(3,4) by (cases d; simp)+
    have at': "tree_at ?h t fs (Node a 0 ?f)" by (rule tree_at_balance [OF at v(1)])
    show ?thesis
    proof (cases "fs = []")
      case True
      then show ?thesis using high k v same at' by (auto simp: AVL_SETBALANCE_def Let_def)
    next
      case False
      have "\<exists>h' t'. remove_loop k' ?h t (up_ptr fs) (up_dir fs) = Inr (h', t') \<and> tree_at h' t' [] (shrink fs (Node a 0 ?f)) \<and> at_num t' = at_num t
        \<and> (\<forall>x. x \<notin> set (around fs @ inorder (Node a 0 ?f)) \<longrightarrow> h' x = ?h x)"
        by (rule "2.IH"(1) [OF refl _ _ at' _ T]) (use high hs above k(2) False in simp_all)
      then show ?thesis unfolding set_frame using high k v same False by (force simp: AVL_SETBALANCE_def Let_def)
    qed
  next
    case low
    have "\<exists>h' t'. avl_rotation h t (Some a) (2 * dir (\<not> d)) = Inr (fst (rot (\<not> d) a ?f), h', t') \<and> tree_at h' t' fs (snd (rot (\<not> d) a ?f))
      \<and> at_num t' = at_num t \<and> (\<forall>x. x \<notin> set (around fs @ inorder (Node a b ?f)) \<longrightarrow> h' x = h x)"
      by (rule avl_rotation_refines [OF at]) (use low frame(1) "2.prems"(3,4) sub in simp_all)
    moreover have bal: "b - dir d = 2 * dir (\<not> d)" "b \<noteq> 0" using low by simp_all
    ultimately obtain h1 t1 where r: "avl_rotation h t (Some a) (b - dir d) = Inr (fst (rot (\<not> d) a ?f), h1, t1)" "tree_at h1 t1 fs (snd (rot (\<not> d) a ?f))"
      "at_num t1 = at_num t" "\<And>x. x \<notin> set (around ((d, a, b, s) # fs) @ inorder T) \<Longrightarrow> h1 x = h x"
      unfolding set_frame by auto
    have A: "avl (snd (rot (\<not> d) a ?f))" "height (snd (rot (\<not> d) a ?f)) = n + (if fst (rot (\<not> d) a ?f) then 2 else 3)"
      using avl_rot [of ?f "\<not> d" a] "2.prems"(3,4) sub frame(1) [OF low] by auto
    have ne: "b - dir d \<noteq> 0" using bal by simp
    have run: "remove_loop k h t (Some a) d = (if fst (rot (\<not> d) a ?f) \<and> fs \<noteq> [] then remove_loop k' h1 t1 (up_ptr fs) (up_dir fs) else Inr (h1, t1))"
      using r(1) v k(1) ne bal(2) by (simp add: Let_def)
    have shr: "shrink ((d, a, b, s) # fs) T = (if fst (rot (\<not> d) a ?f) then shrink fs (snd (rot (\<not> d) a ?f)) else plug fs (snd (rot (\<not> d) a ?f)))"
      using ne bal(2) by (simp add: Let_def)
    have order: "set (inorder (snd (rot (\<not> d) a ?f))) = set (inorder (Node a b ?f))" by (simp add: inorder_rot)
    show ?thesis
    proof (cases "fst (rot (\<not> d) a ?f) \<and> fs \<noteq> []")
      case False
      then show ?thesis using r(2-4) unfolding up_ptr.simps up_dir.simps run shr by (auto simp: tree_at_plug)
    next
      case True
      have "\<exists>h' t'. remove_loop k' h1 t1 (up_ptr fs) (up_dir fs) = Inr (h', t') \<and> tree_at h' t' [] (shrink fs (snd (rot (\<not> d) a ?f)))
        \<and> at_num t' = at_num t1 \<and> (\<forall>x. x \<notin> set (around fs @ inorder (snd (rot (\<not> d) a ?f))) \<longrightarrow> h' x = h1 x)"
        by (rule "2.IH"(2) [OF refl _ _ _ r(2) _ A(1), of "n + 2"]) (use True bal ne A(2) above frame(1) [OF low] k(2) in simp_all)
      moreover have whole: "set (around fs @ inorder (snd (rot (\<not> d) a ?f))) = set (around ((d, a, b, s) # fs) @ inorder T)"
        unfolding set_append order using set_frame [of fs a b s d T] by auto
      ultimately obtain h' t' where "remove_loop k' h1 t1 (up_ptr fs) (up_dir fs) = Inr (h', t')" "tree_at h' t' [] (shrink fs (snd (rot (\<not> d) a ?f)))"
        "at_num t' = at_num t1" "\<And>x. x \<notin> set (around ((d, a, b, s) # fs) @ inorder T) \<Longrightarrow> h' x = h1 x"
        unfolding whole by auto
      then show ?thesis using r(3,4) True unfolding up_ptr.simps up_dir.simps run shr by (intro exI [of _ h'] exI [of _ t']) simp
    qed
  qed
qed simp

end
