(* ===== verification/Acl_AvlSwap.thy ===== *)
theory Acl_AvlSwap
  imports Acl_AvlOps
begin

text \<open>Removing a node with two children: its neighbour in the higher subtree takes its place.\<close>

lemma fun_dir [simp]: "(\<lambda>_. f (\<not> r))(r := f r) = f"
proof (rule ext)
  show "((\<lambda>_. f (\<not> r))(r := f r)) x = f x" for x by (cases x; cases r) simp_all
qed

text \<open>The last node in direction \<open>r\<close> of a subtree: its place is reached by going in that direction only.\<close>

lemma walk_down_edge:
  assumes "is_tree h S p i" "S \<noteq> Tip" "length (inorder S) \<le> m"
  shows "\<exists>gs n nb k. plug gs (Node n nb k) = S \<and> k r = Tip \<and> (\<forall>g \<in> set gs. fst g = r) \<and> walk_down m h (root S) r = Inr (Some n)"
  using assms
proof (induction S arbitrary: p i m)
  case (Node a b f)
  obtain m' where m: "m = Suc m'" "length (inorder (f r)) \<le> m'" using Node.prems(3) by (cases m; cases r) auto
  obtain v where v: "h a = Some v" "av_child v r = root (f r)" "is_tree h (f r) (Some a) r"
    using Node.prems(1) unfolding is_tree_Node [of _ _ _ _ _ _ r] by auto
  show ?case
  proof (cases "f r = Tip")
    case True
    then show ?thesis using m v by (intro exI [of _ "[]"] exI [of _ a] exI [of _ b] exI [of _ f]) auto
  next
    case False
    obtain gs n nb k where g: "plug gs (Node n nb k) = f r" "k r = Tip" "\<forall>g \<in> set gs. fst g = r" "walk_down m' h (root (f r)) r = Inr (Some n)"
      using Node.IH [OF rangeI v(3) False m(2)] by auto
    have "plug (gs @ [(r, a, b, f (\<not> r))]) X = Node a b ((\<lambda>_. f (\<not> r))(r := plug gs X))" for X
      by (induction gs X rule: plug.induct) auto
    then have "plug (gs @ [(r, a, b, f (\<not> r))]) (Node n nb k) = Node a b f" using g(1) by simp
    then show ?thesis using g(2-4) m(1) v False by (intro exI [of _ "gs @ [(r, a, b, f (\<not> r))]"] exI [of _ n] exI [of _ nb] exI [of _ k]) auto
  qed
qed simp

lemma plug_append: "plug (gs @ fs) T = plug fs (plug gs T)"
  by (induction gs T rule: plug.induct) auto

lemma before_append [simp]: "before (gs @ fs) = before fs @ before gs"
  by (induction gs rule: before.induct) auto

lemma after_append [simp]: "after (gs @ fs) = after gs @ after fs"
  by (induction gs rule: after.induct) auto

lemma root_plug: "gs \<noteq> [] \<Longrightarrow> root (plug gs X) = root (plug gs Y)"
proof (induction gs X arbitrary: Y rule: plug.induct)
  case (2 d a b s fs t)
  then show ?case by (cases fs) auto
qed simp

lemma reparent_apply: "reparent h T p i x = (if root T = Some x then map_option (\<lambda>v. v\<lparr>av_parent := p, av_index := i\<rparr>) (h x) else h x)"
  by (cases T) (auto simp: reparent_def)

lemma relink_apply:
  "relink h fs c x = (if up_ptr fs = Some x then map_option (\<lambda>v. v\<lparr>av_child := (av_child v)(up_dir fs := c)\<rparr>) (h x) else h x)"
  by (cases "up_ptr fs") (auto simp: relink_def)

lemma reparent_None [simp]: "reparent h T p i x = None \<longleftrightarrow> h x = None"
  by (auto simp: reparent_apply)

lemma relink_None [simp]: "relink h fs c x = None \<longleftrightarrow> h x = None"
  by (auto simp: relink_apply)

lemma setparent_reparent:
  "root T = Some x \<Longrightarrow> h x = Some u \<Longrightarrow> av_index u = i \<Longrightarrow> AVL_SETPARENT h (root T) p = Inr (reparent h T p i)"
  by (auto simp: AVL_SETPARENT_def reparent_def)

text \<open>A node is replaced by a copy of it at another address.\<close>

definition copy_node :: "avl_heap \<Rightarrow> addr \<Rightarrow> avl_node \<Rightarrow> (bool \<Rightarrow> atree) \<Rightarrow> bool \<Rightarrow> avl_heap" where
  "copy_node h n v f d = reparent (reparent (h(n \<mapsto> v)) (f d) (Some n) d) (f (\<not> d)) (Some n) (\<not> d)"

lemma tree_at_copy:
  assumes "tree_at h t fs (Node a b f)" "h a = Some v" "n \<notin> set (around fs @ inorder (Node a b f))"
  shows "tree_at (relink (copy_node h n v f d) fs (Some n)) (reroot t fs (Some n)) fs (Node n b f)"
proof -
  let ?h = "copy_node h n v f d"
  have v: "av_child v e = root (f e)" "av_parent v = up_ptr fs" "av_index v = up_dir fs" "av_balance v = b" "is_tree h (f e) (Some a) e"
    and ctx: "is_ctx h t (Some a) fs" for e
    using assms(1,2) by (cases e; simp add: tree_at_def)+
  have dist: "distinct (before fs @ inorder (Node a b f) @ after fs)" using assms(1) by (simp add: tree_at_def)
  have d: "set (inorder (f d)) \<inter> set (inorder (f (\<not> d))) = {}" "distinct (inorder (f e))" "n \<notin> set (inorder (f e))" "n \<notin> set (around fs)"
    "set (around fs) \<inter> set (inorder (f e)) = {}" for e
    using dist assms(3) by (cases d; cases e; auto)+
  have sub: "is_tree ?h (f d) (Some n) d" "is_tree ?h (f (\<not> d)) (Some n) (\<not> d)"
    using is_tree_reparent [of "h(n \<mapsto> v)" "f d" "Some a" d "Some n" d]
      is_tree_reparent [of "reparent (h(n \<mapsto> v)) (f d) (Some n) d" "f (\<not> d)" "Some a" "\<not> d" "Some n" "\<not> d"] v(5) d
    by (simp_all add: copy_node_def Int_commute)
  have hn: "?h n = Some v" using d by (simp add: copy_node_def)
  have "is_tree ?h (Node n b f) (up_ptr fs) (up_dir fs)" by (rule is_tree_NodeI [where h = ?h and a = n and d = d, OF hn]) (use v sub in simp_all)
  moreover have "is_ctx ?h t (Some a) fs" using ctx d by (simp add: copy_node_def)
  moreover have "distinct (before fs @ inorder (Node n b f) @ after fs)" using dist assms(3) by auto
  ultimately show ?thesis using tree_at_replace [of ?h t "Some a" fs "Node n b f"] by simp
qed

text \<open>A leaf on one side is replaced by a copy.\<close>

lemma tree_at_copy_low:
  assumes "tree_at h t fs (Node n b k)" "h n = Some w" "k (\<not> l) = Tip" "tmp \<notin> set (around fs @ inorder (Node n b k))"
  shows "tree_at (relink (reparent (h(tmp \<mapsto> w)) (k l) (Some tmp) l) fs (Some tmp)) (reroot t fs (Some tmp)) fs (Node tmp b k)"
  using tree_at_copy [OF assms(1,2,4), of l] assms(3) by (simp add: copy_node_def reparent_def)

text \<open>The store after the exchange, as the two copies make it; the removed node itself is not part of the tree any more.\<close>

lemma tree_at_exchange:
  fixes gs fs l n a b s
  defines "FS \<equiv> gs @ (l, a, b, s) # fs"
  assumes at: "tree_at h t FS (Node n nb k)" and "h n = Some w" "h a = Some v" "k (\<not> l) = Tip"
    and tmp: "tmp \<notin> set (around FS @ inorder (Node n nb k))"
  defines "S \<equiv> plug gs (Node tmp nb k)"
  defines "hA \<equiv> relink (reparent (h(tmp \<mapsto> w)) (k l) (Some tmp) l) FS (Some tmp)"
  defines "v2 \<equiv> v\<lparr>av_child := (av_child v)(l := root S)\<rparr>"
  shows "tree_at (relink (copy_node hA n v2 ((\<lambda>_. s)(l := S)) l) fs (Some n)) (reroot t fs (Some n)) (gs @ (l, n, b, s) # fs) (Node tmp nb k)"
    and "hA a = Some v2"
proof -
  have A: "tree_at hA t FS (Node tmp nb k)" using tree_at_copy_low [OF at assms(3,5) tmp] unfolding hA_def FS_def by (simp add: reroot_def)
  then have B: "tree_at hA t fs (Node a b ((\<lambda>_. s)(l := S)))"
    using tree_at_plug [of hA t FS "Node tmp nb k"] tree_at_plug [of hA t fs "Node a b ((\<lambda>_. s)(l := S))"] unfolding FS_def S_def by (simp add: plug_append)
  have dist: "distinct (before FS @ inorder (Node n nb k) @ after FS)" using at by (simp add: tree_at_def)
  have "tree_at h t fs (Node a b ((\<lambda>_. s)(l := plug gs (Node n nb k))))"
    using at tree_at_plug [of h t FS "Node n nb k"] tree_at_plug [of h t fs "Node a b ((\<lambda>_. s)(l := plug gs (Node n nb k)))"] unfolding FS_def
    by (simp add: plug_append)
  then have child: "av_child v l = root (plug gs (Node n nb k))" using assms(4) by (cases l) (auto simp: tree_at_def)
  have a: "a \<in> set (around FS)" "a \<notin> set (inorder (k l))" using dist unfolding FS_def by (cases l; auto simp: before_append after_append)+
  have h: "hA a = relink h FS (Some tmp) a" using a tmp unfolding hA_def by (auto simp: relink_apply)
  show hA: "hA a = Some v2"
  proof (cases gs rule: up_ptr.cases)
    case 1
    then show ?thesis using h assms(4) unfolding FS_def v2_def S_def by (simp add: relink_apply)
  next
    case (2 d c cb cs gs')
    then have "a \<noteq> c" using dist unfolding FS_def by (cases l; cases d; auto simp: before_append after_append)
    moreover have "root S = av_child v l" unfolding S_def child by (rule root_plug) (use 2 in simp)
    ultimately show ?thesis using 2 h assms(4) unfolding FS_def v2_def by (simp add: relink_apply)
  qed
  have "n \<notin> set (around fs @ inorder (Node a b ((\<lambda>_. s)(l := S))))"
    using dist tmp unfolding S_def FS_def by (cases l) (auto simp: inorder_plug before_append after_append)
  from tree_at_copy [OF B hA this, of l]
  have "tree_at (relink (copy_node hA n v2 ((\<lambda>_. s)(l := S)) l) fs (Some n)) (reroot t fs (Some n)) [] (plug fs (Node n b ((\<lambda>_. s)(l := S))))"
    by (simp add: tree_at_plug)
  then have "tree_at (relink (copy_node hA n v2 ((\<lambda>_. s)(l := S)) l) fs (Some n)) (reroot t fs (Some n)) [] (plug (gs @ (l, n, b, s) # fs) (Node tmp nb k))"
    by (simp add: plug_append S_def)
  then show "tree_at (relink (copy_node hA n v2 ((\<lambda>_. s)(l := S)) l) fs (Some n)) (reroot t fs (Some n)) (gs @ (l, n, b, s) # fs) (Node tmp nb k)"
    by (simp add: tree_at_plug)
qed

lemma is_tree_root: "is_tree h T p i \<Longrightarrow> root T = Some x \<Longrightarrow> \<exists>u. h x = Some u \<and> av_index u = i \<and> av_parent u = p"
  by (cases T) (auto split: option.splits)

lemma root_plug_in: "gs \<noteq> [] \<Longrightarrow> \<exists>c. root (plug gs X) = Some c \<and> c \<in> set (around gs)"
proof (induction gs X rule: plug.induct)
  case (2 d a b s fs t)
  then show ?case by (cases fs) auto
qed simp

lemma up_append: "gs \<noteq> [] \<Longrightarrow> up_ptr (gs @ fs) = up_ptr gs" "gs \<noteq> [] \<Longrightarrow> up_dir (gs @ fs) = up_dir gs"
  by (cases gs rule: up_ptr.cases; simp)+

lemma swap_out_exchange:
  fixes gs fs l n a b s
  defines "FS \<equiv> gs @ (l, a, b, s) # fs"
  assumes at: "tree_at h t FS (Node n nb k)" and hn: "h n = Some w" and ha: "h a = Some v" and k: "k (\<not> l) = Tip" and s: "s \<noteq> Tip"
    and tmp: "tmp \<notin> set (around FS @ inorder (Node n nb k))"
    and l: "avl_balance2child (av_balance v) = Inr l" and walk: "walk_down (at_num t) h (av_child v l) (\<not> l) = Inr (Some n)"
  defines "S \<equiv> plug gs (Node tmp nb k)"
  defines "hA \<equiv> relink (reparent (h(tmp \<mapsto> w)) (k l) (Some tmp) l) FS (Some tmp)"
  defines "v2 \<equiv> v\<lparr>av_child := (av_child v)(l := root S)\<rparr>"
  shows "\<exists>h'. swap_out h t tmp (Some a) v = Inr (h', reroot t fs (Some n)) \<and> h' a \<noteq> None
    \<and> (\<forall>x. x \<noteq> a \<longrightarrow> h' x = relink (copy_node hA n v2 ((\<lambda>_. s)(l := S)) l) fs (Some n) x)"
proof -
  have "distinct (before FS @ inorder (Node n nb k) @ after FS)" using at by (simp add: tree_at_def)
  then have "distinct (around fs @ around gs @ inorder s @ inorder (k l) @ [a, n])"
    by (subst mset_eq_imp_distinct_iff [of _ "before FS @ inorder (Node n nb k) @ after FS"]) (use k in \<open>cases l; simp add: FS_def\<close>)
  moreover have "tmp \<notin> set (around fs @ around gs @ inorder s @ inorder (k l) @ [a, n])" using tmp k by (cases l; simp add: FS_def)
  ultimately have D: "distinct (around fs @ around gs @ inorder s @ inorder (k l) @ [a, n, tmp])" by auto
  have place: "tree_at h t fs (Node a b ((\<lambda>_. s)(l := plug gs (Node n nb k))))"
    using at tree_at_plug [of h t FS "Node n nb k"] tree_at_plug [of h t fs "Node a b ((\<lambda>_. s)(l := plug gs (Node n nb k)))"] unfolding FS_def
    by (simp add: plug_append)
  have v: "av_child v l = root (plug gs (Node n nb k))" "av_child v (\<not> l) = root s" "av_parent v = up_ptr fs" "av_index v = up_dir fs"
    "is_tree h (plug gs (Node n nb k)) (Some a) l" "is_tree h s (Some a) (\<not> l)" "is_ctx h t (Some a) fs"
    using place ha unfolding tree_at_def is_tree_Node [of _ _ _ _ _ _ l] by auto
  have w: "av_child w l = root (k l)" "av_child w (\<not> l) = None" "av_parent w = up_ptr FS" "av_index w = up_dir FS" "is_tree h (k l) (Some n) l"
    using at hn k unfolding tree_at_def is_tree_Node [of _ _ _ _ _ _ l] by auto
  obtain sr sb sf where sr: "s = Node sr sb sf" using s by (cases s) auto
  have "sr \<in> set (inorder s)" using sr by simp
  obtain su where su: "h sr = Some su" "av_index su = (\<not> l)" using v(6) sr by (auto split: option.splits)
  define GN where "GN = gs @ [(l, n, b, s)]"
  define h2 where "h2 = h(tmp \<mapsto> w, n \<mapsto> v2)"
  define h3 where "h3 = relink h2 fs (Some n)"
  define h4 where "h4 = reparent h3 S (Some n) l"
  define h5 where "h5 = reparent h4 s (Some n) (\<not> l)"
  define h6 where "h6 = relink h5 GN (Some tmp)"
  define h7 where "h7 = reparent h6 (k l) (Some tmp) l"
  have far: "n \<notin> set (around fs)" "tmp \<notin> set (around fs)" "sr \<notin> set (around fs)" "sr \<noteq> n" "sr \<noteq> tmp" "n \<noteq> tmp" "a \<noteq> n" "a \<noteq> tmp"
    "n \<notin> set (around gs)" "tmp \<notin> set (around gs)" "sr \<notin> set (around gs)" "a \<notin> set (around gs)" "set (around fs) \<inter> set (around gs) = {}"
    "set (around gs) \<inter> set (inorder s) = {}" "set (around gs) \<inter> set (inorder (k l)) = {}" "set (around fs) \<inter> set (inorder (k l)) = {}"
    "n \<notin> set (inorder s)" "n \<notin> set (inorder (k l))" "tmp \<notin> set (inorder s)" "tmp \<notin> set (inorder (k l))"
    "set (inorder s) \<inter> set (inorder (k l)) = {}" "a \<notin> set (inorder (k l))"
    using D \<open>sr \<in> set (inorder s)\<close> by (simp add: disjoint_iff; blast?)+
  have "\<exists>R Ru. root S = Some R \<and> h2 R = Some Ru \<and> av_index Ru = l \<and> (gs = [] \<and> R = tmp \<and> Ru = w \<or> gs \<noteq> [] \<and> R \<in> set (around gs) \<and> root (plug gs (Node n nb k)) = Some R)"
  proof (cases "gs = []")
    case True
    then show ?thesis using w(4) far(6) by (simp add: S_def h2_def FS_def)
  next
    case False
    obtain c where c: "root (plug gs (Node n nb k)) = Some c" "c \<in> set (around gs)" using root_plug_in [OF False] by blast
    then obtain cu where "h c = Some cu" "av_index cu = l" using is_tree_root [OF v(5)] by blast
    then show ?thesis using c False root_plug [OF False, of "Node tmp nb k" "Node n nb k"] far(9,10) by (auto simp: S_def h2_def)
  qed
  then obtain R Ru where R: "root S = Some R" "h2 R = Some Ru" "av_index Ru = l"
    "gs = [] \<and> R = tmp \<and> Ru = w \<or> gs \<noteq> [] \<and> R \<in> set (around gs) \<and> root (plug gs (Node n nb k)) = Some R" by blast
  have Rfar: "R \<notin> set (around fs)" "R \<noteq> n" "R \<noteq> sr" "R \<noteq> a" "R \<notin> set (inorder (k l))"
    using R(4) far by (auto simp: disjoint_iff)
  have E1: "(if av_child v l = Some n then set_child (h(tmp \<mapsto> w, n \<mapsto> v)) (Some n) l (Some tmp) else Inr (h(tmp \<mapsto> w, n \<mapsto> v))) = Inr h2"
    using R v(1) Rfar(2) by (auto simp: h2_def v2_def set_child_def fun_upd_idem)
  have h2: "h2 n = Some v2" "h2 sr = Some su" using far su by (auto simp: h2_def)
  have E3: "set_link h2 t (up_ptr fs) (up_dir fs) (Some n) = Inr (h3, reroot t fs (Some n))"
    unfolding h3_def by (rule set_link_relink [of _ _ "Some a"]) (use v(7) far in \<open>simp add: h2_def\<close>)
  have h3: "h3 n = Some v2" "h3 R = Some Ru" "h3 sr = Some su" using h2 R(2) far Rfar by (simp_all add: h3_def)
  have E5: "AVL_SETPARENT h3 (root S) (Some n) = Inr h4" unfolding h4_def by (rule setparent_reparent [of _ R _ Ru]) (use R h3 in simp_all)
  have h4: "h4 sr = Some su" using h3 Rfar R(1) by (auto simp: h4_def reparent_apply)
  have E6: "AVL_SETPARENT h4 (root s) (Some n) = Inr h5" unfolding h5_def by (rule setparent_reparent [of _ sr _ su]) (use h4 su sr in simp_all)
  define d where "d = (if gs = [] then w\<lparr>av_parent := Some n, av_index := l\<rparr> else w)"
  have d: "av_parent d = up_ptr GN" "av_index d = up_dir GN" "av_child d = av_child w"
    using w(3,4) by (auto simp: d_def GN_def FS_def up_append)
  have "h3 tmp = Some w" using far by (simp add: h3_def h2_def)
  then have h5: "h5 tmp = Some d" using R(1,4) far sr by (auto simp: h5_def h4_def reparent_apply d_def)
  obtain q where q: "up_ptr GN = Some q" "gs = [] \<and> q = n \<or> gs \<noteq> [] \<and> q \<in> set (around gs) \<and> up_ptr FS = Some q"
  proof (cases gs rule: up_ptr.cases)
    case (2 e c cb cs gs')
    then show ?thesis by (intro that [of c]) (auto simp: GN_def FS_def)
  qed (auto simp: GN_def intro: that)
  have "\<exists>qu. h q = Some qu" using q(2) hn at is_ctx_mapped [of h t "Some n" FS q] by (auto simp: tree_at_def FS_def)
  then have "h5 q \<noteq> None" by (simp add: h5_def h4_def h3_def h2_def)
  then obtain qu where "h5 q = Some qu" by blast
  then have E8: "set_child h5 (up_ptr GN) (up_dir GN) (Some tmp) = Inr h6" unfolding h6_def relink_def using q(1) by (simp add: set_child_def)
  have "q \<noteq> tmp" using q(2) far by auto
  then have h6: "h6 tmp = Some d" using h5 q(1) by (simp add: h6_def relink_apply)
  have low: "\<exists>ku. h6 kr = Some ku \<and> av_index ku = l" if kr: "root (k l) = Some kr" for kr
  proof -
    obtain ku where "h kr = Some ku" "av_index ku = l" using is_tree_root [OF w(5) kr] by blast
    moreover have "kr \<in> set (inorder (k l))" using kr by (rule root_in)
    ultimately show ?thesis using far Rfar q R(1) sr by (auto simp: h6_def h5_def h4_def h3_def h2_def reparent_apply relink_apply disjoint_iff)
  qed
  have E10: "(if av_child d (av_child d True \<noteq> None) \<noteq> None then AVL_SETPARENT h6 (av_child d (av_child d True \<noteq> None)) (Some tmp) else Inr h6) = Inr h7"
  proof (cases "k l")
    case Tip
    then show ?thesis using d(3) w(1,2) by (cases l) (simp_all add: h7_def reparent_def)
  next
    case (Node kr kb kf)
    then obtain ku where ku: "h6 kr = Some ku" "av_index ku = l" using low by auto
    have "AVL_SETPARENT h6 (root (k l)) (Some tmp) = Inr h7" unfolding h7_def by (rule setparent_reparent [of _ kr _ ku]) (use Node ku in simp_all)
    then show ?thesis using d(3) w(1,2) Node by (cases l) simp_all
  qed
  have run: "swap_out h t tmp (Some a) v = Inr (h7, reroot t fs (Some n))"
    unfolding swap_out_def l walk cbind_simps Let_def using hn E1 h2(1) E3 h3(1) E5 E6 h5 E8 h6 E10 v(2-4) d
    by (simp add: v2_def)
  have kl: "root (k l) \<noteq> Some n" "root (k l) \<noteq> Some tmp" "root (k l) \<noteq> Some R" "root (k l) \<noteq> Some sr" "root (k l) \<noteq> Some q"
    using root_in [of "k l"] far Rfar q(2) \<open>sr \<in> set (inorder s)\<close> by (auto simp: disjoint_iff)
  have up: "up_ptr fs \<noteq> Some n" "up_ptr fs \<noteq> Some tmp" "up_ptr fs \<noteq> Some R" "up_ptr fs \<noteq> Some sr" "up_ptr fs \<noteq> Some q"
    using up_ptr_in [of fs] far Rfar q(2) by (auto simp: disjoint_iff)
  have RS: "gs = [] \<Longrightarrow> R = tmp" "gs = [] \<Longrightarrow> q = n" "gs \<noteq> [] \<Longrightarrow> R \<noteq> tmp" "gs \<noteq> [] \<Longrightarrow> q \<noteq> n" "q \<noteq> tmp" "q \<noteq> sr" "q \<noteq> a"
    "gs \<noteq> [] \<Longrightarrow> up_ptr FS = Some q" "gs = [] \<Longrightarrow> up_ptr FS = Some a" "gs \<noteq> [] \<Longrightarrow> up_dir FS = up_dir GN" "gs = [] \<Longrightarrow> up_dir GN = l"
    using R(4) q(2) far by (auto simp: FS_def GN_def up_append)
  have "h7 x = relink (copy_node hA n v2 ((\<lambda>_. s)(l := S)) l) fs (Some n) x" if xa: "x \<noteq> a" for x
  proof -
    consider (node) "x = n" | (tmp) "x = tmp" | (other) "x \<noteq> n" "x \<noteq> tmp" by blast
    then show ?thesis
    proof cases
      case node
      have "h5 n = Some v2" using h3(1) R(1) Rfar(2) sr far(4) by (simp add: h5_def h4_def reparent_apply)
      then have "h7 n = Some v2" using kl(1) q(1) RS(1,2,4,11) R(1) by (cases "gs = []") (simp_all add: h7_def h6_def reparent_apply relink_apply v2_def)
      then show ?thesis using node up(1) R(1) Rfar(2) sr far(4) by (simp add: relink_apply reparent_apply copy_node_def)
    next
      case tmp
      have "hA tmp = Some w" using kl(2) RS(5,8,9) far(8) by (cases "gs = []") (simp_all add: hA_def relink_apply reparent_apply)
      moreover have "h7 tmp = Some d" using h6 kl(2) by (simp add: h7_def reparent_apply)
      ultimately show ?thesis using tmp up(2) R(1) RS(1,3) sr far(5,6)
        by (cases "gs = []") (simp_all add: relink_apply reparent_apply copy_node_def d_def)
    next
      case other
      have FSx: "up_ptr FS = Some x \<longleftrightarrow> q = x" using RS(2,8,9) other(1) xa by (cases "gs = []") auto
      have dirs: "q = x \<Longrightarrow> up_dir FS = up_dir GN" using RS(2,10) other(1) by (cases "gs = []") auto
      show ?thesis
        unfolding h7_def h6_def h5_def h4_def h3_def h2_def hA_def copy_node_def reparent_apply relink_apply
        using other dirs kl(3-5) up(3-5) RS(6) Rfar(3) sr q(1) R(1) FSx
        by (cases "h x"; simp; cases "root (k l) = Some x"; simp; cases "q = x"; simp; cases "up_ptr fs = Some x"; simp)
    qed
  qed
  moreover have "h7 a \<noteq> None" using ha far(7,8) by (simp add: h7_def h6_def h5_def h4_def h3_def h2_def)
  ultimately show ?thesis using run by blast
qed

end
