(* ===== verification/Acl_AvlRemove.thy ===== *)
theory Acl_AvlRemove
  imports Acl_AvlSwap
begin

text \<open>Removing a node, with the exchange for a node with two children.\<close>

lemma take_out_refines:
  assumes at: "tree_at h t fs (Node a b k)" and av: "avl_above fs (height (Node a b k))" "avl (Node a b k)" and k: "k (\<not> l) = Tip"
    and num: "at_num t = length (around fs @ inorder (Node a b k))"
  shows "\<exists>h' t'. take_out h t (Some a) = Inr (h', t') \<and> tree_at h' t' [] (shrink fs (k l)) \<and> Suc (at_num t') = at_num t
    \<and> (\<forall>x. x \<notin> set (around fs @ inorder (k l)) \<longrightarrow> h' x = h x)"
proof -
  obtain v where v: "h a = Some v" "av_child v False = root (k False)" "av_child v True = root (k True)" "av_parent v = up_ptr fs"
    "av_index v = up_dir fs" "av_balance v = b" by (rule tree_at_read [OF at])
  have sub: "is_tree h (k l) (Some a) l" and ctx: "is_ctx h t (Some a) fs"
    using at unfolding tree_at_def is_tree_Node [of _ _ _ _ _ _ l] by auto
  have "distinct (before fs @ inorder (Node a b k) @ after fs)" using at by (simp add: tree_at_def)
  then have D: "distinct (before fs @ inorder (k l) @ after fs)" using k by (cases l) auto
  let ?t = "t\<lparr>at_num := at_num t - 1\<rparr>"
  define h1 where "h1 = reparent h (k l) (up_ptr fs) (up_dir fs)"
  have child: "(if av_child v False \<noteq> None then av_child v False else av_child v True) = root (k l)" using v k by (cases l) auto
  have ad: "adopt h (root (k l)) (up_ptr fs) (up_dir fs) = Inr h1" unfolding h1_def by (rule adopt_reparent [OF sub])
  have "set (around fs) \<inter> set (inorder (k l)) = {}" using D by auto
  then have "is_ctx h1 ?t (Some a) fs" using ctx by (simp add: h1_def)
  moreover have "is_tree h1 (k l) (up_ptr fs) (up_dir fs)" unfolding h1_def by (rule is_tree_reparent [OF sub]) (use D in simp)
  ultimately have at1: "tree_at (relink h1 fs (root (k l))) (reroot ?t fs (root (k l))) fs (k l)" using D by (rule tree_at_replace)
  have av1: "avl (k l)" "avl_above fs (Suc (height (k l)))" using av k by (cases l; simp)+
  have n0: "at_num t \<noteq> 0" "length fs \<le> at_num t" using num length_around [of fs] by auto
  show ?thesis
  proof (cases "fs = []")
    case True
    then have "take_out h t (Some a) = Inr (h1, ?t\<lparr>at_root := root (k l)\<rparr>)" using v(1,4,5) ad n0 by (simp add: take_out_def Let_def child del: not_None_eq)
    moreover have "h1 x = h x" if "x \<notin> set (around fs @ inorder (k l))" for x unfolding h1_def by (rule reparent_other) (use that in simp)
    ultimately show ?thesis using at1 True n0 by (simp add: relink_def reroot_def)
  next
    case False
    then obtain p where p: "up_ptr fs = Some p" by (cases fs rule: up_ptr.cases) auto
    then obtain pu where "h1 p = Some pu" using is_ctx_mapped [OF \<open>is_ctx h1 ?t (Some a) fs\<close> up_ptr_in [OF p]] by auto
    then have "set_child h1 (up_ptr fs) (up_dir fs) (root (k l)) = Inr (relink h1 fs (root (k l)))" using p by (simp add: set_child_def relink_def)
    then have run: "take_out h t (Some a) = remove_loop (at_num t) (relink h1 fs (root (k l))) ?t (up_ptr fs) (up_dir fs)"
      using v(1,4,5) ad n0 False by (simp add: take_out_def Let_def child del: not_None_eq)
    have "tree_at (relink h1 fs (root (k l))) ?t fs (k l)" using at1 False by (simp add: reroot_def)
    from remove_loop_refines [OF this av1(2,1) refl False n0(2)] obtain h' t' where r: "take_out h t (Some a) = Inr (h', t')"
      "tree_at h' t' [] (shrink fs (k l))" "at_num t' = at_num t - 1" "\<And>x. x \<notin> set (around fs @ inorder (k l)) \<Longrightarrow> h' x = relink h1 fs (root (k l)) x"
      unfolding run by auto
    have "h' x = h x" if "x \<notin> set (around fs @ inorder (k l))" for x
      using r(4) [OF that] that by (simp add: h1_def)
    then show ?thesis using r n0 by (intro exI [of _ h'] exI [of _ t']) simp
  qed
qed

lemma balance2child_ok: "- 1 \<le> b \<Longrightarrow> b \<le> 1 \<Longrightarrow> \<exists>l. avl_balance2child b = Inr l"
  by (auto simp: avl_balance2child_def)

lemma swap_out_refines:
  assumes at: "tree_at h t fs (Node a b f)" and ha: "h a = Some v" and av: "avl (Node a b f)" and two: "f False \<noteq> Tip" "f True \<noteq> Tip"
    and tmp: "tmp \<notin> set (around fs @ inorder (Node a b f))" and num: "length (inorder (Node a b f)) \<le> at_num t"
  shows "\<exists>h' t' l gs n nb k. swap_out h t tmp (Some a) v = Inr (h', t') \<and> h' a \<noteq> None \<and> f l = plug gs (Node n nb k) \<and> k (\<not> l) = Tip
    \<and> tree_at h' t' (gs @ (l, n, b, f (\<not> l)) # fs) (Node tmp nb k) \<and> at_num t' = at_num t \<and> (\<forall>g \<in> set gs. fst g = (\<not> l))
    \<and> (\<forall>x. x \<notin> set (around fs @ inorder (Node a b f)) \<longrightarrow> x \<noteq> tmp \<longrightarrow> h' x = h x)"
proof -
  have "av_balance v = b" using at ha by (simp add: tree_at_def)
  then obtain l where l: "avl_balance2child (av_balance v) = Inr l" using balance2child_ok [of b] av by auto
  have v: "av_child v l = root (f l)" "is_tree h (f l) (Some a) l" using at ha unfolding tree_at_def is_tree_Node [of _ _ _ _ _ _ l] by auto
  have "f l \<noteq> Tip" "length (inorder (f l)) \<le> at_num t" using two num by (cases l; simp)+
  then obtain gs n nb k where g: "f l = plug gs (Node n nb k)" "k (\<not> l) = Tip" "\<forall>g \<in> set gs. fst g = (\<not> l)" "walk_down (at_num t) h (root (f l)) (\<not> l) = Inr (Some n)"
    using walk_down_edge [OF v(2), of "at_num t" "\<not> l"] by metis
  let ?FS = "gs @ (l, a, b, f (\<not> l)) # fs"
  have pl: "plug ?FS (Node n nb k) = plug fs (Node a b f)" by (simp add: plug_append g(1) [symmetric])
  then have at': "tree_at h t ?FS (Node n nb k)" using at tree_at_plug [of h t ?FS "Node n nb k"] tree_at_plug [of h t fs "Node a b f"] by simp
  have fl: "set (inorder (Node a b f)) = set (around gs @ inorder (Node n nb k) @ a # inorder (f (\<not> l)))"
    using g(1) by (cases l) (auto simp: inorder_plug)
  have whole: "set (around ?FS @ inorder (Node n nb k)) = set (around fs @ inorder (Node a b f))"
    unfolding set_append fl by auto
  have tmp': "tmp \<notin> set (around ?FS @ inorder (Node n nb k))" using tmp unfolding whole .
  have "is_tree h (Node n nb k) (up_ptr ?FS) (up_dir ?FS)" using at' by (simp add: tree_at_def)
  then obtain w where w: "h n = Some w" by (auto split: option.splits)
  have s: "f (\<not> l) \<noteq> Tip" using two by (cases l) auto
  let ?hA = "relink (reparent (h(tmp \<mapsto> w)) (k l) (Some tmp) l) ?FS (Some tmp)" and ?S = "plug gs (Node tmp nb k)"
  let ?hB = "relink (copy_node ?hA n (v\<lparr>av_child := (av_child v)(l := root ?S)\<rparr>) ((\<lambda>_. f (\<not> l))(l := ?S)) l) fs (Some n)"
  obtain h' where h': "swap_out h t tmp (Some a) v = Inr (h', reroot t fs (Some n))" "\<And>x. x \<noteq> a \<Longrightarrow> h' x = ?hB x" "h' a \<noteq> None"
    using swap_out_exchange [OF at' w ha g(2) s tmp' l] g(4) v(1) by auto
  have B: "tree_at ?hB (reroot t fs (Some n)) (gs @ (l, n, b, f (\<not> l)) # fs) (Node tmp nb k)" by (rule tree_at_exchange(1) [OF at' w ha g(2) tmp'])
  have D: "distinct (before ?FS @ inorder (Node n nb k) @ after ?FS)" using at' by (simp add: tree_at_def)
  have a: "a \<notin> set (around (gs @ (l, n, b, f (\<not> l)) # fs) @ inorder (Node tmp nb k))"
    using D tmp' by (cases l) auto
  have "tree_at h' (reroot t fs (Some n)) (gs @ (l, n, b, f (\<not> l)) # fs) (Node tmp nb k)
      = tree_at ?hB (reroot t fs (Some n)) (gs @ (l, n, b, f (\<not> l)) # fs) (Node tmp nb k)"
  proof (rule tree_at_cong)
    show "h' x = ?hB x" if "x \<in> set (around (gs @ (l, n, b, f (\<not> l)) # fs) @ inorder (Node tmp nb k))" for x
      by (rule h'(2)) (use that a in metis)
  qed simp
  then have "tree_at h' (reroot t fs (Some n)) (gs @ (l, n, b, f (\<not> l)) # fs) (Node tmp nb k)" using B by blast
  moreover have "h' x = h x" if "x \<notin> set (around fs @ inorder (Node a b f))" "x \<noteq> tmp" for x
  proof -
    have x: "x \<notin> set (around ?FS @ inorder (Node n nb k))" using that unfolding whole by simp
    then have "x \<noteq> a" "x \<noteq> n" "x \<notin> set (inorder ?S)" "x \<notin> set (inorder (f (\<not> l)))" "x \<notin> set (inorder (k l))" "x \<notin> set (around fs)" "x \<notin> set (around ?FS)"
      using that(2) by (cases l; auto simp: inorder_plug)+
    then show ?thesis using h'(2) that(2) by (simp add: copy_node_def)
  qed
  ultimately show ?thesis using h'(1,3) g(1-3)
    by (intro exI [of _ h'] exI [of _ "reroot t fs (Some n)"] exI [of _ l] exI [of _ gs] exI [of _ n] exI [of _ nb] exI [of _ k]) auto
qed

text \<open>The neighbour is next to the removed node in order, so that nothing else moves.\<close>

lemma edge_order: "(\<forall>g \<in> set gs. fst g = r) \<Longrightarrow> (if r then after gs else before gs) = []"
  by (induction gs) auto

lemma remove_node_refines:
  assumes at: "tree_at h t fs (Node a b f)" and av: "avl (plug fs (Node a b f))"
    and tmp: "tmp \<notin> set (around fs @ inorder (Node a b f))" and num: "at_num t = length (around fs @ inorder (Node a b f))"
  shows "\<exists>h' t' T. remove_node h t tmp (Some a) = Inr (h', t') \<and> h' a \<noteq> None \<and> tree_at h' t' [] T \<and> avl T \<and> Suc (at_num t') = at_num t
    \<and> inorder T = before fs @ inorder (f False) @ inorder (f True) @ after fs
    \<and> (\<forall>x. x \<notin> set (around fs @ inorder (Node a b f)) \<longrightarrow> x \<noteq> tmp \<longrightarrow> h' x = h x)"
proof -
  obtain v where v: "h a = Some v" "av_child v False = root (f False)" "av_child v True = root (f True)" by (rule tree_at_read [OF at])
  have av': "avl (Node a b f)" "avl_above fs (height (Node a b f))" using av by (simp_all add: avl_plug)
  show ?thesis
  proof (cases "f False \<noteq> Tip \<and> f True \<noteq> Tip")
    case False
    then obtain l where l: "f (\<not> l) = Tip" by (metis (full_types))
    have run: "remove_node h t tmp (Some a) = take_out h t (Some a)" using v False by (auto simp: remove_node_def)
    have "avl_above fs (Suc (height (f l)))" "avl (f l)" using av' l by (cases l; simp)+
    then have "avl (shrink fs (f l))" by (intro avl_shrink) auto
    moreover have "inorder (shrink fs (f l)) = before fs @ inorder (f False) @ inorder (f True) @ after fs" using l by (cases l) (simp_all add: inorder_shrink)
    moreover obtain h' t' where r: "take_out h t (Some a) = Inr (h', t')" "tree_at h' t' [] (shrink fs (f l))" "Suc (at_num t') = at_num t"
      "\<And>x. x \<notin> set (around fs @ inorder (f l)) \<Longrightarrow> h' x = h x"
      using take_out_refines [OF at av'(2,1) l num] by blast
    moreover have "a \<notin> set (around fs @ inorder (f l))" using at by (cases l) (auto simp: tree_at_def)
    then have "h' a \<noteq> None" using r(4) v(1) by simp
    moreover have "h' x = h x" if "x \<notin> set (around fs @ inorder (Node a b f))" for x by (rule r(4)) (use that in \<open>cases l; simp\<close>)
    ultimately show ?thesis unfolding run by blast
  next
    case True
    then have two: "f False \<noteq> Tip" "f True \<noteq> Tip" by auto
    have num': "length (inorder (Node a b f)) \<le> at_num t" using num by simp
    obtain h1 t1 l gs n nb k where s: "swap_out h t tmp (Some a) v = Inr (h1, t1)" and mapped: "h1 a \<noteq> None" and s': "f l = plug gs (Node n nb k)" "k (\<not> l) = Tip"
      "tree_at h1 t1 (gs @ (l, n, b, f (\<not> l)) # fs) (Node tmp nb k)" "at_num t1 = at_num t" "\<forall>g \<in> set gs. fst g = (\<not> l)"
      "\<And>x. x \<notin> set (around fs @ inorder (Node a b f)) \<Longrightarrow> x \<noteq> tmp \<Longrightarrow> h1 x = h x"
      using swap_out_refines [OF at v(1) av'(1) two tmp num'] by blast
    let ?FS = "gs @ (l, n, b, f (\<not> l)) # fs"
    have run: "remove_node h t tmp (Some a) = take_out h1 t1 (Some tmp)" using v True s by (auto simp: remove_node_def)
    have pl: "plug ?FS (Node n nb k) = plug fs (Node n b f)" by (simp add: plug_append s'(1) [symmetric])
    have "avl (plug fs (Node n b f))" using av' by (simp add: avl_plug)
    then have av1: "avl_above ?FS (height (Node tmp nb k))" "avl (Node tmp nb k)" unfolding pl [symmetric] avl_plug by auto
    have "length (inorder (plug ?FS (Node n nb k))) = at_num t" using num unfolding pl by (simp add: inorder_plug)
    then have num1: "at_num t1 = length (around ?FS @ inorder (Node tmp nb k))" using s'(4) by (simp add: inorder_plug)
    have "avl_above ?FS (Suc (height (k l)))" "avl (k l)" using av1 s'(2) by (cases l; simp)+
    then have A: "avl (shrink ?FS (k l))" by (intro avl_shrink) auto
    have "inorder (f l) = (if l then n # inorder (k l) @ after gs else before gs @ inorder (k l) @ [n])"
      using s'(1,2) edge_order [OF s'(5)] by (cases l) (simp_all add: inorder_plug)
    then have O: "inorder (shrink ?FS (k l)) = before fs @ inorder (f False) @ inorder (f True) @ after fs"
      using edge_order [OF s'(5)] by (cases l) (simp_all add: inorder_shrink)
    obtain h' t' where r: "take_out h1 t1 (Some tmp) = Inr (h', t')" "tree_at h' t' [] (shrink ?FS (k l))" "Suc (at_num t') = at_num t1"
      "\<And>x. x \<notin> set (around ?FS @ inorder (k l)) \<Longrightarrow> h' x = h1 x"
      using take_out_refines [OF s'(3) av1 s'(2) num1] by blast
    have inside: "set (around ?FS @ inorder (k l)) \<subseteq> insert tmp (set (around fs @ inorder (Node a b f)))"
      using s'(1) by (cases l) (auto simp: inorder_plug)
    have off: "h' x = h x" if "x \<notin> set (around fs @ inorder (Node a b f))" "x \<noteq> tmp" for x
    proof -
      have "x \<notin> insert tmp (set (around fs @ inorder (Node a b f)))" using that by blast
      then have "h' x = h1 x" by (rule r(4) [OF contra_subsetD [OF inside]])
      then show ?thesis using s'(6) [OF that] by simp
    qed
    have D: "distinct (before fs @ inorder (Node a b f) @ after fs)" using at by (simp add: tree_at_def)
    have "a \<notin> set (around ?FS @ inorder (k l))" using D s'(1) by (cases l) (auto simp: inorder_plug)
    then have "h' a \<noteq> None" using r(4) mapped by simp
    moreover have "remove_node h t tmp (Some a) = Inr (h', t')" "Suc (at_num t') = at_num t" using r(1,3) s'(4) run by simp_all
    ultimately show ?thesis using r(2) A O off by blast
  qed
qed

end
