(* ===== verification/Acl_AvlSearch.thy ===== *)
theory Acl_AvlSearch
  imports Acl_AvlRemove
begin

text \<open>Walking through a tree in the store and searching it.\<close>

definition first_opt :: "'a list \<Rightarrow> 'a option" where
  "first_opt xs = (case xs of [] \<Rightarrow> None | x # _ \<Rightarrow> Some x)"

definition last_opt :: "'a list \<Rightarrow> 'a option" where
  "last_opt xs = (if xs = [] then None else Some (last xs))"

lemma first_opt_simps [simp]: "first_opt [] = None" "first_opt (x # xs) = Some x" "xs \<noteq> [] \<Longrightarrow> first_opt (xs @ ys) = first_opt xs"
  by (auto simp: first_opt_def split: list.splits)

lemma last_opt_simps [simp]: "last_opt [] = None" "last_opt (xs @ [x]) = Some x" "ys \<noteq> [] \<Longrightarrow> last_opt (xs @ ys) = last_opt ys"
  by (auto simp: last_opt_def)

text \<open>The end of a list on one side.\<close>

definition edge :: "bool \<Rightarrow> 'a list \<Rightarrow> 'a option" where
  "edge r xs = (if r then last_opt xs else first_opt xs)"

lemma inorder_Nil [simp]: "inorder T = [] \<longleftrightarrow> T = Tip"
  by (cases T) auto

lemma edge_plug:
  assumes "\<forall>g \<in> set gs. fst g = r" "k r = Tip"
  shows "edge r (inorder (plug gs (Node n nb k))) = Some n"
proof (cases r)
  case True
  then have "after gs = []" using edge_order [OF assms(1)] by simp
  moreover have "last_opt (xs @ ys @ [n]) = Some n" for xs ys using last_opt_simps(2) [of "xs @ ys" n] by simp
  ultimately show ?thesis using True assms(2) by (simp add: edge_def inorder_plug)
next
  case False
  then show ?thesis using edge_order [OF assms(1)] assms(2) by (simp add: edge_def inorder_plug)
qed

lemma walk_down_result:
  assumes "is_tree h S p i" "S \<noteq> Tip" "length (inorder S) \<le> m"
  shows "walk_down m h (root S) r = Inr (edge r (inorder S))"
  using walk_down_edge [OF assms, of r] edge_plug by metis

lemma end_loop_result: "is_tree h S p i \<Longrightarrow> length (inorder S) \<le> m \<Longrightarrow> end_loop m h d (root S) q = Inr (if S = Tip then q else edge d (inorder S))"
proof (induction S arbitrary: p i m q)
  case Tip
  then show ?case by (cases m) auto
next
  case (Node a b f)
  obtain m' where m: "m = Suc m'" "length (inorder (f d)) \<le> m'" using Node.prems(2) by (cases m; cases d) auto
  obtain v where v: "h a = Some v" "av_child v d = root (f d)" "is_tree h (f d) (Some a) d"
    using Node.prems(1) unfolding is_tree_Node [of _ _ _ _ _ _ d] by auto
  have "end_loop m' h d (root (f d)) (Some a) = Inr (if f d = Tip then Some a else edge d (inorder (f d)))" by (rule Node.IH [OF rangeI v(3) m(2)])
  then show ?case using m v by (cases d) (auto simp: edge_def last_opt_def)
qed

lemma walk_up_result:
  assumes "tree_at h t fs (Node a b f)" "length fs < k"
  shows "walk_up k h (Some a) right = Inr (if right then last_opt (before fs) else first_opt (after fs))"
  using assms
proof (induction fs arbitrary: a b f k)
  case Nil
  then show ?case by (cases k) (auto elim!: tree_at_read)
next
  case (Cons g fs)
  obtain d c cb s where g: "g = (d, c, cb, s)" by (cases g)
  obtain k' where k: "k = Suc k'" "length fs < k'" using Cons.prems(2) by (cases k) auto
  obtain v where v: "h a = Some v" "av_parent v = Some c" "av_index v = d" using Cons.prems(1) unfolding g by (auto elim!: tree_at_read)
  have "tree_at h t fs (Node c cb ((\<lambda>_. s)(d := Node a b f)))" using Cons.prems(1) unfolding g tree_at_frame .
  from Cons.IH [OF this k(2)] show ?case using k(1) v g by auto
qed

text \<open>A tree in the store with its count and its balance.\<close>

definition avl_rep :: "avl_heap \<Rightarrow> avl_tree \<Rightarrow> atree \<Rightarrow> bool" where
  "avl_rep h t T \<longleftrightarrow> tree_at h t [] T \<and> avl T \<and> at_num t = length (inorder T)"

lemma avl_rep_place:
  assumes "avl_rep h t T" "a \<in> set (inorder T)"
  obtains fs b f where "T = plug fs (Node a b f)" "tree_at h t fs (Node a b f)"
proof -
  have "\<exists>fs b f. S = plug fs (Node a b f)" if "a \<in> set (inorder S)" for S
    using that
  proof (induction S)
    case (Node c b f)
    show ?case
    proof (cases "a = c")
      case True
      then show ?thesis by (intro exI [of _ "[]"]) auto
    next
      case False
      then obtain d where "a \<in> set (inorder (f d))" using Node.prems by (auto intro: that)
      from Node.IH [OF rangeI this] obtain fs b' f' where "f d = plug fs (Node a b' f')" by blast
      then have "Node c b f = plug (fs @ [(d, c, b, f (\<not> d))]) (Node a b' f')"
        unfolding plug_append by (simp add: \<open>f d = _\<close> [symmetric])
      then show ?thesis by blast
    qed
  qed simp
  then show ?thesis using that assms tree_at_plug by (metis avl_rep_def)
qed

lemma avl_rep_distinct: "avl_rep h t T \<Longrightarrow> distinct (inorder T)"
  by (simp add: avl_rep_def tree_at_def)

text \<open>The nodes before and after a place are those before and after the node in order.\<close>

lemma split_place:
  assumes "avl_rep h t T" "T = plug fs (Node a b f)" "inorder T = xs @ a # ys"
  shows "xs = before fs @ inorder (f False)" "ys = inorder (f True) @ after fs"
proof -
  have eq: "xs @ a # ys = (before fs @ inorder (f False)) @ a # (inorder (f True) @ after fs)" using assms(2,3) by (simp add: inorder_plug)
  have "a \<notin> set xs" "a \<notin> set ys" using avl_rep_distinct [OF assms(1)] assms(3) by auto
  then show "xs = before fs @ inorder (f False)" "ys = inorder (f True) @ after fs"
    using eq append_Cons_eq_iff [of a xs ys "before fs @ inorder (f False)" "inorder (f True) @ after fs"] by auto
qed

lemma avl_rep_num: "avl_rep h t (plug fs (Node a b f)) \<Longrightarrow> length fs < at_num t \<and> length (inorder (Node a b f)) \<le> at_num t"
  using length_around [of fs] by (auto simp: avl_rep_def inorder_plug)

lemma avl_walk_result:
  assumes rep: "avl_rep h t T" and ord: "inorder T = xs @ a # ys"
  shows "avl_walk h t (Some a) True = Inr (first_opt ys)" "avl_walk h t (Some a) False = Inr (last_opt xs)"
proof -
  obtain fs b f where T: "T = plug fs (Node a b f)" and at: "tree_at h t fs (Node a b f)"
    by (rule avl_rep_place [OF rep]) (use ord in auto)
  note num = avl_rep_num [OF rep [unfolded T]]
  obtain v where v: "h a = Some v" "av_child v False = root (f False)" "av_child v True = root (f True)" by (rule tree_at_read [OF at])
  have sub: "is_tree h (f d) (Some a) d" "length (inorder (f d)) \<le> at_num t" for d
    using at num unfolding tree_at_def is_tree_Node [of _ _ _ _ _ _ d] by (cases d; auto)+
  have "avl_walk h t (Some a) d = Inr (if d then first_opt (inorder (f True) @ after fs) else last_opt (before fs @ inorder (f False)))" for d
    using v walk_down_result [OF sub(1) _ sub(2), of d "\<not> d"] walk_up_result [OF at, of "at_num t" "\<not> d"] num
    by (cases d; cases "f d = Tip") (auto simp: avl_walk_def edge_def)
  then show "avl_walk h t (Some a) True = Inr (first_opt ys)" "avl_walk h t (Some a) False = Inr (last_opt xs)"
    using split_place [OF rep T ord] by simp_all
qed

lemma avl_ends_result:
  assumes "avl_rep h t T"
  shows "avl_first h t = Inr (first_opt (inorder T))" "avl_last h t = Inr (last_opt (inorder T))"
  using assms end_loop_result [of h T None False "at_num t" _ None] by (auto simp: avl_rep_def tree_at_def avl_first_def avl_last_def edge_def)

end
