(* ===== verification/Acl_AvlFind.thy ===== *)
theory Acl_AvlFind
  imports Acl_AvlSearch
begin

text \<open>
  Trees as the user sees them: \<open>avl_rep\<close> relates the store to a balanced tree, and each operation is described by what it does to the
  nodes in order. What an operation needs of the user's \<open>compar\<close> is the locale \<open>comparator\<close>.
\<close>

section \<open>Height\<close>

lemma height_le_length: "height T \<le> length (inorder T)"
proof (induction T)
  case (Node a b f)
  then have "height (f False) \<le> length (inorder (f False))" "height (f True) \<le> length (inorder (f True))" by auto
  then show ?case by simp
qed simp

lemma avl_height: "avl T \<Longrightarrow> 2 ^ (height T div 2) \<le> length (inorder T) + 1"
proof (induction T)
  case (Node a b f)
  have IH: "2 ^ (height (f d) div 2) \<le> length (inorder (f d)) + 1" for d using Node by (cases d) auto
  define m where "m = (height (Node a b f) - 2) div 2"
  have "height (Node a b f) - 2 \<le> height (f d)" for d using Node.prems by (cases d) (auto simp: max_def)
  then have "m \<le> height (f d) div 2" for d unfolding m_def by (rule div_le_mono)
  then have "(2::nat) ^ m \<le> 2 ^ (height (f d) div 2)" for d by (intro power_increasing) simp_all
  then have "2 ^ m \<le> length (inorder (f d)) + 1" for d using IH order_trans by blast
  from add_mono [OF this [of False] this [of True]] have "2 ^ Suc m \<le> length (inorder (Node a b f)) + 1" by simp
  moreover have "height (Node a b f) div 2 \<le> Suc m" unfolding m_def by presburger
  then have "(2::nat) ^ (height (Node a b f) div 2) \<le> 2 ^ Suc m" by (rule power_increasing) simp
  ultimately show ?case by (rule order_trans [rotated])
qed simp

section \<open>Changes in order\<close>

lemma avl_insert_place:
  assumes rep: "avl_rep h t (plug fs Tip)" and "h a \<noteq> None" "a \<notin> set (inorder (plug fs Tip))"
  shows "\<exists>h' t' T'. avl_insert h t (Some a) (up_ptr fs, up_dir fs) = Inr (h', t') \<and> avl_rep h' t' T' \<and> inorder T' = before fs @ a # after fs
    \<and> (\<forall>x. x \<notin> set (inorder (plug fs Tip)) \<longrightarrow> x \<noteq> a \<longrightarrow> h' x = h x)"
proof -
  have at: "tree_at h t fs Tip" "avl_above fs 0" "at_num t = length (around fs)"
    using rep by (auto simp: avl_rep_def tree_at_plug avl_plug inorder_plug)
  obtain v where v: "h a = Some v" using assms(2) by blast
  have a: "a \<notin> set (around fs)" using assms(3) by (simp add: inorder_plug)
  obtain h' t' where r: "avl_insert h t (Some a) (up_ptr fs, up_dir fs) = Inr (h', t')" "tree_at h' t' [] (grow fs (Node a 0 (\<lambda>_. Tip)))"
    "at_num t' = Suc (at_num t)" "\<And>x. x \<notin> set (around fs) \<Longrightarrow> x \<noteq> a \<Longrightarrow> h' x = h x"
    using avl_insert_refines [OF at v a] by blast
  have "avl (grow fs (Node a 0 (\<lambda>_. Tip)))" by (rule avl_grow [OF at(2)]) simp_all
  then have "avl_rep h' t' (grow fs (Node a 0 (\<lambda>_. Tip)))" using r(2,3) at(3) by (simp add: avl_rep_def inorder_grow)
  then show ?thesis using r(1,4) by (intro exI [of _ h'] exI [of _ t'] exI [of _ "grow fs (Node a 0 (\<lambda>_. Tip))"]) (simp add: inorder_grow inorder_plug)
qed

lemma avl_remove_order:
  assumes rep: "avl_rep h t T" and ord: "inorder T = xs @ a # ys" and tmp: "tmp \<notin> set (inorder T)"
  shows "\<exists>h' t' T'. avl_remove h t tmp (Some a) = Inr (h', t') \<and> avl_rep h' t' T' \<and> inorder T' = xs @ ys \<and> h' a \<noteq> None
    \<and> (\<forall>x. x \<notin> set (inorder T) \<longrightarrow> x \<noteq> tmp \<longrightarrow> h' x = h x)"
proof -
  obtain fs b f where T: "T = plug fs (Node a b f)" and at: "tree_at h t fs (Node a b f)"
    by (rule avl_rep_place [OF rep]) (use ord in auto)
  have av: "avl (plug fs (Node a b f))" and num: "at_num t = length (around fs @ inorder (Node a b f))"
    and tmp': "tmp \<notin> set (around fs @ inorder (Node a b f))"
    using rep tmp unfolding T by (auto simp: avl_rep_def inorder_plug)
  obtain h1 t1 T1 where r: "remove_node h t tmp (Some a) = Inr (h1, t1)" "h1 a \<noteq> None" "tree_at h1 t1 [] T1" "avl T1" "Suc (at_num t1) = at_num t"
    "inorder T1 = before fs @ inorder (f False) @ inorder (f True) @ after fs"
    "\<And>x. x \<notin> set (around fs @ inorder (Node a b f)) \<Longrightarrow> x \<noteq> tmp \<Longrightarrow> h1 x = h x"
    using remove_node_refines [OF at av tmp' num] by blast
  have o1: "inorder T1 = xs @ ys" using split_place [OF rep T ord] r(6) by simp
  have "tmp \<noteq> a" using tmp ord by auto
  have "tree_at (h1(tmp := None)) t1 [] T1" using r(3) o1 tmp ord by (subst tree_at_upd) auto
  then have "avl_rep (h1(tmp := None)) t1 T1" using r(4,5) num o1 split_place [OF rep T ord] by (simp add: avl_rep_def)
  moreover have "(h1(tmp := None)) x = h x" if "x \<notin> set (inorder T)" "x \<noteq> tmp" for x
    using r(7) [of x] that by (simp add: T inorder_plug)
  moreover have "(h1(tmp := None)) a \<noteq> None" using r(2) \<open>tmp \<noteq> a\<close> by simp
  moreover have "avl_remove h t tmp (Some a) = Inr (h1(tmp := None), t1)" using r(1) by (simp add: avl_remove_def)
  ultimately show ?thesis using o1 by (intro exI [of _ "h1(tmp := None)"] exI [of _ t1] exI [of _ T1]) blast
qed

text \<open>The free place next to a node on one side.\<close>

lemma avl_insert_here_order:
  assumes rep: "avl_rep h t T" and ord: "inorder T = xs @ p # ys" and a: "h a \<noteq> None" "a \<notin> set (inorder T)"
  shows "\<exists>h' t' T'. avl_insert_here h t (Some a) (Some p) d = Inr (h', t') \<and> avl_rep h' t' T'
    \<and> inorder T' = (if d then xs @ p # a # ys else xs @ a # p # ys) \<and> (\<forall>x. x \<notin> set (inorder T) \<longrightarrow> x \<noteq> a \<longrightarrow> h' x = h x)"
proof -
  obtain fs b f where T: "T = plug fs (Node p b f)" and at: "tree_at h t fs (Node p b f)"
    by (rule avl_rep_place [OF rep]) (use ord in auto)
  note num = avl_rep_num [OF rep [unfolded T]] and sp = split_place [OF rep T ord]
  obtain v where v: "h p = Some v" "av_child v d = root (f d)" by (rule tree_at_read [OF at]) (cases d; auto)
  have sub: "is_tree h (f d) (Some p) d" "length (inorder (f d)) \<le> at_num t"
    using at num unfolding tree_at_def is_tree_Node [of _ _ _ _ _ _ d] by (cases d; auto)+
  have Tf: "T = plug ((d, p, b, f (\<not> d)) # fs) (f d)" unfolding T by simp
  have "\<exists>gs n e w. T = plug gs Tip \<and> up_ptr gs = Some n \<and> up_dir gs = e \<and> h n = Some w \<and> av_child w e = None
    \<and> (if av_child v d \<noteq> None then cbind (walk_down (at_num t) h (av_child v d) (\<not> d)) (\<lambda>n. Inr (n, \<not> d)) else Inr (Some p, d)) = Inr (Some n, e)
    \<and> before gs = (if d then xs @ [p] else xs) \<and> after gs = (if d then ys else p # ys)"
  proof (cases "f d = Tip")
    case True
    then show ?thesis using v Tf sp
      by (intro exI [of _ "(d, p, b, f (\<not> d)) # fs"] exI [of _ p] exI [of _ d] exI [of _ v]) (cases d; auto)
  next
    case False
    obtain gs n nb k where g: "plug gs (Node n nb k) = f d" "k (\<not> d) = Tip" "\<forall>g \<in> set gs. fst g = (\<not> d)" "walk_down (at_num t) h (root (f d)) (\<not> d) = Inr (Some n)"
      using walk_down_edge [OF sub(1) False sub(2), of "\<not> d"] by metis
    let ?gs = "(\<not> d, n, nb, k d) # gs @ (d, p, b, f (\<not> d)) # fs"
    have k: "(\<lambda>_. k d)(\<not> d := Tip) = k" using fun_dir [of k "\<not> d"] g(2) by simp
    have TT: "T = plug ?gs Tip" unfolding Tf plug.simps k plug_append g(1) by simp
    have "tree_at h t ?gs Tip" using rep TT tree_at_plug [of h t ?gs Tip] by (simp add: avl_rep_def)
    then obtain w where w: "h n = Some w" "av_child w (\<not> d) = None" by (auto simp: tree_at_def split: option.splits)
    have "before ?gs = (if d then xs @ [p] else xs)" "after ?gs = (if d then ys else p # ys)"
      using edge_order [OF g(3)] sp g(1) [symmetric] g(2) by (cases d; simp add: inorder_plug)+
    then show ?thesis using g(4) v TT w False by (intro exI [of _ ?gs] exI [of _ n] exI [of _ "\<not> d"] exI [of _ w]) auto
  qed
  then obtain gs n e w where g: "T = plug gs Tip" "up_ptr gs = Some n" "up_dir gs = e" "h n = Some w" "av_child w e = None"
    "(if av_child v d \<noteq> None then cbind (walk_down (at_num t) h (av_child v d) (\<not> d)) (\<lambda>n. Inr (n, \<not> d)) else Inr (Some p, d)) = Inr (Some n, e)"
    "before gs = (if d then xs @ [p] else xs)" "after gs = (if d then ys else p # ys)" by blast
  have rd: "avl_read h (Some p) = Inr v" using v(1) by simp
  have "avl_insert_here h t (Some a) (Some p) d = avl_insert h t (Some a) (up_ptr gs, up_dir gs)"
    unfolding avl_insert_here_def rd cbind_simps g(6) using g(2-5) by simp
  then show ?thesis using avl_insert_place [of h t gs a] rep a g(1,7,8) by (cases d) simp_all
qed

text \<open>What lies next to a free place.\<close>

lemma avl_nearest_place:
  assumes rep: "avl_rep h t (plug fs Tip)"
  shows "avl_nearest h t (up_ptr fs, up_dir fs) d = Inr (if d then first_opt (after fs) else last_opt (before fs))"
proof (cases fs rule: up_ptr.cases)
  case 1
  then show ?thesis using rep by (simp add: avl_nearest_def avl_rep_def tree_at_def)
next
  case (2 e p b s gs)
  have "inorder (plug fs Tip) = (before gs @ (if e then inorder s else [])) @ p # (if e then [] else inorder s) @ after gs"
    using 2 by (simp add: inorder_plug)
  from avl_walk_result [OF rep this] show ?thesis using 2 by (cases d; cases e) (auto simp: avl_nearest_def)
qed

section \<open>Search\<close>

lemma find_loop_mono: "find_loop k h cmp val x p q c = Inr r \<Longrightarrow> k \<le> m \<Longrightarrow> find_loop m h cmp val x p q c = Inr r"
proof (induction k arbitrary: m p q c)
  case 0
  then show ?case by (cases m) (auto split: if_splits)
next
  case (Suc k)
  obtain m' where m: "m = Suc m'" "k \<le> m'" using Suc.prems(2) by (cases m) auto
  show ?case using Suc.prems(1) Suc.IH [OF _ m(2)] unfolding m(1) by (auto simp: Let_def cbind_Inr_iff split: option.splits if_splits)
qed

text \<open>What \<open>avl_find\<close> relies on of the function the user gave to \<open>avl_create\<close>.\<close>

locale comparator =
  fixes cmp :: "'k \<Rightarrow> 'k \<Rightarrow> int"
  assumes cmp_unit: "cmp x y = -1 \<or> cmp x y = 0 \<or> cmp x y = 1"
    and cmp_flip: "cmp y x = - cmp x y"
    and cmp_trans: "cmp x y < 0 \<Longrightarrow> cmp y z \<le> 0 \<Longrightarrow> cmp x z < 0"

definition ordered :: "('k \<Rightarrow> 'k \<Rightarrow> int) \<Rightarrow> (addr \<Rightarrow> 'k) \<Rightarrow> addr list \<Rightarrow> bool" where
  "ordered cmp val xs = sorted_wrt (\<lambda>x y. cmp (val x) (val y) < 0) xs"

lemma ordered_append: "ordered cmp val (xs @ ys) \<longleftrightarrow> ordered cmp val xs \<and> ordered cmp val ys \<and> (\<forall>x \<in> set xs. \<forall>y \<in> set ys. cmp (val x) (val y) < 0)"
  by (simp add: ordered_def sorted_wrt_append)

lemma ordered_Cons: "ordered cmp val (x # xs) \<longleftrightarrow> (\<forall>y \<in> set xs. cmp (val x) (val y) < 0) \<and> ordered cmp val xs"
  by (simp add: ordered_def)

context comparator
begin

lemma cmp_flip_less: "cmp y x < 0 \<longleftrightarrow> cmp x y > 0"
  using cmp_flip [of x y] by simp

lemma cmp_trans_greater: "cmp x y > 0 \<Longrightarrow> cmp z y < 0 \<Longrightarrow> cmp x z > 0"
  using cmp_trans [of z y x] cmp_flip_less by (metis less_imp_le)

lemma find_loop_result:
  assumes "is_tree h S (up_ptr fs) (up_dir fs)" "ordered cmp val (inorder S)" "height S \<le> k"
  shows "(\<exists>a \<in> set (inorder S). cmp x (val a) = 0 \<and> find_loop k h cmp val x (root S) (up_ptr fs) (up_dir fs) = Inr (Some a, None, False))
    \<or> (\<exists>gs. plug gs Tip = S \<and> (\<forall>a \<in> set (before gs). cmp x (val a) > 0) \<and> (\<forall>a \<in> set (after gs). cmp x (val a) < 0)
        \<and> find_loop k h cmp val x (root S) (up_ptr fs) (up_dir fs) = Inr (None, up_ptr (gs @ fs), up_dir (gs @ fs)))"
  using assms
proof (induction S arbitrary: fs k)
  case Tip
  then show ?case by (intro disjI2 exI [of _ "[]"]) (cases k; simp)
next
  case (Node a b f)
  obtain k' where k: "k = Suc k'" using Node.prems(3) by (cases k) auto
  show ?case
  proof (cases "cmp x (val a) = 0")
    case True
    then show ?thesis using k by (intro disjI1 bexI [of _ a]) (simp_all add: Let_def)
  next
    case False
    define d where "d = (cmp x (val a) > 0)"
    have c: "cmp x (val a) = dir d" "avl_balance2child (cmp x (val a)) = Inr d"
      using False cmp_unit [of x "val a"] by (auto simp: d_def avl_balance2child_def)
    obtain v where v: "h a = Some v" "av_child v d = root (f d)" "is_tree h (f d) (Some a) d"
      using Node.prems(1) unfolding is_tree_Node [of _ _ _ _ _ _ d] by auto
    let ?fs = "(d, a, b, f (\<not> d)) # fs"
    have run: "find_loop k h cmp val x (root (Node a b f)) (up_ptr fs) (up_dir fs) = find_loop k' h cmp val x (root (f d)) (up_ptr ?fs) (up_dir ?fs)"
      using k v c False by (cases d) (simp_all add: Let_def)
    have sub: "ordered cmp val (inorder (f d))" "height (f d) \<le> k'"
      using Node.prems(2,3) k by (cases d; auto simp: ordered_append ordered_Cons)+
    have tree: "is_tree h (f d) (up_ptr ?fs) (up_dir ?fs)" using v(3) by simp
    have inc: "y \<in> set (inorder (f d)) \<Longrightarrow> y \<in> set (inorder (Node a b f))" for y by (cases d) auto
    have near: "\<forall>y \<in> set (inorder (f (\<not> d))). if d then cmp x (val y) > 0 else cmp x (val y) < 0"
      using Node.prems(2) c(1) cmp_trans [of x "val a"] cmp_trans_greater [of x "val a"]
      by (cases d) (auto simp: ordered_append ordered_Cons less_imp_le)
    from Node.IH [OF rangeI tree sub] show ?thesis
    proof
      assume "\<exists>y \<in> set (inorder (f d)). cmp x (val y) = 0 \<and> find_loop k' h cmp val x (root (f d)) (up_ptr ?fs) (up_dir ?fs) = Inr (Some y, None, False)"
      then show ?thesis unfolding run using inc by blast
    next
      assume "\<exists>gs. plug gs Tip = f d \<and> (\<forall>a \<in> set (before gs). cmp x (val a) > 0) \<and> (\<forall>a \<in> set (after gs). cmp x (val a) < 0)
        \<and> find_loop k' h cmp val x (root (f d)) (up_ptr ?fs) (up_dir ?fs) = Inr (None, up_ptr (gs @ ?fs), up_dir (gs @ ?fs))"
      then obtain gs where g: "plug gs Tip = f d" "\<forall>a \<in> set (before gs). cmp x (val a) > 0" "\<forall>a \<in> set (after gs). cmp x (val a) < 0"
        "find_loop k' h cmp val x (root (f d)) (up_ptr ?fs) (up_dir ?fs) = Inr (None, up_ptr (gs @ ?fs), up_dir (gs @ ?fs))" by blast
      let ?gs = "gs @ [(d, a, b, f (\<not> d))]"
      have "plug ?gs Tip = Node a b f" by (simp add: plug_append g(1))
      moreover have "\<forall>a \<in> set (before ?gs). cmp x (val a) > 0" "\<forall>a \<in> set (after ?gs). cmp x (val a) < 0" using g(2,3) near c(1) by (cases d; auto)+
      ultimately show ?thesis unfolding run g(4) by (intro disjI2 exI [of _ ?gs]) simp
    qed
  qed
qed

lemma find_steps:
  assumes rep: "avl_rep h t T" and ord: "ordered cmp val (inorder T)" and k: "height T \<le> k"
  shows "(\<exists>a \<in> set (inorder T). cmp x (val a) = 0 \<and> find_loop k h cmp val x (at_root t) None False = Inr (Some a, None, False))
    \<or> (\<exists>fs. plug fs Tip = T \<and> (\<forall>a \<in> set (before fs). cmp x (val a) > 0) \<and> (\<forall>a \<in> set (after fs). cmp x (val a) < 0)
        \<and> find_loop k h cmp val x (at_root t) None False = Inr (None, up_ptr fs, up_dir fs))"
  using find_loop_result [of h T "[]" val k x] assms by (simp add: avl_rep_def tree_at_def)

lemma find_cases:
  assumes rep: "avl_rep h t T" and ord: "ordered cmp val (inorder T)"
  obtains (found) a where "a \<in> set (inorder T)" "cmp x (val a) = 0" "avl_find h t cmp val x = Inr (Some a, None, False)"
  | (place) fs where "plug fs Tip = T" "\<forall>a \<in> set (before fs). cmp x (val a) > 0" "\<forall>a \<in> set (after fs). cmp x (val a) < 0"
      "avl_find h t cmp val x = Inr (None, up_ptr fs, up_dir fs)"
proof -
  have "height T \<le> at_num t" using rep height_le_length [of T] by (simp add: avl_rep_def)
  from find_steps [OF rep ord this, of x] show ?thesis using found place unfolding avl_find_def by blast
qed

lemma add_order:
  assumes rep: "avl_rep h t T" and ord: "ordered cmp val (inorder T)" and a: "h a \<noteq> None" "a \<notin> set (inorder T)"
    and new: "\<forall>y \<in> set (inorder T). cmp (val a) (val y) \<noteq> 0"
  shows "\<exists>h' t' T' xs ys. avl_add h t cmp val a = Inr (h', t') \<and> avl_rep h' t' T' \<and> inorder T = xs @ ys \<and> inorder T' = xs @ a # ys
    \<and> ordered cmp val (inorder T') \<and> (\<forall>x. x \<notin> set (inorder T) \<longrightarrow> x \<noteq> a \<longrightarrow> h' x = h x)"
proof (cases rule: find_cases [OF rep ord, of "val a", case_names found place])
  case (found y)
  then show ?thesis using new by blast
next
  case (place fs)
  have "avl_rep h t (plug fs Tip)" "a \<notin> set (inorder (plug fs Tip))" using rep a place(1) by auto
  from avl_insert_place [OF this(1) a(1) this(2)] obtain h' t' T' where r: "avl_insert h t (Some a) (up_ptr fs, up_dir fs) = Inr (h', t')"
    "avl_rep h' t' T'" "inorder T' = before fs @ a # after fs" "\<And>x. x \<notin> set (inorder T) \<Longrightarrow> x \<noteq> a \<Longrightarrow> h' x = h x" unfolding place(1) by blast
  have i: "inorder T = before fs @ after fs" using place(1) by (metis append_Nil inorder.simps(1) inorder_plug)
  have "ordered cmp val (before fs @ a # after fs)"
    using ord i place(2,3) cmp_flip_less by (auto simp: ordered_append ordered_Cons)
  then show ?thesis using r i place(4) by (intro exI [of _ h'] exI [of _ t'] exI [of _ T'] exI [of _ "before fs"] exI [of _ "after fs"]) (auto simp: avl_add_def)
qed

lemma add_present:
  assumes rep: "avl_rep h t T" and ord: "ordered cmp val (inorder T)" and y: "y \<in> set (inorder T)" "cmp (val a) (val y) = 0"
  shows "avl_add h t cmp val a = Inl Fatal"
proof (cases rule: find_cases [OF rep ord, of "val a", case_names found place])
  case (place fs)
  have "inorder T = before fs @ after fs" using place(1) by (metis append_Nil inorder.simps(1) inorder_plug)
  then show ?thesis using y place(2,3) by fastforce
qed (simp add: avl_add_def)

lemma equal_key_unique:
  assumes "ordered cmp val xs" "a \<in> set xs" "b \<in> set xs" "cmp x (val a) = 0" "cmp x (val b) = 0"
  shows "b = a"
proof (rule ccontr)
  assume "b \<noteq> a"
  then have "cmp (val a) (val b) < 0 \<or> cmp (val b) (val a) < 0"
    using assms(1-3) by (induction xs) (auto simp: ordered_Cons)
  moreover have "cmp (val a) x = 0" "cmp (val b) x = 0" using assms(4,5) cmp_flip [of _ x] by auto
  ultimately show False using cmp_trans [of "val a" "val b" x] cmp_trans [of "val b" "val a" x] by auto
qed

lemma reinsert_order:
  assumes rep: "avl_rep h t T" and split: "inorder T = xs @ a # ys" and ord: "ordered cmp val (xs @ ys)" and tmp: "tmp \<notin> set (inorder T)"
    and new: "\<forall>y \<in> set (xs @ ys). cmp (val a) (val y) \<noteq> 0"
  shows "\<exists>h' t' T'. avl_reinsert h t cmp val tmp a = Inr (h', t') \<and> avl_rep h' t' T' \<and> set (inorder T') = set (inorder T)
    \<and> ordered cmp val (inorder T') \<and> (\<forall>x. x \<notin> set (inorder T) \<longrightarrow> x \<noteq> tmp \<longrightarrow> h' x = h x)"
proof -
  obtain h1 t1 T1 where r: "avl_remove h t tmp (Some a) = Inr (h1, t1)" "avl_rep h1 t1 T1" "inorder T1 = xs @ ys" "h1 a \<noteq> None"
    "\<And>x. x \<notin> set (inorder T) \<Longrightarrow> x \<noteq> tmp \<Longrightarrow> h1 x = h x"
    using avl_remove_order [OF rep split tmp] by blast
  have a: "a \<notin> set (inorder T1)" using avl_rep_distinct [OF rep] split r(3) by auto
  obtain h2 t2 T2 us vs where i: "avl_add h1 t1 cmp val a = Inr (h2, t2)" "avl_rep h2 t2 T2" "inorder T1 = us @ vs" "inorder T2 = us @ a # vs"
    "ordered cmp val (inorder T2)" "\<And>x. x \<notin> set (inorder T1) \<Longrightarrow> x \<noteq> a \<Longrightarrow> h2 x = h1 x"
    using add_order [OF r(2) _ r(4) a, of val] ord new unfolding r(3) by blast
  have "set (inorder T2) = insert a (set (inorder T1))" using i(3,4) by auto
  then have "set (inorder T2) = set (inorder T)" using r(3) split by auto
  moreover have "h2 x = h x" if "x \<notin> set (inorder T)" "x \<noteq> tmp" for x using i(6) [of x] r(5) [OF that] that split r(3) by auto
  ultimately show ?thesis using r(1) i(1,2,5) by (intro exI [of _ h2] exI [of _ t2] exI [of _ T2]) (simp add: avl_reinsert_def)
qed

text \<open>A node is out of order only with respect to its neighbours.\<close>

lemma ordered_middle:
  assumes "ordered cmp val (xs @ ys)"
  shows "ordered cmp val (xs @ a # ys) \<longleftrightarrow>
    (case last_opt xs of None \<Rightarrow> True | Some p \<Rightarrow> cmp (val a) (val p) > 0) \<and> (case first_opt ys of None \<Rightarrow> True | Some n \<Rightarrow> cmp (val a) (val n) < 0)"
proof -
  have x: "(\<forall>x \<in> set xs. cmp (val x) (val a) < 0) \<longleftrightarrow> (case last_opt xs of None \<Rightarrow> True | Some p \<Rightarrow> cmp (val a) (val p) > 0)"
  proof (cases xs rule: rev_cases)
    case (snoc us p)
    then have "\<forall>u \<in> set us. cmp (val u) (val p) < 0" using assms by (simp add: ordered_append ordered_Cons)
    then have "cmp (val p) (val a) < 0 \<Longrightarrow> \<forall>u \<in> set us. cmp (val u) (val a) < 0" using cmp_trans by (meson less_imp_le)
    then show ?thesis using snoc cmp_flip_less [of "val p" "val a"] by auto
  qed simp
  have y: "(\<forall>y \<in> set ys. cmp (val a) (val y) < 0) \<longleftrightarrow> (case first_opt ys of None \<Rightarrow> True | Some n \<Rightarrow> cmp (val a) (val n) < 0)"
  proof (cases ys)
    case (Cons n us)
    then have "\<forall>u \<in> set us. cmp (val n) (val u) < 0" using assms by (simp add: ordered_append ordered_Cons)
    then have "cmp (val a) (val n) < 0 \<Longrightarrow> \<forall>u \<in> set us. cmp (val a) (val u) < 0" using cmp_trans by (meson less_imp_le)
    then show ?thesis using Cons by auto
  qed simp
  have "ordered cmp val (xs @ a # ys) \<longleftrightarrow> (\<forall>x \<in> set xs. cmp (val x) (val a) < 0) \<and> (\<forall>y \<in> set ys. cmp (val a) (val y) < 0)"
    using assms by (auto simp: ordered_append ordered_Cons)
  then show ?thesis unfolding x y .
qed

lemma neighbour_in: "last_opt xs = Some p \<Longrightarrow> p \<in> set xs" "first_opt ys = Some n \<Longrightarrow> n \<in> set ys"
  by (auto simp: last_opt_def first_opt_def split: if_splits list.splits)

lemma update_order:
  assumes rep: "avl_rep h t T" and split: "inorder T = xs @ a # ys" and ord: "ordered cmp val (xs @ ys)" and tmp: "tmp \<notin> set (inorder T)"
    and new: "\<forall>y \<in> set (xs @ ys). cmp (val a) (val y) \<noteq> 0"
  shows "\<exists>m h' t' T'. avl_update h t cmp val tmp a = Inr (m, h', t') \<and> m = (\<not> ordered cmp val (inorder T)) \<and> avl_rep h' t' T'
    \<and> set (inorder T') = set (inorder T) \<and> ordered cmp val (inorder T') \<and> (\<forall>x. x \<notin> set (inorder T) \<longrightarrow> x \<noteq> tmp \<longrightarrow> h' x = h x)"
proof -
  obtain h1 t1 T1 where r: "avl_reinsert h t cmp val tmp a = Inr (h1, t1)" "avl_rep h1 t1 T1" "set (inorder T1) = set (inorder T)"
    "ordered cmp val (inorder T1)" "\<forall>x. x \<notin> set (inorder T) \<longrightarrow> x \<noteq> tmp \<longrightarrow> h1 x = h x"
    using reinsert_order [OF assms] by blast
  have sign: "cmp (val a) (val y) < 0 \<or> cmp (val a) (val y) > 0" if "y \<in> set (xs @ ys)" for y using new that by (meson linorder_cases)
  have near: "(case last_opt xs of None \<Rightarrow> False | Some p \<Rightarrow> cmp (val a) (val p) < 0) \<or> (case first_opt ys of None \<Rightarrow> False | Some n \<Rightarrow> cmp (val a) (val n) > 0)
      \<longleftrightarrow> \<not> ordered cmp val (inorder T)"
    unfolding split ordered_middle [OF ord] using sign neighbour_in(1) [of xs] neighbour_in(2) [of ys] by (auto split: option.splits dest: order_less_asym)
  have run: "avl_update h t cmp val tmp a = (if ordered cmp val (inorder T) then Inr (False, h, t) else Inr (True, h1, t1))"
    unfolding avl_update_def avl_walk_result [OF rep split] cbind_simps r(1) using near by (simp split: if_split) blast
  show ?thesis
  proof (cases "ordered cmp val (inorder T)")
    case True
    then show ?thesis unfolding run using rep by auto
  next
    case False
    then show ?thesis unfolding run using r(2-5) by auto
  qed
qed

end

end
