(* ===== verification/Acl_AvlDestroy.thy ===== *)
theory Acl_AvlDestroy
  imports Acl_AvlFind
begin

text \<open>
  Visiting a tree with \<open>avl_destroy_nodes\<close> while the user frees the nodes it returns. A node that was returned last is at
  a place of the tree; of the nodes above it those are left that the way to the place leaves on the right.
\<close>

primrec postorder :: "atree \<Rightarrow> addr list" where
  "postorder Tip = []"
| "postorder (Node a b f) = postorder (f False) @ postorder (f True) @ [a]"

fun rest :: "frame list \<Rightarrow> addr list" where
  "rest [] = []"
| "rest ((d, a, b, s) # fs) = postorder s @ a # rest fs"

fun left_open :: "frame list \<Rightarrow> bool" where
  "left_open [] = True"
| "left_open ((d, a, b, s) # fs) \<longleftrightarrow> (d \<longrightarrow> s = Tip) \<and> avl s \<and> left_open fs"

lemma rest_append [simp]: "rest (gs @ fs) = rest gs @ rest fs"
  by (induction gs rule: rest.induct) auto

lemma left_open_append [simp]: "left_open (gs @ fs) \<longleftrightarrow> left_open gs \<and> left_open fs"
  by (induction gs rule: left_open.induct) auto

lemma postorder_plug: "left_open gs \<Longrightarrow> postorder (plug gs X) = postorder X @ rest gs"
  by (induction gs X rule: plug.induct) auto

lemma set_postorder: "set (postorder T) = set (inorder T)" "length (postorder T) = length (inorder T)"
proof -
  have "mset (postorder T) = mset (inorder T)"
  proof (induction T)
    case (Node a b f)
    then have "mset (postorder (f False)) = mset (inorder (f False))" "mset (postorder (f True)) = mset (inorder (f True))" by auto
    then show ?case by simp
  qed simp
  then show "set (postorder T) = set (inorder T)" "length (postorder T) = length (inorder T)" by (metis set_mset_mset, metis size_mset)
qed

lemma length_rest: "length (rest fs) = length (around fs)"
  by (induction fs rule: rest.induct) (auto simp: set_postorder)

definition cook :: "frame list \<Rightarrow> avl_index" where
  "cook fs = (if fs = [] then (None, True) else (up_ptr fs, up_dir fs))"

lemma leftmost_edge:
  assumes "is_tree h S (up_ptr fs) (up_dir fs)" "S \<noteq> Tip" "length (inorder S) \<le> m" "avl S"
  shows "\<exists>gs n b f. plug gs (Node n b f) = S \<and> f False = Tip \<and> (\<forall>g \<in> set gs. fst g = False) \<and> left_open gs \<and> avl (Node n b f)
    \<and> leftmost_loop m h (root S) (up_ptr fs) = Inr (Some n, up_ptr (gs @ fs))"
  using assms
proof (induction S arbitrary: fs m)
  case (Node a b f)
  obtain m' where m: "m = Suc m'" "length (inorder (f False)) \<le> m'" using Node.prems(3) by (cases m) auto
  obtain v where v: "h a = Some v" "av_child v False = root (f False)" "is_tree h (f False) (Some a) False" using Node.prems(1) by (auto split: option.splits)
  show ?case
  proof (cases "f False = Tip")
    case True
    then show ?thesis using m v Node.prems(4) by (intro exI [of _ "[]"] exI [of _ a] exI [of _ b] exI [of _ f]) auto
  next
    case False
    let ?fs = "(False, a, b, f True) # fs"
    have tree: "is_tree h (f False) (up_ptr ?fs) (up_dir ?fs)" and av: "avl (f False)" "avl (f True)" using v(3) Node.prems(4) by auto
    obtain gs n nb k where g: "plug gs (Node n nb k) = f False" "k False = Tip" "\<forall>g \<in> set gs. fst g = False" "left_open gs" "avl (Node n nb k)"
      "leftmost_loop m' h (root (f False)) (up_ptr ?fs) = Inr (Some n, up_ptr (gs @ ?fs))"
      using Node.IH [OF rangeI tree False m(2) av(1)] by blast
    let ?gs = "gs @ [(False, a, b, f True)]"
    have "plug ?gs (Node n nb k) = Node a b f" using fun_dir [of f False] by (simp add: plug_append g(1))
    moreover have "leftmost_loop m h (root (Node a b f)) (up_ptr fs) = Inr (Some n, up_ptr (?gs @ fs))" using g(6) m(1) v False by simp
    ultimately show ?thesis using g(2-5) av(2) by (intro exI [of _ ?gs] exI [of _ n] exI [of _ nb] exI [of _ k]) auto
  qed
qed simp

abbreviation leaf :: "addr \<Rightarrow> atree" where
  "leaf m \<equiv> Node m 0 (\<lambda>_. Tip)"

lemma check_right_side_result:
  assumes at: "tree_at h t fs (Node n b f)" and av: "avl (Node n b f)" and f: "f False = Tip"
  shows "\<exists>gs m. check_right_side h t (Some n) (up_ptr fs) = Inr (Some m, cook (gs @ fs), h, t) \<and> plug gs (leaf m) = Node n b f \<and> left_open gs"
proof -
  obtain v where v: "h n = Some v" "av_child v True = root (f True)" "av_index v = up_dir fs" "av_balance v = b" by (rule tree_at_read [OF at])
  have top: "fs = [] \<Longrightarrow> at_root t = Some n" using at by (simp add: tree_at_def)
  have fe: "f = (\<lambda>_. Tip)(True := f True)" using fun_dir [of f True] f by simp
  show ?thesis
  proof (cases "f True")
    case Tip
    then have "b = 0" "f = (\<lambda>_. Tip)" using av f fe by auto
    then show ?thesis using v Tip top by (intro exI [of _ "[]"] exI [of _ n]) (auto simp: check_right_side_def destroy_done_def cook_def)
  next
    case (Node m mb k)
    then have b: "b = 1" "height (f True) = 1" using av f by auto
    then have "k False = Tip" "k True = Tip" using Node by (auto simp: height_Tip)
    moreover have "k = (\<lambda>_. Tip)" using fun_dir [of k True] calculation by auto
    moreover have "mb = 0" using av Node calculation by simp
    ultimately have k: "f True = leaf m" using Node by simp
    have "is_tree h (f True) (Some n) True" using at by (simp add: tree_at_def)
    then obtain w where w: "h m = Some w" "av_child w False = None" "av_child w True = None" "av_index w" unfolding k by (auto split: option.splits)
    have "plug [(True, n, b, Tip)] (leaf m) = Node n b f" using fe k by simp
    moreover have "check_right_side h t (Some n) (up_ptr fs) = Inr (Some m, cook ([(True, n, b, Tip)] @ fs), h, t)"
      using v w b k by (simp add: check_right_side_def destroy_done_def cook_def)
    ultimately show ?thesis by (intro exI [of _ "[(True, n, b, Tip)]"] exI [of _ m]) simp
  qed
qed

text \<open>From the root of an untouched subtree to the node of it that is returned first.\<close>

lemma descend:
  assumes at: "tree_at h t fs S" and "S \<noteq> Tip" "avl S" "length (inorder S) \<le> k"
  shows "\<exists>gs m. cbind (leftmost_loop k h (root S) (up_ptr fs)) (\<lambda>(node, parent). check_right_side h t node parent) = Inr (Some m, cook (gs @ fs), h, t)
    \<and> plug gs (leaf m) = S \<and> left_open gs \<and> tree_at h t (gs @ fs) (leaf m)"
proof -
  have "is_tree h S (up_ptr fs) (up_dir fs)" using at by (simp add: tree_at_def)
  from leftmost_edge [OF this assms(2,4,3)] obtain gs n b f where g: "plug gs (Node n b f) = S" "f False = Tip" "left_open gs" "avl (Node n b f)"
    "leftmost_loop k h (root S) (up_ptr fs) = Inr (Some n, up_ptr (gs @ fs))" by blast
  have "tree_at h t (gs @ fs) (Node n b f)" using at tree_at_plug [of h t "gs @ fs" "Node n b f"] tree_at_plug [of h t fs S] g(1) by (simp add: plug_append)
  from check_right_side_result [OF this g(4,2)] obtain ks m where k: "check_right_side h t (Some n) (up_ptr (gs @ fs)) = Inr (Some m, cook (ks @ gs @ fs), h, t)"
    "plug ks (leaf m) = Node n b f" "left_open ks" by blast
  have S: "plug (ks @ gs) (leaf m) = S" using k(2) g(1) by (simp add: plug_append)
  then have "tree_at h t ((ks @ gs) @ fs) (leaf m)" using at tree_at_plug [of h t "(ks @ gs) @ fs" "leaf m"] tree_at_plug [of h t fs S] by (simp add: plug_append)
  then show ?thesis using S k g by (intro exI [of _ "ks @ gs"] exI [of _ m]) simp
qed

text \<open>The states between two calls: the node that was returned last is freed, the tree still counts it and points to it.\<close>

definition gone :: "avl_heap \<Rightarrow> avl_tree \<Rightarrow> frame list \<Rightarrow> addr \<Rightarrow> bool" where
  "gone h t fs n \<longleftrightarrow> is_ctx h t (Some n) fs \<and> distinct (around fs) \<and> at_num t = Suc (length (around fs)) \<and> left_open fs"

lemma gone_free:
  assumes "tree_at h t fs (leaf m)" "left_open fs" "at_num t = Suc (length (around fs))"
  shows "gone (h(m := None)) t fs m"
  using assms by (auto simp: gone_def tree_at_def)

lemma destroy_next:
  assumes gone: "gone h t ((d, a, b, s) # fs) n"
  shows "\<exists>gs m h1 t1. avl_destroy_nodes h t (cook ((d, a, b, s) # fs)) = Inr (Some m, cook gs, h1, t1) \<and> gone (h1(m := None)) t1 gs m
    \<and> rest ((d, a, b, s) # fs) = m # rest gs \<and> set (around ((d, a, b, s) # fs)) = insert m (set (around gs))
    \<and> (\<forall>x. x \<notin> set (around ((d, a, b, s) # fs)) \<longrightarrow> h1 x = h x)"
proof -
  let ?F = "(d, a, b, s) # fs"
  have ctx: "is_ctx h t (Some n) ?F" "distinct (around ?F)" "at_num t = Suc (length (around ?F))" "d \<longrightarrow> s = Tip" "avl s" "left_open fs"
    using gone by (auto simp: gone_def)
  obtain v where v: "h a = Some v" "av_child v d = Some n" "av_child v (\<not> d) = root s" "av_parent v = up_ptr fs" "av_index v = up_dir fs"
    "is_tree h s (Some a) (\<not> d)" "is_ctx h t (Some a) fs"
    using ctx(1) by (auto split: option.splits)
  have D: "a \<notin> set (around fs)" "distinct (before fs @ inorder s @ after fs)" "a \<notin> set (inorder s)" using ctx(2) by (cases d; auto)+
  define v1 where "v1 = v\<lparr>av_child := (av_child v)(d := None)\<rparr>"
  define h1 where "h1 = h(a \<mapsto> v1)"
  let ?t = "t\<lparr>at_num := at_num t - 1\<rparr>"
  have num: "at_num t > 1" "at_num ?t = length (around ?F)" using ctx(3) by (cases d; simp)+
  have step: "avl_destroy_nodes h t (cook ?F) =
      (if d \<or> av_child v1 True = None then destroy_done h1 ?t (Some a) (up_ptr fs)
       else cbind (leftmost_loop (at_num ?t) h1 (av_child v1 True) (Some a)) (\<lambda>(node, parent). check_right_side h1 ?t node parent))"
    using v num(1) by (simp add: avl_destroy_nodes_def cook_def Let_def set_child_def h1_def v1_def)
  have off: "h1 x = h x" if "x \<notin> set (around ?F)" for x using that by (cases d) (auto simp: h1_def)
  show ?thesis
  proof (cases "d \<or> s = Tip")
    case True
    then have s: "s = Tip" using ctx(4) by blast
    have c: "d \<or> av_child v1 True = None" using True v(3) s by (cases d) (auto simp: v1_def)
    have top: "fs = [] \<Longrightarrow> at_root t = Some a" using v(7) by simp
    have "destroy_done h1 ?t (Some a) (up_ptr fs) = Inr (Some a, cook fs, h1, ?t)"
      using top v(5) by (auto simp: destroy_done_def cook_def h1_def v1_def)
    moreover have "gone (h1(a := None)) ?t fs a"
      using v(7) D s num(2) ctx(6) by (cases d) (auto simp: gone_def h1_def)
    ultimately show ?thesis using step c off s
      by (intro exI [of _ fs] exI [of _ a] exI [of _ h1] exI [of _ ?t]) (cases d; auto)
  next
    case False
    then have d: "\<not> d" "s \<noteq> Tip" by auto
    let ?fs = "(True, a, b, Tip) # fs"
    have c: "\<not> (d \<or> av_child v1 True = None)" "av_child v1 True = root s" using d v(3) by (auto simp: v1_def)
    have at: "tree_at h1 ?t ?fs s" unfolding tree_at_def using v d D ctx(1) gone
      by (auto simp: h1_def v1_def gone_def)
    have len: "length (inorder s) \<le> at_num ?t" using num(2) d by simp
    obtain gs m where g: "cbind (leftmost_loop (at_num ?t) h1 (root s) (up_ptr ?fs)) (\<lambda>(node, parent). check_right_side h1 ?t node parent)
        = Inr (Some m, cook (gs @ ?fs), h1, ?t)" "plug gs (leaf m) = s" "left_open gs" "tree_at h1 ?t (gs @ ?fs) (leaf m)"
      using descend [OF at d(2) ctx(5) len] by blast
    have o: "inorder s = before gs @ m # after gs" "postorder s = m # rest gs"
      using g(2) postorder_plug [OF g(3), of "leaf m"] inorder_plug [of gs "leaf m"] by simp_all
    have "gone (h1(m := None)) ?t (gs @ ?fs) m" by (rule gone_free [OF g(4)]) (use g(3) ctx(6) num(2) d o in simp_all)
    then show ?thesis using step c g(1) off o d
      by (intro exI [of _ "gs @ ?fs"] exI [of _ m] exI [of _ h1] exI [of _ ?t]) auto
  qed
qed

lemma destroy_rest:
  assumes "gone h t fs n" "length (rest fs) < k"
  shows "\<exists>h' t'. destroy_all k h t (cook fs) = Inr (rest fs, h', t') \<and> at_root t' = None \<and> at_num t' = 0
    \<and> (\<forall>x \<in> set (around fs). h' x = None) \<and> (\<forall>x. x \<notin> set (around fs) \<longrightarrow> h' x = h x)"
  using assms
proof (induction k arbitrary: h t fs n)
  case (Suc k)
  show ?case
  proof (cases fs rule: rest.cases)
    case 1
    then show ?thesis using Suc.prems(1) by (auto simp: gone_def cook_def avl_destroy_nodes_def Let_def)
  next
    case (2 d a b s fs')
    obtain gs m h1 t1 where g: "avl_destroy_nodes h t (cook fs) = Inr (Some m, cook gs, h1, t1)" "gone (h1(m := None)) t1 gs m"
      "rest fs = m # rest gs" "set (around fs) = insert m (set (around gs))" "\<And>x. x \<notin> set (around fs) \<Longrightarrow> h1 x = h x"
      using destroy_next [of h t d a b s fs' n] Suc.prems(1) unfolding 2 by blast
    have "length (rest gs) < k" using Suc.prems(2) g(3) by simp
    from Suc.IH [OF g(2) this] obtain h' t' where r: "destroy_all k (h1(m := None)) t1 (cook gs) = Inr (rest gs, h', t')" "at_root t' = None" "at_num t' = 0"
      "\<And>x. x \<in> set (around gs) \<Longrightarrow> h' x = None" "\<And>x. x \<notin> set (around gs) \<Longrightarrow> h' x = (h1(m := None)) x" by blast
    have "h' x = None" if "x \<in> set (around fs)" for x using that r(4,5) unfolding g(4) by (cases "x \<in> set (around gs)") auto
    moreover have "h' x = h x" if "x \<notin> set (around fs)" for x using that r(5) g(5) unfolding g(4) by auto
    ultimately show ?thesis using g(1,3) r(1-3) by (intro exI [of _ h'] exI [of _ t']) simp
  qed
qed simp

lemma destroy_all_result:
  assumes rep: "avl_rep h t T"
  shows "\<exists>h' t'. destroy_all (at_num t + 1) h t (None, False) = Inr (postorder T, h', t') \<and> avl_destroy t' = Inr ()
    \<and> (\<forall>x \<in> set (inorder T). h' x = None) \<and> (\<forall>x. x \<notin> set (inorder T) \<longrightarrow> h' x = h x)"
proof (cases "T = Tip")
  case True
  then show ?thesis using rep avl_ends_result [OF rep] by (auto simp: avl_rep_def tree_at_def avl_destroy_nodes_def avl_destroy_def)
next
  case False
  have at: "tree_at h t [] T" and av: "avl T" and num: "at_num t = length (inorder T)" using rep by (auto simp: avl_rep_def)
  have "is_tree h T (up_ptr []) (up_dir [])" using at by (simp add: tree_at_def)
  from leftmost_edge [OF this False _ av, of "at_num t"] num obtain gs n b f where g: "plug gs (Node n b f) = T" "f False = Tip" "\<forall>g \<in> set gs. fst g = False"
    "left_open gs" "avl (Node n b f)" by auto
  have "first_opt (inorder T) = Some n" using edge_plug [OF g(3), of f n b] g(1,2) by (simp add: edge_def)
  then have first: "avl_first h t = Inr (Some n)" using avl_ends_result(1) [OF rep] by simp
  have at': "tree_at h t gs (Node n b f)" using at g(1) tree_at_plug [of h t gs "Node n b f"] by simp
  obtain v where v: "h n = Some v" "av_parent v = up_ptr gs" by (rule tree_at_read [OF at'])
  obtain ks m where k: "check_right_side h t (Some n) (up_ptr gs) = Inr (Some m, cook (ks @ gs), h, t)" "plug ks (leaf m) = Node n b f" "left_open ks"
    using check_right_side_result [OF at' g(5,2)] by blast
  have T: "plug (ks @ gs) (leaf m) = T" using k(2) g(1) by (simp add: plug_append)
  have o: "inorder T = before (ks @ gs) @ m # after (ks @ gs)" "postorder T = m # rest (ks @ gs)"
    using T inorder_plug [of "ks @ gs" "leaf m"] postorder_plug [of "ks @ gs" "leaf m"] k(3) g(4) by auto
  have "gone (h(m := None)) t (ks @ gs) m"
    by (rule gone_free) (use T at tree_at_plug [of h t "ks @ gs" "leaf m"] k(3) g(4) num o(1) in auto)
  moreover have "length (rest (ks @ gs)) < at_num t" using num o set_postorder(2) [of T] by simp
  ultimately obtain h' t' where r: "destroy_all (at_num t) (h(m := None)) t (cook (ks @ gs)) = Inr (rest (ks @ gs), h', t')" "at_root t' = None" "at_num t' = 0"
    "\<And>x. x \<in> set (around (ks @ gs)) \<Longrightarrow> h' x = None" "\<And>x. x \<notin> set (around (ks @ gs)) \<Longrightarrow> h' x = (h(m := None)) x"
    using destroy_rest [of "h(m := None)" t "ks @ gs" m "at_num t"] by blast
  have run: "destroy_all (at_num t + 1) h t (None, False) = Inr (postorder T, h', t')"
    using first v k(1) r(1) o(2) by (simp add: avl_destroy_nodes_def)
  have whole: "set (inorder T) = insert m (set (around (ks @ gs)))" using o(1) by auto
  have "h' x = None" if "x \<in> set (inorder T)" for x using that r(4,5) unfolding whole by (cases "x \<in> set (around (ks @ gs))") auto
  moreover have "h' x = h x" if "x \<notin> set (inorder T)" for x using that r(5) unfolding whole by auto
  ultimately show ?thesis using run r(2,3) by (auto simp: avl_destroy_def)
qed

end
