(* ===== verification/Acl_AvlPcb.thy ===== *)
theory Acl_AvlPcb
  imports Acl_Prelude
begin

unbundle bit_operations_syntax

text \<open>
  The word in which \<open>avl_impl.h\<close> keeps parent, child index and balance of a node on 64-bit machines: the macros that read and write
  its parts, which \<open>Acl_Avl\<close> has as fields of a record.
\<close>

definition PCB_XPARENT :: "64 word \<Rightarrow> 64 word" where
  "PCB_XPARENT w = w AND NOT 7"

definition PCB_SETPARENT :: "64 word \<Rightarrow> 64 word \<Rightarrow> 64 word" where
  "PCB_SETPARENT w p = (w AND 7) OR p"

definition PCB_XCHILD :: "64 word \<Rightarrow> 64 word" where
  "PCB_XCHILD w = drop_bit 2 w AND 1"

definition PCB_SETCHILD :: "64 word \<Rightarrow> 64 word \<Rightarrow> 64 word" where
  "PCB_SETCHILD w c = (w AND NOT 4) OR push_bit 2 c"

definition PCB_XBALANCE :: "64 word \<Rightarrow> int" where
  "PCB_XBALANCE w = sint (ucast ((w AND 3) - 1) :: 32 word)"

definition PCB_SETBALANCE :: "64 word \<Rightarrow> int \<Rightarrow> 64 word" where
  "PCB_SETBALANCE w b = (w AND NOT 3) OR word_of_int (b + 1)"

text \<open>The word for given parts.\<close>

definition pcb :: "64 word \<Rightarrow> bool \<Rightarrow> int \<Rightarrow> 64 word" where
  "pcb p c b = p OR (if c then 4 else 0) OR word_of_int (b + 1)"

lemma and_not_disjoint: "x AND m = 0 \<Longrightarrow> x AND NOT m = x" for x m :: "64 word"
  using bit.conj_disj_distrib [of x m "NOT m"] by simp

lemma low_mask:
  fixes p :: "64 word"
  assumes "p AND 7 = 0"
  shows "p AND 3 = 0" "p AND 4 = 0" "p AND NOT 7 = p" "p AND NOT 4 = p" "p AND NOT 3 = p" "drop_bit 2 p AND 1 = 0"
proof -
  have "p AND 3 = (p AND 7) AND 3" "p AND 4 = (p AND 7) AND 4" by (simp_all add: and.assoc)
  then show "p AND 3 = 0" "p AND 4 = 0" using assms by simp_all
  then show "p AND NOT 7 = p" "p AND NOT 4 = p" "p AND NOT 3 = p" using assms by (simp_all only: and_not_disjoint)
  have "drop_bit 2 p AND 1 = drop_bit 2 p AND drop_bit 2 4" by simp
  also have "\<dots> = drop_bit 2 (p AND 4)" by (simp only: drop_bit_and)
  finally show "drop_bit 2 p AND 1 = 0" using \<open>p AND 4 = 0\<close> by simp
qed

lemma pcb_fields:
  assumes "p AND 7 = 0" "q AND 7 = 0" "b \<in> {-1, 0, 1}" "b' \<in> {-1, 0, 1}"
  shows "PCB_XPARENT (pcb p c b) = p" "PCB_XCHILD (pcb p c b) = (if c then 1 else 0)" "PCB_XBALANCE (pcb p c b) = b"
    "PCB_SETPARENT (pcb p c b) q = pcb q c b" "PCB_SETCHILD (pcb p c b) (if c' then 1 else 0) = pcb p c' b" "PCB_SETBALANCE (pcb p c b) b' = pcb p c b'"
proof -
  note masks = low_mask [OF assms(1)]
  note ds = bit.conj_disj_distrib2
  show "PCB_XPARENT (pcb p c b) = p" using assms(3) masks by (cases c) (auto simp: PCB_XPARENT_def pcb_def ds)
  show "PCB_XCHILD (pcb p c b) = (if c then 1 else 0)" using assms(3) masks by (cases c) (auto simp: PCB_XCHILD_def pcb_def ds)
  have minus: "sint (ucast (- 1 :: 64 word) :: 32 word) = - 1" by code_simp
  show "PCB_XBALANCE (pcb p c b) = b" using assms(3) masks minus by (cases c) (auto simp: PCB_XBALANCE_def pcb_def ds)
  show "PCB_SETPARENT (pcb p c b) q = pcb q c b" using assms masks by (cases c) (auto simp: PCB_SETPARENT_def pcb_def ds or.assoc or.commute or.left_commute)
  show "PCB_SETCHILD (pcb p c b) (if c' then 1 else 0) = pcb p c' b" using assms masks
    by (cases c; cases c') (auto simp: PCB_SETCHILD_def pcb_def ds or.assoc or.commute or.left_commute)
  show "PCB_SETBALANCE (pcb p c b) b' = pcb p c b'" using assms masks by (cases c) (auto simp: PCB_SETBALANCE_def pcb_def ds or.assoc or.commute or.left_commute)
qed

end
