(* ===== verification/Acl_AvlProps.thy ===== *)
theory Acl_AvlProps
  imports Acl_AvlDestroy Acl_AvlPcb
begin

text \<open>
  What the trees of \<open>avl.c\<close> promise, for every comparison that satisfies \<open>comparator\<close>; the comparison of \<open>acl_cache2.c\<close> does.
\<close>

section \<open>A comparison\<close>

text \<open>
  \<open>cmp_fn\<close> of \<open>acl_cache2.c\<close>, on the expiry times of the two tree nodes. The times are \<open>time_t\<close> and not negative, so that their
  difference does not overflow.
\<close>

definition cmp_fn :: "int \<Rightarrow> int \<Rightarrow> int" where
  "cmp_fn t1 t2 = (let ret = t1 - t2 in if ret < 0 then -1 else if ret > 0 then 1 else 0)"

interpretation timeout_order: comparator cmp_fn
  by unfold_locales (auto simp: cmp_fn_def Let_def split: if_splits)

section \<open>A concrete tree\<close>

text \<open>Five nodes 1 to 5 in order, the third one at the root; the node 9 is not in the tree.\<close>

definition ex_tree :: atree where
  "ex_tree = Node 3 0 ((\<lambda>_. Node 4 1 ((\<lambda>_. Tip)(True := Node 5 0 (\<lambda>_. Tip))))(False := Node 2 (-1) ((\<lambda>_. Tip)(False := Node 1 0 (\<lambda>_. Tip)))))"

definition ex_node :: "ptr \<Rightarrow> ptr \<Rightarrow> ptr \<Rightarrow> bool \<Rightarrow> int \<Rightarrow> avl_node" where
  "ex_node l r p i b = \<lparr>av_child = (\<lambda>_. r)(False := l), av_parent = p, av_index = i, av_balance = b\<rparr>"

definition ex_heap :: avl_heap where
  "ex_heap = [3 \<mapsto> ex_node (Some 2) (Some 4) None False 0, 2 \<mapsto> ex_node (Some 1) None (Some 3) False (-1), 1 \<mapsto> ex_node None None (Some 2) False 0,
     4 \<mapsto> ex_node None (Some 5) (Some 3) True 1, 5 \<mapsto> ex_node None None (Some 4) True 0, 9 \<mapsto> ex_node None None None False 0]"

definition ex_root :: avl_tree where
  "ex_root = \<lparr>at_root = Some 3, at_num = 5\<rparr>"

lemma ex_rep: "avl_rep ex_heap ex_root ex_tree"
  by (simp add: avl_rep_def tree_at_def ex_heap_def ex_root_def ex_tree_def ex_node_def)

lemma ex_order: "inorder ex_tree = [1, 2, 3, 4, 5]"
  by (simp add: ex_tree_def)

section \<open>Properties\<close>

text \<open>C24: \<open>avl_add\<close> of a node whose key is not in the tree returns with a balanced tree in which the node stands between the smaller and the
  greater ones and the others are in the order they were in, and it changes no node outside of the tree.\<close>

theorem avl_add_inserts_in_order:
  assumes "comparator cmp" "avl_rep h t T" "ordered cmp val (inorder T)" "h a \<noteq> None" "a \<notin> set (inorder T)"
    and "\<forall>y \<in> set (inorder T). cmp (val a) (val y) \<noteq> 0"
  shows "\<exists>h' t' T' xs ys. avl_add h t cmp val a = Inr (h', t') \<and> avl_rep h' t' T' \<and> inorder T = xs @ ys \<and> inorder T' = xs @ a # ys
    \<and> ordered cmp val (inorder T') \<and> (\<forall>x. x \<notin> set (inorder T) \<longrightarrow> x \<noteq> a \<longrightarrow> h' x = h x)"
  by (rule comparator.add_order [OF assms])

theorem avl_add_inserts_in_order_witness:
  "\<exists>h' t' T' xs ys. avl_add ex_heap ex_root cmp_fn int 9 = Inr (h', t') \<and> avl_rep h' t' T' \<and> inorder ex_tree = xs @ ys \<and> inorder T' = xs @ 9 # ys
    \<and> ordered cmp_fn int (inorder T') \<and> (\<forall>x. x \<notin> set (inorder ex_tree) \<longrightarrow> x \<noteq> 9 \<longrightarrow> h' x = ex_heap x)"
  by (rule avl_add_inserts_in_order [OF timeout_order.comparator_axioms ex_rep])
    (simp_all add: ex_order ordered_def cmp_fn_def ex_heap_def)

text \<open>C25: \<open>avl_remove\<close> of any node of the tree, with no, one or two children, returns with a balanced tree of the other nodes in the order
  they were in; no pointer to the local node \<open>tmp\<close> or to the removed node is left in it.\<close>

theorem avl_remove_keeps_the_rest:
  assumes "avl_rep h t T" "inorder T = xs @ a # ys" "tmp \<notin> set (inorder T)"
  shows "\<exists>h' t' T'. avl_remove h t tmp (Some a) = Inr (h', t') \<and> avl_rep h' t' T' \<and> inorder T' = xs @ ys \<and> h' a \<noteq> None
    \<and> (\<forall>x. x \<notin> set (inorder T) \<longrightarrow> x \<noteq> tmp \<longrightarrow> h' x = h x)"
  by (rule avl_remove_order [OF assms])

theorem avl_remove_keeps_the_rest_witness:
  "\<exists>h' t' T'. avl_remove ex_heap ex_root 0 (Some 3) = Inr (h', t') \<and> avl_rep h' t' T' \<and> inorder T' = [1, 2] @ [4, 5] \<and> h' 3 \<noteq> None
    \<and> (\<forall>x. x \<notin> set (inorder ex_tree) \<longrightarrow> x \<noteq> 0 \<longrightarrow> h' x = ex_heap x)"
  by (rule avl_remove_keeps_the_rest [OF ex_rep]) (simp_all add: ex_order)

text \<open>C26: \<open>avl_find\<close> returns the node with an equal key if there is one; otherwise \<open>avl_nearest\<close> at the place it returns gives the
  greatest smaller node and the smallest greater one.\<close>

theorem avl_find_correct:
  assumes "comparator cmp" "avl_rep h t T" "ordered cmp val (inorder T)"
  shows "\<exists>p ix. avl_find h t cmp val x = Inr (p, ix) \<and> (\<forall>a. p = Some a \<longleftrightarrow> a \<in> set (inorder T) \<and> cmp x (val a) = 0)
    \<and> (p = None \<longrightarrow> avl_nearest h t ix False = Inr (last_opt (filter (\<lambda>a. cmp x (val a) > 0) (inorder T)))
        \<and> avl_nearest h t ix True = Inr (first_opt (filter (\<lambda>a. cmp x (val a) < 0) (inorder T))))"
proof -
  note c = comparator.find_cases [OF assms, of x, case_names found place]
  show ?thesis
  proof (cases rule: c)
    case (found a)
    have "Some a = Some b \<longleftrightarrow> b \<in> set (inorder T) \<and> cmp x (val b) = 0" for b
      using comparator.equal_key_unique [OF assms(1,3) found(1) _ found(2), of b] found(1,2) by blast
    then show ?thesis unfolding found(3) by (intro exI [of _ "Some a"] exI [of _ "(None, False)"] conjI allI) simp_all
  next
    case (place fs)
    have i: "inorder T = before fs @ after fs" using place(1) inorder_plug [of fs Tip] by simp
    have no: "\<forall>a \<in> set (inorder T). cmp x (val a) \<noteq> 0" using place(2,3) i by auto
    have "filter (\<lambda>a. cmp x (val a) > 0) (before fs) = before fs" "filter (\<lambda>a. cmp x (val a) < 0) (before fs) = []"
      "filter (\<lambda>a. cmp x (val a) > 0) (after fs) = []" "filter (\<lambda>a. cmp x (val a) < 0) (after fs) = after fs"
      using place(2,3) by (auto simp: filter_empty_conv filter_id_conv)
    then have "avl_nearest h t (up_ptr fs, up_dir fs) False = Inr (last_opt (filter (\<lambda>a. cmp x (val a) > 0) (inorder T)))"
      "avl_nearest h t (up_ptr fs, up_dir fs) True = Inr (first_opt (filter (\<lambda>a. cmp x (val a) < 0) (inorder T)))"
      using avl_nearest_place [of h t fs] assms(2) place(1) i by simp_all
    then show ?thesis unfolding place(4) using no by (intro exI [of _ None] exI [of _ "(up_ptr fs, up_dir fs)"] conjI allI) simp_all
  qed
qed

theorem avl_find_correct_witness:
  "\<exists>p ix. avl_find ex_heap ex_root cmp_fn int 7 = Inr (p, ix) \<and> (\<forall>a. p = Some a \<longleftrightarrow> a \<in> set (inorder ex_tree) \<and> cmp_fn 7 (int a) = 0)
    \<and> (p = None \<longrightarrow> avl_nearest ex_heap ex_root ix False = Inr (last_opt (filter (\<lambda>a. cmp_fn 7 (int a) > 0) (inorder ex_tree)))
        \<and> avl_nearest ex_heap ex_root ix True = Inr (first_opt (filter (\<lambda>a. cmp_fn 7 (int a) < 0) (inorder ex_tree))))"
  by (rule avl_find_correct [OF timeout_order.comparator_axioms ex_rep]) (simp add: ex_order ordered_def cmp_fn_def)

text \<open>
  Calls on a tree: nodes are added and removed. The nodes that are in the tree when the calls begin are \<open>A\<close>; a node is added when
  it is not in the tree and no node of the tree has its key, and removed when it is in the tree.
\<close>

datatype avl_call = AddNode addr | RemoveNode addr

fun avl_calls :: "('k \<Rightarrow> 'k \<Rightarrow> int) \<Rightarrow> (addr \<Rightarrow> 'k) \<Rightarrow> addr \<Rightarrow> avl_call list \<Rightarrow> avl_heap \<Rightarrow> avl_tree \<Rightarrow> (avl_heap \<times> avl_tree) cres" where
  "avl_calls cmp val tmp [] h t = Inr (h, t)"
| "avl_calls cmp val tmp (AddNode a # cs) h t = cbind (avl_add h t cmp val a) (\<lambda>(h1, t1). avl_calls cmp val tmp cs h1 t1)"
| "avl_calls cmp val tmp (RemoveNode a # cs) h t = cbind (avl_remove h t tmp (Some a)) (\<lambda>(h1, t1). avl_calls cmp val tmp cs h1 t1)"

fun nodes_left :: "avl_call list \<Rightarrow> addr list \<Rightarrow> addr list" where
  "nodes_left [] A = A"
| "nodes_left (AddNode a # cs) A = nodes_left cs (a # A)"
| "nodes_left (RemoveNode a # cs) A = nodes_left cs (remove1 a A)"

fun calls_ok :: "('k \<Rightarrow> 'k \<Rightarrow> int) \<Rightarrow> (addr \<Rightarrow> 'k) \<Rightarrow> avl_call list \<Rightarrow> addr list \<Rightarrow> bool" where
  "calls_ok cmp val [] A \<longleftrightarrow> True"
| "calls_ok cmp val (AddNode a # cs) A \<longleftrightarrow> a \<notin> set A \<and> list_all (\<lambda>y. cmp (val a) (val y) \<noteq> 0) A \<and> calls_ok cmp val cs (a # A)"
| "calls_ok cmp val (RemoveNode a # cs) A \<longleftrightarrow> a \<in> set A \<and> calls_ok cmp val cs (remove1 a A)"

fun call_node :: "avl_call \<Rightarrow> addr" where
  "call_node (AddNode a) = a"
| "call_node (RemoveNode a) = a"

lemma avl_calls_balanced:
  assumes "comparator cmp" "avl_rep h t T" "ordered cmp val (inorder T)" "mset (inorder T) = mset A" "calls_ok cmp val cs A"
    and "\<forall>a \<in> set A \<union> call_node ` set cs. a \<noteq> tmp \<and> (a \<in> set A \<or> h a \<noteq> None)"
  shows "\<exists>h' t' T'. avl_calls cmp val tmp cs h t = Inr (h', t') \<and> avl_rep h' t' T' \<and> ordered cmp val (inorder T')
    \<and> mset (inorder T') = mset (nodes_left cs A)"
  using assms(2-)
proof (induction cs arbitrary: h t T A)
  case (Cons c cs)
  have A: "set (inorder T) = set A" using Cons.prems(3) by (rule mset_eq_setD)
  show ?case
  proof (cases c)
    case (AddNode a)
    have a: "a \<notin> set (inorder T)" "\<forall>y \<in> set (inorder T). cmp (val a) (val y) \<noteq> 0" "h a \<noteq> None"
      using Cons.prems(4,5) A AddNode by (auto simp: list_all_iff)
    obtain h1 t1 T1 xs ys where 1: "avl_add h t cmp val a = Inr (h1, t1)" "avl_rep h1 t1 T1" "inorder T = xs @ ys" "inorder T1 = xs @ a # ys"
        "ordered cmp val (inorder T1)" "\<forall>x. x \<notin> set (inorder T) \<longrightarrow> x \<noteq> a \<longrightarrow> h1 x = h x"
      using comparator.add_order [OF assms(1) Cons.prems(1,2) a(3,1,2)] by blast
    have m: "mset (inorder T1) = mset (a # A)" using 1(3,4) Cons.prems(3) by simp
    have ok: "calls_ok cmp val cs (a # A)" using Cons.prems(4) AddNode by simp
    have n: "\<forall>x \<in> set (a # A) \<union> call_node ` set cs. x \<noteq> tmp \<and> (x \<in> set (a # A) \<or> h1 x \<noteq> None)"
    proof
      fix x assume "x \<in> set (a # A) \<union> call_node ` set cs"
      then have "x \<in> set A \<union> call_node ` set (c # cs)" using AddNode by auto
      then have t: "x \<noteq> tmp" "x \<in> set A \<or> h x \<noteq> None" using bspec [OF Cons.prems(5)] by blast+
      have "h1 x = h x" if "x \<notin> set (a # A)" using 1(6) A that by simp
      with t show "x \<noteq> tmp \<and> (x \<in> set (a # A) \<or> h1 x \<noteq> None)" by auto
    qed
    from Cons.IH [OF 1(2,5) m ok n] 1(1) AddNode show ?thesis by simp
  next
    case (RemoveNode a)
    have a: "a \<in> set (inorder T)" "tmp \<notin> set (inorder T)" using Cons.prems(4,5) A RemoveNode by auto
    obtain xs ys where T: "inorder T = xs @ a # ys" using split_list [OF a(1)] by blast
    obtain h1 t1 T1 where 1: "avl_remove h t tmp (Some a) = Inr (h1, t1)" "avl_rep h1 t1 T1" "inorder T1 = xs @ ys" "h1 a \<noteq> None"
        "\<forall>x. x \<notin> set (inorder T) \<longrightarrow> x \<noteq> tmp \<longrightarrow> h1 x = h x"
      using avl_remove_order [OF Cons.prems(1) T a(2)] by blast
    have o1: "ordered cmp val (inorder T1)" using Cons.prems(2) unfolding T 1(3) by (auto simp: ordered_def sorted_wrt_append)
    have m: "mset (inorder T1) = mset (remove1 a A)"
    proof -
      have "mset A = add_mset a (mset (inorder T1))" using Cons.prems(3) T 1(3) by simp
      then show ?thesis by simp
    qed
    have ok: "calls_ok cmp val cs (remove1 a A)" using Cons.prems(4) RemoveNode by simp
    have n: "\<forall>x \<in> set (remove1 a A) \<union> call_node ` set cs. x \<noteq> tmp \<and> (x \<in> set (remove1 a A) \<or> h1 x \<noteq> None)"
    proof
      fix x assume "x \<in> set (remove1 a A) \<union> call_node ` set cs"
      then have "x \<in> set A \<union> call_node ` set (c # cs)" using notin_set_remove1 [of x A a] by auto
      then have t: "x \<noteq> tmp" "x \<in> set A \<or> h x \<noteq> None" using bspec [OF Cons.prems(5)] by blast+
      have "h1 x = h x" if "x \<notin> set A" using 1(5) A that t(1) by simp
      with t 1(4) show "x \<noteq> tmp \<and> (x \<in> set (remove1 a A) \<or> h1 x \<noteq> None)"
        by (cases "x = a") (auto simp: in_set_remove1)
    qed
    from Cons.IH [OF 1(2) o1 m ok n] 1(1) RemoveNode show ?thesis by simp
  qed
qed auto

text \<open>C27: searches stay logarithmic. After any calls that add and remove nodes, starting with an empty tree, there is a number \<open>k\<close> with
  \<open>2\<^bsup>k div 2\<^esup> \<le> n + 1\<close> for the \<open>n\<close> nodes that are in the tree, that is \<open>k \<le> 2 log\<^sub>2 (n + 1) + 1\<close>, such that every search is done after it has
  looked at \<open>k\<close> nodes. Assumed is that nodes are added that are not in the tree and whose keys differ from those in it, that nodes of the tree are removed,
  and that the memory of all nodes exists and is not the local node of \<open>avl_remove\<close>.\<close>

theorem avl_find_logarithmic:
  assumes "comparator cmp" "calls_ok cmp val cs []" "\<forall>c \<in> set cs. call_node c \<noteq> tmp \<and> h (call_node c) \<noteq> None"
  shows "\<exists>h' t' k. avl_calls cmp val tmp cs h avl_create = Inr (h', t') \<and> avl_numnodes t' = length (nodes_left cs []) \<and>
    2 ^ (k div 2) \<le> avl_numnodes t' + 1 \<and>
    (\<forall>x. \<exists>r. find_loop k h' cmp val x (at_root t') None False = Inr r \<and> avl_find h' t' cmp val x = Inr r)"
proof -
  have "avl_rep h avl_create Tip" by (simp add: avl_rep_def avl_create_def tree_at_def)
  moreover have "ordered cmp val (inorder Tip)" "mset (inorder Tip) = mset []" by (simp_all add: ordered_def)
  ultimately obtain h' t' T where 1: "avl_calls cmp val tmp cs h avl_create = Inr (h', t')" "avl_rep h' t' T"
      "ordered cmp val (inorder T)" "mset (inorder T) = mset (nodes_left cs [])"
    using avl_calls_balanced [OF assms(1), of h avl_create Tip val "[]" cs tmp] assms(2,3) by auto
  have n: "height T \<le> at_num t'" "at_num t' = length (nodes_left cs [])" "2 ^ (height T div 2) \<le> at_num t' + 1"
    using 1(2) mset_eq_length [OF 1(4)] height_le_length [of T] avl_height [of T] by (auto simp: avl_rep_def)
  have "\<exists>r. find_loop (height T) h' cmp val x (at_root t') None False = Inr r \<and> avl_find h' t' cmp val x = Inr r" for x
  proof -
    obtain r where r: "find_loop (height T) h' cmp val x (at_root t') None False = Inr r"
      using comparator.find_steps [OF assms(1) 1(2,3) order_refl, of x] by blast
    with find_loop_mono [OF r n(1)] show ?thesis unfolding avl_find_def by blast
  qed
  with 1(1) n show ?thesis by (intro exI [of _ h'] exI [of _ t'] exI [of _ "height T"]) (simp add: avl_numnodes_def)
qed

theorem avl_find_logarithmic_witness:
  "\<exists>h' t' k. avl_calls cmp_fn int 0 [AddNode 3, AddNode 1, AddNode 2, RemoveNode 1, AddNode 5] ex_heap avl_create = Inr (h', t') \<and>
    avl_numnodes t' = 3 \<and> 2 ^ (k div 2) \<le> avl_numnodes t' + 1 \<and>
    (\<forall>x. \<exists>r. find_loop k h' cmp_fn int x (at_root t') None False = Inr r \<and> avl_find h' t' cmp_fn int x = Inr r)"
proof -
  let ?cs = "[AddNode 3, AddNode 1, AddNode 2, RemoveNode 1, AddNode 5]"
  have "calls_ok cmp_fn int ?cs []" by (simp add: cmp_fn_def)
  moreover have "\<forall>c \<in> set ?cs. call_node c \<noteq> 0 \<and> ex_heap (call_node c) \<noteq> None" by (simp add: ex_heap_def)
  moreover have "length (nodes_left ?cs []) = 3" by simp
  ultimately show ?thesis
    using avl_find_logarithmic [OF timeout_order.comparator_axioms, of int ?cs 0 ex_heap] by (simp only:)
qed

text \<open>C28: \<open>avl_first\<close>, \<open>avl_last\<close>, \<open>AVL_NEXT\<close> and \<open>AVL_PREV\<close> go through the nodes in order.\<close>

theorem avl_walk_in_order:
  assumes "avl_rep h t T"
  shows "avl_first h t = Inr (first_opt (inorder T)) \<and> avl_last h t = Inr (last_opt (inorder T))
    \<and> (\<forall>xs a ys. inorder T = xs @ a # ys \<longrightarrow> avl_walk h t (Some a) True = Inr (first_opt ys) \<and> avl_walk h t (Some a) False = Inr (last_opt xs))"
  using avl_ends_result [OF assms] avl_walk_result [OF assms] by blast

theorem avl_walk_in_order_witness:
  "avl_first ex_heap ex_root = Inr (Some 1) \<and> avl_last ex_heap ex_root = Inr (Some 5)
    \<and> avl_walk ex_heap ex_root (Some 3) True = Inr (Some 4) \<and> avl_walk ex_heap ex_root (Some 3) False = Inr (Some 2)"
proof -
  note all = avl_walk_in_order [OF ex_rep]
  have "inorder ex_tree = [1, 2] @ 3 # [4, 5]" by (simp add: ex_order)
  then have "avl_walk ex_heap ex_root (Some 3) True = Inr (first_opt [4, 5]) \<and> avl_walk ex_heap ex_root (Some 3) False = Inr (last_opt [1, 2])"
    using all by blast
  then show ?thesis using all by (simp add: ex_order last_opt_def)
qed

text \<open>C29: \<open>avl_update\<close> after the key of a node was changed to one that differs from the keys of the other nodes: the nodes are in order again, and the result says whether the node had to move.\<close>

theorem avl_update_restores_order:
  assumes "comparator cmp" "avl_rep h t T" "inorder T = xs @ a # ys" "ordered cmp val (xs @ ys)" "tmp \<notin> set (inorder T)"
    and "\<forall>y \<in> set (xs @ ys). cmp (val a) (val y) \<noteq> 0"
  shows "\<exists>m h' t' T'. avl_update h t cmp val tmp a = Inr (m, h', t') \<and> m = (\<not> ordered cmp val (inorder T)) \<and> avl_rep h' t' T'
    \<and> set (inorder T') = set (inorder T) \<and> ordered cmp val (inorder T') \<and> (\<forall>x. x \<notin> set (inorder T) \<longrightarrow> x \<noteq> tmp \<longrightarrow> h' x = h x)"
  by (rule comparator.update_order [OF assms])

theorem avl_update_restores_order_witness:
  "\<exists>m h' t' T'. avl_update ex_heap ex_root cmp_fn (int(2 := 8)) 0 2 = Inr (m, h', t') \<and> m = (\<not> ordered cmp_fn (int(2 := 8)) (inorder ex_tree))
    \<and> avl_rep h' t' T' \<and> set (inorder T') = set (inorder ex_tree) \<and> ordered cmp_fn (int(2 := 8)) (inorder T')
    \<and> (\<forall>x. x \<notin> set (inorder ex_tree) \<longrightarrow> x \<noteq> 0 \<longrightarrow> h' x = ex_heap x)"
  by (rule avl_update_restores_order [OF timeout_order.comparator_axioms ex_rep, of "[1]" 2 "[3, 4, 5]"])
    (simp_all add: ex_order ordered_def cmp_fn_def)

text \<open>C30: The loop over \<open>avl_destroy_nodes\<close> that frees every node it gets ends, visits every node once, children before their parent, reads or
  writes no freed node, passes its assertions, and leaves a tree that \<open>avl_destroy\<close> accepts.\<close>

theorem avl_destroy_nodes_visits_all:
  assumes "avl_rep h t T"
  shows "\<exists>h' t'. destroy_all (at_num t + 1) h t (None, False) = Inr (postorder T, h', t') \<and> distinct (postorder T) \<and> avl_destroy t' = Inr ()
    \<and> (\<forall>x \<in> set (inorder T). h' x = None) \<and> (\<forall>x. x \<notin> set (inorder T) \<longrightarrow> h' x = h x)"
proof -
  have "distinct (postorder T)" using avl_rep_distinct [OF assms] set_postorder [of T] by (metis card_distinct distinct_card)
  then show ?thesis using destroy_all_result [OF assms] by blast
qed

theorem avl_destroy_nodes_visits_all_witness:
  "\<exists>h' t'. destroy_all (at_num ex_root + 1) ex_heap ex_root (None, False) = Inr (postorder ex_tree, h', t') \<and> distinct (postorder ex_tree)
    \<and> avl_destroy t' = Inr () \<and> (\<forall>x \<in> set (inorder ex_tree). h' x = None) \<and> (\<forall>x. x \<notin> set (inorder ex_tree) \<longrightarrow> h' x = ex_heap x)"
  by (rule avl_destroy_nodes_visits_all [OF ex_rep])

text \<open>\<open>avl_insert_here\<close> puts the node next to the given one, on the given side.\<close>

theorem avl_insert_here_adjacent:
  assumes "avl_rep h t T" "inorder T = xs @ p # ys" "h a \<noteq> None" "a \<notin> set (inorder T)"
  shows "\<exists>h' t' T'. avl_insert_here h t (Some a) (Some p) d = Inr (h', t') \<and> avl_rep h' t' T'
    \<and> inorder T' = (if d then xs @ p # a # ys else xs @ a # p # ys) \<and> (\<forall>x. x \<notin> set (inorder T) \<longrightarrow> x \<noteq> a \<longrightarrow> h' x = h x)"
  by (rule avl_insert_here_order [OF assms])

text \<open>Adding a node whose key is present fails an assertion.\<close>

theorem avl_add_duplicate:
  "comparator cmp \<Longrightarrow> avl_rep h t T \<Longrightarrow> ordered cmp val (inorder T) \<Longrightarrow> y \<in> set (inorder T) \<Longrightarrow> cmp (val a) (val y) = 0 \<Longrightarrow> avl_add h t cmp val a = Inl Fatal"
  by (rule comparator.add_present)

text \<open>The macros for 64-bit machines read back what they wrote and leave the other parts of the word alone, for a parent
  address that is a multiple of 8 and a balance of -1, 0 or 1.\<close>

theorem avl_pcb_parts:
  assumes "and p 7 = 0" "and q 7 = 0" "b \<in> {-1, 0, 1}" "b' \<in> {-1, 0, 1}"
  shows "PCB_XPARENT (pcb p c b) = p \<and> PCB_XCHILD (pcb p c b) = (if c then 1 else 0) \<and> PCB_XBALANCE (pcb p c b) = b
    \<and> PCB_SETPARENT (pcb p c b) q = pcb q c b \<and> PCB_SETCHILD (pcb p c b) (if c' then 1 else 0) = pcb p c' b \<and> PCB_SETBALANCE (pcb p c b) b' = pcb p c b'"
  using pcb_fields [OF assms] by blast

theorem avl_pcb_parts_witness:
  "PCB_XPARENT (pcb 4096 True (-1)) = 4096 \<and> PCB_XCHILD (pcb 4096 True (-1)) = (if True then 1 else 0) \<and> PCB_XBALANCE (pcb 4096 True (-1)) = -1
    \<and> PCB_SETPARENT (pcb 4096 True (-1)) 8 = pcb 8 True (-1) \<and> PCB_SETCHILD (pcb 4096 True (-1)) (if False then 1 else 0) = pcb 4096 False (-1)
    \<and> PCB_SETBALANCE (pcb 4096 True (-1)) 1 = pcb 4096 True 1"
  by (rule avl_pcb_parts) simp_all

end
