(* ===== verification/Acl_Cache2.thy ===== *)
theory Acl_Cache2
  imports Acl_Cache Acl_AvlProps
begin

text \<open>
  The cache of \<open>lib_acl/src/stdlib/common/acl_cache2.c\<close>: a hash table from keys to entries, and a balanced tree (\<open>Acl_Avl\<close>) of expiry
  times, each with the list of the entries that expire then (linked as in \<open>Acl_Chain\<close>). The memory of tree nodes and entries is
  \<open>timeq\<close>: \<open>tq_links\<close> has the field \<open>node\<close> of the tree nodes and \<open>tq_trees\<close> their other fields, \<open>tq_infos\<close> the entries.
  \<open>c2_brk\<close> is the address of the next structure that is allocated; address 0 is the local node of \<open>avl_remove\<close>. Time, counts, the lock, the
  calls of \<open>free_fn\<close> and a NULL cache are treated as in \<open>Acl_Cache\<close>; the calls of \<open>time\<close> in \<open>acl_cache2_enter\<close> and in the expiry scan it
  makes are given one value. Loops over tree nodes get as many steps as the tree has
  nodes, loops over entries as many as the cache has entries.
\<close>

section \<open>Tree nodes and entries\<close>

record tree_node =
  tn_head :: ptr
  tn_tail :: ptr
  tn_when :: int

record info2 =
  i2_info :: cache_info
  i2_tree :: ptr

record timeq =
  tq_avl :: avl_tree
  tq_links :: avl_heap
  tq_trees :: "addr \<rightharpoonup> tree_node"
  tq_infos :: "addr \<rightharpoonup> info2 cnode"

definition stack_tmp :: addr where
  "stack_tmp = 0"

definition tree_read :: "timeq \<Rightarrow> ptr \<Rightarrow> tree_node cres" where
  "tree_read q p = cbind (deref p) (\<lambda>a. case tq_trees q a of None \<Rightarrow> Inl OobRead | Some t \<Rightarrow> Inr t)"

definition tree_write :: "timeq \<Rightarrow> ptr \<Rightarrow> (tree_node \<Rightarrow> tree_node) \<Rightarrow> timeq cres" where
  "tree_write q p f =
     cbind (deref p) (\<lambda>a. case tq_trees q a of None \<Rightarrow> Inl OobWrite | Some t \<Rightarrow> Inr (q\<lparr>tq_trees := (tq_trees q)(a \<mapsto> f t)\<rparr>))"

definition info2_write :: "timeq \<Rightarrow> ptr \<Rightarrow> (info2 cnode \<Rightarrow> info2 cnode) \<Rightarrow> timeq cres" where
  "info2_write q p f = cbind (cwrite (tq_infos q) p f) (\<lambda>h. Inr (q\<lparr>tq_infos := h\<rparr>))"

text \<open>What \<open>cmp_fn\<close> looks at in a tree node.\<close>

definition tree_when :: "timeq \<Rightarrow> addr \<Rightarrow> int" where
  "tree_when q a = (case tq_trees q a of None \<Rightarrow> 0 | Some t \<Rightarrow> tn_when t)"

text \<open>Taking an entry out of the list of its tree node.\<close>

definition info_unlink :: "timeq \<Rightarrow> ptr \<Rightarrow> timeq cres" where
  "info_unlink q info =
     cbind (cread (tq_infos q) info) (\<lambda>i.
     cbind (if cn_prev i \<noteq> None then info2_write q (cn_prev i) (\<lambda>w. w\<lparr>cn_next := cn_next i\<rparr>)
            else tree_write q (i2_tree (cn_data i)) (\<lambda>t. t\<lparr>tn_head := cn_next i\<rparr>)) (\<lambda>q1.
     if cn_next i \<noteq> None then info2_write q1 (cn_next i) (\<lambda>w. w\<lparr>cn_prev := cn_prev i\<rparr>)
     else tree_write q1 (i2_tree (cn_data i)) (\<lambda>t. t\<lparr>tn_tail := cn_prev i\<rparr>)))"

text \<open>A tree node without entries is removed from the tree and released.\<close>

definition tree_drop :: "timeq \<Rightarrow> ptr \<Rightarrow> timeq cres" where
  "tree_drop q pnode =
     cbind (tree_read q pnode) (\<lambda>t.
       if tn_head t \<noteq> None then Inr q
       else
         cbind (avl_remove (tq_links q) (tq_avl q) stack_tmp pnode) (\<lambda>(h, avl).
         cbind (deref pnode) (\<lambda>a.
           Inr (q\<lparr>tq_links := h(a := None), tq_avl := avl, tq_trees := (tq_trees q)(a := None)\<rparr>))))"

text \<open>The tree node for a time, a new one at address \<open>brk\<close> if there is none; \<open>brk\<close> after it.\<close>

definition tree_locate :: "timeq \<Rightarrow> addr \<Rightarrow> int \<Rightarrow> (addr \<times> addr \<times> timeq) cres" where
  "tree_locate q brk when =
     cbind (avl_find (tq_links q) (tq_avl q) cmp_fn (tree_when q) when) (\<lambda>(p, _).
       case p of
         Some a \<Rightarrow> Inr (a, brk, q)
       | None \<Rightarrow>
           let q1 = q\<lparr>tq_links := (tq_links q)(brk \<mapsto> \<lparr>av_child = (\<lambda>_. None), av_parent = None, av_index = False, av_balance = 0\<rparr>),
                 tq_trees := (tq_trees q)(brk \<mapsto> \<lparr>tn_head = None, tn_tail = None, tn_when = when\<rparr>)\<rparr>
           in cbind (avl_add (tq_links q1) (tq_avl q1) cmp_fn (tree_when q1) brk) (\<lambda>(h, avl).
                Inr (brk, Suc brk, q1\<lparr>tq_links := h, tq_avl := avl\<rparr>)))"

text \<open>An entry becomes the last one of a tree node.\<close>

definition info_append :: "timeq \<Rightarrow> addr \<Rightarrow> addr \<Rightarrow> timeq cres" where
  "info_append q pnode info =
     cbind (tree_read q (Some pnode)) (\<lambda>t.
     cbind (if tn_tail t = None then
              cbind (info2_write q (Some info) (\<lambda>i. i\<lparr>cn_prev := None, cn_next := None\<rparr>)) (\<lambda>q1.
                tree_write q1 (Some pnode) (\<lambda>t. t\<lparr>tn_head := Some info, tn_tail := Some info\<rparr>))
            else
              cbind (info2_write q (tn_tail t) (\<lambda>i. i\<lparr>cn_next := Some info\<rparr>)) (\<lambda>q1.
              cbind (info2_write q1 (Some info) (\<lambda>i. i\<lparr>cn_prev := tn_tail t, cn_next := None\<rparr>)) (\<lambda>q2.
                tree_write q2 (Some pnode) (\<lambda>t. t\<lparr>tn_tail := Some info\<rparr>)))) (\<lambda>q3.
       info2_write q3 (Some info) (\<lambda>i. i\<lparr>cn_data := \<lparr>i2_info = (i2_info (cn_data i))\<lparr>ci_when := tn_when t\<rparr>, i2_tree = Some pnode\<rparr>\<rparr>)))"

section \<open>The operations\<close>

record cache2 =
  c2_table :: htable
  c2_q :: timeq
  c2_max_size :: int
  c2_size :: int
  c2_free_fn :: bool
  c2_brk :: addr
  c2_freed :: "(addr \<times> ptr) list"

definition c2_info :: "cache2 \<Rightarrow> ptr \<Rightarrow> info2 cnode cres" where
  "c2_info c p = cread (tq_infos (c2_q c)) p"

definition c2_set :: "cache2 \<Rightarrow> ptr \<Rightarrow> (cache_info \<Rightarrow> cache_info) \<Rightarrow> cache2 cres" where
  "c2_set c p f =
     cbind (info2_write (c2_q c) p (\<lambda>i. i\<lparr>cn_data := (cn_data i)\<lparr>i2_info := f (i2_info (cn_data i))\<rparr>\<rparr>)) (\<lambda>q. Inr (c\<lparr>c2_q := q\<rparr>))"

definition c2_call_free :: "cache2 \<Rightarrow> addr \<Rightarrow> ptr \<Rightarrow> cache2" where
  "c2_call_free c a v = (if c2_free_fn c then c\<lparr>c2_freed := c2_freed c @ [(a, v)]\<rparr> else c)"

definition c2_first :: "cache2 \<Rightarrow> ptr cres" where
  "c2_first c = avl_first (tq_links (c2_q c)) (tq_avl (c2_q c))"

definition c2_last :: "cache2 \<Rightarrow> ptr cres" where
  "c2_last c = avl_last (tq_links (c2_q c)) (tq_avl (c2_q c))"

definition c2_next :: "cache2 \<Rightarrow> ptr \<Rightarrow> ptr cres" where
  "c2_next c p = avl_walk (tq_links (c2_q c)) (tq_avl (c2_q c)) p True"

definition c2_prev :: "cache2 \<Rightarrow> ptr \<Rightarrow> ptr cres" where
  "c2_prev c p = avl_walk (tq_links (c2_q c)) (tq_avl (c2_q c)) p False"

definition c2_nodes :: "cache2 \<Rightarrow> nat" where
  "c2_nodes c = avl_numnodes (tq_avl (c2_q c))"

definition acl_cache2_create :: "int \<Rightarrow> bool \<Rightarrow> cache2 option" where
  "acl_cache2_create max_size free_fn =
     (if max_size \<le> 0 then None
      else Some
        \<lparr>c2_table = acl_htable_create 100 False False False,
         c2_q = \<lparr>tq_avl = avl_create, tq_links = Map.empty, tq_trees = Map.empty, tq_infos = Map.empty\<rparr>,
         c2_max_size = (if max_size < 1 then 1 else max_size), c2_size = 0, c2_free_fn = free_fn, c2_brk = Suc stack_tmp, c2_freed = []\<rparr>)"

definition acl_cache2_delete :: "cache2 \<Rightarrow> ptr \<Rightarrow> (int \<times> cache2) cres" where
  "acl_cache2_delete c info =
     cbind (c2_info c info) (\<lambda>i.
     let pnode = i2_tree (cn_data i); info2 = i2_info (cn_data i)
     in if c2_max_size c \<le> 0 then Inr (0, c)
        else if ci_nrefer info2 > 0 then Inr (-1, c)
        else
          cbind (acl_htable_delete (c2_table c) (ci_key info2) False) (\<lambda>(ret, _, t).
          if ret < 0 then Inr (-1, c\<lparr>c2_table := t\<rparr>)
          else
            cbind (info_unlink (c2_q c) info) (\<lambda>q.
            cbind (deref info) (\<lambda>a.
            let c1 = c2_call_free (c\<lparr>c2_table := t, c2_q := q\<rparr>) a (ci_value info2);
                q1 = q\<lparr>tq_infos := (tq_infos q)(a := None)\<rparr>
            in cbind (tree_drop q1 pnode) (\<lambda>q2. Inr (0, c1\<lparr>c2_q := q2, c2_size := c2_size c1 - 1\<rparr>))))))"

text \<open>The loop over the entries of one tree node in \<open>acl_cache2_timeout\<close>, and the loop over the tree nodes.\<close>

fun expire_infos :: "nat \<Rightarrow> cache2 \<Rightarrow> ptr \<Rightarrow> int \<Rightarrow> (int \<times> cache2) cres" where
  "expire_infos 0 c info n = (if info = None then Inr (n, c) else Inl OutOfFuel)"
| "expire_infos (Suc k) c info n =
     (if info = None then Inr (n, c)
      else
        cbind (c2_info c info) (\<lambda>i.
        if ci_nrefer (i2_info (cn_data i)) > 0 then expire_infos k c (cn_next i) n
        else
          cbind (acl_cache2_delete c info) (\<lambda>(ret, c1).
            expire_infos k c1 (cn_next i) (if ret = 0 then n + 1 else n))))"

fun expire_nodes :: "nat \<Rightarrow> cache2 \<Rightarrow> int \<Rightarrow> ptr \<Rightarrow> int \<Rightarrow> (int \<times> cache2) cres" where
  "expire_nodes 0 c now pnode n = (if pnode = None then Inr (n, c) else Inl OutOfFuel)"
| "expire_nodes (Suc k) c now pnode n =
     (if pnode = None then Inr (n, c)
      else
        cbind (tree_read (c2_q c) pnode) (\<lambda>t.
        if tn_when t > now then Inr (n, c)
        else
          cbind (c2_next c pnode) (\<lambda>next.
          if tn_when t = 0 then expire_nodes k c now next n
          else
            cbind (expire_infos (nat (c2_size c)) c (tn_head t) n) (\<lambda>(n1, c1).
              expire_nodes k c1 now next n1))))"

definition acl_cache2_timeout :: "cache2 \<Rightarrow> int \<Rightarrow> (int \<times> cache2) cres" where
  "acl_cache2_timeout c now =
     (if c2_max_size c \<le> 0 then Inr (0, c)
      else cbind (c2_first c) (\<lambda>pnode. expire_nodes (c2_nodes c) c now pnode 0))"

text \<open>The loops of \<open>acl_cache2_enter\<close> that remove one old entry.\<close>

fun unused_info :: "nat \<Rightarrow> cache2 \<Rightarrow> ptr \<Rightarrow> ptr cres" where
  "unused_info 0 c info = (if info = None then Inr None else Inl OutOfFuel)"
| "unused_info (Suc k) c info =
     (if info = None then Inr None
      else cbind (c2_info c info) (\<lambda>i. if ci_nrefer (i2_info (cn_data i)) = 0 then Inr info else unused_info k c (cn_next i)))"

fun evict_nodes :: "nat \<Rightarrow> cache2 \<Rightarrow> ptr \<Rightarrow> cache2 cres" where
  "evict_nodes 0 c pnode = (if pnode = None then Inr c else Inl OutOfFuel)"
| "evict_nodes (Suc k) c pnode =
     (if pnode = None then Inr c
      else
        cbind (tree_read (c2_q c) pnode) (\<lambda>t.
        cbind (c2_next c pnode) (\<lambda>next.
        if tn_when t = 0 then evict_nodes k c next
        else
          cbind (unused_info (nat (c2_size c)) c (tn_head t)) (\<lambda>tmp.
          if tmp \<noteq> None then cbind (acl_cache2_delete c tmp) (\<lambda>(_, c1). Inr c1)
          else evict_nodes k c next))))"

definition cache2_add :: "cache2 \<Rightarrow> int \<Rightarrow> byte list \<Rightarrow> ptr \<Rightarrow> int \<Rightarrow> (ptr \<times> cache2) cres" where
  "cache2_add c now key value timeout =
     cbind (tree_locate (c2_q c) (c2_brk c) (if timeout > 0 then now + timeout else 0)) (\<lambda>(pnode, a, q).
     let q1 = q\<lparr>tq_infos := (tq_infos q)(a \<mapsto> \<lparr>cn_data = \<lparr>i2_info = \<lparr>ci_key = key, ci_value = value, ci_nrefer = 0, ci_when = 0\<rparr>, i2_tree = None\<rparr>,
           cn_prev = None, cn_next = None\<rparr>)\<rparr>
     in cbind (acl_htable_enter (c2_table c) key (Some a)) (\<lambda>(ht, t).
        if ht = None then Inl Fatal
        else
          cbind (info_append q1 pnode a) (\<lambda>q2.
            Inr (Some a, c\<lparr>c2_table := t, c2_q := q2, c2_brk := Suc a, c2_size := c2_size c + 1\<rparr>))))"

definition acl_cache2_enter :: "cache2 \<Rightarrow> int \<Rightarrow> byte list \<Rightarrow> ptr \<Rightarrow> int \<Rightarrow> (ptr \<times> cache2) cres" where
  "acl_cache2_enter c now key value timeout =
     cbind (acl_htable_find (c2_table c) key) (\<lambda>(p, t).
     let c0 = c\<lparr>c2_table := t\<rparr>
     in case p of
          Some a \<Rightarrow>
            cbind (c2_info c0 p) (\<lambda>i.
            if ci_nrefer (i2_info (cn_data i)) > 0 then Inr (None, c0)
            else
              let c1 = c2_call_free c0 a (ci_value (i2_info (cn_data i)))
              in cbind (c2_set c1 p (\<lambda>i. i\<lparr>ci_value := value\<rparr>)) (\<lambda>c2. Inr (p, c2)))
        | None \<Rightarrow>
            cbind (if c2_size c0 \<ge> c2_max_size c0 then cbind (acl_cache2_timeout c0 now) (\<lambda>(_, c1). Inr c1) else Inr c0) (\<lambda>c1.
            cbind (if c2_size c1 \<ge> c2_max_size c1
                   then cbind (c2_first c1) (\<lambda>pnode. evict_nodes (c2_nodes c1) c1 pnode) else Inr c1) (\<lambda>c2.
            if c2_size c2 \<ge> c2_max_size c2 then Inr (None, c2)
            else cache2_add c2 now key value timeout)))"

definition acl_cache2_locate :: "cache2 \<Rightarrow> byte list \<Rightarrow> (ptr \<times> cache2) cres" where
  "acl_cache2_locate c key =
     (if c2_max_size c \<le> 0 then Inr (None, c)
      else cbind (acl_htable_find (c2_table c) key) (\<lambda>(p, t). Inr (p, c\<lparr>c2_table := t\<rparr>)))"

definition acl_cache2_find :: "cache2 \<Rightarrow> byte list \<Rightarrow> (ptr \<times> cache2) cres" where
  "acl_cache2_find c key =
     (if c2_max_size c \<le> 0 then Inr (None, c)
      else
        cbind (acl_htable_find (c2_table c) key) (\<lambda>(p, t).
        let c1 = c\<lparr>c2_table := t\<rparr>
        in if p \<noteq> None then cbind (c2_info c1 p) (\<lambda>i. Inr (ci_value (i2_info (cn_data i)), c1)) else Inr (None, c1)))"

definition acl_cache2_delete2 :: "cache2 \<Rightarrow> byte list \<Rightarrow> (int \<times> cache2) cres" where
  "acl_cache2_delete2 c key =
     (if c2_max_size c \<le> 0 then Inr (0, c)
      else
        cbind (acl_htable_find (c2_table c) key) (\<lambda>(p, t).
        let c1 = c\<lparr>c2_table := t\<rparr>
        in if p = None then Inr (-1, c1)
           else cbind (c2_info c1 p) (\<lambda>i. if ci_nrefer (i2_info (cn_data i)) > 0 then Inr (-1, c1) else acl_cache2_delete c1 p)))"

definition acl_cache2_update2 :: "cache2 \<Rightarrow> addr \<Rightarrow> int \<Rightarrow> cache2 cres" where
  "acl_cache2_update2 c info timeout =
     cbind (c2_info c (Some info)) (\<lambda>i.
     if c2_max_size c \<le> 0 then Inr c
     else
       cbind (info_unlink (c2_q c) (Some info)) (\<lambda>q.
       cbind (tree_drop q (i2_tree (cn_data i))) (\<lambda>q1.
       cbind (tree_locate q1 (c2_brk c) (if timeout > 0 then timeout else 0)) (\<lambda>(pnode, brk, q2).
       cbind (info_append q2 pnode info) (\<lambda>q3. Inr (c\<lparr>c2_q := q3, c2_brk := brk\<rparr>))))))"

definition acl_cache2_update :: "cache2 \<Rightarrow> byte list \<Rightarrow> int \<Rightarrow> cache2 cres" where
  "acl_cache2_update c key timeout =
     (if c2_max_size c \<le> 0 then Inr c
      else
        cbind (acl_htable_find (c2_table c) key) (\<lambda>(p, t).
        let c1 = c\<lparr>c2_table := t\<rparr> in case p of Some a \<Rightarrow> acl_cache2_update2 c1 a timeout | None \<Rightarrow> Inr c1))"

definition acl_cache2_refer :: "cache2 \<Rightarrow> ptr \<Rightarrow> cache2 cres" where
  "acl_cache2_refer c info = c2_set c info (\<lambda>i. i\<lparr>ci_nrefer := ci_nrefer i + 1\<rparr>)"

definition acl_cache2_refer2 :: "cache2 \<Rightarrow> byte list \<Rightarrow> cache2 cres" where
  "acl_cache2_refer2 c key =
     (if c2_max_size c \<le> 0 then Inr c
      else
        cbind (acl_htable_find (c2_table c) key) (\<lambda>(p, t).
        let c1 = c\<lparr>c2_table := t\<rparr> in if p = None then Inr c1 else c2_set c1 p (\<lambda>i. i\<lparr>ci_nrefer := ci_nrefer i + 1\<rparr>)))"

definition acl_cache2_unrefer2 :: "cache2 \<Rightarrow> byte list \<Rightarrow> cache2 cres" where
  "acl_cache2_unrefer2 c key =
     (if c2_max_size c \<le> 0 then Inr c
      else
        cbind (acl_htable_find (c2_table c) key) (\<lambda>(p, t).
        let c1 = c\<lparr>c2_table := t\<rparr> in if p = None then Inr c1 else c2_set c1 p (\<lambda>i. i\<lparr>ci_nrefer := ci_nrefer i - 1\<rparr>)))"

definition acl_cache2_unrefer :: "cache2 \<Rightarrow> ptr \<Rightarrow> cache2 cres" where
  "acl_cache2_unrefer c info = c2_set c info (\<lambda>i. i\<lparr>ci_nrefer := ci_nrefer i - 1\<rparr>)"

text \<open>What \<open>walk_fn\<close> is called on.\<close>

fun walk_infos :: "nat \<Rightarrow> cache2 \<Rightarrow> ptr \<Rightarrow> addr list cres" where
  "walk_infos 0 c info = (if info = None then Inr [] else Inl OutOfFuel)"
| "walk_infos (Suc k) c info =
     (case info of
        None \<Rightarrow> Inr []
      | Some a \<Rightarrow> cbind (c2_info c info) (\<lambda>i. cbind (walk_infos k c (cn_next i)) (\<lambda>as. Inr (a # as))))"

fun walk_nodes :: "nat \<Rightarrow> cache2 \<Rightarrow> ptr \<Rightarrow> addr list cres" where
  "walk_nodes 0 c pnode = (if pnode = None then Inr [] else Inl OutOfFuel)"
| "walk_nodes (Suc k) c pnode =
     (if pnode = None then Inr []
      else
        cbind (tree_read (c2_q c) pnode) (\<lambda>t.
        cbind (walk_infos (nat (c2_size c)) c (tn_head t)) (\<lambda>as.
        cbind (c2_next c pnode) (\<lambda>next.
        cbind (walk_nodes k c next) (\<lambda>bs. Inr (as @ bs))))))"

definition acl_cache2_walk :: "cache2 \<Rightarrow> addr list cres" where
  "acl_cache2_walk c =
     (if c2_max_size c \<le> 0 then Inr [] else cbind (c2_first c) (\<lambda>pnode. walk_nodes (c2_nodes c) c pnode))"

fun clean_infos :: "nat \<Rightarrow> cache2 \<Rightarrow> bool \<Rightarrow> ptr \<Rightarrow> int \<Rightarrow> (int \<times> cache2) cres" where
  "clean_infos 0 c force info n = (if info = None then Inr (n, c) else Inl OutOfFuel)"
| "clean_infos (Suc k) c force info n =
     (if info = None then Inr (n, c)
      else
        cbind (c2_info c info) (\<lambda>i.
        if ci_nrefer (i2_info (cn_data i)) > 0 \<and> \<not> force then clean_infos k c force (cn_next i) n
        else
          cbind (acl_cache2_delete c info) (\<lambda>(ret, c1).
            clean_infos k c1 force (cn_next i) (if ret = 0 then n + 1 else n))))"

fun clean_nodes :: "nat \<Rightarrow> cache2 \<Rightarrow> bool \<Rightarrow> ptr \<Rightarrow> int \<Rightarrow> (int \<times> cache2) cres" where
  "clean_nodes 0 c force pnode n = (if pnode = None then Inr (n, c) else Inl OutOfFuel)"
| "clean_nodes (Suc k) c force pnode n =
     (if pnode = None then Inr (n, c)
      else
        cbind (tree_read (c2_q c) pnode) (\<lambda>t.
        cbind (c2_next c pnode) (\<lambda>next.
        cbind (clean_infos (nat (c2_size c)) c force (tn_head t) n) (\<lambda>(n1, c1).
          clean_nodes k c1 force next n1))))"

definition acl_cache2_clean :: "cache2 \<Rightarrow> bool \<Rightarrow> (int \<times> cache2) cres" where
  "acl_cache2_clean c force =
     (if c2_max_size c \<le> 0 then Inr (0, c)
      else cbind (c2_first c) (\<lambda>pnode. clean_nodes (c2_nodes c) c force pnode 0))"

definition acl_cache2_size :: "cache2 \<Rightarrow> int" where
  "acl_cache2_size c = (if c2_max_size c \<le> 0 then 0 else c2_size c)"

text \<open>\<open>acl_cache2_free\<close> up to the release of the cache itself.\<close>

fun free_infos :: "nat \<Rightarrow> cache2 \<Rightarrow> ptr \<Rightarrow> cache2 cres" where
  "free_infos 0 c info = (if info = None then Inr c else Inl OutOfFuel)"
| "free_infos (Suc k) c info =
     (if info = None then Inr c
      else
        cbind (c2_info c info) (\<lambda>i.
        cbind (if ci_nrefer (i2_info (cn_data i)) > 0 then c2_set c info (\<lambda>i. i\<lparr>ci_nrefer := 0\<rparr>) else Inr c) (\<lambda>c1.
        cbind (acl_cache2_delete c1 info) (\<lambda>(_, c2). free_infos k c2 (cn_next i)))))"

fun free_nodes :: "nat \<Rightarrow> cache2 \<Rightarrow> ptr \<Rightarrow> cache2 cres" where
  "free_nodes 0 c pnode = (if pnode = None then Inr c else Inl OutOfFuel)"
| "free_nodes (Suc k) c pnode =
     (if pnode = None then Inr c
      else
        cbind (tree_read (c2_q c) pnode) (\<lambda>t.
        cbind (c2_next c pnode) (\<lambda>next.
        cbind (free_infos (nat (c2_size c)) c (tn_head t)) (\<lambda>c1. free_nodes k c1 next))))"

definition acl_cache2_free :: "cache2 \<Rightarrow> cache2 cres" where
  "acl_cache2_free c =
     cbind (c2_first c) (\<lambda>pnode.
     cbind (free_nodes (c2_nodes c) c pnode) (\<lambda>c1.
     cbind (avl_destroy (tq_avl (c2_q c1))) (\<lambda>_.
     cbind (acl_htable_free (c2_table c1) False) (\<lambda>(_, s). Inr (c1\<lparr>c2_table := (c2_table c1)\<lparr>ht_nodes := s\<rparr>\<rparr>)))))"

subsection \<open>The iterators\<close>

definition cache2_iter_set :: "cache_iter \<Rightarrow> cache2 \<Rightarrow> ptr \<Rightarrow> cache_iter cres" where
  "cache2_iter_set it c info =
     cbind (c2_info c info) (\<lambda>i. let v = i2_info (cn_data i) in Inr (it\<lparr>ct_ptr := info, ct_data := ci_value v, ct_key := Some (ci_key v)\<rparr>))"

definition cache2_iter_head :: "cache_iter \<Rightarrow> cache2 \<Rightarrow> cache_iter cres" where
  "cache2_iter_head it c =
     (let it1 = it\<lparr>ct_i := 0, ct_size := c2_size c\<rparr>
      in cbind (c2_first c) (\<lambda>pnode.
           if pnode = None then Inr (it1\<lparr>ct_ptr := None, ct_data := None, ct_key := None\<rparr>)
           else cbind (tree_read (c2_q c) pnode) (\<lambda>t. if tn_head t = None then Inl Fatal else cache2_iter_set it1 c (tn_head t))))"

definition cache2_iter_next :: "cache_iter \<Rightarrow> cache2 \<Rightarrow> cache_iter cres" where
  "cache2_iter_next it c =
     cbind (c2_info c (ct_ptr it)) (\<lambda>i.
       if cn_next i \<noteq> None then cache2_iter_set (it\<lparr>ct_i := ct_i it + 1\<rparr>) c (cn_next i)
       else
         cbind (c2_next c (i2_tree (cn_data i))) (\<lambda>pnode.
           if pnode = None then Inr (it\<lparr>ct_ptr := None, ct_data := None, ct_key := None\<rparr>)
           else cbind (tree_read (c2_q c) pnode) (\<lambda>t.
                  if tn_head t = None then Inl Fatal else cache2_iter_set (it\<lparr>ct_i := ct_i it + 1\<rparr>) c (tn_head t))))"

definition cache2_iter_tail :: "cache_iter \<Rightarrow> cache2 \<Rightarrow> cache_iter cres" where
  "cache2_iter_tail it c =
     (let it1 = it\<lparr>ct_i := c2_size c - 1, ct_size := c2_size c\<rparr>
      in cbind (c2_last c) (\<lambda>pnode.
           if pnode = None then Inr (it1\<lparr>ct_ptr := None, ct_data := None, ct_key := None\<rparr>)
           else cbind (tree_read (c2_q c) pnode) (\<lambda>t. if tn_tail t = None then Inl Fatal else cache2_iter_set it1 c (tn_tail t))))"

text \<open>Going backwards increments the index too.\<close>

definition cache2_iter_prev :: "cache_iter \<Rightarrow> cache2 \<Rightarrow> cache_iter cres" where
  "cache2_iter_prev it c =
     cbind (c2_info c (ct_ptr it)) (\<lambda>i.
       if cn_prev i \<noteq> None then cache2_iter_set (it\<lparr>ct_i := ct_i it + 1\<rparr>) c (cn_prev i)
       else
         cbind (c2_prev c (i2_tree (cn_data i))) (\<lambda>pnode.
           if pnode = None then Inr (it\<lparr>ct_ptr := None, ct_data := None, ct_key := None\<rparr>)
           else cbind (tree_read (c2_q c) pnode) (\<lambda>t.
                  if tn_tail t = None then Inl Fatal else cache2_iter_set (it\<lparr>ct_i := ct_i it + 1\<rparr>) c (tn_tail t))))"

definition cache2_iter_info :: "cache_iter \<Rightarrow> ptr" where
  "cache2_iter_info it = ct_ptr it"

text \<open>The loops \<open>acl_foreach\<close> and \<open>acl_foreach_reverse\<close>: the index, key and data they see.\<close>

fun cache2_foreach :: "nat \<Rightarrow> cache_iter \<Rightarrow> cache2 \<Rightarrow> (int \<times> byte list option \<times> ptr) list cres" where
  "cache2_foreach 0 it c = (if ct_ptr it = None then Inr [] else Inl OutOfFuel)"
| "cache2_foreach (Suc k) it c =
     (if ct_ptr it = None then Inr []
      else cbind (cache2_iter_next it c) (\<lambda>it1.
           cbind (cache2_foreach k it1 c) (\<lambda>ds. Inr ((ct_i it, ct_key it, ct_data it) # ds))))"

fun cache2_foreach_reverse :: "nat \<Rightarrow> cache_iter \<Rightarrow> cache2 \<Rightarrow> (int \<times> byte list option \<times> ptr) list cres" where
  "cache2_foreach_reverse 0 it c = (if ct_ptr it = None then Inr [] else Inl OutOfFuel)"
| "cache2_foreach_reverse (Suc k) it c =
     (if ct_ptr it = None then Inr []
      else cbind (cache2_iter_prev it c) (\<lambda>it1.
           cbind (cache2_foreach_reverse k it1 c) (\<lambda>ds. Inr ((ct_i it, ct_key it, ct_data it) # ds))))"

end
