(* ===== verification/Acl_Cache2Queue.thy ===== *)
theory Acl_Cache2Queue
  imports Acl_Cache2
begin

text \<open>
  The tree of expiry times with its lists of entries. \<open>wft q gs\<close> says that \<open>q\<close> holds the groups \<open>gs\<close>: for each tree node, in the order of the
  tree, its address, its time and its entries. A group may be empty here, as it is between two writes of an operation.
\<close>

type_synonym group = "addr \<times> int \<times> (addr \<times> cache_info) list"

definition nodes :: "addr \<Rightarrow> (addr \<times> cache_info) list \<Rightarrow> (addr \<times> info2) list" where
  "nodes a xs = map (\<lambda>x. (fst x, \<lparr>i2_info = snd x, i2_tree = Some a\<rparr>)) xs"

lemma nodes_simps [simp]: "nodes a [] = []" "nodes a (x # xs) = (fst x, \<lparr>i2_info = snd x, i2_tree = Some a\<rparr>) # nodes a xs"
  "nodes a (xs @ ys) = nodes a xs @ nodes a ys" "nodes a xs = [] \<longleftrightarrow> xs = []" "fst ` set (nodes a xs) = fst ` set xs" "map fst (nodes a xs) = map fst xs"
  by (auto simp: nodes_def image_image)

lemma nodes_ends [simp]: "first_of (nodes a xs) r = first_of xs r" "last_of (nodes a xs) r = last_of xs r"
  by (cases xs; simp) (cases xs rule: rev_cases; simp)

fun flat :: "group list \<Rightarrow> (addr \<times> cache_info) list" where
  "flat [] = []"
| "flat ((a, w, xs) # gs) = xs @ flat gs"

fun g_times :: "group list \<Rightarrow> int list" where
  "g_times [] = []"
| "g_times ((a, w, xs) # gs) = w # g_times gs"

lemma flat_append [simp]: "flat (As @ Bs) = flat As @ flat Bs"
  by (induction As rule: flat.induct) auto

lemma times_append [simp]: "g_times (As @ Bs) = g_times As @ g_times Bs"
  by (induction As rule: g_times.induct) auto

definition tree_of :: "int \<Rightarrow> (addr \<times> cache_info) list \<Rightarrow> tree_node" where
  "tree_of w xs = \<lparr>tn_head = first_of xs None, tn_tail = last_of xs None, tn_when = w\<rparr>"

fun groups_ok :: "timeq \<Rightarrow> group list \<Rightarrow> bool" where
  "groups_ok q [] = True"
| "groups_ok q ((a, w, xs) # gs) \<longleftrightarrow>
     tq_trees q a = Some (tree_of w xs) \<and> cseg (tq_infos q) None (nodes a xs) None \<and> (\<forall>x \<in> set xs. ci_when (snd x) = w) \<and> groups_ok q gs"

lemma groups_ok_append [simp]: "groups_ok q (As @ Bs) \<longleftrightarrow> groups_ok q As \<and> groups_ok q Bs"
  by (induction As rule: flat.induct) auto

lemma groups_ok_cong:
  "(\<And>a. a \<in> fst ` set gs \<Longrightarrow> tq_trees q' a = tq_trees q a) \<Longrightarrow> (\<And>p. p \<in> fst ` set (flat gs) \<Longrightarrow> tq_infos q' p = tq_infos q p) \<Longrightarrow>
   groups_ok q' gs = groups_ok q gs"
proof (induction gs rule: flat.induct)
  case (2 a w xs gs)
  have "groups_ok q' gs = groups_ok q gs" by (rule "2.IH") (use "2.prems" in auto)
  moreover have "cseg (tq_infos q') None (nodes a xs) None = cseg (tq_infos q) None (nodes a xs) None"
    by (rule cseg_other) (use "2.prems"(2) in auto)
  moreover have "tq_trees q' a = tq_trees q a" using "2.prems"(1) by simp
  ultimately show ?case by simp
qed simp

definition in_tree :: "timeq \<Rightarrow> group list \<Rightarrow> bool" where
  "in_tree q gs \<longleftrightarrow> (\<exists>T. avl_rep (tq_links q) (tq_avl q) T \<and> inorder T = map fst gs)"

definition wft :: "timeq \<Rightarrow> group list \<Rightarrow> bool" where
  "wft q gs \<longleftrightarrow> in_tree q gs \<and> sorted_wrt (<) (g_times gs) \<and> groups_ok q gs \<and> distinct (map fst (flat gs)) \<and> stack_tmp \<notin> fst ` set gs"

lemma in_tree_distinct: "in_tree q gs \<Longrightarrow> distinct (map fst gs)"
  by (auto simp: in_tree_def dest: avl_rep_distinct)

lemma in_tree_fst: "map fst gs = map fst gs' \<Longrightarrow> in_tree q gs = in_tree q gs'"
  by (simp add: in_tree_def)

lemma wftD:
  assumes "wft q (As @ (a, w, xs) # Bs)"
  shows "tq_trees q a = Some (tree_of w xs)" "cseg (tq_infos q) None (nodes a xs) None" "\<forall>x \<in> set xs. ci_when (snd x) = w"
    "groups_ok q As" "groups_ok q Bs" "a \<notin> fst ` set As" "a \<notin> fst ` set Bs" "distinct (map fst xs)"
    "fst ` set xs \<inter> fst ` set (flat As) = {}" "fst ` set xs \<inter> fst ` set (flat Bs) = {}" "a \<noteq> stack_tmp"
proof -
  have d: "distinct (map fst (As @ (a, w, xs) # Bs))" using assms in_tree_distinct unfolding wft_def by blast
  then show "a \<notin> fst ` set As" "a \<notin> fst ` set Bs" by auto
  show "tq_trees q a = Some (tree_of w xs)" "cseg (tq_infos q) None (nodes a xs) None" "\<forall>x \<in> set xs. ci_when (snd x) = w"
    "groups_ok q As" "groups_ok q Bs" "a \<noteq> stack_tmp" using assms by (auto simp: wft_def)
  have "distinct (map fst (flat As) @ map fst xs @ map fst (flat Bs))" using assms by (simp add: wft_def)
  then show "distinct (map fst xs)" "fst ` set xs \<inter> fst ` set (flat As) = {}" "fst ` set xs \<inter> fst ` set (flat Bs) = {}" by auto
qed

lemma wft_infos_upd: "p \<notin> fst ` set (flat gs) \<Longrightarrow> wft (q\<lparr>tq_infos := (tq_infos q)(p := v)\<rparr>) gs = wft q gs"
proof -
  assume "p \<notin> fst ` set (flat gs)"
  then have "groups_ok (q\<lparr>tq_infos := (tq_infos q)(p := v)\<rparr>) gs = groups_ok q gs" by (intro groups_ok_cong) auto
  then show ?thesis by (simp add: wft_def in_tree_def)
qed

text \<open>One group changes.\<close>

lemma wft_change:
  assumes w: "wft q (As @ (a, w, xs) # Bs)" and zs: "distinct (map fst zs)" "\<forall>x \<in> set zs. ci_when (snd x) = w"
    "fst ` set zs \<inter> fst ` set (flat As) = {}" "fst ` set zs \<inter> fst ` set (flat Bs) = {}"
    and q': "tq_avl q' = tq_avl q" "tq_links q' = tq_links q" "tq_trees q' = (tq_trees q)(a \<mapsto> tree_of w zs)" "cseg (tq_infos q') None (nodes a zs) None"
    "\<And>p. p \<notin> fst ` set xs \<Longrightarrow> p \<notin> fst ` set zs \<Longrightarrow> tq_infos q' p = tq_infos q p"
  shows "wft q' (As @ (a, w, zs) # Bs)"
proof -
  note d = wftD [OF w]
  have "groups_ok q' As = groups_ok q As"
    by (rule groups_ok_cong) (use d(6) q'(3) in force, rule q'(5), use d(9) zs(3) in auto)
  moreover have "groups_ok q' Bs = groups_ok q Bs"
    by (rule groups_ok_cong) (use d(7) q'(3) in force, rule q'(5), use d(10) zs(4) in auto)
  moreover have "in_tree q' (As @ (a, w, zs) # Bs)" using w q'(1,2) by (simp add: wft_def in_tree_def)
  moreover have "distinct (map fst (flat As) @ map fst zs @ map fst (flat Bs))" using w zs by (auto simp: wft_def)
  ultimately show ?thesis using d(4,5) q'(3,4) zs(2) w by (auto simp: wft_def)
qed

section \<open>Unlinking and appending\<close>

lemma info_unlink_wft:
  assumes w: "wft q (As @ (a, w, xs @ x # ys) # Bs)"
  shows "\<exists>q'. info_unlink q (Some (fst x)) = Inr q' \<and> wft q' (As @ (a, w, xs @ ys) # Bs) \<and> tq_infos q' (fst x) = tq_infos q (fst x)
    \<and> (\<forall>p. p \<notin> fst ` set (flat (As @ (a, w, xs @ x # ys) # Bs)) \<longrightarrow> tq_infos q' p = tq_infos q p)"
proof -
  note d = wftD [OF w]
  have s: "cseg (tq_infos q) None (nodes a xs) (Some (fst x))" "cseg (tq_infos q) (Some (fst x)) (nodes a ys) None"
    "tq_infos q (fst x) = Some \<lparr>cn_data = \<lparr>i2_info = snd x, i2_tree = Some a\<rparr>, cn_prev = last_of xs None, cn_next = first_of ys None\<rparr>"
    using d(2) by (simp_all add: cseg_append)
  have D: "distinct (map fst xs)" "distinct (map fst ys)" "fst x \<notin> fst ` set xs" "fst x \<notin> fst ` set ys" "fst ` set ys \<inter> fst ` set xs = {}" using d(8) by auto
  define I1 where "I1 = set_next (tq_infos q) None (nodes a xs) (first_of ys None)"
  define I2 where "I2 = set_prev I1 (nodes a ys) (last_of xs None) None"
  have s1: "cseg I1 None (nodes a xs) (first_of ys None)" unfolding I1_def by (rule cseg_set_next [OF s(1)]) (use D in simp)
  have s2: "cseg I1 (Some (fst x)) (nodes a ys) None" using s(2) D(5) unfolding I1_def by (subst cseg_set_next_other) auto
  have t1: "cseg I2 None (nodes a xs) (first_of ys None)" using s1 D(5) unfolding I2_def by (subst cseg_set_prev_other) auto
  have t2: "cseg I2 (last_of xs None) (nodes a ys) None" unfolding I2_def by (rule cseg_set_prev [OF s2]) (use D in simp)
  have seg: "cseg I2 None (nodes a (xs @ ys)) None" using t1 t2 by (simp add: cseg_append)
  define q' where "q' = q\<lparr>tq_infos := I2, tq_trees := (tq_trees q)(a \<mapsto> tree_of w (xs @ ys))\<rparr>"
  have tail: "last_of (xs @ x # ys) None = last_of (xs @ ys) None" if "ys \<noteq> []" using that by (cases ys rule: rev_cases) auto
  have head: "first_of (xs @ x # ys) None = first_of (xs @ ys) None" if "xs \<noteq> []" using that by (cases xs) auto
  have "info_unlink q (Some (fst x)) = Inr q'"
  proof (cases "xs = []"; cases "ys = []")
    assume "xs = []" "ys = []"
    then show ?thesis using s(3) d(1)
      by (simp add: info_unlink_def tree_write_def q'_def I2_def I1_def set_next_def set_prev_def tree_of_def)
  next
    assume ys: "xs = []" "ys \<noteq> []"
    then have wr: "cwrite (tq_infos q) (first_of ys None) (\<lambda>w. w\<lparr>cn_prev := None\<rparr>) = Inr I2"
      using cwrite_prev [OF s2, of None None] by (simp add: I2_def I1_def set_next_def)
    show ?thesis using s(3) d(1) ys wr tail [OF ys(2)]
      by (simp add: info_unlink_def tree_write_def info2_write_def q'_def tree_of_def)
  next
    assume xs: "xs \<noteq> []" "ys = []"
    then have wr: "cwrite (tq_infos q) (last_of xs None) (\<lambda>w. w\<lparr>cn_next := None\<rparr>) = Inr I2"
      using cwrite_next [OF s(1), of None None] by (simp add: I2_def I1_def set_prev_def)
    show ?thesis using s(3) d(1) xs wr head [OF xs(1)]
      by (simp add: info_unlink_def tree_write_def info2_write_def q'_def tree_of_def)
  next
    assume xy: "xs \<noteq> []" "ys \<noteq> []"
    then have wr: "cwrite (tq_infos q) (last_of xs None) (\<lambda>w. w\<lparr>cn_next := first_of ys None\<rparr>) = Inr I1"
      "cwrite I1 (first_of ys None) (\<lambda>w. w\<lparr>cn_prev := last_of xs None\<rparr>) = Inr I2"
      using cwrite_next [OF s(1), of None "first_of ys None"] cwrite_prev [OF s2, of None "last_of xs None"] by (simp_all add: I1_def I2_def)
    have "tq_trees q = (tq_trees q)(a \<mapsto> tree_of w (xs @ ys))"
      using d(1) head [OF xy(1)] tail [OF xy(2)] by (simp add: tree_of_def fun_upd_idem)
    then show ?thesis using s(3) xy wr
      by (simp add: info_unlink_def info2_write_def q'_def)
  qed
  moreover have other: "I2 p = tq_infos q p" if "p \<notin> fst ` set xs" "p \<notin> fst ` set ys" for p
    using that by (simp add: I2_def I1_def set_prev_other set_next_other)
  moreover have "wft q' (As @ (a, w, xs @ ys) # Bs)"
    by (rule wft_change [OF w]) (use d(3,8,9,10) seg other in \<open>auto simp: q'_def\<close>)
  moreover have "tq_infos q' (fst x) = tq_infos q (fst x)" using other D(3,4) by (simp add: q'_def)
  moreover have "tq_infos q' p = tq_infos q p" if "p \<notin> fst ` set (flat (As @ (a, w, xs @ x # ys) # Bs))" for p
    using other [of p] that by (auto simp: q'_def)
  ultimately show ?thesis by blast
qed

lemma info_append_wft:
  assumes w: "wft q (As @ (a, w, xs) # Bs)" and p: "p \<notin> fst ` set (flat (As @ (a, w, xs) # Bs))" and n: "tq_infos q p = Some n"
  shows "\<exists>q'. info_append q a p = Inr q' \<and> wft q' (As @ (a, w, xs @ [(p, (i2_info (cn_data n))\<lparr>ci_when := w\<rparr>)]) # Bs)
    \<and> tq_avl q' = tq_avl q \<and> tq_links q' = tq_links q"
proof -
  note d = wftD [OF w]
  let ?i = "(i2_info (cn_data n))\<lparr>ci_when := w\<rparr>"
  let ?n = "\<lparr>cn_data = \<lparr>i2_info = ?i, i2_tree = Some a\<rparr>, cn_prev = last_of xs None, cn_next = None\<rparr>"
  have np: "p \<notin> fst ` set xs" using p by auto
  define I1 where "I1 = set_next (tq_infos q) None (nodes a xs) (Some p)"
  define q' where "q' = q\<lparr>tq_infos := I1(p \<mapsto> ?n), tq_trees := (tq_trees q)(a \<mapsto> tree_of w (xs @ [(p, ?i)]))\<rparr>"
  have I1p: "I1 p = Some n" using n np by (simp add: I1_def set_next_other)
  have "info_append q a p = Inr q'"
  proof (cases "xs = []")
    case True
    then show ?thesis using d(1) n
      by (cases n; cases q) (simp add: info_append_def tree_read_def tree_of_def info2_write_def tree_write_def q'_def I1_def set_next_def)
  next
    case False
    then have wr: "cwrite (tq_infos q) (last_of xs None) (\<lambda>w. w\<lparr>cn_next := Some p\<rparr>) = Inr I1"
      using cwrite_next [OF d(2), of None "Some p"] by (simp add: I1_def)
    have "first_of xs (Some p) = first_of xs None" using False by (cases xs) auto
    then show ?thesis using d(1) wr I1p False
      by (cases n; cases q) (simp add: info_append_def tree_read_def tree_of_def info2_write_def tree_write_def q'_def)
  qed
  moreover have "cseg I1 None (nodes a xs) (Some p)" unfolding I1_def by (rule cseg_set_next [OF d(2)]) (use d(8) in simp)
  then have seg: "cseg (I1(p \<mapsto> ?n)) None (nodes a (xs @ [(p, ?i)])) None" using np by (simp add: cseg_append cseg_frame)
  have "wft q' (As @ (a, w, xs @ [(p, ?i)]) # Bs)"
    by (rule wft_change [OF w]) (use d(3,8,9,10) seg p np in \<open>auto simp: q'_def I1_def set_next_other\<close>)
  ultimately show ?thesis by (auto simp: q'_def)
qed

section \<open>Tree nodes\<close>

lemma avl_rep_upd: "x \<notin> set (inorder T) \<Longrightarrow> avl_rep (h(x := y)) t T = avl_rep h t T"
  using tree_at_upd [of x "[]" T h y t] by (simp add: avl_rep_def)

definition grp :: "addr \<Rightarrow> int \<Rightarrow> (addr \<times> cache_info) list \<Rightarrow> group list" where
  "grp a w xs = (if xs = [] then [] else [(a, w, xs)])"

lemma flat_grp [simp]: "flat (grp a w xs) = xs"
  by (simp add: grp_def)

lemma tree_drop_wft:
  assumes w: "wft q (As @ (a, w, xs) # Bs)"
  shows "\<exists>q'. tree_drop q (Some a) = Inr q' \<and> wft q' (As @ grp a w xs @ Bs) \<and> tq_infos q' = tq_infos q"
proof (cases "xs = []")
  case False
  then show ?thesis using w wftD(1) [OF w] by (simp add: tree_drop_def tree_read_def tree_of_def grp_def)
next
  case True
  note d = wftD [OF w]
  obtain T where T: "avl_rep (tq_links q) (tq_avl q) T" "inorder T = map fst As @ a # map fst Bs"
    using w by (auto simp: wft_def in_tree_def)
  have tmp: "stack_tmp \<notin> set (inorder T)" using w T(2) by (auto simp: wft_def)
  obtain h t T' where r: "avl_remove (tq_links q) (tq_avl q) stack_tmp (Some a) = Inr (h, t)" "avl_rep h t T'" "inorder T' = map fst As @ map fst Bs"
    using avl_remove_order [OF T tmp] by blast
  define q' where "q' = q\<lparr>tq_links := h(a := None), tq_avl := t, tq_trees := (tq_trees q)(a := None)\<rparr>"
  have "tree_drop q (Some a) = Inr q'" using d(1) True r(1) by (simp add: tree_drop_def tree_read_def tree_of_def q'_def)
  moreover have "avl_rep (h(a := None)) t T'" by (subst avl_rep_upd) (use r(2,3) d(6,7) in simp_all)
  then have "in_tree q' (As @ Bs)" using r(3) by (auto simp: in_tree_def q'_def)
  moreover have "groups_ok q' As = groups_ok q As" by (rule groups_ok_cong) (use d(6) in \<open>auto simp: q'_def\<close>)
  moreover have "groups_ok q' Bs = groups_ok q Bs" by (rule groups_ok_cong) (use d(7) in \<open>auto simp: q'_def\<close>)
  moreover have "sorted_wrt (<) (g_times As @ g_times Bs)" using w by (auto simp: wft_def sorted_wrt_append)
  ultimately show ?thesis using w d(4,5) True by (auto simp: wft_def grp_def q'_def)
qed

lemma cmp_fn_less [simp]: "cmp_fn x y < 0 \<longleftrightarrow> x < y" "cmp_fn x y = 0 \<longleftrightarrow> x = y" "0 < cmp_fn x y \<longleftrightarrow> y < x"
  by (auto simp: cmp_fn_def Let_def)

lemma groups_times: "groups_ok q gs \<Longrightarrow> map (tree_when q) (map fst gs) = g_times gs"
  by (induction gs rule: g_times.induct) (auto simp: tree_when_def tree_of_def)

lemma ordered_times: "ordered cmp_fn val as \<longleftrightarrow> sorted_wrt (<) (map val as)"
  by (simp add: ordered_def sorted_wrt_map)

lemma tree_locate_wft:
  assumes w: "wft q gs" and brk: "\<forall>g \<in> set gs. fst g < brk" "stack_tmp < brk"
  shows "\<exists>a brk' q' As xs Bs. tree_locate q brk t = Inr (a, brk', q') \<and> wft q' (As @ (a, t, xs) # Bs) \<and> tq_infos q' = tq_infos q
    \<and> brk \<le> brk' \<and> a < brk' \<and> (gs = As @ (a, t, xs) # Bs \<or> gs = As @ Bs \<and> xs = [])"
proof -
  obtain T where T: "avl_rep (tq_links q) (tq_avl q) T" "inorder T = map fst gs" using w by (auto simp: wft_def in_tree_def)
  have g: "groups_ok q gs" "sorted_wrt (<) (g_times gs)" using w by (auto simp: wft_def)
  have ord: "ordered cmp_fn (tree_when q) (inorder T)" unfolding ordered_times T(2) groups_times [OF g(1)] by (rule g(2))
  obtain p ix where f: "avl_find (tq_links q) (tq_avl q) cmp_fn (tree_when q) t = Inr (p, ix)"
    "\<And>a. p = Some a \<longleftrightarrow> a \<in> set (map fst gs) \<and> tree_when q a = t"
  proof (cases rule: timeout_order.find_cases [OF T(1) ord, of t, case_names found place])
    case (found a)
    have "Some a = Some b \<longleftrightarrow> b \<in> set (map fst gs) \<and> tree_when q b = t" for b
      using timeout_order.equal_key_unique [OF ord found(1), of b t] found(1,2) unfolding T(2) cmp_fn_less by blast
    with found(3) show ?thesis by (rule that)
  next
    case (place fs)
    then have "inorder T = before fs @ after fs" using inorder_plug [of fs Tip] by simp
    then have "tree_when q b \<noteq> t" if "b \<in> set (inorder T)" for b using place(2,3) that by auto
    then have "None = Some b \<longleftrightarrow> b \<in> set (map fst gs) \<and> tree_when q b = t" for b unfolding T(2) by blast
    with place(4) show ?thesis by (rule that)
  qed
  show ?thesis
  proof (cases p)
    case (Some a)
    then obtain As u xs Bs where gs: "gs = As @ (a, u, xs) # Bs" using f(2) [of a] by (metis (no_types, lifting) imageE list.set_map prod.collapse split_list)
    have "u = t" using f(2) [of a] Some wftD(1) [OF w [unfolded gs]] by (simp add: tree_when_def tree_of_def)
    moreover have "tree_locate q brk t = Inr (a, brk, q)" using f(1) Some by (simp add: tree_locate_def)
    moreover have "a < brk" using brk(1) gs by auto
    ultimately show ?thesis using gs w by (intro exI [of _ a] exI [of _ brk] exI [of _ q] exI [of _ As] exI [of _ xs] exI [of _ Bs]) simp
  next
    case None
    have new: "\<forall>a \<in> set (inorder T). tree_when q a \<noteq> t" using f(2) None T(2) by auto
    have nb: "brk \<notin> set (inorder T)" using brk(1) T(2) by auto
    define q1 where "q1 = q\<lparr>tq_links := (tq_links q)(brk \<mapsto> \<lparr>av_child = (\<lambda>_. None), av_parent = None, av_index = False, av_balance = 0\<rparr>),
      tq_trees := (tq_trees q)(brk \<mapsto> \<lparr>tn_head = None, tn_tail = None, tn_when = t\<rparr>)\<rparr>"
    have tw: "tree_when q1 = (tree_when q)(brk := t)" by (rule ext) (simp add: tree_when_def q1_def)
    have tm: "map (tree_when q1) (inorder T) = map (tree_when q) (inorder T)" using nb by (auto simp: tw)
    have rep1: "avl_rep (tq_links q1) (tq_avl q1) T" using T(1) nb by (simp add: q1_def avl_rep_upd)
    have ord1: "ordered cmp_fn (tree_when q1) (inorder T)" using ord unfolding ordered_times tm .
    have l1: "tq_links q1 brk \<noteq> None" by (simp add: q1_def)
    have n1: "\<forall>y \<in> set (inorder T). cmp_fn (tree_when q1 brk) (tree_when q1 y) \<noteq> 0" using new nb by (auto simp: tw)
    obtain h avl T' us vs where r: "avl_add (tq_links q1) (tq_avl q1) cmp_fn (tree_when q1) brk = Inr (h, avl)" "avl_rep h avl T'" "inorder T = us @ vs"
      "inorder T' = us @ brk # vs" "ordered cmp_fn (tree_when q1) (inorder T')"
      using timeout_order.add_order [OF rep1 ord1 l1 nb n1] by blast
    define q' where "q' = q1\<lparr>tq_links := h, tq_avl := avl\<rparr>"
    define As where "As = take (length us) gs"
    define Bs where "Bs = drop (length us) gs"
    have gs: "gs = As @ Bs" "map fst As = us" "map fst Bs = vs"
      using r(3) T(2) by (simp_all add: As_def Bs_def take_map [symmetric] drop_map [symmetric])
    have run: "tree_locate q brk t = Inr (brk, Suc brk, q')" using f(1) None r(1) by (simp add: tree_locate_def q'_def q1_def Let_def)
    have ok: "groups_ok q' gs = groups_ok q gs" by (rule groups_ok_cong) (use brk(1) in \<open>auto simp: q'_def q1_def\<close>)
    have "tree_when q' = tree_when q1" by (rule ext) (simp add: tree_when_def q'_def)
    then have "map (tree_when q1) us = g_times As" "map (tree_when q1) vs = g_times Bs"
      using ok gs g(1) groups_times [of q' As] groups_times [of q' Bs] by auto
    then have "sorted_wrt (<) (g_times As @ t # g_times Bs)" using r(5) unfolding ordered_times r(4) by (simp add: tw)
    moreover have "in_tree q' (As @ (brk, t, []) # Bs)" using r(2,4) gs by (auto simp: in_tree_def q'_def)
    moreover have "tq_trees q' brk = Some (tree_of t [])" by (simp add: q'_def q1_def tree_of_def)
    ultimately have "wft q' (As @ (brk, t, []) # Bs)" using w ok gs(1) brk(2) by (auto simp: wft_def)
    moreover have "tq_infos q' = tq_infos q" by (simp add: q'_def q1_def)
    ultimately show ?thesis using run gs(1)
      by (intro exI [of _ brk] exI [of _ "Suc brk"] exI [of _ q'] exI [of _ As] exI [of _ "[]"] exI [of _ Bs]) simp
  qed
qed

end
