(* ===== verification/Acl_Cache2Spec.thy ===== *)
theory Acl_Cache2Spec
  imports Acl_TimedCache
begin

text \<open>
  What the cache of \<open>acl_cache2.h\<close> does, on a list of entries in the order of their expiry times. It shares the operations of
  \<open>Acl_TimedCache\<close> that do not depend on the order; each entry is given its own time when it is stored.
\<close>

text \<open>An entry is put behind the others of its time.\<close>

fun ins :: "cache_info \<Rightarrow> cache_info list \<Rightarrow> cache_info list" where
  "ins i [] = [i]"
| "ins i (e # es) = (if ci_when e \<le> ci_when i then e # ins i es else i # e # es)"

text \<open>Making room: the first entry with no users at all that may expire goes.\<close>

fun evict2 :: "cache_info list \<Rightarrow> cache_info list" where
  "evict2 [] = []"
| "evict2 (i # es) = (if ci_nrefer i = 0 \<and> ci_when i \<noteq> 0 then es else i # evict2 es)"

fun evicted2 :: "cache_info list \<Rightarrow> ptr list" where
  "evicted2 [] = []"
| "evicted2 (i # es) = (if ci_nrefer i = 0 \<and> ci_when i \<noteq> 0 then [ci_value i] else evicted2 es)"

definition room2 :: "nat \<Rightarrow> int \<Rightarrow> cache_info list \<Rightarrow> ptr list \<times> cache_info list" where
  "room2 mx now es =
     (let (fs1, es1) = (if length es \<ge> mx then (expired now es, expire now es) else ([], es));
          (fs2, es2) = (if length es1 \<ge> mx then (evicted2 es1, evict2 es1) else ([], es1))
      in (fs1 @ fs2, es2))"

definition spec2_enter :: "nat \<Rightarrow> int \<Rightarrow> byte list \<Rightarrow> ptr \<Rightarrow> int \<Rightarrow> cache_info list \<Rightarrow> cache_res" where
  "spec2_enter mx now k v timeout es =
     (case lookup k es of
        Some i \<Rightarrow>
          if ci_nrefer i > 0 then (Stored False, [], es)
          else (Stored True, [ci_value i], change_key k (\<lambda>i. i\<lparr>ci_value := v\<rparr>) es)
      | None \<Rightarrow>
          (case room2 mx now es of (fs, es2) \<Rightarrow>
            if length es2 \<ge> mx then (Stored False, fs, es2)
            else (Stored True, fs, ins \<lparr>ci_key = k, ci_value = v, ci_nrefer = 0, ci_when = (if timeout > 0 then now + timeout else 0)\<rparr> es2)))"

text \<open>An update sets the time itself, not the time from now.\<close>

definition spec2_update :: "byte list \<Rightarrow> int \<Rightarrow> cache_info list \<Rightarrow> cache_res" where
  "spec2_update k timeout es =
     (Unit, [], case lookup k es of
        None \<Rightarrow> es
      | Some i \<Rightarrow> ins (i\<lparr>ci_when := if timeout > 0 then timeout else 0\<rparr>) (drop_key k es))"

definition spec2_clean :: "cache_info list \<Rightarrow> cache_res" where
  "spec2_clean es =
     (let out = filter (\<lambda>i. ci_nrefer i \<le> 0) es
      in (Code (int (length out)), map ci_value out, filter (\<lambda>i. ci_nrefer i > 0) es))"

datatype cache2_req = QEnter "byte list" ptr int | QFind "byte list" | QDelete "byte list" | QTimeout | QUpdate "byte list" int
  | QRefer "byte list" | QUnrefer "byte list" | QClean bool

fun spec2_call :: "nat \<Rightarrow> int \<times> cache2_req \<Rightarrow> cache_info list \<Rightarrow> cache_res" where
  "spec2_call mx (now, QEnter k v t) es = spec2_enter mx now k v t es"
| "spec2_call mx (now, QFind k) es = spec_find k es"
| "spec2_call mx (now, QDelete k) es = spec_delete k es"
| "spec2_call mx (now, QTimeout) es = spec_timeout now es"
| "spec2_call mx (now, QUpdate k t) es = spec2_update k t es"
| "spec2_call mx (now, QRefer k) es = spec_refer 1 k es"
| "spec2_call mx (now, QUnrefer k) es = spec_refer (-1) k es"
| "spec2_call mx (now, QClean force) es = spec2_clean es"

section \<open>What every call keeps\<close>

definition by_time :: "cache_info list \<Rightarrow> bool" where
  "by_time es \<longleftrightarrow> sorted (map ci_when es)"

lemma by_time_Cons [simp]: "by_time (i # es) \<longleftrightarrow> (\<forall>e \<in> set es. ci_when i \<le> ci_when e) \<and> by_time es" "by_time []"
  by (auto simp: by_time_def)

lemma by_time_filter: "by_time es \<Longrightarrow> by_time (filter P es)"
  by (induction es) auto

lemma expire_subset: "set (expire now es) \<subseteq> set es" "set (evict2 es) \<subseteq> set es"
  by (induction es) auto

lemma by_time_expire: "by_time es \<Longrightarrow> by_time (expire now es)" "by_time es \<Longrightarrow> by_time (evict2 es)"
proof (induction es)
  case (Cons i es)
  { case 1 then show ?case using Cons.IH(1) subsetD [OF expire_subset(1) [of now es]] by simp }
  { case 2 then show ?case using Cons.IH(2) subsetD [OF expire_subset(2) [of es]] by simp }
qed simp_all

lemma set_ins [simp]: "set (ins i es) = insert i (set es)" "mset (ins i es) = add_mset i (mset es)" "length (ins i es) = Suc (length es)"
  by (induction es) auto

lemma by_time_ins: "by_time es \<Longrightarrow> by_time (ins i es)"
  by (induction es) auto

lemma by_time_change: "(\<And>i. ci_when (f i) = ci_when i) \<Longrightarrow> by_time es \<Longrightarrow> by_time (change_key k f es)"
proof -
  assume f: "\<And>i. ci_when (f i) = ci_when i" and "by_time es"
  have "map ci_when (change_key k f es) = map ci_when es" by (simp add: change_key_def f)
  with \<open>by_time es\<close> show ?thesis by (simp only: by_time_def)
qed

lemma keys_ins: "set (keys (ins i es)) = insert (ci_key i) (set (keys es))" "distinct (keys (ins i es)) \<longleftrightarrow> ci_key i \<notin> set (keys es) \<and> distinct (keys es)"
proof -
  show k: "set (keys (ins i es)) = insert (ci_key i) (set (keys es))" for es by (induction es) auto
  show "distinct (keys (ins i es)) \<longleftrightarrow> ci_key i \<notin> set (keys es) \<and> distinct (keys es)" by (induction es) (auto simp: k)
qed

lemma evict2_keeps: "set (keys (evict2 es)) \<subseteq> set (keys es)" "distinct (keys es) \<Longrightarrow> distinct (keys (evict2 es))" "length (evict2 es) \<le> length es"
  "mset (map ci_value es) = mset (map ci_value (evict2 es)) + mset (evicted2 es)"
proof -
  show sub: "set (keys (evict2 es)) \<subseteq> set (keys es)" for es by (induction es) auto
  show "distinct (keys es) \<Longrightarrow> distinct (keys (evict2 es))" by (induction es) (use sub in \<open>auto dest: subsetD\<close>)
  show "length (evict2 es) \<le> length es" "mset (map ci_value es) = mset (map ci_value (evict2 es)) + mset (evicted2 es)" by (induction es) auto
qed

definition entries2_ok :: "nat \<Rightarrow> cache_info list \<Rightarrow> bool" where
  "entries2_ok mx es \<longleftrightarrow> entries_ok mx es \<and> by_time es"

lemma room2_keeps:
  assumes "room2 mx now es = (fs, es')" "entries2_ok mx es"
  shows "entries2_ok mx es'" "set (keys es') \<subseteq> set (keys es)" "mset (map ci_value es) = mset (map ci_value es') + mset fs"
proof -
  have ex: "entries2_ok mx (expire now es)" "set (keys (expire now es)) \<subseteq> set (keys es)"
    using assms(2) expire_keys expire_length [of now es] by_time_expire by (auto simp: entries2_ok_def entries_ok_def)
  have ev: "entries2_ok mx (evict2 xs) \<and> set (keys (evict2 xs)) \<subseteq> set (keys xs)" if "entries2_ok mx xs" for xs
    using that evict2_keeps(1-3) [of xs] by_time_expire by (auto simp: entries2_ok_def entries_ok_def)
  show "entries2_ok mx es'" "set (keys es') \<subseteq> set (keys es)"
    using assms ex ev [of "expire now es"] ev [of es] by (auto simp: room2_def Let_def split: if_splits)
  show "mset (map ci_value es) = mset (map ci_value es') + mset fs"
    using assms(1) expire_values [of es now] evict2_keeps(4) [of "expire now es"] evict2_keeps(4) [of es]
    by (auto simp: room2_def Let_def ac_simps split: if_splits)
qed

text \<open>The values that a call takes in.\<close>

fun taken2 :: "int \<times> cache2_req \<Rightarrow> cache_ret \<Rightarrow> ptr list" where
  "taken2 (now, QEnter k v t) (Stored True) = [v]"
| "taken2 _ _ = []"

lemma enter2_keeps:
  assumes "entries2_ok mx es" "spec2_enter mx now k v t es = (r, fs, es')"
  shows "entries2_ok mx es' \<and> mset (map ci_value es) + mset (taken2 (now, QEnter k v t) r) = mset (map ci_value es') + mset fs"
proof (cases "lookup k es")
  case None
  obtain gs es2 where g: "room2 mx now es = (gs, es2)" by fastforce
  note rk = room2_keeps [OF g assms(1)]
  have "k \<notin> set (keys es2)" using None rk(2) by (auto simp: lookup_None)
  with rk assms(2) None g show ?thesis
    by (auto simp: spec2_enter_def entries2_ok_def entries_ok_def keys_ins by_time_ins split: if_splits)
next
  case (Some i)
  then obtain as bs where es: "es = as @ i # bs" "ci_key i = k" "k \<notin> set (keys as)" "k \<notin> set (keys bs)"
    using lookup_split assms(1) unfolding entries2_ok_def entries_ok_def by blast
  have "by_time (change_key k (\<lambda>i. i\<lparr>ci_value := v\<rparr>) es)" using assms(1) by (intro by_time_change) (auto simp: entries2_ok_def)
  then show ?thesis
    using assms Some change_key_split [OF es(3,4,2)] by (auto simp: spec2_enter_def es(1) entries2_ok_def entries_ok_def split: if_splits)
qed

lemma spec2_call_keeps:
  assumes "entries2_ok mx es" "spec2_call mx c es = (r, fs, es')"
  shows "entries2_ok mx es' \<and> mset (map ci_value es) + mset (taken2 c r) = mset (map ci_value es') + mset fs"
proof -
  obtain now op where c: "c = (now, op)" by fastforce
  have d: "distinct (keys es)" "length es \<le> mx" "by_time es" using assms(1) by (auto simp: entries2_ok_def entries_ok_def)
  show ?thesis
  proof (cases op)
    case (QEnter k v t)
    then show ?thesis using enter2_keeps [OF assms(1)] assms(2) c by auto
  next
    case (QDelete k)
    have "by_time (drop_key k es)" using by_time_filter [OF d(3)] by (simp add: drop_key_def)
    then show ?thesis using assms(2) c d QDelete lookup_drop [of k es]
      by (auto simp: spec_delete_def entries2_ok_def entries_ok_def split: option.splits if_splits)
  next
    case QTimeout
    then show ?thesis using assms(2) c d expire_values [of es now] expire_keys expire_length [of now es] by_time_expire
      by (auto simp: spec_timeout_def entries2_ok_def entries_ok_def)
  next
    case (QUpdate k t)
    show ?thesis
    proof (cases "lookup k es")
      case None
      then show ?thesis using assms c QUpdate by (simp add: spec2_update_def)
    next
      case (Some i)
      note l = lookup_drop [OF Some d(1)]
      have k: "ci_key i = k" "k \<notin> set (keys (drop_key k es))" using lookup_Some [OF Some] by (auto simp: drop_key_def keys_def)
      have "by_time (drop_key k es)" using by_time_filter [OF d(3)] by (simp add: drop_key_def)
      then show ?thesis using assms(2) c QUpdate Some l k d(2) by (auto simp: spec2_update_def entries2_ok_def entries_ok_def keys_ins by_time_ins)
    qed
  next
    case (QClean force)
    have v: "mset (map ci_value es) = mset (map ci_value (filter (\<lambda>i. ci_nrefer i > 0) es)) + mset (map ci_value (filter (\<lambda>i. ci_nrefer i \<le> 0) es))"
      by (induction es) auto
    have "entries2_ok mx (filter (\<lambda>i. ci_nrefer i > 0) es)"
      unfolding entries2_ok_def entries_ok_def by (intro conjI distinct_keys_filter [OF d(1)] le_trans [OF length_filter_le d(2)] by_time_filter [OF d(3)])
    then show ?thesis using v assms(2) c QClean by (auto simp: spec2_clean_def Let_def)
  next
    case (QRefer k)
    have "by_time (change_key k (\<lambda>i. i\<lparr>ci_nrefer := ci_nrefer i + 1\<rparr>) es)" by (intro by_time_change) (use d in simp_all)
    then show ?thesis using assms c QRefer by (auto simp: spec_refer_def entries2_ok_def entries_ok_def change_key_keys change_key_values)
  next
    case (QUnrefer k)
    have "by_time (change_key k (\<lambda>i. i\<lparr>ci_nrefer := ci_nrefer i - 1\<rparr>) es)" by (intro by_time_change) (use d in simp_all)
    then show ?thesis using assms c QUnrefer by (auto simp: spec_refer_def entries2_ok_def entries_ok_def change_key_keys change_key_values)
  qed (use assms c in \<open>auto simp: spec_find_def\<close>)
qed

text \<open>With the entries in the order of their times the scan for expired entries finds all of them.\<close>

lemma expire2_filter: "by_time es \<Longrightarrow> expire now es = filter (\<lambda>i. ci_when i > now \<or> ci_nrefer i > 0 \<or> ci_when i = 0) es"
proof (induction es)
  case (Cons i es)
  have "filter (\<lambda>i. ci_when i > now \<or> ci_nrefer i > 0 \<or> ci_when i = 0) es = es" if "ci_when i > now" using Cons.prems that by (intro filter_True) auto
  then show ?case using Cons by simp
qed simp

lemma expire_lengths: "length (expired now es) + length (expire now es) = length es"
  by (induction es) auto

section \<open>The interface\<close>

text \<open>A component whose calls do to a list of entries what a specification says.\<close>

fun ops_run :: "('op \<Rightarrow> 'c \<Rightarrow> (cache_ret \<times> 'c) cres) \<Rightarrow> 'op list \<Rightarrow> 'c \<Rightarrow> (cache_ret list \<times> 'c) cres" where
  "ops_run step [] c = Inr ([], c)"
| "ops_run step (x # xs) c = cbind (step x c) (\<lambda>(r, c1). cbind (ops_run step xs c1) (\<lambda>(rs, c2). Inr (r # rs, c2)))"

fun ops_spec :: "('op \<Rightarrow> cache_info list \<Rightarrow> cache_res) \<Rightarrow> 'op list \<Rightarrow> cache_info list \<Rightarrow> cache_ret list \<times> ptr list \<times> cache_info list" where
  "ops_spec spec [] es = ([], [], es)"
| "ops_spec spec (x # xs) es = (let (r, fs, es1) = spec x es; (rs, gs, es2) = ops_spec spec xs es1 in (r # rs, fs @ gs, es2))"

locale entry_store =
  fixes holds :: "'c \<Rightarrow> cache_info list \<Rightarrow> ptr list \<Rightarrow> bool"
    and bound :: "'c \<Rightarrow> nat"
    and step :: "'op \<Rightarrow> 'c \<Rightarrow> (cache_ret \<times> 'c) cres"
    and spec :: "nat \<Rightarrow> 'op \<Rightarrow> cache_info list \<Rightarrow> cache_res"
    and ok :: "nat \<Rightarrow> cache_info list \<Rightarrow> bool"
    and taken :: "'op \<Rightarrow> cache_ret \<Rightarrow> ptr list"
  assumes step_refines: "holds c es fs \<Longrightarrow> spec (bound c) x es = (r, gs, es') \<Longrightarrow>
      \<exists>c'. step x c = Inr (r, c') \<and> holds c' es' (fs @ gs) \<and> bound c' = bound c"
    and spec_keeps: "ok n es \<Longrightarrow> spec n x es = (r, gs, es') \<Longrightarrow> ok n es' \<and> mset (map ci_value es) + mset (taken x r) = mset (map ci_value es') + mset gs"
begin

lemma ops_refine:
  assumes "holds c es fs" "ops_spec (spec (bound c)) xs es = (rs, gs, es')"
  shows "\<exists>c'. ops_run step xs c = Inr (rs, c') \<and> holds c' es' (fs @ gs) \<and> bound c' = bound c"
  using assms
proof (induction xs arbitrary: c es fs rs gs)
  case (Cons x xs)
  obtain r f1 es1 where s1: "spec (bound c) x es = (r, f1, es1)" by (cases "spec (bound c) x es")
  obtain qs f2 where s2: "ops_spec (spec (bound c)) xs es1 = (qs, f2, es')" "rs = r # qs" "gs = f1 @ f2"
    using Cons.prems(2) s1 by (auto split: prod.splits)
  obtain c1 where c1: "step x c = Inr (r, c1)" "holds c1 es1 (fs @ f1)" "bound c1 = bound c" using step_refines [OF Cons.prems(1) s1] by blast
  have "ops_spec (spec (bound c1)) xs es1 = (qs, f2, es')" using s2(1) c1(3) by simp
  then obtain c2 where "ops_run step xs c1 = Inr (qs, c2)" "holds c2 es' ((fs @ f1) @ f2)" "bound c2 = bound c1" using Cons.IH [OF c1(2)] by blast
  with c1 s2 show ?case by auto
qed simp

lemma ops_keep:
  assumes "ok n es" "ops_spec (spec n) xs es = (rs, gs, es')"
  shows "ok n es' \<and> length rs = length xs \<and> mset (map ci_value es) + mset (concat (map2 taken xs rs)) = mset (map ci_value es') + mset gs"
  using assms
proof (induction xs arbitrary: es rs gs)
  case (Cons x xs)
  obtain r f1 es1 where s1: "spec n x es = (r, f1, es1)" by (cases "spec n x es")
  obtain qs f2 where s2: "ops_spec (spec n) xs es1 = (qs, f2, es')" "rs = r # qs" "gs = f1 @ f2"
    using Cons.prems(2) s1 by (auto split: prod.splits)
  note k = spec_keeps [OF Cons.prems(1) s1]
  note i = Cons.IH [OF conjunct1 [OF k] s2(1)]
  have "mset (map ci_value es) + (mset (taken x r) + mset (concat (map2 taken xs qs))) = mset (map ci_value es1) + mset f1 + mset (concat (map2 taken xs qs))"
    using k by (metis add.assoc)
  also have "\<dots> = mset (map ci_value es') + (mset f1 + mset f2)" using i by (metis add.assoc add.commute)
  finally show ?case using i k s2(2,3) by simp
qed simp

lemma ops_all:
  assumes "holds c [] []" "ok (bound c) []"
  shows "\<exists>rs c' es fs. ops_run step xs c = Inr (rs, c') \<and> holds c' es fs \<and> ok (bound c) es \<and> length rs = length xs
    \<and> mset (concat (map2 taken xs rs)) = mset (map ci_value es) + mset fs"
proof -
  obtain rs gs es where s: "ops_spec (spec (bound c)) xs [] = (rs, gs, es)" by (cases "ops_spec (spec (bound c)) xs []")
  from ops_refine [OF assms(1) s] ops_keep [OF assms(2) s] show ?thesis by auto
qed

end

end
