(* ===== verification/Acl_Cache2Wf.thy ===== *)
theory Acl_Cache2Wf
  imports Acl_Cache2Queue Acl_Cache2Spec
begin

text \<open>
  The invariant of the cache of \<open>acl_cache2.c\<close> and what its operations do to it. \<open>wf2 c gs\<close>: the tree of times holds the groups \<open>gs\<close>,
  none of them empty; the hash table maps each key to its entry; \<open>size\<close> counts the entries.
\<close>

definition wf2 :: "cache2 \<Rightarrow> group list \<Rightarrow> bool" where
  "wf2 c gs \<longleftrightarrow>
     wft (c2_q c) gs \<and> dict_holds False (c2_table c) (key_map (flat gs)) \<and> distinct (keys (map snd (flat gs))) \<and>
     c2_size c = int (length (flat gs)) \<and> (\<forall>g \<in> set gs. fst g < c2_brk c \<and> snd (snd g) \<noteq> []) \<and>
     (\<forall>x \<in> set (flat gs). fst x < c2_brk c) \<and> stack_tmp < c2_brk c \<and> 0 < c2_max_size c"

lemma wf2D:
  assumes "wf2 c gs"
  shows "wft (c2_q c) gs" "dict_holds False (c2_table c) (key_map (flat gs))" "distinct (keys (map snd (flat gs)))"
    "c2_size c = int (length (flat gs))" "\<forall>g \<in> set gs. fst g < c2_brk c" "\<forall>g \<in> set gs. snd (snd g) \<noteq> []"
    "\<forall>x \<in> set (flat gs). fst x < c2_brk c" "stack_tmp < c2_brk c" "0 < c2_max_size c"
  using assms by (auto simp: wf2_def)

definition c2_since :: "cache2 \<Rightarrow> cache2 \<Rightarrow> ptr list \<Rightarrow> bool" where
  "c2_since c c' vs \<longleftrightarrow>
     c2_max_size c' = c2_max_size c \<and> c2_free_fn c' = c2_free_fn c \<and>
     map snd (c2_freed c') = map snd (c2_freed c) @ (if c2_free_fn c then vs else [])"

lemma c2_since_refl [simp]: "c2_since c c []"
  by (simp add: c2_since_def)

lemma c2_since_trans: "c2_since c c1 us \<Longrightarrow> c2_since c1 c2 vs \<Longrightarrow> c2_since c c2 (us @ vs)"
  by (auto simp: c2_since_def)

lemma c2_table_since [simp]: "c2_since c (c\<lparr>c2_table := t\<rparr>) []" "c2_since (c\<lparr>c2_table := t\<rparr>) c' fs = c2_since c c' fs"
  by (simp_all add: c2_since_def)

section \<open>Reading\<close>

lemma wf2_in_tree:
  assumes "wf2 c gs"
  obtains T where "avl_rep (tq_links (c2_q c)) (tq_avl (c2_q c)) T" "inorder T = map fst gs"
  using wf2D(1) [OF assms] by (auto simp: wft_def in_tree_def)

lemma wf2_ends: "wf2 c gs \<Longrightarrow> c2_first c = Inr (first_opt (map fst gs))" "wf2 c gs \<Longrightarrow> c2_last c = Inr (last_opt (map fst gs))"
  by (auto elim!: wf2_in_tree simp: c2_first_def c2_last_def avl_ends_result)

lemma wf2_walk:
  assumes "wf2 c (As @ (a, w, xs) # Bs)"
  shows "c2_next c (Some a) = Inr (first_opt (map fst Bs))" "c2_prev c (Some a) = Inr (last_opt (map fst As))"
proof -
  obtain T where "avl_rep (tq_links (c2_q c)) (tq_avl (c2_q c)) T" "inorder T = map fst As @ a # map fst Bs"
    using wf2_in_tree [OF assms] by auto
  then show "c2_next c (Some a) = Inr (first_opt (map fst Bs))" "c2_prev c (Some a) = Inr (last_opt (map fst As))"
    unfolding c2_next_def c2_prev_def by (rule avl_walk_result)+
qed

lemma wf2_nodes: "wf2 c gs \<Longrightarrow> c2_nodes c = length gs"
  by (erule wf2_in_tree) (simp add: c2_nodes_def avl_numnodes_def avl_rep_def)

lemma wf2_tree: "wf2 c (As @ (a, w, xs) # Bs) \<Longrightarrow> tree_read (c2_q c) (Some a) = Inr (tree_of w xs)"
  using wftD(1) [OF wf2D(1)] by (simp add: tree_read_def)

lemma tree_of_simps [simp]: "tn_head (tree_of w xs) = first_of xs None" "tn_tail (tree_of w xs) = last_of xs None" "tn_when (tree_of w xs) = w"
  by (simp_all add: tree_of_def)

lemma wf2_info:
  assumes "wf2 c (As @ (a, w, xs @ x # ys) # Bs)"
  shows "c2_info c (Some (fst x)) =
      Inr \<lparr>cn_data = \<lparr>i2_info = snd x, i2_tree = Some a\<rparr>, cn_prev = last_of xs None, cn_next = first_of ys None\<rparr>"
    "ci_when (snd x) = w"
  using wftD(2,3) [OF wf2D(1) [OF assms]] by (simp_all add: c2_info_def cseg_append cread_def)

lemma flat_split:
  "flat gs = us @ x # vs \<Longrightarrow> \<exists>As a w xs ys Bs. gs = As @ (a, w, xs @ x # ys) # Bs \<and> us = flat As @ xs \<and> vs = ys @ flat Bs"
proof (induction gs arbitrary: us rule: flat.induct)
  case (2 a w zs gs)
  then have "zs @ flat gs = us @ x # vs" by simp
  then consider (here) l where "zs = us @ x # l" "vs = l @ flat gs" | (later) ws where "us = zs @ ws" "flat gs = ws @ x # vs"
    unfolding append_eq_append_conv2 append_eq_Cons_conv by fastforce
  then show ?case
  proof cases
    case here
    then show ?thesis by (intro exI [of _ "[]"] exI [of _ a] exI [of _ w] exI [of _ us] exI [of _ l] exI [of _ gs]) simp
  next
    case later
    then obtain As b u xs ys Bs where "gs = As @ (b, u, xs @ x # ys) # Bs" "ws = flat As @ xs" "vs = ys @ flat Bs" using "2.IH" by blast
    with later show ?thesis by (intro exI [of _ "(a, w, zs) # As"] exI [of _ b] exI [of _ u] exI [of _ xs] exI [of _ ys] exI [of _ Bs]) simp
  qed
qed simp

lemma wf2_find:
  assumes "wf2 c gs"
  obtains (none) t where "acl_htable_find (c2_table c) k = Inr (None, t)" "wf2 (c\<lparr>c2_table := t\<rparr>) gs" "lookup k (map snd (flat gs)) = None"
  | (found) t As a w xs x ys Bs where "acl_htable_find (c2_table c) k = Inr (Some (fst x), t)" "wf2 (c\<lparr>c2_table := t\<rparr>) gs"
      "gs = As @ (a, w, xs @ x # ys) # Bs" "ci_key (snd x) = k" "k \<notin> set (keys (map snd (flat As @ xs)))"
      "k \<notin> set (keys (map snd (ys @ flat Bs)))" "lookup k (map snd (flat gs)) = Some (snd x)"
proof -
  obtain t where t: "acl_htable_find (c2_table c) k = Inr (case key_map (flat gs) k of None \<Rightarrow> None | Some v \<Rightarrow> v, t)"
    "dict_holds False t (key_map (flat gs))"
    using htab.find_key [OF wf2D(2) [OF assms], of k] by (auto simp: norm_key_def)
  have w: "wf2 (c\<lparr>c2_table := t\<rparr>) gs" using assms t(2) by (simp add: wf2_def)
  show ?thesis
  proof (cases "find (\<lambda>x. ci_key (snd x) = k) (flat gs)")
    case None
    then show ?thesis using none t(1) w by (simp add: key_map_find lookup_snd)
  next
    case (Some x)
    then have x: "x \<in> set (flat gs)" "ci_key (snd x) = k" by (auto simp: find_Some_iff)
    then obtain us vs where xs: "flat gs = us @ x # vs" by (meson split_list)
    obtain As a u xs' ys Bs where g: "gs = As @ (a, u, xs' @ x # ys) # Bs" "us = flat As @ xs'" "vs = ys @ flat Bs"
      using flat_split [OF xs] by blast
    have "k \<notin> set (keys (map snd us))" "k \<notin> set (keys (map snd vs))" using wf2D(3) [OF assms] x(2) by (auto simp: xs)
    moreover have "lookup k (map snd (flat gs)) = Some (snd x)" using Some by (simp add: lookup_snd)
    moreover have "acl_htable_find (c2_table c) k = Inr (Some (fst x), t)" using Some t(1) by (simp add: key_map_find)
    ultimately show ?thesis using found [of x t As a u xs' ys Bs] w g x(2) by blast
  qed
qed

section \<open>Removing and changing an entry\<close>

lemma cache2_delete_wf:
  assumes w: "wf2 c (As @ (a, w, xs @ x # ys) # Bs)" and n: "ci_nrefer (snd x) \<le> 0"
  obtains c' where "acl_cache2_delete c (Some (fst x)) = Inr (0, c')" "wf2 c' (As @ grp a w (xs @ ys) @ Bs)" "c2_since c c' [ci_value (snd x)]"
proof -
  note d = wf2D [OF w]
  let ?us = "flat As @ xs" and ?vs = "ys @ flat Bs" and ?k = "ci_key (snd x)"
  have fl: "flat (As @ (a, w, xs @ x # ys) # Bs) = ?us @ x # ?vs" by simp
  have m: "key_map (?us @ x # ?vs) ?k = Some (Some (fst x))" using d(3) by (intro key_map_split) auto
  have h: "htable_holds (c2_table c) (key_map (?us @ x # ?vs))" and ko: "key_of (c2_table c) ?k = ?k"
    using d(2) by (simp_all add: dict_holds_def key_of_def)
  have "distinct (keys (map snd (?us @ x # ?vs)))" using d(3) by simp
  from key_map_remove [OF this]
  have km: "(key_map (flat As @ xs @ x # ys @ flat Bs))(?k := None) = key_map (flat As @ xs @ ys @ flat Bs)" by simp
  obtain t where t: "acl_htable_delete (c2_table c) ?k False = Inr (0, [], t)" "dict_holds False t (key_map (?us @ ?vs))"
    using acl_htable_delete_holds [OF h, of ?k False] dict_same_conf [OF d(2)] m by (auto simp: ko km)
  obtain q where q: "info_unlink (c2_q c) (Some (fst x)) = Inr q" "wft q (As @ (a, w, xs @ ys) # Bs)"
    using info_unlink_wft [OF d(1)] by blast
  let ?q1 = "q\<lparr>tq_infos := (tq_infos q)(fst x := None)\<rparr>"
  have "fst x \<notin> fst ` set (flat (As @ (a, w, xs @ ys) # Bs))" using d(1) by (auto simp: wft_def)
  then have "wft ?q1 (As @ (a, w, xs @ ys) # Bs)" using q(2) by (simp add: wft_infos_upd)
  then obtain q2 where q2: "tree_drop ?q1 (Some a) = Inr q2" "wft q2 (As @ grp a w (xs @ ys) @ Bs)"
    using tree_drop_wft by blast
  define c' where "c' = (c2_call_free (c\<lparr>c2_table := t, c2_q := q\<rparr>) (fst x) (ci_value (snd x)))\<lparr>c2_q := q2, c2_size := c2_size c - 1\<rparr>"
  have f: "c2_q c' = q2" "c2_size c' = c2_size c - 1" "c2_brk c' = c2_brk c" "c2_table c' = t" "c2_since c c' [ci_value (snd x)]" "c2_max_size c' = c2_max_size c"
    by (auto simp: c'_def c2_call_free_def c2_since_def)
  have "acl_cache2_delete c (Some (fst x)) = Inr (0, c')"
    using d(9) n wf2_info(1) [OF w] t(1) q(1) q2(1) by (auto simp: acl_cache2_delete_def c'_def c2_call_free_def Let_def)
  moreover have "wf2 c' (As @ grp a w (xs @ ys) @ Bs)"
    using d f q2(2) t(2) unfolding wf2_def by (auto simp: grp_def)
  ultimately show ?thesis using that f(5) by blast
qed

lemma c2_set_wf:
  assumes w: "wf2 c (As @ (a, w, xs @ x # ys) # Bs)" and f: "ci_key (f (snd x)) = ci_key (snd x)" "ci_when (f (snd x)) = ci_when (snd x)"
  obtains c' where "c2_set c (Some (fst x)) f = Inr c'" "wf2 c' (As @ (a, w, xs @ (fst x, f (snd x)) # ys) # Bs)" "c2_since c c' []"
proof -
  note d = wf2D [OF w]
  note q = wftD [OF d(1)]
  have s: "cseg (tq_infos (c2_q c)) None (nodes a xs) (Some (fst x))" "cseg (tq_infos (c2_q c)) (Some (fst x)) (nodes a ys) None"
    "tq_infos (c2_q c) (fst x) = Some \<lparr>cn_data = \<lparr>i2_info = snd x, i2_tree = Some a\<rparr>, cn_prev = last_of xs None, cn_next = first_of ys None\<rparr>"
    using q(2) by (simp_all add: cseg_append)
  let ?n = "\<lparr>cn_data = \<lparr>i2_info = f (snd x), i2_tree = Some a\<rparr>, cn_prev = last_of xs None, cn_next = first_of ys None\<rparr>"
  let ?x = "(fst x, f (snd x))"
  define q' where "q' = (c2_q c)\<lparr>tq_infos := (tq_infos (c2_q c))(fst x \<mapsto> ?n)\<rparr>"
  have D: "fst x \<notin> fst ` set xs" "fst x \<notin> fst ` set ys" using q(8) by auto
  have tr: "tree_of w (xs @ ?x # ys) = tree_of w (xs @ x # ys)" by (cases ys rule: rev_cases) (simp_all add: tree_of_def)
  have "wft q' (As @ (a, w, xs @ ?x # ys) # Bs)"
  proof (rule wft_change [OF d(1)])
    show "tq_trees q' = (tq_trees (c2_q c))(a \<mapsto> tree_of w (xs @ ?x # ys))" using q(1) by (simp add: q'_def tr fun_upd_idem)
    show "cseg (tq_infos q') None (nodes a (xs @ ?x # ys)) None" using s D by (simp add: q'_def cseg_append cseg_frame)
    show "\<forall>x \<in> set (xs @ ?x # ys). ci_when (snd x) = w" using q(3) f(2) by auto
    show "fst ` set (xs @ ?x # ys) \<inter> fst ` set (flat As) = {}" "fst ` set (xs @ ?x # ys) \<inter> fst ` set (flat Bs) = {}" using q(9,10) by auto
    show "tq_infos q' p = tq_infos (c2_q c) p" if "p \<notin> fst ` set (xs @ ?x # ys)" for p using that by (simp add: q'_def)
    show "distinct (map fst (xs @ ?x # ys))" using q(8) by simp
  qed (simp_all add: q'_def)
  moreover have "key_map (flat (As @ (a, w, xs @ ?x # ys) # Bs)) = key_map (flat (As @ (a, w, xs @ x # ys) # Bs))" using f(1) by (simp add: key_map_def)
  ultimately have "wf2 (c\<lparr>c2_q := q'\<rparr>) (As @ (a, w, xs @ ?x # ys) # Bs)" using d f(1) unfolding wf2_def by auto
  moreover have "c2_set c (Some (fst x)) f = Inr (c\<lparr>c2_q := q'\<rparr>)" using s(3) by (simp add: c2_set_def info2_write_def cwrite_def q'_def)
  ultimately show ?thesis using that by (simp add: c2_since_def)
qed

end
