(* ===== verification/Acl_Cache2Ops.thy ===== *)
theory Acl_Cache2Ops
  imports Acl_Cache2Wf
begin

text \<open>The loops of \<open>acl_cache2.c\<close> over tree nodes and entries, and the operations that put an entry into the tree.\<close>

section \<open>Removing entries\<close>

text \<open>An entry in use stays.\<close>

abbreviation in_use :: "addr \<times> cache_info \<Rightarrow> bool" where
  "in_use x \<equiv> ci_nrefer (snd x) > 0"

abbreviation unused :: "addr \<times> cache_info \<Rightarrow> bool" where
  "unused x \<equiv> ci_nrefer (snd x) \<le> 0"

lemma grp_Cons [simp]: "grp a w (xs @ y # ys) = [(a, w, xs @ y # ys)]" "grp a w [] = []"
  by (simp_all add: grp_def)

lemma expire_infos_wf:
  assumes "wf2 c (As @ grp a w (xs @ ys) @ Bs)" "length ys \<le> k"
  shows "\<exists>c'. expire_infos k c (first_of ys None) n = Inr (n + int (length (filter unused ys)), c') \<and>
    wf2 c' (As @ grp a w (xs @ filter in_use ys) @ Bs) \<and> c2_since c c' (map (\<lambda>x. ci_value (snd x)) (filter unused ys))"
  using assms
proof (induction ys arbitrary: c xs k n)
  case Nil
  then show ?case by (intro exI [of _ c]) (cases k; simp)
next
  case (Cons y ys)
  then obtain j where j: "k = Suc j" "length ys \<le> j" by (cases k) auto
  have w: "wf2 c (As @ (a, w, xs @ y # ys) # Bs)" using Cons.prems(1) by simp
  show ?case
  proof (cases "in_use y")
    case True
    have "wf2 c (As @ grp a w ((xs @ [y]) @ ys) @ Bs)" using Cons.prems(1) by simp
    from Cons.IH [OF this j(2), of n] obtain c' where "expire_infos j c (first_of ys None) n = Inr (n + int (length (filter unused ys)), c')"
      "wf2 c' (As @ grp a w ((xs @ [y]) @ filter in_use ys) @ Bs)" "c2_since c c' (map (\<lambda>x. ci_value (snd x)) (filter unused ys))"
      by blast
    then show ?thesis using True j(1) wf2_info(1) [OF w] by (intro exI [of _ c']) simp
  next
    case False
    then have "ci_nrefer (snd y) \<le> 0" by simp
    then obtain c1 where c1: "acl_cache2_delete c (Some (fst y)) = Inr (0, c1)" "wf2 c1 (As @ grp a w (xs @ ys) @ Bs)" "c2_since c c1 [ci_value (snd y)]"
      using cache2_delete_wf [OF w] by blast
    from Cons.IH [OF c1(2) j(2), of "n + 1"] obtain c' where
      c': "expire_infos j c1 (first_of ys None) (n + 1) = Inr (n + 1 + int (length (filter unused ys)), c')"
      "wf2 c' (As @ grp a w (xs @ filter in_use ys) @ Bs)" "c2_since c1 c' (map (\<lambda>x. ci_value (snd x)) (filter unused ys))"
      by blast
    then show ?thesis using False j(1) wf2_info(1) [OF w] c1(1) c2_since_trans [OF c1(3) c'(3)] by (intro exI [of _ c']) simp
  qed
qed

lemma wf2_fuel: "wf2 c (As @ (a, w, xs) # Bs) \<Longrightarrow> length xs \<le> nat (c2_size c)"
  using wf2D(4) [of c "As @ (a, w, xs) # Bs"] by simp

text \<open>All entries of one node at once.\<close>

lemma expire_node_wf:
  assumes "wf2 c (As @ (a, w, xs) # Bs)"
  obtains c' where "expire_infos (nat (c2_size c)) c (first_of xs None) n = Inr (n + int (length (filter (\<lambda>i. ci_nrefer i \<le> 0) (map snd xs))), c')"
    "wf2 c' (As @ grp a w (filter in_use xs) @ Bs)" "c2_since c c' (map ci_value (filter (\<lambda>i. ci_nrefer i \<le> 0) (map snd xs)))"
proof -
  have "xs \<noteq> []" using wf2D(6) [OF assms] by simp
  then have g: "wf2 c (As @ grp a w ([] @ xs) @ Bs)" using assms by (simp add: grp_def)
  have v: "map (\<lambda>x. ci_value (snd x)) (filter unused xs) = map ci_value (filter (\<lambda>i. ci_nrefer i \<le> 0) (map snd xs))"
    "length (filter unused xs) = length (filter (\<lambda>i. ci_nrefer i \<le> 0) (map snd xs))"
    by (simp_all add: filter_map o_def)
  from expire_infos_wf [OF g wf2_fuel [OF assms], of n] show ?thesis unfolding v by (auto intro: that)
qed

text \<open>What the scan for expired entries does with the entries of one time.\<close>

lemma expire_group:
  assumes "\<forall>e \<in> set xs. ci_when e = w"
  shows "w \<le> now \<Longrightarrow> w \<noteq> 0 \<Longrightarrow> expire now (xs @ es) = filter (\<lambda>i. ci_nrefer i > 0) xs @ expire now es"
    "w \<le> now \<Longrightarrow> w \<noteq> 0 \<Longrightarrow> expired now (xs @ es) = map ci_value (filter (\<lambda>i. ci_nrefer i \<le> 0) xs) @ expired now es"
    "w \<le> now \<Longrightarrow> w = 0 \<Longrightarrow> expire now (xs @ es) = xs @ expire now es" "w \<le> now \<Longrightarrow> w = 0 \<Longrightarrow> expired now (xs @ es) = expired now es"
    "w > now \<Longrightarrow> xs \<noteq> [] \<Longrightarrow> expire now (xs @ es) = xs @ es" "w > now \<Longrightarrow> xs \<noteq> [] \<Longrightarrow> expired now (xs @ es) = []"
proof -
  show "w \<le> now \<Longrightarrow> w \<noteq> 0 \<Longrightarrow> expire now (xs @ es) = filter (\<lambda>i. ci_nrefer i > 0) xs @ expire now es"
    "w \<le> now \<Longrightarrow> w \<noteq> 0 \<Longrightarrow> expired now (xs @ es) = map ci_value (filter (\<lambda>i. ci_nrefer i \<le> 0) xs) @ expired now es"
    "w \<le> now \<Longrightarrow> w = 0 \<Longrightarrow> expire now (xs @ es) = xs @ expire now es" "w \<le> now \<Longrightarrow> w = 0 \<Longrightarrow> expired now (xs @ es) = expired now es"
    using assms by (induction xs) auto
  show "w > now \<Longrightarrow> xs \<noteq> [] \<Longrightarrow> expire now (xs @ es) = xs @ es" "w > now \<Longrightarrow> xs \<noteq> [] \<Longrightarrow> expired now (xs @ es) = []"
    using assms by (cases xs; simp)+
qed

lemma wf2_group:
  assumes "wf2 c (As @ (a, w, xs) # Bs)"
  shows "\<forall>e \<in> set (map snd xs). ci_when e = w" "xs \<noteq> []"
  using wftD(3) [OF wf2D(1) [OF assms]] wf2D(6) [OF assms] by auto

lemma expire_nodes_wf:
  assumes "wf2 c (As @ Bs)" "length Bs \<le> k"
  shows "\<exists>c' gs. expire_nodes k c now (first_opt (map fst Bs)) n = Inr (n + int (length (expired now (map snd (flat Bs)))), c') \<and>
    wf2 c' (As @ gs) \<and> map snd (flat gs) = expire now (map snd (flat Bs)) \<and> c2_since c c' (expired now (map snd (flat Bs)))"
  using assms
proof (induction Bs arbitrary: c As k n)
  case Nil
  then show ?case by (intro exI [of _ c] exI [of _ "[]"]) (cases k; simp)
next
  case (Cons g Bs)
  then obtain j where j: "k = Suc j" "length Bs \<le> j" by (cases k) auto
  obtain a w xs where g: "g = (a, w, xs)" by (cases g)
  have w: "wf2 c (As @ (a, w, xs) # Bs)" using Cons.prems(1) g by simp
  note grp = expire_group [OF wf2_group(1) [OF w], of now "map snd (flat Bs)"]
  note read = wf2_tree [OF w] wf2_walk(1) [OF w]
  consider (stop) "w > now" | (never) "w \<le> now" "w = 0" | (old) "w \<le> now" "w \<noteq> 0" by linarith
  then show ?case
  proof cases
    case stop
    then show ?thesis using w g j(1) read grp(5,6) wf2_group(2) [OF w]
      by (intro exI [of _ c] exI [of _ "(a, w, xs) # Bs"]) simp
  next
    case never
    have "wf2 c ((As @ [(a, w, xs)]) @ Bs)" using w by simp
    from Cons.IH [OF this j(2), of n] obtain c' gs where
      "expire_nodes j c now (first_opt (map fst Bs)) n = Inr (n + int (length (expired now (map snd (flat Bs)))), c')"
      "wf2 c' ((As @ [(a, w, xs)]) @ gs)" "map snd (flat gs) = expire now (map snd (flat Bs))" "c2_since c c' (expired now (map snd (flat Bs)))"
      by blast
    then show ?thesis using never g j(1) read grp(3,4) by (intro exI [of _ c'] exI [of _ "(a, w, xs) # gs"]) simp
  next
    case old
    obtain c1 where c1: "expire_infos (nat (c2_size c)) c (first_of xs None) n = Inr (n + int (length (filter (\<lambda>i. ci_nrefer i \<le> 0) (map snd xs))), c1)"
      "wf2 c1 (As @ grp a w (filter in_use xs) @ Bs)" "c2_since c c1 (map ci_value (filter (\<lambda>i. ci_nrefer i \<le> 0) (map snd xs)))"
      by (rule expire_node_wf [OF w])
    let ?n = "n + int (length (filter (\<lambda>i. ci_nrefer i \<le> 0) (map snd xs)))"
    have "wf2 c1 ((As @ grp a w (filter in_use xs)) @ Bs)" using c1(2) by simp
    from Cons.IH [OF this j(2), of ?n] obtain c' gs where
      c': "expire_nodes j c1 now (first_opt (map fst Bs)) ?n = Inr (?n + int (length (expired now (map snd (flat Bs)))), c')"
      "wf2 c' ((As @ grp a w (filter in_use xs)) @ gs)" "map snd (flat gs) = expire now (map snd (flat Bs))" "c2_since c1 c' (expired now (map snd (flat Bs)))"
      by blast
    have "map snd (filter in_use xs) = filter (\<lambda>i. ci_nrefer i > 0) (map snd xs)" by (simp add: filter_map o_def)
    then show ?thesis using old g j(1) read grp(1,2) c1(1) c' c2_since_trans [OF c1(3) c'(4)]
      by (intro exI [of _ c'] exI [of _ "grp a w (filter in_use xs) @ gs"]) simp
  qed
qed

lemma acl_cache2_timeout_wf:
  assumes "wf2 c gs"
  obtains c' hs where "acl_cache2_timeout c now = Inr (int (length (expired now (map snd (flat gs)))), c')"
    "wf2 c' hs" "map snd (flat hs) = expire now (map snd (flat gs))" "c2_since c c' (expired now (map snd (flat gs)))"
  using expire_nodes_wf [of c "[]" gs "length gs" now 0] assms wf2D(9) [OF assms] wf2_ends(1) [OF assms] wf2_nodes [OF assms]
  by (auto simp: acl_cache2_timeout_def intro: that)

subsection \<open>Cleaning\<close>

text \<open>\<open>force\<close> lets the loop try to delete an entry in use, which \<open>acl_cache2_delete\<close> refuses.\<close>

lemma delete_in_use: "c2_info c info = Inr i \<Longrightarrow> ci_nrefer (i2_info (cn_data i)) > 0 \<Longrightarrow> \<not> c2_max_size c \<le> 0 \<Longrightarrow> acl_cache2_delete c info = Inr (-1, c)"
  by (simp add: acl_cache2_delete_def Let_def)

lemma delete_max: "acl_cache2_delete c info = Inr (n, c') \<Longrightarrow> c2_max_size c' = c2_max_size c"
  by (auto simp: acl_cache2_delete_def Let_def cbind_Inr_iff c2_call_free_def split: if_splits)

lemma clean_infos_expire: "\<not> c2_max_size c \<le> 0 \<Longrightarrow> clean_infos k c force info n = expire_infos k c info n"
proof (induction k arbitrary: c info n)
  case (Suc k)
  show ?case
  proof (cases "c2_info c info")
    case (Inr i)
    have "cbind (acl_cache2_delete c info) (\<lambda>(ret, c1). clean_infos k c1 force (cn_next i) (if ret = 0 then n + 1 else n)) =
      cbind (acl_cache2_delete c info) (\<lambda>(ret, c1). expire_infos k c1 (cn_next i) (if ret = 0 then n + 1 else n))"
      using Suc delete_max [of c info] by (cases "acl_cache2_delete c info") (auto split: prod.splits)
    then show ?thesis using Suc Inr delete_in_use [OF Inr] by (cases force; simp)
  qed simp
qed simp

lemma expire_infos_max: "expire_infos k c info n = Inr (m, c') \<Longrightarrow> c2_max_size c' = c2_max_size c"
proof (induction k arbitrary: c info n)
  case (Suc k)
  then show ?case using delete_max [of c info] by (auto simp: cbind_Inr_iff split: if_splits)
qed (simp split: if_splits)

lemma clean_nodes_force: "\<not> c2_max_size c \<le> 0 \<Longrightarrow> clean_nodes k c force pnode n = clean_nodes k c False pnode n"
proof (induction k arbitrary: c pnode n)
  case (Suc k)
  have "cbind (expire_infos m c p n) (\<lambda>(n1, c1). clean_nodes k c1 force q n1) = cbind (expire_infos m c p n) (\<lambda>(n1, c1). clean_nodes k c1 False q n1)" for m p q
    using Suc expire_infos_max [of m c p n] by (cases "expire_infos m c p n") (auto split: prod.splits)
  then show ?case using Suc.prems by (simp add: clean_infos_expire)
qed simp

lemma acl_cache2_clean_force: "acl_cache2_clean c force = acl_cache2_clean c False"
proof (cases "c2_max_size c \<le> 0")
  case False
  then have "clean_nodes k c force p 0 = clean_nodes k c False p 0" for k p by (rule clean_nodes_force)
  then show ?thesis by (simp add: acl_cache2_clean_def)
qed (simp add: acl_cache2_clean_def)

lemma clean_nodes_wf:
  assumes "wf2 c (As @ Bs)" "length Bs \<le> k"
  shows "\<exists>c' gs. clean_nodes k c force (first_opt (map fst Bs)) n =
      Inr (n + int (length (filter (\<lambda>i. ci_nrefer i \<le> 0) (map snd (flat Bs)))), c') \<and>
    wf2 c' (As @ gs) \<and> map snd (flat gs) = filter (\<lambda>i. ci_nrefer i > 0) (map snd (flat Bs)) \<and>
    c2_since c c' (map ci_value (filter (\<lambda>i. ci_nrefer i \<le> 0) (map snd (flat Bs))))"
  using assms
proof (induction Bs arbitrary: c As k n)
  case Nil
  then show ?case by (intro exI [of _ c] exI [of _ "[]"]) (cases k; simp)
next
  case (Cons g Bs)
  then obtain j where j: "k = Suc j" "length Bs \<le> j" by (cases k) auto
  obtain a w xs where g: "g = (a, w, xs)" by (cases g)
  have w: "wf2 c (As @ (a, w, xs) # Bs)" using Cons.prems(1) g by simp
  have mx: "\<not> c2_max_size c \<le> 0" using wf2D(9) [OF w] by simp
  let ?out = "\<lambda>es. filter (\<lambda>i. ci_nrefer i \<le> 0) (map snd es)"
  obtain c1 where c1: "expire_infos (nat (c2_size c)) c (first_of xs None) n = Inr (n + int (length (?out xs)), c1)"
    "wf2 c1 (As @ grp a w (filter in_use xs) @ Bs)" "c2_since c c1 (map ci_value (?out xs))"
    by (rule expire_node_wf [OF w])
  have "wf2 c1 ((As @ grp a w (filter in_use xs)) @ Bs)" using c1(2) by simp
  from Cons.IH [OF this j(2), of "n + int (length (?out xs))"] obtain c' gs where
    c': "clean_nodes j c1 force (first_opt (map fst Bs)) (n + int (length (?out xs))) = Inr (n + int (length (?out xs)) + int (length (?out (flat Bs))), c')"
    "wf2 c' ((As @ grp a w (filter in_use xs)) @ gs)" "map snd (flat gs) = filter (\<lambda>i. ci_nrefer i > 0) (map snd (flat Bs))"
    "c2_since c1 c' (map ci_value (?out (flat Bs)))"
    by blast
  have "map snd (filter in_use xs) = filter (\<lambda>i. ci_nrefer i > 0) (map snd xs)" by (simp add: filter_map o_def)
  then show ?case using g j(1) wf2_tree [OF w] wf2_walk(1) [OF w] c1(1) c' c2_since_trans [OF c1(3) c'(4)]
    by (intro exI [of _ c'] exI [of _ "grp a w (filter in_use xs) @ gs"]) (simp add: clean_infos_expire [OF mx])
qed

lemma acl_cache2_clean_wf:
  assumes "wf2 c gs"
  obtains c' hs where "acl_cache2_clean c force = Inr (int (length (filter (\<lambda>i. ci_nrefer i \<le> 0) (map snd (flat gs)))), c')"
    "wf2 c' hs" "map snd (flat hs) = filter (\<lambda>i. ci_nrefer i > 0) (map snd (flat gs))"
    "c2_since c c' (map ci_value (filter (\<lambda>i. ci_nrefer i \<le> 0) (map snd (flat gs))))"
  using clean_nodes_wf [of c "[]" gs "length gs" force 0] assms wf2D(9) [OF assms] wf2_ends(1) [OF assms] wf2_nodes [OF assms]
  by (auto simp: acl_cache2_clean_def intro: that)

subsection \<open>Making room\<close>

lemma unused_info_wf:
  assumes "wf2 c (As @ (a, w, xs @ ys) # Bs)" "length ys \<le> k"
  shows "unused_info k c (first_of ys None) = Inr (map_option fst (find (\<lambda>x. ci_nrefer (snd x) = 0) ys))"
  using assms
proof (induction ys arbitrary: xs k)
  case Nil
  then show ?case by (cases k) simp_all
next
  case (Cons y ys)
  then obtain j where j: "k = Suc j" "length ys \<le> j" by (cases k) auto
  have "wf2 c (As @ (a, w, (xs @ [y]) @ ys) # Bs)" using Cons.prems(1) by simp
  from Cons.IH [OF this j(2)] show ?case using j(1) wf2_info(1) [OF Cons.prems(1)] by simp
qed

lemma evict_group:
  assumes "\<forall>e \<in> set xs. ci_when e = w"
  shows "w = 0 \<or> (\<forall>e \<in> set xs. ci_nrefer e \<noteq> 0) \<Longrightarrow> evict2 (xs @ es) = xs @ evict2 es"
    "w = 0 \<or> (\<forall>e \<in> set xs. ci_nrefer e \<noteq> 0) \<Longrightarrow> evicted2 (xs @ es) = evicted2 es"
  using assms by (induction xs) auto

lemma evict_first:
  assumes "\<forall>e \<in> set us. ci_nrefer e \<noteq> 0" "ci_nrefer i = 0" "ci_when i \<noteq> 0"
  shows "evict2 (us @ i # es) = us @ es" "evicted2 (us @ i # es) = [ci_value i]"
  using assms by (induction us) auto

lemma evict_nodes_wf:
  assumes "wf2 c (As @ Bs)" "length Bs \<le> k"
  shows "\<exists>c' gs. evict_nodes k c (first_opt (map fst Bs)) = Inr c' \<and> wf2 c' (As @ gs) \<and> map snd (flat gs) = evict2 (map snd (flat Bs)) \<and>
    c2_since c c' (evicted2 (map snd (flat Bs)))"
  using assms
proof (induction Bs arbitrary: As k)
  case Nil
  then show ?case by (intro exI [of _ c] exI [of _ "[]"]) (cases k; simp)
next
  case (Cons g Bs)
  then obtain j where j: "k = Suc j" "length Bs \<le> j" by (cases k) auto
  obtain a w xs where g: "g = (a, w, xs)" by (cases g)
  have w: "wf2 c (As @ (a, w, xs) # Bs)" using Cons.prems(1) g by simp
  have un: "unused_info (nat (c2_size c)) c (first_of xs None) = Inr (map_option fst (find (\<lambda>x. ci_nrefer (snd x) = 0) xs))"
    using unused_info_wf [of c As a w "[]" xs Bs] w wf2_fuel [OF w] by simp
  note read = wf2_tree [OF w] wf2_walk(1) [OF w] un
  show ?case
  proof (cases "w = 0 \<or> find (\<lambda>x. ci_nrefer (snd x) = 0) xs = None")
    case True
    then have "w = 0 \<or> (\<forall>e \<in> set (map snd xs). ci_nrefer e \<noteq> 0)" by (auto simp: find_None_iff)
    note ev = evict_group [OF wf2_group(1) [OF w] this, of "map snd (flat Bs)"]
    have "wf2 c ((As @ [(a, w, xs)]) @ Bs)" using w by simp
    from Cons.IH [OF this j(2)] obtain c' gs where "evict_nodes j c (first_opt (map fst Bs)) = Inr c'"
      "wf2 c' ((As @ [(a, w, xs)]) @ gs)" "map snd (flat gs) = evict2 (map snd (flat Bs))" "c2_since c c' (evicted2 (map snd (flat Bs)))"
      by blast
    then show ?thesis using True g j(1) read ev by (intro exI [of _ c'] exI [of _ "(a, w, xs) # gs"]) auto
  next
    case False
    then obtain x where f: "find (\<lambda>x. ci_nrefer (snd x) = 0) xs = Some x" and nz: "w \<noteq> 0" by auto
    then obtain us vs where xs: "xs = us @ x # vs" "\<forall>e \<in> set us. ci_nrefer (snd e) \<noteq> 0" "ci_nrefer (snd x) = 0"
      by (auto simp: find_Some_iff) (metis (no_types, lifting) id_take_nth_drop in_set_conv_nth length_take min.absorb2 less_imp_le nth_take)
    have w': "wf2 c (As @ (a, w, us @ x # vs) # Bs)" using w xs(1) by simp
    have wx: "ci_when (snd x) = w" by (rule wf2_info(2) [OF w'])
    obtain c' where c': "acl_cache2_delete c (Some (fst x)) = Inr (0, c')" "wf2 c' (As @ grp a w (us @ vs) @ Bs)" "c2_since c c' [ci_value (snd x)]"
      using cache2_delete_wf [OF w'] xs(3) by auto
    have "\<forall>e \<in> set (map snd us). ci_nrefer e \<noteq> 0" using xs(2) by simp
    note ev = evict_first [OF this xs(3), of "map snd vs @ map snd (flat Bs)"]
    show ?thesis using g j(1) read f nz c' ev wx xs(1)
      by (intro exI [of _ c'] exI [of _ "grp a w (us @ vs) @ Bs"]) simp
  qed
qed

lemma wf2_size: "wf2 c gs \<Longrightarrow> c2_size c \<ge> c2_max_size c \<longleftrightarrow> nat (c2_max_size c) \<le> length (flat gs)"
  using wf2D(4,9) [of c gs] by auto

lemma room2_wf:
  assumes w: "wf2 c gs" and r: "room2 (nat (c2_max_size c)) now (map snd (flat gs)) = (fs, es)"
  shows "\<exists>c1 c2 hs. (if c2_size c \<ge> c2_max_size c then cbind (acl_cache2_timeout c now) (\<lambda>(_, c1). Inr c1) else Inr c) = Inr c1 \<and>
    (if c2_size c1 \<ge> c2_max_size c1 then cbind (c2_first c1) (\<lambda>pnode. evict_nodes (c2_nodes c1) c1 pnode) else Inr c1) = Inr c2 \<and>
    wf2 c2 hs \<and> map snd (flat hs) = es \<and> c2_since c c2 fs"
proof -
  define f1 where "f1 = (if length (flat gs) \<ge> nat (c2_max_size c) then expired now (map snd (flat gs)) else [])"
  define e1 where "e1 = (if length (flat gs) \<ge> nat (c2_max_size c) then expire now (map snd (flat gs)) else map snd (flat gs))"
  obtain c1 hs where c1: "(if c2_size c \<ge> c2_max_size c then cbind (acl_cache2_timeout c now) (\<lambda>(_, c1). Inr c1) else Inr c) = Inr c1"
    "wf2 c1 hs" "map snd (flat hs) = e1" "c2_since c c1 f1"
    by (rule acl_cache2_timeout_wf [OF w, of now]) (use w wf2_size [OF w] in \<open>auto simp: f1_def e1_def\<close>)
  have mx: "c2_max_size c1 = c2_max_size c" "length (flat hs) = length e1" using c1(3,4) by (auto simp: c2_since_def)
  define f2 where "f2 = (if length (flat hs) \<ge> nat (c2_max_size c) then evicted2 e1 else [])"
  have r2: "fs = f1 @ f2" "es = (if length (flat hs) \<ge> nat (c2_max_size c) then evict2 e1 else e1)"
    using r by (auto simp: room2_def f1_def e1_def f2_def mx(2) Let_def split: if_splits)
  obtain c2 ks where "(if c2_size c1 \<ge> c2_max_size c1 then cbind (c2_first c1) (\<lambda>pnode. evict_nodes (c2_nodes c1) c1 pnode) else Inr c1) = Inr c2"
    "wf2 c2 ks" "map snd (flat ks) = es" "c2_since c1 c2 f2"
    using evict_nodes_wf [of c1 "[]" hs "length hs"] c1(2,3) wf2_size [OF c1(2)] wf2_ends(1) [OF c1(2)] wf2_nodes [OF c1(2)]
    unfolding f2_def r2(2) mx(1) by force
  with c1(1) c2_since_trans [OF c1(4), of c2 f2] r2(1) show ?thesis by blast
qed

end
