(* ===== verification/Acl_Cache2Put.thy ===== *)
theory Acl_Cache2Put
  imports Acl_Cache2Ops
begin

text \<open>Entering a new entry and moving an entry to another time: both end with an entry behind the others of its time.\<close>

lemma groups_when: "groups_ok q gs \<Longrightarrow> x \<in> set (flat gs) \<Longrightarrow> ci_when (snd x) \<in> set (g_times gs)"
  by (induction gs rule: flat.induct) auto

lemma wft_sides:
  assumes "wft q (As @ (a, w, xs) # Bs)"
  shows "x \<in> set (flat As) \<Longrightarrow> ci_when (snd x) < w" "x \<in> set (flat Bs) \<Longrightarrow> w < ci_when (snd x)"
proof -
  have "sorted_wrt (<) (g_times As @ w # g_times Bs)" using assms by (simp add: wft_def)
  then have s: "\<forall>u \<in> set (g_times As). u < w" "\<forall>u \<in> set (g_times Bs). w < u" by (auto simp: sorted_wrt_append)
  show "x \<in> set (flat As) \<Longrightarrow> ci_when (snd x) < w" using s(1) groups_when [OF wftD(4) [OF assms]] by blast
  show "x \<in> set (flat Bs) \<Longrightarrow> w < ci_when (snd x)" using s(2) groups_when [OF wftD(5) [OF assms]] by blast
qed

lemma ins_middle:
  "\<forall>u \<in> set us. ci_when u \<le> ci_when i \<Longrightarrow> \<forall>v \<in> set vs. ci_when i < ci_when v \<Longrightarrow> ins i (us @ vs) = us @ i # vs"
proof (induction us)
  case Nil
  then show ?case by (cases vs) auto
qed simp

lemma key_map_insert:
  assumes "ci_key i \<notin> set (keys (map snd us))"
  shows "key_map (us @ (p, i) # vs) = (key_map (us @ vs))(ci_key i \<mapsto> Some p)"
proof -
  have "key_map us (ci_key i) = None" using assms by (simp add: key_map_none)
  then show ?thesis by (auto simp: key_map_def map_add_def fun_eq_iff split: option.splits)
qed

text \<open>The state after an entry was put at the end of a group of its time.\<close>

lemma wf2_put:
  assumes q: "wft (c2_q c) (As @ (a, w, xs @ [(p, i)]) # Bs)"
    and gs: "gs = As @ (a, w, xs) # Bs \<or> gs = As @ Bs \<and> xs = []"
    and ne: "\<forall>g \<in> set gs. fst g < c2_brk c \<and> snd (snd g) \<noteq> []" "\<forall>x \<in> set (flat gs). fst x < c2_brk c" "a < c2_brk c" "p < c2_brk c"
    and k: "distinct (keys (map snd (flat gs)))" "ci_key i \<notin> set (keys (map snd (flat gs)))"
    and c: "dict_holds False (c2_table c) ((key_map (flat gs))(ci_key i \<mapsto> Some p))" "c2_size c = int (Suc (length (flat gs)))"
      "stack_tmp < c2_brk c" "0 < c2_max_size c"
  shows "wf2 c (As @ (a, w, xs @ [(p, i)]) # Bs)" "map snd (flat (As @ (a, w, xs @ [(p, i)]) # Bs)) = ins i (map snd (flat gs))"
proof -
  have fl: "flat gs = (flat As @ xs) @ flat Bs" using gs by auto
  have nk: "ci_key i \<notin> set (keys (map snd (flat As @ xs)))" using k(2) by (simp add: fl)
  have "wft (c2_q c) (As @ (a, w, xs @ [(p, i)]) # Bs) \<and> (\<forall>g \<in> set (As @ Bs). fst g < c2_brk c \<and> snd (snd g) \<noteq> [])" using q ne(1) gs by auto
  then show "wf2 c (As @ (a, w, xs @ [(p, i)]) # Bs)"
    using ne(2-4) k c key_map_insert [OF nk, of p "flat Bs"] unfolding wf2_def by (auto simp: fl)
  have i: "ci_when i = w" "\<forall>x \<in> set xs. ci_when (snd x) = w" using wftD(3) [OF q] by auto
  have "ins i (map snd (flat As @ xs) @ map snd (flat Bs)) = map snd (flat As @ xs) @ i # map snd (flat Bs)"
    using wft_sides [OF q] i by (intro ins_middle) (auto simp: less_imp_le)
  then show "map snd (flat (As @ (a, w, xs @ [(p, i)]) # Bs)) = ins i (map snd (flat gs))" by (simp add: fl)
qed

lemma cache2_add_wf:
  fixes timeout now :: int and v :: ptr
  assumes w: "wf2 c gs" and k: "k \<notin> set (keys (map snd (flat gs)))"
  defines "i \<equiv> \<lparr>ci_key = k, ci_value = v, ci_nrefer = 0, ci_when = (if timeout > 0 then now + timeout else 0)\<rparr>"
  obtains c' p hs where "cache2_add c now k v timeout = Inr (Some p, c')" "wf2 c' hs" "map snd (flat hs) = ins i (map snd (flat gs))" "c2_since c c' []"
proof -
  note d = wf2D [OF w]
  define t where "t = (if timeout > 0 then now + timeout else 0)"
  obtain a p q As xs Bs where l: "tree_locate (c2_q c) (c2_brk c) t = Inr (a, p, q)" "wft q (As @ (a, t, xs) # Bs)" "tq_infos q = tq_infos (c2_q c)"
    "c2_brk c \<le> p" "a < p" "gs = As @ (a, t, xs) # Bs \<or> gs = As @ Bs \<and> xs = []"
    using tree_locate_wft [OF d(1,5,8), of t] by blast
  have fl: "flat gs = flat (As @ (a, t, xs) # Bs)" using l(6) by auto
  have np: "p \<notin> fst ` set (flat (As @ (a, t, xs) # Bs))" using d(7) l(4) unfolding fl by force
  define n where "n = \<lparr>cn_data = \<lparr>i2_info = \<lparr>ci_key = k, ci_value = v, ci_nrefer = 0, ci_when = 0\<rparr>, i2_tree = None\<rparr>, cn_prev = None, cn_next = None\<rparr>"
  define q1 where "q1 = q\<lparr>tq_infos := (tq_infos q)(p \<mapsto> n)\<rparr>"
  have q1: "wft q1 (As @ (a, t, xs) # Bs)" "tq_infos q1 p = Some n" using l(2) np by (simp_all add: q1_def wft_infos_upd)
  have ni: "(i2_info (cn_data n))\<lparr>ci_when := t\<rparr> = i" by (simp add: n_def i_def t_def)
  obtain q2 where q2: "info_append q1 a p = Inr q2" "wft q2 (As @ (a, t, xs @ [(p, i)]) # Bs)"
    using info_append_wft [OF q1(1) np q1(2)] unfolding ni by blast
  have m: "key_map (flat gs) k = None" using k by (simp add: key_map_none)
  obtain tb where en: "htable_enter_op (c2_table c) k (Some p) = Inr (False, Some p, tb)" "dict_holds False tb ((key_map (flat gs))(k \<mapsto> Some p))"
    using htab.enter_new [OF d(2), of k "Some p"] m by (auto simp: norm_key_def)
  obtain ht where ht: "acl_htable_enter (c2_table c) k (Some p) = Inr (Some ht, tb)"
    using en(1) by (auto simp: htable_enter_op_def cbind_Inr_iff cread_def deref_def split: option.splits)
  define c' where "c' = c\<lparr>c2_table := tb, c2_q := q2, c2_brk := Suc p, c2_size := c2_size c + 1\<rparr>"
  have run: "cache2_add c now k v timeout = Inr (Some p, c')"
    using l(1) ht q2(1) by (simp add: cache2_add_def c'_def t_def q1_def n_def Let_def)
  have nb: "\<forall>g \<in> set gs. fst g < Suc p \<and> snd (snd g) \<noteq> []" "\<forall>x \<in> set (flat gs). fst x < Suc p" using d(5-7) l(4) by fastforce+
  note put = wf2_put [of c' As a t xs p i Bs gs]
  have "wf2 c' (As @ (a, t, xs @ [(p, i)]) # Bs)" "map snd (flat (As @ (a, t, xs @ [(p, i)]) # Bs)) = ins i (map snd (flat gs))"
    by (rule put; use q2(2) l nb d k en(2) in \<open>simp add: c'_def i_def\<close>)+
  then show ?thesis using that run by (simp add: c2_since_def c'_def)
qed

lemma update2_wf:
  fixes timeout :: int
  assumes w: "wf2 c (As @ (a, w, xs @ x # ys) # Bs)"
  defines "i \<equiv> (snd x)\<lparr>ci_when := if timeout > 0 then timeout else 0\<rparr>"
  obtains c' hs where "acl_cache2_update2 c (fst x) timeout = Inr c'" "wf2 c' hs"
    "map snd (flat hs) = ins i (map snd (flat As @ xs @ ys @ flat Bs))" "c2_since c c' []"
proof -
  note d = wf2D [OF w]
  define t where "t = (if timeout > 0 then timeout else 0)"
  obtain q where q: "info_unlink (c2_q c) (Some (fst x)) = Inr q" "wft q (As @ (a, w, xs @ ys) # Bs)" "tq_infos q (fst x) = tq_infos (c2_q c) (fst x)"
    using info_unlink_wft [OF d(1)] by blast
  define gs where "gs = As @ grp a w (xs @ ys) @ Bs"
  obtain q1 where q1: "tree_drop q (Some a) = Inr q1" "wft q1 gs" "tq_infos q1 = tq_infos q"
    using tree_drop_wft [OF q(2)] unfolding gs_def by blast
  have ne: "\<forall>g \<in> set gs. fst g < c2_brk c" "\<forall>g \<in> set gs. snd (snd g) \<noteq> []" "\<forall>x \<in> set (flat gs). fst x < c2_brk c" "fst x < c2_brk c"
    using d(5-7) by (auto simp: gs_def grp_def)
  have dk: "distinct (keys (map snd (flat gs)))" "ci_key i \<notin> set (keys (map snd (flat gs)))"
    "int (Suc (length (flat gs))) = c2_size c" "flat gs = flat As @ xs @ ys @ flat Bs"
    using d(3,4) by (auto simp: gs_def i_def)
  obtain b brk q2 Cs zs Ds where l: "tree_locate q1 (c2_brk c) t = Inr (b, brk, q2)" "wft q2 (Cs @ (b, t, zs) # Ds)" "tq_infos q2 = tq_infos q1"
    "c2_brk c \<le> brk" "b < brk" "gs = Cs @ (b, t, zs) # Ds \<or> gs = Cs @ Ds \<and> zs = []"
    using tree_locate_wft [OF q1(2) ne(1) d(8), of t] by blast
  have fl: "flat gs = flat (Cs @ (b, t, zs) # Ds)" using l(6) by auto
  have np: "fst x \<notin> fst ` set (flat (Cs @ (b, t, zs) # Ds))" using d(1) unfolding fl [symmetric] dk(4) by (auto simp: wft_def)
  let ?n = "\<lparr>cn_data = \<lparr>i2_info = snd x, i2_tree = Some a\<rparr>, cn_prev = last_of xs None, cn_next = first_of ys None\<rparr>"
  have n: "tq_infos q2 (fst x) = Some ?n"
    using wftD(2) [OF d(1)] l(3) q1(3) q(3) by (simp add: cseg_append)
  have ni: "(i2_info (cn_data ?n))\<lparr>ci_when := t\<rparr> = i" by (simp add: i_def t_def)
  obtain q3 where q3: "info_append q2 b (fst x) = Inr q3" "wft q3 (Cs @ (b, t, zs @ [(fst x, i)]) # Ds)"
    using info_append_wft [OF l(2) np n] unfolding ni by blast
  define c' where "c' = c\<lparr>c2_q := q3, c2_brk := brk\<rparr>"
  have run: "acl_cache2_update2 c (fst x) timeout = Inr c'"
    using wf2_info(1) [OF w] d(9) q(1) q1(1) l(1) q3(1) by (simp add: acl_cache2_update2_def c'_def t_def)
  have nk: "ci_key (snd x) \<notin> set (keys (map snd (flat As @ xs)))" using d(3) by auto
  have tab: "dict_holds False (c2_table c) ((key_map (flat gs))(ci_key i \<mapsto> Some (fst x)))"
    using d(2) key_map_insert [OF nk, of "fst x" "ys @ flat Bs"] by (simp add: dk(4) i_def)
  have nb: "\<forall>g \<in> set gs. fst g < brk \<and> snd (snd g) \<noteq> []" "\<forall>x \<in> set (flat gs). fst x < brk" "fst x < brk" "stack_tmp < brk"
    using ne d(8) l(4) by fastforce+
  note put = wf2_put [of c' Cs b t zs "fst x" i Ds gs]
  have "wf2 c' (Cs @ (b, t, zs @ [(fst x, i)]) # Ds)" "map snd (flat (Cs @ (b, t, zs @ [(fst x, i)]) # Ds)) = ins i (map snd (flat gs))"
    by (rule put; use q3(2) l(5,6) nb d(9) dk tab in \<open>simp add: c'_def\<close>)+
  then show ?thesis using that run unfolding dk(4) by (simp add: c2_since_def c'_def)
qed

end
