(* ===== verification/Acl_Cache2Refine.thy ===== *)
theory Acl_Cache2Refine
  imports Acl_Cache2Put
begin

text \<open>
  The cache of \<open>acl_cache2.c\<close> as an \<open>entry_store\<close>: each call does to the tree, the lists and the table what \<open>spec2_call\<close> does to the list of
  entries in the order of their times.
\<close>

fun cache2_call :: "int \<times> cache2_req \<Rightarrow> cache2 \<Rightarrow> (cache_ret \<times> cache2) cres" where
  "cache2_call (now, QEnter k v t) c = cbind (acl_cache2_enter c now k v t) (\<lambda>(p, c'). Inr (Stored (p \<noteq> None), c'))"
| "cache2_call (now, QFind k) c = cbind (acl_cache2_find c k) (\<lambda>(p, c'). Inr (Got p, c'))"
| "cache2_call (now, QDelete k) c = cbind (acl_cache2_delete2 c k) (\<lambda>(n, c'). Inr (Code n, c'))"
| "cache2_call (now, QTimeout) c = cbind (acl_cache2_timeout c now) (\<lambda>(n, c'). Inr (Code n, c'))"
| "cache2_call (now, QUpdate k t) c = cbind (acl_cache2_update c k t) (\<lambda>c'. Inr (Unit, c'))"
| "cache2_call (now, QRefer k) c = cbind (acl_cache2_refer2 c k) (\<lambda>c'. Inr (Unit, c'))"
| "cache2_call (now, QUnrefer k) c = cbind (acl_cache2_unrefer2 c k) (\<lambda>c'. Inr (Unit, c'))"
| "cache2_call (now, QClean force) c = cbind (acl_cache2_clean c force) (\<lambda>(n, c'). Inr (Code n, c'))"

definition cache2_holds :: "cache2 \<Rightarrow> cache_info list \<Rightarrow> ptr list \<Rightarrow> bool" where
  "cache2_holds c es fs \<longleftrightarrow> (\<exists>gs. wf2 c gs \<and> map snd (flat gs) = es) \<and> c2_free_fn c \<and> map snd (c2_freed c) = fs"

definition cache2_max :: "cache2 \<Rightarrow> nat" where
  "cache2_max c = nat (c2_max_size c)"

text \<open>What one call has to show.\<close>

definition does2 :: "cache2 \<Rightarrow> (cache_ret \<times> cache2) cres \<Rightarrow> cache_res \<Rightarrow> bool" where
  "does2 c run res \<longleftrightarrow> (\<exists>c' hs. run = Inr (fst res, c') \<and> wf2 c' hs \<and> map snd (flat hs) = snd (snd res) \<and> c2_since c c' (fst (snd res)))"

lemma does2I: "run = Inr (r, c') \<Longrightarrow> wf2 c' hs \<Longrightarrow> map snd (flat hs) = es \<Longrightarrow> c2_since c c' fs \<Longrightarrow> does2 c run (r, fs, es)"
  by (auto simp: does2_def)

lemma key_split:
  assumes "ci_key (snd x) = k" "k \<notin> set (keys (map snd (flat As @ xs)))" "k \<notin> set (keys (map snd (ys @ flat Bs)))"
  shows "drop_key k (map snd (flat (As @ (a, w, xs @ x # ys) # Bs))) = map snd (flat As @ xs @ ys @ flat Bs)"
    "change_key k f (map snd (flat (As @ (a, w, xs @ x # ys) # Bs))) = map snd (flat (As @ (a, w, xs @ (fst x, f (snd x)) # ys) # Bs))"
  using drop_key_split [OF assms(2,3), of "snd x"] change_key_split [OF assms(2,3), of "snd x" f] assms(1) by simp_all

lemma enter2_does:
  assumes w: "wf2 c gs"
  shows "does2 c (cache2_call (now, QEnter k v t) c) (spec2_enter (cache2_max c) now k v t (map snd (flat gs)))"
  using w
proof (cases rule: wf2_find [where k = k])
  case (found tb As a u xs x ys Bs)
  let ?c = "c\<lparr>c2_table := tb\<rparr>"
  have w': "wf2 ?c (As @ (a, u, xs @ x # ys) # Bs)" using found(2,3) by simp
  note read = found(1) wf2_info(1) [OF w']
  show ?thesis
  proof (cases "in_use x")
    case True
    then have "spec2_enter (cache2_max c) now k v t (map snd (flat gs)) = (Stored False, [], map snd (flat gs))"
      using found(7) by (simp add: spec2_enter_def)
    then show ?thesis by (rule ssubst) (rule does2I [OF _ found(2)]; use read True in \<open>simp add: acl_cache2_enter_def Let_def\<close>)
  next
    case False
    let ?c1 = "c2_call_free ?c (fst x) (ci_value (snd x))"
    let ?f = "\<lambda>i. i\<lparr>ci_value := v\<rparr>"
    have w1: "wf2 ?c1 (As @ (a, u, xs @ x # ys) # Bs)" using w' by (simp add: wf2_def c2_call_free_def)
    obtain c2 where c2: "c2_set ?c1 (Some (fst x)) ?f = Inr c2" "wf2 c2 (As @ (a, u, xs @ (fst x, ?f (snd x)) # ys) # Bs)" "c2_since ?c1 c2 []"
      by (rule c2_set_wf [OF w1, of ?f]) simp_all
    have s: "c2_since c ?c1 [ci_value (snd x)]" by (simp add: c2_since_def c2_call_free_def)
    have "spec2_enter (cache2_max c) now k v t (map snd (flat gs)) = (Stored True, [ci_value (snd x)], map snd (flat (As @ (a, u, xs @ (fst x, ?f (snd x)) # ys) # Bs)))"
      using found(7) False key_split(2) [OF found(4-6), of ?f a u] by (simp add: spec2_enter_def found(3))
    then show ?thesis
      by (rule ssubst) (rule does2I [OF _ c2(2)]; use read False c2(1) c2_since_trans [OF s c2(3)] in \<open>simp add: acl_cache2_enter_def Let_def\<close>)
  qed
next
  case (none tb)
  let ?c = "c\<lparr>c2_table := tb\<rparr>" and ?es = "map snd (flat gs)"
  obtain fs e2 where g: "room2 (cache2_max c) now ?es = (fs, e2)" by fastforce
  then have g': "room2 (nat (c2_max_size ?c)) now (map snd (flat gs)) = (fs, e2)" by (simp add: cache2_max_def)
  obtain c1 c2 hs where c2: "(if c2_size ?c \<ge> c2_max_size ?c then cbind (acl_cache2_timeout ?c now) (\<lambda>(_, c1). Inr c1) else Inr ?c) = Inr c1"
    "(if c2_size c1 \<ge> c2_max_size c1 then cbind (c2_first c1) (\<lambda>pnode. evict_nodes (c2_nodes c1) c1 pnode) else Inr c1) = Inr c2"
    "wf2 c2 hs" "map snd (flat hs) = e2" "c2_since ?c c2 fs"
    using room2_wf [OF none(2) g'] by blast
  have mx: "c2_max_size c2 = c2_max_size c" "length (flat hs) = length e2" using c2(4,5) by (auto simp: c2_since_def)
  have full: "c2_size c2 \<ge> c2_max_size c2 \<longleftrightarrow> cache2_max c \<le> length e2" using wf2_size [OF c2(3)] mx by (simp add: cache2_max_def)
  have step: "acl_cache2_enter c now k v t = (if cache2_max c \<le> length e2 then Inr (None, c2) else cache2_add c2 now k v t)"
    using none(1) c2(1,2) full by (simp add: acl_cache2_enter_def Let_def)
  have since: "c2_since c c2 fs" using c2(5) by simp
  show ?thesis
  proof (cases "cache2_max c \<le> length e2")
    case True
    then have "spec2_enter (cache2_max c) now k v t ?es = (Stored False, fs, e2)" using none(3) g by (simp add: spec2_enter_def)
    then show ?thesis by (rule ssubst) (rule does2I [OF _ c2(3,4)]; use step True since in simp)
  next
    case False
    have sub: "set (keys e2) \<subseteq> set (keys ?es)"
      using g expire_keys(1) evict2_keeps(1) by (fastforce simp: room2_def Let_def split: if_splits)
    have nk: "k \<notin> set (keys (map snd (flat hs)))" using sub none(3) c2(4) by (auto simp: lookup_None)
    obtain c3 p ks where c3: "cache2_add c2 now k v t = Inr (Some p, c3)" "wf2 c3 ks"
      "map snd (flat ks) = ins \<lparr>ci_key = k, ci_value = v, ci_nrefer = 0, ci_when = (if t > 0 then now + t else 0)\<rparr> (map snd (flat hs))" "c2_since c2 c3 []"
      by (rule cache2_add_wf [OF c2(3) nk])
    have "spec2_enter (cache2_max c) now k v t ?es = (Stored True, fs, map snd (flat ks))" using none(3) g False c3(3) c2(4) by (simp add: spec2_enter_def)
    then show ?thesis
      by (rule ssubst) (rule does2I [OF _ c3(2)]; use step False c3(1) c2_since_trans [OF since c3(4)] in simp)
  qed
qed

lemma find2_does:
  assumes w: "wf2 c gs"
  shows "does2 c (cache2_call (now, QFind k) c) (spec_find k (map snd (flat gs)))"
  using w
proof (cases rule: wf2_find [where k = k])
  case (found tb As a u xs x ys Bs)
  have "wf2 (c\<lparr>c2_table := tb\<rparr>) (As @ (a, u, xs @ x # ys) # Bs)" using found(2,3) by simp
  note read = found(1,7) wf2_info(1) [OF this] wf2D(9) [OF w]
  show ?thesis unfolding spec_find_def by (rule does2I [OF _ found(2)]; use read in \<open>simp add: acl_cache2_find_def Let_def\<close>)
next
  case (none tb)
  show ?thesis unfolding spec_find_def by (rule does2I [OF _ none(2)]; use none(1,3) wf2D(9) [OF w] in \<open>simp add: acl_cache2_find_def Let_def\<close>)
qed

lemma delete2_does:
  assumes w: "wf2 c gs"
  shows "does2 c (cache2_call (now, QDelete k) c) (spec_delete k (map snd (flat gs)))"
  using w
proof (cases rule: wf2_find [where k = k])
  case (found tb As a u xs x ys Bs)
  let ?c = "c\<lparr>c2_table := tb\<rparr>"
  have w': "wf2 ?c (As @ (a, u, xs @ x # ys) # Bs)" using found(2,3) by simp
  note read = found(1) wf2_info(1) [OF w'] wf2D(9) [OF w]
  show ?thesis
  proof (cases "in_use x")
    case True
    then have "spec_delete k (map snd (flat gs)) = (Code (-1), [], map snd (flat gs))" using found(7) by (simp add: spec_delete_def)
    then show ?thesis by (rule ssubst) (rule does2I [OF _ found(2)]; use read True in \<open>simp add: acl_cache2_delete2_def Let_def\<close>)
  next
    case False
    then have n: "ci_nrefer (snd x) \<le> 0" by simp
    obtain c' where c': "acl_cache2_delete ?c (Some (fst x)) = Inr (0, c')" "wf2 c' (As @ grp a u (xs @ ys) @ Bs)" "c2_since ?c c' [ci_value (snd x)]"
      by (rule cache2_delete_wf [OF w' n])
    have "spec_delete k (map snd (flat gs)) = (Code 0, [ci_value (snd x)], map snd (flat As @ xs @ ys @ flat Bs))"
      using found(7) n key_split(1) [OF found(4-6), of a u] by (simp add: spec_delete_def found(3))
    then show ?thesis by (rule ssubst) (rule does2I [OF _ c'(2)]; use read False c' in \<open>simp add: acl_cache2_delete2_def Let_def\<close>)
  qed
next
  case (none tb)
  then have "spec_delete k (map snd (flat gs)) = (Code (-1), [], map snd (flat gs))" by (simp add: spec_delete_def)
  then show ?thesis by (rule ssubst) (rule does2I [OF _ none(2)]; use none(1) wf2D(9) [OF w] in \<open>simp add: acl_cache2_delete2_def Let_def\<close>)
qed

lemma update2_does:
  assumes w: "wf2 c gs"
  shows "does2 c (cache2_call (now, QUpdate k t) c) (spec2_update k t (map snd (flat gs)))"
  using w
proof (cases rule: wf2_find [where k = k])
  case (found tb As a u xs x ys Bs)
  let ?c = "c\<lparr>c2_table := tb\<rparr>" and ?i = "(snd x)\<lparr>ci_when := if t > 0 then t else 0\<rparr>"
  have w': "wf2 ?c (As @ (a, u, xs @ x # ys) # Bs)" using found(2,3) by simp
  obtain c' hs where c': "acl_cache2_update2 ?c (fst x) t = Inr c'" "wf2 c' hs" "map snd (flat hs) = ins ?i (map snd (flat As @ xs @ ys @ flat Bs))" "c2_since ?c c' []"
    by (rule update2_wf [OF w', of t])
  have "spec2_update k t (map snd (flat gs)) = (Unit, [], map snd (flat hs))"
    using found(7) key_split(1) [OF found(4-6), of a u] c'(3) by (simp add: spec2_update_def found(3))
  then show ?thesis by (rule ssubst) (rule does2I [OF _ c'(2)]; use found(1) c'(1,4) wf2D(9) [OF w] in \<open>simp add: acl_cache2_update_def Let_def\<close>)
next
  case (none tb)
  then have "spec2_update k t (map snd (flat gs)) = (Unit, [], map snd (flat gs))" by (simp add: spec2_update_def)
  then show ?thesis by (rule ssubst) (rule does2I [OF _ none(2)]; use none(1) wf2D(9) [OF w] in \<open>simp add: acl_cache2_update_def Let_def\<close>)
qed

lemma refer2_does:
  assumes w: "wf2 c gs"
    and op: "op = cbind (acl_htable_find (c2_table c) k) (\<lambda>(p, t).
        if p = None then Inr (c\<lparr>c2_table := t\<rparr>) else c2_set (c\<lparr>c2_table := t\<rparr>) p (\<lambda>i. i\<lparr>ci_nrefer := ci_nrefer i + n\<rparr>))"
  shows "does2 c (cbind op (\<lambda>c'. Inr (Unit, c'))) (spec_refer n k (map snd (flat gs)))"
  using w
proof (cases rule: wf2_find [where k = k])
  case (found tb As a u xs x ys Bs)
  let ?f = "\<lambda>i. i\<lparr>ci_nrefer := ci_nrefer i + n\<rparr>"
  have w': "wf2 (c\<lparr>c2_table := tb\<rparr>) (As @ (a, u, xs @ x # ys) # Bs)" using found(2,3) by simp
  obtain c' where c': "c2_set (c\<lparr>c2_table := tb\<rparr>) (Some (fst x)) ?f = Inr c'" "wf2 c' (As @ (a, u, xs @ (fst x, ?f (snd x)) # ys) # Bs)"
    "c2_since (c\<lparr>c2_table := tb\<rparr>) c' []"
    by (rule c2_set_wf [OF w', of ?f]) simp_all
  have "spec_refer n k (map snd (flat gs)) = (Unit, [], map snd (flat (As @ (a, u, xs @ (fst x, ?f (snd x)) # ys) # Bs)))"
    using key_split(2) [OF found(4-6), of ?f a u] by (simp add: spec_refer_def found(3))
  then show ?thesis by (rule ssubst) (rule does2I [OF _ c'(2)]; use op found(1) c'(1,3) in simp)
next
  case (none tb)
  then have "spec_refer n k (map snd (flat gs)) = (Unit, [], map snd (flat gs))" by (simp add: spec_refer_def lookup_None change_key_none)
  then show ?thesis by (rule ssubst) (rule does2I [OF _ none(2)]; use op none(1) in simp)
qed

lemma cache2_call_does:
  assumes w: "wf2 c gs"
  shows "does2 c (cache2_call x c) (spec2_call (cache2_max c) x (map snd (flat gs)))"
proof -
  obtain now r where x: "x = (now, r)" by fastforce
  note mx = wf2D(9) [OF w]
  show ?thesis
  proof (cases r)
    case QTimeout
    obtain c' hs where "acl_cache2_timeout c now = Inr (int (length (expired now (map snd (flat gs)))), c')"
      "wf2 c' hs" "map snd (flat hs) = expire now (map snd (flat gs))" "c2_since c c' (expired now (map snd (flat gs)))"
      by (rule acl_cache2_timeout_wf [OF w])
    then show ?thesis unfolding x QTimeout spec2_call.simps spec_timeout_def by (intro does2I) simp_all
  next
    case (QClean force)
    obtain c' hs where "acl_cache2_clean c force = Inr (int (length (filter (\<lambda>i. ci_nrefer i \<le> 0) (map snd (flat gs)))), c')"
      "wf2 c' hs" "map snd (flat hs) = filter (\<lambda>i. ci_nrefer i > 0) (map snd (flat gs))"
      "c2_since c c' (map ci_value (filter (\<lambda>i. ci_nrefer i \<le> 0) (map snd (flat gs))))"
      by (rule acl_cache2_clean_wf [OF w])
    then show ?thesis unfolding x QClean spec2_call.simps spec2_clean_def Let_def by (intro does2I) simp_all
  next
    case (QRefer k)
    then show ?thesis using mx by (auto simp: x acl_cache2_refer2_def Let_def intro: refer2_does [OF w])
  next
    case (QUnrefer k)
    have dec: "(\<lambda>i. i\<lparr>ci_nrefer := ci_nrefer i + - 1\<rparr>) = (\<lambda>i :: cache_info. i\<lparr>ci_nrefer := ci_nrefer i - 1\<rparr>)" by simp
    show ?thesis using mx refer2_does [OF w refl, of k "-1", unfolded dec] by (simp add: x QUnrefer acl_cache2_unrefer2_def Let_def)
  qed (use enter2_does [OF w] find2_does [OF w] delete2_does [OF w] update2_does [OF w] in \<open>simp_all add: x del: cache2_call.simps\<close>)
qed

interpretation cache2: entry_store cache2_holds cache2_max cache2_call spec2_call entries2_ok taken2
proof
  fix c es fs x r gs es'
  assume "cache2_holds c es fs" and s: "spec2_call (cache2_max c) x es = (r, gs, es')"
  then obtain g where g: "wf2 c g" "map snd (flat g) = es" "c2_free_fn c" "map snd (c2_freed c) = fs" by (auto simp: cache2_holds_def)
  from cache2_call_does [OF g(1), of x] obtain c' hs where "cache2_call x c = Inr (r, c')" "wf2 c' hs" "map snd (flat hs) = es'" "c2_since c c' gs"
    unfolding g(2) s by (auto simp: does2_def)
  then show "\<exists>c'. cache2_call x c = Inr (r, c') \<and> cache2_holds c' es' (fs @ gs) \<and> cache2_max c' = cache2_max c"
    using g(3,4) by (intro exI [of _ c']) (auto simp: cache2_holds_def c2_since_def cache2_max_def)
qed (rule spec2_call_keeps)

end
