(* ===== verification/Acl_Cache2Walk.thy ===== *)
theory Acl_Cache2Walk
  imports Acl_Cache2Refine
begin

text \<open>Walks through the cache of \<open>acl_cache2.c\<close>, its iterators, its creation and its release.\<close>

definition c2_entry :: "cache2 \<Rightarrow> addr \<Rightarrow> cache_info option" where
  "c2_entry c a = map_option (i2_info \<circ> cn_data) (tq_infos (c2_q c) a)"

lemma wf2_entry: "wf2 c gs \<Longrightarrow> x \<in> set (flat gs) \<Longrightarrow> c2_entry c (fst x) = Some (snd x)"
proof -
  assume w: "wf2 c gs" "x \<in> set (flat gs)"
  obtain us vs where "flat gs = us @ x # vs" using split_list [OF w(2)] by blast
  then obtain As a u xs ys Bs where "gs = As @ (a, u, xs @ x # ys) # Bs" using flat_split by blast
  with wf2_info(1) [of c As a u xs x ys Bs] w(1) show ?thesis
    by (auto simp: c2_info_def cread_def c2_entry_def split: option.splits)
qed

lemma walk_infos_wf:
  "wf2 c (As @ (a, w, xs @ ys) # Bs) \<Longrightarrow> length ys \<le> k \<Longrightarrow> walk_infos k c (first_of ys None) = Inr (map fst ys)"
proof (induction ys arbitrary: xs k)
  case Nil
  then show ?case by (cases k) simp_all
next
  case (Cons y ys)
  then obtain j where j: "k = Suc j" "length ys \<le> j" by (cases k) auto
  have "wf2 c (As @ (a, w, (xs @ [y]) @ ys) # Bs)" using Cons.prems(1) by simp
  from Cons.IH [OF this j(2)] show ?case using j(1) wf2_info(1) [OF Cons.prems(1)] by simp
qed

lemma walk_nodes_wf:
  "wf2 c (As @ Bs) \<Longrightarrow> length Bs \<le> k \<Longrightarrow> walk_nodes k c (first_opt (map fst Bs)) = Inr (map fst (flat Bs))"
proof (induction Bs arbitrary: As k)
  case Nil
  then show ?case by (cases k) simp_all
next
  case (Cons g Bs)
  then obtain j where j: "k = Suc j" "length Bs \<le> j" by (cases k) auto
  obtain a w xs where g: "g = (a, w, xs)" by (cases g)
  have w: "wf2 c (As @ (a, w, xs) # Bs)" using Cons.prems(1) g by simp
  have "wf2 c ((As @ [g]) @ Bs)" using Cons.prems(1) by simp
  from Cons.IH [OF this j(2)] show ?case
    using j(1) g wf2_tree [OF w] wf2_walk(1) [OF w] walk_infos_wf [of c As a w "[]" xs Bs] w wf2_fuel [OF w] by simp
qed

lemma walk2_wf:
  assumes "wf2 c gs"
  shows "acl_cache2_walk c = Inr (map fst (flat gs))" "map (c2_entry c) (map fst (flat gs)) = map Some (map snd (flat gs))"
    "acl_cache2_size c = int (length (flat gs))"
proof -
  show "acl_cache2_walk c = Inr (map fst (flat gs))"
    using walk_nodes_wf [of c "[]" gs "length gs"] assms wf2D(9) [OF assms] wf2_ends(1) [OF assms] wf2_nodes [OF assms]
    by (simp add: acl_cache2_walk_def)
  show "map (c2_entry c) (map fst (flat gs)) = map Some (map snd (flat gs))" using wf2_entry [OF assms] by simp
  show "acl_cache2_size c = int (length (flat gs))" using wf2D(4,9) [OF assms] by (simp add: acl_cache2_size_def)
qed

lemma holds_walk2:
  assumes "cache2_holds c es fs"
  shows "\<exists>as. acl_cache2_walk c = Inr as \<and> map (c2_entry c) as = map Some es \<and> acl_cache2_size c = int (length es) \<and> map snd (c2_freed c) = fs"
proof -
  obtain gs where w: "wf2 c gs" "es = map snd (flat gs)" "map snd (c2_freed c) = fs" using assms by (auto simp: cache2_holds_def)
  with walk2_wf [OF w(1)] show ?thesis by (intro exI [of _ "map fst (flat gs)"]) simp
qed

lemma new_cache2_holds:
  assumes "acl_cache2_create m True = Some c"
  shows "cache2_holds c [] []" "cache2_max c = nat m" "0 < m"
proof -
  have c: "0 < m" "c2_table c = acl_htable_create 100 False False False" "c2_size c = 0" "c2_free_fn c" "c2_freed c = []" "c2_brk c = Suc stack_tmp"
    "c2_max_size c = m" "c2_q c = \<lparr>tq_avl = avl_create, tq_links = Map.empty, tq_trees = Map.empty, tq_infos = Map.empty\<rparr>"
    using assms by (auto simp: acl_cache2_create_def split: if_splits)
  have "acl_htable_ctl_hash (acl_htable_create 100 False False False) None = acl_htable_create 100 False False False"
    by (simp add: acl_htable_ctl_hash_def acl_htable_create_def acl_htable_create3_def htable_size_def Let_def)
  then have "dict_holds False (acl_htable_create 100 False False False) Map.empty"
    using create_holds [of 100 False False False None]
    by (simp add: dict_holds_def) (simp add: acl_htable_create_def acl_htable_create3_def htable_size_def Let_def)
  moreover have "wft (c2_q c) []" using c(8) by (auto simp: wft_def in_tree_def avl_rep_def avl_create_def tree_at_def intro!: exI [of _ Tip])
  ultimately have "wf2 c []" using c by (simp add: wf2_def key_map_def)
  then show "cache2_holds c [] []" "cache2_max c = nat m" "0 < m" using c by (auto simp: cache2_holds_def cache2_max_def)
qed

lemma new_entries2_ok: "entries2_ok n []"
  by (simp add: entries2_ok_def entries_ok_def)

section \<open>Release\<close>

lemma unuse2_wf:
  assumes "wf2 c (As @ (a, w, xs @ x # ys) # Bs)"
  obtains c1 i where "(if in_use x then c2_set c (Some (fst x)) (\<lambda>i. i\<lparr>ci_nrefer := 0\<rparr>) else Inr c) = Inr c1"
    "wf2 c1 (As @ (a, w, xs @ (fst x, i) # ys) # Bs)" "ci_nrefer i \<le> 0" "ci_value i = ci_value (snd x)" "c2_since c c1 []"
proof (cases "in_use x")
  case True
  obtain c1 where "c2_set c (Some (fst x)) (\<lambda>i. i\<lparr>ci_nrefer := 0\<rparr>) = Inr c1"
    "wf2 c1 (As @ (a, w, xs @ (fst x, (snd x)\<lparr>ci_nrefer := 0\<rparr>) # ys) # Bs)" "c2_since c c1 []"
    by (rule c2_set_wf [OF assms, of "\<lambda>i. i\<lparr>ci_nrefer := 0\<rparr>"]) simp_all
  then show ?thesis using True that by simp
next
  case False
  then show ?thesis using that [of c "snd x"] assms by simp
qed

lemma free_infos_wf:
  assumes "wf2 c (As @ grp a w ys @ Bs)" "length ys \<le> k"
  shows "\<exists>c'. free_infos k c (first_of ys None) = Inr c' \<and> wf2 c' (As @ Bs) \<and> c2_since c c' (map (\<lambda>x. ci_value (snd x)) ys)"
  using assms
proof (induction ys arbitrary: c k)
  case Nil
  then show ?case by (intro exI [of _ c]) (cases k; simp)
next
  case (Cons y ys)
  then obtain j where j: "k = Suc j" "length ys \<le> j" by (cases k) auto
  have w: "wf2 c (As @ (a, w, [] @ y # ys) # Bs)" using Cons.prems(1) by (simp add: grp_def)
  obtain c1 i where c1: "(if in_use y then c2_set c (Some (fst y)) (\<lambda>i. i\<lparr>ci_nrefer := 0\<rparr>) else Inr c) = Inr c1"
    "wf2 c1 (As @ (a, w, [] @ (fst y, i) # ys) # Bs)" "ci_nrefer i \<le> 0" "ci_value i = ci_value (snd y)" "c2_since c c1 []"
    by (rule unuse2_wf [OF w])
  obtain c2 where c2: "acl_cache2_delete c1 (Some (fst y)) = Inr (0, c2)" "wf2 c2 (As @ grp a w ys @ Bs)" "c2_since c1 c2 [ci_value (snd y)]"
    using cache2_delete_wf [OF c1(2)] c1(3,4) by auto
  obtain c' where c': "free_infos j c2 (first_of ys None) = Inr c'" "wf2 c' (As @ Bs)" "c2_since c2 c' (map (\<lambda>x. ci_value (snd x)) ys)"
    using Cons.IH [OF c2(2) j(2)] by blast
  have "free_infos k c (Some (fst y)) = Inr c'" using wf2_info(1) [OF w] c1(1) c2(1) c'(1) by (simp add: j(1))
  with c'(2) c2_since_trans [OF c2_since_trans [OF c1(5) c2(3)] c'(3)] show ?case by auto
qed

lemma free_nodes_wf:
  assumes "wf2 c Bs" "length Bs \<le> k"
  shows "\<exists>c'. free_nodes k c (first_opt (map fst Bs)) = Inr c' \<and> wf2 c' [] \<and> c2_since c c' (map ci_value (map snd (flat Bs)))"
  using assms
proof (induction Bs arbitrary: c k)
  case Nil
  then show ?case by (intro exI [of _ c]) (cases k; simp)
next
  case (Cons g Bs)
  then obtain j where j: "k = Suc j" "length Bs \<le> j" by (cases k) auto
  obtain a w xs where g: "g = (a, w, xs)" by (cases g)
  have w: "wf2 c ([] @ (a, w, xs) # Bs)" using Cons.prems(1) g by simp
  have "wf2 c ([] @ grp a w xs @ Bs)" using w wf2_group(2) [OF w] by (simp add: grp_def)
  then obtain c1 where c1: "free_infos (nat (c2_size c)) c (first_of xs None) = Inr c1" "wf2 c1 Bs" "c2_since c c1 (map (\<lambda>x. ci_value (snd x)) xs)"
    using free_infos_wf [of c "[]" a w xs Bs] wf2_fuel [OF w] by auto
  obtain c' where c': "free_nodes j c1 (first_opt (map fst Bs)) = Inr c'" "wf2 c' []" "c2_since c1 c' (map ci_value (map snd (flat Bs)))"
    using Cons.IH [OF c1(2) j(2)] by blast
  have "free_nodes k c (Some a) = Inr c'" using wf2_tree [OF w] wf2_walk(1) [OF w] c1(1) c'(1) by (simp add: j(1))
  with g c'(2) c2_since_trans [OF c1(3) c'(3)] show ?case by (auto simp: comp_def)
qed

lemma acl_cache2_free_wf:
  assumes "wf2 c gs"
  obtains c' where "acl_cache2_free c = Inr c'" "acl_cache2_size c' = 0" "c2_since c c' (map ci_value (map snd (flat gs)))"
proof -
  obtain c1 where c1: "free_nodes (c2_nodes c) c (first_opt (map fst gs)) = Inr c1" "wf2 c1 []" "c2_since c c1 (map ci_value (map snd (flat gs)))"
    using free_nodes_wf [OF assms, of "c2_nodes c"] wf2_nodes [OF assms] by auto
  obtain T where T: "avl_rep (tq_links (c2_q c1)) (tq_avl (c2_q c1)) T" "inorder T = []" using wf2_in_tree [OF c1(2)] by auto
  then have av: "avl_destroy (tq_avl (c2_q c1)) = Inr ()" by (auto simp: avl_destroy_def avl_rep_def tree_at_def)
  have "htable_holds (c2_table c1) Map.empty" using wf2D(2) [OF c1(2)] by (simp add: dict_holds_def key_map_def)
  then obtain fs s where g: "acl_htable_free (c2_table c1) False = Inr (fs, s)"
    using Acl_HtableMap.free_nodes [of "c2_table c1" _ False] by (auto simp: htable_holds_def hwf_def acl_htable_free_def)
  define c' where "c' = c1\<lparr>c2_table := (c2_table c1)\<lparr>ht_nodes := s\<rparr>\<rparr>"
  have "acl_cache2_free c = Inr c'" using wf2_ends(1) [OF assms] c1(1) av g by (simp add: acl_cache2_free_def c'_def)
  moreover have "acl_cache2_size c' = 0" using wf2D(4) [OF c1(2)] by (simp add: acl_cache2_size_def c'_def)
  ultimately show ?thesis using that c1(3) by (simp add: c2_since_def c'_def)
qed

section \<open>Iterators\<close>

lemma iter2_set_wf:
  assumes "wf2 c (As @ (a, w, xs @ x # ys) # Bs)"
  shows "\<exists>it'. cache2_iter_set it c (Some (fst x)) = Inr it' \<and> iter_at it' x (ct_i it)"
  using wf2_info(1) [OF assms] by (simp add: cache2_iter_set_def iter_at_def Let_def)

lemma foreach2_end: "ct_ptr it = None \<Longrightarrow> cache2_foreach k it c = Inr [] \<and> cache2_foreach_reverse k it c = Inr []"
  by (cases k) simp_all

text \<open>The entry behind another one is in its group or the first of the next group.\<close>

lemma flat_next:
  assumes "gs = As @ (a, w, xs @ x # ys) # Bs" "\<forall>g \<in> set gs. snd (snd g) \<noteq> []"
  obtains (here) y ys' where "ys = y # ys'" | (later) b u y ys' Cs where "ys = []" "Bs = (b, u, y # ys') # Cs" | (final) "ys = []" "Bs = []"
proof (cases ys)
  case Nil
  show ?thesis
  proof (cases Bs)
    case (Cons g Cs)
    then obtain b u zs where "g = (b, u, zs)" by (cases g)
    then show ?thesis using assms Cons Nil later by (cases zs) auto
  qed (use Nil final in blast)
qed (use here in blast)

lemma iter2_next_wf:
  assumes w: "wf2 c gs" and fl: "flat gs = us @ x # vs" and it: "iter_at it x n"
  shows "case vs of [] \<Rightarrow> \<exists>it'. cache2_iter_next it c = Inr it' \<and> ct_ptr it' = None
    | y # _ \<Rightarrow> \<exists>it'. cache2_iter_next it c = Inr it' \<and> iter_at it' y (n + 1)"
proof -
  obtain As a u xs ys Bs where g: "gs = As @ (a, u, xs @ x # ys) # Bs" "us = flat As @ xs" "vs = ys @ flat Bs" using flat_split [OF fl] by blast
  have w': "wf2 c (As @ (a, u, xs @ x # ys) # Bs)" using w g(1) by simp
  have p: "ct_ptr it = Some (fst x)" "ct_i it = n" using it by (auto simp: iter_at_def)
  show ?thesis using g(1) wf2D(6) [OF w]
  proof (cases rule: flat_next)
    case (here y ys')
    have "wf2 c (As @ (a, u, (xs @ [x]) @ y # ys') # Bs)" using w' here by simp
    from iter2_set_wf [OF this, of "it\<lparr>ct_i := n + 1\<rparr>"] show ?thesis
      using wf2_info(1) [OF w'] p here g(3) by (simp add: cache2_iter_next_def)
  next
    case (later b v y ys' Cs)
    have w1: "wf2 c ((As @ [(a, u, xs @ [x])]) @ (b, v, [] @ y # ys') # Cs)" using w' later by simp
    from iter2_set_wf [OF w1, of "it\<lparr>ct_i := n + 1\<rparr>"] show ?thesis
      using wf2_info(1) [OF w'] wf2_walk(1) [OF w'] wf2_tree [OF w1] p later g(3) by (simp add: cache2_iter_next_def)
  next
    case final
    then show ?thesis using wf2_info(1) [OF w'] wf2_walk(1) [OF w'] p g(3) by (simp add: cache2_iter_next_def)
  qed
qed

lemma foreach2_wf:
  assumes "wf2 c gs" "flat gs = us @ x # vs" "length vs < k" "iter_at it x n"
  shows "cache2_foreach k it c = Inr (shown n (x # vs))"
  using assms
proof (induction vs arbitrary: us x it k n)
  case Nil
  then obtain j where k: "k = Suc j" by (cases k) auto
  obtain it' where "cache2_iter_next it c = Inr it'" "ct_ptr it' = None" using iter2_next_wf [OF Nil.prems(1,2,4)] by auto
  with foreach2_end [of it' j c] Nil.prems(4) k show ?case by (simp add: iter_at_def)
next
  case (Cons y vs)
  then obtain j where k: "k = Suc j" "length vs < j" by (cases k) auto
  obtain it' where i: "cache2_iter_next it c = Inr it'" "iter_at it' y (n + 1)" using iter2_next_wf [OF Cons.prems(1,2,4)] by auto
  have "flat gs = (us @ [x]) @ y # vs" using Cons.prems(2) by simp
  from Cons.IH [OF Cons.prems(1) this k(2) i(2)] i(1) k(1) Cons.prems(4) show ?case by (simp add: iter_at_def)
qed

lemma flat_prev:
  assumes "gs = As @ (a, w, xs @ x # ys) # Bs" "\<forall>g \<in> set gs. snd (snd g) \<noteq> []"
  obtains (here) y xs' where "xs = xs' @ [y]" | (before) b u y xs' Cs where "xs = []" "As = Cs @ [(b, u, xs' @ [y])]" | (final) "xs = []" "As = []"
proof (cases xs rule: rev_cases)
  case Nil
  show ?thesis
  proof (cases As rule: rev_cases)
    case (snoc Cs g)
    then obtain b u zs where "g = (b, u, zs)" by (cases g)
    then show ?thesis using assms snoc Nil before by (cases zs rule: rev_cases) auto
  qed (use Nil final in blast)
qed (use here in blast)

lemma iter2_prev_wf:
  assumes w: "wf2 c gs" and fl: "flat gs = us @ x # vs" and it: "iter_at it x n"
  shows "us = [] \<Longrightarrow> \<exists>it'. cache2_iter_prev it c = Inr it' \<and> ct_ptr it' = None"
    "us = us' @ [y] \<Longrightarrow> \<exists>it'. cache2_iter_prev it c = Inr it' \<and> iter_at it' y (n + 1)"
proof -
  obtain As a u xs ys Bs where g: "gs = As @ (a, u, xs @ x # ys) # Bs" "us = flat As @ xs" "vs = ys @ flat Bs" using flat_split [OF fl] by blast
  have w': "wf2 c (As @ (a, u, xs @ x # ys) # Bs)" using w g(1) by simp
  have p: "ct_ptr it = Some (fst x)" "ct_i it = n" using it by (auto simp: iter_at_def)
  have "if us = [] then \<exists>it'. cache2_iter_prev it c = Inr it' \<and> ct_ptr it' = None
    else \<exists>it'. cache2_iter_prev it c = Inr it' \<and> iter_at it' (last us) (n + 1)"
    using g(1) wf2D(6) [OF w]
  proof (cases rule: flat_prev)
    case (here y xs')
    have "wf2 c (As @ (a, u, xs' @ y # (x # ys)) # Bs)" using w' here by simp
    from iter2_set_wf [OF this, of "it\<lparr>ct_i := n + 1\<rparr>"] show ?thesis
      using wf2_info(1) [OF w'] p here g(2) by (simp add: cache2_iter_prev_def)
  next
    case (before b v y xs' Cs)
    have w1: "wf2 c (Cs @ (b, v, xs' @ y # []) # (a, u, x # ys) # Bs)" using w' before by simp
    from iter2_set_wf [OF w1, of "it\<lparr>ct_i := n + 1\<rparr>"] show ?thesis
      using wf2_info(1) [OF w'] wf2_walk(2) [OF w'] wf2_tree [OF w1] p before g(2) by (simp add: cache2_iter_prev_def)
  next
    case final
    then show ?thesis using wf2_info(1) [OF w'] wf2_walk(2) [OF w'] p g(2) by (simp add: cache2_iter_prev_def)
  qed
  then show "us = [] \<Longrightarrow> \<exists>it'. cache2_iter_prev it c = Inr it' \<and> ct_ptr it' = None"
    "us = us' @ [y] \<Longrightarrow> \<exists>it'. cache2_iter_prev it c = Inr it' \<and> iter_at it' y (n + 1)" by auto
qed

lemma foreach2_reverse_wf:
  assumes "wf2 c gs" "flat gs = us @ x # vs" "length us < k" "iter_at it x n"
  shows "cache2_foreach_reverse k it c = Inr (shown n (x # rev us))"
  using assms
proof (induction us arbitrary: vs x it k n rule: rev_induct)
  case Nil
  then obtain j where k: "k = Suc j" by (cases k) auto
  obtain it' where "cache2_iter_prev it c = Inr it'" "ct_ptr it' = None" using iter2_prev_wf(1) [OF Nil.prems(1,2,4)] by auto
  with foreach2_end [of it' j c] Nil.prems(4) k show ?case by (simp add: iter_at_def)
next
  case (snoc y us)
  then obtain j where k: "k = Suc j" "length us < j" by (cases k) auto
  obtain it' where i: "cache2_iter_prev it c = Inr it'" "iter_at it' y (n + 1)" using iter2_prev_wf(2) [OF snoc.prems(1,2,4)] by auto
  have "flat gs = us @ y # x # vs" using snoc.prems(2) by simp
  from snoc.IH [OF snoc.prems(1) this k(2) i(2)] i(1) k(1) snoc.prems(4) show ?case by (simp add: iter_at_def)
qed

lemma flat_ends:
  assumes w: "wf2 c gs"
  shows "flat gs = [] \<Longrightarrow> gs = []" "flat gs = x # vs \<Longrightarrow> \<exists>a u xs Bs. gs = [] @ (a, u, [] @ x # xs) # Bs"
    "flat gs = us @ [x] \<Longrightarrow> \<exists>a u xs As. gs = As @ (a, u, xs @ x # []) # []"
proof -
  note ne = wf2D(6) [OF w]
  have none: "flat hs = [] \<Longrightarrow> set hs \<subseteq> set gs \<Longrightarrow> hs = []" for hs
  proof (cases hs)
    case (Cons g hs')
    then show "flat hs = [] \<Longrightarrow> set hs \<subseteq> set gs \<Longrightarrow> hs = []" using ne by (cases g) auto
  qed simp
  from none show "flat gs = [] \<Longrightarrow> gs = []" by simp
  show "\<exists>a u xs Bs. gs = [] @ (a, u, [] @ x # xs) # Bs" if fl: "flat gs = x # vs"
  proof -
    obtain As a u xs ys Bs where g: "gs = As @ (a, u, xs @ x # ys) # Bs" "[] = flat As @ xs" using flat_split [of gs "[]" x vs] fl by auto
    moreover have "As = []" using none [of As] g by auto
    ultimately show ?thesis by simp
  qed
  show "\<exists>a u xs As. gs = As @ (a, u, xs @ x # []) # []" if fl: "flat gs = us @ [x]"
  proof -
    obtain As a u xs ys Bs where g: "gs = As @ (a, u, xs @ x # ys) # Bs" "[] = ys @ flat Bs" using flat_split [of gs us x "[]"] fl by auto
    moreover have "Bs = []" using none [of Bs] g by auto
    ultimately show ?thesis by simp
  qed
qed

lemma foreach2_holds:
  assumes w: "wf2 c gs" and k: "length (flat gs) \<le> k"
  shows "cbind (cache2_iter_head it c) (\<lambda>it1. cache2_foreach k it1 c) = Inr (shown 0 (flat gs))"
    "cbind (cache2_iter_tail it c) (\<lambda>it1. cache2_foreach_reverse k it1 c) = Inr (shown (int (length (flat gs)) - 1) (rev (flat gs)))"
proof -
  show "cbind (cache2_iter_head it c) (\<lambda>it1. cache2_foreach k it1 c) = Inr (shown 0 (flat gs))"
  proof (cases "flat gs")
    case Nil
    then show ?thesis using wf2_ends(1) [OF w] flat_ends(1) [OF w] foreach2_end by (simp add: cache2_iter_head_def)
  next
    case (Cons x vs)
    then obtain a u xs Bs where g: "gs = [] @ (a, u, [] @ x # xs) # Bs" using flat_ends(2) [OF w] by blast
    note w' = w [unfolded g]
    obtain it' where "cache2_iter_head it c = Inr it'" "iter_at it' x 0"
      using wf2_ends(1) [OF w'] wf2_tree [OF w'] iter2_set_wf [OF w', of "it\<lparr>ct_i := 0, ct_size := c2_size c\<rparr>"]
      by (auto simp: cache2_iter_head_def)
    with foreach2_wf [OF w, of "[]" x vs k it' 0] Cons k show ?thesis by simp
  qed
  show "cbind (cache2_iter_tail it c) (\<lambda>it1. cache2_foreach_reverse k it1 c) = Inr (shown (int (length (flat gs)) - 1) (rev (flat gs)))"
  proof (cases "flat gs" rule: rev_cases)
    case Nil
    then show ?thesis using wf2_ends(2) [OF w] flat_ends(1) [OF w] foreach2_end by (simp add: cache2_iter_tail_def)
  next
    case (snoc us x)
    then obtain a u xs As where g: "gs = As @ (a, u, xs @ x # []) # []" using flat_ends(3) [OF w] by blast
    note w' = w [unfolded g]
    obtain it' where "cache2_iter_tail it c = Inr it'" "iter_at it' x (int (length us))"
      using wf2_ends(2) [OF w'] wf2_tree [OF w'] wf2D(4) [OF w] snoc iter2_set_wf [OF w', of "it\<lparr>ct_i := c2_size c - 1, ct_size := c2_size c\<rparr>"]
      by (auto simp: cache2_iter_tail_def)
    with foreach2_reverse_wf [OF w, of us x "[]" k it' "int (length us)"] snoc k show ?thesis by simp
  qed
qed

end
