(* ===== verification/Acl_Cache2Props.thy ===== *)
theory Acl_Cache2Props
  imports Acl_Cache2Walk
begin

text \<open>The properties of the cache of \<open>acl_cache2.c\<close>.\<close>

text \<open>A run on a new cache, in terms of what a walk shows.\<close>

lemma cache2_run:
  assumes "acl_cache2_create m True = Some c" "ops_spec (spec2_call (nat m)) xs [] = (rs, fs, es)"
  shows "\<exists>c' as. ops_run cache2_call xs c = Inr (rs, c') \<and> acl_cache2_walk c' = Inr as \<and> map (c2_entry c') as = map Some es \<and>
    acl_cache2_size c' = int (length es) \<and> map snd (c2_freed c') = fs"
proof -
  note n = new_cache2_holds [OF assms(1)]
  obtain c' where c': "ops_run cache2_call xs c = Inr (rs, c')" "cache2_holds c' es fs"
    using cache2.ops_refine [OF n(1), of xs rs fs es] assms(2) n(2) by auto
  with holds_walk2 [OF c'(2)] show ?thesis by blast
qed

lemma cache2_run_keeps:
  assumes "acl_cache2_create m True = Some c" "ops_run cache2_call xs c = Inr (rs, c1)"
  obtains gs where "wf2 c1 gs" "c2_free_fn c1" "entries2_ok (nat m) (map snd (flat gs))" "length rs = length xs"
    "mset (concat (map2 taken2 xs rs)) = mset (map ci_value (map snd (flat gs))) + mset (map snd (c2_freed c1))"
proof -
  note n = new_cache2_holds [OF assms(1)]
  obtain es fs where r: "cache2_holds c1 es fs" "entries2_ok (cache2_max c) es" "length rs = length xs"
    "mset (concat (map2 taken2 xs rs)) = mset (map ci_value es) + mset fs"
    using cache2.ops_all [OF n(1) new_entries2_ok, of xs] assms(2) by auto
  then obtain gs where g: "wf2 c1 gs" "map snd (flat gs) = es" "c2_free_fn c1" "map snd (c2_freed c1) = fs" by (auto simp: cache2_holds_def)
  from that [OF g(1,3)] r(2-4) n(2) show ?thesis unfolding g(2,4) by simp
qed

lemma cache2_exists: "0 < m \<Longrightarrow> \<exists>c. acl_cache2_create m fn = Some c"
  by (simp add: acl_cache2_create_def)

text \<open>C31: the second cache, a hash table and a balanced tree of expiry times with the entries of each time in a list, is one list of
  entries in the order of their times. Whatever sequence of enters, finds, deletes, updates, changes of the use counts, expiry scans and
  cleanings is made on a new cache at whatever times, every call returns what the specification on lists returns, \<open>free_fn\<close> is called on
  the same values in the same order, and a walk shows the same entries in the same order; no call faults.\<close>

theorem cache2_refines_entries:
  assumes "acl_cache2_create m True = Some c" "ops_spec (spec2_call (nat m)) xs [] = (rs, fs, es)"
  shows "\<exists>c' as. ops_run cache2_call xs c = Inr (rs, c') \<and> acl_cache2_walk c' = Inr as \<and> map (c2_entry c') as = map Some es \<and>
    acl_cache2_size c' = int (length es) \<and> map snd (c2_freed c') = fs"
  using assms by (rule cache2_run)

theorem cache2_refines_entries_witness:
  "\<exists>c c' as. acl_cache2_create 2 True = Some c \<and>
     ops_run cache2_call [(0, QEnter [1] (Some 7) 20), (0, QEnter [2] (Some 8) 5), (1, QEnter [3] (Some 9) 50), (2, QFind [2])] c =
       Inr ([Stored True, Stored True, Stored True, Got None], c') \<and> acl_cache2_walk c' = Inr as \<and>
     map (map_option ci_key \<circ> c2_entry c') as = [Some [1], Some [3]] \<and> map snd (c2_freed c') = [Some 8]"
proof -
  let ?xs = "[(0, QEnter [1] (Some 7) 20), (0, QEnter [2] (Some 8) 5), (1, QEnter [3] (Some 9) 50), (2, QFind [2])]"
  obtain c where c: "acl_cache2_create 2 True = Some c" using cache2_exists [of 2] by auto
  have s: "ops_spec (spec2_call (nat 2)) ?xs [] = ([Stored True, Stored True, Stored True, Got None], [Some 8],
      [\<lparr>ci_key = [1], ci_value = Some 7, ci_nrefer = 0, ci_when = 20\<rparr>, \<lparr>ci_key = [3], ci_value = Some 9, ci_nrefer = 0, ci_when = 51\<rparr>])"
    by (simp add: spec2_enter_def room2_def spec_find_def lookup_def)
  from cache2_refines_entries [OF c s] c show ?thesis by (auto simp: map_eq_Cons_conv)
qed

text \<open>C32: after any sequence of calls the second cache shows its entries in the order of their expiry times, never more than
  \<open>max_size\<close> and never two with the same key, and no value is lost or released twice: the values that were stored are those still
  in the cache together with those handed to \<open>free_fn\<close>.\<close>

theorem cache2_sorted_and_conserving:
  assumes "acl_cache2_create m True = Some c" "ops_run cache2_call xs c = Inr (rs, c1)"
  shows "\<exists>as es. acl_cache2_walk c1 = Inr as \<and> map (c2_entry c1) as = map Some es \<and> sorted (map ci_when es) \<and> distinct (map ci_key es) \<and>
    acl_cache2_size c1 = int (length es) \<and> acl_cache2_size c1 \<le> m \<and>
    mset (concat (map2 taken2 xs rs)) = mset (map ci_value es) + mset (map snd (c2_freed c1))"
proof -
  obtain gs where g: "wf2 c1 gs" "entries2_ok (nat m) (map snd (flat gs))"
    "mset (concat (map2 taken2 xs rs)) = mset (map ci_value (map snd (flat gs))) + mset (map snd (c2_freed c1))"
    by (rule cache2_run_keeps [OF assms])
  have "0 < m" by (rule new_cache2_holds(3) [OF assms(1)])
  then show ?thesis using walk2_wf [OF g(1)] g(2,3)
    by (intro exI [of _ "map fst (flat gs)"] exI [of _ "map snd (flat gs)"]) (auto simp: entries2_ok_def entries_ok_def by_time_def keys_def)
qed

text \<open>Every sequence of calls can be made.\<close>

lemma cache2_runs: "acl_cache2_create m True = Some c \<Longrightarrow> \<exists>rs c1. ops_run cache2_call xs c = Inr (rs, c1)"
  using cache2.ops_all [OF new_cache2_holds(1) new_entries2_ok] by blast

theorem cache2_sorted_and_conserving_witness:
  "\<exists>c rs c1 as es. acl_cache2_create 5 True = Some c \<and> ops_run cache2_call [(0, QEnter [1] (Some 7) 20), (0, QUpdate [1] 5), (0, QClean True)] c = Inr (rs, c1) \<and>
     acl_cache2_walk c1 = Inr as \<and> map (c2_entry c1) as = map Some es \<and> sorted (map ci_when es) \<and> acl_cache2_size c1 \<le> 5"
proof -
  obtain c where c: "acl_cache2_create 5 True = Some c" using cache2_exists [of 5] by auto
  obtain rs c1 where r: "ops_run cache2_call [(0, QEnter [1] (Some 7) 20), (0, QUpdate [1] 5), (0, QClean True)] c = Inr (rs, c1)"
    using cache2_runs [OF c] by blast
  from cache2_sorted_and_conserving [OF c r] c r show ?thesis by blast
qed

text \<open>C33: the expiry scan of the second cache is complete and removes nothing else: whatever was done before, also updates and with the
  clock running backwards, after a scan exactly those of the entries are left that are in use, never expire or expire later, in
  their order, and the scan returns how many it removed.\<close>

theorem cache2_timeout_complete:
  assumes "acl_cache2_create m True = Some c" "ops_run cache2_call xs c = Inr (rs, c1)"
  shows "\<exists>n c2 as es bs. acl_cache2_timeout c1 now = Inr (n, c2) \<and> acl_cache2_walk c1 = Inr as \<and> map (c2_entry c1) as = map Some es \<and>
    acl_cache2_walk c2 = Inr bs \<and> map (c2_entry c2) bs = map Some (filter (\<lambda>i. ci_when i > now \<or> ci_nrefer i > 0 \<or> ci_when i = 0) es) \<and>
    n = int (length as) - int (length bs)"
proof -
  obtain gs where g: "wf2 c1 gs" "entries2_ok (nat m) (map snd (flat gs))" by (rule cache2_run_keeps [OF assms])
  define es where "es = map snd (flat gs)"
  obtain c2 hs where c2: "acl_cache2_timeout c1 now = Inr (int (length (expired now es)), c2)" "wf2 c2 hs" "map snd (flat hs) = expire now es"
    by (rule acl_cache2_timeout_wf [OF g(1), of now]) (simp add: es_def)
  have ex: "expire now es = filter (\<lambda>i. ci_when i > now \<or> ci_nrefer i > 0 \<or> ci_when i = 0) es"
    using g(2) unfolding entries2_ok_def es_def [symmetric] by (intro expire2_filter) simp
  have "length (flat gs) = length es" "length (flat hs) = length (expire now es)" using arg_cong [OF c2(3), of length] by (simp_all add: es_def)
  then have n: "int (length (expired now es)) = int (length (flat gs)) - int (length (flat hs))" using expire_lengths [of now es] by simp
  show ?thesis using walk2_wf [OF g(1)] walk2_wf [OF c2(2)] c2(1,3) ex n
    by (intro exI [of _ "int (length (expired now es))"] exI [of _ c2] exI [of _ "map fst (flat gs)"] exI [of _ es] exI [of _ "map fst (flat hs)"]) (simp add: es_def)
qed

theorem cache2_timeout_complete_witness:
  "\<exists>c rs c1 n c2. acl_cache2_create 5 True = Some c \<and> ops_run cache2_call [(0, QEnter [1] (Some 7) 20), (0, QUpdate [1] 5)] c = Inr (rs, c1) \<and>
     acl_cache2_timeout c1 12 = Inr (n, c2)"
proof -
  obtain c where c: "acl_cache2_create 5 True = Some c" using cache2_exists [of 5] by auto
  obtain rs c1 where r: "ops_run cache2_call [(0, QEnter [1] (Some 7) 20), (0, QUpdate [1] 5)] c = Inr (rs, c1)" using cache2_runs [OF c] by blast
  from cache2_timeout_complete [OF c r, of 12] c r show ?thesis by blast
qed

text \<open>releasing the second cache ends and leaves nothing: whatever was done to the cache before, \<open>acl_cache2_free\<close> returns, the
  assertion of \<open>avl_destroy\<close> that the tree is empty holds, and every value that was ever stored has been handed to \<open>free_fn\<close> exactly once,
  also those in use.\<close>

theorem acl_cache2_free_releases:
  assumes "acl_cache2_create m True = Some c" "ops_run cache2_call xs c = Inr (rs, c1)"
  shows "\<exists>c2. acl_cache2_free c1 = Inr c2 \<and> acl_cache2_size c2 = 0 \<and> mset (map snd (c2_freed c2)) = mset (concat (map2 taken2 xs rs))"
proof -
  obtain gs where g: "wf2 c1 gs" "c2_free_fn c1"
    "mset (concat (map2 taken2 xs rs)) = mset (map ci_value (map snd (flat gs))) + mset (map snd (c2_freed c1))"
    by (rule cache2_run_keeps [OF assms])
  obtain c2 where "acl_cache2_free c1 = Inr c2" "acl_cache2_size c2 = 0" "c2_since c1 c2 (map ci_value (map snd (flat gs)))"
    by (rule acl_cache2_free_wf [OF g(1)])
  then show ?thesis using g(2,3) by (intro exI [of _ c2]) (simp add: c2_since_def)
qed

theorem acl_cache2_free_releases_witness:
  "\<exists>c rs c1 c2. acl_cache2_create 5 True = Some c \<and> ops_run cache2_call [(0, QEnter [1] (Some 7) 9), (0, QRefer [1])] c = Inr (rs, c1) \<and>
     acl_cache2_free c1 = Inr c2 \<and> mset (map snd (c2_freed c2)) = {#Some 7#}"
proof -
  let ?xs = "[(0, QEnter [1] (Some 7) 9), (0, QRefer [1])]"
  obtain c where c: "acl_cache2_create 5 True = Some c" using cache2_exists [of 5] by auto
  have "ops_spec (spec2_call (nat 5)) ?xs [] = ([Stored True, Unit], [], [\<lparr>ci_key = [1], ci_value = Some 7, ci_nrefer = 1, ci_when = 9\<rparr>])"
    by (simp add: spec2_enter_def room2_def spec_refer_def change_key_def lookup_def)
  then obtain c1 where c1: "ops_run cache2_call ?xs c = Inr ([Stored True, Unit], c1)" using cache2_run [OF c] by blast
  from acl_cache2_free_releases [OF c c1] c c1 show ?thesis by auto
qed

text \<open>C34: \<open>acl_cache2_update\<close> takes its argument for a point in time. An entry that was to live on, updated to live \<open>t\<close> more seconds,
  is gone at the next expiry scan in the same second, if \<open>t\<close> is not after the present as a time since 1970.\<close>

theorem cache2_update_absolute:
  assumes "acl_cache2_create m True = Some c" "0 < ttl" "0 < t" "t \<le> now"
  shows "\<exists>c'. ops_run cache2_call [(now, QEnter k v ttl), (now, QTimeout), (now, QFind k), (now, QUpdate k t), (now, QTimeout), (now, QFind k)] c =
    Inr ([Stored True, Code 0, Got v, Unit, Code 1, Got None], c') \<and> map snd (c2_freed c') = [v]"
proof -
  have m: "nat m = Suc (nat (m - 1))" using new_cache2_holds(3) [OF assms(1)] by simp
  have "ops_spec (spec2_call (nat m)) [(now, QEnter k v ttl), (now, QTimeout), (now, QFind k), (now, QUpdate k t), (now, QTimeout), (now, QFind k)] [] =
      ([Stored True, Code 0, Got v, Unit, Code 1, Got None], [v], [])"
    using assms(2-4) unfolding m by (simp add: spec2_enter_def room2_def spec_find_def spec2_update_def spec_timeout_def lookup_def drop_key_def)
  from cache2_run [OF assms(1) this] show ?thesis by auto
qed

theorem cache2_update_absolute_witness:
  "\<exists>c c'. acl_cache2_create 5 True = Some c \<and>
     ops_run cache2_call [(1600000000, QEnter [1] (Some 7) 60), (1600000000, QTimeout), (1600000000, QFind [1]), (1600000000, QUpdate [1] 600),
       (1600000000, QTimeout), (1600000000, QFind [1])] c = Inr ([Stored True, Code 0, Got (Some 7), Unit, Code 1, Got None], c')"
proof -
  obtain c where c: "acl_cache2_create 5 True = Some c" using cache2_exists [of 5] by auto
  from cache2_update_absolute [OF c, of 60 600 1600000000 "[1]" "Some 7"] c show ?thesis by auto
qed

text \<open>C35: cleaning the second cache by force does the same as cleaning it without: entries in use stay.\<close>

theorem cache2_clean_ignores_force:
  "acl_cache2_clean c True = acl_cache2_clean c False"
  by (rule acl_cache2_clean_force)

text \<open>going through the second cache with the iterator shows every entry once in the order of a walk, and going backwards shows the
  entries in the opposite order, but the index then counts up from the last one, past the size of the cache.\<close>

theorem cache2_foreach_both_ways:
  assumes "acl_cache2_create m True = Some c" "ops_run cache2_call xs c = Inr (rs, c1)"
  shows "\<exists>as ds es. acl_cache2_walk c1 = Inr as \<and>
    cbind (cache2_iter_head it c1) (\<lambda>it1. cache2_foreach (length as) it1 c1) = Inr ds \<and>
    cbind (cache2_iter_tail it c1) (\<lambda>it1. cache2_foreach_reverse (length as) it1 c1) = Inr es \<and>
    map snd ds = map (\<lambda>a. (map_option ci_key (c2_entry c1 a), Option.bind (c2_entry c1 a) ci_value)) as \<and> map snd es = rev (map snd ds) \<and>
    map fst ds = map int [0..<length as] \<and> map fst es = map (\<lambda>k. int (length as) - 1 + int k) [0..<length as]"
proof -
  obtain gs where w: "wf2 c1 gs" by (rule cache2_run_keeps [OF assms])
  have i: "map fst (shown n zs) = map (\<lambda>k. n + int k) [0..<length zs]" for n zs
    by (induction zs arbitrary: n) (simp_all add: upt_conv_Cons map_Suc_upt [symmetric] comp_def ac_simps del: upt_Suc)
  have v: "map snd (shown n zs) = map (\<lambda>x. (Some (ci_key (snd x)), ci_value (snd x))) zs" for n zs
    by (induction zs arbitrary: n) auto
  show ?thesis
    using walk2_wf(1) [OF w] foreach2_holds [OF w, of "length (flat gs)" it] wf2_entry [OF w]
    by (intro exI [of _ "map fst (flat gs)"] exI [of _ "shown 0 (flat gs)"] exI [of _ "shown (int (length (flat gs)) - 1) (rev (flat gs))"])
      (simp add: i v rev_map)
qed

theorem cache2_foreach_both_ways_witness:
  "\<exists>c rs c1 it ds. acl_cache2_create 5 True = Some c \<and> ops_run cache2_call [(0, QEnter [1] (Some 7) 3), (0, QEnter [2] (Some 8) 2)] c = Inr (rs, c1) \<and>
     cbind (cache2_iter_tail it c1) (\<lambda>it1. cache2_foreach_reverse 2 it1 c1) = Inr ds \<and> map fst ds = [1, 2]"
proof -
  let ?xs = "[(0, QEnter [1] (Some 7) 3), (0, QEnter [2] (Some 8) 2)]"
  obtain c where c: "acl_cache2_create 5 True = Some c" using cache2_exists [of 5] by auto
  have s: "ops_spec (spec2_call (nat 5)) ?xs [] = ([Stored True, Stored True], [], [\<lparr>ci_key = [2], ci_value = Some 8, ci_nrefer = 0, ci_when = 2\<rparr>,
      \<lparr>ci_key = [1], ci_value = Some 7, ci_nrefer = 0, ci_when = 3\<rparr>])"
    by (simp add: spec2_enter_def room2_def lookup_def)
  obtain c1 as where c1: "ops_run cache2_call ?xs c = Inr ([Stored True, Stored True], c1)" "acl_cache2_walk c1 = Inr as" "length as = 2"
    using cache2_run [OF c s] by (auto dest: map_eq_imp_length_eq)
  define it where "it = \<lparr>ct_ptr = None, ct_data = None, ct_key = None, ct_i = 0, ct_size = 0\<rparr>"
  have "[0..<length as] = [0, 1]" using c1(3) by (simp add: upt_rec)
  then obtain ds where "cbind (cache2_iter_tail it c1) (\<lambda>it1. cache2_foreach_reverse 2 it1 c1) = Inr ds" "map fst ds = [1, 2]"
    using cache2_foreach_both_ways [OF c c1(1), of it] c1(2,3) by auto
  with c c1(1) show ?thesis
    by (intro exI [of _ c] exI [of _ "[Stored True, Stored True]"] exI [of _ c1] exI [of _ it] exI [of _ ds] conjI) assumption+
qed

end
