(* ===== verification/Acl_CachesAgree.thy ===== *)
theory Acl_CachesAgree
  imports Acl_Cache2Props
begin

text \<open>
  When the two caches do the same: with one lifetime for all entries, a clock that does not run backwards, and neither updates,
  forced cleanings nor use counts that fall.
\<close>

fun shared_call :: "timed_call \<Rightarrow> bool" where
  "shared_call (now, CUpdate k t) = False"
| "shared_call (now, CUnrefer k) = False"
| "shared_call (now, CClean force) = (\<not> force)"
| "shared_call _ = True"

fun as_cache2 :: "int \<Rightarrow> timed_call \<Rightarrow> int \<times> cache2_req" where
  "as_cache2 ttl (now, CEnter k v) = (now, QEnter k v ttl)"
| "as_cache2 ttl (now, CFind k) = (now, QFind k)"
| "as_cache2 ttl (now, CDelete k) = (now, QDelete k)"
| "as_cache2 ttl (now, CTimeout) = (now, QTimeout)"
| "as_cache2 ttl (now, CUpdate k t) = (now, QUpdate k t)"
| "as_cache2 ttl (now, CRefer k) = (now, QRefer k)"
| "as_cache2 ttl (now, CUnrefer k) = (now, QUnrefer k)"
| "as_cache2 ttl (now, CClean force) = (now, QClean force)"

definition counted :: "cache_info list \<Rightarrow> bool" where
  "counted es \<longleftrightarrow> (\<forall>e \<in> set es. 0 \<le> ci_nrefer e)"

lemma evict_same: "counted es \<Longrightarrow> evict2 es = evict es" "counted es \<Longrightarrow> evicted2 es = evicted es"
  by (induction es) (auto simp: counted_def)

lemma evict_subset: "set (evict es) \<subseteq> set es"
  by (induction es) auto

lemma counted_subset: "counted es \<Longrightarrow> set es' \<subseteq> set es \<Longrightarrow> counted es'"
  by (auto simp: counted_def)

lemma room_same:
  assumes "counted es"
  shows "room2 mx now es = room mx now es" "room mx now es = (fs, es') \<Longrightarrow> counted es'"
proof -
  have e: "counted (expire now es)" by (rule counted_subset [OF assms expire_subset(1)])
  note c = assms e counted_subset [OF assms evict_subset] counted_subset [OF e evict_subset]
  show "room2 mx now es = room mx now es" by (simp add: room2_def room_def evict_same [OF assms] evict_same [OF e])
  show "room mx now es = (fs, es') \<Longrightarrow> counted es'" using c by (auto simp: room_def Let_def split: if_splits)
qed

lemma ins_last: "in_order b es \<Longrightarrow> b \<le> ci_when i \<Longrightarrow> ins i es = es @ [i]"
  by (induction es) auto

lemma counted_change: "counted es \<Longrightarrow> (\<And>i. 0 \<le> ci_nrefer i \<Longrightarrow> 0 \<le> ci_nrefer (f i)) \<Longrightarrow> counted (change_key k f es)"
  by (auto simp: counted_def change_key_def)

lemma call_same:
  assumes "in_order (now + ttl) es" "counted es" "0 < ttl" "shared_call (now, r)"
  shows "spec2_call mx (as_cache2 ttl (now, r)) es = spec_call mx ttl (now, r) es"
    "spec_call mx ttl (now, r) es = (res, fs, es') \<Longrightarrow> counted es'"
proof -
  have en: "spec2_enter mx now k v ttl es = spec_enter mx ttl now k v es" for k v
  proof -
    obtain gs e2 where g: "room mx now es = (gs, e2)" by fastforce
    have "ins \<lparr>ci_key = k, ci_value = v, ci_nrefer = 0, ci_when = now + ttl\<rparr> e2 = e2 @ [\<lparr>ci_key = k, ci_value = v, ci_nrefer = 0, ci_when = now + ttl\<rparr>]"
      by (rule ins_last [OF room_in_order [OF assms(1) g]]) simp
    then show ?thesis using g assms(3) by (simp add: spec2_enter_def spec_enter_room room_same(1) [OF assms(2)] split: option.split)
  qed
  show "spec2_call mx (as_cache2 ttl (now, r)) es = spec_call mx ttl (now, r) es"
    using assms(4) en by (cases r) (auto simp: spec2_clean_def spec_clean_def)
  have ev: "counted e2" if "spec_enter mx ttl now k v es = (q, gs, e2)" for k v q gs e2
    using that room_same(2) [OF assms(2), of mx now] assms(2)
    by (auto simp: spec_enter_room counted_change split: option.splits if_splits prod.splits) (auto simp: counted_def)
  have d: "counted (drop_key k es)" "counted (expire now es)" "counted (filter P es)" for k P
    using assms(2) expire_subset(1) [of now es] by (auto simp: counted_def drop_key_def)
  show "counted es'" if "spec_call mx ttl (now, r) es = (res, fs, es')"
    using that assms(2,4) d ev
    by (cases r) (auto simp: spec_find_def spec_delete_def spec_timeout_def spec_refer_def spec_clean_def counted_change Let_def split: option.splits if_splits)
qed

lemma run_same:
  assumes "in_order (t0 + ttl) es" "counted es" "sorted (t0 # map fst xs)" "0 \<le> t0" "0 < ttl" "\<forall>x \<in> set xs. shared_call x"
  shows "ops_spec (spec2_call mx) (map (as_cache2 ttl) xs) es = spec_run mx ttl xs es"
  using assms
proof (induction xs arbitrary: es t0)
  case (Cons x xs)
  obtain now r where x: "x = (now, r)" by fastforce
  have t: "t0 \<le> now" "shared_call (now, r)" "\<not> is_update x" using Cons.prems(3,6) by (auto simp: x elim: shared_call.elims(2))
  have o: "in_order (now + ttl) es" using in_order_mono [OF Cons.prems(1)] t(1) by simp
  obtain res fs es1 where c1: "spec_call mx ttl (now, r) es = (res, fs, es1)" by (cases "spec_call mx ttl (now, r) es")
  note same = call_same [OF o Cons.prems(2,5) t(2), of mx]
  have "in_order (now + ttl) es1" using spec_call_in_order [OF Cons.prems(1) _ _ Cons.prems(5) t(3)] c1 t(1) Cons.prems(4) x by simp
  from Cons.IH [OF this same(2) [OF c1]] Cons.prems(3-6) t(1) show ?case using same(1) c1 by (simp add: x)
qed simp

end
