(* ===== verification/Acl_Json.thy ===== *)
theory Acl_Json
  imports Acl_Ring Acl_Htable
begin

unbundle bit_operations_syntax

text \<open>
  JSON documents: \<open>lib_acl/src/json/acl_json.c\<close> (nodes, documents and their iterators) and \<open>acl_json_parse.c\<close> (the parser, a
  state machine that is fed pieces of text). Nodes live in a store; a node has two ring nodes in it, \<open>children\<close>, the head of
  the ring of its children, and \<open>node\<close>, its own place in the ring of its parent, whose addresses are
  made from the node's by \<open>kids_ring\<close> and \<open>node_ring\<close>; \<open>to_appl\<close> is the address of the node around a ring node. A growing string is the list
  of its bytes. A piece of text is the list of its bytes before the terminating 0.
\<close>

section \<open>Nodes and documents\<close>

record jnode =
  jn_ltag :: "byte list"
  jn_text :: "byte list"
  jn_tag_node :: ptr
  jn_type :: cint
  jn_parent :: ptr
  jn_depth :: int
  jn_quote :: byte
  jn_left :: byte
  jn_right :: byte
  jn_backslash :: bool
  jn_part_word :: bool

datatype jstatus = S_ROOT | S_OBJ | S_MEMBER | S_ARRAY | S_ELEMENT | S_PAIR | S_NEXT | S_TAG | S_VALUE | S_COLON | S_STRING | S_STREND

record json =
  js_nodes :: "addr \<rightharpoonup> jnode"
  js_ring :: ring_heap
  js_brk :: addr
  js_depth :: int
  js_node_cnt :: int
  js_root :: addr
  js_finish :: bool
  js_part_word :: bool
  js_add_space :: bool
  js_status :: jstatus
  js_curr :: addr

definition kids_ring :: "addr \<Rightarrow> addr" where
  "kids_ring a = 2 * a"

definition node_ring :: "addr \<Rightarrow> addr" where
  "node_ring a = 2 * a + 1"

definition to_appl :: "addr \<Rightarrow> addr" where
  "to_appl r = r div 2"

definition T_A_STRING :: cint where "T_A_STRING = 1"
definition T_A_NUMBER :: cint where "T_A_NUMBER = 2"
definition T_A_BOOL :: cint where "T_A_BOOL = 4"
definition T_A_NULL :: cint where "T_A_NULL = 8"
definition T_A_DOUBLE :: cint where "T_A_DOUBLE = 16"
definition T_STRING :: cint where "T_STRING = 32"
definition T_NUMBER :: cint where "T_NUMBER = 64"
definition T_BOOL :: cint where "T_BOOL = 128"
definition T_NULL :: cint where "T_NULL = 256"
definition T_DOUBLE :: cint where "T_DOUBLE = 512"
definition T_ARRAY :: cint where "T_ARRAY = 1024"
definition T_OBJ :: cint where "T_OBJ = 2048"
definition T_LEAF :: cint where "T_LEAF = 4096"
definition T_MEMBER :: cint where "T_MEMBER = 8192"
definition T_PAIR :: cint where "T_PAIR = 16384"
definition T_ELEMENT :: cint where "T_ELEMENT = 32768"

definition jread :: "json \<Rightarrow> ptr \<Rightarrow> jnode cres" where
  "jread j p = cbind (deref p) (\<lambda>a. case js_nodes j a of None \<Rightarrow> Inl OobRead | Some n \<Rightarrow> Inr n)"

definition jwrite :: "json \<Rightarrow> ptr \<Rightarrow> (jnode \<Rightarrow> jnode) \<Rightarrow> json cres" where
  "jwrite j p f = cbind (deref p) (\<lambda>a. case js_nodes j a of None \<Rightarrow> Inl OobWrite | Some n \<Rightarrow> Inr (j\<lparr>js_nodes := (js_nodes j)(a \<mapsto> f n)\<rparr>))"

definition jnode_new :: jnode where
  "jnode_new = \<lparr>jn_ltag = [], jn_text = [], jn_tag_node = None, jn_type = 0, jn_parent = None, jn_depth = 0, jn_quote = 0, jn_left = 0,
     jn_right = 0, jn_backslash = False, jn_part_word = False\<rparr>"

definition acl_json_node_alloc :: "json \<Rightarrow> addr \<times> json" where
  "acl_json_node_alloc j =
     (let a = js_brk j
      in (a, j\<lparr>js_nodes := (js_nodes j)(a \<mapsto> jnode_new),
              js_ring := acl_ring_init (acl_ring_init (js_ring j) (Some (kids_ring a))) (Some (node_ring a)),
              js_brk := Suc a, js_node_cnt := js_node_cnt j + 1\<rparr>))"

definition acl_json_node_add_child :: "json \<Rightarrow> addr \<Rightarrow> addr \<Rightarrow> json cres" where
  "acl_json_node_add_child j parent child =
     cbind (acl_ring_prepend (js_ring j) (Some (kids_ring parent)) (Some (node_ring child))) (\<lambda>h.
       jwrite (j\<lparr>js_ring := h\<rparr>) (Some child) (\<lambda>n. n\<lparr>jn_parent := Some parent\<rparr>))"

definition acl_json_node_append :: "json \<Rightarrow> addr \<Rightarrow> addr \<Rightarrow> json cres" where
  "acl_json_node_append j node1 node2 =
     cbind (acl_ring_append (js_ring j) (Some (node_ring node1)) (Some (node_ring node2))) (\<lambda>h.
     cbind (jread j (Some node1)) (\<lambda>n1.
       jwrite (j\<lparr>js_ring := h\<rparr>) (Some node2) (\<lambda>n. n\<lparr>jn_parent := jn_parent n1\<rparr>)))"

definition acl_json_node_parent :: "json \<Rightarrow> addr \<Rightarrow> ptr cres" where
  "acl_json_node_parent j node = cbind (jread j (Some node)) (\<lambda>n. Inr (jn_parent n))"

definition ring_next :: "json \<Rightarrow> addr \<Rightarrow> addr cres" where
  "ring_next j r = deref (rg_succ (js_ring j) r)"

definition ring_prev :: "json \<Rightarrow> addr \<Rightarrow> addr cres" where
  "ring_prev j r = deref (rg_pred (js_ring j) r)"

definition node_beside :: "json \<Rightarrow> addr \<Rightarrow> addr \<Rightarrow> ptr cres" where
  "node_beside j node ring_ptr =
     (if ring_ptr = node_ring node then Inr None
      else
        cbind (acl_json_node_parent j node) (\<lambda>parent.
          case parent of
            None \<Rightarrow> Inl Fatal
          | Some p \<Rightarrow> if ring_ptr = kids_ring p then Inr None else Inr (Some (to_appl ring_ptr))))"

definition acl_json_node_next :: "json \<Rightarrow> addr \<Rightarrow> ptr cres" where
  "acl_json_node_next j node = cbind (ring_next j (node_ring node)) (node_beside j node)"

definition acl_json_node_prev :: "json \<Rightarrow> addr \<Rightarrow> ptr cres" where
  "acl_json_node_prev j node = cbind (ring_prev j (node_ring node)) (node_beside j node)"

text \<open>Deleting a node with all below it: the number of nodes deleted.\<close>

fun json_node_delete :: "nat \<Rightarrow> json \<Rightarrow> addr \<Rightarrow> (int \<times> json) cres"
  and json_delete_kids :: "nat \<Rightarrow> json \<Rightarrow> addr \<Rightarrow> int \<Rightarrow> (int \<times> json) cres" where
  "json_node_delete 0 j node = Inl OutOfFuel"
| "json_node_delete (Suc k) j node =
     cbind (json_delete_kids k j node 1) (\<lambda>(n, j1).
     cbind (acl_ring_detach (js_ring j1) (Some (node_ring node))) (\<lambda>h.
       Inr (n, j1\<lparr>js_ring := h, js_node_cnt := js_node_cnt j1 - 1\<rparr>)))"
| "json_delete_kids 0 j node n = Inl OutOfFuel"
| "json_delete_kids (Suc k) j node n =
     cbind (acl_ring_pop_head (js_ring j) (Some (kids_ring node))) (\<lambda>(next, h).
       case next of
         None \<Rightarrow> Inr (n, j\<lparr>js_ring := h\<rparr>)
       | Some r \<Rightarrow>
           cbind (json_node_delete k (j\<lparr>js_ring := h\<rparr>) (to_appl r)) (\<lambda>(m, j1). json_delete_kids k j1 node (n + m)))"

definition acl_json_node_delete :: "json \<Rightarrow> addr \<Rightarrow> (int \<times> json) cres" where
  "acl_json_node_delete j node = json_node_delete (2 * js_brk j + 2) j node"

definition acl_json_alloc :: "bool \<Rightarrow> bool \<Rightarrow> json" where
  "acl_json_alloc part_word add_space =
     (let (root, j) = acl_json_node_alloc
            \<lparr>js_nodes = Map.empty, js_ring = \<lparr>rg_succ = (\<lambda>_. None), rg_pred = (\<lambda>_. None), rg_parent = (\<lambda>_. None), rg_len = (\<lambda>_. 0)\<rparr>,
             js_brk = 0, js_depth = 0, js_node_cnt = 0, js_root = 0, js_finish = False, js_part_word = part_word, js_add_space = add_space,
             js_status = S_ROOT, js_curr = 0\<rparr>
      in j\<lparr>js_root := root, js_curr := root, js_nodes := (js_nodes j)(root \<mapsto> jnode_new\<lparr>jn_left := 123, jn_right := 125\<rparr>), js_status := S_ROOT\<rparr>)"

text \<open>All nodes are released first when the document has a pool of its own.\<close>

definition acl_json_reset :: "bool \<Rightarrow> json \<Rightarrow> json" where
  "acl_json_reset dbuf_inner j =
     (let (root, j1) = acl_json_node_alloc (if dbuf_inner then j\<lparr>js_nodes := Map.empty\<rparr> else j)
      in j1\<lparr>js_root := root, js_nodes := (js_nodes j1)(root \<mapsto> jnode_new\<lparr>jn_left := 123, jn_right := 125, jn_type := T_OBJ\<rparr>),
            js_node_cnt := 1, js_curr := root, js_status := S_ROOT, js_finish := False, js_depth := 0\<rparr>)"

section \<open>The parser\<close>

definition is_space :: "byte \<Rightarrow> bool" where
  "is_space c \<longleftrightarrow> c = 32 \<or> c = 9 \<or> c = 13 \<or> c = 10"

definition is_quote :: "byte \<Rightarrow> bool" where
  "is_quote c \<longleftrightarrow> c = 34 \<or> c = 39"

definition skip_space :: "byte list \<Rightarrow> byte list" where
  "skip_space data = dropWhile is_space data"

definition json_root :: "json \<Rightarrow> byte list \<Rightarrow> (json \<times> byte list) cres" where
  "json_root j data =
     (case dropWhile (\<lambda>c. c \<noteq> 123 \<and> c \<noteq> 91) data of
        [] \<Rightarrow> Inr (j, [])
      | c # data1 \<Rightarrow>
          let (l, r, st, ty) = (if c = 123 then (123, 125, S_MEMBER, T_OBJ) else (91, 93, S_ELEMENT, T_ARRAY))
          in cbind (jwrite j (Some (js_root j)) (\<lambda>n. n\<lparr>jn_left := l, jn_right := r, jn_type := ty\<rparr>)) (\<lambda>j1.
               Inr (j1\<lparr>js_status := st, js_curr := js_root j\<rparr>, data1)))"

text \<open>A new node below the current one, which becomes the current node; it is the value of the current node's tag if it has one.\<close>

definition json_child :: "json \<Rightarrow> (jnode \<Rightarrow> jnode) \<Rightarrow> bool \<Rightarrow> jstatus \<Rightarrow> json cres" where
  "json_child j f tagged st =
     (let (a, j1) = acl_json_node_alloc j; curr = js_curr j
      in cbind (jread j1 (Some curr)) (\<lambda>c.
         cbind (jwrite j1 (Some a) (\<lambda>n. (f n)\<lparr>jn_depth := jn_depth c + 1\<rparr>)) (\<lambda>j2.
         let j3 = (if jn_depth c + 1 > js_depth j2 then j2\<lparr>js_depth := jn_depth c + 1\<rparr> else j2)
         in cbind (acl_json_node_add_child j3 curr a) (\<lambda>j4.
            cbind (if tagged \<and> jn_ltag c \<noteq> [] then jwrite j4 (Some curr) (\<lambda>n. n\<lparr>jn_tag_node := Some a\<rparr>) else Inr j4) (\<lambda>j5.
              Inr (j5\<lparr>js_curr := a, js_status := st\<rparr>))))))"

definition json_obj :: "json \<Rightarrow> byte list \<Rightarrow> (json \<times> byte list) cres" where
  "json_obj j data =
     (let data1 = skip_space data
      in if data1 = [] then Inr (j, data1)
         else cbind (json_child j (\<lambda>n. n\<lparr>jn_type := T_OBJ, jn_left := 123, jn_right := 125\<rparr>) True S_MEMBER) (\<lambda>j1. Inr (j1, data1)))"

definition json_member :: "json \<Rightarrow> byte list \<Rightarrow> (json \<times> byte list) cres" where
  "json_member j data = cbind (json_child j (\<lambda>n. n\<lparr>jn_type := T_MEMBER\<rparr>) False S_PAIR) (\<lambda>j1. Inr (j1, data))"

text \<open>The end of a container: of the document, or of the parent of what follows.\<close>

definition json_close :: "json \<Rightarrow> addr \<Rightarrow> json" where
  "json_close j parent = (if parent = js_root j then j\<lparr>js_finish := True\<rparr> else j\<lparr>js_curr := parent, js_status := S_NEXT\<rparr>)"

definition json_pair :: "json \<Rightarrow> byte list \<Rightarrow> (json \<times> byte list) cres" where
  "json_pair j data =
     cbind (acl_json_node_parent j (js_curr j)) (\<lambda>parent.
     case skip_space data of
       [] \<Rightarrow> Inr (j, [])
     | c # data1 \<Rightarrow>
         (case parent of
            None \<Rightarrow> Inl Fatal
          | Some p \<Rightarrow>
              cbind (jread j (Some p)) (\<lambda>pn.
              if c = jn_right pn then Inr (json_close j p, data1)
              else if c = 123 then Inr (j\<lparr>js_status := S_OBJ\<rparr>, data1)
              else if c = 91 then Inr (j\<lparr>js_status := S_ARRAY\<rparr>, data1)
              else
                cbind (jread j (Some (js_curr j))) (\<lambda>n.
                let (q, data2) = (if is_quote c \<and> jn_quote n = 0 then (c, data1) else (jn_quote n, c # data1))
                in cbind (jwrite j (Some (js_curr j)) (\<lambda>n. n\<lparr>jn_quote := q, jn_type := T_PAIR\<rparr>)) (\<lambda>j1.
                     Inr (j1\<lparr>js_status := S_TAG\<rparr>, data2))))))"

text \<open>A byte of a tag or of a text that does not end it: what is appended, and the flags \<open>backslash\<close> and \<open>part_word\<close> after it.\<close>

definition unescape :: "byte \<Rightarrow> byte" where
  "unescape c = (if c = 98 then 8 else if c = 102 then 12 else if c = 110 then 10 else if c = 114 then 13 else if c = 116 then 9 else c)"

definition word_char :: "bool \<Rightarrow> bool \<Rightarrow> bool \<Rightarrow> bool \<Rightarrow> byte \<Rightarrow> byte list \<times> bool \<times> bool" where
  "word_char flag quoted backslash part c =
     (if backslash then ([if quoted then unescape c else c], False, part)
      else if c = 92 then (if part then ([c], False, False) else ([], True, part))
      else if flag then ([c], False, if part then False else c \<ge> 128)
      else ([c], False, part))"

datatype word_end = More | Quoted | Plain

fun tag_loop :: "bool \<Rightarrow> jnode \<Rightarrow> byte list \<Rightarrow> jnode \<times> word_end \<times> byte list" where
  "tag_loop flag n [] = (n, More, [])"
| "tag_loop flag n (c # data) =
     (if jn_quote n \<noteq> 0 \<and> \<not> jn_backslash n \<and> c \<noteq> 92 \<and> c = jn_quote n then (n\<lparr>jn_quote := 0, jn_part_word := False\<rparr>, Quoted, data)
      else if jn_quote n = 0 \<and> \<not> jn_backslash n \<and> c \<noteq> 92 \<and> (is_space c \<or> c = 58) then (n\<lparr>jn_part_word := False\<rparr>, Plain, c # data)
      else
        let (w, b, p) = word_char flag (jn_quote n \<noteq> 0) (jn_backslash n) (jn_part_word n) c
        in tag_loop flag (n\<lparr>jn_ltag := jn_ltag n @ w, jn_backslash := b, jn_part_word := p\<rparr>) data)"

definition json_tag :: "json \<Rightarrow> byte list \<Rightarrow> (json \<times> byte list) cres" where
  "json_tag j data =
     cbind (jread j (Some (js_curr j))) (\<lambda>n.
     let (n1, e, data1) = tag_loop (js_part_word j) n data
     in cbind (jwrite j (Some (js_curr j)) (\<lambda>_. n1)) (\<lambda>j1.
        case e of
          More \<Rightarrow> Inr (j1, data1)
        | Plain \<Rightarrow> Inr (j1\<lparr>js_status := S_COLON\<rparr>, data1)
        | Quoted \<Rightarrow>
            (case jn_parent n1 of
               None \<Rightarrow> Inl Fatal
             | Some p \<Rightarrow>
                 cbind (jread j1 (Some p)) (\<lambda>pn. Inr (j1\<lparr>js_status := (if jn_left pn = 91 then S_NEXT else S_COLON)\<rparr>, data1)))))"

definition json_colon :: "json \<Rightarrow> byte list \<Rightarrow> (json \<times> byte list) cres" where
  "json_colon j data =
     (case skip_space data of
        [] \<Rightarrow> Inr (j, [])
      | c # data1 \<Rightarrow> if c \<noteq> 58 then Inr (j, data1) else Inr (j\<lparr>js_status := S_VALUE\<rparr>, data1))"

definition json_array :: "json \<Rightarrow> byte list \<Rightarrow> (json \<times> byte list) cres" where
  "json_array j data =
     (let data1 = skip_space data
      in if data1 = [] then Inr (j, data1)
         else cbind (json_child j (\<lambda>n. n\<lparr>jn_left := 91, jn_right := 93, jn_type := T_ARRAY\<rparr>) True S_ELEMENT) (\<lambda>j1. Inr (j1, data1)))"

definition json_element :: "json \<Rightarrow> byte list \<Rightarrow> (json \<times> byte list) cres" where
  "json_element j data =
     (case skip_space data of
        [] \<Rightarrow> Inr (j, [])
      | c # data1 \<Rightarrow>
          if c = 123 then Inr (j\<lparr>js_status := S_OBJ\<rparr>, data1)
          else if c = 91 then Inr (j\<lparr>js_status := S_ARRAY\<rparr>, data1)
          else cbind (json_child j (\<lambda>n. n\<lparr>jn_type := T_ELEMENT\<rparr>) False S_VALUE) (\<lambda>j1. Inr (j1, c # data1)))"

definition json_value :: "json \<Rightarrow> byte list \<Rightarrow> (json \<times> byte list) cres" where
  "json_value j data =
     (case skip_space data of
        [] \<Rightarrow> Inr (j, [])
      | c # data1 \<Rightarrow>
          let (st, data2) = (if c = 123 then (S_OBJ, data1) else if c = 91 then (S_ARRAY, data1) else if c = 44 \<or> c = 59 then (S_NEXT, data1)
                else if is_quote c then (S_STRING, data1) else (S_STRING, c # data1))
          in cbind (jwrite j (Some (js_curr j))
               (\<lambda>n. n\<lparr>jn_quote := (if c \<noteq> 123 \<and> c \<noteq> 91 \<and> c \<noteq> 44 \<and> c \<noteq> 59 \<and> is_quote c then c else jn_quote n), jn_type := T_LEAF\<rparr>)) (\<lambda>j1.
               Inr (j1\<lparr>js_status := st\<rparr>, data2)))"

definition text_ends :: "byte \<Rightarrow> bool" where
  "text_ends c \<longleftrightarrow> is_space c \<or> c = 44 \<or> c = 59 \<or> c = 125 \<or> c = 93"

fun text_loop :: "bool \<Rightarrow> jnode \<Rightarrow> byte list \<Rightarrow> jnode \<times> word_end \<times> byte list" where
  "text_loop flag n [] = (n, More, [])"
| "text_loop flag n (c # data) =
     (if jn_quote n \<noteq> 0 \<and> \<not> jn_backslash n \<and> c \<noteq> 92 \<and> c = jn_quote n then (n\<lparr>jn_part_word := False\<rparr>, Quoted, data)
      else if jn_quote n = 0 \<and> \<not> jn_backslash n \<and> c \<noteq> 92 \<and> text_ends c then (n, Plain, c # data)
      else
        let (w, b, p) = word_char flag (jn_quote n \<noteq> 0) (jn_backslash n) (jn_part_word n) c
        in text_loop flag (n\<lparr>jn_text := jn_text n @ w, jn_backslash := b, jn_part_word := p\<rparr>) data)"

definition json_string :: "json \<Rightarrow> byte list \<Rightarrow> (json \<times> byte list) cres" where
  "json_string j data =
     cbind (jread j (Some (js_curr j))) (\<lambda>n.
     let data1 = (if jn_text n = [] then skip_space data else data)
     in if jn_text n = [] \<and> data1 = [] then Inr (j, data1)
        else
          let (n1, e, data2) = text_loop (js_part_word j) n data1
          in cbind (jwrite j (Some (js_curr j)) (\<lambda>_. n1)) (\<lambda>j1.
               Inr (if e = More then j1 else j1\<lparr>js_status := S_STREND\<rparr>, data2)))"

definition is_digit :: "byte \<Rightarrow> bool" where
  "is_digit c \<longleftrightarrow> 48 \<le> c \<and> c \<le> 57"

definition acl_alldig :: "byte list \<Rightarrow> bool" where
  "acl_alldig s \<longleftrightarrow> s \<noteq> [] \<and> list_all is_digit s"

text \<open>The loop of \<open>acl_is_double\<close> up to the point, and what is behind it.\<close>

fun double_loop :: "byte list \<Rightarrow> bool" where
  "double_loop [] = True"
| "double_loop (c # s) = (if c = 46 then s \<noteq> [] \<and> list_all is_digit s else if \<not> is_digit c then False else double_loop s)"

definition acl_is_double :: "byte list \<Rightarrow> bool" where
  "acl_is_double s =
     (case s of
        [] \<Rightarrow> False
      | c # s' \<Rightarrow> let s1 = (if c = 45 \<or> c = 43 then s' else s) in if s1 = [] \<or> hd s1 = 46 then False else double_loop s1)"

definition is_number :: "byte list \<Rightarrow> bool" where
  "is_number s \<longleftrightarrow> acl_alldig s \<or> (case s of [] \<Rightarrow> False | c # s' \<Rightarrow> (c = 45 \<or> c = 43) \<and> s' \<noteq> [] \<and> acl_alldig s')"

definition text_eq :: "byte list \<Rightarrow> string \<Rightarrow> bool" where
  "text_eq s t \<longleftrightarrow> acl_lowercase s = bytes_of t"

definition value_type :: "bool \<Rightarrow> jnode \<Rightarrow> cint" where
  "value_type in_array n =
     (if jn_quote n = 0 then
        if text_eq (jn_text n) ''null'' then (if in_array then T_A_NULL else T_NULL) OR T_LEAF
        else if text_eq (jn_text n) ''true'' \<or> text_eq (jn_text n) ''false'' then (if in_array then T_A_BOOL else T_BOOL) OR T_LEAF
        else if is_number (jn_text n) then (if in_array then T_A_NUMBER else T_NUMBER) OR T_LEAF
        else if acl_is_double (jn_text n) then (if in_array then T_A_DOUBLE else T_DOUBLE) OR T_LEAF
        else (if in_array then T_A_STRING else T_STRING) OR T_LEAF
      else (if in_array then T_A_STRING else T_STRING) OR T_LEAF)"

definition json_strend :: "json \<Rightarrow> byte list \<Rightarrow> (json \<times> byte list) cres" where
  "json_strend j data =
     (case skip_space data of
        [] \<Rightarrow> Inr (j, [])
      | c # data1 \<Rightarrow>
          cbind (jread j (Some (js_curr j))) (\<lambda>n.
          cbind (case jn_parent n of None \<Rightarrow> Inr False | Some p \<Rightarrow> cbind (jread j (Some p)) (\<lambda>pn. Inr (jn_type pn = T_ARRAY))) (\<lambda>in_array.
          cbind (jwrite j (Some (js_curr j)) (\<lambda>n. n\<lparr>jn_type := value_type in_array n\<rparr>)) (\<lambda>j1.
          if c = 44 \<or> c = 59 then Inr (j1\<lparr>js_status := S_NEXT\<rparr>, c # data1)
          else
            cbind (deref (jn_parent n)) (\<lambda>p.
            cbind (jread j1 (Some p)) (\<lambda>pn.
              if c \<noteq> jn_right pn then Inr (j1, data1) else Inr (json_close j1 p, data1)))))))"

definition json_brother :: "json \<Rightarrow> byte list \<Rightarrow> (json \<times> byte list) cres" where
  "json_brother j data =
     (if js_curr j = js_root j then Inr (j\<lparr>js_finish := True\<rparr>, data)
      else
        case skip_space data of
          [] \<Rightarrow> Inr (j, [])
        | c # data1 \<Rightarrow>
            cbind (acl_json_node_parent j (js_curr j)) (\<lambda>parent.
            case parent of
              None \<Rightarrow> Inl Fatal
            | Some p \<Rightarrow>
                cbind (jread j (Some p)) (\<lambda>pn.
                let st = (if jn_left pn = 123 then S_MEMBER else if jn_left pn = 91 then S_ELEMENT else S_NEXT)
                in if c = 44 \<or> c = 59 then Inr (j\<lparr>js_status := st, js_curr := p\<rparr>, data1)
                   else if c = jn_right pn then Inr (json_close j p, data1)
                   else Inr (j\<lparr>js_status := st, js_curr := p\<rparr>, c # data1))))"

text \<open>The table of the states, and the loop over the text: it makes at most twelve steps for each byte.\<close>

definition json_step :: "json \<Rightarrow> byte list \<Rightarrow> (json \<times> byte list) cres" where
  "json_step j data =
     (case js_status j of
        S_ROOT \<Rightarrow> json_root j data
      | S_OBJ \<Rightarrow> json_obj j data
      | S_MEMBER \<Rightarrow> json_member j data
      | S_ARRAY \<Rightarrow> json_array j data
      | S_ELEMENT \<Rightarrow> json_element j data
      | S_PAIR \<Rightarrow> json_pair j data
      | S_NEXT \<Rightarrow> json_brother j data
      | S_TAG \<Rightarrow> json_tag j data
      | S_VALUE \<Rightarrow> json_value j data
      | S_COLON \<Rightarrow> json_colon j data
      | S_STRING \<Rightarrow> json_string j data
      | S_STREND \<Rightarrow> json_strend j data)"

fun json_loop :: "nat \<Rightarrow> json \<Rightarrow> byte list \<Rightarrow> (json \<times> byte list) cres" where
  "json_loop 0 j data = (if data = [] \<or> js_finish j then Inr (j, data) else Inl OutOfFuel)"
| "json_loop (Suc k) j data =
     (if data = [] \<or> js_finish j then Inr (j, data) else cbind (json_step j data) (\<lambda>(j1, data1). json_loop k j1 data1))"

definition acl_json_update :: "json \<Rightarrow> byte list \<Rightarrow> (json \<times> byte list) cres" where
  "acl_json_update j data = (if js_finish j then Inr (j, data) else json_loop (12 * length data + 12) j data)"

definition acl_json_finish :: "json \<Rightarrow> bool" where
  "acl_json_finish j = js_finish j"

end
