(* ===== verification/Acl_JsonRep.thy ===== *)
theory Acl_JsonRep
  imports Acl_Json
begin

text \<open>
  A JSON document in the store as a tree, seen from the current node: a list of frames, the current node first and the root last, each with its
  address, its contents and the children that are complete; the next frame towards the current node is its last child.
\<close>

datatype jtree = JT (jt_addr: addr) (jt_node: jnode) (jt_kids: "jtree list")

type_synonym jframe = "addr \<times> jnode \<times> jtree list"

section \<open>Addresses\<close>

fun addrs :: "jtree \<Rightarrow> addr list" where
  "addrs (JT a n ks) = a # concat (map addrs ks)"

definition frame_addrs :: "jframe \<Rightarrow> addr list" where
  "frame_addrs f = (case f of (a, n, ks) \<Rightarrow> a # concat (map addrs ks))"

definition path_addrs :: "jframe list \<Rightarrow> addr list" where
  "path_addrs fs = concat (map frame_addrs fs)"

lemma frame_addrs_simps [simp]: "frame_addrs (a, n, ks) = a # concat (map addrs ks)"
  by (simp add: frame_addrs_def)

lemma path_addrs_simps [simp]: "path_addrs [] = []" "path_addrs (f # fs) = frame_addrs f @ path_addrs fs"
  by (simp_all add: path_addrs_def)

section \<open>Trees in the store\<close>

text \<open>\<open>K\<close> has the addresses of the children of each node.\<close>

fun tree_in :: "(addr \<rightharpoonup> jnode) \<Rightarrow> (addr \<rightharpoonup> addr list) \<Rightarrow> ptr \<Rightarrow> jtree \<Rightarrow> bool" where
  "tree_in N K p (JT a n ks) \<longleftrightarrow> N a = Some n \<and> jn_parent n = p \<and> K a = Some (map jt_addr ks) \<and> (\<forall>k \<in> set ks. tree_in N K (Some a) k)"

fun path_in :: "(addr \<rightharpoonup> jnode) \<Rightarrow> (addr \<rightharpoonup> addr list) \<Rightarrow> addr list \<Rightarrow> jframe list \<Rightarrow> bool" where
  "path_in N K inner [] = True"
| "path_in N K inner ((a, n, ks) # fs) \<longleftrightarrow>
     N a = Some n \<and> jn_parent n = (if fs = [] then None else Some (fst (hd fs))) \<and> K a = Some (map jt_addr ks @ inner) \<and>
     (\<forall>k \<in> set ks. tree_in N K (Some a) k) \<and> path_in N K [a] fs"

lemma tree_in_cong:
  "(\<And>a. a \<in> set (addrs t) \<Longrightarrow> N' a = N a \<and> K' a = K a) \<Longrightarrow> tree_in N' K' p t = tree_in N K p t"
proof (induction t arbitrary: p)
  case (JT a n ks)
  have "tree_in N' K' (Some a) k = tree_in N K (Some a) k" if "k \<in> set ks" for k
    by (rule JT.IH [OF that]) (use JT.prems that in auto)
  then show ?case using JT.prems [of a] by simp
qed

lemma path_in_cong:
  "(\<And>a. a \<in> set (path_addrs fs) \<Longrightarrow> N' a = N a \<and> K' a = K a) \<Longrightarrow> path_in N' K' inner fs = path_in N K inner fs"
proof (induction fs arbitrary: inner)
  case (Cons f fs)
  obtain a n ks where f: "f = (a, n, ks)" by (cases f)
  have "path_in N' K' [a] fs = path_in N K [a] fs" by (rule Cons.IH) (use Cons.prems in auto)
  moreover have "tree_in N' K' (Some a) k = tree_in N K (Some a) k" if "k \<in> set ks" for k
    by (rule tree_in_cong) (use Cons.prems that f in auto)
  moreover have "N' a = N a \<and> K' a = K a" using Cons.prems [of a] f by simp
  ultimately show ?case using f by simp
qed simp

definition ring_map :: "addr \<Rightarrow> (addr \<rightharpoonup> addr list) \<Rightarrow> addr \<rightharpoonup> addr list" where
  "ring_map root K = (\<lambda>r. if r = node_ring root then Some [] else if even r then map_option (map node_ring) (K (to_appl r)) else None)"

definition jrep :: "json \<Rightarrow> jframe list \<Rightarrow> bool" where
  "jrep j fs \<longleftrightarrow> (\<exists>K. path_in (js_nodes j) K [] fs \<and> rings (js_ring j) (ring_map (js_root j) K) \<and> dom K = set (path_addrs fs)) \<and>
     distinct (path_addrs fs) \<and> (\<forall>a \<in> set (path_addrs fs). a < js_brk j) \<and> fs \<noteq> [] \<and> js_curr j = fst (hd fs) \<and> js_root j = fst (last fs)"

lemma ring_addr [simp]: "kids_ring a = kids_ring b \<longleftrightarrow> a = b" "node_ring a = node_ring b \<longleftrightarrow> a = b" "kids_ring a \<noteq> node_ring b" "node_ring b \<noteq> kids_ring a"
  "to_appl (kids_ring a) = a" "to_appl (node_ring a) = a" "even (kids_ring a)" "odd (node_ring a)"
  unfolding kids_ring_def node_ring_def to_appl_def by presburger+

lemma even_kids: "even r \<Longrightarrow> r = kids_ring (to_appl r)"
  by (simp add: kids_ring_def to_appl_def)

lemma ring_map_kids [simp]: "ring_map root K (kids_ring a) = map_option (map node_ring) (K a)"
  by (simp add: ring_map_def)

lemma jrep_nonempty: "jrep j fs \<Longrightarrow> fs \<noteq> []"
  by (simp add: jrep_def)

text \<open>Reading the current node and its parent.\<close>

lemma jrep_curr:
  assumes "jrep j ((a, n, ks) # fs)"
  shows "js_curr j = a" "js_nodes j a = Some n" "jread j (Some (js_curr j)) = Inr n" "acl_json_node_parent j (js_curr j) = Inr (jn_parent n)"
    "jn_parent n = (if fs = [] then None else Some (fst (hd fs)))" "js_root j = a \<longleftrightarrow> fs = []"
proof -
  show c: "js_curr j = a" and n: "js_nodes j a = Some n" and p: "jn_parent n = (if fs = [] then None else Some (fst (hd fs)))"
    using assms by (auto simp: jrep_def)
  then show "jread j (Some (js_curr j)) = Inr n" "acl_json_node_parent j (js_curr j) = Inr (jn_parent n)"
    by (simp_all add: jread_def acl_json_node_parent_def)
  have "fst (last fs) \<in> set (path_addrs fs)" if "fs \<noteq> []" using that
  proof (induction fs)
    case (Cons f fs)
    then show ?case by (cases f) auto
  qed simp
  then show "js_root j = a \<longleftrightarrow> fs = []" using assms by (auto simp: jrep_def)
qed

lemma jrep_parent:
  assumes "jrep j (c # (p, pn, ps) # fs)"
  shows "js_nodes j p = Some pn" "jread j (Some p) = Inr pn" "fst c \<noteq> p" "p = js_root j \<longleftrightarrow> fs = []"
proof -
  obtain a n ks where c: "c = (a, n, ks)" by (cases c)
  show n: "js_nodes j p = Some pn" using assms by (auto simp: jrep_def c)
  then show "jread j (Some p) = Inr pn" by (simp add: jread_def)
  show "fst c \<noteq> p" using assms by (auto simp: jrep_def c)
  have "fst (last fs) \<in> set (path_addrs fs)" if "fs \<noteq> []" using that
  proof (induction fs)
    case (Cons f fs)
    then show ?case by (cases f) auto
  qed simp
  then show "p = js_root j \<longleftrightarrow> fs = []" using assms by (auto simp: jrep_def c)
qed

text \<open>Only the nodes, the rings, \<open>brk\<close> and the two pointers matter.\<close>

lemma jrep_eq:
  "js_nodes j' = js_nodes j \<Longrightarrow> js_ring j' = js_ring j \<Longrightarrow> js_brk j' = js_brk j \<Longrightarrow> js_root j' = js_root j \<Longrightarrow> js_curr j' = js_curr j \<Longrightarrow> jrep j' fs = jrep j fs"
  by (simp add: jrep_def)

lemma jrep_simps [simp]:
  "jrep (j\<lparr>js_status := s\<rparr>) fs = jrep j fs" "jrep (j\<lparr>js_finish := b\<rparr>) fs = jrep j fs" "jrep (j\<lparr>js_depth := d\<rparr>) fs = jrep j fs"
  by (simp_all add: jrep_def)

text \<open>Changing the current node.\<close>

lemma jrep_write:
  assumes w: "jrep j ((a, n, ks) # fs)" and f: "jn_parent (f n) = jn_parent n"
  shows "jwrite j (Some (js_curr j)) f = Inr (j\<lparr>js_nodes := (js_nodes j)(a \<mapsto> f n)\<rparr>)" "jrep (j\<lparr>js_nodes := (js_nodes j)(a \<mapsto> f n)\<rparr>) ((a, f n, ks) # fs)"
proof -
  obtain K where K: "path_in (js_nodes j) K [] ((a, n, ks) # fs)" "rings (js_ring j) (ring_map (js_root j) K)" "dom K = set (path_addrs ((a, n, ks) # fs))"
    and d: "distinct (path_addrs ((a, n, ks) # fs))" "\<forall>b \<in> set (path_addrs ((a, n, ks) # fs)). b < js_brk j" "js_curr j = a" "js_root j = fst (last ((a, n, ks) # fs))"
    using w by (auto simp: jrep_def)
  show "jwrite j (Some (js_curr j)) f = Inr (j\<lparr>js_nodes := (js_nodes j)(a \<mapsto> f n)\<rparr>)" using K(1) d(3) by (simp add: jwrite_def)
  let ?N = "(js_nodes j)(a \<mapsto> f n)"
  have "path_in ?N K [a] fs = path_in (js_nodes j) K [a] fs" by (rule path_in_cong) (use d(1) in auto)
  moreover have "tree_in ?N K (Some a) k = tree_in (js_nodes j) K (Some a) k" if "k \<in> set ks" for k
    by (rule tree_in_cong) (use d(1) that in auto)
  ultimately have "path_in ?N K [] ((a, f n, ks) # fs)" using K(1) f by simp
  then show "jrep (j\<lparr>js_nodes := (js_nodes j)(a \<mapsto> f n)\<rparr>) ((a, f n, ks) # fs)"
    using K(2,3) d unfolding jrep_def by (auto intro!: exI [of _ K])
qed

text \<open>Going up: the current node is complete.\<close>

definition fold_frame :: "jframe \<Rightarrow> jframe \<Rightarrow> jframe" where
  "fold_frame c p = (case c of (a, n, ks) \<Rightarrow> case p of (b, m, ls) \<Rightarrow> (b, m, ls @ [JT a n ks]))"

lemma fold_frame_simps [simp]: "fold_frame (a, n, ks) (b, m, ls) = (b, m, ls @ [JT a n ks])" "fst (fold_frame c p) = fst p"
  by (auto simp: fold_frame_def split: prod.splits)

lemma jrep_up:
  assumes "jrep j (c # p # fs)"
  shows "jrep (j\<lparr>js_curr := fst p\<rparr>) (fold_frame c p # fs)"
proof -
  obtain a n ks b m ls where c: "c = (a, n, ks)" "p = (b, m, ls)" by (cases c; cases p)
  have "set (path_addrs (fold_frame c p # fs)) = set (path_addrs (c # p # fs))" "distinct (path_addrs (fold_frame c p # fs)) = distinct (path_addrs (c # p # fs))"
    by (auto simp: c)
  moreover have "path_in N K [] (c # p # fs) \<Longrightarrow> path_in N K [] (fold_frame c p # fs)" for N K by (auto simp: c split: if_splits)
  ultimately show ?thesis using assms unfolding jrep_def by (auto simp: c(2))
qed

section \<open>A new node\<close>

lemma tree_in_kids: "tree_in N K p t \<Longrightarrow> b \<in> set (addrs t) \<Longrightarrow> \<exists>bs. K b = Some bs \<and> set bs \<subseteq> set (addrs t)"
proof (induction t arbitrary: p)
  case (JT a n ks)
  show ?case
  proof (cases "b = a")
    case True
    have "jt_addr k \<in> set (addrs k)" for k by (cases k) simp
    then show ?thesis using JT.prems(1) True by auto
  next
    case False
    then obtain k where k: "k \<in> set ks" "b \<in> set (addrs k)" using JT.prems(2) by auto
    then obtain bs where "K b = Some bs" "set bs \<subseteq> set (addrs k)" using JT.IH [OF k(1), of "Some a"] JT.prems(1) by auto
    then show ?thesis using k(1) by auto
  qed
qed

lemma path_in_kids: "path_in N K inner fs \<Longrightarrow> b \<in> set (path_addrs fs) \<Longrightarrow> \<exists>bs. K b = Some bs \<and> set bs \<subseteq> set (path_addrs fs) \<union> set inner"
proof (induction fs arbitrary: inner)
  case (Cons f fs)
  obtain a n ks where f: "f = (a, n, ks)" by (cases f)
  consider "b = a" | k where "k \<in> set ks" "b \<in> set (addrs k)" | "b \<in> set (path_addrs fs)" using Cons.prems(2) f by auto
  then show ?case
  proof cases
    case 1
    have "jt_addr k \<in> set (addrs k)" for k by (cases k) simp
    then show ?thesis using Cons.prems(1) 1 f by auto
  next
    case 2
    then obtain bs where "K b = Some bs" "set bs \<subseteq> set (addrs k)" using tree_in_kids [of N K "Some a" k b] Cons.prems(1) f by auto
    then show ?thesis using 2(1) f by auto
  next
    case 3
    then obtain bs where "K b = Some bs" "set bs \<subseteq> set (path_addrs fs) \<union> {a}" using Cons.IH [of "[a]"] Cons.prems(1) f by auto
    then show ?thesis using f by auto
  qed
qed simp

lemma ring_map_used:
  assumes "ring_map root K s = Some ys" "dom K = A" "\<And>b bs. K b = Some bs \<Longrightarrow> set bs \<subseteq> A" "root \<in> A" "r \<in> set (s # ys)"
  shows "to_appl r \<in> A"
proof (cases "s = node_ring root")
  case True
  then show ?thesis using assms(1,4,5) by (simp add: ring_map_def)
next
  case False
  then have "even s" using assms(1) by (simp add: ring_map_def split: if_splits)
  then obtain b where s: "s = kids_ring b" using even_kids by blast
  then obtain bs where bs: "K b = Some bs" "ys = map node_ring bs" using assms(1) False by auto
  have "b \<in> A" using bs(1) assms(2) by auto
  then show ?thesis using assms(3) [OF bs(1)] assms(5) bs(2) s by auto
qed

lemma path_last: "fs \<noteq> [] \<Longrightarrow> fst (last fs) \<in> set (path_addrs fs)"
proof (induction fs)
  case (Cons f fs)
  then show ?case by (cases f) auto
qed simp

text \<open>Initialising the rings of a new node and linking it below another one.\<close>

lemma ring_new_child:
  assumes R: "rings h (ring_map root K)" and K: "dom K = A" "\<And>b bs. K b = Some bs \<Longrightarrow> set bs \<subseteq> A" "root \<in> A" "a \<notin> A" "K p = Some ks"
  obtains h' where "acl_ring_prepend (acl_ring_init (acl_ring_init h (Some (kids_ring a))) (Some (node_ring a))) (Some (kids_ring p)) (Some (node_ring a)) = Inr h'"
    "rings h' (ring_map root (K(p \<mapsto> ks @ [a], a \<mapsto> [])))"
proof -
  let ?R = "ring_map root K"
  have used: "to_appl r \<in> A" if "?R s = Some ys" "r \<in> set (s # ys)" for s ys r by (rule ring_map_used [OF that(1) K(1,2,3) that(2)])
  have r1: "rings (acl_ring_init h (Some (kids_ring a))) (?R(kids_ring a \<mapsto> []))"
    using used K(4) by (intro rings_init [OF R]) fastforce
  have "rings (acl_ring_init (acl_ring_init h (Some (kids_ring a))) (Some (node_ring a))) (?R(kids_ring a \<mapsto> [], node_ring a \<mapsto> []))"
  proof (rule rings_init [OF r1])
    fix s ys assume "(?R(kids_ring a \<mapsto> [])) s = Some ys"
    then show "node_ring a \<notin> set (s # ys)" using used [of s ys "node_ring a"] K(4) by (auto split: if_splits)
  qed
  moreover have pa: "p \<noteq> a" using K by auto
  ultimately obtain h' where h': "acl_ring_prepend (acl_ring_init (acl_ring_init h (Some (kids_ring a))) (Some (node_ring a))) (Some (kids_ring p)) (Some (node_ring a)) = Inr h'"
    "rings h' ((?R(kids_ring a \<mapsto> [], node_ring a \<mapsto> []))(node_ring a := None, kids_ring p \<mapsto> map node_ring ks @ [node_ring a]))"
    using rings_prepend [of _ "?R(kids_ring a \<mapsto> [], node_ring a \<mapsto> [])" "kids_ring p" "map node_ring ks" "node_ring a"] K(5) by auto
  have "(?R(kids_ring a \<mapsto> [], node_ring a \<mapsto> []))(node_ring a := None, kids_ring p \<mapsto> map node_ring ks @ [node_ring a]) = ring_map root (K(p \<mapsto> ks @ [a], a \<mapsto> []))"
  proof
    fix r
    have ra: "root \<noteq> a" using K(3,4) by auto
    consider (even) b where "r = kids_ring b" | (odd) b where "r = node_ring b"
      unfolding kids_ring_def node_ring_def by (metis oddE evenE)
    then show "((?R(kids_ring a \<mapsto> [], node_ring a \<mapsto> []))(node_ring a := None, kids_ring p \<mapsto> map node_ring ks @ [node_ring a])) r = ring_map root (K(p \<mapsto> ks @ [a], a \<mapsto> [])) r"
    proof cases
      case even
      then show ?thesis using pa by (simp add: ring_map_def)
    next
      case odd
      then show ?thesis using ra by (auto simp: ring_map_def)
    qed
  qed
  with h' that show ?thesis by simp
qed

text \<open>\<open>json_child\<close> puts a new node below the current one.\<close>

definition child_node :: "json \<Rightarrow> (jnode \<Rightarrow> jnode) \<Rightarrow> jnode \<Rightarrow> jnode" where
  "child_node j f c = (f jnode_new)\<lparr>jn_depth := jn_depth c + 1, jn_parent := Some (js_curr j)\<rparr>"

definition tag_with :: "bool \<Rightarrow> addr \<Rightarrow> jnode \<Rightarrow> jnode" where
  "tag_with tagged a c = (if tagged \<and> jn_ltag c \<noteq> [] then c\<lparr>jn_tag_node := Some a\<rparr> else c)"

lemma jrep_child:
  assumes w: "jrep j ((p, c, ks) # fs)"
  obtains j' where "json_child j f tagged st = Inr j'" "jrep j' ((js_brk j, child_node j f c, []) # (p, tag_with tagged (js_brk j) c, ks) # fs)"
    "js_status j' = st" "js_finish j' = js_finish j" "js_part_word j' = js_part_word j" "js_node_cnt j' = js_node_cnt j + 1" "js_add_space j' = js_add_space j"
proof -
  let ?a = "js_brk j"
  obtain K where K: "path_in (js_nodes j) K [] ((p, c, ks) # fs)" "rings (js_ring j) (ring_map (js_root j) K)" "dom K = set (path_addrs ((p, c, ks) # fs))"
    and d: "distinct (path_addrs ((p, c, ks) # fs))" "\<forall>b \<in> set (path_addrs ((p, c, ks) # fs)). b < ?a" "js_curr j = p" "js_root j = fst (last ((p, c, ks) # fs))"
    using w by (auto simp: jrep_def)
  have na: "?a \<notin> set (path_addrs ((p, c, ks) # fs))" using d(2) by blast
  have sub: "set bs \<subseteq> set (path_addrs ((p, c, ks) # fs))" if "K b = Some bs" for b bs
  proof -
    have "b \<in> set (path_addrs ((p, c, ks) # fs))" using that K(3) by blast
    from path_in_kids [OF K(1) this] that show ?thesis by auto
  qed
  have root: "js_root j \<in> set (path_addrs ((p, c, ks) # fs))" using path_last [of "(p, c, ks) # fs"] d(4) by simp
  have Kp: "K p = Some (map jt_addr ks)" "js_nodes j p = Some c" using K(1) by auto
  obtain h where h: "acl_ring_prepend (acl_ring_init (acl_ring_init (js_ring j) (Some (kids_ring ?a))) (Some (node_ring ?a))) (Some (kids_ring p)) (Some (node_ring ?a)) = Inr h"
    "rings h (ring_map (js_root j) (K(p \<mapsto> map jt_addr ks @ [?a], ?a \<mapsto> [])))"
    by (rule ring_new_child [OF K(2,3) sub root na Kp(1)])
  have pa: "p \<noteq> ?a" using na by auto
  let ?n = "child_node j f c" and ?c = "tag_with tagged ?a c"
  let ?N = "(js_nodes j)(?a \<mapsto> ?n, p \<mapsto> ?c)" and ?K = "K(p \<mapsto> map jt_addr ks @ [?a], ?a \<mapsto> [])"
  define j' where "j' = j\<lparr>js_nodes := ?N, js_ring := h, js_brk := Suc ?a, js_node_cnt := js_node_cnt j + 1,
    js_depth := (if jn_depth c + 1 > js_depth j then jn_depth c + 1 else js_depth j), js_curr := ?a, js_status := st\<rparr>"
  have "json_child j f tagged st = Inr j'"
  proof -
    have nodes: "(js_nodes j)(?a \<mapsto> ?n) = ?N" if "?c = c" using that Kp(2) pa by (auto simp: fun_eq_iff)
    show ?thesis
      using h(1) Kp(2) pa d(3) nodes
      by (cases j) (auto simp: json_child_def acl_json_node_alloc_def jread_def jwrite_def acl_json_node_add_child_def child_node_def tag_with_def j'_def Let_def fun_upd_twist)
  qed
  moreover have "jrep j' ((?a, ?n, []) # (p, ?c, ks) # fs)"
  proof -
    have "path_in ?N ?K [p] fs = path_in (js_nodes j) K [p] fs" by (rule path_in_cong) (use d(1) na in auto)
    moreover have "tree_in ?N ?K (Some p) k = tree_in (js_nodes j) K (Some p) k" if "k \<in> set ks" for k
      by (rule tree_in_cong) (use d(1) na that in auto)
    moreover have "jn_parent ?c = jn_parent c" by (simp add: tag_with_def)
    ultimately have "path_in ?N ?K [] ((?a, ?n, []) # (p, ?c, ks) # fs)" using K(1) pa d(3) by (simp add: child_node_def)
    moreover have "dom ?K = set (path_addrs ((?a, ?n, []) # (p, ?c, ks) # fs))" using K(3) by auto
    moreover have "distinct (path_addrs ((?a, ?n, []) # (p, ?c, ks) # fs))" using d(1) na by simp
    moreover have "\<forall>b \<in> set (path_addrs ((?a, ?n, []) # (p, ?c, ks) # fs)). b < Suc ?a" using d(2) by (auto intro: less_SucI)
    ultimately show ?thesis unfolding jrep_def using h(2) d(4) by (intro conjI exI [of _ ?K]) (simp_all add: j'_def)
  qed
  ultimately show ?thesis using that by (simp add: j'_def)
qed

text \<open>A new document.\<close>

lemma jrep_new: "jrep (acl_json_alloc fw sp) [(0, jnode_new\<lparr>jn_left := 123, jn_right := 125\<rparr>, [])]"
proof -
  let ?h = "\<lparr>rg_succ = (\<lambda>_. None), rg_pred = (\<lambda>_. None), rg_parent = (\<lambda>_. None), rg_len = (\<lambda>_. 0)\<rparr>"
  have "rings ?h Map.empty" by (simp add: rings_def)
  then have "rings (acl_ring_init ?h (Some (kids_ring 0))) (Map.empty(kids_ring 0 \<mapsto> []))" by (rule rings_init) simp
  then have "rings (acl_ring_init (acl_ring_init ?h (Some (kids_ring 0))) (Some (node_ring 0))) (Map.empty(kids_ring 0 \<mapsto> [], node_ring 0 \<mapsto> []))"
    by (rule rings_init) (simp split: if_splits)
  moreover have "Map.empty(kids_ring 0 \<mapsto> [], node_ring 0 \<mapsto> []) = ring_map 0 [0 \<mapsto> []]"
    by (auto simp: ring_map_def fun_eq_iff dest: even_kids)
  ultimately have "rings (acl_ring_init (acl_ring_init ?h (Some (kids_ring 0))) (Some (node_ring 0))) (ring_map 0 [0 \<mapsto> []])" by simp
  then show ?thesis unfolding jrep_def
    by (intro conjI exI [of _ "[0 \<mapsto> []]"]) (simp_all add: acl_json_alloc_def acl_json_node_alloc_def Let_def jnode_new_def)
qed

end
