(* ===== verification/Acl_JsonParse.thy ===== *)
theory Acl_JsonParse
  imports Acl_JsonRep
begin

text \<open>
  The parser never faults and always ends: the invariant of its states, and a measure that falls with every step. A node is a
  container when it has brackets; other nodes have a container as their parent.
\<close>

fun wpath :: "jframe list \<Rightarrow> bool" where
  "wpath [] = True"
| "wpath ((a, n, ks) # fs) \<longleftrightarrow>
     (jn_left n = 123 \<and> jn_right n = 125 \<or> jn_left n = 91 \<and> jn_right n = 93 \<or>
      jn_left n = 0 \<and> jn_right n = 0 \<and> fs \<noteq> [] \<and> jn_left (fst (snd (hd fs))) \<noteq> 0) \<and> wpath fs"

fun shape :: "jstatus \<Rightarrow> jframe list \<Rightarrow> bool" where
  "shape st [] = False"
| "shape st ((a, n, ks) # fs) =
     (case st of
        S_ROOT \<Rightarrow> fs = [] \<and> jn_left n \<noteq> 0
      | S_MEMBER \<Rightarrow> jn_left n \<noteq> 0
      | S_ELEMENT \<Rightarrow> jn_left n \<noteq> 0
      | S_OBJ \<Rightarrow> True
      | S_ARRAY \<Rightarrow> True
      | S_NEXT \<Rightarrow> True
      | _ \<Rightarrow> jn_left n = 0)"

definition jinv :: "json \<Rightarrow> jframe list \<Rightarrow> bool" where
  "jinv j fs \<longleftrightarrow> jrep j fs \<and> wpath fs \<and> shape (js_status j) fs"

definition sep_first :: "byte list \<Rightarrow> bool" where
  "sep_first d = (case skip_space d of [] \<Rightarrow> False | c # _ \<Rightarrow> c = 44 \<or> c = 59)"

fun rank :: "jstatus \<Rightarrow> bool \<Rightarrow> bool \<Rightarrow> nat" where
  "rank S_TAG sep cont = 1"
| "rank S_PAIR sep cont = 2"
| "rank S_MEMBER sep cont = 3"
| "rank S_OBJ sep cont = 4"
| "rank S_STREND sep cont = 1"
| "rank S_STRING sep cont = 2"
| "rank S_VALUE sep cont = 3"
| "rank S_ELEMENT sep cont = 4"
| "rank S_ARRAY sep cont = 5"
| "rank S_NEXT sep cont = (if sep then 0 else if cont then 7 else 6)"
| "rank _ sep cont = 0"

definition jmeasure :: "jstatus \<Rightarrow> jframe list \<Rightarrow> byte list \<Rightarrow> nat" where
  "jmeasure st fs d = 8 * length d + rank st (sep_first d) (jn_left (fst (snd (hd fs))) \<noteq> 0)"

lemma rank_bound: "rank st sep cont \<le> 7"
  by (cases st) auto

lemma measure_shorter: "length d' < length d \<Longrightarrow> jmeasure st' fs' d' < jmeasure st fs d"
  using rank_bound [of st' "sep_first d'" "jn_left (fst (snd (hd fs'))) \<noteq> 0"] by (auto simp: jmeasure_def)

lemma measure_same:
  "length d' \<le> length d \<Longrightarrow> rank st' (sep_first d') (jn_left (fst (snd (hd fs'))) \<noteq> 0) < rank st (sep_first d) (jn_left (fst (snd (hd fs))) \<noteq> 0) \<Longrightarrow>
   jmeasure st' fs' d' < jmeasure st fs d"
  by (simp add: jmeasure_def)

lemma skip_space_Cons:
  assumes "skip_space d = c # d1"
  shows "\<not> is_space c" "length d1 < length d" "skip_space (c # d1) = c # d1" "sep_first d \<longleftrightarrow> c = 44 \<or> c = 59" "sep_first (c # d1) \<longleftrightarrow> c = 44 \<or> c = 59"
proof -
  show c: "\<not> is_space c" using assms by (auto simp: skip_space_def dropWhile_eq_Cons_conv)
  then show s: "skip_space (c # d1) = c # d1" by (simp add: skip_space_def)
  show "length d1 < length d" using length_dropWhile_le [of is_space d] assms by (simp add: skip_space_def)
  show "sep_first d \<longleftrightarrow> c = 44 \<or> c = 59" "sep_first (c # d1) \<longleftrightarrow> c = 44 \<or> c = 59" using assms s by (simp_all add: sep_first_def)
qed

lemma skip_space_le: "length (skip_space d) \<le> length d"
  by (simp add: skip_space_def length_dropWhile_le)

lemma sep_first_Cons: "\<not> is_space c \<Longrightarrow> sep_first (c # d) = (c = 44 \<or> c = 59)"
  by (simp add: sep_first_def skip_space_def)

section \<open>What a step does\<close>

text \<open>A step from a state with frames \<open>fs\<close> ends in a state with frames again, and makes progress.\<close>

definition step_ok :: "json \<Rightarrow> jframe list \<Rightarrow> byte list \<Rightarrow> (json \<times> byte list) cres \<Rightarrow> bool" where
  "step_ok j fs d r \<longleftrightarrow> (\<exists>j' d' fs'. r = Inr (j', d') \<and> jinv j' fs' \<and> js_part_word j' = js_part_word j \<and> length d' \<le> length d \<and>
     (js_finish j' \<or> d' = [] \<or> jmeasure (js_status j') fs' d' < jmeasure (js_status j) fs d))"

lemma step_okI:
  assumes "r = Inr (j', d')" "jrep j' fs'" "wpath fs'" "shape (js_status j') fs'" "js_part_word j' = js_part_word j" "length d' \<le> length d"
    "js_finish j' \<or> d' = [] \<or> length d' < length d \<or>
      rank (js_status j') (sep_first d') (jn_left (fst (snd (hd fs'))) \<noteq> 0) < rank (js_status j) (sep_first d) (jn_left (fst (snd (hd fs))) \<noteq> 0)"
  shows "step_ok j fs d r"
proof -
  have "js_finish j' \<or> d' = [] \<or> jmeasure (js_status j') fs' d' < jmeasure (js_status j) fs d"
    using assms(6,7) measure_shorter measure_same by blast
  then show ?thesis using assms(1-6) unfolding step_ok_def jinv_def by blast
qed

text \<open>Waiting for more text.\<close>

lemma step_wait: "jinv j fs \<Longrightarrow> step_ok j fs d (Inr (j, []))"
  by (auto simp: step_ok_def intro!: exI [of _ fs])

lemma wpath_child:
  assumes "wpath ((p, c, ks) # fs)"
  shows "jn_left (f jnode_new) = 123 \<and> jn_right (f jnode_new) = 125 \<or> jn_left (f jnode_new) = 91 \<and> jn_right (f jnode_new) = 93 \<or>
      jn_left (f jnode_new) = 0 \<and> jn_right (f jnode_new) = 0 \<and> jn_left c \<noteq> 0 \<Longrightarrow>
    wpath ((a, child_node j f c, []) # (p, tag_with tagged a c, ks) # fs)"
  using assms by (auto simp: child_node_def tag_with_def)

lemma step_child:
  assumes w: "jinv j ((p, c, ks) # fs)"
    and f: "jn_left (f jnode_new) = 123 \<and> jn_right (f jnode_new) = 125 \<or> jn_left (f jnode_new) = 91 \<and> jn_right (f jnode_new) = 93 \<or>
      jn_left (f jnode_new) = 0 \<and> jn_right (f jnode_new) = 0 \<and> jn_left c \<noteq> 0"
    and st: "\<And>a. shape st [(a, f jnode_new, [])] \<and> st \<noteq> S_ROOT" "length d' \<le> length d"
      "rank st (sep_first d') (jn_left (f jnode_new) \<noteq> 0) < rank (js_status j) (sep_first d) (jn_left c \<noteq> 0)"
  shows "step_ok j ((p, c, ks) # fs) d (cbind (json_child j f tagged st) (\<lambda>j1. Inr (j1, d')))"
proof -
  have w': "jrep j ((p, c, ks) # fs)" "wpath ((p, c, ks) # fs)" using w by (auto simp: jinv_def)
  obtain j' where j': "json_child j f tagged st = Inr j'" "jrep j' ((js_brk j, child_node j f c, []) # (p, tag_with tagged (js_brk j) c, ks) # fs)"
    "js_status j' = st" "js_part_word j' = js_part_word j"
    by (rule jrep_child [OF w'(1)])
  show ?thesis
    by (rule step_okI [OF _ j'(2) wpath_child [where f = f and j = j and tagged = tagged, OF w'(2) f]])
      (use j' st in \<open>auto simp: child_node_def split: jstatus.splits\<close>)
qed

lemma parent_exists:
  assumes "jinv j ((a, n, ks) # fs)" "jn_left n = 0"
  obtains p pn ps gs where "fs = (p, pn, ps) # gs" "jn_left pn \<noteq> 0" "jn_parent n = Some p" "jread j (Some p) = Inr pn" "a \<noteq> p" "p = js_root j \<longleftrightarrow> gs = []"
    "jn_left pn = 123 \<and> jn_right pn = 125 \<or> jn_left pn = 91 \<and> jn_right pn = 93"
proof -
  have w: "jrep j ((a, n, ks) # fs)" "wpath ((a, n, ks) # fs)" using assms(1) by (auto simp: jinv_def)
  then obtain p pn ps gs where fs: "fs = (p, pn, ps) # gs" using assms(2) by (cases fs) auto
  then show ?thesis using that jrep_parent [of j "(a, n, ks)" p pn ps gs] jrep_curr(5) [OF w(1)] w assms(2) by auto
qed

lemma close_ok:
  assumes w: "jinv j ((a, n, ks) # (p, pn, ps) # gs)" and p: "p = js_root j \<longleftrightarrow> gs = []" "length d' < length d" "jn_left pn \<noteq> 0"
  shows "step_ok j ((a, n, ks) # (p, pn, ps) # gs) d (Inr (json_close j p, d'))"
proof (cases "gs = []")
  case True
  then have "json_close j p = j\<lparr>js_finish := True\<rparr>" using p(1) by (simp add: json_close_def)
  then show ?thesis using w p(2) unfolding jinv_def by (intro step_okI [of _ "j\<lparr>js_finish := True\<rparr>" d' "(a, n, ks) # (p, pn, ps) # gs"]) auto
next
  case False
  have w': "jrep j ((a, n, ks) # (p, pn, ps) # gs)" "wpath ((p, pn, ps) # gs)" using w by (auto simp: jinv_def)
  let ?j = "j\<lparr>js_curr := p, js_status := S_NEXT\<rparr>"
  have "jrep ?j ((p, pn, ps @ [JT a n ks]) # gs)" using jrep_up [OF w'(1)] by simp
  moreover have "json_close j p = ?j" using p(1) False by (simp add: json_close_def)
  ultimately show ?thesis using w'(2) p(2) by (intro step_okI [of _ ?j d' "(p, pn, ps @ [JT a n ks]) # gs"]) auto
qed

lemma step_root:
  assumes w: "jinv j ((a, n, ks) # fs)" and st: "js_status j = S_ROOT" and d: "d \<noteq> []"
  shows "step_ok j ((a, n, ks) # fs) d (json_root j d)"
proof (cases "dropWhile (\<lambda>c. c \<noteq> 123 \<and> c \<noteq> 91) d")
  case Nil
  show ?thesis unfolding json_root_def Nil using step_wait [OF w] by simp
next
  case (Cons c d1)
  have w': "jrep j ((a, n, ks) # fs)" "fs = []" using w st by (auto simp: jinv_def)
  have r: "js_root j = js_curr j" using jrep_curr(1,6) [OF w'(1)] w'(2) by simp
  have len: "length d1 < length d" using length_dropWhile_le [of "\<lambda>c. c \<noteq> 123 \<and> c \<noteq> 91" d] Cons by simp
  define f :: "jnode \<Rightarrow> jnode" where "f = (\<lambda>n. n\<lparr>jn_left := if c = 123 then 123 else 91, jn_right := if c = 123 then 125 else 93, jn_type := if c = 123 then T_OBJ else T_ARRAY\<rparr>)"
  note wr = jrep_write [OF w'(1), of f]
  have f: "jn_parent (f n) = jn_parent n" by (simp add: f_def)
  let ?j = "j\<lparr>js_nodes := (js_nodes j)(a \<mapsto> f n), js_status := if c = 123 then S_MEMBER else S_ELEMENT\<rparr>"
  have "json_root j d = Inr (?j, d1)" using Cons wr(1) [OF f] r by (cases "c = 123") (simp_all add: json_root_def f_def)
  moreover have "jrep ?j ((a, f n, ks) # fs)" using wr(2) [OF f] by simp
  ultimately show ?thesis using w'(2) len by (intro step_okI [of _ ?j d1 "(a, f n, ks) # fs"]) (auto simp: f_def)
qed

lemma step_obj:
  assumes w: "jinv j ((a, n, ks) # fs)" and st: "js_status j = S_OBJ"
  shows "step_ok j ((a, n, ks) # fs) d (json_obj j d)"
proof (cases "skip_space d")
  case Nil
  then show ?thesis using step_wait [OF w] by (simp add: json_obj_def)
next
  case (Cons c d1)
  then show ?thesis using step_child [OF w, of "\<lambda>n. n\<lparr>jn_type := T_OBJ, jn_left := 123, jn_right := 125\<rparr>" S_MEMBER "skip_space d" d True] st skip_space_le [of d]
    by (simp add: json_obj_def)
qed

lemma step_array:
  assumes w: "jinv j ((a, n, ks) # fs)" and st: "js_status j = S_ARRAY"
  shows "step_ok j ((a, n, ks) # fs) d (json_array j d)"
proof (cases "skip_space d")
  case Nil
  then show ?thesis using step_wait [OF w] by (simp add: json_array_def)
next
  case (Cons c d1)
  then show ?thesis using step_child [OF w, of "\<lambda>n. n\<lparr>jn_left := 91, jn_right := 93, jn_type := T_ARRAY\<rparr>" S_ELEMENT "skip_space d" d True] st skip_space_le [of d]
    by (simp add: json_array_def)
qed

lemma step_member:
  assumes w: "jinv j ((a, n, ks) # fs)" and st: "js_status j = S_MEMBER"
  shows "step_ok j ((a, n, ks) # fs) d (json_member j d)"
  using step_child [OF w, of "\<lambda>n. n\<lparr>jn_type := T_MEMBER\<rparr>" S_PAIR d d False] st w by (simp add: json_member_def jinv_def jnode_new_def)

lemma step_element:
  assumes w: "jinv j ((a, n, ks) # fs)" and st: "js_status j = S_ELEMENT"
  shows "step_ok j ((a, n, ks) # fs) d (json_element j d)"
proof (cases "skip_space d")
  case Nil
  then show ?thesis using step_wait [OF w] by (simp add: json_element_def)
next
  case (Cons c d1)
  note s = skip_space_Cons [OF Cons]
  have w': "jrep j ((a, n, ks) # fs)" "wpath ((a, n, ks) # fs)" "jn_left n \<noteq> 0" using w st by (auto simp: jinv_def)
  consider "c = 123" | "c = 91" | "c \<noteq> 123" "c \<noteq> 91" by blast
  then show ?thesis
  proof cases
    case 1
    then show ?thesis using w' s by (intro step_okI [of _ "j\<lparr>js_status := S_OBJ\<rparr>" d1 "(a, n, ks) # fs"]) (auto simp: json_element_def Cons)
  next
    case 2
    then show ?thesis using w' s by (intro step_okI [of _ "j\<lparr>js_status := S_ARRAY\<rparr>" d1 "(a, n, ks) # fs"]) (auto simp: json_element_def Cons)
  next
    case 3
    then show ?thesis using step_child [OF w, of "\<lambda>n. n\<lparr>jn_type := T_ELEMENT\<rparr>" S_VALUE "c # d1" d False] st s(2) w'(3)
      by (simp add: json_element_def Cons jnode_new_def Suc_le_eq)
  qed
qed

lemma step_colon:
  assumes w: "jinv j ((a, n, ks) # fs)" and st: "js_status j = S_COLON"
  shows "step_ok j ((a, n, ks) # fs) d (json_colon j d)"
proof (cases "skip_space d")
  case Nil
  then show ?thesis using step_wait [OF w] by (simp add: json_colon_def)
next
  case (Cons c d1)
  note s = skip_space_Cons [OF Cons]
  have w': "jrep j ((a, n, ks) # fs)" "wpath ((a, n, ks) # fs)" "jn_left n = 0" using w st by (auto simp: jinv_def)
  let ?j = "if c \<noteq> 58 then j else j\<lparr>js_status := S_VALUE\<rparr>"
  show ?thesis using w' s st by (intro step_okI [of _ ?j d1 "(a, n, ks) # fs"]) (auto simp: json_colon_def Cons)
qed

lemma step_pair:
  assumes w: "jinv j ((a, n, ks) # fs)" and st: "js_status j = S_PAIR"
  shows "step_ok j ((a, n, ks) # fs) d (json_pair j d)"
proof (cases "skip_space d")
  case Nil
  have "jrep j ((a, n, ks) # fs)" using w by (simp add: jinv_def)
  then show ?thesis using step_wait [OF w] jrep_curr(4) Nil by (simp add: json_pair_def)
next
  case (Cons c d1)
  note s = skip_space_Cons [OF Cons]
  have w': "jrep j ((a, n, ks) # fs)" "wpath ((a, n, ks) # fs)" "jn_left n = 0" using w st by (auto simp: jinv_def)
  obtain p pn ps gs where p: "fs = (p, pn, ps) # gs" "jn_left pn \<noteq> 0" "jn_parent n = Some p" "jread j (Some p) = Inr pn" "p = js_root j \<longleftrightarrow> gs = []"
    using parent_exists [OF w w'(3)] by metis
  note read = jrep_curr(4) [OF w'(1)] p(3,4) Cons jrep_curr(3) [OF w'(1)]
  consider (close) "c = jn_right pn" | (obj) "c \<noteq> jn_right pn" "c = 123" | (arr) "c \<noteq> jn_right pn" "c = 91" | (tag) "c \<noteq> jn_right pn" "c \<noteq> 123" "c \<noteq> 91" by blast
  then show ?thesis
  proof cases
    case close
    then have "json_pair j d = Inr (json_close j p, d1)" using read by (simp add: json_pair_def)
    then show ?thesis using close_ok [OF w [unfolded p(1)] p(5) s(2) p(2)] p(1) by simp
  next
    case obj
    then show ?thesis using w' s read by (intro step_okI [of _ "j\<lparr>js_status := S_OBJ\<rparr>" d1 "(a, n, ks) # fs"]) (auto simp: json_pair_def)
  next
    case arr
    then show ?thesis using w' s read by (intro step_okI [of _ "j\<lparr>js_status := S_ARRAY\<rparr>" d1 "(a, n, ks) # fs"]) (auto simp: json_pair_def)
  next
    case tag
    define q where "q = (if is_quote c \<and> jn_quote n = 0 then c else jn_quote n)"
    define d2 where "d2 = (if is_quote c \<and> jn_quote n = 0 then d1 else c # d1)"
    define f :: "jnode \<Rightarrow> jnode" where "f = (\<lambda>n. n\<lparr>jn_quote := q, jn_type := T_PAIR\<rparr>)"
    have f: "jn_parent (f n) = jn_parent n" "jn_left (f n) = jn_left n" "jn_right (f n) = jn_right n" by (simp_all add: f_def)
    note wr = jrep_write [where f = f, OF w'(1) f(1)]
    let ?j = "j\<lparr>js_nodes := (js_nodes j)(a \<mapsto> f n), js_status := S_TAG\<rparr>"
    have "json_pair j d = Inr (?j, d2)" using read tag wr(1) by (auto simp: json_pair_def q_def d2_def f_def)
    moreover have "length d2 \<le> length d" using s(2) by (simp add: d2_def)
    ultimately show ?thesis using w' wr(2) f st by (intro step_okI [of _ ?j d2 "(a, f n, ks) # fs"]) auto
  qed
qed

lemma tag_loop_keeps:
  "tag_loop flag n d = (n1, e, d1) \<Longrightarrow> jn_parent n1 = jn_parent n \<and> jn_left n1 = jn_left n \<and> jn_right n1 = jn_right n \<and> length d1 \<le> length d \<and>
    (e = More \<longrightarrow> d1 = []) \<and> (e = Quoted \<longrightarrow> length d1 < length d)"
proof (induction d arbitrary: n)
  case (Cons c d)
  obtain w b p where wc: "word_char flag (jn_quote n \<noteq> 0) (jn_backslash n) (jn_part_word n) c = (w, b, p)" by (metis prod_cases3)
  note IH = Cons.IH [of "n\<lparr>jn_ltag := jn_ltag n @ w, jn_backslash := b, jn_part_word := p\<rparr>"]
  show ?case using Cons.prems wc IH by (auto split: if_splits)
qed simp

lemma text_loop_keeps:
  "text_loop flag n d = (n1, e, d1) \<Longrightarrow> jn_parent n1 = jn_parent n \<and> jn_left n1 = jn_left n \<and> jn_right n1 = jn_right n \<and> length d1 \<le> length d \<and>
    (e = More \<longrightarrow> d1 = []) \<and> jn_quote n1 = jn_quote n"
proof (induction d arbitrary: n)
  case (Cons c d)
  obtain w b p where wc: "word_char flag (jn_quote n \<noteq> 0) (jn_backslash n) (jn_part_word n) c = (w, b, p)" by (metis prod_cases3)
  note IH = Cons.IH [of "n\<lparr>jn_text := jn_text n @ w, jn_backslash := b, jn_part_word := p\<rparr>"]
  show ?case using Cons.prems wc IH by (auto split: if_splits)
qed simp

lemma step_tag:
  assumes w: "jinv j ((a, n, ks) # fs)" and st: "js_status j = S_TAG"
  shows "step_ok j ((a, n, ks) # fs) d (json_tag j d)"
proof -
  have w': "jrep j ((a, n, ks) # fs)" "wpath ((a, n, ks) # fs)" "jn_left n = 0" using w st by (auto simp: jinv_def)
  obtain p pn ps gs where p: "fs = (p, pn, ps) # gs" "jn_left pn \<noteq> 0" "jn_parent n = Some p" "jread j (Some p) = Inr pn" "a \<noteq> p"
    using parent_exists [OF w w'(3)] by metis
  obtain n1 e d1 where l: "tag_loop (js_part_word j) n d = (n1, e, d1)" by (metis prod_cases3)
  note k = tag_loop_keeps [OF l]
  have pk: "jn_parent n1 = jn_parent n" using k by blast
  note wr = jrep_write [where f = "\<lambda>_. n1", OF w'(1) pk]
  let ?j = "j\<lparr>js_nodes := (js_nodes j)(a \<mapsto> n1)\<rparr>"
  have pr: "jread ?j (Some p) = Inr pn" using p(4,5) by (auto simp: jread_def split: option.splits)
  define j' where "j' = (case e of More \<Rightarrow> ?j | Plain \<Rightarrow> ?j\<lparr>js_status := S_COLON\<rparr> | Quoted \<Rightarrow> ?j\<lparr>js_status := if jn_left pn = 91 then S_NEXT else S_COLON\<rparr>)"
  have "json_tag j d = Inr (j', d1)" using jrep_curr(3) [OF w'(1)] l wr(1) k p(3) pr by (simp add: json_tag_def j'_def split: word_end.split)
  moreover have "jrep j' ((a, n1, ks) # fs)" "js_part_word j' = js_part_word j" using wr(2) by (auto simp: j'_def split: word_end.split)
  moreover have "shape (js_status j') ((a, n1, ks) # fs)" using st k w'(3) by (auto simp: j'_def split: word_end.split)
  moreover have "js_finish j' \<or> d1 = [] \<or> length d1 < length d \<or> rank (js_status j') (sep_first d1) (jn_left (fst (snd (hd ((a, n1, ks) # fs)))) \<noteq> 0)
      < rank (js_status j) (sep_first d) (jn_left (fst (snd (hd ((a, n, ks) # fs)))) \<noteq> 0)"
    using k st by (cases e) (auto simp: j'_def)
  ultimately show ?thesis using w'(2) k by (intro step_okI [of _ j' d1 "(a, n1, ks) # fs"]) auto
qed

lemma step_value:
  assumes w: "jinv j ((a, n, ks) # fs)" and st: "js_status j = S_VALUE"
  shows "step_ok j ((a, n, ks) # fs) d (json_value j d)"
proof (cases "skip_space d")
  case Nil
  then show ?thesis using step_wait [OF w] by (simp add: json_value_def)
next
  case (Cons c d1)
  note s = skip_space_Cons [OF Cons]
  have w': "jrep j ((a, n, ks) # fs)" "wpath ((a, n, ks) # fs)" "jn_left n = 0" using w st by (auto simp: jinv_def)
  define f :: "jnode \<Rightarrow> jnode" where "f = (\<lambda>n. n\<lparr>jn_quote := (if c \<noteq> 123 \<and> c \<noteq> 91 \<and> c \<noteq> 44 \<and> c \<noteq> 59 \<and> is_quote c then c else jn_quote n), jn_type := T_LEAF\<rparr>)"
  have f: "jn_parent (f n) = jn_parent n" "jn_left (f n) = jn_left n" "jn_right (f n) = jn_right n" by (simp_all add: f_def)
  note wr = jrep_write [where f = f, OF w'(1) f(1)]
  obtain s2 d2 where sd: "(if c = 123 then (S_OBJ, d1) else if c = 91 then (S_ARRAY, d1) else if c = 44 \<or> c = 59 then (S_NEXT, d1)
      else if is_quote c then (S_STRING, d1) else (S_STRING, c # d1)) = (s2, d2)" by fastforce
  let ?j = "j\<lparr>js_nodes := (js_nodes j)(a \<mapsto> f n), js_status := s2\<rparr>"
  have "json_value j d = Inr (?j, d2)" using Cons sd wr(1) unfolding f_def by (simp add: json_value_def)
  moreover have "length d2 \<le> length d" "s2 = S_STRING \<or> length d2 < length d" "shape s2 ((a, f n, ks) # fs)"
    using sd s(2) w'(3) f by (auto split: if_splits)
  ultimately show ?thesis using w' wr(2) f st by (intro step_okI [of _ ?j d2 "(a, f n, ks) # fs"]) auto
qed

lemma step_string:
  assumes w: "jinv j ((a, n, ks) # fs)" and st: "js_status j = S_STRING"
  shows "step_ok j ((a, n, ks) # fs) d (json_string j d)"
proof -
  have w': "jrep j ((a, n, ks) # fs)" "wpath ((a, n, ks) # fs)" "jn_left n = 0" using w st by (auto simp: jinv_def)
  define d1 where "d1 = (if jn_text n = [] then skip_space d else d)"
  have d1: "length d1 \<le> length d" using skip_space_le by (simp add: d1_def)
  show ?thesis
  proof (cases "jn_text n = [] \<and> d1 = []")
    case True
    then have "jn_text n = []" "skip_space d = []" by (auto simp: d1_def)
    then show ?thesis using step_wait [OF w] jrep_curr(3) [OF w'(1)] by (simp add: json_string_def)
  next
    case False
    obtain n1 e d2 where l: "text_loop (js_part_word j) n d1 = (n1, e, d2)" by (metis prod_cases3)
    note k = text_loop_keeps [OF l]
    have pk: "jn_parent n1 = jn_parent n" using k by blast
    note wr = jrep_write [where f = "\<lambda>_. n1", OF w'(1) pk]
    let ?j = "j\<lparr>js_nodes := (js_nodes j)(a \<mapsto> n1)\<rparr>"
    define j' where "j' = (if e = More then ?j else ?j\<lparr>js_status := S_STREND\<rparr>)"
    have "json_string j d = Inr (j', d2)"
      using jrep_curr(3) [OF w'(1)] l wr(1) False unfolding j'_def by (auto simp: json_string_def simp flip: d1_def)
    moreover have "jrep j' ((a, n1, ks) # fs)" using wr(2) by (simp add: j'_def)
    moreover have "js_finish j' \<or> d2 = [] \<or> length d2 < length d \<or> rank (js_status j') (sep_first d2) (jn_left (fst (snd (hd ((a, n1, ks) # fs)))) \<noteq> 0)
      < rank (js_status j) (sep_first d) (jn_left (fst (snd (hd ((a, n, ks) # fs)))) \<noteq> 0)"
      using k st by (cases e) (auto simp: j'_def)
    ultimately show ?thesis using w' k d1 st by (intro step_okI [of _ j' d2 "(a, n1, ks) # fs"]) (auto simp: j'_def)
  qed
qed

lemma step_strend:
  assumes w: "jinv j ((a, n, ks) # fs)" and st: "js_status j = S_STREND"
  shows "step_ok j ((a, n, ks) # fs) d (json_strend j d)"
proof (cases "skip_space d")
  case Nil
  then show ?thesis using step_wait [OF w] by (simp add: json_strend_def)
next
  case (Cons c d1)
  note s = skip_space_Cons [OF Cons]
  have w': "jrep j ((a, n, ks) # fs)" "wpath ((a, n, ks) # fs)" "jn_left n = 0" using w st by (auto simp: jinv_def)
  obtain p pn ps gs where p: "fs = (p, pn, ps) # gs" "jn_left pn \<noteq> 0" "jn_parent n = Some p" "jread j (Some p) = Inr pn" "a \<noteq> p" "p = js_root j \<longleftrightarrow> gs = []"
    using parent_exists [OF w w'(3)] by metis
  define f :: "jnode \<Rightarrow> jnode" where "f = (\<lambda>n. n\<lparr>jn_type := value_type (jn_type pn = T_ARRAY) n\<rparr>)"
  have f: "jn_parent (f n) = jn_parent n" "jn_left (f n) = jn_left n" "jn_right (f n) = jn_right n" by (simp_all add: f_def)
  note wr = jrep_write [where f = f, OF w'(1) f(1)]
  let ?j = "j\<lparr>js_nodes := (js_nodes j)(a \<mapsto> f n)\<rparr>"
  have pr: "jread ?j (Some p) = Inr pn" using p(4,5) by (auto simp: jread_def split: option.splits)
  have run: "json_strend j d = (if c = 44 \<or> c = 59 then Inr (?j\<lparr>js_status := S_NEXT\<rparr>, c # d1) else if c \<noteq> jn_right pn then Inr (?j, d1) else Inr (json_close ?j p, d1))"
    using Cons jrep_curr(3) [OF w'(1)] p(3,4) wr(1) pr unfolding f_def by (simp add: json_strend_def)
  have wi: "jinv ?j ((a, f n, ks) # fs)" using wr(2) w'(2,3) f st by (simp add: jinv_def)
  consider (sep) "c = 44 \<or> c = 59" | (skip) "c \<noteq> 44" "c \<noteq> 59" "c \<noteq> jn_right pn" | (close) "c \<noteq> 44" "c \<noteq> 59" "c = jn_right pn" by blast
  then show ?thesis
  proof cases
    case sep
    then show ?thesis using run wr(2) w'(2) f s st by (intro step_okI [of _ "?j\<lparr>js_status := S_NEXT\<rparr>" "c # d1" "(a, f n, ks) # fs"]) auto
  next
    case skip
    then show ?thesis using run wi s unfolding jinv_def by (intro step_okI [of _ ?j d1 "(a, f n, ks) # fs"]) auto
  next
    case close
    have "p = js_root ?j \<longleftrightarrow> gs = []" using p(6) by simp
    from close_ok [OF wi [unfolded p(1)] this s(2) p(2)] close run f(2) p(1) st show ?thesis by (simp add: step_ok_def jmeasure_def)
  qed
qed

lemma step_brother:
  assumes w: "jinv j ((a, n, ks) # fs)" and st: "js_status j = S_NEXT"
  shows "step_ok j ((a, n, ks) # fs) d (json_brother j d)"
proof (cases "js_curr j = js_root j")
  case True
  then show ?thesis using w unfolding jinv_def by (intro step_okI [of _ "j\<lparr>js_finish := True\<rparr>" d "(a, n, ks) # fs"]) (auto simp: json_brother_def)
next
  case False
  have w': "jrep j ((a, n, ks) # fs)" "wpath ((a, n, ks) # fs)" using w by (auto simp: jinv_def)
  have "fs \<noteq> []" using jrep_curr(1,6) [OF w'(1)] False by auto
  then obtain p pn ps gs where fs: "fs = (p, pn, ps) # gs" by (metis list.exhaust prod_cases3)
  show ?thesis
  proof (cases "skip_space d")
    case Nil
    then show ?thesis using step_wait [OF w] False by (simp add: json_brother_def)
  next
    case (Cons c d1)
    note s = skip_space_Cons [OF Cons]
    note pr = jrep_parent [OF w'(1) [unfolded fs]]
    have par: "acl_json_node_parent j (js_curr j) = Inr (Some p)" using jrep_curr(4,5) [OF w'(1)] fs by simp
    define st' where "st' = (if jn_left pn = 123 then S_MEMBER else if jn_left pn = 91 then S_ELEMENT else S_NEXT)"
    have run: "json_brother j d = (if c = 44 \<or> c = 59 then Inr (j\<lparr>js_status := st', js_curr := p\<rparr>, d1)
        else if c = jn_right pn then Inr (json_close j p, d1) else Inr (j\<lparr>js_status := st', js_curr := p\<rparr>, c # d1))"
      using Cons False par pr(2) by (simp add: json_brother_def st'_def Let_def)
    let ?j = "j\<lparr>js_status := st', js_curr := p\<rparr>" and ?fs = "(p, pn, ps @ [JT a n ks]) # gs"
    have "jrep (j\<lparr>js_curr := p, js_status := st'\<rparr>) ?fs" using jrep_up [OF w'(1) [unfolded fs]] by simp
    moreover have "?j = j\<lparr>js_curr := p, js_status := st'\<rparr>" by simp
    ultimately have up: "jrep ?j ?fs" by (simp only:)
    have wp: "wpath ?fs" using w'(2) by (simp add: fs)
    have sh: "shape st' ?fs" using wp by (auto simp: st'_def)
    consider (sep) "c = 44 \<or> c = 59" | (close) "c \<noteq> 44" "c \<noteq> 59" "c = jn_right pn" | (other) "c \<noteq> 44" "c \<noteq> 59" "c \<noteq> jn_right pn" by blast
    then show ?thesis
    proof cases
      case sep
      then show ?thesis using run up wp sh s by (intro step_okI [of _ ?j d1 ?fs]) auto
    next
      case close
      show ?thesis
      proof (cases "jn_left pn = 0")
        case False
        then show ?thesis using close close_ok [OF w [unfolded fs] pr(4) s(2)] run fs by simp
      next
        case True
        then have "gs \<noteq> []" using w'(2) by (auto simp: fs)
        then have "p \<noteq> js_root j" using pr(4) by simp
        then have "json_close j p = j\<lparr>js_curr := p, js_status := S_NEXT\<rparr>" by (simp add: json_close_def)
        then show ?thesis using run close jrep_up [OF w'(1) [unfolded fs]] wp s by (intro step_okI [of _ "j\<lparr>js_curr := p, js_status := S_NEXT\<rparr>" d1 ?fs]) auto
      qed
    next
      case other
      have "rank st' (sep_first (c # d1)) (jn_left pn \<noteq> 0) < rank (js_status j) (sep_first d) (jn_left n \<noteq> 0)"
        using s(4,5) st other(1,2) w'(2) by (auto simp: st'_def fs)
      then show ?thesis using run other up wp sh s(2) by (intro step_okI [of _ ?j "c # d1" ?fs]) auto
    qed
  qed
qed

lemma json_step_ok:
  assumes "jinv j fs" "d \<noteq> []"
  shows "step_ok j fs d (json_step j d)"
proof -
  obtain a n ks gs where fs: "fs = (a, n, ks) # gs" using assms(1) by (metis jinv_def shape.elims(2))
  note w = assms(1) [unfolded fs]
  show ?thesis unfolding fs
    by (cases "js_status j")
      (simp_all add: json_step_def step_root [OF w _ assms(2)] step_obj [OF w] step_member [OF w] step_array [OF w] step_element [OF w] step_pair [OF w]
        step_brother [OF w] step_tag [OF w] step_value [OF w] step_colon [OF w] step_string [OF w] step_strend [OF w])
qed

end
