(* ===== verification/Acl_JsonPieces.thy ===== *)
theory Acl_JsonPieces
  imports Acl_JsonParse
begin

text \<open>
  The loop of the parser ends without a fault on every text, and how a text is cut into pieces does not matter, but for one case:
  a cut behind a backslash that is the first byte of a text, in front of a space.
\<close>

section \<open>The loop\<close>

lemma loop_ok:
  assumes "jinv j fs" "jmeasure (js_status j) fs d \<le> k"
  obtains j' d' fs' where "json_loop k j d = Inr (j', d')" "jinv j' fs'" "js_part_word j' = js_part_word j" "d' = [] \<or> js_finish j'"
  using assms
proof (induction k arbitrary: j d fs thesis)
  case 0
  then have "d = []" by (simp add: jmeasure_def)
  then show ?case using 0 by auto
next
  case (Suc k)
  show ?case
  proof (cases "d = [] \<or> js_finish j")
    case True
    then show ?thesis using Suc.prems by auto
  next
    case False
    then have d: "d \<noteq> []" by blast
    then obtain j1 d1 fs1 where s: "json_step j d = Inr (j1, d1)" "jinv j1 fs1" "js_part_word j1 = js_part_word j"
      "js_finish j1 \<or> d1 = [] \<or> jmeasure (js_status j1) fs1 d1 < jmeasure (js_status j) fs d"
      using json_step_ok [OF Suc.prems(2) d] by (auto simp: step_ok_def)
    then have run: "json_loop (Suc k) j d = json_loop k j1 d1" using False by simp
    show ?thesis
    proof (cases "js_finish j1 \<or> d1 = []")
      case True
      then have "json_loop k j1 d1 = Inr (j1, d1)" by (cases k) auto
      then show ?thesis using Suc.prems(1) run s True by auto
    next
      case False
      then have "jmeasure (js_status j1) fs1 d1 \<le> k" using s(4) Suc.prems(3) by simp
      then show ?thesis using Suc.IH [OF _ s(2)] Suc.prems(1) run s(3) by metis
    qed
  qed
qed

lemma measure_bound: "jmeasure st fs d \<le> 12 * length d + 12"
  using rank_bound [of st "sep_first d" "jn_left (fst (snd (hd fs))) \<noteq> 0"] by (simp add: jmeasure_def)

lemma update_ok:
  assumes "jinv j fs"
  obtains j' d' fs' where "acl_json_update j d = Inr (j', d')" "jinv j' fs'" "js_part_word j' = js_part_word j" "d' = [] \<or> js_finish j'"
proof (cases "js_finish j")
  case True
  then show ?thesis using that assms by (simp add: acl_json_update_def)
next
  case False
  obtain j' d' fs' where "json_loop (12 * length d + 12) j d = Inr (j', d')" "jinv j' fs'" "js_part_word j' = js_part_word j" "d' = [] \<or> js_finish j'"
    by (rule loop_ok [OF assms measure_bound])
  then show ?thesis using that False by (simp add: acl_json_update_def)
qed

text \<open>Feeding pieces one after the other.\<close>

fun json_feed :: "json \<Rightarrow> byte list list \<Rightarrow> json cres" where
  "json_feed j [] = Inr j"
| "json_feed j (d # ds) = cbind (acl_json_update j d) (\<lambda>(j1, _). json_feed j1 ds)"

lemma feed_ok:
  assumes "jinv j fs"
  obtains j' fs' where "json_feed j ds = Inr j'" "jinv j' fs'"
  using assms
proof (induction ds arbitrary: j fs thesis)
  case (Cons d ds)
  obtain j1 d1 fs1 where s: "acl_json_update j d = Inr (j1, d1)" "jinv j1 fs1" by (rule update_ok [OF Cons.prems(2)])
  then show ?case using Cons.IH [OF _ s(2)] Cons.prems(1) by auto
qed auto

lemma jinv_new: "jinv (acl_json_alloc fw sp) [(0, jnode_new\<lparr>jn_left := 123, jn_right := 125\<rparr>, [])]"
proof -
  have "js_status (acl_json_alloc fw sp) = S_ROOT" by (simp add: acl_json_alloc_def Let_def acl_json_node_alloc_def)
  then show ?thesis using jrep_new by (simp add: jinv_def)
qed

section \<open>Cutting a text\<close>

text \<open>The state in which a cut matters.\<close>

definition escape_pending :: "json \<Rightarrow> bool" where
  "escape_pending j = (case js_nodes j (js_curr j) of None \<Rightarrow> False | Some n \<Rightarrow> js_status j = S_STRING \<and> jn_text n = [] \<and> jn_backslash n)"

definition cut_ok :: "json \<Rightarrow> byte list \<Rightarrow> bool" where
  "cut_ok j b \<longleftrightarrow> \<not> (escape_pending j \<and> b \<noteq> [] \<and> is_space (hd b))"

text \<open>A step on a text that is cut: the step on the first piece leaves the rest of it, or it takes all of it and the step on the
  second piece does what is left to do.\<close>

definition step_cuts :: "json \<Rightarrow> byte list \<Rightarrow> byte list \<Rightarrow> bool" where
  "step_cuts j a b \<longleftrightarrow> (\<forall>j1 a1. json_step j a = Inr (j1, a1) \<longrightarrow>
     json_step j (a @ b) = Inr (j1, a1 @ b) \<or>
     a1 = [] \<and> (cut_ok j1 b \<longrightarrow> js_finish j1 = js_finish j \<and> json_step j (a @ b) = json_step j1 b))"

lemma dropWhile_cut: "dropWhile P a = [] \<Longrightarrow> dropWhile P (a @ b) = dropWhile P b" "dropWhile P a = c # d \<Longrightarrow> dropWhile P (a @ b) = c # d @ b"
  by (induction a) (auto split: if_splits)

text \<open>Most steps skip some bytes and look at one more, which they may leave.\<close>

definition looks :: "json \<Rightarrow> (byte \<Rightarrow> bool) \<Rightarrow> (byte \<Rightarrow> (json \<times> byte list) cres) \<Rightarrow> bool" where
  "looks j P g \<longleftrightarrow> (\<forall>d. json_step j d = (case dropWhile P d of [] \<Rightarrow> Inr (j, []) | c # d1 \<Rightarrow> cbind (g c) (\<lambda>(j1, e). Inr (j1, e @ d1))))"

declare dropWhile_eq_Nil_conv [simp del]

lemma cuts_looks:
  assumes "looks j P g"
  shows "step_cuts j a b"
proof (cases "dropWhile P a")
  case Nil
  then have "json_step j a = Inr (j, [])" "json_step j (a @ b) = json_step j b" using assms dropWhile_cut(1) [OF Nil] by (simp_all add: looks_def)
  then show ?thesis by (simp add: step_cuts_def)
next
  case (Cons c d)
  then have "json_step j a = cbind (g c) (\<lambda>(j1, e). Inr (j1, e @ d))" "json_step j (a @ b) = cbind (g c) (\<lambda>(j1, e). Inr (j1, e @ d @ b))"
    using assms dropWhile_cut(2) [OF Cons] by (simp_all add: looks_def)
  then show ?thesis by (cases "g c") (auto simp: step_cuts_def)
qed

lemmas looks_defs = looks_def json_step_def skip_space_def

lemma looks_root: "js_status j = S_ROOT \<Longrightarrow> looks j (\<lambda>c. c \<noteq> 123 \<and> c \<noteq> 91)
  (\<lambda>c. let (l, r, st, ty) = (if c = 123 then (123, 125, S_MEMBER, T_OBJ) else (91, 93, S_ELEMENT, T_ARRAY))
    in cbind (jwrite j (Some (js_root j)) (\<lambda>n. n\<lparr>jn_left := l, jn_right := r, jn_type := ty\<rparr>)) (\<lambda>j1. Inr (j1\<lparr>js_status := st, js_curr := js_root j\<rparr>, [])))"
  by (simp add: looks_defs json_root_def Let_def cbind_assoc split: list.split prod.split)

lemma looks_obj: "js_status j = S_OBJ \<Longrightarrow> looks j is_space
  (\<lambda>c. cbind (json_child j (\<lambda>n. n\<lparr>jn_type := T_OBJ, jn_left := 123, jn_right := 125\<rparr>) True S_MEMBER) (\<lambda>j1. Inr (j1, [c])))"
  by (simp add: looks_defs json_obj_def Let_def cbind_assoc split: list.split)

lemma looks_array: "js_status j = S_ARRAY \<Longrightarrow> looks j is_space
  (\<lambda>c. cbind (json_child j (\<lambda>n. n\<lparr>jn_left := 91, jn_right := 93, jn_type := T_ARRAY\<rparr>) True S_ELEMENT) (\<lambda>j1. Inr (j1, [c])))"
  by (simp add: looks_defs json_array_def Let_def cbind_assoc split: list.split)

lemma looks_colon: "js_status j = S_COLON \<Longrightarrow> looks j is_space (\<lambda>c. Inr (if c \<noteq> 58 then j else j\<lparr>js_status := S_VALUE\<rparr>, []))"
  by (simp add: looks_defs json_colon_def split: list.split)

lemma looks_element: "js_status j = S_ELEMENT \<Longrightarrow> looks j is_space
  (\<lambda>c. if c = 123 then Inr (j\<lparr>js_status := S_OBJ\<rparr>, []) else if c = 91 then Inr (j\<lparr>js_status := S_ARRAY\<rparr>, [])
       else cbind (json_child j (\<lambda>n. n\<lparr>jn_type := T_ELEMENT\<rparr>) False S_VALUE) (\<lambda>j1. Inr (j1, [c])))"
  by (simp add: looks_defs json_element_def cbind_assoc split: list.split)

lemma looks_value: "js_status j = S_VALUE \<Longrightarrow> looks j is_space
  (\<lambda>c. let (st, e) = (if c = 123 then (S_OBJ, []) else if c = 91 then (S_ARRAY, []) else if c = 44 \<or> c = 59 then (S_NEXT, [])
         else if is_quote c then (S_STRING, []) else (S_STRING, [c]))
    in cbind (jwrite j (Some (js_curr j))
         (\<lambda>n. n\<lparr>jn_quote := (if c \<noteq> 123 \<and> c \<noteq> 91 \<and> c \<noteq> 44 \<and> c \<noteq> 59 \<and> is_quote c then c else jn_quote n), jn_type := T_LEAF\<rparr>)) (\<lambda>j1. Inr (j1\<lparr>js_status := st\<rparr>, e)))"
  by (auto simp: looks_defs json_value_def cbind_assoc Let_def split: list.split)

lemma looks_strend: "js_status j = S_STREND \<Longrightarrow> looks j is_space
  (\<lambda>c. cbind (jread j (Some (js_curr j))) (\<lambda>n.
       cbind (case jn_parent n of None \<Rightarrow> Inr False | Some p \<Rightarrow> cbind (jread j (Some p)) (\<lambda>pn. Inr (jn_type pn = T_ARRAY))) (\<lambda>in_array.
       cbind (jwrite j (Some (js_curr j)) (\<lambda>n. n\<lparr>jn_type := value_type in_array n\<rparr>)) (\<lambda>j1.
       if c = 44 \<or> c = 59 then Inr (j1\<lparr>js_status := S_NEXT\<rparr>, [c])
       else cbind (deref (jn_parent n)) (\<lambda>p. cbind (jread j1 (Some p)) (\<lambda>pn. if c \<noteq> jn_right pn then Inr (j1, []) else Inr (json_close j1 p, [])))))))"
  by (auto simp: looks_defs json_strend_def cbind_assoc split: list.split intro!: cbind_cong)

lemma looks_pair: "js_status j = S_PAIR \<Longrightarrow> acl_json_node_parent j (js_curr j) = Inr (Some p) \<Longrightarrow> looks j is_space
  (\<lambda>c. cbind (jread j (Some p)) (\<lambda>pn.
       if c = jn_right pn then Inr (json_close j p, []) else if c = 123 then Inr (j\<lparr>js_status := S_OBJ\<rparr>, [])
       else if c = 91 then Inr (j\<lparr>js_status := S_ARRAY\<rparr>, [])
       else cbind (jread j (Some (js_curr j))) (\<lambda>n.
            let (q, e) = (if is_quote c \<and> jn_quote n = 0 then (c, []) else (jn_quote n, [c]))
            in cbind (jwrite j (Some (js_curr j)) (\<lambda>n. n\<lparr>jn_quote := q, jn_type := T_PAIR\<rparr>)) (\<lambda>j1. Inr (j1\<lparr>js_status := S_TAG\<rparr>, e)))))"
  by (auto simp: looks_defs json_pair_def cbind_assoc Let_def split: list.split intro!: cbind_cong)

lemma looks_next: "js_status j = S_NEXT \<Longrightarrow> js_curr j \<noteq> js_root j \<Longrightarrow> acl_json_node_parent j (js_curr j) = Inr (Some p) \<Longrightarrow> looks j is_space
  (\<lambda>c. cbind (jread j (Some p)) (\<lambda>pn.
       let st = (if jn_left pn = 123 then S_MEMBER else if jn_left pn = 91 then S_ELEMENT else S_NEXT)
       in if c = 44 \<or> c = 59 then Inr (j\<lparr>js_status := st, js_curr := p\<rparr>, [])
          else if c = jn_right pn then Inr (json_close j p, []) else Inr (j\<lparr>js_status := st, js_curr := p\<rparr>, [c])))"
  by (auto simp: looks_defs json_brother_def cbind_assoc Let_def split: list.split intro!: cbind_cong)

text \<open>The two loops over the bytes of a word go on where they stopped.\<close>

lemma tag_loop_cut:
  "tag_loop flag n a = (n1, e, a1) \<Longrightarrow> tag_loop flag n (a @ b) = (if e = More then tag_loop flag n1 b else (n1, e, a1 @ b))"
proof (induction a arbitrary: n)
  case (Cons c a)
  obtain w x p where wc: "word_char flag (jn_quote n \<noteq> 0) (jn_backslash n) (jn_part_word n) c = (w, x, p)" by (metis prod_cases3)
  let ?quoted = "jn_quote n \<noteq> 0 \<and> \<not> jn_backslash n \<and> c \<noteq> 92 \<and> c = jn_quote n"
  let ?plain = "jn_quote n = 0 \<and> \<not> jn_backslash n \<and> c \<noteq> 92 \<and> (is_space c \<or> c = 58)"
  show ?case
  proof (cases "?quoted \<or> ?plain")
    case True
    then show ?thesis using Cons.prems by (elim disjE) (simp_all, auto)
  next
    case False
    then have no: "?quoted = False" "?plain = False" by blast+
    have "tag_loop flag (n\<lparr>jn_ltag := jn_ltag n @ w, jn_backslash := x, jn_part_word := p\<rparr>) a = (n1, e, a1)"
      using Cons.prems wc by (simp only: tag_loop.simps no if_False Let_def prod.case)
    from Cons.IH [OF this] show ?thesis using wc by (simp only: tag_loop.simps append_Cons no if_False Let_def prod.case)
  qed
qed auto

lemma text_loop_cut:
  "text_loop flag n a = (n1, e, a1) \<Longrightarrow> text_loop flag n (a @ b) = (if e = More then text_loop flag n1 b else (n1, e, a1 @ b))"
proof (induction a arbitrary: n)
  case (Cons c a)
  obtain w x p where wc: "word_char flag (jn_quote n \<noteq> 0) (jn_backslash n) (jn_part_word n) c = (w, x, p)" by (metis prod_cases3)
  let ?quoted = "jn_quote n \<noteq> 0 \<and> \<not> jn_backslash n \<and> c \<noteq> 92 \<and> c = jn_quote n"
  let ?plain = "jn_quote n = 0 \<and> \<not> jn_backslash n \<and> c \<noteq> 92 \<and> text_ends c"
  show ?case
  proof (cases "?quoted \<or> ?plain")
    case True
    then show ?thesis using Cons.prems by (elim disjE) (simp_all, auto)
  next
    case False
    then have no: "?quoted = False" "?plain = False" by blast+
    have "text_loop flag (n\<lparr>jn_text := jn_text n @ w, jn_backslash := x, jn_part_word := p\<rparr>) a = (n1, e, a1)"
      using Cons.prems wc by (simp only: text_loop.simps no if_False Let_def prod.case)
    from Cons.IH [OF this] show ?thesis using wc by (simp only: text_loop.simps append_Cons no if_False Let_def prod.case)
  qed
qed auto

lemma text_loop_empty:
  "text_loop flag n a = (n1, More, a1) \<Longrightarrow> a \<noteq> [] \<Longrightarrow> jn_text n1 = [] \<Longrightarrow> jn_backslash n1"
proof (induction a arbitrary: n)
  case (Cons c a)
  obtain w x p where wc: "word_char flag (jn_quote n \<noteq> 0) (jn_backslash n) (jn_part_word n) c = (w, x, p)" by (metis prod_cases3)
  have grow: "jn_text n1 \<noteq> []" if "text_loop flag n a = (n1, More, a1)" "jn_text n \<noteq> []" for n a
    using that
  proof (induction a arbitrary: n)
    case (Cons c a)
    obtain w x p where "word_char flag (jn_quote n \<noteq> 0) (jn_backslash n) (jn_part_word n) c = (w, x, p)" by (metis prod_cases3)
    then show ?case using Cons.prems Cons.IH [of "n\<lparr>jn_text := jn_text n @ w, jn_backslash := x, jn_part_word := p\<rparr>"] by (auto split: if_splits)
  qed auto
  let ?n = "n\<lparr>jn_text := jn_text n @ w, jn_backslash := x, jn_part_word := p\<rparr>"
  have run: "text_loop flag ?n a = (n1, More, a1)" using Cons.prems(1) wc by (auto split: if_splits)
  then have t: "jn_text n @ w = []" using grow [of ?n a] Cons.prems(3) by auto
  show ?case
  proof (cases "a = []")
    case True
    then have "n1 = ?n" using run by simp
    moreover have "x" using wc t by (auto simp: word_char_def split: if_splits)
    ultimately show ?thesis by simp
  next
    case False
    then show ?thesis using Cons.IH [OF run] Cons.prems(3) by blast
  qed
qed simp

lemma jwrite_const: "js_nodes j (js_curr j) \<noteq> None \<Longrightarrow> jwrite j (Some (js_curr j)) (\<lambda>_. n) = Inr (j\<lparr>js_nodes := (js_nodes j)(js_curr j \<mapsto> n)\<rparr>)"
  by (auto simp: jwrite_def)

lemma jread_curr: "jread j (Some (js_curr j)) = Inr n \<longleftrightarrow> js_nodes j (js_curr j) = Some n"
  by (auto simp: jread_def split: option.splits)

lemma cuts_member: "js_status j = S_MEMBER \<Longrightarrow> step_cuts j a b"
  by (auto simp: step_cuts_def json_step_def json_member_def cbind_Inr_iff)

lemma cuts_tag:
  assumes st: "js_status j = S_TAG" and n: "js_nodes j (js_curr j) = Some n"
  shows "step_cuts j a b"
proof -
  obtain n1 e a1 where l: "tag_loop (js_part_word j) n a = (n1, e, a1)" by (metis prod_cases3)
  let ?j = "j\<lparr>js_nodes := (js_nodes j)(js_curr j \<mapsto> n1)\<rparr>"
  show ?thesis
  proof (cases "e = More")
    case False
    then show ?thesis using l st n tag_loop_cut [OF l, of b] jwrite_const [of j]
      by (auto simp: step_cuts_def json_step_def json_tag_def jread_curr cbind_Inr_iff split: word_end.splits option.splits)
  next
    case True
    obtain n2 e2 b2 where l2: "tag_loop (js_part_word j) n1 b = (n2, e2, b2)" by (metis prod_cases3)
    have ab: "tag_loop (js_part_word j) n (a @ b) = (n2, e2, b2)" using tag_loop_cut [OF l] True l2 by simp
    have a1: "a1 = []" using tag_loop_keeps [OF l] True by simp
    have "json_step j a = Inr (?j, [])" using l st n True a1 jwrite_const [of j n1] by (simp add: json_step_def json_tag_def jread_curr [THEN iffD2])
    moreover have "jread ?j (Some (js_curr j)) = Inr n1" by (simp add: jread_def)
    then have "json_step j (a @ b) = json_step ?j b"
      using l2 ab st n jwrite_const [of j n2] jwrite_const [of ?j n2] by (simp add: json_step_def json_tag_def jread_curr [THEN iffD2])
    ultimately show ?thesis by (simp add: step_cuts_def)
  qed
qed

lemma cuts_string:
  assumes st: "js_status j = S_STRING" and n: "js_nodes j (js_curr j) = Some n"
  shows "step_cuts j a b"
proof -
  define a' where "a' = (if jn_text n = [] then skip_space a else a)"
  show ?thesis
  proof (cases "jn_text n = [] \<and> a' = []")
    case True
    then have "skip_space (a @ b) = skip_space b" "skip_space a = []" using dropWhile_cut(1) [of is_space a b] by (auto simp: a'_def skip_space_def)
    then have "json_step j (a @ b) = json_step j b" "json_step j a = Inr (j, [])" using True st n by (simp_all add: json_step_def json_string_def jread_curr [THEN iffD2])
    then show ?thesis by (simp add: step_cuts_def)
  next
    case False
    obtain n1 e a1 where l: "text_loop (js_part_word j) n a' = (n1, e, a1)" by (metis prod_cases3)
    let ?j = "j\<lparr>js_nodes := (js_nodes j)(js_curr j \<mapsto> n1)\<rparr>"
    have skip: "(if jn_text n = [] then skip_space (a @ b) else a @ b) = a' @ b"
    proof (cases "jn_text n = []")
      case True
      then obtain c d where "skip_space a = c # d" using False by (cases "skip_space a") (auto simp: a'_def)
      then show ?thesis using True dropWhile_cut(2) [of is_space a c d b] by (simp add: a'_def skip_space_def)
    qed (simp add: a'_def)
    note False' = False
    have go: "\<not> (jn_text n = [] \<and> a' @ b = [])" using False by blast
    have runa: "json_step j a = cbind (jwrite j (Some (js_curr j)) (\<lambda>_. n1)) (\<lambda>j1. Inr (if e = More then j1 else j1\<lparr>js_status := S_STREND\<rparr>, a1))"
      using st n l False unfolding json_step_def json_string_def by (simp add: jread_curr [THEN iffD2] flip: a'_def) (simp add: a'_def)
    have runab: "json_step j (a @ b) = (case text_loop (js_part_word j) n (a' @ b) of (n2, e2, d2) \<Rightarrow>
        cbind (jwrite j (Some (js_curr j)) (\<lambda>_. n2)) (\<lambda>j1. Inr (if e2 = More then j1 else j1\<lparr>js_status := S_STREND\<rparr>, d2)))"
      using st n go unfolding json_step_def json_string_def by (simp add: jread_curr [THEN iffD2] skip) auto
    show ?thesis
    proof (cases "e = More")
      case False
      then show ?thesis using runa runab text_loop_cut [OF l, of b] jwrite_const [of j n1] n by (simp add: step_cuts_def)
    next
      case True
      obtain n2 e2 b2 where l2: "text_loop (js_part_word j) n1 b = (n2, e2, b2)" by (metis prod_cases3)
      have a1: "a1 = []" using text_loop_keeps [OF l] True by simp
      have ra: "json_step j a = Inr (?j, [])" using runa True a1 jwrite_const [of j n1] n by simp
      have rab: "json_step j (a @ b) = Inr (if e2 = More then j\<lparr>js_nodes := (js_nodes j)(js_curr j \<mapsto> n2)\<rparr>
          else j\<lparr>js_nodes := (js_nodes j)(js_curr j \<mapsto> n2), js_status := S_STREND\<rparr>, b2)"
        using runab text_loop_cut [OF l, of b] True l2 jwrite_const [of j n2] n by simp
      have "json_step j (a @ b) = json_step ?j b" if c: "cut_ok ?j b" and b: "b \<noteq> []"
      proof -
        have esc: "jn_backslash n1" if "jn_text n1 = []"
        proof (cases "a' = []")
          case True
          then show ?thesis using l that False' by simp
        next
          case False
          then show ?thesis using text_loop_empty [of "js_part_word j" n a' n1 a1] l True that by simp
        qed
        have "\<not> is_space (hd b)" if "jn_text n1 = []" using c b esc [OF that] that st by (auto simp: cut_ok_def escape_pending_def)
        then have "(if jn_text n1 = [] then skip_space b else b) = b" using b by (cases b) (auto simp: skip_space_def)
        moreover have "jread ?j (Some (js_curr j)) = Inr n1" by (simp add: jread_def)
        ultimately show ?thesis using b rab l2 st jwrite_const [of ?j n2] by (simp add: json_step_def json_string_def)
      qed
      then show ?thesis using ra by (cases "b = []") (simp_all add: step_cuts_def)
    qed
  qed
qed

text \<open>Every step.\<close>

lemma json_step_cuts:
  assumes w: "jinv j fs"
  shows "step_cuts j a b"
proof -
  obtain c n ks gs where fs: "fs = (c, n, ks) # gs" using w by (metis jinv_def shape.elims(2))
  have r: "jrep j ((c, n, ks) # gs)" and sh: "shape (js_status j) ((c, n, ks) # gs)" using w fs by (auto simp: jinv_def)
  have n: "js_nodes j (js_curr j) = Some n" using jrep_curr(1,2) [OF r] by simp
  show ?thesis
  proof (cases "js_status j")
    case S_ROOT
    then show ?thesis by (rule looks_root [THEN cuts_looks])
  next
    case S_OBJ
    then show ?thesis by (rule looks_obj [THEN cuts_looks])
  next
    case S_MEMBER
    then show ?thesis by (rule cuts_member)
  next
    case S_ARRAY
    then show ?thesis by (rule looks_array [THEN cuts_looks])
  next
    case S_ELEMENT
    then show ?thesis by (rule looks_element [THEN cuts_looks])
  next
    case S_PAIR
    then have "jn_left n = 0" using sh by simp
    then obtain p where "jn_parent n = Some p" using parent_exists [OF w [unfolded fs]] by metis
    then show ?thesis using looks_pair [OF S_PAIR, THEN cuts_looks] jrep_curr(4) [OF r] by simp
  next
    case S_NEXT
    show ?thesis
    proof (cases "js_curr j = js_root j")
      case True
      then show ?thesis using S_NEXT by (simp add: step_cuts_def json_step_def json_brother_def)
    next
      case False
      then obtain p where "jn_parent n = Some p" using jrep_curr(1,5,6) [OF r] by auto
      then show ?thesis using looks_next [OF S_NEXT False, THEN cuts_looks] jrep_curr(4) [OF r] by simp
    qed
  next
    case S_TAG
    then show ?thesis using cuts_tag n by blast
  next
    case S_VALUE
    then show ?thesis by (rule looks_value [THEN cuts_looks])
  next
    case S_COLON
    then show ?thesis by (rule looks_colon [THEN cuts_looks])
  next
    case S_STRING
    then show ?thesis using cuts_string n by blast
  next
    case S_STREND
    then show ?thesis by (rule looks_strend [THEN cuts_looks])
  qed
qed

section \<open>Pieces\<close>

lemma loop_nil [simp]: "json_loop k j [] = Inr (j, [])"
  by (cases k) auto

lemma loop_more: "json_loop k j d = Inr r \<Longrightarrow> json_loop (k + m) j d = Inr r"
proof (induction k arbitrary: j d)
  case 0
  then show ?case by (cases m) (auto split: if_splits)
next
  case (Suc k)
  show ?case
  proof (cases "d = [] \<or> js_finish j")
    case False
    then obtain j1 d1 where "json_step j d = Inr (j1, d1)" "json_loop k j1 d1 = Inr r" using Suc.prems by (auto simp: cbind_Inr_iff)
    then show ?thesis using Suc.IH False by simp
  qed (use Suc.prems in auto)
qed

lemma loop_unique:
  assumes "json_loop k j d = Inr r" "json_loop m j d = Inr r'"
  shows "r = r'"
  using loop_more [OF assms(1), of m] loop_more [OF assms(2), of k] by (simp add: add.commute)

text \<open>After the first piece the loop goes on with the second, unless the document is complete.\<close>

lemma loop_pieces:
  assumes "jinv j fs" "json_loop k j a = Inr (j1, a1)" "\<not> js_finish j" "cut_ok j1 b" "json_loop m j1 b = Inr r" "a \<noteq> []"
  shows "\<exists>k'. json_loop k' j (a @ b) = (if js_finish j1 then Inr (j1, a1 @ b) else Inr r)"
  using assms
proof (induction k arbitrary: j a fs)
  case (Suc k)
  obtain j2 a2 where s: "json_step j a = Inr (j2, a2)" "json_loop k j2 a2 = Inr (j1, a1)" using Suc.prems by (auto simp: cbind_Inr_iff)
  obtain fs2 where fs2: "jinv j2 fs2" using json_step_ok [OF Suc.prems(1,6)] s(1) by (auto simp: step_ok_def)
  have cut: "step_cuts j a b" by (rule json_step_cuts [OF Suc.prems(1)])
  have first: "json_loop (Suc k') j (a @ b) = cbind (json_step j (a @ b)) (\<lambda>(j1, d). json_loop k' j1 d)" for k' using Suc.prems(3,6) by simp
  show ?case
  proof (cases "a2 = [] \<or> js_finish j2")
    case True
    then have e: "j1 = j2" "a1 = a2" using s(2) by (cases k; auto)+
    consider "json_step j (a @ b) = Inr (j2, a2 @ b)" | "a2 = []" "\<not> js_finish j2" "json_step j (a @ b) = json_step j2 b" using cut s(1) Suc.prems(3,4) e by (auto simp: step_cuts_def)
    then show ?thesis
    proof cases
      case 1
      show ?thesis
      proof (cases "js_finish j2")
        case True
        then have "json_loop (Suc 0) j (a @ b) = Inr (j2, a2 @ b)" using first 1 by simp
        then show ?thesis using True e by metis
      next
        case False
        then have "json_loop (Suc m) j (a @ b) = Inr r" using first 1 e \<open>a2 = [] \<or> js_finish j2\<close> Suc.prems(5) by simp
        then show ?thesis using False e by metis
      qed
    next
      case 2
      show ?thesis
      proof (cases "b = []")
        case True
        then have "r = (j2, [])" using Suc.prems(5) e by (cases m) auto
        then show ?thesis using Suc.prems(2) True e 2(1) by (auto intro: exI [of _ "Suc k"])
      next
        case False
        then obtain m' where m': "m = Suc m'" using Suc.prems(5) 2(2) e by (cases m) auto
        then have "json_loop m j (a @ b) = Inr r" using first [of m'] 2 False Suc.prems(5) e by simp
        then show ?thesis using 2(2) e by auto
      qed
    qed
  next
    case False
    then have "json_step j (a @ b) = Inr (j2, a2 @ b)" using cut s(1) by (auto simp: step_cuts_def)
    moreover obtain k' where "json_loop k' j2 (a2 @ b) = (if js_finish j1 then Inr (j1, a1 @ b) else Inr r)"
      using Suc.IH [OF fs2 s(2) _ Suc.prems(4,5)] False by blast
    ultimately have "json_loop (Suc k') j (a @ b) = (if js_finish j1 then Inr (j1, a1 @ b) else Inr r)" using first by simp
    then show ?thesis by blast
  qed
qed auto

lemma update_pieces:
  assumes w: "jinv j fs" and a: "acl_json_update j a = Inr (j1, a1)" and c: "cut_ok j1 b"
  shows "acl_json_update j (a @ b) = (if js_finish j1 then Inr (j1, a1 @ b) else acl_json_update j1 b)"
proof (cases "js_finish j \<or> a = []")
  case True
  then show ?thesis using a by (cases "js_finish j") (auto simp: acl_json_update_def)
next
  case False
  have ra: "json_loop (12 * length a + 12) j a = Inr (j1, a1)" using a False by (simp add: acl_json_update_def)
  obtain fs1 where w1: "jinv j1 fs1" by (rule loop_ok [OF w measure_bound, of a]) (use ra in auto)
  obtain r where rb: "json_loop (12 * length b + 12) j1 b = Inr r" by (rule loop_ok [OF w1 measure_bound, of b]) auto
  obtain r' where rab: "json_loop (12 * length (a @ b) + 12) j (a @ b) = Inr r'" by (rule loop_ok [OF w measure_bound, of "a @ b"]) auto
  obtain k where "json_loop k j (a @ b) = (if js_finish j1 then Inr (j1, a1 @ b) else Inr r)"
    using loop_pieces [OF w ra _ c rb] False by blast
  then have "r' = (if js_finish j1 then (j1, a1 @ b) else r)" using loop_unique [OF rab] by (auto split: if_splits)
  then show ?thesis using rab rb False by (simp add: acl_json_update_def)
qed

text \<open>All cuts of a list of pieces.\<close>

fun cuts_ok :: "json \<Rightarrow> byte list list \<Rightarrow> bool" where
  "cuts_ok j [] = True"
| "cuts_ok j (d # ds) = (case acl_json_update j d of Inl _ \<Rightarrow> False | Inr (j1, _) \<Rightarrow> cut_ok j1 (concat ds) \<and> cuts_ok j1 ds)"

lemma feed_pieces: "jinv j fs \<Longrightarrow> cuts_ok j ds \<Longrightarrow> json_feed j ds = json_feed j [concat ds]"
proof (induction ds arbitrary: j fs)
  case Nil
  then show ?case by (simp add: acl_json_update_def)
next
  case (Cons d ds)
  obtain j1 d1 fs1 where u: "acl_json_update j d = Inr (j1, d1)" "jinv j1 fs1" by (rule update_ok [OF Cons.prems(1)])
  have c: "cut_ok j1 (concat ds)" "cuts_ok j1 ds" using Cons.prems(2) u(1) by simp_all
  have "json_feed j (d # ds) = json_feed j1 [concat ds]" using Cons.IH [OF u(2) c(2)] u(1) by simp
  moreover have "js_finish j1 \<Longrightarrow> acl_json_update j1 (concat ds) = Inr (j1, concat ds)" by (simp add: acl_json_update_def)
  ultimately show ?case using update_pieces [OF Cons.prems(1) u(1) c(1)] by auto
qed

text \<open>Spaces in front of a text that has not begun.\<close>

lemma update_spaces:
  assumes w: "jinv j fs" and n: "js_status j = S_STRING" "js_nodes j (js_curr j) = Some n" "jn_text n = []" "\<not> jn_backslash n" "\<not> js_finish j"
    and sp: "list_all is_space sp"
  shows "acl_json_update j (sp @ d) = acl_json_update j d"
proof (cases "sp = []")
  case False
  have "skip_space sp = []" using sp by (auto simp: skip_space_def list_all_iff dropWhile_eq_Nil_conv)
  then have "json_step j sp = Inr (j, [])" using n by (simp add: json_step_def json_string_def jread_curr [THEN iffD2])
  then have "json_loop (Suc k) j sp = Inr (j, [])" for k using False n(5) by simp
  from this [of "12 * length sp + 11"] have "acl_json_update j sp = Inr (j, [])" using n(5) by (simp add: acl_json_update_def add.commute)
  moreover have "cut_ok j d" using n by (simp add: cut_ok_def escape_pending_def)
  ultimately show ?thesis using update_pieces [OF w] n(5) by simp
qed simp

end
