(* ===== verification/Acl_JsonProps.thy ===== *)
theory Acl_JsonProps
  imports Acl_JsonPieces
begin

text \<open>The properties of the JSON parser.\<close>

text \<open>C36: The parser, fed any pieces of text one after the other from a new document on, never reads or writes outside its nodes, never
  stops on a failed assertion and always returns: the twelve steps for each byte that the loop is given are enough. The document is then
  again a tree in the store, linked by its rings, that agrees with the status of the parser.\<close>

theorem json_parser_total:
  "\<exists>j fs. json_feed (acl_json_alloc part_word add_space) pieces = Inr j \<and> jinv j fs"
  by (rule feed_ok [OF jinv_new]) blast

text \<open>C37: How a text is cut into pieces does not matter: the document is the same as when all of it is given at once, if no cut is
  behind a backslash that is the first byte of a text and in front of a space.\<close>

theorem json_pieces_do_not_matter:
  assumes "cuts_ok (acl_json_alloc part_word add_space) pieces"
  shows "json_feed (acl_json_alloc part_word add_space) pieces = json_feed (acl_json_alloc part_word add_space) [concat pieces]"
  by (rule feed_pieces [OF jinv_new assms])

theorem json_pieces_do_not_matter_witness:
  "json_feed (acl_json_alloc False False) [bytes_of ''{'', bytes_of '' \"a'', bytes_of ''b\":1'', bytes_of ''}''] = json_feed (acl_json_alloc False False) [bytes_of ''{ \"ab\":1}'']"
proof -
  have "cuts_ok (acl_json_alloc False False) [bytes_of ''{'', bytes_of '' \"a'', bytes_of ''b\":1'', bytes_of ''}'']" by code_simp
  from json_pieces_do_not_matter [OF this] show ?thesis by (simp add: bytes_of_def)
qed

text \<open>The cut that does matter: the space behind the backslash is lost.\<close>

definition node_text :: "json cres \<Rightarrow> addr \<Rightarrow> byte list cres" where
  "node_text r a = cbind r (\<lambda>j. cbind (jread j (Some a)) (\<lambda>n. Inr (jn_text n)))"

theorem json_cut_matters:
  "node_text (json_feed (acl_json_alloc False False) [bytes_of ''{\"a\":\"'' @ [92], bytes_of '' x\"}'']) 1 = Inr (bytes_of ''x'') \<and>
   node_text (json_feed (acl_json_alloc False False) [bytes_of ''{\"a\":\"'' @ [92] @ bytes_of '' x\"}'']) 1 = Inr (bytes_of '' x'')"
  by code_simp

text \<open>C38: Spaces at the start of a string are not kept, although they are inside its quotes: wherever a string begins, any
  number of them makes no difference to the document.\<close>

theorem json_drops_leading_spaces:
  assumes "json_feed (acl_json_alloc part_word add_space) pieces = Inr j"
    and "js_status j = S_STRING" "js_nodes j (js_curr j) = Some n" "jn_text n = []" "\<not> jn_backslash n" "\<not> js_finish j"
    and "list_all is_space spaces"
  shows "acl_json_update j (spaces @ d) = acl_json_update j d"
proof -
  obtain fs where "jinv j fs" by (rule feed_ok [OF jinv_new, of part_word add_space pieces]) (use assms(1) in auto)
  then show ?thesis using update_spaces assms(2-7) by blast
qed

theorem json_drops_leading_spaces_witness:
  "json_feed (acl_json_alloc False False) [bytes_of ''{\"a\":\"'', bytes_of ''  x\"}''] = json_feed (acl_json_alloc False False) [bytes_of ''{\"a\":\"'', bytes_of ''x\"}'']"
proof -
  obtain j where j: "json_feed (acl_json_alloc False False) [bytes_of ''{\"a\":\"''] = Inr j" by (rule feed_ok [OF jinv_new]) 
  have st: "map_sum id (\<lambda>j. (js_status j, js_finish j, map_option (\<lambda>n. (jn_text n, jn_backslash n)) (js_nodes j (js_curr j))))
      (json_feed (acl_json_alloc False False) [bytes_of ''{\"a\":\"'']) = Inr (S_STRING, False, Some ([], False))"
    by code_simp
  then obtain n where n: "js_status j = S_STRING" "\<not> js_finish j" "js_nodes j (js_curr j) = Some n" "jn_text n = []" "\<not> jn_backslash n"
    unfolding j by auto
  have "acl_json_update j ([32, 32] @ bytes_of ''x\"}'') = acl_json_update j (bytes_of ''x\"}'')"
    by (rule json_drops_leading_spaces [OF j n(1,3,4,5,2)]) (simp add: is_space_def)
  moreover have "[32, 32] @ bytes_of ''x\"}'' = bytes_of ''  x\"}''" by (simp add: bytes_of_def)
  ultimately show ?thesis using j by (auto simp: cbind_Inr_iff)
qed

end
