(* ===== verification/Spec2Isabelle.thy ===== *)
theory Spec2Isabelle
  imports Acl_FiberProps Acl_ChannelProps Acl_Base64 Acl_Urlcode Acl_Xmlcode Acl_Fifo Acl_Dlink Acl_CachesAgree Acl_JsonProps
begin

text \<open>
  A verification development for the C core of this server: the ACL library under
  \<open>src/base/acl\<close>, which every service of the repository is linked with. Paths below are
  relative to it.

  \<^bold>\<open>The program.\<close> The services (message, group, push, login, web-socket gateway, data access)
  are C++ processes; they run on the ACL library, which is written in C. Its
  \<open>lib_fiber\<close> schedules fibers within a thread and gives them locks,
  semaphores and channels; \<open>lib_acl\<close> holds the containers and the codes that the fibers, the event engine,
  the stream layer and the C++ wrappers are built from. The development models these two layers.
  A fiber is queued by its intrusive ring node; locks and semaphores keep waiting fibers in rings
  of their own; the XML decoder scans with a token tree; a list of ranges keeps its nodes in a growing array;
  one cache finds its entries by a hash table and orders them by a ring, another orders them by a balanced tree of expiry times;
  the JSON parser is a state machine that is fed pieces of text and hangs its nodes into rings.

  \<^bold>\<open>How a C function becomes a definition.\<close> A C function is an HOL function of the same name. What it
  changes is an explicit argument and result. A pointer is \<open>ptr\<close>, an address or NULL. Structures that
  are linked or shared live in a store, a function from addresses, and each assignment through a pointer is
  an update of the store, so aliasing and use after release are part of the model. A function whose
  execution can be undefined returns \<open>'a cres\<close>: \<open>Inl\<close> of a fault (a NULL pointer
  followed, a read or write outside a block or of a released node), or \<open>Inr\<close> of its
  result. A theorem that an operation returns \<open>Inr\<close> therefore says that it
  does not fault. Bytes and the words that codes shift are \<open>word\<close>s of their width; sizes and counts are integers without bounds, and the
  theory that does so says it. For sizes of containers an overflow would need more memory than there is. The counts of calls (permits of
  a semaphore, readers of a lock, references to an entry of a cache) overflow without that: the results on them hold as long as
  fewer than \<open>2\<^bsup>31\<^esup>\<close> are outstanding at once. The time is an argument; a function that calls \<open>time\<close> twice gets one value for both.
  What a callback is called on is a list in the result. Memory pools and the heap are treated alike, and allocation succeeds.

  \<^bold>\<open>Theories.\<close>
  \<^item> \<open>Acl_Prelude\<close>: C types, faults, checked buffers, lemmas on lists and words.
  \<^item> \<open>Acl_Interfaces\<close>: the locales. \<open>node_queues\<close> (queues of intrusive nodes in a shared store), \<open>codec\<close> and
    \<open>nested_codec\<close> (a decoder that undoes an encoder), \<open>key_table\<close> (insert and look up), \<open>obj_seq\<close> and
    \<open>obj_deque\<close> (containers with two ends), \<open>range_set\<close> (sets of integers given by ranges), \<open>dict_table\<close>
    (dictionaries that keep the first value of a key). Each is interpreted on the model below, and the
    properties rest on the interpretations.
  \<^item> \<open>Acl_Ring\<close>: \<open>lib_acl/src/stdlib/common/acl_ring.c\<close>. \<open>is_ring h r xs\<close> says what a ring holds; each operation is
    shown to do to the list what its name says and to leave disjoint rings alone.
  \<^item> \<open>Acl_Fiber\<close>, \<open>Acl_FiberSync\<close>, \<open>Acl_FiberProps\<close>: \<open>lib_fiber/c/src/fiber.c\<close>, \<open>fiber_lock.c\<close>, \<open>fiber_sem.c\<close>. A function that calls
    \<open>acl_fiber_switch\<close> is split there: its first half ends in the switch, its
    resume half is what the fiber does when it runs again. \<open>sync_step\<close> is one step of the running fiber, whichever
    fiber that is, so a path of steps is an interleaving of all fibers. Its steps are lock, trylock and unlock of mutexes, wait, trywait and
    post of semaphores, yield, signal and kill of any fiber that has not ended, create, the end of a fiber, and the turns of the scheduler. The
    invariants are proved by rule induction over it: mutual exclusion, hand-over of a mutex, conservation of permits, no fault, with what
    becomes of a fiber that is killed while it waits. The reader-writer lock refines the set of its holders as long as no fiber has to
    wait for it; when a reader waits, the writer's unlock does not return.
  \<^item> \<open>Acl_Channel\<close>, \<open>Acl_ChannelProps\<close>: \<open>lib_fiber/c/src/channel.c\<close>. The buffer as a queue, the transfer between two
    fibers, and \<open>chan_step\<close>, the steps of any number of fibers on any number of channels: elements arrive in
    order, fibers wait only when they have to, and nothing faults. The steps include signals to fibers that do not wait in a channel; a signal or
    kill of one that waits there is left out, because it leaves a dead frame in the channel (\<open>channel_killed_waiter_stays\<close>). Fibers send and receive with
    variables of their own that are large enough, or send NULL.
  \<^item> \<open>Acl_Base64\<close>, \<open>Acl_Urlcode\<close>, \<open>Acl_TokenTree\<close>, \<open>Acl_Xmlcode\<close>: \<open>lib_acl/src/code/*.c\<close>, \<open>stdlib/string/acl_hex_code.c\<close>,
    \<open>stdlib/common/acl_token_tree.c\<close>. Round trips (for UTF-8 against a strict decoder), agreement of the variants, and the bounds of the buffers.
  \<^item> \<open>Acl_Array\<close>, \<open>Acl_Chain\<close>, \<open>Acl_Fifo\<close>, \<open>Acl_Dlink\<close>: \<open>acl_array.c\<close>, \<open>acl_stack.c\<close>, \<open>acl_fifo.c\<close>, \<open>acl_dlink.c\<close> of
    \<open>lib_acl/src/stdlib/common\<close>. The first three refine lists, under any sequence of calls (the array drops what is pushed at
    its front while it is empty); the last refines sets of
    64-bit integers. \<open>Acl_Chain\<close> has the doubly linked lists that the queue and the hash table share.
  \<^item> \<open>Acl_Htable\<close>, \<open>Acl_HtableMap\<close>: \<open>acl_htable.c\<close>. The chains, growing and moving to the front in the first;
    the refinement of a map and the walks over all entries in the second.
  \<^item> \<open>Acl_TimedCache\<close>, \<open>Acl_Cache\<close>: \<open>acl_cache.c\<close>. The first says what a cache is, as a list of entries with times and use counts, and
    is the interface (locale \<open>timed_cache\<close>) whose laws the second discharges for the code, over the models of the hash table and
    of the ring: the cache refines the list, stays within its bound, loses no value, and expires what it should as long
    as no entry's time is changed.
  \<^item> \<open>Acl_Avl\<close>: \<open>avl.c\<close> and \<open>avl_impl.h\<close>, balanced trees whose nodes are embedded in the user's structures. \<open>Acl_AvlPcb\<close> has the packed word
    of 64-bit machines. \<open>Acl_AvlTree\<close> has the trees without a store: rotations and the two ways up that restore the balance.
    \<open>Acl_AvlHeap\<close> relates them to the store (\<open>is_tree\<close>, and \<open>is_ctx\<close> for the nodes above a place); \<open>Acl_AvlRot\<close>, \<open>Acl_AvlOps\<close>,
    \<open>Acl_AvlSwap\<close>, \<open>Acl_AvlRemove\<close>, \<open>Acl_AvlSearch\<close> and \<open>Acl_AvlDestroy\<close> show it operation by operation. \<open>Acl_AvlFind\<close> has the view of the user
    (\<open>avl_rep\<close>: the nodes in order) and the locale \<open>comparator\<close> of what the tree needs of \<open>compar\<close>; \<open>Acl_AvlProps\<close> has the properties: order and
    balance are kept, searches are logarithmic after any additions and removals, walks go in order, and destroying visits every node once.
  \<^item> \<open>Acl_Cache2\<close>: \<open>acl_cache2.c\<close>, over the models of the hash table and of the balanced tree. \<open>Acl_Cache2Spec\<close> says what it is, a list of entries
    in the order of their times, and has the interface (locale \<open>entry_store\<close>); \<open>Acl_Cache2Queue\<close> has the tree with its lists (\<open>wft\<close>),
    \<open>Acl_Cache2Wf\<close> the invariant \<open>wf2\<close> of the cache, \<open>Acl_Cache2Ops\<close> the loops, \<open>Acl_Cache2Put\<close> entering and updating, \<open>Acl_Cache2Refine\<close> the
    interpretation of the interface, \<open>Acl_Cache2Walk\<close> walks, iterators and release, \<open>Acl_Cache2Props\<close> the properties: the cache refines the
    list, loses no value, and its expiry scan is exact. \<open>Acl_CachesAgree\<close> says when it does the same as \<open>acl_cache.c\<close>.
  \<^item> \<open>Acl_Json\<close>: \<open>lib_acl/src/json/acl_json.c\<close> and \<open>acl_json_parse.c\<close>, the nodes and the states of the parser. \<open>Acl_JsonRep\<close> has the document as
    a tree in the store, seen from the node the parser is at; \<open>Acl_JsonParse\<close> the invariant of the states and the measure that falls with every step;
    \<open>Acl_JsonPieces\<close> the loop, and why the cutting of the text does not matter; \<open>Acl_JsonProps\<close> the properties.
  \<^item> This theory: what spans components.

  \<^bold>\<open>Loops.\<close> A loop over data is recursion on the data. A loop along links gets as many steps as there are linked nodes (the
  count the structure keeps, or the length of the list it holds) and ends in the fault \<open>OutOfFuel\<close> when that is not enough;
  the theorems prove the result \<open>Inr\<close>, so the steps are enough in every well-formed state. A
  loop of the reader-writer lock that never ends is shown not to end for any number of steps. The loop of the JSON parser gets twelve steps for
  each byte of the text, and is shown to end within them.

  \<^bold>\<open>Where the code fails.\<close> Several properties prove a defect: the writer's unlock that does not return, the
  base64 decoder that writes past its buffer, the URL decoder that drops a character, ranges that delete or
  add what they should not, a stack that writes through NULL after it was cleaned, a
  hash table whose keys dangle, an expiry scan that misses entries, an update that takes a duration for a time, a forced cleaning
  that is none, a JSON parser that drops leading spaces of strings, a mutex whose lock returns to a killed fiber as if it had it, and a channel that
  keeps the dead frame of a killed fiber.

  \<^bold>\<open>Not modelled.\<close> Machine contexts (\<open>setjmp\<close>, \<open>swapcontext\<close>) and stacks of fibers; system calls, the event
  engine and the hooks of I/O functions, which only call the kernel; locks between threads; memory pools; printing of
  statistics. The other containers of \<open>lib_acl\<close> (\<open>acl_binhash.c\<close>, \<open>acl_argv.c\<close>, \<open>acl_btree.c\<close>),
  the strings, the iterators and utilities of JSON, and the XML parser are the next components.
  The C++ services, generated protocol code and the vendored libraries are outside.
\<close>

section \<open>Containers with two ends agree\<close>

text \<open>A stack does not store NULL; with other objects it takes what a queue takes.\<close>

definition stores_objects :: "seq_op list \<Rightarrow> bool" where
  "stores_objects cs \<longleftrightarrow> PushBack None \<notin> set cs \<and> PushFront None \<notin> set cs"

lemma list_run_objects:
  "stores_objects cs \<Longrightarrow> list_run (\<lambda>x. x \<noteq> None) fr cs xs = list_run (\<lambda>x. True) fr cs xs"
proof (induction cs arbitrary: xs)
  case (Cons c cs)
  have "list_op (\<lambda>x. x \<noteq> None) fr c xs = list_op (\<lambda>x. True) fr c xs"
    using Cons.prems by (cases c) (auto simp: stores_objects_def, metis not_None_eq)
  moreover have "stores_objects cs" using Cons.prems by (auto simp: stores_objects_def)
  ultimately show ?case using Cons.IH by (simp add: split_beta)
qed simp

text \<open>C39: Whatever sequence of pushes and pops of objects is made at the two ends of a new stack and of a new
  queue, the stack, a block that grows and is moved, and the queue, a list of linked nodes, return the same objects.\<close>

theorem stack_and_fifo_agree:
  assumes "stores_objects cs"
  shows "\<exists>rs s f. seq_run stack_push_back stack_push_front stack_pop_back stack_pop_front cs (acl_stack_create n) = Inr (rs, s) \<and>
    seq_run fifo_push_back fifo_push_front fifo_pop_back fifo_pop_front cs acl_fifo_new = Inr (rs, f) \<and>
    length rs = length cs \<and> acl_fifo_size f = vc_count s"
proof -
  obtain rs ys where r: "list_run (\<lambda>x. True) (\<lambda>xs. True) cs [] = (rs, ys)" by fastforce
  then have "list_run (\<lambda>x. x \<noteq> None) (\<lambda>xs. True) cs [] = (rs, ys)" using list_run_objects [OF assms] by simp
  from stack_seq.run_refines [OF acl_stack_create_holds this] obtain s where
    s: "seq_run stack_push_back stack_push_front stack_pop_back stack_pop_front cs (acl_stack_create n) = Inr (rs, s)" "vec_holds s ys"
    by blast
  from fifo_seq.run_refines [OF fifo_new_holds r] obtain f where
    f: "seq_run fifo_push_back fifo_push_front fifo_pop_back fifo_pop_front cs acl_fifo_new = Inr (rs, f)" "fifo_holds f ys"
    by blast
  have "vc_count s = int (length ys)" using s(2) by (auto elim: vec_holdsE)
  moreover have "length rs = length cs" using r list_run_length by (metis fst_conv)
  ultimately show ?thesis using s(1) f(1) fifo_size_holds [OF f(2)] by auto
qed

theorem stack_and_fifo_agree_witness:
  "\<exists>s f. seq_run stack_push_back stack_push_front stack_pop_back stack_pop_front
        [PushBack (Some 1), PushFront (Some 2), PopBack, PopFront, PopFront] (acl_stack_create 1) =
      Inr ([None, None, Some 1, Some 2, None], s) \<and>
    seq_run fifo_push_back fifo_push_front fifo_pop_back fifo_pop_front
        [PushBack (Some 1), PushFront (Some 2), PopBack, PopFront, PopFront] acl_fifo_new =
      Inr ([None, None, Some 1, Some 2, None], f)"
proof -
  let ?cs = "[PushBack (Some 1), PushFront (Some 2), PopBack, PopFront, PopFront]"
  have ok: "stores_objects ?cs" by (simp add: stores_objects_def)
  obtain f' where "seq_run fifo_push_back fifo_push_front fifo_pop_back fifo_pop_front ?cs acl_fifo_new =
      Inr ([None, None, Some 1, Some 2, None], f')"
    using fifo_seq.run_refines [OF fifo_new_holds, of ?cs "[None, None, Some 1, Some 2, None]" "[]"] by auto
  with stack_and_fifo_agree [OF ok, of 1] show ?thesis by auto
qed

section \<open>The two caches agree\<close>

text \<open>C40: the two caches are interchangeable as long as one lifetime holds for all entries, the clock does not run backwards, and entries
  are neither updated, given back by a user nor cleaned by force: under every such sequence of calls both return the same, call \<open>free_fn\<close> on the
  same values in the same order, and show the same entries in the same order.\<close>

theorem caches_agree:
  assumes "acl_cache_create h m ttl True = Some c" "acl_cache2_create m True = Some d" "sorted (0 # map fst xs)" "\<forall>x \<in> set xs. shared_call x"
  shows "\<exists>rs c' d' as bs. calls_run cache_calls xs c = Inr (rs, c') \<and> ops_run cache2_call (map (as_cache2 ttl) xs) d = Inr (rs, d') \<and>
    acl_cache_walk c' = Inr as \<and> acl_cache2_walk d' = Inr bs \<and> map (ca_infos c') as = map (c2_entry d') bs \<and>
    acl_cache_size c' = acl_cache2_size d' \<and> map snd (ca_freed c') = map snd (c2_freed d')"
proof -
  have pos: "0 < ttl" using assms(1) by (simp add: acl_cache_create_def split: if_splits)
  obtain rs fs es where s: "spec_run (nat m) ttl xs [] = (rs, fs, es)" by (cases "spec_run (nat m) ttl xs []")
  have s2: "ops_spec (spec2_call (nat m)) (map (as_cache2 ttl) xs) [] = (rs, fs, es)"
    using run_same [OF _ _ assms(3) _ pos assms(4), of "[]"] s by (simp add: counted_def)
  obtain c' as where "calls_run cache_calls xs c = Inr (rs, c')" "acl_cache_walk c' = Inr as" "map (ca_infos c') as = map Some es"
    "acl_cache_size c' = int (length es)" "map snd (ca_freed c') = fs"
    using cache_run_walk [OF assms(1) s] by blast
  moreover obtain d' bs where "ops_run cache2_call (map (as_cache2 ttl) xs) d = Inr (rs, d')" "acl_cache2_walk d' = Inr bs"
    "map (c2_entry d') bs = map Some es" "acl_cache2_size d' = int (length es)" "map snd (c2_freed d') = fs"
    using cache2_run [OF assms(2) s2] by blast
  ultimately show ?thesis by (intro exI [of _ rs] exI [of _ c'] exI [of _ d'] exI [of _ as] exI [of _ bs]) simp
qed

theorem caches_agree_witness:
  "\<exists>c d rs c' d'. acl_cache_create no_ring 1 10 True = Some c \<and> acl_cache2_create 1 True = Some d \<and>
     calls_run cache_calls [(0, CEnter [1] (Some 7)), (5, CEnter [2] (Some 8)), (20, CTimeout)] c = Inr (rs, c') \<and>
     ops_run cache2_call (map (as_cache2 10) [(0, CEnter [1] (Some 7)), (5, CEnter [2] (Some 8)), (20, CTimeout)]) d = Inr (rs, d') \<and>
     map snd (ca_freed c') = map snd (c2_freed d')"
proof -
  let ?xs = "[(0, CEnter [1] (Some 7)), (5, CEnter [2] (Some 8)), (20, CTimeout)] :: timed_call list"
  obtain c where c: "acl_cache_create no_ring 1 10 True = Some c" using cache_exists [of 1 10] by auto
  obtain d where d: "acl_cache2_create 1 True = Some d" using cache2_exists [of 1] by auto
  have "sorted (0 # map fst ?xs)" "\<forall>x \<in> set ?xs. shared_call x" by simp_all
  from caches_agree [OF c d this] c d show ?thesis by blast
qed

end
